(* ===== verification/Prelude.thy ===== *)
theory Prelude
  imports Complex_Main "HOL-Library.AList" "HOL-Library.Sublist" "HOL-Library.Char_ord"
    "HOL-Library.List_Lexorder"
begin

text \<open>
  Shared ground of the development: the exception values of
  \<^verbatim>\<open>core/errors/exceptions.py\<close>, the string operations of Python's library the source
  uses, insertion-ordered dictionaries, and the generic lemmas on them.

  Conventions used everywhere.
  \<^item> A Python \<open>str\<close> is a \<^typ>\<open>string\<close>; its characters are the code points 0 to 255.
  \<^item> A Python \<open>float\<close> (timeouts, clock readings) is a \<^typ>\<open>real\<close>; rounding is not modelled.
  \<^item> A \<open>dict\<close> is an association list with distinct keys in insertion order:
    \<open>AList.update\<close> overwrites in place or appends, \<open>AList.delete\<close> removes.
  \<^item> A raised exception is \<open>Inl\<close>, a returned value \<open>Inr\<close>.
  \<^item> What the environment supplies (clock readings, fresh identifiers, what a handler or a
    provider does) is an argument of the definition that uses it.
\<close>

subsection \<open>Lemma collections\<close>

named_theorems dict_simps "lookup after update and delete on dictionaries"
named_theorems store_simps "load after save on the entity stores"
named_theorems step_intros "introduction rules for legal transitions"

subsection \<open>Exceptions (core/errors/exceptions.py)\<close>

datatype exn =
    DomainValidationError string
  | InvalidStateTransitionError string string
  | ContextSerializationError string
  | EventBusError string
  | PersistenceError string
  | ResourceNotFoundError string string
  | ModelError string
  | ToolExecutionError string string
  | ToolTimeoutError string real
  | AuthorizationDeniedError string string string
  | PlanValidationError string
  | CircuitOpenError string
  | ConnectionError string
  | OtherException string

type_synonym 'a result = "exn + 'a"

text \<open>\<open>isinstance(exc, DomainValidationError)\<close>: the class and its two subclasses.\<close>

fun is_domain_validation :: "exn \<Rightarrow> bool" where
  "is_domain_validation (DomainValidationError _) = True"
| "is_domain_validation (InvalidStateTransitionError _ _) = True"
| "is_domain_validation (PlanValidationError _) = True"
| "is_domain_validation _ = False"

text \<open>\<open>isinstance(exc, ToolError)\<close>.\<close>

fun is_tool_error :: "exn \<Rightarrow> bool" where
  "is_tool_error (ToolExecutionError _ _) = True"
| "is_tool_error (ToolTimeoutError _ _) = True"
| "is_tool_error _ = False"

definition bind_result :: "'a result \<Rightarrow> ('a \<Rightarrow> 'b result) \<Rightarrow> 'b result" where
  "bind_result r f = (case r of Inl e \<Rightarrow> Inl e | Inr x \<Rightarrow> f x)"

lemma bind_result_simps [simp]:
  "bind_result (Inl e) f = Inl e"
  "bind_result (Inr x) f = f x"
  by (simp_all add: bind_result_def)

lemma bind_result_Inr_iff:
  "bind_result r f = Inr y \<longleftrightarrow> (\<exists>x. r = Inr x \<and> f x = Inr y)"
  by (cases r) simp_all

lemma bind_result_cong [fundef_cong]:
  "r = r' \<Longrightarrow> (\<And>x. r' = Inr x \<Longrightarrow> f x = f' x) \<Longrightarrow> bind_result r f = bind_result r' f'"
  by (cases r') simp_all

definition is_inr :: "'a + 'b \<Rightarrow> bool" where
  "is_inr r = (case r of Inl _ \<Rightarrow> False | Inr _ \<Rightarrow> True)"

lemma is_inr_simps [simp]: "\<not> is_inr (Inl e)" "is_inr (Inr x)"
  by (simp_all add: is_inr_def)

lemma is_inr_iff: "is_inr r \<longleftrightarrow> (\<exists>x. r = Inr x)"
  by (cases r) simp_all

subsection \<open>Python's string operations\<close>

text \<open>\<open>needle in hay\<close> on strings.\<close>

fun str_in :: "string \<Rightarrow> string \<Rightarrow> bool" where
  "str_in p [] = (p = [])"
| "str_in p (c # cs) = (prefix p (c # cs) \<or> str_in p cs)"

lemma str_in_iff_sublist: "str_in p s \<longleftrightarrow> sublist p s"
proof (induction s)
  case Nil
  then show ?case by simp
next
  case (Cons c cs)
  then show ?case by (auto simp: sublist_Cons_right)
qed

lemma str_in_append: "str_in p s \<Longrightarrow> str_in p (a @ s @ b)"
  unfolding str_in_iff_sublist by (metis sublist_appendI sublist_order.order.trans)

definition join_str :: "string \<Rightarrow> string list \<Rightarrow> string" where
  "join_str sep xs = (case xs of [] \<Rightarrow> [] | y # ys \<Rightarrow> y @ concat (map (\<lambda>s. sep @ s) ys))"

text \<open>\<open>str.lower\<close> on code points 0 to 255.\<close>

definition lower_char :: "char \<Rightarrow> char" where
  "lower_char c =
     (let n = (of_char c :: nat) in
      if (65 \<le> n \<and> n \<le> 90) \<or> (192 \<le> n \<and> n \<le> 222 \<and> n \<noteq> 215) then char_of (n + 32) else c)"

definition lower_str :: "string \<Rightarrow> string" where
  "lower_str s = map lower_char s"

text \<open>\<open>str.isspace\<close> for one character, and \<open>s.strip()\<close>.\<close>

definition is_space_char :: "char \<Rightarrow> bool" where
  "is_space_char c =
     (let n = (of_char c :: nat) in
      (9 \<le> n \<and> n \<le> 13) \<or> (28 \<le> n \<and> n \<le> 32) \<or> n = 133 \<or> n = 160)"

definition strip_str :: "string \<Rightarrow> string" where
  "strip_str s = rev (dropWhile is_space_char (rev (dropWhile is_space_char s)))"

lemma strip_str_Nil_iff: "strip_str s = [] \<longleftrightarrow> (\<forall>c \<in> set s. is_space_char c)"
proof
  assume "strip_str s = []"
  then have "\<forall>c \<in> set (dropWhile is_space_char s). is_space_char c"
    by (simp add: strip_str_def)
  then show "\<forall>c \<in> set s. is_space_char c"
    by (metis (no_types, lifting) dropWhile_eq_Nil_conv hd_dropWhile hd_in_set)
next
  assume "\<forall>c \<in> set s. is_space_char c"
  then show "strip_str s = []"
    by (auto simp: strip_str_def dropWhile_eq_Nil_conv dest: set_dropWhileD)
qed

text \<open>\<open>s.split(sep)\<close> for a one-character separator.\<close>

fun split_char :: "char \<Rightarrow> string \<Rightarrow> string list" where
  "split_char sep [] = [[]]"
| "split_char sep (c # cs) =
     (if c = sep then [] # split_char sep cs
      else (case split_char sep cs of [] \<Rightarrow> [[c]] | w # ws \<Rightarrow> (c # w) # ws))"

text \<open>Decimal text of an integer, \<open>str(n)\<close>.\<close>

fun nat_digits :: "nat \<Rightarrow> string" where
  "nat_digits n =
     (if n < 10 then [char_of (48 + n)] else nat_digits (n div 10) @ [char_of (48 + n mod 10)])"

declare nat_digits.simps [simp del]

definition int_text :: "int \<Rightarrow> string" where
  "int_text i = (if i < 0 then CHR ''-'' # nat_digits (nat (- i)) else nat_digits (nat i))"

text \<open>Two lower-case hexadecimal digits, and \<open>repr\<close> of a string.\<close>

definition hex_digit :: "nat \<Rightarrow> char" where
  "hex_digit n = (if n < 10 then char_of (48 + n) else char_of (87 + n))"

definition hex2 :: "nat \<Rightarrow> string" where
  "hex2 n = [hex_digit (n div 16), hex_digit (n mod 16)]"

definition repr_char :: "char \<Rightarrow> char \<Rightarrow> string" where
  "repr_char q c =
     (let n = (of_char c :: nat) in
      if c = q \<or> n = 92 then [CHR 0x5C, c]
      else if n = 10 then [CHR 0x5C, CHR ''n'']
      else if n = 13 then [CHR 0x5C, CHR ''r'']
      else if n = 9 then [CHR 0x5C, CHR ''t'']
      else if n < 32 \<or> (127 \<le> n \<and> n \<le> 160) \<or> n = 173 then [CHR 0x5C, CHR ''x''] @ hex2 n
      else [c])"

definition repr_str :: "string \<Rightarrow> string" where
  "repr_str s =
     (let q = (if CHR 0x27 \<in> set s \<and> CHR 0x22 \<notin> set s then CHR 0x22 else CHR 0x27)
      in q # concat (map (repr_char q) s) @ [q])"

subsection \<open>Dictionaries\<close>

abbreviation dict_set :: "'k \<Rightarrow> 'v \<Rightarrow> ('k \<times> 'v) list \<Rightarrow> ('k \<times> 'v) list" where
  "dict_set \<equiv> AList.update"

abbreviation dict_del :: "'k \<Rightarrow> ('k \<times> 'v) list \<Rightarrow> ('k \<times> 'v) list" where
  "dict_del \<equiv> AList.delete"

abbreviation keys :: "('k \<times> 'v) list \<Rightarrow> 'k list" where
  "keys d \<equiv> map fst d"

lemma map_of_dict_set [simp, dict_simps]:
  "map_of (dict_set k v d) k' = (if k' = k then Some v else map_of d k')"
  by (simp add: update_conv')

lemma map_of_dict_del [simp, dict_simps]:
  "map_of (dict_del k d) k' = (if k' = k then None else map_of d k')"
  by (simp add: delete_conv')

lemma set_keys_dict_set [simp]: "fst ` set (dict_set k v d) = insert k (fst ` set d)"
  by (induction d) auto

lemma set_keys_dict_del [simp]: "fst ` set (dict_del k d) = fst ` set d - {k}"
  by (induction d) auto

lemma distinct_keys_dict_set: "distinct (keys d) \<Longrightarrow> distinct (keys (dict_set k v d))"
  by (rule distinct_update)

lemma distinct_keys_dict_del: "distinct (keys d) \<Longrightarrow> distinct (keys (dict_del k d))"
  by (rule distinct_delete)

lemma keys_dict_set_mem: "k \<in> set (keys d) \<Longrightarrow> keys (dict_set k v d) = keys d"
  by (induction d) auto

lemma keys_dict_set_new: "k \<notin> set (keys d) \<Longrightarrow> keys (dict_set k v d) = keys d @ [k]"
  by (induction d) auto

lemma map_of_None_keys: "map_of d k = None \<longleftrightarrow> k \<notin> set (keys d)"
  by (simp add: map_of_eq_None_iff)

lemma map_of_Some_keys: "map_of d k = Some v \<Longrightarrow> k \<in> set (keys d)"
  by (metis map_of_None_keys option.distinct(1))

lemma map_of_in_values: "map_of d k = Some v \<Longrightarrow> v \<in> snd ` set d"
  by (metis image_iff map_of_SomeD snd_conv)

subsection \<open>Lists\<close>

lemma filter_length_mono:
  "(\<And>x. x \<in> set xs \<Longrightarrow> P x \<Longrightarrow> Q x) \<Longrightarrow> length (filter P xs) \<le> length (filter Q xs)"
  by (induction xs) (auto intro: le_SucI)

lemma filter_length_less:
  assumes "\<And>x. x \<in> set xs \<Longrightarrow> P x \<Longrightarrow> Q x" and "y \<in> set xs" and "Q y" and "\<not> P y"
  shows "length (filter P xs) < length (filter Q xs)"
  using assms
proof (induction xs)
  case Nil
  then show ?case by simp
next
  case (Cons x xs)
  show ?case
  proof (cases "x = y")
    case True
    with Cons.prems filter_length_mono [of xs P Q] show ?thesis by (simp add: less_Suc_eq_le)
  next
    case False
    with Cons show ?thesis by (auto intro: less_SucI)
  qed
qed

lemma find_Some_in_set: "find P xs = Some x \<Longrightarrow> x \<in> set xs \<and> P x"
  by (auto simp: find_Some_iff)

lemma distinct_map_Cons: "distinct (map f (y # ys)) \<Longrightarrow> x \<in> set ys \<Longrightarrow> f x \<noteq> f y"
  by (metis distinct.simps(2) image_eqI list.set_map list.simps(9))

lemma sorted_le_last: "sorted (map f ys) \<Longrightarrow> x \<in> set ys \<Longrightarrow> f x \<le> f (last ys)"
  by (induction ys) auto

lemma last_sort_key_max:
  fixes f :: "'a \<Rightarrow> 'b :: linorder"
  assumes "x \<in> set xs" and "\<And>y. y \<in> set xs \<Longrightarrow> y \<noteq> x \<Longrightarrow> f y < f x"
  shows "sort_key f xs \<noteq> [] \<and> last (sort_key f xs) = x"
proof
  show ne: "sort_key f xs \<noteq> []" using assms(1) by (metis empty_iff list.set(1) set_sort)
  let ?y = "last (sort_key f xs)"
  have "?y \<in> set xs" using last_in_set [OF ne] by simp
  moreover have "f x \<le> f ?y" by (rule sorted_le_last) (simp_all add: assms(1))
  ultimately show "?y = x" using assms(2) [of ?y] by fastforce
qed

end
