(* ===== verification/Store.thy ===== *)
theory Store
  imports Prelude "HOL-Library.Multiset"
begin

text \<open>
  Entities (\<^verbatim>\<open>core/models/base.py\<close>) and the snapshot table that every repository of
  \<^verbatim>\<open>core/persistence/sqlite.py\<close> wraps. A table is the association list of its rows in
  insertion order; the serialised snapshot of a row is the entity itself (pydantic's JSON
  round trip), and a row's \<open>updated_at\<close> column is the entity's. The locale \<open>entity_store\<close> is
  the contract the clients rely on; it is interpreted on the snapshot table and on the
  in-process dictionary that stands in for it.
\<close>

record entity =
  ent_id :: string
  ent_created :: real
  ent_updated :: real

definition touch :: "real \<Rightarrow> 'a entity_scheme \<Rightarrow> 'a entity_scheme" where
  "touch now x = x\<lparr>ent_updated := now\<rparr>"

lemma touch_simps [simp]:
  "ent_id (touch now x) = ent_id x" "ent_created (touch now x) = ent_created x"
  "ent_updated (touch now x) = now" "entity.more (touch now x) = entity.more x"
  by (simp_all add: touch_def)

subsection \<open>The snapshot table\<close>

type_synonym 'a table = "(string \<times> 'a) list"

definition tbl_create ::
  "real \<Rightarrow> 'a entity_scheme \<Rightarrow> 'a entity_scheme table
     \<Rightarrow> ('a entity_scheme \<times> 'a entity_scheme table) result" where
  "tbl_create now item t =
     (let item' = touch now item in
      if ent_id item' \<in> set (keys t)
      then Inl (PersistenceError ''database error: UNIQUE constraint failed'')
      else Inr (item', t @ [(ent_id item', item')]))"

definition tbl_get :: "string \<Rightarrow> 'a entity_scheme table \<Rightarrow> 'a entity_scheme option" where
  "tbl_get i t = map_of t i"

definition tbl_update ::
  "real \<Rightarrow> 'a entity_scheme \<Rightarrow> 'a entity_scheme table
     \<Rightarrow> ('a entity_scheme \<times> 'a entity_scheme table) result" where
  "tbl_update now item t =
     (let item' = touch now item in
      if ent_id item' \<in> set (keys t)
      then Inr (item', dict_set (ent_id item') item' t)
      else tbl_create now item' t)"

definition tbl_delete :: "string \<Rightarrow> 'a entity_scheme table \<Rightarrow> bool \<times> 'a entity_scheme table" where
  "tbl_delete i t = (i \<in> set (keys t), dict_del i t)"

definition tbl_list :: "'a entity_scheme table \<Rightarrow> 'a entity_scheme list" where
  "tbl_list t = sort_key ent_updated (map snd t)"

definition wf_table :: "'a entity_scheme table \<Rightarrow> bool" where
  "wf_table t \<longleftrightarrow> distinct (keys t) \<and> (\<forall>(k, x) \<in> set t. k = ent_id x)"

lemma dict_set_new: "k \<notin> set (keys d) \<Longrightarrow> dict_set k v d = d @ [(k, v)]"
  by (induction d) auto

text \<open>\<open>update\<close> never fails: the row it does not find it creates.\<close>

lemma tbl_update_eq [store_simps]:
  "tbl_update now item t = Inr (touch now item, dict_set (ent_id item) (touch now item) t)"
  by (auto simp: tbl_update_def tbl_create_def Let_def dict_set_new touch_def)

lemma tbl_create_Inr [store_simps]:
  "tbl_create now item t = Inr (x, t') \<longleftrightarrow>
     tbl_get (ent_id item) t = None \<and> x = touch now item \<and> t' = dict_set (ent_id item) x t"
  by (auto simp: tbl_create_def tbl_get_def Let_def map_of_None_keys dict_set_new touch_def)

lemma wf_table_dict_set: "wf_table t \<Longrightarrow> wf_table (dict_set (ent_id x) x t)"
proof -
  assume "wf_table t"
  moreover have "set (dict_set (ent_id x) x t) \<subseteq> insert (ent_id x, x) (set t)"
    by (induction t) auto
  ultimately show ?thesis by (auto simp: wf_table_def distinct_keys_dict_set)
qed

lemma wf_table_dict_del: "wf_table t \<Longrightarrow> wf_table (dict_del i t)"
  using distinct_keys_dict_del [of t i] by (auto simp: wf_table_def AList.delete_eq)

lemma wf_table_get: "wf_table t \<Longrightarrow> map_of t i = Some x \<Longrightarrow> ent_id x = i"
  by (auto simp: wf_table_def dest!: map_of_SomeD)

lemma wf_table_mem:
  "wf_table t \<Longrightarrow> x \<in> snd ` set t \<longleftrightarrow> map_of t (ent_id x) = Some x"
  by (force simp: wf_table_def image_iff)

lemma wf_table_ids: "wf_table t \<Longrightarrow> map ent_id (map snd t) = keys t"
  by (induction t) (auto simp: wf_table_def)

lemma set_tbl_list: "wf_table t \<Longrightarrow> x \<in> set (tbl_list t) \<longleftrightarrow> tbl_get (ent_id x) t = Some x"
  by (simp add: tbl_list_def tbl_get_def wf_table_mem)

lemma distinct_tbl_list: "wf_table t \<Longrightarrow> distinct (map ent_id (tbl_list t))"
proof -
  assume wf: "wf_table t"
  have "mset (map ent_id (tbl_list t)) = mset (map ent_id (map snd t))"
    by (simp add: tbl_list_def multiset.map_comp)
  then show ?thesis using wf by (metis mset_eq_imp_distinct_iff wf_table_def wf_table_ids)
qed

subsection \<open>The contract of an entity store\<close>

locale entity_store =
  fixes put :: "'e \<Rightarrow> 's \<Rightarrow> 's"
    and lookup :: "string \<Rightarrow> 's \<Rightarrow> 'e option"
    and items :: "'s \<Rightarrow> 'e list"
    and inv :: "'s \<Rightarrow> bool"
    and key :: "'e \<Rightarrow> string"
    and stamp :: "'e \<Rightarrow> 'e"
  assumes lookup_put: "inv s \<Longrightarrow> lookup i (put e s) = (if i = key e then Some (stamp e) else lookup i s)"
    and inv_put: "inv s \<Longrightarrow> inv (put e s)"
    and mem_items: "inv s \<Longrightarrow> e \<in> set (items s) \<longleftrightarrow> lookup (key e) s = Some e"
    and distinct_items: "inv s \<Longrightarrow> distinct (map key (items s))"
    and key_lookup: "inv s \<Longrightarrow> lookup i s = Some e \<Longrightarrow> key e = i"
    and key_stamp: "key (stamp e) = key e"
begin

definition put_all :: "'e list \<Rightarrow> 's \<Rightarrow> 's" where
  "put_all es s = fold put es s"

lemma inv_put_all: "inv s \<Longrightarrow> inv (put_all es s)"
  unfolding put_all_def by (induction es arbitrary: s) (auto simp: inv_put)

lemma lookup_put_all_other:
  "inv s \<Longrightarrow> i \<notin> key ` set es \<Longrightarrow> lookup i (put_all es s) = lookup i s"
  unfolding put_all_def by (induction es arbitrary: s) (auto simp: inv_put lookup_put)

lemma lookup_put_all:
  "inv s \<Longrightarrow> distinct (map key es) \<Longrightarrow> e \<in> set es
     \<Longrightarrow> lookup (key e) (put_all es s) = Some (stamp e)"
proof (induction es arbitrary: s)
  case Nil
  then show ?case by simp
next
  case (Cons d es)
  show ?case
  proof (cases "e = d")
    case True
    with Cons.prems have "key e \<notin> key ` set es" by simp
    then have "lookup (key e) (put_all es (put d s)) = lookup (key e) (put d s)"
      by (rule lookup_put_all_other [OF inv_put [OF Cons.prems(1)]])
    with True Cons.prems show ?thesis by (simp add: put_all_def lookup_put)
  next
    case False
    with Cons.prems have "lookup (key e) (put_all es (put d s)) = Some (stamp e)"
      by (intro Cons.IH) (auto simp: inv_put)
    then show ?thesis by (simp add: put_all_def)
  qed
qed

text \<open>
  The shape of every batch pass of the program: walk the listed entities, save a changed copy
  of those that satisfy a condition.
\<close>

definition sweep :: "('e \<Rightarrow> bool) \<Rightarrow> ('e \<Rightarrow> 'e) \<Rightarrow> 'e list \<Rightarrow> 's \<Rightarrow> 's" where
  "sweep P f es s = fold (\<lambda>e st. if P e then put (f e) st else st) es s"

lemma sweep_put_all: "sweep P f es s = put_all (map f (filter P es)) s"
  unfolding sweep_def put_all_def by (induction es arbitrary: s) auto

lemma inv_sweep: "inv s \<Longrightarrow> inv (sweep P f es s)"
  by (simp add: sweep_put_all inv_put_all)

theorem lookup_sweep:
  assumes "inv s" and key_f: "\<And>e. key (f e) = key e"
  shows "lookup i (sweep P f (items s) s) =
    (case lookup i s of None \<Rightarrow> None | Some e \<Rightarrow> Some (if P e then stamp (f e) else e))"
proof -
  let ?es = "map f (filter P (items s))"
  have "distinct (map key (filter P (items s)))"
    using distinct_items [OF assms(1)] by (simp add: distinct_map_filter)
  then have dist: "distinct (map key ?es)" by (simp add: key_f comp_def)
  show ?thesis
  proof (cases "\<exists>e. lookup i s = Some e \<and> P e")
    case True
    then obtain e where e: "lookup i s = Some e" "P e" by blast
    with key_lookup [OF assms(1)] have ki: "key e = i" by blast
    with e mem_items [OF assms(1)] have "f e \<in> set ?es" by auto
    from lookup_put_all [OF assms(1) dist this] show ?thesis
      by (simp add: sweep_put_all e key_f ki)
  next
    case False
    then have "i \<notin> key ` set ?es"
      using mem_items [OF assms(1)] key_f by auto
    from lookup_put_all_other [OF assms(1) this] show ?thesis
      using False by (auto simp: sweep_put_all split: option.splits)
  qed
qed

end

subsection \<open>The two providers\<close>

text \<open>The snapshot table, saving with \<open>update\<close> at time \<open>now\<close>.\<close>

definition tbl_put :: "real \<Rightarrow> 'a entity_scheme \<Rightarrow> 'a entity_scheme table \<Rightarrow> 'a entity_scheme table"
  where "tbl_put now x t = (case tbl_update now x t of Inl _ \<Rightarrow> t | Inr (_, t') \<Rightarrow> t')"

interpretation snapshot_table:
  entity_store "tbl_put now" tbl_get tbl_list wf_table ent_id "touch now" for now
proof unfold_locales
  show "wf_table t \<Longrightarrow> wf_table (tbl_put now e t)" for t :: "'a entity_scheme table" and e
    using wf_table_dict_set [of t "touch now e"] by (simp add: tbl_put_def store_simps)
qed (auto simp: tbl_put_def store_simps tbl_get_def set_tbl_list [unfolded tbl_get_def]
    distinct_tbl_list wf_table_get)

text \<open>The in-process dictionary \<open>_memory\<close>: the request is touched and stored, \<open>values()\<close> lists.\<close>

definition mem_put :: "real \<Rightarrow> 'a entity_scheme \<Rightarrow> 'a entity_scheme table \<Rightarrow> 'a entity_scheme table"
  where "mem_put now x m = dict_set (ent_id x) (touch now x) m"

definition mem_values :: "'a entity_scheme table \<Rightarrow> 'a entity_scheme list" where
  "mem_values m = map snd m"

interpretation memory_dict:
  entity_store "mem_put now" tbl_get mem_values wf_table ent_id "touch now" for now
proof unfold_locales
  show "wf_table t \<Longrightarrow> wf_table (mem_put now e t)" for t :: "'a entity_scheme table" and e
    using wf_table_dict_set [of t "touch now e"] by (simp add: mem_put_def)
  show "wf_table t \<Longrightarrow> distinct (map ent_id (mem_values t))" for t :: "'a entity_scheme table"
    by (metis mem_values_def wf_table_def wf_table_ids)
qed (auto simp: mem_put_def mem_values_def tbl_get_def wf_table_mem wf_table_get)

end
