(* ===== verification/Json.thy ===== *)
theory Json
  imports Prelude "HOL-Library.Multiset"
begin

text \<open>
  JSON values, the type of tool arguments, payloads and schemas, and \<open>json.dumps\<close> as the
  source calls it for canonical text (\<open>sort_keys=True, separators=(",", ":")\<close>, ASCII
  output). The text of a canonical dump determines the value up to the order of the keys of
  its objects (\<open>canonical_inj\<close>); every hash the program takes of a canonical dump rests on
  this. A float is carried as the text \<open>float.__repr__\<close> gives it.
\<close>

datatype json =
    JNull
  | JBool bool
  | JInt int
  | JFloat string
  | JStr string
  | JList "json list"
  | JObj "(string \<times> json) list"

subsection \<open>json.dumps\<close>

definition escape_char :: "char \<Rightarrow> string" where
  "escape_char c =
     (let n = (of_char c :: nat) in
      if n = 34 \<or> n = 92 then [CHR 0x5C, c]
      else if n = 10 then [CHR 0x5C, CHR ''n'']
      else if n = 13 then [CHR 0x5C, CHR ''r'']
      else if n = 9 then [CHR 0x5C, CHR ''t'']
      else if n = 12 then [CHR 0x5C, CHR ''f'']
      else if n = 8 then [CHR 0x5C, CHR ''b'']
      else if n < 32 \<or> 126 < n then [CHR 0x5C, CHR ''u'', CHR ''0'', CHR ''0''] @ hex2 n
      else [c])"

definition dump_str :: "string \<Rightarrow> string" where
  "dump_str s = CHR 0x22 # concat (map escape_char s) @ [CHR 0x22]"

fun dump :: "json \<Rightarrow> string"
  and dump_items :: "json list \<Rightarrow> string"
  and dump_members :: "(string \<times> json) list \<Rightarrow> string" where
  "dump JNull = ''null''"
| "dump (JBool b) = (if b then ''true'' else ''false'')"
| "dump (JInt i) = int_text i"
| "dump (JFloat t) = t"
| "dump (JStr s) = dump_str s"
| "dump (JList xs) = CHR 0x5B # dump_items xs"
| "dump (JObj ms) = CHR 0x7B # dump_members ms"
| "dump_items [] = [CHR 0x5D]"
| "dump_items (x # xs) = dump x @ (if xs = [] then [CHR 0x5D] else CHR 0x2C # dump_items xs)"
| "dump_members [] = [CHR 0x7D]"
| "dump_members ((k, x) # ms) =
     dump_str k @ CHR 0x3A # dump x @ (if ms = [] then [CHR 0x7D] else CHR 0x2C # dump_members ms)"

text \<open>\<open>sort_keys=True\<close> sorts the members of every object by key.\<close>

fun sort_json :: "json \<Rightarrow> json" where
  "sort_json (JList xs) = JList (map sort_json xs)"
| "sort_json (JObj ms) = JObj (sort_key fst (map (\<lambda>(k, x). (k, sort_json x)) ms))"
| "sort_json v = v"

definition canonical :: "json \<Rightarrow> string" where
  "canonical v = dump (sort_json v)"

subsection \<open>Well-formed values\<close>

text \<open>
  What is known of the text of a float: it starts like a number (or like \<open>NaN\<close>,
  \<open>Infinity\<close>), holds none of the characters that delimit JSON values, and is not the text of
  an integer.
\<close>

definition is_digit :: "char \<Rightarrow> bool" where
  "is_digit c \<longleftrightarrow> 48 \<le> (of_char c :: nat) \<and> (of_char c :: nat) \<le> 57"

definition number_char :: "char \<Rightarrow> bool" where
  "number_char c \<longleftrightarrow> is_digit c \<or> c = CHR ''-''"

definition float_text :: "string \<Rightarrow> bool" where
  "float_text t \<longleftrightarrow> t \<noteq> [] \<and> (number_char (hd t) \<or> hd t = CHR ''I'' \<or> hd t = CHR ''N'')
     \<and> (\<forall>c \<in> set t. c \<notin> {CHR 0x2C, CHR 0x5D, CHR 0x7D})
     \<and> (\<exists>c \<in> set t. \<not> number_char c)"

fun wf_json :: "json \<Rightarrow> bool" where
  "wf_json (JFloat t) = float_text t"
| "wf_json (JList xs) = (\<forall>x \<in> set xs. wf_json x)"
| "wf_json (JObj ms) = (distinct (map fst ms) \<and> (\<forall>m \<in> set ms. wf_json (snd m)))"
| "wf_json _ = True"

subsection \<open>The text determines the value\<close>

text \<open>Reading an escaped character back.\<close>

definition hex_value :: "char \<Rightarrow> nat" where
  "hex_value c = (let n = of_char c in if n < 58 then n - 48 else n - 87)"

definition unescape :: "string \<Rightarrow> char \<times> string" where
  "unescape t =
     (if hd t \<noteq> CHR 0x5C then (hd t, tl t)
      else let c = t ! 1 in
        if c = CHR ''u'' then (char_of (16 * hex_value (t ! 4) + hex_value (t ! 5)), drop 6 t)
        else (if c = CHR ''n'' then char_of (10 :: nat)
              else if c = CHR ''r'' then char_of (13 :: nat)
              else if c = CHR ''t'' then char_of (9 :: nat)
              else if c = CHR ''f'' then char_of (12 :: nat)
              else if c = CHR ''b'' then char_of (8 :: nat) else c, drop 2 t))"

lemma of_char_less [simp]: "(of_char c :: nat) < 256"
  using of_char_mod_256 [of c, where 'a = nat] by (metis mod_less_divisor zero_less_numeral)

lemma hex_value_hex_digit: "n < 16 \<Longrightarrow> hex_value (hex_digit n) = n"
  by (auto simp: hex_value_def hex_digit_def of_char_of Let_def)

lemma hex2_value: "n < 256 \<Longrightarrow> 16 * hex_value (hex2 n ! 0) + hex_value (hex2 n ! 1) = n"
proof -
  assume n: "n < 256"
  have "hex_value (hex_digit (n div 16)) = n div 16" "hex_value (hex_digit (n mod 16)) = n mod 16"
    using n by (auto intro: hex_value_hex_digit)
  then show ?thesis by (simp add: hex2_def)
qed

lemma char_eqI: "(of_char c :: nat) = n \<Longrightarrow> c = char_of n"
  by (metis char_of_char)

lemma unescape_escape: "unescape (escape_char c @ r) = (c, r)"
proof -
  let ?n = "of_char c :: nat"
  consider "?n = 34 \<or> ?n = 92" | "?n = 10" | "?n = 13" | "?n = 9" | "?n = 12" | "?n = 8"
    | "?n \<notin> {34, 92, 10, 13, 9, 12, 8}" "?n < 32 \<or> 126 < ?n"
    | "?n \<notin> {34, 92}" "32 \<le> ?n" "?n \<le> 126" by fastforce
  then show ?thesis
  proof cases
    case 1
    then have "of_char c = (of_char (CHR 0x22) :: nat) \<or> of_char c = (of_char (CHR 0x5C) :: nat)"
      by simp
    then have "c = CHR 0x22 \<or> c = CHR 0x5C" by (simp only: of_char_eq_iff)
    then show ?thesis by (auto simp: escape_char_def unescape_def)
  next
    case 7
    then have e: "escape_char c = [CHR 0x5C, CHR ''u'', CHR ''0'', CHR ''0''] @ hex2 ?n"
      by (auto simp: escape_char_def Let_def)
    show ?thesis unfolding e using hex2_value [of ?n] by (simp add: unescape_def hex2_def)
  next
    case 8
    then have "escape_char c = [c]" by (auto simp: escape_char_def Let_def)
    moreover have "c \<noteq> CHR 0x5C" using 8 by auto
    ultimately show ?thesis by (simp add: unescape_def)
  qed (auto simp: escape_char_def unescape_def Let_def dest: char_eqI)
qed

lemma escape_char_prefix_free:
  "escape_char c @ r = escape_char d @ s \<Longrightarrow> c = d \<and> r = s"
  by (metis unescape_escape prod.inject)

lemma escape_char_not_quote: "escape_char c @ r \<noteq> CHR 0x22 # s"
  by (auto simp: escape_char_def Let_def)

lemma escaped_prefix_free:
  "concat (map escape_char a) @ CHR 0x22 # r = concat (map escape_char b) @ CHR 0x22 # s
     \<Longrightarrow> a = b \<and> r = s"
proof (induction a arbitrary: b)
  case Nil
  then show ?case
    by (cases b) (auto simp: escape_char_not_quote dest: sym)
next
  case (Cons c a)
  show ?case
  proof (cases b)
    case Nil
    with Cons.prems show ?thesis by (simp add: escape_char_not_quote)
  next
    case (Cons d b')
    with Cons.prems have "c = d \<and> concat (map escape_char a) @ CHR 0x22 # r
        = concat (map escape_char b') @ CHR 0x22 # s"
      by (intro escape_char_prefix_free) simp
    with Cons Cons.IH show ?thesis by blast
  qed
qed

lemma dump_str_prefix_free: "dump_str a @ r = dump_str b @ s \<Longrightarrow> a = b \<and> r = s"
  by (rule escaped_prefix_free) (simp add: dump_str_def)

text \<open>Decimal digits determine the number.\<close>

fun digits_value :: "string \<Rightarrow> nat" where
  "digits_value [] = 0"
| "digits_value (c # cs) = digits_value cs + (of_char c - 48) * 10 ^ length cs"

lemma digits_value_append:
  "digits_value (a @ b) = digits_value a * 10 ^ length b + digits_value b"
  by (induction a) (simp_all add: power_add algebra_simps)

lemma digits_value_nat_digits: "digits_value (nat_digits n) = n"
proof (induction n rule: nat_digits.induct)
  case (1 n)
  show ?case
  proof (cases "n < 10")
    case True
    then show ?thesis by (simp add: nat_digits.simps [of n] of_char_of)
  next
    case False
    with 1 have "digits_value (nat_digits (n div 10)) = n div 10" by simp
    moreover have "nat_digits n = nat_digits (n div 10) @ [char_of (48 + n mod 10)]"
      using False by (simp add: nat_digits.simps [of n])
    ultimately show ?thesis by (simp add: digits_value_append of_char_of)
  qed
qed

lemma nat_digits_inj: "nat_digits m = nat_digits n \<Longrightarrow> m = n"
  by (metis digits_value_nat_digits)

lemma is_digit_char: "(d :: nat) < 10 \<Longrightarrow> is_digit (char_of (48 + d))"
  by (simp add: is_digit_def of_char_of)

lemma nat_digits_chars: "c \<in> set (nat_digits n) \<Longrightarrow> is_digit c"
proof (induction n rule: nat_digits.induct)
  case (1 n)
  show ?case
  proof (cases "n < 10")
    case True
    with "1.prems" have "c = char_of (48 + n)" by (subst (asm) nat_digits.simps) simp
    with True show ?thesis by (simp only: is_digit_char)
  next
    case False
    with "1.prems" have "c \<in> set (nat_digits (n div 10)) \<or> c = char_of (48 + n mod 10)"
      by (subst (asm) nat_digits.simps) auto
    moreover have "is_digit (char_of (48 + n mod 10))" by (rule is_digit_char) simp
    ultimately show ?thesis using False "1.IH" by blast
  qed
qed

lemma nat_digits_nonempty [simp]: "nat_digits n \<noteq> []"
  by (subst nat_digits.simps) simp

lemma int_text_chars: "c \<in> set (int_text i) \<Longrightarrow> number_char c"
  using nat_digits_chars by (auto simp: int_text_def number_char_def split: if_splits)

lemma int_text_nonempty [simp]: "int_text i \<noteq> []"
  by (simp add: int_text_def)

lemma nat_digits_no_minus: "nat_digits n \<noteq> CHR ''-'' # t"
proof
  assume "nat_digits n = CHR ''-'' # t"
  then have "is_digit (CHR ''-'')" using nat_digits_chars [of "CHR ''-''" n] by simp
  then show False by (simp add: is_digit_def)
qed

lemma int_text_inj: "int_text i = int_text j \<Longrightarrow> i = j"
proof -
  assume eq: "int_text i = int_text j"
  consider "i < 0" "j < 0" | "\<not> i < 0" "\<not> j < 0" | "i < 0" "\<not> j < 0" | "\<not> i < 0" "j < 0"
    by blast
  then show ?thesis
  proof cases
    case 1
    with eq nat_digits_inj [of "nat (- i)" "nat (- j)"] show ?thesis by (simp add: int_text_def)
  next
    case 2
    with eq nat_digits_inj [of "nat i" "nat j"] show ?thesis by (simp add: int_text_def)
  next
    case 3
    with eq have "nat_digits (nat j) = CHR ''-'' # nat_digits (nat (- i))"
      by (simp add: int_text_def)
    then show ?thesis by (simp add: nat_digits_no_minus)
  next
    case 4
    with eq have "nat_digits (nat i) = CHR ''-'' # nat_digits (nat (- j))"
      by (simp add: int_text_def)
    then show ?thesis by (simp add: nat_digits_no_minus)
  qed
qed

text \<open>Scalars: their text has no delimiter, and its first character tells the kind.\<close>

definition delimiter :: "char \<Rightarrow> bool" where
  "delimiter c \<longleftrightarrow> c = CHR 0x2C \<or> c = CHR 0x5D \<or> c = CHR 0x7D"

definition delimited :: "string \<Rightarrow> bool" where
  "delimited r \<longleftrightarrow> r = [] \<or> delimiter (hd r)"

lemma delimited_simps [simp]:
  "delimited []" "delimited (CHR 0x2C # r)" "delimited (CHR 0x5D # r)" "delimited (CHR 0x7D # r)"
  by (simp_all add: delimited_def delimiter_def)

fun scalar :: "json \<Rightarrow> bool" where
  "scalar JNull = True"
| "scalar (JBool _) = True"
| "scalar (JInt _) = True"
| "scalar (JFloat _) = True"
| "scalar _ = False"

lemma number_char_not:
  "number_char c \<Longrightarrow> c \<noteq> CHR 0x22" "number_char c \<Longrightarrow> c \<noteq> CHR 0x5B" "number_char c \<Longrightarrow> c \<noteq> CHR 0x7B"
  "number_char c \<Longrightarrow> c \<noteq> CHR ''n''" "number_char c \<Longrightarrow> c \<noteq> CHR ''t''" "number_char c \<Longrightarrow> c \<noteq> CHR ''f''"
  "number_char c \<Longrightarrow> \<not> delimiter c"
  by (auto simp: number_char_def is_digit_def delimiter_def)

lemma scalar_text: "scalar v \<Longrightarrow> wf_json v \<Longrightarrow> c \<in> set (dump v) \<Longrightarrow> \<not> delimiter c"
proof (cases v)
  case (JInt i)
  assume "c \<in> set (dump v)"
  with JInt int_text_chars [of c i] show ?thesis by (simp add: number_char_not)
qed (auto simp: delimiter_def float_text_def split: if_splits)

lemma token_split:
  assumes "\<forall>c \<in> set a. \<not> delimiter c" "\<forall>c \<in> set b. \<not> delimiter c"
    and "delimited r" "delimited s" and "a @ r = b @ s"
  shows "a = b \<and> r = s"
proof -
  have "takeWhile (\<lambda>c. \<not> delimiter c) (a @ r) = a" "takeWhile (\<lambda>c. \<not> delimiter c) (b @ s) = b"
    using assms(1-4) by (cases r; cases s; simp add: takeWhile_append2 delimited_def)+
  with assms(5) show ?thesis by simp
qed

lemma int_text_hd: "number_char (hd (int_text i))"
  by (rule int_text_chars [of _ i]) simp

lemma scalar_hd:
  assumes "scalar v" and "wf_json v"
  shows "dump v \<noteq> [] \<and> hd (dump v) \<notin> {CHR 0x22, CHR 0x5B, CHR 0x7B}"
proof (cases v)
  case (JInt i)
  with int_text_hd [of i] show ?thesis by (simp add: number_char_not)
next
  case (JFloat t)
  with assms have "t \<noteq> []" "number_char (hd t) \<or> hd t = CHR ''I'' \<or> hd t = CHR ''N''"
    by (simp_all add: float_text_def)
  with JFloat number_char_not(1-3) [of "hd t"] show ?thesis by fastforce
qed (use assms in simp_all)

text \<open>Two scalars of different kinds never have the same text.\<close>

definition text_kind :: "string \<Rightarrow> nat" where
  "text_kind t =
     (if hd t = CHR ''n'' then 0 else if hd t = CHR ''t'' then 1 else if hd t = CHR ''f'' then 2
      else if (\<forall>c \<in> set t. number_char c) then 3 else 4)"

fun scalar_kind :: "json \<Rightarrow> nat" where
  "scalar_kind JNull = 0"
| "scalar_kind (JBool b) = (if b then 1 else 2)"
| "scalar_kind (JInt i) = 3"
| "scalar_kind _ = 4"

lemma text_kind_dump: "scalar v \<Longrightarrow> wf_json v \<Longrightarrow> text_kind (dump v) = scalar_kind v"
proof (cases v)
  case (JInt i)
  with int_text_hd [of i] int_text_chars [of _ i] show ?thesis
    by (simp add: text_kind_def number_char_not)
next
  case (JFloat t)
  assume "wf_json v"
  with JFloat have "\<not> (\<forall>c \<in> set t. number_char c)"
    "number_char (hd t) \<or> hd t = CHR ''I'' \<or> hd t = CHR ''N''"
    by (simp_all add: float_text_def)
  moreover from this(2) have "hd t \<noteq> CHR ''n''" "hd t \<noteq> CHR ''t''" "hd t \<noteq> CHR ''f''"
    using number_char_not(4-6) [of "hd t"] by fastforce+
  ultimately show ?thesis using JFloat by (simp add: text_kind_def)
qed (simp_all add: text_kind_def)

lemma scalar_inj:
  assumes "scalar v" "scalar w" "wf_json v" "wf_json w" "dump v = dump w"
  shows "v = w"
proof -
  have "scalar_kind v = scalar_kind w"
    using text_kind_dump [of v] text_kind_dump [of w] assms by simp
  then show ?thesis using assms(1,2,5)
    by (cases v; cases w) (simp_all add: int_text_inj split: if_splits)
qed

lemma not_scalar_hd: "\<not> scalar v \<Longrightarrow> \<exists>t. dump v = hd (dump v) # t \<and>
    hd (dump v) \<in> {CHR 0x22, CHR 0x5B, CHR 0x7B}"
  by (cases v) (auto simp: dump_str_def)

lemma dump_not_close: "wf_json v \<Longrightarrow> dump v @ r \<noteq> CHR 0x5D # s"
proof (cases "scalar v")
  case True
  moreover assume "wf_json v"
  ultimately have "dump v \<noteq> []" "\<not> delimiter (hd (dump v))"
    using scalar_hd [of v] scalar_text [of v "hd (dump v)"] by auto
  then show ?thesis by (cases "dump v") (auto simp: delimiter_def)
next
  case False
  then show ?thesis by (auto dest!: not_scalar_hd)
qed

text \<open>
  Prefix-freeness of one value, as a predicate: the text of \<open>v\<close>, followed by the end or a
  delimiter, can only be read as \<open>v\<close>.
\<close>

definition reads_back :: "json \<Rightarrow> bool" where
  "reads_back v \<longleftrightarrow> (\<forall>w r s. wf_json w \<longrightarrow> delimited r \<longrightarrow> delimited s
     \<longrightarrow> dump v @ r = dump w @ s \<longrightarrow> v = w \<and> r = s)"

lemma reads_backD:
  "reads_back v \<Longrightarrow> dump v @ r = dump w @ s \<Longrightarrow> wf_json w \<Longrightarrow> delimited r \<Longrightarrow> delimited s
     \<Longrightarrow> v = w \<and> r = s"
  by (simp add: reads_back_def)

lemma reads_back_scalar:
  assumes "scalar v" "wf_json v"
  shows "reads_back v"
  unfolding reads_back_def
proof (intro allI impI)
  fix w r s
  assume w: "wf_json w" and d: "delimited r" "delimited s" and eq: "dump v @ r = dump w @ s"
  have hds: "hd (dump v) = hd (dump w)"
    using eq scalar_hd [OF assms] by (cases "scalar w")
      (metis hd_append2 scalar_hd w, metis append_Cons hd_append2 list.sel(1) not_scalar_hd)
  then have sw: "scalar w" using not_scalar_hd [of w] scalar_hd [OF assms] by metis
  have "dump v = dump w \<and> r = s"
    using token_split [OF _ _ d eq] scalar_text [OF assms] scalar_text [OF sw w] by blast
  then show "v = w \<and> r = s" using scalar_inj [OF assms(1) sw assms(2) w] by blast
qed

lemma dump_items_prefix_free:
  assumes "\<forall>x \<in> set xs. wf_json x \<and> reads_back x" "\<forall>y \<in> set ys. wf_json y"
    and "dump_items xs @ r = dump_items ys @ s"
  shows "xs = ys \<and> r = s"
  using assms
proof (induction xs arbitrary: ys)
  case Nil
  then show ?case by (cases ys) (auto dest: dump_not_close sym)
next
  case (Cons x xs)
  show ?case
  proof (cases ys)
    case Nil
    with Cons.prems show ?thesis by (auto dest: dump_not_close)
  next
    case (Cons y ys')
    let ?rest = "\<lambda>zs q. (if zs = [] then [CHR 0x5D] else CHR 0x2C # dump_items zs) @ q"
    have eq: "dump x @ ?rest xs r = dump y @ ?rest ys' s"
      using Cons.prems(3) Cons by simp
    have "x = y \<and> ?rest xs r = ?rest ys' s"
      by (rule reads_backD [OF _ eq]) (use Cons.prems(1,2) Cons in auto)
    moreover from this have "xs = ys' \<and> r = s"
      using Cons.IH [of ys'] Cons.prems(1,2) Cons by (auto split: if_splits)
    ultimately show ?thesis using Cons by simp
  qed
qed

lemma dump_str_not_close: "dump_str k @ t \<noteq> CHR 0x7D # s"
  by (simp add: dump_str_def)

lemma dump_members_prefix_free:
  assumes "\<forall>m \<in> set ms. wf_json (snd m) \<and> reads_back (snd m)" "\<forall>m \<in> set ns. wf_json (snd m)"
    and "dump_members ms @ r = dump_members ns @ s"
  shows "ms = ns \<and> r = s"
  using assms
proof (induction ms arbitrary: ns)
  case Nil
  then show ?case by (cases ns) (auto simp: dump_str_not_close dest: sym)
next
  case (Cons m ms)
  obtain k x where m: "m = (k, x)" by (cases m)
  show ?case
  proof (cases ns)
    case Nil
    with Cons.prems show ?thesis by (auto simp: m dump_str_not_close)
  next
    case (Cons n ns')
    obtain l y where n: "n = (l, y)" by (cases n)
    let ?rest = "\<lambda>zs q. (if zs = [] then [CHR 0x7D] else CHR 0x2C # dump_members zs) @ q"
    have "dump_str k @ CHR 0x3A # dump x @ ?rest ms r = dump_str l @ CHR 0x3A # dump y @ ?rest ns' s"
      using Cons.prems(3) Cons m n by simp
    then have kl: "k = l" and eq: "dump x @ ?rest ms r = dump y @ ?rest ns' s"
      by (auto dest: dump_str_prefix_free)
    have "x = y \<and> ?rest ms r = ?rest ns' s"
      by (rule reads_backD [OF _ eq]) (use Cons.prems(1,2) Cons m n in auto)
    moreover from this have "ms = ns' \<and> r = s"
      using Cons.IH [of ns'] Cons.prems(1,2) Cons by (auto split: if_splits)
    ultimately show ?thesis using Cons m n kl by simp
  qed
qed

lemma reads_back: "wf_json v \<Longrightarrow> reads_back v"
proof (induction v)
  case (JStr a)
  show ?case unfolding reads_back_def
  proof (intro allI impI)
    fix w r s assume w: "wf_json w" and eq: "dump (JStr a) @ r = dump w @ s"
    have "hd (dump w) = CHR 0x22"
      using eq scalar_hd [OF _ w] not_scalar_hd [of w]
      by (metis append_Cons dump.simps(5) dump_str_def hd_append2 list.sel(1))
    then obtain b where "w = JStr b"
      using scalar_hd [OF _ w] by (cases w) auto
    with eq dump_str_prefix_free [of a r b s] show "JStr a = w \<and> r = s" by simp
  qed
next
  case (JList xs)
  show ?case unfolding reads_back_def
  proof (intro allI impI)
    fix w r s assume w: "wf_json w" and eq: "dump (JList xs) @ r = dump w @ s"
    have "hd (dump w) = CHR 0x5B"
      using eq scalar_hd [OF _ w] not_scalar_hd [of w]
      by (metis append_Cons dump.simps(6) hd_append2 list.sel(1))
    then obtain ys where "w = JList ys"
      using scalar_hd [OF _ w] by (cases w) (auto simp: dump_str_def)
    with eq w JList dump_items_prefix_free [of xs ys r s] show "JList xs = w \<and> r = s" by simp
  qed
next
  case (JObj ms)
  show ?case unfolding reads_back_def
  proof (intro allI impI)
    fix w r s assume w: "wf_json w" and eq: "dump (JObj ms) @ r = dump w @ s"
    have "hd (dump w) = CHR 0x7B"
      using eq scalar_hd [OF _ w] not_scalar_hd [of w]
      by (metis append_Cons dump.simps(7) hd_append2 list.sel(1))
    then obtain ns where "w = JObj ns"
      using scalar_hd [OF _ w] by (cases w) (auto simp: dump_str_def)
    moreover have "\<forall>m \<in> set ms. wf_json (snd m) \<and> reads_back (snd m)"
      using JObj by (metis snds.intros surjective_pairing wf_json.simps(3))
    ultimately show "JObj ms = w \<and> r = s"
      using eq w dump_members_prefix_free [of ms ns r s] by simp
  qed
qed (simp_all add: reads_back_scalar)

lemma dump_inj: "wf_json v \<Longrightarrow> wf_json w \<Longrightarrow> dump v = dump w \<Longrightarrow> v = w"
  using reads_backD [OF reads_back, of v "[]" w "[]"] by simp

lemma distinct_sort_key_fst: "distinct (map fst (sort_key f ms)) \<longleftrightarrow> distinct (map fst ms)"
proof -
  have "mset (map fst (sort_key f ms)) = mset (map fst ms)" by simp
  then show ?thesis by (metis mset_eq_imp_distinct_iff)
qed

lemma sort_json_JObj: "sort_json (JObj ms) = JObj (sort_key fst (map (apsnd sort_json) ms))"
  by (simp add: apsnd_def map_prod_def)

declare sort_json.simps(2) [simp del]

lemma wf_sort_json: "wf_json v \<Longrightarrow> wf_json (sort_json v)"
proof (induction v)
  case (JObj ms)
  have "distinct (map fst (map (apsnd sort_json) ms))"
    using JObj.prems by (simp add: comp_def)
  moreover have "wf_json (sort_json (snd m))" if "m \<in> set ms" for m
    using JObj that by (metis snds.intros surjective_pairing wf_json.simps(3))
  ultimately show ?case
    by (simp only: sort_json_JObj wf_json.simps distinct_sort_key_fst set_sort) auto
qed simp_all

text \<open>Equal canonical texts: the values are equal up to the order of object members.\<close>

theorem canonical_inj:
  "wf_json v \<Longrightarrow> wf_json w \<Longrightarrow> canonical v = canonical w \<longleftrightarrow> sort_json v = sort_json w"
  unfolding canonical_def by (metis dump_inj wf_sort_json)

end
