(* ===== verification/Events.thy ===== *)
theory Events
  imports Json
begin

text \<open>
  The event bus and the event stores (\<^verbatim>\<open>core/events/bus.py\<close>,
  \<^verbatim>\<open>core/events/sqlite.py\<close>). An \<open>EventType\<close> is a \<open>str\<close> enumeration: the model uses its
  string value. A handler is a name (its identity in subscription lists); what running it
  does to the rest of the program, and whether it raises, is an argument of \<open>publish\<close>.
\<close>

type_synonym event_type = string

record event =
  event_type :: event_type
  event_task :: "string option"
  event_payload :: json

definition mk_event :: "event_type \<Rightarrow> string \<Rightarrow> json \<Rightarrow> event" where
  "mk_event ty tid p = \<lparr>event_type = ty, event_task = Some tid, event_payload = p\<rparr>"

subsection \<open>EventBus\<close>

record 'h bus =
  bus_handlers :: "(event_type \<times> 'h list) list"
  bus_global :: "'h list"
  bus_published :: nat

definition new_bus :: "'h bus" where
  "new_bus = \<lparr>bus_handlers = [], bus_global = [], bus_published = 0\<rparr>"

definition handlers_for :: "'h bus \<Rightarrow> event_type \<Rightarrow> 'h list" where
  "handlers_for b ty = (case map_of (bus_handlers b) ty of None \<Rightarrow> [] | Some hs \<Rightarrow> hs)"

text \<open>\<open>callable(handler)\<close> is the first argument of the two subscriptions.\<close>

definition subscribe :: "bool \<Rightarrow> event_type \<Rightarrow> 'h \<Rightarrow> 'h bus \<Rightarrow> 'h bus result" where
  "subscribe callable ty h b =
     (if \<not> callable then Inl (EventBusError (''handler for '' @ ty @ '' is not callable''))
      else if h \<in> set (handlers_for b ty)
        then Inr (b\<lparr>bus_handlers := dict_set ty (handlers_for b ty) (bus_handlers b)\<rparr>)
      else Inr (b\<lparr>bus_handlers := dict_set ty (handlers_for b ty @ [h]) (bus_handlers b)\<rparr>))"

definition subscribe_all :: "bool \<Rightarrow> 'h \<Rightarrow> 'h bus \<Rightarrow> 'h bus result" where
  "subscribe_all callable h b =
     (if \<not> callable then Inl (EventBusError ''global handler is not callable'')
      else if h \<in> set (bus_global b) then Inr b
      else Inr (b\<lparr>bus_global := bus_global b @ [h]\<rparr>))"

definition unsubscribe :: "event_type \<Rightarrow> 'h \<Rightarrow> 'h bus \<Rightarrow> bool \<times> 'h bus" where
  "unsubscribe ty h b =
     (if h \<in> set (handlers_for b ty)
      then (True, b\<lparr>bus_handlers := dict_set ty (remove1 h (handlers_for b ty)) (bus_handlers b)\<rparr>)
      else (False, b))"

text \<open>
  Delivery. \<open>run h ev st\<close> is what the handler does to the program's state \<open>st\<close>: it returns
  or raises. \<open>on_error\<close> is the optional error callback (its own failure is swallowed, so only
  its effect on the state remains).
\<close>

fun deliver ::
  "('h \<Rightarrow> event \<Rightarrow> 's \<Rightarrow> exn option \<times> 's) \<Rightarrow> ('h \<Rightarrow> exn \<Rightarrow> 's \<Rightarrow> exn option \<times> 's) option
     \<Rightarrow> event \<Rightarrow> 'h list \<Rightarrow> nat \<Rightarrow> 's \<Rightarrow> nat \<times> 's" where
  "deliver run on_error ev [] n st = (n, st)"
| "deliver run on_error ev (h # hs) n st =
     (case run h ev st of
        (None, st') \<Rightarrow> deliver run on_error ev hs (Suc n) st'
      | (Some e, st') \<Rightarrow>
          deliver run on_error ev hs (Suc n)
            (case on_error of None \<Rightarrow> st' | Some f \<Rightarrow> snd (f h e st')))"

definition publish ::
  "('h \<Rightarrow> event \<Rightarrow> 's \<Rightarrow> exn option \<times> 's) \<Rightarrow> ('h \<Rightarrow> exn \<Rightarrow> 's \<Rightarrow> exn option \<times> 's) option
     \<Rightarrow> event \<Rightarrow> 'h bus \<Rightarrow> 's \<Rightarrow> nat \<times> 'h bus \<times> 's" where
  "publish run on_error ev b st =
     (let targets = handlers_for b (event_type ev) @ bus_global b;
          b' = b\<lparr>bus_published := Suc (bus_published b)\<rparr>
      in case deliver run on_error ev targets 0 st of (n, st') \<Rightarrow> (n, b', st'))"

lemma deliver_count: "fst (deliver run on_error ev hs n st) = n + length hs"
  by (induction hs arbitrary: n st) (auto split: prod.splits option.splits)

text \<open>
  \<open>calls\<close>: a state that records which handlers ran. A delivery in which every handler
  first records itself lists the targets in order, whatever the handlers do.
\<close>

lemma deliver_order:
  assumes "\<And>h st. fst (snd (run h ev st)) = fst st @ [h]"
    and "\<And>f h e st. on_error = Some f \<Longrightarrow> fst (snd (f h e st)) = fst st"
  shows "fst (snd (deliver run on_error ev hs n st)) = fst st @ hs"
proof (induction hs arbitrary: n st)
  case Nil
  then show ?case by simp
next
  case (Cons h hs)
  obtain r st' where r: "run h ev st = (r, st')" by (cases "run h ev st")
  with assms(1) [of h st] have st': "fst st' = fst st @ [h]" by simp
  show ?case
  proof (cases r)
    case None
    with r st' show ?thesis by (simp add: Cons.IH)
  next
    case (Some e)
    let ?st2 = "case on_error of None \<Rightarrow> st' | Some f \<Rightarrow> snd (f h e st')"
    have "fst ?st2 = fst st @ [h]" using st' assms(2) by (cases on_error) simp_all
    moreover have "deliver run on_error ev (h # hs) n st = deliver run on_error ev hs (Suc n) ?st2"
      using r Some by simp
    ultimately show ?thesis by (simp only: Cons.IH) simp
  qed
qed

text \<open>Subscriptions stay free of duplicates.\<close>

definition wf_bus :: "'h bus \<Rightarrow> bool" where
  "wf_bus b \<longleftrightarrow> distinct (bus_global b) \<and> (\<forall>ty. distinct (handlers_for b ty))"

lemma wf_new_bus: "wf_bus new_bus"
  by (simp add: wf_bus_def new_bus_def handlers_for_def)

lemma handlers_for_set:
  "handlers_for (b\<lparr>bus_handlers := dict_set ty hs (bus_handlers b)\<rparr>) ty' =
     (if ty' = ty then hs else handlers_for b ty')"
  by (simp add: handlers_for_def)

lemma wf_subscribe: "wf_bus b \<Longrightarrow> subscribe c ty h b = Inr b' \<Longrightarrow> wf_bus b'"
  by (auto simp: wf_bus_def subscribe_def handlers_for_set split: if_splits)

lemma wf_subscribe_all: "wf_bus b \<Longrightarrow> subscribe_all c h b = Inr b' \<Longrightarrow> wf_bus b'"
  by (auto simp: wf_bus_def subscribe_all_def handlers_for_def split: if_splits)

lemma wf_unsubscribe: "wf_bus b \<Longrightarrow> wf_bus (snd (unsubscribe ty h b))"
  by (auto simp: wf_bus_def unsubscribe_def handlers_for_set distinct_remove1)

subsection \<open>Event stores\<close>

text \<open>\<open>InMemoryEventStore\<close>: the sequence number of an event is its index.\<close>

type_synonym memory_store = "event list"

definition mem_append :: "event \<Rightarrow> memory_store \<Rightarrow> int \<times> memory_store" where
  "mem_append ev s = (let s' = s @ [ev] in (int (length s') - 1, s'))"

definition mem_events_since :: "int \<Rightarrow> memory_store \<Rightarrow> (int \<times> event) list" where
  "mem_events_since seq s =
     filter (\<lambda>(i, ev). i > seq) (map (\<lambda>i. (int i, s ! i)) [0 ..< length s])"

text \<open>\<open>SqliteEventStore\<close>: rows \<open>(seq, event)\<close>, \<open>seq\<close> an autoincremented key.\<close>

record sqlite_store =
  seq_rows :: "(int \<times> event) list"
  seq_last :: int

definition sql_append :: "event \<Rightarrow> sqlite_store \<Rightarrow> int \<times> sqlite_store" where
  "sql_append ev s = (let n = seq_last s + 1 in
     (n, s\<lparr>seq_rows := seq_rows s @ [(n, ev)], seq_last := n\<rparr>))"

definition sql_list :: "sqlite_store \<Rightarrow> event list" where
  "sql_list s = map snd (sort_key fst (seq_rows s))"

definition sql_events_since :: "int \<Rightarrow> sqlite_store \<Rightarrow> (int \<times> event) list" where
  "sql_events_since seq s = sort_key fst (filter (\<lambda>r. fst r > seq) (seq_rows s))"

text \<open>\<open>replay\<close> re-delivers every stored event in order; a handler that raises ends it.\<close>

fun replay :: "(event \<Rightarrow> 's \<Rightarrow> exn option \<times> 's) \<Rightarrow> event list \<Rightarrow> nat \<Rightarrow> 's \<Rightarrow> nat result \<times> 's" where
  "replay h [] n st = (Inr n, st)"
| "replay h (ev # evs) n st =
     (case h ev st of (None, st') \<Rightarrow> replay h evs (Suc n) st' | (Some e, st') \<Rightarrow> (Inl e, st'))"

text \<open>
  The contract of an event log, as a polling consumer needs it: an appended event gets a
  sequence number above all earlier ones, and \<open>since\<close> returns exactly the later entries.
\<close>

locale event_log =
  fixes append_ev :: "event \<Rightarrow> 's \<Rightarrow> int \<times> 's"
    and since :: "int \<Rightarrow> 's \<Rightarrow> (int \<times> event) list"
    and last_seq :: "'s \<Rightarrow> int"
    and inv :: "'s \<Rightarrow> bool"
  assumes append_seq: "inv s \<Longrightarrow> append_ev ev s = (n, s') \<Longrightarrow> n = last_seq s' \<and> last_seq s < n"
    and since_append: "inv s \<Longrightarrow> append_ev ev s = (n, s') \<Longrightarrow> seq \<le> last_seq s
          \<Longrightarrow> since seq s' = since seq s @ [(n, ev)]"
    and since_last: "inv s \<Longrightarrow> since (last_seq s) s = []"
    and inv_append: "inv s \<Longrightarrow> append_ev ev s = (n, s') \<Longrightarrow> inv s'"
begin

text \<open>Appending a list of events, and polling from the last seen sequence number.\<close>

fun append_all :: "event list \<Rightarrow> 's \<Rightarrow> 's" where
  "append_all [] s = s"
| "append_all (ev # evs) s = append_all evs (snd (append_ev ev s))"

lemma since_append_all:
  "inv s \<Longrightarrow> seq \<le> last_seq s \<Longrightarrow>
     map snd (since seq (append_all evs s)) = map snd (since seq s) @ evs"
proof (induction evs arbitrary: s)
  case Nil
  then show ?case by simp
next
  case (Cons ev evs)
  obtain n s' where a: "append_ev ev s = (n, s')" by (cases "append_ev ev s")
  with Cons.prems have "seq \<le> last_seq s'" using append_seq [OF _ a] by fastforce
  with a Cons show ?case by (simp add: inv_append since_append)
qed

text \<open>A consumer that polls with the last sequence it saw gets what was appended since, once.\<close>

theorem poll_exact: "inv s \<Longrightarrow> map snd (since (last_seq s) (append_all evs s)) = evs"
  by (simp add: since_append_all since_last)

end

definition mem_last :: "memory_store \<Rightarrow> int" where
  "mem_last s = int (length s) - 1"

interpretation memory_log: event_log mem_append mem_events_since mem_last "\<lambda>_. True"
proof unfold_locales
  fix s s' :: memory_store and ev n seq
  assume a: "mem_append ev s = (n, s')" and le: "seq \<le> mem_last s"
  from a have s': "s' = s @ [ev]" and n: "n = int (length s)"
    by (auto simp: mem_append_def Let_def)
  have "map (\<lambda>i. (int i, s' ! i)) [0 ..< length s'] = map (\<lambda>i. (int i, s ! i)) [0 ..< length s] @ [(n, ev)]"
    by (simp add: s' n nth_append)
  then show "mem_events_since seq s' = mem_events_since seq s @ [(n, ev)]"
    using le n by (simp add: mem_events_since_def mem_last_def)
qed (auto simp: mem_append_def mem_last_def mem_events_since_def Let_def filter_empty_conv)

definition sql_inv :: "sqlite_store \<Rightarrow> bool" where
  "sql_inv s \<longleftrightarrow> sorted (map fst (seq_rows s)) \<and> (\<forall>r \<in> set (seq_rows s). fst r \<le> seq_last s)"

lemma sort_key_append_max:
  assumes "\<forall>r \<in> set rs. fst r \<le> (fst x :: int)" and "sorted (map fst rs)"
  shows "sort_key fst (rs @ [x]) = rs @ [x]"
  using assms by (intro sort_key_id_if_sorted) (auto simp: sorted_append)

interpretation sqlite_log: event_log sql_append sql_events_since seq_last sql_inv
proof unfold_locales
  fix s s' :: sqlite_store and ev n seq
  assume inv: "sql_inv s" and a: "sql_append ev s = (n, s')" and le: "seq \<le> seq_last s"
  let ?f = "filter (\<lambda>r. fst r > seq) (seq_rows s)"
  from a have rows: "seq_rows s' = seq_rows s @ [(n, ev)]" and n: "n = seq_last s + 1"
    by (auto simp: sql_append_def Let_def)
  from inv have sorted: "sorted (map fst ?f)" by (auto simp: sql_inv_def intro: sorted_filter)
  from inv have "\<forall>r \<in> set ?f. fst r \<le> n" by (fastforce simp: sql_inv_def n)
  with sorted have "sort_key fst (?f @ [(n, ev)]) = ?f @ [(n, ev)]"
    by (intro sort_key_append_max) auto
  moreover have "sort_key fst ?f = ?f" using sorted by (rule sort_key_id_if_sorted)
  ultimately show "sql_events_since seq s' = sql_events_since seq s @ [(n, ev)]"
    using le n by (simp add: sql_events_since_def rows)
next
  fix s assume "sql_inv s"
  then have "filter (\<lambda>r. fst r > seq_last s) (seq_rows s) = []"
    by (auto simp: sql_inv_def filter_empty_conv)
  then show "sql_events_since (seq_last s) s = []" by (simp add: sql_events_since_def)
qed (auto simp: sql_append_def sql_inv_def Let_def sorted_append)

subsection \<open>Properties\<close>

lemma append_all_fold: "sqlite_log.append_all evs s = fold (\<lambda>ev s. snd (sql_append ev s)) evs s"
  by (induction evs arbitrary: s) simp_all

text \<open>
  a consumer that polls the durable event store with the last sequence number it has seen
  gets exactly the events appended since, each once and in order.
\<close>

theorem sqlite_poll_exact:
  assumes "sql_inv s"
  shows "map snd (sql_events_since (seq_last s) (fold (\<lambda>ev s. snd (sql_append ev s)) evs s)) = evs"
  using sqlite_log.poll_exact [OF assms, of evs] by (simp add: append_all_fold)

theorem sqlite_poll_exact_witness:
  "map snd (sql_events_since 4 (fold (\<lambda>ev s. snd (sql_append ev s)) [mk_event ''a'' ''t'' JNull, mk_event ''b'' ''t'' JNull]
     \<lparr>seq_rows = [(4, mk_event ''x'' ''t'' JNull)], seq_last = 4\<rparr>))
   = [mk_event ''a'' ''t'' JNull, mk_event ''b'' ''t'' JNull]"
proof -
  have "sql_inv \<lparr>seq_rows = [(4, mk_event ''x'' ''t'' JNull)], seq_last = 4\<rparr>" by (simp add: sql_inv_def)
  from sqlite_poll_exact [OF this] show ?thesis by (simp only: sqlite_store.select_convs)
qed

text \<open>
  \<open>EventBus.publish\<close> reaches every handler subscribed to the event's type and then every
  global one, each exactly once and in subscription order, even when handlers raise; it returns
  how many it called. The handlers here record their own call in the first component of the
  program's state, whatever else they do, and the error callback leaves that record alone.
\<close>

theorem publish_reaches_all:
  assumes "\<And>h st. fst (snd (run h ev st)) = fst st @ [h]"
    and "\<And>f h e st. on_error = Some f \<Longrightarrow> fst (snd (f h e st)) = fst st"
    and "publish run on_error ev b st = (n, b', st')"
  shows "fst st' = fst st @ handlers_for b (event_type ev) @ bus_global b
    \<and> n = length (handlers_for b (event_type ev)) + length (bus_global b)
    \<and> bus_published b' = Suc (bus_published b)"
proof -
  let ?targets = "handlers_for b (event_type ev) @ bus_global b"
  obtain k s where d: "deliver run on_error ev ?targets 0 st = (k, s)"
    by (cases "deliver run on_error ev ?targets 0 st")
  with assms(3) have "n = k" "st' = s" "b' = b\<lparr>bus_published := Suc (bus_published b)\<rparr>"
    by (auto simp: publish_def Let_def)
  moreover have "fst (snd (deliver run on_error ev ?targets 0 st)) = fst st @ ?targets"
    by (rule deliver_order) (use assms(1,2) in blast)+
  ultimately show ?thesis using deliver_count [of run on_error ev ?targets 0 st] d by simp
qed

theorem publish_reaches_all_witness:
  "fst (snd (snd (publish (\<lambda>h ev st. (Some (OtherException h), (fst st @ [h], ())))
      None (mk_event ''a'' ''t'' JNull) \<lparr>bus_handlers = [(''a'', [''h1''])], bus_global = [''g''], bus_published = 0\<rparr> ([], ()))))
   = [''h1'', ''g'']"
proof -
  let ?run = "\<lambda>h ev st. (Some (OtherException h), (fst st @ [h], ()))"
  let ?b = "\<lparr>bus_handlers = [(''a'', [''h1''])], bus_global = [''g''], bus_published = 0\<rparr>"
  obtain n b' st' where p: "publish ?run None (mk_event ''a'' ''t'' JNull) ?b ([], ()) = (n, b', st')"
    by (cases "publish ?run None (mk_event ''a'' ''t'' JNull) ?b ([], ())" rule: prod_cases3)
  from publish_reaches_all [of ?run "mk_event ''a'' ''t'' JNull" None, OF _ _ p] p show ?thesis
    by (simp add: handlers_for_def mk_event_def)
qed

end
