(* ===== verification/Lifecycle.thy ===== *)
theory Lifecycle
  imports Store Events
begin

text \<open>
  The task life cycle: the transition table of \<^verbatim>\<open>core/runtime/state_machine.py\<close> and the
  durable task manager of \<^verbatim>\<open>core/runtime/task_manager.py\<close> over a database whose statements may
  fail, with the transaction block of \<^verbatim>\<open>core/persistence/sqlite.py\<close>.
\<close>

subsection \<open>The state machine\<close>

datatype task_state =
    CREATED | UNDERSTANDING | AWARENESS | RESEARCHING | PLANNING | WAITING_PERMISSION
  | EXECUTING | VERIFYING | RECOVERING | COMPLETED | FAILED | CANCELLED

fun task_state_value :: "task_state \<Rightarrow> string" where
  "task_state_value CREATED = ''CREATED''"
| "task_state_value UNDERSTANDING = ''UNDERSTANDING''"
| "task_state_value AWARENESS = ''AWARENESS''"
| "task_state_value RESEARCHING = ''RESEARCHING''"
| "task_state_value PLANNING = ''PLANNING''"
| "task_state_value WAITING_PERMISSION = ''WAITING_PERMISSION''"
| "task_state_value EXECUTING = ''EXECUTING''"
| "task_state_value VERIFYING = ''VERIFYING''"
| "task_state_value RECOVERING = ''RECOVERING''"
| "task_state_value COMPLETED = ''COMPLETED''"
| "task_state_value FAILED = ''FAILED''"
| "task_state_value CANCELLED = ''CANCELLED''"

definition terminal_states :: "task_state list" where
  "terminal_states = [COMPLETED, FAILED, CANCELLED]"

fun base_transitions :: "task_state \<Rightarrow> task_state list" where
  "base_transitions CREATED = [UNDERSTANDING]"
| "base_transitions UNDERSTANDING = [AWARENESS]"
| "base_transitions AWARENESS = [RESEARCHING, PLANNING]"
| "base_transitions RESEARCHING = [PLANNING]"
| "base_transitions PLANNING = [WAITING_PERMISSION]"
| "base_transitions WAITING_PERMISSION = [EXECUTING]"
| "base_transitions EXECUTING = [VERIFYING]"
| "base_transitions VERIFYING = [COMPLETED, RECOVERING]"
| "base_transitions RECOVERING = [EXECUTING, PLANNING]"
| "base_transitions COMPLETED = []"
| "base_transitions FAILED = []"
| "base_transitions CANCELLED = []"

text \<open>\<open>ALLOWED_TRANSITIONS\<close> after the loop that adds the two escalation edges.\<close>

definition allowed_transitions :: "task_state \<Rightarrow> task_state list" where
  "allowed_transitions s =
     (if s \<notin> set terminal_states then base_transitions s @ [FAILED, CANCELLED]
      else base_transitions s)"

definition is_valid_transition :: "task_state \<Rightarrow> task_state \<Rightarrow> bool" where
  "is_valid_transition a b \<longleftrightarrow> b \<in> set (allowed_transitions a)"

definition assert_transition :: "task_state \<Rightarrow> task_state \<Rightarrow> unit result" where
  "assert_transition a b =
     (if \<not> is_valid_transition a b
      then Inl (InvalidStateTransitionError (task_state_value a) (task_state_value b))
      else Inr ())"

definition next_states :: "task_state \<Rightarrow> task_state list" where
  "next_states s = allowed_transitions s"

definition is_terminal :: "task_state \<Rightarrow> bool" where
  "is_terminal s \<longleftrightarrow> s \<in> set terminal_states"

inductive moves :: "task_state \<Rightarrow> task_state \<Rightarrow> bool" where
  move: "is_valid_transition a b \<Longrightarrow> moves a b"

inductive_cases movesE: "moves a b"
inductive_simps moves_iff: "moves a b"

lemmas transition_defs =
  is_valid_transition_def allowed_transitions_def terminal_states_def

lemma terminal_no_moves: "is_terminal a \<Longrightarrow> \<not> moves a b"
  by (cases a) (auto simp: is_terminal_def moves_iff transition_defs)

lemma nonterminal_escalates: "\<not> is_terminal a \<Longrightarrow> moves a FAILED \<and> moves a CANCELLED"
  by (cases a) (auto simp: is_terminal_def moves_iff transition_defs)

text \<open>
  How far a state is from its end on the shortest successful path. The runtime can always
  finish: every non-terminal state reaches \<open>COMPLETED\<close>.
\<close>

lemma moves_forward [step_intros]:
  "moves CREATED UNDERSTANDING" "moves UNDERSTANDING AWARENESS" "moves AWARENESS PLANNING"
  "moves RESEARCHING PLANNING" "moves PLANNING WAITING_PERMISSION"
  "moves WAITING_PERMISSION EXECUTING" "moves EXECUTING VERIFYING" "moves VERIFYING COMPLETED"
  "moves RECOVERING EXECUTING"
  by (simp_all add: moves_iff transition_defs)

lemma completes: "\<not> is_terminal a \<Longrightarrow> moves\<^sup>*\<^sup>* a COMPLETED"
proof -
  have v: "moves\<^sup>*\<^sup>* VERIFYING COMPLETED" by (blast intro: moves_forward)
  have e: "moves\<^sup>*\<^sup>* EXECUTING COMPLETED" by (rule converse_rtranclp_into_rtranclp [OF moves_forward(7) v])
  have w: "moves\<^sup>*\<^sup>* WAITING_PERMISSION COMPLETED" by (rule converse_rtranclp_into_rtranclp [OF moves_forward(6) e])
  have p: "moves\<^sup>*\<^sup>* PLANNING COMPLETED" by (rule converse_rtranclp_into_rtranclp [OF moves_forward(5) w])
  have a: "moves\<^sup>*\<^sup>* AWARENESS COMPLETED" by (rule converse_rtranclp_into_rtranclp [OF moves_forward(3) p])
  have u: "moves\<^sup>*\<^sup>* UNDERSTANDING COMPLETED" by (rule converse_rtranclp_into_rtranclp [OF moves_forward(2) a])
  assume "\<not> is_terminal a"
  then show ?thesis
    using v e w p a u converse_rtranclp_into_rtranclp [OF moves_forward(1) u]
      converse_rtranclp_into_rtranclp [OF moves_forward(4) p]
      converse_rtranclp_into_rtranclp [OF moves_forward(9) e]
    by (cases a) (simp_all add: is_terminal_def terminal_states_def)
qed

text \<open>
  What a task has gone through: \<open>history\<close> is a path of the machine from \<open>CREATED\<close>, its last
  state first. The gates hold on every path: nothing executes before permission was waited
  for, nothing completes before verification.
\<close>

inductive history :: "task_state list \<Rightarrow> bool" where
  start: "history [CREATED]"
| advance: "history (a # hs) \<Longrightarrow> moves a b \<Longrightarrow> history (b # a # hs)"

lemma history_gates:
  "history hs \<Longrightarrow>
     (hd hs = COMPLETED \<longrightarrow> VERIFYING \<in> set (tl hs))
   \<and> (hd hs \<in> {EXECUTING, VERIFYING, RECOVERING, COMPLETED} \<longrightarrow> WAITING_PERMISSION \<in> set (tl hs))
   \<and> (hd hs \<in> {WAITING_PERMISSION, EXECUTING, VERIFYING, RECOVERING, COMPLETED} \<longrightarrow> PLANNING \<in> set (tl hs))"
proof (induction rule: history.induct)
  case start
  then show ?case by simp
next
  case (advance a hs b)
  then show ?case by (cases a) (auto simp: moves_iff transition_defs)
qed

text \<open>
  the gates hold on every path of the task machine from CREATED: a task that completes was
  verified, one that executes (or verifies, recovers, completes) waited for permission, one that
  waits for permission was planned; a terminal state is never left, and every other state can
  still reach COMPLETED and can always be failed or cancelled.
\<close>

theorem lifecycle_gates:
  assumes "history hs"
  shows "(hd hs = COMPLETED \<longrightarrow> VERIFYING \<in> set (tl hs))
   \<and> (hd hs \<in> {EXECUTING, VERIFYING, RECOVERING, COMPLETED} \<longrightarrow> WAITING_PERMISSION \<in> set (tl hs))
   \<and> (hd hs \<in> {WAITING_PERMISSION, EXECUTING, VERIFYING, RECOVERING, COMPLETED} \<longrightarrow> PLANNING \<in> set (tl hs))
   \<and> (\<forall>a b. is_terminal a \<longrightarrow> assert_transition a b \<noteq> Inr ())
   \<and> (\<forall>a. \<not> is_terminal a \<longrightarrow> moves\<^sup>*\<^sup>* a COMPLETED \<and> moves a FAILED \<and> moves a CANCELLED)"
  using history_gates [OF assms] terminal_no_moves completes nonterminal_escalates
  by (auto simp: assert_transition_def moves_iff split: if_splits)

theorem lifecycle_gates_witness:
  "history [UNDERSTANDING, CREATED] \<and> moves\<^sup>*\<^sup>* CREATED COMPLETED"
proof -
  have h: "history [UNDERSTANDING, CREATED]"
    by (rule history.advance [OF history.start]) (simp add: moves_forward)
  have "\<not> is_terminal CREATED" by (simp add: is_terminal_def terminal_states_def)
  with lifecycle_gates [OF h] h show ?thesis by blast
qed

end
