(* ===== verification/Domain.thy ===== *)
theory Domain
  imports Json
begin

text \<open>
  The contracts of \<^verbatim>\<open>core/models/domain.py\<close> that tools, plans and policy share, and the one
  argument check every gate calls (\<^verbatim>\<open>tools/registry/validation.py\<close>). Identifiers are given by
  the environment; the creation and update times of these entities are not read by the code
  modelled here and are left out.
\<close>

datatype risk_level = LOW | MEDIUM | HIGH | CRITICAL

fun level_order :: "risk_level \<Rightarrow> nat" where
  "level_order LOW = 0"
| "level_order MEDIUM = 1"
| "level_order HIGH = 2"
| "level_order CRITICAL = 3"

instantiation risk_level :: linorder
begin

definition less_eq_risk_level :: "risk_level \<Rightarrow> risk_level \<Rightarrow> bool" where
  "less_eq_risk_level a b \<longleftrightarrow> level_order a \<le> level_order b"

definition less_risk_level :: "risk_level \<Rightarrow> risk_level \<Rightarrow> bool" where
  "less_risk_level a b \<longleftrightarrow> level_order a < level_order b"

instance
proof
  fix a b :: risk_level
  assume "a \<le> b" "b \<le> a"
  then show "a = b" by (cases a; cases b) (simp_all add: less_eq_risk_level_def)
qed (auto simp: less_eq_risk_level_def less_risk_level_def)

end

fun risk_value :: "risk_level \<Rightarrow> string" where
  "risk_value LOW = ''LOW''"
| "risk_value MEDIUM = ''MEDIUM''"
| "risk_value HIGH = ''HIGH''"
| "risk_value CRITICAL = ''CRITICAL''"

datatype tool_call_status =
    TC_REQUESTED | TC_VALIDATED | TC_RISK_CHECK | TC_PERMISSION_CHECK | TC_EXECUTE
  | TC_OBSERVE | TC_VERIFY | TC_COMPLETED | TC_FAILED | TC_DENIED

datatype permission_decision = PD_PENDING | PD_GRANTED | PD_DENIED

fun decision_value :: "permission_decision \<Rightarrow> string" where
  "decision_value PD_PENDING = ''PENDING''"
| "decision_value PD_GRANTED = ''GRANTED''"
| "decision_value PD_DENIED = ''DENIED''"

datatype verification_status = VS_PENDING | VS_PASSED | VS_FAILED | VS_INCONCLUSIVE | VS_ERROR

fun verification_value :: "verification_status \<Rightarrow> string" where
  "verification_value VS_PENDING = ''PENDING''"
| "verification_value VS_PASSED = ''PASSED''"
| "verification_value VS_FAILED = ''FAILED''"
| "verification_value VS_INCONCLUSIVE = ''INCONCLUSIVE''"
| "verification_value VS_ERROR = ''ERROR''"

type_synonym arguments = "(string \<times> json) list"

record plan_step =
  ps_id :: string
  ps_description :: string
  ps_dependencies :: "string list"
  ps_tools :: "string list"
  ps_risk :: risk_level
  ps_verification :: string
  ps_arguments :: arguments
  ps_completion_criteria :: string

record plan =
  plan_goal :: string
  plan_steps :: "plan_step list"
  plan_final_verification :: string

record tool =
  tool_name :: string
  tool_description :: string
  tool_input_schema :: arguments
  tool_output_schema :: arguments
  tool_risk_level :: risk_level
  tool_timeout_s :: real
  tool_capabilities :: "string list"
  tool_execution_policy :: string
  tool_action_identity :: string
  tool_requires_sandbox :: bool
  tool_sandbox_profile :: string
  tool_requires_approval :: bool
  tool_network_access :: bool
  tool_secrets_access :: bool

record tool_call =
  tc_id :: string
  tc_task_id :: string
  tc_tool :: string
  tc_arguments :: arguments
  tc_status :: tool_call_status

record tool_result =
  tr_task_id :: string
  tr_tool_call_id :: string
  tr_success :: bool
  tr_output :: json
  tr_error :: "string option"

record permission =
  pm_task_id :: string
  pm_tool_call_id :: string
  pm_decision :: permission_decision
  pm_reason :: string
  pm_policy :: string
  pm_approval_id :: string

record risk_assessment =
  ra_task_id :: string
  ra_tool_call_id :: string
  ra_level :: risk_level
  ra_factors :: "string list"
  ra_rationale :: string

record verification_result =
  vr_task_id :: string
  vr_step_id :: string
  vr_status :: verification_status
  vr_strategy :: string
  vr_checks :: "string list"
  vr_evidence :: "string list"
  vr_reason :: string

subsection \<open>json.dumps with its default separators, and repr of a value\<close>

fun pydump :: "json \<Rightarrow> string" where
  "pydump (JList xs) = CHR 0x5B # join_str '', '' (map pydump xs) @ [CHR 0x5D]"
| "pydump (JObj ms) =
     CHR 0x7B # join_str '', '' (map (\<lambda>(k, x). dump_str k @ '': '' @ pydump x) ms) @ [CHR 0x7D]"
| "pydump v = dump v"

fun repr_json :: "json \<Rightarrow> string" where
  "repr_json JNull = ''None''"
| "repr_json (JBool b) = (if b then ''True'' else ''False'')"
| "repr_json (JStr s) = repr_str s"
| "repr_json (JList xs) = CHR 0x5B # join_str '', '' (map repr_json xs) @ [CHR 0x5D]"
| "repr_json (JObj ms) =
     CHR 0x7B # join_str '', '' (map (\<lambda>(k, x). repr_str k @ '': '' @ repr_json x) ms) @ [CHR 0x7D]"
| "repr_json v = dump v"

fun type_name :: "json \<Rightarrow> string" where
  "type_name JNull = ''NoneType''"
| "type_name (JBool _) = ''bool''"
| "type_name (JInt _) = ''int''"
| "type_name (JFloat _) = ''float''"
| "type_name (JStr _) = ''str''"
| "type_name (JList _) = ''list''"
| "type_name (JObj _) = ''dict''"

subsection \<open>check_arguments\<close>

text \<open>The structural bound on MCP arguments: \<open>nodes\<close> is the shared counter.\<close>

fun bounded :: "json \<Rightarrow> nat \<Rightarrow> nat \<Rightarrow> bool \<times> nat"
  and bounded_all :: "json list \<Rightarrow> nat \<Rightarrow> nat \<Rightarrow> bool \<times> nat"
  and bounded_members :: "arguments \<Rightarrow> nat \<Rightarrow> nat \<Rightarrow> bool \<times> nat" where
  "bounded v depth nodes =
     (let nodes = nodes + 1 in
      if depth > 16 \<or> nodes > 2048 then (False, nodes)
      else case v of
        JList xs \<Rightarrow> if length xs \<le> 256 then bounded_all xs (depth + 1) nodes else (False, nodes)
      | JObj ms \<Rightarrow> bounded_members ms (depth + 1) nodes
      | _ \<Rightarrow> (True, nodes))"
| "bounded_all [] depth nodes = (True, nodes)"
| "bounded_all (x # xs) depth nodes =
     (case bounded x depth nodes of
        (False, n) \<Rightarrow> (False, n) | (True, n) \<Rightarrow> bounded_all xs depth n)"
| "bounded_members [] depth nodes = (True, nodes)"
| "bounded_members ((k, x) # ms) depth nodes =
     (case bounded x depth nodes of
        (False, n) \<Rightarrow> (False, n) | (True, n) \<Rightarrow> bounded_members ms depth n)"

definition schema_required :: "arguments \<Rightarrow> string list" where
  "schema_required schema =
     (case map_of schema ''required'' of
        Some (JList xs) \<Rightarrow> concat (map (\<lambda>x. case x of JStr s \<Rightarrow> [s] | _ \<Rightarrow> []) xs)
      | _ \<Rightarrow> [])"

text \<open>\<open>isinstance(value, _TYPES[name])\<close>; a \<open>bool\<close> is an \<open>int\<close> in Python.\<close>

definition type_matches :: "string \<Rightarrow> json \<Rightarrow> bool option" where
  "type_matches name v =
     (if name = ''string'' then Some (case v of JStr _ \<Rightarrow> True | _ \<Rightarrow> False)
      else if name = ''array'' then Some (case v of JList _ \<Rightarrow> True | _ \<Rightarrow> False)
      else if name = ''object'' then Some (case v of JObj _ \<Rightarrow> True | _ \<Rightarrow> False)
      else if name = ''boolean'' then Some (case v of JBool _ \<Rightarrow> True | _ \<Rightarrow> False)
      else if name = ''number''
        then Some (case v of JInt _ \<Rightarrow> True | JFloat _ \<Rightarrow> True | JBool _ \<Rightarrow> True | _ \<Rightarrow> False)
      else None)"

definition wanted_type :: "json \<Rightarrow> string option" where
  "wanted_type want =
     (case want of
        JObj ms \<Rightarrow> (case map_of ms ''type'' of Some (JStr t) \<Rightarrow> Some t | _ \<Rightarrow> None)
      | JStr t \<Rightarrow> Some t
      | _ \<Rightarrow> None)"

definition want_text :: "json \<Rightarrow> string" where
  "want_text want = (case want of JStr t \<Rightarrow> t | _ \<Rightarrow> repr_json want)"

definition property_problem :: "arguments \<Rightarrow> string \<times> json \<Rightarrow> string list" where
  "property_problem args = (\<lambda>(param, want).
     case map_of args param of
       None \<Rightarrow> []
     | Some v \<Rightarrow>
         (case wanted_type want of
            None \<Rightarrow> []
          | Some t \<Rightarrow>
              (case type_matches t v of
                 Some False \<Rightarrow>
                   [''argument '' @ repr_str param @ '' must be '' @ want_text want
                      @ '', got '' @ type_name v]
               | _ \<Rightarrow> [])))"

text \<open>
  \<open>schema_errors\<close> is jsonschema's validator (a third-party package): \<open>None\<close> when it raises,
  else the names of the failed rules in order.
\<close>

definition check_mcp_arguments ::
  "(arguments \<Rightarrow> arguments \<Rightarrow> string list option) \<Rightarrow> arguments \<Rightarrow> arguments \<Rightarrow> string list" where
  "check_mcp_arguments schema_errors schema args =
     (if length (pydump (JObj args)) > 65536 then [''MCP arguments exceed size limit'']
      else if \<not> fst (bounded (JObj args) 0 0) then [''MCP arguments exceed structural limits'']
      else case schema_errors schema args of
        None \<Rightarrow> [''MCP argument schema could not be validated'']
      | Some errs \<Rightarrow> map (\<lambda>e. ''MCP arguments fail schema rule: '' @ e) (take 10 errs))"

definition check_plain_arguments :: "arguments \<Rightarrow> arguments \<Rightarrow> string list" where
  "check_plain_arguments schema args =
     (let missing = filter (\<lambda>name. name \<notin> set (keys args)) (schema_required schema);
          problems = (if missing \<noteq> []
                      then [''missing required arguments: '' @ join_str '', '' missing] else [])
      in case map_of schema ''properties'' of
           None \<Rightarrow> problems
         | Some (JObj props) \<Rightarrow> problems @ concat (map (property_problem args) props)
         | Some _ \<Rightarrow> problems)"

definition check_arguments ::
  "(arguments \<Rightarrow> arguments \<Rightarrow> string list option) \<Rightarrow> tool \<Rightarrow> arguments \<Rightarrow> string list" where
  "check_arguments schema_errors t args =
     (if ''mcp-external'' \<in> set (tool_capabilities t)
      then check_mcp_arguments schema_errors (tool_input_schema t) args
      else check_plain_arguments (tool_input_schema t) args)"

subsection \<open>What an accepted call satisfies\<close>

text \<open>The nodes of a value, its depth, and the width of its lists.\<close>

fun json_nodes :: "json \<Rightarrow> nat" where
  "json_nodes (JList xs) = Suc (sum_list (map json_nodes xs))"
| "json_nodes (JObj ms) = Suc (sum_list (map (\<lambda>(k, x). json_nodes x) ms))"
| "json_nodes v = 1"

fun depth_within :: "nat \<Rightarrow> nat \<Rightarrow> json \<Rightarrow> bool" where
  "depth_within bnd d (JList xs) = (d \<le> bnd \<and> (\<forall>x \<in> set xs. depth_within bnd (Suc d) x))"
| "depth_within bnd d (JObj ms) = (d \<le> bnd \<and> (\<forall>(k, x) \<in> set ms. depth_within bnd (Suc d) x))"
| "depth_within bnd d v = (d \<le> bnd)"

fun widths_within :: "nat \<Rightarrow> json \<Rightarrow> bool" where
  "widths_within bnd (JList xs) = (length xs \<le> bnd \<and> (\<forall>x \<in> set xs. widths_within bnd x))"
| "widths_within bnd (JObj ms) = (\<forall>(k, x) \<in> set ms. widths_within bnd x)"
| "widths_within bnd v = True"

declare bounded.simps [simp del]

lemma bounded_unfold:
  "bounded v d n =
     (if d > 16 \<or> Suc n > 2048 then (False, Suc n)
      else case v of
        JList xs \<Rightarrow> if length xs \<le> 256 then bounded_all xs (Suc d) (Suc n) else (False, Suc n)
      | JObj ms \<Rightarrow> bounded_members ms (Suc d) (Suc n)
      | _ \<Rightarrow> (True, Suc n))"
  by (simp only: bounded.simps [of v d n] Let_def Suc_eq_plus1)

lemma json_nodes_pos: "1 \<le> json_nodes v"
  by (cases v) simp_all

text \<open>
  The traversal with its shared counter and early exit decides exactly the three bounds:
  at most 2048 nodes, at most 16 levels below the root, no list above 256 items.
\<close>

lemma bounded_spec:
  "bounded v d n = (True, m) \<longleftrightarrow>
     m = n + json_nodes v \<and> m \<le> 2048 \<and> depth_within 16 d v \<and> widths_within 256 v"
  "n \<le> 2048 \<Longrightarrow> bounded_all xs d n = (True, m) \<longleftrightarrow>
     m = n + sum_list (map json_nodes xs) \<and> m \<le> 2048
     \<and> (\<forall>x \<in> set xs. depth_within 16 d x \<and> widths_within 256 x)"
  "n \<le> 2048 \<Longrightarrow> bounded_members ms d n = (True, m) \<longleftrightarrow>
     m = n + sum_list (map (\<lambda>(k, x). json_nodes x) ms) \<and> m \<le> 2048
     \<and> (\<forall>(k, x) \<in> set ms. depth_within 16 d x \<and> widths_within 256 x)"
proof (induction v d n and xs d n and ms d n arbitrary: m and m and m
    rule: bounded_bounded_all_bounded_members.induct)
  case (1 v d n)
  show ?case
  proof (cases "d > 16 \<or> Suc n > 2048")
    case True
    then show ?thesis using json_nodes_pos [of v]
      by (cases v) (auto simp: bounded_unfold)
  next
    case False
    with 1 show ?thesis by (cases v) (auto simp: bounded_unfold Let_def)
  qed
next
  case (3 x xs d n)
  obtain b k where b: "bounded x d n = (b, k)" by (cases "bounded x d n")
  show ?case
  proof (cases b)
    case True
    have k: "k = n + json_nodes x \<and> k \<le> 2048 \<and> depth_within 16 d x \<and> widths_within 256 x"
      using "3.IH"(1) [of k] b True by simp
    show ?thesis using "3.IH"(2) [of True k m] k b True by auto
  next
    case False
    with b 3 have "\<not> (n + json_nodes x \<le> 2048 \<and> depth_within 16 d x \<and> widths_within 256 x)"
      by (metis prod.inject)
    with False b show ?thesis by auto
  qed
next
  case (5 k x ms d n)
  obtain b j where b: "bounded x d n = (b, j)" by (cases "bounded x d n")
  show ?case
  proof (cases b)
    case True
    have j: "j = n + json_nodes x \<and> j \<le> 2048 \<and> depth_within 16 d x \<and> widths_within 256 x"
      using "5.IH"(1) [of j] b True by simp
    show ?thesis using "5.IH"(2) [of True j m] j b True by auto
  next
    case False
    with b 5 have "\<not> (n + json_nodes x \<le> 2048 \<and> depth_within 16 d x \<and> widths_within 256 x)"
      by (metis prod.inject)
    with False b show ?thesis by auto
  qed
qed auto

lemma check_plain_ok_iff:
  "check_plain_arguments schema args = [] \<longleftrightarrow>
     (\<forall>name \<in> set (schema_required schema). name \<in> set (keys args))
   \<and> (\<forall>props param want v t. map_of schema ''properties'' = Some (JObj props)
        \<longrightarrow> (param, want) \<in> set props \<longrightarrow> map_of args param = Some v
        \<longrightarrow> wanted_type want = Some t \<longrightarrow> type_matches t v \<noteq> Some False)"
proof -
  have pp: "property_problem args (param, want) = [] \<longleftrightarrow>
      (\<forall>v t. map_of args param = Some v \<longrightarrow> wanted_type want = Some t
         \<longrightarrow> type_matches t v \<noteq> Some False)" for param want
    by (auto simp: property_problem_def split: option.splits bool.splits)
  show ?thesis
  proof (cases "\<exists>props. map_of schema ''properties'' = Some (JObj props)")
    case True
    then obtain props where props: "map_of schema ''properties'' = Some (JObj props)" by blast
    have "check_plain_arguments schema args = [] \<longleftrightarrow>
        (\<forall>name \<in> set (schema_required schema). name \<in> set (keys args))
        \<and> (\<forall>(param, want) \<in> set props. property_problem args (param, want) = [])"
      by (auto simp: check_plain_arguments_def Let_def props filter_empty_conv)
    then show ?thesis unfolding pp props by fastforce
  next
    case False
    then have "check_plain_arguments schema args =
        (if filter (\<lambda>name. name \<notin> set (keys args)) (schema_required schema) \<noteq> []
         then [''missing required arguments: '' @ join_str '', ''
            (filter (\<lambda>name. name \<notin> set (keys args)) (schema_required schema))] else [])"
      by (auto simp: check_plain_arguments_def Let_def split: option.split json.split)
    with False show ?thesis by (auto simp: filter_empty_conv)
  qed
qed

end
