(* ===== verification/TaskManager.thy ===== *)
theory TaskManager
  imports Lifecycle Domain
begin

text \<open>
  The durable task manager (\<^verbatim>\<open>core/runtime/task_manager.py\<close>) over the task and context
  tables. A statement sent to the database may fail, transaction control included: \<open>db_fault db n\<close>
  says that the \<open>n\<close>-th statement of the run raises. A context is stored as the JSON text pydantic makes
  of it, which may fail as well: \<open>db_dump\<close> is the message of that failure, or nothing when the
  content can be dumped; identifiers, states and time stamps always can. \<open>w_trace\<close> records what leaves
  the process, in order: transaction control, writes, and published events. Of the context the model
  keeps what the code under \<^verbatim>\<open>agent/\<close> reads or writes.
\<close>

record task = entity +
  task_title :: string
  task_goal_id :: "string option"
  task_state :: task_state
  task_agent_id :: "string option"

record exec_context = entity +
  ctx_task_id :: string
  ctx_goal :: string
  ctx_current_state :: task_state
  ctx_plan :: "plan option"
  ctx_tool_results :: "tool_result list"
  ctx_observations :: "string list"
  ctx_metadata :: "(string \<times> json) list"

datatype effect =
    Begin | Commit | Rollback
  | WriteTask string | WriteContext string
  | Publish event

record tm_world =
  w_tasks :: "task table"
  w_ctxs :: "(string \<times> exec_context) list"
  w_depth :: nat
  w_open :: bool
  w_saved :: "task table \<times> (string \<times> exec_context) list"
  w_stmts :: nat
  w_trace :: "effect list"

type_synonym ctx_content = "string \<times> plan option \<times> tool_result list \<times> string list \<times> (string \<times> json) list"

record db_env =
  db_fault :: "nat \<Rightarrow> bool"
  db_dump :: "ctx_content \<Rightarrow> string option"

type_synonym 'a db_op = "tm_world \<Rightarrow> 'a result \<times> tm_world"

definition db_return :: "'a \<Rightarrow> 'a db_op" where
  "db_return x w = (Inr x, w)"

definition db_raise :: "exn \<Rightarrow> 'a db_op" where
  "db_raise e w = (Inl e, w)"

definition db_bind :: "'a db_op \<Rightarrow> ('a \<Rightarrow> 'b db_op) \<Rightarrow> 'b db_op" where
  "db_bind m f w = (case m w of (Inl e, w') \<Rightarrow> (Inl e, w') | (Inr x, w') \<Rightarrow> f x w')"

definition log_effect :: "effect \<Rightarrow> tm_world \<Rightarrow> tm_world" where
  "log_effect e w = w\<lparr>w_trace := w_trace w @ [e]\<rparr>"

text \<open>One statement: counted; it fails, or does its work.\<close>

definition statement :: "db_env \<Rightarrow> (tm_world \<Rightarrow> 'a result \<times> tm_world) \<Rightarrow> 'a db_op" where
  "statement db work w =
     (let w' = w\<lparr>w_stmts := Suc (w_stmts w)\<rparr>
      in if db_fault db (w_stmts w) then (Inl (PersistenceError ''database error''), w') else work w')"

text \<open>
  \<open>Database.transaction\<close>: \<open>BEGIN IMMEDIATE\<close> at the outermost level, \<open>ROLLBACK\<close> when the block
  raises, \<open>COMMIT\<close> when it returns. The three go to the connection itself, so their failures are
  SQLite's exceptions. As SQLite documents it, \<open>BEGIN\<close> fails inside an open transaction, a \<open>COMMIT\<close>
  that fails leaves the transaction open with its writes, and a \<open>ROLLBACK\<close> that fails finds the
  transaction rolled back already. Only the tables are transactional.
\<close>

definition begin_tx :: "db_env \<Rightarrow> unit db_op" where
  "begin_tx db w =
     (let w' = w\<lparr>w_stmts := Suc (w_stmts w)\<rparr> in
      if db_fault db (w_stmts w) then (Inl (OtherException ''database is locked''), w')
      else if w_open w
      then (Inl (OtherException ''cannot start a transaction within a transaction''), w')
      else (Inr (), log_effect Begin (w'\<lparr>w_open := True, w_saved := (w_tasks w, w_ctxs w)\<rparr>)))"

definition commit_tx :: "db_env \<Rightarrow> unit db_op" where
  "commit_tx db w =
     (let w' = w\<lparr>w_stmts := Suc (w_stmts w)\<rparr> in
      if db_fault db (w_stmts w) then (Inl (OtherException ''database is locked''), w')
      else (Inr (), log_effect Commit (w'\<lparr>w_open := False\<rparr>)))"

definition rollback_tx :: "db_env \<Rightarrow> unit db_op" where
  "rollback_tx db w =
     (let w' = w\<lparr>w_stmts := Suc (w_stmts w), w_open := False, w_tasks := fst (w_saved w),
                w_ctxs := snd (w_saved w)\<rparr> in
      if db_fault db (w_stmts w)
      then (Inl (OtherException ''cannot rollback - no transaction is active''), w')
      else (Inr (), log_effect Rollback w'))"

definition transaction :: "db_env \<Rightarrow> 'a db_op \<Rightarrow> 'a db_op" where
  "transaction db body w =
     (let outermost = (w_depth w = 0) in
      db_bind (if outermost then begin_tx db else db_return ()) (\<lambda>_ w1.
        case body (w1\<lparr>w_depth := Suc (w_depth w1)\<rparr>) of
          (Inl e, w2) \<Rightarrow>
            db_bind (if outermost then rollback_tx db else db_return ()) (\<lambda>_. db_raise e)
              (w2\<lparr>w_depth := w_depth w2 - 1\<rparr>)
        | (Inr x, w2) \<Rightarrow>
            db_bind (if outermost then commit_tx db else db_return ()) (\<lambda>_. db_return x)
              (w2\<lparr>w_depth := w_depth w2 - 1\<rparr>)) w)"

subsection \<open>The repositories the manager holds\<close>

definition tasks_create :: "db_env \<Rightarrow> real \<Rightarrow> task \<Rightarrow> task db_op" where
  "tasks_create db now t = statement db (\<lambda>w.
     case tbl_create now t (w_tasks w) of
       Inl e \<Rightarrow> (Inl e, w)
     | Inr (t', tbl) \<Rightarrow> (Inr t', log_effect (WriteTask (ent_id t')) (w\<lparr>w_tasks := tbl\<rparr>)))"

definition tasks_get :: "db_env \<Rightarrow> string \<Rightarrow> task option db_op" where
  "tasks_get db tid = statement db (\<lambda>w. (Inr (tbl_get tid (w_tasks w)), w))"

definition tasks_update :: "db_env \<Rightarrow> real \<Rightarrow> task \<Rightarrow> task db_op" where
  "tasks_update db now t = statement db (\<lambda>w.
     case tbl_update now t (w_tasks w) of
       Inl e \<Rightarrow> (Inl e, w)
     | Inr (t', tbl) \<Rightarrow> (Inr t', log_effect (WriteTask (ent_id t')) (w\<lparr>w_tasks := tbl\<rparr>)))"

text \<open>\<open>ExecutionContext.snapshot\<close>, then the write: a context that cannot be dumped is not sent.\<close>

definition ctx_content :: "exec_context \<Rightarrow> ctx_content" where
  "ctx_content c = (ctx_goal c, ctx_plan c, ctx_tool_results c, ctx_observations c, ctx_metadata c)"

definition snapshot :: "db_env \<Rightarrow> exec_context \<Rightarrow> unit result" where
  "snapshot db c =
     (case db_dump db (ctx_content c) of
        None \<Rightarrow> Inr ()
      | Some m \<Rightarrow> Inl (ContextSerializationError
          (''cannot serialize context '' @ ent_id c @ '': '' @ m)))"

definition contexts_save :: "db_env \<Rightarrow> real \<Rightarrow> exec_context \<Rightarrow> exec_context db_op" where
  "contexts_save db now c =
     (let c' = touch now c in
      case snapshot db c' of
        Inl e \<Rightarrow> db_raise e
      | Inr _ \<Rightarrow> statement db (\<lambda>w.
          (Inr c', log_effect (WriteContext (ctx_task_id c'))
             (w\<lparr>w_ctxs := dict_set (ctx_task_id c') c' (w_ctxs w)\<rparr>))))"

definition contexts_load :: "db_env \<Rightarrow> string \<Rightarrow> exec_context option db_op" where
  "contexts_load db tid = statement db (\<lambda>w. (Inr (map_of (w_ctxs w) tid), w))"

subsection \<open>TaskManager\<close>

text \<open>
  \<open>has_db\<close> tells whether the manager was given a database for transactions; \<open>tid\<close> and \<open>cid\<close>
  are the fresh identifiers of the two new entities.
\<close>

definition create_task_body ::
  "db_env \<Rightarrow> real \<Rightarrow> string \<Rightarrow> string \<Rightarrow> string \<Rightarrow> string \<Rightarrow> (task \<times> exec_context) db_op" where
  "create_task_body db now tid cid title goal =
     db_bind (tasks_create db now
        \<lparr>ent_id = tid, ent_created = now, ent_updated = now, task_title = title,
         task_goal_id = None, task_state = CREATED, task_agent_id = None\<rparr>) (\<lambda>t.
     db_bind (contexts_save db now
        \<lparr>ent_id = cid, ent_created = now, ent_updated = now, ctx_task_id = ent_id t,
         ctx_goal = (if goal = [] then title else goal), ctx_current_state = CREATED,
         ctx_plan = None, ctx_tool_results = [], ctx_observations = [], ctx_metadata = []\<rparr>) (\<lambda>c w.
     (Inr (t, c), log_effect (Publish (mk_event ''TaskCreated'' (ent_id t)
        (JObj [(''title'', JStr title), (''goal'', JStr (if goal = [] then title else goal))]))) w)))"

definition create_task ::
  "bool \<Rightarrow> db_env \<Rightarrow> real \<Rightarrow> string \<Rightarrow> string \<Rightarrow> string \<Rightarrow> string \<Rightarrow> (task \<times> exec_context) db_op" where
  "create_task has_db db now tid cid title goal =
     (if has_db then transaction db (create_task_body db now tid cid title goal)
      else create_task_body db now tid cid title goal)"

definition transition_body :: "db_env \<Rightarrow> real \<Rightarrow> string \<Rightarrow> task_state \<Rightarrow> task db_op" where
  "transition_body db now tid to_state =
     db_bind (tasks_get db tid) (\<lambda>found.
       case found of
         None \<Rightarrow> db_raise (ResourceNotFoundError ''Task'' tid)
       | Some t \<Rightarrow>
           (case assert_transition (task_state t) to_state of
              Inl e \<Rightarrow> db_raise e
            | Inr _ \<Rightarrow>
                (let t1 = touch now (t\<lparr>task_state := to_state\<rparr>) in
                 db_bind (tasks_update db now t1) (\<lambda>t2.
                 db_bind (contexts_load db tid) (\<lambda>ctx.
                   case ctx of
                     None \<Rightarrow> db_return t2
                   | Some c \<Rightarrow>
                       db_bind (contexts_save db now
                          (touch now (c\<lparr>ctx_current_state := to_state\<rparr>))) (\<lambda>_. db_return t2))))))"

definition transition :: "bool \<Rightarrow> db_env \<Rightarrow> real \<Rightarrow> string \<Rightarrow> task_state \<Rightarrow> task db_op" where
  "transition has_db db now tid to_state =
     (if has_db then transaction db (transition_body db now tid to_state)
      else transition_body db now tid to_state)"

text \<open>\<open>AgentRuntime.submit_goal\<close>; the runtime always hands the manager its database.\<close>

record goal =
  goal_title :: string
  goal_description :: string
  goal_success_criteria :: "string list"

definition submit_goal ::
  "db_env \<Rightarrow> real \<Rightarrow> string \<Rightarrow> string \<Rightarrow> goal \<Rightarrow> (task \<times> exec_context) db_op" where
  "submit_goal db now tid cid g =
     (let title = (if goal_title g \<noteq> [] then goal_title g
                   else if goal_description g \<noteq> [] then goal_description g
                   else ''untitled goal'')
      in db_bind (create_task True db now tid cid title
           (if goal_description g \<noteq> [] then goal_description g else title)) (\<lambda>(t, c).
         if goal_success_criteria g \<noteq> []
         then db_bind (contexts_save db now
                (c\<lparr>ctx_metadata := dict_set ''success_criteria''
                     (JList (map JStr (goal_success_criteria g))) (ctx_metadata c)\<rparr>))
                (\<lambda>c'. db_return (t, c'))
         else db_return (t, c)))"

subsection \<open>Atomicity\<close>

definition data :: "tm_world \<Rightarrow> task table \<times> (string \<times> exec_context) list" where
  "data w = (w_tasks w, w_ctxs w)"

lemmas db_defs = db_return_def db_raise_def db_bind_def statement_def log_effect_def Let_def
  tasks_create_def tasks_get_def tasks_update_def contexts_save_def contexts_load_def snapshot_def

text \<open>Inside a block, the open transaction, its saved copy and the nesting depth are left alone.\<close>

definition control :: "tm_world \<Rightarrow> bool \<times> (task table \<times> (string \<times> exec_context) list) \<times> nat" where
  "control w = (w_open w, w_saved w, w_depth w)"

definition frames :: "'a db_op \<Rightarrow> bool" where
  "frames m \<longleftrightarrow> (\<forall>w. control (snd (m w)) = control w)"

lemma frames_intros:
  "frames (db_return x)" "frames (db_raise e)"
  "frames (tasks_create db now t)" "frames (tasks_get db tid)"
  "frames (tasks_update db now t)" "frames (contexts_save db now c)"
  "frames (contexts_load db tid)"
  by (auto simp: frames_def control_def db_defs split: sum.splits prod.splits option.splits)

lemma framesD: "frames m \<Longrightarrow> m w = (r, w') \<Longrightarrow>
    w_open w' = w_open w \<and> w_saved w' = w_saved w \<and> w_depth w' = w_depth w"
  by (metis frames_def control_def snd_conv prod.inject)

lemma frames_bind: "frames m \<Longrightarrow> (\<And>x. frames (f x)) \<Longrightarrow> frames (db_bind m f)"
  unfolding frames_def db_bind_def by (auto split: prod.split sum.split) (metis snd_conv)+

lemma frames_create_body: "frames (create_task_body db now tid cid title goal)"
  unfolding create_task_body_def
  by (intro frames_bind frames_intros) (simp add: frames_def control_def log_effect_def)

lemma frames_transition_body: "frames (transition_body db now tid to_state)"
  unfolding transition_body_def Let_def
  by (intro frames_bind frames_intros)
    (auto intro!: frames_bind frames_intros split: option.split sum.split)

text \<open>
  A transaction ends in one of four ways: it does not begin; its block returns and is committed; its
  block returns and the commit fails, which leaves it open; its block raises and is undone.
\<close>

lemma transaction_cases:
  assumes "frames body" and "w_depth w = 0" and "transaction db body w = (r, w')"
  obtains (unopened) e where "r = Inl e" "data w' = data w" "w_depth w' = 0" "w_open w' = w_open w"
      "w_open w \<or> (\<exists>n. db_fault db n)"
  | (committed) x w1 w2 where "r = Inr x" "body w1 = (Inr x, w2)" "data w1 = data w" "data w' = data w2"
      "w_depth w' = 0" "\<not> w_open w'" "w_trace w1 = w_trace w @ [Begin]" "w_trace w' = w_trace w2 @ [Commit]"
  | (stuck) e x w1 w2 where "r = Inl e" "body w1 = (Inr x, w2)" "data w1 = data w" "data w' = data w2"
      "w_depth w' = 0" "w_open w'" "\<exists>n. db_fault db n"
  | (undone) e e' w1 w2 where "r = Inl e" "body w1 = (Inl e', w2)" "data w1 = data w" "data w' = data w"
      "w_depth w' = 0" "\<not> w_open w'"
proof (cases "db_fault db (w_stmts w) \<or> w_open w")
  case True
  then have "\<exists>e. r = Inl e" "data w' = data w" "w_depth w' = 0" "w_open w' = w_open w"
    using assms(2,3)
    by (auto simp: transaction_def begin_tx_def db_bind_def data_def Let_def split: if_splits)
  with True show ?thesis by (auto intro: unopened)
next
  case False
  let ?w0 = "log_effect Begin (w\<lparr>w_stmts := Suc (w_stmts w), w_open := True, w_saved := (w_tasks w, w_ctxs w)\<rparr>)"
  let ?w1 = "?w0\<lparr>w_depth := Suc 0\<rparr>"
  obtain r2 w2 where b: "body ?w1 = (r2, w2)" by (cases "body ?w1")
  from framesD [OF assms(1) b]
  have fr: "w_open w2" "w_saved w2 = (w_tasks w, w_ctxs w)" "w_depth w2 = Suc 0"
    by (simp_all add: log_effect_def)
  have w1: "data ?w1 = data w" "w_trace ?w1 = w_trace w @ [Begin]" by (simp_all add: data_def log_effect_def)
  have run: "transaction db body w =
      (case r2 of Inl e \<Rightarrow> db_bind (rollback_tx db) (\<lambda>_. db_raise e) (w2\<lparr>w_depth := 0\<rparr>)
       | Inr x \<Rightarrow> db_bind (commit_tx db) (\<lambda>_. db_return x) (w2\<lparr>w_depth := 0\<rparr>))"
    using False b assms(2) fr(3)
    by (cases r2) (simp_all add: transaction_def begin_tx_def db_bind_def log_effect_def Let_def)
  show ?thesis
  proof (cases r2)
    case (Inl e)
    with run assms(3) fr have "\<exists>e. r = Inl e" "data w' = data w" "w_depth w' = 0" "\<not> w_open w'"
      by (auto simp: rollback_tx_def db_bind_def db_raise_def data_def log_effect_def Let_def split: if_splits)
    with b w1(1) Inl show ?thesis by (auto intro: undone)
  next
    case (Inr x)
    have w2: "data (w2\<lparr>w_depth := 0\<rparr>) = data w2" by (simp add: data_def)
    show ?thesis
    proof (cases "db_fault db (w_stmts w2)")
      case True
      with run assms(3) fr Inr have "\<exists>e. r = Inl e" "data w' = data w2" "w_depth w' = 0" "w_open w'"
        by (auto simp: commit_tx_def db_bind_def db_return_def data_def Let_def)
      with b w1(1) Inr True show ?thesis by (auto intro: stuck)
    next
      case False
      with run assms(3) fr Inr have "r = Inr x" "data w' = data w2" "w_depth w' = 0" "\<not> w_open w'"
          "w_trace w' = w_trace w2 @ [Commit]"
        by (auto simp: commit_tx_def db_bind_def db_return_def data_def log_effect_def Let_def)
      with b w1 Inr show ?thesis by (auto intro: committed)
    qed
  qed
qed

lemma transaction_Inr:
  assumes "frames body" "w_depth w = 0" "transaction db body w = (Inr x, w')"
  obtains w1 w2 where "data w1 = data w" "body w1 = (Inr x, w2)" "data w' = data w2" "w_depth w' = 0"
    "w_trace w1 = w_trace w @ [Begin]" "w_trace w' = w_trace w2 @ [Commit]"
  using assms by (cases rule: transaction_cases) auto

subsection \<open>What a successful block did\<close>

lemma create_body_Inr:
  assumes "create_task_body db now tid cid title goal w = (Inr (t, c), w')"
  shows "map_of (w_tasks w) tid = None"
    and "data w' = (dict_set tid t (w_tasks w), dict_set tid c (w_ctxs w))"
    and "ent_id t = tid" and "task_state t = CREATED"
    and "ctx_task_id c = tid" and "ctx_current_state c = CREATED"
    and "\<exists>ev. event_type ev = ''TaskCreated'' \<and> event_task ev = Some tid
          \<and> w_trace w' = w_trace w @ [WriteTask tid, WriteContext tid, Publish ev]"
  using assms
  by (auto simp: create_task_body_def db_defs data_def mk_event_def store_simps tbl_get_def touch_def
      split: if_splits sum.splits prod.splits option.splits)

text \<open>Inversion of the successful runs.\<close>

lemma db_bind_InrE:
  assumes "db_bind m f w = (Inr y, w')"
  obtains x w1 where "m w = (Inr x, w1)" and "f x w1 = (Inr y, w')"
  using assms by (auto simp: db_bind_def split: prod.splits sum.splits)

lemma tasks_get_Inr: "tasks_get db tid w = (Inr found, w') \<Longrightarrow>
    found = map_of (w_tasks w) tid \<and> data w' = data w \<and> w_tasks w' = w_tasks w \<and> w_ctxs w' = w_ctxs w"
  by (auto simp: tasks_get_def statement_def tbl_get_def data_def Let_def split: if_splits)

lemma contexts_load_Inr: "contexts_load db tid w = (Inr found, w') \<Longrightarrow>
    found = map_of (w_ctxs w) tid \<and> w_tasks w' = w_tasks w \<and> w_ctxs w' = w_ctxs w"
  by (auto simp: contexts_load_def statement_def Let_def split: if_splits)

lemma tasks_update_Inr: "tasks_update db now t w = (Inr t', w') \<Longrightarrow>
    t' = touch now t \<and> w_tasks w' = dict_set (ent_id t) t' (w_tasks w) \<and> w_ctxs w' = w_ctxs w"
  by (auto simp: tasks_update_def statement_def store_simps log_effect_def Let_def split: if_splits)

lemma contexts_save_Inr: "contexts_save db now c w = (Inr c', w') \<Longrightarrow>
    c' = touch now c \<and> w_tasks w' = w_tasks w
    \<and> w_ctxs w' = dict_set (ctx_task_id c) c' (w_ctxs w) \<and> snapshot db c = Inr ()"
  by (auto simp: contexts_save_def statement_def log_effect_def snapshot_def ctx_content_def db_raise_def
      Let_def touch_def split: if_splits option.splits)

lemma touch_touch [simp]: "touch now (touch now x) = touch now x"
  by (simp add: touch_def)

lemma transition_body_Inr:
  assumes run: "transition_body db now tid b w = (Inr t', w')" and "wf_table (w_tasks w)"
  obtains t where "map_of (w_tasks w) tid = Some t" and "moves (task_state t) b"
    and "w_tasks w' = dict_set tid t' (w_tasks w)" and "t' = touch now (t\<lparr>task_state := b\<rparr>)"
    and "w_ctxs w' = (case map_of (w_ctxs w) tid of None \<Rightarrow> w_ctxs w
           | Some c \<Rightarrow> dict_set (ctx_task_id c) (touch now (c\<lparr>ctx_current_state := b\<rparr>)) (w_ctxs w))"
proof -
  from run [unfolded transition_body_def] obtain found w1 where
    w1: "w_tasks w1 = w_tasks w" "w_ctxs w1 = w_ctxs w" and found: "found = map_of (w_tasks w) tid"
    and rest: "(case found of None \<Rightarrow> db_raise (ResourceNotFoundError ''Task'' tid)
       | Some t \<Rightarrow> (case assert_transition (task_state t) b of Inl e \<Rightarrow> db_raise e
          | Inr _ \<Rightarrow> (let t1 = touch now (t\<lparr>task_state := b\<rparr>) in
             db_bind (tasks_update db now t1) (\<lambda>t2. db_bind (contexts_load db tid) (\<lambda>ctx.
               case ctx of None \<Rightarrow> db_return t2
               | Some c \<Rightarrow> db_bind (contexts_save db now (touch now (c\<lparr>ctx_current_state := b\<rparr>)))
                   (\<lambda>_. db_return t2)))))) w1 = (Inr t', w')"
    by (blast elim: db_bind_InrE dest: tasks_get_Inr)
  from rest obtain t where t: "found = Some t" by (cases found) (auto simp: db_raise_def)
  with rest obtain u where legal: "assert_transition (task_state t) b = Inr u"
    by (cases "assert_transition (task_state t) b") (auto simp: db_raise_def)
  have idt: "ent_id t = tid" using wf_table_get [OF assms(2)] found t by metis
  let ?t1 = "touch now (t\<lparr>task_state := b\<rparr>)"
  have idt1: "ent_id ?t1 = tid" using idt by (simp add: touch_def)
  from rest t legal obtain t2 w2 ctx w3 where
    upd: "tasks_update db now ?t1 w1 = (Inr t2, w2)"
    and load: "contexts_load db tid w2 = (Inr ctx, w3)"
    and last: "(case ctx of None \<Rightarrow> db_return t2
       | Some c \<Rightarrow> db_bind (contexts_save db now (touch now (c\<lparr>ctx_current_state := b\<rparr>)))
           (\<lambda>_. db_return t2)) w3 = (Inr t', w')"
    by (auto simp: Let_def elim!: db_bind_InrE)
  from tasks_update_Inr [OF upd] w1 idt1
  have w2: "t2 = ?t1" "w_tasks w2 = dict_set tid t2 (w_tasks w)" "w_ctxs w2 = w_ctxs w"
    by (simp_all only: touch_touch)
  from contexts_load_Inr [OF load] w2
  have w3: "t2 = ?t1" "w_tasks w3 = dict_set tid t2 (w_tasks w)" "w_ctxs w3 = w_ctxs w"
    "ctx = map_of (w_ctxs w) tid" by simp_all
  have t'w': "t' = t2" "w_tasks w' = w_tasks w3"
    "w_ctxs w' = (case ctx of None \<Rightarrow> w_ctxs w3
       | Some c \<Rightarrow> dict_set (ctx_task_id c) (touch now (c\<lparr>ctx_current_state := b\<rparr>)) (w_ctxs w3))"
    using last by (auto simp: db_return_def touch_def split: option.splits
        elim!: db_bind_InrE dest!: contexts_save_Inr)
  have "moves (task_state t) b"
    using legal by (auto simp: assert_transition_def moves_iff split: if_splits)
  with found t w3(1,2,4) t'w'(1,2) t'w'(3) [unfolded w3(3)] show ?thesis
    by (intro that [of t]) simp_all
qed

subsection \<open>Tasks and contexts agree\<close>

definition agree :: "task table \<times> (string \<times> exec_context) list \<Rightarrow> bool" where
  "agree d \<longleftrightarrow> wf_table (fst d) \<and> (\<forall>(tid, c) \<in> set (snd d). ctx_task_id c = tid)
     \<and> (\<forall>tid. map_option ctx_current_state (map_of (snd d) tid)
            = map_option task_state (map_of (fst d) tid))"

lemma agree_wf: "agree (ts, cs) \<Longrightarrow> wf_table ts"
  by (simp add: agree_def)

lemma agree_ctx: "agree (ts, cs) \<Longrightarrow> map_of cs tid = Some c \<Longrightarrow> ctx_task_id c = tid"
  by (auto simp: agree_def dest!: map_of_SomeD)

lemma set_dict_set_subset: "set (dict_set k v d) \<subseteq> insert (k, v) (set d)"
  by (induction d) auto

lemma agree_set_both:
  assumes "agree (ts, cs)" "ent_id t = tid" "ctx_task_id c = tid" "ctx_current_state c = task_state t"
  shows "agree (dict_set tid t ts, dict_set tid c cs)"
  using assms wf_table_dict_set [of ts t] set_dict_set_subset [of tid c cs]
  by (auto simp: agree_def)

lemma create_body_agree:
  assumes "agree (data w)" "create_task_body db now tid cid title goal w = (Inr p, w')"
  shows "agree (data w')"
proof -
  obtain t c where "p = (t, c)" by (cases p)
  with create_body_Inr [OF assms(2) [unfolded this]] assms(1) show ?thesis
    by (simp add: data_def agree_set_both)
qed

lemma transition_body_agree:
  assumes "agree (data w)" "transition_body db now tid b w = (Inr t', w')"
  shows "agree (data w')"
proof -
  have ag: "agree (w_tasks w, w_ctxs w)" using assms(1) by (simp add: data_def)
  obtain t where t: "map_of (w_tasks w) tid = Some t" "moves (task_state t) b"
    "w_tasks w' = dict_set tid t' (w_tasks w)" "t' = touch now (t\<lparr>task_state := b\<rparr>)"
    and c: "w_ctxs w' = (case map_of (w_ctxs w) tid of None \<Rightarrow> w_ctxs w
         | Some c \<Rightarrow> dict_set (ctx_task_id c) (touch now (c\<lparr>ctx_current_state := b\<rparr>)) (w_ctxs w))"
    by (rule transition_body_Inr [OF assms(2) agree_wf [OF ag]])
  from ag t(1) obtain c0 where c0: "map_of (w_ctxs w) tid = Some c0"
    by (cases "map_of (w_ctxs w) tid") (auto simp: agree_def dest: spec [of _ tid])
  let ?c = "touch now (c0\<lparr>ctx_current_state := b\<rparr>)"
  have ctid: "ctx_task_id c0 = tid" by (rule agree_ctx [OF ag c0])
  have t': "ent_id t' = tid" "task_state t' = b"
    using wf_table_get [OF agree_wf [OF ag] t(1)] t(4) by (simp_all add: touch_def)
  have "w_ctxs w' = dict_set tid ?c (w_ctxs w)" using c c0 ctid by simp
  moreover have "agree (dict_set tid t' (w_tasks w), dict_set tid ?c (w_ctxs w))"
    by (rule agree_set_both [OF ag t'(1)]) (simp_all add: touch_def ctid t'(2))
  ultimately show ?thesis using t(3) by (simp add: data_def)
qed

lemma transaction_agree:
  assumes "frames body" "w_depth w = 0" "agree (data w)" "transaction db body w = (r, w')"
    and "\<And>w1 x w2. agree (data w1) \<Longrightarrow> body w1 = (Inr x, w2) \<Longrightarrow> agree (data w2)"
  shows "agree (data w') \<and> w_depth w' = 0"
  using assms(1,2,4) by (cases rule: transaction_cases) (metis assms(3,5))+

lemma create_agree:
  assumes "agree (data w)" and "w_depth w = 0"
    and "create_task True db now tid cid title goal w = (r, w')"
  shows "agree (data w') \<and> w_depth w' = 0"
  by (rule transaction_agree [OF frames_create_body assms(2,1) assms(3) [unfolded create_task_def if_True]])
    (rule create_body_agree)

lemma transition_agree:
  assumes "agree (data w)" and "w_depth w = 0"
    and "transition True db now tid b w = (r, w')"
  shows "agree (data w') \<and> w_depth w' = 0"
  by (rule transaction_agree [OF frames_transition_body assms(2,1) assms(3) [unfolded transition_def if_True]])
    (rule transition_body_agree)

subsection \<open>Runs of the manager\<close>

text \<open>
  A step is one call of the manager with its database, whatever its statements do. A run starts
  from empty tables.
\<close>

inductive tm_step :: "tm_world \<Rightarrow> tm_world \<Rightarrow> bool" where
  create: "create_task True db now tid cid title goal w = (r, w') \<Longrightarrow> tm_step w w'"
| transit: "transition True db now tid b w = (r, w') \<Longrightarrow> tm_step w w'"

definition tm_init :: tm_world where
  "tm_init = \<lparr>w_tasks = [], w_ctxs = [], w_depth = 0, w_open = False, w_saved = ([], []), w_stmts = 0, w_trace = []\<rparr>"

inductive tm_reachable :: "tm_world \<Rightarrow> bool" where
  init: "tm_reachable tm_init"
| step: "tm_reachable w \<Longrightarrow> tm_step w w' \<Longrightarrow> tm_reachable w'"

inductive_cases tm_stepE: "tm_step w w'"

lemma tm_step_agree: "tm_step w w' \<Longrightarrow> agree (data w) \<Longrightarrow> w_depth w = 0
    \<Longrightarrow> agree (data w') \<and> w_depth w' = 0"
  by (elim tm_stepE) (blast dest: create_agree transition_agree)+

lemma tm_reachable_agree: "tm_reachable w \<Longrightarrow> agree (data w) \<and> w_depth w = 0"
proof (induction rule: tm_reachable.induct)
  case init
  show ?case by (simp add: tm_init_def data_def agree_def wf_table_def)
next
  case (step w w')
  then show ?case by (blast dest: tm_step_agree)
qed

lemma transition_moves:
  assumes "transition True db now tid b w = (Inr t', w')" "agree (data w)" "w_depth w = 0"
  shows "\<exists>t. map_of (w_tasks w) tid = Some t \<and> moves (task_state t) b"
proof -
  from assms(1) have "transaction db (transition_body db now tid b) w = (Inr t', w')"
    by (simp add: transition_def)
  then obtain w1 w2 where w: "data w1 = data w" "transition_body db now tid b w1 = (Inr t', w2)"
    by (rule transaction_Inr [OF frames_transition_body assms(3)])
  moreover from this have "wf_table (w_tasks w1)" using assms(2) by (simp add: data_def agree_def)
  ultimately show ?thesis by (metis data_def prod.inject transition_body_Inr)
qed

text \<open>A block that raises leaves the tables as they were, unless its writes wait for a commit that failed.\<close>

lemma transaction_rollback:
  assumes "frames body" "w_depth w = 0" "transaction db body w = (Inl e, w')" "\<not> w_open w'"
  shows "data w' = data w"
  using assms(1-3) by (cases rule: transaction_cases) (use assms(4) in auto)

subsection \<open>Properties\<close>


definition no_fault :: db_env where
  "no_fault = \<lparr>db_fault = (\<lambda>_. False), db_dump = (\<lambda>_. None)\<rparr>"

definition created_fine :: "(task \<times> exec_context) result \<times> tm_world \<Rightarrow> bool" where
  "created_fine r = (case r of
     (Inr (t, c), w) \<Rightarrow> map_of (w_tasks w) ''t1'' = Some t \<and> task_state t = CREATED \<and> w_depth w = 0
   | _ \<Rightarrow> False)"

lemma demo_create:
  "\<exists>t c w. create_task True no_fault 7 ''t1'' ''c1'' ''title'' [] tm_init = (Inr (t, c), w)
     \<and> map_of (w_tasks w) ''t1'' = Some t \<and> task_state t = CREATED \<and> w_depth w = 0"
proof -
  have "created_fine (create_task True no_fault 7 ''t1'' ''c1'' ''title'' [] tm_init)" by code_simp
  then show ?thesis by (auto simp: created_fine_def split: prod.splits sum.splits)
qed


text \<open>
  \<open>TaskManager.transition\<close> with a database is atomic: when it raises, both tables are as they
  were before the call, or the move is made and waits in a transaction whose COMMIT failed; when it
  returns, the task existed, the move is one the state machine allows, and the task row and its
  context carry the new state.
\<close>

theorem transition_atomic:
  assumes "tm_reachable w" "transition True db now tid b w = (r, w')"
  shows "(\<forall>e. r = Inl e \<longrightarrow> w_open w' \<or> w_tasks w' = w_tasks w \<and> w_ctxs w' = w_ctxs w)
    \<and> (\<forall>t'. r = Inr t' \<longrightarrow> (\<exists>t. map_of (w_tasks w) tid = Some t \<and> is_valid_transition (task_state t) b)
         \<and> map_of (w_tasks w') tid = Some t' \<and> task_state t' = b
         \<and> map_option ctx_current_state (map_of (w_ctxs w') tid) = Some b)"
proof -
  note ag = tm_reachable_agree [OF assms(1)]
  have tr: "transaction db (transition_body db now tid b) w = (r, w')"
    using assms(2) by (simp add: transition_def)
  have "w_open w' \<or> data w' = data w" if "r = Inl e" for e
    using transaction_rollback [OF frames_transition_body _ tr [unfolded that]] ag by auto
  moreover have "(\<exists>t. map_of (w_tasks w) tid = Some t \<and> is_valid_transition (task_state t) b)
         \<and> map_of (w_tasks w') tid = Some t' \<and> task_state t' = b
         \<and> map_option ctx_current_state (map_of (w_ctxs w') tid) = Some b" if r: "r = Inr t'" for t'
  proof -
    obtain w1 w2 where
      w: "data w1 = data w" "transition_body db now tid b w1 = (Inr t', w2)" "data w' = data w2"
      by (rule transaction_Inr [OF frames_transition_body _ tr [unfolded r]]) (use ag in simp)
    have wf: "wf_table (w_tasks w1)" using w(1) ag by (simp add: data_def agree_def)
    obtain t where t: "map_of (w_tasks w1) tid = Some t" "moves (task_state t) b"
      "w_tasks w2 = dict_set tid t' (w_tasks w1)" "t' = touch now (t\<lparr>task_state := b\<rparr>)"
      by (rule transition_body_Inr [OF w(2) wf])
    have "map_of (w_tasks w') tid = Some t'" using w(3) t(3) by (simp add: data_def)
    moreover have "task_state t' = b" using t(4) by (simp add: touch_def)
    moreover have "tm_reachable w'" by (rule tm_reachable.step [OF assms(1) tm_step.transit [OF assms(2)]])
    then have "agree (data w')" using tm_reachable_agree by blast
    then have "map_option ctx_current_state (map_of (w_ctxs w') tid) = map_option task_state (map_of (w_tasks w') tid)"
      by (simp add: agree_def data_def)
    ultimately show ?thesis using t w(1) by (auto simp: data_def moves_iff)
  qed
  ultimately show ?thesis by (auto simp: data_def)
qed

theorem transition_atomic_witness:
  "\<exists>w r w'. tm_reachable w \<and> transition True no_fault 8 ''t1'' COMPLETED w = (Inl r, w')
     \<and> (w_open w' \<or> w_tasks w' = w_tasks w)"
proof -
  from demo_create obtain t c w where
    d: "create_task True no_fault 7 ''t1'' ''c1'' ''title'' [] tm_init = (Inr (t, c), w)"
      "map_of (w_tasks w) ''t1'' = Some t" "task_state t = CREATED" by blast
  have r: "tm_reachable w" by (rule tm_reachable.step [OF tm_reachable.init tm_step.create [OF d(1)]])
  obtain res w' where t: "transition True no_fault 8 ''t1'' COMPLETED w = (res, w')" by fastforce
  from transition_atomic [OF r t] d(2,3) have "\<exists>e. res = Inl e"
    by (cases res) (auto simp: transition_defs)
  with transition_atomic [OF r t] r t show ?thesis by blast
qed

text \<open>
  A COMMIT that fails leaves the transaction open for good: the block has raised, nothing rolls it
  back, and every later block fails at its BEGIN.
\<close>

definition commit_fails :: db_env where
  "commit_fails = no_fault\<lparr>db_fault := (\<lambda>n. n = 3)\<rparr>"

definition stays_open :: "(task \<times> exec_context) result \<times> tm_world \<Rightarrow> bool" where
  "stays_open r = (case r of
     (Inl _, w) \<Rightarrow> w_open w \<and> w_depth w = 0 \<and> map_of (w_tasks w) ''t1'' \<noteq> None
       \<and> \<not> is_inr (fst (transition True no_fault 8 ''t1'' UNDERSTANDING w))
   | _ \<Rightarrow> False)"

lemma failed_commit_stays_open:
  "stays_open (create_task True commit_fails 7 ''t1'' ''c1'' ''title'' [] tm_init)"
  by code_simp

text \<open>
  a \<open>create_task\<close> that returns has sent \<open>TaskCreated\<close> to the bus before its COMMIT: what
  leaves the process is BEGIN, the two writes, the event, then COMMIT.
\<close>

theorem created_event_precedes_commit:
  assumes "w_depth w = 0" "create_task True db now tid cid title goal w = (Inr p, w')"
  shows "\<exists>ev. event_type ev = ''TaskCreated'' \<and> event_task ev = Some tid
    \<and> w_trace w' = w_trace w @ [Begin, WriteTask tid, WriteContext tid, Publish ev, Commit]"
proof -
  have "transaction db (create_task_body db now tid cid title goal) w = (Inr p, w')"
    using assms(2) by (simp add: create_task_def)
  then obtain w1 w2 where
    w: "create_task_body db now tid cid title goal w1 = (Inr p, w2)"
      "w_trace w1 = w_trace w @ [Begin]" "w_trace w' = w_trace w2 @ [Commit]"
    by (rule transaction_Inr [OF frames_create_body assms(1)])
  obtain t c where "p = (t, c)" by (cases p)
  from create_body_Inr(7) [OF w(1) [unfolded this]] w(2,3) show ?thesis by auto
qed

theorem created_event_precedes_commit_witness:
  "\<exists>ev w'. create_task True no_fault 7 ''t1'' ''c1'' ''title'' [] tm_init = (Inr (fst ev, snd ev), w')
     \<and> length (w_trace w') = 5"
proof -
  from demo_create obtain t c w where
    d: "create_task True no_fault 7 ''t1'' ''c1'' ''title'' [] tm_init = (Inr (t, c), w)" by blast
  have "w_depth tm_init = 0" by (simp add: tm_init_def)
  from created_event_precedes_commit [OF this d] have "length (w_trace w) = 5" by (auto simp: tm_init_def)
  with d show ?thesis by force
qed

end
