(* ===== verification/Circuit.thy ===== *)
theory Circuit
  imports Prelude
begin

text \<open>
  The circuit breaker (\<^verbatim>\<open>core/circuit.py\<close>). A call takes the lock twice: once to be admitted,
  once to record its outcome; the protected function runs in between, without the lock. The
  step relation interleaves the calls of several threads; \<open>cb_call\<close> is one call from start to end.
\<close>

datatype breaker_state = CLOSED | OPEN | HALF_OPEN

record breaker =
  cb_threshold :: int
  cb_reset_timeout :: real
  cb_state :: breaker_state
  cb_failures :: int
  cb_opened_at :: real
  cb_half_open_in_flight :: bool

definition new_breaker :: "int \<Rightarrow> real \<Rightarrow> breaker result" where
  "new_breaker failure_threshold reset_timeout_s =
     (if failure_threshold < 1 then Inl (OtherException ''failure_threshold must be >= 1'')
      else if \<not> reset_timeout_s \<ge> 0 then Inl (OtherException ''reset_timeout_s must be >= 0'')
      else Inr \<lparr>cb_threshold = failure_threshold, cb_reset_timeout = reset_timeout_s,
             cb_state = CLOSED, cb_failures = 0, cb_opened_at = 0, cb_half_open_in_flight = False\<rparr>)"

text \<open>\<open>_state_unlocked\<close> at clock reading \<open>now\<close>: an elapsed \<open>OPEN\<close> advances on read.\<close>

definition state_unlocked :: "real \<Rightarrow> breaker \<Rightarrow> breaker" where
  "state_unlocked now b =
     (if cb_state b = OPEN \<and> now - cb_opened_at b \<ge> cb_reset_timeout b
      then b\<lparr>cb_state := HALF_OPEN, cb_half_open_in_flight := False\<rparr> else b)"

definition admit :: "real \<Rightarrow> breaker \<Rightarrow> unit result \<times> breaker" where
  "admit now b =
     (let b' = state_unlocked now b in
      case cb_state b' of
        OPEN \<Rightarrow> (Inl (CircuitOpenError ''circuit is open''), b')
      | HALF_OPEN \<Rightarrow>
          (if cb_half_open_in_flight b'
           then (Inl (CircuitOpenError ''circuit probe already in flight''), b')
           else (Inr (), b'\<lparr>cb_half_open_in_flight := True\<rparr>))
      | CLOSED \<Rightarrow> (Inr (), b'))"

definition record_failure :: "real \<Rightarrow> breaker \<Rightarrow> breaker" where
  "record_failure now b =
     (let b1 = b\<lparr>cb_failures := cb_failures b + 1\<rparr> in
      if cb_state b1 = HALF_OPEN \<or> cb_failures b1 \<ge> cb_threshold b1
      then b1\<lparr>cb_state := OPEN, cb_opened_at := now, cb_half_open_in_flight := False\<rparr>
      else b1)"

definition record_success :: "breaker \<Rightarrow> breaker" where
  "record_success b = b\<lparr>cb_failures := 0, cb_state := CLOSED, cb_half_open_in_flight := False\<rparr>"

text \<open>The end of an admitted call: a \<open>CircuitOpenError\<close> of the function passes unrecorded.\<close>

definition settle :: "real \<Rightarrow> exn + 'a \<Rightarrow> breaker \<Rightarrow> breaker" where
  "settle now outcome b =
     (case outcome of
        Inr _ \<Rightarrow> record_success b
      | Inl (CircuitOpenError _) \<Rightarrow> b
      | Inl _ \<Rightarrow> record_failure now b)"

definition cb_call :: "real \<Rightarrow> real \<Rightarrow> exn + 'a \<Rightarrow> breaker \<Rightarrow> (exn + 'a) \<times> breaker" where
  "cb_call now later outcome b =
     (case admit now b of
        (Inl e, b') \<Rightarrow> (Inl e, b')
      | (Inr _, b') \<Rightarrow> (outcome, settle later outcome b'))"

text \<open>Whether the call reached the protected function.\<close>

definition admitted :: "real \<Rightarrow> breaker \<Rightarrow> bool" where
  "admitted now b = is_inr (fst (admit now b))"

lemmas circuit_defs = state_unlocked_def admit_def record_failure_def record_success_def
  settle_def cb_call_def admitted_def Let_def

subsection \<open>Interleaved calls\<close>

text \<open>The breaker and the number of admitted calls whose function is still running.\<close>

inductive cb_step :: "breaker \<times> nat \<Rightarrow> breaker \<times> nat \<Rightarrow> bool" where
  read: "cb_step (b, n) (state_unlocked now b, n)"
| enter: "admit now b = (Inr u, b') \<Longrightarrow> cb_step (b, n) (b', Suc n)"
| reject: "admit now b = (Inl e, b') \<Longrightarrow> cb_step (b, n) (b', n)"
| leave: "cb_step (b, Suc n) (settle now (outcome :: exn + unit) b, n)"

inductive cb_reachable :: "int \<Rightarrow> real \<Rightarrow> breaker \<times> nat \<Rightarrow> bool" for threshold timeout where
  init: "new_breaker threshold timeout = Inr b \<Longrightarrow> cb_reachable threshold timeout (b, 0)"
| step: "cb_reachable threshold timeout s \<Longrightarrow> cb_step s s' \<Longrightarrow> cb_reachable threshold timeout s'"

inductive_cases cb_stepE: "cb_step (b, n) s'"

definition cb_inv :: "breaker \<Rightarrow> bool" where
  "cb_inv b \<longleftrightarrow> 1 \<le> cb_threshold b \<and> 0 \<le> cb_failures b
     \<and> (cb_state b = CLOSED \<longleftrightarrow> cb_failures b < cb_threshold b)
     \<and> (cb_half_open_in_flight b \<longrightarrow> cb_state b = HALF_OPEN)"

lemma cb_inv_state_unlocked: "cb_inv b \<Longrightarrow> cb_inv (state_unlocked now b)"
  by (auto simp: cb_inv_def state_unlocked_def)

lemma cb_inv_admit: "cb_inv b \<Longrightarrow> admit now b = (r, b') \<Longrightarrow> cb_inv b'"
  by (auto simp: cb_inv_def admit_def Let_def state_unlocked_def split: breaker_state.splits if_splits)

lemma cb_inv_settle: "cb_inv b \<Longrightarrow> cb_inv (settle now outcome b)"
  by (cases "cb_state b")
    (auto simp: cb_inv_def settle_def record_failure_def record_success_def Let_def
      split: sum.splits exn.splits)

lemma cb_step_inv: "cb_step s s' \<Longrightarrow> cb_inv (fst s) \<Longrightarrow> cb_inv (fst s')"
  by (induction rule: cb_step.induct)
    (auto simp: cb_inv_state_unlocked cb_inv_settle dest: cb_inv_admit)

lemma cb_reachable_inv: "cb_reachable threshold timeout s \<Longrightarrow> cb_inv (fst s)"
proof (induction rule: cb_reachable.induct)
  case (init b)
  then show ?case by (auto simp: new_breaker_def cb_inv_def split: if_splits)
next
  case (step s s')
  then show ?case by (blast intro: cb_step_inv)
qed

text \<open>An unresolved probe keeps every other caller out, whatever the clock says.\<close>

lemma probe_excludes:
  "cb_state b = HALF_OPEN \<Longrightarrow> cb_half_open_in_flight b
     \<Longrightarrow> admit now b = (Inl (CircuitOpenError ''circuit probe already in flight''), b)"
  by (simp add: circuit_defs)

subsection \<open>Sequences of calls\<close>

text \<open>One thread: a list of calls \<open>(start, end, outcome)\<close>; the results in order.\<close>

fun cb_run :: "(real \<times> real \<times> (exn + 'a)) list \<Rightarrow> breaker \<Rightarrow> (exn + 'a) list \<times> breaker" where
  "cb_run [] b = ([], b)"
| "cb_run ((now, later, outcome) # cs) b =
     (case cb_call now later outcome b of (r, b1) \<Rightarrow>
       (case cb_run cs b1 of (rs, b2) \<Rightarrow> (r # rs, b2)))"

definition is_failure :: "exn + 'a \<Rightarrow> bool" where
  "is_failure r = (case r of Inl (CircuitOpenError _) \<Rightarrow> False | Inl _ \<Rightarrow> True | Inr _ \<Rightarrow> False)"

lemma call_closed_failure:
  "cb_state b = CLOSED \<Longrightarrow> is_failure outcome
     \<Longrightarrow> cb_call now later outcome b = (outcome, record_failure later b)"
  by (auto simp: circuit_defs is_failure_def split: sum.splits exn.splits)

lemma failures_below_threshold:
  assumes "cb_state b = CLOSED" "\<forall>(s, e, r) \<in> set cs. is_failure r"
    and "cb_failures b + int (length cs) < cb_threshold b"
  shows "cb_state (snd (cb_run cs b)) = CLOSED
     \<and> cb_failures (snd (cb_run cs b)) = cb_failures b + int (length cs)
     \<and> fst (cb_run cs b) = map (\<lambda>(s, e, r). r) cs"
  using assms
proof (induction cs arbitrary: b)
  case Nil
  then show ?case by simp
next
  case (Cons c cs)
  obtain s e r where c: "c = (s, e, r)" by (cases c)
  let ?b = "record_failure e b"
  have b: "cb_call s e r b = (r, ?b)" using Cons.prems c by (simp add: call_closed_failure)
  have "cb_state ?b = CLOSED" "cb_failures ?b = cb_failures b + 1" "cb_threshold ?b = cb_threshold b"
    using Cons.prems by (auto simp: record_failure_def Let_def)
  then show ?case using Cons.IH [of ?b] Cons.prems b c by (auto split: prod.splits)
qed

lemma cb_run_append:
  "cb_run (cs @ ds) b =
     (fst (cb_run cs b) @ fst (cb_run ds (snd (cb_run cs b))), snd (cb_run ds (snd (cb_run cs b))))"
  by (induction cs b rule: cb_run.induct) (auto split: prod.splits)

lemma threshold_failure_opens:
  "cb_state b = CLOSED \<Longrightarrow> cb_failures b + 1 = cb_threshold b \<Longrightarrow> is_failure r
     \<Longrightarrow> cb_state (snd (cb_call s e r b)) = OPEN \<and> cb_opened_at (snd (cb_call s e r b)) = e"
  by (simp add: call_closed_failure record_failure_def Let_def)

lemma threshold_cb_call: "cb_threshold (snd (cb_call s e r b)) = cb_threshold b"
  by (auto simp: circuit_defs split: breaker_state.splits sum.splits exn.splits)

lemma threshold_cb_run: "cb_threshold (snd (cb_run cs b)) = cb_threshold b"
proof (induction cs b rule: cb_run.induct)
  case (2 now later outcome cs b)
  then show ?case
    using threshold_cb_call [of now later outcome b] by (auto split: prod.splits)
qed simp

text \<open>a fresh breaker stays closed, and hands every result through, for fewer than
  \<open>threshold\<close> consecutive failures; the failure that reaches the threshold opens it, stamped
  with the time of that failure.\<close>

theorem breaker_opens_at_threshold:
  assumes "new_breaker k timeout = Inr b" and "\<forall>(s, e, r) \<in> set cs. is_failure r"
    and "int (length cs) + 1 = k" and "is_failure r"
  shows "cb_state (snd (cb_run cs b)) = CLOSED
     \<and> fst (cb_run cs b) = map (\<lambda>(s, e, r). r) cs
     \<and> cb_state (snd (cb_run (cs @ [(s, e, r)]) b)) = OPEN
     \<and> cb_opened_at (snd (cb_run (cs @ [(s, e, r)]) b)) = e"
proof -
  have b: "cb_state b = CLOSED" "cb_failures b = 0" "cb_threshold b = k"
    using assms(1) by (auto simp: new_breaker_def split: if_splits)
  have run: "cb_state (snd (cb_run cs b)) = CLOSED"
    "cb_failures (snd (cb_run cs b)) + 1 = cb_threshold (snd (cb_run cs b))"
    "fst (cb_run cs b) = map (\<lambda>(s, e, r). r) cs"
    using failures_below_threshold [OF b(1) assms(2)] b assms(3) threshold_cb_run [of cs b] by simp_all
  with threshold_failure_opens [OF run(1,2) assms(4), of s e] show ?thesis
    by (simp add: cb_run_append case_prod_beta)
qed

theorem breaker_opens_at_threshold_witness:
  "cb_state (snd (cb_run ([(0, 1, Inl (OtherException ''down''))] @ [(2, 3, Inl (OtherException ''down''))] ::
      (real \<times> real \<times> (exn + nat)) list)
      \<lparr>cb_threshold = 2, cb_reset_timeout = 30, cb_state = CLOSED, cb_failures = 0,
       cb_opened_at = 0, cb_half_open_in_flight = False\<rparr>)) = OPEN"
  using breaker_opens_at_threshold
    [of 2 30 "\<lparr>cb_threshold = 2, cb_reset_timeout = 30, cb_state = CLOSED, cb_failures = 0,
       cb_opened_at = 0, cb_half_open_in_flight = False\<rparr>"
     "[(0, 1, Inl (OtherException ''down''))] :: (real \<times> real \<times> (exn + nat)) list"
     "Inl (OtherException ''down'')" 2 3]
  by (simp add: new_breaker_def is_failure_def)

text \<open>while the circuit is open and its reset time has not elapsed, a call is refused
  without running the function and without changing the breaker; once it has elapsed, the next
  call is the one probe: its success closes the circuit with a clean count, its failure opens
  it again from the time of the failure.\<close>

theorem open_then_probe:
  assumes "cb_state b = OPEN" and "now - cb_opened_at b < cb_reset_timeout b"
    and "later - cb_opened_at b \<ge> cb_reset_timeout b" and "is_failure r"
  shows "cb_call now e out b = (Inl (CircuitOpenError ''circuit is open''), b)
     \<and> \<not> admitted now b \<and> admitted later b
     \<and> cb_state (snd (cb_call later e (Inr v) b)) = CLOSED
     \<and> cb_failures (snd (cb_call later e (Inr v) b)) = 0
     \<and> cb_state (snd (cb_call later e r b)) = OPEN
     \<and> cb_opened_at (snd (cb_call later e r b)) = e"
  using assms by (auto simp: circuit_defs is_failure_def split: sum.splits exn.splits)

theorem open_then_probe_witness:
  "admitted 40 \<lparr>cb_threshold = 2, cb_reset_timeout = 30, cb_state = OPEN, cb_failures = 2,
       cb_opened_at = 3, cb_half_open_in_flight = False\<rparr>"
  using open_then_probe
    [of "\<lparr>cb_threshold = 2, cb_reset_timeout = 30, cb_state = OPEN, cb_failures = 2,
       cb_opened_at = 3, cb_half_open_in_flight = False\<rparr>" 10 40
     "Inl (OtherException ''down'') :: exn + nat" 41 "Inr 7 :: exn + nat" "8 :: nat"]
  by (simp add: is_failure_def)

text \<open>a probe whose function raises \<open>CircuitOpenError\<close> (a nested breaker that is open)
  is never recorded: from then on every call is refused, at any time and for ever, and the
  breaker never changes again.\<close>

theorem nested_open_sticks:
  assumes "cb_state b = OPEN" and "now - cb_opened_at b \<ge> cb_reset_timeout b"
    and "b' = snd (cb_call now later (Inl (CircuitOpenError m)) b)"
  shows "cb_run cs b' = (map (\<lambda>_. Inl (CircuitOpenError ''circuit probe already in flight'')) cs, b')"
proof -
  have b': "cb_state b' = HALF_OPEN" "cb_half_open_in_flight b'"
    using assms by (simp_all add: circuit_defs)
  have call: "cb_call s e r b' = (Inl (CircuitOpenError ''circuit probe already in flight''), b')" for s e r
    using probe_excludes [OF b'] by (simp add: cb_call_def)
  show ?thesis by (induction cs) (auto simp: call)
qed

theorem nested_open_sticks_witness:
  "cb_run [(10^6, 10^6, Inr 1), (10^9, 10^9, Inr (2 :: nat))]
     \<lparr>cb_threshold = 2, cb_reset_timeout = 30, cb_state = HALF_OPEN, cb_failures = 2,
       cb_opened_at = 3, cb_half_open_in_flight = True\<rparr>
   = ([Inl (CircuitOpenError ''circuit probe already in flight''),
       Inl (CircuitOpenError ''circuit probe already in flight'')],
      \<lparr>cb_threshold = 2, cb_reset_timeout = 30, cb_state = HALF_OPEN, cb_failures = 2,
       cb_opened_at = 3, cb_half_open_in_flight = True\<rparr>)"
  using nested_open_sticks
    [of "\<lparr>cb_threshold = 2, cb_reset_timeout = 30, cb_state = OPEN, cb_failures = 2,
       cb_opened_at = 3, cb_half_open_in_flight = False\<rparr>" 40 _ 41 "''inner''"
     "[(10^6, 10^6, Inr 1), (10^9, 10^9, Inr (2 :: nat))]"]
  by (simp add: circuit_defs)

text \<open>under any interleaving of the calls of any number of threads, the breaker is closed
  exactly when fewer failures than the threshold are counted, and the probe flag is only ever up
  in \<open>HALF_OPEN\<close>, where it refuses every other caller.\<close>

theorem breaker_interleaved_invariant:
  assumes "cb_reachable k timeout (b, n)"
  shows "(cb_state b = CLOSED \<longleftrightarrow> cb_failures b < cb_threshold b)
     \<and> (cb_half_open_in_flight b \<longrightarrow> cb_state b = HALF_OPEN
          \<and> (\<forall>now. admit now b = (Inl (CircuitOpenError ''circuit probe already in flight''), b)))"
  using cb_reachable_inv [OF assms] probe_excludes [of b] by (auto simp: cb_inv_def)

theorem breaker_interleaved_invariant_witness:
  "cb_reachable 1 5 (\<lparr>cb_threshold = 1, cb_reset_timeout = 5, cb_state = CLOSED, cb_failures = 0,
       cb_opened_at = 0, cb_half_open_in_flight = False\<rparr>, Suc 0)
   \<and> \<not> cb_half_open_in_flight \<lparr>cb_threshold = 1, cb_reset_timeout = 5, cb_state = CLOSED, cb_failures = 0,
       cb_opened_at = 0, cb_half_open_in_flight = False\<rparr>"
proof -
  let ?b = "\<lparr>cb_threshold = 1, cb_reset_timeout = 5, cb_state = CLOSED, cb_failures = 0,
       cb_opened_at = 0, cb_half_open_in_flight = False\<rparr>"
  have r: "cb_reachable 1 5 (?b, Suc 0)"
    by (rule cb_reachable.step [OF cb_reachable.init [of 1 5 ?b] cb_step.enter [of 0 _ "()"]])
      (simp_all add: new_breaker_def circuit_defs)
  from breaker_interleaved_invariant [OF r] r show ?thesis by simp
qed

end
