(* ===== verification/Secrets.thy ===== *)
theory Secrets
  imports Domain
begin

text \<open>
  Secret detection and redaction (\<^verbatim>\<open>core/secrets.py\<close>). Values are JSON values; the regular expressions are written
  out as matchers on the text that follows a position.
\<close>

subsection \<open>Keys\<close>

definition secret_hints :: "string list" where
  "secret_hints = [''key'', ''token'', ''secret'', ''password'', ''credential'', ''private'']"

definition lower_alnum :: "char \<Rightarrow> bool" where
  "lower_alnum c = (let n = (of_char c :: nat) in (97 \<le> n \<and> n \<le> 122) \<or> (48 \<le> n \<and> n \<le> 57))"

text \<open>\<open>re.split\<close> on runs of other characters: the maximal runs of these.\<close>

fun key_tokens :: "string \<Rightarrow> string \<Rightarrow> string list" where
  "key_tokens acc [] = [rev acc]"
| "key_tokens acc (c # cs) =
     (if lower_alnum c then key_tokens (c # acc) cs else rev acc # key_tokens [] cs)"

definition looks_secret :: "string \<Rightarrow> bool" where
  "looks_secret key =
     (let tokens = key_tokens [] (lower_str key) in list_ex (\<lambda>hint. hint \<in> set tokens) secret_hints)"

subsection \<open>Values\<close>

definition in_range :: "nat \<Rightarrow> nat \<Rightarrow> char \<Rightarrow> bool" where
  "in_range lo hi c = (let n = (of_char c :: nat) in lo \<le> n \<and> n \<le> hi)"

definition alnum :: "char \<Rightarrow> bool" where
  "alnum c = (in_range 65 90 c \<or> in_range 97 122 c \<or> in_range 48 57 c)"

definition upper_alnum :: "char \<Rightarrow> bool" where
  "upper_alnum c = (in_range 48 57 c \<or> in_range 65 90 c)"

text \<open>A literal prefix followed by at least \<open>n\<close> characters of a class.\<close>

definition lit_then :: "string \<Rightarrow> nat \<Rightarrow> (char \<Rightarrow> bool) \<Rightarrow> string \<Rightarrow> bool" where
  "lit_then p n ok s =
     (prefix p s \<and> (let r = take n (drop (length p) s) in length r = n \<and> list_all ok r))"

fun slack_token :: "string \<Rightarrow> bool" where
  "slack_token (a # b # c # d # e # f # _) =
     ([a, b, c] = ''xox'' \<and> d \<in> {CHR ''b'', CHR ''a'', CHR ''p''} \<and> e = CHR ''-''
        \<and> (alnum f \<or> f = CHR ''-''))"
| "slack_token _ = False"

fun private_key_tail :: "string \<Rightarrow> bool" where
  "private_key_tail [] = False"
| "private_key_tail (c # cs) =
     (prefix ''PRIVATE KEY'' (c # cs) \<or> ((in_range 65 90 c \<or> c = CHR '' '') \<and> private_key_tail cs))"

definition private_key :: "string \<Rightarrow> bool" where
  "private_key s = (prefix ''-----BEGIN '' s \<and> private_key_tail (drop 11 s))"

definition secret_here :: "string \<Rightarrow> bool" where
  "secret_here s =
     (lit_then ''sk-'' 8 alnum s \<or> lit_then ''ghp_'' 8 alnum s \<or> lit_then ''gho_'' 8 alnum s
      \<or> lit_then ''AKIA'' 16 upper_alnum s \<or> slack_token s \<or> private_key s)"

fun search_secret :: "string \<Rightarrow> bool" where
  "search_secret [] = secret_here []"
| "search_secret (c # cs) = (secret_here (c # cs) \<or> search_secret cs)"

definition looks_like_secret_value :: "json \<Rightarrow> bool" where
  "looks_like_secret_value v = (case v of JStr s \<Rightarrow> search_secret s | _ \<Rightarrow> False)"

lemma search_secret_append: "search_secret s \<Longrightarrow> search_secret (a @ s)"
  by (induction a) auto

subsection \<open>Redaction\<close>

definition masked :: json where
  "masked = JStr ''***''"

fun sanitize_item :: "json \<Rightarrow> json"
  and redact_value :: "string \<Rightarrow> json \<Rightarrow> json" where
  "sanitize_item v =
     (case v of
        JObj ms \<Rightarrow> JObj (map (\<lambda>(k, x). (k, redact_value k x)) ms)
      | JList xs \<Rightarrow> JList (map sanitize_item xs)
      | _ \<Rightarrow> if looks_like_secret_value v then masked else v)"
| "redact_value key v =
     (if looks_secret key \<or> looks_like_secret_value v then masked
      else case v of
        JObj ms \<Rightarrow> JObj (map (\<lambda>(k, x). (k, redact_value k x)) ms)
      | JList xs \<Rightarrow> JList (map sanitize_item xs)
      | _ \<Rightarrow> v)"

declare sanitize_item.simps [simp del] redact_value.simps [simp del]

definition redact :: "arguments \<Rightarrow> arguments" where
  "redact ms = map (\<lambda>(k, x). (k, redact_value k x)) ms"

definition sanitize :: "json \<Rightarrow> json" where
  "sanitize v =
     (case v of
        JObj ms \<Rightarrow> JObj (redact ms)
      | JList xs \<Rightarrow> JList (map sanitize_item xs)
      | _ \<Rightarrow> if looks_like_secret_value v then masked else v)"

definition sanitize_exception :: "string \<Rightarrow> string \<Rightarrow> string" where
  "sanitize_exception class_name msg =
     (let text = class_name @ '': '' @ msg
      in if search_secret text then class_name @ '': ***'' else text)"

text \<open>
  No value shows a credential: no string of a known format at any depth, and under a key that looks
  secret nothing but the mask. Of the keys themselves it says nothing.
\<close>

fun no_secret_value :: "json \<Rightarrow> bool" where
  "no_secret_value (JObj ms) = (\<forall>(k, x) \<in> set ms. (looks_secret k \<longrightarrow> x = masked) \<and> no_secret_value x)"
| "no_secret_value (JList xs) = (\<forall>x \<in> set xs. no_secret_value x)"
| "no_secret_value (JStr s) = (\<not> search_secret s)"
| "no_secret_value _ = True"

lemma masked_clean [simp]: "no_secret_value masked" "\<not> looks_like_secret_value masked"
proof -
  have "\<not> search_secret ''***''" by code_simp
  then show "no_secret_value masked" "\<not> looks_like_secret_value masked"
    by (simp_all add: masked_def looks_like_secret_value_def)
qed

lemma redact_value_key: "looks_secret key \<Longrightarrow> redact_value key v = masked"
  by (simp add: redact_value.simps)

lemma redact_clean:
  "no_secret_value (sanitize_item v)"
  "no_secret_value (redact_value key v)"
proof (induction v and key v rule: sanitize_item_redact_value.induct)
  case (1 v)
  then show ?case
    by (cases v) (auto simp: sanitize_item.simps looks_like_secret_value_def redact_value_key)
next
  case (2 key v)
  then show ?case
    by (cases v) (auto simp: redact_value.simps [of key] looks_like_secret_value_def redact_value_key)
qed

lemma redact_clean_id:
  "no_secret_value v \<Longrightarrow> sanitize_item v = v"
  "no_secret_value v \<Longrightarrow> looks_secret key \<longrightarrow> v = masked \<Longrightarrow> redact_value key v = v"
proof (induction v and key v rule: sanitize_item_redact_value.induct)
  case (1 v)
  then show ?case
    by (cases v) (auto simp: sanitize_item.simps looks_like_secret_value_def intro!: map_idI)
next
  case (2 key v)
  show ?case
  proof (cases "looks_secret key")
    case True
    with 2 show ?thesis by (simp add: redact_value_key)
  next
    case False
    with 2 show ?thesis
      by (cases v) (auto simp: redact_value.simps [of key] looks_like_secret_value_def intro!: map_idI)
  qed
qed

lemma redact_no_secret: "no_secret_value (JObj (redact ms))"
  using redact_clean(2) redact_value_key by (auto simp: redact_def)

lemma sanitize_no_secret: "no_secret_value (sanitize v)"
  using redact_no_secret redact_clean(1) by (cases v) (auto simp: sanitize_def looks_like_secret_value_def)

lemma redact_fixed: "redact ms = ms \<longleftrightarrow> no_secret_value (JObj ms)"
proof
  assume "redact ms = ms"
  then show "no_secret_value (JObj ms)" using redact_no_secret [of ms] by simp
next
  assume "no_secret_value (JObj ms)"
  then show "redact ms = ms" by (auto simp: redact_def redact_clean_id(2) intro!: map_idI)
qed

lemma sanitize_fixed: "sanitize v = v \<longleftrightarrow> no_secret_value v"
proof
  assume "sanitize v = v"
  then show "no_secret_value v" using sanitize_no_secret [of v] by simp
next
  assume "no_secret_value v"
  then show "sanitize v = v"
    using redact_fixed
    by (cases v) (auto simp: sanitize_def redact_clean_id(1) looks_like_secret_value_def intro!: map_idI)
qed


text \<open>A credential used as a key is shown: neither function looks at the format of keys.\<close>

lemma credential_key_survives:
  "search_secret ''sk-abcdefgh12'' \<and> redact [(''sk-abcdefgh12'', JInt 1)] = [(''sk-abcdefgh12'', JInt 1)]"
  by code_simp

end
