(* ===== verification/DataPolicy.thy ===== *)
theory DataPolicy
  imports Secrets
begin

text \<open>
  Data classification and egress (\<^verbatim>\<open>security/data_policy.py\<close>): what may cross which trust
  boundary. The sets of a policy are lists here.
\<close>

datatype data_class = PUBLIC | INTERNAL | PERSONAL | SENSITIVE | SECRET

record egress_decision =
  eg_allowed :: bool
  eg_classification :: data_class
  eg_destination :: string
  eg_reason :: string

record data_policy =
  dp_local :: "string list"
  dp_sensitive :: "string list"
  dp_personal :: "string list"

definition default_policy :: data_policy where
  "default_policy = \<lparr>dp_local = [''local'', ''loopback''], dp_sensitive = [], dp_personal = []\<rparr>"

fun contains_secret :: "json \<Rightarrow> bool" where
  "contains_secret (JObj ms) =
     list_ex (\<lambda>(k, v). looks_secret k \<or> contains_secret v \<or> looks_like_secret_value v) ms"
| "contains_secret (JList xs) = list_ex contains_secret xs"
| "contains_secret v = looks_like_secret_value v"

definition personal_keys :: "string list" where
  "personal_keys =
     [''email'', ''phone'', ''address'', ''name'', ''location'', ''dob'', ''date_of_birth'']"

definition looks_personal :: "json \<Rightarrow> bool" where
  "looks_personal v =
     (case v of JObj ms \<Rightarrow> list_ex (\<lambda>(k, _). lower_str k \<in> set personal_keys) ms | _ \<Rightarrow> False)"

definition classify :: "json \<Rightarrow> data_class option \<Rightarrow> data_class" where
  "classify v declared =
     (if declared = Some SECRET then SECRET
      else if contains_secret v then SECRET
      else case declared of
        Some c \<Rightarrow> c
      | None \<Rightarrow> if looks_personal v then PERSONAL else INTERNAL)"

definition egress :: "data_policy \<Rightarrow> json \<Rightarrow> string \<Rightarrow> data_class option \<Rightarrow> egress_decision" where
  "egress dp v destination declared =
     (let c = classify v declared;
          answer = (\<lambda>allowed reason. \<lparr>eg_allowed = allowed, eg_classification = c,
             eg_destination = destination, eg_reason = reason\<rparr>)
      in if destination \<in> set (dp_local dp) then answer True ''local destination''
         else if c = SECRET
           then answer False ''SECRET data may never leave the local trust boundary''
         else if c = SENSITIVE
           then let ok = destination \<in> set (dp_sensitive dp) in
                answer ok (if ok then ''approved sensitive destination''
                           else ''SENSITIVE destination not approved'')
         else if c = PERSONAL
           then let ok = destination \<in> set (dp_personal dp) in
                answer ok (if ok then ''approved personal destination''
                           else ''PERSONAL destination not approved'')
         else answer (destination \<in> set (dp_sensitive dp) \<or> destination \<in> set (dp_personal dp))
                ''destination is not explicitly approved'')"

definition require_egress ::
  "data_policy \<Rightarrow> json \<Rightarrow> string \<Rightarrow> data_class option \<Rightarrow> unit result" where
  "require_egress dp v destination declared =
     (let d = egress dp v destination declared
      in if eg_allowed d then Inr () else Inl (OtherException (eg_reason d)))"

text \<open>A value that shows a credential somewhere, whatever surrounds it.\<close>

lemma contains_secret_string: "search_secret s \<Longrightarrow> contains_secret (JStr s)"
  by (simp add: looks_like_secret_value_def)

lemma contains_secret_member:
  "contains_secret v \<Longrightarrow> (k, v) \<in> set ms \<Longrightarrow> contains_secret (JObj ms)"
  "looks_secret k \<Longrightarrow> (k, v) \<in> set ms \<Longrightarrow> contains_secret (JObj ms)"
  "contains_secret v \<Longrightarrow> v \<in> set vs \<Longrightarrow> contains_secret (JList vs)"
  by (auto simp: list_ex_iff)

lemma not_contains_no_secret: "\<not> contains_secret v \<Longrightarrow> no_secret_value v"
proof (induction v rule: contains_secret.induct)
  case (1 ms)
  then show ?case by (auto simp: list_ex_iff) fastforce
next
  case (2 xs)
  then show ?case by (auto simp: list_ex_iff)
qed (simp_all add: looks_like_secret_value_def)

text \<open>
  data leaves the local trust boundary only when the policy allows it: if \<open>require_egress\<close>
  lets a value go to a destination that is not local, then it was not declared SECRET, nothing
  in it shows a credential at any depth, and the destination is on the list its class needs
  (SENSITIVE on the sensitive list, PERSONAL on the personal list, PUBLIC or INTERNAL on one of
  them); with the default policy nothing leaves at all.
\<close>

theorem egress_sound:
  assumes "require_egress dp v destination declared = Inr ()" "destination \<notin> set (dp_local dp)"
  shows "declared \<noteq> Some SECRET \<and> \<not> contains_secret v \<and> no_secret_value v
    \<and> (declared = Some SENSITIVE \<longrightarrow> destination \<in> set (dp_sensitive dp))
    \<and> (declared = Some PERSONAL \<or> declared = None \<and> looks_personal v \<longrightarrow> destination \<in> set (dp_personal dp))
    \<and> (destination \<in> set (dp_sensitive dp) \<or> destination \<in> set (dp_personal dp))
    \<and> dp \<noteq> default_policy"
proof -
  have ok: "eg_allowed (egress dp v destination declared)"
    using assms(1) by (auto simp: require_egress_def Let_def split: if_splits)
  then have c: "classify v declared \<noteq> SECRET"
    using assms(2) by (auto simp: egress_def Let_def split: if_splits)
  then have n: "declared \<noteq> Some SECRET" "\<not> contains_secret v"
    by (auto simp: classify_def split: if_splits)
  from n have cl: "classify v declared = (case declared of Some c \<Rightarrow> c
      | None \<Rightarrow> if looks_personal v then PERSONAL else INTERNAL)"
    by (simp add: classify_def)
  show ?thesis
    using ok assms(2) c n not_contains_no_secret [OF n(2)]
    by (auto simp: egress_def Let_def cl default_policy_def split: if_splits option.splits)
qed

definition demo_data_policy :: data_policy where
  "demo_data_policy = \<lparr>dp_local = [''local''], dp_sensitive = [], dp_personal = [''crm'']\<rparr>"

theorem egress_sound_witness:
  "\<not> contains_secret (JObj [(''email'', JStr ''a@b.c'')])"
proof -
  have "is_inr (require_egress demo_data_policy (JObj [(''email'', JStr ''a@b.c'')]) ''crm'' None)"
    by code_simp
  then have "require_egress demo_data_policy (JObj [(''email'', JStr ''a@b.c'')]) ''crm'' None = Inr ()"
    by (auto simp: is_inr_iff)
  from egress_sound [OF this] show ?thesis by (simp add: demo_data_policy_def)
qed

text \<open>
  an egress that is allowed because the destination is approved is reported with the reason
  of a refusal when the data is PUBLIC or INTERNAL.
\<close>

theorem approved_egress_reason:
  assumes "destination \<notin> set (dp_local dp)" "destination \<in> set (dp_sensitive dp)"
    and "classify v declared = PUBLIC \<or> classify v declared = INTERNAL"
  shows "eg_allowed (egress dp v destination declared)
    \<and> eg_reason (egress dp v destination declared) = ''destination is not explicitly approved''"
  using assms by (auto simp: egress_def Let_def)

theorem approved_egress_reason_witness:
  "eg_allowed (egress \<lparr>dp_local = [], dp_sensitive = [''hub''], dp_personal = []\<rparr> JNull ''hub'' None)"
  by (rule conjunct1 [OF approved_egress_reason])
    (simp_all add: classify_def looks_personal_def looks_like_secret_value_def)

end
