(* ===== verification/Approvals.thy ===== *)
theory Approvals
  imports Store Domain
begin

text \<open>
  Human approvals bound to exact actions (\<^verbatim>\<open>security/policy/approvals.py\<close>). The store keeps its
  requests in a repository (a snapshot table) or in its own dictionary; both are the table of
  this model, listed in the order of either. \<open>sha\<close> is SHA-256 in hexadecimal, an argument. Each
  operation runs under the store's lock and reads the clock as \<open>now\<close>; the new request's
  identifier is given.
\<close>

datatype approval_status = AP_PENDING | AP_APPROVED | AP_DENIED | AP_EXPIRED

fun approval_value :: "approval_status \<Rightarrow> string" where
  "approval_value AP_PENDING = ''PENDING''"
| "approval_value AP_APPROVED = ''APPROVED''"
| "approval_value AP_DENIED = ''DENIED''"
| "approval_value AP_EXPIRED = ''EXPIRED''"

record approval_request = entity +
  ar_task_id :: string
  ar_tool :: string
  ar_arguments :: arguments
  ar_hash :: string
  ar_risk :: string
  ar_reason :: string
  ar_policy :: string
  ar_status :: approval_status
  ar_expires_at :: "real option"
  ar_decided_at :: "real option"
  ar_decided_by :: string

record approval_store =
  as_has_repo :: bool
  as_table :: "approval_request table"
  as_default_ttl :: real

type_synonym sha = "string \<Rightarrow> string"

definition action_text :: "string \<Rightarrow> arguments \<Rightarrow> string \<Rightarrow> string" where
  "action_text tool args policy =
     canonical (JObj [(''tool'', JStr tool), (''arguments'', JObj args), (''policy'', JStr policy)])"

definition approval_hash :: "sha \<Rightarrow> string \<Rightarrow> arguments \<Rightarrow> string \<Rightarrow> string" where
  "approval_hash sha tool args policy = sha (action_text tool args policy)"

definition new_approval_store :: "bool \<Rightarrow> real \<Rightarrow> approval_store result" where
  "new_approval_store has_repo ttl =
     (if ttl \<le> 0 then Inl (DomainValidationError ''approval TTL must be positive'')
      else Inr \<lparr>as_has_repo = has_repo, as_table = [], as_default_ttl = ttl\<rparr>)"

definition ap_items :: "approval_store \<Rightarrow> approval_request list" where
  "ap_items st = (if as_has_repo st then tbl_list (as_table st) else mem_values (as_table st))"

definition ap_load :: "string \<Rightarrow> approval_store \<Rightarrow> approval_request option" where
  "ap_load i st = tbl_get i (as_table st)"

definition ap_put :: "real \<Rightarrow> approval_request \<Rightarrow> approval_store \<Rightarrow> approval_store" where
  "ap_put now r st = st\<lparr>as_table :=
     (if as_has_repo st then tbl_put now r (as_table st) else mem_put now r (as_table st))\<rparr>"

definition ap_save :: "real \<Rightarrow> approval_request \<Rightarrow> approval_store \<Rightarrow> approval_request \<times> approval_store" where
  "ap_save now r st = (touch now r, ap_put now r st)"

definition due :: "real \<Rightarrow> approval_request \<Rightarrow> bool" where
  "due now r \<longleftrightarrow> ar_status r = AP_PENDING
     \<and> (case ar_expires_at r of None \<Rightarrow> False | Some t \<Rightarrow> t \<le> now)"

definition mark_expired :: "approval_request \<Rightarrow> approval_request" where
  "mark_expired r = r\<lparr>ar_status := AP_EXPIRED\<rparr>"

text \<open>\<open>_expire_one\<close> changes the request it is given and saves it.\<close>

definition expire_one :: "real \<Rightarrow> approval_request \<Rightarrow> approval_store \<Rightarrow> approval_request \<times> approval_store" where
  "expire_one now r st =
     (if due now r then ap_save now (mark_expired r) st else (r, st))"

definition sweep_expired :: "real \<Rightarrow> approval_store \<Rightarrow> nat \<times> approval_store" where
  "sweep_expired now st =
     (let candidates = ap_items st in
      (length (filter (due now) candidates), fold (\<lambda>r s. snd (expire_one now r s)) candidates st))"

definition ap_pending :: "real \<Rightarrow> string \<Rightarrow> approval_store \<Rightarrow> approval_request list \<times> approval_store" where
  "ap_pending now task_id st =
     (let st' = snd (sweep_expired now st) in
      (filter (\<lambda>r. ar_status r = AP_PENDING \<and> (task_id = [] \<or> ar_task_id r = task_id)) (ap_items st'),
       st'))"

definition ap_request ::
  "sha \<Rightarrow> real \<Rightarrow> string \<Rightarrow> string \<Rightarrow> string \<Rightarrow> arguments \<Rightarrow> string \<Rightarrow> string \<Rightarrow> string \<Rightarrow> real option
     \<Rightarrow> approval_store \<Rightarrow> approval_request result \<times> approval_store" where
  "ap_request sha now new_id task_id tool args risk reason policy ttl st =
     (let wanted = approval_hash sha tool args policy;
          (waiting, st1) = ap_pending now task_id st
      in case find (\<lambda>r. ar_tool r = tool \<and> ar_hash r = wanted) waiting of
           Some r \<Rightarrow> (Inr r, st1)
         | None \<Rightarrow>
             let seconds = (case ttl of None \<Rightarrow> as_default_ttl st1 | Some t \<Rightarrow> t) in
             if seconds \<le> 0 then (Inl (DomainValidationError ''approval TTL must be positive''), st1)
             else
               let r = \<lparr>ent_id = new_id, ent_created = now, ent_updated = now, ar_task_id = task_id,
                        ar_tool = tool, ar_arguments = args, ar_hash = wanted, ar_risk = risk,
                        ar_reason = reason, ar_policy = policy, ar_status = AP_PENDING,
                        ar_expires_at = Some (now + seconds), ar_decided_at = None, ar_decided_by = []\<rparr>
               in if as_has_repo st1
                  then (case tbl_create now r (as_table st1) of
                          Inl e \<Rightarrow> (Inl e, st1)
                        | Inr (r', t) \<Rightarrow> (Inr r', st1\<lparr>as_table := t\<rparr>))
                  else (Inr (touch now r), st1\<lparr>as_table := mem_put now r (as_table st1)\<rparr>))"

definition ap_verify ::
  "sha \<Rightarrow> real \<Rightarrow> string \<Rightarrow> string \<Rightarrow> arguments \<Rightarrow> string \<Rightarrow> approval_store \<Rightarrow> bool \<times> approval_store" where
  "ap_verify sha now i tool args policy st =
     (case ap_load i st of
        None \<Rightarrow> (False, st)
      | Some r \<Rightarrow>
          let (r', st') = expire_one now r st in
          if ar_status r' \<noteq> AP_APPROVED \<or> ar_tool r' \<noteq> tool then (False, st')
          else (ar_hash r' = approval_hash sha tool args policy, st'))"

fun find_valid_loop ::
  "sha \<Rightarrow> real \<Rightarrow> string \<Rightarrow> string \<Rightarrow> arguments \<Rightarrow> string \<Rightarrow> approval_request list \<Rightarrow> approval_store
     \<Rightarrow> approval_request option \<times> approval_store" where
  "find_valid_loop sha now task_id tool args policy [] st = (None, st)"
| "find_valid_loop sha now task_id tool args policy (r # rs) st =
     (if ar_task_id r \<noteq> task_id \<or> ar_tool r \<noteq> tool
      then find_valid_loop sha now task_id tool args policy rs st
      else case ap_verify sha now (ent_id r) tool args policy st of
        (True, st') \<Rightarrow> (Some r, st')
      | (False, st') \<Rightarrow> find_valid_loop sha now task_id tool args policy rs st')"

definition find_valid ::
  "sha \<Rightarrow> real \<Rightarrow> string \<Rightarrow> string \<Rightarrow> arguments \<Rightarrow> string \<Rightarrow> approval_store
     \<Rightarrow> approval_request option \<times> approval_store" where
  "find_valid sha now task_id tool args policy st =
     find_valid_loop sha now task_id tool args policy (ap_items st) st"

definition ap_decide ::
  "real \<Rightarrow> string \<Rightarrow> bool \<Rightarrow> string \<Rightarrow> approval_store \<Rightarrow> approval_request result \<times> approval_store" where
  "ap_decide now i approved decided_by st =
     (case ap_load i st of
        None \<Rightarrow> (Inl (DomainValidationError (''unknown approval '' @ repr_str i)), st)
      | Some r \<Rightarrow>
          let (r', st1) = expire_one now r st in
          if ar_status r' \<noteq> AP_PENDING
          then (Inl (DomainValidationError (''approval '' @ repr_str i @ '' is already ''
                  @ approval_value (ar_status r'))), st1)
          else
            let (r'', st2) = ap_save now (r'\<lparr>ar_status := (if approved then AP_APPROVED else AP_DENIED),
                    ar_decided_at := Some now, ar_decided_by := decided_by\<rparr>) st1
            in (Inr r'', st2))"

subsection \<open>The store as an entity store\<close>

definition ap_wf :: "approval_store \<Rightarrow> bool" where
  "ap_wf st \<longleftrightarrow> wf_table (as_table st)"

interpretation approvals: entity_store "ap_put now" ap_load ap_items ap_wf ent_id "touch now" for now
proof unfold_locales
  fix st :: approval_store and e :: approval_request and i
  assume wf: "ap_wf st"
  then have t: "wf_table (as_table st)" by (simp add: ap_wf_def)
  show "ap_load i (ap_put now e st) = (if i = ent_id e then Some (touch now e) else ap_load i st)"
    by (cases "as_has_repo st")
      (simp_all add: ap_load_def ap_put_def snapshot_table.lookup_put [OF t]
        memory_dict.lookup_put [OF t])
  show "ap_wf (ap_put now e st)"
    by (simp add: ap_put_def ap_wf_def snapshot_table.inv_put [OF t] memory_dict.inv_put [OF t])
  show "(e \<in> set (ap_items st)) = (ap_load (ent_id e) st = Some e)"
    by (cases "as_has_repo st")
      (simp_all add: ap_items_def ap_load_def snapshot_table.mem_items [OF t]
        memory_dict.mem_items [OF t])
  show "distinct (map ent_id (ap_items st))"
    by (cases "as_has_repo st")
      (simp_all add: ap_items_def snapshot_table.distinct_items [OF t]
        memory_dict.distinct_items [OF t])
  show "ap_load i st = Some e \<Longrightarrow> ent_id e = i"
    using wf_table_get [OF t] by (simp add: ap_load_def tbl_get_def)
qed simp

lemma sweep_expired_sweep:
  "snd (sweep_expired now st) = approvals.sweep now (due now) mark_expired (ap_items st) st"
proof -
  have "fold (\<lambda>r s. snd (expire_one now r s)) rs s
      = fold (\<lambda>e st. if due now e then ap_put now (mark_expired e) st else st) rs s" for rs s
    by (induction rs arbitrary: s) (simp_all add: expire_one_def ap_save_def)
  then show ?thesis by (simp add: sweep_expired_def approvals.sweep_def Let_def)
qed

lemma ap_load_sweep:
  assumes "ap_wf st"
  shows "ap_load i (snd (sweep_expired now st)) =
    (case ap_load i st of None \<Rightarrow> None
     | Some r \<Rightarrow> Some (if due now r then touch now (mark_expired r) else r))"
  unfolding sweep_expired_sweep
  by (rule approvals.lookup_sweep [OF assms]) (simp add: mark_expired_def)


subsection \<open>Runs of the store\<close>

text \<open>
  The store's clients see it through its public operations; a run is a list of them. One
  operation maps every stored request to itself or, from \<open>PENDING\<close>, to its decided or expired
  form (\<open>request_next\<close>), and may add requests.
\<close>

datatype ap_op =
  Op_Request real string string string arguments string string string "real option"
| Op_Decide real string bool string
| Op_Verify real string string arguments string
| Op_Find real string string arguments string
| Op_Pending real string

fun ap_apply :: "sha \<Rightarrow> ap_op \<Rightarrow> approval_store \<Rightarrow> approval_store" where
  "ap_apply sha (Op_Request now n tid tool args risk reason policy ttl) st =
     snd (ap_request sha now n tid tool args risk reason policy ttl st)"
| "ap_apply sha (Op_Decide now i ok who) st = snd (ap_decide now i ok who st)"
| "ap_apply sha (Op_Verify now i tool args policy) st = snd (ap_verify sha now i tool args policy st)"
| "ap_apply sha (Op_Find now tid tool args policy) st = snd (find_valid sha now tid tool args policy st)"
| "ap_apply sha (Op_Pending now tid) st = snd (ap_pending now tid st)"

definition ap_run :: "sha \<Rightarrow> ap_op list \<Rightarrow> approval_store \<Rightarrow> approval_store" where
  "ap_run sha ops st = fold (ap_apply sha) ops st"

text \<open>The passes that only expire: each stored request stays or, when due, is marked expired.\<close>

definition expires :: "real \<Rightarrow> approval_store \<Rightarrow> approval_store \<Rightarrow> bool" where
  "expires now st st' \<longleftrightarrow> ap_wf st' \<and> (\<forall>i. ap_load i st' = None \<longleftrightarrow> ap_load i st = None)
     \<and> (\<forall>i r. ap_load i st = Some r \<longrightarrow> ap_load i st' = Some r
          \<or> due now r \<and> ap_load i st' = Some (touch now (mark_expired r)))"

lemma not_due_expired [simp]: "\<not> due now' (touch now (mark_expired r))"
  by (simp add: due_def mark_expired_def touch_def)

lemma expires_refl: "ap_wf st \<Longrightarrow> expires now st st"
  by (simp add: expires_def)

lemma expires_wf: "expires now st st' \<Longrightarrow> ap_wf st'"
  by (simp add: expires_def)

lemma expires_None: "expires now st st' \<Longrightarrow> ap_load i st' = None \<longleftrightarrow> ap_load i st = None"
  by (simp add: expires_def)

lemma expires_Some:
  "expires now st st' \<Longrightarrow> ap_load i st = Some r
     \<Longrightarrow> ap_load i st' = Some r \<or> due now r \<and> ap_load i st' = Some (touch now (mark_expired r))"
  by (simp add: expires_def)

lemma expires_trans:
  assumes "expires now s t" "expires now t u"
  shows "expires now s u"
  unfolding expires_def
proof (intro conjI allI impI)
  show "ap_wf u" by (rule expires_wf [OF assms(2)])
  show "(ap_load i u = None) = (ap_load i s = None)" for i
    using expires_None [OF assms(1)] expires_None [OF assms(2)] by simp
  show "ap_load i u = Some r \<or> due now r \<and> ap_load i u = Some (touch now (mark_expired r))"
    if "ap_load i s = Some r" for i r
    using expires_Some [OF assms(1) that] expires_Some [OF assms(2)] not_due_expired by blast
qed

lemma expires_back:
  assumes "expires now st st'" "ap_load i st' = Some s"
  shows "ap_load i st = Some s \<or>
    (\<exists>r. ap_load i st = Some r \<and> due now r \<and> s = touch now (mark_expired r))"
proof -
  have "ap_load i st \<noteq> None" using expires_None [OF assms(1)] assms(2) by (metis option.distinct(1))
  then obtain r where "ap_load i st = Some r" by blast
  with expires_Some [OF assms(1) this] assms(2) show ?thesis by auto
qed

lemma expires_expire_one:
  assumes wf: "ap_wf st" and r: "ap_load i st = Some r"
  shows "expires now st (snd (expire_one now r st))"
proof (cases "due now r")
  case True
  have "ent_id (mark_expired r) = i"
    using approvals.key_lookup [OF wf r] by (simp add: mark_expired_def)
  then show ?thesis
    using True r by (auto simp: expires_def expire_one_def ap_save_def approvals.inv_put [OF wf]
        approvals.lookup_put [OF wf] split: option.split)
qed (simp add: expire_one_def expires_refl wf)

lemma expires_sweep: "ap_wf st \<Longrightarrow> expires now st (snd (sweep_expired now st))"
proof -
  assume wf: "ap_wf st"
  have "ap_wf (snd (sweep_expired now st))"
    unfolding sweep_expired_sweep by (rule approvals.inv_sweep [OF wf])
  then show ?thesis
    by (simp add: expires_def ap_load_sweep [OF wf] split: option.splits)
qed

lemma expires_pending: "ap_wf st \<Longrightarrow> expires now st (snd (ap_pending now tid st))"
  by (simp add: ap_pending_def Let_def expires_sweep)

lemma expires_verify: "ap_wf st \<Longrightarrow> expires now st (snd (ap_verify sha now i tool args policy st))"
  using expires_expire_one [of st i _ now]
  by (auto simp: ap_verify_def expires_refl split: option.splits prod.splits)

lemma expires_find_loop:
  "ap_wf st \<Longrightarrow> expires now st (snd (find_valid_loop sha now tid tool args policy rs st))"
proof (induction rs arbitrary: st)
  case Nil
  then show ?case by (simp add: expires_refl)
next
  case (Cons r rs)
  obtain b st' where v: "ap_verify sha now (ent_id r) tool args policy st = (b, st')" by fastforce
  with expires_verify [OF Cons.prems, of now sha "ent_id r" tool args policy]
  have e: "expires now st st'" by simp
  from Cons.IH [OF Cons.prems] Cons.IH [OF expires_wf [OF e]] expires_trans [OF e] e
  show ?case by (simp add: v split: bool.split)
qed

text \<open>The shape of every operation: it expires, then stores at most one request.\<close>

definition stores :: "sha \<Rightarrow> real \<Rightarrow> ap_op \<Rightarrow> approval_store \<Rightarrow> approval_request \<Rightarrow> bool" where
  "stores sha now op st r \<longleftrightarrow>
     (ap_load (ent_id r) st = None \<and> ar_status r = AP_PENDING
        \<and> ar_hash r = approval_hash sha (ar_tool r) (ar_arguments r) (ar_policy r))
   \<or> (\<exists>r0 ok who. op = Op_Decide now (ent_id r) ok who \<and> ap_load (ent_id r) st = Some r0
        \<and> ar_status r0 = AP_PENDING \<and> \<not> due now r0
        \<and> r = touch now (r0\<lparr>ar_status := (if ok then AP_APPROVED else AP_DENIED),
                 ar_decided_at := Some now, ar_decided_by := who\<rparr>))"

fun op_time :: "ap_op \<Rightarrow> real" where
  "op_time (Op_Request now _ _ _ _ _ _ _ _) = now"
| "op_time (Op_Decide now _ _ _) = now"
| "op_time (Op_Verify now _ _ _ _) = now"
| "op_time (Op_Find now _ _ _ _) = now"
| "op_time (Op_Pending now _) = now"

definition op_effect :: "sha \<Rightarrow> ap_op \<Rightarrow> approval_store \<Rightarrow> approval_store \<Rightarrow> bool" where
  "op_effect sha op st st' \<longleftrightarrow> (\<exists>mid. expires (op_time op) st mid \<and> (st' = mid \<or>
     (\<exists>r. stores sha (op_time op) op st r \<and> ap_wf st' \<and>
        (\<forall>i. ap_load i st' = (if i = ent_id r then Some r else ap_load i mid)))))"

text \<open>Every operation has that shape.\<close>

lemma op_effect_expires: "expires (op_time op) st st' \<Longrightarrow> op_effect sha op st st'"
  by (auto simp: op_effect_def)

lemma op_effect_request:
  assumes wf: "ap_wf st" and fresh: "ap_load n st = None"
  shows "op_effect sha (Op_Request now n tid tool args risk reason policy ttl) st
    (snd (ap_request sha now n tid tool args risk reason policy ttl st))"
proof -
  let ?op = "Op_Request now n tid tool args risk reason policy ttl"
  obtain waiting st1 where p: "ap_pending now tid st = (waiting, st1)" by fastforce
  with expires_pending [OF wf, of now tid] have e: "expires now st st1" by simp
  note wf1 = expires_wf [OF e]
  obtain seconds where secs: "seconds = (case ttl of None \<Rightarrow> as_default_ttl st1 | Some t \<Rightarrow> t)"
    by simp
  define r where "r = \<lparr>ent_id = n, ent_created = now, ent_updated = now, ar_task_id = tid,
    ar_tool = tool, ar_arguments = args, ar_hash = approval_hash sha tool args policy,
    ar_risk = risk, ar_reason = reason, ar_policy = policy, ar_status = AP_PENDING,
    ar_expires_at = Some (now + seconds), ar_decided_at = None, ar_decided_by = []\<rparr>"
  have idr: "ent_id r = n" "touch now r = r" by (simp_all add: r_def touch_def)
  have fresh1: "tbl_get n (as_table st1) = None"
    using expires_None [OF e, of n] fresh by (simp add: ap_load_def)
  let ?st' = "snd (ap_request sha now n tid tool args risk reason policy ttl st)"
  have "?st' = st1 \<or> ?st' = st1\<lparr>as_table := dict_set n r (as_table st1)\<rparr>"
  proof (cases "find (\<lambda>r. ar_tool r = tool \<and> ar_hash r = approval_hash sha tool args policy) waiting")
    case None
    have c: "tbl_create now r (as_table st1) = Inr (r, dict_set n r (as_table st1))"
      using fresh1 by (simp add: tbl_create_Inr idr)
    show ?thesis
      unfolding ap_request_def p Let_def prod.case None option.case(1)
        secs [symmetric] r_def [symmetric] c
      by (simp add: mem_put_def idr)
  qed (simp add: ap_request_def p)
  moreover have "op_effect sha ?op st (st1\<lparr>as_table := dict_set n r (as_table st1)\<rparr>)"
  proof -
    let ?s2 = "st1\<lparr>as_table := dict_set n r (as_table st1)\<rparr>"
    have "stores sha now ?op st r"
      using fresh by (simp add: stores_def idr) (simp add: r_def)
    moreover have "ap_wf ?s2"
      using wf1 wf_table_dict_set [of "as_table st1" r] by (simp add: ap_wf_def idr)
    moreover have "ap_load i ?s2 = (if i = ent_id r then Some r else ap_load i st1)" for i
      by (simp add: ap_load_def tbl_get_def idr)
    ultimately show ?thesis using e unfolding op_effect_def by auto
  qed
  ultimately show ?thesis using e by (auto intro: op_effect_expires)
qed

lemma op_effect_decide:
  assumes wf: "ap_wf st"
  shows "op_effect sha (Op_Decide now i ok who) st (snd (ap_decide now i ok who st))"
proof (cases "ap_load i st")
  case None
  then show ?thesis by (auto simp: ap_decide_def intro: op_effect_expires expires_refl [OF wf])
next
  case (Some r)
  obtain r' st1 where x: "expire_one now r st = (r', st1)" by fastforce
  with expires_expire_one [OF wf Some, of now] have e: "expires now st st1" by simp
  show ?thesis
  proof (cases "ar_status r' = AP_PENDING")
    case False
    then show ?thesis using e by (auto simp: ap_decide_def Some x intro: op_effect_expires)
  next
    case True
    with x have nd: "\<not> due now r" and r': "r' = r" "st1 = st"
      by (auto simp: expire_one_def ap_save_def mark_expired_def touch_def split: if_splits)
    define d where "d = r\<lparr>ar_status := (if ok then AP_APPROVED else AP_DENIED),
      ar_decided_at := Some now, ar_decided_by := who\<rparr>"
    have id: "ent_id d = i" using approvals.key_lookup [OF wf Some] by (simp add: d_def)
    have "snd (ap_decide now i ok who st) = ap_put now d st"
      using True by (simp add: ap_decide_def Some x r' ap_save_def d_def)
    moreover have "stores sha now (Op_Decide now i ok who) st (touch now d)"
      using Some True nd r' id unfolding stores_def by (auto simp: d_def)
    ultimately show ?thesis
      using e r' id approvals.inv_put [OF wf] approvals.lookup_put [OF wf]
      unfolding op_effect_def by (metis op_time.simps(2) touch_simps(1))
  qed
qed

fun op_fresh :: "ap_op \<Rightarrow> approval_store \<Rightarrow> bool" where
  "op_fresh (Op_Request now n tid tool args risk reason policy ttl) st = (ap_load n st = None)"
| "op_fresh _ st = True"

lemma op_effect_apply: "ap_wf st \<Longrightarrow> op_fresh op st \<Longrightarrow> op_effect sha op st (ap_apply sha op st)"
  by (cases op) (simp_all add: find_valid_def op_effect_request op_effect_decide
      op_effect_expires expires_verify expires_pending expires_find_loop)

lemma op_effect_wf: "op_effect sha op st st' \<Longrightarrow> ap_wf st'"
  unfolding op_effect_def using expires_wf by blast

text \<open>A decided or expired request is never written again.\<close>

lemma op_effect_final:
  assumes "op_effect sha op st st'" "ap_load i st = Some r" "ar_status r \<noteq> AP_PENDING"
  shows "ap_load i st' = Some r"
proof -
  from assms(1) obtain mid where e: "expires (op_time op) st mid" and
    m: "st' = mid \<or> (\<exists>r. stores sha (op_time op) op st r \<and> ap_wf st' \<and>
        (\<forall>i. ap_load i st' = (if i = ent_id r then Some r else ap_load i mid)))"
    unfolding op_effect_def by blast
  have mid: "ap_load i mid = Some r"
    using expires_Some [OF e assms(2)] assms(3) by (auto simp: due_def)
  from m show ?thesis
  proof (elim disjE exE conjE)
    fix n assume n: "stores sha (op_time op) op st n"
      and l: "\<forall>i. ap_load i st' = (if i = ent_id n then Some n else ap_load i mid)"
    have "i \<noteq> ent_id n" using n assms(2,3) by (auto simp: stores_def)
    with l mid show ?thesis by simp
  qed (simp add: mid)
qed

fun fresh_run :: "sha \<Rightarrow> ap_op list \<Rightarrow> approval_store \<Rightarrow> bool" where
  "fresh_run sha [] st = True"
| "fresh_run sha (op # ops) st = (op_fresh op st \<and> fresh_run sha ops (ap_apply sha op st))"

lemma ap_run_simps [simp]:
  "ap_run sha [] st = st" "ap_run sha (op # ops) st = ap_run sha ops (ap_apply sha op st)"
  by (simp_all add: ap_run_def)

lemma run_final:
  "fresh_run sha ops st \<Longrightarrow> ap_wf st \<Longrightarrow> ap_load i st = Some r \<Longrightarrow> ar_status r \<noteq> AP_PENDING
     \<Longrightarrow> ap_load i (ap_run sha ops st) = Some r"
proof (induction ops arbitrary: st)
  case (Cons op ops)
  then have "op_effect sha op st (ap_apply sha op st)" by (intro op_effect_apply) simp_all
  with Cons show ?case by (simp add: op_effect_final op_effect_wf)
qed simp

text \<open>What is true of a request after a run: its hash is that of its own action, and it is
  approved only by a decision of that run, taken before it expired.\<close>

definition request_inv :: "sha \<Rightarrow> ap_op list \<Rightarrow> approval_request \<Rightarrow> bool" where
  "request_inv sha ops r \<longleftrightarrow>
     ar_hash r = approval_hash sha (ar_tool r) (ar_arguments r) (ar_policy r)
   \<and> (ar_status r = AP_APPROVED \<longrightarrow> (\<exists>t who. Op_Decide t (ent_id r) True who \<in> set ops
        \<and> ar_decided_at r = Some t \<and> ar_decided_by r = who
        \<and> (case ar_expires_at r of None \<Rightarrow> True | Some e \<Rightarrow> t < e)))"

definition store_inv :: "sha \<Rightarrow> ap_op list \<Rightarrow> approval_store \<Rightarrow> bool" where
  "store_inv sha ops st \<longleftrightarrow> ap_wf st \<and> (\<forall>i r. ap_load i st = Some r \<longrightarrow> request_inv sha ops r)"

lemma request_inv_more: "request_inv sha ops r \<Longrightarrow> set ops \<subseteq> set ops' \<Longrightarrow> request_inv sha ops' r"
  unfolding request_inv_def by blast

lemma request_inv_expired: "request_inv sha ops r \<Longrightarrow> request_inv sha ops (touch now (mark_expired r))"
  by (simp add: request_inv_def touch_def mark_expired_def)

lemma request_inv_stores:
  assumes "stores sha now op st r" "store_inv sha ops st"
  shows "request_inv sha (op # ops) r"
  using assms(1) unfolding stores_def
proof (elim disjE exE conjE)
  fix r0 ok who
  assume op: "op = Op_Decide now (ent_id r) ok who" and l: "ap_load (ent_id r) st = Some r0"
    and p: "ar_status r0 = AP_PENDING" and nd: "\<not> due now r0"
    and r: "r = touch now (r0\<lparr>ar_status := (if ok then AP_APPROVED else AP_DENIED),
                 ar_decided_at := Some now, ar_decided_by := who\<rparr>)"
  have "request_inv sha ops r0" using assms(2) l by (simp add: store_inv_def)
  then show ?thesis using p nd op
    by (subst r) (auto simp: request_inv_def touch_def due_def r split: option.splits)
qed (simp add: request_inv_def)

lemma store_inv_effect:
  assumes eff: "op_effect sha op st st'" and inv: "store_inv sha ops st"
  shows "store_inv sha (op # ops) st'"
  unfolding store_inv_def
proof (intro conjI allI impI)
  show "ap_wf st'" by (rule op_effect_wf [OF eff])
  from eff obtain mid where e: "expires (op_time op) st mid" and
    m: "st' = mid \<or> (\<exists>r. stores sha (op_time op) op st r \<and> ap_wf st' \<and>
        (\<forall>i. ap_load i st' = (if i = ent_id r then Some r else ap_load i mid)))"
    unfolding op_effect_def by blast
  have old: "request_inv sha (op # ops) s" if "ap_load i mid = Some s" for i s
  proof -
    from expires_back [OF e that] inv have "request_inv sha ops s"
      unfolding store_inv_def using request_inv_expired by blast
    then show ?thesis by (rule request_inv_more) auto
  qed
  fix i s assume s: "ap_load i st' = Some s"
  from m show "request_inv sha (op # ops) s"
  proof (elim disjE exE conjE)
    fix r assume r: "stores sha (op_time op) op st r"
      and l: "\<forall>i. ap_load i st' = (if i = ent_id r then Some r else ap_load i mid)"
    show ?thesis
    proof (cases "i = ent_id r")
      case True
      with l s have "s = r" by simp
      with request_inv_stores [OF r inv] show ?thesis by simp
    next
      case False
      with l s have "ap_load i mid = Some s" by simp
      then show ?thesis by (rule old)
    qed
  qed (use s old in blast)
qed

lemma store_inv_run:
  "fresh_run sha ops st \<Longrightarrow> store_inv sha done st \<Longrightarrow> store_inv sha (rev ops @ done) (ap_run sha ops st)"
proof (induction ops arbitrary: st "done")
  case (Cons op ops)
  have "op_effect sha op st (ap_apply sha op st)"
    using Cons.prems by (intro op_effect_apply) (simp_all add: store_inv_def)
  from Cons.IH [OF _ store_inv_effect [OF this Cons.prems(2)]] Cons.prems(1) show ?case by simp
qed simp

lemma ap_verify_True:
  assumes "fst (ap_verify sha now i tool args policy st)"
  obtains r where "ap_load i st = Some r" "ar_status r = AP_APPROVED" "ar_tool r = tool"
    "ar_hash r = approval_hash sha tool args policy"
proof -
  from assms obtain r where r: "ap_load i st = Some r"
    by (auto simp: ap_verify_def split: option.splits)
  obtain r' st' where x: "expire_one now r st = (r', st')" by fastforce
  from assms r x have ok: "ar_status r' = AP_APPROVED" "ar_tool r' = tool"
    "ar_hash r' = approval_hash sha tool args policy"
    by (auto simp: ap_verify_def split: if_splits)
  have "r' = r" using x ok(1)
    by (auto simp: expire_one_def ap_save_def mark_expired_def touch_def split: if_splits)
  with ok r that show ?thesis by blast
qed

lemma action_text_eq:
  assumes "action_text tool args policy = action_text tool' args' policy'"
    "wf_json (JObj args)" "wf_json (JObj args')"
  shows "tool' = tool \<and> policy' = policy \<and> sort_json (JObj args') = sort_json (JObj args)"
proof -
  let ?v = "\<lambda>t a p. JObj [(''tool'', JStr t), (''arguments'', JObj a), (''policy'', JStr p)]"
  have "sort_json (?v tool args policy) = sort_json (?v tool' args' policy')"
    using assms canonical_inj [of "?v tool args policy" "?v tool' args' policy'"]
    by (simp add: action_text_def)
  then show ?thesis by (simp add: sort_json_JObj)
qed

subsection \<open>Properties\<close>

text \<open>
  C7: An approval authorises exactly one action. Whatever requests, decisions, look-ups and
  expiries a store has seen, when \<open>verify\<close> accepts an approval for a tool, arguments and policy
  there was a decision to approve that identifier in the run, taken before the request expired
  and recorded in it with its author; the request names the tool; and its arguments and policy
  are the verified ones up to the order of JSON object members, or two different texts with one
  SHA-256 value have been found.
\<close>

theorem approval_binds_action:
  assumes new: "new_approval_store has_repo ttl = Inr st0"
    and uuid: "fresh_run sha ops st0"
    and ok: "fst (ap_verify sha now i tool args policy (ap_run sha ops st0))"
  shows "\<exists>r t who. ap_load i (ap_run sha ops st0) = Some r \<and> ar_status r = AP_APPROVED
    \<and> Op_Decide t i True who \<in> set ops \<and> ar_decided_at r = Some t \<and> ar_decided_by r = who
    \<and> (case ar_expires_at r of None \<Rightarrow> True | Some e \<Rightarrow> t < e) \<and> ar_tool r = tool
    \<and> (wf_json (JObj args) \<and> wf_json (JObj (ar_arguments r)) \<longrightarrow>
         ar_policy r = policy \<and> sort_json (JObj (ar_arguments r)) = sort_json (JObj args)
         \<or> (let x = action_text tool args policy; y = action_text tool (ar_arguments r) (ar_policy r)
            in x \<noteq> y \<and> sha x = sha y))"
proof -
  have "store_inv sha [] st0"
    using new by (auto simp: new_approval_store_def store_inv_def ap_wf_def wf_table_def
        ap_load_def tbl_get_def split: if_splits)
  from store_inv_run [OF uuid this] have inv: "store_inv sha (rev ops) (ap_run sha ops st0)" by simp
  from ap_verify_True [OF ok] obtain r where r: "ap_load i (ap_run sha ops st0) = Some r"
    "ar_status r = AP_APPROVED" "ar_tool r = tool" "ar_hash r = approval_hash sha tool args policy"
    by blast
  have id: "ent_id r = i" using approvals.key_lookup [OF _ r(1)] inv by (simp add: store_inv_def)
  have ri: "request_inv sha (rev ops) r" using inv r(1) by (simp add: store_inv_def)
  then obtain t who where d: "Op_Decide t i True who \<in> set ops" "ar_decided_at r = Some t"
    "ar_decided_by r = who" "case ar_expires_at r of None \<Rightarrow> True | Some e \<Rightarrow> t < e"
    using r(2) id unfolding request_inv_def by auto
  have h: "sha (action_text tool args policy) = sha (action_text tool (ar_arguments r) (ar_policy r))"
    using ri r(3,4) by (simp add: request_inv_def approval_hash_def)
  show ?thesis
    using r d h action_text_eq [of tool args policy tool "ar_arguments r" "ar_policy r"]
    unfolding Let_def by (intro exI [of _ r] exI [of _ t] exI [of _ who]) blast
qed

definition approval_example :: "ap_op list" where
  "approval_example =
     [Op_Request 0 ''r1'' ''t1'' ''write'' [(''path'', JStr ''a'')] ''HIGH'' ''why'' ''pol'' None,
      Op_Decide 1 ''r1'' True ''operator'']"

lemma approval_binds_action_witness:
  "\<exists>r t who. ap_load ''r1'' (ap_run id approval_example
       \<lparr>as_has_repo = True, as_table = [], as_default_ttl = 900\<rparr>) = Some r
     \<and> Op_Decide t ''r1'' True who \<in> set approval_example \<and> ar_tool r = ''write''"
proof -
  let ?st = "\<lparr>as_has_repo = True, as_table = [], as_default_ttl = 900\<rparr>"
  have "new_approval_store True 900 = Inr ?st" by (simp add: new_approval_store_def)
  moreover have "fresh_run id approval_example ?st" by code_simp
  moreover have "fst (ap_verify id 2 ''r1'' ''write'' [(''path'', JStr ''a'')] ''pol''
      (ap_run id approval_example ?st))" by code_simp
  ultimately show ?thesis by (blast dest: approval_binds_action)
qed

text \<open>
  Decisions are final: a request that is approved, denied or expired is the same request
  after any further run of the store, and deciding a request whose time has passed fails and
  leaves it expired.
\<close>

theorem decided_request_is_final:
  assumes "ap_wf st" "ap_load i st = Some r" "fresh_run sha ops st"
  shows "(ar_status r \<noteq> AP_PENDING \<longrightarrow> ap_load i (ap_run sha ops st) = Some r)
    \<and> (due now r \<longrightarrow> (\<exists>st'. ap_decide now i ok who st =
        (Inl (DomainValidationError (''approval '' @ repr_str i @ '' is already EXPIRED'')), st')
      \<and> ap_load i st' = Some (touch now (mark_expired r))))"
proof -
  have id: "ent_id (mark_expired r) = i"
    using approvals.key_lookup [OF assms(1,2)] by (simp add: mark_expired_def)
  have "ap_load i (ap_put now (mark_expired r) st) = Some (touch now (mark_expired r))"
    using approvals.lookup_put [OF assms(1)] id by simp
  then have "due now r \<longrightarrow> (\<exists>st'. ap_decide now i ok who st =
        (Inl (DomainValidationError (''approval '' @ repr_str i @ '' is already EXPIRED'')), st')
      \<and> ap_load i st' = Some (touch now (mark_expired r)))"
    by (simp add: ap_decide_def assms(2) expire_one_def ap_save_def)
      (simp add: mark_expired_def touch_def)
  then show ?thesis using run_final assms by blast
qed

lemma decided_request_is_final_witness:
  "ap_load ''r1'' (ap_run id [Op_Decide 5 ''r1'' False ''other'', Op_Pending 2000 []]
      (ap_run id approval_example \<lparr>as_has_repo = True, as_table = [], as_default_ttl = 900\<rparr>))
   = ap_load ''r1'' (ap_run id approval_example
      \<lparr>as_has_repo = True, as_table = [], as_default_ttl = 900\<rparr>)"
proof -
  let ?st = "ap_run id approval_example \<lparr>as_has_repo = True, as_table = [], as_default_ttl = 900\<rparr>"
  have "case ap_load ''r1'' ?st of None \<Rightarrow> False | Some r \<Rightarrow> ar_status r \<noteq> AP_PENDING"
    by code_simp
  then obtain r where r: "ap_load ''r1'' ?st = Some r" "ar_status r \<noteq> AP_PENDING"
    by (auto split: option.splits)
  have "ap_wf ?st" by code_simp
  moreover have "fresh_run id [Op_Decide 5 ''r1'' False ''other'', Op_Pending 2000 []] ?st"
    by code_simp
  ultimately show ?thesis using decided_request_is_final r by metis
qed

end
