(* ===== verification/Registry.thy ===== *)
theory Registry
  imports Store Domain
begin

text \<open>
  The tool registry (\<^verbatim>\<open>tools/registry/registry.py\<close>): contracts, handlers and argument guards by
  name. The three dictionaries change together under one lock, so each operation is one step.
  A handler maps the arguments to what calling it does; a guard gives the reason to block, none,
  or an exception.
\<close>

type_synonym guard = "arguments \<Rightarrow> string option result"

record 'h registry =
  rg_tools :: "(string \<times> tool) list"
  rg_handlers :: "(string \<times> 'h) list"
  rg_guards :: "(string \<times> guard) list"

definition new_registry :: "'h registry" where
  "new_registry = \<lparr>rg_tools = [], rg_handlers = [], rg_guards = []\<rparr>"

text \<open>The handler is \<open>None\<close> when the object registered is not callable.\<close>

definition register ::
  "tool \<Rightarrow> 'h option \<Rightarrow> guard option \<Rightarrow> 'h registry
     \<Rightarrow> tool result \<times> 'h registry" where
  "register t handler guard rg =
     (if tool_name t = [] then (Inl (DomainValidationError ''tool name must not be empty''), rg)
      else case handler of
        None \<Rightarrow> (Inl (DomainValidationError (''handler for '' @ repr_str (tool_name t)
                  @ '' is not callable'')), rg)
      | Some h \<Rightarrow>
          if tool_name t \<in> set (keys (rg_tools rg))
          then (Inl (DomainValidationError (''tool '' @ repr_str (tool_name t)
                  @ '' already registered'')), rg)
          else (Inr t, rg\<lparr>rg_tools := dict_set (tool_name t) t (rg_tools rg),
                          rg_handlers := dict_set (tool_name t) h (rg_handlers rg),
                          rg_guards := (case guard of None \<Rightarrow> rg_guards rg
                            | Some g \<Rightarrow> dict_set (tool_name t) g (rg_guards rg))\<rparr>))"

definition argument_guard :: "string \<Rightarrow> 'h registry \<Rightarrow> guard option" where
  "argument_guard name rg = map_of (rg_guards rg) name"

definition unregister :: "string \<Rightarrow> 'h registry \<Rightarrow> 'h registry" where
  "unregister name rg = rg\<lparr>rg_tools := dict_del name (rg_tools rg),
     rg_handlers := dict_del name (rg_handlers rg), rg_guards := dict_del name (rg_guards rg)\<rparr>"

definition reg_get :: "string \<Rightarrow> 'h registry \<Rightarrow> tool option" where
  "reg_get name rg = map_of (rg_tools rg) name"

definition reg_handler :: "string \<Rightarrow> 'h registry \<Rightarrow> 'h option" where
  "reg_handler name rg = map_of (rg_handlers rg) name"

definition reg_has :: "string \<Rightarrow> 'h registry \<Rightarrow> bool" where
  "reg_has name rg \<longleftrightarrow> name \<in> set (keys (rg_tools rg))"

definition list_tools :: "'h registry \<Rightarrow> tool list" where
  "list_tools rg = map snd (sort_key fst (rg_tools rg))"

definition build_call :: "string \<Rightarrow> string \<Rightarrow> string \<Rightarrow> json \<Rightarrow> 'h registry \<Rightarrow> tool_call result" where
  "build_call new_id task_id name arguments rg =
     (if name \<notin> set (keys (rg_tools rg))
      then Inl (DomainValidationError (''unknown tool '' @ repr_str name))
      else case arguments of
        JObj ms \<Rightarrow> Inr \<lparr>tc_id = new_id, tc_task_id = task_id, tc_tool = name, tc_arguments = ms,
                     tc_status = TC_REQUESTED\<rparr>
      | _ \<Rightarrow> Inl (DomainValidationError ''tool arguments must be a mapping''))"

text \<open>The invariant: a contract under its own name, with a handler, and no guard without one.\<close>

definition wf_registry :: "'h registry \<Rightarrow> bool" where
  "wf_registry rg \<longleftrightarrow> distinct (keys (rg_tools rg))
     \<and> set (keys (rg_handlers rg)) = set (keys (rg_tools rg))
     \<and> set (keys (rg_guards rg)) \<subseteq> set (keys (rg_tools rg))
     \<and> (\<forall>(k, t) \<in> set (rg_tools rg). k = tool_name t)"

lemma wf_new_registry: "wf_registry new_registry"
  by (simp add: wf_registry_def new_registry_def)

lemma wf_register: "wf_registry rg \<Longrightarrow> wf_registry (snd (register t h g rg))"
  by (auto simp: register_def wf_registry_def dict_set_new
      split: option.splits)

lemma wf_unregister: "wf_registry rg \<Longrightarrow> wf_registry (unregister name rg)"
proof -
  assume wf: "wf_registry rg"
  have "\<forall>(k, t) \<in> set (dict_del name (rg_tools rg)). k = tool_name t"
    using wf by (auto simp: wf_registry_def AList.delete_eq)
  then show ?thesis
    using wf by (auto simp: unregister_def wf_registry_def distinct_keys_dict_del
        simp del: AList.delete_eq)
qed

lemma reg_get_name: "wf_registry rg \<Longrightarrow> reg_get name rg = Some t \<Longrightarrow> tool_name t = name"
  by (auto simp: wf_registry_def reg_get_def dest!: map_of_SomeD)

lemma reg_get_handler: "wf_registry rg \<Longrightarrow> reg_handler name rg = None \<longleftrightarrow> reg_get name rg = None"
  by (simp add: wf_registry_def reg_get_def reg_handler_def map_of_None_keys)

text \<open>After revocation the name has no contract, no handler and no guard.\<close>

lemma unregister_gone:
  "reg_get name (unregister name rg) = None" "reg_handler name (unregister name rg) = None"
  "argument_guard name (unregister name rg) = None"
  by (simp_all add: unregister_def reg_get_def reg_handler_def argument_guard_def)

end
