(* ===== verification/Policy.thy ===== *)
theory Policy
  imports Approvals Registry
begin

text \<open>
  Risk, policy and the human-approval boundary (\<^verbatim>\<open>security/policy/engines.py\<close>): the risk engine
  derives a level and its factors from a tool contract and a call, the policy engine answers
  whether the level is granted, and the authorization manager combines both with the approval
  store of the theory Approvals. Parameters: \<open>rp\<close>, the components of a resolved path (the
  file system decides it), the schema validator of \<open>check_arguments\<close>, SHA-256, the clock and
  the identifier of a new approval request. Paths are POSIX paths.
\<close>

section \<open>RiskEngine\<close>

definition shell_tokens :: "string list" where
  "shell_tokens = ['';'', ''&&'', ''||'', ''$('', ''`'', ''|'']"

definition shell_binaries :: "string list" where
  "shell_binaries = [''cmd'', ''cmd.exe'', ''powershell'', ''powershell.exe'', ''pwsh'',
     ''pwsh.exe'', ''bash'', ''sh'', ''zsh'', ''fish'', ''dash'', ''wsl'', ''wsl.exe'',
     ''cscript'', ''cscript.exe'', ''wscript'', ''wscript.exe'', ''mshta'', ''mshta.exe'',
     ''rundll32'', ''rundll32.exe'']"

definition destructive_patterns :: "string list" where
  "destructive_patterns = [''del /s'', ''rd /s'', ''rmdir /s'', ''format.com'', ''format c:'',
     ''format d:'', ''rm -rf /'', ''rm -rf ~'', ''rm -rf $home'', ''mkfs'', ''dd if='',
     '':(){:|:&};'', ''powershell -enc'', ''powershell -encodedcommand'', ''pwsh -enc'',
     ''-encodedcommand'', ''invoke-expression'', ''iex('', ''curl '', ''wget '',
     ''| powershell'', ''| pwsh'', ''| sh'', ''| bash'', ''git push --force'', ''git push -f'',
     ''git reset --hard'', ''git clean -fd'', ''git clean -fdx'', ''reg delete'', ''takeown'',
     ''cipher /w'', ''vssadmin delete'', ''bcdedit'', ''diskpart'']"

record risk_context =
  rc_agent_id :: string
  rc_environment :: string
  rc_root :: string

text \<open>The level and the factors that \<open>escalate\<close> and \<open>note\<close> close over.\<close>

type_synonym risk_acc = "risk_level \<times> string list"

definition escalate :: "risk_level \<Rightarrow> string \<Rightarrow> risk_acc \<Rightarrow> risk_acc" where
  "escalate to factor a =
     ((if level_order (fst a) < level_order to then to else fst a), snd a @ [factor])"

definition note_factor :: "string \<Rightarrow> risk_acc \<Rightarrow> risk_acc" where
  "note_factor factor a = (fst a, snd a @ [factor])"

definition risk_when :: "bool \<Rightarrow> risk_level \<Rightarrow> string \<Rightarrow> risk_acc \<Rightarrow> risk_acc" where
  "risk_when c to factor a = (if c then escalate to factor a else a)"

definition starts_with :: "string \<Rightarrow> string \<Rightarrow> bool" where
  "starts_with p s \<longleftrightarrow> take (length p) s = p"

definition basename :: "string \<Rightarrow> string" where
  "basename s = last (split_char CHR 0x2F s)"

definition assess_executable :: "bool \<Rightarrow> arguments \<Rightarrow> risk_acc \<Rightarrow> risk_acc" where
  "assess_executable allow_shells args a =
     (case map_of args ''command'' of
        Some (JList (JStr c # _)) \<Rightarrow>
          if lower_str (basename c) \<in> set shell_binaries
          then if allow_shells
               then note_factor (''shell interpreter '' @ repr_str c
                      @ '' explicitly allowed by operator'') a
               else escalate CRITICAL (''shell interpreter '' @ repr_str c
                      @ '' requires explicit operator opt-in'') a
          else a
      | _ \<Rightarrow> a)"

fun str_parts :: "json list \<Rightarrow> string list" where
  "str_parts [] = []"
| "str_parts (JStr s # xs) = s # str_parts xs"
| "str_parts (_ # xs) = str_parts xs"

definition command_text :: "json list \<Rightarrow> string" where
  "command_text parts = CHR 0x20 # lower_str (join_str '' '' (str_parts parts)) @ '' ''"

definition assess_command :: "arguments \<Rightarrow> risk_acc \<Rightarrow> risk_acc" where
  "assess_command args a =
     (case map_of args ''command'' of
        Some (JList (c # cs)) \<Rightarrow>
          (case find (\<lambda>p. str_in p (command_text (c # cs))) destructive_patterns of
             None \<Rightarrow> a
           | Some p \<Rightarrow> escalate CRITICAL (''destructive command pattern '' @ repr_str p) a)
      | _ \<Rightarrow> a)"

definition has_dotdot :: "string \<Rightarrow> bool" where
  "has_dotdot s \<longleftrightarrow>
     ''..'' \<in> set (split_char CHR 0x2F (map (\<lambda>c. if c = CHR 0x5C then CHR 0x2F else c) s))"

definition is_absolute :: "string \<Rightarrow> bool" where
  "is_absolute s \<longleftrightarrow> starts_with ''/'' s"

type_synonym resolver = "string \<Rightarrow> string list"

definition within_root :: "resolver \<Rightarrow> string \<Rightarrow> string \<Rightarrow> bool" where
  "within_root rp rt p \<longleftrightarrow> take (length (rp rt)) (rp p) = rp rt"

definition scan_string ::
  "resolver \<Rightarrow> string \<Rightarrow> string \<Rightarrow> bool \<Rightarrow> string \<Rightarrow> string \<Rightarrow> risk_acc \<Rightarrow> risk_acc" where
  "scan_string rp tname rt literal_argv value key a =
     (if tname = ''agent.respond'' \<and> key = ''text'' then a
      else if has_dotdot value then escalate CRITICAL (''path traversal in '' @ repr_str key) a
      else
        let a1 = risk_when (is_absolute value \<and> rt \<noteq> [] \<and> \<not> within_root rp rt value) HIGH
                   (''absolute path outside allowed root in '' @ repr_str key) a
        in if \<exists>t \<in> set shell_tokens. str_in t value
           then if literal_argv
                then note_factor (''shell-like tokens in '' @ repr_str key
                       @ '' (passed literally, no shell)'') a1
                else escalate HIGH (''shell metacharacters in '' @ repr_str key) a1
           else a1)"

definition item_key :: "string \<Rightarrow> nat \<Rightarrow> string" where
  "item_key key i = key @ ''['' @ int_text (int i) @ '']''"

definition member_key :: "string \<Rightarrow> string \<Rightarrow> string" where
  "member_key key k = key @ ''.'' @ k"

definition literal_argv :: "string \<Rightarrow> string \<Rightarrow> bool" where
  "literal_argv tname key \<longleftrightarrow> tname = ''terminal.execute'' \<and> key = ''command''"

text \<open>
  \<open>lk\<close> is the key \<open>literal_argv\<close> is computed from: a string inside a list is scanned under the
  key of its position with the flag of the list's key, every other string under its own key.
\<close>

function (sequential) scan_value :: "(string \<Rightarrow> string \<Rightarrow> string \<Rightarrow> risk_acc \<Rightarrow> risk_acc) \<Rightarrow> json \<Rightarrow> string \<Rightarrow> string \<Rightarrow> risk_acc \<Rightarrow> risk_acc"
  and scan_items :: "(string \<Rightarrow> string \<Rightarrow> string \<Rightarrow> risk_acc \<Rightarrow> risk_acc) \<Rightarrow> json list \<Rightarrow> nat \<Rightarrow> string \<Rightarrow> risk_acc \<Rightarrow> risk_acc"
  and scan_members :: "(string \<Rightarrow> string \<Rightarrow> string \<Rightarrow> risk_acc \<Rightarrow> risk_acc) \<Rightarrow> arguments \<Rightarrow> string \<Rightarrow> risk_acc \<Rightarrow> risk_acc"
where
  "scan_value f (JStr s) lk key a = f s lk key a"
| "scan_value f (JList xs) lk key a = scan_items f xs 0 key a"
| "scan_value f (JObj ms) lk key a = scan_members f ms key a"
| "scan_value f _ lk key a = a"
| "scan_items f [] i key a = a"
| "scan_items f (x # xs) i key a =
     scan_items f xs (Suc i) key (scan_value f x key (item_key key i) a)"
| "scan_members f [] key a = a"
| "scan_members f ((k, x) # ms) key a =
     scan_members f ms key (scan_value f x (member_key key k) (member_key key k) a)"
  by pat_completeness auto
termination
  by (relation "measure (case_sum (\<lambda>(f, v, _). size v) (case_sum (\<lambda>(f, xs, _). size_list size xs)
        (\<lambda>(f, ms, _). size_list (size_prod (\<lambda>_. 0) size) ms)))") auto

definition mentions :: "string list \<Rightarrow> string \<Rightarrow> bool" where
  "mentions ws name \<longleftrightarrow> (\<exists>w \<in> set ws. str_in w (lower_str name))"

definition assess_caps :: "tool \<Rightarrow> risk_acc \<Rightarrow> risk_acc" where
  "assess_caps t a0 =
     (let caps = map lower_str (tool_capabilities t);
          a1 = risk_when (''arbitrary-code-execution'' \<in> set caps) CRITICAL
                 ''arbitrary code execution capability'' a0;
          a2 = risk_when (''subprocess'' \<in> set caps) HIGH ''subprocess capability'' a1;
          a3 = risk_when (\<exists>c \<in> set caps. starts_with ''filesystem.write'' c
                   \<or> c \<in> {''filesystem.write'', ''system.modify''}) HIGH
                 ''filesystem/system mutation capability'' a2;
          a4 = risk_when (''network.internet'' \<in> set caps \<or> tool_network_access t) HIGH
                 ''network capability'' a3
      in risk_when (''credential.read'' \<in> set caps \<or> tool_secrets_access t) CRITICAL
           ''credential access capability'' a4)"

definition assess_name :: "tool \<Rightarrow> risk_acc \<Rightarrow> risk_acc" where
  "assess_name t a =
     (if mentions [''delete'', ''remove'', ''destroy'', ''rm ''] (tool_name t)
      then escalate CRITICAL (''destructive tool name: '' @ tool_name t) a
      else if mentions [''write'', ''modify'', ''install'', ''overwrite''] (tool_name t)
      then escalate HIGH (''mutating tool name: '' @ tool_name t) a
      else a)"

definition scan_arguments :: "resolver \<Rightarrow> string \<Rightarrow> string \<Rightarrow> arguments \<Rightarrow> risk_acc \<Rightarrow> risk_acc" where
  "scan_arguments rp tname rt args a =
     fold (\<lambda>(k, v). scan_value
       (\<lambda>s lk. scan_string rp tname rt (literal_argv tname lk) s) v k k) args a"

definition assess_acc :: "resolver \<Rightarrow> bool \<Rightarrow> tool \<Rightarrow> tool_call \<Rightarrow> risk_context \<Rightarrow> risk_acc" where
  "assess_acc rp allow_shells t call ctx =
     (let a1 = assess_name t (assess_caps t (tool_risk_level t, []));
          a2 = (if ''subprocess'' \<in> set (map lower_str (tool_capabilities t))
                then assess_command (tc_arguments call)
                       (assess_executable allow_shells (tc_arguments call) a1)
                else a1)
      in scan_arguments rp (tool_name t) (rc_root ctx) (tc_arguments call) a2)"

definition assess ::
  "resolver \<Rightarrow> bool \<Rightarrow> string \<Rightarrow> tool \<Rightarrow> tool_call \<Rightarrow> risk_context \<Rightarrow> risk_assessment" where
  "assess rp allow_shells task_id t call ctx =
     (let (level, factors) = assess_acc rp allow_shells t call ctx in
      \<lparr>ra_task_id = task_id, ra_tool_call_id = tc_id call, ra_level = level,
       ra_factors = (if factors = [] then [''base level for '' @ tool_name t] else factors),
       ra_rationale = ''capability-aware assessment for agent ''
         @ (if rc_agent_id ctx = [] then ''default'' else rc_agent_id ctx)\<rparr>)"

subsection \<open>The level only rises\<close>

lemma level_less: "level_order a < level_order b \<longleftrightarrow> a < b"
  by (simp add: less_risk_level_def)

lemma escalate_ge: "fst a \<le> fst (escalate to f a)" "to \<le> fst (escalate to f a)"
  by (auto simp: escalate_def level_less)

lemma note_factor_level [simp]: "fst (note_factor f a) = fst a"
  by (simp add: note_factor_def)

lemma risk_when_ge: "fst a \<le> fst (risk_when c to f a)" "c \<Longrightarrow> to \<le> fst (risk_when c to f a)"
  by (auto simp: risk_when_def escalate_ge)

lemma critical_top: "CRITICAL \<le> l \<longleftrightarrow> l = CRITICAL"
  by (cases l) (simp_all add: less_eq_risk_level_def)

lemma le_critical [simp]: "l \<le> CRITICAL"
  by (cases l) (simp_all add: less_eq_risk_level_def)

lemma escalate_critical: "fst (escalate CRITICAL f a) = CRITICAL"
  using escalate_ge(2) [of CRITICAL f a] by (simp only: critical_top)

lemma assess_executable_ge: "fst a \<le> fst (assess_executable sh args a)"
  by (auto simp: assess_executable_def escalate_ge split: option.split json.split list.split)

lemma assess_command_ge: "fst a \<le> fst (assess_command args a)"
  by (auto simp: assess_command_def escalate_ge split: option.split json.split list.split)

lemma scan_string_ge: "fst a \<le> fst (scan_string rp n rt l s key a)"
proof -
  let ?a1 = "risk_when (is_absolute s \<and> rt \<noteq> [] \<and> \<not> within_root rp rt s) HIGH
    (''absolute path outside allowed root in '' @ repr_str key) a"
  have "fst a \<le> fst ?a1" by (rule risk_when_ge(1))
  moreover have "fst ?a1 \<le> fst (escalate HIGH f ?a1)" for f by (rule escalate_ge(1))
  ultimately show ?thesis
    unfolding scan_string_def Let_def
    by (auto simp: escalate_critical simp del: append.simps intro: order_trans)
qed

lemma scan_value_ge:
  assumes "\<And>s lk key a. fst a \<le> fst (f s lk key a)"
  shows "fst a \<le> fst (scan_value f v lk key a)"
    and "fst a \<le> fst (scan_items f xs i key a)"
    and "fst a \<le> fst (scan_members f ms key a)"
  using assms
  by (induction f v lk key a and f xs i key a and f ms key a
      rule: scan_value_scan_items_scan_members.induct) (auto intro: order_trans)

lemma scan_arguments_ge: "fst a \<le> fst (scan_arguments rp n rt args a)"
proof (induction args arbitrary: a)
  case (Cons m args)
  have "fst a \<le> fst (scan_value (\<lambda>s lk. scan_string rp n rt (literal_argv n lk) s) (snd m) (fst m) (fst m) a)"
    by (rule scan_value_ge(1)) (rule scan_string_ge)
  from order_trans [OF this Cons.IH] show ?case by (simp add: scan_arguments_def case_prod_beta)
qed (simp add: scan_arguments_def)

lemma assess_name_ge: "fst a \<le> fst (assess_name t a)"
  by (simp add: assess_name_def escalate_ge)

lemma assess_caps_ge: "fst a \<le> fst (assess_caps t a)"
  unfolding assess_caps_def Let_def by (meson order_trans risk_when_ge(1))

text \<open>Every string of a value, at any depth.\<close>

fun strings_in :: "json \<Rightarrow> string list" where
  "strings_in (JStr s) = [s]"
| "strings_in (JList xs) = concat (map strings_in xs)"
| "strings_in (JObj ms) = concat (map (\<lambda>(k, x). strings_in x) ms)"
| "strings_in _ = []"

lemma scan_value_critical:
  assumes "\<And>s lk key a. fst a \<le> fst (f s lk key a)"
    and "\<And>s lk key a. P s \<Longrightarrow> fst (f s lk key a) = CRITICAL"
  shows "\<exists>s \<in> set (strings_in v). P s \<Longrightarrow> fst (scan_value f v lk key a) = CRITICAL"
    and "\<exists>x \<in> set xs. \<exists>s \<in> set (strings_in x). P s \<Longrightarrow> fst (scan_items f xs i key a) = CRITICAL"
    and "\<exists>m \<in> set ms. \<exists>s \<in> set (strings_in (snd m)). P s \<Longrightarrow> fst (scan_members f ms key a) = CRITICAL"
  using assms
proof (induction f v lk key a and f xs i key a and f ms key a
      rule: scan_value_scan_items_scan_members.induct)
  case (6 f x xs i key a)
  show ?case
  proof (cases "\<exists>s \<in> set (strings_in x). P s")
    case True
    with 6 have "fst (scan_value f x key (item_key key i) a) = CRITICAL" by blast
    then show ?thesis
      using scan_value_ge(2) [OF 6(4), of "scan_value f x key (item_key key i) a"]
      by (simp add: critical_top)
  next
    case False
    with 6 show ?thesis by simp
  qed
next
  case (8 f k x ms key a)
  show ?case
  proof (cases "\<exists>s \<in> set (strings_in x). P s")
    case True
    with 8 have "fst (scan_value f x (member_key key k) (member_key key k) a) = CRITICAL" by blast
    then show ?thesis
      using scan_value_ge(3) [OF 8(4), of "scan_value f x (member_key key k) (member_key key k) a"]
      by (simp add: critical_top)
  next
    case False
    with 8 show ?thesis by simp
  qed
next
  case (3 f ms lk key a)
  then show ?case by (simp add: case_prod_beta)
qed auto

lemma scan_arguments_critical:
  assumes "n \<noteq> ''agent.respond''" "m \<in> set args" "s \<in> set (strings_in (snd m))" "has_dotdot s"
  shows "fst (scan_arguments rp n rt args a) = CRITICAL"
  using assms(2)
proof (induction args arbitrary: a)
  case (Cons m' args)
  let ?f = "\<lambda>s lk. scan_string rp n rt (literal_argv n lk) s"
  let ?a = "scan_value ?f (snd m') (fst m') (fst m') a"
  show ?case
  proof (cases "m' = m")
    case True
    have "fst (?f s lk key a) = CRITICAL" if "has_dotdot s" for s lk key a
      using that assms(1) by (simp add: scan_string_def escalate_critical)
    then have "fst ?a = CRITICAL"
      using scan_value_critical(1) [of ?f has_dotdot "snd m'" "fst m'" "fst m'" a]
        scan_string_ge True assms(3,4) by blast
    then show ?thesis
      using scan_arguments_ge [of ?a rp n rt args]
      by (simp add: scan_arguments_def case_prod_beta critical_top)
  next
    case False
    with Cons show ?thesis by (simp add: scan_arguments_def case_prod_beta)
  qed
qed simp

lemma assess_level:
  "ra_level (assess rp sh tid t call ctx) = fst (assess_acc rp sh t call ctx)"
  by (simp add: assess_def split: prod.split)

lemma risk_when_keep: "l \<le> fst a \<Longrightarrow> l \<le> fst (risk_when c to f a)"
  using risk_when_ge(1) order_trans by blast

lemma assess_acc_ge:
  "fst (assess_name t (assess_caps t (tool_risk_level t, []))) \<le> fst (assess_acc rp sh t call ctx)"
  "''subprocess'' \<in> set (map lower_str (tool_capabilities t)) \<Longrightarrow>
     fst (assess_command (tc_arguments call) (assess_executable sh (tc_arguments call)
       (assess_name t (assess_caps t (tool_risk_level t, []))))) \<le> fst (assess_acc rp sh t call ctx)"
proof -
  let ?n = "assess_name t (assess_caps t (tool_risk_level t, []))"
  let ?e = "assess_command (tc_arguments call) (assess_executable sh (tc_arguments call) ?n)"
  have "fst ?n \<le> fst ?e"
    by (rule order_trans [OF assess_executable_ge assess_command_ge])
  then show "fst ?n \<le> fst (assess_acc rp sh t call ctx)"
    unfolding assess_acc_def Let_def by (simp add: order_trans [OF _ scan_arguments_ge])
  show "''subprocess'' \<in> set (map lower_str (tool_capabilities t)) \<Longrightarrow>
      fst ?e \<le> fst (assess_acc rp sh t call ctx)"
    unfolding assess_acc_def Let_def by (simp only: if_True scan_arguments_ge)
qed

lemma assess_caps_covers:
  "''subprocess'' \<in> set (map lower_str (tool_capabilities t)) \<Longrightarrow> HIGH \<le> fst (assess_caps t a)"
  "''network.internet'' \<in> set (map lower_str (tool_capabilities t)) \<or> tool_network_access t
   \<Longrightarrow> HIGH \<le> fst (assess_caps t a)"
  "''arbitrary-code-execution'' \<in> set (map lower_str (tool_capabilities t))
   \<Longrightarrow> CRITICAL \<le> fst (assess_caps t a)"
  "''credential.read'' \<in> set (map lower_str (tool_capabilities t)) \<or> tool_secrets_access t
   \<Longrightarrow> CRITICAL \<le> fst (assess_caps t a)"
  unfolding assess_caps_def Let_def
  by (rule risk_when_keep, rule risk_when_keep, rule risk_when_keep, rule risk_when_ge(2), assumption)
    (rule risk_when_keep, rule risk_when_ge(2), assumption,
     rule risk_when_keep, rule risk_when_keep, rule risk_when_keep, rule risk_when_keep,
     rule risk_when_ge(2), assumption, rule risk_when_ge(2), assumption)

text \<open>
  The risk level covers what the engine knows to look for. It is never below the level the
  tool's contract declares; a subprocess or network capability makes it at least \<open>HIGH\<close>; code
  execution or access to credentials makes it \<open>CRITICAL\<close>; so does a string with a \<open>..\<close> path
  component at any depth of the arguments of a tool other than \<open>agent.respond\<close>; and, for a tool
  that may start subprocesses, so does a shell interpreter the operator has not allowed, and a
  command line with a destructive pattern.
\<close>

theorem assess_covers:
  fixes rp sh tid t call ctx
  defines "level \<equiv> ra_level (assess rp sh tid t call ctx)"
    and "caps \<equiv> set (map lower_str (tool_capabilities t))"
  shows "tool_risk_level t \<le> level
    \<and> (''subprocess'' \<in> caps \<or> ''network.internet'' \<in> caps \<or> tool_network_access t \<longrightarrow> HIGH \<le> level)
    \<and> (''arbitrary-code-execution'' \<in> caps \<or> ''credential.read'' \<in> caps \<or> tool_secrets_access t
         \<longrightarrow> level = CRITICAL)
    \<and> (tool_name t \<noteq> ''agent.respond'' \<and> (\<exists>m \<in> set (tc_arguments call).
         \<exists>s \<in> set (strings_in (snd m)). has_dotdot s) \<longrightarrow> level = CRITICAL)
    \<and> (\<forall>c cs. ''subprocess'' \<in> caps \<and> map_of (tc_arguments call) ''command'' = Some (JList (JStr c # cs))
         \<longrightarrow> (\<not> sh \<and> lower_str (basename c) \<in> set shell_binaries
              \<or> (\<exists>p \<in> set destructive_patterns. str_in p (command_text (JStr c # cs))))
         \<longrightarrow> level = CRITICAL)"
proof -
  let ?c = "assess_caps t (tool_risk_level t, [])"
  let ?n = "assess_name t ?c"
  let ?args = "tc_arguments call"
  have lv: "level = fst (assess_acc rp sh t call ctx)" by (simp add: level_def assess_level)
  have c: "fst ?c \<le> level" unfolding lv by (rule order_trans [OF assess_name_ge assess_acc_ge(1)])
  have 1: "tool_risk_level t \<le> level"
    using order_trans [OF assess_caps_ge c] by simp
  have 2: "''subprocess'' \<in> caps \<or> ''network.internet'' \<in> caps \<or> tool_network_access t \<longrightarrow> HIGH \<le> level"
    unfolding caps_def using assess_caps_covers(1,2) order_trans [OF _ c] by blast
  have 3: "''arbitrary-code-execution'' \<in> caps \<or> ''credential.read'' \<in> caps \<or> tool_secrets_access t
    \<longrightarrow> level = CRITICAL"
    unfolding caps_def critical_top [symmetric] using assess_caps_covers(3,4) order_trans [OF _ c] by blast
  have 4: "tool_name t \<noteq> ''agent.respond'' \<and> (\<exists>m \<in> set ?args. \<exists>s \<in> set (strings_in (snd m)). has_dotdot s)
    \<longrightarrow> level = CRITICAL"
    unfolding lv assess_acc_def Let_def using scan_arguments_critical by blast
  have 5: "level = CRITICAL" if sub: "''subprocess'' \<in> caps"
    and cmd: "map_of ?args ''command'' = Some (JList (JStr c # cs))"
    and bad: "\<not> sh \<and> lower_str (basename c) \<in> set shell_binaries
      \<or> (\<exists>p \<in> set destructive_patterns. str_in p (command_text (JStr c # cs)))" for c cs
  proof -
    let ?e = "assess_executable sh ?args ?n"
    have le: "fst (assess_command ?args ?e) \<le> level"
      unfolding lv by (rule assess_acc_ge(2)) (use sub in \<open>simp add: caps_def\<close>)
    from bad have "fst (assess_command ?args ?e) = CRITICAL"
    proof
      assume "\<not> sh \<and> lower_str (basename c) \<in> set shell_binaries"
      then have "fst ?e = CRITICAL" by (simp add: assess_executable_def cmd escalate_critical)
      then show ?thesis using assess_command_ge [of ?e ?args] by (simp add: critical_top)
    next
      assume "\<exists>p \<in> set destructive_patterns. str_in p (command_text (JStr c # cs))"
      then have "find (\<lambda>p. str_in p (command_text (JStr c # cs))) destructive_patterns \<noteq> None"
        by (auto simp: find_None_iff)
      then show ?thesis by (auto simp: assess_command_def cmd escalate_critical)
    qed
    with le show ?thesis by (simp add: critical_top)
  qed
  show ?thesis using 1 2 3 4 5 by blast
qed

definition shell_tool :: tool where
  "shell_tool = \<lparr>tool_name = ''terminal.execute'', tool_description = [], tool_input_schema = [],
     tool_output_schema = [], tool_risk_level = LOW, tool_timeout_s = 1,
     tool_capabilities = [''Subprocess''], tool_execution_policy = [], tool_action_identity = [],
     tool_requires_sandbox = True, tool_sandbox_profile = ''terminal'',
     tool_requires_approval = False, tool_network_access = False, tool_secrets_access = False\<rparr>"

definition shell_call :: tool_call where
  "shell_call = \<lparr>tc_id = ''c1'', tc_task_id = ''t1'', tc_tool = ''terminal.execute'',
     tc_arguments = [(''command'', JList [JStr ''/bin/bash'', JStr ''-c'', JStr ''ls''])],
     tc_status = TC_VALIDATED\<rparr>"

lemma assess_covers_witness:
  "ra_level (assess (\<lambda>p. [p]) False ''t1'' shell_tool shell_call
     \<lparr>rc_agent_id = ''a'', rc_environment = ''local'', rc_root = []\<rparr>) = CRITICAL"
proof -
  have "''subprocess'' \<in> set (map lower_str (tool_capabilities shell_tool))" by code_simp
  moreover have "map_of (tc_arguments shell_call) ''command''
      = Some (JList (JStr ''/bin/bash'' # [JStr ''-c'', JStr ''ls'']))"
    by (simp add: shell_call_def)
  moreover have "lower_str (basename ''/bin/bash'') \<in> set shell_binaries" by code_simp
  ultimately show ?thesis
    using assess_covers [of shell_tool "\<lambda>p. [p]" False "''t1''" shell_call
      "\<lparr>rc_agent_id = ''a'', rc_environment = ''local'', rc_root = []\<rparr>"] by blast
qed

section \<open>PolicyEngine and PermissionEngine\<close>

record policy =
  po_name :: string
  po_auto_grant_up_to :: risk_level
  po_deny_critical :: bool
  po_denied_tools :: "string list"
  po_agent_scopes :: "(string \<times> string list) list"
  po_strict_agent_scopes :: bool
  po_approval_required_from :: "risk_level option"
  po_approval_ttl_s :: real

definition default_policy_rules :: policy where
  "default_policy_rules = \<lparr>po_name = ''default'', po_auto_grant_up_to = MEDIUM, po_deny_critical = False,
     po_denied_tools = [], po_agent_scopes = [], po_strict_agent_scopes = False,
     po_approval_required_from = None, po_approval_ttl_s = 900\<rparr>"

definition outside_scope :: "policy \<Rightarrow> string \<Rightarrow> string \<Rightarrow> bool" where
  "outside_scope po name agent =
     (case map_of (po_agent_scopes po) agent of None \<Rightarrow> False | Some scope \<Rightarrow> name \<notin> set scope)"

definition scopeless :: "policy \<Rightarrow> string \<Rightarrow> bool" where
  "scopeless po agent \<longleftrightarrow> po_strict_agent_scopes po \<and> po_agent_scopes po \<noteq> []
     \<and> map_of (po_agent_scopes po) agent = None"

definition evaluate :: "policy \<Rightarrow> risk_assessment \<Rightarrow> string \<Rightarrow> string \<Rightarrow> bool \<times> string" where
  "evaluate po ra name agent =
     (if name \<in> set (po_denied_tools po)
      then (False, ''tool '' @ repr_str name @ '' is denied by policy '' @ repr_str (po_name po))
      else if outside_scope po name agent
      then (False, ''tool '' @ repr_str name @ '' is outside agent '' @ repr_str agent @ '' scope'')
      else if scopeless po agent
      then (False, ''agent '' @ repr_str agent @ '' has no scope under strict policy ''
              @ repr_str (po_name po))
      else if po_deny_critical po \<and> ra_level ra = CRITICAL
      then (False, ''CRITICAL risk denied: '' @ join_str ''; '' (ra_factors ra))
      else if level_order (ra_level ra) \<le> level_order (po_auto_grant_up_to po)
      then (True, ''risk '' @ risk_value (ra_level ra) @ '' within '' @ repr_str (po_name po)
              @ '' grant band'')
      else (False, ''risk '' @ risk_value (ra_level ra) @ '' requires approval under ''
              @ repr_str (po_name po)))"

definition permit :: "string \<Rightarrow> string \<Rightarrow> tool_call \<Rightarrow> bool \<Rightarrow> string \<Rightarrow> permission" where
  "permit policy_name task_id call granted reason =
     \<lparr>pm_task_id = task_id, pm_tool_call_id = tc_id call,
      pm_decision = (if granted then PD_GRANTED else PD_DENIED), pm_reason = reason,
      pm_policy = policy_name, pm_approval_id = []\<rparr>"

section \<open>AuthorizationManager\<close>

record auth_manager =
  am_allow_shells :: bool
  am_policy :: policy
  am_policy_name :: string
  am_context :: risk_context
  am_wait_s :: real

definition new_auth_manager :: "bool \<Rightarrow> policy option \<Rightarrow> risk_context option \<Rightarrow> real \<Rightarrow> auth_manager" where
  "new_auth_manager allow_shells po ctx wait_s =
     (let po' = (case po of None \<Rightarrow> default_policy_rules | Some p \<Rightarrow> p) in
      \<lparr>am_allow_shells = allow_shells, am_policy = po', am_policy_name = po_name po',
       am_context = (case ctx of None \<Rightarrow> \<lparr>rc_agent_id = [], rc_environment = ''local'', rc_root = []\<rparr>
                     | Some c \<Rightarrow> c),
       am_wait_s = max 1 wait_s\<rparr>)"

definition needs_approval :: "auth_manager \<Rightarrow> tool \<Rightarrow> risk_level \<Rightarrow> bool" where
  "needs_approval am t level =
     (if tool_requires_approval t \<or> level = CRITICAL then True
      else case po_approval_required_from (am_policy am) of
        None \<Rightarrow> False | Some lowest \<Rightarrow> level_order lowest \<le> level_order level)"

definition hard_denied :: "policy \<Rightarrow> string \<Rightarrow> string \<Rightarrow> risk_level \<Rightarrow> bool" where
  "hard_denied po name agent level \<longleftrightarrow>
     name \<in> set (po_denied_tools po) \<or> scopeless po agent \<or> outside_scope po name agent
     \<or> po_deny_critical po \<and> level = CRITICAL"

text \<open>What the manager reads from outside: SHA-256, the clock, the next identifier, path
  resolution and the schema validator.\<close>

record auth_env =
  ae_sha :: sha
  ae_now :: real
  ae_new_id :: string
  ae_resolve :: resolver
  ae_schema :: "arguments \<Rightarrow> arguments \<Rightarrow> string list option"

definition approval_gate ::
  "auth_env \<Rightarrow> auth_manager \<Rightarrow> string \<Rightarrow> tool \<Rightarrow> tool_call \<Rightarrow> risk_assessment
     \<Rightarrow> approval_store option \<Rightarrow> permission result \<times> approval_store option" where
  "approval_gate env am task_id t call ra store =
     (case store of
        None \<Rightarrow> (Inr (permit (am_policy_name am) task_id call False (''tool '' @ repr_str (tool_name t)
                  @ '' requires human approval, but no approval store is configured'')), None)
      | Some st \<Rightarrow>
          let pname = po_name (am_policy am) in
          case find_valid (ae_sha env) (ae_now env) task_id (tool_name t) (tc_arguments call) pname st of
            (Some r, st1) \<Rightarrow>
              (Inr ((permit (am_policy_name am) task_id call True (''human-approved action ''
                  @ take 8 (ent_id r) @ '' ('' @ risk_value (ra_level ra) @ '' risk)''))
                  \<lparr>pm_approval_id := ent_id r\<rparr>), Some st1)
          | (None, st1) \<Rightarrow>
              (case ap_request (ae_sha env) (ae_now env) (ae_new_id env) task_id (tool_name t)
                  (tc_arguments call) (risk_value (ra_level ra))
                  (risk_value (ra_level ra) @ '' risk: '' @ join_str ''; '' (ra_factors ra))
                  pname (Some (po_approval_ttl_s (am_policy am))) st1 of
                 (Inl e, st2) \<Rightarrow> (Inl e, Some st2)
               | (Inr r, st2) \<Rightarrow>
                   (Inr ((permit (am_policy_name am) task_id call False (''waiting for human approval ''
                       @ take 8 (ent_id r) @ '' ('' @ risk_value (ra_level ra) @ '' risk)''))
                       \<lparr>pm_decision := PD_PENDING, pm_approval_id := ent_id r\<rparr>), Some st2)))"

definition effective_context :: "auth_manager \<Rightarrow> string \<Rightarrow> risk_context" where
  "effective_context am agent = (am_context am)
     \<lparr>rc_agent_id := (if agent = [] then rc_agent_id (am_context am) else agent)\<rparr>"

definition decide ::
  "auth_env \<Rightarrow> auth_manager \<Rightarrow> 'h registry \<Rightarrow> string \<Rightarrow> tool \<Rightarrow> tool_call \<Rightarrow> string
     \<Rightarrow> approval_store option \<Rightarrow> (tool \<times> permission) result \<times> approval_store option" where
  "decide env am rg task_id t call agent store =
     (case reg_get (tool_name t) rg of
        None \<Rightarrow> (Inr (t, permit (am_policy_name am) task_id call False
                  (''unknown tool '' @ repr_str (tool_name t))), store)
      | Some known \<Rightarrow>
          if tc_task_id call \<noteq> task_id
          then (Inr (known, permit (am_policy_name am) task_id call False
                  ''task_id mismatch between call and request''), store)
          else
            let problems = check_arguments (ae_schema env) known (tc_arguments call) in
            if problems \<noteq> [] then (Inl (DomainValidationError (join_str ''; '' problems)), store)
            else
              let ctx = effective_context am agent;
                  ra = assess (ae_resolve env) (am_allow_shells am) task_id known call ctx;
                  (granted, reason) = evaluate (am_policy am) ra (tool_name known) (rc_agent_id ctx)
              in if hard_denied (am_policy am) (tool_name known) (rc_agent_id ctx) (ra_level ra)
                 then (Inr (known, permit (am_policy_name am) task_id call False reason), store)
                 else if needs_approval am known (ra_level ra)
                 then (case approval_gate env am task_id known call ra store of
                         (Inl e, st) \<Rightarrow> (Inl e, st)
                       | (Inr p, st) \<Rightarrow> (Inr (known, p), st))
                 else (Inr (known, permit (am_policy_name am) task_id call granted reason), store))"

definition check_approval ::
  "auth_env \<Rightarrow> auth_manager \<Rightarrow> permission \<Rightarrow> tool \<Rightarrow> tool_call \<Rightarrow> approval_store option
     \<Rightarrow> bool \<times> approval_store option" where
  "check_approval env am p t call store =
     (case store of
        None \<Rightarrow> (False, None)
      | Some st \<Rightarrow>
          if pm_approval_id p = [] then (False, Some st)
          else let (ok, st') = ap_verify (ae_sha env) (ae_now env) (pm_approval_id p) (tool_name t)
                     (tc_arguments call) (po_name (am_policy am)) st in (ok, Some st'))"

definition authorize ::
  "auth_env \<Rightarrow> auth_manager \<Rightarrow> 'h registry \<Rightarrow> string \<Rightarrow> tool \<Rightarrow> tool_call
     \<Rightarrow> approval_store option \<Rightarrow> permission result \<times> approval_store option" where
  "authorize env am rg task_id t call store =
     (case decide env am rg task_id t call (rc_agent_id (am_context am)) store of
        (Inl e, st) \<Rightarrow> (Inl e, st) | (Inr (_, p), st) \<Rightarrow> (Inr p, st))"

definition enforce ::
  "auth_env \<Rightarrow> auth_manager \<Rightarrow> 'h registry \<Rightarrow> string \<Rightarrow> tool \<Rightarrow> tool_call \<Rightarrow> string
     \<Rightarrow> approval_store option \<Rightarrow> permission result \<times> approval_store option" where
  "enforce env am rg task_id t call agent store =
     (case decide env am rg task_id t call agent store of
        (Inl e, st) \<Rightarrow> (Inl e, st)
      | (Inr (_, p), st) \<Rightarrow>
          if pm_decision p \<noteq> PD_GRANTED
          then (Inl (AuthorizationDeniedError task_id
                  (case reg_get (tool_name t) rg of None \<Rightarrow> tool_name t | Some k \<Rightarrow> tool_name k)
                  (pm_reason p)), st)
          else (Inr p, st))"

text \<open>
  \<open>await_approval\<close> polls the store until the request is decided or a deadline passes. What the
  loop observes is a list with one entry per turn: the monotonic clock, the cancellation flag,
  the wall clock, and the operations other threads performed on the store since the turn before.
  A list that ends before the loop does gives no result.
\<close>

definition with_decision :: "permission_decision \<Rightarrow> string \<Rightarrow> permission \<Rightarrow> permission" where
  "with_decision d reason p = p\<lparr>pm_decision := d, pm_reason := reason\<rparr>"

type_synonym poll = "real \<times> bool \<times> real \<times> ap_op list"

fun await_loop ::
  "sha \<Rightarrow> real \<Rightarrow> poll list \<Rightarrow> permission \<Rightarrow> approval_store \<Rightarrow> (permission \<times> approval_store) option" where
  "await_loop sha deadline [] p st = None"
| "await_loop sha deadline ((mono_now, cancelled, now, ops) # polls) p st =
     (let st0 = ap_run sha ops st in
      if deadline \<le> mono_now
      then Some (with_decision PD_DENIED (pm_reason p @ '' (approval wait timed out)'') p, st0)
      else if cancelled
      then Some (with_decision PD_DENIED (pm_reason p @ '' (task cancelled while awaiting approval)'') p, st0)
      else
        let st1 = snd (sweep_expired now st0) in
        case ap_load (pm_approval_id p) st1 of
          None \<Rightarrow> Some (with_decision PD_DENIED (pm_reason p @ '' (approval wait timed out)'') p, st1)
        | Some r \<Rightarrow>
            if ar_status r = AP_APPROVED
            then Some (with_decision PD_GRANTED (''human approved action '' @ take 8 (ent_id r)) p, st1)
            else if ar_status r \<in> {AP_DENIED, AP_EXPIRED}
            then Some (with_decision PD_DENIED (''human '' @ lower_str (approval_value (ar_status r))
                    @ '' action '' @ take 8 (ent_id r)) p, st1)
            else await_loop sha deadline polls p st1)"

definition await_approval ::
  "sha \<Rightarrow> auth_manager \<Rightarrow> real \<Rightarrow> real option \<Rightarrow> poll list \<Rightarrow> permission \<Rightarrow> approval_store option
     \<Rightarrow> (permission \<times> approval_store option) option" where
  "await_approval sha am start timeout_s polls p store =
     (if pm_decision p \<noteq> PD_PENDING then Some (p, store)
      else case store of
        None \<Rightarrow> Some (with_decision PD_DENIED (pm_reason p @ '' (no approval store to wait on)'') p, None)
      | Some st \<Rightarrow>
          if pm_approval_id p = []
          then Some (with_decision PD_DENIED (pm_reason p @ '' (no approval store to wait on)'') p, store)
          else
            let deadline = start + min (max 1 (case timeout_s of None \<Rightarrow> am_wait_s am | Some t \<Rightarrow> t)) 3600
            in map_option (apsnd Some) (await_loop sha deadline polls p st))"

subsection \<open>What a grant means\<close>

lemma evaluate_granted:
  "fst (evaluate po ra name agent) \<longleftrightarrow> \<not> hard_denied po name agent (ra_level ra)
     \<and> ra_level ra \<le> po_auto_grant_up_to po"
  by (auto simp: evaluate_def hard_denied_def less_eq_risk_level_def)

lemma permit_granted [simp]: "pm_decision (permit n tid call g r) = PD_GRANTED \<longleftrightarrow> g"
  by (simp add: permit_def)

lemma find_valid_loop_Some:
  assumes "ap_wf st" "find_valid_loop sha now tid tool args policy rs st = (Some r, st')"
  obtains "r \<in> set rs" "ar_task_id r = tid" "ar_tool r = tool"
    "\<exists>s. ap_load (ent_id r) st = Some s \<and> ar_status s = AP_APPROVED \<and> ar_tool s = tool
       \<and> ar_hash s = approval_hash sha tool args policy"
  using assms
proof (induction rs arbitrary: st thesis)
  case (Cons x rs)
  obtain b s1 where v: "ap_verify sha now (ent_id x) tool args policy st = (b, s1)" by fastforce
  have e: "expires now st s1" using expires_verify [OF Cons.prems(2)] v by (metis snd_conv)
  consider (skip) "ar_task_id x \<noteq> tid \<or> ar_tool x \<noteq> tool"
    | (hit) "\<not> (ar_task_id x \<noteq> tid \<or> ar_tool x \<noteq> tool)" b
    | (miss) "\<not> (ar_task_id x \<noteq> tid \<or> ar_tool x \<noteq> tool)" "\<not> b" by blast
  then show ?case
  proof cases
    case skip
    then have "find_valid_loop sha now tid tool args policy rs st = (Some r, st')"
      using Cons.prems(3) by simp
    from Cons.IH [OF _ Cons.prems(2) this] Cons.prems(1) show ?thesis by (metis list.set_intros(2))
  next
    case hit
    with Cons.prems(3) v have r: "r = x" by simp
    from hit v have "fst (ap_verify sha now (ent_id x) tool args policy st)" by simp
    then obtain s where "ap_load (ent_id r) st = Some s" "ar_status s = AP_APPROVED"
      "ar_tool s = tool" "ar_hash s = approval_hash sha tool args policy"
      unfolding r by (rule ap_verify_True)
    with hit(1) r show ?thesis by (intro Cons.prems(1)) auto
  next
    case miss
    with Cons.prems(3) v have "find_valid_loop sha now tid tool args policy rs s1 = (Some r, st')"
      by simp
    from Cons.IH [OF _ expires_wf [OF e] this] obtain s where
      s: "r \<in> set rs" "ar_task_id r = tid" "ar_tool r = tool" "ap_load (ent_id r) s1 = Some s"
      "ar_status s = AP_APPROVED" "ar_tool s = tool" "ar_hash s = approval_hash sha tool args policy"
      by blast
    have "ap_load (ent_id r) st = Some s"
      using expires_back [OF e s(4)] s(5) by (auto simp: mark_expired_def touch_def)
    with s show ?thesis by (intro Cons.prems(1)) auto
  qed
qed simp

text \<open>What \<open>find_valid\<close> returns is approved in the store it searched, for this task, tool and hash.\<close>

lemma find_valid_Some:
  assumes wf: "ap_wf st" and f: "find_valid sha now tid tool args policy st = (Some r, st')"
  shows "ap_load (ent_id r) st = Some r \<and> ar_status r = AP_APPROVED \<and> ar_task_id r = tid
    \<and> ar_tool r = tool \<and> ar_hash r = approval_hash sha tool args policy"
proof -
  obtain s where s: "r \<in> set (ap_items st)" "ar_task_id r = tid"
    "ap_load (ent_id r) st = Some s" "ar_status s = AP_APPROVED" "ar_tool s = tool"
    "ar_hash s = approval_hash sha tool args policy"
    using find_valid_loop_Some [OF wf f [unfolded find_valid_def]] by blast
  have "ap_load (ent_id r) st = Some r" using approvals.mem_items [OF wf] s(1) by simp
  with s show ?thesis by simp
qed

lemma approval_gate_granted:
  assumes "approval_gate env am tid t call ra store = (Inr p, store')" "pm_decision p = PD_GRANTED"
  obtains st r st1 where "store = Some st" "find_valid (ae_sha env) (ae_now env) tid (tool_name t)
      (tc_arguments call) (po_name (am_policy am)) st = (Some r, st1)" "pm_approval_id p = ent_id r"
  using assms by (auto simp: approval_gate_def Let_def permit_def
      split: option.splits prod.splits sum.splits)

text \<open>Everything \<open>decide\<close> checked before it granted.\<close>

lemma decide_granted:
  fixes am :: auth_manager
  assumes "decide env am rg tid t call agent store = (Inr (known, p), store')"
    and "pm_decision p = PD_GRANTED"
  defines "ctx \<equiv> effective_context am agent"
    and "level \<equiv> ra_level (assess (ae_resolve env) (am_allow_shells am) tid known call
           (effective_context am agent))"
  shows "reg_get (tool_name t) rg = Some known \<and> tc_task_id call = tid
    \<and> check_arguments (ae_schema env) known (tc_arguments call) = []
    \<and> \<not> hard_denied (am_policy am) (tool_name known) (rc_agent_id ctx) level
    \<and> (if needs_approval am known level
       then \<exists>ra. approval_gate env am tid known call ra store = (Inr p, store')
       else level \<le> po_auto_grant_up_to (am_policy am) \<and> store' = store)"
proof -
  let ?ra = "assess (ae_resolve env) (am_allow_shells am) tid known call (effective_context am agent)"
  from assms(1,2) have k: "reg_get (tool_name t) rg = Some known"
    by (auto simp: decide_def Let_def split: option.splits if_splits prod.splits sum.splits)
  obtain g reason where e: "evaluate (am_policy am) ?ra (tool_name known)
      (rc_agent_id (effective_context am agent)) = (g, reason)" by fastforce
  from assms(1,2) k have ok: "tc_task_id call = tid"
    "check_arguments (ae_schema env) known (tc_arguments call) = []"
    by (auto simp: decide_def Let_def split: if_splits)
  from assms(1,2) k ok e have
    "\<not> hard_denied (am_policy am) (tool_name known) (rc_agent_id ctx) level"
    by (auto simp: decide_def Let_def ctx_def level_def split: if_splits)
  moreover have "if needs_approval am known level
       then \<exists>ra. approval_gate env am tid known call ra store = (Inr p, store')
       else level \<le> po_auto_grant_up_to (am_policy am) \<and> store' = store"
  proof (cases "needs_approval am known level")
    case True
    with assms(1) k ok e calculation have "approval_gate env am tid known call ?ra store = (Inr p, store')"
      by (simp add: decide_def Let_def ctx_def level_def split: prod.splits sum.splits)
    with True show ?thesis by auto
  next
    case False
    with assms(1) k ok e calculation have "p = permit (am_policy_name am) tid call g reason" "store' = store"
      by (simp_all add: decide_def Let_def ctx_def level_def)
    moreover from this assms(2) have g by simp
    with e evaluate_granted have "level \<le> po_auto_grant_up_to (am_policy am)"
      unfolding level_def by (metis fst_conv)
    ultimately show ?thesis using False by simp
  qed
  ultimately show ?thesis using k ok by blast
qed

subsection \<open>Properties\<close>

text \<open>A store that some run of its public operations produced, or no store.\<close>

definition run_store :: "sha \<Rightarrow> ap_op list \<Rightarrow> approval_store option \<Rightarrow> bool" where
  "run_store sha ops store = (case store of None \<Rightarrow> True
     | Some st \<Rightarrow> \<exists>has_repo ttl st0. new_approval_store has_repo ttl = Inr st0
         \<and> fresh_run sha ops st0 \<and> st = ap_run sha ops st0)"

lemma run_store_inv: "run_store sha ops (Some st) \<Longrightarrow> store_inv sha (rev ops) st"
proof -
  assume "run_store sha ops (Some st)"
  then obtain has_repo ttl st0 where new: "new_approval_store has_repo ttl = Inr st0"
    and uuid: "fresh_run sha ops st0" and st: "st = ap_run sha ops st0"
    by (auto simp: run_store_def)
  have "store_inv sha [] st0"
    using new by (auto simp: new_approval_store_def store_inv_def ap_wf_def wf_table_def
        ap_load_def tbl_get_def split: if_splits)
  from store_inv_run [OF uuid this] show ?thesis by (simp add: st)
qed

text \<open>
  C6: What an immediate grant means, against an approval store any run produced: the tool is
  registered, the call belongs to the task, its arguments pass the contract, the policy does not
  forbid the tool to the agent; and when the tool demands approval, the risk is \<open>CRITICAL\<close> or at
  the policy's approval level, then a person decided to approve a request with the grant's
  identifier in that run, and that request is for this task, this tool, and a hash of exactly
  these arguments under this policy; otherwise the risk lies in the band the policy grants.
\<close>

theorem grant_is_justified:
  fixes am :: auth_manager
  assumes "run_store (ae_sha env) ops store"
    and "decide env am rg tid t call agent store = (Inr (known, p), store')"
    and "pm_decision p = PD_GRANTED"
  shows "let ctx = effective_context am agent;
             level = ra_level (assess (ae_resolve env) (am_allow_shells am) tid known call ctx)
    in reg_get (tool_name t) rg = Some known \<and> tc_task_id call = tid
      \<and> check_arguments (ae_schema env) known (tc_arguments call) = []
      \<and> tool_name known \<notin> set (po_denied_tools (am_policy am))
      \<and> \<not> outside_scope (am_policy am) (tool_name known) (rc_agent_id ctx)
      \<and> (if tool_requires_approval known \<or> level = CRITICAL
            \<or> (\<exists>l. po_approval_required_from (am_policy am) = Some l \<and> l \<le> level)
         then \<exists>st r when who. store = Some st \<and> ap_load (pm_approval_id p) st = Some r
            \<and> ar_status r = AP_APPROVED \<and> Op_Decide when (pm_approval_id p) True who \<in> set ops
            \<and> ar_task_id r = tid \<and> ar_tool r = tool_name known
            \<and> ar_hash r = approval_hash (ae_sha env) (tool_name known) (tc_arguments call)
                (po_name (am_policy am))
         else level \<le> po_auto_grant_up_to (am_policy am))"
proof -
  define ctx where "ctx = effective_context am agent"
  define level where "level = ra_level (assess (ae_resolve env) (am_allow_shells am) tid known call ctx)"
  note d = decide_granted [OF assms(2,3), folded ctx_def, folded level_def]
  have na: "needs_approval am known level \<longleftrightarrow> tool_requires_approval known \<or> level = CRITICAL
      \<or> (\<exists>l. po_approval_required_from (am_policy am) = Some l \<and> l \<le> level)"
    by (auto simp: needs_approval_def less_eq_risk_level_def split: option.split)
  have "\<exists>st r when who. store = Some st \<and> ap_load (pm_approval_id p) st = Some r
            \<and> ar_status r = AP_APPROVED \<and> Op_Decide when (pm_approval_id p) True who \<in> set ops
            \<and> ar_task_id r = tid \<and> ar_tool r = tool_name known
            \<and> ar_hash r = approval_hash (ae_sha env) (tool_name known) (tc_arguments call)
                (po_name (am_policy am))" if n: "needs_approval am known level"
  proof -
    from d n obtain ra where "approval_gate env am tid known call ra store = (Inr p, store')" by auto
    then obtain st r st1 where st: "store = Some st" and f: "find_valid (ae_sha env) (ae_now env) tid
        (tool_name known) (tc_arguments call) (po_name (am_policy am)) st = (Some r, st1)"
      and id: "pm_approval_id p = ent_id r"
      using assms(3) by (rule approval_gate_granted)
    have inv: "store_inv (ae_sha env) (rev ops) st" using assms(1) st run_store_inv by blast
    then have wf: "ap_wf st" by (simp add: store_inv_def)
    note v = find_valid_Some [OF wf f]
    with inv have "request_inv (ae_sha env) (rev ops) r" by (auto simp: store_inv_def)
    with v obtain at_time who where "Op_Decide at_time (ent_id r) True who \<in> set ops"
      unfolding request_inv_def by auto
    with v st id show ?thesis by auto
  qed
  with d na show ?thesis
    unfolding Let_def ctx_def [symmetric] level_def [symmetric]
    by (simp add: hard_denied_def)
qed

definition demo_manager :: auth_manager where
  "demo_manager = new_auth_manager False None None 300"

definition demo_env :: "real \<Rightarrow> auth_env" where
  "demo_env now = \<lparr>ae_sha = id, ae_now = now, ae_new_id = ''r1'', ae_resolve = (\<lambda>p. [p]),
     ae_schema = (\<lambda>_ _. Some [])\<rparr>"

definition demo_ops :: "ap_op list" where
  "demo_ops = [Op_Request 0 ''r1'' ''t1'' ''terminal.execute'' (tc_arguments shell_call)
     ''CRITICAL'' [] ''default'' None, Op_Decide 1 ''r1'' True ''operator'']"

definition demo_store :: approval_store where
  "demo_store = ap_run id demo_ops \<lparr>as_has_repo = True, as_table = [], as_default_ttl = 900\<rparr>"

definition demo_registry :: "unit registry" where
  "demo_registry = \<lparr>rg_tools = [(''terminal.execute'', shell_tool)],
     rg_handlers = [(''terminal.execute'', ())], rg_guards = []\<rparr>"

definition demo_grant :: "(tool \<times> permission) result" where
  "demo_grant = fst (decide (demo_env 2) demo_manager demo_registry ''t1'' shell_tool shell_call ''a''
     (Some demo_store))"

lemma grant_is_justified_witness:
  "\<exists>p when who. demo_grant = Inr (shell_tool, p) \<and> pm_decision p = PD_GRANTED
     \<and> Op_Decide when (pm_approval_id p) True who \<in> set demo_ops"
proof -
  have "case demo_grant of Inl e \<Rightarrow> False
    | Inr (k, p) \<Rightarrow> k = shell_tool \<and> pm_decision p = PD_GRANTED" by code_simp
  then obtain p where g: "demo_grant = Inr (shell_tool, p)" "pm_decision p = PD_GRANTED"
    by (auto split: sum.splits)
  obtain r store' where d: "decide (demo_env 2) demo_manager demo_registry ''t1'' shell_tool shell_call
      ''a'' (Some demo_store) = (r, store')" by fastforce
  with g have r: "r = Inr (shell_tool, p)" by (simp add: demo_grant_def)
  have "fresh_run id demo_ops \<lparr>as_has_repo = True, as_table = [], as_default_ttl = 900\<rparr>" by code_simp
  moreover have "new_approval_store True 900
      = Inr \<lparr>as_has_repo = True, as_table = [], as_default_ttl = 900\<rparr>"
    by (simp add: new_approval_store_def)
  ultimately have rs: "run_store (ae_sha (demo_env 2)) demo_ops (Some demo_store)"
    unfolding run_store_def demo_store_def by (auto simp: demo_env_def)
  have "ra_level (assess (ae_resolve (demo_env 2)) (am_allow_shells demo_manager) ''t1'' shell_tool
      shell_call (effective_context demo_manager ''a'')) = CRITICAL" by code_simp
  with grant_is_justified [OF rs d [unfolded r] g(2)] g show ?thesis
    unfolding Let_def by auto
qed

text \<open>The counterpart: a denial that speaks of approval when nobody is asked.\<close>

lemma band_denial_never_asks:
  fixes am :: auth_manager
  assumes "reg_get (tool_name t) rg = Some known" "tc_task_id call = tid"
    and "check_arguments (ae_schema env) known (tc_arguments call) = []"
    and "am_policy am = default_policy_rules" "\<not> tool_requires_approval known"
    and "ra_level (assess (ae_resolve env) (am_allow_shells am) tid known call
           (effective_context am agent)) = HIGH"
  shows "decide env am rg tid t call agent store = (Inr (known, permit (am_policy_name am) tid call False
    (''risk HIGH requires approval under '' @ repr_str ''default'')), store)"
  using assms by (simp add: decide_def evaluate_def hard_denied_def outside_scope_def scopeless_def
      needs_approval_def default_policy_rules_def Let_def)

lemma with_decision_simps [simp]:
  "pm_decision (with_decision d r p) = d" "pm_approval_id (with_decision d r p) = pm_approval_id p"
  by (simp_all add: with_decision_def)

lemma await_loop_result:
  "await_loop sha deadline polls p st = Some (p', st') \<Longrightarrow> pm_decision p = PD_PENDING \<Longrightarrow>
     pm_approval_id p' = pm_approval_id p
   \<and> (pm_decision p' = PD_DENIED
      \<or> pm_decision p' = PD_GRANTED \<and> (\<exists>r. ap_load (pm_approval_id p) st' = Some r
          \<and> ar_status r = AP_APPROVED)
        \<and> (\<exists>mono_now now ops. (mono_now, False, now, ops) \<in> set polls \<and> mono_now < deadline))"
proof (induction polls arbitrary: st)
  case (Cons poll polls)
  obtain mono_now c now ops where poll: "poll = (mono_now, c, now, ops)" by (cases poll)
  show ?case
  proof (cases "mono_now < deadline \<and> \<not> c")
    case False
    with Cons.prems(1) show ?thesis unfolding poll by (auto simp: Let_def split: if_splits)
  next
    case True
    let ?s1 = "snd (sweep_expired now (ap_run sha ops st))"
    show ?thesis
    proof (cases "ap_load (pm_approval_id p) ?s1")
      case None
      with True Cons.prems(1) show ?thesis unfolding poll by (auto simp: Let_def)
    next
      case (Some r)
      then show ?thesis
        using True Cons.prems Cons.IH [of ?s1] unfolding poll
        by (cases "ar_status r") (auto simp: Let_def)
    qed
  qed
qed simp

lemma await_loop_returns:
  "\<exists>poll \<in> set polls. deadline \<le> fst poll \<Longrightarrow> \<exists>res. await_loop sha deadline polls p st = Some res"
proof (induction polls arbitrary: st)
  case (Cons poll polls)
  obtain mono_now c now ops where poll: "poll = (mono_now, c, now, ops)" by (cases poll)
  show ?case
  proof (cases "deadline \<le> mono_now")
    case True
    then show ?thesis by (simp add: poll Let_def)
  next
    case False
    with Cons.prems have "\<exists>poll \<in> set polls. deadline \<le> fst poll" by (auto simp: poll)
    note IH = Cons.IH [OF this]
    show ?thesis unfolding poll await_loop.simps Let_def using IH
      by (auto split: option.split)
  qed
qed simp

text \<open>
  Waiting for a person never invents a grant and never waits for ever. A pending permission
  comes back decided, under the same approval identifier; it is granted only if the request it
  waits on is approved in the store at that moment and the task was not cancelled at the turn
  that saw it, within an hour of the start; and the wait is over at the latest at the first turn
  past the deadline, whatever the operators do.
\<close>

theorem await_is_sound_and_ends:
  assumes "pm_decision p = PD_PENDING" "pm_approval_id p \<noteq> []"
  shows "(\<forall>p' store'. await_approval sha am start timeout_s polls p (Some st) = Some (p', store') \<longrightarrow>
       pm_decision p' \<noteq> PD_PENDING \<and> pm_approval_id p' = pm_approval_id p
     \<and> (pm_decision p' = PD_GRANTED \<longrightarrow>
          (\<exists>st' r. store' = Some st' \<and> ap_load (pm_approval_id p) st' = Some r
             \<and> ar_status r = AP_APPROVED)
        \<and> (\<exists>mono_now now ops. (mono_now, False, now, ops) \<in> set polls \<and> mono_now < start + 3600)))
   \<and> ((\<exists>poll \<in> set polls. start + 3600 \<le> fst poll) \<longrightarrow>
        (\<exists>res. await_approval sha am start timeout_s polls p (Some st) = Some res))"
proof -
  define wait where "wait = min (max 1 (case timeout_s of None \<Rightarrow> am_wait_s am | Some t \<Rightarrow> t)) (3600::real)"
  have le: "start + wait \<le> start + 3600" by (simp add: wait_def)
  have eq: "await_approval sha am start timeout_s polls p (Some st)
      = map_option (apsnd Some) (await_loop sha (start + wait) polls p st)"
    using assms by (simp add: await_approval_def wait_def)
  have "pm_decision p' \<noteq> PD_PENDING \<and> pm_approval_id p' = pm_approval_id p
     \<and> (pm_decision p' = PD_GRANTED \<longrightarrow>
          (\<exists>st' r. store' = Some st' \<and> ap_load (pm_approval_id p) st' = Some r
             \<and> ar_status r = AP_APPROVED)
        \<and> (\<exists>mono_now now ops. (mono_now, False, now, ops) \<in> set polls \<and> mono_now < start + 3600))"
    if res: "await_approval sha am start timeout_s polls p (Some st) = Some (p', store')" for p' store'
  proof -
    from res obtain st' where l: "await_loop sha (start + wait) polls p st = Some (p', st')"
      and st': "store' = Some st'" by (auto simp: eq)
    note r = await_loop_result [OF l assms(1)]
    show ?thesis
    proof (cases "pm_decision p' = PD_GRANTED")
      case True
      with r obtain mono_now now ops where m: "(mono_now, False, now, ops) \<in> set polls"
        "mono_now < start + wait" by auto
      from m(2) le have "mono_now < start + 3600" by linarith
      with m(1) True r st' show ?thesis by auto
    qed (use r in auto)
  qed
  moreover have "\<exists>res. await_approval sha am start timeout_s polls p (Some st) = Some res"
    if "\<exists>poll \<in> set polls. start + 3600 \<le> fst poll"
    using that le await_loop_returns [of polls "start + wait" sha p st] unfolding eq
    by (metis map_option_is_None not_Some_eq order_trans)
  ultimately show ?thesis by blast
qed

lemma await_is_sound_and_ends_witness:
  "\<exists>res. await_approval id demo_manager 0 None [(1, False, 1, []), (4000, False, 4000, [])]
     (with_decision PD_PENDING [] (permit ''default'' ''t1'' shell_call False [])\<lparr>pm_approval_id := ''r1''\<rparr>)
     (Some demo_store) = Some res"
proof -
  let ?p = "with_decision PD_PENDING [] (permit ''default'' ''t1'' shell_call False [])\<lparr>pm_approval_id := ''r1''\<rparr>"
  have "pm_decision ?p = PD_PENDING" "pm_approval_id ?p \<noteq> []" by simp_all
  moreover have "\<exists>poll \<in> set [(1::real, False, 1::real, []::ap_op list), (4000, False, 4000, [])].
      0 + 3600 \<le> fst poll" by simp
  ultimately show ?thesis by (blast dest: await_is_sound_and_ends)
qed

end
