(* ===== verification/Ledger.thy ===== *)
theory Ledger
  imports Store Domain
begin

text \<open>
  The durable execution ledger (\<^verbatim>\<open>tools/registry/execution_ledger.py\<close>): one row per semantic
  action, keyed by the hash of its canonical text. The table is the association list of its
  rows; \<open>INSERT OR IGNORE\<close> and \<open>UPDATE ... WHERE\<close> are written out. \<open>sha\<close> is SHA-256 in
  hexadecimal, an argument; every operation is one statement of the database.
\<close>

datatype execution_state =
    EX_PLANNED | EX_AUTHORIZED | EX_STARTED | EX_EXECUTING | EX_COMPLETED | EX_FAILED
  | EX_CANCELLED | EX_UNKNOWN

fun execution_value :: "execution_state \<Rightarrow> string" where
  "execution_value EX_PLANNED = ''PLANNED''"
| "execution_value EX_AUTHORIZED = ''AUTHORIZED''"
| "execution_value EX_STARTED = ''STARTED''"
| "execution_value EX_EXECUTING = ''EXECUTING''"
| "execution_value EX_COMPLETED = ''COMPLETED''"
| "execution_value EX_FAILED = ''FAILED''"
| "execution_value EX_CANCELLED = ''CANCELLED''"
| "execution_value EX_UNKNOWN = ''UNKNOWN''"

record execution_record =
  er_hash :: string
  er_task_id :: string
  er_tool :: string
  er_state :: execution_state
  er_attempt :: nat
  er_created :: real
  er_updated :: real
  er_result_hash :: string

type_synonym ledger = "(string \<times> execution_record) list"

definition action_body :: "string \<Rightarrow> string \<Rightarrow> arguments \<Rightarrow> string" where
  "action_body task_id tname args = canonical (JObj [(''task_id'', JStr task_id),
     (''tool'', JStr tname), (''arguments'', JObj args)])"

definition action_hash :: "(string \<Rightarrow> string) \<Rightarrow> string \<Rightarrow> string \<Rightarrow> arguments \<Rightarrow> string" where
  "action_hash sha task_id tname args = sha (action_body task_id tname args)"

definition led_get :: "string \<Rightarrow> ledger \<Rightarrow> execution_record option" where
  "led_get digest l = map_of l digest"

text \<open>\<open>UPDATE ... WHERE action_hash = ?\<close>: the row that is there changes, a missing one stays missing.\<close>

definition led_update :: "string \<Rightarrow> (execution_record \<Rightarrow> execution_record) \<Rightarrow> ledger \<Rightarrow> ledger" where
  "led_update digest f l = map (\<lambda>(k, r). (k, if k = digest then f r else r)) l"

text \<open>\<open>INSERT OR IGNORE\<close>.\<close>

definition led_insert :: "execution_record \<Rightarrow> ledger \<Rightarrow> ledger" where
  "led_insert r l = (if er_hash r \<in> set (keys l) then l else l @ [(er_hash r, r)])"

definition in_flight :: "execution_state list" where
  "in_flight = [EX_STARTED, EX_EXECUTING, EX_AUTHORIZED]"

definition led_begin ::
  "(string \<Rightarrow> string) \<Rightarrow> real \<Rightarrow> string \<Rightarrow> string \<Rightarrow> arguments \<Rightarrow> ledger \<Rightarrow> execution_record \<times> ledger" where
  "led_begin sha now task_id tname args l =
     (let digest = action_hash sha task_id tname args in
      case led_get digest l of
        Some r \<Rightarrow>
          if er_state r \<in> {EX_COMPLETED, EX_STARTED, EX_EXECUTING, EX_AUTHORIZED, EX_UNKNOWN}
          then (r, l)
          else
            let again = (\<lambda>r. r\<lparr>er_state := EX_STARTED, er_attempt := Suc (er_attempt r),
                              er_updated := now, er_result_hash := []\<rparr>)
            in (again r, led_update digest again l)
      | None \<Rightarrow>
          let r = \<lparr>er_hash = digest, er_task_id = task_id, er_tool = tname, er_state = EX_STARTED,
                   er_attempt = 1, er_created = now, er_updated = now, er_result_hash = []\<rparr>;
              l' = led_insert r l
          in (case led_get digest l' of None \<Rightarrow> r | Some s \<Rightarrow> s, l'))"

definition led_transition :: "real \<Rightarrow> string \<Rightarrow> execution_state \<Rightarrow> string \<Rightarrow> ledger \<Rightarrow> ledger" where
  "led_transition now digest s result_hash l =
     led_update digest (\<lambda>r. r\<lparr>er_state := s, er_updated := now, er_result_hash := result_hash\<rparr>) l"

definition recover_unknowns :: "real \<Rightarrow> ledger \<Rightarrow> nat \<times> ledger" where
  "recover_unknowns now l =
     (let rows = map fst (filter (\<lambda>(k, r). er_state r \<in> set in_flight) l)
      in (length rows, fold (\<lambda>digest l. led_transition now digest EX_UNKNOWN [] l) rows l))"

subsection \<open>Rows are never lost and stay one per action\<close>

lemma led_update_get:
  "led_get k (led_update digest f l) = (if k = digest then map_option f (led_get k l) else led_get k l)"
  by (induction l) (auto simp: led_get_def led_update_def)

lemma keys_led_update [simp]: "keys (led_update digest f l) = keys l"
  by (induction l) (auto simp: led_update_def)

lemma keys_led_transition [simp]: "keys (led_transition now digest s h l) = keys l"
  by (simp add: led_transition_def)

lemma led_get_None: "led_get digest l = None \<longleftrightarrow> digest \<notin> fst ` set l"
  by (simp add: led_get_def map_of_eq_None_iff)

lemma led_keys_set [simp]:
  "fst ` set (led_update digest f l) = fst ` set l"
  "fst ` set (led_insert r l) = insert (er_hash r) (fst ` set l)"
  by (force simp: led_update_def led_insert_def image_iff)+

lemma led_begin_new:
  assumes "led_get (action_hash sha tid n args) l = None"
  shows "snd (led_begin sha now tid n args l) = l @ [(action_hash sha tid n args,
       \<lparr>er_hash = action_hash sha tid n args, er_task_id = tid, er_tool = n, er_state = EX_STARTED,
        er_attempt = 1, er_created = now, er_updated = now, er_result_hash = []\<rparr>)]"
proof -
  have ins: "led_insert r l = l @ [(er_hash r, r)]" if "er_hash r \<notin> fst ` set l" for r
    using that by (simp add: led_insert_def)
  have "action_hash sha tid n args \<notin> fst ` set l" using assms by (simp add: led_get_None)
  then show ?thesis
    unfolding led_begin_def Let_def assms by (subst ins) (simp_all add: split_beta)
qed

lemma keys_led_begin:
  "fst ` set (snd (led_begin sha now tid n args l)) = insert (action_hash sha tid n args) (fst ` set l)"
proof (cases "led_get (action_hash sha tid n args) l")
  case (Some r)
  then have mem: "action_hash sha tid n args \<in> fst ` set l"
    by (metis led_get_None option.distinct(1))
  have "fst ` set (snd (led_begin sha now tid n args l)) = fst ` set l"
    by (simp add: led_begin_def Let_def Some)
  with mem show ?thesis by blast
qed (simp add: led_begin_new)

lemma distinct_led_begin:
  assumes "distinct (keys l)"
  shows "distinct (keys (snd (led_begin sha now tid n args l)))"
proof (cases "led_get (action_hash sha tid n args) l")
  case None
  then have "action_hash sha tid n args \<notin> fst ` set l" by (simp add: led_get_None)
  with assms show ?thesis by (simp add: led_begin_new [OF None])
next
  case (Some r)
  with assms show ?thesis by (simp add: led_begin_def Let_def)
qed

lemma keys_recover [simp]: "keys (snd (recover_unknowns now l)) = keys l"
proof -
  have "keys (fold (\<lambda>digest l. led_transition now digest EX_UNKNOWN [] l) ds l) = keys l" for ds
    by (induction ds arbitrary: l) simp_all
  then show ?thesis by (simp add: recover_unknowns_def Let_def)
qed

end
