(* ===== verification/Runner.thy ===== *)
theory Runner
  imports Ledger Registry Secrets
begin

text \<open>
  The tool runner (\<^verbatim>\<open>tools/registry/runner.py\<close>): validation, authorization, durable identity,
  execution. The authorizer is the interface the code declares as a protocol, its two optional
  methods as options; a handler is known by what calling it does. Everything \<open>run\<close> reads from
  outside while it runs is its environment: the registry at the start and again when the
  handler is fetched, the three readings of the cancellation flag, the clock, and what the
  sandbox returns. \<open>rn_runs\<close> logs the invocations of handlers.
  Databases and the bus do not fail here; strings are the bytes of their UTF-8 form.
\<close>

subsection \<open>Texts\<close>

fun exn_text :: "(real \<Rightarrow> string) \<Rightarrow> exn \<Rightarrow> string" where
  "exn_text fl (DomainValidationError m) = m"
| "exn_text fl (InvalidStateTransitionError a b) = ''invalid transition: '' @ a @ '' -> '' @ b"
| "exn_text fl (ContextSerializationError m) = m"
| "exn_text fl (EventBusError m) = m"
| "exn_text fl (PersistenceError m) = m"
| "exn_text fl (ResourceNotFoundError k i) = k @ '' '' @ repr_str i @ '' not found''"
| "exn_text fl (ModelError m) = m"
| "exn_text fl (ToolExecutionError t m) = ''tool '' @ repr_str t @ '' failed: '' @ m"
| "exn_text fl (ToolTimeoutError t s) =
     ''tool '' @ repr_str t @ '' failed: timed out after '' @ fl s @ ''s''"
| "exn_text fl (AuthorizationDeniedError tid t r) =
     ''denied '' @ repr_str t @ '' for task '' @ repr_str tid @ '': '' @ r"
| "exn_text fl (PlanValidationError m) = m"
| "exn_text fl (CircuitOpenError m) = m"
| "exn_text fl (ConnectionError m) = m"
| "exn_text fl (OtherException m) = m"

definition safe_payload :: "arguments \<Rightarrow> arguments" where
  "safe_payload args = redact args"

definition safe_error :: "string \<Rightarrow> string" where
  "safe_error e = (if search_secret e then ''***'' else e)"

definition safe_output_snippet :: "json \<Rightarrow> string" where
  "safe_output_snippet output =
     (if output = JNull then []
      else
        let out = (case output of JObj ms \<Rightarrow> JObj (redact ms) | v \<Rightarrow> v);
            text = (case out of JStr s \<Rightarrow> s | v \<Rightarrow> repr_json v)
        in if search_secret text then ''***''
           else if length text \<le> 500 then text
           else take 500 text @ [CHR 0xE2, CHR 0x80, CHR 0xA6] @ '' [''
                  @ int_text (int (length text) - 500) @ '' more chars]'')"

subsection \<open>The runner's collaborators\<close>

record sandbox_profile =
  sp_name :: string
  sp_fs_root :: string
  sp_allow_network :: bool
  sp_allowed_env :: "string list"
  sp_timeout_s :: real
  sp_max_memory_mb :: int
  sp_max_disk_mb :: int
  sp_max_cpu_s :: real
  sp_max_processes :: int

definition terminal_profile :: "tool \<Rightarrow> sandbox_profile" where
  "terminal_profile t = \<lparr>sp_name = ''terminal'', sp_fs_root = [], sp_allow_network = False,
     sp_allowed_env = [], sp_timeout_s = tool_timeout_s t, sp_max_memory_mb = 0,
     sp_max_disk_mb = 0, sp_max_cpu_s = 0, sp_max_processes = 1\<rparr>"

record 's authorizer =
  az_authorize :: "tool \<Rightarrow> tool_call \<Rightarrow> 's \<Rightarrow> permission result \<times> 's"
  az_await :: "(permission \<Rightarrow> 's \<Rightarrow> permission result \<times> 's) option"
  az_check :: "(permission \<Rightarrow> tool \<Rightarrow> tool_call \<Rightarrow> 's \<Rightarrow> bool result \<times> 's) option"

text \<open>What a handler returns: a \<open>ToolResult\<close>, or something else of the named type. A handler is its
  behaviour on its arguments: how long it takes, and what it returns or raises.\<close>

datatype handler_value = H_Result tool_result | H_Other string

type_synonym handler = "arguments \<Rightarrow> real \<times> handler_value result"

text \<open>\<open>_run_with_deadline\<close>: \<open>None\<close> when the thread is still alive after the join.\<close>

definition run_with_deadline :: "handler \<Rightarrow> arguments \<Rightarrow> real \<Rightarrow> handler_value result option" where
  "run_with_deadline h args timeout_s =
     (let (duration, out) = h args in if max timeout_s 0 < duration then None else Some out)"

record audit_entry =
  au_task_id :: string
  au_tool :: string
  au_call_id :: string
  au_action_hash :: string
  au_decision :: string
  au_risk :: string
  au_reason :: string
  au_success :: bool
  au_error :: string
  au_sandboxed :: bool

record 's tool_env =
  rv_sha :: "string \<Rightarrow> string"
  rv_float :: "real \<Rightarrow> string"
  rv_schema :: "arguments \<Rightarrow> arguments \<Rightarrow> string list option"
  rv_profiles :: "(string \<times> sandbox_profile) list"
  rv_authorizer :: "'s authorizer"
  rv_registry :: "handler registry"
  rv_registry_late :: "handler registry"
  rv_cancelled_first :: bool
  rv_cancelled_waiting :: bool
  rv_cancelled_last :: bool
  rv_begin_at :: real
  rv_finish_at :: real
  rv_sandbox :: "tool \<Rightarrow> handler \<Rightarrow> arguments \<Rightarrow> sandbox_profile \<Rightarrow> real \<Rightarrow> handler_value result"

record 's runner =
  rn_auth :: 's
  rn_ledger :: "ledger option"
  rn_seen :: "string list"
  rn_events :: "(string \<times> string \<times> arguments) list"
  rn_audit :: "audit_entry list"
  rn_runs :: "(string \<times> tool_call) list"

definition publish_event :: "string \<Rightarrow> string \<Rightarrow> arguments \<Rightarrow> 's runner \<Rightarrow> 's runner" where
  "publish_event ty task_id payload st = st\<lparr>rn_events := rn_events st @ [(ty, task_id, payload)]\<rparr>"

definition audit ::
  "tool_call \<Rightarrow> tool option \<Rightarrow> permission option \<Rightarrow> bool \<Rightarrow> string \<Rightarrow> bool \<Rightarrow> string
     \<Rightarrow> 's runner \<Rightarrow> 's runner" where
  "audit call t p success err sandboxed hash st =
     st\<lparr>rn_audit := rn_audit st @ [\<lparr>au_task_id = tc_task_id call,
        au_tool = (case t of None \<Rightarrow> tc_tool call | Some t \<Rightarrow> tool_name t),
        au_call_id = tc_id call, au_action_hash = hash,
        au_decision = (case p of None \<Rightarrow> ''DENIED''
           | Some p \<Rightarrow> if pm_decision p = PD_GRANTED then ''GRANTED'' else ''DENIED''),
        au_risk = (case t of None \<Rightarrow> ''UNKNOWN'' | Some t \<Rightarrow> risk_value (tool_risk_level t)),
        au_reason = (case p of None \<Rightarrow> err | Some p \<Rightarrow> pm_reason p),
        au_success = success, au_error = err, au_sandboxed = sandboxed\<rparr>]\<rparr>"

definition failed_result :: "tool_call \<Rightarrow> string \<Rightarrow> tool_result" where
  "failed_result call err = \<lparr>tr_task_id = tc_task_id call, tr_tool_call_id = tc_id call,
     tr_success = False, tr_output = JNull, tr_error = Some err\<rparr>"

type_synonym 's run_outcome = "tool_result \<times> tool_call \<times> 's runner"

definition fail ::
  "tool_call \<Rightarrow> string \<Rightarrow> tool option \<Rightarrow> permission option \<Rightarrow> 's runner \<Rightarrow> 's run_outcome" where
  "fail call err t p st =
     (let safe = safe_error err;
          call' = call\<lparr>tc_status := TC_FAILED\<rparr>;
          st1 = publish_event ''TOOL_FAILED'' (tc_task_id call) [(''tool'', JStr (tc_tool call)),
                  (''call_id'', JStr (tc_id call)), (''error'', JStr safe)] st
      in (failed_result call safe, call', audit call' t p False safe False [] st1))"

definition deny :: "tool_call \<Rightarrow> tool \<Rightarrow> string \<Rightarrow> 's runner \<Rightarrow> 's run_outcome" where
  "deny call t reason st =
     (let safe = safe_error reason;
          call' = call\<lparr>tc_status := TC_DENIED\<rparr>;
          st1 = publish_event ''PERMISSION_DENIED'' (tc_task_id call) [(''tool'', JStr (tc_tool call)),
                  (''call_id'', JStr (tc_id call)), (''reason'', JStr safe)] st
      in (failed_result call safe, call', audit call' (Some t) None False safe False [] st1))"

definition validate_call :: "'s tool_env \<Rightarrow> tool \<Rightarrow> tool_call \<Rightarrow> string option" where
  "validate_call env t call =
     (let problems = check_arguments (rv_schema env) t (tc_arguments call) in
      if problems = [] then None else Some (join_str ''; '' problems))"

subsection \<open>Waiting for a person\<close>

definition await_human ::
  "'s tool_env \<Rightarrow> tool_call \<Rightarrow> tool \<Rightarrow> permission \<Rightarrow> 's runner \<Rightarrow> permission result \<times> 's runner" where
  "await_human env call t p0 st =
     (let az = rv_authorizer env;
          st1 = publish_event ''APPROVAL_REQUESTED'' (tc_task_id call)
            [(''tool'', JStr (tc_tool call)), (''call_id'', JStr (tc_id call)),
             (''approval_id'', JStr (pm_approval_id p0)), (''reason'', JStr (pm_reason p0))] st;
          waited = (case az_await az of
             None \<Rightarrow> (Inr (p0\<lparr>pm_decision := PD_DENIED,
                 pm_reason := pm_reason p0 @ '' (authorizer cannot wait for approval)''\<rparr>), rn_auth st1)
           | Some waiter \<Rightarrow> waiter p0 (rn_auth st1))
      in case waited of
           (Inl e, s) \<Rightarrow> (Inl e, st1\<lparr>rn_auth := s\<rparr>)
         | (Inr p1, s) \<Rightarrow>
             let p2 = (if rv_cancelled_waiting env
                       then p1\<lparr>pm_decision := PD_DENIED, pm_reason := ''task cancelled while awaiting approval''\<rparr>
                       else p1);
                 st2 = publish_event ''APPROVAL_DECIDED'' (tc_task_id call)
                   [(''tool'', JStr (tc_tool call)), (''call_id'', JStr (tc_id call)),
                    (''approval_id'', JStr (pm_approval_id p0)),
                    (''decision'', JStr (decision_value (pm_decision p2)))] (st1\<lparr>rn_auth := s\<rparr>);
                 refused = p2\<lparr>pm_decision := PD_DENIED,
                   pm_reason := ''approval does not match this exact action''\<rparr>
             in if pm_decision p2 = PD_GRANTED
                then (case az_check az of
                        None \<Rightarrow> (Inr refused, st2)
                      | Some checker \<Rightarrow>
                          (case checker p2 t call (rn_auth st2) of
                             (Inl e, s') \<Rightarrow> (Inl e, st2\<lparr>rn_auth := s'\<rparr>)
                           | (Inr ok, s') \<Rightarrow>
                               (Inr (if ok then p2 else refused), st2\<lparr>rn_auth := s'\<rparr>)))
                else (Inr p2, st2))"

subsection \<open>Reserving the action\<close>

definition semantic_tool :: "tool \<Rightarrow> tool_call \<Rightarrow> string" where
  "semantic_tool t call = (if tool_action_identity t = [] then tc_tool call else tool_action_identity t)"

definition action_digest :: "(string \<Rightarrow> string) \<Rightarrow> tool \<Rightarrow> tool_call \<Rightarrow> string" where
  "action_digest sha t call = action_hash sha (tc_task_id call) (semantic_tool t call) (tc_arguments call)"

text \<open>
  \<open>_reserve_action\<close> reads the ledger, then begins the row and remembers the call id. No lock
  covers both, so the two halves are separate steps here.
\<close>

definition reserve_read :: "string \<Rightarrow> 's runner \<Rightarrow> execution_record option" where
  "reserve_read digest st = (case rn_ledger st of None \<Rightarrow> None | Some l \<Rightarrow> led_get digest l)"

definition reserve_write ::
  "(string \<Rightarrow> string) \<Rightarrow> real \<Rightarrow> tool_call \<Rightarrow> tool \<Rightarrow> 's runner \<Rightarrow> (bool \<times> string) \<times> 's runner" where
  "reserve_write sha now call t st =
     (let st1 = st\<lparr>rn_ledger := map_option (\<lambda>l. snd (led_begin sha now (tc_task_id call)
                  (semantic_tool t call) (tc_arguments call) l)) (rn_ledger st)\<rparr>
      in if tc_id call \<in> set (rn_seen st1)
         then ((False, ''duplicate call id '' @ repr_str (tc_id call) @ '': already executed''), st1)
         else ((True, action_digest sha t call), st1\<lparr>rn_seen := rn_seen st1 @ [tc_id call]\<rparr>))"

definition reserve_action ::
  "(string \<Rightarrow> string) \<Rightarrow> real \<Rightarrow> tool_call \<Rightarrow> tool \<Rightarrow> 's runner \<Rightarrow> (bool \<times> string) \<times> 's runner" where
  "reserve_action sha now call t st =
     (case reserve_read (action_digest sha t call) st of
        Some r \<Rightarrow> ((False, ''action already has durable state '' @ execution_value (er_state r)
                    @ ''; reconcile before replay''), st)
      | None \<Rightarrow> reserve_write sha now call t st)"

subsection \<open>Running the handler\<close>

definition output_hash :: "(string \<Rightarrow> string) \<Rightarrow> json \<Rightarrow> string" where
  "output_hash sha output = sha (repr_json output)"

definition finish_run ::
  "'s tool_env \<Rightarrow> tool_call \<Rightarrow> tool \<Rightarrow> permission \<Rightarrow> handler_value \<Rightarrow> string \<Rightarrow> bool
     \<Rightarrow> 's runner \<Rightarrow> 's run_outcome" where
  "finish_run env call t p out identity sandboxed st =
     (case out of
        H_Result r0 \<Rightarrow>
          let r = r0\<lparr>tr_task_id := tc_task_id call, tr_tool_call_id := tc_id call\<rparr>;
              call' = call\<lparr>tc_status := (if tr_success r then TC_COMPLETED else TC_FAILED)\<rparr>;
              err = (case tr_error r of None \<Rightarrow> [] | Some e \<Rightarrow> e);
              st1 = publish_event (if tr_success r then ''TOOL_COMPLETED'' else ''TOOL_FAILED'')
                (tc_task_id call) [(''tool'', JStr (tc_tool call)), (''call_id'', JStr (tc_id call)),
                 (''action_hash'', JStr identity),
                 (''output_snippet'', JStr (safe_output_snippet (tr_output r))),
                 (''error'', JStr (safe_error err))] st;
              st2 = (if identity = [] then st1
                     else st1\<lparr>rn_ledger := map_option (led_transition (rv_finish_at env) identity
                       (if tr_success r then EX_COMPLETED else EX_FAILED)
                       (output_hash (rv_sha env) (tr_output r))) (rn_ledger st1)\<rparr>)
          in (r, call', audit call' (Some t) (Some p) (tr_success r) err sandboxed identity st2)
      | H_Other ty \<Rightarrow>
          fail call (''handler for '' @ repr_str (tc_tool call) @ '' returned '' @ ty) (Some t) (Some p) st)"

text \<open>The \<open>except\<close> clauses around the handler and around the sandbox; only results reach \<open>_finish\<close>.\<close>

definition run_plain ::
  "'s tool_env \<Rightarrow> tool_call \<Rightarrow> tool \<Rightarrow> permission \<Rightarrow> handler \<Rightarrow> string \<Rightarrow> 's runner \<Rightarrow> 's run_outcome" where
  "run_plain env call t p h identity st =
     (let st1 = st\<lparr>rn_runs := rn_runs st @ [(identity, call)]\<rparr> in
      case run_with_deadline h (tc_arguments call) (tool_timeout_s t) of
        None \<Rightarrow> fail call (exn_text (rv_float env) (ToolTimeoutError (tc_tool call) (tool_timeout_s t)))
                       (Some t) (Some p) st1
      | Some (Inl e) \<Rightarrow>
          if is_tool_error e \<or> is_domain_validation e
          then fail call (exn_text (rv_float env) e) (Some t) (Some p) st1
          else fail call (''handler crashed: '' @ exn_text (rv_float env) e) (Some t) (Some p) st1
      | Some (Inr out) \<Rightarrow> finish_run env call t p out identity False st1)"

definition profile_for :: "'s tool_env \<Rightarrow> tool \<Rightarrow> sandbox_profile option" where
  "profile_for env t =
     (case map_of (rv_profiles env) (tool_sandbox_profile t) of
        Some pr \<Rightarrow> Some pr
      | None \<Rightarrow> if tool_sandbox_profile t = ''terminal'' then Some (terminal_profile t) else None)"

definition run_sandboxed ::
  "'s tool_env \<Rightarrow> tool_call \<Rightarrow> tool \<Rightarrow> permission \<Rightarrow> handler \<Rightarrow> string \<Rightarrow> 's runner \<Rightarrow> 's run_outcome" where
  "run_sandboxed env call t p h identity st =
     (case profile_for env t of
           None \<Rightarrow> fail call (''tool '' @ repr_str (tc_tool call) @ '' requires unknown sandbox profile ''
                     @ repr_str (tool_sandbox_profile t)) (Some t) (Some p) st
         | Some pr \<Rightarrow>
             let st1 = st\<lparr>rn_runs := rn_runs st @ [(identity, call)]\<rparr> in
             (case rv_sandbox env t h (tc_arguments call) pr (tool_timeout_s t) of
                Inl e \<Rightarrow>
                  if is_tool_error e \<or> is_domain_validation e
                  then fail call (exn_text (rv_float env) e) (Some t) (Some p) st1
                  else fail call (''sandbox crashed: '' @ exn_text (rv_float env) e) (Some t) (Some p) st1
              | Inr out \<Rightarrow> finish_run env call t p out identity True st1))"

definition redacted_args :: arguments where
  "redacted_args = [(''redacted'', JBool True)]"

text \<open>\<open>run\<close> after the guard, from validation to the reserved action.\<close>

definition execute_call ::
  "'s tool_env \<Rightarrow> tool_call \<Rightarrow> tool \<Rightarrow> permission \<Rightarrow> 's runner \<Rightarrow> 's run_outcome" where
  "execute_call env call t p st =
     (case reserve_action (rv_sha env) (rv_begin_at env) call t st of
        ((False, why), st1) \<Rightarrow> deny call t why st1
      | ((True, identity), st1) \<Rightarrow>
          let st2 = publish_event ''PERMISSION_GRANTED'' (tc_task_id call)
                [(''tool'', JStr (tc_tool call)), (''call_id'', JStr (tc_id call)),
                 (''approval_id'', JStr (pm_approval_id p)), (''action_hash'', JStr identity)] st1;
              call' = call\<lparr>tc_status := TC_EXECUTE\<rparr>;
              st3 = publish_event ''TOOL_STARTED'' (tc_task_id call)
                [(''tool'', JStr (tc_tool call)), (''call_id'', JStr (tc_id call)),
                 (''action_hash'', JStr identity)] st2
          in case reg_handler (tc_tool call) (rv_registry_late env) of
               None \<Rightarrow> fail call' ''tool was revoked before execution'' (Some t) (Some p) st3
             | Some h \<Rightarrow>
                 if tool_requires_sandbox t
                 then run_sandboxed env call' t p h identity st3
                 else run_plain env call' t p h identity st3)"

text \<open>Authorization, with the wait for a person when it is pending.\<close>

definition authorize_call ::
  "'s tool_env \<Rightarrow> tool_call \<Rightarrow> tool \<Rightarrow> 's runner \<Rightarrow> (string + permission) \<times> 's runner" where
  "authorize_call env call t st =
     (case az_authorize (rv_authorizer env) t call (rn_auth st) of
        (Inl e, s) \<Rightarrow>
          (Inl (case e of
                  AuthorizationDeniedError _ _ _ \<Rightarrow> exn_text (rv_float env) e
                | _ \<Rightarrow> if is_domain_validation e then exn_text (rv_float env) e
                      else ''authorizer error: '' @ exn_text (rv_float env) e), st\<lparr>rn_auth := s\<rparr>)
      | (Inr p, s) \<Rightarrow>
          if pm_decision p = PD_PENDING
          then (case await_human env call t p (st\<lparr>rn_auth := s\<rparr>) of
                  (Inl e, st1) \<Rightarrow> (Inl (''approval wait failed: '' @ exn_text (rv_float env) e), st1)
                | (Inr p', st1) \<Rightarrow> (Inr p', st1))
          else (Inr p, st\<lparr>rn_auth := s\<rparr>))"

definition checked_call :: "'s tool_env \<Rightarrow> tool_call \<Rightarrow> tool \<Rightarrow> 's runner \<Rightarrow> 's run_outcome" where
  "checked_call env call t st =
     (let st1 = publish_event ''TOOL_REQUESTED'' (tc_task_id call)
            [(''tool'', JStr (tc_tool call)), (''call_id'', JStr (tc_id call)),
             (''arguments'', JObj (safe_payload (tc_arguments call)))] st
      in case validate_call env t call of
           Some problem \<Rightarrow> fail call problem (Some t) None st1
         | None \<Rightarrow>
             let call' = call\<lparr>tc_status := TC_VALIDATED\<rparr> in
             (case authorize_call env call' t st1 of
                (Inl why, st2) \<Rightarrow> deny call' t why st2
              | (Inr p, st2) \<Rightarrow>
                  if pm_decision p \<noteq> PD_GRANTED then deny call' t (''denied: '' @ pm_reason p) st2
                  else if rv_cancelled_last env
                  then (failed_result call' ''cancelled before execution'',
                        call'\<lparr>tc_status := TC_DENIED\<rparr>, st2)
                  else execute_call env call' t p st2))"

text \<open>The guard's answer: a reason to block, none, or an exception; the empty reason is none.\<close>

definition guard_blocks :: "guard option \<Rightarrow> arguments \<Rightarrow> string option" where
  "guard_blocks g args =
     (case g of
        None \<Rightarrow> None
      | Some g \<Rightarrow>
          (case g args of
             Inl _ \<Rightarrow> Some ''tool argument privacy check failed''
           | Inr (Some why) \<Rightarrow> if why = [] then None else Some why
           | Inr None \<Rightarrow> None))"

definition run_tool :: "'s tool_env \<Rightarrow> tool_call \<Rightarrow> 's runner \<Rightarrow> 's run_outcome" where
  "run_tool env call st =
     (if rv_cancelled_first env
      then (failed_result call ''cancelled before execution'', call\<lparr>tc_status := TC_FAILED\<rparr>, st)
      else
        let hidden = call\<lparr>tc_arguments := redacted_args\<rparr> in
        case reg_get (tc_tool call) (rv_registry env) of
          None \<Rightarrow> fail hidden (''unknown tool '' @ repr_str (tc_tool call)) None None st
        | Some t \<Rightarrow>
            let guard = argument_guard (tc_tool call) (rv_registry env) in
            if ''mcp-external'' \<in> set (tool_capabilities t) \<and> guard = None
            then fail hidden ''MCP tool privacy guard is unavailable or revoked'' (Some t) None st
            else
              (case guard_blocks guard (tc_arguments call) of
                 Some why \<Rightarrow> fail hidden why (Some t) None st
               | None \<Rightarrow> checked_call env call t st))"

subsection \<open>What the steps leave alone\<close>

lemma publish_event_frame [simp]:
  "rn_auth (publish_event ty tid pl st) = rn_auth st" "rn_ledger (publish_event ty tid pl st) = rn_ledger st"
  "rn_seen (publish_event ty tid pl st) = rn_seen st" "rn_runs (publish_event ty tid pl st) = rn_runs st"
  by (simp_all add: publish_event_def)

lemma audit_frame [simp]:
  "rn_auth (audit c t p b e s h st) = rn_auth st" "rn_ledger (audit c t p b e s h st) = rn_ledger st"
  "rn_seen (audit c t p b e s h st) = rn_seen st" "rn_runs (audit c t p b e s h st) = rn_runs st"
  by (simp_all add: audit_def)

definition result_state :: "'s run_outcome \<Rightarrow> 's runner" where
  "result_state out = snd (snd out)"

lemma fail_frame [simp]:
  "rn_ledger (result_state (fail c e t p st)) = rn_ledger st"
  "rn_seen (result_state (fail c e t p st)) = rn_seen st"
  "rn_runs (result_state (fail c e t p st)) = rn_runs st"
  by (simp_all add: fail_def Let_def result_state_def)

lemma deny_frame [simp]:
  "rn_ledger (result_state (deny c t e st)) = rn_ledger st"
  "rn_seen (result_state (deny c t e st)) = rn_seen st"
  "rn_runs (result_state (deny c t e st)) = rn_runs st"
  by (simp_all add: deny_def Let_def result_state_def)

lemma finish_run_frame [simp]:
  "rn_runs (result_state (finish_run env c t p out i sb st)) = rn_runs st"
  "rn_seen (result_state (finish_run env c t p out i sb st)) = rn_seen st"
  by (simp_all add: finish_run_def Let_def result_state_def [of "(_, _)"] split: handler_value.split)

text \<open>The state of the row \<open>identity\<close> once a handler's value is settled.\<close>

fun settled_state :: "handler_value \<Rightarrow> execution_state option" where
  "settled_state (H_Result r) = Some (if tr_success r then EX_COMPLETED else EX_FAILED)"
| "settled_state (H_Other _) = None"

lemma finish_run_ledger:
  "rn_ledger (result_state (finish_run env c t p out i sb st)) =
     (case settled_state out of
        Some s \<Rightarrow> if i = [] then rn_ledger st
          else map_option (led_transition (rv_finish_at env) i s
            (case out of H_Result r \<Rightarrow> output_hash (rv_sha env) (tr_output r) | _ \<Rightarrow> [])) (rn_ledger st)
      | None \<Rightarrow> rn_ledger st)"
  by (simp add: finish_run_def Let_def result_state_def [of "(_, _)"] split: handler_value.split)

lemma authorize_call_frame:
  assumes "authorize_call env call t st = (res, st')"
  shows "rn_ledger st' = rn_ledger st \<and> rn_seen st' = rn_seen st \<and> rn_runs st' = rn_runs st"
proof -
  have "rn_ledger st1 = rn_ledger s \<and> rn_seen st1 = rn_seen s \<and> rn_runs st1 = rn_runs s"
    if "await_human env call t p s = (q, st1)" for p s q st1
    using that by (auto simp: await_human_def Let_def split: option.splits sum.splits prod.splits if_splits)
  then show ?thesis
    using assms by (auto simp: authorize_call_def split: sum.splits prod.splits if_splits)
qed

text \<open>A permission that had to wait is granted only after the check of the exact action.\<close>

lemma authorize_call_granted:
  assumes "authorize_call env call t st = (Inr p, st')" "pm_decision p = PD_GRANTED"
  shows "(\<exists>s. az_authorize (rv_authorizer env) t call (rn_auth st) = (Inr p, s))
    \<or> (\<exists>p0 s waiter checker s1 s2. az_authorize (rv_authorizer env) t call (rn_auth st) = (Inr p0, s)
        \<and> pm_decision p0 = PD_PENDING \<and> \<not> rv_cancelled_waiting env
        \<and> az_await (rv_authorizer env) = Some waiter \<and> waiter p0 s = (Inr p, s1)
        \<and> az_check (rv_authorizer env) = Some checker
        \<and> checker p t call s1 = (Inr True, s2))"
proof -
  obtain p0 s where a: "az_authorize (rv_authorizer env) t call (rn_auth st) = (Inr p0, s)"
    using assms(1) by (auto simp: authorize_call_def split: sum.splits prod.splits)
  show ?thesis
  proof (cases "pm_decision p0 = PD_PENDING")
    case False
    with a assms show ?thesis by (auto simp: authorize_call_def)
  next
    case True
    with a assms have w: "await_human env call t p0 (st\<lparr>rn_auth := s\<rparr>) = (Inr p, st')"
      by (auto simp: authorize_call_def split: sum.splits prod.splits)
    have "\<not> rv_cancelled_waiting env \<and> (\<exists>waiter checker s1 s2.
        az_await (rv_authorizer env) = Some waiter \<and> waiter p0 s = (Inr p, s1)
        \<and> az_check (rv_authorizer env) = Some checker \<and> checker p t call s1 = (Inr True, s2))"
      using w assms(2)
      by (auto simp: await_human_def Let_def split: option.splits sum.splits prod.splits if_splits)
    with a True show ?thesis by blast
  qed
qed

subsection \<open>One execution\<close>

lemma action_digest_status [simp]:
  "action_digest sha t (call\<lparr>tc_status := s\<rparr>) = action_digest sha t call"
  by (simp add: action_digest_def semantic_tool_def)

lemma reserve_action_ok:
  assumes "reserve_action sha now call t st = ((True, d), st')"
  shows "d = action_digest sha t call \<and> tc_id call \<notin> set (rn_seen st)
    \<and> rn_seen st' = rn_seen st @ [tc_id call] \<and> rn_runs st' = rn_runs st
    \<and> (\<forall>l. rn_ledger st = Some l \<longrightarrow> led_get d l = None)
    \<and> rn_ledger st' = map_option (\<lambda>l. snd (led_begin sha now (tc_task_id call)
                  (semantic_tool t call) (tc_arguments call) l)) (rn_ledger st)"
  using assms by (auto simp: reserve_action_def reserve_read_def reserve_write_def Let_def
      split: option.splits if_splits)

lemma reserve_action_refused:
  assumes "reserve_action sha now call t st = ((False, why), st')"
  shows "rn_runs st' = rn_runs st \<and> (rn_ledger st = None \<longrightarrow> rn_ledger st' = None)
    \<and> (\<forall>l. rn_ledger st = Some l \<longrightarrow> (\<exists>l'. rn_ledger st' = Some l' \<and> set (keys l) \<subseteq> set (keys l')))
    \<and> set (rn_seen st) \<subseteq> set (rn_seen st')"
  using assms by (auto simp: reserve_action_def reserve_write_def Let_def keys_led_begin
      split: option.splits if_splits)

lemma fst_keys_led_transition [simp]: "fst ` set (led_transition now d s h l) = fst ` set l"
  by (simp add: led_transition_def)

text \<open>Running the handler logs one invocation and keeps the keys of the ledger.\<close>

definition has_run :: "'s runner \<Rightarrow> string \<Rightarrow> tool_call \<Rightarrow> 's runner \<Rightarrow> bool" where
  "has_run st d call st' \<longleftrightarrow> rn_runs st' = rn_runs st @ [(d, call)] \<and> rn_seen st' = rn_seen st
     \<and> (rn_ledger st = None \<longleftrightarrow> rn_ledger st' = None)
     \<and> (\<forall>l l'. rn_ledger st = Some l \<longrightarrow> rn_ledger st' = Some l' \<longrightarrow> fst ` set l' = fst ` set l)"

definition idle :: "'s runner \<Rightarrow> 's runner \<Rightarrow> bool" where
  "idle st st' \<longleftrightarrow> rn_runs st' = rn_runs st \<and> rn_seen st' = rn_seen st \<and> rn_ledger st' = rn_ledger st"

lemma finish_run_keys:
  "rn_ledger st = None \<longleftrightarrow> rn_ledger (result_state (finish_run env c t p out i sb st)) = None"
  "rn_ledger st = Some l \<Longrightarrow> rn_ledger (result_state (finish_run env c t p out i sb st)) = Some l'
     \<Longrightarrow> fst ` set l' = fst ` set l"
  by (clarsimp simp: finish_run_ledger split: option.splits if_splits)+

lemma run_plain_ran: "has_run st d call (result_state (run_plain env call t p h d st))"
  using finish_run_keys [of "st\<lparr>rn_runs := rn_runs st @ [(d, call)]\<rparr>"]
  by (auto simp: run_plain_def Let_def has_run_def split: option.splits sum.splits)

lemma run_sandboxed_ran:
  "has_run st d call (result_state (run_sandboxed env call t p h d st))
   \<or> idle st (result_state (run_sandboxed env call t p h d st))"
  using finish_run_keys [of "st\<lparr>rn_runs := rn_runs st @ [(d, call)]\<rparr>"]
  by (auto simp: run_sandboxed_def Let_def has_run_def idle_def split: option.splits sum.splits)

lemma execute_call_cases:
  assumes "st' = result_state (execute_call env call t p st)"
  shows "rn_runs st' = rn_runs st \<or>
    (\<exists>h st1. reg_handler (tc_tool call) (rv_registry_late env) = Some h
      \<and> reserve_action (rv_sha env) (rv_begin_at env) call t st
          = ((True, action_digest (rv_sha env) t call), st1)
      \<and> has_run st1 (action_digest (rv_sha env) t call) (call\<lparr>tc_status := TC_EXECUTE\<rparr>) st')"
proof -
  obtain ok d st1 where r: "reserve_action (rv_sha env) (rv_begin_at env) call t st = ((ok, d), st1)"
    by (metis prod.exhaust)
  show ?thesis
  proof (cases ok)
    case False
    with r have "rn_runs st1 = rn_runs st" using reserve_action_refused by fastforce
    with False r assms show ?thesis by (simp add: execute_call_def)
  next
    case True
    have "reserve_action (rv_sha env) (rv_begin_at env) call t st = ((True, d), st1)"
      using r True by simp
    note ok = reserve_action_ok [OF this]
    let ?c = "call\<lparr>tc_status := TC_EXECUTE\<rparr>"
    define st3 where "st3 = publish_event ''TOOL_STARTED'' (tc_task_id call)
        [(''tool'', JStr (tc_tool call)), (''call_id'', JStr (tc_id call)), (''action_hash'', JStr d)]
        (publish_event ''PERMISSION_GRANTED'' (tc_task_id call)
          [(''tool'', JStr (tc_tool call)), (''call_id'', JStr (tc_id call)),
           (''approval_id'', JStr (pm_approval_id p)), (''action_hash'', JStr d)] st1)"
    have fr: "has_run st3 d ?c s \<longleftrightarrow> has_run st1 d ?c s" "idle st3 s \<longleftrightarrow> idle st1 s" for s
      by (simp_all add: has_run_def idle_def st3_def)
    have st': "st' = result_state (case reg_handler (tc_tool call) (rv_registry_late env) of
               None \<Rightarrow> fail ?c ''tool was revoked before execution'' (Some t) (Some p) st3
             | Some h \<Rightarrow> if tool_requires_sandbox t then run_sandboxed env ?c t p h d st3
                 else run_plain env ?c t p h d st3)"
      unfolding assms execute_call_def r st3_def using True by (simp add: Let_def)
    show ?thesis
    proof (cases "reg_handler (tc_tool call) (rv_registry_late env)")
      case None
      then show ?thesis using ok by (simp add: st' st3_def)
    next
      case (Some h)
      then have "has_run st3 d ?c st' \<or> idle st3 st'"
        using run_plain_ran [of st3 d ?c env t p h] run_sandboxed_ran [of st3 d ?c env t p h]
        by (simp add: st')
      then have "has_run st1 d ?c st' \<or> idle st1 st'" by (simp add: fr)
      then show ?thesis using ok r True Some by (auto simp: idle_def)
    qed
  qed
qed

text \<open>The path to an invocation, in one lemma: every gate on the way.\<close>

lemma run_tool_cases:
  fixes call st
  defines "requested \<equiv> publish_event ''TOOL_REQUESTED'' (tc_task_id call)
      [(''tool'', JStr (tc_tool call)), (''call_id'', JStr (tc_id call)),
       (''arguments'', JObj (safe_payload (tc_arguments call)))] st"
    and "valid \<equiv> call\<lparr>tc_status := TC_VALIDATED\<rparr>"
  shows "rn_runs (result_state (run_tool env call st)) = rn_runs st \<or>
    (\<exists>t p h st1 st2. \<not> rv_cancelled_first env \<and> \<not> rv_cancelled_last env
      \<and> reg_get (tc_tool call) (rv_registry env) = Some t
      \<and> (''mcp-external'' \<in> set (tool_capabilities t)
           \<longrightarrow> argument_guard (tc_tool call) (rv_registry env) \<noteq> None)
      \<and> guard_blocks (argument_guard (tc_tool call) (rv_registry env)) (tc_arguments call) = None
      \<and> check_arguments (rv_schema env) t (tc_arguments call) = []
      \<and> authorize_call env valid t requested = (Inr p, st1) \<and> pm_decision p = PD_GRANTED
      \<and> reg_handler (tc_tool call) (rv_registry_late env) = Some h
      \<and> reserve_action (rv_sha env) (rv_begin_at env) valid t st1
          = ((True, action_digest (rv_sha env) t call), st2)
      \<and> has_run st2 (action_digest (rv_sha env) t call) (call\<lparr>tc_status := TC_EXECUTE\<rparr>)
          (result_state (run_tool env call st)))"
proof (cases "rv_cancelled_first env")
  case True
  then show ?thesis by (simp add: run_tool_def result_state_def)
next
  case nc: False
  show ?thesis
  proof (cases "reg_get (tc_tool call) (rv_registry env)")
    case None
    with nc show ?thesis by (simp add: run_tool_def Let_def)
  next
    case (Some t)
    let ?g = "argument_guard (tc_tool call) (rv_registry env)"
    show ?thesis
    proof (cases "''mcp-external'' \<in> set (tool_capabilities t) \<and> ?g = None \<or>
        guard_blocks ?g (tc_arguments call) \<noteq> None \<or>
        check_arguments (rv_schema env) t (tc_arguments call) \<noteq> []")
      case True
      then show ?thesis
        using nc Some by (auto simp: run_tool_def checked_call_def validate_call_def Let_def
            split: option.splits)
    next
      case False
      obtain res st1 where a: "authorize_call env valid t requested = (res, st1)" by fastforce
      have frame: "rn_runs st1 = rn_runs st"
        using authorize_call_frame [OF a] by (simp add: requested_def)
      have run: "run_tool env call st = (case res of
            Inl why \<Rightarrow> deny valid t why st1
          | Inr p \<Rightarrow> if pm_decision p \<noteq> PD_GRANTED then deny valid t (''denied: '' @ pm_reason p) st1
              else if rv_cancelled_last env
              then (failed_result valid ''cancelled before execution'',
                    valid\<lparr>tc_status := TC_DENIED\<rparr>, st1)
              else execute_call env valid t p st1)"
        using False nc Some a by (auto simp: run_tool_def checked_call_def validate_call_def Let_def
            requested_def valid_def split: option.splits sum.splits)
      show ?thesis
      proof (cases "\<exists>p. res = Inr p \<and> pm_decision p = PD_GRANTED \<and> \<not> rv_cancelled_last env")
        case no: False
        then have "rn_runs (result_state (run_tool env call st)) = rn_runs st"
          unfolding run using frame by (auto simp: result_state_def [of "(_, _)"] split: sum.split)
        then show ?thesis ..
      next
        case True
        then obtain p where p: "res = Inr p" "pm_decision p = PD_GRANTED" "\<not> rv_cancelled_last env"
          by blast
        with run have e: "run_tool env call st = execute_call env valid t p st1" by simp
        have dig: "action_digest (rv_sha env) t valid = action_digest (rv_sha env) t call"
          "tc_tool valid = tc_tool call" "valid\<lparr>tc_status := TC_EXECUTE\<rparr> = call\<lparr>tc_status := TC_EXECUTE\<rparr>"
          by (simp_all add: action_digest_def semantic_tool_def valid_def)
        have cs: "rn_runs (result_state (execute_call env valid t p st1)) = rn_runs st1 \<or>
          (\<exists>h st2. reg_handler (tc_tool call) (rv_registry_late env) = Some h
            \<and> reserve_action (rv_sha env) (rv_begin_at env) valid t st1
                = ((True, action_digest (rv_sha env) t call), st2)
            \<and> has_run st2 (action_digest (rv_sha env) t call) (call\<lparr>tc_status := TC_EXECUTE\<rparr>)
                (result_state (execute_call env valid t p st1)))"
          using execute_call_cases [OF refl, of env valid t p st1] unfolding dig .
        show ?thesis
        proof (cases "rn_runs (result_state (execute_call env valid t p st1)) = rn_runs st1")
          case True
          then show ?thesis by (simp add: e frame)
        next
          case ran: False
          with cs obtain h st2 where run: "reg_handler (tc_tool call) (rv_registry_late env) = Some h"
            "reserve_action (rv_sha env) (rv_begin_at env) valid t st1
                = ((True, action_digest (rv_sha env) t call), st2)"
            "has_run st2 (action_digest (rv_sha env) t call) (call\<lparr>tc_status := TC_EXECUTE\<rparr>)
                (result_state (execute_call env valid t p st1))" by blast
          show ?thesis
            by (rule disjI2, rule exI [of _ t], rule exI [of _ p], rule exI [of _ h],
                rule exI [of _ st1], rule exI [of _ st2])
              (use run p False nc Some a in \<open>auto simp: e\<close>)
        qed
      qed
    qed
  qed
qed

subsection \<open>Properties\<close>

text \<open>The gates of a run, in the order the code meets them.\<close>

lemma run_gated:
  assumes "rn_runs (result_state (run_tool env call st)) \<noteq> rn_runs st"
  shows "\<exists>t h p granted.
      \<not> rv_cancelled_first env \<and> \<not> rv_cancelled_last env
    \<and> reg_get (tc_tool call) (rv_registry env) = Some t
    \<and> reg_handler (tc_tool call) (rv_registry_late env) = Some h
    \<and> (''mcp-external'' \<in> set (tool_capabilities t)
         \<longrightarrow> argument_guard (tc_tool call) (rv_registry env) \<noteq> None)
    \<and> guard_blocks (argument_guard (tc_tool call) (rv_registry env)) (tc_arguments call) = None
    \<and> check_arguments (rv_schema env) t (tc_arguments call) = []
    \<and> granted = call\<lparr>tc_status := TC_VALIDATED\<rparr> \<and> pm_decision p = PD_GRANTED
    \<and> ((\<exists>s. az_authorize (rv_authorizer env) t granted (rn_auth st) = (Inr p, s))
       \<or> (\<exists>p0 s waiter checker s1 s2. az_authorize (rv_authorizer env) t granted (rn_auth st) = (Inr p0, s)
           \<and> pm_decision p0 = PD_PENDING \<and> \<not> rv_cancelled_waiting env
           \<and> az_await (rv_authorizer env) = Some waiter \<and> waiter p0 s = (Inr p, s1)
           \<and> az_check (rv_authorizer env) = Some checker
           \<and> checker p t granted s1 = (Inr True, s2)))
    \<and> tc_id call \<notin> set (rn_seen st)
    \<and> (\<forall>l. rn_ledger st = Some l \<longrightarrow> led_get (action_digest (rv_sha env) t call) l = None)
    \<and> rn_runs (result_state (run_tool env call st))
        = rn_runs st @ [(action_digest (rv_sha env) t call, call\<lparr>tc_status := TC_EXECUTE\<rparr>)]"
proof -
  let ?v = "call\<lparr>tc_status := TC_VALIDATED\<rparr>"
  from run_tool_cases [where call = call and st = st and env = env] assms obtain t p h st1 st2 where
    g: "\<not> rv_cancelled_first env" "\<not> rv_cancelled_last env"
      "reg_get (tc_tool call) (rv_registry env) = Some t"
      "''mcp-external'' \<in> set (tool_capabilities t)
           \<longrightarrow> argument_guard (tc_tool call) (rv_registry env) \<noteq> None"
      "guard_blocks (argument_guard (tc_tool call) (rv_registry env)) (tc_arguments call) = None"
      "check_arguments (rv_schema env) t (tc_arguments call) = []"
    and a: "authorize_call env ?v t (publish_event ''TOOL_REQUESTED'' (tc_task_id call)
        [(''tool'', JStr (tc_tool call)), (''call_id'', JStr (tc_id call)),
         (''arguments'', JObj (safe_payload (tc_arguments call)))] st) = (Inr p, st1)"
    and p: "pm_decision p = PD_GRANTED"
    and h: "reg_handler (tc_tool call) (rv_registry_late env) = Some h"
    and r: "reserve_action (rv_sha env) (rv_begin_at env) ?v t st1
        = ((True, action_digest (rv_sha env) t call), st2)"
    and run: "has_run st2 (action_digest (rv_sha env) t call) (call\<lparr>tc_status := TC_EXECUTE\<rparr>)
        (result_state (run_tool env call st))" by blast
  note fr = authorize_call_frame [OF a] and ok = reserve_action_ok [OF r, THEN conjunct2]
  have runs: "rn_runs (result_state (run_tool env call st))
        = rn_runs st @ [(action_digest (rv_sha env) t call, call\<lparr>tc_status := TC_EXECUTE\<rparr>)]"
    using run ok fr by (simp add: has_run_def)
  have new: "tc_id call \<notin> set (rn_seen st)"
    "\<forall>l. rn_ledger st = Some l \<longrightarrow> led_get (action_digest (rv_sha env) t call) l = None"
    using ok fr by simp_all
  have granted: "(\<exists>s. az_authorize (rv_authorizer env) t ?v (rn_auth st) = (Inr p, s))
       \<or> (\<exists>p0 s waiter checker s1 s2. az_authorize (rv_authorizer env) t ?v (rn_auth st) = (Inr p0, s)
           \<and> pm_decision p0 = PD_PENDING \<and> \<not> rv_cancelled_waiting env
           \<and> az_await (rv_authorizer env) = Some waiter \<and> waiter p0 s = (Inr p, s1)
           \<and> az_check (rv_authorizer env) = Some checker
           \<and> checker p t ?v s1 = (Inr True, s2))"
    using authorize_call_granted [OF a p] by simp
  show ?thesis
    by (rule exI [of _ t], rule exI [of _ h], rule exI [of _ p], rule exI [of _ ?v], intro conjI;
        (fact g h p runs new granted | rule refl))
qed

text \<open>
  C3: A handler runs only behind every gate. If \<open>run\<close> invoked a handler, the task was not
  cancelled at either reading before it; the tool is registered and its handler was still there;
  an external tool has its privacy guard, and the guard let these arguments pass; they satisfy
  the contract; the authorizer granted this very call, at once, or after a wait that ended
  uncancelled with the check of the exact action; and neither the call's identifier nor its
  action was used before. Exactly one invocation was logged, under the action's hash.
\<close>

theorem execution_is_gated:
  assumes "rn_runs (result_state (run_tool env call st)) \<noteq> rn_runs st"
  shows "\<exists>t h p granted.
      \<not> rv_cancelled_first env \<and> \<not> rv_cancelled_last env
    \<and> reg_get (tc_tool call) (rv_registry env) = Some t
    \<and> reg_handler (tc_tool call) (rv_registry_late env) = Some h
    \<and> (''mcp-external'' \<in> set (tool_capabilities t)
         \<longrightarrow> argument_guard (tc_tool call) (rv_registry env) \<noteq> None)
    \<and> guard_blocks (argument_guard (tc_tool call) (rv_registry env)) (tc_arguments call) = None
    \<and> check_arguments (rv_schema env) t (tc_arguments call) = []
    \<and> granted = call\<lparr>tc_status := TC_VALIDATED\<rparr> \<and> pm_decision p = PD_GRANTED
    \<and> ((\<exists>s. az_authorize (rv_authorizer env) t granted (rn_auth st) = (Inr p, s))
       \<or> (\<exists>p0 s waiter checker s1 s2. az_authorize (rv_authorizer env) t granted (rn_auth st) = (Inr p0, s)
           \<and> pm_decision p0 = PD_PENDING \<and> \<not> rv_cancelled_waiting env
           \<and> az_await (rv_authorizer env) = Some waiter \<and> waiter p0 s = (Inr p, s1)
           \<and> az_check (rv_authorizer env) = Some checker
           \<and> checker p t granted s1 = (Inr True, s2)))
    \<and> tc_id call \<notin> set (rn_seen st)
    \<and> (\<forall>l. rn_ledger st = Some l \<longrightarrow> led_get (action_digest (rv_sha env) t call) l = None)
    \<and> rn_runs (result_state (run_tool env call st))
        = rn_runs st @ [(action_digest (rv_sha env) t call, call\<lparr>tc_status := TC_EXECUTE\<rparr>)]"
  by (rule run_gated [OF assms])

text \<open>A sequence of runs of one runner, each in its own environment.\<close>

definition run_many :: "('s tool_env \<times> tool_call) list \<Rightarrow> 's runner \<Rightarrow> 's runner" where
  "run_many xs st = fold (\<lambda>(env, call) st. result_state (run_tool env call st)) xs st"

text \<open>The invariant of a runner with a ledger: its invocations have rows, each action one invocation.\<close>

definition runner_inv :: "string set \<Rightarrow> 's runner \<Rightarrow> bool" where
  "runner_inv old st \<longleftrightarrow> (\<exists>l. rn_ledger st = Some l \<and> old \<union> fst ` set (rn_runs st) \<subseteq> fst ` set l)
     \<and> distinct (map fst (rn_runs st)) \<and> old \<inter> fst ` set (rn_runs st) = {}"

lemma execute_call_ledger:
  assumes "rn_ledger st = Some l"
  shows "\<exists>l'. rn_ledger (result_state (execute_call env call t p st)) = Some l' \<and> fst ` set l \<subseteq> fst ` set l'"
proof -
  obtain ok d st1 where r: "reserve_action (rv_sha env) (rv_begin_at env) call t st = ((ok, d), st1)"
    by (metis prod.exhaust)
  obtain l1 where l1: "rn_ledger st1 = Some l1" "fst ` set l \<subseteq> fst ` set l1"
    using reserve_action_refused [of "rv_sha env" "rv_begin_at env" call t st d st1]
      reserve_action_ok [of "rv_sha env" "rv_begin_at env" call t st d st1] r assms
    by (cases ok) (auto simp: keys_led_begin)
  show ?thesis
  proof (cases ok)
    case False
    with r l1 show ?thesis by (simp add: execute_call_def)
  next
    case True
    define st3 where "st3 = publish_event ''TOOL_STARTED'' (tc_task_id call)
        [(''tool'', JStr (tc_tool call)), (''call_id'', JStr (tc_id call)), (''action_hash'', JStr d)]
        (publish_event ''PERMISSION_GRANTED'' (tc_task_id call)
          [(''tool'', JStr (tc_tool call)), (''call_id'', JStr (tc_id call)),
           (''approval_id'', JStr (pm_approval_id p)), (''action_hash'', JStr d)] st1)"
    have l3: "rn_ledger st3 = Some l1" by (simp add: st3_def l1)
    let ?c = "call\<lparr>tc_status := TC_EXECUTE\<rparr>"
    have eq: "result_state (execute_call env call t p st) = result_state
        (case reg_handler (tc_tool call) (rv_registry_late env) of
               None \<Rightarrow> fail ?c ''tool was revoked before execution'' (Some t) (Some p) st3
             | Some h \<Rightarrow> if tool_requires_sandbox t then run_sandboxed env ?c t p h d st3
                 else run_plain env ?c t p h d st3)"
      unfolding execute_call_def r st3_def using True by (simp add: Let_def)
    have "\<exists>l'. rn_ledger (result_state (run_plain env ?c t p h d st3)) = Some l' \<and> fst ` set l' = fst ` set l1" for h
      using run_plain_ran [of st3 d ?c env t p h] l3
      by (cases "rn_ledger (result_state (run_plain env ?c t p h d st3))") (auto simp: has_run_def)
    moreover have "\<exists>l'. rn_ledger (result_state (run_sandboxed env ?c t p h d st3)) = Some l' \<and> fst ` set l' = fst ` set l1" for h
      using run_sandboxed_ran [of st3 d ?c env t p h] l3
      by (cases "rn_ledger (result_state (run_sandboxed env ?c t p h d st3))")
        (auto simp: has_run_def idle_def)
    ultimately have "\<exists>l'. rn_ledger (result_state (execute_call env call t p st)) = Some l' \<and> fst ` set l' = fst ` set l1"
      unfolding eq using l3 by (simp split: option.split)
    with l1(2) show ?thesis by auto
  qed
qed

lemma run_tool_ledger:
  assumes "rn_ledger st = Some l"
  shows "\<exists>l'. rn_ledger (result_state (run_tool env call st)) = Some l' \<and> fst ` set l \<subseteq> fst ` set l'"
proof -
  have "\<exists>l'. rn_ledger (result_state (checked_call env call t st)) = Some l' \<and> fst ` set l \<subseteq> fst ` set l'" for t
  proof -
    let ?v = "call\<lparr>tc_status := TC_VALIDATED\<rparr>"
    define s1 where "s1 = publish_event ''TOOL_REQUESTED'' (tc_task_id call)
            [(''tool'', JStr (tc_tool call)), (''call_id'', JStr (tc_id call)),
             (''arguments'', JObj (safe_payload (tc_arguments call)))] st"
    obtain res st2 where a: "authorize_call env ?v t s1 = (res, st2)" by fastforce
    have l2: "rn_ledger st2 = Some l" "rn_ledger s1 = Some l"
      using authorize_call_frame [OF a] assms by (simp_all add: s1_def)
    show ?thesis
      unfolding checked_call_def Let_def s1_def [symmetric] a
      using l2 execute_call_ledger [OF l2(1)] by (auto simp: result_state_def [of "(_, _)"] split: option.split sum.split)
  qed
  then show ?thesis
    using assms by (auto simp: run_tool_def Let_def result_state_def [of "(_, _)"] split: option.split)
qed

lemma runner_inv_run:
  assumes "runner_inv old st"
  shows "runner_inv old (result_state (run_tool env call st))"
proof -
  let ?s = "result_state (run_tool env call st)"
  obtain l where l: "rn_ledger st = Some l" "old \<union> fst ` set (rn_runs st) \<subseteq> fst ` set l"
    and inv: "distinct (map fst (rn_runs st))" "old \<inter> fst ` set (rn_runs st) = {}"
    using assms by (auto simp: runner_inv_def)
  obtain l' where l': "rn_ledger ?s = Some l'" "fst ` set l \<subseteq> fst ` set l'"
    using run_tool_ledger [OF l(1)] by blast
  from run_tool_cases [where call = call and st = st and env = env]
  consider "rn_runs ?s = rn_runs st"
    | t p st1 st2 pub where "authorize_call env (call\<lparr>tc_status := TC_VALIDATED\<rparr>) t
          (publish_event ''TOOL_REQUESTED'' (tc_task_id call) pub st) = (Inr p, st1)"
      "reserve_action (rv_sha env) (rv_begin_at env) (call\<lparr>tc_status := TC_VALIDATED\<rparr>) t st1
          = ((True, action_digest (rv_sha env) t call), st2)"
      "has_run st2 (action_digest (rv_sha env) t call) (call\<lparr>tc_status := TC_EXECUTE\<rparr>) ?s"
    by blast
  then show ?thesis
  proof cases
    case 1
    with l l' inv show ?thesis unfolding runner_inv_def by (simp, blast)
  next
    case 2
    let ?d = "action_digest (rv_sha env) t call"
    note fr = authorize_call_frame [OF 2(1)] and ok = reserve_action_ok [OF 2(2), THEN conjunct2]
    have runs: "rn_runs ?s = rn_runs st @ [(?d, call\<lparr>tc_status := TC_EXECUTE\<rparr>)]"
      using 2(3) ok fr by (simp add: has_run_def)
    have "led_get ?d l = None" using ok fr l(1) by simp
    then have new: "?d \<notin> fst ` set l" by (simp add: led_get_None)
    have "\<exists>l2. rn_ledger st2 = Some l2 \<and> fst ` set l2 = insert ?d (fst ` set l)"
      using ok fr l(1) by (auto simp: keys_led_begin action_digest_def semantic_tool_def)
    then have "?d \<in> fst ` set l'" using 2(3) l'(1) by (auto simp: has_run_def)
    with l l' inv new show ?thesis unfolding runner_inv_def runs l'(1) by (simp, blast)
  qed
qed

lemma runner_inv_many: "runner_inv old st \<Longrightarrow> runner_inv old (run_many xs st)"
  unfolding run_many_def by (induction xs arbitrary: st) (auto intro: runner_inv_run)

text \<open>
  C4: With a ledger no action is executed twice: over any sequence of runs, in whatever
  environments and whatever the call identifiers, each action hash is invoked at most once, and
  none that the ledger already held when the runner started - also in whichever state an earlier
  process left it.
\<close>

theorem no_action_runs_twice:
  assumes "rn_ledger st = Some l" "rn_runs st = []"
  shows "distinct (map fst (rn_runs (run_many xs st)))
    \<and> fst ` set (rn_runs (run_many xs st)) \<inter> fst ` set l = {}"
proof -
  have "runner_inv (fst ` set l) st" using assms by (simp add: runner_inv_def)
  from runner_inv_many [OF this, of xs] show ?thesis by (auto simp: runner_inv_def)
qed

text \<open>What a reserved action came to: the value its handler delivered, if it did.\<close>

definition delivered :: "'s tool_env \<Rightarrow> tool \<Rightarrow> tool_call \<Rightarrow> handler_value option" where
  "delivered env t call =
     (case reg_handler (tc_tool call) (rv_registry_late env) of
        None \<Rightarrow> None
      | Some h \<Rightarrow>
          if tool_requires_sandbox t
          then (case profile_for env t of
                  None \<Rightarrow> None
                | Some pr \<Rightarrow> (case rv_sandbox env t h (tc_arguments call) pr (tool_timeout_s t) of
                     Inl _ \<Rightarrow> None | Inr v \<Rightarrow> Some v))
          else (case run_with_deadline h (tc_arguments call) (tool_timeout_s t) of
                  Some (Inr v) \<Rightarrow> Some v | _ \<Rightarrow> None))"

definition row_state :: "string \<Rightarrow> 's runner \<Rightarrow> execution_state option" where
  "row_state d st = (case rn_ledger st of None \<Rightarrow> None | Some l \<Rightarrow> map_option er_state (led_get d l))"

lemma row_state_frame [simp]:
  "row_state d (result_state (fail c e t p st)) = row_state d st"
  "row_state d (publish_event ty tid pl st) = row_state d st"
  "row_state d (st\<lparr>rn_runs := rs\<rparr>) = row_state d st"
  by (simp_all add: row_state_def)

lemma row_state_finish:
  assumes "row_state d st = Some s0" "d \<noteq> []"
  shows "row_state d (result_state (finish_run env c t p out d sb st))
    = Some (case settled_state out of Some s \<Rightarrow> s | None \<Rightarrow> s0)"
  using assms by (auto simp: row_state_def finish_run_ledger led_transition_def led_update_get
      split: option.splits)

lemma row_state_execute:
  assumes r: "reserve_action (rv_sha env) (rv_begin_at env) call t st = ((True, d), st1)"
    and l: "rn_ledger st = Some l" and d: "d \<noteq> []"
  shows "row_state d (result_state (execute_call env call t p st))
    = Some (case delivered env t call of Some (H_Result r) \<Rightarrow>
        if tr_success r then EX_COMPLETED else EX_FAILED | _ \<Rightarrow> EX_STARTED)"
proof -
  let ?h = "action_hash (rv_sha env) (tc_task_id call) (semantic_tool t call) (tc_arguments call)"
  have dh: "d = ?h" using reserve_action_ok [OF r] by (simp add: action_digest_def)
  note ok = reserve_action_ok [OF r, THEN conjunct2]
  have "led_get ?h l = None" using ok l unfolding dh by blast
  then have "row_state d st1 = Some EX_STARTED"
    using ok l dh by (simp add: row_state_def led_begin_new led_get_def map_add_def
        split: option.splits)
  then have s1: "row_state d st1 = Some EX_STARTED" .
  then have s3: "row_state d (publish_event ty2 tid2 pl2 (publish_event ty tid pl st1)) = Some EX_STARTED"
    for ty tid pl ty2 tid2 pl2 by simp
  note fin = row_state_finish [OF _ d]
  have settled: "(case settled_state v of Some s \<Rightarrow> s | None \<Rightarrow> EX_STARTED)
    = (case v of H_Result r \<Rightarrow> if tr_success r then EX_COMPLETED else EX_FAILED | H_Other _ \<Rightarrow> EX_STARTED)"
    for v by (cases v) simp_all
  have plain: "row_state d (result_state (run_plain env c t p h d st3)) = Some (case
      (case run_with_deadline h (tc_arguments c) (tool_timeout_s t) of Some (Inr v) \<Rightarrow> Some v | _ \<Rightarrow> None) of
        Some (H_Result r) \<Rightarrow> if tr_success r then EX_COMPLETED else EX_FAILED | _ \<Rightarrow> EX_STARTED)"
    if "row_state d st3 = Some EX_STARTED" for c h st3
  proof (cases "run_with_deadline h (tc_arguments c) (tool_timeout_s t)")
    case None
    then show ?thesis by (simp only: run_plain_def Let_def option.case row_state_frame that)
  next
    case (Some out)
    have "row_state d (st3\<lparr>rn_runs := rs\<rparr>) = Some EX_STARTED" for rs by (simp add: that)
    then show ?thesis
      by (cases out) (simp_all add: run_plain_def Let_def Some that fin settled split: handler_value.split)
  qed
  have sandboxed: "row_state d (result_state (run_sandboxed env c t p h d st3)) = Some (case
      (case profile_for env t of
         None \<Rightarrow> None
       | Some pr \<Rightarrow> (case rv_sandbox env t h (tc_arguments c) pr (tool_timeout_s t) of
            Inl _ \<Rightarrow> None | Inr v \<Rightarrow> Some v)) of
        Some (H_Result r) \<Rightarrow> if tr_success r then EX_COMPLETED else EX_FAILED | _ \<Rightarrow> EX_STARTED)"
    if s: "row_state d st3 = Some EX_STARTED" for c h st3
  proof (cases "profile_for env t")
    case None
    then show ?thesis by (simp add: run_sandboxed_def s)
  next
    case (Some pr)
    have "row_state d (st3\<lparr>rn_runs := rs\<rparr>) = Some EX_STARTED" for rs by (simp add: s)
    then show ?thesis
      by (cases "rv_sandbox env t h (tc_arguments c) pr (tool_timeout_s t)")
        (simp_all add: run_sandboxed_def Let_def Some s fin settled split: handler_value.split)
  qed
  show ?thesis
  proof (cases "reg_handler (tc_tool call) (rv_registry_late env)")
    case None
    then show ?thesis
      unfolding execute_call_def r prod.case Let_def delivered_def by (simp add: s1)
  next
    case (Some h)
    have args: "tc_arguments (call\<lparr>tc_status := TC_EXECUTE\<rparr>) = tc_arguments call" by simp
    show ?thesis
      unfolding execute_call_def r prod.case Let_def delivered_def Some option.case bool.case
      by (cases "tool_requires_sandbox t")
        (simp_all only: if_True if_False plain [OF s3] sandboxed [OF s3] args)
  qed
qed

text \<open>
  What the ledger says after an execution. A reserved action whose handler delivered a
  result has the row \<open>COMPLETED\<close> or \<open>FAILED\<close> as the result says; in every other ending - the
  handler raised, passed its deadline, was revoked, asked for an unknown sandbox, returned
  something else - the row stays \<open>STARTED\<close>. In all cases every later reservation of the action
  is refused and changes nothing: also after a failure there is no second attempt, although
  \<open>begin\<close> has a branch that counts one.
\<close>

theorem reserved_action_row:
  assumes "reserve_action (rv_sha env) (rv_begin_at env) call t st = ((True, d), st1)"
    and "rn_ledger st = Some l" and "\<And>x. rv_sha env x \<noteq> []"
  shows "let after = result_state (execute_call env call t p st);
             s = (case delivered env t call of Some (H_Result r) \<Rightarrow>
                    if tr_success r then EX_COMPLETED else EX_FAILED | _ \<Rightarrow> EX_STARTED)
    in row_state d after = Some s
      \<and> (\<forall>now call'. action_digest (rv_sha env) t call' = d \<longrightarrow>
           reserve_action (rv_sha env) now call' t after = ((False, ''action already has durable state ''
             @ execution_value s @ ''; reconcile before replay''), after))"
proof -
  have d: "d \<noteq> []" using reserve_action_ok [OF assms(1)] assms(3) by (simp add: action_digest_def action_hash_def)
  define after where "after = result_state (execute_call env call t p st)"
  define s where "s = (case delivered env t call of Some (H_Result r) \<Rightarrow>
      if tr_success r then EX_COMPLETED else EX_FAILED | _ \<Rightarrow> EX_STARTED)"
  have row: "row_state d after = Some s"
    unfolding after_def s_def by (rule row_state_execute [OF assms(1,2) d])
  then obtain r where "reserve_read d after = Some r" "er_state r = s"
    by (auto simp: row_state_def reserve_read_def split: option.splits)
  then have "reserve_action (rv_sha env) now call' t after = ((False, ''action already has durable state ''
             @ execution_value s @ ''; reconcile before replay''), after)"
    if "action_digest (rv_sha env) t call' = d" for now call'
    using that by (simp add: reserve_action_def)
  with row show ?thesis unfolding Let_def after_def [symmetric] s_def [symmetric] by blast
qed

text \<open>
  The reservation is not atomic: when two calls with different identifiers for one action
  both read the ledger before either writes its row, both are told to go ahead with the same
  action hash.
\<close>

theorem concurrent_reservations_both_pass:
  assumes "rn_ledger st = Some l" "led_get (action_digest sha t c1) l = None"
    and "tc_id c1 \<noteq> tc_id c2" "tc_id c1 \<notin> set (rn_seen st)" "tc_id c2 \<notin> set (rn_seen st)"
    and "tc_task_id c2 = tc_task_id c1" "tc_tool c2 = tc_tool c1" "tc_arguments c2 = tc_arguments c1"
  shows "let d = action_digest sha t c1; (r1, st1) = reserve_write sha now1 c1 t st;
             (r2, st2) = reserve_write sha now2 c2 t st1
    in reserve_read d st = None \<and> action_digest sha t c2 = d \<and> r1 = (True, d) \<and> r2 = (True, d)"
  using assms by (simp add: Let_def reserve_read_def reserve_write_def action_digest_def semantic_tool_def)

subsection \<open>A concrete run\<close>

definition ok_result :: tool_result where
  "ok_result = \<lparr>tr_task_id = [], tr_tool_call_id = [], tr_success = True, tr_output = JStr ''done'',
     tr_error = None\<rparr>"

definition demo_tool :: tool where
  "demo_tool = \<lparr>tool_name = ''note'', tool_description = [], tool_input_schema = [],
     tool_output_schema = [], tool_risk_level = LOW, tool_timeout_s = 5, tool_capabilities = [],
     tool_execution_policy = [], tool_action_identity = [], tool_requires_sandbox = False,
     tool_sandbox_profile = [], tool_requires_approval = False, tool_network_access = False,
     tool_secrets_access = False\<rparr>"

definition demo_call :: "string \<Rightarrow> tool_call" where
  "demo_call i = \<lparr>tc_id = i, tc_task_id = ''t1'', tc_tool = ''note'', tc_arguments = [],
     tc_status = TC_REQUESTED\<rparr>"

definition grant_all :: "unit authorizer" where
  "grant_all = \<lparr>az_authorize = (\<lambda>t c s. (Inr \<lparr>pm_task_id = tc_task_id c, pm_tool_call_id = tc_id c,
       pm_decision = PD_GRANTED, pm_reason = ''grant-all (tests only)'', pm_policy = ''grant-all'',
       pm_approval_id = []\<rparr>, s)), az_await = None, az_check = None\<rparr>"

definition demo_run_env :: "unit tool_env" where
  "demo_run_env = \<lparr>rv_sha = (\<lambda>x. CHR ''h'' # x), rv_float = (\<lambda>_. ''5.0''), rv_schema = (\<lambda>_ _. Some []),
     rv_profiles = [], rv_authorizer = grant_all,
     rv_registry = \<lparr>rg_tools = [(''note'', demo_tool)], rg_handlers = [(''note'', \<lambda>_. (1, Inr (H_Result ok_result)))],
       rg_guards = []\<rparr>,
     rv_registry_late = \<lparr>rg_tools = [(''note'', demo_tool)], rg_handlers = [(''note'', \<lambda>_. (1, Inr (H_Result ok_result)))],
       rg_guards = []\<rparr>,
     rv_cancelled_first = False, rv_cancelled_waiting = False, rv_cancelled_last = False,
     rv_begin_at = 0, rv_finish_at = 1, rv_sandbox = (\<lambda>_ _ _ _ _. Inr (H_Other ''NoneType''))\<rparr>"

definition fresh_runner :: "unit runner" where
  "fresh_runner = \<lparr>rn_auth = (), rn_ledger = Some [], rn_seen = [], rn_events = [], rn_audit = [], rn_runs = []\<rparr>"

lemma execution_is_gated_witness:
  "\<exists>t h. reg_get ''note'' (rv_registry demo_run_env) = Some t
     \<and> reg_handler ''note'' (rv_registry_late demo_run_env) = Some h
     \<and> length (rn_runs (result_state (run_tool demo_run_env (demo_call ''c1'') fresh_runner))) = 1"
proof -
  have "length (rn_runs (result_state (run_tool demo_run_env (demo_call ''c1'') fresh_runner))) = 1"
    by code_simp
  moreover from this have "rn_runs (result_state (run_tool demo_run_env (demo_call ''c1'') fresh_runner))
      \<noteq> rn_runs fresh_runner" by (auto simp: fresh_runner_def)
  from execution_is_gated [OF this] obtain t h where
    "reg_get (tc_tool (demo_call ''c1'')) (rv_registry demo_run_env) = Some t"
    "reg_handler (tc_tool (demo_call ''c1'')) (rv_registry_late demo_run_env) = Some h"
    by (elim exE conjE)
  moreover have "tc_tool (demo_call ''c1'') = ''note''" by (simp add: demo_call_def)
  ultimately show ?thesis by auto
qed

lemma no_action_runs_twice_witness:
  "distinct (map fst (rn_runs (run_many [(demo_run_env, demo_call ''c1''), (demo_run_env, demo_call ''c2'')]
      fresh_runner)))
   \<and> length (rn_runs (run_many [(demo_run_env, demo_call ''c1''), (demo_run_env, demo_call ''c2'')]
      fresh_runner)) = 1"
proof -
  have "rn_ledger fresh_runner = Some []" "rn_runs fresh_runner = []"
    by (simp_all add: fresh_runner_def)
  moreover have "length (rn_runs (run_many [(demo_run_env, demo_call ''c1''), (demo_run_env, demo_call ''c2'')]
      fresh_runner)) = 1" by code_simp
  ultimately show ?thesis by (blast dest: no_action_runs_twice)
qed

lemma reserved_action_row_witness:
  "row_state (action_digest (rv_sha demo_run_env) demo_tool (demo_call ''c1''))
     (result_state (execute_call demo_run_env (demo_call ''c1'') demo_tool
       \<lparr>pm_task_id = ''t1'', pm_tool_call_id = ''c1'', pm_decision = PD_GRANTED, pm_reason = [],
        pm_policy = [], pm_approval_id = []\<rparr> fresh_runner)) = Some EX_COMPLETED"
proof -
  have r: "reserve_action (rv_sha demo_run_env) (rv_begin_at demo_run_env) (demo_call ''c1'') demo_tool
      fresh_runner = ((True, action_digest (rv_sha demo_run_env) demo_tool (demo_call ''c1'')),
        snd (reserve_action (rv_sha demo_run_env) (rv_begin_at demo_run_env) (demo_call ''c1'') demo_tool
          fresh_runner))" by code_simp
  have l: "rn_ledger fresh_runner = Some []" by (simp add: fresh_runner_def)
  have sha: "\<And>x. rv_sha demo_run_env x \<noteq> []" by (simp add: demo_run_env_def)
  have "case delivered demo_run_env demo_tool (demo_call ''c1'') of
      Some (H_Result r) \<Rightarrow> tr_success r | _ \<Rightarrow> False" by code_simp
  then show ?thesis
    using reserved_action_row [OF r l sha] unfolding Let_def
    by (auto split: option.splits handler_value.splits)
qed

lemma concurrent_reservations_both_pass_witness:
  "fst (reserve_write id 1 (demo_call ''c2'') demo_tool
     (snd (reserve_write id 0 (demo_call ''c1'') demo_tool fresh_runner)))
   = (True, action_digest id demo_tool (demo_call ''c1''))"
proof -
  have "rn_ledger fresh_runner = Some []" by (simp add: fresh_runner_def)
  moreover have "led_get (action_digest id demo_tool (demo_call ''c1'')) [] = None"
    by (simp add: led_get_def)
  moreover have "tc_id (demo_call ''c1'') \<noteq> tc_id (demo_call ''c2'')"
    "tc_id (demo_call ''c1'') \<notin> set (rn_seen fresh_runner)"
    "tc_id (demo_call ''c2'') \<notin> set (rn_seen fresh_runner)"
    "tc_task_id (demo_call ''c2'') = tc_task_id (demo_call ''c1'')"
    "tc_tool (demo_call ''c2'') = tc_tool (demo_call ''c1'')"
    "tc_arguments (demo_call ''c2'') = tc_arguments (demo_call ''c1'')"
    by (simp_all add: demo_call_def fresh_runner_def)
  ultimately show ?thesis
    by (auto dest: concurrent_reservations_both_pass simp: Let_def case_prod_beta)
qed

end
