(* ===== verification/Authorized_Run.thy ===== *)
theory Authorized_Run
  imports Policy Runner
begin

text \<open>
  The runner with the authorization manager as its authorizer, as the server wires them: the
  guarantee across both components.
\<close>

text \<open>The manager's three methods as the runner's authorizer; its state is the approval store. The
  check after the wait reads the clock again, at \<open>later\<close>. A wait whose observations run out has not
  returned; here it gives an exception, which denies.\<close>

definition manager_authorizer ::
  "auth_env \<Rightarrow> real \<Rightarrow> auth_manager \<Rightarrow> 'h registry \<Rightarrow> poll list \<Rightarrow> approval_store option authorizer" where
  "manager_authorizer env later am rg polls =
     \<lparr>az_authorize = (\<lambda>t call store. authorize env am rg (tc_task_id call) t call store),
      az_await = Some (\<lambda>p store.
        case await_approval (ae_sha env) am 0 None polls p store of
          None \<Rightarrow> (Inl (OtherException ''still waiting''), store)
        | Some (p', store') \<Rightarrow> (Inr p', store')),
      az_check = Some (\<lambda>p t call store.
        let (ok, store') = check_approval (env\<lparr>ae_now := later\<rparr>) am p t call store in (Inr ok, store'))\<rparr>"

text \<open>The store holds, under the identifier, an approved request for this tool and the hash of
  exactly these arguments under the policy.\<close>

definition approved_in :: "auth_env \<Rightarrow> auth_manager \<Rightarrow> string \<Rightarrow> tool \<Rightarrow> tool_call \<Rightarrow> approval_store option \<Rightarrow> bool" where
  "approved_in env am i t call store =
     (case store of None \<Rightarrow> False
      | Some st \<Rightarrow> (case ap_load i st of None \<Rightarrow> False
          | Some r \<Rightarrow> ar_status r = AP_APPROVED \<and> ar_tool r = tool_name t
              \<and> ar_hash r = approval_hash (ae_sha env) (tool_name t) (tc_arguments call)
                  (po_name (am_policy am))))"

lemma check_approval_True:
  assumes "check_approval env am p t call store = (True, store')"
  shows "approved_in env am (pm_approval_id p) t call store"
proof -
  from assms obtain st where st: "store = Some st"
    and "fst (ap_verify (ae_sha env) (ae_now env) (pm_approval_id p) (tool_name t)
      (tc_arguments call) (po_name (am_policy am)) st)"
    by (auto simp: check_approval_def Let_def split: option.splits if_splits prod.splits)
  from this(2) obtain r where "ap_load (pm_approval_id p) st = Some r" "ar_status r = AP_APPROVED"
    "ar_tool r = tool_name t" "ar_hash r = approval_hash (ae_sha env) (tool_name t)
      (tc_arguments call) (po_name (am_policy am))"
    by (rule ap_verify_True)
  with st show ?thesis by (simp add: approved_in_def)
qed

lemma authorize_granted:
  fixes am :: auth_manager
  assumes a: "authorize env am rg tid t call store = (Inr p, store')" and g: "pm_decision p = PD_GRANTED"
    and k: "reg_get (tool_name t) rg = Some t"
    and wf: "\<And>st. store = Some st \<Longrightarrow> ap_wf st"
  shows "\<not> hard_denied (am_policy am) (tool_name t) (rc_agent_id (am_context am))
      (ra_level (assess (ae_resolve env) (am_allow_shells am) tid t call (am_context am)))
    \<and> (needs_approval am t (ra_level (assess (ae_resolve env) (am_allow_shells am) tid t call (am_context am)))
        \<longrightarrow> approved_in env am (pm_approval_id p) t call store)"
proof -
  have ctx: "effective_context am (rc_agent_id (am_context am)) = am_context am"
    by (simp add: effective_context_def)
  obtain known where d: "decide env am rg tid t call (rc_agent_id (am_context am)) store
      = (Inr (known, p), store')"
    using a by (auto simp: authorize_def split: prod.splits sum.splits)
  note dg = decide_granted [OF d g, unfolded ctx]
  have kt: "known = t" using dg k by simp
  let ?level = "ra_level (assess (ae_resolve env) (am_allow_shells am) tid t call (am_context am))"
  have "approved_in env am (pm_approval_id p) t call store" if n: "needs_approval am t ?level"
  proof -
    from dg n obtain ra where "approval_gate env am tid t call ra store = (Inr p, store')"
      unfolding kt by auto
    then obtain st r st1 where st: "store = Some st" and f: "find_valid (ae_sha env) (ae_now env) tid
        (tool_name t) (tc_arguments call) (po_name (am_policy am)) st = (Some r, st1)"
      and id: "pm_approval_id p = ent_id r"
      using g by (rule approval_gate_granted)
    from find_valid_Some [OF wf [OF st] f] show ?thesis by (simp add: st id approved_in_def)
  qed
  with dg show ?thesis unfolding kt by blast
qed

lemma approved_in_later [simp]: "approved_in (env\<lparr>ae_now := later\<rparr>) am i t call s = approved_in env am i t call s"
  by (auto simp: approved_in_def split: option.splits)

text \<open>A run that invoked a handler of a tool that needs approval had it approved: when the permission
  was granted, or when it was last checked before the execution.\<close>

definition approved_for ::
  "auth_env \<Rightarrow> auth_manager \<Rightarrow> handler registry \<Rightarrow> poll list \<Rightarrow> tool \<Rightarrow> tool_call \<Rightarrow> approval_store option \<Rightarrow> bool"
  where
  "approved_for aenv am rg polls t call store \<longleftrightarrow>
     (\<exists>i s. approved_in aenv am i t call s \<and> (s = store \<or>
        (\<exists>p0 s0 p. authorize aenv am rg (tc_task_id call) t (call\<lparr>tc_status := TC_VALIDATED\<rparr>) store = (Inr p0, s0)
           \<and> await_approval (ae_sha aenv) am 0 None polls p0 s0 = Some (p, s) \<and> i = pm_approval_id p)))"

lemma run_approved:
  fixes aenv :: auth_env and am :: auth_manager and polls :: "poll list"
  assumes auth: "rv_authorizer env = manager_authorizer aenv later am (rv_registry env) polls"
    and reg: "wf_registry (rv_registry env)" and store: "run_store (ae_sha aenv) ops (rn_auth st)"
    and run: "rn_runs (result_state (run_tool env call st)) \<noteq> rn_runs st"
  shows "\<exists>t. reg_get (tc_tool call) (rv_registry env) = Some t
    \<and> (needs_approval am t (ra_level (assess (ae_resolve aenv) (am_allow_shells am) (tc_task_id call) t
           (call\<lparr>tc_status := TC_VALIDATED\<rparr>) (am_context am)))
       \<longrightarrow> approved_for aenv am (rv_registry env) polls t call (rn_auth st))"
proof -
  let ?v = "call\<lparr>tc_status := TC_VALIDATED\<rparr>" and ?az = "rv_authorizer env"
  from run_gated [OF run] obtain t p where
    k: "reg_get (tc_tool call) (rv_registry env) = Some t" and g: "pm_decision p = PD_GRANTED" and
    way: "(\<exists>s. az_authorize ?az t ?v (rn_auth st) = (Inr p, s))
       \<or> (\<exists>p0 s waiter checker s1 s2. az_authorize ?az t ?v (rn_auth st) = (Inr p0, s)
           \<and> pm_decision p0 = PD_PENDING \<and> \<not> rv_cancelled_waiting env
           \<and> az_await ?az = Some waiter \<and> waiter p0 s = (Inr p, s1)
           \<and> az_check ?az = Some checker \<and> checker p t ?v s1 = (Inr True, s2))"
    by (elim exE conjE) blast
  let ?level = "ra_level (assess (ae_resolve aenv) (am_allow_shells am) (tc_task_id call) t ?v (am_context am))"
  have kt: "reg_get (tool_name t) (rv_registry env) = Some t"
    using reg_get_name [OF reg k] k by simp
  have wf: "ap_wf s" if "rn_auth st = Some s" for s
    using store run_store_inv that by (auto simp: store_inv_def)
  have same: "approved_in aenv am i t ?v s \<longleftrightarrow> approved_in aenv am i t call s" for i s
  proof -
    have "tc_arguments ?v = tc_arguments call" by simp
    then show ?thesis unfolding approved_in_def by (simp only:)
  qed
  have "approved_for aenv am (rv_registry env) polls t call (rn_auth st)" if n: "needs_approval am t ?level"
    using way
  proof (elim disjE exE conjE)
    fix s assume "az_authorize ?az t ?v (rn_auth st) = (Inr p, s)"
    then have "authorize aenv am (rv_registry env) (tc_task_id call) t ?v (rn_auth st) = (Inr p, s)"
      by (simp add: auth manager_authorizer_def)
    from authorize_granted [OF this g kt wf] n show ?thesis unfolding approved_for_def by (auto simp: same)
  next
    fix p0 s waiter checker s1 s2
    assume a: "az_authorize ?az t ?v (rn_auth st) = (Inr p0, s)" and
      w: "az_await ?az = Some waiter" "waiter p0 s = (Inr p, s1)" and
      c: "az_check ?az = Some checker" "checker p t ?v s1 = (Inr True, s2)"
    from a have a': "authorize aenv am (rv_registry env) (tc_task_id call) t ?v (rn_auth st) = (Inr p0, s)"
      by (simp add: auth manager_authorizer_def)
    from w have w': "await_approval (ae_sha aenv) am 0 None polls p0 s = Some (p, s1)"
      by (auto simp: auth manager_authorizer_def split: option.splits)
    from c have "check_approval (aenv\<lparr>ae_now := later\<rparr>) am p t ?v s1 = (True, s2)"
      by (auto simp: auth manager_authorizer_def Let_def split: prod.splits)
    from check_approval_True [OF this] a' w' show ?thesis unfolding same approved_for_def approved_in_later by blast
  qed
  with k show ?thesis by blast
qed

text \<open>
  C1: No critical action executes without its own approval. Let the runner use the authorization
  manager over a store its operations produced, and one registry. If a run invoked a handler,
  then the policy does not forbid the tool to the agent; and if the tool demands approval or its
  assessed risk is \<open>CRITICAL\<close> or at the policy's approval level, the approval store held, when
  the permission was granted or when it was last checked before the execution, an approved
  request under the permission's identifier for this tool and the hash of exactly this call's
  arguments under this policy.
\<close>

theorem critical_execution_was_approved:
  fixes aenv :: auth_env and am :: auth_manager and polls :: "poll list"
  assumes auth: "rv_authorizer env = manager_authorizer aenv later am (rv_registry env) polls"
    and reg: "wf_registry (rv_registry env)" and store: "run_store (ae_sha aenv) ops (rn_auth st)"
    and run: "rn_runs (result_state (run_tool env call st)) \<noteq> rn_runs st"
  shows "\<exists>t. reg_get (tc_tool call) (rv_registry env) = Some t
    \<and> (let level = ra_level (assess (ae_resolve aenv) (am_allow_shells am) (tc_task_id call) t
           (call\<lparr>tc_status := TC_VALIDATED\<rparr>) (am_context am))
       in tool_requires_approval t \<or> level = CRITICAL
            \<or> (\<exists>l. po_approval_required_from (am_policy am) = Some l \<and> l \<le> level) \<longrightarrow>
          (\<exists>i s. approved_in aenv am i t call s \<and> (s = rn_auth st \<or>
             (\<exists>p0 s0 p. authorize aenv am (rv_registry env) (tc_task_id call) t
                  (call\<lparr>tc_status := TC_VALIDATED\<rparr>) (rn_auth st) = (Inr p0, s0)
                \<and> await_approval (ae_sha aenv) am 0 None polls p0 s0 = Some (p, s)
                \<and> i = pm_approval_id p))))"
proof -
  have "needs_approval am t level \<longleftrightarrow> tool_requires_approval t \<or> level = CRITICAL
      \<or> (\<exists>l. po_approval_required_from (am_policy am) = Some l \<and> l \<le> level)" for t level
    by (auto simp: needs_approval_def less_eq_risk_level_def split: option.split)
  with run_approved [OF assms] show ?thesis unfolding Let_def approved_for_def by simp
qed

definition shell_registry :: "handler registry" where
  "shell_registry = \<lparr>rg_tools = [(''terminal.execute'', shell_tool)],
     rg_handlers = [(''terminal.execute'', \<lambda>_. (1, Inr (H_Result ok_result)))], rg_guards = []\<rparr>"

definition managed_env :: "approval_store option tool_env" where
  "managed_env = \<lparr>rv_sha = id, rv_float = (\<lambda>_. ''1.0''), rv_schema = (\<lambda>_ _. Some []), rv_profiles = [],
     rv_authorizer = manager_authorizer (demo_env 2) 3 demo_manager shell_registry [],
     rv_registry = shell_registry, rv_registry_late = shell_registry,
     rv_cancelled_first = False, rv_cancelled_waiting = False, rv_cancelled_last = False,
     rv_begin_at = 3, rv_finish_at = 4, rv_sandbox = (\<lambda>_ _ _ _ _. Inr (H_Result ok_result))\<rparr>"

definition managed_runner :: "approval_store option runner" where
  "managed_runner = \<lparr>rn_auth = Some demo_store, rn_ledger = Some [], rn_seen = [], rn_events = [],
     rn_audit = [], rn_runs = []\<rparr>"

lemma demo_run_store: "run_store (ae_sha (demo_env 2)) demo_ops (rn_auth managed_runner)"
proof -
  have "new_approval_store True 900 = Inr \<lparr>as_has_repo = True, as_table = [], as_default_ttl = 900\<rparr>"
    by (simp add: new_approval_store_def)
  moreover have "fresh_run id demo_ops \<lparr>as_has_repo = True, as_table = [], as_default_ttl = 900\<rparr>" by code_simp
  ultimately show ?thesis
    unfolding run_store_def managed_runner_def demo_store_def by (auto simp: demo_env_def)
qed

lemma critical_execution_was_approved_witness:
  "\<exists>i s. approved_in (demo_env 2) demo_manager i shell_tool shell_call s"
proof -
  have auth: "rv_authorizer managed_env
      = manager_authorizer (demo_env 2) 3 demo_manager (rv_registry managed_env) []"
    by (simp add: managed_env_def)
  have reg: "wf_registry (rv_registry managed_env)" by code_simp
  have "length (rn_runs (result_state (run_tool managed_env shell_call managed_runner))) = 1" by code_simp
  then have run: "rn_runs (result_state (run_tool managed_env shell_call managed_runner)) \<noteq> rn_runs managed_runner"
    by (auto simp: managed_runner_def)
  have level: "ra_level (assess (ae_resolve (demo_env 2)) (am_allow_shells demo_manager) (tc_task_id shell_call)
      shell_tool (shell_call\<lparr>tc_status := TC_VALIDATED\<rparr>) (am_context demo_manager)) = CRITICAL" by code_simp
  have "map_option tool_name (reg_get (tc_tool shell_call) (rv_registry managed_env)) = Some (tool_name shell_tool)
    \<and> reg_get (tc_tool shell_call) (rv_registry managed_env) = Some shell_tool"
    by (simp add: reg_get_def managed_env_def shell_registry_def shell_call_def)
  with critical_execution_was_approved [OF auth reg demo_run_store run] level show ?thesis
    unfolding Let_def by auto
qed

end
