(* ===== verification/Planner.thy ===== *)
theory Planner
  imports Domain "HOL-Library.Multiset"
begin

text \<open>
  Plan validation (\<^verbatim>\<open>agent/planner/validator.py\<close>): Kahn's topological ordering and the
  structural gate every plan passes before it may run. The ordering is proved to return a
  permutation of the steps in which every dependency comes first, and to fail exactly on an
  unknown dependency or a dependency cycle.
\<close>

subsection \<open>DependencyResolver.order\<close>

definition lookup0 :: "(string \<times> int) list \<Rightarrow> string \<Rightarrow> int" where
  "lookup0 d k = (case map_of d k of None \<Rightarrow> 0 | Some n \<Rightarrow> n)"

definition lookup_list :: "(string \<times> 'a list) list \<Rightarrow> string \<Rightarrow> 'a list" where
  "lookup_list d k = (case map_of d k of None \<Rightarrow> [] | Some xs \<Rightarrow> xs)"

text \<open>The first dependency that is the step itself or unknown.\<close>

fun check_deps :: "string list \<Rightarrow> string \<Rightarrow> string list \<Rightarrow> unit result" where
  "check_deps known sid [] = Inr ()"
| "check_deps known sid (dep # deps) =
     (if dep = sid then Inl (PlanValidationError (''step '' @ repr_str sid @ '' depends on itself''))
      else if dep \<notin> set known
        then Inl (PlanValidationError
               (''step '' @ repr_str sid @ '' depends on unknown step '' @ repr_str dep))
      else check_deps known sid deps)"

fun check_all_deps :: "string list \<Rightarrow> plan_step list \<Rightarrow> unit result" where
  "check_all_deps known [] = Inr ()"
| "check_all_deps known (s # ss) =
     bind_result (check_deps known (ps_id s) (ps_dependencies s)) (\<lambda>_. check_all_deps known ss)"

text \<open>One edge \<open>dep \<rightarrow> step\<close> into the two tables.\<close>

type_synonym kahn_tables = "(string \<times> string list) list \<times> (string \<times> int) list"

definition add_edge :: "string \<Rightarrow> string \<Rightarrow> kahn_tables \<Rightarrow> kahn_tables" where
  "add_edge sid dep = (\<lambda>(children, incoming).
     (dict_set dep (lookup_list children dep @ [sid]) children,
      dict_set sid (lookup0 incoming sid + 1) incoming))"

definition build_tables :: "plan_step list \<Rightarrow> kahn_tables" where
  "build_tables steps =
     fold (\<lambda>s. fold (add_edge (ps_id s)) (ps_dependencies s)) steps
       (fold (\<lambda>s. dict_set (ps_id s) []) steps [], fold (\<lambda>s. dict_set (ps_id s) 0) steps [])"

text \<open>The inner loop: a finished step releases its children.\<close>

fun release :: "string list \<Rightarrow> (string \<times> int) list \<Rightarrow> string list \<Rightarrow> (string \<times> int) list \<times> string list" where
  "release [] incoming ready = (incoming, ready)"
| "release (c # cs) incoming ready =
     (let n = lookup0 incoming c - 1; incoming' = dict_set c n incoming
      in release cs incoming' (if n = 0 then ready @ [c] else ready))"

text \<open>Steps that still wait; with the ready queue it bounds the outer loop.\<close>

definition waiting :: "(string \<times> int) list \<Rightarrow> nat" where
  "waiting incoming = length (filter (\<lambda>(k, n). 0 < n) incoming)"

lemma waiting_dict_set:
  "lookup0 d c = n + 1 \<Longrightarrow> waiting (dict_set c n d) + (if n = 0 then 1 else 0) \<le> waiting d"
proof (induction d)
  case Nil
  then show ?case by (simp add: lookup0_def waiting_def)
next
  case (Cons p d)
  obtain k m where p: "p = (k, m)" by (cases p)
  from Cons p show ?case by (auto simp: lookup0_def waiting_def split: if_splits)
qed

lemma release_measure:
  "release cs incoming ready = (incoming', ready')
     \<Longrightarrow> length ready' + waiting incoming' \<le> length ready + waiting incoming"
proof (induction cs arbitrary: incoming ready)
  case Nil
  then show ?case by simp
next
  case (Cons c cs)
  let ?n = "lookup0 incoming c - 1"
  have "length ready' + waiting incoming'
      \<le> length (if ?n = 0 then ready @ [c] else ready) + waiting (dict_set c ?n incoming)"
    by (rule Cons.IH) (use Cons.prems in \<open>simp add: Let_def\<close>)
  moreover have "waiting (dict_set c ?n incoming) + (if ?n = 0 then 1 else 0) \<le> waiting incoming"
    by (rule waiting_dict_set) simp
  ultimately show ?case by (simp split: if_splits)
qed

function kahn_loop ::
  "(string \<times> plan_step) list \<Rightarrow> (string \<times> string list) list \<Rightarrow> (string \<times> int) list
     \<Rightarrow> string list \<Rightarrow> plan_step list \<Rightarrow> plan_step list" where
  "kahn_loop by_id children incoming [] ordered = ordered"
| "kahn_loop by_id children incoming (current # ready) ordered =
     (case release (lookup_list children current) incoming ready of
        (incoming', ready') \<Rightarrow>
          kahn_loop by_id children incoming' ready' (ordered @ [the (map_of by_id current)]))"
  by pat_completeness auto
termination
  by (relation "measure (\<lambda>(by_id, children, incoming, ready, ordered). length ready + waiting incoming)")
    (auto simp: less_Suc_eq_le dest!: sym [of "(_, _)"] intro!: release_measure)

definition order_steps :: "plan_step list \<Rightarrow> plan_step list result" where
  "order_steps steps =
     (let by_id = fold (\<lambda>s. dict_set (ps_id s) s) steps [] in
      bind_result (check_all_deps (keys by_id) steps) (\<lambda>_.
        let (children, incoming) = build_tables steps;
            ready = map ps_id (filter (\<lambda>s. lookup0 incoming (ps_id s) = 0) steps);
            ordered = kahn_loop by_id children incoming ready []
        in if length ordered \<noteq> length steps
           then Inl (PlanValidationError ''plan contains a dependency cycle'')
           else Inr ordered))"

subsection \<open>The tables\<close>

definition deps_of :: "plan_step list \<Rightarrow> string \<Rightarrow> string list" where
  "deps_of steps i = (case find (\<lambda>s. ps_id s = i) steps of None \<Rightarrow> [] | Some s \<Rightarrow> ps_dependencies s)"

definition edge_count :: "plan_step list \<Rightarrow> string \<Rightarrow> string \<Rightarrow> nat" where
  "edge_count steps dep sid =
     sum_list (map (\<lambda>s. if ps_id s = sid then count_list (ps_dependencies s) dep else 0) steps)"

definition in_count :: "plan_step list \<Rightarrow> string \<Rightarrow> nat" where
  "in_count steps sid = sum_list (map (\<lambda>s. if ps_id s = sid then length (ps_dependencies s) else 0) steps)"

lemma lookup_list_dict_set [simp]:
  "lookup_list (dict_set k v d) k' = (if k' = k then v else lookup_list d k')"
  by (simp add: lookup_list_def)

lemma lookup0_dict_set [simp]:
  "lookup0 (dict_set k v d) k' = (if k' = k then v else lookup0 d k')"
  by (simp add: lookup0_def)

lemma fold_add_edge:
  "fold (add_edge sid) deps (ch, inc) = (ch', inc') \<Longrightarrow>
     (\<forall>d c. count_list (lookup_list ch' d) c
        = count_list (lookup_list ch d) c + (if c = sid then count_list deps d else 0))
   \<and> (\<forall>c. lookup0 inc' c = lookup0 inc c + (if c = sid then int (length deps) else 0))"
proof (induction deps arbitrary: ch inc)
  case Nil
  then show ?case by simp
next
  case (Cons dep deps)
  from Cons.prems have "fold (add_edge sid) deps
      (dict_set dep (lookup_list ch dep @ [sid]) ch, dict_set sid (lookup0 inc sid + 1) inc) = (ch', inc')"
    by (simp only: fold_simps add_edge_def [of sid dep] prod.case)
  from Cons.IH [OF this] show ?case by auto
qed

lemma fold_add_edges:
  "fold (\<lambda>s. fold (add_edge (ps_id s)) (ps_dependencies s)) steps (ch, inc) = (ch', inc') \<Longrightarrow>
     (\<forall>d c. count_list (lookup_list ch' d) c = count_list (lookup_list ch d) c + edge_count steps d c)
   \<and> (\<forall>c. lookup0 inc' c = lookup0 inc c + int (in_count steps c))"
proof (induction steps arbitrary: ch inc)
  case Nil
  then show ?case by (simp add: edge_count_def in_count_def)
next
  case (Cons s steps)
  obtain ch1 inc1 where one: "fold (add_edge (ps_id s)) (ps_dependencies s) (ch, inc) = (ch1, inc1)"
    by fastforce
  with Cons.prems have "fold (\<lambda>s. fold (add_edge (ps_id s)) (ps_dependencies s)) steps (ch1, inc1)
      = (ch', inc')" by simp
  from Cons.IH [OF this] fold_add_edge [OF one] show ?case
    by (auto simp: edge_count_def in_count_def)
qed

lemma fold_init_children:
  "lookup_list t d = [] \<Longrightarrow> lookup_list (fold (\<lambda>s. dict_set (ps_id s) []) steps t) d = []"
  by (induction steps arbitrary: t) auto

lemma fold_init_incoming:
  "lookup0 t d = 0 \<Longrightarrow> lookup0 (fold (\<lambda>s. dict_set (ps_id s) 0) steps t) d = 0"
  by (induction steps arbitrary: t) auto

lemma lookup_empty [simp]: "lookup_list [] d = []" "lookup0 [] d = 0"
  by (simp_all add: lookup_list_def lookup0_def)

lemma build_tables_spec:
  "build_tables steps = (ch, inc) \<Longrightarrow>
     (\<forall>d c. count_list (lookup_list ch d) c = edge_count steps d c)
   \<and> (\<forall>c. lookup0 inc c = int (in_count steps c))"
  unfolding build_tables_def by (drule fold_add_edges) (simp add: fold_init_children fold_init_incoming)

lemma keys_by_id: "set (keys (fold (\<lambda>s. dict_set (ps_id s) s) steps d)) = set (keys d) \<union> ps_id ` set steps"
  by (induction steps arbitrary: d) auto

lemma by_id_spec:
  "distinct (map ps_id steps) \<Longrightarrow> s \<in> set steps
     \<Longrightarrow> map_of (fold (\<lambda>s. dict_set (ps_id s) s) steps d) (ps_id s) = Some s"
proof (induction steps rule: rev_induct)
  case Nil
  then show ?case by simp
next
  case (snoc x steps)
  show ?case
  proof (cases "s = x")
    case True
    then show ?thesis by simp
  next
    case False
    with snoc.prems have mem: "s \<in> set steps" by simp
    then have "ps_id s \<in> ps_id ` set steps" by (rule imageI)
    with snoc.prems have "ps_id s \<noteq> ps_id x" by auto
    with snoc mem show ?thesis by simp
  qed
qed

lemma check_deps_Inr: "check_deps known sid deps = Inr u \<longleftrightarrow> (\<forall>d \<in> set deps. d \<noteq> sid \<and> d \<in> set known)"
  by (induction deps) auto

lemma check_all_deps_Inr:
  "check_all_deps known steps = Inr u \<longleftrightarrow>
     (\<forall>s \<in> set steps. \<forall>d \<in> set (ps_dependencies s). d \<noteq> ps_id s \<and> d \<in> set known)"
  by (induction steps) (auto simp: bind_result_Inr_iff check_deps_Inr)

text \<open>With distinct identifiers a step's counts are those of its own dependency list.\<close>

lemma edge_count_simps [simp]:
  "edge_count [] d c = 0"
  "edge_count (s # ss) d c = (if ps_id s = c then count_list (ps_dependencies s) d else 0) + edge_count ss d c"
  by (simp_all add: edge_count_def)

lemma in_count_simps [simp]:
  "in_count [] c = 0"
  "in_count (s # ss) c = (if ps_id s = c then length (ps_dependencies s) else 0) + in_count ss c"
  by (simp_all add: in_count_def)

lemma counts_absent:
  "c \<notin> ps_id ` set steps \<Longrightarrow> edge_count steps d c = 0 \<and> in_count steps c = 0"
  by (induction steps) auto

lemma counts_distinct:
  "distinct (map ps_id steps) \<Longrightarrow> s \<in> set steps
     \<Longrightarrow> edge_count steps d (ps_id s) = count_list (ps_dependencies s) d
       \<and> in_count steps (ps_id s) = length (ps_dependencies s)"
proof (induction steps)
  case Nil
  then show ?case by simp
next
  case (Cons x steps)
  show ?case
  proof (cases "s = x")
    case True
    with Cons.prems counts_absent [of "ps_id x" steps d] show ?thesis by simp
  next
    case False
    with Cons.prems have "s \<in> set steps" "ps_id x \<noteq> ps_id s" by auto
    with Cons show ?thesis by simp
  qed
qed

subsection \<open>The inner loop\<close>

text \<open>
  Releasing the children \<open>cs\<close> of a finished step: every counter goes down by the number of
  edges, and exactly the steps whose counter reaches zero are appended, once each.
\<close>

lemma release_spec:
  assumes "release cs inc ready = (inc', ready')"
    and "\<And>c. int (count_list cs c) \<le> lookup0 inc c"
  shows "(\<forall>c. lookup0 inc' c = lookup0 inc c - int (count_list cs c))
    \<and> (\<exists>zs. ready' = ready @ zs \<and> distinct zs
         \<and> set zs = {c \<in> set cs. lookup0 inc c = int (count_list cs c)})"
  using assms
proof (induction cs arbitrary: inc ready)
  case Nil
  then show ?case by simp
next
  case (Cons c cs)
  let ?n = "lookup0 inc c - 1"
  let ?inc = "dict_set c ?n inc" and ?ready = "if ?n = 0 then ready @ [c] else ready"
  have step: "release cs ?inc ?ready = (inc', ready')" using Cons.prems(1) by (simp add: Let_def)
  have le: "int (count_list cs d) \<le> lookup0 ?inc d" for d
    using Cons.prems(2) [of d] by (auto split: if_splits)
  from Cons.IH [OF step le] obtain zs where
    low: "\<forall>d. lookup0 inc' d = lookup0 ?inc d - int (count_list cs d)"
    and zs: "ready' = ?ready @ zs" "distinct zs"
      "set zs = {d \<in> set cs. lookup0 ?inc d = int (count_list cs d)}" by blast
  have zero: "?n = 0 \<Longrightarrow> c \<notin> set cs"
    using Cons.prems(2) [of c] by (auto simp: count_list_0_iff)
  let ?zs = "if ?n = 0 then c # zs else zs"
  have "ready' = ready @ ?zs" "distinct ?zs" using zs zero by auto
  moreover have "set ?zs = {d \<in> set (c # cs). lookup0 inc d = int (count_list (c # cs) d)}"
  proof (rule set_eqI)
    fix d
    show "d \<in> set ?zs \<longleftrightarrow> d \<in> {d \<in> set (c # cs). lookup0 inc d = int (count_list (c # cs) d)}"
    proof (cases "d = c")
      case True
      have mem: "c \<in> set zs \<longleftrightarrow> c \<in> set cs \<and> ?n = int (count_list cs c)"
        using zs(3) by simp
      have "c \<in> set ?zs \<longleftrightarrow> ?n = int (count_list cs c)"
      proof (cases "?n = 0")
        case True
        then have "count_list cs c = 0" using zero by simp
        with True show ?thesis by simp
      next
        case False
        then have "?n = int (count_list cs c) \<Longrightarrow> c \<in> set cs"
          by (metis count_list_0_iff of_nat_0)
        with False mem show ?thesis by (simp only: if_False) blast
      qed
      then show ?thesis unfolding True by (simp only: mem_Collect_eq count_list.simps) fastforce
    next
      case False
      with zs(3) show ?thesis by auto
    qed
  qed
  moreover have "\<forall>d. lookup0 inc' d = lookup0 inc d - int (count_list (c # cs) d)"
    using low by auto
  ultimately show ?case by blast
qed

subsection \<open>The loop\<close>

text \<open>Every dependency of a step is among \<open>seen\<close> and the steps before it.\<close>

fun topo_from :: "string list \<Rightarrow> plan_step list \<Rightarrow> bool" where
  "topo_from seen [] = True"
| "topo_from seen (s # ss) =
     (set (ps_dependencies s) \<subseteq> set seen \<and> topo_from (seen @ [ps_id s]) ss)"

lemma topo_from_append:
  "topo_from seen (xs @ ys) \<longleftrightarrow> topo_from seen xs \<and> topo_from (seen @ map ps_id xs) ys"
  by (induction xs arbitrary: seen) auto

text \<open>The dependency relation of a plan, and what makes a plan closed.\<close>

definition dep_rel :: "plan_step list \<Rightarrow> (string \<times> string) set" where
  "dep_rel steps = {(d, ps_id s) | d s. s \<in> set steps \<and> d \<in> set (ps_dependencies s)}"

definition closed_steps :: "plan_step list \<Rightarrow> bool" where
  "closed_steps steps \<longleftrightarrow> distinct (map ps_id steps)
     \<and> (\<forall>s \<in> set steps. set (ps_dependencies s) \<subseteq> ps_id ` set steps)"

definition open_deps :: "string list \<Rightarrow> plan_step \<Rightarrow> string list" where
  "open_deps done s = filter (\<lambda>d. d \<notin> set done) (ps_dependencies s)"

definition kahn_inv ::
  "plan_step list \<Rightarrow> (string \<times> int) list \<Rightarrow> string list \<Rightarrow> plan_step list \<Rightarrow> bool" where
  "kahn_inv steps inc ready ordered \<longleftrightarrow>
     distinct (map ps_id ordered @ ready) \<and> set ordered \<subseteq> set steps \<and> set ready \<subseteq> ps_id ` set steps
   \<and> topo_from [] ordered
   \<and> (\<forall>c. c \<notin> ps_id ` set steps \<longrightarrow> lookup0 inc c = 0)
   \<and> (\<forall>s \<in> set steps. lookup0 inc (ps_id s) = int (length (open_deps (map ps_id ordered) s))
        \<and> (ps_id s \<in> set (map ps_id ordered @ ready) \<longleftrightarrow> lookup0 inc (ps_id s) = 0))"

lemma open_deps_snoc:
  "r \<notin> set done \<Longrightarrow> length (open_deps (done @ [r]) s) + count_list (ps_dependencies s) r
     = length (open_deps done s)"
proof -
  assume r: "r \<notin> set done"
  have "length (filter (\<lambda>d. d \<notin> set (done @ [r])) ds) + count_list ds r
      = length (filter (\<lambda>d. d \<notin> set done) ds)" for ds
    using r by (induction ds) auto
  then show ?thesis by (simp add: open_deps_def)
qed

lemma step_of_id:
  "distinct (map ps_id steps) \<Longrightarrow> s \<in> set steps \<Longrightarrow> t \<in> set steps \<Longrightarrow> ps_id s = ps_id t \<Longrightarrow> s = t"
  by (auto simp: distinct_map dest: inj_onD)

lemma kahn_inv_step:
  assumes closed: "closed_steps steps"
    and ch: "\<And>d c. count_list (lookup_list ch d) c = edge_count steps d c"
    and inv: "kahn_inv steps inc (r # ready) ordered"
    and rel: "release (lookup_list ch r) inc ready = (inc', ready')"
    and cur: "cur \<in> set steps" "ps_id cur = r"
  shows "kahn_inv steps inc' ready' (ordered @ [cur])"
proof -
  let ?O = "map ps_id ordered" and ?cs = "lookup_list ch r"
  have dist: "distinct (map ps_id steps)" using closed by (simp add: closed_steps_def)
  have rO: "r \<notin> set ?O" using inv by (auto simp: kahn_inv_def)
  have cnt: "count_list ?cs (ps_id s) = count_list (ps_dependencies s) r" if "s \<in> set steps" for s
    using ch counts_distinct [OF dist that] by simp
  have cnt0: "count_list ?cs c = 0" if "c \<notin> ps_id ` set steps" for c
    using ch counts_absent [OF that] by simp
  have incs: "lookup0 inc (ps_id s) = int (length (open_deps ?O s))" if "s \<in> set steps" for s
    using inv that by (simp add: kahn_inv_def)
  have le: "int (count_list ?cs c) \<le> lookup0 inc c" for c
  proof (cases "c \<in> ps_id ` set steps")
    case True
    then obtain s where s: "s \<in> set steps" "c = ps_id s" by blast
    with open_deps_snoc [OF rO, of s] show ?thesis by (simp add: cnt incs)
  next
    case False
    with inv cnt0 show ?thesis by (simp add: kahn_inv_def)
  qed
  from release_spec [OF rel le] obtain zs where
    inc': "\<And>c. lookup0 inc' c = lookup0 inc c - int (count_list ?cs c)"
    and zs: "ready' = ready @ zs" "distinct zs"
      "set zs = {c \<in> set ?cs. lookup0 inc c = int (count_list ?cs c)}" by blast
  have zs_id: "\<exists>s \<in> set steps. c = ps_id s \<and> lookup0 inc c > 0" if "c \<in> set zs" for c
  proof -
    from that zs(3) have "count_list ?cs c \<noteq> 0" "lookup0 inc c = int (count_list ?cs c)"
      by (auto simp: count_list_0_iff)
    with cnt0 show ?thesis by fastforce
  qed
  have zs_new: "c \<notin> set (?O @ r # ready)" if "c \<in> set zs" for c
    using zs_id [OF that] inv by (auto simp: kahn_inv_def)
  have inc's: "lookup0 inc' (ps_id s) = int (length (open_deps (?O @ [r]) s))" if "s \<in> set steps" for s
    using inc' [of "ps_id s"] incs [OF that] cnt [OF that] open_deps_snoc [OF rO, of s] by simp
  have member: "ps_id s \<in> set (?O @ [r] @ ready') \<longleftrightarrow> lookup0 inc' (ps_id s) = 0" if s: "s \<in> set steps" for s
  proof -
    have old: "ps_id s \<in> set (?O @ r # ready) \<longleftrightarrow> lookup0 inc (ps_id s) = 0"
      using inv s by (auto simp: kahn_inv_def)
    have "ps_id s \<in> set zs \<longleftrightarrow> lookup0 inc (ps_id s) \<noteq> 0 \<and> lookup0 inc' (ps_id s) = 0"
    proof -
      have "ps_id s \<in> set zs \<longleftrightarrow> ps_id s \<in> set ?cs \<and> lookup0 inc (ps_id s) = int (count_list ?cs (ps_id s))"
        using zs(3) by simp
      moreover have "ps_id s \<in> set ?cs \<longleftrightarrow> int (count_list ?cs (ps_id s)) \<noteq> 0"
        by (simp add: count_list_0_iff)
      ultimately show ?thesis unfolding inc' by linarith
    qed
    moreover have "lookup0 inc (ps_id s) = 0 \<Longrightarrow> lookup0 inc' (ps_id s) = 0"
      using inc' [of "ps_id s"] le [of "ps_id s"] inc's [OF s] by simp
    ultimately show ?thesis using old zs(1) by auto
  qed
  have deps: "set (ps_dependencies cur) \<subseteq> set ?O"
  proof -
    have "lookup0 inc r = 0" using inv cur by (auto simp: kahn_inv_def)
    then have "open_deps ?O cur = []" using incs [OF cur(1)] cur(2) by simp
    then show ?thesis unfolding open_deps_def filter_empty_conv by blast
  qed
  have "distinct (map ps_id (ordered @ [cur]) @ ready')"
    using inv zs(1,2) zs_new cur(2) by (auto simp: kahn_inv_def)
  moreover have "set ready' \<subseteq> ps_id ` set steps"
    using inv zs(1) zs_id by (auto simp: kahn_inv_def)
  moreover have "topo_from [] (ordered @ [cur])"
    using inv deps by (simp add: kahn_inv_def topo_from_append)
  moreover have "\<forall>c. c \<notin> ps_id ` set steps \<longrightarrow> lookup0 inc' c = 0"
    using inv inc' cnt0 by (simp add: kahn_inv_def)
  ultimately show ?thesis
    using inv cur inc's member by (simp add: kahn_inv_def)
qed

lemma kahn_loop_inv:
  assumes "closed_steps steps" and "\<And>d c. count_list (lookup_list ch d) c = edge_count steps d c"
    and "\<And>s. s \<in> set steps \<Longrightarrow> map_of by_id (ps_id s) = Some s"
    and "kahn_inv steps inc ready ordered"
  shows "\<exists>inc'. kahn_inv steps inc' [] (kahn_loop by_id ch inc ready ordered)"
  using assms
proof (induction by_id ch inc ready ordered rule: kahn_loop.induct)
  case (1 by_id children incoming ordered)
  then show ?case by auto
next
  case (2 by_id children incoming current ready ordered)
  obtain inc' ready' where rel: "release (lookup_list children current) incoming ready = (inc', ready')"
    by fastforce
  from "2.prems"(4) obtain s where s: "s \<in> set steps" "ps_id s = current"
    by (auto simp: kahn_inv_def)
  then have cur: "the (map_of by_id current) = s" using "2.prems"(3) by force
  have "kahn_inv steps inc' ready' (ordered @ [s])"
    by (rule kahn_inv_step [OF "2.prems"(1,2,4) rel s])
  with 2 rel cur show ?case by simp
qed

subsection \<open>What the ordering returns\<close>

lemma kahn_inv_init:
  assumes "closed_steps steps" and inc: "\<And>c. lookup0 inc c = int (in_count steps c)"
  shows "kahn_inv steps inc (map ps_id (filter (\<lambda>s. lookup0 inc (ps_id s) = 0) steps)) []"
proof -
  have dist: "distinct (map ps_id steps)" using assms(1) by (simp add: closed_steps_def)
  let ?ready = "map ps_id (filter (\<lambda>s. lookup0 inc (ps_id s) = 0) steps)"
  have "lookup0 inc (ps_id s) = int (length (open_deps [] s))" if "s \<in> set steps" for s
    using inc counts_distinct [OF dist that] by (simp add: open_deps_def)
  moreover have "ps_id s \<in> set ?ready \<longleftrightarrow> lookup0 inc (ps_id s) = 0" if "s \<in> set steps" for s
    using that by force
  moreover have "\<forall>c. c \<notin> ps_id ` set steps \<longrightarrow> lookup0 inc c = 0"
    using inc counts_absent by simp
  ultimately show ?thesis
    using dist by (auto simp: kahn_inv_def distinct_map_filter)
qed

lemma finite_dep_rel: "finite (dep_rel steps)"
proof -
  have "dep_rel steps = (\<Union>s \<in> set steps. (\<lambda>d. (d, ps_id s)) ` set (ps_dependencies s))"
    by (auto simp: dep_rel_def)
  then show ?thesis by simp
qed

lemma kahn_final:
  assumes closed: "closed_steps steps" and inv: "kahn_inv steps inc [] ordered"
  shows "length ordered = length steps \<Longrightarrow> mset ordered = mset steps"
    and "acyclic (dep_rel steps) \<Longrightarrow> length ordered = length steps"
proof -
  have dist: "distinct (map ps_id steps)" "distinct (map ps_id ordered)" "set ordered \<subseteq> set steps"
    using closed inv by (simp_all add: closed_steps_def kahn_inv_def)
  then have ds: "distinct steps" "distinct ordered" by (auto simp: distinct_map)
  {
    assume "length ordered = length steps"
    then have "card (set ordered) = card (set steps)" using ds by (simp add: distinct_card)
    then have "set ordered = set steps" using dist(3) by (simp add: card_subset_eq)
    then show "mset ordered = mset steps" using ds by (simp add: set_eq_iff_mset_eq_distinct)
  }
  assume ac: "acyclic (dep_rel steps)"
  show "length ordered = length steps"
  proof (rule ccontr)
    assume ne: "length ordered \<noteq> length steps"
    let ?U = "ps_id ` set steps - set (map ps_id ordered)"
    have wf: "wf (dep_rel steps)" using ac finite_dep_rel by (rule finite_acyclic_wf [rotated])
    have "card (ps_id ` set ordered) = length ordered" "card (ps_id ` set steps) = length steps"
      using dist(1,2) by (metis distinct_card length_map set_map)+
    then have "?U \<noteq> {}" using ne dist(3)
      by (metis Diff_eq_empty_iff image_mono set_map subset_antisym)
    then obtain u where u: "u \<in> ?U" "\<And>v. (v, u) \<in> dep_rel steps \<Longrightarrow> v \<notin> ?U"
      using wf by (metis ex_in_conv wf_eq_minimal)
    then obtain s where s: "s \<in> set steps" "u = ps_id s" by blast
    with inv u(1) have "open_deps (map ps_id ordered) s \<noteq> []" by (auto simp: kahn_inv_def)
    then obtain d where d: "d \<in> set (ps_dependencies s)" "d \<notin> set (map ps_id ordered)"
      by (auto simp: open_deps_def filter_empty_conv)
    then have "d \<in> ?U" using closed s(1) by (auto simp: closed_steps_def)
    moreover have "(d, u) \<in> dep_rel steps" using s d by (auto simp: dep_rel_def)
    ultimately show False using u(2) by blast
  qed
qed

text \<open>A topological order of all the steps leaves no room for a cycle.\<close>

lemma topo_index:
  assumes "topo_from seen ss" "distinct (seen @ map ps_id ss)" "s \<in> set ss" "d \<in> set (ps_dependencies s)"
  shows "\<exists>a b. seen @ map ps_id ss = a @ ps_id s # b \<and> d \<in> set a"
  using assms
proof (induction ss arbitrary: seen)
  case Nil
  then show ?case by simp
next
  case (Cons x ss)
  show ?case
  proof (cases "s = x")
    case True
    with Cons.prems show ?thesis by auto
  next
    case False
    with Cons.prems have "\<exists>a b. (seen @ [ps_id x]) @ map ps_id ss = a @ ps_id s # b \<and> d \<in> set a"
      by (intro Cons.IH) auto
    then show ?thesis by simp
  qed
qed

definition position :: "string list \<Rightarrow> string \<Rightarrow> nat" where
  "position ids i = length (takeWhile (\<lambda>j. j \<noteq> i) ids)"

lemma position_before:
  assumes "distinct ids" "ids = a @ i # b" "d \<in> set a"
  shows "position ids d < position ids i"
proof -
  have na: "i \<notin> set a" using assms(1,2) by simp
  have tw: "takeWhile (\<lambda>j. j \<noteq> i) (a @ i # b) = a"
    by (subst takeWhile_append2) (use na in auto)
  have "length (takeWhile (\<lambda>j. j \<noteq> d) a) < length a"
    using assms(3) by (induction a) auto
  moreover have "takeWhile (\<lambda>j. j \<noteq> d) (a @ i # b) = takeWhile (\<lambda>j. j \<noteq> d) a"
    using assms(3) by (subst takeWhile_append1 [of d]) auto
  ultimately show ?thesis by (simp add: position_def assms(2) tw)
qed

lemma topo_acyclic:
  assumes "topo_from [] ss" "distinct (map ps_id ss)"
  shows "acyclic (dep_rel ss)"
proof -
  let ?pos = "position (map ps_id ss)"
  have "dep_rel ss \<subseteq> measure ?pos"
  proof
    fix p assume "p \<in> dep_rel ss"
    then obtain d s where p: "p = (d, ps_id s)" "s \<in> set ss" "d \<in> set (ps_dependencies s)"
      by (auto simp: dep_rel_def)
    from topo_index [OF assms(1) _ p(2,3)] assms(2) obtain a b where
      "map ps_id ss = a @ ps_id s # b" "d \<in> set a" by auto
    with position_before [OF assms(2)] show "p \<in> measure ?pos" by (simp add: p(1))
  qed
  then show ?thesis by (rule acyclic_subset [OF wf_acyclic [OF wf_measure]])
qed

lemma dep_rel_mset: "mset xs = mset ys \<Longrightarrow> dep_rel xs = dep_rel ys"
  unfolding dep_rel_def by (metis set_mset_mset)

lemma distinct_ids_mset: "mset xs = mset ys \<Longrightarrow> distinct (map ps_id xs) \<longleftrightarrow> distinct (map ps_id ys)"
  by (metis mset_eq_imp_distinct_iff mset_map)

lemma order_steps_closed:
  assumes "distinct (map ps_id steps)"
  shows "order_steps steps = Inr ordered \<Longrightarrow> closed_steps steps \<and> mset ordered = mset steps
          \<and> topo_from [] ordered"
    and "closed_steps steps \<Longrightarrow> (\<forall>s \<in> set steps. ps_id s \<notin> set (ps_dependencies s))
          \<Longrightarrow> acyclic (dep_rel steps) \<Longrightarrow> \<exists>ordered. order_steps steps = Inr ordered"
proof -
  let ?by_id = "fold (\<lambda>s. dict_set (ps_id s) s) steps []"
  obtain ch inc where tables: "build_tables steps = (ch, inc)" by fastforce
  let ?ready = "map ps_id (filter (\<lambda>s. lookup0 inc (ps_id s) = 0) steps)"
  let ?loop = "kahn_loop ?by_id ch inc ?ready []"
  have ids: "set (keys ?by_id) = ps_id ` set steps" using keys_by_id [of steps "[]"] by simp
  have fin: "\<exists>inc'. kahn_inv steps inc' [] ?loop" if "closed_steps steps"
    by (rule kahn_loop_inv [OF that _ by_id_spec [OF assms] kahn_inv_init [OF that]])
      (use build_tables_spec [OF tables] in auto)
  {
    assume ok: "order_steps steps = Inr ordered"
    then have checked: "check_all_deps (keys ?by_id) steps = Inr ()"
      by (auto simp: order_steps_def Let_def bind_result_Inr_iff)
    then have closed: "closed_steps steps"
      using assms ids by (auto simp: closed_steps_def check_all_deps_Inr)
    from ok checked tables have "length ?loop = length steps" "ordered = ?loop"
      by (auto simp: order_steps_def Let_def split: if_splits)
    with fin [OF closed] kahn_final(1) [OF closed] show "closed_steps steps \<and> mset ordered = mset steps
        \<and> topo_from [] ordered"
      using closed by (auto simp: kahn_inv_def)
  }
  assume closed: "closed_steps steps" and irr: "\<forall>s \<in> set steps. ps_id s \<notin> set (ps_dependencies s)"
    and ac: "acyclic (dep_rel steps)"
  have "check_all_deps (keys ?by_id) steps = Inr ()"
    using closed irr ids by (auto simp: closed_steps_def check_all_deps_Inr)
  with fin [OF closed] kahn_final(2) [OF closed _ ac] tables
  show "\<exists>ordered. order_steps steps = Inr ordered"
    by (auto simp: order_steps_def Let_def)
qed

subsection \<open>PlanValidator\<close>

text \<open>The sets of the constructor are lists here; only membership and their sorted order are read.\<close>

record plan_validator =
  pv_known_tools :: "string list"
  pv_required_args :: "(string \<times> string list) list"
  pv_schemas :: "(string \<times> json) list"
  pv_max_steps :: int
  pv_max_arguments_bytes :: int

definition set_default :: "string \<Rightarrow> 'a \<Rightarrow> (string \<times> 'a) list \<Rightarrow> (string \<times> 'a) list" where
  "set_default k v d = (case map_of d k of None \<Rightarrow> dict_set k v d | Some _ \<Rightarrow> d)"

definition new_plan_validator ::
  "string list \<Rightarrow> (string \<times> string list) list \<Rightarrow> (string \<times> json) list \<Rightarrow> int \<Rightarrow> int \<Rightarrow> plan_validator" where
  "new_plan_validator known required schemas max_steps max_bytes =
     \<lparr>pv_known_tools = known,
      pv_required_args =
        fold (\<lambda>(name, schema) req.
            case schema of JObj ms \<Rightarrow> set_default name (schema_required ms) req | _ \<Rightarrow> req)
          schemas required,
      pv_schemas = schemas,
      pv_max_steps = max 1 max_steps,
      pv_max_arguments_bytes = max 1024 max_bytes\<rparr>"

definition refuse :: "string \<Rightarrow> 'a result" where
  "refuse msg = Inl (PlanValidationError msg)"

definition tool_properties :: "plan_validator \<Rightarrow> string \<Rightarrow> arguments" where
  "tool_properties pv name =
     (case map_of (pv_schemas pv) name of
        Some (JObj ms) \<Rightarrow> (case map_of ms ''properties'' of Some (JObj props) \<Rightarrow> props | _ \<Rightarrow> [])
      | _ \<Rightarrow> [])"

definition missing_prefix :: string where
  "missing_prefix = ''missing required''"

definition tool_contract :: "plan_validator \<Rightarrow> string \<Rightarrow> arguments" where
  "tool_contract pv name =
     [(''required'', JList (map JStr (sort (remdups (lookup_list (pv_required_args pv) name))))),
      (''properties'', JObj (tool_properties pv name))]"

definition check_step_tool :: "plan_validator \<Rightarrow> plan_step \<Rightarrow> string \<Rightarrow> unit result" where
  "check_step_tool pv step name =
     (let required = sort (remdups (lookup_list (pv_required_args pv) name));
          missing = filter (\<lambda>param. param \<notin> set (keys (ps_arguments step))) required
      in if missing \<noteq> []
         then refuse (''step '' @ repr_str (ps_id step) @ '' tool '' @ repr_str name
                @ '' is missing required arguments: '' @ join_str '', '' missing)
         else
           let problems = check_plain_arguments (tool_contract pv name) (ps_arguments step);
               type_problems = filter (\<lambda>p. \<not> prefix missing_prefix p) problems
           in if type_problems \<noteq> []
              then refuse (''step '' @ repr_str (ps_id step) @ '' tool '' @ repr_str name @ '': ''
                     @ join_str ''; '' type_problems)
              else Inr ())"

fun check_step_tools :: "plan_validator \<Rightarrow> plan_step \<Rightarrow> string list \<Rightarrow> unit result" where
  "check_step_tools pv step [] = Inr ()"
| "check_step_tools pv step (name # names) =
     bind_result (check_step_tool pv step name) (\<lambda>_. check_step_tools pv step names)"

definition validate_step :: "plan_validator \<Rightarrow> plan_step \<Rightarrow> unit result" where
  "validate_step pv step =
     (let who = ''step '' @ repr_str (ps_id step);
          unknown = filter (\<lambda>name. name \<notin> set (pv_known_tools pv)) (ps_tools step)
      in if strip_str (ps_description step) = [] then refuse (who @ '' has no description'')
         else if ps_tools step = [] then refuse (who @ '' names no tools'')
         else if unknown \<noteq> []
           then refuse (who @ '' uses unknown tools: '' @ join_str '', '' unknown)
         else if int (length (pydump (JObj (ps_arguments step)))) > pv_max_arguments_bytes pv
           then refuse (who @ '' arguments exceed '' @ int_text (pv_max_arguments_bytes pv) @ '' bytes'')
         else bind_result (check_step_tools pv step (ps_tools step)) (\<lambda>_.
           if ps_risk step = CRITICAL
             then refuse (who @ '' is CRITICAL risk and cannot be auto-planned'')
           else if strip_str (ps_completion_criteria step) = []
             then refuse (who @ '' has no completion criteria'')
           else if strip_str (ps_verification step) = [] then refuse (who @ '' has no verification'')
           else Inr ()))"

fun validate_steps :: "plan_validator \<Rightarrow> plan_step list \<Rightarrow> unit result" where
  "validate_steps pv [] = Inr ()"
| "validate_steps pv (s # ss) = bind_result (validate_step pv s) (\<lambda>_. validate_steps pv ss)"

definition validate_plan :: "plan_validator \<Rightarrow> plan \<Rightarrow> plan result" where
  "validate_plan pv p =
     (let steps = plan_steps p; ids = map ps_id steps in
      if strip_str (plan_goal p) = [] then refuse ''plan has no goal''
      else if steps = [] then refuse ''plan has no steps''
      else if int (length steps) > pv_max_steps pv
        then refuse (''plan has '' @ int_text (int (length steps)) @ '' steps (max ''
               @ int_text (pv_max_steps pv) @ '')'')
      else if [] \<in> set ids then refuse ''every step needs an id''
      else if \<not> distinct ids then refuse ''step ids must be unique''
      else bind_result (validate_steps pv steps) (\<lambda>_.
        bind_result (order_steps steps) (\<lambda>_.
          if strip_str (plan_final_verification p) = [] then refuse ''plan has no final verification''
          else Inr p)))"

subsection \<open>What an accepted plan satisfies\<close>

lemma check_step_tools_Inr:
  "check_step_tools pv step names = Inr () \<longleftrightarrow> (\<forall>name \<in> set names. check_step_tool pv step name = Inr ())"
  by (induction names) (auto simp: bind_result_Inr_iff)

lemma validate_steps_Inr:
  "validate_steps pv ss = Inr () \<longleftrightarrow> (\<forall>s \<in> set ss. validate_step pv s = Inr ())"
  by (induction ss) (auto simp: bind_result_Inr_iff)

lemma schema_required_contract:
  "schema_required (tool_contract pv name) = sort (remdups (lookup_list (pv_required_args pv) name))"
  by (simp add: schema_required_def tool_contract_def) (induction "sort (remdups (lookup_list (pv_required_args pv) name))", auto)

text \<open>The arguments carry every required parameter, each declared parameter with its JSON type.\<close>

definition tool_arguments_ok :: "plan_validator \<Rightarrow> arguments \<Rightarrow> string \<Rightarrow> bool" where
  "tool_arguments_ok pv args name \<longleftrightarrow>
     set (lookup_list (pv_required_args pv) name) \<subseteq> set (keys args)
   \<and> (\<forall>(param, want) \<in> set (tool_properties pv name).
        property_problem args (param, want) = [])"

lemma property_problem_prefix:
  assumes "p \<in> set (property_problem args pw)"
  shows "\<not> prefix missing_prefix p"
  using assms by (auto simp: property_problem_def missing_prefix_def split: prod.splits option.splits bool.splits)

lemma check_step_tool_Inr:
  "check_step_tool pv step name = Inr () \<longleftrightarrow> tool_arguments_ok pv (ps_arguments step) name"
proof -
  let ?req = "sort (remdups (lookup_list (pv_required_args pv) name))"
  let ?args = "ps_arguments step"
  show ?thesis
  proof (cases "\<forall>x \<in> set (lookup_list (pv_required_args pv) name). x \<in> set (keys ?args)")
    case False
    then have "filter (\<lambda>param. param \<notin> set (keys ?args)) ?req \<noteq> []" by (auto simp: filter_empty_conv)
    with False show ?thesis by (auto simp: check_step_tool_def refuse_def tool_arguments_ok_def Let_def)
  next
    case True
    then have none: "filter (\<lambda>param. param \<notin> set (keys ?args)) ?req = []" by (auto simp: filter_empty_conv)
    have "check_plain_arguments (tool_contract pv name) ?args
        = concat (map (property_problem ?args) (tool_properties pv name))"
      using none unfolding check_plain_arguments_def schema_required_contract
      by (simp add: tool_contract_def)
    moreover have "filter (\<lambda>p. \<not> prefix missing_prefix p) (concat (map (property_problem ?args) ps))
        = concat (map (property_problem ?args) ps)" for ps
      by (rule filter_True) (use property_problem_prefix in auto)
    ultimately show ?thesis using True none
      by (auto simp: check_step_tool_def refuse_def tool_arguments_ok_def Let_def)
  qed
qed

definition step_accepted :: "plan_validator \<Rightarrow> plan_step \<Rightarrow> bool" where
  "step_accepted pv s \<longleftrightarrow>
     ps_tools s \<noteq> [] \<and> set (ps_tools s) \<subseteq> set (pv_known_tools pv)
   \<and> int (length (pydump (JObj (ps_arguments s)))) \<le> pv_max_arguments_bytes pv
   \<and> (\<forall>name \<in> set (ps_tools s). tool_arguments_ok pv (ps_arguments s) name)
   \<and> ps_risk s \<noteq> CRITICAL
   \<and> strip_str (ps_description s) \<noteq> [] \<and> strip_str (ps_completion_criteria s) \<noteq> []
   \<and> strip_str (ps_verification s) \<noteq> []"

lemma validate_step_Inr: "validate_step pv s = Inr () \<longleftrightarrow> step_accepted pv s"
  by (auto simp: validate_step_def step_accepted_def refuse_def Let_def bind_result_Inr_iff
      check_step_tools_Inr check_step_tool_Inr filter_empty_conv not_less)

lemma acyclic_irrefl_steps:
  "acyclic (dep_rel steps) \<Longrightarrow> \<forall>s \<in> set steps. ps_id s \<notin> set (ps_dependencies s)"
  by (auto simp: acyclic_def dep_rel_def)

lemma order_steps_acyclic:
  assumes "distinct (map ps_id steps)" "order_steps steps = Inr ordered"
  shows "acyclic (dep_rel steps)"
proof -
  from order_steps_closed(1) [OF assms] have m: "mset ordered = mset steps" "topo_from [] ordered"
    by simp_all
  with assms(1) have "distinct (map ps_id ordered)" by (simp add: distinct_ids_mset [OF m(1)])
  then have "acyclic (dep_rel ordered)" by (rule topo_acyclic [OF m(2)])
  then show ?thesis by (simp add: dep_rel_mset [OF m(1)])
qed

text \<open>
  \<open>DependencyResolver.order\<close>, on steps with distinct ids, succeeds exactly when every
  dependency is a step of the plan and the dependency relation has no cycle; the list it returns
  is a permutation of the steps in which every step comes after all of its dependencies.
\<close>

theorem order_steps_correct:
  assumes "distinct (map ps_id steps)"
  shows "(is_inr (order_steps steps) \<longleftrightarrow> closed_steps steps \<and> acyclic (dep_rel steps))
       \<and> (\<forall>ordered. order_steps steps = Inr ordered
            \<longrightarrow> mset ordered = mset steps \<and> topo_from [] ordered)"
  using order_steps_closed [OF assms] order_steps_acyclic [OF assms] acyclic_irrefl_steps
  unfolding is_inr_iff by blast

definition demo_step :: "string \<Rightarrow> string list \<Rightarrow> plan_step" where
  "demo_step i deps = \<lparr>ps_id = i, ps_description = ''d'', ps_dependencies = deps,
     ps_tools = [''echo''], ps_risk = LOW, ps_verification = ''v'',
     ps_arguments = [(''x'', JInt 1)], ps_completion_criteria = ''c''\<rparr>"

definition demo_plan :: plan where
  "demo_plan = \<lparr>plan_goal = ''g'', plan_steps = [demo_step ''b'' [''a''], demo_step ''a'' []],
     plan_final_verification = ''fv''\<rparr>"

definition demo_validator :: plan_validator where
  "demo_validator = new_plan_validator [''echo''] [(''echo'', [''x''])] [] 50 65536"

theorem order_steps_correct_witness:
  "is_inr (order_steps [demo_step ''b'' [''a''], demo_step ''a'' []])
   \<and> acyclic (dep_rel [demo_step ''b'' [''a''], demo_step ''a'' []])"
proof -
  let ?s = "[demo_step ''b'' [''a''], demo_step ''a'' []]"
  have d: "distinct (map ps_id ?s)" by (simp add: demo_step_def)
  have "is_inr (order_steps ?s)" by code_simp
  with order_steps_correct [OF d] show ?thesis by blast
qed

text \<open>The only exception of the whole gate is \<open>PlanValidationError\<close>.\<close>

definition plan_error :: "'a result \<Rightarrow> bool" where
  "plan_error r \<longleftrightarrow> (\<forall>e. r = Inl e \<longrightarrow> (\<exists>msg. e = PlanValidationError msg))"

lemma plan_error_simps [simp]: "plan_error (Inr x)" "plan_error (refuse msg)"
  "plan_error (Inl (PlanValidationError msg))"
  by (simp_all add: plan_error_def refuse_def)

lemma plan_error_bind: "plan_error r \<Longrightarrow> (\<And>x. plan_error (f x)) \<Longrightarrow> plan_error (bind_result r f)"
  by (cases r) (auto simp: plan_error_def)

lemma plan_error_order: "plan_error (order_steps steps)"
proof -
  have deps: "plan_error (check_deps known sid ds)" for known sid ds
    by (induction ds) simp_all
  have "plan_error (check_all_deps known ss)" for known ss
    by (induction ss) (simp_all add: plan_error_bind deps)
  then show ?thesis by (simp add: order_steps_def Let_def plan_error_bind split: prod.split)
qed

lemma plan_error_step: "plan_error (validate_step pv s)"
proof -
  have one: "plan_error (check_step_tool pv s name)" for name
    by (simp add: check_step_tool_def Let_def)
  have "plan_error (check_step_tools pv s names)" for names
    by (induction names) (simp_all add: plan_error_bind one)
  then show ?thesis by (simp add: validate_step_def Let_def plan_error_bind)
qed

lemma plan_error_validate: "plan_error (validate_plan pv p)"
proof -
  have "plan_error (validate_steps pv ss)" for ss
    by (induction ss) (simp_all add: plan_error_bind plan_error_step)
  then show ?thesis by (simp add: validate_plan_def Let_def plan_error_bind plan_error_order)
qed

lemma validate_plan_Inr:
  "validate_plan pv p = Inr q \<longleftrightarrow> q = p
     \<and> strip_str (plan_goal p) \<noteq> [] \<and> strip_str (plan_final_verification p) \<noteq> []
     \<and> plan_steps p \<noteq> [] \<and> int (length (plan_steps p)) \<le> pv_max_steps pv
     \<and> [] \<notin> ps_id ` set (plan_steps p)
     \<and> closed_steps (plan_steps p) \<and> acyclic (dep_rel (plan_steps p))
     \<and> (\<forall>s \<in> set (plan_steps p). step_accepted pv s)"
proof -
  let ?ss = "plan_steps p"
  have dist: "closed_steps ?ss \<Longrightarrow> distinct (map ps_id ?ss)" by (simp add: closed_steps_def)
  have ord: "distinct (map ps_id ?ss) \<Longrightarrow>
      (\<exists>res. order_steps ?ss = Inr res) \<longleftrightarrow> closed_steps ?ss \<and> acyclic (dep_rel ?ss)"
    using order_steps_closed order_steps_acyclic acyclic_irrefl_steps by metis
  have "validate_plan pv p = Inr q \<longleftrightarrow> q = p
     \<and> strip_str (plan_goal p) \<noteq> [] \<and> ?ss \<noteq> [] \<and> int (length ?ss) \<le> pv_max_steps pv
     \<and> [] \<notin> set (map ps_id ?ss) \<and> distinct (map ps_id ?ss)
     \<and> (\<forall>s \<in> set ?ss. step_accepted pv s) \<and> (\<exists>res. order_steps ?ss = Inr res)
     \<and> strip_str (plan_final_verification p) \<noteq> []"
    by (auto simp: validate_plan_def Let_def refuse_def bind_result_Inr_iff validate_steps_Inr
        validate_step_Inr not_less)
  then show ?thesis using dist ord by auto
qed

text \<open>
  C37: a plan is accepted by \<open>PlanValidator.validate\<close>, and then returned unchanged, exactly when
  it has a goal, a final verification, between one and \<open>max_steps\<close> steps with distinct nonempty
  ids, every step is well formed (known tools, bounded arguments, required parameters present
  with their types, risk below CRITICAL, criteria and verification stated) and the dependencies
  are closed and acyclic; otherwise it raises \<open>PlanValidationError\<close>.
\<close>

theorem validate_plan_correct:
  "(validate_plan pv p = Inr q \<longleftrightarrow> q = p
     \<and> strip_str (plan_goal p) \<noteq> [] \<and> strip_str (plan_final_verification p) \<noteq> []
     \<and> plan_steps p \<noteq> [] \<and> int (length (plan_steps p)) \<le> pv_max_steps pv
     \<and> [] \<notin> ps_id ` set (plan_steps p)
     \<and> closed_steps (plan_steps p) \<and> acyclic (dep_rel (plan_steps p))
     \<and> (\<forall>s \<in> set (plan_steps p). step_accepted pv s))
   \<and> (validate_plan pv p = Inl e \<longrightarrow> (\<exists>msg. e = PlanValidationError msg))"
  (is "?ok \<and> ?err")
proof
  show ?ok by (rule validate_plan_Inr)
  show ?err using plan_error_validate [of pv p] by (simp add: plan_error_def)
qed

theorem validate_plan_correct_witness:
  "closed_steps (plan_steps demo_plan) \<and> step_accepted demo_validator (demo_step ''a'' [])"
proof -
  have "validate_plan demo_validator demo_plan = Inr demo_plan" by code_simp
  with validate_plan_correct [of demo_validator demo_plan demo_plan "OtherException []"] show ?thesis
    by (simp add: demo_plan_def)
qed

end
