(* ===== verification/Graph.thy ===== *)
theory Graph
  imports Planner
begin

text \<open>
  The runtime task graph (\<^verbatim>\<open>agent/executor/graph.py\<close>): the state of each step, the legal
  transitions, which steps are ready, the skipping of steps that can no longer run, and the
  snapshot that survives a restart. The Python nodes are shared mutable objects, looked up by
  their step id; here a graph is the list of its nodes and an update replaces the node with the
  given id. What pydantic and \<open>datetime\<close> do to one stored value is the record \<open>codec\<close>, an
  argument of the two functions that need it.
\<close>

datatype step_state =
    S_PENDING | S_READY | S_RUNNING | S_SUCCEEDED | S_FAILED | S_CANCELLED | S_SKIPPED | S_TIMED_OUT

fun step_value :: "step_state \<Rightarrow> string" where
  "step_value S_PENDING = ''PENDING''"
| "step_value S_READY = ''READY''"
| "step_value S_RUNNING = ''RUNNING''"
| "step_value S_SUCCEEDED = ''SUCCEEDED''"
| "step_value S_FAILED = ''FAILED''"
| "step_value S_CANCELLED = ''CANCELLED''"
| "step_value S_SKIPPED = ''SKIPPED''"
| "step_value S_TIMED_OUT = ''TIMED_OUT''"

definition all_step_states :: "step_state list" where
  "all_step_states =
     [S_PENDING, S_READY, S_RUNNING, S_SUCCEEDED, S_FAILED, S_CANCELLED, S_SKIPPED, S_TIMED_OUT]"

definition terminal_step :: "step_state \<Rightarrow> bool" where
  "terminal_step s \<longleftrightarrow> s \<in> {S_SUCCEEDED, S_FAILED, S_TIMED_OUT, S_CANCELLED, S_SKIPPED}"

definition non_success_terminal :: "step_state \<Rightarrow> bool" where
  "non_success_terminal s \<longleftrightarrow> s \<in> {S_FAILED, S_TIMED_OUT, S_CANCELLED, S_SKIPPED}"

fun graph_transitions :: "step_state \<Rightarrow> step_state list" where
  "graph_transitions S_PENDING = [S_READY, S_SKIPPED, S_CANCELLED]"
| "graph_transitions S_READY = [S_RUNNING, S_SKIPPED, S_CANCELLED]"
| "graph_transitions S_RUNNING = [S_SUCCEEDED, S_FAILED, S_TIMED_OUT, S_CANCELLED]"
| "graph_transitions _ = []"

record graph_node =
  gn_step :: plan_step
  gn_state :: step_state
  gn_attempts :: int
  gn_result :: "tool_result option"
  gn_tool_results :: "tool_result list"
  gn_error :: string
  gn_started_at :: "real option"
  gn_completed_at :: "real option"
  gn_interrupted :: bool
  gn_timeout_s :: "real option"

abbreviation gn_id :: "graph_node \<Rightarrow> string" where
  "gn_id n \<equiv> ps_id (gn_step n)"

abbreviation gn_deps :: "graph_node \<Rightarrow> string list" where
  "gn_deps n \<equiv> ps_dependencies (gn_step n)"

definition new_node :: "plan_step \<Rightarrow> graph_node" where
  "new_node s = \<lparr>gn_step = s, gn_state = S_PENDING, gn_attempts = 0, gn_result = None,
     gn_tool_results = [], gn_error = [], gn_started_at = None, gn_completed_at = None,
     gn_interrupted = False, gn_timeout_s = None\<rparr>"

definition node_transition :: "step_state \<Rightarrow> graph_node \<Rightarrow> graph_node result" where
  "node_transition to_state n =
     (if to_state \<notin> set (graph_transitions (gn_state n))
      then Inl (DomainValidationError (''illegal step transition: '' @ step_value (gn_state n)
             @ '' -> '' @ step_value to_state @ '' (step '' @ repr_str (gn_id n) @ '')''))
      else Inr (n\<lparr>gn_state := to_state\<rparr>))"

type_synonym nodes = "graph_node list"

record task_graph =
  tg_nodes :: nodes
  tg_dependents :: "(string \<times> string list) list"

text \<open>The first dependency, in plan order, that is not a step of the graph.\<close>

fun unknown_dep :: "string list \<Rightarrow> nodes \<Rightarrow> (string \<times> string) option" where
  "unknown_dep known [] = None"
| "unknown_dep known (n # ns) =
     (case find (\<lambda>d. d \<notin> set known) (gn_deps n) of
        Some d \<Rightarrow> Some (gn_id n, d) | None \<Rightarrow> unknown_dep known ns)"

definition new_graph :: "nodes \<Rightarrow> task_graph result" where
  "new_graph ns =
     (let ids = map gn_id ns in
      if \<not> distinct ids then Inl (DomainValidationError ''duplicate step ids in graph'')
      else case unknown_dep ids ns of
        Some (sid, dep) \<Rightarrow> Inl (DomainValidationError
          (''step '' @ repr_str sid @ '' depends on unknown step '' @ repr_str dep))
      | None \<Rightarrow> Inr \<lparr>tg_nodes = ns,
          tg_dependents =
            fold (\<lambda>n. fold (\<lambda>dep t. dict_set dep (lookup_list t dep @ [gn_id n]) t) (gn_deps n)) ns
              (fold (\<lambda>sid. dict_set sid []) ids [])\<rparr>)"

definition from_plan :: "plan \<Rightarrow> task_graph result" where
  "from_plan p =
     bind_result (order_steps (plan_steps p)) (\<lambda>_. new_graph (map new_node (plan_steps p)))"

definition node_of :: "nodes \<Rightarrow> string \<Rightarrow> graph_node option" where
  "node_of ns i = find (\<lambda>n. gn_id n = i) ns"

definition state_of :: "nodes \<Rightarrow> string \<Rightarrow> step_state option" where
  "state_of ns i = map_option gn_state (node_of ns i)"

definition put_node :: "graph_node \<Rightarrow> nodes \<Rightarrow> nodes" where
  "put_node n ns = map (\<lambda>m. if gn_id m = gn_id n then n else m) ns"

definition deps_succeeded :: "nodes \<Rightarrow> graph_node \<Rightarrow> bool" where
  "deps_succeeded ns n \<longleftrightarrow> list_all (\<lambda>d. state_of ns d = Some S_SUCCEEDED) (gn_deps n)"

definition ready_nodes :: "nodes \<Rightarrow> nodes" where
  "ready_nodes ns = filter (\<lambda>n. gn_state n = S_PENDING \<and> deps_succeeded ns n) ns"

text \<open>
  \<open>mark_unsatisfiable\<close>: one pass in plan order that reads the states as the pass leaves them.
\<close>

definition bad_dep :: "nodes \<Rightarrow> graph_node \<Rightarrow> (string \<times> step_state) option" where
  "bad_dep ns n =
     (case find (\<lambda>d. case state_of ns d of Some s \<Rightarrow> non_success_terminal s | None \<Rightarrow> False)
             (gn_deps n) of
        None \<Rightarrow> None
      | Some d \<Rightarrow> map_option (\<lambda>s. (d, s)) (state_of ns d))"

fun mark_loop :: "string list \<Rightarrow> nodes \<Rightarrow> nodes \<Rightarrow> (nodes \<times> nodes) result" where
  "mark_loop [] ns skipped = Inr (ns, skipped)"
| "mark_loop (i # is) ns skipped =
     (case node_of ns i of
        None \<Rightarrow> mark_loop is ns skipped
      | Some n \<Rightarrow>
          if gn_state n \<noteq> S_PENDING then mark_loop is ns skipped
          else case bad_dep ns n of
            None \<Rightarrow> mark_loop is ns skipped
          | Some (bad, s) \<Rightarrow>
              bind_result (node_transition S_SKIPPED n) (\<lambda>n'.
                let n'' = n'\<lparr>gn_error := ''dependency '' @ repr_str bad @ '' ended ''
                                 @ step_value s @ ''; not executed''\<rparr>
                in mark_loop is (put_node n'' ns) (skipped @ [n''])))"

definition mark_unsatisfiable :: "nodes \<Rightarrow> (nodes \<times> nodes) result" where
  "mark_unsatisfiable ns = mark_loop (map gn_id ns) ns []"

definition graph_done :: "nodes \<Rightarrow> bool" where
  "graph_done ns \<longleftrightarrow> list_all (\<lambda>n. terminal_step (gn_state n)) ns"

subsection \<open>Snapshot and restore\<close>

record codec =
  c_iso :: "real \<Rightarrow> string"
  c_from_iso :: "string \<Rightarrow> real option"
  c_float_text :: "real \<Rightarrow> string"
  c_int :: "json \<Rightarrow> int option"
  c_float :: "json \<Rightarrow> real option"
  c_dump_result :: "tool_result \<Rightarrow> json"
  c_load_result :: "json \<Rightarrow> tool_result option"
  c_exc_text :: string

fun truthy :: "json \<Rightarrow> bool" where
  "truthy JNull = False"
| "truthy (JBool b) = b"
| "truthy (JInt i) = (i \<noteq> 0)"
| "truthy (JFloat t) = (t \<noteq> ''0.0'' \<and> t \<noteq> ''-0.0'')"
| "truthy (JStr s) = (s \<noteq> [])"
| "truthy (JList xs) = (xs \<noteq> [])"
| "truthy (JObj ms) = (ms \<noteq> [])"

definition json_str :: "json \<Rightarrow> string" where
  "json_str v = (case v of JStr s \<Rightarrow> s | _ \<Rightarrow> repr_json v)"

definition get_or :: "json \<Rightarrow> arguments \<Rightarrow> string \<Rightarrow> json" where
  "get_or dflt ms k = (case map_of ms k of Some v \<Rightarrow> v | None \<Rightarrow> dflt)"

definition opt_json :: "('a \<Rightarrow> json) \<Rightarrow> 'a option \<Rightarrow> json" where
  "opt_json f x = (case x of None \<Rightarrow> JNull | Some y \<Rightarrow> f y)"

definition node_snapshot :: "codec \<Rightarrow> graph_node \<Rightarrow> json" where
  "node_snapshot c n = JObj
     [(''state'', JStr (step_value (gn_state n))),
      (''attempts'', JInt (gn_attempts n)),
      (''error'', JStr (gn_error n)),
      (''interrupted'', JBool (gn_interrupted n)),
      (''timeout_s'', opt_json (\<lambda>t. JFloat (c_float_text c t)) (gn_timeout_s n)),
      (''started_at'', opt_json (\<lambda>t. JStr (c_iso c t)) (gn_started_at n)),
      (''completed_at'', opt_json (\<lambda>t. JStr (c_iso c t)) (gn_completed_at n)),
      (''result'', opt_json (c_dump_result c) (gn_result n)),
      (''tool_results'', JList (map (c_dump_result c) (gn_tool_results n)))]"

definition graph_snapshot :: "codec \<Rightarrow> nodes \<Rightarrow> json" where
  "graph_snapshot c ns = JObj
     [(''nodes'', JObj (fold (\<lambda>n. dict_set (gn_id n) (node_snapshot c n)) ns []))]"

definition step_of_value :: "json \<Rightarrow> step_state option" where
  "step_of_value v = (case v of JStr s \<Rightarrow> find (\<lambda>st. step_value st = s) all_step_states | _ \<Rightarrow> None)"

definition iter_items :: "json \<Rightarrow> json list option" where
  "iter_items v =
     (case v of JList xs \<Rightarrow> Some xs
      | JStr s \<Rightarrow> Some (map (\<lambda>ch. JStr [ch]) s)
      | JObj ms \<Rightarrow> Some (map (\<lambda>m. JStr (fst m)) ms)
      | _ \<Rightarrow> None)"

text \<open>\<open>datetime.fromisoformat\<close> of a stored value, and a list comprehension that may raise.\<close>

definition load_time :: "codec \<Rightarrow> json \<Rightarrow> real option" where
  "load_time c v = (case v of JStr s \<Rightarrow> c_from_iso c s | _ \<Rightarrow> None)"

fun all_some :: "'a option list \<Rightarrow> 'a list option" where
  "all_some [] = Some []"
| "all_some (None # xs) = None"
| "all_some (Some x # xs) = map_option (\<lambda>ys. x # ys) (all_some xs)"

text \<open>
  The assignments of the \<open>try\<close> block, one after the other: the first that raises leaves what the
  earlier ones wrote and the flag \<open>False\<close>.
\<close>

definition try_set :: "'a option \<Rightarrow> ('a \<Rightarrow> graph_node \<Rightarrow> graph_node) \<Rightarrow> graph_node \<times> bool \<Rightarrow> graph_node \<times> bool" where
  "try_set v upd st = (if snd st then (case v of None \<Rightarrow> (fst st, False) | Some x \<Rightarrow> (upd x (fst st), True))
                       else st)"

definition load_fields :: "codec \<Rightarrow> arguments \<Rightarrow> step_state \<Rightarrow> graph_node \<Rightarrow> graph_node \<times> bool" where
  "load_fields c saved st n =
     (let s0 = (n\<lparr>gn_state := st\<rparr>, True);
          s1 = try_set (case get_or (JInt 0) saved ''attempts'' of JInt i \<Rightarrow> Some i | v \<Rightarrow> c_int c v)
                 (\<lambda>i m. m\<lparr>gn_attempts := i\<rparr>) s0;
          s2 = try_set (Some (json_str (get_or (JStr []) saved ''error''))) (\<lambda>e m. m\<lparr>gn_error := e\<rparr>) s1;
          s3 = try_set (Some (truthy (get_or (JBool False) saved ''interrupted'')))
                 (\<lambda>b m. m\<lparr>gn_interrupted := b\<rparr>) s2;
          s4 = try_set (case get_or JNull saved ''timeout_s'' of
                          JNull \<Rightarrow> Some None | v \<Rightarrow> map_option Some (c_float c v))
                 (\<lambda>t m. m\<lparr>gn_timeout_s := t\<rparr>) s3;
          started = get_or JNull saved ''started_at'';
          s5 = (if truthy started
                then try_set (load_time c started) (\<lambda>t m. m\<lparr>gn_started_at := Some t\<rparr>) s4 else s4);
          completed = get_or JNull saved ''completed_at'';
          s6 = (if truthy completed
                then try_set (load_time c completed) (\<lambda>t m. m\<lparr>gn_completed_at := Some t\<rparr>) s5 else s5);
          res = get_or JNull saved ''result'';
          s7 = (if truthy res
                then try_set (c_load_result c res) (\<lambda>r m. m\<lparr>gn_result := Some r\<rparr>) s6 else s6)
      in try_set (case iter_items (get_or (JList []) saved ''tool_results'') of
                    None \<Rightarrow> None | Some xs \<Rightarrow> all_some (map (c_load_result c) xs))
           (\<lambda>rs m. m\<lparr>gn_tool_results := rs\<rparr>) s7)"

definition restore_node :: "codec \<Rightarrow> arguments \<Rightarrow> graph_node \<Rightarrow> graph_node" where
  "restore_node c saved n =
     (case step_of_value (get_or (JStr ''PENDING'') saved ''state'') of
        None \<Rightarrow> n\<lparr>gn_error := ''unrecognized saved state ''
                    @ repr_json (get_or JNull saved ''state'') @ ''; reset'', gn_interrupted := True\<rparr>
      | Some S_RUNNING \<Rightarrow> n\<lparr>gn_interrupted := True,
            gn_error := ''interrupted by restart; recovery pending (Gate 10)''\<rparr>
      | Some st \<Rightarrow>
          (case load_fields c saved st n of
             (n', True) \<Rightarrow> n'
           | (n', False) \<Rightarrow> n'\<lparr>gn_state := S_PENDING, gn_interrupted := True,
                 gn_error := ''corrupt saved state discarded: '' @ c_exc_text c\<rparr>))"

definition restore_entry :: "codec \<Rightarrow> string \<times> json \<Rightarrow> nodes \<Rightarrow> nodes" where
  "restore_entry c = (\<lambda>(i, saved) ns.
     case (node_of ns i, saved) of
       (Some n, JObj ms) \<Rightarrow> put_node (restore_node c ms n) ns
     | _ \<Rightarrow> ns)"

definition saved_states :: "json \<Rightarrow> arguments" where
  "saved_states snapshot =
     (case snapshot of
        JObj ms \<Rightarrow> (case get_or (JObj []) ms ''nodes'' of JObj st \<Rightarrow> st | _ \<Rightarrow> [])
      | _ \<Rightarrow> [])"

definition restore_graph :: "codec \<Rightarrow> plan \<Rightarrow> json \<Rightarrow> task_graph result" where
  "restore_graph c p snapshot =
     bind_result (from_plan p) (\<lambda>g.
       Inr (g\<lparr>tg_nodes := fold (restore_entry c) (saved_states snapshot) (tg_nodes g)\<rparr>))"

subsection \<open>Looking a node up after an update\<close>

lemma node_of_Some: "node_of ns i = Some n \<Longrightarrow> n \<in> set ns \<and> gn_id n = i"
  by (auto simp: node_of_def find_Some_iff in_set_conv_nth)

lemma node_of_None: "node_of ns i = None \<longleftrightarrow> i \<notin> gn_id ` set ns"
  by (auto simp: node_of_def find_None_iff)

lemma node_of_member: "distinct (map gn_id ns) \<Longrightarrow> n \<in> set ns \<Longrightarrow> node_of ns (gn_id n) = Some n"
proof (induction ns)
  case Nil
  then show ?case by simp
next
  case (Cons m ns)
  then show ?case by (cases "m = n") (auto simp: node_of_def)
qed

lemma node_of_iff:
  "distinct (map gn_id ns) \<Longrightarrow> node_of ns i = Some n \<longleftrightarrow> n \<in> set ns \<and> gn_id n = i"
  using node_of_member node_of_Some by metis

lemma ids_steps: "map gn_id ns = map ps_id (map gn_step ns)"
  by simp

lemma put_node_steps:
  assumes "node_of ns (gn_id n) = Some m" "gn_step m = gn_step n" "distinct (map gn_id ns)"
  shows "map gn_step (put_node n ns) = map gn_step ns"
proof -
  have "gn_step n = gn_step x" if "x \<in> set ns" "gn_id x = gn_id n" for x
    using assms that node_of_member [OF assms(3) that(1)] by simp
  then show ?thesis by (auto simp: put_node_def)
qed

lemma node_of_put:
  "node_of (put_node n ns) j = (if j = gn_id n \<and> j \<in> gn_id ` set ns then Some n else node_of ns j)"
  by (induction ns) (auto simp: put_node_def node_of_def)

lemma set_put_node:
  "distinct (map gn_id ns) \<Longrightarrow> node_of ns (gn_id n) = Some m
     \<Longrightarrow> set (put_node n ns) = insert n (set ns - {m})"
  using node_of_member [of ns] node_of_Some [of ns "gn_id n" m] by (fastforce simp: put_node_def)

lemma state_of_put:
  assumes "node_of ns (gn_id n) = Some m"
  shows "state_of (put_node n ns) j = (if j = gn_id n then Some (gn_state n) else state_of ns j)"
proof -
  have "gn_id n \<in> gn_id ` set ns" using node_of_Some [OF assms] by (metis imageI)
  then show ?thesis by (simp add: state_of_def node_of_put)
qed

lemma node_transition_Inr:
  "node_transition s n = Inr n' \<longleftrightarrow> s \<in> set (graph_transitions (gn_state n)) \<and> n' = n\<lparr>gn_state := s\<rparr>"
  by (auto simp: node_transition_def)

text \<open>The legal moves, as a step relation, and what one node may become over time.\<close>

inductive step_moves :: "step_state \<Rightarrow> step_state \<Rightarrow> bool" where
  refl: "step_moves s s"
| move: "step_moves s t \<Longrightarrow> u \<in> set (graph_transitions t) \<Longrightarrow> step_moves s u"

inductive_cases step_movesE: "step_moves s t"

lemma step_moves_trans: "step_moves t u \<Longrightarrow> step_moves s t \<Longrightarrow> step_moves s u"
  by (induction rule: step_moves.induct) (auto intro: step_moves.intros)

lemma step_moves_terminal: "step_moves s t \<Longrightarrow> terminal_step s \<Longrightarrow> t = s"
  by (induction rule: step_moves.induct) (auto simp: terminal_step_def)

lemma step_moves_single: "t \<in> set (graph_transitions s) \<Longrightarrow> step_moves s t"
  by (rule step_moves.move [OF step_moves.refl])

definition evolves :: "nodes \<Rightarrow> nodes \<Rightarrow> bool" where
  "evolves ns ns' \<longleftrightarrow> map gn_step ns' = map gn_step ns
     \<and> (\<forall>i s. state_of ns i = Some s \<longrightarrow> (\<exists>t. state_of ns' i = Some t \<and> step_moves s t))"

lemma evolves_refl [simp]: "evolves ns ns"
  by (auto simp: evolves_def intro: step_moves.refl)

lemma evolves_trans: "evolves ns ns' \<Longrightarrow> evolves ns' ns'' \<Longrightarrow> evolves ns ns''"
  unfolding evolves_def by (metis step_moves_trans)

lemma evolves_put:
  assumes "distinct (map gn_id ns)" "node_of ns i = Some n" "gn_step n' = gn_step n"
    and "step_moves (gn_state n) (gn_state n')"
  shows "evolves ns (put_node n' ns)"
proof -
  have i: "gn_id n' = i" using assms(2,3) node_of_Some by metis
  have "map gn_step (put_node n' ns) = map gn_step ns"
    by (rule put_node_steps) (use assms i in auto)
  moreover have "state_of (put_node n' ns) j = (if j = i then Some (gn_state n') else state_of ns j)" for j
    using state_of_put [of ns n' n j] assms(2) i by simp
  moreover have "state_of ns i = Some (gn_state n)" using assms(2) by (simp add: state_of_def)
  ultimately show ?thesis using assms(4) by (auto simp: evolves_def intro: step_moves.refl)
qed

lemma evolves_distinct: "evolves ns ns' \<Longrightarrow> distinct (map gn_id ns') = distinct (map gn_id ns)"
  by (metis evolves_def ids_steps)

text \<open>What holds of a node's dependencies once they all succeeded stays.\<close>

lemma evolves_succeeded: "evolves ns ns' \<Longrightarrow> state_of ns d = Some S_SUCCEEDED \<Longrightarrow> state_of ns' d = Some S_SUCCEEDED"
  unfolding evolves_def using step_moves_terminal [of S_SUCCEEDED] by (fastforce simp: terminal_step_def)

lemma evolves_bad: "evolves ns ns' \<Longrightarrow> state_of ns d = Some s \<Longrightarrow> non_success_terminal s \<Longrightarrow> state_of ns' d = Some s"
  unfolding evolves_def using step_moves_terminal [of s] by (fastforce simp: terminal_step_def non_success_terminal_def)

lemma evolves_deps: "evolves ns ns' \<Longrightarrow> deps_succeeded ns n \<Longrightarrow> gn_step n' = gn_step n \<Longrightarrow> deps_succeeded ns' n'"
  by (auto simp: deps_succeeded_def list_all_iff evolves_succeeded)

subsection \<open>mark_unsatisfiable\<close>

definition has_bad_dep :: "nodes \<Rightarrow> graph_node \<Rightarrow> bool" where
  "has_bad_dep ns n \<longleftrightarrow> (\<exists>d \<in> set (gn_deps n). \<exists>s. state_of ns d = Some s \<and> non_success_terminal s)"

lemma bad_dep_None: "bad_dep ns n = None \<longleftrightarrow> \<not> has_bad_dep ns n"
proof -
  let ?p = "\<lambda>d. case state_of ns d of Some s \<Rightarrow> non_success_terminal s | None \<Rightarrow> False"
  have p: "?p d \<longleftrightarrow> (\<exists>s. state_of ns d = Some s \<and> non_success_terminal s)" for d
    by (cases "state_of ns d") simp_all
  show ?thesis
  proof (cases "find ?p (gn_deps n)")
    case None
    then have "bad_dep ns n = None" by (simp add: bad_dep_def)
    moreover have "\<not> has_bad_dep ns n" using None by (auto simp: has_bad_dep_def find_None_iff p)
    ultimately show ?thesis by simp
  next
    case (Some d)
    then have d: "d \<in> set (gn_deps n)" "?p d" by (auto simp: find_Some_iff)
    from Some have "bad_dep ns n = map_option (\<lambda>s. (d, s)) (state_of ns d)" by (simp add: bad_dep_def)
    then have "bad_dep ns n \<noteq> None" using d(2) unfolding p by auto
    moreover have "has_bad_dep ns n" using d p by (auto simp: has_bad_dep_def)
    ultimately show ?thesis by simp
  qed
qed

lemma bad_dep_Some: "bad_dep ns n = Some (d, s) \<Longrightarrow> has_bad_dep ns n"
  using bad_dep_None [of ns n] by auto

inductive skips :: "nodes \<Rightarrow> nodes \<Rightarrow> bool" where
  refl: "skips ns ns"
| skip: "skips ns ns' \<Longrightarrow> node_of ns' i = Some n \<Longrightarrow> gn_state n = S_PENDING \<Longrightarrow> has_bad_dep ns' n
    \<Longrightarrow> gn_step n' = gn_step n \<Longrightarrow> gn_state n' = S_SKIPPED \<Longrightarrow> skips ns (put_node n' ns')"

lemma skips_trans: "skips b c \<Longrightarrow> skips a b \<Longrightarrow> skips a c"
  by (induction rule: skips.induct) (auto intro: skips.skip)

lemma has_bad_dep_evolves: "evolves ns ns' \<Longrightarrow> has_bad_dep ns n \<Longrightarrow> gn_step n' = gn_step n \<Longrightarrow> has_bad_dep ns' n'"
  unfolding has_bad_dep_def by (metis evolves_bad)

lemma skips_evolves: "skips ns ns' \<Longrightarrow> distinct (map gn_id ns) \<Longrightarrow> evolves ns ns'"
proof (induction rule: skips.induct)
  case (refl ns)
  then show ?case by simp
next
  case (skip ns ns' i n n')
  then have "evolves ns' (put_node n' ns')"
    by (intro evolves_put [of ns' i n]) (simp_all add: evolves_distinct step_moves_single)
  with skip show ?case by (metis evolves_trans)
qed

text \<open>A step of the pass changes one state; the others keep theirs.\<close>

lemma skips_states:
  "skips ns ns' \<Longrightarrow> state_of ns' j = state_of ns j
     \<or> (state_of ns j = Some S_PENDING \<and> state_of ns' j = Some S_SKIPPED)"
proof (induction rule: skips.induct)
  case (refl ns)
  then show ?case by simp
next
  case (skip ns ns' i n n')
  have "gn_id n' = i" "state_of ns' i = Some S_PENDING"
    using skip.hyps node_of_Some [of ns' i n] by (auto simp: state_of_def)
  with skip show ?case by (auto simp: state_of_put [of ns' n' n])
qed

lemma same_steps_node:
  assumes "map gn_step ns' = map gn_step ns" "distinct (map gn_id ns)"
    and "node_of ns i = Some n" "node_of ns' i = Some n'"
  shows "gn_step n' = gn_step n"
proof -
  have "gn_step n' \<in> set (map gn_step ns')" using node_of_Some [OF assms(4)] by simp
  then obtain m where m: "m \<in> set ns" "gn_step m = gn_step n'" by (auto simp: assms(1))
  then have "gn_id m = i" using node_of_Some [OF assms(4)] by simp
  with m node_of_member [OF assms(2) m(1)] assms(3) show ?thesis by simp
qed

lemma evolves_node:
  "evolves ns ns' \<Longrightarrow> distinct (map gn_id ns) \<Longrightarrow> node_of ns i = Some n \<Longrightarrow> node_of ns' i = Some n'
     \<Longrightarrow> gn_step n' = gn_step n"
  by (rule same_steps_node) (simp_all add: evolves_def)

lemma mark_loop_spec:
  assumes "distinct (map gn_id ns)"
  shows "\<exists>ns' sk'. mark_loop is ns sk = Inr (ns', sk') \<and> skips ns ns'
    \<and> (\<forall>i \<in> set is. \<forall>n. node_of ns' i = Some n \<longrightarrow> gn_state n = S_PENDING \<longrightarrow> \<not> has_bad_dep ns n)"
  using assms
proof (induction "is" arbitrary: ns sk)
  case Nil
  then show ?case by (auto intro: skips.refl)
next
  case (Cons i "is")
  note unchanged = Cons.IH [OF Cons.prems, of sk]
  show ?case
  proof (cases "\<exists>n. node_of ns i = Some n \<and> gn_state n = S_PENDING \<and> has_bad_dep ns n")
    case False
    then have eq: "mark_loop (i # is) ns sk = mark_loop is ns sk"
      by (auto split: option.split simp: bad_dep_None)
        (metis bad_dep_Some)
    from unchanged obtain ns' sk' where m: "mark_loop is ns sk = Inr (ns', sk')" "skips ns ns'"
      and rest: "\<forall>i \<in> set is. \<forall>n. node_of ns' i = Some n \<longrightarrow> gn_state n = S_PENDING \<longrightarrow> \<not> has_bad_dep ns n"
      by blast
    have "\<not> has_bad_dep ns n" if n: "node_of ns' i = Some n" "gn_state n = S_PENDING" for n
    proof
      assume bad: "has_bad_dep ns n"
      have "state_of ns' i = Some S_PENDING" using n by (simp add: state_of_def)
      with skips_states [OF m(2), of i] have "state_of ns i = Some S_PENDING" by auto
      then obtain n0 where n0: "node_of ns i = Some n0" "gn_state n0 = S_PENDING"
        by (auto simp: state_of_def)
      have "gn_step n = gn_step n0"
        by (rule evolves_node [OF skips_evolves [OF m(2) Cons.prems] Cons.prems n0(1) n(1)])
      with bad have "has_bad_dep ns n0" by (simp add: has_bad_dep_def)
      with False n0 show False by blast
    qed
    with m rest eq show ?thesis by auto
  next
    case True
    then obtain n where n: "node_of ns i = Some n" "gn_state n = S_PENDING" "has_bad_dep ns n"
      by blast
    then obtain d s where bad: "bad_dep ns n = Some (d, s)"
      using bad_dep_None [of ns n] by (cases "bad_dep ns n") auto
    define n' where "n' = n\<lparr>gn_state := S_SKIPPED, gn_error := ''dependency '' @ repr_str d
      @ '' ended '' @ step_value s @ ''; not executed''\<rparr>"
    have eq: "mark_loop (i # is) ns sk = mark_loop is (put_node n' ns) (sk @ [n'])"
      by (simp add: n bad node_transition_def Let_def n'_def)
    have n': "gn_step n' = gn_step n" "gn_state n' = S_SKIPPED" "gn_id n' = i"
      using node_of_Some [OF n(1)] by (simp_all add: n'_def)
    have sk1: "skips ns (put_node n' ns)"
      by (rule skips.skip [OF skips.refl n n'(1,2)])
    note ev = skips_evolves [OF sk1 Cons.prems]
    have "distinct (map gn_id (put_node n' ns))"
      using evolves_distinct [OF ev] Cons.prems by simp
    from Cons.IH [OF this, of "sk @ [n']"] obtain ns' sk' where
      m: "mark_loop is (put_node n' ns) (sk @ [n']) = Inr (ns', sk')" "skips (put_node n' ns) ns'"
      and rest: "\<forall>i \<in> set is. \<forall>n. node_of ns' i = Some n \<longrightarrow> gn_state n = S_PENDING
        \<longrightarrow> \<not> has_bad_dep (put_node n' ns) n" by blast
    have "state_of (put_node n' ns) i = Some S_SKIPPED"
      using state_of_put [of ns n' n i] n(1) n' by simp
    with skips_states [OF m(2), of i] have "state_of ns' i = Some S_SKIPPED" by auto
    then have "\<forall>m. node_of ns' i = Some m \<longrightarrow> gn_state m \<noteq> S_PENDING"
      by (auto simp: state_of_def)
    moreover have "\<forall>j \<in> set is. \<forall>m. node_of ns' j = Some m \<longrightarrow> gn_state m = S_PENDING
        \<longrightarrow> \<not> has_bad_dep ns m"
      using rest has_bad_dep_evolves [OF ev] by blast
    ultimately show ?thesis
      using eq m(1) skips_trans [OF m(2) sk1] by auto
  qed
qed

lemma mark_unsatisfiable_spec:
  assumes "distinct (map gn_id ns)"
  shows "\<exists>ns' sk. mark_unsatisfiable ns = Inr (ns', sk) \<and> skips ns ns'
    \<and> (\<forall>n \<in> set ns'. gn_state n = S_PENDING \<longrightarrow> \<not> has_bad_dep ns n)"
proof -
  from mark_loop_spec [OF assms, of "map gn_id ns" "[]"] obtain ns' sk where
    m: "mark_loop (map gn_id ns) ns [] = Inr (ns', sk)" "skips ns ns'"
    and rest: "\<forall>i \<in> set (map gn_id ns). \<forall>n. node_of ns' i = Some n \<longrightarrow> gn_state n = S_PENDING
       \<longrightarrow> \<not> has_bad_dep ns n" by blast
  note ev = skips_evolves [OF m(2) assms]
  have ids: "map gn_id ns' = map gn_id ns" using ev by (metis evolves_def ids_steps)
  have "\<not> has_bad_dep ns n" if "n \<in> set ns'" "gn_state n = S_PENDING" for n
  proof -
    have "gn_id n \<in> set (map gn_id ns)" unfolding ids [symmetric] using that(1) by simp
    moreover have "node_of ns' (gn_id n) = Some n"
      by (rule node_of_member) (use that(1) evolves_distinct [OF ev] assms in auto)
    ultimately show ?thesis using rest that(2) by blast
  qed
  then have "\<forall>n \<in> set ns'. gn_state n = S_PENDING \<longrightarrow> \<not> has_bad_dep ns n" by blast
  then show ?thesis using m by (metis mark_unsatisfiable_def)
qed

subsection \<open>Restoring a snapshot\<close>

text \<open>The values of a node survive being written and read back.\<close>

definition codec_ok :: "codec \<Rightarrow> graph_node \<Rightarrow> bool" where
  "codec_ok c n \<longleftrightarrow>
     (\<forall>t. gn_started_at n = Some t \<or> gn_completed_at n = Some t
        \<longrightarrow> c_iso c t \<noteq> [] \<and> c_from_iso c (c_iso c t) = Some t)
   \<and> (\<forall>t. gn_timeout_s n = Some t \<longrightarrow> c_float c (JFloat (c_float_text c t)) = Some t)
   \<and> (\<forall>r. gn_result n = Some r \<or> r \<in> set (gn_tool_results n)
        \<longrightarrow> truthy (c_dump_result c r) \<and> c_load_result c (c_dump_result c r) = Some r)"

lemma try_set_simps [simp]:
  "try_set None upd (n, True) = (n, False)" "try_set (Some x) upd (n, True) = (upd x n, True)"
  "try_set v upd (n, False) = (n, False)"
  by (simp_all add: try_set_def)

lemma try_set_step: "(\<And>x m. gn_step (upd x m) = gn_step m) \<Longrightarrow> gn_step (fst (try_set v upd st)) = gn_step (fst st)"
  by (simp add: try_set_def split: option.split)

lemma try_set_state: "(\<And>x m. gn_state (upd x m) = gn_state m) \<Longrightarrow> gn_state (fst (try_set v upd st)) = gn_state (fst st)"
  by (simp add: try_set_def split: option.split)

lemma load_fields_step: "gn_step (fst (load_fields c saved st n)) = gn_step n"
  by (simp add: load_fields_def Let_def try_set_step)

lemma load_fields_state: "gn_state (fst (load_fields c saved st n)) = st"
  by (simp add: load_fields_def Let_def try_set_state)

lemma restore_node_cases:
  obtains e where "restore_node c saved n = n\<lparr>gn_error := e, gn_interrupted := True\<rparr>"
  | st where "st \<noteq> S_RUNNING" "restore_node c saved n = fst (load_fields c saved st n)"
  | st e where "restore_node c saved n = (fst (load_fields c saved st n))
        \<lparr>gn_state := S_PENDING, gn_interrupted := True, gn_error := e\<rparr>"
proof (cases "step_of_value (get_or (JStr ''PENDING'') saved ''state'')")
  case None
  then show ?thesis using that(1) by (simp add: restore_node_def)
next
  case (Some st)
  show ?thesis
  proof (cases "st = S_RUNNING")
    case True
    then show ?thesis
      using that(1) [of "''interrupted by restart; recovery pending (Gate 10)''"] Some
      by (simp add: restore_node_def)
  next
    case False
    obtain m b where l: "load_fields c saved st n = (m, b)" by fastforce
    show ?thesis
    proof (cases b)
      case True
      then show ?thesis using that(2) [OF False] Some False l
        by (cases st) (simp_all add: restore_node_def)
    next
      case b: False
      then show ?thesis using that(3) [where st = st] Some False l
        by (cases st) (simp_all add: restore_node_def)
    qed
  qed
qed

lemma restore_node_step [simp]: "gn_step (restore_node c saved n) = gn_step n"
  by (rule restore_node_cases [of c saved n]) (simp_all add: load_fields_step)

lemma restore_node_not_running:
  "gn_state n = S_PENDING \<Longrightarrow> gn_state (restore_node c saved n) \<noteq> S_RUNNING"
  by (rule restore_node_cases [of c saved n]) (simp_all add: load_fields_state)

definition restored :: "codec \<Rightarrow> json option \<Rightarrow> graph_node \<Rightarrow> graph_node" where
  "restored c saved n = (case saved of Some (JObj ms) \<Rightarrow> restore_node c ms n | _ \<Rightarrow> n)"

lemma restored_step [simp]: "gn_step (restored c saved n) = gn_step n"
  by (simp add: restored_def split: option.split json.split)

lemma restore_entry_map:
  assumes "distinct (map gn_id ns)"
  shows "restore_entry c (i, saved) ns = map (\<lambda>m. if gn_id m = i then restored c (Some saved) m else m) ns"
proof (cases "node_of ns i")
  case None
  then have "i \<notin> gn_id ` set ns" by (simp add: node_of_None)
  then show ?thesis using None by (auto simp: restore_entry_def intro!: map_idI [symmetric])
next
  case (Some n)
  have "m = n" if "m \<in> set ns" "gn_id m = i" for m
    using node_of_member [OF assms that(1)] that(2) Some by simp
  moreover have "gn_id n = i" using node_of_Some [OF Some] by simp
  ultimately show ?thesis using Some
    by (cases saved) (auto simp: restore_entry_def restored_def put_node_def intro!: map_idI [symmetric])
qed

lemma restore_fold:
  assumes "distinct (map gn_id ns)" "distinct (map fst es)"
  shows "fold (restore_entry c) es ns = map (\<lambda>m. restored c (map_of es (gn_id m)) m) ns"
  using assms
proof (induction es arbitrary: ns)
  case Nil
  then show ?case by (simp add: restored_def)
next
  case (Cons e es)
  obtain i saved where e: "e = (i, saved)" by (cases e)
  let ?ns = "map (\<lambda>m. if gn_id m = i then restored c (Some saved) m else m) ns"
  have step: "gn_step (if gn_id m = i then restored c (Some saved) m else m) = gn_step m" for m
    by simp
  have "map gn_id ?ns = map gn_id ns" using step by simp
  with Cons.prems(1) have "distinct (map gn_id ?ns)" by (simp only:)
  with Cons have "fold (restore_entry c) es ?ns = map (\<lambda>m. restored c (map_of es (gn_id m)) m) ?ns"
    by simp
  moreover have "map_of es i = None" using Cons.prems(2) by (simp add: e map_of_eq_None_iff)
  ultimately show ?case
    by (auto simp: e restore_entry_map [OF Cons.prems(1)] restored_def [of c None])
qed

lemma fold_dict_set_ids:
  "distinct (map gn_id ns) \<Longrightarrow> set (keys d) \<inter> set (map gn_id ns) = {}
     \<Longrightarrow> fold (\<lambda>n. dict_set (gn_id n) (f n)) ns d = d @ map (\<lambda>n. (gn_id n, f n)) ns"
proof (induction ns arbitrary: d)
  case Nil
  then show ?case by simp
next
  case (Cons n ns)
  have "dict_set (gn_id n) (f n) d = d @ [(gn_id n, f n)]"
    using Cons.prems(2) by (induction d) auto
  with Cons show ?case by auto
qed

lemma step_of_value_text [simp]: "step_of_value (JStr (step_value s)) = Some s"
  by (cases s) (simp_all add: step_of_value_def all_step_states_def)

lemma all_some_map: "(\<And>x. x \<in> set xs \<Longrightarrow> f (g x) = Some x) \<Longrightarrow> all_some (map f (map g xs)) = Some xs"
  by (induction xs) simp_all

lemma load_fields_snapshot:
  assumes "codec_ok c n" "node_snapshot c n = JObj ms"
  shows "load_fields c ms (gn_state n) (new_node (gn_step n)) = (n, True)"
proof -
  have results: "all_some (map (c_load_result c) (map (c_dump_result c) (gn_tool_results n)))
      = Some (gn_tool_results n)"
    using assms(1) by (intro all_some_map) (simp add: codec_ok_def)
  have ms: "ms = (case node_snapshot c n of JObj m \<Rightarrow> m | _ \<Rightarrow> [])" by (simp add: assms(2))
  show ?thesis
    using assms(1)
    by (cases "gn_timeout_s n"; cases "gn_started_at n"; cases "gn_completed_at n"; cases "gn_result n")
      (simp_all add: ms node_snapshot_def load_fields_def get_or_def Let_def codec_ok_def
        iter_items_def results load_time_def opt_json_def json_str_def new_node_def del: map_map)
qed

lemma new_graph_nodes: "new_graph ns = Inr g \<Longrightarrow> tg_nodes g = ns \<and> distinct (map gn_id ns)"
  by (auto simp: new_graph_def Let_def split: if_splits option.splits prod.splits)

lemma from_plan_nodes:
  "from_plan p = Inr g \<Longrightarrow> tg_nodes g = map new_node (plan_steps p) \<and> distinct (map gn_id (tg_nodes g))"
  using new_graph_nodes by (fastforce simp: from_plan_def bind_result_Inr_iff)

definition after_restart :: "graph_node \<Rightarrow> graph_node" where
  "after_restart n =
     (if gn_state n = S_RUNNING
      then (new_node (gn_step n))\<lparr>gn_interrupted := True,
             gn_error := ''interrupted by restart; recovery pending (Gate 10)''\<rparr>
      else n)"

lemma restored_snapshot:
  assumes "codec_ok c n"
  shows "restored c (Some (node_snapshot c n)) (new_node (gn_step n)) = after_restart n"
proof -
  obtain ms where ms: "node_snapshot c n = JObj ms" by (simp add: node_snapshot_def)
  have "get_or (JStr ''PENDING'') ms ''state'' = JStr (step_value (gn_state n))"
    using ms by (auto simp: node_snapshot_def get_or_def)
  then have "step_of_value (get_or (JStr ''PENDING'') ms ''state'') = Some (gn_state n)"
    by (simp only: step_of_value_text)
  then show ?thesis
    using load_fields_snapshot [OF assms ms]
    by (cases "gn_state n") (simp_all add: ms restored_def restore_node_def after_restart_def)
qed

text \<open>
  a graph restored from its own snapshot has every node exactly as it was saved, except that
  a node that was RUNNING comes back PENDING and marked as interrupted, provided pydantic and
  \<open>datetime\<close> read the values of its nodes back as they wrote them.
\<close>

theorem restore_snapshot:
  assumes "\<forall>n \<in> set ns. codec_ok c n" "map gn_step ns = plan_steps p" "from_plan p = Inr g0"
  shows "restore_graph c p (graph_snapshot c ns) = Inr (g0\<lparr>tg_nodes := map after_restart ns\<rparr>)"
proof -
  from from_plan_nodes [OF assms(3)] assms(2) have
    g0: "tg_nodes g0 = map new_node (map gn_step ns)" and dist: "distinct (map gn_id (tg_nodes g0))" by auto
  then have d: "distinct (map gn_id ns)" by (simp add: comp_def new_node_def)
  let ?es = "map (\<lambda>n. (gn_id n, node_snapshot c n)) ns"
  have es: "saved_states (graph_snapshot c ns) = ?es"
    using fold_dict_set_ids [OF d, of "[]" "node_snapshot c"]
    by (simp add: saved_states_def graph_snapshot_def get_or_def)
  have keys: "distinct (map fst ?es)" using d by (simp add: comp_def)
  have "map_of ?es (gn_id n) = Some (node_snapshot c n)" if "n \<in> set ns" for n
    by (rule map_of_is_SomeI [OF keys]) (use that in auto)
  then have "map (\<lambda>m. restored c (map_of ?es (gn_id m)) m) (map new_node (map gn_step ns))
      = map after_restart ns"
    using restored_snapshot assms(1) by (simp add: new_node_def)
  then show ?thesis
    using restore_fold [OF dist keys, of c] by (simp add: restore_graph_def assms(3) es g0)
qed

definition demo_codec :: codec where
  "demo_codec = \<lparr>c_iso = (\<lambda>t. ''t''), c_from_iso = (\<lambda>s. None), c_float_text = (\<lambda>t. ''1.0''),
     c_int = (\<lambda>v. None), c_float = (\<lambda>v. None), c_dump_result = (\<lambda>r. JNull),
     c_load_result = (\<lambda>v. None), c_exc_text = ''x''\<rparr>"

text \<open>
  \<open>restore\<close> raises only when the plan itself is refused, whatever the stored snapshot
  holds; the graph it returns has the steps of the plan in their order, and no node is RUNNING.
\<close>

theorem restore_total:
  "is_inr (restore_graph c p snapshot) = is_inr (from_plan p)
   \<and> (wf_json snapshot \<longrightarrow> (\<forall>g. restore_graph c p snapshot = Inr g \<longrightarrow>
        map gn_step (tg_nodes g) = plan_steps p
        \<and> (\<forall>n \<in> set (tg_nodes g). gn_state n \<noteq> S_RUNNING)))"
proof (cases "from_plan p")
  case (Inl e)
  then show ?thesis by (simp add: restore_graph_def)
next
  case (Inr g0)
  note g0 = from_plan_nodes [OF Inr]
  let ?es = "saved_states snapshot"
  have distinct_keys: "distinct (map fst ?es)" if "wf_json snapshot"
    using that by (fastforce simp: saved_states_def get_or_def split: json.split option.split
        dest!: map_of_SomeD)
  have not_running: "gn_state (restored c v n) \<noteq> S_RUNNING" if "gn_state n = S_PENDING" for v n
    using that by (auto simp: restored_def restore_node_not_running split: option.split json.split)
  have "map gn_step (tg_nodes g) = plan_steps p \<and> (\<forall>n \<in> set (tg_nodes g). gn_state n \<noteq> S_RUNNING)"
    if "wf_json snapshot" "restore_graph c p snapshot = Inr g" for g
  proof -
    have "tg_nodes g = map (\<lambda>m. restored c (map_of ?es (gn_id m)) m) (map new_node (plan_steps p))"
      using that(2) restore_fold [OF _ distinct_keys [OF that(1)], of "tg_nodes g0" c] g0
      by (auto simp: restore_graph_def Inr)
    moreover have "gn_state (new_node s) = S_PENDING" "gn_step (new_node s) = s" for s
      by (simp_all add: new_node_def)
    ultimately show ?thesis using not_running by (simp add: map_idI)
  qed
  then show ?thesis by (simp add: restore_graph_def Inr)
qed

theorem restore_total_witness:
  "\<exists>g. restore_graph demo_codec demo_plan (JObj [(''nodes'', JObj [(''a'', JObj [(''state'', JStr ''RUNNING'')])])]) = Inr g
     \<and> map gn_step (tg_nodes g) = plan_steps demo_plan"
proof -
  let ?snap = "JObj [(''nodes'', JObj [(''a'', JObj [(''state'', JStr ''RUNNING'')])])]"
  have "is_inr (from_plan demo_plan)" by code_simp
  with restore_total [of demo_codec demo_plan ?snap] show ?thesis
    by (auto simp: is_inr_iff)
qed

text \<open>A codec for the two instants and the one result of a small graph.\<close>

definition demo_result :: tool_result where
  "demo_result = \<lparr>tr_task_id = ''t'', tr_tool_call_id = ''c'', tr_success = True,
     tr_output = JInt 3, tr_error = None\<rparr>"

definition demo_nodes :: nodes where
  "demo_nodes =
     [(new_node (demo_step ''b'' [''a'']))\<lparr>gn_state := S_RUNNING, gn_started_at := Some 2\<rparr>,
      (new_node (demo_step ''a'' []))\<lparr>gn_state := S_SUCCEEDED, gn_started_at := Some 1,
         gn_completed_at := Some 2, gn_timeout_s := Some 60,
         gn_result := Some demo_result, gn_tool_results := [demo_result]\<rparr>]"

definition exact_codec :: codec where
  "exact_codec = \<lparr>c_iso = (\<lambda>t. if t = 1 then ''t1'' else ''t2''),
     c_from_iso = (\<lambda>s. if s = ''t1'' then Some 1 else if s = ''t2'' then Some 2 else None),
     c_float_text = (\<lambda>t. ''60.0''), c_int = (\<lambda>v. None),
     c_float = (\<lambda>v. if v = JFloat ''60.0'' then Some 60 else None),
     c_dump_result = (\<lambda>r. JObj [(''success'', JBool True)]),
     c_load_result = (\<lambda>v. Some demo_result), c_exc_text = ''x''\<rparr>"

theorem restore_snapshot_witness:
  "\<exists>g. restore_graph exact_codec demo_plan (graph_snapshot exact_codec demo_nodes) = Inr g
     \<and> tg_nodes g = map after_restart demo_nodes"
proof -
  have "is_inr (from_plan demo_plan)" by code_simp
  then obtain g0 where g0: "from_plan demo_plan = Inr g0" by (auto simp: is_inr_iff)
  have codec: "\<forall>n \<in> set demo_nodes. codec_ok exact_codec n"
    by (auto simp: demo_nodes_def codec_ok_def exact_codec_def new_node_def)
  have steps: "map gn_step demo_nodes = plan_steps demo_plan"
    by (simp add: demo_nodes_def demo_plan_def new_node_def)
  from restore_snapshot [OF codec steps g0] show ?thesis by simp
qed

end
