(* ===== verification/Cancel_Token.thy ===== *)
theory Cancel_Token
  imports Prelude
begin

text \<open>
  Cancellation tokens (\<^verbatim>\<open>agent/executor/cancellation.py\<close>). A token is a shared object that its
  children point to: tokens live in a store, a list in creation order, and a token names its
  parent by position. Clock readings are arguments.
\<close>

record token =
  tk_event :: bool
  tk_parent :: "nat option"
  tk_deadline :: "real option"

type_synonym token_store = "token list"

definition new_token :: "nat option \<Rightarrow> real option \<Rightarrow> token_store \<Rightarrow> token_store \<times> nat" where
  "new_token parent deadline ts =
     (ts @ [\<lparr>tk_event = False, tk_parent = parent, tk_deadline = deadline\<rparr>], length ts)"

definition cancel_token :: "nat \<Rightarrow> token_store \<Rightarrow> token_store" where
  "cancel_token i ts = (if i < length ts then ts[i := (ts ! i)\<lparr>tk_event := True\<rparr>] else ts)"

definition deadline_reached :: "real \<Rightarrow> token \<Rightarrow> bool" where
  "deadline_reached now t = (case tk_deadline t of None \<Rightarrow> False | Some d \<Rightarrow> d \<le> now)"

text \<open>
  \<open>cancelled\<close> asks the parent; a parent is older than its child, so the walk ends.
\<close>

function cancelled :: "token_store \<Rightarrow> real \<Rightarrow> nat \<Rightarrow> bool" where
  "cancelled ts now i =
     (if i < length ts
      then tk_event (ts ! i)
        \<or> (case tk_parent (ts ! i) of None \<Rightarrow> False
            | Some p \<Rightarrow> if p < i then cancelled ts now p else False)
        \<or> deadline_reached now (ts ! i)
      else False)"
  by pat_completeness auto
termination by (relation "measure (\<lambda>(ts, now, i). i)") auto

declare cancelled.simps [simp del]

definition child_token :: "real \<Rightarrow> real option \<Rightarrow> nat \<Rightarrow> token_store \<Rightarrow> token_store \<times> nat" where
  "child_token now timeout i ts =
     (let deadline = map_option (\<lambda>s. now + max s 0) timeout;
          deadline' = (case tk_deadline (ts ! i) of
              None \<Rightarrow> deadline
            | Some d \<Rightarrow> (case deadline of None \<Rightarrow> Some d | Some e \<Rightarrow> Some (min e d)))
      in new_token (Some i) deadline' ts)"

subsection \<open>A child outlives nothing its parent does not allow\<close>

definition wf_tokens :: "token_store \<Rightarrow> bool" where
  "wf_tokens ts \<longleftrightarrow> (\<forall>i < length ts. \<forall>p. tk_parent (ts ! i) = Some p \<longrightarrow> p < i)"

lemma wf_tokens_Nil [simp]: "wf_tokens []"
  by (simp add: wf_tokens_def)

lemma wf_new_token:
  "wf_tokens ts \<Longrightarrow> (\<And>p. parent = Some p \<Longrightarrow> p < length ts) \<Longrightarrow> wf_tokens (fst (new_token parent d ts))"
  by (auto simp: wf_tokens_def new_token_def nth_append less_Suc_eq)

lemma wf_child_token: "wf_tokens ts \<Longrightarrow> i < length ts \<Longrightarrow> wf_tokens (fst (child_token now timeout i ts))"
  unfolding child_token_def Let_def by (rule wf_new_token) auto

lemma wf_cancel_token: "wf_tokens ts \<Longrightarrow> wf_tokens (cancel_token i ts)"
  by (auto simp: wf_tokens_def cancel_token_def nth_list_update)

lemma length_cancel_token [simp]: "length (cancel_token i ts) = length ts"
  by (simp add: cancel_token_def)

lemma cancel_token_nth:
  "i < length ts \<Longrightarrow> tk_parent (cancel_token j ts ! i) = tk_parent (ts ! i)"
  "i < length ts \<Longrightarrow> tk_deadline (cancel_token j ts ! i) = tk_deadline (ts ! i)"
  "i < length ts \<Longrightarrow> tk_event (ts ! i) \<Longrightarrow> tk_event (cancel_token j ts ! i)"
  by (simp_all add: cancel_token_def nth_list_update)

lemma cancelled_cancel_mono: "cancelled ts now i \<Longrightarrow> cancelled (cancel_token j ts) now i"
proof (induction i rule: less_induct)
  case (less i)
  have i: "i < length ts" using less.prems by (simp add: cancelled.simps [of ts now i] split: if_splits)
  consider "tk_event (ts ! i)" | p where "tk_parent (ts ! i) = Some p" "p < i" "cancelled ts now p"
    | "deadline_reached now (ts ! i)"
    using less.prems i by (auto simp: cancelled.simps [of ts now i] split: option.splits if_splits)
  then show ?case
  proof cases
    case 2
    with less.IH [of p] i show ?thesis
      by (simp add: cancelled.simps [of "cancel_token j ts" now i] cancel_token_nth)
  qed (use i in \<open>simp_all add: cancelled.simps [of "cancel_token j ts" now i] cancel_token_nth
        deadline_reached_def\<close>)
qed

lemma cancelled_time_mono: "cancelled ts now i \<Longrightarrow> now \<le> now' \<Longrightarrow> cancelled ts now' i"
proof (induction i rule: less_induct)
  case (less i)
  then show ?case
    by (auto simp: cancelled.simps [of ts now i] cancelled.simps [of ts now' i] deadline_reached_def
        split: option.splits if_splits)
qed

lemma cancelled_append: "i < length ts \<Longrightarrow> cancelled (ts @ us) now i = cancelled ts now i"
proof (induction i rule: less_induct)
  case (less i)
  then show ?case
    by (auto simp: cancelled.simps [of ts now i] cancelled.simps [of "ts @ us" now i] nth_append
        split: option.splits)
qed

lemma cancelled_parent:
  assumes "tk_parent (ts ! i) = Some p" "p < i" "i < length ts" "cancelled ts now p"
  shows "cancelled ts now i"
  using assms by (simp add: cancelled.simps [of ts now i])

text \<open>
  a child token made by \<open>CancellationToken.child\<close> starts as not cancelled by itself, its
  deadline is never later than its parent's nor than \<open>now + max(timeout, 0)\<close>, and from then on it
  reads as cancelled whenever its parent does, whatever is cancelled later and however late the
  clock is read; the parent is not affected by the creation.
\<close>

theorem child_token_contained:
  assumes "i < length ts" "child_token now timeout i ts = (us, j)"
  shows "(\<forall>d. tk_deadline (ts ! i) = Some d \<longrightarrow> (\<exists>e. tk_deadline (us ! j) = Some e \<and> e \<le> d))
       \<and> (\<forall>s. timeout = Some s \<longrightarrow> (\<exists>e. tk_deadline (us ! j) = Some e \<and> e \<le> now + max s 0))
       \<and> (\<forall>ks later. cancelled (fold cancel_token ks us) later i
            \<longrightarrow> cancelled (fold cancel_token ks us) later j)
       \<and> (\<forall>later. cancelled us later i = cancelled ts later i)"
proof -
  obtain d' where us: "us = ts @ [\<lparr>tk_event = False, tk_parent = Some i, tk_deadline = d'\<rparr>]"
    and j: "j = length ts"
    and d': "d' = (case tk_deadline (ts ! i) of None \<Rightarrow> map_option (\<lambda>s. now + max s 0) timeout
            | Some d \<Rightarrow> (case map_option (\<lambda>s. now + max s 0) timeout of
                 None \<Rightarrow> Some d | Some e \<Rightarrow> Some (min e d)))"
    using assms(2) by (auto simp: child_token_def new_token_def Let_def)
  have len: "length (fold cancel_token ks us) = length us" for ks
    by (induction ks arbitrary: us) (simp_all)
  have par: "tk_parent (fold cancel_token ks vs ! j) = tk_parent (vs ! j)" if "j < length vs" for ks vs
    using that by (induction ks arbitrary: vs) (simp_all add: cancel_token_nth(1))
  have "cancelled (fold cancel_token ks us) later j"
    if "cancelled (fold cancel_token ks us) later i" for ks later
    by (rule cancelled_parent [OF _ _ _ that])
      (use assms(1) par [of us ks] len [of ks] in \<open>auto simp: us j\<close>)
  moreover have "cancelled us later i = cancelled ts later i" for later
    using assms(1) by (simp add: us cancelled_append)
  ultimately show ?thesis
    by (auto simp: us j d' split: option.splits)
qed

theorem child_token_contained_witness:
  "\<exists>us j. child_token 10 (Some 60) 0 [\<lparr>tk_event = False, tk_parent = None, tk_deadline = Some 20\<rparr>] = (us, j)
     \<and> (\<exists>e. tk_deadline (us ! j) = Some e \<and> e \<le> 20)"
proof -
  let ?ts = "[\<lparr>tk_event = False, tk_parent = None, tk_deadline = Some 20\<rparr>]"
  obtain us j where c: "child_token 10 (Some 60) 0 ?ts = (us, j)"
    by (cases "child_token 10 (Some 60) 0 ?ts")
  from child_token_contained [OF _ c] c show ?thesis by auto
qed

end
