(* ===== verification/Executor.thy ===== *)
theory Executor
  imports Graph Cancel_Token
begin

text \<open>
  The parallel executor (\<^verbatim>\<open>agent/executor/executor.py\<close>): the scheduling loop over a task graph.
  One pass of the \<open>while\<close> loop is one step of the state; what the other threads do between two
  reads (an external \<open>cancel\<close>, the futures that complete, the clock) is the input of that pass.
  A future is a number, the pool's queue is the list of submitted work, and the work itself is
  \<open>run_node\<close>, which runs the step's tools in order.
\<close>

datatype failure_policy = FAIL_FAST | CONTINUE_INDEPENDENT

datatype overall_status = O_COMPLETED | O_FAILED | O_CANCELLED

fun overall_value :: "overall_status \<Rightarrow> string" where
  "overall_value O_COMPLETED = ''COMPLETED''"
| "overall_value O_FAILED = ''FAILED''"
| "overall_value O_CANCELLED = ''CANCELLED''"

record exec_config =
  xc_max_concurrency :: nat
  xc_policy :: failure_policy
  xc_default_timeout :: real
  xc_step_timeouts :: "(string \<times> real) list"
  xc_args :: "(string \<times> arguments) list"
  xc_persist :: bool

definition new_executor ::
  "int \<Rightarrow> failure_policy \<Rightarrow> real \<Rightarrow> (string \<times> real) list \<Rightarrow> (string \<times> arguments) list \<Rightarrow> bool
     \<Rightarrow> exec_config result" where
  "new_executor max_concurrency policy default_timeout timeouts args persist =
     (if max_concurrency < 1 then Inl (DomainValidationError ''max_concurrency must be >= 1'')
      else if default_timeout \<le> 0
        then Inl (DomainValidationError ''default_step_timeout_s must be > 0'')
      else Inr \<lparr>xc_max_concurrency = nat max_concurrency, xc_policy = policy,
             xc_default_timeout = default_timeout, xc_step_timeouts = timeouts,
             xc_args = args, xc_persist = persist\<rparr>)"

subsection \<open>The work of one step\<close>

text \<open>
  What the worker thread meets: whether its token reads as cancelled before the \<open>k\<close>-th tool (and
  after the last), and what the runner returns for it, or the text of what it raised.
\<close>

record run_env =
  re_cancelled :: "nat \<Rightarrow> bool"
  re_run :: "nat \<Rightarrow> string \<Rightarrow> string + tool_result"

type_synonym outcome = "bool \<times> tool_result list \<times> string"

fun run_tools :: "run_env \<Rightarrow> nat \<Rightarrow> string list \<Rightarrow> tool_result list \<Rightarrow> outcome" where
  "run_tools env k [] results =
     (if re_cancelled env k
      then (False, results, ''step deadline/cancellation reached after tool execution'')
      else (True, results, []))"
| "run_tools env k (name # names) results =
     (if re_cancelled env k
      then (False, results, ''step deadline/cancellation reached before tool execution'')
      else case re_run env k name of
        Inl exc \<Rightarrow> (False, [], ''executor error: '' @ exc)
      | Inr r \<Rightarrow>
          if \<not> tr_success r
          then (False, results @ [r],
                case tr_error r of Some (c # cs) \<Rightarrow> c # cs | _ \<Rightarrow> name @ '' failed'')
          else run_tools env (Suc k) names (results @ [r]))"

definition run_node :: "run_env \<Rightarrow> graph_node \<Rightarrow> outcome" where
  "run_node env n = run_tools env 0 (ps_tools (gn_step n)) []"

subsection \<open>The state of a run\<close>

record submission =
  sb_future :: nat
  sb_step :: string
  sb_arguments :: arguments
  sb_token :: nat

record exec_state =
  xs_nodes :: nodes
  xs_in_flight :: "(nat \<times> string) list"
  xs_step_tokens :: "(nat \<times> nat) list"
  xs_tokens :: token_store
  xs_submitted :: "submission list"
  xs_halting :: bool
  xs_events :: "(string \<times> string) list"
  xs_tool_results :: "tool_result list"
  xs_saved :: "nodes list"

text \<open>
  What one pass meets: for each read of the caller's token, whether another thread has cancelled
  it just before and the clock; the clock at the submissions and at the deadline check; and, for the futures in
  flight, the completed ones with what their work met (\<open>Inl\<close>: the text of what \<open>future.result()\<close> raised).
  The wall clock (\<open>utcnow\<close>) and the monotonic clock of the deadlines are separate readings.
\<close>

record completion =
  cp_future :: nat
  cp_work :: "string + run_env"
  cp_now :: real
  cp_mono :: real

record pass_input =
  pi_guard :: "bool \<times> real"
  pi_reason :: "bool \<times> real"
  pi_submit :: "bool \<times> real"
  pi_now :: real
  pi_mono :: real
  pi_done :: "(nat \<times> string) list \<Rightarrow> completion list"
  pi_deadline_now :: real

definition emit :: "string \<Rightarrow> string \<Rightarrow> exec_state \<Rightarrow> exec_state" where
  "emit event i st = st\<lparr>xs_events := xs_events st @ [(event, i)]\<rparr>"

definition persist :: "exec_config \<Rightarrow> exec_state \<Rightarrow> exec_state" where
  "persist cfg st = (if xc_persist cfg then st\<lparr>xs_saved := xs_saved st @ [xs_nodes st]\<rparr> else st)"

text \<open>The caller's token is the first of the store.\<close>

definition read_token :: "bool \<times> real \<Rightarrow> exec_state \<Rightarrow> bool \<times> exec_state" where
  "read_token io st =
     (let st' = (if fst io then st\<lparr>xs_tokens := cancel_token 0 (xs_tokens st)\<rparr> else st)
      in (cancelled (xs_tokens st') (snd io) 0, st'))"

definition on_node ::
  "string \<Rightarrow> (graph_node \<Rightarrow> graph_node result) \<Rightarrow> exec_state \<Rightarrow> exec_state result" where
  "on_node i f st =
     (case node_of (xs_nodes st) i of
        None \<Rightarrow> Inr st
      | Some n \<Rightarrow> bind_result (f n) (\<lambda>n'. Inr (st\<lparr>xs_nodes := put_node n' (xs_nodes st)\<rparr>)))"

definition step_timeout :: "exec_config \<Rightarrow> string \<Rightarrow> real" where
  "step_timeout cfg i =
     (case map_of (xc_step_timeouts cfg) i of Some t \<Rightarrow> t | None \<Rightarrow> xc_default_timeout cfg)"

definition merge_args :: "arguments \<Rightarrow> arguments \<Rightarrow> arguments" where
  "merge_args base over = fold (\<lambda>(k, v). dict_set k v) over base"

text \<open>The body of \<open>_submit_ready\<close> for one node.\<close>

definition submit_node :: "exec_config \<Rightarrow> real \<Rightarrow> real \<Rightarrow> graph_node \<Rightarrow> exec_state \<Rightarrow> exec_state result" where
  "submit_node cfg now clk n st =
     (let i = gn_id n; timeout = step_timeout cfg i in
      bind_result (on_node i (node_transition S_READY) st) (\<lambda>st1.
      bind_result (on_node i (\<lambda>m. map_sum id (\<lambda>m'. m'\<lparr>gn_attempts := gn_attempts m' + 1,
                       gn_started_at := Some now, gn_timeout_s := Some timeout\<rparr>)
                     (node_transition S_RUNNING m)) (emit ''STEP_READY'' i st1)) (\<lambda>st2.
        let (ts, child) = child_token clk (Some timeout) 0 (xs_tokens st2);
            future = length (xs_submitted st2);
            merged = merge_args (ps_arguments (gn_step n))
                       (case map_of (xc_args cfg) i of Some a \<Rightarrow> a | None \<Rightarrow> [])
        in Inr ((emit ''STEP_STARTED'' i st2)\<lparr>xs_tokens := ts,
             xs_submitted := xs_submitted st2 @ [\<lparr>sb_future = future, sb_step = i,
                sb_arguments = merged, sb_token = child\<rparr>],
             xs_in_flight := xs_in_flight st2 @ [(future, i)],
             xs_step_tokens := dict_set future child (xs_step_tokens st2)\<rparr>))))"

fun submit_loop :: "exec_config \<Rightarrow> real \<Rightarrow> real \<Rightarrow> nodes \<Rightarrow> exec_state \<Rightarrow> exec_state result" where
  "submit_loop cfg now clk [] st = Inr st"
| "submit_loop cfg now clk (n # ns) st =
     (if xc_max_concurrency cfg \<le> length (xs_in_flight st) then Inr st
      else bind_result (submit_node cfg now clk n st) (submit_loop cfg now clk ns))"

definition submit_ready :: "exec_config \<Rightarrow> real \<Rightarrow> real \<Rightarrow> exec_state \<Rightarrow> exec_state result" where
  "submit_ready cfg now clk st = submit_loop cfg now clk (ready_nodes (xs_nodes st)) st"

text \<open>\<open>_collect_completed\<close>: the finished futures of this pass.\<close>

definition last_opt :: "'a list \<Rightarrow> 'a option" where
  "last_opt xs = (if xs = [] then None else Some (last xs))"

definition settle_node ::
  "real \<Rightarrow> bool \<Rightarrow> outcome \<Rightarrow> graph_node \<Rightarrow> (graph_node \<times> string) result" where
  "settle_node now timed_out out n =
     (let (ok, results, error) = out;
          m = n\<lparr>gn_tool_results := results, gn_result := last_opt results,
                gn_completed_at := Some now\<rparr>
      in if timed_out \<and> \<not> ok
         then bind_result (node_transition S_TIMED_OUT m) (\<lambda>m'.
                Inr (m'\<lparr>gn_error := (if error = [] then ''step deadline exceeded'' else error)\<rparr>,
                     ''STEP_TIMED_OUT''))
         else if ok
         then bind_result (node_transition S_SUCCEEDED m) (\<lambda>m'. Inr (m', ''STEP_COMPLETED''))
         else bind_result (node_transition S_FAILED m) (\<lambda>m'.
                Inr (m'\<lparr>gn_error := error\<rparr>, ''STEP_FAILED'')))"

definition outcome_of :: "completion \<Rightarrow> graph_node \<Rightarrow> outcome" where
  "outcome_of c n =
     (case cp_work c of
        Inl exc \<Rightarrow> (False, [], ''executor error: '' @ exc)
      | Inr env \<Rightarrow> run_node env n)"

definition collect_one :: "completion \<Rightarrow> exec_state \<Rightarrow> exec_state result" where
  "collect_one c st =
     (case map_of (xs_in_flight st) (cp_future c) of
        None \<Rightarrow> Inr st
      | Some i \<Rightarrow>
          let child = map_of (xs_step_tokens st) (cp_future c);
              st1 = st\<lparr>xs_in_flight := dict_del (cp_future c) (xs_in_flight st),
                       xs_step_tokens := dict_del (cp_future c) (xs_step_tokens st)\<rparr>
          in case node_of (xs_nodes st1) i of
               None \<Rightarrow> Inr st1
             | Some n \<Rightarrow>
                 if gn_state n \<noteq> S_RUNNING then Inr st1
                 else
                   let out = outcome_of c n;
                       timed_out = (case child of None \<Rightarrow> False
                                    | Some k \<Rightarrow> deadline_reached (cp_mono c) (xs_tokens st1 ! k))
                   in bind_result (settle_node (cp_now c) timed_out out n) (\<lambda>(n', event).
                        Inr ((emit event i st1)\<lparr>xs_nodes := put_node n' (xs_nodes st1),
                               xs_tool_results := xs_tool_results st1 @ fst (snd out)\<rparr>)))"

fun collect_loop :: "completion list \<Rightarrow> exec_state \<Rightarrow> exec_state result" where
  "collect_loop [] st = Inr st"
| "collect_loop (c # cs) st = bind_result (collect_one c st) (collect_loop cs)"

definition enforce_one :: "real \<Rightarrow> nat \<times> string \<Rightarrow> exec_state \<Rightarrow> exec_state" where
  "enforce_one now = (\<lambda>(future, i) s.
     case map_of (xs_step_tokens s) future of
       None \<Rightarrow> s
     | Some k \<Rightarrow>
         if state_of (xs_nodes s) i = Some S_RUNNING \<and> deadline_reached now (xs_tokens s ! k)
         then s\<lparr>xs_tokens := cancel_token k (xs_tokens s)\<rparr> else s)"

definition enforce_deadlines :: "real \<Rightarrow> exec_state \<Rightarrow> exec_state" where
  "enforce_deadlines now st = fold (enforce_one now) (xs_in_flight st) st"

definition unstarted :: "graph_node \<Rightarrow> bool" where
  "unstarted n \<longleftrightarrow> gn_state n = S_PENDING \<or> gn_state n = S_READY"

text \<open>\<open>_stop_unstarted\<close>.\<close>

fun stop_loop :: "string \<Rightarrow> string list \<Rightarrow> exec_state \<Rightarrow> exec_state result" where
  "stop_loop reason [] st = Inr st"
| "stop_loop reason (i # is) st =
     (case node_of (xs_nodes st) i of
        None \<Rightarrow> stop_loop reason is st
      | Some n \<Rightarrow>
          if unstarted n
          then bind_result (node_transition S_CANCELLED n) (\<lambda>n'.
                 stop_loop reason is (emit ''STEP_CANCELLED'' i (st\<lparr>xs_nodes :=
                   put_node (n'\<lparr>gn_error := ''never started: '' @ reason\<rparr>) (xs_nodes st)\<rparr>)))
          else stop_loop reason is st)"

definition stop_unstarted :: "bool \<times> real \<Rightarrow> exec_state \<Rightarrow> exec_state result" where
  "stop_unstarted io st =
     (let (c, st1) = read_token io st in
      stop_loop (if c then ''cancel requested'' else ''fail-fast halt'') (map gn_id (xs_nodes st1)) st1)"

text \<open>\<open>_drain_stuck\<close>; a transition that is refused is passed over.\<close>

fun drain_loop :: "nodes \<Rightarrow> exec_state \<Rightarrow> exec_state" where
  "drain_loop [] st = st"
| "drain_loop (n # ns) st =
     (case node_transition S_SKIPPED n of
        Inl _ \<Rightarrow> drain_loop ns st
      | Inr n' \<Rightarrow>
          drain_loop ns (emit ''STEP_SKIPPED'' (gn_id n) (st\<lparr>xs_nodes :=
            put_node (n'\<lparr>gn_error := ''unsatisfiable dependencies; skipped defensively''\<rparr>)
              (xs_nodes st)\<rparr>)))"

definition drain_stuck :: "exec_state \<Rightarrow> bool \<times> exec_state" where
  "drain_stuck st =
     (let stuck = filter unstarted (xs_nodes st) in
      if stuck = [] \<or> graph_done (xs_nodes st) then (False, st)
      else (True, drain_loop stuck st))"

definition first_failure :: "nodes \<Rightarrow> bool" where
  "first_failure ns \<longleftrightarrow> list_ex (\<lambda>n. gn_state n = S_FAILED \<or> gn_state n = S_TIMED_OUT) ns"

definition mark_skipped :: "exec_state \<Rightarrow> exec_state result" where
  "mark_skipped st =
     bind_result (mark_unsatisfiable (xs_nodes st)) (\<lambda>(ns, skipped).
       Inr (fold (\<lambda>n. emit ''STEP_SKIPPED'' (gn_id n)) skipped (st\<lparr>xs_nodes := ns\<rparr>)))"

subsection \<open>The loop\<close>

text \<open>One pass. Its first half: the two reads of the token, the stop, the submissions.\<close>

definition pass_front :: "exec_config \<Rightarrow> pass_input \<Rightarrow> exec_state \<Rightarrow> exec_state result" where
  "pass_front cfg inp st =
     (let (c1, st1) = read_token (pi_guard inp) st in
      bind_result (if c1 \<or> xs_halting st1 then stop_unstarted (pi_reason inp) st1 else Inr st1) (\<lambda>st2.
      let (c2, st3) = read_token (pi_submit inp) st2 in
      if \<not> c2 \<and> \<not> xs_halting st3 then submit_ready cfg (pi_now inp) (pi_mono inp) st3 else Inr st3))"

text \<open>Its second half: drain, or collect, enforce, skip and halt; the flag says that the loop goes on.\<close>

definition pass_back :: "exec_config \<Rightarrow> pass_input \<Rightarrow> exec_state \<Rightarrow> (bool \<times> exec_state) result" where
  "pass_back cfg inp st4 =
     (if xs_in_flight st4 = []
      then (let (went, st5) = drain_stuck st4 in
            if went then Inr (True, persist cfg st5) else Inr (False, st5))
      else
        bind_result (collect_loop (pi_done inp (xs_in_flight st4)) st4) (\<lambda>st5.
        bind_result (mark_skipped (enforce_deadlines (pi_deadline_now inp) st5)) (\<lambda>st6.
          let st7 = (if first_failure (xs_nodes st6) \<and> xc_policy cfg = FAIL_FAST
                     then st6\<lparr>xs_halting := True\<rparr> else st6)
          in Inr (True, persist cfg st7))))"

definition exec_pass :: "exec_config \<Rightarrow> pass_input \<Rightarrow> exec_state \<Rightarrow> (bool \<times> exec_state) result" where
  "exec_pass cfg inp st = bind_result (pass_front cfg inp st) (pass_back cfg inp)"

text \<open>
  The \<open>while\<close> loop over the inputs of its passes; the flag says that the loop has ended, and is
  \<open>False\<close> when the inputs run out first.
\<close>

fun exec_loop :: "exec_config \<Rightarrow> pass_input list \<Rightarrow> exec_state \<Rightarrow> (bool \<times> exec_state) result" where
  "exec_loop cfg [] st = Inr (graph_done (xs_nodes st), st)"
| "exec_loop cfg (inp # inps) st =
     (if graph_done (xs_nodes st) then Inr (True, st)
      else bind_result (exec_pass cfg inp st) (\<lambda>(go, st').
        if go then exec_loop cfg inps st' else Inr (True, st')))"

definition check_tools :: "string list \<Rightarrow> nodes \<Rightarrow> unit result" where
  "check_tools known ns =
     (case concat (map (\<lambda>n. map (\<lambda>t. (gn_id n, t)) (filter (\<lambda>t. t \<notin> set known) (ps_tools (gn_step n)))) ns) of
        [] \<Rightarrow> Inr ()
      | (i, t) # _ \<Rightarrow> Inl (PlanValidationError (''step '' @ repr_str i @ '' uses unknown tool '' @ repr_str t)))"

definition start_state :: "exec_config \<Rightarrow> token_store \<Rightarrow> nodes \<Rightarrow> exec_state" where
  "start_state cfg ts ns =
     persist cfg (emit ''GRAPH_STARTED'' []
       \<lparr>xs_nodes = ns, xs_in_flight = [], xs_step_tokens = [], xs_tokens = ts, xs_submitted = [],
        xs_halting = False, xs_events = [], xs_tool_results = [], xs_saved = []\<rparr>)"

record exec_result =
  xr_task_id :: string
  xr_status :: overall_status
  xr_states :: "(string \<times> step_state) list"
  xr_succeeded :: "string list"
  xr_failed :: "string list"
  xr_cancelled :: "string list"
  xr_timed_out :: "string list"
  xr_skipped :: "string list"
  xr_results :: "(string \<times> tool_result list) list"
  xr_errors :: "string list"

definition overall :: "nodes \<Rightarrow> bool \<Rightarrow> overall_status" where
  "overall ns is_cancelled =
     (if is_cancelled then O_CANCELLED
      else if list_all (\<lambda>n. gn_state n = S_SUCCEEDED) ns then O_COMPLETED
      else O_FAILED)"

definition bucket :: "step_state \<Rightarrow> nodes \<Rightarrow> string list" where
  "bucket s ns = map gn_id (filter (\<lambda>n. gn_state n = s) ns)"

definition aggregate :: "string \<Rightarrow> nodes \<Rightarrow> overall_status \<Rightarrow> exec_result" where
  "aggregate task_id ns status =
     \<lparr>xr_task_id = task_id, xr_status = status,
      xr_states = fold (\<lambda>n. dict_set (gn_id n) (gn_state n)) ns [],
      xr_succeeded = bucket S_SUCCEEDED ns, xr_failed = bucket S_FAILED ns,
      xr_cancelled = bucket S_CANCELLED ns, xr_timed_out = bucket S_TIMED_OUT ns,
      xr_skipped = bucket S_SKIPPED ns,
      xr_results = fold (\<lambda>n. dict_set (gn_id n) (gn_tool_results n)) ns [],
      xr_errors = map (\<lambda>n. gn_id n @ '': '' @ gn_error n) (filter (\<lambda>n. gn_error n \<noteq> []) ns)\<rparr>"

definition stamp_completed :: "real \<Rightarrow> graph_node \<Rightarrow> graph_node" where
  "stamp_completed now n =
     (if gn_completed_at n = None then n\<lparr>gn_completed_at := Some now\<rparr> else n)"

text \<open>What follows the loop; \<open>io\<close> is the last read of the caller's token.\<close>

definition finish :: "exec_config \<Rightarrow> string \<Rightarrow> real \<Rightarrow> bool \<times> real \<Rightarrow> exec_state \<Rightarrow> exec_result \<times> exec_state" where
  "finish cfg task_id now io st =
     (let st1 = st\<lparr>xs_tokens := fold cancel_token (map snd (xs_step_tokens st)) (xs_tokens st),
                   xs_step_tokens := [],
                   xs_nodes := map (stamp_completed now) (xs_nodes st)\<rparr>;
          (c, st2) = read_token io st1;
          status = overall (xs_nodes st2) c;
          st3 = emit ''GRAPH_COMPLETED'' (overall_value status) st2
      in (aggregate task_id (xs_nodes st3) status, persist cfg st3))"

definition execute_graph ::
  "exec_config \<Rightarrow> string list \<Rightarrow> string \<Rightarrow> token_store \<Rightarrow> task_graph \<Rightarrow> pass_input list \<Rightarrow> real
     \<Rightarrow> bool \<times> real \<Rightarrow> (bool \<times> exec_result \<times> exec_state) result" where
  "execute_graph cfg known task_id ts g inps now io =
     bind_result (check_tools known (tg_nodes g)) (\<lambda>_.
     bind_result (exec_loop cfg inps (start_state cfg ts (tg_nodes g))) (\<lambda>(ended, st).
       Inr (ended, finish cfg task_id now io st)))"

definition execute_plan ::
  "exec_config \<Rightarrow> string list \<Rightarrow> string \<Rightarrow> token_store \<Rightarrow> plan \<Rightarrow> pass_input list \<Rightarrow> real
     \<Rightarrow> bool \<times> real \<Rightarrow> (bool \<times> exec_result \<times> exec_state) result" where
  "execute_plan cfg known task_id ts p inps now io =
     bind_result (validate_plan (new_plan_validator known [] [] 50 65536) p) (\<lambda>validated.
     bind_result (from_plan validated) (\<lambda>g.
       execute_graph cfg known task_id ts g inps now io))"

subsection \<open>What the scheduler does to the states of the steps\<close>

text \<open>
  Every change of the graph is a sequence of these steps: start a pending step whose dependencies
  all succeeded, settle a running one, skip a pending one with a failed dependency, stop a
  pending one.
\<close>

definition started :: "step_state \<Rightarrow> bool" where
  "started s \<longleftrightarrow> s \<in> {S_RUNNING, S_SUCCEEDED, S_FAILED, S_TIMED_OUT}"

inductive sched_step :: "nodes \<Rightarrow> nodes \<Rightarrow> bool" where
  start: "node_of ns i = Some n \<Longrightarrow> gn_state n = S_PENDING \<Longrightarrow> deps_succeeded ns n
    \<Longrightarrow> gn_step n' = gn_step n \<Longrightarrow> gn_state n' = S_RUNNING \<Longrightarrow> sched_step ns (put_node n' ns)"
| settle: "node_of ns i = Some n \<Longrightarrow> gn_state n = S_RUNNING
    \<Longrightarrow> gn_step n' = gn_step n \<Longrightarrow> gn_state n' \<in> {S_SUCCEEDED, S_FAILED, S_TIMED_OUT}
    \<Longrightarrow> sched_step ns (put_node n' ns)"
| skip: "node_of ns i = Some n \<Longrightarrow> gn_state n = S_PENDING \<Longrightarrow> has_bad_dep ns n
    \<Longrightarrow> gn_step n' = gn_step n \<Longrightarrow> gn_state n' = S_SKIPPED \<Longrightarrow> sched_step ns (put_node n' ns)"
| stop: "node_of ns i = Some n \<Longrightarrow> gn_state n = S_PENDING
    \<Longrightarrow> gn_step n' = gn_step n \<Longrightarrow> gn_state n' = S_CANCELLED \<Longrightarrow> sched_step ns (put_node n' ns)"

definition node_inv :: "plan_step list \<Rightarrow> nodes \<Rightarrow> bool" where
  "node_inv steps ns \<longleftrightarrow> map gn_step ns = steps \<and> distinct (map gn_id ns)
     \<and> (\<forall>n \<in> set ns. started (gn_state n) \<longrightarrow> deps_succeeded ns n)
     \<and> (\<forall>n \<in> set ns. gn_state n \<noteq> S_READY)"

definition skips_justified :: "nodes \<Rightarrow> bool" where
  "skips_justified ns \<longleftrightarrow> (\<forall>n \<in> set ns. gn_state n = S_SKIPPED \<longrightarrow> has_bad_dep ns n)"

text \<open>The shape every rule of \<open>sched_step\<close> has.\<close>

lemma sched_step_put:
  assumes "sched_step ns ns'"
  obtains i n n' where "node_of ns i = Some n" "gn_step n' = gn_step n" "ns' = put_node n' ns"
    "step_moves (gn_state n) (gn_state n')" "gn_state n' \<noteq> S_READY"
    "started (gn_state n') \<Longrightarrow> started (gn_state n) \<or> deps_succeeded ns n"
    "gn_state n' = S_SKIPPED \<Longrightarrow> has_bad_dep ns n"
  using assms
proof cases
  case (start i n n')
  have "step_moves S_PENDING S_RUNNING"
    by (rule step_moves.move [OF step_moves_single [of S_READY]]) simp_all
  with start show ?thesis by (intro that [of i n n']) simp_all
next
  case (settle i n n')
  then have "step_moves (gn_state n) (gn_state n')" by (auto intro: step_moves_single)
  with settle show ?thesis by (intro that [of i n n']) (auto simp: started_def)
next
  case (skip i n n')
  then show ?thesis by (intro that [of i n n']) (simp_all add: step_moves_single started_def)
next
  case (stop i n n')
  then show ?thesis by (intro that [of i n n']) (simp_all add: step_moves_single started_def)
qed

lemma sched_step_evolves: "sched_step ns ns' \<Longrightarrow> distinct (map gn_id ns) \<Longrightarrow> evolves ns ns'"
  by (erule sched_step_put) (simp add: evolves_put)

lemma put_node_member:
  assumes "distinct (map gn_id ns)" "node_of ns i = Some n" "gn_step n' = gn_step n" "m \<in> set (put_node n' ns)"
  shows "m = n' \<or> (m \<in> set ns \<and> gn_id m \<noteq> i)"
  using assms node_of_Some [OF assms(2)] by (auto simp: put_node_def split: if_splits)

lemma node_inv_put:
  assumes inv: "node_inv steps ns" and n: "node_of ns i = Some n" "gn_step n' = gn_step n"
    and mv: "step_moves (gn_state n) (gn_state n')" and nr: "gn_state n' \<noteq> S_READY"
    and st: "started (gn_state n') \<Longrightarrow> started (gn_state n) \<or> deps_succeeded ns n"
  shows "node_inv steps (put_node n' ns)"
proof -
  have d: "distinct (map gn_id ns)" using inv by (simp add: node_inv_def)
  have ev: "evolves ns (put_node n' ns)" by (rule evolves_put [OF d n mv])
  have n_in: "n \<in> set ns" using node_of_Some [OF n(1)] by simp
  have "deps_succeeded (put_node n' ns) m" if "m \<in> set (put_node n' ns)" "started (gn_state m)" for m
    using put_node_member [OF d n that(1)]
  proof
    assume m: "m = n'"
    then have "deps_succeeded ns n" using st that(2) inv n_in by (auto simp: node_inv_def)
    then show ?thesis by (rule evolves_deps [OF ev]) (simp add: m n)
  next
    assume "m \<in> set ns \<and> gn_id m \<noteq> i"
    then have "deps_succeeded ns m" using inv that(2) by (simp add: node_inv_def)
    then show ?thesis by (rule evolves_deps [OF ev]) simp
  qed
  moreover have "gn_state m \<noteq> S_READY" if "m \<in> set (put_node n' ns)" for m
    using put_node_member [OF d n that] nr inv by (auto simp: node_inv_def)
  moreover have "map gn_step (put_node n' ns) = steps"
    using ev inv by (simp add: evolves_def node_inv_def)
  ultimately show ?thesis using evolves_distinct [OF ev] d by (simp add: node_inv_def)
qed

lemma sched_step_inv: "sched_step ns ns' \<Longrightarrow> node_inv steps ns \<Longrightarrow> node_inv steps ns'"
  by (erule sched_step_put) (simp add: node_inv_put)

lemma sched_step_skips:
  assumes "sched_step ns ns'" "distinct (map gn_id ns)" "skips_justified ns"
  shows "skips_justified ns'"
proof -
  from assms(1) obtain i n n' where n: "node_of ns i = Some n" "gn_step n' = gn_step n"
    and ns': "ns' = put_node n' ns" and sk: "gn_state n' = S_SKIPPED \<Longrightarrow> has_bad_dep ns n"
    by (rule sched_step_put) blast
  note ev = sched_step_evolves [OF assms(1,2)]
  show ?thesis unfolding skips_justified_def
  proof (intro ballI impI)
    fix m assume m: "m \<in> set ns'" "gn_state m = S_SKIPPED"
    from put_node_member [OF assms(2) n m(1) [unfolded ns']] m(2) sk assms(3)
    obtain k where "has_bad_dep ns k" "gn_step m = gn_step k"
      using n(2) by (auto simp: skips_justified_def)
    then show "has_bad_dep ns' m" using has_bad_dep_evolves [OF ev] by blast
  qed
qed

lemma step_moves_pending: "step_moves s t \<Longrightarrow> t = S_PENDING \<Longrightarrow> s = S_PENDING"
proof (induction rule: step_moves.induct)
  case (move s t u)
  then show ?case by (cases t) simp_all
qed

lemma evolves_not_pending:
  assumes "evolves ns ns'" "state_of ns i \<noteq> Some S_PENDING"
  shows "state_of ns' i \<noteq> Some S_PENDING"
proof
  assume p: "state_of ns' i = Some S_PENDING"
  have "gn_id ` set ns' = gn_id ` set ns" using assms(1) by (metis evolves_def ids_steps list.set_map)
  then obtain s where s: "state_of ns i = Some s"
    using p node_of_None [of ns i] node_of_None [of ns' i] by (cases "node_of ns i") (auto simp: state_of_def)
  with assms(1) obtain t where "state_of ns' i = Some t" "step_moves s t" by (auto simp: evolves_def)
  with p have "step_moves s S_PENDING" by simp
  with step_moves_pending assms(2) s show False by simp
qed

inductive sched_run :: "nodes \<Rightarrow> nodes \<Rightarrow> bool" where
  refl: "sched_run ns ns"
| step: "sched_run ns ns' \<Longrightarrow> sched_step ns' ns'' \<Longrightarrow> sched_run ns ns''"

lemma sched_run_trans: "sched_run b c \<Longrightarrow> sched_run a b \<Longrightarrow> sched_run a c"
  by (induction rule: sched_run.induct) (auto intro: sched_run.step)

lemma sched_run_single: "sched_step ns ns' \<Longrightarrow> sched_run ns ns'"
  by (rule sched_run.step [OF sched_run.refl])

lemma sched_run_inv: "sched_run ns ns' \<Longrightarrow> node_inv steps ns \<Longrightarrow> node_inv steps ns'"
  by (induction rule: sched_run.induct) (auto intro: sched_step_inv)

lemma sched_run_skips:
  "sched_run ns ns' \<Longrightarrow> node_inv steps ns \<Longrightarrow> skips_justified ns \<Longrightarrow> skips_justified ns'"
proof (induction rule: sched_run.induct)
  case (step ns ns' ns'')
  then have "node_inv steps ns'" using sched_run_inv by blast
  then show ?case using step sched_step_skips by (auto simp: node_inv_def)
qed simp

lemma sched_run_evolves: "sched_run ns ns' \<Longrightarrow> distinct (map gn_id ns) \<Longrightarrow> evolves ns ns'"
proof (induction rule: sched_run.induct)
  case (step ns ns' ns'')
  then have "evolves ns ns'" by simp
  moreover from this have "evolves ns' ns''"
    using step by (intro sched_step_evolves) (simp_all add: evolves_distinct)
  ultimately show ?case by (rule evolves_trans)
qed simp

lemma skips_sched: "skips ns ns' \<Longrightarrow> sched_run ns ns'"
  by (induction rule: skips.induct) (auto intro: sched_run.intros sched_step.skip)

subsection \<open>The operations of a pass\<close>

definition flight_inv :: "exec_config \<Rightarrow> exec_state \<Rightarrow> bool" where
  "flight_inv cfg st \<longleftrightarrow>
     distinct (map fst (xs_in_flight st)) \<and> distinct (map snd (xs_in_flight st))
   \<and> (\<forall>i. i \<in> set (map snd (xs_in_flight st)) \<longleftrightarrow> state_of (xs_nodes st) i = Some S_RUNNING)
   \<and> (\<forall>f \<in> set (map fst (xs_in_flight st)). f < length (xs_submitted st))
   \<and> length (xs_in_flight st) \<le> xc_max_concurrency cfg"

definition exec_inv :: "exec_config \<Rightarrow> plan_step list \<Rightarrow> exec_state \<Rightarrow> bool" where
  "exec_inv cfg steps st \<longleftrightarrow> node_inv steps (xs_nodes st) \<and> flight_inv cfg st"

lemma put_put: "gn_step n' = gn_step n \<Longrightarrow> put_node n' (put_node n ns) = put_node n' ns"
  by (auto simp: put_node_def)

lemma emit_simps [simp]:
  "xs_nodes (emit e i st) = xs_nodes st" "xs_in_flight (emit e i st) = xs_in_flight st"
  "xs_step_tokens (emit e i st) = xs_step_tokens st" "xs_tokens (emit e i st) = xs_tokens st"
  "xs_submitted (emit e i st) = xs_submitted st" "xs_halting (emit e i st) = xs_halting st"
  by (simp_all add: emit_def)

lemma submit_node_spec:
  assumes "node_of (xs_nodes st) (gn_id n) = Some n" "gn_state n = S_PENDING"
  shows "\<exists>n' st'. submit_node cfg now clk n st = Inr st'
    \<and> gn_step n' = gn_step n \<and> gn_state n' = S_RUNNING \<and> xs_nodes st' = put_node n' (xs_nodes st)
    \<and> xs_in_flight st' = xs_in_flight st @ [(length (xs_submitted st), gn_id n)]
    \<and> length (xs_submitted st') = Suc (length (xs_submitted st))
    \<and> xs_halting st' = xs_halting st"
proof -
  define n1 where "n1 = n\<lparr>gn_state := S_READY\<rparr>"
  define n2 where "n2 = n\<lparr>gn_state := S_RUNNING, gn_attempts := gn_attempts n + 1,
    gn_started_at := Some now, gn_timeout_s := Some (step_timeout cfg (gn_id n))\<rparr>"
  have in_ns: "gn_id n \<in> gn_id ` set (xs_nodes st)" using node_of_Some [OF assms(1)] by blast
  have 1: "on_node (gn_id n) (node_transition S_READY) st
      = Inr (st\<lparr>xs_nodes := put_node n1 (xs_nodes st)\<rparr>)"
    using assms by (simp add: on_node_def node_transition_def n1_def)
  have found: "node_of (put_node n1 (xs_nodes st)) (gn_id n) = Some n1"
    using in_ns by (simp add: node_of_put n1_def)
  have put2: "put_node n2 (put_node n1 (xs_nodes st)) = put_node n2 (xs_nodes st)"
    by (rule put_put) (simp add: n1_def n2_def)
  let ?st1 = "emit ''STEP_READY'' (gn_id n) (st\<lparr>xs_nodes := put_node n1 (xs_nodes st)\<rparr>)"
  have 2: "on_node (gn_id n) (\<lambda>m. map_sum id (\<lambda>m'. m'\<lparr>gn_attempts := gn_attempts m' + 1,
                       gn_started_at := Some now, gn_timeout_s := Some (step_timeout cfg (gn_id n))\<rparr>)
                     (node_transition S_RUNNING m)) ?st1
      = Inr (?st1\<lparr>xs_nodes := put_node n2 (xs_nodes st)\<rparr>)"
    by (simp add: on_node_def found put2 [symmetric]) (simp add: node_transition_def n1_def n2_def)
  let ?st2 = "?st1\<lparr>xs_nodes := put_node n2 (xs_nodes st)\<rparr>"
  obtain ts child where ct:
    "child_token clk (Some (step_timeout cfg (gn_id n))) 0 (xs_tokens ?st2) = (ts, child)" by fastforce
  have "\<exists>st'. submit_node cfg now clk n st = Inr st' \<and> xs_nodes st' = xs_nodes ?st2
    \<and> xs_in_flight st' = xs_in_flight ?st2 @ [(length (xs_submitted ?st2), gn_id n)]
    \<and> length (xs_submitted st') = Suc (length (xs_submitted ?st2)) \<and> xs_halting st' = xs_halting ?st2"
    unfolding submit_node_def Let_def 1 bind_result_simps 2 ct prod.case by simp
  then show ?thesis by (intro exI [of _ n2]) (simp add: n2_def)
qed

lemma flight_start:
  assumes fl: "flight_inv cfg st" and room: "length (xs_in_flight st) < xc_max_concurrency cfg"
    and n: "node_of (xs_nodes st) i = Some n" "gn_state n = S_PENDING"
      "gn_step n' = gn_step n" "gn_state n' = S_RUNNING"
    and st': "xs_nodes st' = put_node n' (xs_nodes st)"
      "xs_in_flight st' = xs_in_flight st @ [(length (xs_submitted st), i)]"
      "length (xs_submitted st') = Suc (length (xs_submitted st))"
  shows "flight_inv cfg st'"
proof -
  have i: "gn_id n' = i" using node_of_Some [OF n(1)] n(3) by simp
  have "state_of (xs_nodes st) i = Some S_PENDING" using n by (simp add: state_of_def)
  then have "i \<notin> set (map snd (xs_in_flight st))" using fl by (simp add: flight_inv_def)
  moreover have "state_of (xs_nodes st') j = (if j = i then Some S_RUNNING else state_of (xs_nodes st) j)" for j
    using state_of_put [of "xs_nodes st" n' n j] n i by (simp add: st')
  ultimately show ?thesis using fl room by (auto simp: flight_inv_def st' less_Suc_eq)
qed

lemma submit_loop_spec:
  assumes "exec_inv cfg steps st"
    and "\<forall>n \<in> set ns. node_of (xs_nodes st) (gn_id n) = Some n \<and> gn_state n = S_PENDING
       \<and> deps_succeeded (xs_nodes st) n"
    and "distinct (map gn_id ns)"
  shows "\<exists>st'. submit_loop cfg now clk ns st = Inr st' \<and> exec_inv cfg steps st'
    \<and> sched_run (xs_nodes st) (xs_nodes st') \<and> xs_halting st' = xs_halting st
    \<and> (xs_in_flight st' = [] \<longrightarrow> st' = st \<and> (ns = [] \<or> xc_max_concurrency cfg = 0))
    \<and> (\<forall>j. state_of (xs_nodes st') j = state_of (xs_nodes st) j
         \<or> state_of (xs_nodes st) j = Some S_PENDING \<and> state_of (xs_nodes st') j = Some S_RUNNING)"
  using assms
proof (induction ns arbitrary: st)
  case Nil
  then show ?case by (auto intro: sched_run.refl)
next
  case (Cons n ns)
  show ?case
  proof (cases "xc_max_concurrency cfg \<le> length (xs_in_flight st)")
    case True
    then show ?thesis using Cons.prems(1) by (auto intro: sched_run.refl)
  next
    case False
    have n: "node_of (xs_nodes st) (gn_id n) = Some n" "gn_state n = S_PENDING"
      "deps_succeeded (xs_nodes st) n" using Cons.prems(2) by auto
    from submit_node_spec [OF n(1,2), of cfg now clk] obtain n' st1 where
      s1: "submit_node cfg now clk n st = Inr st1" and n': "gn_step n' = gn_step n" "gn_state n' = S_RUNNING"
      and nodes: "xs_nodes st1 = put_node n' (xs_nodes st)"
      and fl: "xs_in_flight st1 = xs_in_flight st @ [(length (xs_submitted st), gn_id n)]"
        "length (xs_submitted st1) = Suc (length (xs_submitted st))" "xs_halting st1 = xs_halting st"
      by blast
    have step: "sched_step (xs_nodes st) (xs_nodes st1)"
      unfolding nodes by (rule sched_step.start [OF n n'])
    have inv1: "exec_inv cfg steps st1"
      using Cons.prems(1) sched_step_inv [OF step]
        flight_start [OF _ _ n(1,2) n' nodes fl(1,2)] False
      by (simp add: exec_inv_def)
    have ev: "evolves (xs_nodes st) (xs_nodes st1)"
      using sched_step_evolves [OF step] Cons.prems(1) by (simp add: exec_inv_def node_inv_def)
    have others: "state_of (xs_nodes st1) j = (if j = gn_id n then Some S_RUNNING else state_of (xs_nodes st) j)" for j
      using state_of_put [of "xs_nodes st" n' n j] n n' by (simp add: nodes)
    have rest: "\<forall>m \<in> set ns. node_of (xs_nodes st1) (gn_id m) = Some m \<and> gn_state m = S_PENDING
        \<and> deps_succeeded (xs_nodes st1) m"
    proof
      fix m assume m: "m \<in> set ns"
      then have "gn_id m \<noteq> gn_id n" using Cons.prems(3) by (auto dest: sym)
      then have "node_of (xs_nodes st1) (gn_id m) = node_of (xs_nodes st) (gn_id m)"
        by (simp add: nodes node_of_put n')
      then show "node_of (xs_nodes st1) (gn_id m) = Some m \<and> gn_state m = S_PENDING
        \<and> deps_succeeded (xs_nodes st1) m"
        using Cons.prems(2) m evolves_deps [OF ev, of m m] by simp
    qed
    from Cons.IH [OF inv1 rest] Cons.prems(3) obtain st' where
      s2: "submit_loop cfg now clk ns st1 = Inr st'" "exec_inv cfg steps st'"
        "sched_run (xs_nodes st1) (xs_nodes st')" "xs_halting st' = xs_halting st1"
      and empty: "xs_in_flight st' = [] \<longrightarrow> st' = st1"
      and states: "\<forall>j. state_of (xs_nodes st') j = state_of (xs_nodes st1) j
         \<or> state_of (xs_nodes st1) j = Some S_PENDING \<and> state_of (xs_nodes st') j = Some S_RUNNING"
      by auto
    have "state_of (xs_nodes st) (gn_id n) = Some S_PENDING" using n by (simp add: state_of_def)
    then have "\<forall>j. state_of (xs_nodes st') j = state_of (xs_nodes st) j
         \<or> state_of (xs_nodes st) j = Some S_PENDING \<and> state_of (xs_nodes st') j = Some S_RUNNING"
      using states others by (metis step_state.distinct(3))
    moreover have "sched_run (xs_nodes st) (xs_nodes st')"
      by (rule sched_run_trans [OF s2(3) sched_run_single [OF step]])
    ultimately show ?thesis using False s1 s2 empty fl by auto
  qed
qed

lemma settle_node_spec:
  assumes "gn_state n = S_RUNNING"
  shows "\<exists>n' event. settle_node now timed_out out n = Inr (n', event) \<and> gn_step n' = gn_step n
    \<and> gn_state n' = (if fst out then S_SUCCEEDED else if timed_out then S_TIMED_OUT else S_FAILED)"
  using assms by (cases out) (auto simp: settle_node_def node_transition_def)

lemma dict_del_distinct_snd: "distinct (map snd fl) \<Longrightarrow> distinct (map snd (dict_del f fl))"
  by (simp add: AList.delete_eq distinct_map_filter)

lemma dict_del_snd:
  assumes "distinct (map fst fl)" "distinct (map snd fl)" "map_of fl f = Some i"
  shows "set (map snd (dict_del f fl)) = set (map snd fl) - {i}"
proof -
  have mem: "(f, i) \<in> set fl" by (rule map_of_SomeD [OF assms(3)])
  have key: "k = f" if "(k, i) \<in> set fl" for k
    using assms(2) inj_onD [of snd "set fl", OF _ _ that mem] by (simp add: distinct_map)
  have val: "x = i" if "(f, x) \<in> set fl" for x
    using assms(1,3) that by simp
  have "x \<in> set (map snd (dict_del f fl)) \<longleftrightarrow> (\<exists>k. (k, x) \<in> set fl \<and> k \<noteq> f)" for x
    by (auto simp: AList.delete_eq image_iff)
  moreover have "x \<in> set (map snd fl) - {i} \<longleftrightarrow> (\<exists>k. (k, x) \<in> set fl \<and> k \<noteq> f)" for x
  proof
    assume "x \<in> set (map snd fl) - {i}"
    then obtain k where k: "(k, x) \<in> set fl" "x \<noteq> i" by auto
    then have "k \<noteq> f" using val by blast
    with k show "\<exists>k. (k, x) \<in> set fl \<and> k \<noteq> f" by blast
  next
    assume "\<exists>k. (k, x) \<in> set fl \<and> k \<noteq> f"
    then obtain k where k: "(k, x) \<in> set fl" "k \<noteq> f" by blast
    then have "x \<noteq> i" using key by blast
    moreover have "x \<in> set (map snd fl)" using k(1) by force
    ultimately show "x \<in> set (map snd fl) - {i}" by simp
  qed
  ultimately show ?thesis by blast
qed

lemma collect_one_spec:
  assumes inv: "exec_inv cfg steps st"
  shows "\<exists>st'. collect_one c st = Inr st' \<and> exec_inv cfg steps st'
    \<and> sched_run (xs_nodes st) (xs_nodes st') \<and> xs_halting st' = xs_halting st
    \<and> xs_in_flight st' = dict_del (cp_future c) (xs_in_flight st)
    \<and> (\<forall>j. state_of (xs_nodes st') j = state_of (xs_nodes st) j
         \<or> state_of (xs_nodes st) j = Some S_RUNNING
           \<and> (\<exists>n. node_of (xs_nodes st) j = Some n \<and> (fst (outcome_of c n) \<longrightarrow> state_of (xs_nodes st') j = Some S_SUCCEEDED)))"
proof (cases "map_of (xs_in_flight st) (cp_future c)")
  case None
  then have "dict_del (cp_future c) (xs_in_flight st) = xs_in_flight st"
    by (induction "xs_in_flight st") (auto simp: map_of_eq_None_iff)
  with None inv show ?thesis by (auto simp: collect_one_def intro: sched_run.refl)
next
  case (Some i)
  let ?fl = "xs_in_flight st"
  have fl: "distinct (map fst ?fl)" "distinct (map snd ?fl)" using inv by (auto simp: exec_inv_def flight_inv_def)
  have "i \<in> set (map snd ?fl)" using map_of_SomeD [OF Some] by force
  then have run: "state_of (xs_nodes st) i = Some S_RUNNING" using inv by (simp add: exec_inv_def flight_inv_def)
  then obtain n where n: "node_of (xs_nodes st) i = Some n" "gn_state n = S_RUNNING"
    by (auto simp: state_of_def)
  define st1 where "st1 = st\<lparr>xs_in_flight := dict_del (cp_future c) ?fl,
                       xs_step_tokens := dict_del (cp_future c) (xs_step_tokens st)\<rparr>"
  define timed_out where "timed_out = (case map_of (xs_step_tokens st) (cp_future c) of None \<Rightarrow> False
                                    | Some k \<Rightarrow> deadline_reached (cp_mono c) (xs_tokens st1 ! k))"
  from settle_node_spec [OF n(2)] obtain n' event where
    settle: "settle_node (cp_now c) timed_out (outcome_of c n) n = Inr (n', event)"
    and n': "gn_step n' = gn_step n" "gn_state n' = (if fst (outcome_of c n) then S_SUCCEEDED
       else if timed_out then S_TIMED_OUT else S_FAILED)" by blast
  define st' where "st' = (emit event i st1)\<lparr>xs_nodes := put_node n' (xs_nodes st1),
                               xs_tool_results := xs_tool_results st1 @ fst (snd (outcome_of c n))\<rparr>"
  have "node_of (xs_nodes st1) i = Some n" using n(1) by (simp add: st1_def)
  then have res: "collect_one c st = Inr st'"
    unfolding collect_one_def Some option.case Let_def st1_def [symmetric] timed_out_def [symmetric]
    by (simp add: n(2) settle st'_def)
  have nodes: "xs_nodes st' = put_node n' (xs_nodes st)" by (simp add: st'_def st1_def)
  have flight: "xs_in_flight st' = dict_del (cp_future c) ?fl" by (simp add: st'_def st1_def)
  have step: "sched_step (xs_nodes st) (xs_nodes st')"
    unfolding nodes by (rule sched_step.settle [OF n n'(1)]) (simp add: n'(2))
  have others: "state_of (xs_nodes st') j = (if j = i then Some (gn_state n') else state_of (xs_nodes st) j)" for j
    using state_of_put [of "xs_nodes st" n' n j] n n' node_of_Some [OF n(1)] by (simp add: nodes)
  have "flight_inv cfg st'"
    using inv dict_del_snd [OF fl Some] dict_del_distinct_snd [OF fl(2)] others n'(2)
      fl(1) le_trans [OF length_delete_le [of "cp_future c" ?fl]]
    by (auto simp: exec_inv_def flight_inv_def flight st'_def st1_def distinct_delete)
  then have "exec_inv cfg steps st'"
    using inv sched_step_inv [OF step] by (simp add: exec_inv_def)
  moreover have "xs_halting st' = xs_halting st" by (simp add: st'_def st1_def)
  ultimately show ?thesis
    using res flight others n n' run sched_run_single [OF step] by auto
qed

text \<open>
  \<open>ran\<close>: from one state to the next the invariant is kept, the graph made legal moves only and
  the flag \<open>halting\<close> did not change.
\<close>

definition ran :: "exec_config \<Rightarrow> plan_step list \<Rightarrow> exec_state \<Rightarrow> exec_state \<Rightarrow> bool" where
  "ran cfg steps st st' \<longleftrightarrow> exec_inv cfg steps st' \<and> sched_run (xs_nodes st) (xs_nodes st')
     \<and> xs_halting st' = xs_halting st"

lemma ran_trans: "ran cfg steps b c \<Longrightarrow> ran cfg steps a b \<Longrightarrow> ran cfg steps a c"
  by (auto simp: ran_def intro: sched_run_trans)

lemma ran_refl: "exec_inv cfg steps st \<Longrightarrow> ran cfg steps st st"
  by (simp add: ran_def sched_run.refl)

definition states_in :: "step_state list \<Rightarrow> nodes \<Rightarrow> bool" where
  "states_in ss ns \<longleftrightarrow> (\<forall>n \<in> set ns. gn_state n \<in> set ss)"

abbreviation healthy :: "nodes \<Rightarrow> bool" where
  "healthy \<equiv> states_in [S_PENDING, S_RUNNING, S_SUCCEEDED]"

lemma states_in_state_of:
  "distinct (map gn_id ns) \<Longrightarrow> states_in ss ns \<longleftrightarrow> (\<forall>j s. state_of ns j = Some s \<longrightarrow> s \<in> set ss)"
  unfolding states_in_def state_of_def using node_of_member node_of_Some by fastforce

lemma exec_inv_distinct: "exec_inv cfg steps st \<Longrightarrow> distinct (map gn_id (xs_nodes st))"
  by (simp add: exec_inv_def node_inv_def)

lemma collect_loop_spec:
  assumes "exec_inv cfg steps st"
  shows "\<exists>st'. collect_loop cs st = Inr st' \<and> ran cfg steps st st'
    \<and> xs_in_flight st' = fold (\<lambda>c. dict_del (cp_future c)) cs (xs_in_flight st)
    \<and> ((\<forall>c \<in> set cs. \<forall>n. fst (outcome_of c n)) \<longrightarrow> healthy (xs_nodes st) \<longrightarrow> healthy (xs_nodes st'))"
  using assms
proof (induction cs arbitrary: st)
  case Nil
  then show ?case by (simp add: ran_refl)
next
  case (Cons c cs)
  from collect_one_spec [OF Cons.prems, of c] obtain st1 where
    s1: "collect_one c st = Inr st1" "ran cfg steps st st1"
      "xs_in_flight st1 = dict_del (cp_future c) (xs_in_flight st)"
    and states: "\<forall>j. state_of (xs_nodes st1) j = state_of (xs_nodes st) j
         \<or> state_of (xs_nodes st) j = Some S_RUNNING
           \<and> (\<exists>n. node_of (xs_nodes st) j = Some n
               \<and> (fst (outcome_of c n) \<longrightarrow> state_of (xs_nodes st1) j = Some S_SUCCEEDED))"
    by (auto simp: ran_def)
  have inv1: "exec_inv cfg steps st1" using s1(2) by (simp add: ran_def)
  have "healthy (xs_nodes st1)" if "\<forall>n. fst (outcome_of c n)" "healthy (xs_nodes st)"
    unfolding states_in_state_of [OF exec_inv_distinct [OF inv1]]
  proof (intro allI impI)
    fix j s assume s: "state_of (xs_nodes st1) j = Some s"
    show "s \<in> set [S_PENDING, S_RUNNING, S_SUCCEEDED]"
      using spec [OF states, of j]
    proof
      assume "state_of (xs_nodes st1) j = state_of (xs_nodes st) j"
      with s that(2) show ?thesis
        by (simp add: states_in_state_of [OF exec_inv_distinct [OF Cons.prems]])
    next
      assume "state_of (xs_nodes st) j = Some S_RUNNING
           \<and> (\<exists>n. node_of (xs_nodes st) j = Some n
               \<and> (fst (outcome_of c n) \<longrightarrow> state_of (xs_nodes st1) j = Some S_SUCCEEDED))"
      with s that(1) show ?thesis by auto
    qed
  qed
  with Cons.IH [OF inv1] s1 show ?case
    by (auto dest: ran_trans)
qed

lemma exec_inv_cong:
  "exec_inv cfg steps st \<Longrightarrow> xs_nodes st' = xs_nodes st \<Longrightarrow> xs_in_flight st' = xs_in_flight st
     \<Longrightarrow> length (xs_submitted st') = length (xs_submitted st) \<Longrightarrow> exec_inv cfg steps st'"
  by (simp add: exec_inv_def flight_inv_def)

lemma ran_cong:
  "exec_inv cfg steps st \<Longrightarrow> xs_nodes st' = xs_nodes st \<Longrightarrow> xs_in_flight st' = xs_in_flight st
     \<Longrightarrow> length (xs_submitted st') = length (xs_submitted st) \<Longrightarrow> xs_halting st' = xs_halting st
     \<Longrightarrow> ran cfg steps st st'"
  by (simp add: ran_def exec_inv_def flight_inv_def sched_run.refl)

lemma enforce_deadlines_frame:
  "xs_nodes (enforce_deadlines now st) = xs_nodes st \<and> xs_in_flight (enforce_deadlines now st) = xs_in_flight st
   \<and> xs_submitted (enforce_deadlines now st) = xs_submitted st \<and> xs_halting (enforce_deadlines now st) = xs_halting st"
proof -
  have one: "xs_nodes (enforce_one now p s) = xs_nodes s
    \<and> xs_in_flight (enforce_one now p s) = xs_in_flight s
    \<and> xs_submitted (enforce_one now p s) = xs_submitted s
    \<and> xs_halting (enforce_one now p s) = xs_halting s" for p s
    by (simp add: enforce_one_def split: prod.split option.split)
  have "xs_nodes (fold (enforce_one now) ps s) = xs_nodes s
    \<and> xs_in_flight (fold (enforce_one now) ps s) = xs_in_flight s
    \<and> xs_submitted (fold (enforce_one now) ps s) = xs_submitted s
    \<and> xs_halting (fold (enforce_one now) ps s) = xs_halting s" for ps s
    by (induction ps arbitrary: s) (simp_all add: one)
  then show ?thesis by (simp add: enforce_deadlines_def)
qed

lemma fold_emit_frame:
  "xs_nodes (fold (\<lambda>n. emit e (f n)) ns st) = xs_nodes st
   \<and> xs_in_flight (fold (\<lambda>n. emit e (f n)) ns st) = xs_in_flight st
   \<and> xs_submitted (fold (\<lambda>n. emit e (f n)) ns st) = xs_submitted st
   \<and> xs_halting (fold (\<lambda>n. emit e (f n)) ns st) = xs_halting st"
  by (induction ns arbitrary: st) simp_all

lemma skips_running:
  "skips ns ns' \<Longrightarrow> state_of ns' i = Some S_RUNNING \<longleftrightarrow> state_of ns i = Some S_RUNNING"
  using skips_states [of ns ns' i] by auto

lemma skips_healthy:
  "skips ns ns' \<Longrightarrow> distinct (map gn_id ns) \<Longrightarrow> healthy ns \<Longrightarrow> ns' = ns"
proof (induction rule: skips.induct)
  case (skip ns ns' i n n')
  then have "ns' = ns" by simp
  moreover obtain d s where "state_of ns' d = Some s" "non_success_terminal s"
    using skip.hyps(4) by (auto simp: has_bad_dep_def)
  ultimately show ?case using skip.prems states_in_state_of [of ns]
    by (fastforce simp: non_success_terminal_def)
qed simp

lemma mark_skipped_spec:
  assumes "exec_inv cfg steps st"
  shows "\<exists>st'. mark_skipped st = Inr st' \<and> ran cfg steps st st' \<and> xs_in_flight st' = xs_in_flight st
    \<and> (healthy (xs_nodes st) \<longrightarrow> xs_nodes st' = xs_nodes st)"
proof -
  note d = exec_inv_distinct [OF assms]
  from mark_unsatisfiable_spec [OF d] obtain ns sk where
    m: "mark_unsatisfiable (xs_nodes st) = Inr (ns, sk)" "skips (xs_nodes st) ns" by blast
  define st' where "st' = fold (\<lambda>n. emit ''STEP_SKIPPED'' (gn_id n)) sk (st\<lparr>xs_nodes := ns\<rparr>)"
  have frame: "xs_nodes st' = ns" "xs_in_flight st' = xs_in_flight st"
    "xs_submitted st' = xs_submitted st" "xs_halting st' = xs_halting st"
    using fold_emit_frame [of "''STEP_SKIPPED''" gn_id sk "st\<lparr>xs_nodes := ns\<rparr>"]
    by (simp_all add: st'_def)
  have "exec_inv cfg steps st'"
    using assms sched_run_inv [OF skips_sched [OF m(2)]] skips_running [OF m(2)]
    by (simp add: exec_inv_def flight_inv_def frame)
  then have "ran cfg steps st st'"
    using skips_sched [OF m(2)] by (simp add: ran_def frame)
  moreover have "mark_skipped st = Inr st'" by (simp add: mark_skipped_def m(1) st'_def)
  ultimately show ?thesis using skips_healthy [OF m(2) d] frame by auto
qed

lemma read_token_frame:
  "read_token io st = (c, st') \<Longrightarrow> xs_nodes st' = xs_nodes st \<and> xs_in_flight st' = xs_in_flight st
     \<and> xs_submitted st' = xs_submitted st \<and> xs_halting st' = xs_halting st"
  by (auto simp: read_token_def Let_def split: if_splits)

lemma read_token_ran: "exec_inv cfg steps st \<Longrightarrow> read_token io st = (c, st') \<Longrightarrow> ran cfg steps st st'"
  using read_token_frame [of io st c st'] by (intro ran_cong) simp_all

lemma flight_stop:
  assumes "flight_inv cfg st" "node_of (xs_nodes st) i = Some n" "gn_state n \<noteq> S_RUNNING"
    "gn_step n' = gn_step n" "gn_state n' \<noteq> S_RUNNING"
    "xs_nodes st' = put_node n' (xs_nodes st)" "xs_in_flight st' = xs_in_flight st"
    "xs_submitted st' = xs_submitted st"
  shows "flight_inv cfg st'"
proof -
  have "gn_id n' = i" using node_of_Some [OF assms(2)] assms(4) by simp
  then have "state_of (xs_nodes st') j = (if j = i then Some (gn_state n') else state_of (xs_nodes st) j)" for j
    using state_of_put [of "xs_nodes st" n' n j] assms(2) by (simp add: assms(6))
  moreover have "state_of (xs_nodes st) i = Some (gn_state n)" using assms(2) by (simp add: state_of_def)
  ultimately show ?thesis using assms by (auto simp: flight_inv_def)
qed

lemma stop_loop_spec:
  assumes "exec_inv cfg steps st"
  shows "\<exists>st'. stop_loop reason is st = Inr st' \<and> ran cfg steps st st' \<and> xs_in_flight st' = xs_in_flight st
    \<and> xs_submitted st' = xs_submitted st
    \<and> (\<forall>i \<in> set is. state_of (xs_nodes st') i \<noteq> Some S_PENDING)
    \<and> (\<forall>j. state_of (xs_nodes st') j = state_of (xs_nodes st) j \<or> state_of (xs_nodes st') j = Some S_CANCELLED)"
  using assms
proof (induction "is" arbitrary: st)
  case Nil
  then show ?case by (simp add: ran_refl)
next
  case (Cons i "is")
  show ?case
  proof (cases "\<exists>n. node_of (xs_nodes st) i = Some n \<and> unstarted n")
    case False
    then have eq: "stop_loop reason (i # is) st = stop_loop reason is st"
      by (auto split: option.split)
    from Cons.IH [OF Cons.prems] obtain st' where s: "stop_loop reason is st = Inr st'"
      "ran cfg steps st st'" "xs_in_flight st' = xs_in_flight st" "xs_submitted st' = xs_submitted st"
      "\<forall>i \<in> set is. state_of (xs_nodes st') i \<noteq> Some S_PENDING"
      "\<forall>j. state_of (xs_nodes st') j = state_of (xs_nodes st) j \<or> state_of (xs_nodes st') j = Some S_CANCELLED"
      by blast
    have "state_of (xs_nodes st) i \<noteq> Some S_PENDING"
      using False by (auto simp: state_of_def unstarted_def)
    moreover have "evolves (xs_nodes st) (xs_nodes st')"
      using s(2) sched_run_evolves exec_inv_distinct [OF Cons.prems] by (auto simp: ran_def)
    ultimately have "state_of (xs_nodes st') i \<noteq> Some S_PENDING" by (rule evolves_not_pending [rotated])
    with s eq show ?thesis by auto
  next
    case True
    then obtain n where n: "node_of (xs_nodes st) i = Some n" "unstarted n" by blast
    have "gn_state n \<noteq> S_READY"
      using Cons.prems node_of_Some [OF n(1)] by (auto simp: exec_inv_def node_inv_def)
    with n(2) have pending: "gn_state n = S_PENDING" by (simp add: unstarted_def)
    define n' where "n' = n\<lparr>gn_state := S_CANCELLED, gn_error := ''never started: '' @ reason\<rparr>"
    define st1 where "st1 = emit ''STEP_CANCELLED'' i (st\<lparr>xs_nodes := put_node n' (xs_nodes st)\<rparr>)"
    have eq: "stop_loop reason (i # is) st = stop_loop reason is st1"
      by (simp add: n pending node_transition_def n'_def st1_def)
    have n': "gn_step n' = gn_step n" "gn_state n' = S_CANCELLED" "gn_id n' = i"
      using node_of_Some [OF n(1)] by (simp_all add: n'_def)
    have step: "sched_step (xs_nodes st) (xs_nodes st1)"
      using sched_step.stop [OF n(1) pending n'(1,2)] by (simp add: st1_def)
    have "flight_inv cfg st1"
      by (rule flight_stop [of cfg st i n n'])
        (use Cons.prems n n' pending in \<open>simp_all add: exec_inv_def st1_def\<close>)
    then have r1: "ran cfg steps st st1"
      using Cons.prems sched_step_inv [OF step] sched_run_single [OF step]
      by (simp add: ran_def exec_inv_def) (simp add: st1_def)
    then have inv1: "exec_inv cfg steps st1" by (simp add: ran_def)
    from Cons.IH [OF this] obtain st' where s: "stop_loop reason is st1 = Inr st'"
      "ran cfg steps st1 st'" "xs_in_flight st' = xs_in_flight st1" "xs_submitted st' = xs_submitted st1"
      "\<forall>i \<in> set is. state_of (xs_nodes st') i \<noteq> Some S_PENDING"
      "\<forall>j. state_of (xs_nodes st') j = state_of (xs_nodes st1) j \<or> state_of (xs_nodes st') j = Some S_CANCELLED"
      by blast
    have st1: "state_of (xs_nodes st1) j = (if j = i then Some S_CANCELLED else state_of (xs_nodes st) j)" for j
      using state_of_put [of "xs_nodes st" n' n j] n(1) n' by (simp add: st1_def)
    then have "state_of (xs_nodes st1) i \<noteq> Some S_PENDING" by simp
    moreover have "evolves (xs_nodes st1) (xs_nodes st')"
      using s(2) sched_run_evolves exec_inv_distinct [OF inv1] by (auto simp: ran_def)
    ultimately have "state_of (xs_nodes st') i \<noteq> Some S_PENDING" by (rule evolves_not_pending [rotated])
    moreover have "\<forall>j. state_of (xs_nodes st') j = state_of (xs_nodes st) j \<or> state_of (xs_nodes st') j = Some S_CANCELLED"
      using s(6) st1 by metis
    moreover have "xs_in_flight st1 = xs_in_flight st" "xs_submitted st1 = xs_submitted st"
      by (simp_all add: st1_def)
    ultimately show ?thesis using s eq ran_trans [OF s(2) r1] by auto
  qed
qed

subsection \<open>Draining\<close>

lemma drain_loop_spec:
  assumes "node_inv steps (xs_nodes st)"
    and "\<forall>n \<in> set ns. node_of (xs_nodes st) (gn_id n) = Some n \<and> gn_state n = S_PENDING"
    and "distinct (map gn_id ns)"
  shows "node_inv steps (xs_nodes (drain_loop ns st))
    \<and> evolves (xs_nodes st) (xs_nodes (drain_loop ns st))
    \<and> xs_in_flight (drain_loop ns st) = xs_in_flight st
    \<and> xs_submitted (drain_loop ns st) = xs_submitted st
    \<and> xs_halting (drain_loop ns st) = xs_halting st
    \<and> (\<forall>j. state_of (xs_nodes (drain_loop ns st)) j
          = (if j \<in> gn_id ` set ns then Some S_SKIPPED else state_of (xs_nodes st) j))"
  using assms
proof (induction ns arbitrary: st)
  case Nil
  then show ?case by simp
next
  case (Cons n ns)
  have n: "node_of (xs_nodes st) (gn_id n) = Some n" "gn_state n = S_PENDING" using Cons.prems(2) by auto
  define n' where "n' = n\<lparr>gn_state := S_SKIPPED, gn_error := ''unsatisfiable dependencies; skipped defensively''\<rparr>"
  define st1 where "st1 = emit ''STEP_SKIPPED'' (gn_id n) (st\<lparr>xs_nodes := put_node n' (xs_nodes st)\<rparr>)"
  have eq: "drain_loop (n # ns) st = drain_loop ns st1"
    using n(2) by (simp add: node_transition_def st1_def n'_def)
  have n': "gn_step n' = gn_step n" "gn_state n' = S_SKIPPED" by (simp_all add: n'_def)
  have mv: "step_moves (gn_state n) (gn_state n')" by (rule step_moves_single) (simp add: n n')
  have inv1: "node_inv steps (xs_nodes st1)"
    using node_inv_put [OF Cons.prems(1) n(1) n'(1) mv] n' by (simp add: st1_def started_def)
  have ev: "evolves (xs_nodes st) (xs_nodes st1)"
    using evolves_put [OF _ n(1) n'(1) mv] Cons.prems(1) by (simp add: st1_def node_inv_def)
  have state1: "state_of (xs_nodes st1) j = (if j = gn_id n then Some S_SKIPPED else state_of (xs_nodes st) j)" for j
    using state_of_put [of "xs_nodes st" n' n j] n n' by (simp add: st1_def)
  have other: "gn_id m \<noteq> gn_id n" if "m \<in> set ns" for m using Cons.prems(3) that by (auto dest: sym)
  then have rest: "\<forall>m \<in> set ns. node_of (xs_nodes st1) (gn_id m) = Some m \<and> gn_state m = S_PENDING"
    using Cons.prems(2) n' by (simp add: st1_def node_of_put)
  from Cons.IH [OF inv1 rest] Cons.prems(3) have ih: "node_inv steps (xs_nodes (drain_loop ns st1))"
    "evolves (xs_nodes st1) (xs_nodes (drain_loop ns st1))"
    "xs_in_flight (drain_loop ns st1) = xs_in_flight st1"
    "xs_submitted (drain_loop ns st1) = xs_submitted st1"
    "xs_halting (drain_loop ns st1) = xs_halting st1"
    "\<forall>j. state_of (xs_nodes (drain_loop ns st1)) j
          = (if j \<in> gn_id ` set ns then Some S_SKIPPED else state_of (xs_nodes st1) j)" by auto
  show ?case unfolding eq using ih evolves_trans [OF ev ih(2)] state1 by (auto simp: st1_def)
qed

lemma terminal_pending [simp]: "\<not> terminal_step S_PENDING" "\<not> terminal_step S_RUNNING"
  by (simp_all add: terminal_step_def)

lemma graph_done_iff:
  "distinct (map gn_id ns) \<Longrightarrow> graph_done ns \<longleftrightarrow> (\<forall>j s. state_of ns j = Some s \<longrightarrow> terminal_step s)"
  unfolding graph_done_def list_all_iff state_of_def using node_of_member node_of_Some by fastforce

lemma pending_nodes_ids:
  "distinct (map gn_id ns) \<Longrightarrow> j \<in> gn_id ` set (filter (\<lambda>n. gn_state n = S_PENDING) ns)
     \<longleftrightarrow> state_of ns j = Some S_PENDING"
  unfolding state_of_def using node_of_member node_of_Some by fastforce

text \<open>With nothing in flight only pending steps are left, and they all end as skipped.\<close>

lemma drain_stuck_spec:
  assumes inv: "exec_inv cfg steps st" and idle: "xs_in_flight st = []"
  shows "\<exists>go st'. drain_stuck st = (go, st') \<and> exec_inv cfg steps st' \<and> graph_done (xs_nodes st')
    \<and> evolves (xs_nodes st) (xs_nodes st') \<and> xs_in_flight st' = [] \<and> (go \<longrightarrow> \<not> graph_done (xs_nodes st))
    \<and> xs_halting st' = xs_halting st \<and> xs_submitted st' = xs_submitted st
    \<and> (\<forall>j. state_of (xs_nodes st') j = (if state_of (xs_nodes st) j = Some S_PENDING
          then Some S_SKIPPED else state_of (xs_nodes st) j))"
proof -
  let ?ns = "xs_nodes st"
  note d = exec_inv_distinct [OF inv]
  have ninv: "node_inv steps ?ns" using inv by (simp add: exec_inv_def)
  then have "filter unstarted ?ns = filter (\<lambda>n. gn_state n = S_PENDING) ?ns"
    by (intro filter_cong) (auto simp: unstarted_def node_inv_def)
  then have stuck: "filter unstarted ?ns = filter (\<lambda>n. gn_state n = S_PENDING) ?ns" (is "_ = ?stuck") .
  have no_run: "state_of ?ns j \<noteq> Some S_RUNNING" for j
    using inv idle by (simp add: exec_inv_def flight_inv_def)
  have no_ready: "state_of ?ns j \<noteq> Some S_READY" for j
    using ninv node_of_Some by (fastforce simp: node_inv_def state_of_def)
  have kinds: "terminal_step s \<or> s = S_PENDING" if "state_of ?ns j = Some s" for j s
    using that no_run [of j] no_ready [of j] by (cases s) (simp_all add: terminal_step_def)
  have done_iff: "graph_done ?ns \<longleftrightarrow> (\<forall>j. state_of ?ns j \<noteq> Some S_PENDING)"
    unfolding graph_done_iff [OF d] using kinds by (metis step_state.distinct terminal_pending)
  show ?thesis
  proof (cases "graph_done ?ns")
    case True
    then have "drain_stuck st = (False, st)" by (simp add: drain_stuck_def)
    then show ?thesis using inv idle True done_iff
      by (intro exI [of _ False] exI [of _ st]) simp
  next
    case False
    have ne: "?stuck \<noteq> []" using False done_iff pending_nodes_ids [OF d] by fastforce
    have res: "drain_stuck st = (True, drain_loop ?stuck st)"
      using False ne unfolding drain_stuck_def Let_def stuck by simp
    have "\<forall>n \<in> set ?stuck. node_of ?ns (gn_id n) = Some n \<and> gn_state n = S_PENDING"
      using node_of_member [OF d] by simp
    moreover have "distinct (map gn_id ?stuck)" using d by (rule distinct_map_filter)
    ultimately have spec: "node_inv steps (xs_nodes (drain_loop ?stuck st))"
      "evolves ?ns (xs_nodes (drain_loop ?stuck st))"
      "xs_in_flight (drain_loop ?stuck st) = []" "xs_submitted (drain_loop ?stuck st) = xs_submitted st"
      "xs_halting (drain_loop ?stuck st) = xs_halting st"
      and states: "\<forall>j. state_of (xs_nodes (drain_loop ?stuck st)) j
          = (if state_of ?ns j = Some S_PENDING then Some S_SKIPPED else state_of ?ns j)"
      using drain_loop_spec [OF ninv] idle pending_nodes_ids [OF d] by auto
    have "exec_inv cfg steps (drain_loop ?stuck st)"
      using inv spec states no_run by (auto simp: exec_inv_def flight_inv_def idle)
    moreover have "graph_done (xs_nodes (drain_loop ?stuck st))"
      using states kinds evolves_distinct [OF spec(2)] d
      by (subst graph_done_iff) (auto simp: terminal_step_def split: if_splits)
    ultimately show ?thesis using res spec states False
      by (intro exI [of _ True] exI [of _ "drain_loop ?stuck st"]) simp
  qed
qed

subsection \<open>One pass\<close>

lemma persist_frame [simp]:
  "xs_nodes (persist cfg st) = xs_nodes st" "xs_in_flight (persist cfg st) = xs_in_flight st"
  "xs_submitted (persist cfg st) = xs_submitted st" "xs_halting (persist cfg st) = xs_halting st"
  by (simp_all add: persist_def)

lemma ready_nodes_spec:
  assumes "node_inv steps ns"
  shows "\<forall>n \<in> set (ready_nodes ns). node_of ns (gn_id n) = Some n \<and> gn_state n = S_PENDING \<and> deps_succeeded ns n"
    "distinct (map gn_id (ready_nodes ns))"
  using assms by (auto simp: ready_nodes_def node_inv_def node_of_member distinct_map_filter)

definition steady :: "pass_input \<Rightarrow> bool" where
  "steady inp \<longleftrightarrow> \<not> fst (pi_submit inp) \<and> snd (pi_submit inp) = snd (pi_guard inp)"

lemma stop_unstarted_spec:
  assumes "exec_inv cfg steps st"
  shows "\<exists>st'. stop_unstarted io st = Inr st' \<and> ran cfg steps st st' \<and> xs_in_flight st' = xs_in_flight st
    \<and> xs_submitted st' = xs_submitted st \<and> (\<forall>i. state_of (xs_nodes st') i \<noteq> Some S_PENDING)
    \<and> (\<forall>j. state_of (xs_nodes st') j = state_of (xs_nodes st) j \<or> state_of (xs_nodes st') j = Some S_CANCELLED)"
proof -
  obtain c st1 where r: "read_token io st = (c, st1)" by fastforce
  note fr = read_token_frame [OF r] and r1 = read_token_ran [OF assms r]
  have inv1: "exec_inv cfg steps st1" using r1 by (simp add: ran_def)
  from stop_loop_spec [OF inv1, of "if c then ''cancel requested'' else ''fail-fast halt''" "map gn_id (xs_nodes st1)"]
  obtain st' where s: "stop_unstarted io st = Inr st'" "ran cfg steps st1 st'"
    "xs_in_flight st' = xs_in_flight st1" "xs_submitted st' = xs_submitted st1"
    and no: "\<forall>i \<in> set (map gn_id (xs_nodes st1)). state_of (xs_nodes st') i \<noteq> Some S_PENDING"
    and st: "\<forall>j. state_of (xs_nodes st') j = state_of (xs_nodes st1) j \<or> state_of (xs_nodes st') j = Some S_CANCELLED"
    by (auto simp: stop_unstarted_def r)
  have "evolves (xs_nodes st1) (xs_nodes st')"
    using s(2) sched_run_evolves exec_inv_distinct [OF inv1] by (auto simp: ran_def)
  then have ids: "gn_id ` set (xs_nodes st') = gn_id ` set (xs_nodes st1)"
    by (metis evolves_def ids_steps list.set_map)
  then have "state_of (xs_nodes st') i \<noteq> Some S_PENDING" for i
  proof (cases "i \<in> gn_id ` set (xs_nodes st')")
    case True
    then show ?thesis using no [unfolded set_map] unfolding ids by blast
  next
    case False
    then have "node_of (xs_nodes st') i = None" by (simp add: node_of_None)
    then show ?thesis by (simp add: state_of_def)
  qed
  then show ?thesis using s st fr ran_trans [OF s(2) r1] by auto
qed

text \<open>
  After the first half: if nothing is in flight, no pending step is ready (when the two reads
  agree); a halted run submits nothing and leaves nothing pending.
\<close>

definition none_ready :: "nodes \<Rightarrow> bool" where
  "none_ready ns \<longleftrightarrow> (\<forall>n \<in> set ns. gn_state n = S_PENDING \<longrightarrow> \<not> deps_succeeded ns n)"

lemma no_pending_none_ready:
  "distinct (map gn_id ns) \<Longrightarrow> \<forall>i. state_of ns i \<noteq> Some S_PENDING \<Longrightarrow> none_ready ns"
  using node_of_member by (force simp: none_ready_def state_of_def)

lemma submit_ready_spec:
  assumes inv: "exec_inv cfg steps st" and room: "1 \<le> xc_max_concurrency cfg"
  shows "\<exists>st'. submit_ready cfg now clk st = Inr st' \<and> ran cfg steps st st'
    \<and> (xs_in_flight st' = [] \<longrightarrow> none_ready (xs_nodes st'))
    \<and> (healthy (xs_nodes st) \<longrightarrow> healthy (xs_nodes st'))
    \<and> (\<forall>j. state_of (xs_nodes st') j = state_of (xs_nodes st) j \<or> state_of (xs_nodes st') j = Some S_RUNNING)"
proof -
  have ninv: "node_inv steps (xs_nodes st)" using inv by (simp add: exec_inv_def)
  from submit_loop_spec [OF inv ready_nodes_spec [OF ninv], of now clk] obtain st' where
    s: "submit_ready cfg now clk st = Inr st'" "ran cfg steps st st'"
    and empty: "xs_in_flight st' = [] \<longrightarrow> st' = st \<and> (ready_nodes (xs_nodes st) = [] \<or> xc_max_concurrency cfg = 0)"
    and states: "\<forall>j. state_of (xs_nodes st') j = state_of (xs_nodes st) j
         \<or> state_of (xs_nodes st) j = Some S_PENDING \<and> state_of (xs_nodes st') j = Some S_RUNNING"
    unfolding submit_ready_def ran_def by blast
  have "xs_in_flight st' = [] \<longrightarrow> none_ready (xs_nodes st')"
    using empty room by (auto simp: none_ready_def ready_nodes_def filter_empty_conv)
  moreover have "healthy (xs_nodes st')" if "healthy (xs_nodes st)"
  proof -
    have "exec_inv cfg steps st'" using s(2) by (simp add: ran_def)
    note d' = exec_inv_distinct [OF this]
    show ?thesis unfolding states_in_state_of [OF d']
    proof (intro allI impI)
      fix j s assume s: "state_of (xs_nodes st') j = Some s"
      show "s \<in> set [S_PENDING, S_RUNNING, S_SUCCEEDED]" using spec [OF states, of j]
      proof
        assume "state_of (xs_nodes st') j = state_of (xs_nodes st) j"
        with s that show ?thesis by (simp add: states_in_state_of [OF exec_inv_distinct [OF inv]])
      qed (use s in simp)
    qed
  qed
  ultimately show ?thesis using s states by blast
qed

text \<open>A front half never makes a step fail.\<close>

abbreviation failed_at :: "nodes \<Rightarrow> string \<Rightarrow> bool" where
  "failed_at ns j \<equiv> state_of ns j = Some S_FAILED \<or> state_of ns j = Some S_TIMED_OUT"

lemma failed_at_cong:
  assumes "\<forall>j. state_of ns' j = state_of ns j \<or> state_of ns' j = Some s" "s \<noteq> S_FAILED" "s \<noteq> S_TIMED_OUT"
  shows "failed_at ns' j \<Longrightarrow> failed_at ns j"
  using spec [OF assms(1), of j] assms(2,3) by auto

lemma first_failure_iff: "distinct (map gn_id ns) \<Longrightarrow> first_failure ns \<longleftrightarrow> (\<exists>j. failed_at ns j)"
  unfolding first_failure_def list_ex_iff state_of_def using node_of_member [of ns] node_of_Some [of ns]
  by fastforce

lemma pass_front_spec:
  assumes inv: "exec_inv cfg steps st" and room: "1 \<le> xc_max_concurrency cfg"
  shows "\<exists>st'. pass_front cfg inp st = Inr st' \<and> ran cfg steps st st'
    \<and> (steady inp \<longrightarrow> xs_in_flight st' = [] \<longrightarrow> none_ready (xs_nodes st'))
    \<and> (xs_halting st \<longrightarrow> xs_submitted st' = xs_submitted st
         \<and> (\<forall>i. state_of (xs_nodes st') i \<noteq> Some S_PENDING)
         \<and> (\<forall>i. state_of (xs_nodes st') i = Some S_RUNNING \<longrightarrow> state_of (xs_nodes st) i = Some S_RUNNING))
    \<and> (\<forall>j. failed_at (xs_nodes st') j \<longrightarrow> failed_at (xs_nodes st) j)"
proof -
  obtain c1 st1 where g: "read_token (pi_guard inp) st = (c1, st1)" by fastforce
  note f1 = read_token_frame [OF g] and r1 = read_token_ran [OF inv g]
  have inv1: "exec_inv cfg steps st1" using r1 by (simp add: ran_def)
  show ?thesis
  proof (cases "c1 \<or> xs_halting st1")
    case True
    from stop_unstarted_spec [OF inv1, of "pi_reason inp"] obtain st2 where
      s2: "stop_unstarted (pi_reason inp) st1 = Inr st2" "ran cfg steps st1 st2"
        "xs_in_flight st2 = xs_in_flight st1" "xs_submitted st2 = xs_submitted st1"
        "\<forall>i. state_of (xs_nodes st2) i \<noteq> Some S_PENDING"
      and can: "\<forall>j. state_of (xs_nodes st2) j = state_of (xs_nodes st1) j \<or> state_of (xs_nodes st2) j = Some S_CANCELLED"
      by blast
    obtain c2 st3 where h: "read_token (pi_submit inp) st2 = (c2, st3)" by fastforce
    have inv2: "exec_inv cfg steps st2" using s2(2) by (simp add: ran_def)
    note f3 = read_token_frame [OF h] and r3 = read_token_ran [OF inv2 h]
    have inv3: "exec_inv cfg steps st3" using r3 by (simp add: ran_def)
    have to3: "ran cfg steps st st3" by (rule ran_trans [OF r3 ran_trans [OF s2(2) r1]])
    have front: "pass_front cfg inp st
        = (if \<not> c2 \<and> \<not> xs_halting st3 then submit_ready cfg (pi_now inp) (pi_mono inp) st3 else Inr st3)"
      using True by (simp add: pass_front_def g s2(1) h)
    have none: "\<forall>i. state_of (xs_nodes st3) i \<noteq> Some S_PENDING" using s2(5) f3 by simp
    from submit_ready_spec [OF inv3 room, of "pi_now inp" "pi_mono inp"] obtain st4 where
      s4: "submit_ready cfg (pi_now inp) (pi_mono inp) st3 = Inr st4" "ran cfg steps st3 st4"
        "xs_in_flight st4 = [] \<longrightarrow> none_ready (xs_nodes st4)"
      and sub: "\<forall>j. state_of (xs_nodes st4) j = state_of (xs_nodes st3) j \<or> state_of (xs_nodes st4) j = Some S_RUNNING"
      by blast
    have fa3: "failed_at (xs_nodes st3) j \<longrightarrow> failed_at (xs_nodes st) j" for j
      using failed_at_cong [OF can] f1 f3 by auto
    then have fa4: "failed_at (xs_nodes st4) j \<longrightarrow> failed_at (xs_nodes st) j" for j
      using failed_at_cong [OF sub, of j] by auto
    have run3: "state_of (xs_nodes st3) i = Some S_RUNNING \<longrightarrow> state_of (xs_nodes st) i = Some S_RUNNING" for i
      using spec [OF can, of i] f1 f3 by auto
    have halt: "xs_halting st3 = xs_halting st" using to3 by (simp add: ran_def)
    show ?thesis
    proof (cases "\<not> c2 \<and> \<not> xs_halting st3")
      case True
      then show ?thesis using front s4 ran_trans [OF s4(2) to3] halt fa4 by auto
    next
      case False
      then show ?thesis using front to3 none f1 s2 f3 fa3 run3
          no_pending_none_ready [OF exec_inv_distinct [OF inv3] none] by auto
    qed
  next
    case False
    obtain c2 st3 where h: "read_token (pi_submit inp) st1 = (c2, st3)" by fastforce
    note f3 = read_token_frame [OF h] and r3 = read_token_ran [OF inv1 h]
    have inv3: "exec_inv cfg steps st3" using r3 by (simp add: ran_def)
    have to3: "ran cfg steps st st3" by (rule ran_trans [OF r3 r1])
    have front: "pass_front cfg inp st
        = (if \<not> c2 \<and> \<not> xs_halting st3 then submit_ready cfg (pi_now inp) (pi_mono inp) st3 else Inr st3)"
      using False by (simp add: pass_front_def g h)
    from submit_ready_spec [OF inv3 room, of "pi_now inp" "pi_mono inp"] obtain st4 where
      s4: "submit_ready cfg (pi_now inp) (pi_mono inp) st3 = Inr st4" "ran cfg steps st3 st4"
        "xs_in_flight st4 = [] \<longrightarrow> none_ready (xs_nodes st4)"
      and sub: "\<forall>j. state_of (xs_nodes st4) j = state_of (xs_nodes st3) j \<or> state_of (xs_nodes st4) j = Some S_RUNNING"
      by blast
    have fa: "failed_at (xs_nodes st4) j \<longrightarrow> failed_at (xs_nodes st) j" for j
      using failed_at_cong [OF sub, of j] f1 f3 by auto
    have halt: "\<not> xs_halting st3" "\<not> xs_halting st" using to3 False f1 f3 by (auto simp: ran_def)
    have "c2 = c1" if "steady inp" using that g h by (auto simp: steady_def read_token_def Let_def split: if_splits)
    then show ?thesis using front s4 ran_trans [OF s4(2) to3] halt False to3 fa f1 f3 by auto
  qed
qed

definition open_ids :: "nodes \<Rightarrow> string set" where
  "open_ids ns = {i. \<exists>s. state_of ns i = Some s \<and> \<not> terminal_step s}"

lemma open_ids_bound: "open_ids ns \<subseteq> gn_id ` set ns"
  unfolding open_ids_def state_of_def using node_of_Some by fastforce

lemma finite_open_ids [simp]: "finite (open_ids ns)"
  by (rule finite_subset [OF open_ids_bound]) simp

lemma open_ids_done: "distinct (map gn_id ns) \<Longrightarrow> graph_done ns \<longleftrightarrow> open_ids ns = {}"
  by (auto simp: graph_done_iff open_ids_def)

lemma evolves_open: "evolves ns ns' \<Longrightarrow> open_ids ns' \<subseteq> open_ids ns"
proof
  fix i assume ev: "evolves ns ns'" and i: "i \<in> open_ids ns'"
  then obtain t where t: "state_of ns' i = Some t" "\<not> terminal_step t" by (auto simp: open_ids_def)
  have "gn_id ` set ns' = gn_id ` set ns" using ev by (metis evolves_def ids_steps list.set_map)
  then obtain s where s: "state_of ns i = Some s"
    using t(1) node_of_None [of ns i] node_of_None [of ns' i] by (cases "node_of ns i") (auto simp: state_of_def)
  with ev obtain t' where "state_of ns' i = Some t'" "step_moves s t'" by (auto simp: evolves_def)
  with t have "step_moves s t" by simp
  then have "\<not> terminal_step s" using t(2) step_moves_terminal by blast
  with s show "i \<in> open_ids ns" by (auto simp: open_ids_def)
qed

lemma step_moves_running: "step_moves s t \<Longrightarrow> s = S_RUNNING \<Longrightarrow> t = S_RUNNING \<or> terminal_step t"
proof (induction rule: step_moves.induct)
  case (move s t u)
  then show ?case by (cases t) (auto simp: terminal_step_def)
qed simp

text \<open>A pass in which the work in flight returns closes at least one step.\<close>

lemma fold_dict_del_subset: "set (fold (\<lambda>c. dict_del (f c)) cs d) \<subseteq> set d"
proof (induction cs arbitrary: d)
  case (Cons c cs)
  then show ?case using Cons [of "dict_del (f c) d"] by (auto simp: AList.delete_eq)
qed simp

lemma fold_dict_del_gone: "c \<in> set cs \<Longrightarrow> f c \<notin> fst ` set (fold (\<lambda>c. dict_del (f c)) cs d)"
proof (induction cs arbitrary: d)
  case (Cons x cs)
  show ?case
  proof (cases "c \<in> set cs")
    case False
    with Cons.prems have "c = x" by simp
    then show ?thesis using fold_dict_del_subset [of f cs "dict_del (f x) d"]
      by (auto simp: AList.delete_eq)
  qed (use Cons.IH in simp)
qed simp

definition serves :: "pass_input \<Rightarrow> bool" where
  "serves inp \<longleftrightarrow> (\<forall>fl. fl \<noteq> [] \<longrightarrow> (\<exists>c \<in> set (pi_done inp fl). cp_future c \<in> fst ` set fl))"

lemma collect_closes:
  assumes inv: "exec_inv cfg steps st" and inv': "exec_inv cfg steps st'"
    and ev: "evolves (xs_nodes st) (xs_nodes st')"
    and fl: "xs_in_flight st' = fold (\<lambda>c. dict_del (cp_future c)) cs (xs_in_flight st)"
    and c: "c \<in> set cs" "cp_future c \<in> fst ` set (xs_in_flight st)"
  shows "open_ids (xs_nodes st') \<subset> open_ids (xs_nodes st)"
proof -
  from c(2) obtain i where i: "(cp_future c, i) \<in> set (xs_in_flight st)" by force
  then have "i \<in> set (map snd (xs_in_flight st))" by force
  then have run: "state_of (xs_nodes st) i = Some S_RUNNING"
    using inv by (simp add: exec_inv_def flight_inv_def)
  have "i \<notin> set (map snd (xs_in_flight st'))"
  proof
    assume "i \<in> set (map snd (xs_in_flight st'))"
    then obtain f where f: "(f, i) \<in> set (xs_in_flight st')" by force
    then have "(f, i) \<in> set (xs_in_flight st)"
      using fold_dict_del_subset [of cp_future cs "xs_in_flight st"] fl by auto
    moreover have "inj_on snd (set (xs_in_flight st))"
      using inv by (simp add: exec_inv_def flight_inv_def distinct_map)
    ultimately have "(f, i) = (cp_future c, i)" using inj_onD [of snd _ "(f, i)" "(cp_future c, i)"] i by simp
    then have "f = cp_future c" by simp
    with f fold_dict_del_gone [OF c(1), of cp_future "xs_in_flight st"] fl show False by force
  qed
  then have nr: "state_of (xs_nodes st') i \<noteq> Some S_RUNNING"
    using inv' by (simp add: exec_inv_def flight_inv_def)
  from ev run obtain t where "state_of (xs_nodes st') i = Some t" "step_moves S_RUNNING t"
    by (auto simp: evolves_def)
  with nr step_moves_running have "i \<notin> open_ids (xs_nodes st')" by (auto simp: open_ids_def)
  moreover have "i \<in> open_ids (xs_nodes st)" using run by (auto simp: open_ids_def)
  ultimately show ?thesis using evolves_open [OF ev] by blast
qed

lemma dep_known:
  assumes "node_inv steps ns" "closed_steps steps" "s \<in> set steps" "dep \<in> set (ps_dependencies s)"
  obtains k where "node_of ns dep = Some k"
proof -
  have "dep \<in> set (map ps_id steps)" using assms(2-4) by (auto simp: closed_steps_def)
  also have "map ps_id steps = map gn_id ns" using assms(1) by (auto simp: node_inv_def)
  finally show ?thesis using that node_of_None [of ns dep] by auto
qed

lemma drained_skips:
  assumes ninv: "node_inv steps ns" and closed: "closed_steps steps" and just: "skips_justified ns"
    and none: "none_ready ns" and no_run: "\<forall>j. state_of ns j \<noteq> Some S_RUNNING"
    and ev: "evolves ns ns'" and ninv': "node_inv steps ns'"
    and states: "\<forall>j. state_of ns' j = (if state_of ns j = Some S_PENDING then Some S_SKIPPED else state_of ns j)"
  shows "skips_justified ns'"
  unfolding skips_justified_def
proof (intro ballI impI)
  fix m assume m: "m \<in> set ns'" "gn_state m = S_SKIPPED"
  have d: "distinct (map gn_id ns)" "distinct (map gn_id ns')" using ninv ninv' by (auto simp: node_inv_def)
  have "gn_id m \<in> gn_id ` set ns" using ev m(1) by (metis evolves_def ids_steps image_eqI list.set_map)
  then obtain n where n: "node_of ns (gn_id m) = Some n" using node_of_None [of ns "gn_id m"] by auto
  have same: "gn_step m = gn_step n"
    by (rule evolves_node [OF ev d(1) n node_of_member [OF d(2) m(1)]])
  have sm: "state_of ns' (gn_id m) = Some S_SKIPPED"
    using node_of_member [OF d(2) m(1)] m(2) by (simp add: state_of_def)
  show "has_bad_dep ns' m"
  proof (cases "gn_state n = S_SKIPPED")
    case True
    then have "has_bad_dep ns n" using just node_of_Some [OF n] by (simp add: skips_justified_def)
    then show ?thesis by (rule has_bad_dep_evolves [OF ev _ same])
  next
    case False
    then have "gn_state n = S_PENDING" using states sm n by (auto simp: state_of_def split: if_splits)
    then have "\<not> deps_succeeded ns n" using none node_of_Some [OF n] by (simp add: none_ready_def)
    then obtain dep where dep: "dep \<in> set (gn_deps n)" "state_of ns dep \<noteq> Some S_SUCCEEDED"
      by (auto simp: deps_succeeded_def list_all_iff)
    have "gn_step n \<in> set steps" using ninv node_of_Some [OF n] by (auto simp: node_inv_def)
    from dep_known [OF ninv closed this dep(1)] obtain k where k: "node_of ns dep = Some k" .
    have "gn_state k \<noteq> S_READY" using ninv node_of_Some [OF k] by (simp add: node_inv_def)
    moreover have "gn_state k \<noteq> S_RUNNING" "gn_state k \<noteq> S_SUCCEEDED"
      using no_run dep(2) k by (auto simp: state_of_def)
    ultimately have "\<exists>s. state_of ns' dep = Some s \<and> non_success_terminal s"
      using states k by (cases "gn_state k") (simp_all add: state_of_def non_success_terminal_def)
    then show ?thesis using dep(1) same by (auto simp: has_bad_dep_def)
  qed
qed

lemma healthy_idle_done:
  assumes ninv: "node_inv steps ns" and closed: "closed_steps steps" and ac: "acyclic (dep_rel steps)"
    and h: "healthy ns" and none: "none_ready ns" and no_run: "\<forall>j. state_of ns j \<noteq> Some S_RUNNING"
  shows "\<forall>n \<in> set ns. gn_state n = S_SUCCEEDED"
proof -
  have d: "distinct (map gn_id ns)" using ninv by (simp add: node_inv_def)
  have "finite (dep_rel steps)"
    by (rule finite_subset [of _ "(\<Union>s \<in> set steps. set (ps_dependencies s)) \<times> ps_id ` set steps"])
      (auto simp: dep_rel_def)
  then have wf: "wf (dep_rel steps)" using ac by (rule finite_acyclic_wf)
  have "\<forall>n \<in> set ns. gn_id n = i \<longrightarrow> gn_state n = S_SUCCEEDED" for i
    using wf
  proof (induction i rule: wf_induct_rule)
    case (less i)
    show ?case
    proof (intro ballI impI)
      fix n assume n: "n \<in> set ns" "gn_id n = i"
      have step: "gn_step n \<in> set steps" using ninv n(1) by (auto simp: node_inv_def)
      have "state_of ns dep = Some S_SUCCEEDED" if dep: "dep \<in> set (gn_deps n)" for dep
      proof -
        have "(dep, i) \<in> dep_rel steps" using step dep n(2) by (auto simp: dep_rel_def)
        moreover obtain k where k: "node_of ns dep = Some k"
          by (rule dep_known [OF ninv closed step dep])
        ultimately show ?thesis using less.IH node_of_Some [OF k] by (simp add: state_of_def)
      qed
      then have "deps_succeeded ns n" by (simp add: deps_succeeded_def list_all_iff)
      then have "gn_state n \<noteq> S_PENDING" using none n(1) by (auto simp: none_ready_def)
      moreover have "gn_state n \<noteq> S_RUNNING"
        using no_run node_of_member [OF d n(1)] by (auto simp: state_of_def)
      ultimately show "gn_state n = S_SUCCEEDED" using h n(1) by (auto simp: states_in_def)
    qed
  qed
  then show ?thesis by blast
qed

text \<open>What a pass is known to do, from the state before it to the state after it.\<close>

definition passed :: "exec_config \<Rightarrow> plan_step list \<Rightarrow> pass_input \<Rightarrow> exec_state \<Rightarrow> bool \<Rightarrow> exec_state \<Rightarrow> bool" where
  "passed cfg steps inp st go st' \<longleftrightarrow> exec_inv cfg steps st' \<and> evolves (xs_nodes st) (xs_nodes st')
     \<and> (\<not> go \<longrightarrow> graph_done (xs_nodes st'))
     \<and> (serves inp \<longrightarrow> go \<longrightarrow> open_ids (xs_nodes st') \<subset> open_ids (xs_nodes st))"

lemma halting_frame:
  "xs_nodes (if b then st\<lparr>xs_halting := True\<rparr> else st) = xs_nodes st"
  "xs_in_flight (if b then st\<lparr>xs_halting := True\<rparr> else st) = xs_in_flight st"
  "xs_submitted (if b then st\<lparr>xs_halting := True\<rparr> else st) = xs_submitted st"
  by simp_all

lemma pass_back_drain:
  assumes inv: "exec_inv cfg steps st" and idle: "xs_in_flight st = []"
  shows "\<exists>go st'. pass_back cfg inp st = Inr (go, st') \<and> passed cfg steps inp st go st'
    \<and> xs_halting st' = xs_halting st \<and> xs_submitted st' = xs_submitted st
    \<and> (closed_steps steps \<longrightarrow> none_ready (xs_nodes st) \<longrightarrow> skips_justified (xs_nodes st)
         \<longrightarrow> skips_justified (xs_nodes st'))
    \<and> (graph_done (xs_nodes st) \<longrightarrow> xs_nodes st' = xs_nodes st)"
proof -
  from drain_stuck_spec [OF inv idle] obtain go st1 where
    dr: "drain_stuck st = (go, st1)" and s1: "exec_inv cfg steps st1" "graph_done (xs_nodes st1)"
      "evolves (xs_nodes st) (xs_nodes st1)" "xs_in_flight st1 = []" "go \<longrightarrow> \<not> graph_done (xs_nodes st)"
      "xs_halting st1 = xs_halting st" "xs_submitted st1 = xs_submitted st"
    and states: "\<forall>j. state_of (xs_nodes st1) j = (if state_of (xs_nodes st) j = Some S_PENDING
          then Some S_SKIPPED else state_of (xs_nodes st) j)" by blast
  define st' where "st' = (if go then persist cfg st1 else st1)"
  have eq: "xs_nodes st' = xs_nodes st1" "xs_in_flight st' = xs_in_flight st1"
    "xs_submitted st' = xs_submitted st1" "xs_halting st' = xs_halting st1"
    by (simp_all add: st'_def)
  have res: "pass_back cfg inp st = Inr (go, st')" by (simp add: pass_back_def idle dr st'_def)
  have "open_ids (xs_nodes st') \<subset> open_ids (xs_nodes st)" if go
    using that s1(5) open_ids_done [OF exec_inv_distinct [OF inv]]
      open_ids_done [OF exec_inv_distinct [OF s1(1)]] s1(2) by (auto simp: eq)
  then have "passed cfg steps inp st go st'"
    using s1 exec_inv_cong [OF s1(1) eq(1,2)] by (auto simp: passed_def eq)
  moreover have "skips_justified (xs_nodes st')"
    if "closed_steps steps" "none_ready (xs_nodes st)" "skips_justified (xs_nodes st)"
  proof -
    have "node_inv steps (xs_nodes st)" "node_inv steps (xs_nodes st1)"
      using inv s1(1) by (simp_all add: exec_inv_def)
    moreover have "\<forall>j. state_of (xs_nodes st) j \<noteq> Some S_RUNNING"
      using inv idle by (simp add: exec_inv_def flight_inv_def)
    ultimately show ?thesis unfolding eq
      using drained_skips [OF _ that(1,3,2) _ s1(3) _ states] by blast
  qed
  moreover have "xs_nodes st' = xs_nodes st" if "graph_done (xs_nodes st)"
  proof -
    have "st1 = st" using that dr by (simp add: drain_stuck_def)
    then show ?thesis by (simp add: eq)
  qed
  ultimately show ?thesis using res eq s1 by (intro exI [of _ go] exI [of _ st']) simp
qed

lemma pass_back_collect:
  assumes inv: "exec_inv cfg steps st" and busy: "xs_in_flight st \<noteq> []"
  shows "\<exists>st'. pass_back cfg inp st = Inr (True, st') \<and> passed cfg steps inp st True st'
    \<and> (xs_halting st \<longrightarrow> xs_halting st')
    \<and> (skips_justified (xs_nodes st) \<longrightarrow> skips_justified (xs_nodes st'))
    \<and> ((\<forall>c \<in> set (pi_done inp (xs_in_flight st)). \<forall>n. fst (outcome_of c n))
         \<longrightarrow> healthy (xs_nodes st) \<longrightarrow> healthy (xs_nodes st') \<and> xs_halting st' = xs_halting st)
    \<and> (xc_policy cfg = FAIL_FAST \<longrightarrow> first_failure (xs_nodes st') \<longrightarrow> xs_halting st')
    \<and> sched_run (xs_nodes st) (xs_nodes st')"
proof -
  from collect_loop_spec [OF inv, of "pi_done inp (xs_in_flight st)"] obtain st1 where
    c: "collect_loop (pi_done inp (xs_in_flight st)) st = Inr st1" "ran cfg steps st st1"
      "xs_in_flight st1 = fold (\<lambda>c. dict_del (cp_future c)) (pi_done inp (xs_in_flight st)) (xs_in_flight st)"
    and ok: "(\<forall>c \<in> set (pi_done inp (xs_in_flight st)). \<forall>n. fst (outcome_of c n))
      \<longrightarrow> healthy (xs_nodes st) \<longrightarrow> healthy (xs_nodes st1)" by blast
  have inv1: "exec_inv cfg steps st1" using c(2) by (simp add: ran_def)
  define st2 where "st2 = enforce_deadlines (pi_deadline_now inp) st1"
  have f2: "xs_nodes st2 = xs_nodes st1" "xs_in_flight st2 = xs_in_flight st1"
    "xs_submitted st2 = xs_submitted st1" "xs_halting st2 = xs_halting st1"
    using enforce_deadlines_frame by (simp_all add: st2_def)
  have r2: "ran cfg steps st1 st2" by (rule ran_cong [OF inv1]) (simp_all add: f2)
  then have inv2: "exec_inv cfg steps st2" by (simp add: ran_def)
  from mark_skipped_spec [OF inv2] obtain st3 where
    m: "mark_skipped st2 = Inr st3" "ran cfg steps st2 st3" "xs_in_flight st3 = xs_in_flight st2"
      "healthy (xs_nodes st2) \<longrightarrow> xs_nodes st3 = xs_nodes st2" by blast
  have r3: "ran cfg steps st st3" by (rule ran_trans [OF m(2) ran_trans [OF r2 c(2)]])
  have inv3: "exec_inv cfg steps st3" using m(2) by (simp add: ran_def)
  define st4 where "st4 = (if first_failure (xs_nodes st3) \<and> xc_policy cfg = FAIL_FAST
                     then st3\<lparr>xs_halting := True\<rparr> else st3)"
  have f4: "xs_nodes st4 = xs_nodes st3" "xs_in_flight st4 = xs_in_flight st3"
    "xs_submitted st4 = xs_submitted st3"
    by (simp_all add: st4_def)
  have res: "pass_back cfg inp st = Inr (True, persist cfg st4)"
    using busy m(1) c(1) by (simp add: pass_back_def st2_def [symmetric] st4_def)
  have inv4: "exec_inv cfg steps (persist cfg st4)"
    by (rule exec_inv_cong [OF inv3]) (simp_all add: f4)
  note d = exec_inv_distinct [OF inv]
  have run: "sched_run (xs_nodes st) (xs_nodes st3)" using r3 by (simp add: ran_def)
  have ev1: "evolves (xs_nodes st) (xs_nodes st1)"
    using c(2) sched_run_evolves [OF _ d] by (simp add: ran_def)
  have ev3: "evolves (xs_nodes st1) (xs_nodes st3)"
    using m(2) sched_run_evolves [OF _ exec_inv_distinct [OF inv1]] by (simp add: ran_def f2)
  have "open_ids (xs_nodes st3) \<subset> open_ids (xs_nodes st)" if "serves inp"
  proof -
    from that busy obtain cp where "cp \<in> set (pi_done inp (xs_in_flight st))"
      "cp_future cp \<in> fst ` set (xs_in_flight st)" unfolding serves_def by metis
    from collect_closes [OF inv inv1 ev1 c(3) this] evolves_open [OF ev3] show ?thesis by blast
  qed
  then have "passed cfg steps inp st True (persist cfg st4)"
    using inv4 evolves_trans [OF ev1 ev3] by (simp add: passed_def f4)
  moreover have "skips_justified (xs_nodes st3)" if "skips_justified (xs_nodes st)"
    by (rule sched_run_skips [OF run _ that, of steps]) (use inv in \<open>simp add: exec_inv_def\<close>)
  moreover have "healthy (xs_nodes st3) \<and> xs_halting (persist cfg st4) = xs_halting st"
    if "\<forall>c \<in> set (pi_done inp (xs_in_flight st)). \<forall>n. fst (outcome_of c n)" "healthy (xs_nodes st)"
  proof -
    have h: "healthy (xs_nodes st3)" using ok that m(4) by (simp add: f2)
    then have "\<not> first_failure (xs_nodes st3)"
      by (auto simp: first_failure_def list_ex_iff states_in_def)
    then show ?thesis using h r3 by (simp add: st4_def ran_def)
  qed
  moreover have "xs_halting (persist cfg st4)" if "xs_halting st"
    using that r3 by (simp add: st4_def ran_def)
  moreover have "xs_halting (persist cfg st4)" if "xc_policy cfg = FAIL_FAST" "first_failure (xs_nodes st3)"
    using that by (simp add: st4_def)
  ultimately show ?thesis using res run by (auto simp: f4)
qed

subsection \<open>The caller's token in a run that nobody cancels\<close>

definition quiet :: "pass_input \<Rightarrow> bool" where
  "quiet inp \<longleftrightarrow> \<not> fst (pi_guard inp) \<and> \<not> fst (pi_reason inp) \<and> \<not> fst (pi_submit inp)"

definition tok_inv :: "exec_state \<Rightarrow> bool" where
  "tok_inv st \<longleftrightarrow> xs_tokens st \<noteq> [] \<and> \<not> tk_event (xs_tokens st ! 0) \<and> tk_deadline (xs_tokens st ! 0) = None
     \<and> (\<forall>p \<in> set (xs_step_tokens st). 0 < snd p)"

lemma tok_inv_read: "tok_inv st \<Longrightarrow> \<not> fst io \<Longrightarrow> read_token io st = (False, st)"
  by (simp add: read_token_def tok_inv_def cancelled.simps deadline_reached_def split: option.split)

lemma set_dict_set: "p \<in> set (dict_set k v d) \<Longrightarrow> p = (k, v) \<or> p \<in> set d"
  by (induction d) (auto split: if_splits)

lemma on_node_tokens:
  "on_node i f st = Inr st' \<Longrightarrow> xs_tokens st' = xs_tokens st \<and> xs_step_tokens st' = xs_step_tokens st"
  by (auto simp: on_node_def bind_result_Inr_iff split: option.splits)

lemma submit_node_tok:
  assumes "submit_node cfg now clk n st = Inr st'" "tok_inv st"
  shows "tok_inv st'"
proof -
  let ?f2 = "\<lambda>m. map_sum id (\<lambda>m'. m'\<lparr>gn_attempts := gn_attempts m' + 1,
                       gn_started_at := Some now, gn_timeout_s := Some (step_timeout cfg (gn_id n))\<rparr>)
                     (node_transition S_RUNNING m)"
  from assms(1) obtain st1 where 1: "on_node (gn_id n) (node_transition S_READY) st = Inr st1"
    and rest: "bind_result (on_node (gn_id n) ?f2 (emit ''STEP_READY'' (gn_id n) st1)) (\<lambda>st2.
        let (ts, child) = child_token clk (Some (step_timeout cfg (gn_id n))) 0 (xs_tokens st2);
            future = length (xs_submitted st2);
            merged = merge_args (ps_arguments (gn_step n))
                       (case map_of (xc_args cfg) (gn_id n) of Some a \<Rightarrow> a | None \<Rightarrow> [])
        in Inr ((emit ''STEP_STARTED'' (gn_id n) st2)\<lparr>xs_tokens := ts,
             xs_submitted := xs_submitted st2 @ [\<lparr>sb_future = future, sb_step = gn_id n,
                sb_arguments = merged, sb_token = child\<rparr>],
             xs_in_flight := xs_in_flight st2 @ [(future, gn_id n)],
             xs_step_tokens := dict_set future child (xs_step_tokens st2)\<rparr>)) = Inr st'"
    unfolding submit_node_def Let_def bind_result_Inr_iff [of "on_node (gn_id n) (node_transition S_READY) st"]
    by blast
  from rest obtain st2 where 2: "on_node (gn_id n) ?f2 (emit ''STEP_READY'' (gn_id n) st1) = Inr st2"
    by (auto simp: bind_result_Inr_iff)
  obtain ts child where
    c: "child_token clk (Some (step_timeout cfg (gn_id n))) 0 (xs_tokens st2) = (ts, child)" by fastforce
  have st': "xs_tokens st' = ts"
      "xs_step_tokens st' = dict_set (length (xs_submitted st2)) child (xs_step_tokens st2)"
    using rest unfolding 2 bind_result_simps c Let_def prod.case by auto
  have t: "xs_tokens st2 = xs_tokens st" "xs_step_tokens st2 = xs_step_tokens st"
    using on_node_tokens [OF 1] on_node_tokens [OF 2] by simp_all
  have "\<exists>u. ts = xs_tokens st @ [u]" "child = length (xs_tokens st)"
    using c by (auto simp: child_token_def new_token_def Let_def t)
  then show ?thesis using assms(2)
    by (auto simp: tok_inv_def st' t nth_append dest!: set_dict_set)
qed

lemma submit_loop_tok: "submit_loop cfg now clk ns st = Inr st' \<Longrightarrow> tok_inv st \<Longrightarrow> tok_inv st'"
  by (induction ns arbitrary: st) (auto simp: bind_result_Inr_iff submit_node_tok split: if_splits)

lemma collect_one_tok:
  assumes "collect_one c st = Inr st'" "tok_inv st"
  shows "tok_inv st'"
proof -
  have "xs_tokens st' = xs_tokens st \<and> set (xs_step_tokens st') \<subseteq> set (xs_step_tokens st)"
    using assms(1) unfolding collect_one_def Let_def
    by (auto simp: bind_result_Inr_iff AList.delete_eq split: option.splits if_splits prod.splits)
  then show ?thesis using assms(2) by (auto simp: tok_inv_def)
qed

lemma collect_loop_tok: "collect_loop cs st = Inr st' \<Longrightarrow> tok_inv st \<Longrightarrow> tok_inv st'"
  by (induction cs arbitrary: st) (auto simp: bind_result_Inr_iff collect_one_tok)

lemma enforce_one_tok: "tok_inv st \<Longrightarrow> tok_inv (enforce_one now p st)"
  by (auto simp: enforce_one_def tok_inv_def cancel_token_def split: prod.splits option.splits
      dest!: map_of_SomeD)

lemma enforce_deadlines_tok: "tok_inv st \<Longrightarrow> tok_inv (enforce_deadlines now st)"
proof -
  have "tok_inv s \<Longrightarrow> tok_inv (fold (enforce_one now) ps s)" for ps s
    by (induction ps arbitrary: s) (simp_all add: enforce_one_tok)
  then show "tok_inv st \<Longrightarrow> tok_inv (enforce_deadlines now st)" by (simp add: enforce_deadlines_def)
qed

lemma mark_skipped_tok: "mark_skipped st = Inr st' \<Longrightarrow> tok_inv st \<Longrightarrow> tok_inv st'"
proof -
  have "tok_inv (fold (\<lambda>n. emit e (f n)) ns s) = tok_inv s" for e f s and ns :: nodes
    by (induction ns arbitrary: s) (simp_all add: tok_inv_def)
  then show "mark_skipped st = Inr st' \<Longrightarrow> tok_inv st \<Longrightarrow> tok_inv st'"
    by (auto simp: mark_skipped_def bind_result_Inr_iff) (simp add: tok_inv_def)
qed

subsection \<open>The loop\<close>

lemma exec_pass_spec:
  assumes inv: "exec_inv cfg steps st" and room: "1 \<le> xc_max_concurrency cfg"
  shows "\<exists>go st'. exec_pass cfg inp st = Inr (go, st') \<and> passed cfg steps inp st go st'
    \<and> (steady inp \<longrightarrow> closed_steps steps \<longrightarrow> skips_justified (xs_nodes st) \<longrightarrow> skips_justified (xs_nodes st'))"
proof -
  from pass_front_spec [OF inv room, of inp] obtain st1 where
    f: "pass_front cfg inp st = Inr st1" "ran cfg steps st st1"
    and ready: "steady inp \<longrightarrow> xs_in_flight st1 = [] \<longrightarrow> none_ready (xs_nodes st1)" by blast
  have inv1: "exec_inv cfg steps st1" and run1: "sched_run (xs_nodes st) (xs_nodes st1)"
    using f(2) by (simp_all add: ran_def)
  have ev1: "evolves (xs_nodes st) (xs_nodes st1)"
    by (rule sched_run_evolves [OF run1 exec_inv_distinct [OF inv]])
  have just1: "skips_justified (xs_nodes st1)" if "skips_justified (xs_nodes st)"
    by (rule sched_run_skips [OF run1 _ that, of steps]) (use inv in \<open>simp add: exec_inv_def\<close>)
  have "\<exists>go st'. pass_back cfg inp st1 = Inr (go, st') \<and> passed cfg steps inp st1 go st'
    \<and> (steady inp \<longrightarrow> closed_steps steps \<longrightarrow> skips_justified (xs_nodes st1) \<longrightarrow> skips_justified (xs_nodes st'))"
  proof (cases "xs_in_flight st1 = []")
    case True
    from pass_back_drain [OF inv1 True, of inp] ready True show ?thesis by blast
  next
    case False
    from pass_back_collect [OF inv1 False, of inp] show ?thesis by blast
  qed
  then obtain go st' where b: "pass_back cfg inp st1 = Inr (go, st')" "passed cfg steps inp st1 go st'"
    "steady inp \<longrightarrow> closed_steps steps \<longrightarrow> skips_justified (xs_nodes st1) \<longrightarrow> skips_justified (xs_nodes st')"
    by blast
  have "passed cfg steps inp st go st'"
    using b(2) evolves_trans [OF ev1] evolves_open [OF ev1] by (auto simp: passed_def)
  moreover have "exec_pass cfg inp st = Inr (go, st')" by (simp add: exec_pass_def f(1) b(1))
  ultimately show ?thesis using b(3) just1 by blast
qed

lemma exec_loop_spec:
  assumes "exec_inv cfg steps st" "1 \<le> xc_max_concurrency cfg"
  shows "\<exists>ended st'. exec_loop cfg inps st = Inr (ended, st') \<and> exec_inv cfg steps st'
    \<and> evolves (xs_nodes st) (xs_nodes st') \<and> (ended \<longrightarrow> graph_done (xs_nodes st'))
    \<and> ((\<forall>inp \<in> set inps. serves inp) \<longrightarrow> card (open_ids (xs_nodes st)) \<le> length inps \<longrightarrow> ended)
    \<and> ((\<forall>inp \<in> set inps. steady inp) \<longrightarrow> closed_steps steps \<longrightarrow> skips_justified (xs_nodes st)
         \<longrightarrow> skips_justified (xs_nodes st'))"
  using assms
proof (induction inps arbitrary: st)
  case Nil
  then show ?case using open_ids_done [OF exec_inv_distinct [OF Nil.prems(1)]] by simp
next
  case (Cons inp inps)
  show ?case
  proof (cases "graph_done (xs_nodes st)")
    case True
    then show ?thesis using Cons.prems by (intro exI [of _ True] exI [of _ st]) simp
  next
    case False
    from exec_pass_spec [OF Cons.prems, of inp] obtain go st1 where
      p: "exec_pass cfg inp st = Inr (go, st1)" "passed cfg steps inp st go st1"
      and just: "steady inp \<longrightarrow> closed_steps steps \<longrightarrow> skips_justified (xs_nodes st) \<longrightarrow> skips_justified (xs_nodes st1)"
      by blast
    have ev: "evolves (xs_nodes st) (xs_nodes st1)" using p(2) by (simp add: passed_def)
    show ?thesis
    proof (cases go)
      case True
      have inv1: "exec_inv cfg steps st1" using p(2) by (simp add: passed_def)
      from Cons.IH [OF inv1 Cons.prems(2)] obtain ended st' where
        i: "exec_loop cfg inps st1 = Inr (ended, st')" "exec_inv cfg steps st'"
          "evolves (xs_nodes st1) (xs_nodes st')" "ended \<longrightarrow> graph_done (xs_nodes st')"
        and fin: "(\<forall>inp \<in> set inps. serves inp) \<longrightarrow> card (open_ids (xs_nodes st1)) \<le> length inps \<longrightarrow> ended"
        and sk: "(\<forall>inp \<in> set inps. steady inp) \<longrightarrow> closed_steps steps \<longrightarrow> skips_justified (xs_nodes st1)
           \<longrightarrow> skips_justified (xs_nodes st')" by blast
      have "card (open_ids (xs_nodes st1)) < card (open_ids (xs_nodes st))" if "serves inp"
        using that True p(2) by (intro psubset_card_mono) (simp_all add: passed_def)
      then have "(\<forall>inp \<in> set (inp # inps). serves inp)
          \<longrightarrow> card (open_ids (xs_nodes st)) \<le> length (inp # inps) \<longrightarrow> ended"
        using fin by fastforce
      moreover have "exec_loop cfg (inp # inps) st = Inr (ended, st')" using False True p(1) i(1) by simp
      ultimately show ?thesis using i(2,4) evolves_trans [OF ev i(3)] sk just by auto
    next
      case nogo: False
      then have "exec_loop cfg (inp # inps) st = Inr (True, st1)" using False p(1) by simp
      then show ?thesis using p(2) nogo just by (auto simp: passed_def)
    qed
  qed
qed

lemma fresh_exec_inv:
  assumes "closed_steps steps"
  shows "exec_inv cfg steps (start_state cfg ts (map new_node steps))"
    "skips_justified (map new_node steps)" "healthy (map new_node steps)"
proof -
  have d: "distinct (map gn_id (map new_node steps))"
    using assms by (simp add: closed_steps_def new_node_def comp_def)
  have "state_of (map new_node steps) i \<noteq> Some S_RUNNING" for i
    using node_of_Some [of "map new_node steps" i] by (auto simp: state_of_def new_node_def)
  then show "exec_inv cfg steps (start_state cfg ts (map new_node steps))"
    using d by (simp add: exec_inv_def flight_inv_def node_inv_def start_state_def new_node_def
        started_def comp_def map_idI)
qed (auto simp: skips_justified_def new_node_def states_in_def)

subsection \<open>A run in which every work succeeds\<close>

definition all_ok :: "pass_input \<Rightarrow> bool" where
  "all_ok inp \<longleftrightarrow> (\<forall>fl. \<forall>c \<in> set (pi_done inp fl). \<forall>n. fst (outcome_of c n))"

definition going_well :: "exec_config \<Rightarrow> plan_step list \<Rightarrow> exec_state \<Rightarrow> bool" where
  "going_well cfg steps st \<longleftrightarrow> exec_inv cfg steps st \<and> healthy (xs_nodes st) \<and> tok_inv st \<and> \<not> xs_halting st"

lemma pass_front_quiet:
  "tok_inv st \<Longrightarrow> quiet inp \<Longrightarrow> \<not> xs_halting st
     \<Longrightarrow> pass_front cfg inp st = submit_ready cfg (pi_now inp) (pi_mono inp) st"
  by (simp add: pass_front_def quiet_def tok_inv_read)

lemma pass_back_tok:
  assumes "pass_back cfg inp st = Inr (go, st')" "tok_inv st" "xs_in_flight st \<noteq> []"
  shows "tok_inv st'"
proof -
  from assms(1,3) obtain st1 where c: "collect_loop (pi_done inp (xs_in_flight st)) st = Inr st1"
    by (auto simp: pass_back_def bind_result_Inr_iff)
  with assms(1,3) obtain st2 where m: "mark_skipped (enforce_deadlines (pi_deadline_now inp) st1) = Inr st2"
    by (auto simp: pass_back_def bind_result_Inr_iff)
  have "tok_inv st2"
    by (rule mark_skipped_tok [OF m enforce_deadlines_tok [OF collect_loop_tok [OF c assms(2)]]])
  moreover have "tok_inv (persist cfg s) = tok_inv s" "tok_inv (s\<lparr>xs_halting := True\<rparr>) = tok_inv s" for s
    by (simp_all add: persist_def tok_inv_def)
  ultimately show ?thesis using assms(1,3) c m
    by (auto simp: pass_back_def Let_def split: if_splits)
qed

lemma exec_pass_well:
  assumes w: "going_well cfg steps st" and room: "1 \<le> xc_max_concurrency cfg"
    and closed: "closed_steps steps" and ac: "acyclic (dep_rel steps)"
    and q: "quiet inp" and ok: "all_ok inp"
  shows "\<exists>go st'. exec_pass cfg inp st = Inr (go, st') \<and> going_well cfg steps st'"
proof -
  have inv: "exec_inv cfg steps st" and h: "healthy (xs_nodes st)" and t: "tok_inv st"
    and nh: "\<not> xs_halting st" using w by (auto simp: going_well_def)
  from submit_ready_spec [OF inv room, of "pi_now inp" "pi_mono inp"] h obtain st1 where
    f: "submit_ready cfg (pi_now inp) (pi_mono inp) st = Inr st1" "ran cfg steps st st1"
      "xs_in_flight st1 = [] \<longrightarrow> none_ready (xs_nodes st1)" "healthy (xs_nodes st1)" by blast
  have inv1: "exec_inv cfg steps st1" and nh1: "\<not> xs_halting st1" using f(2) nh by (auto simp: ran_def)
  have t1: "tok_inv st1" using f(1) submit_loop_tok [OF _ t] by (simp add: submit_ready_def)
  have w1: "going_well cfg steps st1" using inv1 f(4) t1 nh1 by (simp add: going_well_def)
  have pass: "exec_pass cfg inp st = pass_back cfg inp st1"
    by (simp add: exec_pass_def pass_front_quiet [OF t q nh] f(1))
  show ?thesis
  proof (cases "xs_in_flight st1 = []")
    case True
    have "\<forall>j. state_of (xs_nodes st1) j \<noteq> Some S_RUNNING"
      using inv1 True by (simp add: exec_inv_def flight_inv_def)
    then have "\<forall>n \<in> set (xs_nodes st1). gn_state n = S_SUCCEEDED"
      using healthy_idle_done [OF _ closed ac f(4)] f(3) True inv1 by (simp add: exec_inv_def)
    then have "graph_done (xs_nodes st1)" by (simp add: graph_done_def list_all_iff terminal_step_def)
    then have "pass_back cfg inp st1 = Inr (False, st1)"
      by (simp add: pass_back_def True drain_stuck_def)
    then show ?thesis using pass w1 by auto
  next
    case False
    from pass_back_collect [OF inv1 False, of inp] obtain st' where
      b: "pass_back cfg inp st1 = Inr (True, st')" "passed cfg steps inp st1 True st'"
      and good: "(\<forall>c \<in> set (pi_done inp (xs_in_flight st1)). \<forall>n. fst (outcome_of c n))
         \<longrightarrow> healthy (xs_nodes st1) \<longrightarrow> healthy (xs_nodes st') \<and> xs_halting st' = xs_halting st1" by blast
    have "going_well cfg steps st'"
      using b(2) good ok f(4) nh1 pass_back_tok [OF b(1) t1 False]
      by (simp add: going_well_def passed_def all_ok_def)
    then show ?thesis using pass b(1) by auto
  qed
qed

lemma exec_loop_well:
  assumes "going_well cfg steps st" "1 \<le> xc_max_concurrency cfg" "closed_steps steps"
    "acyclic (dep_rel steps)" "\<forall>inp \<in> set inps. quiet inp \<and> all_ok inp"
  shows "\<exists>ended st'. exec_loop cfg inps st = Inr (ended, st') \<and> going_well cfg steps st'"
  using assms
proof (induction inps arbitrary: st)
  case Nil
  then show ?case by auto
next
  case (Cons inp inps)
  from exec_pass_well [OF Cons.prems(1-4), of inp] Cons.prems(5) obtain go st1 where
    p: "exec_pass cfg inp st = Inr (go, st1)" "going_well cfg steps st1" by auto
  from Cons.IH [OF p(2) Cons.prems(2-4)] Cons.prems(5) obtain ended st' where
    "exec_loop cfg inps st1 = Inr (ended, st')" "going_well cfg steps st'" by auto
  then show ?case using p Cons.prems(1) by (cases "graph_done (xs_nodes st)"; cases go) auto
qed

lemma from_plan_closed:
  assumes "from_plan p = Inr g"
  shows "tg_nodes g = map new_node (plan_steps p)" "closed_steps (plan_steps p)"
    "acyclic (dep_rel (plan_steps p))"
proof -
  from from_plan_nodes [OF assms] show n: "tg_nodes g = map new_node (plan_steps p)" by simp
  from from_plan_nodes [OF assms] have d: "distinct (map ps_id (plan_steps p))"
    by (auto simp: new_node_def comp_def)
  obtain ordered where o: "order_steps (plan_steps p) = Inr ordered"
    using assms by (auto simp: from_plan_def bind_result_Inr_iff)
  show "closed_steps (plan_steps p)" using order_steps_closed(1) [OF d o] by simp
  show "acyclic (dep_rel (plan_steps p))" by (rule order_steps_acyclic [OF d o])
qed

lemma check_tools_Inr:
  "check_tools known ns = Inr () \<longleftrightarrow> (\<forall>n \<in> set ns. set (ps_tools (gn_step n)) \<subseteq> set known)"
proof -
  let ?bad = "concat (map (\<lambda>n. map (\<lambda>t. (gn_id n, t)) (filter (\<lambda>t. t \<notin> set known) (ps_tools (gn_step n)))) ns)"
  have "check_tools known ns = Inr () \<longleftrightarrow> ?bad = []"
  proof (cases ?bad)
    case Nil
    then show ?thesis by (simp only: check_tools_def list.case simp_thms)
  next
    case (Cons b bs)
    then show ?thesis unfolding check_tools_def Cons by (cases b) simp
  qed
  also have "\<dots> \<longleftrightarrow> (\<forall>n \<in> set ns. set (ps_tools (gn_step n)) \<subseteq> set known)"
    by (auto simp: filter_empty_conv)
  finally show ?thesis .
qed

lemma running_in_flight:
  assumes "exec_inv cfg steps st"
  shows "length (filter (\<lambda>n. gn_state n = S_RUNNING) (xs_nodes st)) = length (xs_in_flight st)"
proof -
  let ?run = "filter (\<lambda>n. gn_state n = S_RUNNING) (xs_nodes st)"
  note d = exec_inv_distinct [OF assms]
  have "set (map gn_id ?run) = set (map snd (xs_in_flight st))"
  proof -
    have "i \<in> set (map gn_id ?run) \<longleftrightarrow> state_of (xs_nodes st) i = Some S_RUNNING" for i
      unfolding state_of_def using node_of_member [OF d] node_of_Some [of "xs_nodes st"] by force
    moreover have "i \<in> set (map snd (xs_in_flight st)) \<longleftrightarrow> state_of (xs_nodes st) i = Some S_RUNNING" for i
      using assms unfolding exec_inv_def flight_inv_def by blast
    ultimately show ?thesis by blast
  qed
  moreover have "distinct (map gn_id ?run)" using d by (rule distinct_map_filter)
  moreover have "distinct (map snd (xs_in_flight st))" using assms by (simp add: exec_inv_def flight_inv_def)
  ultimately show ?thesis by (metis distinct_card length_map)
qed

subsection \<open>Properties of the executor\<close>

definition demo_cfg :: exec_config where
  "demo_cfg = \<lparr>xc_max_concurrency = 2, xc_policy = FAIL_FAST, xc_default_timeout = 60,
     xc_step_timeouts = [], xc_args = [], xc_persist = True\<rparr>"

definition demo_tokens :: token_store where
  "demo_tokens = [\<lparr>tk_event = False, tk_parent = None, tk_deadline = None\<rparr>]"

definition demo_env :: run_env where
  "demo_env = \<lparr>re_cancelled = (\<lambda>k. False), re_run = (\<lambda>k name. Inr demo_result)\<rparr>"

text \<open>A pass in which all the work in flight returns.\<close>

definition demo_pass :: pass_input where
  "demo_pass = \<lparr>pi_guard = (False, 0), pi_reason = (False, 0), pi_submit = (False, 0), pi_now = 0,
     pi_mono = 0,
     pi_done = (\<lambda>fl. map (\<lambda>p. \<lparr>cp_future = fst p, cp_work = Inr demo_env, cp_now = 1, cp_mono = 1\<rparr>) fl),
     pi_deadline_now = 1\<rparr>"

definition demo_steps :: "plan_step list" where
  "demo_steps = [demo_step ''b'' [''a''], demo_step ''a'' []]"

lemma demo_closed: "closed_steps demo_steps"
  by (simp add: demo_steps_def closed_steps_def demo_step_def)

lemma demo_pass_facts: "serves demo_pass" "steady demo_pass" "quiet demo_pass"
  by (auto simp: serves_def steady_def quiet_def demo_pass_def neq_Nil_conv) blast

text \<open>
  C12: whatever the other threads do, at the end of every pass of \<open>execute_graph\<close>'s loop at most
  \<open>max_concurrency\<close> steps are running, each step that has been started (running, succeeded,
  failed or timed out) has only dependencies that SUCCEEDED, no transition was refused, and the
  loop ends only when every step is in a terminal state.
\<close>

theorem exec_loop_safe:
  assumes "closed_steps steps" "1 \<le> xc_max_concurrency cfg"
  shows "\<exists>ended st. exec_loop cfg inps (start_state cfg ts (map new_node steps)) = Inr (ended, st)
    \<and> map gn_step (xs_nodes st) = steps
    \<and> length (filter (\<lambda>n. gn_state n = S_RUNNING) (xs_nodes st)) \<le> xc_max_concurrency cfg
    \<and> (\<forall>n \<in> set (xs_nodes st). started (gn_state n) \<longrightarrow>
          (\<forall>d \<in> set (gn_deps n). state_of (xs_nodes st) d = Some S_SUCCEEDED))
    \<and> (ended \<longrightarrow> graph_done (xs_nodes st))"
proof -
  from exec_loop_spec [OF fresh_exec_inv(1) [OF assms(1)] assms(2)] obtain ended st where
    e: "exec_loop cfg inps (start_state cfg ts (map new_node steps)) = Inr (ended, st)"
    and inv: "exec_inv cfg steps st" and fin: "ended \<longrightarrow> graph_done (xs_nodes st)" by blast
  have "length (filter (\<lambda>n. gn_state n = S_RUNNING) (xs_nodes st)) \<le> xc_max_concurrency cfg"
    using running_in_flight [OF inv] inv by (simp add: exec_inv_def flight_inv_def)
  with e inv fin show ?thesis
    by (auto simp: exec_inv_def node_inv_def deps_succeeded_def list_all_iff)
qed

theorem exec_loop_safe_witness:
  "\<exists>ended st. exec_loop demo_cfg [demo_pass] (start_state demo_cfg demo_tokens (map new_node demo_steps)) = Inr (ended, st)
    \<and> map gn_step (xs_nodes st) = demo_steps"
proof -
  have "1 \<le> xc_max_concurrency demo_cfg" by (simp add: demo_cfg_def)
  from exec_loop_safe [OF demo_closed this, of "[demo_pass]" demo_tokens] show ?thesis by blast
qed

lemma exec_loop_total:
  assumes "closed_steps steps" "1 \<le> xc_max_concurrency cfg" "\<forall>inp \<in> set inps. serves inp"
    and "length steps \<le> length inps"
  shows "\<exists>st. exec_loop cfg inps (start_state cfg ts (map new_node steps)) = Inr (True, st)
    \<and> (\<forall>n \<in> set (xs_nodes st). terminal_step (gn_state n))"
proof -
  let ?st = "start_state cfg ts (map new_node steps)"
  from exec_loop_spec [OF fresh_exec_inv(1) [OF assms(1)] assms(2)] assms(3) obtain ended st where
    e: "exec_loop cfg inps ?st = Inr (ended, st)" and fin: "ended \<longrightarrow> graph_done (xs_nodes st)"
    and enough: "card (open_ids (xs_nodes ?st)) \<le> length inps \<longrightarrow> ended" by blast
  have "card (open_ids (xs_nodes ?st)) \<le> card (gn_id ` set (xs_nodes ?st))"
    by (rule card_mono [OF _ open_ids_bound]) simp
  also have "\<dots> \<le> card (set (xs_nodes ?st))" by (rule card_image_le) simp
  also have "\<dots> \<le> length (xs_nodes ?st)" by (rule card_length)
  also have "\<dots> = length steps" by (simp add: start_state_def)
  finally have ended using enough assms(4) by simp
  with e fin show ?thesis by (auto simp: graph_done_def list_all_iff)
qed

text \<open>
  C13: the loop of \<open>execute_graph\<close> ends: when in each pass at least one of the futures in flight
  returns, as many passes as the graph has steps are enough for every step to be terminal.
\<close>

theorem exec_loop_ends:
  assumes "closed_steps steps" "1 \<le> xc_max_concurrency cfg" "\<forall>inp \<in> set inps. serves inp"
    and "length steps \<le> length inps"
  shows "\<exists>st. exec_loop cfg inps (start_state cfg ts (map new_node steps)) = Inr (True, st)
    \<and> (\<forall>n \<in> set (xs_nodes st). terminal_step (gn_state n))"
  using assms by (rule exec_loop_total)

theorem exec_loop_ends_witness:
  "\<exists>st. exec_loop demo_cfg [demo_pass, demo_pass] (start_state demo_cfg demo_tokens (map new_node demo_steps)) = Inr (True, st)
    \<and> (\<forall>n \<in> set (xs_nodes st). terminal_step (gn_state n))"
  by (rule exec_loop_ends [OF demo_closed])
    (simp_all add: demo_pass_facts demo_cfg_def demo_steps_def)

text \<open>
  a step is SKIPPED only when one of its dependencies ended without success (failed, timed
  out, cancelled or skipped itself), provided no cancellation falls between the two reads of the
  token at the top of a pass; the defensive drain included.
\<close>

theorem exec_skips_justified:
  assumes "closed_steps steps" "1 \<le> xc_max_concurrency cfg" "\<forall>inp \<in> set inps. steady inp"
    and "exec_loop cfg inps (start_state cfg ts (map new_node steps)) = Inr (ended, st)"
  shows "\<forall>n \<in> set (xs_nodes st). gn_state n = S_SKIPPED \<longrightarrow>
    (\<exists>d \<in> set (gn_deps n). \<exists>s. state_of (xs_nodes st) d = Some s \<and> non_success_terminal s)"
proof -
  have "xs_nodes (start_state cfg ts (map new_node steps)) = map new_node steps"
    by (simp add: start_state_def)
  then have "skips_justified (xs_nodes st)"
    using exec_loop_spec [OF fresh_exec_inv(1) [OF assms(1), of cfg ts] assms(2), where inps = inps]
      fresh_exec_inv(2) [OF assms(1)] assms(1,3,4) by auto
  then show ?thesis by (simp add: skips_justified_def has_bad_dep_def)
qed

definition demo_fail_pass :: pass_input where
  "demo_fail_pass = demo_pass\<lparr>pi_done := (\<lambda>fl. map (\<lambda>p. \<lparr>cp_future = fst p, cp_work = Inl ''boom'',
     cp_now = 1, cp_mono = 1\<rparr>) fl)\<rparr>"

definition is_skipped :: "string \<Rightarrow> (bool \<times> exec_state) result \<Rightarrow> bool" where
  "is_skipped i r = (case r of Inr (_, st) \<Rightarrow> state_of (xs_nodes st) i = Some S_SKIPPED | _ \<Rightarrow> False)"

lemma demo_fail_run:
  "is_skipped ''b'' (exec_loop demo_cfg [demo_fail_pass] (start_state demo_cfg demo_tokens (map new_node demo_steps)))"
  by code_simp

theorem exec_skips_justified_witness:
  "\<exists>ended st. exec_loop demo_cfg [demo_fail_pass] (start_state demo_cfg demo_tokens (map new_node demo_steps)) = Inr (ended, st)
    \<and> state_of (xs_nodes st) ''b'' = Some S_SKIPPED
    \<and> (\<forall>n \<in> set (xs_nodes st). gn_state n = S_SKIPPED \<longrightarrow>
         (\<exists>d \<in> set (gn_deps n). \<exists>s. state_of (xs_nodes st) d = Some s \<and> non_success_terminal s))"
proof -
  from demo_fail_run obtain ended st where
    r: "exec_loop demo_cfg [demo_fail_pass] (start_state demo_cfg demo_tokens (map new_node demo_steps)) = Inr (ended, st)"
    and b: "state_of (xs_nodes st) ''b'' = Some S_SKIPPED"
    by (auto simp: is_skipped_def split: sum.splits prod.splits)
  have "1 \<le> xc_max_concurrency demo_cfg" "\<forall>inp \<in> set [demo_fail_pass]. steady inp"
    by (simp_all add: demo_cfg_def demo_fail_pass_def demo_pass_def steady_def)
  from exec_skips_justified [OF demo_closed this r] r b show ?thesis by blast
qed

text \<open>
  C36: when the plan is sound, every tool is known, nobody cancels, the caller's token has no
  deadline and every step's work succeeds, \<open>execute_graph\<close> ends with status COMPLETED and every
  step SUCCEEDED, given one pass per step in which some work in flight returns.
\<close>

theorem execute_graph_completes:
  assumes "from_plan p = Inr g" "1 \<le> xc_max_concurrency cfg"
    and "\<forall>s \<in> set (plan_steps p). set (ps_tools s) \<subseteq> set known"
    and "ts \<noteq> [] \<and> \<not> tk_event (ts ! 0) \<and> tk_deadline (ts ! 0) = None"
    and "\<forall>inp \<in> set inps. quiet inp \<and> all_ok inp \<and> serves inp" "length (plan_steps p) \<le> length inps"
    and "\<not> fst io"
  shows "\<exists>res st. execute_graph cfg known task_id ts g inps now io = Inr (True, res, st)
    \<and> xr_status res = O_COMPLETED \<and> xr_succeeded res = map ps_id (plan_steps p)"
proof -
  note fp = from_plan_closed [OF assms(1)]
  let ?steps = "plan_steps p" and ?st = "start_state cfg ts (map new_node (plan_steps p))"
  have tools: "check_tools known (tg_nodes g) = Inr ()"
    using assms(3) by (simp add: fp(1) check_tools_Inr new_node_def)
  have "tok_inv ?st" using assms(4) by (simp add: tok_inv_def start_state_def persist_def emit_def)
  then have w: "going_well cfg ?steps ?st"
    using fresh_exec_inv [OF fp(2)] by (simp add: going_well_def start_state_def persist_def emit_def)
  from exec_loop_well [OF w assms(2) fp(2,3)] assms(5) obtain ended st where
    e: "exec_loop cfg inps ?st = Inr (ended, st)" and w': "going_well cfg ?steps st" by blast
  from exec_loop_total [OF fp(2) assms(2) _ assms(6), of ts] assms(5) e
  have fin: ended "\<forall>n \<in> set (xs_nodes st). terminal_step (gn_state n)" by auto
  have all: "gn_state n = S_SUCCEEDED" if "n \<in> set (xs_nodes st)" for n
    using w' bspec [OF fin(2) that] that by (auto simp: going_well_def states_in_def terminal_step_def)
  define st1 where "st1 = st\<lparr>xs_tokens := fold cancel_token (map snd (xs_step_tokens st)) (xs_tokens st),
                   xs_step_tokens := [], xs_nodes := map (stamp_completed now) (xs_nodes st)\<rparr>"
  have fold_tok: "ts' \<noteq> [] \<Longrightarrow> \<forall>k \<in> set ks. 0 < k \<Longrightarrow> fold cancel_token ks ts' \<noteq> [] \<and> fold cancel_token ks ts' ! 0 = ts' ! 0"
    for ks and ts' :: token_store
    by (induction ks arbitrary: ts') (auto simp: cancel_token_def)
  have "tok_inv st1" using w' fold_tok [of "xs_tokens st" "map snd (xs_step_tokens st)"]
    by (auto simp: going_well_def tok_inv_def st1_def)
  then have "read_token io st1 = (False, st1)" by (rule tok_inv_read [OF _ assms(7)])
  moreover have nodes: "xs_nodes st1 = map (stamp_completed now) (xs_nodes st)" by (simp add: st1_def)
  moreover have stamp: "gn_state (stamp_completed now n) = gn_state n" "gn_step (stamp_completed now n) = gn_step n" for n
    by (simp_all add: stamp_completed_def)
  ultimately have status: "overall (xs_nodes st1) False = O_COMPLETED"
    using all by (simp add: overall_def list_all_iff nodes)
  have "map gn_step (xs_nodes st) = ?steps" using w' by (simp add: going_well_def exec_inv_def node_inv_def)
  then have ids: "map gn_id (xs_nodes st) = map ps_id ?steps" by (metis ids_steps)
  have "filter (\<lambda>n. gn_state n = S_SUCCEEDED) (xs_nodes st1) = xs_nodes st1"
    using all by (intro filter_True) (auto simp: nodes stamp)
  then have "bucket S_SUCCEEDED (xs_nodes st1) = map ps_id ?steps"
    using ids by (simp add: bucket_def nodes stamp comp_def)
  then show ?thesis
    using status \<open>read_token io st1 = (False, st1)\<close> fin(1)
    by (simp add: execute_graph_def tools [unfolded fp(1)] fp(1) e finish_def st1_def [symmetric] Let_def aggregate_def)
qed

theorem execute_graph_completes_witness:
  "\<exists>g res st. execute_graph demo_cfg [''echo''] ''t'' demo_tokens g [demo_pass, demo_pass] 5 (False, 5) = Inr (True, res, st)
    \<and> xr_status res = O_COMPLETED \<and> xr_succeeded res = [''b'', ''a'']"
proof -
  have "is_inr (from_plan demo_plan)" by code_simp
  then obtain g where g: "from_plan demo_plan = Inr g" by (auto simp: is_inr_iff)
  have "fst (run_tools demo_env k names rs)" for k names rs
    by (induction names arbitrary: k rs) (simp_all add: demo_env_def demo_result_def)
  then have ok: "all_ok demo_pass"
    by (auto simp: all_ok_def demo_pass_def outcome_of_def run_node_def)
  have "\<exists>res st. execute_graph demo_cfg [''echo''] ''t'' demo_tokens g [demo_pass, demo_pass] 5 (False, 5) = Inr (True, res, st)
    \<and> xr_status res = O_COMPLETED \<and> xr_succeeded res = map ps_id (plan_steps demo_plan)"
    by (rule execute_graph_completes [OF g])
      (simp_all add: demo_pass_facts ok demo_cfg_def demo_tokens_def demo_plan_def demo_step_def)
  then show ?thesis by (auto simp: demo_plan_def demo_step_def)
qed

subsection \<open>Fail fast\<close>

lemma collect_one_submitted: "collect_one c st = Inr st' \<Longrightarrow> xs_submitted st' = xs_submitted st"
  unfolding collect_one_def Let_def
  by (auto simp: bind_result_Inr_iff split: option.splits if_splits prod.splits)

lemma collect_loop_submitted: "collect_loop cs st = Inr st' \<Longrightarrow> xs_submitted st' = xs_submitted st"
  by (induction cs arbitrary: st) (auto simp: bind_result_Inr_iff collect_one_submitted)

lemma mark_skipped_submitted: "mark_skipped st = Inr st' \<Longrightarrow> xs_submitted st' = xs_submitted st"
  by (auto simp: mark_skipped_def bind_result_Inr_iff fold_emit_frame)

lemma pass_back_submitted:
  assumes "pass_back cfg inp st = Inr (go, st')" "xs_in_flight st \<noteq> []"
  shows "xs_submitted st' = xs_submitted st"
proof -
  from assms obtain st1 where c: "collect_loop (pi_done inp (xs_in_flight st)) st = Inr st1"
    by (auto simp: pass_back_def bind_result_Inr_iff)
  with assms obtain st2 where m: "mark_skipped (enforce_deadlines (pi_deadline_now inp) st1) = Inr st2"
    by (auto simp: pass_back_def bind_result_Inr_iff)
  have "xs_submitted st2 = xs_submitted st"
    using mark_skipped_submitted [OF m] collect_loop_submitted [OF c] enforce_deadlines_frame by simp
  then show ?thesis using assms c m by (auto simp: pass_back_def Let_def split: if_splits)
qed

definition halt_inv :: "exec_config \<Rightarrow> exec_state \<Rightarrow> bool" where
  "halt_inv cfg st \<longleftrightarrow> (xc_policy cfg = FAIL_FAST \<longrightarrow> first_failure (xs_nodes st) \<longrightarrow> xs_halting st)"

lemma exec_pass_halt:
  assumes inv: "exec_inv cfg steps st" and room: "1 \<le> xc_max_concurrency cfg" and h: "halt_inv cfg st"
    and p: "exec_pass cfg inp st = Inr (go, st')"
  shows "halt_inv cfg st'"
proof -
  from pass_front_spec [OF inv room, of inp] obtain st1 where
    f: "pass_front cfg inp st = Inr st1" "ran cfg steps st st1"
    and fa: "\<forall>j. failed_at (xs_nodes st1) j \<longrightarrow> failed_at (xs_nodes st) j" by blast
  have inv1: "exec_inv cfg steps st1" using f(2) by (simp add: ran_def)
  have bk: "pass_back cfg inp st1 = Inr (go, st')" using p f(1) by (simp add: exec_pass_def)
  show ?thesis
  proof (cases "xs_in_flight st1 = []")
    case False
    from pass_back_collect [OF inv1 False, of inp] bk show ?thesis by (auto simp: halt_inv_def)
  next
    case True
    from drain_stuck_spec [OF inv1 True] obtain go2 st2 where
      dr: "drain_stuck st1 = (go2, st2)" "exec_inv cfg steps st2" "xs_halting st2 = xs_halting st1"
      and st: "\<forall>j. state_of (xs_nodes st2) j = (if state_of (xs_nodes st1) j = Some S_PENDING
          then Some S_SKIPPED else state_of (xs_nodes st1) j)" by blast
    have eq: "xs_nodes st' = xs_nodes st2" "xs_halting st' = xs_halting st2"
      using bk True dr(1) by (auto simp: pass_back_def split: if_splits)
    have "failed_at (xs_nodes st2) j \<Longrightarrow> failed_at (xs_nodes st) j" for j
      using spec [OF st, of j] fa by (auto split: if_splits)
    then have "first_failure (xs_nodes st2) \<Longrightarrow> first_failure (xs_nodes st)"
      using first_failure_iff [OF exec_inv_distinct [OF dr(2)]]
        first_failure_iff [OF exec_inv_distinct [OF inv]] by blast
    then show ?thesis using h dr(3) f(2) by (auto simp: halt_inv_def eq ran_def)
  qed
qed

lemma exec_loop_halt:
  assumes "exec_inv cfg steps st" "1 \<le> xc_max_concurrency cfg" "halt_inv cfg st"
    and "exec_loop cfg inps st = Inr (ended, st')"
  shows "halt_inv cfg st' \<and> exec_inv cfg steps st'"
  using assms
proof (induction inps arbitrary: st)
  case Nil
  then show ?case by simp
next
  case (Cons inp inps)
  show ?case
  proof (cases "graph_done (xs_nodes st)")
    case True
    then show ?thesis using Cons.prems by simp
  next
    case False
    from exec_pass_spec [OF Cons.prems(1,2), of inp] obtain go st1 where
      p: "exec_pass cfg inp st = Inr (go, st1)" "passed cfg steps inp st go st1" by blast
    have "exec_inv cfg steps st1" "halt_inv cfg st1"
      using p exec_pass_halt [OF Cons.prems(1-3) p(1)] by (simp_all add: passed_def)
    with Cons.IH Cons.prems(2,4) False p(1) show ?thesis by (cases go) auto
  qed
qed

lemma halting_pass:
  assumes inv: "exec_inv cfg steps st" and room: "1 \<le> xc_max_concurrency cfg" and h: "xs_halting st"
    and p: "exec_pass cfg inp st = Inr (go, st')"
  shows "xs_submitted st' = xs_submitted st"
    and "\<forall>i. state_of (xs_nodes st') i \<noteq> Some S_PENDING"
    and "\<forall>i. state_of (xs_nodes st') i = Some S_RUNNING \<longrightarrow> state_of (xs_nodes st) i = Some S_RUNNING"
proof -
  from pass_front_spec [OF inv room, of inp] h obtain st1 where
    f: "pass_front cfg inp st = Inr st1" "ran cfg steps st st1" "xs_submitted st1 = xs_submitted st"
      "\<forall>i. state_of (xs_nodes st1) i \<noteq> Some S_PENDING"
      "\<forall>i. state_of (xs_nodes st1) i = Some S_RUNNING \<longrightarrow> state_of (xs_nodes st) i = Some S_RUNNING" by blast
  have inv1: "exec_inv cfg steps st1" using f(2) by (simp add: ran_def)
  have bk: "pass_back cfg inp st1 = Inr (go, st')" using p f(1) by (simp add: exec_pass_def)
  have b: "xs_submitted st' = xs_submitted st1 \<and> evolves (xs_nodes st1) (xs_nodes st')"
  proof (cases "xs_in_flight st1 = []")
    case True
    from pass_back_drain [OF inv1 True, of inp] bk show ?thesis by (auto simp: passed_def)
  next
    case False
    from pass_back_collect [OF inv1 False, of inp] bk pass_back_submitted [OF bk False]
    show ?thesis by (auto simp: passed_def)
  qed
  then show "xs_submitted st' = xs_submitted st" using f(3) by simp
  show np: "\<forall>i. state_of (xs_nodes st') i \<noteq> Some S_PENDING" using b f(4) evolves_not_pending by blast
  have nr: "state_of (xs_nodes st1) i \<noteq> Some S_READY" for i
    using inv1 node_of_Some [of "xs_nodes st1" i] by (auto simp: exec_inv_def node_inv_def state_of_def)
  have "state_of (xs_nodes st1) i = Some S_RUNNING" if "state_of (xs_nodes st') i = Some S_RUNNING" for i
  proof -
    have "i \<in> open_ids (xs_nodes st')" using that by (auto simp: open_ids_def)
    then have "i \<in> open_ids (xs_nodes st1)" using b evolves_open by blast
    then obtain s where "state_of (xs_nodes st1) i = Some s" "\<not> terminal_step s" by (auto simp: open_ids_def)
    then show ?thesis using f(4) nr [of i] by (cases s) (auto simp: terminal_step_def)
  qed
  with f(5) show "\<forall>i. state_of (xs_nodes st') i = Some S_RUNNING \<longrightarrow> state_of (xs_nodes st) i = Some S_RUNNING"
    by blast
qed

text \<open>
  under FAIL_FAST, once a pass has left a failed or timed-out step behind, the next pass
  submits no work, leaves no step pending and lets no step start running.
\<close>

theorem fail_fast_starts_nothing:
  assumes "closed_steps steps" "1 \<le> xc_max_concurrency cfg" "xc_policy cfg = FAIL_FAST"
    and "exec_loop cfg inps (start_state cfg ts (map new_node steps)) = Inr (ended, st)"
    and "first_failure (xs_nodes st)" "exec_pass cfg inp st = Inr (go, st')"
  shows "xs_submitted st' = xs_submitted st
    \<and> (\<forall>i. state_of (xs_nodes st') i \<noteq> Some S_PENDING)
    \<and> (\<forall>i. state_of (xs_nodes st') i = Some S_RUNNING \<longrightarrow> state_of (xs_nodes st) i = Some S_RUNNING)"
proof -
  note inv0 = fresh_exec_inv(1) [OF assms(1), of cfg ts]
  have "halt_inv cfg (start_state cfg ts (map new_node steps))"
    by (auto simp: halt_inv_def start_state_def first_failure_def list_ex_iff new_node_def)
  from exec_loop_halt [OF inv0 assms(2) this assms(4)]
  have "exec_inv cfg steps st" "xs_halting st" using assms(3,5) by (auto simp: halt_inv_def)
  from halting_pass [OF this(1) assms(2) this(2) assms(6)] show ?thesis by blast
qed

definition slow_pass :: pass_input where
  "slow_pass = demo_fail_pass\<lparr>pi_done := (\<lambda>fl. map (\<lambda>p. \<lparr>cp_future = fst p, cp_work = Inl ''boom'',
     cp_now = 1, cp_mono = 1\<rparr>) (take 1 fl))\<rparr>"

definition wide_steps :: "plan_step list" where
  "wide_steps = [demo_step ''a'' [], demo_step ''b'' [], demo_step ''c'' []]"

definition failed_after :: "(bool \<times> exec_state) result \<Rightarrow> bool" where
  "failed_after r = (case r of Inr (_, st) \<Rightarrow>
     first_failure (xs_nodes st) \<and> is_inr (exec_pass demo_cfg slow_pass st)
     \<and> state_of (xs_nodes st) ''c'' = Some S_PENDING | _ \<Rightarrow> False)"

theorem fail_fast_starts_nothing_witness:
  "\<exists>st go st'. state_of (xs_nodes st) ''c'' = Some S_PENDING \<and> exec_pass demo_cfg slow_pass st = Inr (go, st')
     \<and> xs_submitted st' = xs_submitted st"
proof -
  have "failed_after (exec_loop demo_cfg [slow_pass] (start_state demo_cfg demo_tokens (map new_node wide_steps)))"
    by code_simp
  then obtain ended st where
    e: "exec_loop demo_cfg [slow_pass] (start_state demo_cfg demo_tokens (map new_node wide_steps)) = Inr (ended, st)"
    and f: "first_failure (xs_nodes st)" and c: "state_of (xs_nodes st) ''c'' = Some S_PENDING"
    and i: "is_inr (exec_pass demo_cfg slow_pass st)"
    by (auto simp: failed_after_def split: sum.splits prod.splits)
  from i obtain go st' where p: "exec_pass demo_cfg slow_pass st = Inr (go, st')"
    by (auto simp: is_inr_iff)
  have "closed_steps wide_steps" by (simp add: closed_steps_def wide_steps_def demo_step_def)
  moreover have "1 \<le> xc_max_concurrency demo_cfg" "xc_policy demo_cfg = FAIL_FAST" by (simp_all add: demo_cfg_def)
  ultimately show ?thesis using fail_fast_starts_nothing [OF _ _ _ e f p] c p by blast
qed

subsection \<open>One step's work, and the cancellation race\<close>

lemma run_tools_ok:
  "fst (run_tools env k names rs) \<longleftrightarrow>
     (\<forall>j < length names. \<not> re_cancelled env (k + j)
        \<and> (\<exists>r. re_run env (k + j) (names ! j) = Inr r \<and> tr_success r))
   \<and> \<not> re_cancelled env (k + length names)"
proof (induction names arbitrary: k rs)
  case Nil
  then show ?case by simp
next
  case (Cons name names)
  show ?case
    by (cases "re_run env k name") (auto simp: All_less_Suc2 Cons.IH simp del: All_less_Suc)
qed

text \<open>
  the work of a step succeeds exactly when, for each of its tools in order, the token was not
  cancelled before it and the runner returned a successful result, and the token was still not
  cancelled after the last; so a step whose deadline passed during its last tool never counts as
  succeeded.
\<close>

theorem run_node_ok:
  "fst (run_node env n) = ((\<forall>k < length (ps_tools (gn_step n)). \<not> re_cancelled env k
        \<and> (\<exists>r. re_run env k (ps_tools (gn_step n) ! k) = Inr r \<and> tr_success r))
     \<and> \<not> re_cancelled env (length (ps_tools (gn_step n))))"
  using run_tools_ok [of env 0] by (simp add: run_node_def)

theorem run_node_ok_witness:
  "fst (run_node demo_env (new_node (demo_step ''a'' [])))"
  unfolding run_node_ok by (simp add: demo_env_def new_node_def demo_step_def demo_result_def)

definition race_pass :: pass_input where
  "race_pass = demo_pass\<lparr>pi_submit := (True, 0)\<rparr>"

definition misreported :: "string \<Rightarrow> (bool \<times> exec_state) result \<Rightarrow> bool" where
  "misreported i r = (case r of Inr (_, st) \<Rightarrow>
     (case node_of (xs_nodes st) i of
        Some n \<Rightarrow> gn_deps n = [] \<and> gn_state n = S_SKIPPED
          \<and> gn_error n = ''unsatisfiable dependencies; skipped defensively''
      | None \<Rightarrow> False) | _ \<Rightarrow> False)"

text \<open>
  a cancellation that arrives between the two reads of the token in one pass: the step that
  was ready to run is reported as skipped for unsatisfiable dependencies, of which it has none.
\<close>

theorem cancel_race_misreports:
  "misreported ''a'' (exec_loop demo_cfg [race_pass] (start_state demo_cfg demo_tokens (map new_node wide_steps)))"
  by code_simp

end
