(* ===== verification/Verifier.thy ===== *)
theory Verifier
  imports Runner
begin

text \<open>
  The verifier (\<^verbatim>\<open>agent/verifier/verifier.py\<close>) and its strategies
  (\<^verbatim>\<open>agent/verifier/strategies.py\<close>). A strategy maps the observed tool results and its
  parameters, whatever value a criterion gives for them, to a finding or an exception, and may
  change the world \<open>'v\<close> it runs in (the test command does): the world is handed from one criterion
  to the next. The file system is a parameter: what a path resolves to, and what is there.
  Whatever the verifier publishes or saves is its verdict, so events and repository rows are not
  repeated here.
\<close>

subsection \<open>Values as Python reads them\<close>

fun truthy :: "json \<Rightarrow> bool" where
  "truthy JNull = False"
| "truthy (JBool b) = b"
| "truthy (JInt i) = (i \<noteq> 0)"
| "truthy (JFloat t) = (t \<notin> {''0.0'', ''-0.0''})"
| "truthy (JStr s) = (s \<noteq> [])"
| "truthy (JList xs) = (xs \<noteq> [])"
| "truthy (JObj ms) = (ms \<noteq> [])"

definition str_json :: "json \<Rightarrow> string" where
  "str_json v = (case v of JStr s \<Rightarrow> s | _ \<Rightarrow> repr_json v)"

text \<open>\<open>str(output or "")\<close>.\<close>

definition output_text :: "json \<Rightarrow> string" where
  "output_text v = (if truthy v then str_json v else [])"

definition error_or :: "string \<Rightarrow> string option \<Rightarrow> string" where
  "error_or other e = (case e of None \<Rightarrow> other | Some t \<Rightarrow> if t = [] then other else t)"

subsection \<open>Targets, findings, the file system\<close>

record target =
  tg_results :: "tool_result list"
  tg_root :: string
  tg_task_id :: string

record finding =
  fd_passed :: "bool option"
  fd_evidence :: "string list"
  fd_reason :: string

definition finding_of :: "bool option \<Rightarrow> string list \<Rightarrow> string \<Rightarrow> finding" where
  "finding_of p e r = \<lparr>fd_passed = p, fd_evidence = e, fd_reason = r\<rparr>"

text \<open>\<open>fs_resolve base raw\<close> are the components of \<open>(base / raw).resolve()\<close>; \<open>fs_read\<close> is the text,
  or the message of the error that reading it raised.\<close>

record file_system =
  fs_resolve :: "string \<Rightarrow> string \<Rightarrow> string list"
  fs_exists :: "string list \<Rightarrow> bool"
  fs_is_file :: "string list \<Rightarrow> bool"
  fs_size :: "string list \<Rightarrow> int"
  fs_read :: "string list \<Rightarrow> string + string"

definition safe_path :: "file_system \<Rightarrow> string \<Rightarrow> string \<Rightarrow> string list result" where
  "safe_path fs root_dir raw =
     (let base = fs_resolve fs (if root_dir = [] then ''.'' else root_dir) [];
          candidate = fs_resolve fs (if root_dir = [] then ''.'' else root_dir) raw
      in if take (length base) candidate = base then Inr candidate
         else Inl (ToolExecutionError ''verifier'' (''path '' @ repr_str raw @ '' escapes the allowed root'')))"

subsection \<open>The strategies\<close>

type_synonym check = "target \<Rightarrow> json \<Rightarrow> finding result"
type_synonym 'v strategy = "target \<Rightarrow> json \<Rightarrow> 'v \<Rightarrow> finding result \<times> 'v"

text \<open>\<open>params.get(key)\<close>: only a dict has the method.\<close>

definition params_get :: "json \<Rightarrow> string \<Rightarrow> json option result" where
  "params_get params key =
     (case params of
        JObj ms \<Rightarrow> Inr (map_of ms key)
      | v \<Rightarrow> Inl (OtherException (repr_str (type_name v) @ '' object has no attribute '' @ repr_str ''get'')))"

definition command_results :: check where
  "command_results tg params =
     (if tg_results tg = [] then Inr (finding_of None [] ''no tool results to inspect'')
      else
        let failures = filter (\<lambda>r. \<not> tr_success r) (tg_results tg);
            total = int_text (int (length (tg_results tg)))
        in if failures \<noteq> []
           then Inr (finding_of (Some False)
                  (map (\<lambda>r. tr_tool_call_id r @ '': '' @ error_or ''failed'' (tr_error r)) failures)
                  (int_text (int (length failures)) @ ''/'' @ total @ '' tool calls failed''))
           else
             let passed = Inr (finding_of (Some True) [total @ '' tool calls succeeded'']
                   ''all observed tool calls succeeded'')
             in bind_result (params_get params ''expect_in_output'') (\<lambda>got. case got of
                  None \<Rightarrow> passed
                | Some v \<Rightarrow>
                    if \<not> truthy v then passed
                    else (case v of
                      JStr expected \<Rightarrow>
                        let missing = map tr_tool_call_id
                              (filter (\<lambda>r. \<not> str_in expected (output_text (tr_output r))) (tg_results tg))
                        in if missing = [] then passed
                           else Inr (finding_of (Some False)
                                  (map (\<lambda>cid. cid @ '': output lacks '' @ repr_str expected) missing)
                                  ''output does not satisfy completion criteria'')
                    | _ \<Rightarrow> Inl (OtherException (repr_str ''in <string>''
                             @ '' requires string as left operand, not '' @ type_name v)))))"

definition str_items :: "json list \<Rightarrow> string list" where
  "str_items xs = concat (map (\<lambda>x. case x of JStr s \<Rightarrow> [s] | _ \<Rightarrow> []) xs)"

text \<open>The items a \<open>for\<close> over the parameter yields; only a string can be joined to the root.\<close>

fun path_items :: "json \<Rightarrow> json list result" where
  "path_items (JList xs) = Inr xs"
| "path_items (JStr s) = Inr (map (\<lambda>c. JStr [c]) s)"
| "path_items (JObj ms) = Inr (map (\<lambda>(k, _). JStr k) ms)"
| "path_items v = Inl (OtherException (repr_str (type_name v) @ '' object is not iterable''))"

fun missing_paths :: "file_system \<Rightarrow> string \<Rightarrow> json list \<Rightarrow> string list result" where
  "missing_paths fs root_dir [] = Inr []"
| "missing_paths fs root_dir (JStr p # ps) =
     bind_result (safe_path fs root_dir p) (\<lambda>c.
     bind_result (missing_paths fs root_dir ps) (\<lambda>rest.
       Inr (if fs_exists fs c then rest else p # rest)))"
| "missing_paths fs root_dir (v # ps) = Inl (OtherException ''unsupported operand type(s) for /'')"

definition artifact_exists :: "file_system \<Rightarrow> check" where
  "artifact_exists fs tg params =
     bind_result (params_get params ''paths'') (\<lambda>got.
      let paths = (case got of None \<Rightarrow> JList [] | Some v \<Rightarrow> v) in
      if \<not> truthy paths then Inr (finding_of None [] ''no expected paths specified'')
      else
        bind_result (path_items paths) (\<lambda>ps.
        bind_result (missing_paths fs (tg_root tg) ps) (\<lambda>missing.
          Inr (if missing \<noteq> []
               then finding_of (Some False) (map (\<lambda>p. ''missing: '' @ p) missing)
                      ''expected artifact does not exist despite successful execution''
               else finding_of (Some True) (map (\<lambda>p. ''exists: '' @ p) (str_items ps))
                      ''all expected artifacts exist''))))"

text \<open>The members of the parameters, once \<open>params.get\<close> has answered.\<close>

definition dict_of :: "json \<Rightarrow> arguments" where
  "dict_of params = (case params of JObj ms \<Rightarrow> ms | _ \<Rightarrow> [])"

text \<open>\<open>int(...)\<close> of a JSON value; the texts of numbers \<open>int\<close> parses are a parameter.\<close>

definition to_int :: "(string \<Rightarrow> int option) \<Rightarrow> json \<Rightarrow> int result" where
  "to_int parse v =
     (case v of
        JInt i \<Rightarrow> Inr i
      | JBool b \<Rightarrow> Inr (if b then 1 else 0)
      | JStr s \<Rightarrow> (case parse s of None \<Rightarrow> Inl (OtherException (''invalid literal for int() with base 10: '' @ repr_str s))
                  | Some i \<Rightarrow> Inr i)
      | JFloat t \<Rightarrow> (case parse t of None \<Rightarrow> Inl (OtherException ''cannot convert float to integer'')
                  | Some i \<Rightarrow> Inr i)
      | _ \<Rightarrow> Inl (OtherException (''int() argument must be a string, a bytes-like object or a real number, not ''
               @ repr_str (type_name v))))"

definition artifact_properties :: "(string \<Rightarrow> int option) \<Rightarrow> file_system \<Rightarrow> check" where
  "artifact_properties parse fs tg params =
     bind_result (params_get params ''path'') (\<lambda>got.
      let pv = (case got of None \<Rightarrow> JStr [] | Some v \<Rightarrow> v); get = dict_of params in
      if \<not> truthy pv then Inr (finding_of None [] ''no path specified'')
      else case pv of
        JStr path \<Rightarrow>
          bind_result (safe_path fs (tg_root tg) path) (\<lambda>c.
            if \<not> fs_is_file fs c
            then Inr (finding_of (Some False) [''not a file: '' @ path] ''expected file is absent'')
            else
              bind_result (to_int parse (case map_of get ''min_bytes'' of None \<Rightarrow> JInt 1 | Some v \<Rightarrow> v))
              (\<lambda>min_bytes.
                let size = fs_size fs c in
                if size < min_bytes
                then Inr (finding_of (Some False)
                       [path @ '': '' @ int_text size @ '' bytes < '' @ int_text min_bytes @ '' minimum'']
                       ''artifact is missing or corrupt'')
                else
                  let evidence = [path @ '': '' @ int_text size @ '' bytes''];
                      satisfied = ''artifact properties satisfied''
                  in case map_of get ''contains'' of
                       None \<Rightarrow> Inr (finding_of (Some True) evidence satisfied)
                     | Some v \<Rightarrow>
                         if \<not> truthy v then Inr (finding_of (Some True) evidence satisfied)
                         else (case fs_read fs c of
                           Inl e \<Rightarrow> Inr (finding_of (Some False) [path @ '': unreadable ('' @ e @ '')'']
                                      ''artifact is corrupt'')
                         | Inr content \<Rightarrow>
                             (case v of
                                JStr expected \<Rightarrow>
                                  if \<not> str_in expected content
                                  then Inr (finding_of (Some False) [path @ '': lacks '' @ repr_str expected]
                                         ''artifact does not satisfy completion criteria'')
                                  else Inr (finding_of (Some True)
                                         (evidence @ [path @ '': contains '' @ repr_str expected]) satisfied)
                              | _ \<Rightarrow> Inl (OtherException (repr_str ''in <string>''
                                       @ '' requires string as left operand, not '' @ type_name v))))))
      | _ \<Rightarrow> Inl (OtherException ''unsupported operand type(s) for /''))"

text \<open>The command runs through the registry and the tool runner; \<open>run\<close> is their effect on the
  world: the result, or the exception of \<open>build_call\<close>.\<close>

definition test_outcome :: "tool_result \<Rightarrow> finding" where
  "test_outcome r =
     (if prefix ''denied:'' (lower_str (error_or [] (tr_error r)))
      then finding_of None [''test command was denied by policy'']
             ''cannot determine test outcome; command not authorized''
      else if tr_success r
      then finding_of (Some True) [''test output: '' @ take 500 (str_json (tr_output r))]
             ''test command passed''
      else finding_of (Some False)
             [''test failed: '' @ error_or (str_json (tr_output r)) (tr_error r)]
             ''test command reported failure'')"

definition test_command ::
  "(string \<Rightarrow> arguments \<Rightarrow> 'v \<Rightarrow> tool_result result \<times> 'v) \<Rightarrow> 'v strategy" where
  "test_command run tg params w =
     (case params_get params ''command'' of
        Inl e \<Rightarrow> (Inl e, w)
      | Inr None \<Rightarrow> (Inr (finding_of None [] ''no test command specified''), w)
      | Inr (Some v) \<Rightarrow>
          if \<not> truthy v then (Inr (finding_of None [] ''no test command specified''), w)
          else (case run (tg_task_id tg) [(''command'', v)] w of
                  (Inl e, w') \<Rightarrow> (Inl e, w')
                | (Inr r, w') \<Rightarrow> (Inr (test_outcome r), w')))"

subsection \<open>Verifier\<close>

type_synonym 'v strategies = "(string \<times> 'v strategy) list"

definition only_looks :: "check \<Rightarrow> 'v strategy" where
  "only_looks f tg params w = (f tg params, w)"

definition new_verifier :: "(string \<Rightarrow> int option) \<Rightarrow> file_system \<Rightarrow> 'v strategies \<Rightarrow> 'v strategies" where
  "new_verifier parse fs extra = fold (\<lambda>(k, s) d. dict_set k s d) extra
     [(''command_results'', only_looks command_results), (''artifact_exists'', only_looks (artifact_exists fs)),
      (''artifact_properties'', only_looks (artifact_properties parse fs))]"

definition with_test_command ::
  "(string \<Rightarrow> arguments \<Rightarrow> 'v \<Rightarrow> tool_result result \<times> 'v) \<Rightarrow> 'v strategies \<Rightarrow> 'v strategies" where
  "with_test_command run ss = dict_set ''test_command'' (test_command run) ss"

definition strategy_names :: "'v strategies \<Rightarrow> string list" where
  "strategy_names ss = sort_key id (keys ss)"

definition verdict ::
  "'v strategies \<Rightarrow> string \<Rightarrow> string \<Rightarrow> verification_status \<Rightarrow> string list \<Rightarrow> string list \<Rightarrow> string
     \<Rightarrow> verification_result" where
  "verdict ss task_id step_id status checks evidence reason =
     \<lparr>vr_task_id = task_id, vr_step_id = step_id, vr_status = status,
      vr_strategy = join_str '','' (strategy_names ss), vr_checks = checks, vr_evidence = evidence,
      vr_reason = reason\<rparr>"

text \<open>What the loop over the criteria has gathered.\<close>

record gathered =
  ga_checks :: "string list"
  ga_evidence :: "string list"
  ga_failures :: "string list"
  ga_inconclusive :: bool

definition gather :: "string \<Rightarrow> finding \<Rightarrow> gathered \<Rightarrow> gathered" where
  "gather name f ga =
     \<lparr>ga_checks = ga_checks ga @ [name @ '': '' @ fd_reason f],
      ga_evidence = ga_evidence ga @ fd_evidence f,
      ga_failures = (if fd_passed f = Some False then ga_failures ga @ [name @ '': '' @ fd_reason f]
                     else ga_failures ga),
      ga_inconclusive = (ga_inconclusive ga \<or> fd_passed f = None)\<rparr>"

text \<open>The key of a criterion's strategy: a list or a dict cannot be looked up.\<close>

definition strategy_key :: "arguments \<Rightarrow> json" where
  "strategy_key c = (case map_of c ''strategy'' of None \<Rightarrow> JStr [] | Some v \<Rightarrow> v)"

definition unhashable :: "json \<Rightarrow> bool" where
  "unhashable v = (case v of JList _ \<Rightarrow> True | JObj _ \<Rightarrow> True | _ \<Rightarrow> False)"

definition lookup_strategy :: "'v strategies \<Rightarrow> json \<Rightarrow> 'v strategy option" where
  "lookup_strategy ss v = (case v of JStr name \<Rightarrow> map_of ss name | _ \<Rightarrow> None)"

text \<open>\<open>strategy.check(target, criterion.get("params", {}))\<close>.\<close>

definition run_check :: "'v strategy \<Rightarrow> target \<Rightarrow> arguments \<Rightarrow> 'v \<Rightarrow> finding result \<times> 'v" where
  "run_check strategy tg c w =
     strategy tg (case map_of c ''params'' of None \<Rightarrow> JObj [] | Some v \<Rightarrow> v) w"

definition concluded ::
  "'v strategies \<Rightarrow> string \<Rightarrow> string \<Rightarrow> gathered \<Rightarrow> verification_result" where
  "concluded ss task_id step_id ga =
     (if ga_failures ga \<noteq> []
      then verdict ss task_id step_id VS_FAILED (ga_checks ga) (ga_evidence ga)
             (join_str ''; '' (ga_failures ga))
      else if ga_inconclusive ga
      then verdict ss task_id step_id VS_INCONCLUSIVE (ga_checks ga) (ga_evidence ga)
             ''some checks could not be determined''
      else verdict ss task_id step_id VS_PASSED (ga_checks ga) (ga_evidence ga)
             ''all completion criteria satisfied'')"

fun verify_loop ::
  "(real \<Rightarrow> string) \<Rightarrow> 'v strategies \<Rightarrow> string \<Rightarrow> string \<Rightarrow> target \<Rightarrow> arguments list \<Rightarrow> nat \<Rightarrow> gathered
     \<Rightarrow> 'v \<Rightarrow> verification_result result \<times> 'v" where
  "verify_loop fl ss task_id step_id tg [] index ga w = (Inr (concluded ss task_id step_id ga), w)"
| "verify_loop fl ss task_id step_id tg (c # cs) index ga w =
     (let key = strategy_key c in
      if unhashable key
      then (Inl (OtherException (''unhashable type: '' @ repr_str (type_name key))), w)
      else case lookup_strategy ss key of
        None \<Rightarrow> (Inr (verdict ss task_id step_id VS_ERROR (ga_checks ga) (ga_evidence ga)
                 (''criterion '' @ int_text (int index) @ '': unknown strategy '' @ repr_json key)), w)
      | Some strategy \<Rightarrow>
          (case run_check strategy tg c w of
             (Inl e, w') \<Rightarrow> (Inr (verdict ss task_id step_id VS_ERROR (ga_checks ga) (ga_evidence ga)
                 (''criterion '' @ int_text (int index) @ '' ('' @ str_json key @ '') raised: ''
                   @ exn_text fl e)), w')
           | (Inr f, w') \<Rightarrow>
               verify_loop fl ss task_id step_id tg cs (Suc index) (gather (str_json key) f ga) w'))"

definition verify ::
  "(real \<Rightarrow> string) \<Rightarrow> 'v strategies \<Rightarrow> string \<Rightarrow> string \<Rightarrow> tool_result list \<Rightarrow> arguments list \<Rightarrow> string
     \<Rightarrow> 'v \<Rightarrow> verification_result result \<times> 'v" where
  "verify fl ss task_id step_id results criteria root_dir w =
     (if criteria = []
      then (Inr (verdict ss task_id step_id VS_INCONCLUSIVE [''no completion criteria to evaluate'']
             [''nothing to check''] ''no criteria supplied''), w)
      else verify_loop fl ss task_id step_id
             \<lparr>tg_results = results, tg_root = root_dir, tg_task_id = task_id\<rparr> criteria 0
             \<lparr>ga_checks = [], ga_evidence = [], ga_failures = [], ga_inconclusive = False\<rparr> w)"

subsection \<open>The verdict\<close>

text \<open>
  The outcomes of the criteria, one after the other, each in the world the one before it left: what
  the strategy found, \<open>None\<close> when it is unknown or raises, which is where the checks end.
\<close>

fun outcomes :: "'v strategies \<Rightarrow> target \<Rightarrow> arguments list \<Rightarrow> 'v \<Rightarrow> finding option list \<times> 'v" where
  "outcomes ss tg [] w = ([], w)"
| "outcomes ss tg (c # cs) w =
     (case lookup_strategy ss (strategy_key c) of
        None \<Rightarrow> ([None], w)
      | Some strategy \<Rightarrow>
          (case run_check strategy tg c w of
             (Inl _, w') \<Rightarrow> ([None], w')
           | (Inr f, w') \<Rightarrow> (case outcomes ss tg cs w' of (os, w2) \<Rightarrow> (Some f # os, w2))))"

definition marks :: "finding option list \<Rightarrow> bool option option set" where
  "marks os = set (map (map_option fd_passed) os)"

definition expected_status :: "finding option list \<Rightarrow> verification_status" where
  "expected_status os =
     (if None \<in> marks os then VS_ERROR
      else if Some (Some False) \<in> marks os then VS_FAILED
      else if Some None \<in> marks os then VS_INCONCLUSIVE
      else VS_PASSED)"

lemma marks_simps [simp]:
  "marks [] = {}" "marks (None # os) = insert None (marks os)"
  "marks (Some f # os) = insert (Some (fd_passed f)) (marks os)"
  by (simp_all add: marks_def)

lemma vr_status_verdict [simp]: "vr_status (verdict ss t s st c e r) = st"
  by (simp add: verdict_def)

lemma vr_status_concluded [simp]:
  "vr_status (concluded ss t s ga) =
     (if ga_failures ga \<noteq> [] then VS_FAILED else if ga_inconclusive ga then VS_INCONCLUSIVE else VS_PASSED)"
  by (simp add: concluded_def)

lemma gather_marks [simp]:
  "ga_failures (gather n f ga) = [] \<longleftrightarrow> ga_failures ga = [] \<and> fd_passed f \<noteq> Some False"
  "ga_inconclusive (gather n f ga) \<longleftrightarrow> ga_inconclusive ga \<or> fd_passed f = None"
  by (auto simp: gather_def)

lemma verify_loop_status:
  assumes "\<forall>c \<in> set cs. \<not> unhashable (strategy_key c)" "outcomes ss tg cs w = (os, w')"
  shows "\<exists>r. verify_loop fl ss tid sid tg cs i ga w = (Inr r, w') \<and> vr_status r =
    (if None \<in> marks os then VS_ERROR
     else if ga_failures ga \<noteq> [] \<or> Some (Some False) \<in> marks os then VS_FAILED
     else if ga_inconclusive ga \<or> Some None \<in> marks os then VS_INCONCLUSIVE
     else VS_PASSED)"
  using assms
proof (induction cs arbitrary: i ga w os)
  case Nil
  then show ?case by simp
next
  case (Cons c cs)
  let ?k = "strategy_key c"
  have nk: "\<not> unhashable ?k" using Cons.prems(1) by simp
  show ?case
  proof (cases "lookup_strategy ss ?k")
    case None
    then show ?thesis using nk Cons.prems(2) by (auto simp: Let_def)
  next
    case (Some strategy)
    obtain x w1 where x: "run_check strategy tg c w = (x, w1)" by fastforce
    show ?thesis
    proof (cases x)
      case (Inl e)
      then show ?thesis using nk Some x Cons.prems(2) by (auto simp: Let_def)
    next
      case (Inr f)
      with Some x Cons.prems(2) obtain os' where os: "outcomes ss tg cs w1 = (os', w')" "os = Some f # os'"
        by (auto split: prod.splits)
      have step: "verify_loop fl ss tid sid tg (c # cs) i ga w
          = verify_loop fl ss tid sid tg cs (Suc i) (gather (str_json ?k) f ga) w1"
        using nk Some x Inr by (simp add: Let_def)
      have "\<forall>c \<in> set cs. \<not> unhashable (strategy_key c)" using Cons.prems(1) by simp
      from Cons.IH [OF this os(1), of "Suc i" "gather (str_json ?k) f ga"]
      obtain r where r: "verify_loop fl ss tid sid tg cs (Suc i) (gather (str_json ?k) f ga) w1 = (Inr r, w')"
        "vr_status r = (if None \<in> marks os' then VS_ERROR
           else if ga_failures (gather (str_json ?k) f ga) \<noteq> [] \<or> Some (Some False) \<in> marks os' then VS_FAILED
           else if ga_inconclusive (gather (str_json ?k) f ga) \<or> Some None \<in> marks os' then VS_INCONCLUSIVE
           else VS_PASSED)" by blast
      consider "fd_passed f = None" | "fd_passed f = Some True" | "fd_passed f = Some False"
        by (cases "fd_passed f") auto
      then have "vr_status r = (if None \<in> marks os then VS_ERROR
          else if ga_failures ga \<noteq> [] \<or> Some (Some False) \<in> marks os then VS_FAILED
          else if ga_inconclusive ga \<or> Some None \<in> marks os then VS_INCONCLUSIVE else VS_PASSED)"
        unfolding r(2) os(2) gather_marks marks_simps by cases simp_all
      with step r(1) show ?thesis by simp
    qed
  qed
qed

lemma outcomes_length:
  "outcomes ss tg cs w = (os, w') \<Longrightarrow> None \<notin> marks os \<Longrightarrow> length os = length cs"
  by (induction cs arbitrary: w os) (auto split: option.splits sum.splits prod.splits)

lemma passed_iff:
  "expected_status os = VS_PASSED \<longleftrightarrow> (\<forall>x \<in> set os. map_option fd_passed x = Some (Some True))"
proof -
  have y: "y = Some (Some True) \<longleftrightarrow> y \<noteq> None \<and> y \<noteq> Some None \<and> y \<noteq> Some (Some False)"
    for y :: "bool option option"
    by (metis (full_types) not_None_eq option.inject)
  have "expected_status os = VS_PASSED \<longleftrightarrow> None \<notin> marks os \<and> Some None \<notin> marks os \<and> Some (Some False) \<notin> marks os"
    by (simp add: expected_status_def)
  also have "\<dots> \<longleftrightarrow> (\<forall>y \<in> marks os. y = Some (Some True))" unfolding y by metis
  finally show ?thesis by (simp add: marks_def)
qed

text \<open>
  C33: The verdict is decided by what the criteria find, each checked in the world the one before it
  left. When every criterion names its strategy by a value that can be a key, \<open>verify\<close> returns a
  result; an unknown or raising strategy makes it \<open>ERROR\<close> whatever else failed, then a failed check
  \<open>FAILED\<close>, then an undetermined one \<open>INCONCLUSIVE\<close>, which is also the answer to no criteria; it is
  \<open>PASSED\<close> exactly when there are criteria and every one of them was checked and passed. A criterion
  whose strategy is a list or a dict makes \<open>verify\<close> raise.
\<close>

theorem verdict_exact:
  fixes criteria :: "arguments list" and results :: "tool_result list" and tid root_dir :: string
  defines "tg \<equiv> \<lparr>tg_results = results, tg_root = root_dir, tg_task_id = tid\<rparr>"
  shows "((\<forall>c \<in> set criteria. \<not> unhashable (strategy_key c)) \<longrightarrow>
      (\<exists>r os w'. outcomes ss tg criteria w = (os, w')
        \<and> verify fl ss tid sid results criteria root_dir w = (Inr r, w')
        \<and> vr_status r = (if criteria = [] then VS_INCONCLUSIVE else expected_status os)
        \<and> (vr_status r = VS_PASSED \<longleftrightarrow> criteria \<noteq> [] \<and> length os = length criteria
             \<and> (\<forall>x \<in> set os. map_option fd_passed x = Some (Some True)))))
    \<and> (unhashable (strategy_key c) \<longrightarrow>
      (\<exists>e. verify fl ss tid sid results (c # criteria) root_dir w = (Inl e, w)))"
proof -
  have "\<exists>r os w'. outcomes ss tg criteria w = (os, w')
        \<and> verify fl ss tid sid results criteria root_dir w = (Inr r, w')
        \<and> vr_status r = (if criteria = [] then VS_INCONCLUSIVE else expected_status os)
        \<and> (vr_status r = VS_PASSED \<longleftrightarrow> criteria \<noteq> [] \<and> length os = length criteria
             \<and> (\<forall>x \<in> set os. map_option fd_passed x = Some (Some True)))"
    if ok: "\<forall>c \<in> set criteria. \<not> unhashable (strategy_key c)"
  proof (cases "criteria = []")
    case True
    then show ?thesis by (simp add: verify_def)
  next
    case False
    obtain os w' where os: "outcomes ss tg criteria w = (os, w')" by fastforce
    from verify_loop_status [OF ok os, of fl tid sid 0
        "\<lparr>ga_checks = [], ga_evidence = [], ga_failures = [], ga_inconclusive = False\<rparr>"] False
    obtain r where r: "verify fl ss tid sid results criteria root_dir w = (Inr r, w')"
        "vr_status r = expected_status os"
      by (auto simp: verify_def expected_status_def tg_def cong: if_cong)
    have "length os = length criteria" if "expected_status os = VS_PASSED"
      using outcomes_length [OF os] that by (simp add: expected_status_def split: if_splits)
    with r os False passed_iff [of os] show ?thesis by auto
  qed
  then show ?thesis by (simp add: verify_def Let_def)
qed

definition no_files :: file_system where
  "no_files = \<lparr>fs_resolve = (\<lambda>_ _. []), fs_exists = (\<lambda>_. False), fs_is_file = (\<lambda>_. False),
     fs_size = (\<lambda>_. 0), fs_read = (\<lambda>_. Inr [])\<rparr>"

definition builtin :: "unit strategies" where
  "builtin = new_verifier (\<lambda>_. None) no_files []"

lemma verdict_exact_witness:
  "\<exists>r. verify (\<lambda>_. []) builtin ''t1'' ''s1'' [ok_result] [[(''strategy'', JStr ''command_results'')]] [] () = (Inr r, ())
   \<and> vr_status r = VS_PASSED"
proof -
  let ?cs = "[[(''strategy'', JStr ''command_results'')]] :: arguments list"
  have h: "\<forall>c \<in> set ?cs. \<not> unhashable (strategy_key c)"
    by (simp add: strategy_key_def unhashable_def)
  have "expected_status (fst (outcomes builtin \<lparr>tg_results = [ok_result], tg_root = [], tg_task_id = ''t1''\<rparr> ?cs ()))
      = VS_PASSED"
    by code_simp
  moreover obtain r os where "outcomes builtin \<lparr>tg_results = [ok_result], tg_root = [], tg_task_id = ''t1''\<rparr> ?cs () = (os, ())"
      "verify (\<lambda>_. []) builtin ''t1'' ''s1'' [ok_result] ?cs [] () = (Inr r, ())" "vr_status r = expected_status os"
    using conjunct1 [OF verdict_exact [of ?cs "builtin" "[ok_result]" "[]" "''t1''" "()" "\<lambda>_. []" "''s1''"],
        THEN mp, OF h] by auto
  ultimately show ?thesis by (simp del: outcomes.simps)
qed

text \<open>
  A criterion whose parameters are \<open>null\<close>: without tool results the strategy answers before it asks
  for them, with a result it raises.
\<close>

definition status_of :: "verification_result result \<times> 'v \<Rightarrow> verification_status option" where
  "status_of x = (case fst x of Inr r \<Rightarrow> Some (vr_status r) | Inl _ \<Rightarrow> None)"

lemma null_params:
  "status_of (verify (\<lambda>_. []) builtin [] [] [] [[(''strategy'', JStr ''command_results''), (''params'', JNull)]] [] ())
     = Some VS_INCONCLUSIVE"
  "status_of (verify (\<lambda>_. []) builtin [] [] [ok_result]
     [[(''strategy'', JStr ''command_results''), (''params'', JNull)]] [] ()) = Some VS_ERROR"
  by code_simp+

end
