(* ===== verification/Recovery.thy ===== *)
theory Recovery
  imports Executor Policy Verifier
begin

text \<open>
  Recovery (\<^verbatim>\<open>agent/recovery/\<close>): classification of failures, the policy that maps a class to an
  action, vetting of replacement plans, escalation, and the engine's bounded
  execute/verify/recover loop. The two callables the engine drives are functions of the number of
  calls made before, so that each call may answer differently; the plan's version hash, the
  provider of replacement plans and path resolution are parameters.
\<close>

section \<open>Classification\<close>

datatype failure_class =
    FC_TRANSIENT | FC_TIMEOUT | FC_TOOL_FAILURE | FC_PERMISSION_FAILURE | FC_MODEL_FAILURE
  | FC_DEPENDENCY_FAILURE | FC_VERIFICATION_FAILURE | FC_LOGICAL_FAILURE | FC_UNKNOWN

fun class_value :: "failure_class \<Rightarrow> string" where
  "class_value FC_TRANSIENT = ''TRANSIENT''"
| "class_value FC_TIMEOUT = ''TIMEOUT''"
| "class_value FC_TOOL_FAILURE = ''TOOL_FAILURE''"
| "class_value FC_PERMISSION_FAILURE = ''PERMISSION_FAILURE''"
| "class_value FC_MODEL_FAILURE = ''MODEL_FAILURE''"
| "class_value FC_DEPENDENCY_FAILURE = ''DEPENDENCY_FAILURE''"
| "class_value FC_VERIFICATION_FAILURE = ''VERIFICATION_FAILURE''"
| "class_value FC_LOGICAL_FAILURE = ''LOGICAL_FAILURE''"
| "class_value FC_UNKNOWN = ''UNKNOWN''"

record classification =
  cl_class :: failure_class
  cl_detail :: string
  cl_source :: string

definition classified :: "failure_class \<Rightarrow> string \<Rightarrow> string \<Rightarrow> classification" where
  "classified c d s = \<lparr>cl_class = c, cl_detail = d, cl_source = s\<rparr>"

definition transient_markers :: "string list" where
  "transient_markers = [''transient'', ''temporary'', ''try again'', ''connection reset'',
     ''connection refused'', ''unavailable'']"

definition classify_tool_result :: "tool_result \<Rightarrow> classification" where
  "classify_tool_result r =
     (let raw = error_or [] (tr_error r); err = lower_str raw in
      if str_in ''denied'' err then classified FC_PERMISSION_FAILURE raw ''tool_result''
      else if str_in ''timed out'' err then classified FC_TIMEOUT raw ''tool_result''
      else if \<exists>m \<in> set transient_markers. str_in m err then classified FC_TRANSIENT raw ''tool_result''
      else classified FC_TOOL_FAILURE (error_or ''tool failed'' (tr_error r)) ''tool_result'')"

definition classify_verification :: "verification_result \<Rightarrow> classification" where
  "classify_verification v =
     (if vr_status v = VS_FAILED then classified FC_VERIFICATION_FAILURE (vr_reason v) ''verification''
      else classified FC_UNKNOWN (''verification ended '' @ verification_value (vr_status v) @ '': ''
             @ vr_reason v) ''verification'')"

definition classify_exception :: "(real \<Rightarrow> string) \<Rightarrow> exn \<Rightarrow> classification" where
  "classify_exception fl e =
     classified (case e of
         AuthorizationDeniedError _ _ _ \<Rightarrow> FC_PERMISSION_FAILURE
       | ToolTimeoutError _ _ \<Rightarrow> FC_TIMEOUT
       | ModelError _ \<Rightarrow> FC_MODEL_FAILURE
       | PlanValidationError _ \<Rightarrow> FC_LOGICAL_FAILURE
       | _ \<Rightarrow> FC_UNKNOWN) (exn_text fl e) ''exception''"

section \<open>Policy\<close>

datatype recovery_action = RA_RETRY | RA_REPLAN | RA_SKIP | RA_ESCALATE | RA_FAIL

record retry_policy =
  rp_max_attempts :: int
  rp_base_delay :: real
  rp_max_delay :: real

definition delay_for :: "retry_policy \<Rightarrow> int \<Rightarrow> real" where
  "delay_for rp attempt =
     (if attempt < 1 then 0 else min (rp_base_delay rp * 2 ^ nat (attempt - 1)) (rp_max_delay rp))"

definition retryable :: "failure_class list" where
  "retryable = [FC_TIMEOUT, FC_TRANSIENT, FC_TOOL_FAILURE, FC_MODEL_FAILURE]"

definition should_retry :: "retry_policy \<Rightarrow> classification \<Rightarrow> int \<Rightarrow> bool" where
  "should_retry rp c used =
     (if cl_class c = FC_PERMISSION_FAILURE then False
      else if cl_class c \<in> set retryable then used < rp_max_attempts rp
      else False)"

record recovery_policy =
  rc_retries :: retry_policy
  rc_max_replans :: int
  rc_overrides :: "(failure_class \<times> recovery_action) list"

definition action_for :: "recovery_policy \<Rightarrow> classification \<Rightarrow> int \<Rightarrow> int \<Rightarrow> recovery_action" where
  "action_for po c retries_used replans_used =
     (case map_of (rc_overrides po) (cl_class c) of
        Some a \<Rightarrow> a
      | None \<Rightarrow>
          if cl_class c = FC_PERMISSION_FAILURE then RA_ESCALATE
          else if cl_class c \<in> set retryable
          then (if should_retry (rc_retries po) c retries_used then RA_RETRY else RA_ESCALATE)
          else if cl_class c = FC_VERIFICATION_FAILURE
          then (if replans_used < rc_max_replans po then RA_REPLAN else RA_ESCALATE)
          else RA_FAIL)"

text \<open>Without overrides permission failures are escalated and the budgets are kept; an override
  decides whatever the class and the budgets say.\<close>

lemma action_for_budgets:
  assumes "rc_overrides po = []"
  shows "action_for po c used replans = RA_RETRY \<Longrightarrow>
      cl_class c \<in> set retryable \<and> used < rp_max_attempts (rc_retries po)"
    and "action_for po c used replans = RA_REPLAN \<Longrightarrow>
      cl_class c = FC_VERIFICATION_FAILURE \<and> replans < rc_max_replans po"
  using assms by (auto simp: action_for_def should_retry_def split: if_splits)

lemma override_retries_permission_failures:
  "action_for \<lparr>rc_retries = rp, rc_max_replans = n, rc_overrides = [(FC_PERMISSION_FAILURE, RA_RETRY)]\<rparr>
     (classified FC_PERMISSION_FAILURE d s) used replans = RA_RETRY"
  by (simp add: action_for_def classified_def)

section \<open>Replacement plans\<close>

record recovery_planner =
  pl_registry :: "handler registry"
  pl_allow_shells :: bool
  pl_policy :: policy
  pl_provider :: "(nat \<Rightarrow> string \<Rightarrow> plan \<Rightarrow> string \<Rightarrow> plan result) option"
  pl_agent_id :: string

definition bare_call :: "string \<Rightarrow> string \<Rightarrow> tool_call" where
  "bare_call task_id name = \<lparr>tc_id = [], tc_task_id = task_id, tc_tool = name, tc_arguments = [],
     tc_status = TC_REQUESTED\<rparr>"

text \<open>The risk and policy check of one named tool of a candidate.\<close>

definition vet_tool :: "resolver \<Rightarrow> recovery_planner \<Rightarrow> string \<Rightarrow> string \<Rightarrow> unit result" where
  "vet_tool rp pl task_id name =
     (case reg_get name (pl_registry pl) of
        None \<Rightarrow> Inl (PlanValidationError (''unknown tool '' @ repr_str name))
      | Some t \<Rightarrow>
          let ra = assess rp (pl_allow_shells pl) task_id t (bare_call task_id name)
                     \<lparr>rc_agent_id = pl_agent_id pl, rc_environment = ''local'', rc_root = []\<rparr>;
              (granted, why) = evaluate (pl_policy pl) ra name (pl_agent_id pl)
          in if granted then Inr () else Inl (AuthorizationDeniedError task_id name why))"

fun vet_tools :: "resolver \<Rightarrow> recovery_planner \<Rightarrow> string \<Rightarrow> string list \<Rightarrow> unit result" where
  "vet_tools rp pl task_id [] = Inr ()"
| "vet_tools rp pl task_id (n # ns) =
     bind_result (vet_tool rp pl task_id n) (\<lambda>_. vet_tools rp pl task_id ns)"

definition known_tools :: "recovery_planner \<Rightarrow> string list" where
  "known_tools pl = map tool_name (list_tools (pl_registry pl))"

definition request_replan ::
  "resolver \<Rightarrow> (plan \<Rightarrow> string) \<Rightarrow> recovery_planner \<Rightarrow> nat \<Rightarrow> string \<Rightarrow> plan \<Rightarrow> string \<Rightarrow> string list
     \<Rightarrow> plan result" where
  "request_replan rp version pl k task_id failed reason seen =
     (case pl_provider pl of
        None \<Rightarrow> Inl (PlanValidationError ''no replan provider configured'')
      | Some provider \<Rightarrow>
          bind_result (provider k task_id failed reason) (\<lambda>candidate.
            if version candidate \<in> set seen
            then Inl (PlanValidationError
                   ''replacement plan identical to a previous version (replan loop)'')
            else
              bind_result (validate_plan (new_plan_validator (known_tools pl) [] [] 50 (64 * 1024)) candidate)
                (\<lambda>_. bind_result (vet_tools rp pl task_id (concat (map ps_tools (plan_steps candidate))))
                  (\<lambda>_. Inr candidate))))"

section \<open>The engine\<close>

datatype outcome_status = RO_RECOVERED | RO_FAILED | RO_ESCALATED | RO_PARTIAL

record recovery_record =
  rr_attempt :: nat
  rr_class :: failure_class
  rr_action :: recovery_action
  rr_reason :: string
  rr_verification :: string

record recovery_outcome =
  ro_task_id :: string
  ro_status :: outcome_status
  ro_attempts :: nat
  ro_retries :: nat
  ro_replans :: nat
  ro_versions :: "string list"
  ro_audit :: "recovery_record list"
  ro_verification :: "verification_result option"
  ro_reason :: string

record escalation =
  es_task_id :: string
  es_reason :: string
  es_evidence :: "string list"

definition escalate_to ::
  "string \<Rightarrow> string \<Rightarrow> string list \<Rightarrow> escalation list \<Rightarrow> escalation list" where
  "escalate_to task_id reason evidence es =
     es @ [\<lparr>es_task_id = task_id, es_reason = reason, es_evidence = evidence\<rparr>]"

text \<open>The local variables of the loop, with the escalations recorded so far.\<close>

record engine_state =
  en_current :: plan
  en_result :: "exec_result option"
  en_verification :: "verification_result option"
  en_executions :: nat
  en_retries :: nat
  en_replans :: nat
  en_versions :: "string list"
  en_audit :: "recovery_record list"
  en_escalations :: "escalation list"

record engine =
  eg_task_id :: string
  eg_policy :: recovery_policy
  eg_planner :: "recovery_planner option"
  eg_max_attempts :: int
  eg_execute :: "nat \<Rightarrow> plan \<Rightarrow> exec_result result"
  eg_verify :: "nat \<Rightarrow> plan \<Rightarrow> exec_result \<Rightarrow> verification_result result"
  eg_version :: "plan \<Rightarrow> string"
  eg_resolve :: resolver
  eg_float :: "real \<Rightarrow> string"

definition all_tool_results :: "exec_result \<Rightarrow> tool_result list" where
  "all_tool_results r = concat (map (\<lambda>(i, _). case map_of (xr_results r) i of None \<Rightarrow> [] | Some rs \<Rightarrow> rs)
     (xr_states r))"

definition classify_outcome :: "exec_result \<Rightarrow> verification_result \<Rightarrow> classification" where
  "classify_outcome r v =
     (let rs = all_tool_results r in
      case find (\<lambda>t. str_in ''denied'' (lower_str (error_or [] (tr_error t)))) rs of
        Some t \<Rightarrow> classify_tool_result t
      | None \<Rightarrow>
          if xr_timed_out r \<noteq> [] then classified FC_TIMEOUT ''step deadline exceeded'' ''execution''
          else case find (\<lambda>t. \<not> tr_success t) rs of
            Some t \<Rightarrow> classify_tool_result t
          | None \<Rightarrow>
              if xr_status r = O_FAILED
              then if xr_skipped r \<noteq> []
                   then classified FC_DEPENDENCY_FAILURE
                          (''steps skipped: '' @ join_str '', '' (xr_skipped r)) ''execution''
                   else classified FC_UNKNOWN ''execution failed'' ''execution''
              else classify_verification v)"

type_synonym engine_end = "recovery_outcome \<times> engine_state"

definition terminal ::
  "engine \<Rightarrow> outcome_status \<Rightarrow> verification_result option \<Rightarrow> string \<Rightarrow> engine_state \<Rightarrow> engine_end" where
  "terminal g status v reason s =
     (\<lparr>ro_task_id = eg_task_id g, ro_status = status, ro_attempts = en_executions s,
       ro_retries = en_retries s, ro_replans = en_replans s, ro_versions = en_versions s,
       ro_audit = en_audit s, ro_verification = v, ro_reason = reason\<rparr>, s)"

definition audited :: "recovery_record \<Rightarrow> engine_state \<Rightarrow> engine_state" where
  "audited r s = s\<lparr>en_audit := en_audit s @ [r]\<rparr>"

definition give_up :: "engine \<Rightarrow> classification \<Rightarrow> string \<Rightarrow> engine_state \<Rightarrow> engine_end" where
  "give_up g c reason s = terminal g RO_FAILED None reason
     (audited \<lparr>rr_attempt = en_executions s, rr_class = cl_class c, rr_action = RA_FAIL,
       rr_reason = reason, rr_verification = ''ERROR''\<rparr> s)"

text \<open>One turn of the loop ends the run, with an outcome or an exception, or goes on.\<close>

datatype turn = Ended "engine_end result" | Again engine_state

definition rewound :: "engine_state \<Rightarrow> engine_state" where
  "rewound s = s\<lparr>en_result := None, en_verification := None\<rparr>"

definition act ::
  "engine \<Rightarrow> classification \<Rightarrow> recovery_action \<Rightarrow> verification_result \<Rightarrow> engine_state \<Rightarrow> turn" where
  "act g c action v s =
     (case action of
        RA_RETRY \<Rightarrow> Again (rewound (s\<lparr>en_retries := Suc (en_retries s)\<rparr>))
      | RA_REPLAN \<Rightarrow>
          (case eg_planner g of
             None \<Rightarrow> Ended (Inr (terminal g RO_FAILED (Some v) ''replan requested but no planner'' s))
           | Some pl \<Rightarrow>
               (case request_replan (eg_resolve g) (eg_version g) pl (en_replans s) (eg_task_id g)
                   (en_current s) (cl_detail c) (en_versions s) of
                  Inl e \<Rightarrow>
                    (case e of
                       PlanValidationError _ \<Rightarrow>
                         let why = ''replacement plan rejected: '' @ exn_text (eg_float g) e in
                         Ended (Inr (terminal g RO_FAILED (Some v) why
                           (audited \<lparr>rr_attempt = en_executions s, rr_class = cl_class c, rr_action = RA_FAIL,
                             rr_reason = why, rr_verification = verification_value (vr_status v)\<rparr> s)))
                     | AuthorizationDeniedError _ _ _ \<Rightarrow>
                         let why = ''replacement plan rejected: '' @ exn_text (eg_float g) e in
                         Ended (Inr (terminal g RO_FAILED (Some v) why
                           (audited \<lparr>rr_attempt = en_executions s, rr_class = cl_class c, rr_action = RA_FAIL,
                             rr_reason = why, rr_verification = verification_value (vr_status v)\<rparr> s)))
                     | _ \<Rightarrow> Ended (Inl e))
                | Inr candidate \<Rightarrow>
                    Again (rewound (s\<lparr>en_replans := Suc (en_replans s),
                      en_versions := en_versions s @ [eg_version g candidate], en_current := candidate\<rparr>))))
      | RA_SKIP \<Rightarrow> Ended (Inr (terminal g RO_PARTIAL (Some v) (''skipped after '' @ class_value (cl_class c)) s))
      | RA_ESCALATE \<Rightarrow>
          Ended (Inr (terminal g RO_ESCALATED (Some v) (''escalated: '' @ cl_detail c)
            (s\<lparr>en_escalations := escalate_to (eg_task_id g) (cl_detail c)
                 [vr_reason v, verification_value (vr_status v)] (en_escalations s)\<rparr>)))
      | RA_FAIL \<Rightarrow> Ended (Inr (terminal g RO_FAILED (Some v) (''failed: '' @ cl_detail c) s)))"

definition decide_turn :: "engine \<Rightarrow> exec_result \<Rightarrow> verification_result \<Rightarrow> engine_state \<Rightarrow> turn" where
  "decide_turn g r v s =
     (if xr_status r = O_COMPLETED \<and> vr_status v = VS_PASSED
      then Ended (Inr (terminal g RO_RECOVERED (Some v) ''verification passed'' s))
      else
        let c = classify_outcome r v;
            action = action_for (eg_policy g) c (int (en_retries s)) (int (en_replans s));
            s1 = audited \<lparr>rr_attempt = en_executions s, rr_class = cl_class c, rr_action = action,
                   rr_reason = cl_detail c, rr_verification = verification_value (vr_status v)\<rparr> s
        in act g c action v s1)"

definition verify_turn :: "engine \<Rightarrow> exec_result \<Rightarrow> engine_state \<Rightarrow> turn" where
  "verify_turn g r s =
     (case en_verification s of
        Some v \<Rightarrow> decide_turn g r v s
      | None \<Rightarrow>
          (case eg_verify g (en_executions s) (en_current s) r of
             Inl e \<Rightarrow> Ended (Inr (give_up g (classify_exception (eg_float g) e)
                        (''verification raised: '' @ exn_text (eg_float g) e) s))
           | Inr v \<Rightarrow> decide_turn g r v (s\<lparr>en_verification := Some v\<rparr>)))"

definition engine_turn :: "engine \<Rightarrow> engine_state \<Rightarrow> turn" where
  "engine_turn g s =
     (case en_result s of
        Some r \<Rightarrow> verify_turn g r s
      | None \<Rightarrow>
          if int (en_executions s) \<ge> eg_max_attempts g
          then Ended (Inr (terminal g RO_FAILED (en_verification s) ''attempt budget exhausted'' s))
          else
            (case eg_execute g (en_executions s) (en_current s) of
               Inl e \<Rightarrow> Ended (Inl e)
             | Inr r \<Rightarrow>
                 let s1 = s\<lparr>en_result := Some r, en_executions := Suc (en_executions s),
                            en_verification := None\<rparr>
                 in if xr_status r = O_CANCELLED
                    then Ended (Inr (terminal g RO_FAILED None ''execution cancelled'' s1))
                    else verify_turn g r s1))"

text \<open>The budget that is left decreases with every turn that goes on.\<close>

definition turns_left :: "engine \<Rightarrow> engine_state \<Rightarrow> nat" where
  "turns_left g s = nat (eg_max_attempts g - int (en_executions s)) + (if en_result s = None then 0 else 1)"

text \<open>What going on does to the state: one more retry, or one more replan with a new version.\<close>

definition goes_on :: "engine \<Rightarrow> engine_state \<Rightarrow> engine_state \<Rightarrow> bool" where
  "goes_on g s s' \<longleftrightarrow> en_result s' = None \<and> en_verification s' = None \<and> en_executions s' = en_executions s
     \<and> (en_retries s' = Suc (en_retries s) \<and> en_replans s' = en_replans s
          \<and> en_versions s' = en_versions s
          \<and> (rc_overrides (eg_policy g) = [] \<longrightarrow> int (en_retries s) < rp_max_attempts (rc_retries (eg_policy g)))
        \<or> en_retries s' = en_retries s \<and> en_replans s' = Suc (en_replans s)
          \<and> (rc_overrides (eg_policy g) = [] \<longrightarrow> int (en_replans s) < rc_max_replans (eg_policy g))
          \<and> (\<exists>w. w \<notin> set (en_versions s) \<and> en_versions s' = en_versions s @ [w]))"

lemma request_replan_new:
  "request_replan rp version pl k tid p why seen = Inr candidate \<Longrightarrow> version candidate \<notin> set seen"
  by (auto simp: request_replan_def bind_result_Inr_iff split: option.splits if_splits)

lemma decide_turn_Again:
  assumes "decide_turn g r v s = Again s'"
  shows "goes_on g s s'"
proof -
  define c where "c = classify_outcome r v"
  define a where "a = action_for (eg_policy g) c (int (en_retries s)) (int (en_replans s))"
  define s1 where "s1 = audited \<lparr>rr_attempt = en_executions s, rr_class = cl_class c, rr_action = a,
      rr_reason = cl_detail c, rr_verification = verification_value (vr_status v)\<rparr> s"
  have fr: "en_executions s1 = en_executions s" "en_retries s1 = en_retries s" "en_replans s1 = en_replans s"
    "en_versions s1 = en_versions s" "en_current s1 = en_current s" by (simp_all add: s1_def audited_def)
  from assms have act: "act g c a v s1 = Again s'"
    by (auto simp: decide_turn_def Let_def c_def a_def s1_def split: if_splits)
  show ?thesis
  proof (cases a)
    case RA_RETRY
    with act have "s' = rewound (s1\<lparr>en_retries := Suc (en_retries s1)\<rparr>)" by (simp add: act_def)
    moreover have "rc_overrides (eg_policy g) = [] \<longrightarrow> int (en_retries s) < rp_max_attempts (rc_retries (eg_policy g))"
      using action_for_budgets(1) RA_RETRY unfolding a_def by blast
    ultimately show ?thesis by (simp add: goes_on_def rewound_def fr)
  next
    case RA_REPLAN
    with act obtain pl candidate where
      q: "request_replan (eg_resolve g) (eg_version g) pl (en_replans s1) (eg_task_id g) (en_current s1)
        (cl_detail c) (en_versions s1) = Inr candidate" and
      s': "s' = rewound (s1\<lparr>en_replans := Suc (en_replans s1),
          en_versions := en_versions s1 @ [eg_version g candidate], en_current := candidate\<rparr>)"
      by (auto simp: act_def Let_def split: option.splits sum.splits exn.splits)
    have "rc_overrides (eg_policy g) = [] \<longrightarrow> int (en_replans s) < rc_max_replans (eg_policy g)"
      using action_for_budgets(2) RA_REPLAN unfolding a_def by blast
    then show ?thesis
      using request_replan_new [OF q] by (simp add: s' goes_on_def rewound_def fr)
  qed (use act in \<open>simp_all add: act_def\<close>)
qed

text \<open>A turn that goes on executed once, unless it started from an observed result.\<close>

lemma engine_turn_Again:
  assumes "engine_turn g s = Again s'"
  shows "if en_result s = None
    then int (en_executions s) < eg_max_attempts g
      \<and> goes_on g (s\<lparr>en_executions := Suc (en_executions s)\<rparr>) s'
    else goes_on g s s'"
proof -
  have v: "goes_on g t s'" if "verify_turn g r t = Again s'" for r t
  proof -
    from that obtain v t' where "decide_turn g r v t' = Again s'" "t' = t \<or> t' = t\<lparr>en_verification := Some v\<rparr>"
      by (auto simp: verify_turn_def split: option.splits sum.splits)
    with decide_turn_Again [of g r v t' s'] show ?thesis by (auto simp: goes_on_def)
  qed
  show ?thesis
  proof (cases "en_result s")
    case None
    with assms obtain r where "int (en_executions s) < eg_max_attempts g" and
      "verify_turn g r (s\<lparr>en_result := Some r, en_executions := Suc (en_executions s),
        en_verification := None\<rparr>) = Again s'"
      by (auto simp: engine_turn_def Let_def split: if_splits sum.splits)
    with v [OF this(2)] None show ?thesis by (simp add: goes_on_def)
  next
    case (Some r)
    with assms have "verify_turn g r s = Again s'" by (simp add: engine_turn_def)
    with Some v show ?thesis by simp
  qed
qed

lemma turns_left_less: "engine_turn g s = Again s' \<Longrightarrow> turns_left g s' < turns_left g s"
  using engine_turn_Again [of g s s']
  by (auto simp: turns_left_def goes_on_def split: if_splits)

function engine_loop :: "engine \<Rightarrow> engine_state \<Rightarrow> engine_end result" where
  "engine_loop g s = (case engine_turn g s of Ended e \<Rightarrow> e | Again s' \<Rightarrow> engine_loop g s')"
  by pat_completeness auto
termination
  by (relation "measure (\<lambda>(g, s). turns_left g s)") (auto intro: turns_left_less)

declare engine_loop.simps [simp del]

definition start_engine ::
  "engine \<Rightarrow> plan \<Rightarrow> exec_result option \<Rightarrow> verification_result option \<Rightarrow> escalation list \<Rightarrow> engine_state" where
  "start_engine g p prior_result prior_verification es =
     \<lparr>en_current = p, en_result = prior_result, en_verification = prior_verification,
      en_executions = (if prior_result = None then 0 else 1), en_retries = 0, en_replans = 0,
      en_versions = [eg_version g p], en_audit = [], en_escalations = es\<rparr>"

definition run_with_prior ::
  "engine \<Rightarrow> plan \<Rightarrow> exec_result option \<Rightarrow> verification_result option \<Rightarrow> escalation list
     \<Rightarrow> engine_end result" where
  "run_with_prior g p prior_result prior_verification es =
     (let s = start_engine g p prior_result prior_verification es in
      case (prior_result, prior_verification) of
        (Some r, Some v) \<Rightarrow>
          if xr_status r = O_COMPLETED \<and> vr_status v = VS_PASSED
          then Inr (terminal g RO_RECOVERED (Some v) ''verification passed'' (s\<lparr>en_executions := 0\<rparr>))
          else engine_loop g s
      | _ \<Rightarrow> engine_loop g s)"

definition run_engine :: "engine \<Rightarrow> plan \<Rightarrow> escalation list \<Rightarrow> engine_end result" where
  "run_engine g p es = run_with_prior g p None None es"

subsection \<open>What a run can end with\<close>

definition reports :: "recovery_outcome \<Rightarrow> engine_state \<Rightarrow> bool" where
  "reports out s \<longleftrightarrow> ro_attempts out = en_executions s \<and> ro_retries out = en_retries s
     \<and> ro_replans out = en_replans s \<and> ro_versions out = en_versions s"

lemma reports_terminal [simp]:
  "reports (fst (terminal g st v why s)) t \<longleftrightarrow> en_executions s = en_executions t
     \<and> en_retries s = en_retries t \<and> en_replans s = en_replans t \<and> en_versions s = en_versions t"
  "ro_status (fst (terminal g st v why s)) = st" "ro_verification (fst (terminal g st v why s)) = v"
  by (simp_all add: reports_def terminal_def)

lemma reports_audited [simp]: "reports out (audited r s) \<longleftrightarrow> reports out s"
  by (simp add: reports_def audited_def)

lemma audited_frame [simp]:
  "en_executions (audited r s) = en_executions s" "en_retries (audited r s) = en_retries s"
  "en_replans (audited r s) = en_replans s" "en_versions (audited r s) = en_versions s"
  by (simp_all add: audited_def)

lemma reports_escalations [simp]: "reports out (s\<lparr>en_escalations := es\<rparr>) \<longleftrightarrow> reports out s"
  by (simp add: reports_def)

lemma terminal_eq: "terminal g st v why s = (out, t) \<longleftrightarrow> out = fst (terminal g st v why s) \<and> t = s"
  by (auto simp: terminal_def)

lemma act_Ended:
  assumes "act g c a v s = Ended (Inr (out, t))"
  shows "reports out s \<and> ro_status out \<noteq> RO_RECOVERED"
proof (cases a)
  case RA_REPLAN
  with assms show ?thesis
    by (auto simp: act_def Let_def terminal_eq split: option.splits sum.splits exn.splits)
next
  case RA_ESCALATE
  with assms have "out = fst (terminal g RO_ESCALATED (Some v) (''escalated: '' @ cl_detail c)
      (s\<lparr>en_escalations := escalate_to (eg_task_id g) (cl_detail c)
         [vr_reason v, verification_value (vr_status v)] (en_escalations s)\<rparr>))"
    by (simp add: act_def terminal_eq)
  then have "reports out (s\<lparr>en_escalations := escalate_to (eg_task_id g) (cl_detail c)
         [vr_reason v, verification_value (vr_status v)] (en_escalations s)\<rparr>)"
    "ro_status out = RO_ESCALATED" by simp_all
  then show ?thesis by simp
qed (use assms in \<open>auto simp: act_def terminal_eq\<close>)

lemma decide_turn_Ended:
  assumes "decide_turn g r v s = Ended (Inr (out, t))"
  shows "reports out s \<and> (ro_status out = RO_RECOVERED \<longrightarrow>
    xr_status r = O_COMPLETED \<and> vr_status v = VS_PASSED \<and> ro_verification out = Some v)"
proof (cases "xr_status r = O_COMPLETED \<and> vr_status v = VS_PASSED")
  case True
  with assms show ?thesis by (auto simp: decide_turn_def terminal_eq)
next
  case False
  with assms obtain c a rec where "act g c a v (audited rec s) = Ended (Inr (out, t))"
    unfolding decide_turn_def by (auto simp: Let_def)
  from act_Ended [OF this] show ?thesis by simp
qed

lemma verify_turn_Ended:
  assumes "verify_turn g r s = Ended (Inr (out, t))"
  shows "reports out s \<and> (ro_status out = RO_RECOVERED \<longrightarrow>
    xr_status r = O_COMPLETED \<and> (\<exists>v. vr_status v = VS_PASSED \<and> ro_verification out = Some v
      \<and> (en_verification s = Some v
         \<or> en_verification s = None \<and> eg_verify g (en_executions s) (en_current s) r = Inr v)))"
proof (cases "en_verification s")
  case (Some v)
  with assms decide_turn_Ended [of g r v s out t] show ?thesis by (simp add: verify_turn_def)
next
  case None
  show ?thesis
  proof (cases "eg_verify g (en_executions s) (en_current s) r")
    case (Inl e)
    with None assms have "out = fst (give_up g (classify_exception (eg_float g) e)
        (''verification raised: '' @ exn_text (eg_float g) e) s)"
      unfolding verify_turn_def by simp
    then show ?thesis unfolding give_up_def by simp
  next
    case (Inr v)
    with None assms have "decide_turn g r v (s\<lparr>en_verification := Some v\<rparr>) = Ended (Inr (out, t))"
      by (simp add: verify_turn_def)
    from decide_turn_Ended [OF this] Inr None show ?thesis by (simp add: reports_def)
  qed
qed

text \<open>One execution was observed in the last turn, or the budget was spent.\<close>

lemma engine_turn_Ended:
  assumes "engine_turn g s = Ended (Inr (out, t))"
  shows "(case en_result s of
      Some r \<Rightarrow> reports out s \<and> (ro_status out = RO_RECOVERED \<longrightarrow> xr_status r = O_COMPLETED
        \<and> (\<exists>v. vr_status v = VS_PASSED \<and> ro_verification out = Some v
            \<and> (en_verification s = Some v
               \<or> en_verification s = None \<and> eg_verify g (en_executions s) (en_current s) r = Inr v)))
    | None \<Rightarrow>
        if eg_max_attempts g \<le> int (en_executions s) then reports out s \<and> ro_status out = RO_FAILED
        else reports out (s\<lparr>en_executions := Suc (en_executions s)\<rparr>)
          \<and> (ro_status out = RO_RECOVERED \<longrightarrow> (\<exists>r v. xr_status r = O_COMPLETED
               \<and> eg_execute g (en_executions s) (en_current s) = Inr r
               \<and> eg_verify g (Suc (en_executions s)) (en_current s) r = Inr v
               \<and> vr_status v = VS_PASSED \<and> ro_verification out = Some v)))"
proof (cases "en_result s")
  case (Some r)
  with assms have "verify_turn g r s = Ended (Inr (out, t))" by (simp add: engine_turn_def)
  from verify_turn_Ended [OF this] Some show ?thesis by simp
next
  case None
  show ?thesis
  proof (cases "eg_max_attempts g \<le> int (en_executions s)")
    case True
    with None assms show ?thesis by (auto simp: engine_turn_def terminal_eq)
  next
    case False
    with None assms obtain r where x: "eg_execute g (en_executions s) (en_current s) = Inr r"
      by (auto simp: engine_turn_def split: sum.splits)
    let ?s1 = "s\<lparr>en_result := Some r, en_executions := Suc (en_executions s), en_verification := None\<rparr>"
    have rep: "reports out ?s1 \<longleftrightarrow> reports out (s\<lparr>en_executions := Suc (en_executions s)\<rparr>)"
      by (simp add: reports_def)
    show ?thesis
    proof (cases "xr_status r = O_CANCELLED")
      case True
      with None False x assms have "out = fst (terminal g RO_FAILED None ''execution cancelled'' ?s1)"
        by (simp add: engine_turn_def Let_def terminal_eq)
      then have "reports out ?s1" "ro_status out = RO_FAILED" by simp_all
      with None False rep show ?thesis by simp
    next
      case nc: False
      with None False x assms have "verify_turn g r ?s1 = Ended (Inr (out, t))"
        by (simp add: engine_turn_def Let_def)
      from verify_turn_Ended [OF this] None False x rep show ?thesis by auto
    qed
  qed
qed

text \<open>
  The invariant of the loop: every execution but a pending one is accounted for by a retry or a
  replan, the budgets hold, and the versions tried are distinct. \<open>b\<close> is the execution handed
  over.
\<close>

definition engine_inv :: "nat \<Rightarrow> engine \<Rightarrow> engine_state \<Rightarrow> bool" where
  "engine_inv b g s \<longleftrightarrow>
     en_retries s + en_replans s + (if en_result s = None then 0 else 1) = en_executions s
   \<and> int (en_executions s) \<le> max (int b) (eg_max_attempts g)
   \<and> length (en_versions s) = Suc (en_replans s) \<and> distinct (en_versions s)
   \<and> (rc_overrides (eg_policy g) = [] \<longrightarrow>
        int (en_retries s) \<le> max 0 (rp_max_attempts (rc_retries (eg_policy g)))
      \<and> int (en_replans s) \<le> max 0 (rc_max_replans (eg_policy g)))"

lemma engine_inv_start:
  "engine_inv (if pr = None then 0 else 1) g (start_engine g p pr pv es)"
  by (simp add: engine_inv_def start_engine_def)

lemma engine_inv_turn:
  assumes "engine_inv b g s" "engine_turn g s = Again s'"
  shows "engine_inv b g s'"
  using assms(1) engine_turn_Again [OF assms(2)]
  by (auto simp: engine_inv_def goes_on_def split: if_splits)

text \<open>What the outcome reports, within the bounds.\<close>

definition within_bounds :: "nat \<Rightarrow> engine \<Rightarrow> recovery_outcome \<Rightarrow> bool" where
  "within_bounds b g out \<longleftrightarrow>
     int (ro_attempts out) \<le> max (int b) (eg_max_attempts g)
   \<and> ro_attempts out \<le> Suc (ro_retries out + ro_replans out)
   \<and> ro_retries out + ro_replans out \<le> ro_attempts out
   \<and> length (ro_versions out) = Suc (ro_replans out) \<and> distinct (ro_versions out)
   \<and> (rc_overrides (eg_policy g) = [] \<longrightarrow>
        int (ro_retries out) \<le> max 0 (rp_max_attempts (rc_retries (eg_policy g)))
      \<and> int (ro_replans out) \<le> max 0 (rc_max_replans (eg_policy g)))"

lemma engine_loop_bounds:
  "engine_inv b g s \<Longrightarrow> engine_loop g s = Inr (out, t) \<Longrightarrow> within_bounds b g out"
proof (induction g s rule: engine_loop.induct)
  case (1 g s)
  show ?case
  proof (cases "engine_turn g s")
    case (Again s')
    with 1 engine_inv_turn show ?thesis by (simp add: engine_loop.simps [of g s])
  next
    case (Ended e)
    with 1 have "engine_turn g s = Ended (Inr (out, t))" by (simp add: engine_loop.simps [of g s])
    from engine_turn_Ended [OF this] 1(2) show ?thesis
      by (auto simp: engine_inv_def within_bounds_def reports_def split: option.splits if_splits)
  qed
qed

text \<open>Where the result and the verdict of a recovered run come from.\<close>

definition evidenced ::
  "engine \<Rightarrow> exec_result option \<Rightarrow> verification_result option \<Rightarrow> plan \<Rightarrow> recovery_outcome \<Rightarrow> bool" where
  "evidenced g pr pv p0 out \<longleftrightarrow> (\<exists>r v. xr_status r = O_COMPLETED \<and> vr_status v = VS_PASSED
     \<and> ro_verification out = Some v
     \<and> (pr = Some r \<and> (pv = Some v \<or> pv = None \<and> eg_verify g 1 p0 r = Inr v)
        \<or> (\<exists>n p. int n < eg_max_attempts g \<and> eg_execute g n p = Inr r \<and> eg_verify g (Suc n) p r = Inr v)))"

lemma engine_loop_recovered:
  assumes "engine_loop g s = Inr (out, t)" "ro_status out = RO_RECOVERED"
    and "en_result s \<noteq> None \<longrightarrow> en_result s = pr \<and> en_verification s = pv \<and> en_current s = p0
           \<and> en_executions s = 1"
  shows "evidenced g pr pv p0 out"
  using assms
proof (induction g s rule: engine_loop.induct)
  case (1 g s)
  show ?case
  proof (cases "engine_turn g s")
    case (Again s')
    from engine_turn_Again [OF this] have "en_result s' = None"
      by (auto simp: goes_on_def split: if_splits)
    with 1 Again show ?thesis by (simp add: engine_loop.simps [of g s])
  next
    case (Ended e)
    with 1 have "engine_turn g s = Ended (Inr (out, t))" by (simp add: engine_loop.simps [of g s])
    note fin = engine_turn_Ended [OF this]
    show ?thesis
    proof (cases "en_result s")
      case None
      with fin 1(3) obtain r v where "int (en_executions s) < eg_max_attempts g" "xr_status r = O_COMPLETED"
        "eg_execute g (en_executions s) (en_current s) = Inr r"
        "eg_verify g (Suc (en_executions s)) (en_current s) r = Inr v" "vr_status v = VS_PASSED"
        "ro_verification out = Some v"
        by (auto split: if_splits)
      then show ?thesis unfolding evidenced_def by blast
    next
      case (Some r)
      with fin 1(3) obtain v where "xr_status r = O_COMPLETED" "vr_status v = VS_PASSED"
        "ro_verification out = Some v" "en_verification s = Some v
           \<or> en_verification s = None \<and> eg_verify g (en_executions s) (en_current s) r = Inr v"
        by auto
      with Some 1(4) show ?thesis unfolding evidenced_def by auto
    qed
  qed
qed

lemma recovered_evidence:
  assumes "run_with_prior g p pr pv es = Inr (out, t)" "ro_status out = RO_RECOVERED"
  shows "evidenced g pr pv p out"
proof (cases "\<exists>r v. pr = Some r \<and> pv = Some v \<and> xr_status r = O_COMPLETED \<and> vr_status v = VS_PASSED")
  case True
  then obtain r v where rv: "pr = Some r" "pv = Some v" "xr_status r = O_COMPLETED" "vr_status v = VS_PASSED"
    by blast
  with assms have "ro_verification out = Some v"
    by (simp add: run_with_prior_def Let_def terminal_eq)
  with rv show ?thesis unfolding evidenced_def by blast
next
  case False
  with assms have "engine_loop g (start_engine g p pr pv es) = Inr (out, t)"
    by (auto simp: run_with_prior_def Let_def split: option.splits if_splits)
  from engine_loop_recovered [OF this assms(2)] show ?thesis
    by (auto simp: start_engine_def)
qed

text \<open>
  C15: Recovered means verified. A run that reports \<open>RECOVERED\<close> carries a verdict that passed, for
  a result that completed: both handed over by the caller, or the verdict of the verifier on what
  the executor returned in one of the executions the attempt budget allows.
\<close>

theorem recovered_means_verified:
  assumes "run_with_prior g p pr pv es = Inr (out, t)" "ro_status out = RO_RECOVERED"
  shows "evidenced g pr pv p out"
  by (rule recovered_evidence [OF assms])

text \<open>
  Recovery is bounded whatever the executor, the verifier and the replan provider do: the loop
  ends, after at most the allowed number of executions (one more only if the caller handed one
  over and allowed none); every execution but the last is followed by exactly one retry or one
  replan; no plan version is tried twice; and without overrides the retry and replan budgets of
  the policy hold.
\<close>

theorem recovery_is_bounded:
  assumes "run_with_prior g p pr pv es = Inr (out, t)"
  shows "within_bounds (if pr = None then 0 else 1) g out"
proof (cases "\<exists>r v. pr = Some r \<and> pv = Some v \<and> xr_status r = O_COMPLETED \<and> vr_status v = VS_PASSED")
  case True
  with assms have "out = fst (terminal g RO_RECOVERED pv ''verification passed''
      ((start_engine g p pr pv es)\<lparr>en_executions := 0\<rparr>))"
    by (auto simp: run_with_prior_def Let_def terminal_eq)
  then show ?thesis by (simp add: within_bounds_def terminal_def start_engine_def)
next
  case False
  with assms have "engine_loop g (start_engine g p pr pv es) = Inr (out, t)"
    by (auto simp: run_with_prior_def Let_def split: option.splits if_splits)
  from engine_loop_bounds [OF engine_inv_start this] show ?thesis .
qed

definition demo_completed :: exec_result where
  "demo_completed = \<lparr>xr_task_id = ''t1'', xr_status = O_COMPLETED, xr_states = [], xr_succeeded = [],
     xr_failed = [], xr_cancelled = [], xr_timed_out = [], xr_skipped = [], xr_results = [], xr_errors = []\<rparr>"

definition demo_plan :: plan where
  "demo_plan = \<lparr>plan_goal = ''g'', plan_steps = [], plan_final_verification = []\<rparr>"

text \<open>The first execution fails on a tool, the second completes and is verified.\<close>

definition demo_engine :: engine where
  "demo_engine = \<lparr>eg_task_id = ''t1'',
     eg_policy = \<lparr>rc_retries = \<lparr>rp_max_attempts = 3, rp_base_delay = 0, rp_max_delay = 30\<rparr>,
       rc_max_replans = 1, rc_overrides = []\<rparr>,
     eg_planner = None, eg_max_attempts = 3,
     eg_execute = (\<lambda>n p. Inr (if n = 0 then demo_completed\<lparr>xr_status := O_FAILED, xr_states := [(''s'', S_FAILED)],
        xr_results := [(''s'', [failed_result (demo_call ''c1'') ''boom''])]\<rparr> else demo_completed)),
     eg_verify = (\<lambda>n p r. Inr (verdict ([] :: unit strategies) ''t1'' [] VS_PASSED [] [] [])),
     eg_version = (\<lambda>p. plan_goal p), eg_resolve = (\<lambda>p. [p]), eg_float = (\<lambda>_. [])\<rparr>"

lemma demo_engine_run:
  "case run_with_prior demo_engine demo_plan None None [] of Inl _ \<Rightarrow> False
   | Inr (out, t) \<Rightarrow> ro_status out = RO_RECOVERED \<and> ro_attempts out = 2 \<and> ro_retries out = 1"
  by code_simp

lemma recovered_means_verified_witness:
  "\<exists>out. evidenced demo_engine None None demo_plan out \<and> ro_attempts out = 2"
proof -
  obtain out t where "run_with_prior demo_engine demo_plan None None [] = Inr (out, t)"
    "ro_status out = RO_RECOVERED" "ro_attempts out = 2"
    using demo_engine_run by (auto split: sum.splits)
  then show ?thesis using recovered_means_verified by blast
qed

lemma recovery_is_bounded_witness:
  "\<exists>out. within_bounds 0 demo_engine out \<and> ro_attempts out = 2 \<and> ro_retries out = 1"
proof -
  obtain out t where r: "run_with_prior demo_engine demo_plan None None [] = Inr (out, t)"
    "ro_attempts out = 2" "ro_retries out = 1"
    using demo_engine_run by (auto split: sum.splits)
  have "within_bounds (if (None :: exec_result option) = None then 0 else 1) demo_engine out"
    by (rule recovery_is_bounded [OF r(1)])
  with r show ?thesis by auto
qed

lemma every_state:
  "list_all P [EX_PLANNED, EX_AUTHORIZED, EX_STARTED, EX_EXECUTING, EX_COMPLETED, EX_FAILED,
     EX_CANCELLED, EX_UNKNOWN] \<Longrightarrow> P s"
  by (cases s) simp_all

text \<open>
  A retry meets the ledger's refusal as if it were a fresh tool failure. The error with which
  the runner refuses an action it has a row for passes the secret filter unchanged and is
  classified \<open>TOOL_FAILURE\<close>, whatever the row's state, so without overrides the policy answers
  it with another retry while the budget lasts, although the next attempt is refused in the same
  way.
\<close>

theorem refusal_is_retried:
  fixes call :: tool_call
  defines "refusal \<equiv> \<lambda>s. ''action already has durable state '' @ execution_value s
    @ ''; reconcile before replay''"
  shows "safe_error (refusal s) = refusal s
    \<and> cl_class (classify_tool_result (failed_result call (refusal s))) = FC_TOOL_FAILURE
    \<and> (rc_overrides po = [] \<and> used < rp_max_attempts (rc_retries po) \<longrightarrow>
         action_for po (classify_tool_result (failed_result call (refusal s))) used replans = RA_RETRY)"
proof -
  have "list_all (\<lambda>s. \<not> search_secret (''action already has durable state '' @ execution_value s
      @ ''; reconcile before replay''))
    [EX_PLANNED, EX_AUTHORIZED, EX_STARTED, EX_EXECUTING, EX_COMPLETED, EX_FAILED, EX_CANCELLED, EX_UNKNOWN]"
    by code_simp
  from every_state [OF this, of s] have safe: "safe_error (refusal s) = refusal s"
    unfolding refusal_def safe_error_def by (simp only: if_False)
  have "list_all (\<lambda>s. let err = lower_str (''action already has durable state '' @ execution_value s
      @ ''; reconcile before replay'') in \<not> str_in ''denied'' err \<and> \<not> str_in ''timed out'' err
        \<and> \<not> list_ex (\<lambda>m. str_in m err) transient_markers)
    [EX_PLANNED, EX_AUTHORIZED, EX_STARTED, EX_EXECUTING, EX_COMPLETED, EX_FAILED, EX_CANCELLED, EX_UNKNOWN]"
    by code_simp
  from every_state [OF this, of s] have "\<not> str_in ''denied'' (lower_str (refusal s))
        \<and> \<not> str_in ''timed out'' (lower_str (refusal s))
        \<and> \<not> list_ex (\<lambda>m. str_in m (lower_str (refusal s))) transient_markers"
    unfolding refusal_def Let_def .
  moreover have "error_or x (tr_error (failed_result call (refusal s))) = refusal s" for x
    unfolding refusal_def by (simp add: error_or_def failed_result_def)
  ultimately have cls: "cl_class (classify_tool_result (failed_result call (refusal s))) = FC_TOOL_FAILURE"
    by (simp add: classify_tool_result_def Let_def classified_def list_ex_iff)
  then show ?thesis using safe by (simp add: action_for_def retryable_def should_retry_def)
qed

lemma refusal_is_retried_witness:
  "action_for (eg_policy demo_engine) (classify_tool_result (failed_result (demo_call ''c1'')
     (''action already has durable state '' @ execution_value EX_FAILED @ ''; reconcile before replay'')))
     0 0 = RA_RETRY"
proof -
  have "rc_overrides (eg_policy demo_engine) = []"
    "0 < rp_max_attempts (rc_retries (eg_policy demo_engine))" by (simp_all add: demo_engine_def)
  then show ?thesis using refusal_is_retried by blast
qed

end
