(* ===== verification/Audit_Log.thy ===== *)
theory Audit_Log
  imports Store Json Runner
begin

text \<open>
  The hash-chained audit log (\<^verbatim>\<open>security/audit.py\<close>) over a snapshot table. SHA-256 in
  hexadecimal, the text of a time and the serialised form of a record are parameters. Each
  operation runs under the log's lock; \<open>al_tail\<close> is the remembered tail hash. The walk of
  \<open>verify\<close> along the chain may not end for a table somebody else wrote; not ending is \<open>None\<close>.
\<close>

record audit_record = entity +
  ad_timestamp :: real
  ad_actor :: string
  ad_actor_type :: string
  ad_task_id :: string
  ad_agent_id :: string
  ad_action :: string
  ad_resource :: string
  ad_decision :: string
  ad_risk :: string
  ad_authorization :: string
  ad_result :: string
  ad_correlation :: string
  ad_prev :: string
  ad_hash :: string

record audit_log =
  al_table :: "audit_record table"
  al_tail :: "string option"

definition body_members :: "(real \<Rightarrow> string) \<Rightarrow> audit_record \<Rightarrow> arguments" where
  "body_members ts r =
     [(''id'', JStr (ent_id r)), (''created_at'', JStr (ts (ent_created r))),
      (''timestamp'', JStr (ts (ad_timestamp r))), (''actor'', JStr (ad_actor r)),
      (''actor_type'', JStr (ad_actor_type r)), (''task_id'', JStr (ad_task_id r)),
      (''agent_id'', JStr (ad_agent_id r)), (''action'', JStr (ad_action r)),
      (''resource'', JStr (ad_resource r)), (''decision'', JStr (ad_decision r)),
      (''risk'', JStr (ad_risk r)), (''authorization'', JStr (ad_authorization r)),
      (''result'', JStr (ad_result r)), (''correlation_id'', JStr (ad_correlation r)),
      (''prev_hash'', JStr (ad_prev r))]"

definition body_of :: "(real \<Rightarrow> string) \<Rightarrow> audit_record \<Rightarrow> string" where
  "body_of ts r = canonical (JObj (body_members ts r))"

definition chain_text :: "string \<Rightarrow> string \<Rightarrow> string" where
  "chain_text prev body = prev @ ''|'' @ body"

definition chain_hash :: "(string \<Rightarrow> string) \<Rightarrow> string \<Rightarrow> string \<Rightarrow> string" where
  "chain_hash sha prev body = sha (chain_text prev body)"

definition hash_ok :: "(string \<Rightarrow> string) \<Rightarrow> (real \<Rightarrow> string) \<Rightarrow> audit_record \<Rightarrow> bool" where
  "hash_ok sha ts r \<longleftrightarrow> ad_hash r = chain_hash sha (ad_prev r) (body_of ts r)"

text \<open>The fields a caller gives, in the order of \<open>record\<close>.\<close>

record audit_fields =
  af_action :: string
  af_actor :: string
  af_actor_type :: string
  af_task_id :: string
  af_agent_id :: string
  af_resource :: string
  af_decision :: string
  af_risk :: string
  af_authorization :: string
  af_result :: string
  af_correlation :: string

definition tail_of :: "audit_log \<Rightarrow> string" where
  "tail_of al = (case al_tail al of
     Some h \<Rightarrow> h
   | None \<Rightarrow> (let previous = tbl_list (al_table al) in
              if previous = [] then ''GENESIS'' else ad_hash (last previous)))"

definition make_record ::
  "(string \<Rightarrow> string) \<Rightarrow> (real \<Rightarrow> string) \<Rightarrow> real \<Rightarrow> string \<Rightarrow> audit_fields \<Rightarrow> string \<Rightarrow> audit_record" where
  "make_record sha ts now new_id f prev =
     (let r = \<lparr>ent_id = new_id, ent_created = now, ent_updated = now, ad_timestamp = now,
            ad_actor = af_actor f, ad_actor_type = af_actor_type f, ad_task_id = af_task_id f,
            ad_agent_id = af_agent_id f, ad_action = af_action f, ad_resource = af_resource f,
            ad_decision = af_decision f, ad_risk = af_risk f, ad_authorization = af_authorization f,
            ad_result = af_result f, ad_correlation = af_correlation f, ad_prev = prev, ad_hash = []\<rparr>
      in r\<lparr>ad_hash := chain_hash sha prev (body_of ts r)\<rparr>)"

definition audit_append ::
  "(string \<Rightarrow> string) \<Rightarrow> (real \<Rightarrow> string) \<Rightarrow> real \<Rightarrow> string \<Rightarrow> audit_fields \<Rightarrow> audit_log
     \<Rightarrow> audit_record result \<times> audit_log" where
  "audit_append sha ts now new_id f al =
     (let prev = tail_of al; al1 = al\<lparr>al_tail := Some prev\<rparr> in
      case tbl_create now (make_record sha ts now new_id f prev) (al_table al) of
        Inl e \<Rightarrow> (Inl e, al1)
      | Inr (r, t) \<Rightarrow> (Inr r, \<lparr>al_table = t, al_tail = Some (ad_hash r)\<rparr>))"

text \<open>The walk from a record to its successor, counting.\<close>

partial_function (option) walk :: "audit_record list \<Rightarrow> audit_record \<Rightarrow> nat \<Rightarrow> nat option" where
  "walk rs cur n =
     (case filter (\<lambda>r. ad_prev r = ad_hash cur) rs of
        [] \<Rightarrow> Some (Suc n)
      | nxt # _ \<Rightarrow> walk rs nxt (Suc n))"

definition audit_verify :: "(string \<Rightarrow> string) \<Rightarrow> (real \<Rightarrow> string) \<Rightarrow> audit_log \<Rightarrow> (bool \<times> string) option" where
  "audit_verify sha ts al =
     (let rs = tbl_list (al_table al) in
      case find (\<lambda>r. \<not> hash_ok sha ts r) rs of
        Some r \<Rightarrow> Some (False, ent_id r)
      | None \<Rightarrow>
          if \<not> distinct (map ad_prev rs) then Some (False, ''fork detected'')
          else if rs = [] then Some (True, [])
          else case filter (\<lambda>r. ad_prev r = ''GENESIS'') rs of
            [h] \<Rightarrow> (case walk rs h 0 of
                     None \<Rightarrow> None
                   | Some n \<Rightarrow> if n \<noteq> length rs then Some (False, ''gap in chain'') else Some (True, []))
          | _ \<Rightarrow> Some (False, ''multiple chain heads''))"

definition query_matches ::
  "string \<Rightarrow> string \<Rightarrow> string \<Rightarrow> string \<Rightarrow> audit_record \<Rightarrow> bool" where
  "query_matches actor task_id action correlation r \<longleftrightarrow>
     (actor = [] \<or> ad_actor r = actor) \<and> (task_id = [] \<or> ad_task_id r = task_id)
   \<and> (action = [] \<or> ad_action r = action) \<and> (correlation = [] \<or> ad_correlation r = correlation)"

text \<open>The slice \<open>[-k:]\<close>: the last \<open>k\<close> items, all of them for \<open>k = 0\<close>.\<close>

definition neg_slice :: "nat \<Rightarrow> 'a list \<Rightarrow> 'a list" where
  "neg_slice k xs = (if k = 0 then xs else drop (length xs - k) xs)"

definition audit_query ::
  "string \<Rightarrow> string \<Rightarrow> string \<Rightarrow> string \<Rightarrow> int \<Rightarrow> audit_log \<Rightarrow> audit_record list" where
  "audit_query actor task_id action correlation limit al =
     neg_slice (nat (max 0 limit)) (sort_key ent_created
       (filter (query_matches actor task_id action correlation) (tbl_list (al_table al))))"

text \<open>The archive file is the list of the lines written to it.\<close>

definition audit_export :: "(audit_record \<Rightarrow> string) \<Rightarrow> audit_log \<Rightarrow> nat \<times> string list" where
  "audit_export dump_record al =
     (let rs = sort_key ent_created (tbl_list (al_table al)) in (length rs, map dump_record rs))"

definition rotate ::
  "(string \<Rightarrow> string) \<Rightarrow> (real \<Rightarrow> string) \<Rightarrow> (audit_record \<Rightarrow> string) \<Rightarrow> real \<Rightarrow> string \<Rightarrow> string
     \<Rightarrow> audit_log \<Rightarrow> (nat \<times> string list) result \<times> audit_log" where
  "rotate sha ts dump_record now new_id path al =
     (let (count, archive) = audit_export dump_record al;
          cleared = fold (\<lambda>r t. snd (tbl_delete (ent_id r) t)) (tbl_list (al_table al)) (al_table al);
          (res, al') = audit_append sha ts now new_id
            \<lparr>af_action = ''audit.rotate'', af_actor = ''system'', af_actor_type = ''system'',
             af_task_id = [], af_agent_id = [], af_resource = [], af_decision = [], af_risk = [],
             af_authorization = [], af_result = ''archived '' @ int_text (int count)
               @ '' records to '' @ path, af_correlation = []\<rparr> \<lparr>al_table = cleared, al_tail = None\<rparr>
      in case res of Inl e \<Rightarrow> (Inl e, al') | Inr _ \<Rightarrow> (Inr (count, archive), al'))"

definition purge_older_than ::
  "(string \<Rightarrow> string) \<Rightarrow> (real \<Rightarrow> string) \<Rightarrow> (audit_record \<Rightarrow> string) \<Rightarrow> real \<Rightarrow> string \<Rightarrow> real \<Rightarrow> string
     \<Rightarrow> real \<Rightarrow> audit_log \<Rightarrow> (nat \<times> string list) result \<times> audit_log" where
  "purge_older_than sha ts dump_record now new_id days path moment al =
     (if filter (\<lambda>r. (moment - ent_created r) / 86400 > days) (tbl_list (al_table al)) = []
      then (Inr (0, []), al)
      else rotate sha ts dump_record now new_id path al)"

text \<open>The runner's auditor hook, on the runner's own audit payload.\<close>

definition recorder_fields :: "audit_entry \<Rightarrow> audit_fields" where
  "recorder_fields e =
     \<lparr>af_action = ''tool.execute'', af_actor = [], af_actor_type = ''agent'', af_task_id = au_task_id e,
      af_agent_id = [], af_resource = au_tool e, af_decision = au_decision e, af_risk = au_risk e,
      af_authorization = au_reason e, af_result = (if au_success e then ''success'' else ''failure''),
      af_correlation = au_call_id e\<rparr>"

lemma query_limit_zero:
  "audit_query actor tid action corr 0 al = sort_key ent_created
     (filter (query_matches actor tid action corr) (tbl_list (al_table al)))"
  by (simp add: audit_query_def neg_slice_def)

section \<open>Chains\<close>

text \<open>Records linked one to the next from a hash, each with its own hash right.\<close>

fun linked :: "(string \<Rightarrow> string) \<Rightarrow> (real \<Rightarrow> string) \<Rightarrow> string \<Rightarrow> audit_record list \<Rightarrow> bool" where
  "linked sha ts h [] \<longleftrightarrow> True"
| "linked sha ts h (r # rs) \<longleftrightarrow> ad_prev r = h \<and> hash_ok sha ts r \<and> linked sha ts (ad_hash r) rs"

definition chain_end :: "string \<Rightarrow> audit_record list \<Rightarrow> string" where
  "chain_end h rs = (if rs = [] then h else ad_hash (last rs))"

lemma linked_append: "linked sha ts h (rs @ qs) \<longleftrightarrow> linked sha ts h rs \<and> linked sha ts (chain_end h rs) qs"
  by (induction rs arbitrary: h) (auto simp: chain_end_def)

lemma linked_prevs: "linked sha ts h rs \<Longrightarrow> map ad_prev rs = take (length rs) (h # map ad_hash rs)"
  by (induction rs arbitrary: h) auto

text \<open>SHA-256 in hexadecimal: no bar and no G in a hash; distinct texts of a set do not collide.\<close>

definition hex_sha :: "(string \<Rightarrow> string) \<Rightarrow> bool" where
  "hex_sha sha \<longleftrightarrow> (\<forall>x. CHR ''|'' \<notin> set (sha x) \<and> CHR ''G'' \<notin> set (sha x))"

definition texts_of :: "(real \<Rightarrow> string) \<Rightarrow> audit_record list \<Rightarrow> string list" where
  "texts_of ts rs = map (\<lambda>r. chain_text (ad_prev r) (body_of ts r)) rs"

lemma sorted_members: "sort_json (JObj (body_members ts r)) = JObj (sort_key fst (body_members ts r))"
  by (simp add: sort_json_JObj body_members_def)

lemma body_of_inj:
  assumes "body_of ts r = body_of ts s"
  shows "ent_id r = ent_id s \<and> ts (ent_created r) = ts (ent_created s)
    \<and> ts (ad_timestamp r) = ts (ad_timestamp s) \<and> ad_actor r = ad_actor s
    \<and> ad_actor_type r = ad_actor_type s \<and> ad_task_id r = ad_task_id s \<and> ad_agent_id r = ad_agent_id s
    \<and> ad_action r = ad_action s \<and> ad_resource r = ad_resource s \<and> ad_decision r = ad_decision s
    \<and> ad_risk r = ad_risk s \<and> ad_authorization r = ad_authorization s \<and> ad_result r = ad_result s
    \<and> ad_correlation r = ad_correlation s \<and> ad_prev r = ad_prev s"
proof -
  have wf: "wf_json (JObj (body_members ts r))" for r by (simp add: body_members_def)
  have "sort_json (JObj (body_members ts r)) = sort_json (JObj (body_members ts s))"
    using canonical_inj [OF wf wf] assms by (simp add: body_of_def)
  then have "sort_key fst (body_members ts r) = sort_key fst (body_members ts s)"
    by (simp add: sorted_members)
  then have "set (body_members ts r) = set (body_members ts s)" by (metis set_sort)
  moreover have "distinct (map fst (body_members ts r))" "distinct (map fst (body_members ts s))"
    by (simp_all add: body_members_def)
  ultimately have "map_of (body_members ts r) = map_of (body_members ts s)"
    by (simp only: map_of_inject_set)
  then have "map_of (body_members ts r) k = map_of (body_members ts s) k" for k by simp
  from this [of "''id''"] this [of "''created_at''"] this [of "''timestamp''"] this [of "''actor''"]
    this [of "''actor_type''"] this [of "''task_id''"] this [of "''agent_id''"] this [of "''action''"]
    this [of "''resource''"] this [of "''decision''"] this [of "''risk''"] this [of "''authorization''"]
    this [of "''result''"] this [of "''correlation_id''"] this [of "''prev_hash''"]
  show ?thesis by (simp add: body_members_def)
qed

lemma chain_text_inj:
  assumes "CHR ''|'' \<notin> set p" "CHR ''|'' \<notin> set q" "chain_text p b = chain_text q c"
  shows "p = q \<and> b = c"
proof -
  have t: "takeWhile (\<lambda>x. x \<noteq> CHR ''|'') (chain_text p b) = p"
      "dropWhile (\<lambda>x. x \<noteq> CHR ''|'') (chain_text p b) = ''|'' @ b" if "CHR ''|'' \<notin> set p" for p b
    using that by (auto simp: chain_text_def takeWhile_append dropWhile_append)
  from t [OF assms(1)] t [OF assms(2)] assms(3) show ?thesis by (metis append_Cons append_Nil list.inject)
qed

section \<open>What the walk visits\<close>

text \<open>A path along the links to a record nobody follows.\<close>

fun path :: "audit_record list \<Rightarrow> audit_record list \<Rightarrow> bool" where
  "path rs [] \<longleftrightarrow> False"
| "path rs [r] \<longleftrightarrow> r \<in> set rs \<and> filter (\<lambda>s. ad_prev s = ad_hash r) rs = []"
| "path rs (r # s # ss) \<longleftrightarrow> r \<in> set rs \<and> (\<exists>more. filter (\<lambda>q. ad_prev q = ad_hash r) rs = s # more)
     \<and> path rs (s # ss)"

lemma path_Cons: "path rs (r # ss) \<Longrightarrow> r \<in> set rs"
  by (cases ss) auto

lemma path_subset: "path rs ps \<Longrightarrow> set ps \<subseteq> set rs"
  by (induction rs ps rule: path.induct) auto

lemma path_suffix: "path rs (as @ bs) \<Longrightarrow> bs \<noteq> [] \<Longrightarrow> path rs bs"
proof (induction as)
  case (Cons a as)
  then have "as @ bs \<noteq> []" by simp
  then obtain x xs where "as @ bs = x # xs" by (cases "as @ bs") auto
  with Cons show ?case by simp
qed simp

lemma path_unique: "path rs (r # ps) \<Longrightarrow> path rs (r # qs) \<Longrightarrow> ps = qs"
proof (induction ps arbitrary: r qs)
  case Nil
  then show ?case by (cases qs) auto
next
  case (Cons p ps)
  then obtain q qs' where "qs = q # qs'" by (cases qs) auto
  with Cons show ?case by auto
qed

lemma path_distinct: "path rs ps \<Longrightarrow> distinct ps"
proof (induction ps)
  case (Cons r ps)
  have "r \<notin> set ps"
  proof
    assume "r \<in> set ps"
    then obtain as bs where sp: "ps = as @ r # bs" by (auto simp: in_set_conv_decomp)
    have "path rs ((r # as) @ r # bs)" using Cons.prems sp by simp
    then have "path rs (r # bs)" by (rule path_suffix) simp
    with Cons.prems have "ps = bs" by (rule path_unique)
    with sp show False by simp
  qed
  moreover have "distinct ps"
  proof (cases ps)
    case (Cons x xs)
    with \<open>path rs (r # ps)\<close> have "path rs ps" by simp
    then show ?thesis by (rule Cons.IH)
  qed simp
  ultimately show ?case by simp
qed simp

lemma walk_path:
  assumes "walk rs r n = Some m" "r \<in> set rs"
  shows "\<exists>ps. path rs (r # ps) \<and> m = n + length (r # ps)"
proof -
  let ?P = "\<lambda>rs r n m. r \<in> set rs \<longrightarrow> (\<exists>ps. path rs (r # ps) \<and> m = n + length (r # ps))"
  have "?P rs r n m"
  proof (rule walk.raw_induct [of ?P, OF _ assms(1)])
    fix walk and rs :: "audit_record list" and r :: audit_record and n m
    assume IH: "\<And>rs r n m. walk rs r n = Some m \<Longrightarrow> ?P rs r n m"
      and eq: "(case filter (\<lambda>s. ad_prev s = ad_hash r) rs of [] \<Rightarrow> Some (Suc n)
        | nxt # _ \<Rightarrow> walk rs nxt (Suc n)) = Some m"
    show "?P rs r n m"
    proof (cases "filter (\<lambda>s. ad_prev s = ad_hash r) rs")
      case Nil
      with eq show ?thesis by (auto intro!: exI [of _ "[]"])
    next
      case (Cons s more)
      then have "s \<in> set rs" by (metis filter_is_subset list.set_intros(1) subsetD)
      with IH [of rs s "Suc n" m] eq Cons
      obtain ps where "path rs (s # ps)" "m = Suc n + length (s # ps)" by auto
      with Cons show ?thesis by (auto intro!: exI [of _ "s # ps"])
    qed
  qed
  with assms show ?thesis by blast
qed

lemma path_walk: "path rs (r # ps) \<Longrightarrow> walk rs r n = Some (n + length (r # ps))"
proof (induction ps arbitrary: r n)
  case Nil
  then show ?case by (simp add: walk.simps)
next
  case (Cons p ps)
  then obtain more where "filter (\<lambda>q. ad_prev q = ad_hash r) rs = p # more" "path rs (p # ps)" by auto
  with Cons.IH [of p "Suc n"] show ?case by (simp add: walk.simps)
qed

lemma path_linked:
  "path rs (r # ps) \<Longrightarrow> list_all (hash_ok sha ts) rs \<Longrightarrow> linked sha ts (ad_prev r) (r # ps)"
proof (induction ps arbitrary: r)
  case Nil
  then show ?case by (simp add: list_all_iff)
next
  case (Cons p ps)
  then obtain more where f: "filter (\<lambda>q. ad_prev q = ad_hash r) rs = p # more" and p: "path rs (p # ps)"
    by auto
  then have "ad_prev p = ad_hash r" by (metis (mono_tags, lifting) filter_eq_ConsD)
  with Cons.IH [OF p] Cons.prems show ?case by (auto simp: list_all_iff)
qed

section \<open>What verify accepts\<close>

lemma accepted_is_chain:
  assumes "audit_verify sha ts al = Some (True, [])"
  shows "\<exists>cs. mset cs = mset (tbl_list (al_table al)) \<and> linked sha ts ''GENESIS'' cs"
proof -
  let ?rs = "tbl_list (al_table al)"
  from assms have ok: "list_all (hash_ok sha ts) ?rs" and dp: "distinct (map ad_prev ?rs)"
    by (auto simp: audit_verify_def Let_def list_all_iff find_None_iff split: option.splits if_splits)
  show ?thesis
  proof (cases "?rs = []")
    case True
    then show ?thesis by (intro exI [of _ "[]"]) simp
  next
    case False
    with assms obtain h n where h: "filter (\<lambda>r. ad_prev r = ''GENESIS'') ?rs = [h]"
      and n: "walk ?rs h 0 = Some n" "n = length ?rs"
      by (auto simp: audit_verify_def Let_def split: option.splits if_splits list.splits)
    then have hp: "h \<in> set ?rs" "ad_prev h = ''GENESIS''"
      by (auto dest!: filter_eq_ConsD)
    obtain ps where ps: "path ?rs (h # ps)" "length ?rs = length (h # ps)"
      using walk_path [OF n(1) hp(1)] n(2) by auto
    have "distinct ?rs" using dp by (simp add: distinct_map)
    moreover have "distinct (h # ps)" using ps(1) by (rule path_distinct)
    ultimately have "set (h # ps) = set ?rs"
      using path_subset [OF ps(1)] ps(2) by (intro card_subset_eq) (simp_all add: distinct_card del: set_simps)
    with \<open>distinct ?rs\<close> \<open>distinct (h # ps)\<close> have "mset (h # ps) = mset ?rs"
      by (metis set_eq_iff_mset_eq_distinct)
    with path_linked [OF ps(1) ok] hp(2) show ?thesis by metis
  qed
qed

lemma filter_unique: "distinct (map f xs) \<Longrightarrow> x \<in> set xs \<Longrightarrow> filter (\<lambda>y. f y = f x) xs = [x]"
  by (induction xs) (auto simp: filter_empty_conv image_iff)

lemma linked_path:
  "linked sha ts h (r # ps) \<Longrightarrow> set (r # ps) \<subseteq> set rs \<Longrightarrow> distinct (map ad_prev rs)
     \<Longrightarrow> chain_end h (r # ps) \<notin> ad_prev ` set rs \<Longrightarrow> path rs (r # ps)"
proof (induction ps arbitrary: r h)
  case Nil
  then show ?case by (auto simp: chain_end_def filter_empty_conv) (metis image_eqI)
next
  case (Cons p ps)
  then have "filter (\<lambda>q. ad_prev q = ad_hash r) rs = [p]"
    using filter_unique [of ad_prev rs p] by auto
  moreover have "path rs (p # ps)"
    using Cons.prems by (intro Cons.IH [of "ad_hash r"]) (auto simp: chain_end_def)
  ultimately show ?case using Cons.prems by auto
qed

lemma linked_hash_ok: "linked sha ts h rs \<Longrightarrow> list_all (hash_ok sha ts) rs"
  by (induction rs arbitrary: h) auto

lemma genesis_no_hash:
  assumes "hex_sha sha" "linked sha ts h rs"
  shows "''GENESIS'' \<notin> set (map ad_hash rs)"
proof
  assume "''GENESIS'' \<in> set (map ad_hash rs)"
  then obtain r where r: "r \<in> set rs" "ad_hash r = ''GENESIS''" by force
  with linked_hash_ok [OF assms(2)] have "ad_hash r = sha (chain_text (ad_prev r) (body_of ts r))"
    by (auto simp: list_all_iff hash_ok_def chain_hash_def)
  with assms(1) have "CHR ''G'' \<notin> set (ad_hash r)" by (simp add: hex_sha_def)
  with r(2) show False by simp
qed

lemma linked_prev_plain:
  assumes "hex_sha sha" "linked sha ts h rs" "CHR ''|'' \<notin> set h" "r \<in> set rs"
  shows "CHR ''|'' \<notin> set (ad_prev r)"
  using assms(2-4)
proof (induction rs arbitrary: h)
  case (Cons q rs)
  then have "CHR ''|'' \<notin> set (ad_hash q)"
    using assms(1) by (auto simp: hash_ok_def chain_hash_def hex_sha_def)
  with Cons show ?case by auto
qed simp

lemma chain_accepted:
  assumes "hex_sha sha" and cs: "mset cs = mset (tbl_list (al_table al))" "linked sha ts ''GENESIS'' cs"
    and dh: "distinct (map ad_hash cs)"
  shows "audit_verify sha ts al = Some (True, [])"
proof -
  let ?rs = "tbl_list (al_table al)"
  have set_eq: "set cs = set ?rs" using cs(1) by (metis mset_eq_setD)
  have "distinct (''GENESIS'' # map ad_hash cs)" using genesis_no_hash [OF assms(1) cs(2)] dh by simp
  then have "distinct (map ad_prev cs)"
    unfolding linked_prevs [OF cs(2)] by (rule distinct_take)
  moreover have "mset (map ad_prev cs) = mset (map ad_prev ?rs)" using cs(1) by simp
  ultimately have dp: "distinct (map ad_prev ?rs)" by (metis mset_eq_imp_distinct_iff)
  have fn: "find (\<lambda>r. \<not> hash_ok sha ts r) ?rs = None"
    using linked_hash_ok [OF cs(2)] set_eq by (auto simp: find_None_iff list_all_iff)
  show ?thesis
  proof (cases cs)
    case Nil
    with cs(1) have "?rs = []" by simp
    then show ?thesis by (simp add: audit_verify_def)
  next
    case (Cons h ps)
    have hin: "h \<in> set ?rs" and hp: "ad_prev h = ''GENESIS''" using Cons set_eq cs(2) by auto
    have heads: "filter (\<lambda>r. ad_prev r = ''GENESIS'') ?rs = [h]"
      using filter_unique [OF dp hin] by (simp add: hp)
    have "chain_end ''GENESIS'' (h # ps) \<notin> set (map ad_prev cs)"
    proof -
      have "map ad_prev cs = ''GENESIS'' # butlast (map ad_hash cs)"
        using linked_prevs [OF cs(2)] Cons by (simp add: butlast_conv_take)
      moreover have "last (map ad_hash cs) \<notin> set (butlast (map ad_hash cs))"
        using dh Cons by (metis append_butlast_last_id distinct_append disjoint_insert(1) list.map_disc_iff
          list.set(2) list.simps(3))
      moreover have "last (map ad_hash cs) \<noteq> ''GENESIS''"
        using genesis_no_hash [OF assms(1) cs(2)] Cons by (metis last_in_set list.map_disc_iff list.simps(3))
      moreover have "chain_end ''GENESIS'' (h # ps) = last (map ad_hash cs)"
        using Cons by (simp add: chain_end_def last_map)
      ultimately show ?thesis by simp
    qed
    then have "chain_end ''GENESIS'' (h # ps) \<notin> ad_prev ` set ?rs" using set_eq by simp
    then have "path ?rs (h # ps)"
      using cs(2) Cons set_eq dp by (intro linked_path [of sha ts "''GENESIS''"]) auto
    from path_walk [OF this, of 0] have "walk ?rs h 0 = Some (length cs)" using Cons by simp
    moreover have "length cs = length ?rs" using cs(1) by (metis size_mset)
    moreover have "?rs \<noteq> []" using hin by auto
    ultimately show ?thesis by (simp add: audit_verify_def Let_def fn dp heads)
  qed
qed

section \<open>Recorded logs\<close>

text \<open>
  What happens to a log over its life: records, and restarts of the process, which forget the
  remembered tail. Times are those of the clock at each record.
\<close>

datatype log_event = Recorded real string audit_fields | Restarted

definition log_step ::
  "(string \<Rightarrow> string) \<Rightarrow> (real \<Rightarrow> string) \<Rightarrow> log_event \<Rightarrow> audit_log \<Rightarrow> audit_log" where
  "log_step sha ts e al = (case e of
     Recorded now i f \<Rightarrow> snd (audit_append sha ts now i f al)
   | Restarted \<Rightarrow> al\<lparr>al_tail := None\<rparr>)"

definition run_log :: "(string \<Rightarrow> string) \<Rightarrow> (real \<Rightarrow> string) \<Rightarrow> log_event list \<Rightarrow> audit_log" where
  "run_log sha ts es = fold (log_step sha ts) es \<lparr>al_table = [], al_tail = None\<rparr>"

fun times :: "log_event list \<Rightarrow> real list" where
  "times [] = []"
| "times (Recorded now _ _ # es) = now # times es"
| "times (Restarted # es) = times es"

lemma times_append: "times (es @ fs) = times es @ times fs"
  by (induction es rule: times.induct) auto

definition log_inv :: "(string \<Rightarrow> string) \<Rightarrow> (real \<Rightarrow> string) \<Rightarrow> real list \<Rightarrow> audit_log \<Rightarrow> bool" where
  "log_inv sha ts tms al \<longleftrightarrow>
     wf_table (al_table al) \<and> linked sha ts ''GENESIS'' (map snd (al_table al))
   \<and> al_tail al \<in> {None, Some (chain_end ''GENESIS'' (map snd (al_table al)))}
   \<and> sorted (map ent_updated (map snd (al_table al)))
   \<and> ent_updated ` set (map snd (al_table al)) \<subseteq> set tms"

lemma log_inv_list: "log_inv sha ts tms al \<Longrightarrow> tbl_list (al_table al) = map snd (al_table al)"
  by (simp add: log_inv_def tbl_list_def sorted_sort_id sort_key_id_if_sorted)

lemma log_inv_tail: "log_inv sha ts tms al \<Longrightarrow> tail_of al = chain_end ''GENESIS'' (map snd (al_table al))"
  using log_inv_list [of sha ts tms al]
  by (auto simp: log_inv_def tail_of_def Let_def chain_end_def)

lemma body_of_touch [simp]: "body_of ts (touch now r) = body_of ts r"
  by (simp add: body_of_def body_members_def touch_def)

lemma body_of_hash [simp]: "body_of ts (r\<lparr>ad_hash := h\<rparr>) = body_of ts r"
  by (simp add: body_of_def body_members_def)

lemma made_record:
  "ad_prev (touch t (make_record sha ts now i f prev)) = prev"
  "hash_ok sha ts (touch t (make_record sha ts now i f prev))"
  "ent_id (make_record sha ts now i f prev) = i"
  by (simp_all add: make_record_def Let_def hash_ok_def touch_def)
    (simp add: body_of_def body_members_def)

lemma log_inv_append:
  assumes inv: "log_inv sha ts tms al" and late: "\<forall>t \<in> set tms. t \<le> now"
  shows "log_inv sha ts (tms @ [now]) (snd (audit_append sha ts now i f al))"
proof -
  let ?prev = "chain_end ''GENESIS'' (map snd (al_table al))"
  let ?r = "touch now (make_record sha ts now i f ?prev)"
  have tail: "tail_of al = ?prev" by (rule log_inv_tail [OF inv])
  show ?thesis
  proof (cases "i \<in> set (keys (al_table al))")
    case True
    then show ?thesis using inv
      by (auto simp: audit_append_def tail Let_def tbl_create_def made_record log_inv_def)
  next
    case False
    then have t: "audit_append sha ts now i f al
        = (Inr ?r, \<lparr>al_table = al_table al @ [(i, ?r)], al_tail = Some (ad_hash ?r)\<rparr>)"
      by (simp add: audit_append_def tail Let_def tbl_create_def made_record)
    have "wf_table (al_table al @ [(i, ?r)])"
      using inv False by (auto simp: log_inv_def wf_table_def made_record)
    moreover have "linked sha ts ''GENESIS'' (map snd (al_table al) @ [?r])"
      using inv by (simp add: linked_append made_record log_inv_def)
    ultimately show ?thesis using inv late
      by (auto simp: t log_inv_def chain_end_def sorted_append)
  qed
qed

lemma log_inv_run: "sorted (times es) \<Longrightarrow> log_inv sha ts (times es) (run_log sha ts es)"
proof (induction es rule: rev_induct)
  case Nil
  then show ?case by (simp add: run_log_def log_inv_def wf_table_def)
next
  case (snoc e es)
  then have inv: "log_inv sha ts (times es) (run_log sha ts es)"
    by (simp add: times_append sorted_append)
  show ?case
  proof (cases e)
    case (Recorded now i f)
    have "\<forall>t \<in> set (times es). t \<le> now"
      using snoc.prems Recorded by (auto simp: times_append sorted_append)
    from log_inv_append [OF inv this] show ?thesis
      by (simp add: Recorded run_log_def log_step_def times_append)
  next
    case Restarted
    with inv show ?thesis by (auto simp: run_log_def log_step_def times_append log_inv_def)
  qed
qed

lemma chain_texts_distinct:
  assumes "hex_sha sha" "linked sha ts ''GENESIS'' cs" "distinct (map ent_id cs)"
  shows "distinct (texts_of ts cs)"
proof -
  have "inj_on (\<lambda>r. chain_text (ad_prev r) (body_of ts r)) (set cs)"
  proof (rule inj_onI)
    fix r s assume r: "r \<in> set cs" and s: "s \<in> set cs"
      and eq: "chain_text (ad_prev r) (body_of ts r) = chain_text (ad_prev s) (body_of ts s)"
    have plain: "CHR ''|'' \<notin> set (ad_prev q)" if "q \<in> set cs" for q
      using linked_prev_plain [OF assms(1,2) _ that] by simp
    from chain_text_inj [OF plain [OF r] plain [OF s] eq] have "ent_id r = ent_id s"
      using body_of_inj by blast
    with r s assms(3) show "r = s" by (metis distinct_map inj_onD)
  qed
  moreover have "distinct cs" using assms(3) by (simp add: distinct_map)
  ultimately show ?thesis by (simp add: texts_of_def distinct_map)
qed

lemma linked_hashes: "linked sha ts h cs \<Longrightarrow> map ad_hash cs = map sha (texts_of ts cs)"
  using linked_hash_ok [of sha ts h cs]
  by (simp add: texts_of_def list_all_iff hash_ok_def chain_hash_def)

lemma chain_verifies:
  assumes "hex_sha sha" "wf_table (al_table al)" "tbl_list (al_table al) = cs"
    and "linked sha ts ''GENESIS'' cs" "inj_on sha (set (texts_of ts cs))"
  shows "audit_verify sha ts al = Some (True, [])"
proof -
  have "distinct (map ent_id cs)" using distinct_tbl_list [OF assms(2)] assms(3) by simp
  then have "distinct (map sha (texts_of ts cs))"
    using chain_texts_distinct [OF assms(1,4)] assms(5) by (simp add: distinct_map)
  then have "distinct (map ad_hash cs)" using linked_hashes [OF assms(4)] by simp
  with chain_accepted [OF assms(1) _ assms(4)] assms(3) show ?thesis by simp
qed

text \<open>
  C28: A log recorded through the API verifies, whatever was recorded and however often the
  process restarted in between, while the clock does not run backwards and SHA-256 does not
  collide on the recorded texts; a record whose identifier exists leaves no trace.
\<close>

theorem recorded_chain_verifies:
  assumes "hex_sha sha" "sorted (times es)"
    and "inj_on sha (set (texts_of ts (tbl_list (al_table (run_log sha ts es)))))"
  shows "audit_verify sha ts (run_log sha ts es) = Some (True, [])"
proof -
  have inv: "log_inv sha ts (times es) (run_log sha ts es)" by (rule log_inv_run [OF assms(2)])
  from inv log_inv_list [OF inv] show ?thesis
    by (intro chain_verifies [OF assms(1) _ refl _ assms(3)]) (simp_all add: log_inv_def)
qed

lemma same_end_same_bodies:
  assumes "hex_sha sha"
  shows "linked sha ts ''GENESIS'' cs \<Longrightarrow> linked sha ts ''GENESIS'' ds
    \<Longrightarrow> inj_on sha (set (texts_of ts cs) \<union> set (texts_of ts ds))
    \<Longrightarrow> chain_end ''GENESIS'' cs = chain_end ''GENESIS'' ds
    \<Longrightarrow> map (body_of ts) cs = map (body_of ts) ds"
proof (induction cs arbitrary: ds rule: rev_induct)
  case Nil
  then have "ds = []"
    using genesis_no_hash [OF assms Nil.prems(2)] by (auto simp: chain_end_def split: if_splits)
  then show ?case by simp
next
  case (snoc c cs)
  then have "ds \<noteq> []"
    using genesis_no_hash [OF assms snoc.prems(1)] by (auto simp: chain_end_def)
  then obtain ds' d where ds: "ds = ds' @ [d]" by (metis rev_exhaust)
  let ?t = "\<lambda>r. chain_text (ad_prev r) (body_of ts r)"
  have c: "linked sha ts ''GENESIS'' cs" "ad_prev c = chain_end ''GENESIS'' cs" "hash_ok sha ts c"
    and d: "linked sha ts ''GENESIS'' ds'" "ad_prev d = chain_end ''GENESIS'' ds'" "hash_ok sha ts d"
    using snoc.prems ds by (simp_all add: linked_append)
  have "sha (?t c) = sha (?t d)"
    using snoc.prems(4) c(3) d(3) ds by (simp add: chain_end_def hash_ok_def chain_hash_def)
  moreover have "?t c \<in> set (texts_of ts (cs @ [c])) \<union> set (texts_of ts ds)"
    "?t d \<in> set (texts_of ts (cs @ [c])) \<union> set (texts_of ts ds)" using ds by (simp_all add: texts_of_def)
  ultimately have "?t c = ?t d" using snoc.prems(3) by (meson inj_onD)
  moreover have "CHR ''|'' \<notin> set (ad_prev c)" "CHR ''|'' \<notin> set (ad_prev d)"
    using linked_prev_plain [OF assms snoc.prems(1)] linked_prev_plain [OF assms snoc.prems(2)] ds by auto
  ultimately have eq: "ad_prev c = ad_prev d" "body_of ts c = body_of ts d"
    using chain_text_inj by blast+
  have "inj_on sha (set (texts_of ts cs) \<union> set (texts_of ts ds'))"
    using snoc.prems(3) ds by (auto simp: texts_of_def intro: inj_on_subset)
  from snoc.IH [OF c(1) d(1) this] eq c(2) d(2) ds show ?case by simp
qed

lemma linked_take: "linked sha ts h cs \<Longrightarrow> linked sha ts h (take n cs)"
  by (metis append_take_drop_id linked_append)

lemma linked_prefix_to:
  assumes "linked sha ts h ds" "r \<in> set ds"
  shows "\<exists>n. linked sha ts h (take n ds) \<and> chain_end h (take n ds) = ad_hash r"
proof -
  obtain i where "i < length ds" "ds ! i = r" using assms(2) by (metis in_set_conv_nth)
  then have "chain_end h (take (Suc i) ds) = ad_hash r"
    by (simp add: chain_end_def take_Suc_conv_app_nth)
  with linked_take [OF assms(1)] show ?thesis by blast
qed

text \<open>
  C27: Tampering shows. Whatever table verify accepts, if it contains a record with the hash that
  was the tail of a recorded log, then it is that log, record for record and in its order with
  the bodies as they were recorded, followed perhaps by later records; otherwise SHA-256
  collided.
\<close>

theorem tampering_is_evident:
  assumes "hex_sha sha" "sorted (times es)"
    and "audit_verify sha ts al = Some (True, [])"
    and "tail_of (run_log sha ts es) \<in> ad_hash ` set (tbl_list (al_table al))"
    and "inj_on sha (set (texts_of ts (tbl_list (al_table (run_log sha ts es))))
      \<union> set (texts_of ts (tbl_list (al_table al))))"
  shows "\<exists>same later. mset (same @ later) = mset (tbl_list (al_table al))
    \<and> linked sha ts ''GENESIS'' (same @ later)
    \<and> map (body_of ts) same = map (body_of ts) (tbl_list (al_table (run_log sha ts es)))"
proof -
  let ?al = "run_log sha ts es"
  have inv: "log_inv sha ts (times es) ?al" by (rule log_inv_run [OF assms(2)])
  have cs: "linked sha ts ''GENESIS'' (tbl_list (al_table ?al))"
    "tail_of ?al = chain_end ''GENESIS'' (tbl_list (al_table ?al))"
    using inv log_inv_list [OF inv] log_inv_tail [OF inv] by (simp_all add: log_inv_def)
  obtain ds where ds: "mset ds = mset (tbl_list (al_table al))" "linked sha ts ''GENESIS'' ds"
    using accepted_is_chain [OF assms(3)] by blast
  from assms(4) obtain r where r: "r \<in> set (tbl_list (al_table al))" "ad_hash r = tail_of ?al" by auto
  with ds(1) have "r \<in> set ds" by (metis mset_eq_setD)
  from linked_prefix_to [OF ds(2) this] obtain n
    where n: "linked sha ts ''GENESIS'' (take n ds)" "chain_end ''GENESIS'' (take n ds) = ad_hash r"
    by blast
  have "set (texts_of ts (take n ds)) \<subseteq> set (texts_of ts (tbl_list (al_table al)))"
    using mset_eq_setD [OF ds(1)] set_take_subset [of n ds] by (auto simp: texts_of_def)
  then have "inj_on sha (set (texts_of ts (tbl_list (al_table ?al))) \<union> set (texts_of ts (take n ds)))"
    using assms(5) by (elim inj_on_subset) blast
  from same_end_same_bodies [OF assms(1) cs(1) n(1) this] n(2) cs(2) r(2)
  have "map (body_of ts) (take n ds) = map (body_of ts) (tbl_list (al_table ?al))" by simp
  with ds show ?thesis by (intro exI [of _ "take n ds"] exI [of _ "drop n ds"]) simp
qed

text \<open>What the chain does not show: a log cut off at its end is accepted all the same.\<close>

lemma truncation_is_accepted:
  assumes "hex_sha sha" "sorted (times es)"
    and "inj_on sha (set (texts_of ts (tbl_list (al_table (run_log sha ts es)))))"
  shows "audit_verify sha ts \<lparr>al_table = take n (al_table (run_log sha ts es)), al_tail = None\<rparr>
    = Some (True, [])"
proof -
  let ?t = "al_table (run_log sha ts es)"
  have inv: "log_inv sha ts (times es) (run_log sha ts es)" by (rule log_inv_run [OF assms(2)])
  then have srt: "sorted (map ent_updated (map snd (take n ?t)))"
    by (metis append_take_drop_id log_inv_def map_append sorted_append)
  have "set (take n ?t) \<subseteq> set ?t" by (rule set_take_subset)
  with inv have wf: "wf_table (take n ?t)" by (auto simp: log_inv_def wf_table_def take_map [symmetric])
  have lst: "tbl_list (take n ?t) = take n (map snd ?t)"
    using srt by (simp add: tbl_list_def sort_key_id_if_sorted take_map)
  have "set (texts_of ts (take n (map snd ?t))) \<subseteq> set (texts_of ts (tbl_list ?t))"
    using log_inv_list [OF inv] set_take_subset [of n "map snd ?t"] by (auto simp: texts_of_def)
  with assms(3) have "inj_on sha (set (texts_of ts (take n (map snd ?t))))" by (rule inj_on_subset)
  moreover have "linked sha ts ''GENESIS'' (take n (map snd ?t))"
    using inv linked_take by (auto simp: log_inv_def)
  ultimately show ?thesis using wf lst by (intro chain_verifies [OF assms(1)]) simp_all
qed

section \<open>Witnesses\<close>

text \<open>A stand-in for SHA-256: the bits of the text, which holds no bar and no letter.\<close>

definition digit :: "bool \<Rightarrow> char" where
  "digit x = (if x then CHR ''1'' else CHR ''0'')"

lemma digit_eq [simp]: "digit x = digit y \<longleftrightarrow> x = y" "digit x \<noteq> CHR ''|''" "digit x \<noteq> CHR ''G''"
  by (simp_all add: digit_def)

fun char_bits :: "char \<Rightarrow> string" where
  "char_bits (Char a b c d e f g h) = [digit a, digit b, digit c, digit d, digit e, digit f, digit g, digit h]"

definition bits_sha :: "string \<Rightarrow> string" where
  "bits_sha s = concat (map char_bits s)"

lemma char_bits_plain: "x \<in> set (char_bits c) \<Longrightarrow> \<exists>b. x = digit b"
  by (cases c) auto

lemma hex_bits_sha: "hex_sha bits_sha"
  by (auto simp: hex_sha_def bits_sha_def) (drule char_bits_plain, use digit_eq in metis)+

lemma char_bits_append: "char_bits c @ s = char_bits d @ t \<longleftrightarrow> c = d \<and> s = t"
  by (cases c; cases d) simp

lemma bits_sha_inj: "bits_sha s = bits_sha t \<Longrightarrow> s = t"
proof (induction s arbitrary: t)
  case Nil
  then show ?case by (cases t) (auto simp: bits_sha_def elim: char_bits.elims)
next
  case (Cons c s)
  have "char_bits d \<noteq> []" for d by (cases d) simp
  with Cons show ?case by (cases t) (simp_all add: bits_sha_def char_bits_append)
qed

definition some_fields :: "string \<Rightarrow> audit_fields" where
  "some_fields a = \<lparr>af_action = a, af_actor = ''alice'', af_actor_type = ''user'', af_task_id = ''t1'',
     af_agent_id = [], af_resource = ''disk'', af_decision = ''granted'', af_risk = ''LOW'',
     af_authorization = [], af_result = ''success'', af_correlation = ''c|1''\<rparr>"

definition some_events :: "log_event list" where
  "some_events = [Recorded 1 ''a'' (some_fields ''read''), Restarted,
     Recorded 1 ''b'' (some_fields ''write''), Recorded 2 ''a'' (some_fields ''again'')]"

lemma some_events_sorted: "sorted (times some_events)"
  by (simp add: some_events_def)

lemma recorded_chain_verifies_witness:
  "audit_verify bits_sha (\<lambda>t. if t < 2 then ''early'' else ''late'')
     (run_log bits_sha (\<lambda>t. if t < 2 then ''early'' else ''late'') some_events) = Some (True, [])"
  by (rule recorded_chain_verifies [OF hex_bits_sha some_events_sorted])
    (rule inj_onI, erule bits_sha_inj)

lemma log_step_keeps:
  "al_table al \<noteq> [] \<or> (\<exists>now i f. e = Recorded now i f) \<Longrightarrow> al_table (log_step sha ts e al) \<noteq> []"
  by (auto simp: log_step_def audit_append_def Let_def tbl_create_def split: log_event.splits)

lemma some_events_recorded: "al_table (run_log sha ts some_events) \<noteq> []"
  unfolding run_log_def some_events_def fold_simps comp_apply by (intro log_step_keeps disjI2) blast

lemma tampering_is_evident_witness:
  "\<exists>same later. mset (same @ later) = mset (tbl_list (al_table (run_log bits_sha (\<lambda>_. ''now'') some_events)))
    \<and> linked bits_sha (\<lambda>_. ''now'') ''GENESIS'' (same @ later)
    \<and> map (body_of (\<lambda>_. ''now'')) same
        = map (body_of (\<lambda>_. ''now'')) (tbl_list (al_table (run_log bits_sha (\<lambda>_. ''now'') some_events)))"
proof (rule tampering_is_evident [OF hex_bits_sha some_events_sorted])
  let ?al = "run_log bits_sha (\<lambda>_. ''now'') some_events"
  have inv: "log_inv bits_sha (\<lambda>_. ''now'') (times some_events) ?al"
    by (rule log_inv_run [OF some_events_sorted])
  show "audit_verify bits_sha (\<lambda>_. ''now'') ?al = Some (True, [])"
    using inv log_inv_list [OF inv]
    by (intro chain_verifies [OF hex_bits_sha _ refl]) (auto simp: log_inv_def intro!: inj_onI dest: bits_sha_inj)
  show "tail_of ?al \<in> ad_hash ` set (tbl_list (al_table ?al))"
  proof -
    have "map snd (al_table ?al) \<noteq> []" using some_events_recorded by simp
    from last_in_set [OF this] show ?thesis
      using log_inv_tail [OF inv] log_inv_list [OF inv] some_events_recorded
      by (auto simp: chain_end_def simp del: set_map)
  qed
qed (auto intro!: inj_onI dest: bits_sha_inj)

end
