(* ===== verification/Effects.thy ===== *)
theory Effects
  imports Prelude
begin

text \<open>
  Operations that read and write the state of an object and may raise: the state is passed
  explicitly, and what was written before an exception stays written. Beside the combinators
  stand the rules the components prove their invariants with: \<open>keeps I m\<close> says that \<open>m\<close>
  preserves \<open>I\<close> however it ends, \<open>returns_in P m\<close> that what it returns satisfies \<open>P\<close>.
\<close>

type_synonym ('s, 'a) eff = "'s \<Rightarrow> 'a result \<times> 's"

named_theorems keeps_intros "rules for keeps"

definition eff_return :: "'a \<Rightarrow> ('s, 'a) eff" where
  "eff_return x s = (Inr x, s)"

definition eff_raise :: "exn \<Rightarrow> ('s, 'a) eff" where
  "eff_raise e s = (Inl e, s)"

definition eff_bind :: "('s, 'a) eff \<Rightarrow> ('a \<Rightarrow> ('s, 'b) eff) \<Rightarrow> ('s, 'b) eff" where
  "eff_bind m f s = (case m s of (Inl e, s') \<Rightarrow> (Inl e, s') | (Inr x, s') \<Rightarrow> f x s')"

definition eff_then :: "('s, 'a) eff \<Rightarrow> ('s, 'b) eff \<Rightarrow> ('s, 'b) eff" where
  "eff_then m n = eff_bind m (\<lambda>_. n)"

definition eff_modify :: "('s \<Rightarrow> 's) \<Rightarrow> ('s, unit) eff" where
  "eff_modify f s = (Inr (), f s)"

definition eff_gets :: "('s \<Rightarrow> 'a) \<Rightarrow> ('s, 'a) eff" where
  "eff_gets f s = (Inr (f s), s)"

text \<open>\<open>try: m except ...: h\<close>, where \<open>h\<close> answers \<open>None\<close> for what it does not catch.\<close>

definition eff_try :: "('s, 'a) eff \<Rightarrow> (exn \<Rightarrow> ('s, 'a) eff option) \<Rightarrow> ('s, 'a) eff" where
  "eff_try m h s =
     (case m s of
        (Inr x, s') \<Rightarrow> (Inr x, s')
      | (Inl e, s') \<Rightarrow> (case h e of None \<Rightarrow> (Inl e, s') | Some k \<Rightarrow> k s'))"

text \<open>\<open>try: m finally: f\<close> where \<open>f\<close> does not raise.\<close>

definition eff_finally :: "('s, 'a) eff \<Rightarrow> ('s \<Rightarrow> 's) \<Rightarrow> ('s, 'a) eff" where
  "eff_finally m f s = (case m s of (r, s') \<Rightarrow> (r, f s'))"

text \<open>A list comprehension whose element expression has effects.\<close>

fun eff_each :: "('a \<Rightarrow> ('s, 'b) eff) \<Rightarrow> 'a list \<Rightarrow> ('s, 'b list) eff" where
  "eff_each f [] = eff_return []"
| "eff_each f (x # xs) = eff_bind (f x) (\<lambda>y. eff_bind (eff_each f xs) (\<lambda>ys. eff_return (y # ys)))"

lemmas eff_defs =
  eff_return_def eff_raise_def eff_bind_def eff_then_def eff_modify_def eff_gets_def eff_try_def
  eff_finally_def

lemma eff_run [simp]:
  "eff_return x s = (Inr x, s)"
  "eff_raise e s = (Inl e, s)"
  "eff_modify f s = (Inr (), f s)"
  "eff_gets g s = (Inr (g s), s)"
  by (simp_all add: eff_defs)

lemma eff_bind_return [simp]: "eff_bind (eff_return x) f = f x"
  by (simp add: fun_eq_iff eff_defs)

subsection \<open>Preserving an invariant\<close>

definition keeps :: "('s \<Rightarrow> bool) \<Rightarrow> ('s, 'a) eff \<Rightarrow> bool" where
  "keeps I m \<longleftrightarrow> (\<forall>s. I s \<longrightarrow> I (snd (m s)))"

lemma keepsD: "keeps I m \<Longrightarrow> I s \<Longrightarrow> I (snd (m s))"
  by (simp add: keeps_def)

lemma keeps_run: "keeps I m \<Longrightarrow> I s \<Longrightarrow> m s = (r, s') \<Longrightarrow> I s'"
  by (auto simp: keeps_def)

lemma keeps_return [keeps_intros]: "keeps I (eff_return x)"
  by (simp add: keeps_def)

lemma keeps_raise [keeps_intros]: "keeps I (eff_raise e)"
  by (simp add: keeps_def)

lemma keeps_gets [keeps_intros]: "keeps I (eff_gets f)"
  by (simp add: keeps_def)

lemma keeps_modify [keeps_intros]: "(\<And>s. I s \<Longrightarrow> I (f s)) \<Longrightarrow> keeps I (eff_modify f)"
  by (simp add: keeps_def)

lemma keeps_bind [keeps_intros]:
  assumes "keeps I m" and "\<And>x. keeps I (f x)"
  shows "keeps I (eff_bind m f)"
  using assms unfolding keeps_def eff_bind_def by (fastforce split: prod.splits sum.splits)

lemma keeps_then [keeps_intros]: "keeps I m \<Longrightarrow> keeps I n \<Longrightarrow> keeps I (eff_then m n)"
  unfolding eff_then_def by (rule keeps_bind)

lemma keeps_try [keeps_intros]:
  assumes "keeps I m" and "\<And>e k. h e = Some k \<Longrightarrow> keeps I k"
  shows "keeps I (eff_try m h)"
  using assms unfolding keeps_def eff_try_def by (fastforce split: prod.splits sum.splits option.splits)

lemma keeps_finally [keeps_intros]:
  assumes "keeps I m" and "\<And>s. I s \<Longrightarrow> I (f s)"
  shows "keeps I (eff_finally m f)"
  using assms unfolding keeps_def eff_finally_def by (fastforce split: prod.splits)

lemma keeps_each: "(\<And>x. x \<in> set xs \<Longrightarrow> keeps I (f x)) \<Longrightarrow> keeps I (eff_each f xs)"
  by (induction xs) (auto intro!: keeps_intros)

lemma keeps_if [keeps_intros]: "(b \<Longrightarrow> keeps I m) \<Longrightarrow> (\<not> b \<Longrightarrow> keeps I n) \<Longrightarrow> keeps I (if b then m else n)"
  by simp

lemma keeps_option [keeps_intros]:
  "(x = None \<Longrightarrow> keeps I m) \<Longrightarrow> (\<And>y. x = Some y \<Longrightarrow> keeps I (f y)) \<Longrightarrow>
   keeps I (case x of None \<Rightarrow> m | Some y \<Rightarrow> f y)"
  by (cases x) simp_all

subsection \<open>What an operation returns\<close>

lemma eff_bind_Inr:
  "eff_bind m f s = (Inr y, s2) \<longleftrightarrow> (\<exists>x s1. m s = (Inr x, s1) \<and> f x s1 = (Inr y, s2))"
  by (auto simp: eff_bind_def split: prod.splits sum.splits)

lemma eff_bind_ok: "m s = (Inr x, s1) \<Longrightarrow> eff_bind m f s = f x s1"
  by (simp add: eff_bind_def)

lemma eff_each_length: "eff_each f xs s = (Inr ys, s') \<Longrightarrow> length ys = length xs"
  by (induction xs arbitrary: s ys) (auto simp: eff_bind_Inr)

subsection \<open>Operations that return\<close>

text \<open>\<open>runs m s Q\<close>: from \<open>s\<close> the operation returns, with a value and a state in \<open>Q\<close>.\<close>

definition runs :: "('s, 'a) eff \<Rightarrow> 's \<Rightarrow> ('a \<Rightarrow> 's \<Rightarrow> bool) \<Rightarrow> bool" where
  "runs m s Q = (case m s of (Inl e, s') \<Rightarrow> False | (Inr x, s') \<Rightarrow> Q x s')"

named_theorems runs_simps "weakest preconditions of the combinators"

lemma runs_iff: "runs m s Q \<longleftrightarrow> (\<exists>x s'. m s = (Inr x, s') \<and> Q x s')"
  by (auto simp: runs_def split: prod.split sum.split)

lemma runsI: "m s = (Inr x, s') \<Longrightarrow> Q x s' \<Longrightarrow> runs m s Q"
  by (simp add: runs_def)

lemma runsE: "runs m s Q \<Longrightarrow> (\<And>x s'. m s = (Inr x, s') \<Longrightarrow> Q x s' \<Longrightarrow> R) \<Longrightarrow> R"
  by (auto simp: runs_iff)

lemma runs_snd: "runs m s (\<lambda>_. Q) \<Longrightarrow> Q (snd (m s))"
  by (auto simp: runs_iff)

lemma runs_mono: "runs m s P \<Longrightarrow> (\<And>x s'. P x s' \<Longrightarrow> Q x s') \<Longrightarrow> runs m s Q"
  by (auto simp: runs_iff)

lemma runs_return [runs_simps]: "runs (eff_return x) s Q = Q x s"
  by (simp add: runs_def)

lemma runs_Pair [runs_simps]: "runs (Pair (Inr x)) s Q = Q x s"
  by (simp add: runs_def)

lemma runs_raise [runs_simps]: "runs (eff_raise e) s Q = False"
  by (simp add: runs_def)

lemma runs_modify [runs_simps]: "runs (eff_modify f) s Q = Q () (f s)"
  by (simp add: runs_def)

lemma runs_gets [runs_simps]: "runs (eff_gets f) s Q = Q (f s) s"
  by (simp add: runs_def)

lemma runs_bind [runs_simps]: "runs (eff_bind m f) s Q = runs m s (\<lambda>x s1. runs (f x) s1 Q)"
  by (simp add: runs_def eff_bind_def split: prod.split sum.split)

lemma runs_then [runs_simps]: "runs (eff_then m n) s Q = runs m s (\<lambda>_ s1. runs n s1 Q)"
  by (simp add: eff_then_def runs_bind)

lemma runs_try: "runs m s Q \<Longrightarrow> runs (eff_try m h) s Q"
  by (auto simp: runs_iff eff_try_def)

lemma runs_each_inv:
  "(\<And>x s. x \<in> set xs \<Longrightarrow> I s \<Longrightarrow> runs (f x) s (\<lambda>_. I)) \<Longrightarrow> I s \<Longrightarrow> runs (eff_each f xs) s (\<lambda>_. I)"
  by (induction xs arbitrary: s) (auto simp: runs_simps intro: runs_mono)

end
