(* ===== verification/Routing.thy ===== *)
theory Routing
  imports Prelude "HOL-Library.Product_Lexorder"
begin

text \<open>
  Compute routing (\<^verbatim>\<open>cloud/routing.py\<close>): which declared provider a task may run on.
  Availability is a function that may raise; the texts pydantic and Python's float formatting
  make of requirements, policies and amounts are parameters (\<open>routing_texts\<close>).
\<close>

datatype routing_error = NoRouteError string | PolicyRejectionError string

fun routing_error_text :: "routing_error \<Rightarrow> string" where
  "routing_error_text (NoRouteError r) = ''no compute route: '' @ r"
| "routing_error_text (PolicyRejectionError r) = ''compute policy rejects routing: '' @ r"

record requirements =
  rq_cpu :: string
  rq_ram :: real
  rq_gpu :: bool
  rq_vram :: real
  rq_runtime :: string
  rq_model :: string
  rq_context :: int
  rq_duration :: real
  rq_network :: bool
  rq_privacy :: string
  rq_max_cost :: real
  rq_deadline :: real

record provider_caps =
  pc_name :: string
  pc_local :: bool
  pc_gpu :: bool
  pc_vram :: real
  pc_ram :: real
  pc_runtimes :: "string list"
  pc_models :: "string list"
  pc_network :: bool
  pc_cost :: real
  pc_latency :: string
  pc_reliability :: real

record compute_policy =
  cp_allowed :: "string list"
  cp_blocked :: "string list"
  cp_max_cost :: real
  cp_local_privacy :: bool

record compute_target =
  ct_provider :: string
  ct_reason :: string
  ct_cost :: real

record routing_texts =
  rt_float :: "real \<Rightarrow> string"
  rt_money :: "real \<Rightarrow> string"
  rt_requirements :: "requirements \<Rightarrow> string"
  rt_policy :: "compute_policy \<Rightarrow> string"

record router =
  ro_providers :: "(string \<times> provider_caps) list"
  ro_available :: "string \<Rightarrow> bool result"
  ro_policy :: compute_policy
  ro_texts :: routing_texts

subsection \<open>Registration\<close>

definition register_provider :: "provider_caps \<Rightarrow> router \<Rightarrow> router result" where
  "register_provider caps r =
     (if pc_name caps = [] then Inl (DomainValidationError ''provider name must not be empty'')
      else Inr (r\<lparr>ro_providers := dict_set (pc_name caps) caps (ro_providers r)\<rparr>))"

subsection \<open>Filters\<close>

definition hourly_cost :: "requirements \<Rightarrow> provider_caps \<Rightarrow> real" where
  "hourly_cost rq caps = pc_cost caps * max 0 (rq_duration rq) / 3600"

definition is_available :: "router \<Rightarrow> string \<Rightarrow> bool" where
  "is_available r name = (case ro_available r name of Inl _ \<Rightarrow> False | Inr b \<Rightarrow> b)"

definition is_capable :: "requirements \<Rightarrow> provider_caps \<Rightarrow> bool" where
  "is_capable rq caps \<longleftrightarrow>
     \<not> (rq_gpu rq \<and> \<not> pc_gpu caps) \<and> \<not> (rq_vram rq > pc_vram caps) \<and> \<not> (rq_ram rq > pc_ram caps)
     \<and> \<not> (rq_runtime rq \<noteq> [] \<and> rq_runtime rq \<notin> set (pc_runtimes caps))
     \<and> \<not> (rq_model rq \<noteq> [] \<and> rq_model rq \<notin> set (pc_models caps))
     \<and> \<not> (rq_network rq \<and> \<not> pc_network caps)"

definition is_permitted :: "router \<Rightarrow> string \<Rightarrow> provider_caps \<Rightarrow> requirements \<Rightarrow> bool" where
  "is_permitted r name caps rq =
     (let p = ro_policy r in
      if name \<in> set (cp_blocked p) then False
      else if cp_allowed p \<noteq> [] \<and> name \<notin> set (cp_allowed p) then False
      else if cp_max_cost p \<ge> 0 \<and> pc_cost caps > cp_max_cost p then False
      else if rq_max_cost rq \<ge> 0 \<and> hourly_cost rq caps > rq_max_cost rq then False
      else True)"

definition local_only :: "router \<Rightarrow> requirements \<Rightarrow> bool" where
  "local_only r rq \<longleftrightarrow> rq_privacy rq = ''high'' \<and> cp_local_privacy (ro_policy r)"

definition routing_reason :: "routing_texts \<Rightarrow> requirements \<Rightarrow> provider_caps \<Rightarrow> string" where
  "routing_reason tx rq caps = join_str '', ''
     ((if pc_local caps then [''local''] else [])
      @ (if rq_gpu rq \<and> pc_gpu caps then [''gpu+'' @ rt_float tx (pc_vram caps) @ ''GB VRAM''] else [])
      @ [''$'' @ rt_money tx (pc_cost caps) @ ''/h''])"

definition validate_requirements :: "router \<Rightarrow> requirements \<Rightarrow> routing_error option" where
  "validate_requirements r rq =
     (if local_only r rq \<and> \<not> list_ex (\<lambda>(name, caps). pc_local caps \<and> is_available r name
            \<and> is_capable rq caps \<and> is_permitted r name caps rq) (ro_providers r)
      then Some (PolicyRejectionError
             ''high-privacy work requires local execution, which is unavailable or incapable'')
      else if rq_max_cost rq \<ge> 0
            \<and> \<not> list_ex (\<lambda>(name, caps). hourly_cost rq caps \<le> rq_max_cost rq) (ro_providers r)
      then Some (PolicyRejectionError ''no provider within max_cost'')
      else None)"

subsection \<open>Ranking\<close>

definition latency_rank :: "string \<Rightarrow> nat" where
  "latency_rank l = (if l = ''fast'' then 0 else if l = ''standard'' then 1 else 2)"

definition suitable :: "router \<Rightarrow> requirements \<Rightarrow> string \<times> provider_caps \<Rightarrow> bool" where
  "suitable r rq e =
     (case e of (name, caps) \<Rightarrow>
        if local_only r rq \<and> \<not> pc_local caps then False
        else if \<not> is_available r name then False
        else if \<not> is_capable rq caps then False
        else is_permitted r name caps rq)"

definition rank_key :: "requirements \<Rightarrow> string \<times> provider_caps \<Rightarrow> real \<times> nat \<times> real \<times> string" where
  "rank_key rq e =
     (case e of (name, caps) \<Rightarrow>
        (hourly_cost rq caps, latency_rank (pc_latency caps), - pc_reliability caps, name))"

definition as_target :: "router \<Rightarrow> requirements \<Rightarrow> string \<times> provider_caps \<Rightarrow> compute_target" where
  "as_target r rq e =
     (case e of (name, caps) \<Rightarrow>
        \<lparr>ct_provider = name, ct_reason = routing_reason (ro_texts r) rq caps,
         ct_cost = hourly_cost rq caps\<rparr>)"

definition rank :: "router \<Rightarrow> requirements \<Rightarrow> routing_error + compute_target list" where
  "rank r rq =
     (case validate_requirements r rq of
        Some e \<Rightarrow> Inl e
      | None \<Rightarrow> Inr (map (as_target r rq)
                      (sort_key (rank_key rq) (filter (suitable r rq) (ro_providers r)))))"

definition why_empty :: "router \<Rightarrow> requirements \<Rightarrow> string" where
  "why_empty r rq = ''requirements '' @ rt_requirements (ro_texts r) rq
     @ '' match no provider under policy '' @ rt_policy (ro_texts r) (ro_policy r)"

definition route :: "router \<Rightarrow> requirements \<Rightarrow> routing_error + compute_target" where
  "route r rq =
     (case rank r rq of
        Inl e \<Rightarrow> Inl e
      | Inr [] \<Rightarrow> Inl (NoRouteError (why_empty r rq))
      | Inr (t # ts) \<Rightarrow> Inr t)"

text \<open>The walk over ranked targets; \<open>text\<close> is \<open>str\<close> of an exception of the probe.\<close>

fun first_available ::
  "(exn \<Rightarrow> string) \<Rightarrow> (string \<Rightarrow> bool result) \<Rightarrow> string \<Rightarrow> compute_target list \<Rightarrow>
   routing_error + compute_target" where
  "first_available text probe why [] =
     Inl (NoRouteError (''all providers failed probing ('' @ why @ '')''))"
| "first_available text probe why (t # ts) =
     (case probe (ct_provider t) of
        Inl e \<Rightarrow> first_available text probe (text e) ts
      | Inr True \<Rightarrow> Inr t
      | Inr False \<Rightarrow> first_available text probe (ct_provider t @ '' probe failed'') ts)"

definition select_first_available ::
  "(exn \<Rightarrow> string) \<Rightarrow> (string \<Rightarrow> bool result) \<Rightarrow> compute_target list \<Rightarrow> routing_error + compute_target" where
  "select_first_available text probe ranked = first_available text probe [] ranked"

subsection \<open>What a route is\<close>

lemma suitable_iff:
  "suitable r rq (name, caps) \<longleftrightarrow>
     (local_only r rq \<longrightarrow> pc_local caps) \<and> is_available r name \<and> is_capable rq caps
     \<and> is_permitted r name caps rq"
  by (simp add: suitable_def)

lemma rank_sorted:
  assumes "rank r rq = Inr ts"
  shows "\<exists>es. ts = map (as_target r rq) es \<and> set es = {e \<in> set (ro_providers r). suitable r rq e}
           \<and> sorted (map (rank_key rq) es)"
  using assms by (auto simp: rank_def split: option.splits)

lemma route_Inr:
  assumes "route r rq = Inr t"
  shows "\<exists>e \<in> set (ro_providers r). suitable r rq e \<and> t = as_target r rq e
           \<and> (\<forall>d \<in> set (ro_providers r). suitable r rq d \<longrightarrow> rank_key rq e \<le> rank_key rq d)"
proof -
  obtain ts where "rank r rq = Inr (t # ts)"
    using assms by (auto simp: route_def split: sum.splits list.splits)
  from rank_sorted [OF this] obtain e es where
    "t = as_target r rq e" "set (e # es) = {e \<in> set (ro_providers r). suitable r rq e}"
    "sorted (map (rank_key rq) (e # es))"
    by (auto simp: Cons_eq_map_conv)
  then show ?thesis by (intro bexI [of _ e]) auto
qed

text \<open>
  What the operator asks of a route, said without the router: \<open>fit_for\<close> is a machine that has what
  the task requires, \<open>in_policy\<close> a provider the policy lets the task use, \<open>at_least_as_good\<close> the order
  of preference - the hourly price for the duration first, then the latency class, then the
  reliability, then the name.
\<close>

definition price :: "requirements \<Rightarrow> provider_caps \<Rightarrow> real" where
  "price rq caps = pc_cost caps * max 0 (rq_duration rq) / 3600"

definition fit_for :: "requirements \<Rightarrow> provider_caps \<Rightarrow> bool" where
  "fit_for rq caps \<longleftrightarrow>
     (rq_gpu rq \<longrightarrow> pc_gpu caps) \<and> rq_vram rq \<le> pc_vram caps \<and> rq_ram rq \<le> pc_ram caps
     \<and> (rq_runtime rq = [] \<or> rq_runtime rq \<in> set (pc_runtimes caps))
     \<and> (rq_model rq = [] \<or> rq_model rq \<in> set (pc_models caps))
     \<and> (rq_network rq \<longrightarrow> pc_network caps)"

definition in_policy :: "compute_policy \<Rightarrow> requirements \<Rightarrow> string \<Rightarrow> provider_caps \<Rightarrow> bool" where
  "in_policy p rq name caps \<longleftrightarrow>
     name \<notin> set (cp_blocked p) \<and> (cp_allowed p = [] \<or> name \<in> set (cp_allowed p))
     \<and> (cp_max_cost p < 0 \<or> pc_cost caps \<le> cp_max_cost p)
     \<and> (rq_max_cost rq < 0 \<or> price rq caps \<le> rq_max_cost rq)
     \<and> (rq_privacy rq = ''high'' \<and> cp_local_privacy p \<longrightarrow> pc_local caps)"

definition faster :: "string \<Rightarrow> string \<Rightarrow> bool" where
  "faster l m \<longleftrightarrow> l = ''fast'' \<and> m \<noteq> ''fast'' \<or> l = ''standard'' \<and> m \<notin> {''fast'', ''standard''}"

definition at_least_as_good ::
  "requirements \<Rightarrow> string \<Rightarrow> provider_caps \<Rightarrow> string \<Rightarrow> provider_caps \<Rightarrow> bool" where
  "at_least_as_good rq n c m d \<longleftrightarrow>
     (if price rq c \<noteq> price rq d then price rq c < price rq d
      else if faster (pc_latency c) (pc_latency d) then True
      else if faster (pc_latency d) (pc_latency c) then False
      else if pc_reliability c \<noteq> pc_reliability d then pc_reliability c > pc_reliability d
      else n \<le> m)"

lemma hourly_price: "hourly_cost rq caps = price rq caps"
  by (simp add: hourly_cost_def price_def)

lemma is_capable_fit: "is_capable rq caps = fit_for rq caps"
  by (auto simp: is_capable_def fit_for_def)

lemma is_permitted_policy:
  "(local_only r rq \<longrightarrow> pc_local caps) \<and> is_permitted r name caps rq \<longleftrightarrow> in_policy (ro_policy r) rq name caps"
  by (auto simp: is_permitted_def in_policy_def local_only_def hourly_price Let_def)

lemma suitable_spec:
  "suitable r rq (name, caps) \<longleftrightarrow>
     ro_available r name = Inr True \<and> fit_for rq caps \<and> in_policy (ro_policy r) rq name caps"
  using is_permitted_policy [of r rq caps name]
  by (auto simp: suitable_iff is_capable_fit is_available_def split: sum.splits)

lemma faster_rank: "faster l m \<longleftrightarrow> latency_rank l < latency_rank m"
  by (simp add: faster_def latency_rank_def)

lemma rank_key_order:
  "rank_key rq (n, c) \<le> rank_key rq (m, d) \<longleftrightarrow> at_least_as_good rq n c m d"
  by (auto simp: rank_key_def at_least_as_good_def faster_rank less_eq_prod_def hourly_price)

text \<open>
  C34: The provider a task is routed to is declared, answers as available, has what the task
  requires and is one the policy lets it use (so high-privacy work stays local when the policy asks
  for it), and no other such provider is cheaper for the task, or as cheap and of a faster latency
  class, or as fast and more reliable; the name decides a tie.
\<close>

theorem route_is_best:
  assumes "route r rq = Inr t"
  shows "\<exists>caps. (ct_provider t, caps) \<in> set (ro_providers r)
     \<and> ro_available r (ct_provider t) = Inr True \<and> fit_for rq caps
     \<and> in_policy (ro_policy r) rq (ct_provider t) caps \<and> ct_cost t = price rq caps
     \<and> (\<forall>(name, other) \<in> set (ro_providers r).
          ro_available r name = Inr True \<and> fit_for rq other \<and> in_policy (ro_policy r) rq name other
          \<longrightarrow> at_least_as_good rq (ct_provider t) caps name other)"
proof -
  obtain e where e: "e \<in> set (ro_providers r)" "suitable r rq e" "t = as_target r rq e"
      "\<forall>d \<in> set (ro_providers r). suitable r rq d \<longrightarrow> rank_key rq e \<le> rank_key rq d"
    using route_Inr [OF assms] by blast
  obtain name caps where "e = (name, caps)" by fastforce
  then show ?thesis
    using e by (intro exI [of _ caps])
      (auto simp: as_target_def suitable_spec rank_key_order hourly_price)
qed

lemma suitable_local:
  "local_only r rq \<Longrightarrow> suitable r rq (name, caps) \<longleftrightarrow>
     pc_local caps \<and> is_available r name \<and> is_capable rq caps \<and> is_permitted r name caps rq"
  by (simp add: suitable_iff)

lemma suitable_affordable:
  "suitable r rq (name, caps) \<Longrightarrow> rq_max_cost rq \<ge> 0 \<Longrightarrow> hourly_cost rq caps \<le> rq_max_cost rq"
  by (auto simp: suitable_iff is_permitted_def Let_def split: if_splits)

lemma validate_suitable:
  assumes "e \<in> set (ro_providers r)" and "suitable r rq e"
  shows "validate_requirements r rq = None"
proof -
  obtain name caps where e: "e = (name, caps)" by fastforce
  then show ?thesis
    using assms suitable_local [of r rq name caps] suitable_affordable [of r rq name caps]
    by (fastforce simp: validate_requirements_def list_ex_iff)
qed

lemma rank_filter:
  "rank r rq = (case validate_requirements r rq of
     Some e \<Rightarrow> Inl e
   | None \<Rightarrow> Inr (map (as_target r rq) (sort_key (rank_key rq) (filter (suitable r rq) (ro_providers r)))))"
  by (simp add: rank_def)

text \<open>
  C39: Routing fails exactly when no declared provider qualifies, and says why: a rejection by
  policy for high-privacy work that has no local home, a rejection when nothing is within the
  cost, and otherwise that there is no route. There is no silent default.
\<close>

theorem route_fails_exactly:
  "(\<not> is_inr (route r rq)) = (filter (suitable r rq) (ro_providers r) = [])
   \<and> (is_inr (route r rq) \<or> route r rq = Inl
       (if local_only r rq
        then PolicyRejectionError ''high-privacy work requires local execution, which is unavailable or incapable''
        else if rq_max_cost rq \<ge> 0 \<and> filter (\<lambda>e. hourly_cost rq (snd e) \<le> rq_max_cost rq) (ro_providers r) = []
        then PolicyRejectionError ''no provider within max_cost''
        else NoRouteError (why_empty r rq)))"
proof (cases "filter (suitable r rq) (ro_providers r)")
  case Nil
  then have "\<not> list_ex (\<lambda>(name, caps). pc_local caps \<and> is_available r name \<and> is_capable rq caps
      \<and> is_permitted r name caps rq) (ro_providers r)" if "local_only r rq"
    using that by (auto simp: list_ex_iff filter_empty_conv suitable_iff)
  then show ?thesis
    using Nil by (auto simp: route_def rank_def validate_requirements_def list_ex_iff filter_empty_conv
        split: option.splits)
next
  case (Cons e es)
  then have "e \<in> set (ro_providers r)" "suitable r rq e" by (auto simp: filter_eq_Cons_iff)
  then have "validate_requirements r rq = None" by (rule validate_suitable)
  then obtain ts where ts: "rank r rq = Inr ts" "length ts = Suc (length es)"
    using Cons by (auto simp: rank_def)
  then show ?thesis using Cons by (cases ts) (auto simp: route_def)
qed

text \<open>The fallback walk returns the first target whose probe says yes.\<close>

lemma first_available_Inr:
  "first_available text probe why ts = Inr t \<Longrightarrow>
     \<exists>us vs. ts = us @ t # vs \<and> probe (ct_provider t) = Inr True
       \<and> (\<forall>u \<in> set us. probe (ct_provider u) \<noteq> Inr True)"
proof (induction ts arbitrary: why)
  case Nil
  then show ?case by simp
next
  case (Cons u ts)
  show ?case
  proof (cases "probe (ct_provider u) = Inr True")
    case True
    then show ?thesis using Cons.prems by (intro exI [of _ "[]"] exI [of _ ts]) simp
  next
    case False
    then obtain why' where "first_available text probe why' ts = Inr t"
      using Cons.prems by (auto split: sum.splits bool.splits)
    from Cons.IH [OF this] obtain us vs where
      "ts = us @ t # vs" "probe (ct_provider t) = Inr True" "\<forall>u \<in> set us. probe (ct_provider u) \<noteq> Inr True"
      by blast
    then show ?thesis using False by (intro exI [of _ "u # us"] exI [of _ vs]) simp
  qed
qed

lemma first_available_Inl:
  "first_available text probe why ts = Inl e \<Longrightarrow> u \<in> set ts \<Longrightarrow> probe (ct_provider u) \<noteq> Inr True"
  by (induction ts arbitrary: why) (auto split: sum.splits bool.splits)

subsection \<open>A concrete router\<close>

definition example_caps :: "string \<Rightarrow> bool \<Rightarrow> real \<Rightarrow> provider_caps" where
  "example_caps name here cost =
     \<lparr>pc_name = name, pc_local = here, pc_gpu = True, pc_vram = 24, pc_ram = 64, pc_runtimes = [''python''],
      pc_models = [], pc_network = True, pc_cost = cost, pc_latency = ''fast'', pc_reliability = 1\<rparr>"

definition example_router :: router where
  "example_router =
     \<lparr>ro_providers = [(''cloud'', example_caps ''cloud'' False 1), (''pc'', example_caps ''pc'' True 2)],
      ro_available = (\<lambda>name. Inr True),
      ro_policy = \<lparr>cp_allowed = [], cp_blocked = [], cp_max_cost = - 1, cp_local_privacy = True\<rparr>,
      ro_texts = \<lparr>rt_float = (\<lambda>x. ''24.0''), rt_money = (\<lambda>x. ''2.00''), rt_requirements = (\<lambda>x. []),
                  rt_policy = (\<lambda>x. [])\<rparr>\<rparr>"

definition example_requirements :: "string \<Rightarrow> requirements" where
  "example_requirements privacy =
     \<lparr>rq_cpu = [], rq_ram = 8, rq_gpu = True, rq_vram = 8, rq_runtime = ''python'', rq_model = [],
      rq_context = 0, rq_duration = 3600, rq_network = False, rq_privacy = privacy, rq_max_cost = - 1,
      rq_deadline = 0\<rparr>"

text \<open>High-privacy work goes to the local provider although the cloud is cheaper.\<close>

lemma example_route:
  "route example_router (example_requirements ''high'')
   = Inr \<lparr>ct_provider = ''pc'', ct_reason = ''local, gpu+24.0GB VRAM, $2.00/h'', ct_cost = 2\<rparr>"
  by code_simp

theorem route_is_best_witness:
  "\<exists>caps. (''pc'', caps) \<in> set (ro_providers example_router) \<and> pc_local caps
     \<and> fit_for (example_requirements ''high'') caps \<and> price (example_requirements ''high'') caps = 2"
  using route_is_best [OF example_route]
  by (auto simp: example_router_def example_requirements_def in_policy_def)

end
