(* ===== verification/Scheduler.thy ===== *)
theory Scheduler
  imports Store Effects Routing
begin

text \<open>
  The global scheduler (\<^verbatim>\<open>scheduler/scheduler.py\<close>) over a snapshot table of jobs. The
  table does not fail; every save takes the next reading of the clock (\<open>job.touch()\<close> just before
  a save is overwritten by the save's own). The dispatch function is a parameter that acts on
  a world of its own and may raise; the hour of a time is a parameter. What the audit callable
  is given is the list of notes: its own failures are swallowed.
\<close>

datatype sched_status = J_QUEUED | J_RUNNING | J_SUCCEEDED | J_FAILED | J_CANCELLED

fun sched_value :: "sched_status \<Rightarrow> string" where
  "sched_value J_QUEUED = ''QUEUED''"
| "sched_value J_RUNNING = ''RUNNING''"
| "sched_value J_SUCCEEDED = ''SUCCEEDED''"
| "sched_value J_FAILED = ''FAILED''"
| "sched_value J_CANCELLED = ''CANCELLED''"

record sched_job = entity +
  sj_goal :: string
  sj_requirements :: requirements
  sj_priority :: int
  sj_deadline :: "real option"
  sj_deps :: "string list"
  sj_key :: string
  sj_agent :: string
  sj_hint :: string
  sj_status :: sched_status
  sj_attempts :: int
  sj_max :: int
  sj_provider :: string
  sj_summary :: string

record sched_entry =
  sn_action :: string
  sn_task :: string
  sn_resource :: string
  sn_decision :: string
  sn_result :: string
  sn_agent :: string

record 'w sched_cfg =
  sg_router :: router
  sg_dispatch :: "(sched_job \<Rightarrow> compute_target \<Rightarrow> 'w \<Rightarrow> string result \<times> 'w) option"
  sg_audit :: bool
  sg_quiet :: "(int \<times> int) option"
  sg_clock :: "nat \<Rightarrow> real"
  sg_hour :: "real \<Rightarrow> int"
  sg_text :: "exn \<Rightarrow> string"

record 'w sched =
  sd_jobs :: "sched_job table"
  sd_reads :: nat
  sd_notes :: "sched_entry list"
  sd_world :: 'w

definition new_sched :: "'w \<Rightarrow> 'w sched" where
  "new_sched w = \<lparr>sd_jobs = [], sd_reads = 0, sd_notes = [], sd_world = w\<rparr>"

subsection \<open>SqliteScheduledJobRepository\<close>

definition job_save :: "'w sched_cfg \<Rightarrow> sched_job \<Rightarrow> 'w sched \<Rightarrow> 'w sched" where
  "job_save c j s =
     s\<lparr>sd_jobs := tbl_put (sg_clock c (sd_reads s)) j (sd_jobs s), sd_reads := sd_reads s + 1\<rparr>"

definition job_create :: "'w sched_cfg \<Rightarrow> sched_job \<Rightarrow> ('w sched, sched_job) eff" where
  "job_create c j s =
     (case tbl_create (sg_clock c (sd_reads s)) j (sd_jobs s) of
        Inl e \<Rightarrow> (Inl e, s\<lparr>sd_reads := sd_reads s + 1\<rparr>)
      | Inr (x, t) \<Rightarrow> (Inr x, s\<lparr>sd_jobs := t, sd_reads := sd_reads s + 1\<rparr>))"

definition job_list :: "'w sched \<Rightarrow> sched_job list" where
  "job_list s = tbl_list (sd_jobs s)"

definition sched_note :: "'w sched_cfg \<Rightarrow> sched_job \<Rightarrow> string \<Rightarrow> string \<Rightarrow> 'w sched \<Rightarrow> 'w sched" where
  "sched_note c j action outcome s =
     (if sg_audit c
      then s\<lparr>sd_notes := sd_notes s @ [\<lparr>sn_action = action, sn_task = ent_id j,
               sn_resource = (if sj_provider j \<noteq> [] then sj_provider j else ''scheduler''),
               sn_decision = outcome, sn_result = sj_summary j, sn_agent = sj_agent j\<rparr>]\<rparr>
      else s)"

subsection \<open>Dependency cycles\<close>

text \<open>
  The depth-first walk of \<open>_assert_acyclic\<close> over the dependency lists of the known jobs. \<open>path\<close> is
  the set \<open>visiting\<close>, \<open>seen\<close> the set \<open>visited\<close>; \<open>None\<close> is the exception.
\<close>

type_synonym dep_graph = "(string \<times> string list) list"

definition sched_deps_of :: "dep_graph \<Rightarrow> string \<Rightarrow> string list" where
  "sched_deps_of g n = (case map_of g n of None \<Rightarrow> [] | Some ds \<Rightarrow> ds)"

function visit :: "dep_graph \<Rightarrow> string list \<Rightarrow> string list \<Rightarrow> string list \<Rightarrow> string list option" where
  "visit g path [] seen = Some seen"
| "visit g path (n # ns) seen =
     (if n \<in> set path then None
      else if n \<in> set seen \<or> n \<notin> set (keys g) then visit g path ns seen
      else case visit g (n # path) (sched_deps_of g n) seen of
          None \<Rightarrow> None
        | Some seen' \<Rightarrow> visit g path ns (n # seen'))"
  by pat_completeness auto

termination
proof (relation "measures [\<lambda>(g, path, ns, seen). card (set (keys g) - set path),
                           \<lambda>(g, path, ns, seen). length ns]", goal_cases)
  case (3 g path n ns seen)
  then have "card (set (keys g) - insert n (set path)) < card (set (keys g) - set path)"
    by (intro psubset_card_mono) auto
  then show ?case by simp
qed auto

definition assert_acyclic :: "sched_job list \<Rightarrow> sched_job \<Rightarrow> bool" where
  "assert_acyclic existing candidate =
     (let g = dict_set (ent_id candidate) (sj_deps candidate)
                (fold (\<lambda>j d. dict_set (ent_id j) (sj_deps j) d) existing [])
      in visit g [] (keys g) [] \<noteq> None)"

subsection \<open>Submission and cancellation\<close>

definition submit :: "'w sched_cfg \<Rightarrow> sched_job \<Rightarrow> ('w sched, sched_job) eff" where
  "submit c j s =
     (if sj_max j < 1 then eff_raise (DomainValidationError ''max_attempts must be >= 1'') s
      else if ent_id j \<in> set (sj_deps j)
        then eff_raise (DomainValidationError ''a job cannot depend on itself'') s
      else
        let existing = job_list s in
        case (if sj_key j \<noteq> [] then find (\<lambda>e. sj_key e = sj_key j) existing else None) of
          Some e \<Rightarrow> eff_return e s
        | None \<Rightarrow>
            let missing = filter (\<lambda>d. d \<notin> ent_id ` set existing) (sj_deps j) in
            if missing \<noteq> []
              then eff_raise (DomainValidationError (''unknown dependencies: '' @ join_str '', '' missing)) s
            else if \<not> assert_acyclic existing j
              then eff_raise (DomainValidationError ''dependency cycle detected'') s
            else job_create c j s)"

definition cancel_job :: "'w sched_cfg \<Rightarrow> string \<Rightarrow> ('w sched, sched_job) eff" where
  "cancel_job c i s =
     (case tbl_get i (sd_jobs s) of
        None \<Rightarrow> eff_raise (ResourceNotFoundError ''ScheduledJob'' i) s
      | Some j \<Rightarrow>
          if sj_status j \<noteq> J_QUEUED
          then eff_raise (DomainValidationError (''job '' @ repr_str i @ '' is not queued'')) s
          else let j' = j\<lparr>sj_status := J_CANCELLED\<rparr>
               in eff_return j' (sched_note c j' ''scheduler.cancel'' ''CANCELLED'' (job_save c j' s)))"

definition resume_interrupted :: "'w sched_cfg \<Rightarrow> 'w sched \<Rightarrow> sched_job list \<times> 'w sched" where
  "resume_interrupted c s =
     (let running = filter (\<lambda>j. sj_status j = J_RUNNING) (job_list s);
          reset = map (\<lambda>j. j\<lparr>sj_status := J_QUEUED\<rparr>) running
      in (reset, fold (job_save c) reset s))"

subsection \<open>Dispatch\<close>

definition in_quiet_hours :: "'w sched_cfg \<Rightarrow> real \<Rightarrow> bool" where
  "in_quiet_hours c moment =
     (case sg_quiet c of
        None \<Rightarrow> False
      | Some (start, stop) \<Rightarrow>
          let hour = sg_hour c moment in
          if start = stop then False
          else if start < stop then start \<le> hour \<and> hour < stop
          else hour \<ge> start \<or> hour < stop)"

definition deadline_missed :: "real \<Rightarrow> sched_job \<Rightarrow> bool" where
  "deadline_missed moment j = (case sj_deadline j of None \<Rightarrow> False | Some d \<Rightarrow> moment > d)"

definition sched_deps_ok :: "sched_job table \<Rightarrow> sched_job \<Rightarrow> bool" where
  "sched_deps_ok by_id j =
     list_all (\<lambda>d. case map_of by_id d of None \<Rightarrow> False | Some x \<Rightarrow> sj_status x = J_SUCCEEDED) (sj_deps j)"

text \<open>
  One job in the loop of \<open>_ready\<close>. A job that misses its deadline here was queued and becomes
  failed: for the dependencies checked after it, it has not succeeded in either state.
\<close>

definition ready_step ::
  "'w sched_cfg \<Rightarrow> real \<Rightarrow> bool \<Rightarrow> sched_job table \<Rightarrow> sched_job \<Rightarrow>
   sched_job list \<times> 'w sched \<Rightarrow> sched_job list \<times> 'w sched" where
  "ready_step c moment apply_deadlines by_id j acc =
     (if sj_status j \<noteq> J_QUEUED then acc
      else if deadline_missed moment j
        then (if apply_deadlines
              then let j' = j\<lparr>sj_status := J_FAILED, sj_summary := ''deadline missed before execution''\<rparr>
                   in (fst acc, sched_note c j' ''scheduler.deadline'' ''FAILED'' (job_save c j' (snd acc)))
              else acc)
      else if \<not> sched_deps_ok by_id j then acc
      else if in_quiet_hours c moment then acc
      else (fst acc @ [j], snd acc))"

definition ready_order :: "sched_job \<Rightarrow> int \<times> real \<times> string" where
  "ready_order j = (- sj_priority j, ent_created j, ent_id j)"

definition ready_jobs ::
  "'w sched_cfg \<Rightarrow> real \<Rightarrow> bool \<Rightarrow> 'w sched \<Rightarrow> sched_job list \<times> 'w sched" where
  "ready_jobs c moment apply_deadlines s =
     (let by_id = map (\<lambda>j. (ent_id j, j)) (job_list s);
          (ready, s') = fold (ready_step c moment apply_deadlines by_id) (map snd by_id) ([], s)
      in (sort_key ready_order ready, s'))"

definition finish_job ::
  "'w sched_cfg \<Rightarrow> sched_job \<Rightarrow> sched_status \<Rightarrow> string \<Rightarrow> string \<Rightarrow> 'w sched \<Rightarrow> sched_job \<times> 'w sched" where
  "finish_job c j st summary action s =
     (let j' = j\<lparr>sj_status := st, sj_summary := summary\<rparr>
      in (j', sched_note c j' action (sched_value st) (job_save c j' s)))"

definition begin_job :: "sched_job \<Rightarrow> sched_job" where
  "begin_job j = j\<lparr>sj_status := J_RUNNING, sj_attempts := sj_attempts j + 1\<rparr>"

definition run_one :: "'w sched_cfg \<Rightarrow> sched_job \<Rightarrow> 'w sched \<Rightarrow> sched_job \<times> 'w sched" where
  "run_one c j s =
     (let j1 = begin_job j;
          s1 = job_save c j1 s
      in case sg_dispatch c of
           None \<Rightarrow> finish_job c j1 J_FAILED ''scheduler has no dispatch executor configured''
                     ''scheduler.dispatch'' s1
         | Some dispatch \<Rightarrow>
             (case route (sg_router c) (sj_requirements j1) of
                Inl e \<Rightarrow> finish_job c j1 J_FAILED (''routing failed: '' @ routing_error_text e)
                           ''scheduler.route'' s1
              | Inr target \<Rightarrow>
                  let j2 = j1\<lparr>sj_provider := ct_provider target\<rparr>;
                      s2 = job_save c j2 s1;
                      (r, w) = dispatch j2 target (sd_world s2);
                      s3 = s2\<lparr>sd_world := w\<rparr>
                  in case r of
                       Inr summary \<Rightarrow> finish_job c j2 J_SUCCEEDED summary ''scheduler.dispatch'' s3
                     | Inl e \<Rightarrow>
                         if sj_attempts j2 < sj_max j2
                         then let j3 = j2\<lparr>sj_status := J_QUEUED,
                                sj_summary := ''attempt '' @ int_text (sj_attempts j2) @ '' failed: '' @ sg_text c e\<rparr>
                              in (j3, sched_note c j3 ''scheduler.retry'' ''QUEUED'' (job_save c j3 s3))
                         else finish_job c j2 J_FAILED (''attempts exhausted: '' @ sg_text c e)
                                ''scheduler.retry'' s3))"

fun run_ready :: "'w sched_cfg \<Rightarrow> sched_job list \<Rightarrow> 'w sched \<Rightarrow> sched_job list \<times> 'w sched" where
  "run_ready c [] s = ([], s)"
| "run_ready c (j # js) s =
     (let (x, s1) = run_one c j s; (xs, s2) = run_ready c js s1 in (x # xs, s2))"

definition sched_tick :: "'w sched_cfg \<Rightarrow> real \<Rightarrow> 'w sched \<Rightarrow> sched_job list \<times> 'w sched" where
  "sched_tick c moment s = (let (ready, s1) = ready_jobs c moment True s in run_ready c ready s1)"

definition pending :: "'w sched_cfg \<Rightarrow> real \<Rightarrow> 'w sched \<Rightarrow> sched_job list" where
  "pending c moment s = fst (ready_jobs c moment False s)"

subsection \<open>The jobs by their identifier\<close>

text \<open>A row up to the time of its last save, and the table as a function of the identifier.\<close>

definition unstamped :: "sched_job \<Rightarrow> sched_job" where
  "unstamped j = touch 0 j"

definition jobs_view :: "'w sched \<Rightarrow> string \<Rightarrow> sched_job option" where
  "jobs_view s i = map_option unstamped (tbl_get i (sd_jobs s))"

lemma unstamped_simps [simp]:
  "ent_id (unstamped j) = ent_id j" "sj_status (unstamped j) = sj_status j"
  "sj_deps (unstamped j) = sj_deps j" "sj_attempts (unstamped j) = sj_attempts j"
  "sj_max (unstamped j) = sj_max j" "sj_deadline (unstamped j) = sj_deadline j"
  "unstamped (touch t j) = unstamped j"
  by (simp_all add: unstamped_def touch_def)

lemma job_save_view [simp]: "jobs_view (job_save c j s) = (jobs_view s)(ent_id j \<mapsto> unstamped j)"
  by (auto simp: jobs_view_def job_save_def tbl_put_def store_simps tbl_get_def)

definition job_keys :: "'w sched \<Rightarrow> string list" where
  "job_keys s = keys (sd_jobs s)"

lemma job_save_keys [simp]:
  "job_keys (job_save c j s) = (if ent_id j \<in> set (job_keys s) then job_keys s else job_keys s @ [ent_id j])"
  by (simp add: job_keys_def job_save_def tbl_put_def store_simps dict_set_new keys_dict_set_mem
        del: set_map)

definition wf_sched :: "'w sched \<Rightarrow> bool" where
  "wf_sched s = wf_table (sd_jobs s)"

lemma job_save_wf [simp]: "wf_sched s \<Longrightarrow> wf_sched (job_save c j s)"
  using snapshot_table.inv_put by (simp add: job_save_def wf_sched_def)

lemma note_simps [simp]:
  "jobs_view (sched_note c j a r s) = jobs_view s" "sd_world (sched_note c j a r s) = sd_world s"
  "job_keys (sched_note c j a r s) = job_keys s" "wf_sched (sched_note c j a r s) = wf_sched s"
  by (simp_all add: sched_note_def jobs_view_def job_keys_def wf_sched_def fun_eq_iff)

lemma world_simps [simp]:
  "jobs_view (s\<lparr>sd_world := w\<rparr>) = jobs_view s" "sd_world (job_save c j s) = sd_world s"
  "job_keys (s\<lparr>sd_world := w\<rparr>) = job_keys s" "wf_sched (s\<lparr>sd_world := w\<rparr>) = wf_sched s"
  by (simp_all add: jobs_view_def job_save_def job_keys_def wf_sched_def fun_eq_iff)

lemma view_keys: "i \<in> set (job_keys s) \<longleftrightarrow> jobs_view s i \<noteq> None"
  by (simp add: jobs_view_def tbl_get_def job_keys_def map_of_None_keys del: set_map)

lemma view_id: "wf_sched s \<Longrightarrow> jobs_view s i = Some j \<Longrightarrow> ent_id j = i"
  by (auto simp: jobs_view_def tbl_get_def wf_sched_def dest: wf_table_get)

lemma view_list: "wf_sched s \<Longrightarrow> j \<in> set (job_list s) \<Longrightarrow> jobs_view s (ent_id j) = Some (unstamped j)"
  by (simp add: jobs_view_def job_list_def set_tbl_list wf_sched_def)

lemma list_view:
  assumes "wf_sched s" and "jobs_view s i = Some x"
  shows "\<exists>j \<in> set (job_list s). ent_id j = i \<and> unstamped j = x"
proof -
  obtain j where j: "tbl_get i (sd_jobs s) = Some j" "x = unstamped j"
    using assms(2) by (auto simp: jobs_view_def)
  then have "ent_id j = i" using assms(1) by (auto simp: tbl_get_def wf_sched_def dest: wf_table_get)
  then show ?thesis using j assms(1) by (intro bexI [of _ j]) (auto simp: job_list_def set_tbl_list wf_sched_def)
qed

lemma distinct_job_list: "wf_sched s \<Longrightarrow> distinct (map ent_id (job_list s))"
  by (simp add: wf_sched_def job_list_def distinct_tbl_list)

text \<open>What no step after the submission changes of a job.\<close>

definition same_spec :: "sched_job \<Rightarrow> sched_job \<Rightarrow> bool" where
  "same_spec x y \<longleftrightarrow> ent_id x = ent_id y \<and> sj_deps x = sj_deps y \<and> sj_max x = sj_max y"

lemma same_spec_unstamped [simp]:
  "same_spec (unstamped x) y = same_spec x y" "same_spec x (unstamped y) = same_spec x y"
  by (simp_all add: same_spec_def)

text \<open>How one dispatch leaves its job.\<close>

definition after_run :: "sched_job \<Rightarrow> sched_job \<Rightarrow> bool" where
  "after_run j x \<longleftrightarrow> same_spec x j \<and> sj_attempts x = sj_attempts j + 1
     \<and> (sj_status x \<in> {J_SUCCEEDED, J_FAILED} \<or> sj_status x = J_QUEUED \<and> sj_attempts x < sj_max x)"

lemma run_one_effect:
  assumes "run_one c j s = (x, s')" and "wf_sched s" and "ent_id j \<in> set (job_keys s)"
  shows "wf_sched s'" and "job_keys s' = job_keys s"
    and "jobs_view s' = (jobs_view s)(ent_id j \<mapsto> unstamped x)" and "after_run j x"
proof -
  have "wf_sched s' \<and> job_keys s' = job_keys s
    \<and> jobs_view s' = (jobs_view s)(ent_id j \<mapsto> unstamped x) \<and> after_run j x"
    using assms
    by (auto simp: run_one_def Let_def finish_job_def begin_job_def after_run_def same_spec_def
          split: option.splits sum.splits prod.splits if_splits)
  then show "wf_sched s'" "job_keys s' = job_keys s"
    "jobs_view s' = (jobs_view s)(ent_id j \<mapsto> unstamped x)" "after_run j x"
    by auto
qed

lemma run_ready_effect:
  assumes "wf_sched s" and "distinct (map ent_id js)" and "ent_id ` set js \<subseteq> set (job_keys s)"
    and "run_ready c js s = (xs, s')"
  shows "wf_sched s' \<and> job_keys s' = job_keys s
     \<and> (\<forall>i. i \<notin> ent_id ` set js \<longrightarrow> jobs_view s' i = jobs_view s i)
     \<and> (\<forall>j \<in> set js. \<exists>x. jobs_view s' (ent_id j) = Some x \<and> after_run j x)"
  using assms
proof (induction js arbitrary: s xs)
  case Nil
  then show ?case by simp
next
  case (Cons j js)
  obtain x s1 ys where one: "run_one c j s = (x, s1)" and rest: "run_ready c js s1 = (ys, s')"
    using Cons.prems(4) by (auto split: prod.splits)
  have mem: "ent_id j \<in> set (job_keys s)" using Cons.prems(3) by simp
  note e = run_one_effect [OF one Cons.prems(1) mem]
  have ih: "wf_sched s' \<and> job_keys s' = job_keys s1
     \<and> (\<forall>i. i \<notin> ent_id ` set js \<longrightarrow> jobs_view s' i = jobs_view s1 i)
     \<and> (\<forall>j \<in> set js. \<exists>x. jobs_view s' (ent_id j) = Some x \<and> after_run j x)"
    using Cons.prems(2,3) e by (intro Cons.IH [OF e(1) _ _ rest]) auto
  have "ent_id j \<notin> ent_id ` set js" using Cons.prems(2) by simp
  moreover have "after_run j (unstamped x)" using e(4) by (auto simp: after_run_def)
  ultimately show ?case using ih e(2,3) by auto
qed

definition is_due :: "'w sched_cfg \<Rightarrow> real \<Rightarrow> 'w sched \<Rightarrow> sched_job \<Rightarrow> bool" where
  "is_due c moment s j \<longleftrightarrow> sj_status j = J_QUEUED \<and> \<not> deadline_missed moment j
     \<and> (\<forall>d \<in> set (sj_deps j). \<exists>x. jobs_view s d = Some x \<and> sj_status x = J_SUCCEEDED)
     \<and> \<not> in_quiet_hours c moment"

definition expires :: "real \<Rightarrow> sched_job \<Rightarrow> bool" where
  "expires moment j \<longleftrightarrow> sj_status j = J_QUEUED \<and> deadline_missed moment j"

definition expired_job :: "sched_job \<Rightarrow> sched_job" where
  "expired_job j = j\<lparr>sj_status := J_FAILED, sj_summary := ''deadline missed before execution''\<rparr>"

lemma expired_job_simps [simp]:
  "ent_id (expired_job j) = ent_id j" "sj_status (expired_job j) = J_FAILED"
  "same_spec (expired_job j) j" "sj_attempts (expired_job j) = sj_attempts j"
  "unstamped (expired_job j) = expired_job (unstamped j)"
  by (simp_all add: expired_job_def same_spec_def unstamped_def touch_def)

definition expire_step :: "'w sched_cfg \<Rightarrow> real \<Rightarrow> sched_job \<Rightarrow> 'w sched \<Rightarrow> 'w sched" where
  "expire_step c moment j s =
     (if expires moment j
      then sched_note c (expired_job j) ''scheduler.deadline'' ''FAILED'' (job_save c (expired_job j) s)
      else s)"

lemma fold_ready_step:
  "fold (ready_step c moment True by_id) js acc =
     (fst acc @ filter (\<lambda>j. sj_status j = J_QUEUED \<and> \<not> deadline_missed moment j
         \<and> sched_deps_ok by_id j \<and> \<not> in_quiet_hours c moment) js,
      fold (expire_step c moment) js (snd acc))"
  by (induction js arbitrary: acc) (auto simp: ready_step_def expire_step_def expires_def expired_job_def Let_def)

lemma fold_expire_step:
  "wf_sched s \<Longrightarrow> ent_id ` set js \<subseteq> set (job_keys s) \<Longrightarrow> distinct (map ent_id js) \<Longrightarrow>
   (\<forall>j \<in> set js. jobs_view s (ent_id j) = Some (unstamped j)) \<Longrightarrow>
   wf_sched (fold (expire_step c moment) js s) \<and> job_keys (fold (expire_step c moment) js s) = job_keys s
   \<and> (\<forall>i. jobs_view (fold (expire_step c moment) js s) i =
        (if i \<in> ent_id ` set js
         then map_option (\<lambda>j. if expires moment j then expired_job j else j) (jobs_view s i)
         else jobs_view s i))
   \<and> sd_world (fold (expire_step c moment) js s) = sd_world s"
proof (induction js arbitrary: s)
  case Nil
  then show ?case by simp
next
  case (Cons j js)
  let ?s1 = "expire_step c moment j s"
  have k: "ent_id j \<in> set (job_keys s)" using Cons.prems(2) by simp
  have n: "ent_id j \<notin> ent_id ` set js" using Cons.prems(3) by simp
  have v: "jobs_view s (ent_id j) = Some (unstamped j)" using Cons.prems(4) by simp
  have e: "expires moment (unstamped j) = expires moment j"
    by (simp add: expires_def deadline_missed_def)
  have s1: "wf_sched ?s1" "job_keys ?s1 = job_keys s" "sd_world ?s1 = sd_world s"
    "jobs_view ?s1 = (jobs_view s)(ent_id j \<mapsto> (if expires moment j then expired_job (unstamped j) else unstamped j))"
    using Cons.prems(1) k v by (auto simp: expire_step_def fun_eq_iff)
  have "\<forall>x \<in> set js. jobs_view ?s1 (ent_id x) = Some (unstamped x)"
    using Cons.prems(4) distinct_map_Cons [OF Cons.prems(3)] by (simp add: s1(4))
  then show ?case
    using Cons.IH [of ?s1] Cons.prems(2,3) s1 n e by (auto simp: v)
qed

lemma map_of_job_list:
  assumes "wf_sched s"
  shows "map_of (map (\<lambda>j. (ent_id j, j)) (job_list s)) i = tbl_get i (sd_jobs s)"
proof (cases "tbl_get i (sd_jobs s)")
  case None
  then show ?thesis
    using assms by (auto simp: map_of_eq_None_iff job_list_def set_tbl_list wf_sched_def)
next
  case (Some j)
  then have j: "ent_id j = i" using assms by (auto simp: tbl_get_def wf_sched_def dest: wf_table_get)
  then have "(i, j) \<in> set (map (\<lambda>j. (ent_id j, j)) (job_list s))"
    using Some assms by (auto simp: job_list_def set_tbl_list wf_sched_def)
  then show ?thesis
    using Some distinct_job_list [OF assms] by (simp add: comp_def)
qed

lemma sched_deps_ok_iff:
  "wf_sched s \<Longrightarrow> sched_deps_ok (map (\<lambda>j. (ent_id j, j)) (job_list s)) j \<longleftrightarrow>
     (\<forall>d \<in> set (sj_deps j). \<exists>x. jobs_view s d = Some x \<and> sj_status x = J_SUCCEEDED)"
  by (auto simp: sched_deps_ok_def list_all_iff map_of_job_list jobs_view_def split: option.splits)

lemma ready_jobs_effect:
  assumes "wf_sched s" and "ready_jobs c moment True s = (ready, s1)"
  shows "set ready = {j \<in> set (job_list s). is_due c moment s j}" and "distinct (map ent_id ready)"
    and "sorted (map ready_order ready)" and "wf_sched s1" and "job_keys s1 = job_keys s"
    and "jobs_view s1 i = map_option (\<lambda>j. if expires moment j then expired_job j else j) (jobs_view s i)"
    and "sd_world s1 = sd_world s"
proof -
  let ?R = "\<lambda>j. sj_status j = J_QUEUED \<and> \<not> deadline_missed moment j
         \<and> sched_deps_ok (map (\<lambda>j. (ent_id j, j)) (job_list s)) j \<and> \<not> in_quiet_hours c moment"
  have eq: "ready = sort_key ready_order (filter ?R (job_list s))"
    "s1 = fold (expire_step c moment) (job_list s) s"
    using assms(2) by (auto simp: ready_jobs_def Let_def fold_ready_step comp_def)
  show "set ready = {j \<in> set (job_list s). is_due c moment s j}"
    by (auto simp: eq(1) is_due_def sched_deps_ok_iff [OF assms(1)])
  have "distinct (map ent_id (filter ?R (job_list s)))"
    using distinct_job_list [OF assms(1)] by (rule distinct_map_filter)
  moreover have "mset (map ent_id ready) = mset (map ent_id (filter ?R (job_list s)))"
    unfolding eq(1) mset_map mset_sort ..
  ultimately show "distinct (map ent_id ready)" using mset_eq_imp_distinct_iff by blast
  show "sorted (map ready_order ready)" by (simp add: eq(1))
  have ids: "ent_id ` set (job_list s) = set (job_keys s)"
    using view_list [OF assms(1)] list_view [OF assms(1)] by (force simp: view_keys)
  have all: "\<forall>j \<in> set (job_list s). jobs_view s (ent_id j) = Some (unstamped j)"
    using view_list [OF assms(1)] by blast
  note f = fold_expire_step [OF assms(1) _ distinct_job_list [OF assms(1)] all, of c moment]
  then show "wf_sched s1" "job_keys s1 = job_keys s" "sd_world s1 = sd_world s"
    "jobs_view s1 i = map_option (\<lambda>j. if expires moment j then expired_job j else j) (jobs_view s i)"
    using view_keys [of i s] by (simp_all add: eq(2) ids)
qed

text \<open>One pass over the table, job by job.\<close>

lemma tick_effect:
  assumes "wf_sched s"
  shows "wf_sched (snd (sched_tick c moment s))" and "job_keys (snd (sched_tick c moment s)) = job_keys s"
    and "jobs_view s i = None \<Longrightarrow> jobs_view (snd (sched_tick c moment s)) i = None"
    and "jobs_view s i = Some j \<Longrightarrow> \<exists>x. jobs_view (snd (sched_tick c moment s)) i = Some x
      \<and> (if is_due c moment s j then after_run j x
         else x = (if expires moment j then expired_job j else j))"
proof -
  obtain ready s1 where r: "ready_jobs c moment True s = (ready, s1)" by fastforce
  note e = ready_jobs_effect [OF assms r]
  obtain xs s' where run: "run_ready c ready s1 = (xs, s')" by fastforce
  have t: "snd (sched_tick c moment s) = s'" by (simp add: sched_tick_def r run)
  have "ent_id ` set ready \<subseteq> set (job_keys s1)"
    using e(1,5) view_list [OF assms] by (auto simp: view_keys)
  note f = run_ready_effect [OF e(4,2) this run]
  show "wf_sched (snd (sched_tick c moment s))" "job_keys (snd (sched_tick c moment s)) = job_keys s"
    using f e(5) by (simp_all add: t)
  then show "jobs_view s i = None \<Longrightarrow> jobs_view (snd (sched_tick c moment s)) i = None"
    by (metis view_keys)
  assume j: "jobs_view s i = Some j"
  obtain l where l: "l \<in> set (job_list s)" "ent_id l = i" "unstamped l = j"
    using list_view [OF assms j] by blast
  have due: "is_due c moment s l = is_due c moment s j"
    using l(3) by (auto simp: is_due_def deadline_missed_def)
  show "\<exists>x. jobs_view (snd (sched_tick c moment s)) i = Some x
      \<and> (if is_due c moment s j then after_run j x
         else x = (if expires moment j then expired_job j else j))"
  proof (cases "is_due c moment s j")
    case True
    then have "l \<in> set ready" using due e(1) l(1) by simp
    then obtain x where "jobs_view s' i = Some x" "after_run l x" using f l(2) by blast
    then show ?thesis using True l(3) by (auto simp: t after_run_def)
  next
    case False
    have "i \<notin> ent_id ` set ready"
    proof
      assume "i \<in> ent_id ` set ready"
      then obtain k where k: "k \<in> set (job_list s)" "is_due c moment s k" "ent_id k = i"
        using e(1) by auto
      then have "k = l" using l(1,2) distinct_job_list [OF assms] by (auto simp: distinct_map inj_on_def)
      then show False using k(2) False due by simp
    qed
    then show ?thesis using f e(6) [of i] j False by (simp add: t)
  qed
qed

subsection \<open>Dependency order\<close>

text \<open>
  Rows keep the place they were inserted at, and a submitted job depends on stored ones only:
  the table is in dependency order.
\<close>

definition earlier :: "'w sched \<Rightarrow> string \<Rightarrow> string set" where
  "earlier s i = set (takeWhile (\<lambda>k. k \<noteq> i) (job_keys s))"

definition ordered_jobs :: "'w sched \<Rightarrow> bool" where
  "ordered_jobs s \<longleftrightarrow> (\<forall>i j. jobs_view s i = Some j \<longrightarrow> set (sj_deps j) \<subseteq> earlier s i)"

datatype sched_op =
    Submit sched_job
  | Cancel string
  | Tick real
  | Resume
  | Killed real nat

text \<open>The process dies while the \<open>n\<close>-th job of a pass is with the dispatch function.\<close>

definition killed_in_dispatch :: "'w sched_cfg \<Rightarrow> real \<Rightarrow> nat \<Rightarrow> 'w sched \<Rightarrow> 'w sched" where
  "killed_in_dispatch c moment n s =
     (let (ready, s1) = ready_jobs c moment True s;
          s2 = snd (run_ready c (take n ready) s1)
      in case drop n ready of [] \<Rightarrow> s2 | j # _ \<Rightarrow> job_save c (begin_job j) s2)"

fun sched_op_run :: "'w sched_cfg \<Rightarrow> sched_op \<Rightarrow> 'w sched \<Rightarrow> 'w sched" where
  "sched_op_run c (Submit j) s = snd (submit c j s)"
| "sched_op_run c (Cancel i) s = snd (cancel_job c i s)"
| "sched_op_run c (Tick moment) s = snd (sched_tick c moment s)"
| "sched_op_run c Resume s = snd (resume_interrupted c s)"
| "sched_op_run c (Killed moment n) s = killed_in_dispatch c moment n s"

subsection \<open>What can happen to a job\<close>

definition deps_done :: "'w sched \<Rightarrow> sched_job \<Rightarrow> bool" where
  "deps_done s j \<longleftrightarrow> (\<forall>d \<in> set (sj_deps j). \<exists>x. jobs_view s d = Some x \<and> sj_status x = J_SUCCEEDED)"

inductive row_step :: "bool \<Rightarrow> 'w sched \<Rightarrow> sched_job \<Rightarrow> sched_job \<Rightarrow> bool" for k s where
  stays: "row_step k s j j"
| dispatched: "sj_status j = J_QUEUED \<Longrightarrow> deps_done s j \<Longrightarrow> after_run j x \<Longrightarrow> row_step k s j x"
| expired: "sj_status j = J_QUEUED \<Longrightarrow> row_step k s j (expired_job j)"
| cancelled: "sj_status j = J_QUEUED \<Longrightarrow> row_step k s j (j\<lparr>sj_status := J_CANCELLED\<rparr>)"
| interrupted: "k \<Longrightarrow> sj_status j = J_QUEUED \<Longrightarrow> deps_done s j \<Longrightarrow> row_step k s j (begin_job j)"
| requeued: "sj_status j = J_RUNNING \<Longrightarrow> row_step k s j (j\<lparr>sj_status := J_QUEUED\<rparr>)"

lemma begin_job_simps [simp]:
  "ent_id (begin_job j) = ent_id j" "sj_status (begin_job j) = J_RUNNING" "same_spec (begin_job j) j"
  "sj_attempts (begin_job j) = sj_attempts j + 1" "unstamped (begin_job j) = begin_job (unstamped j)"
  by (simp_all add: begin_job_def same_spec_def unstamped_def touch_def)

lemma status_update_simps [simp]:
  "unstamped (j\<lparr>sj_status := x\<rparr>) = (unstamped j)\<lparr>sj_status := x\<rparr>" "same_spec (j\<lparr>sj_status := x\<rparr>) j"
  by (simp_all add: same_spec_def unstamped_def touch_def)

lemma same_spec_refl [simp]: "same_spec j j"
  by (simp add: same_spec_def)

lemma row_step_spec: "row_step k s j x \<Longrightarrow> same_spec x j"
  by (induction rule: row_step.induct) (auto simp: after_run_def)

text \<open>A step of the whole table (\<open>k\<close>: the process may be killed in it): rows step, and a submission may append one.\<close>

definition rows_step :: "bool \<Rightarrow> 'w sched \<Rightarrow> 'w sched \<Rightarrow> bool" where
  "rows_step k s s' \<longleftrightarrow> wf_sched s' \<and> job_keys s' = job_keys s
     \<and> (\<forall>i j. jobs_view s i = Some j \<longrightarrow> (\<exists>x. jobs_view s' i = Some x \<and> row_step k s j x))"

lemma submit_effect:
  assumes "wf_sched s"
  shows "(wf_sched (snd (submit c j s)) \<and> jobs_view (snd (submit c j s)) = jobs_view s
            \<and> job_keys (snd (submit c j s)) = job_keys s)
       \<or> (wf_sched (snd (submit c j s)) \<and> ent_id j \<notin> set (job_keys s)
            \<and> job_keys (snd (submit c j s)) = job_keys s @ [ent_id j]
            \<and> jobs_view (snd (submit c j s)) = (jobs_view s)(ent_id j \<mapsto> unstamped j)
            \<and> set (sj_deps j) \<subseteq> set (job_keys s) \<and> sj_max j \<ge> 1)"
proof -
  have ids: "ent_id ` set (job_list s) = set (job_keys s)"
    using view_list [OF assms] list_view [OF assms] by (force simp: view_keys)
  have reads [simp]: "jobs_view (s\<lparr>sd_reads := n\<rparr>) = jobs_view s" "job_keys (s\<lparr>sd_reads := n\<rparr>) = job_keys s"
    "wf_sched (s\<lparr>sd_reads := n\<rparr>) = wf_sched s" for n
    by (simp_all add: jobs_view_def job_keys_def wf_sched_def fun_eq_iff)
  have create: "(wf_sched (snd (job_create c j s)) \<and> jobs_view (snd (job_create c j s)) = jobs_view s
            \<and> job_keys (snd (job_create c j s)) = job_keys s)
       \<or> (wf_sched (snd (job_create c j s)) \<and> ent_id j \<notin> set (job_keys s)
            \<and> job_keys (snd (job_create c j s)) = job_keys s @ [ent_id j]
            \<and> jobs_view (snd (job_create c j s)) = (jobs_view s)(ent_id j \<mapsto> unstamped j))"
  proof (cases "tbl_create (sg_clock c (sd_reads s)) j (sd_jobs s)")
    case (Inl e)
    then show ?thesis using assms by (simp add: job_create_def)
  next
    case (Inr y)
    obtain x t where y: "y = (x, t)" by fastforce
    have n: "ent_id j \<notin> set (job_keys s)" and t: "t = dict_set (ent_id j) x (sd_jobs s)"
      and x: "x = touch (sg_clock c (sd_reads s)) j"
      using Inr y by (auto simp: store_simps tbl_get_def job_keys_def map_of_None_keys)
    have "wf_table t" using wf_table_dict_set [of "sd_jobs s" x] assms by (simp add: t x wf_sched_def)
    then show ?thesis
      using n Inr y
      by (auto simp: job_create_def wf_sched_def job_keys_def jobs_view_def tbl_get_def t x fun_eq_iff
            keys_dict_set_new del: set_map)
  qed
  show ?thesis
    using create assms
    by (auto simp: submit_def Let_def filter_empty_conv ids split: option.split)
qed

lemma cancel_rows: "wf_sched s \<Longrightarrow> rows_step False s (snd (cancel_job c i s))"
proof (cases "tbl_get i (sd_jobs s)")
  case None
  assume "wf_sched s"
  then show ?thesis using None by (auto simp: cancel_job_def rows_step_def intro: row_step.stays)
next
  case (Some j)
  assume wf: "wf_sched s"
  then have v: "jobs_view s i = Some (unstamped j)" "ent_id j = i"
    using Some by (auto simp: jobs_view_def tbl_get_def wf_sched_def dest: wf_table_get)
  then have k: "i \<in> set (job_keys s)" by (simp add: view_keys)
  show ?thesis
  proof (cases "sj_status j = J_QUEUED")
    case True
    have "row_step False s (unstamped j) ((unstamped j)\<lparr>sj_status := J_CANCELLED\<rparr>)"
      using True by (intro row_step.cancelled) simp
    then show ?thesis
      using Some True v k wf by (auto simp: cancel_job_def rows_step_def Let_def intro: row_step.stays)
  next
    case False
    then show ?thesis using Some wf by (auto simp: cancel_job_def rows_step_def intro: row_step.stays)
  qed
qed

lemma is_due_deps: "is_due c moment s j \<Longrightarrow> sj_status j = J_QUEUED \<and> deps_done s j"
  by (simp add: is_due_def deps_done_def)

lemma tick_rows: "wf_sched s \<Longrightarrow> rows_step False s (snd (sched_tick c moment s))"
proof -
  assume wf: "wf_sched s"
  have "\<exists>x. jobs_view (snd (sched_tick c moment s)) i = Some x \<and> row_step False s j x"
    if "jobs_view s i = Some j" for i j
    using tick_effect(4) [OF wf that, of c moment]
    by (auto simp: expires_def intro: row_step.stays row_step.expired row_step.dispatched
          dest!: is_due_deps split: if_splits)
  then show ?thesis using tick_effect(1,2) [OF wf] by (auto simp: rows_step_def)
qed

lemma fold_save_effect:
  "wf_sched s \<Longrightarrow> distinct (map ent_id js) \<Longrightarrow> ent_id ` set js \<subseteq> set (job_keys s) \<Longrightarrow>
   wf_sched (fold (job_save c) js s) \<and> job_keys (fold (job_save c) js s) = job_keys s
   \<and> (\<forall>i. i \<notin> ent_id ` set js \<longrightarrow> jobs_view (fold (job_save c) js s) i = jobs_view s i)
   \<and> (\<forall>j \<in> set js. jobs_view (fold (job_save c) js s) (ent_id j) = Some (unstamped j))"
proof (induction js arbitrary: s)
  case Nil
  then show ?case by simp
next
  case (Cons j js)
  then show ?case using Cons.IH [of "job_save c j s"] by auto
qed

lemma resume_rows:
  assumes "wf_sched s"
  shows "rows_step False s (snd (resume_interrupted c s))"
proof -
  let ?js = "map (\<lambda>j. j\<lparr>sj_status := J_QUEUED\<rparr>) (filter (\<lambda>j. sj_status j = J_RUNNING) (job_list s))"
  have "map ent_id ?js = map ent_id (filter (\<lambda>j. sj_status j = J_RUNNING) (job_list s))" by simp
  then have d: "distinct (map ent_id ?js)"
    using distinct_map_filter [OF distinct_job_list [OF assms]] by metis
  have k: "ent_id ` set ?js \<subseteq> set (job_keys s)"
    using view_list [OF assms] by (auto simp: view_keys)
  note f0 = fold_save_effect [OF assms d k, of c]
  then have f: "wf_sched (fold (job_save c) ?js s)" "job_keys (fold (job_save c) ?js s) = job_keys s"
    "\<And>i. i \<notin> ent_id ` set ?js \<Longrightarrow> jobs_view (fold (job_save c) ?js s) i = jobs_view s i"
    "\<And>j. j \<in> set ?js \<Longrightarrow> jobs_view (fold (job_save c) ?js s) (ent_id j) = Some (unstamped j)"
    by blast+
  have "\<exists>x. jobs_view (fold (job_save c) ?js s) i = Some x \<and> row_step False s j x" if j: "jobs_view s i = Some j" for i j
  proof (cases "i \<in> ent_id ` set ?js")
    case False
    then show ?thesis using f(3) j by (auto intro: row_step.stays)
  next
    case True
    then obtain l where l: "l \<in> set (job_list s)" "sj_status l = J_RUNNING" "ent_id l = i" by auto
    have "unstamped l = j" using view_list [OF assms l(1)] l(3) j by simp
    moreover have "jobs_view (fold (job_save c) ?js s) i = Some (unstamped (l\<lparr>sj_status := J_QUEUED\<rparr>))"
      using f(4) [of "l\<lparr>sj_status := J_QUEUED\<rparr>"] l by auto
    ultimately show ?thesis using l(2) by (auto intro!: row_step.requeued)
  qed
  then show ?thesis using f(1,2) by (simp add: resume_interrupted_def Let_def rows_step_def)
qed

lemma killed_rows:
  assumes "wf_sched s"
  shows "rows_step True s (killed_in_dispatch c moment n s)"
proof -
  obtain ready s1 where r: "ready_jobs c moment True s = (ready, s1)" by fastforce
  note e = ready_jobs_effect [OF assms r]
  obtain xs s2 where run: "run_ready c (take n ready) s1 = (xs, s2)" by fastforce
  have keys1: "ent_id ` set ready \<subseteq> set (job_keys s1)"
    using e(1,5) view_list [OF assms] by (auto simp: view_keys)
  have sub: "set (take n ready) \<subseteq> set ready" by (rule set_take_subset)
  have "distinct (map ent_id (take n ready))" using e(2) by (metis distinct_take take_map)
  moreover have "ent_id ` set (take n ready) \<subseteq> set (job_keys s1)" using keys1 sub by blast
  ultimately have f: "wf_sched s2" "job_keys s2 = job_keys s1"
    "\<And>i. i \<notin> ent_id ` set (take n ready) \<Longrightarrow> jobs_view s2 i = jobs_view s1 i"
    "\<And>j. j \<in> set (take n ready) \<Longrightarrow> \<exists>x. jobs_view s2 (ent_id j) = Some x \<and> after_run j x"
    using run_ready_effect [OF e(4) _ _ run] by auto
  have row2: "\<exists>x. jobs_view s2 i = Some x \<and> row_step True s j x" if j: "jobs_view s i = Some j" for i j
  proof (cases "i \<in> ent_id ` set (take n ready)")
    case True
    then obtain l where l: "l \<in> set (take n ready)" "ent_id l = i" by auto
    then have m: "l \<in> set (job_list s)" "is_due c moment s l" using sub e(1) by auto
    then have "unstamped l = j" using view_list [OF assms m(1)] l(2) j by simp
    moreover obtain x where "jobs_view s2 i = Some x" "after_run l x" using f(4) l by blast
    moreover have "deps_done s j = deps_done s l" using calculation(1) by (auto simp: deps_done_def)
    ultimately show ?thesis
      using is_due_deps [OF m(2)] by (intro exI [of _ x]) (auto simp: after_run_def intro!: row_step.dispatched)
  next
    case False
    then show ?thesis
      using f(3) e(6) [of i] j by (auto simp: expires_def intro: row_step.intros)
  qed
  show ?thesis
  proof (cases "drop n ready")
    case Nil
    then show ?thesis using row2 f(1,2) e(5) r run by (simp add: killed_in_dispatch_def rows_step_def)
  next
    case (Cons l ls)
    then have split: "ready = take n ready @ l # ls" by (metis append_take_drop_id)
    then have l: "l \<in> set ready" by (metis in_set_conv_decomp)
    then have m: "l \<in> set (job_list s)" "is_due c moment s l" using e(1) by auto
    have k: "ent_id l \<in> set (job_keys s2)" using keys1 l f(2) by auto
    have "jobs_view s (ent_id l) = Some (unstamped l)" using view_list [OF assms m(1)] .
    moreover have "deps_done s (unstamped l) = deps_done s l" by (simp add: deps_done_def)
    moreover have "row_step True s (unstamped l) (begin_job (unstamped l))"
      using is_due_deps [OF m(2)] by (intro row_step.interrupted) (auto simp: deps_done_def)
    ultimately show ?thesis
      using row2 f(1,2) e(5) r run k Cons by (auto simp: killed_in_dispatch_def rows_step_def)
  qed
qed

definition kills :: "sched_op \<Rightarrow> bool" where
  "kills a = (case a of Killed _ _ \<Rightarrow> True | _ \<Rightarrow> False)"

lemma sched_op_rows:
  assumes "wf_sched s"
  shows "rows_step (kills a) s (sched_op_run c a s)
    \<or> (\<exists>j. a = Submit j \<and> wf_sched (sched_op_run c a s) \<and> ent_id j \<notin> set (job_keys s)
          \<and> job_keys (sched_op_run c a s) = job_keys s @ [ent_id j]
          \<and> jobs_view (sched_op_run c a s) = (jobs_view s)(ent_id j \<mapsto> unstamped j)
          \<and> set (sj_deps j) \<subseteq> set (job_keys s) \<and> sj_max j \<ge> 1)"
proof (cases a)
  case (Submit j)
  then show ?thesis
    using submit_effect [OF assms, of c j] by (auto simp: rows_step_def kills_def intro: row_step.stays)
qed (use assms cancel_rows tick_rows resume_rows killed_rows in \<open>auto simp: kills_def\<close>)

subsection \<open>Invariants of every run\<close>

definition sched_run :: "'w sched_cfg \<Rightarrow> sched_op list \<Rightarrow> 'w \<Rightarrow> 'w sched" where
  "sched_run c ops w = fold (sched_op_run c) ops (new_sched w)"

definition fresh_job :: "sched_job \<Rightarrow> bool" where
  "fresh_job j \<longleftrightarrow> sj_status j = J_QUEUED \<and> sj_attempts j = 0"

definition fresh_op :: "sched_op \<Rightarrow> bool" where
  "fresh_op a = (case a of Submit j \<Rightarrow> fresh_job j | _ \<Rightarrow> True)"

definition row_ok :: "'w sched \<Rightarrow> sched_job \<Rightarrow> bool" where
  "row_ok s j \<longleftrightarrow> sj_max j \<ge> 1 \<and> sj_attempts j \<ge> 0
     \<and> (sj_status j \<in> {J_SUCCEEDED, J_RUNNING} \<longrightarrow> sj_attempts j > 0)
     \<and> (sj_attempts j > 0 \<longrightarrow> deps_done s j)"

definition sched_ok :: "'w sched \<Rightarrow> bool" where
  "sched_ok s \<longleftrightarrow> wf_sched s \<and> ordered_jobs s \<and> (\<forall>i j. jobs_view s i = Some j \<longrightarrow> row_ok s j)"

inductive_cases succeeded_stepE: "row_step k s j x"

lemma succeeded_final: "row_step k s j x \<Longrightarrow> sj_status j = J_SUCCEEDED \<Longrightarrow> x = j"
  by (elim succeeded_stepE) auto

lemma deps_done_step:
  assumes "rows_step k s s'" and "deps_done s j"
  shows "deps_done s' j"
  using assms succeeded_final unfolding deps_done_def rows_step_def by fastforce

lemma row_ok_step:
  assumes "rows_step k s s'" and "row_ok s j" and "row_step k s j x"
  shows "row_ok s' x"
  using assms(3)
proof cases
  case stays
  then show ?thesis using assms deps_done_step by (auto simp: row_ok_def)
next
  case dispatched
  then have "deps_done s x" by (simp add: deps_done_def after_run_def same_spec_def)
  then show ?thesis
    using dispatched assms(2) deps_done_step [OF assms(1)]
    by (auto simp: row_ok_def after_run_def same_spec_def)
next
  case expired
  then show ?thesis
    using assms(2) deps_done_step [OF assms(1), of "expired_job j"]
    by (auto simp: row_ok_def expired_job_def deps_done_def)
next
  case cancelled
  then show ?thesis
    using assms(2) deps_done_step [OF assms(1), of x] by (auto simp: row_ok_def deps_done_def)
next
  case interrupted
  then have "deps_done s x" by (simp add: deps_done_def begin_job_def)
  then show ?thesis
    using interrupted assms(2) deps_done_step [OF assms(1)] by (auto simp: row_ok_def begin_job_def)
next
  case requeued
  then show ?thesis
    using assms(2) deps_done_step [OF assms(1), of x] by (auto simp: row_ok_def deps_done_def)
qed

lemma rows_stepD:
  "rows_step k s s' \<Longrightarrow> jobs_view s i = Some j \<Longrightarrow> jobs_view s' i = Some x \<Longrightarrow> row_step k s j x"
  unfolding rows_step_def by (metis option.inject)

lemma ordered_step:
  assumes "rows_step k s s'" and "ordered_jobs s"
  shows "ordered_jobs s'"
proof -
  have "set (sj_deps x) \<subseteq> earlier s' i" if x: "jobs_view s' i = Some x" for i x
  proof -
    have "i \<in> set (job_keys s)" using x assms(1) view_keys [of i s'] by (simp add: rows_step_def)
    then obtain j where j: "jobs_view s i = Some j" by (auto simp: view_keys)
    then have "same_spec x j" using x assms(1) row_step_spec by (fastforce simp: rows_step_def)
    then show ?thesis
      using assms j by (auto simp: ordered_jobs_def earlier_def rows_step_def same_spec_def)
  qed
  then show ?thesis by (simp add: ordered_jobs_def)
qed

lemma append_ok:
  assumes "sched_ok s" and "wf_sched s'" and n: "ent_id j \<notin> set (job_keys s)"
    and k: "job_keys s' = job_keys s @ [ent_id j]" and v: "jobs_view s' = (jobs_view s)(ent_id j \<mapsto> unstamped j)"
    and "set (sj_deps j) \<subseteq> set (job_keys s)" and "sj_max j \<ge> 1" and "fresh_job j"
  shows "sched_ok s'"
proof -
  have new: "jobs_view s (ent_id j) = None" using n by (auto simp: view_keys)
  have still: "deps_done s x \<Longrightarrow> deps_done s' x" for x
    using new unfolding deps_done_def v by (auto split: if_splits)
  have "takeWhile (\<lambda>k. k \<noteq> i) (job_keys s') = takeWhile (\<lambda>k. k \<noteq> i) (job_keys s)" if "i \<in> set (job_keys s)" for i
    using that by (auto simp: k takeWhile_append)
  moreover have "takeWhile (\<lambda>k. k \<noteq> ent_id j) (job_keys s') = job_keys s"
    using n by (simp add: k takeWhile_append)
  ultimately have "ordered_jobs s'"
    using assms(1,6) view_keys [of _ s] by (auto simp: ordered_jobs_def sched_ok_def v earlier_def)
  moreover have "row_ok s' x" if "jobs_view s' i = Some x" for i x
    using that assms(1,7,8) still by (auto simp: v sched_ok_def row_ok_def fresh_job_def split: if_splits)
  ultimately show ?thesis using assms(2) by (simp add: sched_ok_def)
qed

lemma sched_op_ok:
  assumes "sched_ok s" and "fresh_op a"
  shows "sched_ok (sched_op_run c a s)"
proof -
  have wf: "wf_sched s" using assms(1) by (simp add: sched_ok_def)
  consider "rows_step (kills a) s (sched_op_run c a s)"
    | j where "a = Submit j" "wf_sched (sched_op_run c a s)" "ent_id j \<notin> set (job_keys s)"
          "job_keys (sched_op_run c a s) = job_keys s @ [ent_id j]"
          "jobs_view (sched_op_run c a s) = (jobs_view s)(ent_id j \<mapsto> unstamped j)"
          "set (sj_deps j) \<subseteq> set (job_keys s)" "sj_max j \<ge> 1"
    using sched_op_rows [OF wf, of a c] by blast
  then show ?thesis
  proof cases
    case 1
    let ?s' = "sched_op_run c a s"
    have "row_ok ?s' x" if x: "jobs_view ?s' i = Some x" for i x
    proof -
      have "i \<in> set (job_keys s)" using x 1 view_keys [of i ?s'] by (simp add: rows_step_def)
      then obtain j where j: "jobs_view s i = Some j" by (auto simp: view_keys)
      then have "row_step (kills a) s j x" using rows_stepD [OF 1 _ x] by blast
      then show ?thesis using row_ok_step [OF 1] j assms(1) by (auto simp: sched_ok_def)
    qed
    then show ?thesis using 1 ordered_step [OF 1] assms(1) by (auto simp: sched_ok_def rows_step_def)
  next
    case 2
    then show ?thesis using append_ok [OF assms(1) 2(2-7)] assms(2) by (simp add: fresh_op_def)
  qed
qed

lemma sched_ok_run: "list_all fresh_op ops \<Longrightarrow> sched_ok s \<Longrightarrow> sched_ok (fold (sched_op_run c) ops s)"
  by (induction ops arbitrary: s) (auto intro: sched_op_ok)

lemma sched_ok_new: "sched_ok (new_sched w)"
  by (simp add: sched_ok_def new_sched_def wf_sched_def wf_table_def ordered_jobs_def jobs_view_def tbl_get_def)

text \<open>
  C16: In every run, with passes that are killed in the middle and resumed, a job that was ever
  given to the dispatch function has only dependencies that had succeeded, and they still
  have: nothing undoes a success.
\<close>

theorem dispatched_after_dependencies:
  assumes "list_all fresh_op ops" and "jobs_view (sched_run c ops w) i = Some j" and "sj_attempts j > 0"
    and "d \<in> set (sj_deps j)"
  shows "\<exists>x. jobs_view (sched_run c ops w) d = Some x \<and> sj_status x = J_SUCCEEDED"
  using sched_ok_run [OF assms(1) sched_ok_new, of c w] assms
  by (auto simp: sched_run_def sched_ok_def row_ok_def deps_done_def)

subsection \<open>Attempts\<close>

definition within_attempts :: "sched_job \<Rightarrow> bool" where
  "within_attempts j \<longleftrightarrow> sj_status j \<noteq> J_RUNNING \<and> sj_attempts j \<le> sj_max j
     \<and> (sj_status j = J_QUEUED \<longrightarrow> sj_attempts j < sj_max j)"

lemma within_step: "row_step False s j x \<Longrightarrow> within_attempts j \<Longrightarrow> within_attempts x"
  by (induction rule: row_step.induct) (auto simp: within_attempts_def after_run_def same_spec_def expired_job_def)

definition all_within :: "'w sched \<Rightarrow> bool" where
  "all_within s \<longleftrightarrow> wf_sched s \<and> (\<forall>i j. jobs_view s i = Some j \<longrightarrow> within_attempts j)"

lemma all_within_op:
  assumes "all_within s" and "fresh_op a" and "\<not> kills a"
  shows "all_within (sched_op_run c a s)"
proof -
  have wf: "wf_sched s" using assms(1) by (simp add: all_within_def)
  consider "rows_step False s (sched_op_run c a s)"
    | j where "a = Submit j" "wf_sched (sched_op_run c a s)"
          "jobs_view (sched_op_run c a s) = (jobs_view s)(ent_id j \<mapsto> unstamped j)" "sj_max j \<ge> 1"
    using sched_op_rows [OF wf, of a c] assms(3) by auto
  then show ?thesis
  proof cases
    case 1
    let ?s' = "sched_op_run c a s"
    have "within_attempts x" if x: "jobs_view ?s' i = Some x" for i x
    proof -
      have "i \<in> set (job_keys s)" using x 1 view_keys [of i ?s'] by (simp add: rows_step_def)
      then obtain j where j: "jobs_view s i = Some j" by (auto simp: view_keys)
      then show ?thesis using within_step [OF rows_stepD [OF 1 j x]] assms(1) by (auto simp: all_within_def)
    qed
    then show ?thesis using 1 by (auto simp: all_within_def rows_step_def)
  next
    case 2
    then have "within_attempts (unstamped j)"
      using assms(2) by (auto simp: fresh_op_def fresh_job_def within_attempts_def)
    then show ?thesis using 2(2,3) assms(1) by (auto simp: all_within_def)
  qed
qed

lemma all_within_run:
  "list_all (\<lambda>a. fresh_op a \<and> \<not> kills a) ops \<Longrightarrow> all_within s \<Longrightarrow> all_within (fold (sched_op_run c) ops s)"
  by (induction ops arbitrary: s) (auto intro: all_within_op)

lemma all_within_new: "all_within (new_sched w)"
  by (simp add: all_within_def new_sched_def wf_sched_def wf_table_def jobs_view_def tbl_get_def)

text \<open>
  As long as the process is not killed in a dispatch, a job is never given to the dispatch
  function more often than its \<^verbatim>\<open>max_attempts\<close>, no job is left running, and a queued
  one has an attempt left.
\<close>

theorem attempts_are_bounded:
  assumes "list_all (\<lambda>a. fresh_op a \<and> \<not> kills a) ops" and "jobs_view (sched_run c ops w) i = Some j"
  shows "sj_status j \<noteq> J_RUNNING \<and> sj_attempts j \<le> sj_max j
         \<and> (sj_status j = J_QUEUED \<longrightarrow> sj_attempts j < sj_max j)"
  using all_within_run [OF assms(1) all_within_new, of c w] assms(2)
  by (auto simp: sched_run_def all_within_def within_attempts_def)

subsection \<open>The queue drains\<close>

definition attempts_left :: "'w sched \<Rightarrow> string \<Rightarrow> nat" where
  "attempts_left s i =
     (case jobs_view s i of
        Some j \<Rightarrow> if sj_status j = J_QUEUED then nat (sj_max j - sj_attempts j) else 0
      | None \<Rightarrow> 0)"

definition budget :: "'w sched \<Rightarrow> nat" where
  "budget s = sum_list (map (attempts_left s) (job_keys s))"

text \<open>Nothing left that a pass at this time would touch.\<close>

definition drained :: "'w sched_cfg \<Rightarrow> real \<Rightarrow> 'w sched \<Rightarrow> bool" where
  "drained c moment s \<longleftrightarrow>
     (\<forall>i j. jobs_view s i = Some j \<longrightarrow> \<not> is_due c moment s j \<and> \<not> expires moment j)"

lemma tick_drained:
  assumes "wf_sched s" and "drained c moment s"
  shows "jobs_view (snd (sched_tick c moment s)) = jobs_view s"
proof
  fix i
  show "jobs_view (snd (sched_tick c moment s)) i = jobs_view s i"
    using tick_effect(3) [OF assms(1), of i c moment] tick_effect(4) [OF assms(1), of i _ c moment] assms(2)
    by (cases "jobs_view s i") (auto simp: drained_def)
qed

lemma attempts_left_tick:
  assumes "wf_sched s"
  shows "attempts_left (snd (sched_tick c moment s)) i \<le> attempts_left s i"
proof (cases "jobs_view s i")
  case None
  then show ?thesis using tick_effect(3) [OF assms None] by (simp add: attempts_left_def)
next
  case (Some j)
  then show ?thesis
    using tick_effect(4) [OF assms Some, of c moment]
    by (auto simp: attempts_left_def after_run_def same_spec_def is_due_def split: if_splits)
qed

lemma sum_list_less:
  fixes f g :: "'a \<Rightarrow> nat"
  assumes "\<And>x. x \<in> set xs \<Longrightarrow> f x \<le> g x" and "y \<in> set xs" and "f y < g y"
  shows "sum_list (map f xs) < sum_list (map g xs)"
  using assms
proof (induction xs)
  case Nil
  then show ?case by simp
next
  case (Cons x xs)
  have "sum_list (map f xs) \<le> sum_list (map g xs)" by (rule sum_list_mono) (simp add: Cons.prems)
  then show ?case using Cons by (cases "x = y") (auto intro: add_less_le_mono add_le_less_mono)
qed

lemma budget_tick:
  assumes "wf_sched s" and "all_within s" and "\<not> drained c moment s"
  shows "budget (snd (sched_tick c moment s)) < budget s"
proof -
  let ?s' = "snd (sched_tick c moment s)"
  obtain i j where j: "jobs_view s i = Some j" "is_due c moment s j \<or> expires moment j"
    using assms(3) by (auto simp: drained_def)
  have q: "sj_status j = J_QUEUED" using j(2) by (auto simp: is_due_def expires_def)
  then have l: "sj_attempts j < sj_max j" using assms(2) j(1) by (auto simp: all_within_def within_attempts_def)
  have "attempts_left ?s' i < attempts_left s i"
    using tick_effect(4) [OF assms(1) j(1), of c moment] j q l
    by (auto simp: attempts_left_def after_run_def same_spec_def split: if_splits)
  moreover have "i \<in> set (job_keys s)" using j(1) by (simp add: view_keys)
  ultimately show ?thesis
    unfolding budget_def tick_effect(2) [OF assms(1)]
    by (intro sum_list_less attempts_left_tick [OF assms(1)])
qed

lemma ticks_drain:
  assumes "all_within s" and "budget s \<le> n"
  shows "drained c moment (fold (sched_op_run c) (replicate n (Tick moment)) s)"
  using assms
proof (induction n arbitrary: s)
  case 0
  then have wf: "wf_sched s" by (simp add: all_within_def)
  show ?case
  proof (rule ccontr)
    assume "\<not> ?case"
    then show False using budget_tick [OF wf 0(1), of c moment] 0(2) by simp
  qed
next
  case (Suc n)
  let ?s' = "snd (sched_tick c moment s)"
  have wf: "wf_sched s" using Suc.prems(1) by (simp add: all_within_def)
  have aw: "all_within ?s'"
    using all_within_op [OF Suc.prems(1), of "Tick moment" c] by (simp add: fresh_op_def kills_def)
  have b: "budget ?s' \<le> n \<or> drained c moment s"
    using budget_tick [OF wf Suc.prems(1), of c moment] Suc.prems(2) by auto
  show ?case
  proof (cases "budget ?s' \<le> n")
    case True
    then show ?thesis using Suc.IH [OF aw] by simp
  next
    case False
    then have d: "drained c moment s" using b by simp
    have "drained c moment (fold (sched_op_run c) (replicate m (Tick moment)) t)"
      if "drained c moment t" "wf_sched t" for m and t :: "'a sched"
      using that
    proof (induction m arbitrary: t)
      case 0
      then show ?case by simp
    next
      case (Suc m)
      have "drained c moment (snd (sched_tick c moment t))"
        using tick_drained [OF Suc.prems(2,1)] Suc.prems(1) by (simp add: drained_def is_due_def)
      then show ?case using Suc.IH tick_effect(1) [OF Suc.prems(2)] by simp
    qed
    from this [OF d wf, of "Suc n"] show ?thesis .
  qed
qed

definition dep_edges :: "'w sched \<Rightarrow> (string \<times> string) set" where
  "dep_edges s = {(i, d). \<exists>j. jobs_view s i = Some j \<and> d \<in> set (sj_deps j)}"

lemma takeWhile_shorter:
  "d \<in> set (takeWhile (\<lambda>k. k \<noteq> i) xs) \<Longrightarrow>
   length (takeWhile (\<lambda>k. k \<noteq> d) xs) < length (takeWhile (\<lambda>k. k \<noteq> i) xs)"
  by (induction xs) (auto split: if_splits)

lemma earlier_known: "d \<in> earlier s i \<Longrightarrow> \<exists>x. jobs_view s d = Some x"
  using view_keys [of d s] by (auto simp: earlier_def dest!: set_takeWhileD)

lemma blocked_by_ended:
  assumes "sched_ok s" and "all_within s" and "drained c moment s" and "\<not> in_quiet_hours c moment"
  shows "jobs_view s i = Some j \<Longrightarrow> sj_status j = J_QUEUED \<Longrightarrow>
    \<exists>d x. (i, d) \<in> (dep_edges s)\<^sup>+ \<and> jobs_view s d = Some x \<and> sj_status x \<in> {J_FAILED, J_CANCELLED}"
proof (induction "length (takeWhile (\<lambda>k. k \<noteq> i) (job_keys s))" arbitrary: i j rule: less_induct)
  case less
  have "\<not> is_due c moment s j" "\<not> expires moment j"
    using assms(3) less.prems(1) by (auto simp: drained_def)
  then obtain d where d: "d \<in> set (sj_deps j)" "\<nexists>x. jobs_view s d = Some x \<and> sj_status x = J_SUCCEEDED"
    using less.prems(2) assms(4) by (auto simp: is_due_def expires_def)
  have e: "d \<in> earlier s i" using assms(1) less.prems(1) d(1) by (auto simp: sched_ok_def ordered_jobs_def)
  then obtain x where x: "jobs_view s d = Some x" using earlier_known by blast
  have edge: "(i, d) \<in> dep_edges s" using less.prems(1) d(1) by (auto simp: dep_edges_def)
  have "sj_status x \<noteq> J_RUNNING" using assms(2) x by (auto simp: all_within_def within_attempts_def)
  then consider "sj_status x = J_QUEUED" | "sj_status x \<in> {J_FAILED, J_CANCELLED}"
    using d(2) x by (cases "sj_status x") auto
  then show ?case
  proof cases
    case 1
    have "length (takeWhile (\<lambda>k. k \<noteq> d) (job_keys s)) < length (takeWhile (\<lambda>k. k \<noteq> i) (job_keys s))"
      using e by (intro takeWhile_shorter) (simp add: earlier_def)
    from less.hyps [OF this x 1] show ?thesis using edge by (meson trancl_into_trancl2)
  next
    case 2
    then show ?thesis using edge x by blast
  qed
qed

text \<open>
  The queue drains. Whatever was submitted, cancelled, dispatched and failed before, after
  as many passes as attempts are left (outside quiet hours), the only jobs still queued are
  those that depend, through any number of steps, on a job that failed or was cancelled. Those
  stay queued for ever: no operation settles them.
\<close>

theorem queue_drains:
  assumes "list_all (\<lambda>a. fresh_op a \<and> \<not> kills a) ops" and "\<not> in_quiet_hours c moment"
    and "budget (sched_run c ops w) \<le> n"
    and "jobs_view (sched_run c (ops @ replicate n (Tick moment)) w) i = Some j"
    and "sj_status j = J_QUEUED"
  shows "\<exists>d x. (i, d) \<in> (dep_edges (sched_run c (ops @ replicate n (Tick moment)) w))\<^sup>+
     \<and> jobs_view (sched_run c (ops @ replicate n (Tick moment)) w) d = Some x
     \<and> sj_status x \<in> {J_FAILED, J_CANCELLED}"
proof -
  let ?ops = "ops @ replicate n (Tick moment)"
  have ticks: "list_all (\<lambda>a. fresh_op a \<and> \<not> kills a) ?ops"
    using assms(1) by (auto simp: list_all_iff fresh_op_def kills_def)
  then have f: "list_all fresh_op ?ops" by (simp add: list_all_iff)
  have aw: "all_within (sched_run c ops w)"
    unfolding sched_run_def by (rule all_within_run [OF assms(1) all_within_new])
  show ?thesis
  proof (rule blocked_by_ended [OF _ _ _ assms(2) assms(4,5)])
    show "sched_ok (sched_run c ?ops w)" unfolding sched_run_def by (rule sched_ok_run [OF f sched_ok_new])
    show "all_within (sched_run c ?ops w)"
      unfolding sched_run_def by (rule all_within_run [OF ticks all_within_new])
    show "drained c moment (sched_run c ?ops w)"
      using ticks_drain [OF aw assms(3), of c moment] by (simp add: sched_run_def)
  qed
qed

subsection \<open>The walk finds exactly the cycles\<close>

definition edges_of :: "dep_graph \<Rightarrow> (string \<times> string) set" where
  "edges_of g = {(n, d). d \<in> set (sched_deps_of g n)}"

lemma edge_key: "(n, d) \<in> edges_of g \<Longrightarrow> n \<in> set (keys g)"
  using map_of_None_keys [of g n] by (cases "map_of g n") (auto simp: edges_of_def sched_deps_of_def)

fun linked_path :: "(string \<times> string) set \<Rightarrow> string list \<Rightarrow> bool" where
  "linked_path E (a # b # p) = ((b, a) \<in> E \<and> linked_path E (b # p))"
| "linked_path E _ = True"

lemma linked_reach: "linked_path E (a # p) \<Longrightarrow> x \<in> set (a # p) \<Longrightarrow> (x, a) \<in> E\<^sup>*"
proof (induction p arbitrary: a)
  case Nil
  then show ?case by simp
next
  case (Cons b p)
  show ?case
  proof (cases "x = a")
    case True
    then show ?thesis by simp
  next
    case False
    then have "(x, b) \<in> E\<^sup>*" using Cons by simp
    then show ?thesis using Cons.prems(1) by (simp add: rtrancl_into_rtrancl)
  qed
qed

lemma visit_None_cycle:
  "visit g path ns seen = None \<Longrightarrow> linked_path (edges_of g) path \<Longrightarrow>
   (\<And>n. path \<noteq> [] \<Longrightarrow> n \<in> set ns \<Longrightarrow> (hd path, n) \<in> edges_of g) \<Longrightarrow> \<not> acyclic (edges_of g)"
proof (induction g path ns seen rule: visit.induct)
  case (1 g path seen)
  then show ?case by simp
next
  case (2 g path n ns seen)
  show ?case
  proof (cases "n \<in> set path")
    case True
    then obtain a p where p: "path = a # p" by (cases path) auto
    have "(n, a) \<in> (edges_of g)\<^sup>*" using linked_reach 2(5) True unfolding p by blast
    moreover have "(a, n) \<in> edges_of g" using 2(6) [of n] p by simp
    ultimately have "(n, n) \<in> (edges_of g)\<^sup>+" by (rule rtrancl_into_trancl1)
    then show ?thesis by (auto simp: acyclic_def)
  next
    case f: False
    show ?thesis
    proof (cases "n \<in> set seen \<or> n \<notin> set (keys g)")
      case True
      then have "visit g path ns seen = None" using 2(4) f by simp
      then show ?thesis using 2(1) [OF f True] 2(5,6) by simp
    next
      case False
      have link: "linked_path (edges_of g) (n # path)" using 2(5,6) by (cases path) auto
      show ?thesis
      proof (cases "visit g (n # path) (sched_deps_of g n) seen")
        case None
        then show ?thesis using 2(2) [OF f False] link by (simp add: edges_of_def)
      next
        case (Some seen')
        then have "visit g path ns (n # seen') = None" using 2(4) f False by simp
        then show ?thesis using 2(3) [OF f False Some] 2(5,6) by simp
      qed
    qed
  qed
qed

text \<open>What the walk keeps of the nodes it is done with.\<close>

definition clear_nodes :: "dep_graph \<Rightarrow> string set \<Rightarrow> bool" where
  "clear_nodes g S \<longleftrightarrow> (\<forall>n \<in> S. (n, n) \<notin> (edges_of g)\<^sup>+
     \<and> (\<forall>d. (n, d) \<in> edges_of g \<longrightarrow> d \<in> set (keys g) \<longrightarrow> d \<in> S))"

lemma clear_reach:
  assumes "(d, m) \<in> (edges_of g)\<^sup>*" and "clear_nodes g S" and "d \<in> S"
  shows "m \<in> set (keys g) \<longrightarrow> m \<in> S"
  using assms(1)
proof (induction rule: rtrancl_induct)
  case base
  then show ?case using assms(3) by simp
next
  case (step y z)
  then show ?case using assms(2) edge_key [OF step(2)] by (auto simp: clear_nodes_def)
qed

lemma clear_insert:
  assumes "clear_nodes g S" and "n \<notin> S" and "n \<in> set (keys g)"
    and "\<And>d. d \<in> set (sched_deps_of g n) \<Longrightarrow> d \<in> set (keys g) \<Longrightarrow> d \<in> S"
  shows "clear_nodes g (insert n S)"
proof -
  have "(n, n) \<notin> (edges_of g)\<^sup>+"
  proof
    assume "(n, n) \<in> (edges_of g)\<^sup>+"
    then obtain d where d: "(n, d) \<in> edges_of g" "(d, n) \<in> (edges_of g)\<^sup>*" by (meson tranclD)
    have "d \<in> set (keys g)"
      using d(2) assms(3) by (cases rule: converse_rtranclE) (auto dest: edge_key)
    then have "d \<in> S" using d(1) assms(4) by (simp add: edges_of_def)
    then show False using clear_reach [OF d(2) assms(1)] assms(2,3) by simp
  qed
  then show ?thesis using assms(1,4) by (auto simp: clear_nodes_def edges_of_def)
qed

lemma visit_Some_clear:
  "visit g path ns seen = Some seen' \<Longrightarrow> clear_nodes g (set seen) \<Longrightarrow> set seen \<inter> set path = {} \<Longrightarrow>
   clear_nodes g (set seen') \<and> set seen \<subseteq> set seen' \<and> set seen' \<inter> set path = {}
   \<and> (\<forall>n \<in> set ns. n \<in> set (keys g) \<longrightarrow> n \<in> set seen')"
proof (induction g path ns seen arbitrary: seen' rule: visit.induct)
  case (1 g path seen)
  then show ?case by simp
next
  case (2 g path n ns seen)
  have f: "n \<notin> set path" using 2(4) by (auto split: if_splits)
  show ?case
  proof (cases "n \<in> set seen \<or> n \<notin> set (keys g)")
    case True
    then have "visit g path ns seen = Some seen'" using 2(4) f by simp
    then show ?thesis using 2(1) [OF f True _ 2(5,6)] True by auto
  next
    case False
    then obtain s1 where s1: "visit g (n # path) (sched_deps_of g n) seen = Some s1"
      and rest: "visit g path ns (n # s1) = Some seen'"
      using 2(4) f by (auto split: option.splits)
    have a: "clear_nodes g (set s1) \<and> set seen \<subseteq> set s1 \<and> set s1 \<inter> set (n # path) = {}
        \<and> (\<forall>d \<in> set (sched_deps_of g n). d \<in> set (keys g) \<longrightarrow> d \<in> set s1)"
      using 2(2) [OF f False s1 2(5)] 2(6) False by auto
    then have "clear_nodes g (set (n # s1))" using clear_insert [of g "set s1" n] False by auto
    moreover have "set (n # s1) \<inter> set path = {}" using a f by auto
    ultimately show ?thesis using 2(3) [OF f False s1 rest] a by auto
  qed
qed

text \<open>
  C40: The walk that guards submission rejects exactly the dependency graphs with a cycle.
\<close>

theorem acyclic_check_exact:
  "(visit g [] (keys g) [] \<noteq> None) = acyclic (edges_of g)"
proof
  assume "visit g [] (keys g) [] \<noteq> None"
  then obtain s where "visit g [] (keys g) [] = Some s" by blast
  from visit_Some_clear [OF this] have s: "clear_nodes g (set s)" "set (keys g) \<subseteq> set s"
    by (auto simp: clear_nodes_def)
  show "acyclic (edges_of g)"
  proof (unfold acyclic_def, intro allI notI)
    fix n assume c: "(n, n) \<in> (edges_of g)\<^sup>+"
    then have "n \<in> set (keys g)" by (meson tranclD edge_key)
    then show False using c s by (auto simp: clear_nodes_def)
  qed
next
  assume "acyclic (edges_of g)"
  then show "visit g [] (keys g) [] \<noteq> None" using visit_None_cycle [of g "[]"] by auto
qed

subsection \<open>What is dispatched\<close>

text \<open>A dispatch function that writes down what it is given.\<close>

definition logged_dispatch ::
  "(sched_job \<Rightarrow> compute_target \<Rightarrow> 'w \<Rightarrow> string result \<times> 'w) \<Rightarrow> sched_job \<Rightarrow> compute_target \<Rightarrow>
   'w \<times> (sched_job \<times> compute_target) list \<Rightarrow> string result \<times> 'w \<times> (sched_job \<times> compute_target) list" where
  "logged_dispatch d j t w = (case d j t (fst w) of (r, w') \<Rightarrow> (r, (w', snd w @ [(j, t)])))"

definition sched_log :: "('w \<times> 'l list) sched \<Rightarrow> 'l list" where
  "sched_log s = snd (sd_world s)"

lemma log_simps [simp]:
  "sched_log (job_save c j s) = sched_log s" "sched_log (sched_note c j a r s) = sched_log s"
  "sched_log (s\<lparr>sd_world := (w, l)\<rparr>) = l"
  by (simp_all add: sched_log_def)

definition sent :: "'w sched_cfg \<Rightarrow> sched_job \<Rightarrow> sched_job \<times> compute_target \<Rightarrow> bool" where
  "sent c j e \<longleftrightarrow> route (sg_router c) (sj_requirements j) = Inr (snd e)
     \<and> fst e = (begin_job j)\<lparr>sj_provider := ct_provider (snd e)\<rparr>"

lemma run_one_log:
  assumes "sg_dispatch c = Some (logged_dispatch d)" and "run_one c j s = (x, s')"
  shows "sched_log s' = sched_log s \<or> (\<exists>e. sched_log s' = sched_log s @ [e] \<and> sent c j e)"
proof (cases "route (sg_router c) (sj_requirements j)")
  case (Inl e)
  then show ?thesis
    using assms by (auto simp: run_one_def Let_def finish_job_def begin_job_def)
next
  case (Inr t)
  then show ?thesis
    using assms
    by (auto simp: run_one_def Let_def finish_job_def begin_job_def sent_def logged_dispatch_def sched_log_def
          split: prod.splits sum.splits if_splits)
qed

lemma run_ready_log:
  assumes "sg_dispatch c = Some (logged_dispatch d)"
  shows "\<exists>es js'. sched_log (snd (run_ready c js s)) = sched_log s @ es \<and> subseq js' js \<and> list_all2 (sent c) js' es"
proof (induction js arbitrary: s)
  case Nil
  show ?case by (intro exI [of _ "[]"]) simp
next
  case (Cons j js)
  obtain x s1 where one: "run_one c j s = (x, s1)" by fastforce
  obtain es js' where r: "sched_log (snd (run_ready c js s1)) = sched_log s1 @ es" "subseq js' js"
      "list_all2 (sent c) js' es"
    using Cons by blast
  have l: "sched_log (snd (run_ready c (j # js) s)) = sched_log s1 @ es"
    using one r(1) by (auto split: prod.splits)
  from run_one_log [OF assms one] show ?case
  proof (elim disjE exE conjE)
    assume "sched_log s1 = sched_log s"
    then show ?thesis using l r(2,3) by (intro exI [of _ es] exI [of _ js']) auto
  next
    fix e assume e: "sched_log s1 = sched_log s @ [e]" "sent c j e"
    then show ?thesis using l r(2,3) by (intro exI [of _ "e # es"] exI [of _ "j # js'"]) auto
  qed
qed

lemma wf_run: "wf_sched s \<Longrightarrow> wf_sched (fold (sched_op_run c) ops s)"
proof (induction ops arbitrary: s)
  case Nil
  then show ?case by simp
next
  case (Cons a ops)
  have "wf_sched (sched_op_run c a s)"
    using sched_op_rows [OF Cons.prems, of a c] by (auto simp: rows_step_def)
  then show ?case using Cons.IH by simp
qed

lemma wf_sched_run: "wf_sched (sched_run c ops w)"
  unfolding sched_run_def
  by (rule wf_run) (simp add: new_sched_def wf_sched_def wf_table_def)

lemma subseq_keeps: "subseq xs ys \<Longrightarrow> sorted ys \<Longrightarrow> sorted xs" "subseq xs ys \<Longrightarrow> distinct ys \<Longrightarrow> distinct xs"
  by (induction rule: list_emb.induct) (auto dest: list_emb_set)

text \<open>
  A pass gives to the dispatch function, in the order of priority, age and identifier and
  each job at most once, only jobs that were queued, within their deadline and outside quiet
  hours, whose dependencies had all succeeded, each with the target the router chose for it.
\<close>

theorem dispatched_were_due:
  assumes "sg_dispatch c = Some (logged_dispatch d)" and "s = sched_run c ops w"
  shows "\<exists>es js. sched_log (snd (sched_tick c moment s)) = sched_log s @ es
     \<and> list_all2 (sent c) js es \<and> sorted (map ready_order js) \<and> distinct (map ent_id js)
     \<and> (\<forall>j \<in> set js. is_due c moment s j \<and> tbl_get (ent_id j) (sd_jobs s) = Some j)"
proof -
  have wf: "wf_sched s" unfolding assms(2) by (rule wf_sched_run)
  obtain ready s1 where r: "ready_jobs c moment True s = (ready, s1)" by fastforce
  note e = ready_jobs_effect [OF wf r]
  obtain es js where l: "sched_log (snd (run_ready c ready s1)) = sched_log s1 @ es" "subseq js ready"
      "list_all2 (sent c) js es"
    using run_ready_log [OF assms(1)] by blast
  have "subseq (map ready_order js) (map ready_order ready)" "subseq (map ent_id js) (map ent_id ready)"
    using l(2) by (auto intro: subseq_map)
  then have "sorted (map ready_order js)" "distinct (map ent_id js)"
    using e(2,3) subseq_keeps by blast+
  moreover have "set js \<subseteq> set ready" using l(2) by (metis notin_set_nthsI subseq_conv_nths subsetI)
  then have "\<forall>j \<in> set js. is_due c moment s j \<and> tbl_get (ent_id j) (sd_jobs s) = Some j"
    using e(1) wf by (auto simp: job_list_def set_tbl_list wf_sched_def)
  moreover have "sched_log s1 = sched_log s" using e(7) by (simp add: sched_log_def)
  ultimately show ?thesis using l(1,3) r by (auto simp: sched_tick_def)
qed

subsection \<open>A concrete queue\<close>

definition example_job :: "string \<Rightarrow> string list \<Rightarrow> int \<Rightarrow> sched_job" where
  "example_job i deps attempts =
     \<lparr>ent_id = i, ent_created = 0, ent_updated = 0, sj_goal = ''build'',
      sj_requirements = example_requirements ''high'', sj_priority = 0, sj_deadline = None, sj_deps = deps,
      sj_key = [], sj_agent = [], sj_hint = [], sj_status = J_QUEUED, sj_attempts = 0, sj_max = attempts,
      sj_provider = [], sj_summary = []\<rparr>"

text \<open>The job \<open>''a''\<close> always fails, every other one succeeds.\<close>

definition example_dispatch :: "sched_job \<Rightarrow> compute_target \<Rightarrow> unit \<Rightarrow> string result \<times> unit" where
  "example_dispatch j t w =
     (if ent_id j = ''a'' then (Inl (OtherException ''boom''), w) else (Inr ''done'', w))"

definition example_sched :: "(unit \<times> (sched_job \<times> compute_target) list) sched_cfg" where
  "example_sched =
     \<lparr>sg_router = example_router, sg_dispatch = Some (logged_dispatch example_dispatch), sg_audit = True,
      sg_quiet = Some (22, 6), sg_clock = (\<lambda>n. real n), sg_hour = (\<lambda>m. 12), sg_text = (\<lambda>e. ''boom'')\<rparr>"

definition example_chain :: "string \<Rightarrow> sched_op list" where
  "example_chain first = [Submit (example_job first [] 1), Submit (example_job ''d'' [first] 1)]"

abbreviation example_run :: "sched_op list \<Rightarrow> (unit \<times> (sched_job \<times> compute_target) list) sched" where
  "example_run ops \<equiv> sched_run example_sched ops ((), [])"

lemma view_of_map:
  "map_option f (jobs_view s i) = Some y \<Longrightarrow> \<exists>j. jobs_view s i = Some j \<and> f j = y"
  by auto

lemma example_d:
  "map_option (\<lambda>j. (sj_attempts j, sj_deps j))
     (jobs_view (example_run (example_chain ''c'' @ [Tick 0, Tick 0])) ''d'') = Some (1, [''c''])"
  by code_simp

theorem dispatched_after_dependencies_witness:
  "\<exists>x. jobs_view (example_run (example_chain ''c'' @ [Tick 0, Tick 0])) ''c'' = Some x
     \<and> sj_status x = J_SUCCEEDED"
proof -
  obtain j where "jobs_view (example_run (example_chain ''c'' @ [Tick 0, Tick 0])) ''d'' = Some j"
      "sj_attempts j = 1" "sj_deps j = [''c'']"
    using view_of_map [OF example_d] by auto
  then show ?thesis
    by (intro dispatched_after_dependencies [where i = "''d''" and j = j])
      (simp_all add: example_chain_def fresh_op_def fresh_job_def example_job_def)
qed

theorem attempts_are_bounded_witness:
  "\<exists>j. jobs_view (example_run (example_chain ''c'' @ [Tick 0, Tick 0])) ''d'' = Some j
     \<and> sj_attempts j \<le> sj_max j"
proof -
  obtain j where j: "jobs_view (example_run (example_chain ''c'' @ [Tick 0, Tick 0])) ''d'' = Some j"
    using view_of_map [OF example_d] by auto
  then have "sj_attempts j \<le> sj_max j"
    using attempts_are_bounded [OF _ j]
    by (simp add: example_chain_def fresh_op_def fresh_job_def example_job_def kills_def)
  then show ?thesis using j by blast
qed

text \<open>The dependency \<open>a\<close> fails for good, and \<open>d\<close> is never settled.\<close>

lemma example_waits:
  "map_option sj_status
     (jobs_view (example_run (example_chain ''a'' @ replicate 2 (Tick 0))) ''d'') = Some J_QUEUED"
  by code_simp

theorem queue_drains_witness:
  "\<exists>d x. (''d'', d) \<in> (dep_edges (example_run (example_chain ''a'' @ replicate 2 (Tick 0))))\<^sup>+
     \<and> jobs_view (example_run (example_chain ''a'' @ replicate 2 (Tick 0))) d = Some x
     \<and> sj_status x \<in> {J_FAILED, J_CANCELLED}"
proof -
  obtain j where j: "jobs_view (example_run (example_chain ''a'' @ replicate 2 (Tick 0))) ''d'' = Some j"
      "sj_status j = J_QUEUED"
    using view_of_map [OF example_waits] by auto
  have "budget (example_run (example_chain ''a'')) \<le> 2" by code_simp
  then show ?thesis
    by (intro queue_drains [OF _ _ _ j])
      (simp_all add: example_chain_def fresh_op_def fresh_job_def example_job_def kills_def
        in_quiet_hours_def example_sched_def)
qed

theorem dispatched_were_due_witness:
  "\<exists>j e. sched_log (snd (sched_tick example_sched 0 (example_run (example_chain ''c'')))) = [e]
     \<and> sent example_sched j e"
proof -
  let ?s = "example_run (example_chain ''c'')"
  have d: "sg_dispatch example_sched = Some (logged_dispatch example_dispatch)"
    by (simp add: example_sched_def)
  obtain es js where e: "sched_log (snd (sched_tick example_sched 0 ?s)) = sched_log ?s @ es"
      "list_all2 (sent example_sched) js es"
    using dispatched_were_due [OF d refl, where ops = "example_chain ''c''" and w = "((), [])" and moment = 0] by blast
  have "sched_log ?s = []" "length (sched_log (snd (sched_tick example_sched 0 ?s))) = 1"
    by code_simp+
  then obtain x where "es = [x]" using e(1) by (auto simp: length_Suc_conv)
  then show ?thesis using e \<open>sched_log ?s = []\<close> by (auto simp: list_all2_Cons2)
qed

text \<open>
  A process killed in a dispatch leaves its job running; \<open>resume_interrupted\<close> queues it again
  without a look at the attempts, so that a job with one attempt is dispatched again and again.
\<close>

lemma killed_job_exceeds_attempts:
  "map_option (\<lambda>j. (sj_attempts j, sj_max j)) (jobs_view (example_run
     [Submit (example_job ''c'' [] 1), Killed 0 0, Resume, Killed 0 0, Resume, Killed 0 0]) ''c'') = Some (3, 1)"
  by code_simp

end
