(* ===== verification/Agents.thy ===== *)
theory Agents
  imports Effects Events Executor Authorized_Run
begin

text \<open>
  Agent definitions, agent tasks and their manager (\<^verbatim>\<open>agent/multi/definitions.py\<close>,
  \<^verbatim>\<open>agent/multi/manager.py\<close>). The registry and the tasks are two snapshot tables; creating
  a runtime task and executing a plan through a scoped runner are parameters that act on a world of
  their own. The threads of \<open>run_all\<close> take their bounded turns in an order the input decides.
\<close>

subsection \<open>Definitions\<close>

datatype member_status =
    M_CREATED | M_READY | M_RUNNING | M_WAITING | M_COMPLETED | M_FAILED | M_CANCELLED

record agent_definition = entity +
  df_name :: string
  df_role :: string
  df_description :: string
  df_capabilities :: "string list"
  df_allowed :: "string list"
  df_models :: "string list"
  df_scope :: string
  df_scope_id :: string
  df_risk :: risk_level
  df_status :: member_status

record agent_task = entity +
  gt_task :: string
  gt_owner :: string
  gt_parent :: string
  gt_parent_task :: string
  gt_goal :: string
  gt_plan :: plan
  gt_arguments :: "(string \<times> arguments) list"
  gt_status :: member_status
  gt_interrupted :: bool
  gt_summary :: string

record 'w agents =
  ga_defs :: "agent_definition table"
  ga_tasks :: "agent_task table"
  ga_events :: "event list"
  ga_reads :: nat
  ga_world :: 'w

record 'w agents_cfg =
  gc_clock :: "nat \<Rightarrow> real"
  gc_new_id :: "nat \<Rightarrow> string"
  gc_create_task :: "string \<Rightarrow> string \<Rightarrow> 'w \<Rightarrow> string result \<times> 'w"
  gc_execute :: "auth_manager \<Rightarrow> agent_task \<Rightarrow> 'w \<Rightarrow> exec_result result \<times> 'w"
  gc_text :: "exn \<Rightarrow> string"
  gc_workers :: nat
  gc_approvals :: bool
  gc_wait_s :: real

type_synonym ('w, 'a) agents_op = "('w agents, 'a) eff"

definition agents_emit :: "string \<Rightarrow> string \<Rightarrow> arguments \<Rightarrow> 'w agents \<Rightarrow> 'w agents" where
  "agents_emit ty tid payload s = s\<lparr>ga_events := ga_events s @ [mk_event ty tid (JObj payload)]\<rparr>"

subsection \<open>AgentRegistry\<close>

definition def_save :: "'w agents_cfg \<Rightarrow> agent_definition \<Rightarrow> 'w agents \<Rightarrow> 'w agents" where
  "def_save c d s = s\<lparr>ga_defs := tbl_put (gc_clock c (ga_reads s)) d (ga_defs s), ga_reads := ga_reads s + 1\<rparr>"

definition register_definition :: "'w agents_cfg \<Rightarrow> bool \<Rightarrow> agent_definition \<Rightarrow> ('w, agent_definition) agents_op" where
  "register_definition c bus d s =
     (if df_name d = [] then eff_raise (DomainValidationError ''agent name must not be empty'') s
      else if tbl_get (ent_id d) (ga_defs s) \<noteq> None
        then eff_raise (DomainValidationError (''duplicate agent id '' @ repr_str (ent_id d))) s
      else case tbl_create (gc_clock c (ga_reads s)) d (ga_defs s) of
          Inl e \<Rightarrow> eff_raise e (s\<lparr>ga_reads := ga_reads s + 1\<rparr>)
        | Inr (d', t) \<Rightarrow>
            let s1 = s\<lparr>ga_defs := t, ga_reads := ga_reads s + 1\<rparr> in
            eff_return d' (if bus then agents_emit ''AgentRegistered'' []
              [(''agent_id'', JStr (ent_id d')), (''role'', JStr (df_role d'))] s1 else s1))"

definition lookup_definition :: "string \<Rightarrow> 'w agents \<Rightarrow> agent_definition option" where
  "lookup_definition a s = tbl_get a (ga_defs s)"

definition definitions_by_role :: "string \<Rightarrow> 'w agents \<Rightarrow> agent_definition list" where
  "definitions_by_role role s = sort_key df_name (filter (\<lambda>d. df_role d = role) (tbl_list (ga_defs s)))"

definition list_definitions :: "'w agents \<Rightarrow> agent_definition list" where
  "list_definitions s = sort_key df_name (tbl_list (ga_defs s))"

definition set_status :: "'w agents_cfg \<Rightarrow> string \<Rightarrow> member_status \<Rightarrow> ('w, agent_definition) agents_op" where
  "set_status c a st s =
     (case tbl_get a (ga_defs s) of
        None \<Rightarrow> eff_raise (ResourceNotFoundError ''AgentDefinition'' a) s
      | Some d \<Rightarrow> eff_return (d\<lparr>df_status := st\<rparr>) (def_save c (d\<lparr>df_status := st\<rparr>) s))"

definition deregister :: "string \<Rightarrow> 'w agents \<Rightarrow> bool \<times> 'w agents" where
  "deregister a s = (let (found, t) = tbl_delete a (ga_defs s) in (found, s\<lparr>ga_defs := t\<rparr>))"

subsection \<open>AgentTaskRepository\<close>

definition task_save :: "'w agents_cfg \<Rightarrow> agent_task \<Rightarrow> 'w agents \<Rightarrow> 'w agents" where
  "task_save c t s = s\<lparr>ga_tasks := tbl_put (gc_clock c (ga_reads s)) t (ga_tasks s), ga_reads := ga_reads s + 1\<rparr>"

definition task_create :: "'w agents_cfg \<Rightarrow> agent_task \<Rightarrow> ('w, agent_task) agents_op" where
  "task_create c t s =
     (case tbl_create (gc_clock c (ga_reads s)) t (ga_tasks s) of
        Inl e \<Rightarrow> eff_raise e (s\<lparr>ga_reads := ga_reads s + 1\<rparr>)
      | Inr (t', tb) \<Rightarrow> eff_return t' (s\<lparr>ga_tasks := tb, ga_reads := ga_reads s + 1\<rparr>))"

definition task_by_runtime_id :: "string \<Rightarrow> 'w agents \<Rightarrow> agent_task option" where
  "task_by_runtime_id tid s = find (\<lambda>t. gt_task t = tid) (tbl_list (ga_tasks s))"

definition list_agent_tasks :: "'w agents \<Rightarrow> agent_task list" where
  "list_agent_tasks s = sort_key ent_created (tbl_list (ga_tasks s))"

subsection \<open>AgentManager\<close>

definition spawn :: "'w agents_cfg \<Rightarrow> string \<Rightarrow> ('w, agent_definition) agents_op" where
  "spawn c a s =
     (case lookup_definition a s of
        None \<Rightarrow> eff_raise (ResourceNotFoundError ''AgentDefinition'' a) s
      | Some d \<Rightarrow>
          if df_status d \<noteq> M_CREATED
          then eff_raise (DomainValidationError (''agent '' @ repr_str a @ '' already spawned'')) s
          else set_status c a M_READY s)"

definition submit_task ::
  "'w agents_cfg \<Rightarrow> string \<Rightarrow> string \<Rightarrow> plan \<Rightarrow> (string \<times> arguments) list \<Rightarrow> string \<Rightarrow> string \<Rightarrow>
   ('w, agent_task) agents_op" where
  "submit_task c a goal p args parent parent_task s =
     (case lookup_definition a s of
        None \<Rightarrow> eff_raise (ResourceNotFoundError ''AgentDefinition'' a) s
      | Some d \<Rightarrow>
          if df_status d \<notin> {M_READY, M_RUNNING}
          then eff_raise (DomainValidationError (''agent '' @ repr_str a @ '' is not runnable'')) s
          else case gc_create_task c (''['' @ df_name d @ ''] '' @ goal) goal (ga_world s) of
              (Inl e, w) \<Rightarrow> eff_raise e (s\<lparr>ga_world := w\<rparr>)
            | (Inr tid, w) \<Rightarrow>
                let s1 = s\<lparr>ga_world := w\<rparr>; now = gc_clock c (ga_reads s1) in
                task_create c \<lparr>ent_id = gc_new_id c (ga_reads s1), ent_created = now, ent_updated = now,
                  gt_task = tid, gt_owner = a, gt_parent = parent, gt_parent_task = parent_task,
                  gt_goal = goal, gt_plan = p, gt_arguments = args, gt_status = M_CREATED,
                  gt_interrupted = False, gt_summary = []\<rparr> s1)"

text \<open>\<open>scoped_runner\<close>: the authorization manager that confines an agent to its allow-list.\<close>

definition agent_policy :: "bool \<Rightarrow> agent_definition \<Rightarrow> string \<Rightarrow> policy" where
  "agent_policy approvals d a =
     \<lparr>po_name = ''agent:'' @ a, po_auto_grant_up_to = df_risk d, po_deny_critical = False,
      po_denied_tools = [], po_agent_scopes = [(a, df_allowed d)], po_strict_agent_scopes = True,
      po_approval_required_from = (if approvals then Some HIGH else None), po_approval_ttl_s = 900\<rparr>"

definition scoped_manager :: "bool \<Rightarrow> real \<Rightarrow> agent_definition \<Rightarrow> string \<Rightarrow> auth_manager" where
  "scoped_manager approvals wait_s d a =
     new_auth_manager False (Some (agent_policy approvals d a))
       (Some \<lparr>rc_agent_id = a, rc_environment = ''local'', rc_root = []\<rparr>) wait_s"

definition scoped_runner :: "'w agents_cfg \<Rightarrow> string \<Rightarrow> ('w, auth_manager) agents_op" where
  "scoped_runner c a s =
     (case lookup_definition a s of
        None \<Rightarrow> eff_raise (ResourceNotFoundError ''AgentDefinition'' a) s
      | Some d \<Rightarrow> eff_return (scoped_manager (gc_approvals c) (gc_wait_s c) d a) s)"

definition failed_execution :: "string \<Rightarrow> string \<Rightarrow> exec_result" where
  "failed_execution tid err =
     \<lparr>xr_task_id = tid, xr_status = O_FAILED, xr_states = [], xr_succeeded = [], xr_failed = [],
      xr_cancelled = [], xr_timed_out = [], xr_skipped = [], xr_results = [], xr_errors = [err]\<rparr>"

text \<open>\<open>run_task\<close> in the parts between which other threads run: the reading of the record and its
  guard, the marking, the execution, and what follows it.\<close>

definition check_task :: "string \<Rightarrow> ('w, agent_task) agents_op" where
  "check_task i s =
     (case tbl_get i (ga_tasks s) of
        None \<Rightarrow> eff_raise (ResourceNotFoundError ''AgentTask'' i) s
      | Some r \<Rightarrow>
          if gt_status r \<notin> {M_CREATED, M_READY}
          then eff_raise (DomainValidationError ''agent task already ran'') s
          else eff_return r s)"

definition start_task :: "'w agents_cfg \<Rightarrow> agent_task \<Rightarrow> ('w, auth_manager \<times> agent_task) agents_op" where
  "start_task c r =
     eff_bind (scoped_runner c (gt_owner r)) (\<lambda>am s.
       let r1 = r\<lparr>gt_status := M_RUNNING\<rparr> in
       eff_bind (set_status c (gt_owner r) M_RUNNING) (\<lambda>_ s1.
         eff_return (am, r1) (agents_emit ''AgentStarted'' (gt_task r)
           [(''agent_id'', JStr (gt_owner r))] s1)) (task_save c r1 s))"

definition finish_task :: "'w agents_cfg \<Rightarrow> agent_task \<Rightarrow> exec_result result \<Rightarrow> ('w, exec_result) agents_op" where
  "finish_task c r outcome =
     eff_bind (set_status c (gt_owner r) M_READY) (\<lambda>_ s.
       let result = (case outcome of
                       Inr x \<Rightarrow> x
                     | Inl e \<Rightarrow> failed_execution (gt_task r) (''execution raised '' @ gc_text c e));
           ok = (xr_status result = O_COMPLETED);
           r1 = r\<lparr>gt_status := (if ok then M_COMPLETED else M_FAILED)\<rparr>;
           s1 = task_save c r1 s;
           r2 = r1\<lparr>gt_summary := int_text (int (length (xr_succeeded result))) @ '' succeeded, ''
                    @ int_text (int (length (xr_failed result))) @ '' failed''\<rparr>;
           s2 = task_save c r2 s1
       in eff_return result (agents_emit ''AgentCompleted'' (gt_task r)
            [(''agent_id'', JStr (gt_owner r)), (''success'', JBool ok)] s2))"

definition execute_task :: "'w agents_cfg \<Rightarrow> auth_manager \<Rightarrow> agent_task \<Rightarrow> ('w, exec_result result) agents_op" where
  "execute_task c am r s =
     (case gc_execute c am r (ga_world s) of (outcome, w) \<Rightarrow> eff_return outcome (s\<lparr>ga_world := w\<rparr>))"

definition run_agent_task :: "'w agents_cfg \<Rightarrow> string \<Rightarrow> ('w, exec_result) agents_op" where
  "run_agent_task c i =
     eff_bind (check_task i) (\<lambda>r0.
     eff_bind (start_task c r0) (\<lambda>(am, r).
     eff_bind (execute_task c am r) (finish_task c r)))"

definition resume_agent_tasks :: "'w agents_cfg \<Rightarrow> 'w agents \<Rightarrow> agent_task list \<times> 'w agents" where
  "resume_agent_tasks c s =
     (let reset = map (\<lambda>t. t\<lparr>gt_status := M_READY, gt_interrupted := True\<rparr>)
                    (filter (\<lambda>t. gt_status t = M_RUNNING) (list_agent_tasks s))
      in (reset, fold (task_save c) reset s))"

subsection \<open>run_all\<close>

text \<open>
  A thread of the pool is where it is in \<open>run_task\<close>, or has ended with the outcome its future
  holds. In each turn the main loop starts what it may, and then one running task takes its turn:
  its thread goes one part further, or, when it has ended, the main loop takes its outcome.
  \<open>pi_cancelled\<close> and \<open>pi_pick\<close> say, by the number of the turn, whether the token is cancelled
  (at the start that leaves so many tasks pending) and whose turn it is.
\<close>

datatype agent_thread =
    At_Start
  | At_Mark agent_task
  | At_Execute auth_manager agent_task
  | At_Finish agent_task "exec_result result"
  | At_End "exec_result result"

record pool_input =
  pi_cancelled :: "nat \<Rightarrow> nat \<Rightarrow> bool"
  pi_pick :: "nat \<Rightarrow> nat"

type_synonym pool_threads = "(string \<times> agent_thread) list"

definition after :: "('a \<Rightarrow> agent_thread) \<Rightarrow> 'a result \<times> 'w agents \<Rightarrow> agent_thread \<times> 'w agents" where
  "after f x = (case x of (Inl e, s) \<Rightarrow> (At_End (Inl e), s) | (Inr y, s) \<Rightarrow> (f y, s))"

fun thread_step :: "'w agents_cfg \<Rightarrow> string \<Rightarrow> agent_thread \<Rightarrow> 'w agents \<Rightarrow> agent_thread \<times> 'w agents" where
  "thread_step c i At_Start s = after At_Mark (check_task i s)"
| "thread_step c i (At_Mark r) s = after (\<lambda>(am, r1). At_Execute am r1) (start_task c r s)"
| "thread_step c i (At_Execute am r) s = after (At_Finish r) (execute_task c am r s)"
| "thread_step c i (At_Finish r x) s = after (\<lambda>y. At_End (Inr y)) (finish_task c r x s)"
| "thread_step c i (At_End x) s = (At_End x, s)"

definition collect :: "'w agents_cfg \<Rightarrow> string \<Rightarrow> exec_result result \<Rightarrow> 'w agents \<Rightarrow> exec_result" where
  "collect c i x s =
     (case x of
        Inr y \<Rightarrow> y
      | Inl e \<Rightarrow> failed_execution (case tbl_get i (ga_tasks s) of None \<Rightarrow> [] | Some r \<Rightarrow> gt_task r)
                   (''agent run raised '' @ gc_text c e))"

text \<open>Starting tasks while there is room; the token is read before each start.\<close>

fun fill_pool ::
  "'w agents_cfg \<Rightarrow> pool_input \<Rightarrow> nat \<Rightarrow> string list \<Rightarrow> pool_threads \<Rightarrow> string list \<times> pool_threads" where
  "fill_pool c inp n [] running = ([], running)"
| "fill_pool c inp n (i # pending) running =
     (if length running \<ge> gc_workers c then (i # pending, running)
      else if pi_cancelled inp n (length pending) then ([], running)
      else fill_pool c inp n pending (running @ [(i, At_Start)]))"

fun thread_left :: "agent_thread \<Rightarrow> nat" where
  "thread_left At_Start = 5"
| "thread_left (At_Mark r) = 4"
| "thread_left (At_Execute am r) = 3"
| "thread_left (At_Finish r x) = 2"
| "thread_left (At_End x) = 1"

definition pool_left :: "string list \<Rightarrow> pool_threads \<Rightarrow> nat" where
  "pool_left pending running = 5 * length pending + sum_list (map (thread_left \<circ> snd) running)"

lemma fill_pool_left:
  "fill_pool c inp n pending running = (pending', running') \<Longrightarrow>
     pool_left pending' running' \<le> pool_left pending running"
proof (induction c inp n pending running rule: fill_pool.induct)
  case (2 c inp n i pending running)
  then show ?case by (fastforce simp: pool_left_def split: if_splits)
qed simp

definition drop_nth :: "nat \<Rightarrow> 'a list \<Rightarrow> 'a list" where
  "drop_nth k xs = take k xs @ drop (k + 1) xs"

lemma mset_drop_nth: "k < length xs \<Longrightarrow> mset xs = add_mset (xs ! k) (mset (drop_nth k xs))"
  unfolding drop_nth_def by (subst id_take_nth_drop [of k xs]) simp_all

lemma sum_drop_nth:
  assumes "k < length xs"
  shows "sum_list (map f xs) = f (xs ! k) + (sum_list (map f (drop_nth k xs)) :: nat)"
proof -
  have "sum_mset (image_mset f (mset xs)) = f (xs ! k) + sum_mset (image_mset f (mset (drop_nth k xs)))"
    by (simp add: mset_drop_nth [OF assms])
  then show ?thesis by (simp flip: mset_map sum_mset_sum_list)
qed

lemma sum_list_update:
  assumes "k < length xs"
  shows "sum_list (map f (xs[k := y])) + f (xs ! k) = sum_list (map f xs) + (f y :: nat)"
  using assms by (induction xs arbitrary: k) (auto split: nat.split)

fun ended :: "agent_thread \<Rightarrow> exec_result result option" where
  "ended (At_End x) = Some x"
| "ended _ = None"

lemma thread_step_left: "ended t = None \<Longrightarrow> thread_step c i t s = (t', s') \<Longrightarrow> thread_left t' < thread_left t"
  by (cases t) (auto simp: after_def split: prod.splits sum.splits)

lemma pool_left_drop:
  "k < length r \<Longrightarrow> pool_left p (drop_nth k r) < pool_left p r"
  using sum_drop_nth [of k r "thread_left \<circ> snd"]
  by (cases "snd (r ! k)") (simp_all add: pool_left_def)

lemma pool_left_step:
  assumes "k < length r" "r ! k = (i, t)" "ended t = None" "thread_step c i t s = (t', s')"
  shows "pool_left p (r[k := (i, t')]) < pool_left p r"
  using sum_list_update [of k r "thread_left \<circ> snd" "(i, t')"] thread_step_left [of t c i s t' s'] assms
  by (simp add: pool_left_def)

function run_pool ::
  "'w agents_cfg \<Rightarrow> pool_input \<Rightarrow> nat \<Rightarrow> string list \<Rightarrow> pool_threads \<Rightarrow> (string \<times> exec_result) list \<Rightarrow>
   'w agents \<Rightarrow> (string \<times> exec_result) list \<times> 'w agents" where
  "run_pool c inp n pending running results s =
     (let (pending1, running1) = fill_pool c inp n pending running in
      if running1 = [] then (results, s)
      else
        let k = pi_pick inp n mod length running1; (i, t) = running1 ! k in
        case ended t of
          Some x \<Rightarrow>
            run_pool c inp (n + 1) pending1 (drop_nth k running1) (dict_set i (collect c i x s) results) s
        | None \<Rightarrow>
            let (t', s') = thread_step c i t s in
            run_pool c inp (n + 1) pending1 (running1[k := (i, t')]) results s')"
  by pat_completeness auto

termination
proof (relation "measure (\<lambda>(c, inp, n, pending, running, results, s). pool_left pending running)", goal_cases)
  case 1
  then show ?case by simp
next
  case (2 c inp n pending running results s z p r k y i t u t' s')
  then have "fill_pool c inp n pending running = (p, r)" by simp
  then have f: "pool_left p r \<le> pool_left pending running" by (rule fill_pool_left)
  have "k < length r" "r ! k = (i, t)" "ended t = None" "thread_step c i t s = (t', s')" using 2 by simp_all
  from pool_left_step [OF this, of p] f show ?case by simp
next
  case (3 c inp n pending running results s z p r k y i t x)
  then have "fill_pool c inp n pending running = (p, r)" by simp
  then have f: "pool_left p r \<le> pool_left pending running" by (rule fill_pool_left)
  have "k < length r" using 3 by simp
  from pool_left_drop [OF this, of p] f show ?case by simp
qed

declare run_pool.simps [simp del]

definition run_all :: "'w agents_cfg \<Rightarrow> pool_input \<Rightarrow> string list \<Rightarrow> 'w agents \<Rightarrow> (string \<times> exec_result) list \<times> 'w agents" where
  "run_all c inp ids s = run_pool c inp 0 ids [] [] s"

subsection \<open>What an agent may do\<close>

lemma decide_not_denied:
  fixes am :: auth_manager
  assumes d: "decide env am rg tid t call agent store = (Inr (known, p), store')"
    and p: "pm_decision p \<noteq> PD_DENIED"
  defines "ctx \<equiv> effective_context am agent"
  defines "level \<equiv> ra_level (assess (ae_resolve env) (am_allow_shells am) tid known call ctx)"
  shows "reg_get (tool_name t) rg = Some known
    \<and> \<not> hard_denied (am_policy am) (tool_name known) (rc_agent_id ctx) level
    \<and> (needs_approval am known level \<or> level \<le> po_auto_grant_up_to (am_policy am))"
proof (cases "pm_decision p = PD_GRANTED")
  case True
  from decide_granted [OF d this] show ?thesis unfolding ctx_def level_def by (auto split: if_splits)
next
  case False
  from d p have k: "reg_get (tool_name t) rg = Some known"
    by (auto simp: decide_def Let_def permit_def split: option.splits if_splits prod.splits sum.splits)
  obtain g reason where e: "evaluate (am_policy am) (assess (ae_resolve env) (am_allow_shells am) tid known call ctx)
      (tool_name known) (rc_agent_id ctx) = (g, reason)" by fastforce
  from d p k e have h: "tc_task_id call = tid"
    "\<not> hard_denied (am_policy am) (tool_name known) (rc_agent_id ctx) level"
    by (auto simp: decide_def Let_def permit_def ctx_def level_def split: if_splits)
  moreover have "needs_approval am known level"
    using d p False k e h
    by (auto simp: decide_def Let_def permit_def ctx_def [symmetric] level_def [symmetric] split: if_splits)
  ultimately show ?thesis using k by blast
qed

lemma scoped_manager_simps [simp]:
  "am_policy (scoped_manager ap w d a) = agent_policy ap d a"
  "rc_agent_id (effective_context (scoped_manager ap w d a) (rc_agent_id (am_context (scoped_manager ap w d a)))) = a"
  by (simp_all add: scoped_manager_def new_auth_manager_def effective_context_def Let_def)

lemma agent_policy_denies:
  "\<not> hard_denied (agent_policy ap d a) n a level \<Longrightarrow> n \<in> set (df_allowed d)"
  by (simp add: hard_denied_def outside_scope_def agent_policy_def)

text \<open>
  C5: An agent stays within its own allow-list. Let the runner authorize with the manager that
  \<open>scoped_runner\<close> builds for an agent, over the registry the runner uses and an approval store its
  operations produced, whatever people decide while it waits. If a run invoked a handler, then the
  tool is on that agent's own allow-list, and its assessed risk is within the agent's risk profile,
  or the store held an approved request for this tool and the hash of exactly this call's
  arguments, when the permission was granted or when it was last checked before the execution. A
  tool that demands approval has it in any case.
\<close>

theorem agent_confined:
  fixes aenv :: auth_env and d :: agent_definition
  assumes am: "am = scoped_manager approvals wait_s d a"
    and auth: "rv_authorizer env = manager_authorizer aenv later am (rv_registry env) polls"
    and reg: "wf_registry (rv_registry env)" and store: "run_store (ae_sha aenv) ops (rn_auth st)"
    and run: "rn_runs (result_state (run_tool env call st)) \<noteq> rn_runs st"
  shows "tc_tool call \<in> set (df_allowed d)
    \<and> (\<exists>t. reg_get (tc_tool call) (rv_registry env) = Some t
         \<and> (ra_level (assess (ae_resolve aenv) False (tc_task_id call) t
                (call\<lparr>tc_status := TC_VALIDATED\<rparr>) (am_context am)) \<le> df_risk d
              \<and> \<not> tool_requires_approval t
            \<or> approved_for aenv am (rv_registry env) polls t call (rn_auth st)))"
proof -
  let ?v = "call\<lparr>tc_status := TC_VALIDATED\<rparr>" and ?az = "rv_authorizer env"
  from run_gated [OF run] obtain t p s where
    k: "reg_get (tc_tool call) (rv_registry env) = Some t" and
    a: "az_authorize ?az t ?v (rn_auth st) = (Inr p, s)" and p: "pm_decision p \<noteq> PD_DENIED"
    by (elim exE conjE disjE) auto
  have name: "tool_name t = tc_tool call" using reg_get_name [OF reg k] by simp
  have ctx: "effective_context am (rc_agent_id (am_context am)) = am_context am"
    by (simp add: effective_context_def)
  from a obtain known where "decide aenv am (rv_registry env) (tc_task_id call) t ?v
      (rc_agent_id (am_context am)) (rn_auth st) = (Inr (known, p), s)"
    by (auto simp: auth manager_authorizer_def authorize_def split: prod.splits sum.splits)
  note dd = decide_not_denied [OF this p, unfolded ctx]
  have known: "known = t" using dd k name by simp
  have am': "am_policy am = agent_policy approvals d a" "rc_agent_id (am_context am) = a"
    "am_allow_shells am = False"
    by (simp_all add: am scoped_manager_def new_auth_manager_def Let_def)
  have "po_auto_grant_up_to (agent_policy approvals d a) = df_risk d" by (simp add: agent_policy_def)
  moreover have "tool_requires_approval t \<Longrightarrow> needs_approval am t l" for l by (simp add: needs_approval_def)
  moreover note run_approved [OF auth reg store run, unfolded am']
  ultimately show ?thesis
    using dd k name unfolding known am' by (auto dest: agent_policy_denies)
qed

definition scribe :: agent_definition where
  "scribe = \<lparr>ent_id = ''a1'', ent_created = 0, ent_updated = 0, df_name = ''scribe'', df_role = ''general'',
     df_description = [], df_capabilities = [''take notes''], df_allowed = [''note''], df_models = [],
     df_scope = ''GLOBAL'', df_scope_id = [], df_risk = MEDIUM, df_status = M_CREATED\<rparr>"

definition note_tool :: tool where
  "note_tool = \<lparr>tool_name = ''note'', tool_description = [], tool_input_schema = [],
     tool_output_schema = [], tool_risk_level = LOW, tool_timeout_s = 1, tool_capabilities = [],
     tool_execution_policy = [], tool_action_identity = [], tool_requires_sandbox = False,
     tool_sandbox_profile = [], tool_requires_approval = False, tool_network_access = False,
     tool_secrets_access = False\<rparr>"

definition note_call :: tool_call where
  "note_call = \<lparr>tc_id = ''c1'', tc_task_id = ''t1'', tc_tool = ''note'', tc_arguments = [],
     tc_status = TC_REQUESTED\<rparr>"

definition note_tools :: "handler registry" where
  "note_tools = \<lparr>rg_tools = [(''note'', note_tool)],
     rg_handlers = [(''note'', \<lambda>_. (1, Inr (H_Result ok_result)))], rg_guards = []\<rparr>"

definition scribe_env :: "approval_store option tool_env" where
  "scribe_env = managed_env\<lparr>rv_registry := note_tools, rv_registry_late := note_tools,
     rv_authorizer := manager_authorizer (demo_env 2) 3 (scoped_manager False 300 scribe ''a1'') note_tools []\<rparr>"

lemma agent_confined_witness: "''note'' \<in> set (df_allowed scribe)"
proof -
  have auth: "rv_authorizer scribe_env
      = manager_authorizer (demo_env 2) 3 (scoped_manager False 300 scribe ''a1'') (rv_registry scribe_env) []"
    by (simp add: scribe_env_def)
  have reg: "wf_registry (rv_registry scribe_env)" by code_simp
  have "length (rn_runs (result_state (run_tool scribe_env note_call managed_runner))) = 1" by code_simp
  then have run: "rn_runs (result_state (run_tool scribe_env note_call managed_runner)) \<noteq> rn_runs managed_runner"
    by (auto simp: managed_runner_def)
  show ?thesis
    using agent_confined [OF HOL.refl auth reg _ run, of demo_ops] demo_run_store by (simp add: note_call_def)
qed

subsection \<open>The pool\<close>

lemma nth_index: "xs \<noteq> [] \<Longrightarrow> (k :: nat) mod length xs < length xs"
  by simp

lemma run_pool_rule:
  assumes run: "run_pool c inp n pending running results s = (results', s')"
    and I: "I pending running results s"
    and fill: "\<And>n p r p' r' res s. I p r res s \<Longrightarrow> fill_pool c inp n p r = (p', r') \<Longrightarrow> I p' r' res s"
    and coll: "\<And>p r res s k i x. I p r res s \<Longrightarrow> k < length r \<Longrightarrow> r ! k = (i, At_End x) \<Longrightarrow>
        I p (drop_nth k r) (dict_set i (collect c i x s) res) s"
    and step: "\<And>p r res s k i t t' s'. I p r res s \<Longrightarrow> k < length r \<Longrightarrow> r ! k = (i, t) \<Longrightarrow>
        thread_step c i t s = (t', s') \<Longrightarrow> I p (r[k := (i, t')]) res s'"
  shows "\<exists>n p0 r0 p. I p [] results' s' \<and> fill_pool c inp n p0 r0 = (p, [])"
  using run I
proof (induction "pool_left pending running" arbitrary: n pending running results s rule: less_induct)
  case less
  obtain p r where f: "fill_pool c inp n pending running = (p, r)" by fastforce
  have I': "I p r results s" using fill f less.prems(2) by blast
  have left: "pool_left p r \<le> pool_left pending running" by (rule fill_pool_left [OF f])
  show ?case
  proof (cases "r = []")
    case True
    with f less.prems I' show ?thesis by (auto simp: run_pool.simps [of c inp n])
  next
    case False
    let ?k = "pi_pick inp n mod length r"
    have k: "?k < length r" using False by simp
    obtain i t where it: "r ! ?k = (i, t)" by fastforce
    show ?thesis
    proof (cases "ended t")
      case None
      obtain t' s1 where ts: "thread_step c i t s = (t', s1)" by fastforce
      have "run_pool c inp (n + 1) p (r[?k := (i, t')]) results s1 = (results', s')"
        using less.prems(1) f False it None ts by (simp add: run_pool.simps [of c inp n] Let_def)
      from less.hyps [OF less_le_trans [OF pool_left_step [OF k it None ts] left] this step [OF I' k it ts]]
      show ?thesis .
    next
      case (Some x)
      then have t: "t = At_End x" by (cases t) simp_all
      have "run_pool c inp (n + 1) p (drop_nth ?k r) (dict_set i (collect c i x s) results) s = (results', s')"
        using less.prems(1) f False it t by (simp add: run_pool.simps [of c inp n] Let_def)
      from less.hyps [OF less_le_trans [OF pool_left_drop [OF k] left] this coll [OF I' k it [unfolded t]]]
      show ?thesis .
    qed
  qed
qed

lemma fill_pool_cases:
  assumes "fill_pool c inp n p r = (p', r')"
  shows "\<exists>started rest. p = started @ rest \<and> r' = r @ map (\<lambda>i. (i, At_Start)) started
    \<and> (started \<noteq> [] \<longrightarrow> length r' \<le> gc_workers c)
    \<and> (p' = rest \<and> (rest \<noteq> [] \<longrightarrow> gc_workers c \<le> length r')
       \<or> p' = [] \<and> pi_cancelled inp n (length rest - 1))"
  using assms
proof (induction p arbitrary: r)
  case Nil
  then show ?case by simp
next
  case (Cons i p)
  consider "gc_workers c \<le> length r" | "\<not> gc_workers c \<le> length r" "pi_cancelled inp n (length p)"
    | "\<not> gc_workers c \<le> length r" "\<not> pi_cancelled inp n (length p)" by blast
  then show ?case
  proof cases
    case 1
    with Cons.prems show ?thesis by (intro exI [of _ "[]"] exI [of _ "i # p"]) auto
  next
    case 2
    with Cons.prems show ?thesis by (intro exI [of _ "[]"] exI [of _ "i # p"]) auto
  next
    case 3
    with Cons.prems have "fill_pool c inp n p (r @ [(i, At_Start)]) = (p', r')" by simp
    from Cons.IH [OF this] obtain started rest where
      s: "p = started @ rest" "r' = (r @ [(i, At_Start)]) @ map (\<lambda>i. (i, At_Start)) started"
        "started \<noteq> [] \<longrightarrow> length r' \<le> gc_workers c"
        "p' = rest \<and> (rest \<noteq> [] \<longrightarrow> gc_workers c \<le> length r')
         \<or> p' = [] \<and> pi_cancelled inp n (length rest - 1)" by blast
    have "length r' \<le> gc_workers c" using s(2,3) 3(1) by (cases "started = []") simp_all
    with s show ?thesis by (intro exI [of _ "i # started"] exI [of _ rest]) simp
  qed
qed

lemma fill_pool_ids:
  assumes "fill_pool c inp n p r = (p', r')" "\<And>n k. \<not> pi_cancelled inp n k"
  shows "set p' \<union> fst ` set r' = set p \<union> fst ` set r"
    and "r' = [] \<Longrightarrow> 1 \<le> gc_workers c \<Longrightarrow> p' = []"
  using fill_pool_cases [OF assms(1)] assms(2) by (force simp: image_Un image_image)+

lemma fill_pool_bound:
  "fill_pool c inp n p r = (p', r') \<Longrightarrow> length r \<le> gc_workers c \<Longrightarrow> length r' \<le> gc_workers c"
  using fill_pool_cases [of c inp n p r p' r'] by auto

lemma set_drop_nth: "k < length xs \<Longrightarrow> insert (xs ! k) (set (drop_nth k xs)) = set xs"
  using arg_cong [OF mset_drop_nth [of k xs], of set_mset] by simp

lemma fst_set_drop_nth: "k < length r \<Longrightarrow> r ! k = (i, t) \<Longrightarrow> fst ` set r = insert i (fst ` set (drop_nth k r))"
  by (metis fst_conv image_insert set_drop_nth)

lemma fst_set_update:
  "k < length r \<Longrightarrow> r ! k = (i, t) \<Longrightarrow> fst ` set (r[k := (i, t')]) = fst ` set r"
  by (metis fst_conv list_update_id map_update set_map)

lemma run_all_keys:
  fixes c :: "'w agents_cfg"
  assumes workers: "1 \<le> gc_workers c" and going: "\<And>n k. \<not> pi_cancelled inp n k"
  shows "set (keys (fst (run_all c inp ids s))) = set ids \<and> distinct (keys (fst (run_all c inp ids s)))"
proof -
  define I where "I p r res u \<longleftrightarrow>
    set p \<union> fst ` set r \<union> set (keys res) = set ids \<and> distinct (keys res)"
    for p and r :: pool_threads and res :: "(string \<times> exec_result) list" and u :: "'w agents"
  obtain res s' where run: "run_all c inp ids s = (res, s')" by fastforce
  have "\<exists>n p0 r0 p. I p [] res s' \<and> fill_pool c inp n p0 r0 = (p, [])"
  proof (rule run_pool_rule [where I = I, OF run [unfolded run_all_def]])
    show "I p' r' res s" if "I p r res s" "fill_pool c inp n p r = (p', r')"
      for n p r p' r' res s using that fill_pool_ids(1) [OF that(2) going] by (simp add: I_def)
    show "I p (drop_nth k r) (dict_set i (collect c i x s) res) s"
      if "I p r res s" "k < length r" "r ! k = (i, At_End x)" for p r res s k i x
      using that fst_set_drop_nth [OF that(2,3)] by (simp add: I_def distinct_keys_dict_set)
    show "I p (r[k := (i, t')]) res s'"
      if "I p r res s" "k < length r" "r ! k = (i, t)" for p r res s s' k i t t'
      using that fst_set_update [of k r i t t'] by (simp add: I_def)
  qed (simp add: I_def)
  then obtain n p0 r0 p where e: "I p [] res s'" "fill_pool c inp n p0 r0 = (p, [])" by blast
  from fill_pool_ids(2) [OF e(2) going HOL.refl workers] e(1) run show ?thesis by (simp add: I_def)
qed

text \<open>
  Every task that is asked for gets an outcome. Without cancellation and with at least one
  worker, \<open>run_all\<close> ends, in every order the threads may take their turns, with exactly one
  result for every requested record, the ones that could not be found or that had already run
  and the ones whose execution raised included.
\<close>

theorem every_task_gets_a_result:
  fixes c :: "'w agents_cfg"
  assumes workers: "1 \<le> gc_workers c" and going: "\<And>n k. \<not> pi_cancelled inp n k"
  shows "set (keys (fst (run_all c inp ids s))) = set ids \<and> distinct (keys (fst (run_all c inp ids s)))"
  using run_all_keys [OF assms] .

subsection \<open>At most one execution\<close>

text \<open>A task that does not start any more: its row exists and is neither created nor ready.\<close>

definition spent :: "string \<Rightarrow> 'w agents \<Rightarrow> bool" where
  "spent i s \<longleftrightarrow> (\<exists>t. tbl_get i (ga_tasks s) = Some t \<and> gt_status t \<notin> {M_CREATED, M_READY})"

fun thread_fits :: "string list \<Rightarrow> 'w agents \<Rightarrow> string \<times> agent_thread \<Rightarrow> bool" where
  "thread_fits l s (i, At_Mark r) \<longleftrightarrow> ent_id r = i \<and> i \<notin> set l"
| "thread_fits l s (i, At_Execute am r) \<longleftrightarrow> ent_id r = i \<and> i \<notin> set l \<and> spent i s"
| "thread_fits l s (i, At_Finish r x) \<longleftrightarrow> ent_id r = i"
| "thread_fits l s (i, t) \<longleftrightarrow> True"

text \<open>\<open>lg\<close> reads off the world the identifiers of the records whose execution was begun.\<close>

definition once_inv :: "('w \<Rightarrow> string list) \<Rightarrow> string list \<Rightarrow> pool_threads \<Rightarrow> 'w agents \<Rightarrow> bool" where
  "once_inv lg p r s \<longleftrightarrow> wf_table (ga_tasks s) \<and> distinct (p @ map fst r) \<and> distinct (lg (ga_world s))
     \<and> (\<forall>i \<in> set (lg (ga_world s)). spent i s) \<and> (\<forall>e \<in> set r. thread_fits (lg (ga_world s)) s e)"

lemma ga_tasks_set_status [simp]:
  "ga_tasks (snd (set_status c a st s)) = ga_tasks s" "ga_world (snd (set_status c a st s)) = ga_world s"
  by (simp_all add: set_status_def def_save_def split: option.split)

lemma set_status_keeps:
  "set_status c a st s = (r, s') \<Longrightarrow> ga_tasks s' = ga_tasks s \<and> ga_world s' = ga_world s"
  using ga_tasks_set_status [of c a st s] by simp

lemma ga_task_save [simp]:
  "ga_world (task_save c t s) = ga_world s" "ga_defs (task_save c t s) = ga_defs s"
  "tbl_get i (ga_tasks (task_save c t s))
     = (if i = ent_id t then Some (touch (gc_clock c (ga_reads s)) t) else tbl_get i (ga_tasks s))"
  by (simp_all add: task_save_def tbl_put_def store_simps tbl_get_def)

lemma wf_task_save [simp]: "wf_table (ga_tasks s) \<Longrightarrow> wf_table (ga_tasks (task_save c t s))"
  using wf_table_dict_set [of "ga_tasks s" "touch (gc_clock c (ga_reads s)) t"]
  by (simp add: task_save_def tbl_put_def store_simps)

lemma agents_emit_simps [simp]:
  "ga_tasks (agents_emit ty tid pl s) = ga_tasks s" "ga_world (agents_emit ty tid pl s) = ga_world s"
  "ga_defs (agents_emit ty tid pl s) = ga_defs s"
  by (simp_all add: agents_emit_def)

lemma spent_task_save [simp]:
  "spent i (task_save c t s)
     \<longleftrightarrow> (if i = ent_id t then gt_status t \<notin> {M_CREATED, M_READY} else spent i s)"
  by (simp add: spent_def touch_def)

lemma spent_cong: "ga_tasks s' = ga_tasks s \<Longrightarrow> spent i s' = spent i s"
  by (simp add: spent_def)

lemma start_task_effect:
  assumes "start_task c r s = (x, s')"
  shows "ga_world s' = ga_world s \<and> (wf_table (ga_tasks s) \<longrightarrow> wf_table (ga_tasks s'))
    \<and> (\<forall>j. j \<noteq> ent_id r \<longrightarrow> spent j s' = spent j s)
    \<and> (ga_tasks s' = ga_tasks s \<and> (\<exists>e. x = Inl e) \<or> spent (ent_id r) s'
         \<and> (\<forall>am r1. x = Inr (am, r1) \<longrightarrow> ent_id r1 = ent_id r))"
proof (cases "lookup_definition (gt_owner r) s")
  case None
  with assms show ?thesis by (auto simp: start_task_def scoped_runner_def eff_bind_def)
next
  case (Some d)
  let ?s = "task_save c (r\<lparr>gt_status := M_RUNNING\<rparr>) s"
  obtain y s1 where y: "set_status c (gt_owner r) M_RUNNING ?s = (y, s1)" by fastforce
  note k = set_status_keeps [OF y]
  have e: "ga_tasks s' = ga_tasks ?s \<and> ga_world s' = ga_world s
    \<and> (\<forall>am r1. x = Inr (am, r1) \<longrightarrow> ent_id r1 = ent_id r)"
    using assms Some y k
    by (auto simp: start_task_def scoped_runner_def eff_bind_def Let_def split: sum.splits)
  then have sp: "spent j s' = (j = ent_id r \<or> spent j s)" for j
    using spent_cong [of s' ?s j] by simp
  have "wf_table (ga_tasks s) \<longrightarrow> wf_table (ga_tasks s')" using e by simp
  with e sp show ?thesis by blast
qed

lemma finish_task_effect:
  assumes "finish_task c r x s = (y, s')"
  shows "ga_world s' = ga_world s \<and> (wf_table (ga_tasks s) \<longrightarrow> wf_table (ga_tasks s'))
    \<and> (\<forall>j. j \<noteq> ent_id r \<longrightarrow> spent j s' = spent j s) \<and> (spent (ent_id r) s \<longrightarrow> spent (ent_id r) s')"
proof -
  obtain z s1 where z: "set_status c (gt_owner r) M_READY s = (z, s1)" by fastforce
  note k = set_status_keeps [OF z]
  have sp: "spent j s1 = spent j s" for j using k spent_cong by blast
  show ?thesis
  proof (cases z)
    case (Inl e)
    with assms z k sp show ?thesis by (auto simp: finish_task_def eff_bind_def)
  next
    case (Inr u)
    define a where "a = r\<lparr>gt_status := (if xr_status (case x of Inr x \<Rightarrow> x | Inl e \<Rightarrow> failed_execution (gt_task r)
      (''execution raised '' @ gc_text c e)) = O_COMPLETED then M_COMPLETED else M_FAILED)\<rparr>"
    obtain sm where "ga_tasks s' = ga_tasks (task_save c (a\<lparr>gt_summary := sm\<rparr>) (task_save c a s1))"
      "ga_world s' = ga_world s1"
      using assms z Inr by (auto simp: finish_task_def eff_bind_def Let_def a_def)
    moreover from this have "spent j s' = spent j (task_save c (a\<lparr>gt_summary := sm\<rparr>) (task_save c a s1))" for j
      by (intro spent_cong)
    ultimately show ?thesis using k sp by (simp add: a_def)
  qed
qed

lemma check_task_effect:
  "check_task i s = (x, s') \<Longrightarrow> s' = s \<and> (\<forall>r. x = Inr r \<longrightarrow> tbl_get i (ga_tasks s) = Some r \<and> \<not> spent i s)"
  by (auto simp: check_task_def spent_def split: option.splits if_splits)

lemma distinct_fst_unique:
  "distinct (map fst r) \<Longrightarrow> k < length r \<Longrightarrow> m < length r \<Longrightarrow> m \<noteq> k \<Longrightarrow> fst (r ! m) \<noteq> fst (r ! k)"
  by (metis length_map nth_eq_iff_index_eq nth_map)

lemma thread_fits_frame:
  assumes "thread_fits l s e" "fst e \<noteq> i" "\<And>j. j \<noteq> i \<Longrightarrow> spent j s' = spent j s"
    and "\<And>j. j \<noteq> i \<Longrightarrow> j \<in> set l' \<longleftrightarrow> j \<in> set l"
  shows "thread_fits l' s' e"
  using assms by (cases "(l, s, e)" rule: thread_fits.cases) auto

lemma once_inv_step:
  assumes log: "\<And>am r w. lg (snd (gc_execute c am r w)) = lg w @ [ent_id r]"
    and I: "once_inv lg p r s" and k: "k < length r" "r ! k = (i, t)" and ts: "thread_step c i t s = (t', s')"
  shows "once_inv lg p (r[k := (i, t')]) s'"
proof -
  let ?l = "lg (ga_world s)" and ?l' = "lg (ga_world s')"
  have wf: "wf_table (ga_tasks s)" and d: "distinct (p @ map fst r)" "distinct ?l"
    and sp: "\<And>j. j \<in> set ?l \<Longrightarrow> spent j s" and fits: "\<And>e. e \<in> set r \<Longrightarrow> thread_fits ?l s e"
    using I by (simp_all add: once_inv_def)
  have fit: "thread_fits ?l s (i, t)" using fits [OF nth_mem [OF k(1)]] k(2) by simp
  have main: "wf_table (ga_tasks s') \<and> (\<forall>j. j \<noteq> i \<longrightarrow> spent j s' = spent j s) \<and> distinct ?l'
      \<and> (\<forall>j. j \<noteq> i \<longrightarrow> (j \<in> set ?l' \<longleftrightarrow> j \<in> set ?l)) \<and> (i \<in> set ?l' \<longrightarrow> spent i s')
      \<and> thread_fits ?l' s' (i, t')"
  proof (cases t)
    case At_Start
    obtain x s1 where x: "check_task i s = (x, s1)" by fastforce
    note e = check_task_effect [OF x]
    have "t' = (case x of Inl e \<Rightarrow> At_End (Inl e) | Inr r \<Rightarrow> At_Mark r)" "s' = s"
      using ts At_Start x e by (auto simp: after_def split: sum.splits)
    with e wf d sp show ?thesis by (auto simp: tbl_get_def dest: wf_table_get split: sum.split)
  next
    case (At_Mark q)
    with fit have q: "ent_id q = i" "i \<notin> set ?l" by simp_all
    obtain x s1 where x: "start_task c q s = (x, s1)" by fastforce
    note e = start_task_effect [OF x, unfolded q(1)]
    have s1: "s1 = s'" and t': "t' = (case x of Inl e \<Rightarrow> At_End (Inl e) | Inr (am, r1) \<Rightarrow> At_Execute am r1)"
      using ts At_Mark x by (auto simp: after_def split: sum.splits)
    have l: "?l' = ?l" using e s1 by simp
    have "thread_fits ?l s' (i, t')" using e q s1 by (auto simp: t' split: sum.split)
    with e wf d q sp l s1 show ?thesis by auto
  next
    case (At_Execute am q)
    with fit have q: "ent_id q = i" "i \<notin> set ?l" "spent i s" by simp_all
    obtain x w where x: "gc_execute c am q (ga_world s) = (x, w)" by fastforce
    have s': "s' = s\<lparr>ga_world := w\<rparr>" "t' = At_Finish q x"
      using ts At_Execute x by (auto simp: after_def execute_task_def)
    have l: "?l' = ?l @ [i]" using log [of am q "ga_world s"] x q(1) s' by simp
    have "spent j s' = spent j s" for j using s' by (simp add: spent_def)
    with s' l q wf d sp show ?thesis by auto
  next
    case (At_Finish q x)
    with fit have q: "ent_id q = i" by simp
    obtain y s1 where y: "finish_task c q x s = (y, s1)" by fastforce
    note e = finish_task_effect [OF y, unfolded q]
    have s1: "s1 = s'" and t': "\<exists>z. t' = At_End z"
      using ts At_Finish y by (auto simp: after_def split: sum.splits)
    have l: "?l' = ?l" using e s1 by simp
    with e wf d sp s1 t' show ?thesis by auto
  next
    case (At_End x)
    with ts I wf d sp show ?thesis by auto
  qed
  have "thread_fits ?l' s' e" if "e \<in> set (r[k := (i, t')])" for e
  proof -
    from that obtain m where m: "m < length r" "e = r[k := (i, t')] ! m" by (metis in_set_conv_nth length_list_update)
    show ?thesis
    proof (cases "m = k")
      case True
      with m k main show ?thesis by simp
    next
      case False
      then have e: "e = r ! m" using m by simp
      have ne: "fst e \<noteq> i" using distinct_fst_unique [of r k m] d(1) k m(1) False e by simp
      have fe: "thread_fits ?l s e" using fits m(1) e by simp
      have "spent j s' = spent j s" "j \<in> set ?l' \<longleftrightarrow> j \<in> set ?l" if "j \<noteq> i" for j
        using main that by blast+
      then show ?thesis by (rule thread_fits_frame [OF fe ne])
    qed
  qed
  moreover have "map fst (r[k := (i, t')]) = map fst r"
    by (metis fst_conv k(2) list_update_id map_update)
  moreover have "\<forall>j \<in> set ?l'. spent j s'" using main sp by metis
  ultimately show ?thesis using main d(1) unfolding once_inv_def by simp
qed

lemma once_inv_fill:
  assumes "once_inv lg p r s" "fill_pool c inp n p r = (p', r')"
  shows "once_inv lg p' r' s"
proof -
  from fill_pool_cases [OF assms(2)] obtain started rest where
    s: "p = started @ rest" "r' = r @ map (\<lambda>i. (i, At_Start)) started" "p' = rest \<or> p' = []" by blast
  have "map fst r' = map fst r @ started" by (simp add: s(2) o_def)
  then show ?thesis using assms(1) s by (auto simp: once_inv_def)
qed

lemma once_inv_drop:
  assumes "once_inv lg p r s" "k < length r"
  shows "once_inv lg p (drop_nth k r) s"
proof -
  have "mset (map fst r) = add_mset (fst (r ! k)) (mset (map fst (drop_nth k r)))"
    using arg_cong [OF mset_drop_nth [OF assms(2)], of "image_mset fst"] by simp
  then have "distinct (map fst r) \<longleftrightarrow> distinct (fst (r ! k) # map fst (drop_nth k r))"
    by (metis mset.simps(2) mset_eq_imp_distinct_iff)
  moreover have "set (drop_nth k r) \<subseteq> set r" using set_drop_nth [OF assms(2)] by blast
  ultimately show ?thesis using assms(1) unfolding once_inv_def by auto
qed

lemma run_all_once:
  fixes lg :: "'w \<Rightarrow> string list" and c :: "'w agents_cfg"
  assumes log: "\<And>am r w. lg (snd (gc_execute c am r w)) = lg w @ [ent_id r]"
    and inv: "once_inv lg ids [] s" and run: "run_all c inp ids s = (res, s')"
  shows "once_inv lg [] [] s'"
proof -
  from inv have start: "(\<lambda>p r res. once_inv lg p r) ids [] [] s" .
  note rule = run_pool_rule [where I = "\<lambda>p r res. once_inv lg p r", OF run [unfolded run_all_def] start]
  have "\<exists>n p0 r0 p. once_inv lg p [] s' \<and> fill_pool c inp n p0 r0 = (p, [])"
    by (rule rule)
      (assumption | erule (1) once_inv_fill once_inv_drop | erule (3) once_inv_step [OF log])+
  then show ?thesis by (auto simp: once_inv_def)
qed

text \<open>Any number of \<open>run_all\<close> calls, one after the other, each with its own order of the threads.\<close>

fun run_batches :: "'w agents_cfg \<Rightarrow> (pool_input \<times> string list) list \<Rightarrow> 'w agents \<Rightarrow> 'w agents" where
  "run_batches c [] s = s"
| "run_batches c ((inp, ids) # bs) s = run_batches c bs (snd (run_all c inp ids s))"


text \<open>A configuration whose world is the list of the executed records, and two tasks of one agent.\<close>

definition logged_cfg :: "string list agents_cfg" where
  "logged_cfg = \<lparr>gc_clock = (\<lambda>_. 1), gc_new_id = (\<lambda>_. ''k''), gc_create_task = (\<lambda>_ _ w. (Inr ''t'', w)),
     gc_execute = (\<lambda>am r w. (Inl (OtherException ''boom''), w @ [ent_id r])), gc_text = (\<lambda>_. ''boom''),
     gc_workers = 2, gc_approvals = False, gc_wait_s = 300\<rparr>"

definition scribe_task :: "string \<Rightarrow> agent_task" where
  "scribe_task i = \<lparr>ent_id = i, ent_created = 0, ent_updated = 0, gt_task = ''t'' @ i, gt_owner = ''a1'',
     gt_parent = [], gt_parent_task = [], gt_goal = ''g'',
     gt_plan = \<lparr>plan_goal = [], plan_steps = [], plan_final_verification = []\<rparr>, gt_arguments = [],
     gt_status = M_CREATED, gt_interrupted = False, gt_summary = []\<rparr>"

definition scribe_state :: "string list agents" where
  "scribe_state = \<lparr>ga_defs = [(''a1'', scribe\<lparr>df_status := M_READY\<rparr>)],
     ga_tasks = [(''k1'', scribe_task ''k1''), (''k2'', scribe_task ''k2'')], ga_events = [], ga_reads = 0,
     ga_world = []\<rparr>"

definition free_order :: "(nat \<Rightarrow> nat) \<Rightarrow> pool_input" where
  "free_order pick = \<lparr>pi_cancelled = (\<lambda>_ _. False), pi_pick = pick\<rparr>"

definition twice_asked :: "(pool_input \<times> string list) list" where
  "twice_asked = [(free_order id, [''k1'', ''k2'']), (free_order id, [''k2'', ''k1''])]"


lemma every_task_gets_a_result_witness:
  "set (keys (fst (run_all logged_cfg (free_order id) [''k1'', ''zz''] scribe_state))) = {''k1'', ''zz''}"
  using every_task_gets_a_result [of logged_cfg "free_order id" "[''k1'', ''zz'']" scribe_state]
  by (simp add: logged_cfg_def free_order_def)

text \<open>
  The guard of \<open>run_task\<close> and its marking are two calls: when one record is asked for twice and both
  threads read it before either marks it, the task is executed twice.
\<close>

lemma same_record_executes_twice:
  "ga_world (snd (run_all logged_cfg (free_order id) [''k1'', ''k1''] scribe_state)) = [''k1'', ''k1'']"
  by code_simp

end
