(* ===== verification/Messages.thy ===== *)
theory Messages
  imports Store Effects Events Domain
begin

text \<open>
  The message bus between agents (\<^verbatim>\<open>agent/multi/messages.py\<close>) with its optional repository
  (\<^verbatim>\<open>SqliteMessageRepository\<close>, a snapshot table). The size of a message's JSON dump is a
  parameter; one reading of the clock serves a call. A message that is saved is touched, and it
  is the object the inbox holds.
\<close>

record agent_message = entity +
  ms_sender :: string
  ms_recipient :: string
  ms_task :: string
  ms_type :: string
  ms_payload :: arguments
  ms_priority :: int
  ms_correlation :: string
  ms_ttl :: int
  ms_hops :: int
  ms_expires :: "real option"

record msg_cfg =
  mc_events :: bool
  mc_repo :: bool
  mc_size :: "agent_message \<Rightarrow> int"
  mc_max_payload :: int
  mc_max_inbox :: int
  mc_max_hops :: int

record msg_bus =
  mb_inboxes :: "(string \<times> agent_message list) list"
  mb_registered :: "string list"
  mb_seen :: "(string \<times> string) list"
  mb_forwarded :: "((string \<times> string \<times> string) \<times> int) list"
  mb_events :: "event list"
  mb_table :: "agent_message table"

definition new_msg_bus :: msg_bus where
  "new_msg_bus = \<lparr>mb_inboxes = [], mb_registered = [], mb_seen = [], mb_forwarded = [], mb_events = [],
                  mb_table = []\<rparr>"

type_synonym 'a msg_op = "(msg_bus, 'a) eff"

definition msg_emit :: "msg_cfg \<Rightarrow> string \<Rightarrow> string \<Rightarrow> arguments \<Rightarrow> unit msg_op" where
  "msg_emit c ty tid payload = eff_modify (\<lambda>b.
     if mc_events c then b\<lparr>mb_events := mb_events b @ [mk_event ty tid (JObj payload)]\<rparr> else b)"

definition register_agent :: "string \<Rightarrow> msg_bus \<Rightarrow> msg_bus" where
  "register_agent a b = b\<lparr>mb_registered := List.insert a (mb_registered b)\<rparr>"

definition inbox_of :: "string \<Rightarrow> msg_bus \<Rightarrow> agent_message list" where
  "inbox_of a b = (case map_of (mb_inboxes b) a of None \<Rightarrow> [] | Some ms \<Rightarrow> ms)"

definition set_inbox :: "string \<Rightarrow> agent_message list \<Rightarrow> msg_bus \<Rightarrow> msg_bus" where
  "set_inbox a ms b = b\<lparr>mb_inboxes := dict_set a ms (mb_inboxes b)\<rparr>"

definition msg_expired :: "real \<Rightarrow> agent_message \<Rightarrow> bool" where
  "msg_expired now m = (case ms_expires m of None \<Rightarrow> False | Some t \<Rightarrow> now > t)"

definition msg_reject :: "msg_cfg \<Rightarrow> agent_message \<Rightarrow> string \<Rightarrow> unit msg_op" where
  "msg_reject c m reason = msg_emit c ''AgentMessageRejected'' (ms_task m)
     [(''message_id'', JStr (ent_id m)), (''reason'', JStr reason)]"

definition reject_raise :: "msg_cfg \<Rightarrow> agent_message \<Rightarrow> string \<Rightarrow> string \<Rightarrow> unit msg_op" where
  "reject_raise c m reason text =
     eff_then (msg_reject c m reason) (eff_raise (DomainValidationError text))"

definition msg_validate :: "msg_cfg \<Rightarrow> real \<Rightarrow> agent_message \<Rightarrow> unit msg_op" where
  "msg_validate c now m b =
     (let unknown_sender = ''unknown sender '' @ repr_str (ms_sender m);
          unknown_recipient = ''unknown recipient '' @ repr_str (ms_recipient m)
      in if ms_sender m = [] \<or> ms_sender m \<notin> set (mb_registered b)
           then reject_raise c m unknown_sender unknown_sender b
         else if ms_recipient m = [] \<or> ms_recipient m \<notin> set (mb_registered b)
           then reject_raise c m unknown_recipient unknown_recipient b
         else if ms_task m = [] then reject_raise c m ''missing task scope'' ''message has no task scope'' b
         else if mc_size c m > mc_max_payload c
           then reject_raise c m (''payload '' @ int_text (mc_size c m) @ '' bytes exceeds limit'')
                  ''message exceeds size limit'' b
         else if ms_ttl m < 1 then reject_raise c m ''ttl exhausted'' ''message ttl exhausted'' b
         else if msg_expired now m then reject_raise c m ''message expired'' ''message expired'' b
         else eff_return () b)"

definition store_message :: "msg_cfg \<Rightarrow> real \<Rightarrow> agent_message \<Rightarrow> unit msg_op" where
  "store_message c now m b =
     (if \<not> mc_repo c then eff_return () b
      else case tbl_create now m (mb_table b) of
          Inl e \<Rightarrow> eff_raise e b
        | Inr (_, t) \<Rightarrow> eff_return () (b\<lparr>mb_table := t\<rparr>))"

text \<open>The object once \<open>create\<close> has touched it.\<close>

definition stored_form :: "msg_cfg \<Rightarrow> real \<Rightarrow> agent_message \<Rightarrow> agent_message" where
  "stored_form c now m = (if mc_repo c then touch now m else m)"

definition enqueue :: "msg_cfg \<Rightarrow> real \<Rightarrow> agent_message \<Rightarrow> msg_bus \<Rightarrow> msg_bus" where
  "enqueue c now m b =
     set_inbox (ms_recipient m) (inbox_of (ms_recipient m) b @ [stored_form c now m])
       (b\<lparr>mb_seen := List.insert (ent_id m, ms_recipient m) (mb_seen b)\<rparr>)"

definition route_message :: "msg_cfg \<Rightarrow> real \<Rightarrow> agent_message \<Rightarrow> unit msg_op" where
  "route_message c now m b =
     (if (ent_id m, ms_recipient m) \<in> set (mb_seen b)
        then eff_raise (DomainValidationError
               (''duplicate message '' @ repr_str (ent_id m) @ '' to '' @ repr_str (ms_recipient m))) b
      else if int (length (inbox_of (ms_recipient m) b)) \<ge> mc_max_inbox c
        then eff_raise (DomainValidationError
               (''inbox for '' @ repr_str (ms_recipient m) @ '' is full ('' @ int_text (mc_max_inbox c) @ '')''))
               (set_inbox (ms_recipient m) (inbox_of (ms_recipient m) b) b)
      else eff_then (store_message c now m)
             (msg_emit c ''AgentMessageSent'' (ms_task m)
               [(''message_id'', JStr (ent_id m)), (''sender'', JStr (ms_sender m)),
                (''recipient'', JStr (ms_recipient m)), (''type'', JStr (ms_type m))])
             (enqueue c now m b))"

definition send_message :: "msg_cfg \<Rightarrow> real \<Rightarrow> agent_message \<Rightarrow> agent_message msg_op" where
  "send_message c now m =
     eff_then (msg_validate c now m) (eff_then (route_message c now m) (eff_return (stored_form c now m)))"

fun receive_from :: "msg_cfg \<Rightarrow> real \<Rightarrow> string \<Rightarrow> agent_message list \<Rightarrow> agent_message option msg_op" where
  "receive_from c now a [] b = eff_return None (set_inbox a [] b)"
| "receive_from c now a (m # ms) b =
     (if msg_expired now m
      then eff_then (msg_emit c ''AgentMessageRejected'' (ms_task m)
               [(''message_id'', JStr (ent_id m)), (''reason'', JStr ''expired on receive'')])
             (receive_from c now a ms) (set_inbox a ms b)
      else eff_then (msg_emit c ''AgentMessageReceived'' (ms_task m)
               [(''message_id'', JStr (ent_id m)), (''recipient'', JStr a)])
             (eff_return (Some m)) (set_inbox a ms b))"

definition require_registered :: "string \<Rightarrow> unit msg_op" where
  "require_registered a b =
     (if a \<in> set (mb_registered b) then eff_return () b
      else eff_raise (DomainValidationError (''unknown agent '' @ repr_str a)) b)"

definition receive_message :: "msg_cfg \<Rightarrow> real \<Rightarrow> string \<Rightarrow> agent_message option msg_op" where
  "receive_message c now a =
     eff_then (require_registered a) (\<lambda>b. receive_from c now a (inbox_of a b) b)"

definition pending_messages :: "string \<Rightarrow> nat msg_op" where
  "pending_messages a =
     eff_then (require_registered a) (\<lambda>b. eff_return (length (inbox_of a b)) (set_inbox a (inbox_of a b) b))"

definition forward_key :: "agent_message \<Rightarrow> string \<Rightarrow> string \<times> string \<times> string" where
  "forward_key m recipient =
     (if ms_correlation m \<noteq> [] then ms_correlation m else ent_id m, ms_sender m, recipient)"

definition forward_count :: "msg_bus \<Rightarrow> string \<times> string \<times> string \<Rightarrow> int" where
  "forward_count b k = (case map_of (mb_forwarded b) k of None \<Rightarrow> 0 | Some n \<Rightarrow> n)"

definition relay :: "agent_message \<Rightarrow> string \<Rightarrow> agent_message" where
  "relay m recipient = m\<lparr>ms_recipient := recipient, ms_hops := ms_hops m + 1, ms_ttl := ms_ttl m - 1\<rparr>"

definition forward_message :: "msg_cfg \<Rightarrow> real \<Rightarrow> agent_message \<Rightarrow> string \<Rightarrow> agent_message msg_op" where
  "forward_message c now m recipient b =
     (if ms_hops m + 1 > mc_max_hops c
        then eff_raise (DomainValidationError
               (''message '' @ repr_str (ent_id m) @ '' exceeded '' @ int_text (mc_max_hops c) @ '' hops'')) b
      else if ms_ttl m \<le> 1
        then eff_raise (DomainValidationError (''message '' @ repr_str (ent_id m) @ '' ttl exhausted'')) b
      else
        let k = forward_key m recipient;
            n = forward_count b k + 1;
            b1 = b\<lparr>mb_forwarded := dict_set k n (mb_forwarded b)\<rparr>
        in if n > mc_max_hops c
           then eff_raise (DomainValidationError
                  (''forwarding loop detected for '' @ repr_str (ms_correlation m))) b1
           else send_message c now (relay m recipient) b1)"

definition handoff ::
  "msg_cfg \<Rightarrow> real \<Rightarrow> string \<Rightarrow> string \<Rightarrow> string \<Rightarrow> string \<Rightarrow> string \<Rightarrow> string \<Rightarrow> agent_message msg_op" where
  "handoff c now new_id sender recipient tid summary correlation =
     eff_bind (send_message c now
        \<lparr>ent_id = new_id, ent_created = now, ent_updated = now, ms_sender = sender, ms_recipient = recipient,
         ms_task = tid, ms_type = ''HANDOFF'', ms_payload = [(''result'', JStr summary)], ms_priority = 0,
         ms_correlation = (if correlation \<noteq> [] then correlation else tid), ms_ttl = 8, ms_hops = 0,
         ms_expires = None\<rparr>)
      (\<lambda>m. eff_then (msg_emit c ''AgentHandoff'' tid
              [(''message_id'', JStr (ent_id m)), (''sender'', JStr sender), (''recipient'', JStr recipient)])
            (eff_return m))"

definition message_history :: "msg_cfg \<Rightarrow> string \<Rightarrow> msg_bus \<Rightarrow> agent_message list" where
  "message_history c correlation b =
     (let stored = (if mc_repo c then tbl_list (mb_table b) else []);
          live = concat (map snd (mb_inboxes b));
          found = fold (\<lambda>m d. dict_set (ent_id m) m d)
                    (filter (\<lambda>m. ms_correlation m = correlation) (stored @ live)) []
      in sort_key ent_created (sort_key ent_id (map snd found)))"

subsection \<open>What a call does to the inboxes\<close>

datatype msg_action =
    Register string
  | Send real agent_message
  | Forward real agent_message string
  | Receive real string
  | Hand_over real string string string string string string

fun msg_act :: "msg_cfg \<Rightarrow> msg_action \<Rightarrow> msg_bus \<Rightarrow> msg_bus" where
  "msg_act c (Register a) b = register_agent a b"
| "msg_act c (Send now m) b = snd (send_message c now m b)"
| "msg_act c (Forward now m r) b = snd (forward_message c now m r b)"
| "msg_act c (Receive now a) b = snd (receive_message c now a b)"
| "msg_act c (Hand_over now i sender recipient tid summary correlation) b =
     snd (handoff c now i sender recipient tid summary correlation b)"

lemma inbox_of_set [simp]: "inbox_of a (set_inbox r ms b) = (if a = r then ms else inbox_of a b)"
  by (simp add: inbox_of_def set_inbox_def)

lemma set_inbox_simps [simp]:
  "mb_seen (set_inbox r ms b) = mb_seen b" "mb_registered (set_inbox r ms b) = mb_registered b"
  "mb_table (set_inbox r ms b) = mb_table b"
  by (simp_all add: set_inbox_def)

text \<open>The part of the state the limits are about.\<close>

definition same_boxes :: "msg_bus \<Rightarrow> msg_bus \<Rightarrow> bool" where
  "same_boxes b b' \<longleftrightarrow> mb_seen b' = mb_seen b \<and> mb_registered b' = mb_registered b
     \<and> (\<forall>a. inbox_of a b' = inbox_of a b)"

lemma same_boxes_refl [simp]: "same_boxes b b"
  by (simp add: same_boxes_def)

lemma same_boxes_trans: "same_boxes b b1 \<Longrightarrow> same_boxes b1 b2 \<Longrightarrow> same_boxes b b2"
  by (simp add: same_boxes_def)

lemma emit_boxes [simp]: "same_boxes b (snd (msg_emit c ty tid pl b))"
  by (simp add: msg_emit_def same_boxes_def inbox_of_def)

lemma emit_inbox [simp]: "inbox_of a (snd (msg_emit c ty tid pl b)) = inbox_of a b"
  using emit_boxes [of b c ty tid pl] by (simp add: same_boxes_def del: emit_boxes)

lemma emit_Inr [simp]: "fst (msg_emit c ty tid pl b) = Inr ()"
  by (simp add: msg_emit_def)

lemma emit_eq: "msg_emit c ty tid pl b = (Inr (), snd (msg_emit c ty tid pl b))"
  by (simp add: prod_eq_iff)

lemma then_emit: "eff_then (msg_emit c ty tid pl) n b = n (snd (msg_emit c ty tid pl b))"
  by (subst eff_then_def, subst eff_bind_def, subst emit_eq) simp

lemma reject_raise_eq: "reject_raise c m r t b = (Inl (DomainValidationError t), snd (msg_reject c m r b))"
  by (simp add: reject_raise_def msg_reject_def then_emit)

lemma reject_boxes: "same_boxes b (snd (reject_raise c m r t b))"
  by (simp add: reject_raise_eq msg_reject_def)

lemma validate_boxes: "same_boxes b (snd (msg_validate c now m b))"
  by (simp add: msg_validate_def Let_def reject_boxes)

lemma validate_Inr:
  "msg_validate c now m b = (Inr u, b') \<Longrightarrow> b' = b \<and> ms_sender m \<in> set (mb_registered b)
     \<and> ms_recipient m \<in> set (mb_registered b) \<and> ms_ttl m \<ge> 1 \<and> \<not> msg_expired now m"
  by (auto simp: msg_validate_def Let_def reject_raise_eq split: if_splits)

lemma store_boxes: "same_boxes b (snd (store_message c now m b))"
  by (simp add: store_message_def same_boxes_def inbox_of_def split: sum.split prod.split)

text \<open>A call leaves the boxes alone, delivers one message, or takes messages out of one inbox.\<close>

definition delivers :: "msg_cfg \<Rightarrow> msg_bus \<Rightarrow> msg_bus \<Rightarrow> bool" where
  "delivers c b b' \<longleftrightarrow> (\<exists>m r. r \<in> set (mb_registered b) \<and> (ent_id m, r) \<notin> set (mb_seen b)
     \<and> int (length (inbox_of r b)) < mc_max_inbox c \<and> mb_seen b' = (ent_id m, r) # mb_seen b
     \<and> mb_registered b' = mb_registered b
     \<and> (\<forall>a. inbox_of a b' = (if a = r then inbox_of a b @ [m] else inbox_of a b)))"

lemma route_effect:
  assumes "ms_recipient m \<in> set (mb_registered b)"
  shows "same_boxes b (snd (route_message c now m b)) \<or> delivers c b (snd (route_message c now m b))"
proof (cases "(ent_id m, ms_recipient m) \<in> set (mb_seen b)
    \<or> int (length (inbox_of (ms_recipient m) b)) \<ge> mc_max_inbox c")
  case True
  then show ?thesis by (auto simp: route_message_def same_boxes_def)
next
  case False
  let ?b1 = "enqueue c now m b"
  have "same_boxes ?b1 (snd (route_message c now m b))"
    using False store_boxes [of ?b1 c now m]
    by (auto simp: route_message_def eff_then_def eff_bind_def split: prod.split sum.split
        intro: same_boxes_trans [OF _ emit_boxes])
  moreover have "delivers c b ?b1"
    using False assms unfolding delivers_def
    by (intro exI [of _ "stored_form c now m"] exI [of _ "ms_recipient m"])
      (auto simp: enqueue_def stored_form_def inbox_of_def set_inbox_def)
  ultimately show ?thesis by (auto simp: delivers_def same_boxes_def)
qed

lemma send_effect: "same_boxes b (snd (send_message c now m b)) \<or> delivers c b (snd (send_message c now m b))"
proof (cases "msg_validate c now m b")
  case (Pair x b')
  show ?thesis
  proof (cases x)
    case (Inl e)
    then show ?thesis
      using Pair validate_boxes [of b c now m] by (simp add: send_message_def eff_then_def eff_bind_def)
  next
    case (Inr u)
    then have v: "b' = b" "ms_recipient m \<in> set (mb_registered b)"
      using Pair validate_Inr by auto
    then show ?thesis
      using Pair Inr route_effect [OF v(2), of c now]
      by (auto simp: send_message_def eff_then_def eff_bind_def split: prod.split sum.split)
  qed
qed

lemma delivers_same: "same_boxes b b1 \<Longrightarrow> delivers c b1 x \<Longrightarrow> delivers c b x"
proof -
  assume 1: "same_boxes b b1" and 2: "delivers c b1 x"
  have "inbox_of a b1 = inbox_of a b" for a using 1 by (simp add: same_boxes_def)
  moreover have "mb_seen b1 = mb_seen b" "mb_registered b1 = mb_registered b"
    using 1 by (simp_all add: same_boxes_def)
  ultimately show ?thesis using 2 unfolding delivers_def by (simp cong: if_cong)
qed

lemma forward_effect:
  "same_boxes b (snd (forward_message c now m r b)) \<or> delivers c b (snd (forward_message c now m r b))"
proof -
  let ?b1 = "b\<lparr>mb_forwarded := dict_set (forward_key m r) (forward_count b (forward_key m r) + 1) (mb_forwarded b)\<rparr>"
  have 1: "same_boxes b ?b1" by (simp add: same_boxes_def inbox_of_def)
  show ?thesis
    using 1 send_effect [of ?b1 c now "relay m r"] same_boxes_trans [OF 1] delivers_same [OF 1]
    by (auto simp: forward_message_def Let_def)
qed

lemma handoff_effect:
  "same_boxes b (snd (handoff c now i s r t x k b)) \<or> delivers c b (snd (handoff c now i s r t x k b))"
proof -
  let ?m = "\<lparr>ent_id = i, ent_created = now, ent_updated = now, ms_sender = s, ms_recipient = r,
         ms_task = t, ms_type = ''HANDOFF'', ms_payload = [(''result'', JStr x)], ms_priority = 0,
         ms_correlation = (if k \<noteq> [] then k else t), ms_ttl = 8, ms_hops = 0, ms_expires = None\<rparr>"
  have "same_boxes (snd (send_message c now ?m b)) (snd (handoff c now i s r t x k b))"
    by (auto simp: handoff_def eff_bind_def then_emit split: prod.split sum.split)
  then show ?thesis using send_effect [of b c now ?m] by (auto simp: same_boxes_def delivers_def)
qed

definition takes :: "msg_bus \<Rightarrow> msg_bus \<Rightarrow> bool" where
  "takes b b' \<longleftrightarrow> mb_seen b' = mb_seen b \<and> mb_registered b' = mb_registered b
     \<and> (\<forall>a. suffix (inbox_of a b') (inbox_of a b))"

lemma receive_from_takes:
  "suffix ms (inbox_of a b) \<Longrightarrow> takes b (snd (receive_from c now a ms b))"
proof (induction ms arbitrary: b)
  case Nil
  then show ?case by (simp add: takes_def)
next
  case (Cons m ms)
  have suf: "suffix ms (inbox_of a b)" using Cons.prems by (meson suffix_ConsD)
  let ?b = "set_inbox a ms b"
  have e: "same_boxes ?b (snd (msg_emit c ty tid pl ?b))" for ty tid pl by simp
  show ?case
  proof (cases "msg_expired now m")
    case True
    let ?b1 = "snd (msg_emit c ''AgentMessageRejected'' (ms_task m)
               [(''message_id'', JStr (ent_id m)), (''reason'', JStr ''expired on receive'')] ?b)"
    have "takes ?b1 (snd (receive_from c now a ms ?b1))"
      using e by (intro Cons.IH) (simp add: same_boxes_def)
    then show ?thesis
      using True suf e by (auto simp: then_emit takes_def same_boxes_def intro: suffix_order.trans)
  next
    case False
    then show ?thesis using suf e by (auto simp: then_emit takes_def same_boxes_def)
  qed
qed

lemma receive_takes: "takes b (snd (receive_message c now a b))"
  using receive_from_takes [of "inbox_of a b" a b c now]
  by (auto simp: receive_message_def eff_then_def eff_bind_def require_registered_def takes_def)

lemma act_effect:
  "(\<exists>a. x = Register a) \<or> takes b (msg_act c x b) \<or> delivers c b (msg_act c x b)"
proof -
  have "takes b y \<or> delivers c b y" if "same_boxes b y \<or> delivers c b y" for y
    using that by (auto simp: same_boxes_def takes_def)
  note e = this [OF send_effect] this [OF forward_effect] this [OF handoff_effect]
  show ?thesis
    by (cases x) (simp_all add: e receive_takes)
qed

subsection \<open>Limits\<close>

definition boxes_ok :: "msg_cfg \<Rightarrow> msg_bus \<Rightarrow> bool" where
  "boxes_ok c b \<longleftrightarrow> distinct (mb_registered b) \<and> distinct (mb_seen b) \<and> snd ` set (mb_seen b) \<subseteq> set (mb_registered b)
     \<and> (\<forall>a. length (inbox_of a b) \<le> nat (mc_max_inbox c) \<and> distinct (map ent_id (inbox_of a b))
            \<and> (\<forall>m \<in> set (inbox_of a b). (ent_id m, a) \<in> set (mb_seen b)))"

lemma boxes_ok_act:
  assumes "boxes_ok c b"
  shows "boxes_ok c (msg_act c x b)"
proof -
  consider a where "x = Register a" | "takes b (msg_act c x b)" | "delivers c b (msg_act c x b)"
    using act_effect [of x b c] by blast
  then show ?thesis
  proof cases
    case 1
    then show ?thesis
      using assms by (auto simp: boxes_ok_def register_agent_def inbox_of_def split: option.splits)
  next
    case 2
    have suf: "length ms \<le> length ns \<and> set ms \<subseteq> set ns \<and> (distinct (map ent_id ns) \<longrightarrow> distinct (map ent_id ms))"
      if "suffix ms ns" for ms ns :: "agent_message list"
      using that by (auto simp: suffix_def)
    let ?b' = "msg_act c x b"
    have "length (inbox_of a ?b') \<le> nat (mc_max_inbox c) \<and> distinct (map ent_id (inbox_of a ?b'))
        \<and> (\<forall>m \<in> set (inbox_of a ?b'). (ent_id m, a) \<in> set (mb_seen b))" for a
    proof -
      have "suffix (inbox_of a ?b') (inbox_of a b)" using 2 by (simp add: takes_def)
      from suf [OF this] show ?thesis using assms by (auto simp: boxes_ok_def intro: order_trans)
    qed
    then show ?thesis using assms 2 by (simp add: boxes_ok_def takes_def)
  next
    case 3
    then obtain m r where d: "r \<in> set (mb_registered b)" "(ent_id m, r) \<notin> set (mb_seen b)"
        "int (length (inbox_of r b)) < mc_max_inbox c" "mb_seen (msg_act c x b) = (ent_id m, r) # mb_seen b"
        "mb_registered (msg_act c x b) = mb_registered b"
        "\<And>a. inbox_of a (msg_act c x b) = (if a = r then inbox_of a b @ [m] else inbox_of a b)"
      unfolding delivers_def by blast
    have "ent_id m \<notin> ent_id ` set (inbox_of r b)" using assms d(2) by (auto simp: boxes_ok_def)
    then show ?thesis using assms d by (auto simp: boxes_ok_def)
  qed
qed

lemma boxes_ok_run: "boxes_ok c b \<Longrightarrow> boxes_ok c (fold (msg_act c) xs b)"
  by (induction xs arbitrary: b) (auto intro: boxes_ok_act)

lemma boxes_ok_new: "boxes_ok c new_msg_bus"
  by (simp add: boxes_ok_def new_msg_bus_def inbox_of_def)

text \<open>How often the calls of a run put a message with this identifier into an inbox.\<close>

definition copies :: "string \<Rightarrow> string \<Rightarrow> msg_bus \<Rightarrow> nat" where
  "copies i a b = length (filter (\<lambda>m. ent_id m = i) (inbox_of a b))"

definition delivered_now :: "string \<Rightarrow> msg_bus \<Rightarrow> msg_bus \<Rightarrow> bool" where
  "delivered_now i b b' = list_ex (\<lambda>a. copies i a b < copies i a b') (mb_registered b')"

fun deliveries :: "msg_cfg \<Rightarrow> string \<Rightarrow> msg_action list \<Rightarrow> msg_bus \<Rightarrow> nat" where
  "deliveries c i [] b = 0"
| "deliveries c i (x # xs) b =
     (let b' = msg_act c x b in (if delivered_now i b b' then 1 else 0) + deliveries c i xs b')"

definition seen_of :: "string \<Rightarrow> msg_bus \<Rightarrow> nat" where
  "seen_of i b = length (filter (\<lambda>p. fst p = i) (mb_seen b))"

lemma delivered_seen:
  "seen_of i (msg_act c x b) \<ge> seen_of i b + (if delivered_now i b (msg_act c x b) then 1 else 0)"
proof -
  consider a where "x = Register a" | "takes b (msg_act c x b)" | "delivers c b (msg_act c x b)"
    using act_effect [of x b c] by blast
  then show ?thesis
  proof cases
    case 1
    then show ?thesis by (simp add: seen_of_def delivered_now_def copies_def register_agent_def inbox_of_def list_ex_iff)
  next
    case 2
    have "copies i a (msg_act c x b) \<le> copies i a b" for a
    proof -
      have "suffix (inbox_of a (msg_act c x b)) (inbox_of a b)" using 2 by (simp add: takes_def)
      then show ?thesis by (auto simp: copies_def suffix_def)
    qed
    then have "\<not> delivered_now i b (msg_act c x b)" by (simp add: delivered_now_def list_ex_iff leD)
    then show ?thesis using 2 by (simp add: seen_of_def takes_def)
  next
    case 3
    then obtain m r where d: "mb_seen (msg_act c x b) = (ent_id m, r) # mb_seen b"
        "\<And>a. inbox_of a (msg_act c x b) = (if a = r then inbox_of a b @ [m] else inbox_of a b)"
      unfolding delivers_def by blast
    have "\<not> delivered_now i b (msg_act c x b)" if "ent_id m \<noteq> i"
      using that by (simp add: delivered_now_def list_ex_iff copies_def d(2))
    then show ?thesis by (auto simp: seen_of_def d(1))
  qed
qed

lemma deliveries_seen: "seen_of i b + deliveries c i xs b \<le> seen_of i (fold (msg_act c) xs b)"
proof (induction xs arbitrary: b)
  case Nil
  then show ?case by simp
next
  case (Cons x xs)
  show ?case
    using delivered_seen [of i b c x] Cons [of "msg_act c x b"] by (simp add: Let_def split: if_splits)
qed

lemma seen_of_bound:
  assumes "boxes_ok c b"
  shows "seen_of i b \<le> length (mb_registered b)"
proof -
  let ?ps = "filter (\<lambda>p. fst p = i) (mb_seen b)"
  have "distinct ?ps" using assms by (simp add: boxes_ok_def)
  then have d: "distinct (map snd ?ps)" by (auto simp: distinct_map inj_on_def prod_eq_iff)
  have "length ?ps = card (set (map snd ?ps))" using distinct_card [OF d] by simp
  also have "\<dots> \<le> card (set (mb_registered b))"
    using assms by (intro card_mono) (auto simp: boxes_ok_def)
  also have "\<dots> \<le> length (mb_registered b)" by (rule card_length)
  finally show ?thesis by (simp add: seen_of_def)
qed

text \<open>
  Relays end. Whatever agents send, forward, hand over and receive, one message is put into
  inboxes at most once per registered agent, and no inbox ever holds more than
  \<^verbatim>\<open>max_inbox\<close> messages.
\<close>

theorem message_loops_end:
  "deliveries c i xs new_msg_bus \<le> length (mb_registered (fold (msg_act c) xs new_msg_bus))
   \<and> length (inbox_of a (fold (msg_act c) xs new_msg_bus)) \<le> nat (mc_max_inbox c)"
  using deliveries_seen [of i new_msg_bus c xs] seen_of_bound [OF boxes_ok_run [OF boxes_ok_new], of i c xs]
    boxes_ok_run [OF boxes_ok_new, of c xs]
  by (auto simp: boxes_ok_def)

subsection \<open>Reception\<close>

text \<open>What is received is the oldest message that has not expired.\<close>

lemma receive_from_Some:
  "receive_from c now a ms b = (Inr (Some m), b') \<Longrightarrow>
     \<exists>us vs. ms = us @ m # vs \<and> \<not> msg_expired now m \<and> (\<forall>u \<in> set us. msg_expired now u)
       \<and> inbox_of a b' = vs"
proof (induction ms arbitrary: b)
  case Nil
  then show ?case by simp
next
  case (Cons x ms)
  show ?case
  proof (cases "msg_expired now x")
    case True
    then obtain b1 where "receive_from c now a ms b1 = (Inr (Some m), b')"
      using Cons.prems by (auto simp: then_emit)
    from Cons.IH [OF this] obtain us vs where
      "ms = us @ m # vs" "\<not> msg_expired now m" "\<forall>u \<in> set us. msg_expired now u" "inbox_of a b' = vs"
      by blast
    then show ?thesis using True by (intro exI [of _ "x # us"] exI [of _ vs]) simp
  next
    case False
    then have "m = x" "inbox_of a b' = ms"
      using Cons.prems by (auto simp: then_emit)
    then show ?thesis using False by (intro exI [of _ "[]"] exI [of _ ms]) simp
  qed
qed

subsection \<open>Forwarding with a repository\<close>

text \<open>
  With the durable repository no message can be relayed without an error: the relayed copy
  keeps its identifier, under which the original was stored, so that saving it fails, but only
  after the copy is in the recipient's inbox. The sender is told the relay failed; it did not.
\<close>

theorem forward_fails_after_delivery:
  assumes "mc_repo c" and "tbl_get (ent_id m) (mb_table b) \<noteq> None"
    and "ms_hops m + 1 \<le> mc_max_hops c" and "2 \<le> ms_ttl m"
    and "forward_count b (forward_key m r) < mc_max_hops c"
    and "msg_validate c now (relay m r) b = (Inr (), b)"
    and "(ent_id m, r) \<notin> set (mb_seen b)" and "int (length (inbox_of r b)) < mc_max_inbox c"
  shows "fst (forward_message c now m r b)
           = Inl (PersistenceError ''database error: UNIQUE constraint failed'')
         \<and> inbox_of r (snd (forward_message c now m r b)) = inbox_of r b @ [touch now (relay m r)]"
proof -
  let ?k = "forward_key m r"
  let ?b1 = "b\<lparr>mb_forwarded := dict_set ?k (forward_count b ?k + 1) (mb_forwarded b)\<rparr>"
  let ?b2 = "enqueue c now (relay m r) ?b1"
  have same: "mb_registered ?b1 = mb_registered b" "mb_seen ?b1 = mb_seen b" "inbox_of r ?b1 = inbox_of r b"
    "mb_table ?b2 = mb_table b"
    by (simp_all add: inbox_of_def enqueue_def set_inbox_def)
  have v: "msg_validate c now (relay m r) ?b1 = (Inr (), ?b1)"
    using assms(6) by (auto simp: msg_validate_def Let_def reject_raise_eq split: if_splits)
  have "ent_id (relay m r) = ent_id m" "ms_recipient (relay m r) = r" by (simp_all add: relay_def)
  then have "store_message c now (relay m r) ?b2
      = (Inl (PersistenceError ''database error: UNIQUE constraint failed''), ?b2)"
    using assms(1,2) by (auto simp: store_message_def tbl_create_def same(4) tbl_get_def map_of_eq_None_iff)
  then have "send_message c now (relay m r) ?b1
      = (Inl (PersistenceError ''database error: UNIQUE constraint failed''), ?b2)"
    using assms(7,8) v same(2,3)
    by (simp add: send_message_def eff_then_def eff_bind_def route_message_def relay_def)
  moreover have "forward_message c now m r b = send_message c now (relay m r) ?b1"
    using assms(3-5) by (simp add: forward_message_def Let_def)
  moreover have "inbox_of r ?b2 = inbox_of r b @ [touch now (relay m r)]"
    using assms(1) same(3) by (simp add: enqueue_def stored_form_def relay_def inbox_of_def set_inbox_def)
  ultimately show ?thesis by simp
qed

definition example_msg :: agent_message where
  "example_msg = \<lparr>ent_id = ''m1'', ent_created = 0, ent_updated = 0, ms_sender = ''a'', ms_recipient = ''b'',
     ms_task = ''t'', ms_type = ''INFORMATION_RESPONSE'', ms_payload = [], ms_priority = 0,
     ms_correlation = [], ms_ttl = 8, ms_hops = 0, ms_expires = None\<rparr>"

definition example_msg_cfg :: msg_cfg where
  "example_msg_cfg = \<lparr>mc_events = True, mc_repo = True, mc_size = (\<lambda>m. 200), mc_max_payload = 64000,
     mc_max_inbox = 100, mc_max_hops = 8\<rparr>"

definition example_msg_bus :: msg_bus where
  "example_msg_bus = fold (msg_act example_msg_cfg)
     [Register ''a'', Register ''b'', Register ''c'', Send 0 example_msg] new_msg_bus"

theorem forward_fails_after_delivery_witness:
  "fst (forward_message example_msg_cfg 1 example_msg ''c'' example_msg_bus)
     = Inl (PersistenceError ''database error: UNIQUE constraint failed'')
   \<and> inbox_of ''c'' (snd (forward_message example_msg_cfg 1 example_msg ''c'' example_msg_bus))
     = inbox_of ''c'' example_msg_bus @ [touch 1 (relay example_msg ''c'')]"
proof (rule forward_fails_after_delivery)
  show "tbl_get (ent_id example_msg) (mb_table example_msg_bus) \<noteq> None"
    by (simp add: example_msg_bus_def example_msg_def example_msg_cfg_def new_msg_bus_def register_agent_def
        send_message_def msg_validate_def route_message_def enqueue_def store_message_def msg_emit_def
        eff_defs tbl_create_def tbl_get_def set_inbox_def inbox_of_def msg_expired_def stored_form_def Let_def touch_def)
qed (simp_all add: example_msg_bus_def example_msg_def example_msg_cfg_def new_msg_bus_def register_agent_def
        send_message_def msg_validate_def route_message_def enqueue_def store_message_def msg_emit_def
        eff_defs tbl_create_def tbl_get_def set_inbox_def inbox_of_def msg_expired_def stored_form_def
        relay_def forward_key_def forward_count_def Let_def touch_def)

end
