(* ===== verification/Keywords.thy ===== *)
theory Keywords
  imports Prelude
begin

text \<open>
  The words of a text, \<^verbatim>\<open>re.findall(r"[a-z0-9]+", text.lower())\<close>, as the agents
  (\<^verbatim>\<open>agent/multi/manager.py\<close>) and the memory store (\<^verbatim>\<open>personalization/memory/store.py\<close>)
  compare them. A set of words is a list without repetition.
\<close>

definition is_word_char :: "char \<Rightarrow> bool" where
  "is_word_char ch \<longleftrightarrow> CHR ''a'' \<le> ch \<and> ch \<le> CHR ''z'' \<or> CHR ''0'' \<le> ch \<and> ch \<le> CHR ''9''"

text \<open>The maximal runs of word characters; the first argument is the run being read, reversed.\<close>

fun word_runs :: "string \<Rightarrow> string \<Rightarrow> string list" where
  "word_runs acc [] = (if acc = [] then [] else [rev acc])"
| "word_runs acc (ch # s) =
     (if is_word_char ch then word_runs (ch # acc) s
      else if acc = [] then word_runs [] s else rev acc # word_runs [] s)"

definition words_of :: "string \<Rightarrow> string list" where
  "words_of s = word_runs [] (lower_str s)"

definition word_set :: "(string \<Rightarrow> bool) \<Rightarrow> string \<Rightarrow> string list" where
  "word_set keep s = remdups (filter keep (words_of s))"

text \<open>\<open>len(a & b)\<close>.\<close>

definition common_words :: "string list \<Rightarrow> string list \<Rightarrow> nat" where
  "common_words a b = length (filter (\<lambda>w. w \<in> set b) a)"

lemma word_runs_words:
  "list_all is_word_char acc \<Longrightarrow> w \<in> set (word_runs acc s) \<Longrightarrow> w \<noteq> [] \<and> list_all is_word_char w"
proof (induction s arbitrary: acc)
  case Nil
  then show ?case by (simp add: list_all_iff split: if_splits)
next
  case (Cons ch s)
  show ?case
  proof (cases "is_word_char ch")
    case True
    with Cons.prems show ?thesis by (intro Cons.IH [of "ch # acc"]) simp_all
  next
    case False
    with Cons.prems consider "w = rev acc" "acc \<noteq> []" | "w \<in> set (word_runs [] s)"
      by (auto split: if_splits)
    then show ?thesis
    proof cases
      case 1
      with Cons.prems show ?thesis by (simp add: list_all_iff)
    next
      case 2
      with Cons.IH [of "[]"] show ?thesis by simp
    qed
  qed
qed

lemma word_runs_word: "list_all is_word_char s \<Longrightarrow> word_runs acc s = (if acc = [] \<and> s = [] then [] else [rev acc @ s])"
  by (induction s arbitrary: acc) simp_all

lemma distinct_word_set: "distinct (word_set keep s)"
  by (simp add: word_set_def)

lemma common_words_card: "distinct a \<Longrightarrow> common_words a b = card (set a \<inter> set b)"
  by (simp add: common_words_def distinct_length_filter Int_commute)

lemma common_words_le: "common_words a b \<le> length a"
  by (simp add: common_words_def)

end
