(* ===== verification/Teams.thy ===== *)
theory Teams
  imports Agents Messages Keywords Recovery
begin

text \<open>
  Work delegated to several agents: the supervisor of \<^verbatim>\<open>agent/multi/manager.py\<close> and the coordinator
  of \<^verbatim>\<open>agent/multi/coordinator.py\<close>, over the agent manager and the message bus. The verifier and a
  configured decomposition are parameters; so is whether the deadline's timer has fired.
\<close>

subsection \<open>Subtasks and the fallback decomposition\<close>

record subtask =
  sp_agent :: string
  sp_goal :: string
  sp_plan :: plan
  sp_arguments :: "(string \<times> arguments) list"

definition agent_keywords :: "string \<Rightarrow> string list" where
  "agent_keywords = word_set (\<lambda>w. length w > 2)"

definition best_fallback_plan :: "agent_definition \<Rightarrow> plan" where
  "best_fallback_plan d =
     (let tool = (case df_allowed d of [] \<Rightarrow> ''noop'' | t # _ \<Rightarrow> t) in
      \<lparr>plan_goal = ''fallback for '' @ df_name d,
       plan_steps = [\<lparr>ps_id = ''s1'', ps_description = ''run '' @ tool, ps_dependencies = [],
         ps_tools = [tool], ps_risk = LOW, ps_verification = ''v'', ps_arguments = [],
         ps_completion_criteria = ''c''\<rparr>],
       plan_final_verification = ''v''\<rparr>)"

text \<open>Sorting by a pair is sorting by its second component and then, stably, by its first.\<close>

definition overlap :: "string \<Rightarrow> agent_definition \<Rightarrow> nat" where
  "overlap goal d = common_words (agent_keywords goal) (agent_keywords (join_str '' '' (df_capabilities d)))"

definition default_decompose :: "string \<Rightarrow> agent_definition list \<Rightarrow> subtask list" where
  "default_decompose goal agents =
     (case sort_key (\<lambda>d. - int (overlap goal d)) (sort_key df_name agents) of
        [] \<Rightarrow> []
      | best # _ \<Rightarrow> [\<lparr>sp_agent = ent_id best, sp_goal = goal, sp_plan = best_fallback_plan best,
                     sp_arguments = []\<rparr>])"

type_synonym decomposition = "string \<Rightarrow> agent_definition list \<Rightarrow> subtask list"

definition decompose :: "decomposition option \<Rightarrow> string \<Rightarrow> 'w agents \<Rightarrow> subtask list" where
  "decompose f goal s =
     (let agents = filter (\<lambda>d. df_status d \<in> {M_READY, M_RUNNING}) (list_definitions s)
      in (case f of None \<Rightarrow> default_decompose | Some g \<Rightarrow> g) goal agents)"

subsection \<open>Supervisor\<close>

record supervised =
  su_task_ids :: "string list"
  su_results :: "(string \<times> exec_result) list"

definition supervised_succeeded :: "supervised \<Rightarrow> string list" where
  "supervised_succeeded r = map fst (filter (\<lambda>(_, x). xr_status x = O_COMPLETED) (su_results r))"

definition supervised_failed :: "supervised \<Rightarrow> string list" where
  "supervised_failed r = filter (\<lambda>t. t \<notin> set (supervised_succeeded r)) (su_task_ids r)"

definition submit_subtask :: "'w agents_cfg \<Rightarrow> subtask \<Rightarrow> ('w, agent_task) agents_op" where
  "submit_subtask c sp = submit_task c (sp_agent sp) (sp_goal sp) (sp_plan sp) (sp_arguments sp) [] []"

definition key_error :: "string \<Rightarrow> exn" where
  "key_error k = OtherException (''KeyError: '' @ repr_str k)"

definition run_records :: "'w agents_cfg \<Rightarrow> pool_input \<Rightarrow> agent_task list \<Rightarrow> ('w, (string \<times> exec_result) list) agents_op" where
  "run_records c inp records s = (case run_all c inp (map ent_id records) s of (res, s') \<Rightarrow> eff_return res s')"

fun results_by_task :: "agent_task list \<Rightarrow> (string \<times> exec_result) list \<Rightarrow> (string \<times> exec_result) list
    \<Rightarrow> (string \<times> exec_result) list result" where
  "results_by_task [] by_record acc = Inr acc"
| "results_by_task (r # rs) by_record acc =
     (case map_of by_record (ent_id r) of
        None \<Rightarrow> Inl (key_error (ent_id r))
      | Some x \<Rightarrow> results_by_task rs by_record (dict_set (gt_task r) x acc))"

definition supervise_goal ::
  "'w agents_cfg \<Rightarrow> pool_input \<Rightarrow> decomposition option \<Rightarrow> string \<Rightarrow> subtask list option \<Rightarrow> ('w, supervised) agents_op" where
  "supervise_goal c inp f goal specs s =
     (let chosen = (case specs of Some sp \<Rightarrow> sp | None \<Rightarrow> decompose f goal s) in
      if chosen = [] then eff_raise (DomainValidationError ''supervisor produced no subtasks'') s
      else eff_bind (eff_each (submit_subtask c) chosen) (\<lambda>records.
           eff_bind (run_records c inp records) (\<lambda>by_record s'.
             case results_by_task records by_record [] of
               Inl e \<Rightarrow> eff_raise e s'
             | Inr results \<Rightarrow> eff_return \<lparr>su_task_ids = map gt_task records, su_results = results\<rparr> s')) s)"

type_synonym child_verifier =
  "string \<Rightarrow> string \<Rightarrow> tool_result list \<Rightarrow> arguments list \<Rightarrow> verification_result result"

definition child_criteria :: "arguments list" where
  "child_criteria = [[(''strategy'', JStr ''command_results'')]]"

fun verify_each ::
  "child_verifier \<Rightarrow> (string \<times> arguments list) list \<Rightarrow> (string \<times> exec_result) list \<Rightarrow> string list
   \<Rightarrow> (string \<times> verification_result) list \<Rightarrow> (string \<times> verification_result) list result" where
  "verify_each v criteria results [] acc = Inr acc"
| "verify_each v criteria results (t # ts) acc =
     (case map_of results t of
        None \<Rightarrow> Inl (key_error t)
      | Some x \<Rightarrow>
          (case v t ''supervisor-review'' (all_tool_results x)
                  (case map_of criteria t of None \<Rightarrow> child_criteria | Some cr \<Rightarrow> cr) of
             Inl e \<Rightarrow> Inl e
           | Inr vr \<Rightarrow> verify_each v criteria results ts (dict_set t vr acc)))"

definition verify_results ::
  "child_verifier option \<Rightarrow> supervised \<Rightarrow> (string \<times> arguments list) list
   \<Rightarrow> (string \<times> verification_result) list result" where
  "verify_results v r criteria =
     (case v of
        None \<Rightarrow> Inl (DomainValidationError ''supervisor has no verifier configured'')
      | Some f \<Rightarrow> verify_each f criteria (su_results r) (su_task_ids r) [])"

subsection \<open>Coordinator\<close>

record 'w team =
  tm_agents :: "'w agents"
  tm_messages :: msg_bus
  tm_events :: "event list"
  tm_sends :: nat

record 'w team_cfg =
  te_agents :: "'w agents_cfg"
  te_messages :: msg_cfg
  te_verifier :: "child_verifier option"
  te_bus :: bool
  te_clock :: "nat \<Rightarrow> real"
  te_new_id :: "nat \<Rightarrow> string"

record coordination =
  co_correlation :: string
  co_results :: "(string \<times> exec_result option) list"
  co_verified :: "(string \<times> bool) list"

definition co_succeeded :: "coordination \<Rightarrow> string list" where
  "co_succeeded co = map fst (filter snd (co_verified co))"

definition co_failed :: "coordination \<Rightarrow> string list" where
  "co_failed co = filter (\<lambda>a. a \<notin> set (co_succeeded co)) (keys (co_results co))"

type_synonym ('w, 'a) team_op = "('w team, 'a) eff"

definition on_agents :: "('w, 'a) agents_op \<Rightarrow> ('w, 'a) team_op" where
  "on_agents m s = (case m (tm_agents s) of (r, a) \<Rightarrow> (r, s\<lparr>tm_agents := a\<rparr>))"

definition on_messages :: "'w team_cfg \<Rightarrow> (real \<Rightarrow> string \<Rightarrow> 'a msg_op) \<Rightarrow> ('w, 'a) team_op" where
  "on_messages c m s =
     (case m (te_clock c (tm_sends s)) (te_new_id c (tm_sends s)) (tm_messages s) of
        (r, b) \<Rightarrow> (r, s\<lparr>tm_messages := b, tm_sends := tm_sends s + 1\<rparr>))"

definition team_emit :: "'w team_cfg \<Rightarrow> string \<Rightarrow> string \<Rightarrow> arguments \<Rightarrow> ('w, unit) team_op" where
  "team_emit c ty tid pl = eff_modify (\<lambda>s.
     if te_bus c then s\<lparr>tm_events := tm_events s @ [mk_event ty tid (JObj pl)]\<rparr> else s)"

definition team_register :: "string \<Rightarrow> ('w, unit) team_op" where
  "team_register a = eff_modify (\<lambda>s. s\<lparr>tm_messages := register_agent a (tm_messages s)\<rparr>)"

definition team_send ::
  "'w team_cfg \<Rightarrow> string \<Rightarrow> string \<Rightarrow> string \<Rightarrow> string \<Rightarrow> arguments \<Rightarrow> string \<Rightarrow> ('w, agent_message) team_op" where
  "team_send c sender recipient tid ty payload correlation =
     on_messages c (\<lambda>now i. send_message (te_messages c) now
       \<lparr>ent_id = i, ent_created = now, ent_updated = now, ms_sender = sender, ms_recipient = recipient,
        ms_task = tid, ms_type = ty, ms_payload = payload, ms_priority = 0,
        ms_correlation = correlation, ms_ttl = 8, ms_hops = 0, ms_expires = None\<rparr>)"

text \<open>\<open>_verify_child\<close>: without a verifier every execution passes.\<close>

definition verify_child :: "'w team_cfg \<Rightarrow> string \<Rightarrow> exec_result \<Rightarrow> bool result" where
  "verify_child c tid x =
     (case te_verifier c of
        None \<Rightarrow> Inr True
      | Some v \<Rightarrow> (case v tid ''coordinator-review'' (all_tool_results x) child_criteria of
                    Inl e \<Rightarrow> Inl e | Inr vr \<Rightarrow> Inr (vr_status vr = VS_PASSED)))"

definition team_verify :: "'w team_cfg \<Rightarrow> string \<Rightarrow> exec_result option \<Rightarrow> ('w, bool) team_op" where
  "team_verify c tid x s =
     (case x of
        None \<Rightarrow> eff_return False s
      | Some y \<Rightarrow> if xr_status y \<noteq> O_COMPLETED then eff_return False s
                 else (verify_child c tid y, s))"

definition delegate :: "'w team_cfg \<Rightarrow> string \<Rightarrow> string \<Rightarrow> subtask \<Rightarrow> ('w, agent_task) team_op" where
  "delegate c supervisor correlation sp =
     eff_bind (on_agents (submit_subtask (te_agents c) sp)) (\<lambda>r.
     eff_bind (team_send c supervisor (sp_agent sp) (gt_task r) ''TASK_REQUEST''
         [(''goal'', JStr (sp_goal sp))] correlation) (\<lambda>_.
     eff_then (team_emit c ''AgentTaskRequested'' (gt_task r) [(''agent_id'', JStr (sp_agent sp))])
       (eff_return r)))"

definition completed_ok :: "exec_result option \<Rightarrow> bool" where
  "completed_ok x \<longleftrightarrow> (case x of None \<Rightarrow> False | Some y \<Rightarrow> xr_status y = O_COMPLETED)"

definition report_back :: "'w team_cfg \<Rightarrow> string \<Rightarrow> string \<Rightarrow> (string \<times> exec_result) list \<Rightarrow> agent_task
    \<Rightarrow> ('w, string \<times> exec_result option \<times> bool) team_op" where
  "report_back c supervisor correlation executions r =
     (let x = map_of executions (ent_id r); good = completed_ok x in
      eff_bind (team_send c (gt_owner r) supervisor (gt_task r) ''TASK_RESULT''
         [(''success'', JBool good),
          (''succeeded'', JList (case x of None \<Rightarrow> [] | Some y \<Rightarrow> map JStr (xr_succeeded y)))] correlation) (\<lambda>_.
      eff_then (team_emit c ''AgentTaskResult'' (gt_task r)
         [(''agent_id'', JStr (gt_owner r)), (''success'', JBool good)])
      (eff_bind (team_verify c (gt_task r) x) (\<lambda>v. eff_return (gt_owner r, x, v)))))"

definition gather_reports :: "string \<Rightarrow> (string \<times> exec_result option \<times> bool) list \<Rightarrow> coordination" where
  "gather_reports correlation outs =
     \<lparr>co_correlation = correlation,
      co_results = fold (\<lambda>(a, x, v) d. dict_set a x d) outs [],
      co_verified = fold (\<lambda>(a, x, v) d. dict_set a v d) outs []\<rparr>"

text \<open>The token the deadline's timer cancels; a timeout of zero starts no timer.\<close>

definition deadline_input :: "real \<Rightarrow> pool_input \<Rightarrow> pool_input" where
  "deadline_input timeout inp = inp\<lparr>pi_cancelled := (\<lambda>n k. timeout > 0 \<and> pi_cancelled inp n k)\<rparr>"

definition fan_out ::
  "'w team_cfg \<Rightarrow> pool_input \<Rightarrow> bool \<Rightarrow> string \<Rightarrow> subtask list \<Rightarrow> string \<Rightarrow> real \<Rightarrow> ('w, coordination) team_op" where
  "fan_out c inp fired supervisor specs correlation timeout =
     eff_then (team_register supervisor)
     (eff_bind (eff_each (delegate c supervisor correlation) specs) (\<lambda>records.
      eff_bind (on_agents (run_records (te_agents c) (deadline_input timeout inp) records)) (\<lambda>executions.
      eff_bind (eff_each (report_back c supervisor correlation executions) records) (\<lambda>outs.
      eff_then (if timeout > 0 \<and> fired
                then team_emit c ''AgentTaskResult'' []
                       [(''supervisor'', JStr supervisor), (''detail'', JStr ''fan-out deadline fired; partial results'')]
                else eff_return ())
        (eff_return (gather_reports correlation outs))))))"

definition summary_of :: "string \<Rightarrow> exec_result \<Rightarrow> string" where
  "summary_of a x = a @ '': '' @ int_text (int (length (xr_succeeded x))) @ '' steps succeeded''"

fun chain_steps ::
  "'w team_cfg \<Rightarrow> string \<Rightarrow> string \<Rightarrow> string \<Rightarrow> subtask list
   \<Rightarrow> ('w, (string \<times> exec_result option \<times> bool) list) team_op" where
  "chain_steps c supervisor correlation previous [] = eff_return []"
| "chain_steps c supervisor correlation previous (sp # sps) =
     eff_bind (on_agents (submit_subtask (te_agents c) sp)) (\<lambda>r.
     eff_then (if previous = [] then eff_return ()
               else eff_bind (on_messages c (\<lambda>now i. handoff (te_messages c) now i supervisor (sp_agent sp)
                      (gt_task r) previous correlation)) (\<lambda>_. eff_return ()))
     (eff_bind (on_agents (run_agent_task (te_agents c) (ent_id r))) (\<lambda>x.
      eff_bind (team_verify c (gt_task r) (Some x)) (\<lambda>v.
      if xr_status x \<noteq> O_COMPLETED then eff_return [(sp_agent sp, Some x, v)]
      else eff_bind (chain_steps c supervisor correlation (summary_of (sp_agent sp) x) sps)
             (\<lambda>rest. eff_return ((sp_agent sp, Some x, v) # rest))))))"

definition chain :: "'w team_cfg \<Rightarrow> string \<Rightarrow> subtask list \<Rightarrow> string \<Rightarrow> ('w, coordination) team_op" where
  "chain c supervisor steps correlation =
     eff_then (team_register supervisor)
       (eff_bind (chain_steps c supervisor correlation [] steps)
         (\<lambda>outs. eff_return (gather_reports correlation outs)))"

subsection \<open>The fallback chooses the best agent\<close>

lemma hd_sort_key_le: "sort_key f xs = b # bs \<Longrightarrow> x \<in> set xs \<Longrightarrow> f b \<le> f x"
  by (metis list.set_intros(1) set_ConsD set_sort sorted_sort_key list.simps(9) sorted_simps(2) order_refl imageI list.set_map)

text \<open>The first of a stable sort is, among the elements with the least key, the first of the list.\<close>

lemma hd_sort_key_first:
  assumes "sort_key f xs = b # bs"
  shows "\<exists>ys. filter (\<lambda>x. f x = f b) xs = b # ys"
  using sort_key_stable [of f "f b" xs] assms by (simp, metis)

text \<open>
  Without a configured decomposition the whole goal goes to one agent: one of those offered,
  with the greatest keyword overlap, and among those with the least name, with a plan of one
  step that uses the first tool of its allow-list.
\<close>

theorem fallback_chooses_best:
  assumes "agents \<noteq> []"
  shows "\<exists>best. best \<in> set agents \<and> default_decompose goal agents
      = [\<lparr>sp_agent = ent_id best, sp_goal = goal, sp_plan = best_fallback_plan best, sp_arguments = []\<rparr>]
    \<and> (\<forall>d \<in> set agents. overlap goal d < overlap goal best
         \<or> overlap goal d = overlap goal best \<and> df_name best \<le> df_name d)"
proof -
  let ?f = "\<lambda>d. - int (overlap goal d)" and ?xs = "sort_key df_name agents"
  obtain b bs where b: "sort_key ?f ?xs = b # bs" using assms by (cases "sort_key ?f ?xs") (auto dest: arg_cong [of _ _ length])
  have mem: "b \<in> set agents" using arg_cong [OF b, of set] by auto
  obtain ys where ys: "filter (\<lambda>x. ?f x = ?f b) ?xs = b # ys" using hd_sort_key_first [OF b] by blast
  have "sorted (map df_name (b # ys))" by (metis ys sorted_filter sorted_sort_key)
  then have name: "df_name b \<le> df_name d" if "d \<in> set agents" "overlap goal d = overlap goal b" for d
    using that arg_cong [OF ys, of set] by auto
  have "overlap goal d \<le> overlap goal b" if "d \<in> set agents" for d
    using hd_sort_key_le [OF b] that by fastforce
  with name have "\<forall>d \<in> set agents. overlap goal d < overlap goal b
         \<or> overlap goal d = overlap goal b \<and> df_name b \<le> df_name d" by (auto simp: le_less)
  with mem b show ?thesis by (intro exI [of _ b]) (simp add: default_decompose_def)
qed

subsection \<open>The supervisor\<close>

lemma results_by_task_ok:
  assumes "ent_id ` set rs \<subseteq> set (keys br)"
  shows "\<exists>out. results_by_task rs br acc = Inr out \<and> set (keys out) = set (keys acc) \<union> gt_task ` set rs"
  using assms
proof (induction rs arbitrary: acc)
  case (Cons r rs)
  then obtain x where "map_of br (ent_id r) = Some x" by (auto simp: map_of_eq_None_iff dest: weak_map_of_SomeI)
  with Cons.IH [of "dict_set (gt_task r) x acc"] Cons.prems show ?case by auto
qed simp

text \<open>
  A supervised run reports every subtask. When every subtask could be submitted, nothing
  cancels the run and there is at least one worker, \<open>supervise_goal\<close> returns, in every order the agents'
  threads may take their turns and whatever their executions do, with exactly one outcome for
  the runtime task of every subtask.
\<close>

theorem supervisor_reports_every_task:
  fixes c :: "'w agents_cfg"
  assumes workers: "1 \<le> gc_workers c" and going: "\<And>n k. \<not> pi_cancelled inp n k"
    and sub: "eff_each (submit_subtask c) sps s = (Inr records, s1)" "sps \<noteq> []"
  shows "\<exists>r s'. supervise_goal c inp f goal (Some sps) s = (Inr r, s') \<and> su_task_ids r = map gt_task records
    \<and> set (keys (su_results r)) = gt_task ` set records"
proof -
  obtain br s2 where run: "run_all c inp (map ent_id records) s1 = (br, s2)" by fastforce
  have "set (keys br) = ent_id ` set records"
    using run_all_keys [OF workers going, of "map ent_id records" s1] run by simp
  from results_by_task_ok [of records br "[]"] this obtain out where
    "results_by_task records br [] = Inr out" "set (keys out) = gt_task ` set records" by auto
  with sub run show ?thesis by (simp add: supervise_goal_def eff_bind_def run_records_def)
qed

text \<open>
  A supervised run that is cancelled loses its results. When every subtask could be submitted
  and the token is already cancelled as the pool starts, \<open>supervise_goal\<close> raises a \<open>KeyError\<close> for the first
  record instead of returning a result in which the unstarted subtasks count as failed.
\<close>

theorem cancelled_supervisor_raises:
  fixes c :: "'w agents_cfg"
  assumes workers: "1 \<le> gc_workers c" and gone: "\<And>k. pi_cancelled inp 0 k"
    and sub: "eff_each (submit_subtask c) sps s = (Inr records, s1)" "sps \<noteq> []"
  shows "supervise_goal c inp f goal (Some sps) s = (Inl (key_error (ent_id (hd records))), s1)"
proof -
  have "records \<noteq> []" using eff_each_length [OF sub(1)] sub(2) by auto
  then obtain r rs where r: "records = r # rs" by (cases records) auto
  have "run_all c inp (map ent_id records) s1 = ([], s1)"
    using workers gone by (simp add: run_all_def run_pool.simps r)
  with sub r show ?thesis by (simp add: supervise_goal_def eff_bind_def run_records_def)
qed

subsection \<open>Coordination\<close>

definition report_ok :: "'w team_cfg \<Rightarrow> string \<times> exec_result option \<times> bool \<Rightarrow> bool" where
  "report_ok c e \<longleftrightarrow> (case e of (a, x, v) \<Rightarrow> v \<longrightarrow>
     (\<exists>y. x = Some y \<and> xr_status y = O_COMPLETED \<and> (\<exists>tid. verify_child c tid y = Inr True)))"

lemma team_verify_ok: "team_verify c tid x s = (Inr v, s') \<Longrightarrow> report_ok c (a, x, v)"
  by (auto simp: team_verify_def report_ok_def split: option.splits if_splits)

lemma report_back_ok:
  "report_back c sv corr ex r s = (Inr e, s') \<Longrightarrow> report_ok c e"
  by (auto simp: report_back_def Let_def eff_then_def eff_bind_Inr intro: team_verify_ok)

lemma eff_each_all:
  "eff_each f xs s = (Inr ys, s') \<Longrightarrow> (\<And>x s y s'. f x s = (Inr y, s') \<Longrightarrow> P y) \<Longrightarrow> list_all P ys"
  by (induction xs arbitrary: s ys s') (auto simp: eff_bind_Inr)

lemma chain_steps_ok: "chain_steps c sv corr prev sps s = (Inr rs, s') \<Longrightarrow> list_all (report_ok c) rs"
proof (induction sps arbitrary: prev s rs s')
  case (Cons sp sps)
  from Cons.prems show ?case
    by (auto simp: eff_then_def eff_bind_Inr intro: team_verify_ok Cons.IH split: if_splits)
qed simp

lemma gather_pairs:
  "map_of (fold (\<lambda>(a, x, v) d. dict_set a (g x v) d) rs d) a
     = (case filter (\<lambda>e. fst e = a) rs of
          [] \<Rightarrow> map_of d a
        | e # es \<Rightarrow> (case last (e # es) of (_, x, v) \<Rightarrow> Some (g x v)))"
  by (induction rs arbitrary: d) (auto split: list.splits)

lemma distinct_gather:
  "distinct (keys d) \<Longrightarrow> distinct (keys (fold (\<lambda>(a, x, v) d. dict_set a (g x v) d) rs d))"
  by (induction rs arbitrary: d) (auto simp: distinct_keys_dict_set)

lemma gather_succeeded:
  assumes "list_all (report_ok c) rs" "a \<in> set (co_succeeded (gather_reports corr rs))"
  shows "\<exists>y. map_of (co_results (gather_reports corr rs)) a = Some (Some y) \<and> report_ok c (a, Some y, True)"
proof -
  let ?v = "fold (\<lambda>(a, x, v) d. dict_set a v d) rs []"
  from assms(2) have "(a, True) \<in> set ?v" by (auto simp: co_succeeded_def gather_reports_def)
  moreover have "distinct (keys ?v)" using distinct_gather [of "[]" "\<lambda>x v. v" rs] by simp
  ultimately have "map_of ?v a = Some True" by simp
  with gather_pairs [of "\<lambda>x v. v" rs "[]" a] obtain e es x where
    e: "filter (\<lambda>e. fst e = a) rs = e # es" "last (e # es) = (fst (last (e # es)), x, True)"
    by (auto split: list.splits prod.splits)
  have "last (e # es) \<in> set (filter (\<lambda>e. fst e = a) rs)" unfolding e(1) by simp
  with e(2) have l: "last (e # es) = (a, x, True)" "(a, x, True) \<in> set rs" by auto
  with assms(1) have ok: "report_ok c (a, x, True)" by (auto simp: list_all_iff)
  then obtain y where "x = Some y" by (auto simp: report_ok_def)
  with ok l e(1) gather_pairs [of "\<lambda>x v. x" rs "[]" a] show ?thesis by (auto simp: gather_reports_def)
qed

text \<open>
  A coordinated agent only counts as succeeded with a verified execution. Whatever a fan-out or
  a chain returns, in every order of the threads and whether or not the deadline fired, each agent
  in \<open>succeeded\<close> has as its recorded result an execution that completed and that the verifier
  passed (any, when the coordinator has no verifier).
\<close>

theorem succeeded_agents_are_verified:
  assumes "fan_out c inp fired sv specs corr timeout s = (Inr co, s') \<or> chain c sv specs corr s = (Inr co, s')"
    and a: "a \<in> set (co_succeeded co)"
  shows "\<exists>x tid. map_of (co_results co) a = Some (Some x) \<and> xr_status x = O_COMPLETED
    \<and> verify_child c tid x = Inr True"
proof -
  from assms(1) obtain rs where co: "co = gather_reports corr rs" and ok: "list_all (report_ok c) rs"
  proof (elim disjE)
    assume "fan_out c inp fired sv specs corr timeout s = (Inr co, s')"
    then show thesis
      by (auto simp: fan_out_def eff_then_def eff_bind_Inr intro!: that dest: eff_each_all [OF _ report_back_ok])
  next
    assume "chain c sv specs corr s = (Inr co, s')"
    then show thesis
      by (auto simp: chain_def eff_then_def eff_bind_Inr intro!: that dest: chain_steps_ok)
  qed
  from gather_succeeded [OF ok a [unfolded co]] show ?thesis by (auto simp: co report_ok_def)
qed

text \<open>
  A chain stops at the first step that does not complete. The steps a chain ran are a prefix of
  the requested ones, in order; every one of them but the last completed, and if any requested step
  was not run, then the last one that was did not complete.
\<close>

theorem chain_stops_at_failure:
  assumes "chain_steps c sv corr prev sps s = (Inr rs, s')"
  shows "map fst rs = take (length rs) (map sp_agent sps)
    \<and> list_all (\<lambda>(_, x, _). completed_ok x) (butlast rs)
    \<and> (length rs < length sps \<longrightarrow> rs \<noteq> [] \<and> \<not> completed_ok (fst (snd (last rs))))"
  using assms
proof (induction sps arbitrary: prev s rs s')
  case (Cons sp sps)
  from Cons.prems obtain x v s1 s2 where
    "xr_status x \<noteq> O_COMPLETED \<and> rs = [(sp_agent sp, Some x, v)]
     \<or> xr_status x = O_COMPLETED \<and> (\<exists>rest. rs = (sp_agent sp, Some x, v) # rest
          \<and> chain_steps c sv corr (summary_of (sp_agent sp) x) sps s1 = (Inr rest, s2))"
    by (fastforce simp: eff_then_def eff_bind_Inr split: if_splits)
  then show ?case
  proof (elim disjE conjE exE)
    fix rest assume x: "xr_status x = O_COMPLETED" and rs: "rs = (sp_agent sp, Some x, v) # rest"
      and "chain_steps c sv corr (summary_of (sp_agent sp) x) sps s1 = (Inr rest, s2)"
    from Cons.IH [OF this(3)] x show ?case by (auto simp: rs completed_ok_def)
  qed (simp add: completed_ok_def)
qed simp

subsection \<open>Two subtasks of one agent\<close>

text \<open>A world in which the execution of a plan fails when its goal is \<open>bad\<close>.\<close>

definition team_plan :: "string \<Rightarrow> plan" where
  "team_plan g = \<lparr>plan_goal = g, plan_steps = [], plan_final_verification = []\<rparr>"

definition plan_outcome :: "agent_task \<Rightarrow> exec_result" where
  "plan_outcome r = (failed_execution (gt_task r) [])
     \<lparr>xr_status := (if plan_goal (gt_plan r) = ''bad'' then O_FAILED else O_COMPLETED), xr_errors := []\<rparr>"

definition team_agents :: "nat agents_cfg" where
  "team_agents = \<lparr>gc_clock = (\<lambda>_. 1), gc_new_id = (\<lambda>n. replicate n CHR ''k''),
     gc_create_task = (\<lambda>_ _ w. (Inr (replicate (w + 1) CHR ''t''), w + 1)),
     gc_execute = (\<lambda>am r w. (Inr (plan_outcome r), w)), gc_text = (\<lambda>_. ''boom''),
     gc_workers = 1, gc_approvals = False, gc_wait_s = 300\<rparr>"

definition demo_team_cfg :: "nat team_cfg" where
  "demo_team_cfg = \<lparr>te_agents = team_agents, te_messages = \<lparr>mc_events = False, mc_repo = False,
     mc_size = (\<lambda>_. 10), mc_max_payload = 64000, mc_max_inbox = 100, mc_max_hops = 8\<rparr>,
     te_verifier = None, te_bus = False, te_clock = (\<lambda>_. 1), te_new_id = (\<lambda>n. replicate n CHR ''m'')\<rparr>"

definition demo_team :: "nat team" where
  "demo_team = \<lparr>tm_agents = \<lparr>ga_defs = [(''a1'', scribe\<lparr>df_status := M_READY\<rparr>)], ga_tasks = [],
     ga_events = [], ga_reads = 0, ga_world = 0\<rparr>, tm_messages = register_agent ''a1'' new_msg_bus,
     tm_events = [], tm_sends = 0\<rparr>"

definition team_subtask :: "string \<Rightarrow> subtask" where
  "team_subtask g = \<lparr>sp_agent = ''a1'', sp_goal = g, sp_plan = team_plan g, sp_arguments = []\<rparr>"

definition demo_coordination :: "string list \<Rightarrow> coordination" where
  "demo_coordination gs =
     (case fst (fan_out demo_team_cfg (free_order id) False ''boss'' (map team_subtask gs) ''x'' 0 demo_team) of
        Inl _ \<Rightarrow> \<lparr>co_correlation = [], co_results = [], co_verified = []\<rparr> | Inr co \<Rightarrow> co)"

lemma demo_coordination_succeeded: "co_succeeded (demo_coordination [''good'']) = [''a1'']"
  by code_simp

text \<open>The results are keyed by agent: a later subtask of one agent replaces the outcome of an earlier one.\<close>

lemma later_subtask_hides_failure:
  "co_succeeded (demo_coordination [''bad'', ''good'']) = [''a1''] \<and> co_failed (demo_coordination [''bad'', ''good'']) = []"
  by code_simp

lemma fallback_chooses_best_witness:
  "default_decompose ''take notes'' [scribe]
     = [\<lparr>sp_agent = ''a1'', sp_goal = ''take notes'', sp_plan = best_fallback_plan scribe, sp_arguments = []\<rparr>]"
  using fallback_chooses_best [of "[scribe]" "''take notes''"] by (auto simp: scribe_def)

definition demo_records :: "agent_task list" where
  "demo_records =
     (case fst (eff_each (submit_subtask team_agents) [team_subtask ''g'', team_subtask ''h''] (tm_agents demo_team)) of
        Inl _ \<Rightarrow> [] | Inr rs \<Rightarrow> rs)"

lemma demo_records_submitted:
  "\<exists>s1. eff_each (submit_subtask team_agents) [team_subtask ''g'', team_subtask ''h''] (tm_agents demo_team)
     = (Inr demo_records, s1)"
proof -
  let ?r = "eff_each (submit_subtask team_agents) [team_subtask ''g'', team_subtask ''h''] (tm_agents demo_team)"
  have "\<not> isl (fst ?r)" by code_simp
  then have "?r = (Inr demo_records, snd ?r)" unfolding demo_records_def by (cases ?r, cases "fst ?r") auto
  then show ?thesis by (rule exI)
qed

lemma supervisor_reports_every_task_witness:
  "\<exists>r s'. supervise_goal team_agents (free_order id) None ''goal'' (Some [team_subtask ''g'', team_subtask ''h''])
      (tm_agents demo_team) = (Inr r, s') \<and> su_task_ids r = [''t'', ''tt''] \<and> set (keys (su_results r)) = {''t'', ''tt''}"
proof -
  obtain s1 where s1: "eff_each (submit_subtask team_agents) [team_subtask ''g'', team_subtask ''h'']
      (tm_agents demo_team) = (Inr demo_records, s1)" using demo_records_submitted by blast
  have ids: "map gt_task demo_records = [''t'', ''tt'']" by code_simp
  then have "gt_task ` set demo_records = {''t'', ''tt''}"
    by (metis list.set(1,2) list.set_map)
  with ids supervisor_reports_every_task [OF _ _ s1, of "free_order id" None "''goal''"] show ?thesis
    by (simp add: free_order_def team_agents_def)
qed

lemma cancelled_supervisor_raises_witness:
  "fst (supervise_goal team_agents \<lparr>pi_cancelled = (\<lambda>_ _. True), pi_pick = id\<rparr> None ''goal''
      (Some [team_subtask ''g'', team_subtask ''h'']) (tm_agents demo_team)) = Inl (key_error (ent_id (hd demo_records)))"
proof -
  let ?inp = "\<lparr>pi_cancelled = (\<lambda>_ _. True), pi_pick = id\<rparr>"
  obtain s1 where s1: "eff_each (submit_subtask team_agents) [team_subtask ''g'', team_subtask ''h'']
      (tm_agents demo_team) = (Inr demo_records, s1)" using demo_records_submitted by blast
  have "1 \<le> gc_workers team_agents" "\<And>k. pi_cancelled ?inp 0 k" by (simp_all add: team_agents_def)
  from cancelled_supervisor_raises [OF this s1, of None "''goal''"] show ?thesis by simp
qed

lemma succeeded_agents_are_verified_witness:
  "\<exists>x. map_of (co_results (demo_coordination [''good''])) ''a1'' = Some (Some x) \<and> xr_status x = O_COMPLETED"
proof -
  let ?f = "fan_out demo_team_cfg (free_order id) False ''boss'' (map team_subtask [''good'']) ''x'' 0 demo_team"
  have "\<not> isl (fst ?f)" by code_simp
  then have "?f = (Inr (demo_coordination [''good'']), snd ?f)"
    unfolding demo_coordination_def by (cases ?f, cases "fst ?f") auto
  moreover have "''a1'' \<in> set (co_succeeded (demo_coordination [''good'']))"
    by (simp add: demo_coordination_succeeded)
  ultimately show ?thesis using succeeded_agents_are_verified by blast
qed

definition demo_chain :: "(string \<times> exec_result option \<times> bool) list" where
  "demo_chain =
     (case fst (chain_steps demo_team_cfg ''boss'' ''x'' [] (map team_subtask [''bad'', ''good'']) demo_team) of
        Inl _ \<Rightarrow> [] | Inr rs \<Rightarrow> rs)"

lemma chain_stops_at_failure_witness:
  "length demo_chain = 1 \<and> demo_chain \<noteq> [] \<and> \<not> completed_ok (fst (snd (last demo_chain)))"
proof -
  let ?c = "chain_steps demo_team_cfg ''boss'' ''x'' [] (map team_subtask [''bad'', ''good'']) demo_team"
  have "\<not> isl (fst ?c)" by code_simp
  then have c: "?c = (Inr demo_chain, snd ?c)"
    unfolding demo_chain_def by (cases ?c, cases "fst ?c") auto
  moreover have "length demo_chain = 1" by code_simp
  ultimately show ?thesis using chain_stops_at_failure [OF c] by simp
qed

end
