(* ===== verification/Memory.thy ===== *)
theory Memory
  imports Effects Events Keywords Graph Verifier
begin

text \<open>
  The memory store (\<^verbatim>\<open>personalization/memory/\<close>: \<^verbatim>\<open>models.py\<close>, \<^verbatim>\<open>verifier.py\<close>, \<^verbatim>\<open>store.py\<close>) over
  the snapshot table of \<^verbatim>\<open>SqliteMemoryRepository\<close>, whose rows are copies. Confidence, importance and
  scores are real numbers; how a float is written and rounded, an instant is written and a value of
  the candidate's metadata is converted to a number or an instant are parameters. One reading of
  the clock serves a call.
\<close>

subsection \<open>Data\<close>

datatype memory_type = EPISODIC | SEMANTIC | PROJECT_FACT | PREFERENCE | SKILL_MEMORY | EXPERIENCE

datatype memory_scope = SC_GLOBAL | SC_PROJECT | SC_TASK | SC_AGENT

datatype memory_status = ME_ACTIVE | ME_ARCHIVED | ME_DELETED

fun type_value :: "memory_type \<Rightarrow> string" where
  "type_value EPISODIC = ''episodic''"
| "type_value SEMANTIC = ''semantic''"
| "type_value PROJECT_FACT = ''project''"
| "type_value PREFERENCE = ''preference''"
| "type_value SKILL_MEMORY = ''skill''"
| "type_value EXPERIENCE = ''experience''"

fun scope_value :: "memory_scope \<Rightarrow> string" where
  "scope_value SC_GLOBAL = ''global''"
| "scope_value SC_PROJECT = ''project''"
| "scope_value SC_TASK = ''task''"
| "scope_value SC_AGENT = ''agent''"

record memory = entity +
  me_type :: memory_type
  me_content :: string
  me_source :: string
  me_confidence :: real
  me_importance :: real
  me_scope :: memory_scope
  me_scope_id :: string
  me_status :: memory_status
  me_retention :: "int option"
  me_cloud :: bool
  me_provenance :: string
  me_created_by :: string
  me_verified :: bool
  me_expires :: "real option"
  me_metadata :: arguments

record candidate = entity +
  ca_content :: string
  ca_type :: memory_type
  ca_source :: string
  ca_confidence :: real
  ca_importance :: real
  ca_scope :: memory_scope
  ca_scope_id :: string
  ca_reason :: string
  ca_metadata :: arguments

record consolidation =
  cs_candidate :: candidate
  cs_archive :: "string list"
  cs_reason :: string

record receipt =
  vc_hash :: string
  vc_evidence :: "string list"
  vc_verifier :: string
  vc_method :: string
  vc_at :: real
  vc_version :: string

record mem_cfg =
  mf_bus :: bool
  mf_threshold :: real
  mf_sha :: "string \<Rightarrow> string"
  mf_float :: "real \<Rightarrow> string"
  mf_fixed2 :: "real \<Rightarrow> string"
  mf_iso :: "real \<Rightarrow> string"
  mf_round3 :: "real \<Rightarrow> real"
  mf_as_int :: "json \<Rightarrow> int result"
  mf_as_time :: "json \<Rightarrow> real result"

record mem_store =
  mm_table :: "memory table"
  mm_events :: "event list"

type_synonym 'a mem_op = "(mem_store, 'a) eff"

subsection \<open>MemoryVerifier\<close>

definition content_hash ::
  "mem_cfg \<Rightarrow> string \<Rightarrow> memory_type \<Rightarrow> string \<Rightarrow> real \<Rightarrow> real \<Rightarrow> memory_scope \<Rightarrow> string \<Rightarrow> string" where
  "content_hash f content ty source confidence importance scope scope_id =
     mf_sha f (canonical (JObj
       [(''content'', JStr content), (''type'', JStr (type_value ty)), (''source'', JStr source),
        (''confidence'', JFloat (mf_float f confidence)), (''importance'', JFloat (mf_float f importance)),
        (''scope'', JStr (scope_value scope)), (''scope_id'', JStr scope_id)]))"

definition candidate_hash :: "mem_cfg \<Rightarrow> candidate \<Rightarrow> string" where
  "candidate_hash f ca = content_hash f (ca_content ca) (ca_type ca) (ca_source ca) (ca_confidence ca)
     (ca_importance ca) (ca_scope ca) (ca_scope_id ca)"

definition verify_candidate ::
  "mem_cfg \<Rightarrow> real \<Rightarrow> candidate \<Rightarrow> string list \<Rightarrow> string \<Rightarrow> string \<Rightarrow> receipt result" where
  "verify_candidate f now ca evidence verifier method =
     (if strip_str verifier = [] then Inl (OtherException ''verifier identity is required'')
      else if strip_str method = [] then Inl (OtherException ''verification method is required'')
      else if evidence = [] then Inl (OtherException ''at least one evidence id is required'')
      else Inr \<lparr>vc_hash = candidate_hash f ca, vc_evidence = evidence, vc_verifier = verifier,
             vc_method = method, vc_at = now, vc_version = ''1''\<rparr>)"

definition receipt_valid :: "mem_cfg \<Rightarrow> candidate \<Rightarrow> receipt \<Rightarrow> bool" where
  "receipt_valid f ca rc \<longleftrightarrow> vc_hash rc = candidate_hash f ca"

definition receipt_json :: "mem_cfg \<Rightarrow> receipt \<Rightarrow> json" where
  "receipt_json f rc = JObj
     [(''memory_hash'', JStr (vc_hash rc)), (''evidence_ids'', JList (map JStr (vc_evidence rc))),
      (''verifier'', JStr (vc_verifier rc)), (''method'', JStr (vc_method rc)),
      (''verified_at'', JStr (mf_iso f (vc_at rc))), (''verifier_version'', JStr (vc_version rc))]"

subsection \<open>Words and scores\<close>

definition stopwords :: "string list" where
  "stopwords = [''a'', ''an'', ''the'', ''and'', ''or'', ''but'', ''of'', ''to'', ''in'', ''on'', ''for'', ''with'',
     ''is'', ''are'', ''was'', ''were'', ''be'', ''been'', ''it'', ''its'', ''this'', ''that'', ''these'', ''those'',
     ''as'', ''at'', ''by'', ''from'', ''into'', ''over'', ''after'', ''such'', ''no'', ''not'', ''only'', ''also'',
     ''than'', ''then'', ''there'', ''their'', ''what'', ''when'', ''where'', ''which'', ''who'', ''will'', ''can'',
     ''has'', ''have'', ''had'', ''do'', ''does'', ''did'', ''how'', ''why'']"

definition memory_keywords :: "string \<Rightarrow> string list" where
  "memory_keywords = word_set (\<lambda>w. w \<notin> set stopwords \<and> length w > 2)"

definition freshness :: "mem_cfg \<Rightarrow> real \<Rightarrow> real \<Rightarrow> real" where
  "freshness f created now =
     (let age_days = max 0 ((now - created) / 86400) in mf_round3 f (1 / (1 + age_days / 30)))"

definition relevance :: "string list \<Rightarrow> memory \<Rightarrow> real" where
  "relevance words m =
     (if words = [] then 0
      else real (common_words words (memory_keywords (me_content m))) / real (length words))"

definition visible :: "memory \<Rightarrow> memory_scope \<Rightarrow> string \<Rightarrow> string \<Rightarrow> bool" where
  "visible m scope scope_id project \<longleftrightarrow>
     me_scope m = SC_GLOBAL \<or> me_scope m = scope \<and> me_scope_id m = scope_id
     \<or> project \<noteq> [] \<and> me_scope m = SC_PROJECT \<and> me_scope_id m = project"

definition expired :: "real \<Rightarrow> memory \<Rightarrow> bool" where
  "expired now m \<longleftrightarrow> (case me_expires m of None \<Rightarrow> False | Some t \<Rightarrow> t \<le> now)"

definition score :: "mem_cfg \<Rightarrow> real \<Rightarrow> string list \<Rightarrow> memory \<Rightarrow> real" where
  "score f now words m = mf_round3 f
     (45 / 100 * relevance words m + 2 / 10 * me_importance m + 15 / 100 * me_confidence m
      + 1 / 10 * freshness f (ent_created m) now + 1 / 10 * (if me_verified m then 1 else 0))"

subsection \<open>MemoryStore\<close>

definition mem_emit :: "mem_cfg \<Rightarrow> string \<Rightarrow> arguments \<Rightarrow> unit mem_op" where
  "mem_emit f ty pl = eff_modify (\<lambda>s.
     if mf_bus f then s\<lparr>mm_events := mm_events s @ [mk_event ty [] (JObj pl)]\<rparr> else s)"

definition outside_unit :: "real \<Rightarrow> bool" where
  "outside_unit x \<longleftrightarrow> \<not> (0 \<le> x \<and> x \<le> 1)"

definition propose :: "mem_cfg \<Rightarrow> candidate \<Rightarrow> candidate mem_op" where
  "propose f ca s =
     (if strip_str (ca_content ca) = []
        then eff_raise (DomainValidationError ''memory candidate has no content'') s
      else if outside_unit (ca_confidence ca)
        then eff_raise (DomainValidationError (''memory candidate confidence '' @ mf_float f (ca_confidence ca)
               @ '' outside [0, 1]'')) s
      else if outside_unit (ca_importance ca)
        then eff_raise (DomainValidationError (''memory candidate importance '' @ mf_float f (ca_importance ca)
               @ '' outside [0, 1]'')) s
      else eff_then (mem_emit f ''MemoryCandidateCreated''
             [(''candidate_id'', JStr (ent_id ca)), (''type'', JStr (type_value (ca_type ca))),
              (''scope'', JStr (scope_value (ca_scope ca))), (''reason'', JStr (ca_reason ca))])
             (eff_return ca) s)"

definition evaluate_candidate :: "mem_cfg \<Rightarrow> candidate \<Rightarrow> bool \<times> string" where
  "evaluate_candidate f ca =
     (if ca_importance ca < mf_threshold f
      then (False, ''importance '' @ mf_fixed2 f (ca_importance ca) @ '' below threshold ''
              @ mf_fixed2 f (mf_threshold f))
      else if ca_confidence ca \<le> 0 then (False, ''confidence must be positive'')
      else (True, ''meets importance and confidence bars''))"

definition conflict_overlap :: "candidate \<Rightarrow> memory \<Rightarrow> nat" where
  "conflict_overlap ca m = common_words (memory_keywords (ca_content ca)) (memory_keywords (me_content m))"

definition find_conflicts :: "mem_cfg \<Rightarrow> candidate \<Rightarrow> nat \<Rightarrow> mem_store \<Rightarrow> memory list" where
  "find_conflicts f ca limit s =
     (let hits = filter (\<lambda>m. me_status m = ME_ACTIVE \<and> me_scope m = ca_scope ca
                    \<and> me_scope_id m = ca_scope_id ca \<and> me_type m = ca_type ca
                    \<and> conflict_overlap ca m \<ge> 2) (tbl_list (mm_table s))
      in take limit (sort_key (\<lambda>m. - int (conflict_overlap ca m)) (sort_key (\<lambda>m. mf_iso f (ent_created m)) hits)))"

text \<open>\<open>metadata.get(key)\<close> converted to the type of the field it is given to.\<close>

definition optional_field :: "(json \<Rightarrow> 'a result) \<Rightarrow> string \<Rightarrow> arguments \<Rightarrow> 'a option result" where
  "optional_field conv k md =
     (case map_of md k of
        None \<Rightarrow> Inr None
      | Some JNull \<Rightarrow> Inr None
      | Some v \<Rightarrow> (case conv v of Inl e \<Rightarrow> Inl e | Inr x \<Rightarrow> Inr (Some x)))"

definition text_field :: "string \<Rightarrow> string \<Rightarrow> arguments \<Rightarrow> string" where
  "text_field k other md = (case map_of md k of None \<Rightarrow> other | Some v \<Rightarrow> str_json v)"

definition stored_metadata :: "mem_cfg \<Rightarrow> candidate \<Rightarrow> receipt option \<Rightarrow> string list \<Rightarrow> arguments" where
  "stored_metadata f ca rc related =
     (let md = dict_set ''history'' (JList []) (dict_set ''related'' (JList (map JStr related))
                 (dict_set ''reason'' (JStr (ca_reason ca)) (ca_metadata ca)))
      in case rc of
           Some r \<Rightarrow> dict_set ''verification_receipt'' (receipt_json f r) md
         | None \<Rightarrow> dict_del ''verification_receipt'' md)"

definition new_memory ::
  "mem_cfg \<Rightarrow> real \<Rightarrow> string \<Rightarrow> candidate \<Rightarrow> receipt option \<Rightarrow> string list \<Rightarrow> memory result" where
  "new_memory f now i ca rc related =
     bind_result (optional_field (mf_as_int f) ''retention_days'' (ca_metadata ca)) (\<lambda>retention.
     bind_result (optional_field (mf_as_time f) ''expires_at'' (ca_metadata ca)) (\<lambda>expires.
       Inr \<lparr>ent_id = i, ent_created = now, ent_updated = now, me_type = ca_type ca, me_content = ca_content ca,
            me_source = ca_source ca, me_confidence = ca_confidence ca, me_importance = ca_importance ca,
            me_scope = ca_scope ca, me_scope_id = ca_scope_id ca, me_status = ME_ACTIVE,
            me_retention = retention,
            me_cloud = (case map_of (ca_metadata ca) ''cloud_eligible'' of None \<Rightarrow> False | Some v \<Rightarrow> truthy v),
            me_provenance = text_field ''provenance''
              (if ca_source ca \<noteq> [] then ca_source ca else ''unknown'') (ca_metadata ca),
            me_created_by = text_field ''created_by'' ''unknown'' (ca_metadata ca),
            me_verified = (rc \<noteq> None), me_expires = expires,
            me_metadata = stored_metadata f ca rc related\<rparr>))"

definition mem_create :: "real \<Rightarrow> memory \<Rightarrow> memory mem_op" where
  "mem_create now m s =
     (case tbl_create now m (mm_table s) of
        Inl e \<Rightarrow> eff_raise e s | Inr (m', t) \<Rightarrow> eff_return m' (s\<lparr>mm_table := t\<rparr>))"

definition mem_update :: "real \<Rightarrow> memory \<Rightarrow> mem_store \<Rightarrow> mem_store" where
  "mem_update now m s = s\<lparr>mm_table := tbl_put now m (mm_table s)\<rparr>"

definition store_with :: "mem_cfg \<Rightarrow> real \<Rightarrow> string \<Rightarrow> candidate \<Rightarrow> receipt option \<Rightarrow> memory mem_op" where
  "store_with f now i ca rc =
     eff_then (propose f ca) (\<lambda>s.
       case evaluate_candidate f ca of
         (False, reason) \<Rightarrow> eff_raise (DomainValidationError (''candidate rejected: '' @ reason)) s
       | (True, _) \<Rightarrow>
           let related = map ent_id (find_conflicts f ca 5 s) in
           case new_memory f now i ca rc related of
             Inl e \<Rightarrow> eff_raise e s
           | Inr m \<Rightarrow> eff_bind (mem_create now m) (\<lambda>created.
               eff_then (mem_emit f ''MemoryCreated''
                 [(''memory_id'', JStr (ent_id created)), (''type'', JStr (type_value (me_type created))),
                  (''scope'', JStr (scope_value (me_scope created))), (''scope_id'', JStr (me_scope_id created)),
                  (''related'', JList (map JStr related)), (''verified'', JBool (me_verified created))])
               (eff_return created)) s)"

definition store :: "mem_cfg \<Rightarrow> real \<Rightarrow> string \<Rightarrow> candidate \<Rightarrow> memory mem_op" where
  "store f now i ca = store_with f now i ca None"

definition store_verified :: "mem_cfg \<Rightarrow> real \<Rightarrow> string \<Rightarrow> candidate \<Rightarrow> receipt \<Rightarrow> memory mem_op" where
  "store_verified f now i ca rc s =
     (if \<not> receipt_valid f ca rc
      then eff_raise (DomainValidationError ''verification receipt does not match candidate content'') s
      else store_with f now i ca (Some rc) s)"

record retrieval =
  rt_scope :: memory_scope
  rt_scope_id :: string
  rt_type :: "memory_type option"
  rt_query :: string
  rt_limit :: int
  rt_project :: string
  rt_archived :: bool

definition retrievable :: "real \<Rightarrow> retrieval \<Rightarrow> string list \<Rightarrow> memory \<Rightarrow> bool" where
  "retrievable now q words m \<longleftrightarrow>
     \<not> (me_status m = ME_DELETED \<or> me_status m = ME_ARCHIVED \<and> \<not> rt_archived q)
     \<and> \<not> expired now m \<and> visible m (rt_scope q) (rt_scope_id q) (rt_project q)
     \<and> (case rt_type q of None \<Rightarrow> True | Some ty \<Rightarrow> me_type m = ty)
     \<and> \<not> (words \<noteq> [] \<and> relevance words m \<le> 0)"

definition retrieve :: "mem_cfg \<Rightarrow> real \<Rightarrow> retrieval \<Rightarrow> mem_store \<Rightarrow> memory list" where
  "retrieve f now q s =
     (let words = memory_keywords (rt_query q);
          found = filter (retrievable now q words) (tbl_list (mm_table s))
      in take (nat (rt_limit q))
           (sort_key (\<lambda>m. - score f now words m)
             (sort_key (\<lambda>m. mf_iso f (ent_created m)) (sort_key ent_id found))))"

definition history_of :: "memory \<Rightarrow> json list result" where
  "history_of m =
     (case map_of (me_metadata m) ''history'' of
        None \<Rightarrow> Inr []
      | Some (JList xs) \<Rightarrow> Inr xs
      | Some (JStr s) \<Rightarrow> Inr (map (\<lambda>ch. JStr [ch]) s)
      | Some (JObj ms) \<Rightarrow> Inr (map (JStr \<circ> fst) ms)
      | Some _ \<Rightarrow> Inl (OtherException ''TypeError''))"

definition history_entry :: "mem_cfg \<Rightarrow> memory \<Rightarrow> json" where
  "history_entry f m = JObj
     [(''content'', JStr (me_content m)), (''confidence'', JFloat (mf_float f (me_confidence m))),
      (''importance'', JFloat (mf_float f (me_importance m))), (''verified'', JBool (me_verified m)),
      (''updated_at'', JStr (mf_iso f (ent_updated m)))]"

definition set_unit :: "mem_cfg \<Rightarrow> string \<Rightarrow> (real \<Rightarrow> memory \<Rightarrow> memory) \<Rightarrow> real option \<Rightarrow> memory \<Rightarrow> memory result" where
  "set_unit f name upd v m =
     (case v of
        None \<Rightarrow> Inr m
      | Some x \<Rightarrow> if outside_unit x
                 then Inl (DomainValidationError (name @ '' '' @ mf_float f x @ '' outside [0, 1]''))
                 else Inr (upd x m))"

definition invalidate :: "mem_cfg \<Rightarrow> real \<Rightarrow> memory \<Rightarrow> memory" where
  "invalidate f now m = m
     \<lparr>me_verified := False,
      me_provenance := ''modified:'' @ (if me_provenance m \<noteq> [] then me_provenance m else ''unknown''),
      me_metadata := dict_del ''verification_receipt''
        (dict_set ''verification_invalidated_at'' (JStr (mf_iso f now))
          (dict_set ''verification_invalidated'' (JBool True) (me_metadata m)))\<rparr>"

definition revised ::
  "mem_cfg \<Rightarrow> real \<Rightarrow> memory \<Rightarrow> string option \<Rightarrow> real option \<Rightarrow> real option \<Rightarrow> (memory \<times> json list) result" where
  "revised f now m content confidence importance =
     bind_result (history_of m) (\<lambda>h0. let h = h0 @ [history_entry f m] in
     bind_result (case content of
          None \<Rightarrow> Inr m
        | Some t \<Rightarrow> if strip_str t = [] then Inl (DomainValidationError ''memory content must not be empty'')
                   else Inr (m\<lparr>me_content := t\<rparr>)) (\<lambda>m1.
     bind_result (set_unit f ''confidence'' (\<lambda>x m. m\<lparr>me_confidence := x\<rparr>) confidence m1) (\<lambda>m2.
     bind_result (set_unit f ''importance'' (\<lambda>x m. m\<lparr>me_importance := x\<rparr>) importance m2) (\<lambda>m3.
       let m4 = (if content \<noteq> None \<or> confidence \<noteq> None \<or> importance \<noteq> None then invalidate f now m3 else m3)
       in Inr (m4\<lparr>me_metadata := dict_set ''history'' (JList h) (me_metadata m4)\<rparr>, h)))))"

definition update_memory ::
  "mem_cfg \<Rightarrow> real \<Rightarrow> string \<Rightarrow> string option \<Rightarrow> real option \<Rightarrow> real option \<Rightarrow> memory mem_op" where
  "update_memory f now i content confidence importance s =
     (case tbl_get i (mm_table s) of
        None \<Rightarrow> eff_raise (ResourceNotFoundError ''Memory'' i) s
      | Some m \<Rightarrow>
          (case revised f now m content confidence importance of
             Inl e \<Rightarrow> eff_raise e s
           | Inr (m', h) \<Rightarrow>
               eff_then (mem_emit f ''MemoryUpdated''
                   [(''memory_id'', JStr i), (''history'', JInt (int (length h))), (''verified'', JBool (me_verified m'))])
                 (eff_return (touch now m')) (mem_update now m' s)))"

definition archive_memory :: "mem_cfg \<Rightarrow> real \<Rightarrow> string \<Rightarrow> memory mem_op" where
  "archive_memory f now i s =
     (case tbl_get i (mm_table s) of
        None \<Rightarrow> eff_raise (ResourceNotFoundError ''Memory'' i) s
      | Some m \<Rightarrow>
          let m' = m\<lparr>me_status := ME_ARCHIVED\<rparr> in
          eff_then (mem_emit f ''MemoryArchived'' [(''memory_id'', JStr i)]) (eff_return (touch now m'))
            (mem_update now m' s))"

definition delete_memory :: "mem_cfg \<Rightarrow> string \<Rightarrow> bool mem_op" where
  "delete_memory f i s =
     (let (found, t) = tbl_delete i (mm_table s); s1 = s\<lparr>mm_table := t\<rparr> in
      if found then eff_then (mem_emit f ''MemoryDeleted'' [(''memory_id'', JStr i)]) (eff_return True) s1
      else eff_return False s1)"

fun consolidation_sources :: "mem_store \<Rightarrow> string list \<Rightarrow> memory list result" where
  "consolidation_sources s [] = Inr []"
| "consolidation_sources s (i # is) =
     (case tbl_get i (mm_table s) of
        None \<Rightarrow> Inl (ResourceNotFoundError ''Memory'' i)
      | Some m \<Rightarrow>
          if me_status m \<noteq> ME_ACTIVE
          then Inl (DomainValidationError (''memory '' @ i @ '' is not ACTIVE''))
          else bind_result (consolidation_sources s is) (\<lambda>ms. Inr (m # ms)))"

definition propose_consolidation ::
  "string list \<Rightarrow> candidate \<Rightarrow> string \<Rightarrow> mem_store \<Rightarrow> consolidation result" where
  "propose_consolidation ids ca reason s =
     (if length ids < 2 then Inl (DomainValidationError ''consolidation needs at least 2 memories'')
      else bind_result (consolidation_sources s ids) (\<lambda>olds.
        let scopes = remdups (map (\<lambda>m. (me_scope m, me_scope_id m)) olds) in
        if length scopes \<noteq> 1 then Inl (DomainValidationError ''cannot consolidate across scopes'')
        else if (ca_scope ca, ca_scope_id ca) \<noteq> hd scopes
        then Inl (DomainValidationError ''consolidated memory must match source scope'')
        else Inr \<lparr>cs_candidate = ca, cs_archive = ids, cs_reason = reason\<rparr>))"

definition apply_consolidation :: "mem_cfg \<Rightarrow> real \<Rightarrow> string \<Rightarrow> consolidation \<Rightarrow> memory mem_op" where
  "apply_consolidation f now i cs s =
     (case propose_consolidation (cs_archive cs) (cs_candidate cs) (cs_reason cs) s of
        Inl e \<Rightarrow> eff_raise e s
      | Inr fresh \<Rightarrow>
          eff_bind (store f now i (cs_candidate fresh)) (\<lambda>created s1.
            let created' = created\<lparr>me_metadata := dict_set ''consolidates'' (JList (map JStr (cs_archive fresh)))
                             (me_metadata created)\<rparr>
            in eff_bind (eff_each (archive_memory f now) (cs_archive fresh))
                 (\<lambda>_. eff_return (touch now created')) (mem_update now created' s1)) s)"

definition past_retention :: "real \<Rightarrow> memory \<Rightarrow> bool" where
  "past_retention moment m \<longleftrightarrow>
     (case me_retention m of None \<Rightarrow> False | Some d \<Rightarrow> (moment - ent_created m) / 86400 > real_of_int d)"

fun purge_rows :: "mem_cfg \<Rightarrow> real \<Rightarrow> memory list \<Rightarrow> string list mem_op" where
  "purge_rows f moment [] = eff_return []"
| "purge_rows f moment (m # ms) =
     (if expired moment m \<or> past_retention moment m
      then eff_bind (delete_memory f (ent_id m)) (\<lambda>removed.
           eff_bind (purge_rows f moment ms) (\<lambda>rest.
           eff_return (if removed then ent_id m # rest else rest)))
      else purge_rows f moment ms)"

definition purge_expired :: "mem_cfg \<Rightarrow> real \<Rightarrow> string list mem_op" where
  "purge_expired f moment s = purge_rows f moment (tbl_list (mm_table s)) s"

definition list_cloud_eligible :: "real \<Rightarrow> mem_store \<Rightarrow> memory list" where
  "list_cloud_eligible now s =
     filter (\<lambda>m. me_status m = ME_ACTIVE \<and> me_cloud m \<and> \<not> expired now m) (tbl_list (mm_table s))"

subsection \<open>What the store guarantees about verification\<close>

definition memory_hash :: "mem_cfg \<Rightarrow> memory \<Rightarrow> string" where
  "memory_hash f m = content_hash f (me_content m) (me_type m) (me_source m) (me_confidence m)
     (me_importance m) (me_scope m) (me_scope_id m)"

text \<open>A memory has a receipt exactly when it is verified, and then one of \<open>R\<close> that names the hash of
  what the memory says now.\<close>

definition backed :: "mem_cfg \<Rightarrow> receipt set \<Rightarrow> memory \<Rightarrow> bool" where
  "backed f R m \<longleftrightarrow>
     (case map_of (me_metadata m) ''verification_receipt'' of
        None \<Rightarrow> \<not> me_verified m
      | Some j \<Rightarrow> me_verified m \<and> (\<exists>rc \<in> R. j = receipt_json f rc \<and> vc_hash rc = memory_hash f m))"

definition mem_inv :: "mem_cfg \<Rightarrow> receipt set \<Rightarrow> mem_store \<Rightarrow> bool" where
  "mem_inv f R s \<longleftrightarrow> wf_table (mm_table s) \<and> (\<forall>i m. tbl_get i (mm_table s) = Some m \<longrightarrow> backed f R m)"

lemma backed_cong:
  assumes "map_of (me_metadata m') ''verification_receipt'' = map_of (me_metadata m) ''verification_receipt''"
    "me_verified m' = me_verified m" "memory_hash f m' = memory_hash f m"
  shows "backed f R m' = backed f R m"
  unfolding backed_def assms ..

lemma memory_hash_simps [simp]:
  "memory_hash f (m\<lparr>ent_updated := now\<rparr>) = memory_hash f m"
  "memory_hash f (m\<lparr>me_metadata := md\<rparr>) = memory_hash f m"
  "memory_hash f (m\<lparr>me_status := st\<rparr>) = memory_hash f m"
  by (simp_all add: memory_hash_def)

lemma memory_hash_touch [simp]: "memory_hash f (touch now m) = memory_hash f m"
  by (simp add: touch_def)

lemma backed_simps [simp]:
  "backed f R (touch now m) = backed f R m"
  "backed f R (m\<lparr>me_status := st\<rparr>) = backed f R m"
  "k \<noteq> ''verification_receipt'' \<Longrightarrow>
     backed f R (m\<lparr>me_metadata := dict_set k v (me_metadata m)\<rparr>) = backed f R m"
  by (simp_all add: touch_def backed_def split: option.split)

lemma backed_invalidate: "backed f R (invalidate f now m)"
  by (simp add: backed_def invalidate_def)

lemma mem_emit_keeps [keeps_intros]: "keeps (mem_inv f R) (mem_emit g ty pl)"
  unfolding mem_emit_def by (rule keeps_modify) (simp add: mem_inv_def)

lemma mem_inv_update: "mem_inv f R s \<Longrightarrow> backed f R m \<Longrightarrow> mem_inv f R (mem_update now m s)"
  using wf_table_dict_set [of "mm_table s" "touch now m"]
  by (simp add: mem_inv_def mem_update_def tbl_put_def store_simps tbl_get_def)

lemma mem_create_keeps: "backed f R m \<Longrightarrow> keeps (mem_inv f R) (mem_create now m)"
  using wf_table_dict_set [of _ "touch now m"]
  by (auto simp: keeps_def mem_create_def mem_inv_def store_simps tbl_get_def split: sum.split)

lemma new_memory_backed:
  assumes "new_memory f now i ca rc related = Inr m"
    and "\<And>r. rc = Some r \<Longrightarrow> r \<in> R \<and> receipt_valid f ca r"
  shows "backed f R m"
proof -
  from assms(1) have m: "me_metadata m = stored_metadata f ca rc related" "me_verified m = (rc \<noteq> None)"
    "memory_hash f m = candidate_hash f ca"
    by (auto simp: new_memory_def bind_result_Inr_iff memory_hash_def candidate_hash_def)
  show ?thesis
  proof (cases rc)
    case None
    with m show ?thesis by (simp add: backed_def stored_metadata_def)
  next
    case (Some r)
    with m assms(2) [OF Some] show ?thesis
      by (auto simp: backed_def stored_metadata_def receipt_valid_def)
  qed
qed

lemma propose_keeps: "keeps (mem_inv f R) (propose g ca)"
proof -
  have "keeps (mem_inv f R) (eff_then (mem_emit g ty pl) (eff_return ca))" for ty pl
    by (intro keeps_intros)
  then show ?thesis by (auto simp: keeps_def propose_def)
qed

lemma store_with_keeps:
  assumes "\<And>r. rc = Some r \<Longrightarrow> r \<in> R \<and> receipt_valid f ca r"
  shows "keeps (mem_inv f R) (store_with f now i ca rc)"
  unfolding store_with_def
proof (intro keeps_then propose_keeps)
  have emit: "keeps (mem_inv f R) (eff_then (mem_emit f ty pl) (eff_return (x :: memory)))" for ty pl x
    by (intro keeps_intros)
  have "keeps (mem_inv f R) (eff_bind (mem_create now m) (\<lambda>created. eff_then (mem_emit f (ty created) (pl created))
      (eff_return created)))" if "new_memory f now i ca rc related = Inr m" for related m ty pl
    using new_memory_backed [OF that assms] by (intro keeps_bind mem_create_keeps emit)
  then show "keeps (mem_inv f R) (\<lambda>s. case evaluate_candidate f ca of
         (False, reason) \<Rightarrow> eff_raise (DomainValidationError (''candidate rejected: '' @ reason)) s
       | (True, _) \<Rightarrow>
           let related = map ent_id (find_conflicts f ca 5 s) in
           case new_memory f now i ca rc related of
             Inl e \<Rightarrow> eff_raise e s
           | Inr m \<Rightarrow> eff_bind (mem_create now m) (\<lambda>created.
               eff_then (mem_emit f ''MemoryCreated''
                 [(''memory_id'', JStr (ent_id created)), (''type'', JStr (type_value (me_type created))),
                  (''scope'', JStr (scope_value (me_scope created))), (''scope_id'', JStr (me_scope_id created)),
                  (''related'', JList (map JStr related)), (''verified'', JBool (me_verified created))])
               (eff_return created)) s)"
    by (auto simp: keeps_def Let_def split: prod.split bool.split sum.split)
qed

lemma revised_backed:
  assumes "revised f now m content confidence importance = Inr (m', h)" "backed f R m"
  shows "backed f R m'"
proof (cases "content \<noteq> None \<or> confidence \<noteq> None \<or> importance \<noteq> None")
  case True
  with assms(1) obtain m3 where
    "m' = (invalidate f now m3)\<lparr>me_metadata := dict_set ''history'' (JList h) (me_metadata (invalidate f now m3))\<rparr>"
    by (auto simp: revised_def bind_result_Inr_iff Let_def)
  then show ?thesis by (simp add: backed_invalidate)
next
  case False
  with assms show ?thesis by (auto simp: revised_def bind_result_Inr_iff Let_def set_unit_def)
qed

lemma update_memory_keeps: "keeps (mem_inv f R) (update_memory f now i content confidence importance)"
  unfolding keeps_def
proof (intro allI impI)
  fix s assume I: "mem_inv f R s"
  have emit: "keeps (mem_inv f R) (eff_then (mem_emit f ty pl) (eff_return (x :: memory)))" for ty pl x
    by (intro keeps_intros)
  have "mem_inv f R (mem_update now m' s)"
    if "tbl_get i (mm_table s) = Some m" "revised f now m content confidence importance = Inr (m', h)" for m m' h
    using that revised_backed [OF that(2)] I by (intro mem_inv_update) (auto simp: mem_inv_def)
  with I show "mem_inv f R (snd (update_memory f now i content confidence importance s))"
    by (auto simp: update_memory_def intro!: keepsD [OF emit] split: option.split sum.split)
qed

lemma archive_memory_keeps: "keeps (mem_inv f R) (archive_memory f now i)"
  unfolding keeps_def
proof (intro allI impI)
  fix s assume I: "mem_inv f R s"
  have emit: "keeps (mem_inv f R) (eff_then (mem_emit f ty pl) (eff_return (x :: memory)))" for ty pl x
    by (intro keeps_intros)
  have "mem_inv f R (mem_update now (m\<lparr>me_status := ME_ARCHIVED\<rparr>) s)" if "tbl_get i (mm_table s) = Some m" for m
    using that I by (intro mem_inv_update) (auto simp: mem_inv_def)
  with I show "mem_inv f R (snd (archive_memory f now i s))"
    by (auto simp: archive_memory_def Let_def intro!: keepsD [OF emit] split: option.split)
qed

lemma delete_memory_keeps: "keeps (mem_inv f R) (delete_memory g i)"
  unfolding keeps_def
proof (intro allI impI)
  fix s assume I: "mem_inv f R s"
  have emit: "keeps (mem_inv f R) (eff_then (mem_emit g ty pl) (eff_return True))" for ty pl
    by (intro keeps_intros)
  have "mem_inv f R (s\<lparr>mm_table := dict_del i (mm_table s)\<rparr>)"
    using I wf_table_dict_del [of "mm_table s" i] by (auto simp: mem_inv_def tbl_get_def)
  with I show "mem_inv f R (snd (delete_memory g i s))"
    by (auto simp: delete_memory_def tbl_delete_def Let_def intro: keepsD [OF emit])
qed

lemma purge_keeps: "keeps (mem_inv f R) (purge_rows g moment ms)"
proof (induction ms)
  case Nil
  then show ?case by (simp add: keeps_def)
next
  case (Cons m ms)
  then show ?case by (simp only: purge_rows.simps) (intro keeps_intros delete_memory_keeps)
qed

lemma mem_emit_Inr: "mem_emit f ty pl s = (Inr (), snd (mem_emit f ty pl s))"
  by (simp add: mem_emit_def)

lemma mem_then_emit: "eff_then (mem_emit f ty pl) n s = n (snd (mem_emit f ty pl s))"
  by (subst eff_then_def, subst eff_bind_def, subst mem_emit_Inr) simp

lemma mem_emit_table [simp]: "mm_table (snd (mem_emit f ty pl s)) = mm_table s"
  by (simp add: mem_emit_def)

lemma propose_Inr:
  "propose f ca s = (Inr u, s') \<Longrightarrow> mm_table s' = mm_table s \<and> u = ca \<and> strip_str (ca_content ca) \<noteq> []
     \<and> \<not> outside_unit (ca_confidence ca) \<and> \<not> outside_unit (ca_importance ca)"
  by (auto simp: propose_def mem_then_emit split: if_splits)

lemma store_with_Inr:
  assumes "store_with f now i ca rc s = (Inr m, s')"
  shows "\<exists>m0 related. new_memory f now i ca rc related = Inr m0 \<and> m = touch now m0 \<and> fst (evaluate_candidate f ca)
    \<and> related = map ent_id (find_conflicts f ca 5 s) \<and> tbl_get i (mm_table s) = None
    \<and> mm_table s' = dict_set i m (mm_table s) \<and> ent_id m = i"
proof -
  from assms obtain u s1 where p: "propose f ca s = (Inr u, s1)"
    and r: "(case evaluate_candidate f ca of
         (False, reason) \<Rightarrow> eff_raise (DomainValidationError (''candidate rejected: '' @ reason)) s1
       | (True, _) \<Rightarrow>
           let related = map ent_id (find_conflicts f ca 5 s1) in
           case new_memory f now i ca rc related of
             Inl e \<Rightarrow> eff_raise e s1
           | Inr m \<Rightarrow> eff_bind (mem_create now m) (\<lambda>created.
               eff_then (mem_emit f ''MemoryCreated''
                 [(''memory_id'', JStr (ent_id created)), (''type'', JStr (type_value (me_type created))),
                  (''scope'', JStr (scope_value (me_scope created))), (''scope_id'', JStr (me_scope_id created)),
                  (''related'', JList (map JStr related)), (''verified'', JBool (me_verified created))])
               (eff_return created)) s1) = (Inr m, s')"
    by (auto simp: store_with_def eff_then_def eff_bind_Inr)
  note t = propose_Inr [OF p]
  have fc: "find_conflicts f ca 5 s1 = find_conflicts f ca 5 s" using t by (simp add: find_conflicts_def)
  from r obtain m0 where m0: "fst (evaluate_candidate f ca)"
    "new_memory f now i ca rc (map ent_id (find_conflicts f ca 5 s)) = Inr m0"
    "eff_bind (mem_create now m0) (\<lambda>created. eff_then (mem_emit f ''MemoryCreated''
                 [(''memory_id'', JStr (ent_id created)), (''type'', JStr (type_value (me_type created))),
                  (''scope'', JStr (scope_value (me_scope created))), (''scope_id'', JStr (me_scope_id created)),
                  (''related'', JList (map JStr (map ent_id (find_conflicts f ca 5 s)))),
                  (''verified'', JBool (me_verified created))])
               (eff_return created)) s1 = (Inr m, s')"
    by (auto simp: Let_def fc split: prod.splits bool.splits sum.splits)
  then have i: "ent_id m0 = i" by (auto simp: new_memory_def bind_result_Inr_iff)
  obtain z s2 where z: "mem_create now m0 s1 = (z, s2)" by fastforce
  from m0(3) z obtain m1 where "z = Inr m1" "m = m1" "mm_table s' = mm_table s2"
    by (cases z) (auto simp: eff_bind_def mem_then_emit)
  with z t i have "m = touch now m0 \<and> tbl_get i (mm_table s) = None \<and> mm_table s' = dict_set i m (mm_table s)"
    by (auto simp: mem_create_def store_simps split: sum.splits)
  with m0 i show ?thesis by (auto simp: touch_def)
qed

lemma apply_consolidation_keeps: "keeps (mem_inv f R) (apply_consolidation f now i cs)"
  unfolding keeps_def
proof (intro allI impI)
  fix s assume I: "mem_inv f R s"
  show "mem_inv f R (snd (apply_consolidation f now i cs s))"
  proof (cases "propose_consolidation (cs_archive cs) (cs_candidate cs) (cs_reason cs) s")
    case (Inl e)
    with I show ?thesis by (simp add: apply_consolidation_def)
  next
    case (Inr fresh)
    obtain z s1 where z: "store f now i (cs_candidate fresh) s = (z, s1)" by fastforce
    have I1: "mem_inv f R s1"
      using keeps_run [OF store_with_keeps [of None] I z [unfolded store_def]] by simp
    show ?thesis
    proof (cases z)
      case (Inl e)
      with Inr z I1 show ?thesis by (simp add: apply_consolidation_def eff_bind_def)
    next
      case (Inr created)
      from store_with_Inr [of f now i "cs_candidate fresh" None s created s1] z Inr
      obtain m0 related where "new_memory f now i (cs_candidate fresh) None related = Inr m0" "created = touch now m0"
        by (auto simp: store_def)
      then have "backed f R created" using new_memory_backed [of f now i "cs_candidate fresh" None related m0 R] by simp
      then have "mem_inv f R (mem_update now (created\<lparr>me_metadata := dict_set ''consolidates''
          (JList (map JStr (cs_archive fresh))) (me_metadata created)\<rparr>) s1)"
        by (intro mem_inv_update I1) simp
      moreover have "keeps (mem_inv f R) (eff_bind (eff_each (archive_memory f now) (cs_archive fresh))
          (\<lambda>_. eff_return (x :: memory)))" for x
        by (intro keeps_bind keeps_each archive_memory_keeps keeps_return)
      ultimately show ?thesis
        using \<open>propose_consolidation _ _ _ s = Inr fresh\<close> z Inr
        by (simp add: apply_consolidation_def eff_bind_ok [where m = "store f now i (cs_candidate fresh)" and s = s, OF z [unfolded Inr]] Let_def keepsD)
    qed
  qed
qed

subsection \<open>Properties\<close>

datatype mem_action =
    Store real string candidate
  | Store_Verified real string candidate receipt
  | Update real string "string option" "real option" "real option"
  | Archive real string
  | Delete string
  | Consolidate real string consolidation
  | Purge real

fun mem_act :: "mem_cfg \<Rightarrow> mem_action \<Rightarrow> mem_store \<Rightarrow> mem_store" where
  "mem_act f (Store now i ca) s = snd (store f now i ca s)"
| "mem_act f (Store_Verified now i ca rc) s = snd (store_verified f now i ca rc s)"
| "mem_act f (Update now i t co im) s = snd (update_memory f now i t co im s)"
| "mem_act f (Archive now i) s = snd (archive_memory f now i s)"
| "mem_act f (Delete i) s = snd (delete_memory f i s)"
| "mem_act f (Consolidate now i cs) s = snd (apply_consolidation f now i cs s)"
| "mem_act f (Purge moment) s = snd (purge_expired f moment s)"

definition run_mem :: "mem_cfg \<Rightarrow> mem_action list \<Rightarrow> mem_store \<Rightarrow> mem_store" where
  "run_mem f acts s = fold (mem_act f) acts s"

definition new_mem_store :: mem_store where
  "new_mem_store = \<lparr>mm_table = [], mm_events = []\<rparr>"

definition given_receipts :: "mem_cfg \<Rightarrow> mem_action list \<Rightarrow> receipt set" where
  "given_receipts f acts = {rc. \<exists>now i ca. Store_Verified now i ca rc \<in> set acts \<and> receipt_valid f ca rc}"

lemma mem_act_inv:
  assumes "mem_inv f R s" "\<And>now i ca rc. a = Store_Verified now i ca rc \<Longrightarrow> receipt_valid f ca rc \<Longrightarrow> rc \<in> R"
  shows "mem_inv f R (mem_act f a s)"
proof (cases a)
  case (Store_Verified now i ca rc)
  show ?thesis
  proof (cases "receipt_valid f ca rc")
    case True
    with assms(2) [OF Store_Verified] have "keeps (mem_inv f R) (store_with f now i ca (Some rc))"
      by (intro store_with_keeps) auto
    with True Store_Verified assms(1) show ?thesis by (simp add: store_verified_def keepsD)
  qed (use Store_Verified assms(1) in \<open>simp add: store_verified_def\<close>)
qed (use assms(1) in \<open>auto simp: store_def purge_expired_def intro!: keepsD [OF store_with_keeps]
      keepsD [OF update_memory_keeps] keepsD [OF archive_memory_keeps] keepsD [OF delete_memory_keeps]
      keepsD [OF apply_consolidation_keeps] keepsD [OF purge_keeps]\<close>)

lemma mem_inv_run:
  assumes "mem_inv f R s"
    and "\<And>now i ca rc. Store_Verified now i ca rc \<in> set acts \<Longrightarrow> receipt_valid f ca rc \<Longrightarrow> rc \<in> R"
  shows "mem_inv f R (run_mem f acts s)"
  using assms unfolding run_mem_def
proof (induction acts arbitrary: s)
  case (Cons a acts)
  have "mem_inv f R (mem_act f a s)" using Cons.prems by (intro mem_act_inv) auto
  then have "mem_inv f R (fold (mem_act f) acts (mem_act f a s))" using Cons.prems(2) by (intro Cons.IH) auto
  then show ?case by simp
qed simp

text \<open>
  C14: A verified memory says what its receipt was given for. After any sequence of the store's
  operations, with whatever candidates, receipts, updates and consolidations, a memory is verified
  exactly when its metadata holds a receipt; that receipt was handed to \<open>store_verified\<close> in the
  sequence - no candidate's own metadata can put one there - and names the hash of the content,
  type, source, confidence, importance and scope that the memory has now.
\<close>

theorem verified_memories_match_their_receipt:
  assumes "tbl_get i (mm_table (run_mem f acts new_mem_store)) = Some m"
  shows "(me_verified m \<longleftrightarrow> map_of (me_metadata m) ''verification_receipt'' \<noteq> None)
    \<and> (me_verified m \<longrightarrow> (\<exists>rc now j ca. Store_Verified now j ca rc \<in> set acts \<and> receipt_valid f ca rc
         \<and> map_of (me_metadata m) ''verification_receipt'' = Some (receipt_json f rc)
         \<and> vc_hash rc = memory_hash f m))"
proof -
  have "mem_inv f (given_receipts f acts) new_mem_store"
    by (simp add: mem_inv_def new_mem_store_def wf_table_def tbl_get_def)
  then have "mem_inv f (given_receipts f acts) (run_mem f acts new_mem_store)"
    by (rule mem_inv_run) (auto simp: given_receipts_def)
  then have "backed f (given_receipts f acts) m" using assms by (simp add: mem_inv_def)
  then show ?thesis
    by (auto simp: backed_def given_receipts_def split: option.splits)
qed

text \<open>
  A receipt binds its candidate. When the verifier minted a receipt for one candidate and
  \<open>store_verified\<close> accepts it for another, the two agree in content, type, source, scope and scope
  id and in the written confidence and importance, or two different texts with one SHA-256 value
  have been found; and the verifier was named, and the evidence given.
\<close>

theorem receipt_binds_candidate:
  assumes minted: "verify_candidate f t ca evidence verifier how = Inr rc"
    and stored: "store_verified f now i ca' rc s = (Inr m, s')"
    and floats: "\<And>x. float_text (mf_float f x)" and sha: "inj (mf_sha f)"
  shows "ca_content ca' = ca_content ca \<and> ca_type ca' = ca_type ca \<and> ca_source ca' = ca_source ca
    \<and> ca_scope ca' = ca_scope ca \<and> ca_scope_id ca' = ca_scope_id ca
    \<and> mf_float f (ca_confidence ca') = mf_float f (ca_confidence ca)
    \<and> mf_float f (ca_importance ca') = mf_float f (ca_importance ca)
    \<and> evidence \<noteq> [] \<and> strip_str verifier \<noteq> []"
proof -
  have "receipt_valid f ca' rc" using stored by (auto simp: store_verified_def split: if_splits)
  moreover have "vc_hash rc = candidate_hash f ca" "evidence \<noteq> []" "strip_str verifier \<noteq> []"
    using minted by (auto simp: verify_candidate_def split: if_splits)
  ultimately have "candidate_hash f ca' = candidate_hash f ca" by (simp add: receipt_valid_def)
  moreover have "type_value a = type_value b \<Longrightarrow> a = b" for a b by (cases a; cases b) simp_all
  moreover have "scope_value a = scope_value b \<Longrightarrow> a = b" for a b by (cases a; cases b) simp_all
  ultimately show ?thesis
    using \<open>evidence \<noteq> []\<close> \<open>strip_str verifier \<noteq> []\<close> floats
    by (auto simp: candidate_hash_def content_hash_def inj_eq [OF sha] canonical_inj sort_json_JObj)
qed

text \<open>
  Retrieval is scoped and bounded. Every memory \<open>retrieve\<close> returns is stored, not deleted,
  archived only on request, not expired, of the type asked for, and global, of exactly the scope
  asked for, or of the project asked for; there are at most \<open>limit\<close> of them, each once, in the
  order of their scores.
\<close>

theorem retrieval_is_scoped:
  assumes "wf_table (mm_table s)"
  shows "list_all (\<lambda>m. tbl_get (ent_id m) (mm_table s) = Some m \<and> me_status m \<noteq> ME_DELETED
      \<and> (me_status m = ME_ARCHIVED \<longrightarrow> rt_archived q) \<and> \<not> expired now m
      \<and> (rt_type q = None \<or> rt_type q = Some (me_type m))
      \<and> (me_scope m = SC_GLOBAL \<or> me_scope m = rt_scope q \<and> me_scope_id m = rt_scope_id q
         \<or> me_scope m = SC_PROJECT \<and> me_scope_id m = rt_project q)) (retrieve f now q s)
    \<and> length (retrieve f now q s) \<le> nat (rt_limit q) \<and> distinct (map ent_id (retrieve f now q s))
    \<and> sorted (map (\<lambda>m. - score f now (memory_keywords (rt_query q)) m) (retrieve f now q s))"
proof -
  let ?w = "memory_keywords (rt_query q)"
  let ?f = "filter (retrievable now q ?w) (tbl_list (mm_table s))"
  let ?s = "sort_key (\<lambda>m. - score f now ?w m) (sort_key (\<lambda>m. mf_iso f (ent_created m)) (sort_key ent_id ?f))"
  have r: "retrieve f now q s = take (nat (rt_limit q)) ?s" by (simp add: retrieve_def Let_def)
  have "x \<in> set ?f" if "x \<in> set (retrieve f now q s)" for x
    using that by (auto simp: r dest: in_set_takeD)
  then have "list_all (\<lambda>m. tbl_get (ent_id m) (mm_table s) = Some m \<and> retrievable now q ?w m) (retrieve f now q s)"
    by (auto simp: list_all_iff set_tbl_list [OF assms])
  then have "list_all (\<lambda>m. tbl_get (ent_id m) (mm_table s) = Some m \<and> me_status m \<noteq> ME_DELETED
      \<and> (me_status m = ME_ARCHIVED \<longrightarrow> rt_archived q) \<and> \<not> expired now m
      \<and> (rt_type q = None \<or> rt_type q = Some (me_type m))
      \<and> (me_scope m = SC_GLOBAL \<or> me_scope m = rt_scope q \<and> me_scope_id m = rt_scope_id q
         \<or> me_scope m = SC_PROJECT \<and> me_scope_id m = rt_project q)) (retrieve f now q s)"
    by (rule list.pred_mono_strong) (auto simp: retrievable_def visible_def split: option.splits)
  moreover have "length (retrieve f now q s) \<le> nat (rt_limit q)" by (simp add: r)
  moreover have "distinct (map ent_id (retrieve f now q s))"
  proof -
    have "distinct (map ent_id ?f)" using distinct_tbl_list [OF assms] by (rule distinct_map_filter)
    moreover have "mset (map ent_id ?s) = mset (map ent_id ?f)" by simp
    ultimately have "distinct (map ent_id ?s)" by (metis mset_eq_imp_distinct_iff)
    then show ?thesis unfolding r by (metis distinct_take take_map)
  qed
  moreover have "sorted (map (\<lambda>m. - score f now ?w m) (retrieve f now q s))"
    unfolding r by (metis sorted_sort_key sorted_wrt_take take_map)
  ultimately show ?thesis by (intro conjI)
qed

text \<open>
  An update keeps what it replaces and loses the verification. When \<open>update\<close> succeeds, the
  stored memory's history is the earlier one with the earlier content, confidence, importance and
  verification at its end, its confidence and importance are within the unit interval where they
  were given, and the memory is unverified if anything was given; no other memory changes.
\<close>

theorem update_keeps_history:
  assumes old: "tbl_get i (mm_table s) = Some m" and wf: "wf_table (mm_table s)"
    and upd: "update_memory f now i content confidence importance s = (Inr m', s')"
  shows "tbl_get i (mm_table s') = Some m'
    \<and> (\<exists>h. history_of m = Inr h \<and> map_of (me_metadata m') ''history'' = Some (JList (h @ [history_entry f m])))
    \<and> (content = None \<and> confidence = None \<and> importance = None \<or> \<not> me_verified m')
    \<and> me_content m' = (case content of None \<Rightarrow> me_content m | Some t \<Rightarrow> t)
    \<and> me_confidence m' = (case confidence of None \<Rightarrow> me_confidence m | Some x \<Rightarrow> x)
    \<and> (\<forall>j. j \<noteq> i \<longrightarrow> tbl_get j (mm_table s') = tbl_get j (mm_table s))"
proof -
  have id: "ent_id m = i" using wf old wf_table_get by (auto simp: tbl_get_def)
  from upd old obtain m0 h where r: "revised f now m content confidence importance = Inr (m0, h)"
    and m': "m' = touch now m0" and s': "mm_table s' = mm_table (mem_update now m0 s)"
    by (auto simp: update_memory_def mem_then_emit split: sum.splits)
  from r obtain h0 m1 m2 m3 where h: "history_of m = Inr h0" "h = h0 @ [history_entry f m]"
    and m0: "m0 = (let m4 = (if content \<noteq> None \<or> confidence \<noteq> None \<or> importance \<noteq> None then invalidate f now m3 else m3)
      in m4\<lparr>me_metadata := dict_set ''history'' (JList h) (me_metadata m4)\<rparr>)"
    and "(case content of None \<Rightarrow> Inr m
        | Some t \<Rightarrow> if strip_str t = [] then Inl (DomainValidationError ''memory content must not be empty'')
                   else Inr (m\<lparr>me_content := t\<rparr>)) = Inr m1"
    and "set_unit f ''confidence'' (\<lambda>x m. m\<lparr>me_confidence := x\<rparr>) confidence m1 = Inr m2"
    and "set_unit f ''importance'' (\<lambda>x m. m\<lparr>me_importance := x\<rparr>) importance m2 = Inr m3"
    unfolding revised_def bind_result_Inr_iff Let_def by blast
  then have m3: "ent_id m3 = ent_id m" "me_content m3 = (case content of None \<Rightarrow> me_content m | Some t \<Rightarrow> t)"
      "me_confidence m3 = (case confidence of None \<Rightarrow> me_confidence m | Some x \<Rightarrow> x)"
    by (auto simp: set_unit_def split: option.splits if_splits)
  have "ent_id m0 = i" using m0 m3 id by (simp add: Let_def invalidate_def)
  then have "tbl_get j (mm_table s') = (if j = i then Some m' else tbl_get j (mm_table s))" for j
    by (simp add: s' mem_update_def tbl_put_def store_simps tbl_get_def m')
  then show ?thesis using h m0 m3 by (simp add: m' touch_def Let_def invalidate_def split: option.split)
qed

subsection \<open>Retention and consolidation\<close>

lemma delete_memory_effect:
  "\<exists>s'. delete_memory f i s = (Inr (tbl_get i (mm_table s) \<noteq> None), s')
     \<and> (\<forall>j. tbl_get j (mm_table s') = (if j = i then None else tbl_get j (mm_table s)))"
  by (auto simp: delete_memory_def tbl_delete_def Let_def mem_then_emit tbl_get_def
      map_of_None_keys)

definition purge_due :: "real \<Rightarrow> memory \<Rightarrow> bool" where
  "purge_due moment m \<longleftrightarrow> expired moment m \<or> past_retention moment m"

lemma purge_rows_effect:
  "\<exists>ids s'. purge_rows f moment ms s = (Inr ids, s')
     \<and> (\<forall>i. tbl_get i (mm_table s') = (if \<exists>m \<in> set ms. ent_id m = i \<and> purge_due moment m then None else tbl_get i (mm_table s)))
     \<and> set ids = {i. tbl_get i (mm_table s) \<noteq> None \<and> (\<exists>m \<in> set ms. ent_id m = i \<and> purge_due moment m)}"
proof (induction ms arbitrary: s)
  case Nil
  then show ?case by simp
next
  case (Cons m ms)
  show ?case
  proof (cases "purge_due moment m")
    case False
    then show ?thesis using Cons.IH [of s] by (auto simp: purge_due_def)
  next
    case True
    obtain s1 where d: "delete_memory f (ent_id m) s = (Inr (tbl_get (ent_id m) (mm_table s) \<noteq> None), s1)"
      "\<And>j. tbl_get j (mm_table s1) = (if j = ent_id m then None else tbl_get j (mm_table s))"
      using delete_memory_effect [of f "ent_id m" s] by blast
    obtain ids s' where r: "purge_rows f moment ms s1 = (Inr ids, s')"
      "\<And>i. tbl_get i (mm_table s') = (if \<exists>m \<in> set ms. ent_id m = i \<and> purge_due moment m then None else tbl_get i (mm_table s1))"
      "set ids = {i. tbl_get i (mm_table s1) \<noteq> None \<and> (\<exists>m \<in> set ms. ent_id m = i \<and> purge_due moment m)}"
      using Cons.IH [of s1] by blast
    have "purge_rows f moment (m # ms) s
        = (Inr (if tbl_get (ent_id m) (mm_table s) \<noteq> None then ent_id m # ids else ids), s')"
      using True d(1) r(1) by (simp add: purge_due_def eff_bind_def)
    with True d(2) r(2,3) show ?thesis by auto
  qed
qed

text \<open>
  The purge removes exactly what is due. \<open>purge_expired\<close> always returns; afterwards exactly the
  memories whose expiry has come or whose retention has run out are gone, all others are
  unchanged, and the identifiers it returns are those of the removed ones.
\<close>

theorem purge_is_exact:
  assumes "wf_table (mm_table s)"
  shows "\<exists>ids s'. purge_expired f moment s = (Inr ids, s')
    \<and> (\<forall>i. tbl_get i (mm_table s') = (case tbl_get i (mm_table s) of
             None \<Rightarrow> None | Some m \<Rightarrow> if expired moment m \<or> past_retention moment m then None else Some m))
    \<and> set ids = {i. tbl_get i (mm_table s) \<noteq> None \<and> tbl_get i (mm_table s') = None}"
proof -
  let ?ms = "tbl_list (mm_table s)"
  obtain ids s' where r: "purge_rows f moment ?ms s = (Inr ids, s')"
    "\<And>i. tbl_get i (mm_table s') = (if \<exists>m \<in> set ?ms. ent_id m = i \<and> purge_due moment m then None else tbl_get i (mm_table s))"
    "set ids = {i. tbl_get i (mm_table s) \<noteq> None \<and> (\<exists>m \<in> set ?ms. ent_id m = i \<and> purge_due moment m)}"
    using purge_rows_effect [of f moment ?ms s] by blast
  have eq: "(\<exists>m \<in> set ?ms. ent_id m = i \<and> purge_due moment m)
      \<longleftrightarrow> (\<exists>m. tbl_get i (mm_table s) = Some m \<and> purge_due moment m)" for i
  proof
    assume "\<exists>m \<in> set ?ms. ent_id m = i \<and> purge_due moment m"
    then show "\<exists>m. tbl_get i (mm_table s) = Some m \<and> purge_due moment m" using set_tbl_list [OF assms] by blast
  next
    assume "\<exists>m. tbl_get i (mm_table s) = Some m \<and> purge_due moment m"
    then obtain m where m: "tbl_get i (mm_table s) = Some m" "purge_due moment m" by blast
    then have "ent_id m = i" using wf_table_get [OF assms, of i m] by (simp add: tbl_get_def)
    with m set_tbl_list [OF assms, of m] show "\<exists>m \<in> set ?ms. ent_id m = i \<and> purge_due moment m" by blast
  qed
  have g: "tbl_get i (mm_table s') = (case tbl_get i (mm_table s) of
             None \<Rightarrow> None | Some m \<Rightarrow> if expired moment m \<or> past_retention moment m then None else Some m)" for i
    unfolding r(2) [of i] eq by (cases "tbl_get i (mm_table s)") (simp_all add: purge_due_def)
  have "set ids = {i. tbl_get i (mm_table s) \<noteq> None \<and> tbl_get i (mm_table s') = None}"
    unfolding r(3) eq g by (auto simp: purge_due_def split: option.splits if_splits)
  with r(1) g show ?thesis by (auto simp: purge_expired_def)
qed

definition archived :: "real \<Rightarrow> memory \<Rightarrow> memory" where
  "archived now m = touch now (m\<lparr>me_status := ME_ARCHIVED\<rparr>)"

lemma archived_twice [simp]: "archived now (archived now m) = archived now m"
  by (simp add: archived_def touch_def)

lemma archived_id [simp]: "ent_id (archived now m) = ent_id m"
  by (simp add: archived_def touch_def)

lemma archive_memory_Inr:
  assumes "archive_memory f now i s = (Inr m', s')" "wf_table (mm_table s)"
  shows "\<exists>m. tbl_get i (mm_table s) = Some m \<and> m' = archived now m \<and> mm_table s' = dict_set i m' (mm_table s)"
proof -
  from assms(1) obtain m where m: "tbl_get i (mm_table s) = Some m" "m' = archived now m"
    "mm_table s' = mm_table (mem_update now (m\<lparr>me_status := ME_ARCHIVED\<rparr>) s)"
    by (auto simp: archive_memory_def Let_def mem_then_emit archived_def split: option.splits)
  moreover have "ent_id m = i" using wf_table_get [OF assms(2), of i m] m(1) by (simp add: tbl_get_def)
  ultimately show ?thesis by (simp add: mem_update_def tbl_put_def store_simps archived_def)
qed

lemma archive_each_effect:
  assumes "eff_each (archive_memory f now) ids s = (Inr ms, s')" "wf_table (mm_table s)"
  shows "tbl_get j (mm_table s')
    = (if j \<in> set ids then map_option (archived now) (tbl_get j (mm_table s)) else tbl_get j (mm_table s))"
  using assms
proof (induction ids arbitrary: s ms)
  case (Cons i ids)
  then obtain m1 s1 ms1 where a: "archive_memory f now i s = (Inr m1, s1)"
    and e: "eff_each (archive_memory f now) ids s1 = (Inr ms1, s')"
    by (auto simp: eff_bind_Inr)
  from archive_memory_Inr [OF a Cons.prems(2)] obtain m where
    m: "tbl_get i (mm_table s) = Some m" "m1 = archived now m" "mm_table s1 = dict_set i m1 (mm_table s)" by blast
  have id: "ent_id m1 = i" using wf_table_get [OF Cons.prems(2), of i m] m by (simp add: tbl_get_def archived_def touch_def)
  have "wf_table (mm_table s1)" using wf_table_dict_set [OF Cons.prems(2), of m1] m(3) id by simp
  from Cons.IH [OF e this] m show ?case by (auto simp: tbl_get_def)
qed simp

text \<open>
  Consolidation rewrites no history. When \<open>apply_consolidation\<close> succeeds, every one of its sources
  was active and is still stored, archived and otherwise as it was; the new memory is stored, in
  the scope of every source, and is not verified, whatever the candidate's metadata claims; and no
  other memory changes.
\<close>

theorem consolidation_keeps_sources:
  assumes wf: "wf_table (mm_table s)" and run: "apply_consolidation f now i cs s = (Inr m, s')"
  shows "tbl_get i (mm_table s') = Some m \<and> \<not> me_verified m \<and> tbl_get i (mm_table s) = None
    \<and> (\<forall>j. j \<in> set (cs_archive cs) \<longrightarrow> (\<exists>old. tbl_get j (mm_table s) = Some old \<and> me_status old = ME_ACTIVE
          \<and> me_scope m = me_scope old \<and> me_scope_id m = me_scope_id old
          \<and> tbl_get j (mm_table s') = Some (archived now old)))
    \<and> (\<forall>j. j \<notin> set (cs_archive cs) \<and> j \<noteq> i \<longrightarrow> tbl_get j (mm_table s') = tbl_get j (mm_table s))"
proof -
  from run obtain fresh where fresh: "propose_consolidation (cs_archive cs) (cs_candidate cs) (cs_reason cs) s = Inr fresh"
    by (auto simp: apply_consolidation_def split: sum.splits)
  then obtain olds where olds: "consolidation_sources s (cs_archive cs) = Inr olds"
    "length (remdups (map (\<lambda>m. (me_scope m, me_scope_id m)) olds)) = 1"
    "(ca_scope (cs_candidate cs), ca_scope_id (cs_candidate cs)) = hd (remdups (map (\<lambda>m. (me_scope m, me_scope_id m)) olds))"
    and f': "fresh = \<lparr>cs_candidate = cs_candidate cs, cs_archive = cs_archive cs, cs_reason = cs_reason cs\<rparr>"
    by (auto simp: propose_consolidation_def bind_result_Inr_iff Let_def split: if_splits)
  have src: "consolidation_sources s is = Inr ms \<Longrightarrow> j \<in> set is \<Longrightarrow>
      \<exists>old \<in> set ms. tbl_get j (mm_table s) = Some old \<and> me_status old = ME_ACTIVE" for "is" ms j
    by (induction "is" arbitrary: ms) (auto simp: bind_result_Inr_iff split: option.splits if_splits)
  have same: "(me_scope old, me_scope_id old) = (ca_scope (cs_candidate cs), ca_scope_id (cs_candidate cs))"
    if "old \<in> set olds" for old
  proof -
    from olds(2) obtain x where x: "remdups (map (\<lambda>m. (me_scope m, me_scope_id m)) olds) = [x]"
      by (metis One_nat_def Suc_length_conv length_0_conv)
    have "(me_scope old, me_scope_id old) \<in> set (remdups (map (\<lambda>m. (me_scope m, me_scope_id m)) olds))"
      using that by simp
    then show ?thesis using olds(3) unfolding x by simp
  qed
  from run fresh f' obtain created s1 ms where st: "store f now i (cs_candidate cs) s = (Inr created, s1)"
    and m: "m = touch now (created\<lparr>me_metadata := dict_set ''consolidates'' (JList (map JStr (cs_archive cs)))
        (me_metadata created)\<rparr>)"
    and each: "eff_each (archive_memory f now) (cs_archive cs)
        (mem_update now (created\<lparr>me_metadata := dict_set ''consolidates'' (JList (map JStr (cs_archive cs)))
          (me_metadata created)\<rparr>) s1) = (Inr ms, s')" (is "eff_each _ _ ?s2 = _")
    by (auto simp: apply_consolidation_def eff_bind_Inr Let_def)
  from store_with_Inr [OF st [unfolded store_def]] obtain m0 related where
    m0: "new_memory f now i (cs_candidate cs) None related = Inr m0" "created = touch now m0"
    and none: "tbl_get i (mm_table s) = None" and t1: "mm_table s1 = dict_set i created (mm_table s)"
    and ci: "ent_id created = i" by blast
  have t2: "mm_table ?s2 = dict_set i m (dict_set i created (mm_table s))"
    using t1 ci m by (simp add: mem_update_def tbl_put_def store_simps touch_def)
  have mi: "ent_id m = i" using m ci by (simp add: touch_def)
  have wf2: "wf_table (mm_table ?s2)"
    using wf_table_dict_set [OF wf_table_dict_set [OF wf, of created], of m] ci mi t2 by simp
  note eff = archive_each_effect [OF each wf2]
  have new: "\<not> me_verified m" "me_scope m = ca_scope (cs_candidate cs)" "me_scope_id m = ca_scope_id (cs_candidate cs)"
    using m0 m by (auto simp: new_memory_def bind_result_Inr_iff touch_def)
  have i: "i \<notin> set (cs_archive cs)" using src [OF olds(1)] none by fastforce
  have "tbl_get j (mm_table ?s2) = (if j = i then Some m else tbl_get j (mm_table s))" for j
    unfolding t2 by (simp add: tbl_get_def)
  with eff have fin: "tbl_get j (mm_table s') = (if j = i then Some m else if j \<in> set (cs_archive cs)
      then map_option (archived now) (tbl_get j (mm_table s)) else tbl_get j (mm_table s))" for j
    using i by auto
  have "\<exists>old. tbl_get j (mm_table s) = Some old \<and> me_status old = ME_ACTIVE
          \<and> me_scope m = me_scope old \<and> me_scope_id m = me_scope_id old
          \<and> tbl_get j (mm_table s') = Some (archived now old)" if "j \<in> set (cs_archive cs)" for j
    using src [OF olds(1) that] same fin [of j] i that new by fastforce
  with fin none new i show ?thesis by simp
qed

subsection \<open>Examples\<close>

definition demo_mem :: mem_cfg where
  "demo_mem = \<lparr>mf_bus = True, mf_threshold = 0, mf_sha = id, mf_float = (\<lambda>_. ''1.0''), mf_fixed2 = (\<lambda>_. ''1.00''),
     mf_iso = (\<lambda>_. ''now''), mf_round3 = (\<lambda>x. x), mf_as_int = (\<lambda>_. Inr 0), mf_as_time = (\<lambda>_. Inr 5)\<rparr>"

text \<open>The candidate claims a verification of its own.\<close>

definition fact :: "string \<Rightarrow> candidate" where
  "fact t = \<lparr>ent_id = ''c'', ent_created = 0, ent_updated = 0, ca_content = t, ca_type = SEMANTIC,
     ca_source = ''user'', ca_confidence = 1, ca_importance = 1, ca_scope = SC_PROJECT, ca_scope_id = ''p'',
     ca_reason = [], ca_metadata = [(''verified'', JBool True), (''verification_receipt'', JNull)]\<rparr>"

definition fact_receipt :: receipt where
  "fact_receipt = \<lparr>vc_hash = candidate_hash demo_mem (fact ''tea''), vc_evidence = [''e1''], vc_verifier = ''human'',
     vc_method = ''review'', vc_at = 0, vc_version = ''1''\<rparr>"

definition three_facts :: "mem_action list" where
  "three_facts = [Store_Verified 1 ''m1'' (fact ''tea'') fact_receipt, Store 2 ''m2'' (fact ''milk''),
     Store 3 ''m3'' (fact ''sugar'')]"

lemma three_facts_wf: "wf_table (mm_table (run_mem demo_mem three_facts new_mem_store))"
  by code_simp

lemma verified_memories_match_their_receipt_witness:
  "\<exists>m. tbl_get ''m1'' (mm_table (run_mem demo_mem three_facts new_mem_store)) = Some m \<and> me_verified m
     \<and> (\<exists>rc :: receipt. vc_hash rc = memory_hash demo_mem m)"
proof -
  have v: "map_option me_verified (tbl_get ''m1'' (mm_table (run_mem demo_mem three_facts new_mem_store))) = Some True"
    by code_simp
  then obtain m where m: "tbl_get ''m1'' (mm_table (run_mem demo_mem three_facts new_mem_store)) = Some m" "me_verified m"
    by auto
  from verified_memories_match_their_receipt [OF m(1)] m show ?thesis by blast
qed

lemma receipt_binds_candidate_witness: "ca_content (fact ''tea'') = ''tea'' \<and> vc_evidence fact_receipt \<noteq> []"
proof -
  have minted: "verify_candidate demo_mem 0 (fact ''tea'') [''e1''] ''human'' ''review'' = Inr fact_receipt"
    by (simp add: verify_candidate_def fact_receipt_def strip_str_Nil_iff is_space_char_def)
  have "\<not> isl (fst (store_verified demo_mem 1 ''m1'' (fact ''tea'') fact_receipt new_mem_store))" by code_simp
  then obtain m s' where st: "store_verified demo_mem 1 ''m1'' (fact ''tea'') fact_receipt new_mem_store = (Inr m, s')"
    by (metis isl_def prod.collapse sum.collapse(2))
  have "float_text (mf_float demo_mem x)" for x unfolding demo_mem_def by simp code_simp
  moreover have "inj (mf_sha demo_mem)" by (simp add: demo_mem_def)
  ultimately have "[''e1''] \<noteq> []" using receipt_binds_candidate [OF minted st] by blast
  then show ?thesis by (simp add: fact_def fact_receipt_def)
qed

definition tea_query :: retrieval where
  "tea_query = \<lparr>rt_scope = SC_PROJECT, rt_scope_id = ''p'', rt_type = None, rt_query = [], rt_limit = 2,
     rt_project = [], rt_archived = False\<rparr>"

lemma retrieval_is_scoped_witness:
  "length (retrieve demo_mem 9 tea_query (run_mem demo_mem three_facts new_mem_store)) \<le> 2"
  using retrieval_is_scoped [OF three_facts_wf, of tea_query 9 demo_mem] by (simp add: tea_query_def)

lemma update_keeps_history_witness:
  "\<exists>m' s'. update_memory demo_mem 9 ''m1'' (Some ''coffee'') None None (run_mem demo_mem three_facts new_mem_store)
     = (Inr m', s') \<and> me_content m' = ''coffee'' \<and> \<not> me_verified m'"
proof -
  let ?s = "run_mem demo_mem three_facts new_mem_store"
  have "tbl_get ''m1'' (mm_table ?s) \<noteq> None" by code_simp
  then obtain m where m: "tbl_get ''m1'' (mm_table ?s) = Some m" by auto
  have "\<not> isl (fst (update_memory demo_mem 9 ''m1'' (Some ''coffee'') None None ?s))" by code_simp
  then obtain m' s' where u: "update_memory demo_mem 9 ''m1'' (Some ''coffee'') None None ?s = (Inr m', s')"
    by (metis isl_def prod.collapse sum.collapse(2))
  with update_keeps_history [OF m three_facts_wf u] show ?thesis by auto
qed

lemma purge_is_exact_witness:
  "\<exists>ids s'. purge_expired demo_mem 9 (run_mem demo_mem three_facts new_mem_store) = (Inr ids, s')"
  using purge_is_exact [OF three_facts_wf, of demo_mem 9] by blast

definition merged :: consolidation where
  "merged = \<lparr>cs_candidate = fact ''breakfast'', cs_archive = [''m1'', ''m2''], cs_reason = []\<rparr>"

lemma consolidation_keeps_sources_witness:
  "\<exists>m s'. apply_consolidation demo_mem 9 ''m4'' merged (run_mem demo_mem three_facts new_mem_store) = (Inr m, s')
     \<and> \<not> me_verified m"
proof -
  let ?s = "run_mem demo_mem three_facts new_mem_store"
  have "\<not> isl (fst (apply_consolidation demo_mem 9 ''m4'' merged ?s))" by code_simp
  then obtain m s' where a: "apply_consolidation demo_mem 9 ''m4'' merged ?s = (Inr m, s')"
    by (metis isl_def prod.collapse sum.collapse(2))
  with consolidation_keeps_sources [OF three_facts_wf a] show ?thesis by blast
qed

text \<open>\<open>valid\<close> looks at the hash alone: a receipt with no evidence and no verifier passes.\<close>

lemma receipt_without_evidence_is_accepted:
  "\<exists>m s'. store_verified demo_mem 1 ''m1'' (fact ''tea'') (fact_receipt\<lparr>vc_evidence := [], vc_verifier := []\<rparr>)
      new_mem_store = (Inr m, s') \<and> me_verified m"
proof -
  let ?r = "store_verified demo_mem 1 ''m1'' (fact ''tea'') (fact_receipt\<lparr>vc_evidence := [], vc_verifier := []\<rparr>) new_mem_store"
  have "(case fst ?r of Inl _ \<Rightarrow> False | Inr m \<Rightarrow> me_verified m)" by code_simp
  then show ?thesis by (cases ?r; cases "fst ?r") auto
qed

text \<open>One memory named twice passes for two sources.\<close>

lemma one_memory_consolidates_alone:
  "propose_consolidation [''m1'', ''m1''] (fact ''x'') [] (run_mem demo_mem three_facts new_mem_store)
     = Inr \<lparr>cs_candidate = fact ''x'', cs_archive = [''m1'', ''m1''], cs_reason = []\<rparr>"
proof -
  let ?s = "run_mem demo_mem three_facts new_mem_store"
  have "\<not> isl (propose_consolidation [''m1'', ''m1''] (fact ''x'') [] ?s)" by code_simp
  then show ?thesis by (auto simp: propose_consolidation_def bind_result_def Let_def split: sum.splits if_splits)
qed

end
