(* ===== verification/Personality.thy ===== *)
theory Personality
  imports Memory
begin

text \<open>
  Profiles and the personalization context (\<^verbatim>\<open>personalization/personality/\<close>: \<^verbatim>\<open>profiles.py\<close>,
  \<^verbatim>\<open>store.py\<close>, \<^verbatim>\<open>engine.py\<close>), over two snapshot tables and the memory store. The constrained text
  fields are strings. One reading of the clock serves a call.
\<close>

subsection \<open>Profiles\<close>

record personality = entity +
  pe_name :: string
  pe_tone :: string
  pe_formality :: string
  pe_humor :: string
  pe_verbosity :: string
  pe_proactivity :: string
  pe_style :: string
  pe_rules :: "string list"
  pe_version :: int

record preference = entity +
  pf_scope :: memory_scope
  pf_scope_id :: string
  pf_workflows :: "string list"
  pf_tools :: "string list"
  pf_format :: string
  pf_defaults :: "(string \<times> string) list"
  pf_version :: int

definition default_personality :: "real \<Rightarrow> string \<Rightarrow> personality" where
  "default_personality now i =
     \<lparr>ent_id = i, ent_created = now, ent_updated = now, pe_name = ''Assistant'', pe_tone = ''neutral'',
      pe_formality = ''balanced'', pe_humor = ''none'', pe_verbosity = ''balanced'',
      pe_proactivity = ''reactive'', pe_style = ''direct'', pe_rules = [], pe_version = 1\<rparr>"

definition default_preference :: "real \<Rightarrow> string \<Rightarrow> preference" where
  "default_preference now i =
     \<lparr>ent_id = i, ent_created = now, ent_updated = now, pf_scope = SC_GLOBAL, pf_scope_id = [],
      pf_workflows = [], pf_tools = [], pf_format = ''markdown'', pf_defaults = [], pf_version = 1\<rparr>"

record profiles =
  pr_personalities :: "personality table"
  pr_preferences :: "preference table"
  pr_events :: "event list"

record profiles_cfg =
  pc_bus :: bool
  pc_now :: real
  pc_new_id :: string

type_synonym 'a profiles_op = "(profiles, 'a) eff"

definition profiles_emit :: "profiles_cfg \<Rightarrow> string \<Rightarrow> string \<Rightarrow> arguments \<Rightarrow> profiles \<Rightarrow> profiles" where
  "profiles_emit c ty tid pl s =
     (if pc_bus c then s\<lparr>pr_events := pr_events s @ [mk_event ty tid (JObj pl)]\<rparr> else s)"

subsection \<open>PersonalityStore\<close>

definition get_personality :: "profiles_cfg \<Rightarrow> profiles \<Rightarrow> personality" where
  "get_personality c s =
     (case sort_key pe_version (tbl_list (pr_personalities s)) of
        [] \<Rightarrow> default_personality (pc_now c) (pc_new_id c)
      | p # ps \<Rightarrow> last (p # ps))"

definition save_personality :: "profiles_cfg \<Rightarrow> personality \<Rightarrow> personality profiles_op" where
  "save_personality c p s =
     (let v = (if tbl_list (pr_personalities s) = [] then 1 else pe_version (get_personality c s) + 1) in
      case tbl_create (pc_now c) (p\<lparr>pe_version := v\<rparr>) (pr_personalities s) of
        Inl e \<Rightarrow> eff_raise e s
      | Inr (p', t) \<Rightarrow> eff_return p' (profiles_emit c ''PersonalityUpdated'' []
            [(''profile_id'', JStr (ent_id p')), (''version'', JInt (pe_version p'))]
            (s\<lparr>pr_personalities := t\<rparr>)))"

subsection \<open>PreferenceStore\<close>

definition of_scope :: "memory_scope \<Rightarrow> string \<Rightarrow> preference \<Rightarrow> bool" where
  "of_scope sc i p \<longleftrightarrow> pf_scope p = sc \<and> pf_scope_id p = i"

definition latest :: "preference list \<Rightarrow> preference option" where
  "latest ps = (case sort_key pf_version ps of [] \<Rightarrow> None | q # qs \<Rightarrow> Some (last (q # qs)))"

definition get_global :: "profiles_cfg \<Rightarrow> profiles \<Rightarrow> preference" where
  "get_global c s =
     (case latest (filter (\<lambda>p. pf_scope p = SC_GLOBAL) (tbl_list (pr_preferences s))) of
        None \<Rightarrow> default_preference (pc_now c) (pc_new_id c) | Some p \<Rightarrow> p)"

definition get_project :: "string \<Rightarrow> profiles \<Rightarrow> preference option" where
  "get_project i s = latest (filter (of_scope SC_PROJECT i) (tbl_list (pr_preferences s)))"

definition max_version :: "int list \<Rightarrow> int" where
  "max_version vs = (case vs of [] \<Rightarrow> 0 | v # vs \<Rightarrow> fold max vs v)"

definition save_preference :: "profiles_cfg \<Rightarrow> preference \<Rightarrow> preference profiles_op" where
  "save_preference c p s =
     (let existing = filter (of_scope (pf_scope p) (pf_scope_id p)) (tbl_list (pr_preferences s));
          p1 = p\<lparr>pf_version := max_version (map pf_version existing) + 1\<rparr>
      in case tbl_create (pc_now c) p1 (pr_preferences s) of
           Inl e \<Rightarrow> eff_raise e s
         | Inr (p', t) \<Rightarrow> eff_return p' (profiles_emit c ''PreferenceUpdated'' []
               [(''profile_id'', JStr (ent_id p')), (''scope'', JStr (scope_value (pf_scope p'))),
                (''scope_id'', JStr (pf_scope_id p')), (''version'', JInt (pf_version p'))]
               (s\<lparr>pr_preferences := t\<rparr>)))"

definition merge_defaults :: "(string \<times> string) list \<Rightarrow> (string \<times> string) list \<Rightarrow> (string \<times> string) list" where
  "merge_defaults base over = fold (\<lambda>(k, v) d. dict_set k v d) over base"

definition get_effective :: "profiles_cfg \<Rightarrow> string \<Rightarrow> profiles \<Rightarrow> preference" where
  "get_effective c project s =
     (let base = get_global c s in
      if project = [] then base
      else case get_project project s of
          None \<Rightarrow> base
        | Some over \<Rightarrow>
            let fresh = default_preference (pc_now c) (pc_new_id c) in
            base\<lparr>pf_workflows := (if pf_workflows over \<noteq> pf_workflows fresh then pf_workflows over else pf_workflows base),
                 pf_tools := (if pf_tools over \<noteq> pf_tools fresh then pf_tools over else pf_tools base),
                 pf_format := (if pf_format over \<noteq> pf_format fresh then pf_format over else pf_format base),
                 pf_defaults := merge_defaults (pf_defaults base) (pf_defaults over),
                 pf_scope_id := project\<rparr>)"

definition get_preference :: "string \<Rightarrow> profiles \<Rightarrow> preference result" where
  "get_preference i s =
     (case tbl_get i (pr_preferences s) of
        None \<Rightarrow> Inl (ResourceNotFoundError ''PreferenceProfile'' i) | Some p \<Rightarrow> Inr p)"

subsection \<open>PersonalizationEngine\<close>

record context_view =
  cv_personality :: personality
  cv_preferences :: preference
  cv_facts :: "memory list"
  cv_relevant :: "memory list"
  cv_project :: string
  cv_task :: string

definition recall_query :: "memory_scope \<Rightarrow> string \<Rightarrow> string \<Rightarrow> string \<Rightarrow> retrieval" where
  "recall_query scope scope_id query project =
     \<lparr>rt_scope = scope, rt_scope_id = scope_id, rt_type = None, rt_query = query, rt_limit = 5,
      rt_project = project, rt_archived = False\<rparr>"

definition fact_query :: retrieval where
  "fact_query = (recall_query SC_GLOBAL [] [] [])\<lparr>rt_type := Some SEMANTIC\<rparr>"

definition recalled :: "mem_cfg \<Rightarrow> real \<Rightarrow> string \<Rightarrow> string \<Rightarrow> string \<Rightarrow> string \<Rightarrow> mem_store \<Rightarrow> memory list" where
  "recalled f now task project agent query m =
     (if project = [] then [] else retrieve f now (recall_query SC_PROJECT project query project) m)
     @ (if task = [] then [] else retrieve f now (recall_query SC_TASK task query project) m)
     @ (if agent = [] then [] else retrieve f now (recall_query SC_AGENT agent query []) m)"

definition build_context ::
  "profiles_cfg \<Rightarrow> mem_cfg \<Rightarrow> mem_store option \<Rightarrow> string \<Rightarrow> string \<Rightarrow> string \<Rightarrow> string \<Rightarrow> profiles
   \<Rightarrow> context_view \<times> profiles" where
  "build_context c f mem task project agent query s =
     (let personality = get_personality c s;
          preferences = get_effective c project s;
          facts = (case mem of None \<Rightarrow> [] | Some m \<Rightarrow> retrieve f (pc_now c) fact_query m);
          relevant = (case mem of None \<Rightarrow> [] | Some m \<Rightarrow> recalled f (pc_now c) task project agent query m)
      in (\<lparr>cv_personality = personality, cv_preferences = preferences, cv_facts = facts,
           cv_relevant = take 10 relevant, cv_project = project, cv_task = task\<rparr>,
          profiles_emit c ''PersonalizationApplied'' task
            [(''project_id'', JStr project), (''personality_version'', JInt (pe_version personality)),
             (''preferences_version'', JInt (pf_version preferences)),
             (''memories'', JInt (int (length relevant)))] s))"

definition render_prompt :: "context_view \<Rightarrow> string \<Rightarrow> string" where
  "render_prompt v goal =
     (let p = cv_personality v; q = cv_preferences v in
      join_str [CHR 0x0A]
        ([''You are '' @ pe_name p @ '': '' @ pe_tone p @ '' tone, '' @ pe_formality p @ '' formality, ''
            @ pe_verbosity p @ '' verbosity.'',
          ''Communicate '' @ pe_style p @ ''; humor '' @ pe_humor p @ ''; proactivity '' @ pe_proactivity p @ ''.'']
         @ map (\<lambda>r. ''Behavioral rule: '' @ r) (pe_rules p)
         @ (if pf_tools q = [] then [] else [''Preferred tools: '' @ join_str '', '' (pf_tools q) @ ''.''])
         @ (if pf_format q = ''markdown'' then [] else [''Output format: '' @ pf_format q @ ''.''])
         @ map (\<lambda>m. ''Known fact: '' @ me_content m) (cv_facts v)
         @ map (\<lambda>m. ''Recalled ('' @ scope_value (me_scope m) @ ''): '' @ me_content m) (cv_relevant v)
         @ [''User goal: '' @ goal]))"

text \<open>The ASCII characters at which \<open>splitlines\<close> ends a line.\<close>

definition line_break :: "char \<Rightarrow> bool" where
  "line_break ch \<longleftrightarrow> ch \<in> {CHR 0x0A, CHR 0x0B, CHR 0x0C, CHR 0x0D, CHR 0x1C, CHR 0x1D, CHR 0x1E}"

definition summarize_reply :: "context_view \<Rightarrow> string \<Rightarrow> string" where
  "summarize_reply v content =
     (let p = cv_personality v in
      if pe_verbosity p = ''concise''
      then ''['' @ pe_name p @ ''] '' @ takeWhile (\<lambda>ch. \<not> line_break ch) (strip_str content)
      else if pe_verbosity p = ''detailed''
      then pe_name p @ '' ('' @ pe_tone p @ '', '' @ pe_formality p @ ''):'' @ [CHR 0x0A] @ content
      else pe_name p @ '': '' @ content)"

subsection \<open>The current profile\<close>

lemma latest_max:
  assumes "x \<in> set ps" and "\<And>y. y \<in> set ps \<Longrightarrow> y \<noteq> x \<Longrightarrow> pf_version y < pf_version x"
  shows "latest ps = Some x"
  using last_sort_key_max [of x ps pf_version] assms by (auto simp: latest_def split: list.split)

lemma max_version_ge: "v \<in> set vs \<Longrightarrow> v \<le> max_version vs"
proof -
  have ge: "w \<le> fold max vs w" for w :: int and vs
    by (induction vs arbitrary: w) (auto intro: order_trans [OF max.cobounded2])
  have "x \<in> set vs \<Longrightarrow> x \<le> fold max vs w" for x w :: int and vs
  proof (induction vs arbitrary: w)
    case (Cons a vs)
    then show ?case using ge [of "max a w" vs] by (cases "x = a") auto
  qed simp
  with ge show "v \<in> set vs \<Longrightarrow> v \<le> max_version vs" by (auto simp: max_version_def split: list.split)
qed

lemma save_preference_Inr:
  assumes "save_preference c p s = (Inr p', s')"
  shows "tbl_get (ent_id p) (pr_preferences s) = None \<and> ent_id p' = ent_id p
    \<and> pr_preferences s' = dict_set (ent_id p) p' (pr_preferences s)
    \<and> pf_scope p' = pf_scope p \<and> pf_scope_id p' = pf_scope_id p \<and> pf_workflows p' = pf_workflows p
    \<and> pf_version p' = max_version (map pf_version
        (filter (of_scope (pf_scope p) (pf_scope_id p)) (tbl_list (pr_preferences s)))) + 1"
  using assms
  by (auto simp: save_preference_def Let_def store_simps touch_def profiles_emit_def split: sum.splits if_splits)

text \<open>
  The profile saved last is the current one. When a project's preferences are saved, they get a
  version above every earlier one of that project, \<open>get_project\<close> answers them from then on, and
  the preferences of every other project are what they were.
\<close>

theorem saved_preference_is_current:
  assumes wf: "wf_table (pr_preferences s)" and project: "pf_scope p = SC_PROJECT"
    and save: "save_preference c p s = (Inr p', s')"
  shows "get_project (pf_scope_id p) s' = Some p'
    \<and> (\<forall>q. q \<in> set (tbl_list (pr_preferences s)) \<and> of_scope SC_PROJECT (pf_scope_id p) q \<longrightarrow> pf_version q < pf_version p')
    \<and> (\<forall>i. i \<noteq> pf_scope_id p \<longrightarrow> set (filter (of_scope SC_PROJECT i) (tbl_list (pr_preferences s')))
         = set (filter (of_scope SC_PROJECT i) (tbl_list (pr_preferences s))))"
proof -
  note p' = save_preference_Inr [OF save]
  have wf': "wf_table (pr_preferences s')" using wf_table_dict_set [OF wf, of p'] p' by simp
  have mem: "q \<in> set (tbl_list (pr_preferences s')) \<longleftrightarrow> q = p' \<or> q \<in> set (tbl_list (pr_preferences s))" for q
    unfolding set_tbl_list [OF wf] set_tbl_list [OF wf'] using p' by (auto simp: tbl_get_def)
  have "pf_version q < pf_version p'"
    if "q \<in> set (tbl_list (pr_preferences s))" "of_scope SC_PROJECT (pf_scope_id p) q" for q
    using max_version_ge [of "pf_version q" "map pf_version
        (filter (of_scope (pf_scope p) (pf_scope_id p)) (tbl_list (pr_preferences s)))"] that project p' by auto
  moreover from this mem have "get_project (pf_scope_id p) s' = Some p'"
    unfolding get_project_def using p' project by (intro latest_max) (auto simp: of_scope_def)
  moreover have "set (filter (of_scope SC_PROJECT i) (tbl_list (pr_preferences s')))
         = set (filter (of_scope SC_PROJECT i) (tbl_list (pr_preferences s)))" if "i \<noteq> pf_scope_id p" for i
    using mem that p' by (auto simp: of_scope_def)
  ultimately show ?thesis by blast
qed

lemma retrieve_sound:
  "m \<in> set (retrieve f now q s) \<Longrightarrow>
     m \<in> set (tbl_list (mm_table s)) \<and> retrievable now q (memory_keywords (rt_query q)) m"
  by (auto simp: retrieve_def Let_def dest: in_set_takeD)

text \<open>
  A personalization context stays in scope. Every fact and every recalled memory of a context is
  in the store, neither deleted nor archived nor expired, and is global or belongs to the project,
  the task or the agent the context was built for; at most five facts and ten memories are in it.
\<close>

theorem context_is_scoped:
  assumes "build_context c f (Some mem) task project agent query s = (v, s')"
    and "m \<in> set (cv_facts v) \<union> set (cv_relevant v)"
  shows "m \<in> set (tbl_list (mm_table mem)) \<and> me_status m = ME_ACTIVE \<and> \<not> expired (pc_now c) m
    \<and> (me_scope m = SC_GLOBAL \<or> me_scope m = SC_PROJECT \<and> project \<noteq> [] \<and> me_scope_id m = project
       \<or> me_scope m = SC_TASK \<and> task \<noteq> [] \<and> me_scope_id m = task
       \<or> me_scope m = SC_AGENT \<and> agent \<noteq> [] \<and> me_scope_id m = agent)
    \<and> length (cv_facts v) \<le> 5 \<and> length (cv_relevant v) \<le> 10"
proof -
  have v: "cv_facts v = retrieve f (pc_now c) fact_query mem"
    "cv_relevant v = take 10 (recalled f (pc_now c) task project agent query mem)"
    using assms(1) by (auto simp: build_context_def Let_def)
  consider "m \<in> set (retrieve f (pc_now c) fact_query mem)"
    | "project \<noteq> []" "m \<in> set (retrieve f (pc_now c) (recall_query SC_PROJECT project query project) mem)"
    | "task \<noteq> []" "m \<in> set (retrieve f (pc_now c) (recall_query SC_TASK task query project) mem)"
    | "agent \<noteq> []" "m \<in> set (retrieve f (pc_now c) (recall_query SC_AGENT agent query []) mem)"
    using assms(2) unfolding v by (auto simp: recalled_def dest!: in_set_takeD split: if_splits)
  then have "m \<in> set (tbl_list (mm_table mem)) \<and> me_status m = ME_ACTIVE \<and> \<not> expired (pc_now c) m
    \<and> (me_scope m = SC_GLOBAL \<or> me_scope m = SC_PROJECT \<and> project \<noteq> [] \<and> me_scope_id m = project
       \<or> me_scope m = SC_TASK \<and> task \<noteq> [] \<and> me_scope_id m = task
       \<or> me_scope m = SC_AGENT \<and> agent \<noteq> [] \<and> me_scope_id m = agent)"
    by cases (auto dest!: retrieve_sound simp: retrievable_def visible_def fact_query_def recall_query_def
        split: if_splits intro: memory_status.exhaust [of "me_status m"])
  moreover have "length (cv_facts v) \<le> 5"
    unfolding v by (simp add: retrieve_def Let_def fact_query_def recall_query_def)
  ultimately show ?thesis unfolding v by simp
qed

subsection \<open>Examples\<close>

definition demo_profiles :: profiles where
  "demo_profiles = \<lparr>pr_personalities = [], pr_preferences =
     [(''x'', (default_preference 0 ''x'')\<lparr>pf_scope := SC_PROJECT, pf_scope_id := ''p''\<rparr>)], pr_events = []\<rparr>"

definition demo_profiles_cfg :: profiles_cfg where
  "demo_profiles_cfg = \<lparr>pc_bus = True, pc_now = 9, pc_new_id = ''n''\<rparr>"

definition json_preference :: preference where
  "json_preference = (default_preference 0 ''y'')\<lparr>pf_scope := SC_PROJECT, pf_scope_id := ''p'', pf_format := ''json''\<rparr>"

lemma saved_preference_is_current_witness:
  "\<exists>p' s'. save_preference demo_profiles_cfg json_preference demo_profiles = (Inr p', s')
     \<and> get_project ''p'' s' = Some p'"
proof -
  have wf: "wf_table (pr_preferences demo_profiles)" by code_simp
  have "\<not> isl (fst (save_preference demo_profiles_cfg json_preference demo_profiles))" by code_simp
  then obtain p' s' where s: "save_preference demo_profiles_cfg json_preference demo_profiles = (Inr p', s')"
    by (metis isl_def prod.collapse sum.collapse(2))
  have "pf_scope json_preference = SC_PROJECT" "pf_scope_id json_preference = ''p''"
    by (simp_all add: json_preference_def)
  with saved_preference_is_current [OF wf this(1) s] s show ?thesis by auto
qed

lemma context_is_scoped_witness:
  "\<exists>m. m \<in> set (cv_relevant (fst (build_context demo_profiles_cfg demo_mem
      (Some (run_mem demo_mem [Store 2 ''m2'' (fact ''milk'')] new_mem_store)) [] ''p'' [] [] demo_profiles))) \<and> me_status m = ME_ACTIVE"
proof -
  let ?b = "build_context demo_profiles_cfg demo_mem (Some (run_mem demo_mem [Store 2 ''m2'' (fact ''milk'')] new_mem_store)) [] ''p'' [] [] demo_profiles"
  have "cv_relevant (fst ?b) \<noteq> []" by code_simp
  then obtain m where m: "m \<in> set (cv_relevant (fst ?b))" by (meson list.set_sel(1))
  then show ?thesis using context_is_scoped [OF prod.collapse [symmetric], of m] by blast
qed

end
