(* ===== verification/Learning.thy ===== *)
theory Learning
  imports Personality
begin

text \<open>
  Learning from use (\<^verbatim>\<open>learning/models.py\<close>, \<^verbatim>\<open>observer.py\<close>, \<^verbatim>\<open>safety.py\<close>, \<^verbatim>\<open>cycle.py\<close>): usage
  events are counted, patterns become proposals, and a proposal is adopted into the memory store or
  the preferences, behind a governor. Rounding to three places, the text of a percentage and fresh
  identifiers are parameters; one reading of the clock serves a call.
\<close>

subsection \<open>Data\<close>

datatype observation_mode = OM_DISABLED | OM_SESSION_ONLY | OM_LOCAL_PERSISTENCE | OM_LEARNING_ENABLED

datatype proposal_kind = PK_PREFERENCE | PK_WORKFLOW_HINT | PK_MODEL_HINT | PK_COMMUNICATION

datatype proposal_status = PS_PROPOSED | PS_ADOPTED | PS_REJECTED | PS_ROLLED_BACK

fun kind_value :: "proposal_kind \<Rightarrow> string" where
  "kind_value PK_PREFERENCE = ''PREFERENCE''"
| "kind_value PK_WORKFLOW_HINT = ''WORKFLOW_HINT''"
| "kind_value PK_MODEL_HINT = ''MODEL_HINT''"
| "kind_value PK_COMMUNICATION = ''COMMUNICATION''"

fun proposal_status_value :: "proposal_status \<Rightarrow> string" where
  "proposal_status_value PS_PROPOSED = ''PROPOSED''"
| "proposal_status_value PS_ADOPTED = ''ADOPTED''"
| "proposal_status_value PS_REJECTED = ''REJECTED''"
| "proposal_status_value PS_ROLLED_BACK = ''ROLLED_BACK''"

record usage_event = entity +
  ue_category :: string
  ue_action :: string
  ue_project :: string
  ue_agent :: string
  ue_duration :: real
  ue_success :: bool
  ue_summary :: string
  ue_metadata :: arguments

record usage_pattern =
  up_id :: string
  up_type :: string
  up_description :: string
  up_count :: nat
  up_confidence :: real
  up_scope :: string
  up_evidence :: "string list"

record proposal = entity +
  lp_kind :: proposal_kind
  lp_content :: string
  lp_pattern :: string
  lp_confidence :: real
  lp_scope :: string
  lp_status :: proposal_status
  lp_provenance :: arguments

text \<open>Whole-token search, \<open>_has_forbidden_word\<close> and \<open>_has_hint\<close>.\<close>

definition has_hint :: "string \<Rightarrow> string list \<Rightarrow> bool" where
  "has_hint content hints \<longleftrightarrow> list_ex (\<lambda>h. h \<in> set (words_of content)) hints"

subsection \<open>UsageObserver\<close>

definition session_cap :: int where
  "session_cap = 10000"

text \<open>\<open>del xs[:-n]\<close>.\<close>

definition keep_last :: "int \<Rightarrow> 'a list \<Rightarrow> 'a list" where
  "keep_last n xs = (if n > 0 then drop (length xs - nat n) xs else drop (nat (- n)) xs)"

record observer =
  ob_mode :: observation_mode
  ob_session :: "usage_event list"
  ob_table :: "usage_event table option"

definition set_observation_mode :: "observation_mode \<Rightarrow> observer \<Rightarrow> observer" where
  "set_observation_mode m s = s\<lparr>ob_mode := m\<rparr>"

definition record_usage :: "real \<Rightarrow> usage_event \<Rightarrow> (observer, usage_event option) eff" where
  "record_usage now e s =
     (if ob_mode s = OM_DISABLED then eff_return None s
      else if ob_mode s \<in> {OM_LOCAL_PERSISTENCE, OM_LEARNING_ENABLED}
      then case ob_table s of
             None \<Rightarrow> eff_raise (DomainValidationError ''persistence mode requires a repository'') s
           | Some t \<Rightarrow>
               (case tbl_create now e t of
                  Inl ex \<Rightarrow> eff_raise ex s
                | Inr (e', t') \<Rightarrow> eff_return (Some e')
                    (s\<lparr>ob_table := Some t', ob_session := keep_last session_cap (ob_session s @ [e'])\<rparr>))
      else eff_return (Some e) (s\<lparr>ob_session := keep_last session_cap (ob_session s @ [e])\<rparr>))"

definition usage :: "real \<Rightarrow> string \<Rightarrow> string \<Rightarrow> string \<Rightarrow> bool \<Rightarrow> real \<Rightarrow> string \<Rightarrow> string \<Rightarrow> arguments \<Rightarrow> usage_event" where
  "usage now i category action ok duration project agent md =
     \<lparr>ent_id = i, ent_created = now, ent_updated = now, ue_category = category, ue_action = action,
      ue_project = project, ue_agent = agent, ue_duration = duration, ue_success = ok, ue_summary = [],
      ue_metadata = md\<rparr>"

definition observe_tool :: "real \<Rightarrow> string \<Rightarrow> string \<Rightarrow> bool \<Rightarrow> real \<Rightarrow> string \<Rightarrow> string \<Rightarrow> (observer, usage_event option) eff" where
  "observe_tool now i tool ok duration project agent =
     record_usage now (usage now i ''tool'' tool ok duration project agent [])"

definition observe_model :: "real \<Rightarrow> string \<Rightarrow> string \<Rightarrow> bool \<Rightarrow> string \<Rightarrow> string \<Rightarrow> (observer, usage_event option) eff" where
  "observe_model now i model ok task_kind project =
     record_usage now (usage now i ''model'' model ok 0 project []
       (if task_kind = [] then [] else [(''task_kind'', JStr task_kind)]))"

definition observe_task :: "real \<Rightarrow> string \<Rightarrow> string \<Rightarrow> bool \<Rightarrow> real \<Rightarrow> string \<Rightarrow> string \<Rightarrow> (observer, usage_event option) eff" where
  "observe_task now i outcome ok duration project agent =
     record_usage now (usage now i ''task'' outcome ok duration project agent [])"

definition stored_events :: "observer \<Rightarrow> usage_event list" where
  "stored_events s = (case ob_table s of None \<Rightarrow> [] | Some t \<Rightarrow> tbl_list t)"

subsection \<open>UsageAggregator\<close>

text \<open>\<open>Counter\<close>: keys in the order of their first occurrence.\<close>

definition counter :: "'a list \<Rightarrow> ('a \<times> nat) list" where
  "counter xs = fold (\<lambda>x d. dict_set x (case map_of d x of None \<Rightarrow> 1 | Some n \<Rightarrow> n + 1) d) xs []"

definition usage_counts :: "usage_event list \<Rightarrow> ((string \<times> string) \<times> nat) list" where
  "usage_counts es = counter (map (\<lambda>e. (ue_category e, ue_action e)) es)"

definition relevant_events :: "string \<Rightarrow> string \<Rightarrow> usage_event list \<Rightarrow> usage_event list" where
  "relevant_events category action es = filter (\<lambda>e. ue_category e = category \<and> ue_action e = action) es"

definition success_rate :: "string \<Rightarrow> string \<Rightarrow> usage_event list \<Rightarrow> real option" where
  "success_rate category action es =
     (let r = relevant_events category action es in
      if r = [] then None else Some (real (length (filter ue_success r)) / real (length r)))"

definition average_duration :: "string \<Rightarrow> string \<Rightarrow> usage_event list \<Rightarrow> real option" where
  "average_duration category action es =
     (let r = relevant_events category action es in
      if r = [] then None else Some (sum_list (map ue_duration r) / real (length r)))"

definition grams :: "nat \<Rightarrow> 'a list \<Rightarrow> 'a list list" where
  "grams n xs = map (\<lambda>i. take n (drop i xs)) [0..<length xs + 1 - n]"

definition sequences :: "string \<Rightarrow> nat \<Rightarrow> usage_event list \<Rightarrow> (string list \<times> nat) list" where
  "sequences category n es = counter (grams n (map ue_action (filter (\<lambda>e. ue_category e = category) es)))"

subsection \<open>PatternDetector\<close>

record detector =
  dt_min_evidence :: nat
  dt_smoothing :: real
  dt_round3 :: "real \<Rightarrow> real"
  dt_percent :: "real \<Rightarrow> string"
  dt_new_id :: "nat \<Rightarrow> string"

definition pattern_confidence :: "detector \<Rightarrow> nat \<Rightarrow> real" where
  "pattern_confidence d n = dt_round3 d (real n / (real n + dt_smoothing d))"

definition nat_text :: "nat \<Rightarrow> string" where
  "nat_text n = int_text (int n)"

definition mk_pattern :: "detector \<Rightarrow> string \<Rightarrow> string \<Rightarrow> string \<Rightarrow> nat \<Rightarrow> string list \<Rightarrow> usage_pattern" where
  "mk_pattern d scope ty description n evidence =
     \<lparr>up_id = [], up_type = ty, up_description = description, up_count = n,
      up_confidence = pattern_confidence d n, up_scope = scope, up_evidence = evidence\<rparr>"

definition action_patterns :: "detector \<Rightarrow> usage_event list \<Rightarrow> string \<Rightarrow> (string \<times> string) \<times> nat \<Rightarrow> usage_pattern list" where
  "action_patterns d es scope entry =
     (case entry of ((category, action), n) \<Rightarrow>
        let evidence = [category @ '':'' @ action @ ''x'' @ nat_text n] in
        (if category = ''tool'' \<and> n \<ge> dt_min_evidence d
         then [mk_pattern d scope ''frequently_used_tool''
                 (''Tool '' @ repr_str action @ '' used '' @ nat_text n @ '' times.'') n evidence] else [])
        @ (if category = ''model'' \<and> n \<ge> dt_min_evidence d
           then [mk_pattern d scope ''frequently_used_model''
                   (''Model '' @ repr_str action @ '' used '' @ nat_text n @ '' times.'') n evidence] else [])
        @ (case success_rate category action es of
             None \<Rightarrow> []
           | Some rate \<Rightarrow>
               if rate < 1 / 2 \<and> n \<ge> dt_min_evidence d
               then [mk_pattern d scope ''repeated_failure''
                       (category @ '':'' @ action @ '' fails often ('' @ dt_percent d rate @ '' success).'') n evidence]
               else []))"

definition workflow_patterns :: "detector \<Rightarrow> string \<Rightarrow> string list \<times> nat \<Rightarrow> usage_pattern list" where
  "workflow_patterns d scope entry =
     (case entry of (seq, n) \<Rightarrow>
        if n \<ge> dt_min_evidence d
        then [mk_pattern d scope ''repeated_workflow''
                (''Workflow '' @ join_str '' -> '' seq @ '' seen '' @ nat_text n @ '' times.'') n
                (replicate n (join_str '' -> '' seq))]
        else [])"

definition number_patterns :: "detector \<Rightarrow> usage_pattern list \<Rightarrow> usage_pattern list" where
  "number_patterns d ps = map (\<lambda>(k, p). p\<lparr>up_id := dt_new_id d k\<rparr>) (enumerate 0 ps)"

definition detect :: "detector \<Rightarrow> usage_event list \<Rightarrow> string \<Rightarrow> usage_pattern list" where
  "detect d es scope = number_patterns d
     (concat (map (action_patterns d es scope)
        (sort_key (fst \<circ> fst) (sort_key (snd \<circ> fst) (usage_counts es))))
      @ concat (map (workflow_patterns d scope) (sort_key fst (sequences ''tool'' 2 es))))"

subsection \<open>Governor and drift\<close>

datatype learning_mode = LM_DISABLED | LM_SUGGEST_ONLY | LM_APPROVAL_REQUIRED | LM_AUTO_APPROVE_LOW_RISK

datatype learning_risk = LR_LOW | LR_MEDIUM | LR_HIGH | LR_CRITICAL

definition critical_hints :: "string list" where
  "critical_hints = [''permission'', ''permissions'', ''authorize'', ''authorized'', ''authorization'', ''policy'',
     ''policies'', ''credential'', ''credentials'', ''secret'', ''secrets'', ''sandbox'', ''password'',
     ''passwords'', ''token'', ''tokens'', ''sudo'', ''admin'']"

definition high_hints :: "string list" where
  "high_hints = [''skill'', ''allow'', ''always'', ''every'', ''bypass'', ''disable'']"

definition medium_hints :: "string list" where
  "medium_hints = [''workflow'', ''prefer'', ''default'']"

definition classify_change :: "proposal_kind \<Rightarrow> string \<Rightarrow> learning_risk" where
  "classify_change kind content =
     (if has_hint content critical_hints then LR_CRITICAL
      else if has_hint content high_hints then LR_HIGH
      else if kind = PK_MODEL_HINT then LR_LOW
      else if kind = PK_COMMUNICATION then LR_LOW
      else if has_hint content medium_hints then LR_MEDIUM
      else LR_MEDIUM)"

record governor =
  gv_mode :: learning_mode
  gv_killed :: bool

definition new_governor :: governor where
  "new_governor = \<lparr>gv_mode = LM_APPROVAL_REQUIRED, gv_killed = False\<rparr>"

definition governor_classify :: "proposal \<Rightarrow> learning_risk" where
  "governor_classify p = classify_change (lp_kind p) (lp_content p)"

definition may_adopt :: "governor \<Rightarrow> proposal \<Rightarrow> bool \<Rightarrow> bool" where
  "may_adopt g p approved =
     (if gv_killed g \<or> gv_mode g = LM_DISABLED then False
      else let risk = governor_classify p in
        if risk = LR_CRITICAL then False
        else case gv_mode g of
               LM_SUGGEST_ONLY \<Rightarrow> False
             | LM_APPROVAL_REQUIRED \<Rightarrow> approved
             | LM_AUTO_APPROVE_LOW_RISK \<Rightarrow> approved \<or> risk = LR_LOW
             | LM_DISABLED \<Rightarrow> False)"

record governor_row = entity +
  gr_mode :: learning_mode
  gr_killed :: bool

definition persist_governor :: "real \<Rightarrow> governor \<Rightarrow> governor_row table \<Rightarrow> (governor_row \<times> governor_row table) result" where
  "persist_governor now g t =
     (case tbl_get ''global'' t of
        None \<Rightarrow> tbl_create now \<lparr>ent_id = ''global'', ent_created = now, ent_updated = now,
                  gr_mode = gv_mode g, gr_killed = gv_killed g\<rparr> t
      | Some row \<Rightarrow> tbl_update now (row\<lparr>gr_mode := gv_mode g, gr_killed := gv_killed g\<rparr>) t)"

definition load_governor :: "governor_row table \<Rightarrow> governor" where
  "load_governor t =
     (case tbl_get ''global'' t of
        None \<Rightarrow> new_governor | Some row \<Rightarrow> \<lparr>gv_mode = gr_mode row, gv_killed = gr_killed row\<rparr>)"

definition check_not_security :: "string \<Rightarrow> unit result" where
  "check_not_security content =
     (if has_hint content critical_hints
      then Inl (DomainValidationError ''security content cannot be learned'') else Inr ())"

record drift =
  dr_adopted :: "proposal list"
  dr_risky :: nat
  dr_total :: nat
  dr_threshold :: real
  dr_window :: int

definition note_proposal :: "learning_risk \<Rightarrow> drift \<Rightarrow> drift" where
  "note_proposal risk d =
     (let d1 = d\<lparr>dr_total := dr_total d + 1\<rparr> in
      if risk \<in> {LR_HIGH, LR_CRITICAL} then d1\<lparr>dr_risky := dr_risky d1 + 1\<rparr> else d1)"

definition note_adoption :: "proposal \<Rightarrow> drift \<Rightarrow> drift" where
  "note_adoption p d = d\<lparr>dr_adopted := keep_last (dr_window d) (dr_adopted d @ [p])\<rparr>"

definition scopes_of :: "proposal list \<Rightarrow> string list" where
  "scopes_of ps = keys (counter (map lp_scope ps))"

definition suspicious :: "drift \<Rightarrow> string list" where
  "suspicious d =
     (if dr_total d \<ge> 4 \<and> real (dr_risky d) / real (dr_total d) \<ge> dr_threshold d
      then [''risky proposal rate '' @ nat_text (dr_risky d) @ ''/'' @ nat_text (dr_total d)] else [])
     @ (let n = length (filter (\<lambda>p. lp_kind p = PK_MODEL_HINT) (dr_adopted d)) in
        if n \<ge> 3 then [''unexpected model switching x'' @ nat_text n] else [])
     @ concat (map (\<lambda>sc.
         let items = filter (\<lambda>p. lp_scope p = sc) (dr_adopted d) in
         if length (remdups (map lp_content items)) > 3 \<and> length items \<ge> 4
         then [''contradictory preferences in scope '' @ repr_str sc] else []) (scopes_of (dr_adopted d)))"

subsection \<open>What is recorded and what is detected\<close>

definition record_all :: "real \<Rightarrow> usage_event list \<Rightarrow> observer \<Rightarrow> observer" where
  "record_all now es s = fold (\<lambda>e s. snd (record_usage now e s)) es s"

lemma keep_last_append: "0 < n \<Longrightarrow> keep_last n (keep_last n xs @ ys) = keep_last n (xs @ ys)"
  by (cases "nat n \<le> length xs") (auto simp: keep_last_def add.commute)

lemma length_keep_last: "0 < n \<Longrightarrow> length (keep_last n xs) = min (length xs) (nat n)"
  by (auto simp: keep_last_def)

text \<open>
  Usage observation honours its mode. Disabled, it records nothing and the observer is what it
  was; for a session only, it keeps the latest events in order, at most ten thousand of them, and
  never writes to a repository.
\<close>

theorem observation_honours_mode:
  "(ob_mode s = OM_DISABLED \<longrightarrow> record_all now es s = s)
   \<and> (ob_mode s = OM_SESSION_ONLY \<longrightarrow> es \<noteq> [] \<longrightarrow>
        record_all now es s = s\<lparr>ob_session := keep_last session_cap (ob_session s @ es)\<rparr>
        \<and> length (ob_session (record_all now es s)) \<le> 10000)"
proof -
  have "ob_mode s = OM_DISABLED \<Longrightarrow> record_all now es s = s"
    unfolding record_all_def by (induction es) (simp_all add: record_usage_def)
  moreover have "ob_mode s = OM_SESSION_ONLY \<Longrightarrow> es \<noteq> [] \<Longrightarrow>
      record_all now es s = s\<lparr>ob_session := keep_last session_cap (ob_session s @ es)\<rparr>"
  proof (induction es arbitrary: s)
    case (Cons e es)
    let ?s = "s\<lparr>ob_session := keep_last session_cap (ob_session s @ [e])\<rparr>"
    have first: "record_all now (e # es) s = record_all now es ?s"
      using Cons.prems(1) by (simp add: record_all_def record_usage_def)
    show ?case
    proof (cases "es = []")
      case True
      then show ?thesis unfolding first by (simp add: record_all_def)
    next
      case False
      with Cons.IH [of ?s] Cons.prems show ?thesis unfolding first
        by (simp add: keep_last_append session_cap_def)
    qed
  qed simp
  ultimately show ?thesis by (auto simp: length_keep_last session_cap_def)
qed

abbreviation bump :: "'a \<Rightarrow> ('a \<times> nat) list \<Rightarrow> ('a \<times> nat) list" where
  "bump x d \<equiv> dict_set x (case map_of d x of None \<Rightarrow> 1 | Some n \<Rightarrow> n + 1) d"

lemma fold_bump:
  "map_of (fold bump xs d) y =
     (if y \<in> set xs then Some ((case map_of d y of None \<Rightarrow> 0 | Some n \<Rightarrow> n) + count_list xs y) else map_of d y)"
  by (induction xs arbitrary: d) (auto split: option.splits)

lemma distinct_fold_bump: "distinct (keys d) \<Longrightarrow> distinct (keys (fold bump xs d))"
  by (induction xs arbitrary: d) (auto simp: distinct_keys_dict_set)

lemma set_counter: "set (counter xs) = {(x, count_list xs x) | x. x \<in> set xs}"
proof -
  have m: "map_of (counter xs) y = (if y \<in> set xs then Some (count_list xs y) else None)" for y
    by (simp add: counter_def fold_bump)
  have d: "distinct (keys (counter xs))" unfolding counter_def by (rule distinct_fold_bump) simp
  show ?thesis using m by (auto simp: map_of_eq_Some_iff [OF d, symmetric] split: if_splits)
qed

text \<open>How often a tool was used.\<close>

definition uses :: "string \<Rightarrow> usage_event list \<Rightarrow> nat" where
  "uses a es = length (filter (\<lambda>e. ue_category e = ''tool'' \<and> ue_action e = a) es)"

lemma count_list_uses: "count_list (map (\<lambda>e. (ue_category e, ue_action e)) es) (''tool'', a) = uses a es"
  by (induction es) (auto simp: uses_def)

lemma map_number_patterns:
  "(\<And>p i. f (p\<lparr>up_id := i\<rparr>) = f p) \<Longrightarrow> map f (number_patterns d ps) = map f ps"
  by (rule nth_equalityI) (simp_all add: number_patterns_def nth_enumerate_eq case_prod_beta)

lemma tool_action_patterns:
  "(p \<in> set (action_patterns d es scope ((cat, a), n)) \<and> up_type p = ''frequently_used_tool'') \<longleftrightarrow>
     cat = ''tool'' \<and> n \<ge> dt_min_evidence d \<and> p = mk_pattern d scope ''frequently_used_tool''
       (''Tool '' @ repr_str a @ '' used '' @ nat_text n @ '' times.'') n [''tool:'' @ a @ ''x'' @ nat_text n]"
  by (auto simp: action_patterns_def Let_def mk_pattern_def split: option.splits if_splits)

lemma tool_workflow_patterns: "p \<in> set (workflow_patterns d scope e) \<Longrightarrow> up_type p \<noteq> ''frequently_used_tool''"
  by (auto simp: workflow_patterns_def mk_pattern_def split: prod.splits if_splits)

text \<open>
  Detection of frequent tools is exact. The patterns of that type are, whatever other events and
  categories stand between, one for each tool whose uses reach the evidence threshold, with its true
  number of uses and the confidence that number gives.
\<close>

theorem detection_is_exact:
  "(\<lambda>p. (up_description p, up_count p, up_confidence p)) ` {p \<in> set (detect d es scope). up_type p = ''frequently_used_tool''}
   = (\<lambda>a. (''Tool '' @ repr_str a @ '' used '' @ nat_text (uses a es) @ '' times.'', uses a es,
        pattern_confidence d (uses a es))) ` {a. uses a es \<ge> 1 \<and> uses a es \<ge> dt_min_evidence d}"
    (is "?f ` ?L = ?g ` ?R")
proof -
  let ?raw = "concat (map (action_patterns d es scope)
        (sort_key (fst \<circ> fst) (sort_key (snd \<circ> fst) (usage_counts es))))
      @ concat (map (workflow_patterns d scope) (sort_key fst (sequences ''tool'' 2 es)))"
  let ?h = "\<lambda>p. (up_type p, ?f p)"
  have "?h ` set (detect d es scope) = ?h ` set ?raw"
    unfolding detect_def set_map [symmetric] by (subst map_number_patterns) simp_all
  moreover have "?f ` {p \<in> S. up_type p = ''frequently_used_tool''} = {z. (''frequently_used_tool'', z) \<in> ?h ` S}" for S
    by (force simp: image_iff)
  ultimately have "?f ` ?L = ?f ` {p \<in> set ?raw. up_type p = ''frequently_used_tool''}" by presburger
  also have "\<dots> = ?f ` {p. \<exists>c a n. ((c, a), n) \<in> set (usage_counts es)
      \<and> p \<in> set (action_patterns d es scope ((c, a), n)) \<and> up_type p = ''frequently_used_tool''}"
    by (rule arg_cong [where f = "image ?f"]) (auto dest: tool_workflow_patterns)
  also have "\<dots> = ?f ` {p. \<exists>a n. ((''tool'', a), n) \<in> set (usage_counts es) \<and> n \<ge> dt_min_evidence d
      \<and> p = mk_pattern d scope ''frequently_used_tool''
       (''Tool '' @ repr_str a @ '' used '' @ nat_text n @ '' times.'') n [''tool:'' @ a @ ''x'' @ nat_text n]}"
    unfolding tool_action_patterns by (rule arg_cong [where f = "image ?f"]) blast
  also have "\<dots> = ?g ` ?R"
  proof -
    have mem: "((''tool'', a), n) \<in> set (usage_counts es) \<longleftrightarrow> n = uses a es \<and> uses a es \<ge> 1" for a n
    proof -
      have "(''tool'', a) \<in> set (map (\<lambda>e. (ue_category e, ue_action e)) es) \<longleftrightarrow> uses a es \<ge> 1"
        using count_list_0_iff [of "map (\<lambda>e. (ue_category e, ue_action e)) es" "(''tool'', a)"]
        unfolding count_list_uses by linarith
      then show ?thesis unfolding usage_counts_def set_counter using count_list_uses by auto
    qed
    let ?m = "\<lambda>a n. mk_pattern d scope ''frequently_used_tool''
       (''Tool '' @ repr_str a @ '' used '' @ nat_text n @ '' times.'') n [''tool:'' @ a @ ''x'' @ nat_text n]"
    have "{p. \<exists>a n. ((''tool'', a), n) \<in> set (usage_counts es) \<and> n \<ge> dt_min_evidence d \<and> p = ?m a n}
        = (\<lambda>a. ?m a (uses a es)) ` ?R" unfolding mem by blast
    moreover have "?f (?m a (uses a es)) = ?g a" for a by (simp add: mk_pattern_def)
    ultimately show ?thesis by (simp only: image_image)
  qed
  finally show ?thesis .
qed

end
