(* ===== verification/Adoption.thy ===== *)
theory Adoption
  imports Learning
begin

text \<open>
  From patterns to adoption: \<open>ProposalEngine\<close> (\<^verbatim>\<open>learning/observer.py\<close>) and \<open>LearningPipeline\<close>
  (\<^verbatim>\<open>learning/cycle.py\<close>) over the proposal table, the governor, the memory store and the preference
  store. A stored proposal is a copy: what the engine changes on it is kept by the \<open>update\<close> that
  ends the operation, and lost when an exception comes first. The identifiers of new objects and
  the time of a call are arguments.
\<close>

record learner =
  ln_proposals :: "proposal table"
  ln_governor :: "governor option"
  ln_memory :: mem_store
  ln_profiles :: profiles
  ln_events :: "event list"

record learn_cfg =
  lc_bus :: bool
  lc_min :: real
  lc_detector :: detector
  lc_mem :: mem_cfg
  lc_profiles :: profiles_cfg

text \<open>The two keys of the \<open>stores\<close> argument.\<close>

record offered =
  of_memories :: bool
  of_preferences :: bool

datatype adopted = Adopted_Memory memory | Adopted_Preference preference

fun adopted_id :: "adopted \<Rightarrow> string" where
  "adopted_id (Adopted_Memory m) = ent_id m"
| "adopted_id (Adopted_Preference p) = ent_id p"

type_synonym 'a learner_op = "(learner, 'a) eff"

definition on_memory :: "(mem_store, 'a) eff \<Rightarrow> 'a learner_op" where
  "on_memory m s = (case m (ln_memory s) of (r, t) \<Rightarrow> (r, s\<lparr>ln_memory := t\<rparr>))"

definition on_profiles :: "(profiles, 'a) eff \<Rightarrow> 'a learner_op" where
  "on_profiles m s = (case m (ln_profiles s) of (r, t) \<Rightarrow> (r, s\<lparr>ln_profiles := t\<rparr>))"

definition learn_emit :: "learn_cfg \<Rightarrow> string \<Rightarrow> arguments \<Rightarrow> unit learner_op" where
  "learn_emit c ty pl = eff_modify (\<lambda>s.
     if lc_bus c then s\<lparr>ln_events := ln_events s @ [mk_event ty [] (JObj pl)]\<rparr> else s)"

definition learn_refuse :: "string \<Rightarrow> ('s, 'a) eff" where
  "learn_refuse msg = eff_raise (DomainValidationError msg)"

definition put_proposal :: "real \<Rightarrow> proposal \<Rightarrow> learner \<Rightarrow> learner" where
  "put_proposal now p s = s\<lparr>ln_proposals := tbl_put now p (ln_proposals s)\<rparr>"

definition create_proposal :: "real \<Rightarrow> proposal \<Rightarrow> proposal learner_op" where
  "create_proposal now p s =
     (case tbl_create now p (ln_proposals s) of
        Inl e \<Rightarrow> eff_raise e s | Inr (p', t) \<Rightarrow> eff_return p' (s\<lparr>ln_proposals := t\<rparr>))"

subsection \<open>ProposalEngine\<close>

definition forbidden_kinds :: "string list" where
  "forbidden_kinds = [''policy'', ''policies'', ''permission'', ''permissions'', ''authorize'', ''authorized'',
     ''authorization'', ''risk'', ''sandbox'', ''secret'', ''secrets'']"

definition kind_for_pattern :: "string \<Rightarrow> proposal_kind" where
  "kind_for_pattern ty =
     (case map_of [(''frequently_used_tool'', PK_WORKFLOW_HINT), (''frequently_used_model'', PK_MODEL_HINT),
        (''repeated_workflow'', PK_WORKFLOW_HINT), (''repeated_failure'', PK_WORKFLOW_HINT)] ty of
        None \<Rightarrow> PK_WORKFLOW_HINT | Some k \<Rightarrow> k)"

definition content_for :: "usage_pattern \<Rightarrow> proposal_kind \<Rightarrow> string" where
  "content_for pt kind =
     (if kind = PK_MODEL_HINT then ''Consider preferring '' @ up_description pt
      else ''Noticed pattern: '' @ up_description pt)"

definition drafted :: "real \<Rightarrow> string \<Rightarrow> usage_pattern \<Rightarrow> proposal" where
  "drafted now i pt =
     \<lparr>ent_id = i, ent_created = now, ent_updated = now, lp_kind = kind_for_pattern (up_type pt),
      lp_content = content_for pt (kind_for_pattern (up_type pt)), lp_pattern = up_id pt,
      lp_confidence = up_confidence pt, lp_scope = up_scope pt, lp_status = PS_PROPOSED,
      lp_provenance = [(''pattern_type'', JStr (up_type pt)), (''evidence'', JList (map JStr (up_evidence pt))),
        (''evidence_count'', JInt (int (up_count pt)))]\<rparr>"

definition propose_pattern :: "learn_cfg \<Rightarrow> real \<Rightarrow> string \<Rightarrow> usage_pattern \<Rightarrow> proposal learner_op" where
  "propose_pattern c now i pt =
     (let p = drafted now i pt in
      if has_hint (lp_content p) forbidden_kinds then learn_refuse ''proposals must never touch security policy''
      else eff_then (learn_emit c ''LearningProposalCreated''
             [(''proposal_id'', JStr i), (''kind'', JStr (kind_value (lp_kind p)))]) (eff_return p))"

definition require_proposed :: "proposal \<Rightarrow> unit learner_op" where
  "require_proposed p =
     (if lp_status p \<noteq> PS_PROPOSED then learn_refuse (''proposal already '' @ proposal_status_value (lp_status p))
      else eff_return ())"

definition adopted_candidate :: "real \<Rightarrow> string \<Rightarrow> proposal \<Rightarrow> candidate" where
  "adopted_candidate now cid p =
     \<lparr>ent_id = cid, ent_created = now, ent_updated = now, ca_content = lp_content p, ca_type = EXPERIENCE,
      ca_source = ''learning:'' @ lp_pattern p, ca_confidence = lp_confidence p, ca_importance = lp_confidence p,
      ca_scope = SC_GLOBAL, ca_scope_id = [], ca_reason = ''adopted learning proposal'',
      ca_metadata = [(''proposal_id'', JStr (ent_id p))]\<rparr>"

definition adopt_to_memory :: "learn_cfg \<Rightarrow> real \<Rightarrow> string \<Rightarrow> string \<Rightarrow> proposal \<Rightarrow> (adopted \<times> proposal) learner_op" where
  "adopt_to_memory c now i cid p =
     eff_then (require_proposed p)
       (eff_bind (on_memory (store (lc_mem c) now i (adopted_candidate now cid p))) (\<lambda>created.
        eff_then (learn_emit c ''ProposalAdopted''
            [(''proposal_id'', JStr (ent_id p)), (''memory_id'', JStr (ent_id created))])
          (eff_return (Adopted_Memory created, p\<lparr>lp_status := PS_ADOPTED\<rparr>))))"

definition adopted_profile :: "real \<Rightarrow> string \<Rightarrow> string \<Rightarrow> proposal \<Rightarrow> preference" where
  "adopted_profile now i project p = (default_preference now i)
     \<lparr>pf_scope := (if project \<noteq> [] then SC_PROJECT else SC_GLOBAL), pf_scope_id := project,
      pf_workflows := [lp_content p]\<rparr>"

definition adopt_to_preferences ::
  "learn_cfg \<Rightarrow> real \<Rightarrow> string \<Rightarrow> string \<Rightarrow> proposal \<Rightarrow> (adopted \<times> proposal) learner_op" where
  "adopt_to_preferences c now i project p =
     eff_then (require_proposed p)
       (if lp_kind p \<notin> {PK_WORKFLOW_HINT, PK_MODEL_HINT, PK_PREFERENCE}
        then learn_refuse (''kind '' @ kind_value (lp_kind p) @ '' cannot become a preference'')
        else eff_bind (on_profiles (save_preference (lc_profiles c) (adopted_profile now i project p))) (\<lambda>created.
          eff_then (learn_emit c ''ProposalAdopted''
              [(''proposal_id'', JStr (ent_id p)), (''preference_id'', JStr (ent_id created))])
            (eff_return (Adopted_Preference created,
               p\<lparr>lp_status := PS_ADOPTED,
                 lp_provenance := dict_set ''adopted_scope_id'' (JStr (pf_scope_id created))
                   (dict_set ''adopted_scope'' (JStr (scope_value (pf_scope created))) (lp_provenance p))\<rparr>))))"

definition engine_reject :: "learn_cfg \<Rightarrow> proposal \<Rightarrow> string \<Rightarrow> proposal learner_op" where
  "engine_reject c p reason =
     eff_then (require_proposed p)
       (eff_then (learn_emit c ''ProposalRejected''
            [(''proposal_id'', JStr (ent_id p)), (''reason'', JStr reason)])
          (eff_return (p\<lparr>lp_status := PS_REJECTED\<rparr>)))"

subsection \<open>LearningPipeline\<close>

fun file_patterns ::
  "learn_cfg \<Rightarrow> real \<Rightarrow> (nat \<Rightarrow> string) \<Rightarrow> nat \<Rightarrow> usage_pattern list \<Rightarrow> proposal list learner_op" where
  "file_patterns c now ids k [] = eff_return []"
| "file_patterns c now ids k (pt # pts) =
     (if up_confidence pt < lc_min c then file_patterns c now ids k pts
      else eff_bind (propose_pattern c now (ids k) pt) (\<lambda>p.
           eff_bind (create_proposal now p) (\<lambda>created.
           eff_bind (file_patterns c now ids (Suc k) pts) (\<lambda>rest. eff_return (created # rest)))))"

definition generate ::
  "learn_cfg \<Rightarrow> real \<Rightarrow> (nat \<Rightarrow> string) \<Rightarrow> usage_event list \<Rightarrow> string \<Rightarrow> proposal list learner_op" where
  "generate c now ids es scope = file_patterns c now ids 0 (detect (lc_detector c) es scope)"

definition has_evidence :: "proposal \<Rightarrow> bool" where
  "has_evidence p \<longleftrightarrow> (case map_of (lp_provenance p) ''evidence'' of None \<Rightarrow> False | Some v \<Rightarrow> truthy v)"

definition validate_proposal :: "learn_cfg \<Rightarrow> governor option \<Rightarrow> proposal \<Rightarrow> bool \<times> string" where
  "validate_proposal c g p =
     (if lp_confidence p < lc_min c
        then (False, ''confidence '' @ mf_float (lc_mem c) (lp_confidence p) @ '' below minimum'')
      else if \<not> has_evidence p then (False, ''proposal lacks evidence'')
      else if g \<noteq> None \<and> governor_classify p = LR_CRITICAL then (False, ''critical learning content refused'')
      else (True, ''proposal valid''))"

definition find_proposal :: "string \<Rightarrow> proposal learner_op" where
  "find_proposal i s =
     (case tbl_get i (ln_proposals s) of
        None \<Rightarrow> learn_refuse (''unknown proposal '' @ repr_str i) s | Some p \<Rightarrow> eff_return p s)"

definition adopt ::
  "learn_cfg \<Rightarrow> real \<Rightarrow> string \<Rightarrow> string \<Rightarrow> string \<Rightarrow> offered \<Rightarrow> string \<Rightarrow> proposal \<Rightarrow> (adopted \<times> proposal) learner_op" where
  "adopt c now i cid target off project p =
     (if target = ''memory''
      then if \<not> of_memories off then learn_refuse ''no memory store provided'' else adopt_to_memory c now i cid p
      else if target = ''preference''
      then if \<not> of_preferences off then learn_refuse ''no preference store provided''
           else adopt_to_preferences c now i project p
      else learn_refuse (''unknown adoption target '' @ repr_str target))"

definition record_adoption :: "string \<Rightarrow> adopted \<Rightarrow> proposal \<Rightarrow> proposal" where
  "record_adoption target x p =
     p\<lparr>lp_provenance := dict_set ''adopted_target'' (JStr target)
         (dict_set ''adopted_object'' (JStr (adopted_id x)) (lp_provenance p))\<rparr>"

definition approve_proposal ::
  "learn_cfg \<Rightarrow> real \<Rightarrow> string \<Rightarrow> string \<Rightarrow> string \<Rightarrow> string \<Rightarrow> offered \<Rightarrow> string \<Rightarrow> adopted learner_op" where
  "approve_proposal c now i cid pid target off project =
     eff_bind (find_proposal pid) (\<lambda>p s.
       case validate_proposal c (ln_governor s) p of
         (False, reason) \<Rightarrow> learn_refuse (''proposal invalid: '' @ reason) s
       | (True, _) \<Rightarrow>
           if (case ln_governor s of None \<Rightarrow> False | Some g \<Rightarrow> \<not> may_adopt g p False)
           then learn_refuse ''adoption blocked by learning governor'' s
           else eff_bind (adopt c now i cid target off project p) (\<lambda>(x, p').
                  eff_then (eff_modify (put_proposal now (record_adoption target x p'))) (eff_return x)) s)"

definition reject_proposal :: "learn_cfg \<Rightarrow> real \<Rightarrow> string \<Rightarrow> string \<Rightarrow> proposal learner_op" where
  "reject_proposal c now pid reason =
     eff_bind (find_proposal pid) (\<lambda>p.
     eff_bind (engine_reject c p reason) (\<lambda>p'.
       eff_then (eff_modify (put_proposal now p')) (eff_return (touch now p'))))"

definition prov_text :: "string \<Rightarrow> proposal \<Rightarrow> string" where
  "prov_text k p = (case map_of (lp_provenance p) k of Some (JStr t) \<Rightarrow> t | _ \<Rightarrow> [])"

definition reverted :: "real \<Rightarrow> string \<Rightarrow> string \<Rightarrow> preference \<Rightarrow> preference" where
  "reverted now i content current = (default_preference now i)
     \<lparr>pf_scope := pf_scope current, pf_scope_id := pf_scope_id current,
      pf_workflows := filter (\<lambda>w. w \<noteq> content \<and> \<not> str_in content w) (pf_workflows current),
      pf_tools := pf_tools current, pf_format := pf_format current,
      pf_defaults := filter (\<lambda>(k, v). \<not> str_in content v) (pf_defaults current)\<rparr>"

definition revert_preference :: "profiles_cfg \<Rightarrow> real \<Rightarrow> string \<Rightarrow> proposal \<Rightarrow> preference profiles_op" where
  "revert_preference c now i p s =
     (let scope_id = prov_text ''adopted_scope_id'' p in
      if scope_id \<noteq> []
      then case get_project scope_id s of
             None \<Rightarrow> learn_refuse ''adopted profile is gone'' s
           | Some current \<Rightarrow> save_preference c (reverted now i (lp_content p) current) s
      else save_preference c (reverted now i (lp_content p) (get_global c s)) s)"

definition undo_adoption :: "learn_cfg \<Rightarrow> real \<Rightarrow> string \<Rightarrow> offered \<Rightarrow> proposal \<Rightarrow> unit learner_op" where
  "undo_adoption c now i off p =
     (let target = prov_text ''adopted_target'' p in
      if target = ''memory''
      then if \<not> of_memories off then learn_refuse ''no memory store provided''
           else eff_then (on_memory (delete_memory (lc_mem c) (prov_text ''adopted_object'' p))) (eff_return ())
      else if target = ''preference''
      then if \<not> of_preferences off then learn_refuse ''no preference store provided''
           else eff_then (on_profiles (revert_preference (lc_profiles c) now i p)) (eff_return ())
      else learn_refuse (''cannot roll back target '' @ repr_str target))"

definition rollback_proposal :: "learn_cfg \<Rightarrow> real \<Rightarrow> string \<Rightarrow> string \<Rightarrow> offered \<Rightarrow> bool learner_op" where
  "rollback_proposal c now i pid off =
     eff_bind (find_proposal pid) (\<lambda>p.
       if lp_status p \<noteq> PS_ADOPTED then learn_refuse ''only adopted proposals roll back''
       else eff_then (undo_adoption c now i off p)
         (eff_then (eff_modify (put_proposal now (p\<lparr>lp_status := PS_ROLLED_BACK,
              lp_provenance := dict_set ''rolled_back'' (JBool True) (lp_provenance p)\<rparr>))) (eff_return True)))"

fun detect_conflicts :: "proposal list \<Rightarrow> (string \<times> string) list" where
  "detect_conflicts [] = []"
| "detect_conflicts (p # ps) =
     map (\<lambda>q. (ent_id p, ent_id q)) (filter (\<lambda>q. lp_scope p = lp_scope q
        \<and> common_words (memory_keywords (lp_content p)) (memory_keywords (lp_content q)) > 0) ps)
     @ detect_conflicts ps"

subsection \<open>Sequences of operations\<close>

datatype governor_op = Set_Mode learning_mode | Kill | Revive

fun governor_step :: "governor_op \<Rightarrow> governor \<Rightarrow> governor" where
  "governor_step (Set_Mode m) g = g\<lparr>gv_mode := m\<rparr>"
| "governor_step Kill g = g\<lparr>gv_killed := True\<rparr>"
| "governor_step Revive g = g\<lparr>gv_killed := False\<rparr>"

datatype learn_action =
    Generate real "nat \<Rightarrow> string" "usage_event list" string
  | Approve real string string string string offered string
  | Reject real string string
  | Rollback real string string offered
  | Operator governor_op

fun learn_act :: "learn_cfg \<Rightarrow> learn_action \<Rightarrow> learner \<Rightarrow> learner" where
  "learn_act c (Generate now ids es scope) s = snd (generate c now ids es scope s)"
| "learn_act c (Approve now i cid pid target off project) s = snd (approve_proposal c now i cid pid target off project s)"
| "learn_act c (Reject now pid reason) s = snd (reject_proposal c now pid reason s)"
| "learn_act c (Rollback now i pid off) s = snd (rollback_proposal c now i pid off s)"
| "learn_act c (Operator op) s = s\<lparr>ln_governor := map_option (governor_step op) (ln_governor s)\<rparr>"

definition run_learn :: "learn_cfg \<Rightarrow> learn_action list \<Rightarrow> learner \<Rightarrow> learner" where
  "run_learn c acts s = fold (learn_act c) acts s"

text \<open>What an operation that does not write the proposal table leaves alone.\<close>

definition same_desk :: "learner \<Rightarrow> learner \<Rightarrow> bool" where
  "same_desk s s' \<longleftrightarrow> ln_proposals s' = ln_proposals s \<and> ln_governor s' = ln_governor s"

lemma same_desk_refl [simp]: "same_desk s s"
  by (simp add: same_desk_def)

lemma same_desk_on [keeps_intros]:
  "keeps (same_desk s) (on_memory m)" "keeps (same_desk s) (on_profiles n)" "keeps (same_desk s) (learn_emit c ty pl)"
  by (auto simp: keeps_def same_desk_def on_memory_def on_profiles_def learn_emit_def split: prod.splits)

lemma keeps_learn_refuse [keeps_intros]: "keeps I (learn_refuse msg)"
  by (simp add: keeps_def learn_refuse_def)

lemma learn_refuse_run [simp]: "learn_refuse msg s = (Inl (DomainValidationError msg), s)"
  by (simp add: learn_refuse_def)

lemma adopt_keeps: "keeps (same_desk s) (adopt c now i cid target off project p)"
  unfolding adopt_def adopt_to_memory_def adopt_to_preferences_def require_proposed_def
  by (intro keeps_intros)

lemma undo_adoption_keeps: "keeps (same_desk s) (undo_adoption c now i off p)"
  unfolding undo_adoption_def Let_def by (intro keeps_intros)

lemma adopt_Inr:
  assumes "adopt c now i cid target off project p s = (Inr (x, p'), s')"
  shows "lp_status p = PS_PROPOSED \<and> same_desk s s'
    \<and> (\<exists>md. p' = p\<lparr>lp_status := PS_ADOPTED, lp_provenance := md\<rparr>
         \<and> map_of md ''evidence'' = map_of (lp_provenance p) ''evidence'')"
proof
  show "lp_status p = PS_PROPOSED"
    using assms by (auto simp: adopt_def adopt_to_memory_def adopt_to_preferences_def require_proposed_def
        eff_then_def eff_bind_Inr split: if_splits)
  have "same_desk s s'" by (rule keeps_run [OF adopt_keeps same_desk_refl assms])
  moreover have kept: "\<exists>md. p\<lparr>lp_status := PS_ADOPTED\<rparr> = p\<lparr>lp_status := PS_ADOPTED, lp_provenance := md\<rparr>
      \<and> map_of md ''evidence'' = map_of (lp_provenance p) ''evidence''"
    by (rule exI [of _ "lp_provenance p"]) simp
  have "\<exists>md. p' = p\<lparr>lp_status := PS_ADOPTED, lp_provenance := md\<rparr>
      \<and> map_of md ''evidence'' = map_of (lp_provenance p) ''evidence''"
    using assms by (auto simp: adopt_def adopt_to_memory_def adopt_to_preferences_def require_proposed_def
        eff_then_def eff_bind_Inr kept split: if_splits)
  ultimately show "same_desk s s' \<and> (\<exists>md. p' = p\<lparr>lp_status := PS_ADOPTED, lp_provenance := md\<rparr>
      \<and> map_of md ''evidence'' = map_of (lp_provenance p) ''evidence'')" by blast
qed

text \<open>The text of a proposal: everything but its status and provenance.\<close>

definition same_text :: "proposal \<Rightarrow> proposal \<Rightarrow> bool" where
  "same_text p p' \<longleftrightarrow> lp_kind p' = lp_kind p \<and> lp_content p' = lp_content p \<and> lp_pattern p' = lp_pattern p
     \<and> lp_confidence p' = lp_confidence p \<and> lp_scope p' = lp_scope p
     \<and> has_evidence p' = has_evidence p"

text \<open>One step of a proposal's life under the governor \<open>g\<close>.\<close>

definition proposal_move :: "learn_cfg \<Rightarrow> governor option \<Rightarrow> proposal \<Rightarrow> proposal \<Rightarrow> bool" where
  "proposal_move c g p p' \<longleftrightarrow> same_text p p' \<and>
     (lp_status p' = lp_status p
      \<or> lp_status p = PS_PROPOSED \<and> lp_status p' = PS_REJECTED
      \<or> lp_status p = PS_ADOPTED \<and> lp_status p' = PS_ROLLED_BACK
      \<or> lp_status p = PS_PROPOSED \<and> lp_status p' = PS_ADOPTED \<and> fst (validate_proposal c g p)
        \<and> (\<forall>gv. g = Some gv \<longrightarrow> may_adopt gv p False))"

lemma same_text_simps [simp]:
  "same_text p p" "same_text p (touch now q) = same_text p q"
  "same_text p (p\<lparr>lp_status := st, lp_provenance := md\<rparr>)
     = (has_evidence (p\<lparr>lp_provenance := md\<rparr>) = has_evidence p)"
  by (simp_all add: same_text_def has_evidence_def touch_def)

text \<open>The table after the operation: as before, or with the proposal \<open>pid\<close> moved on to the status \<open>st\<close>.\<close>

definition desk_move :: "learn_cfg \<Rightarrow> string \<Rightarrow> proposal_status \<Rightarrow> learner \<Rightarrow> learner \<Rightarrow> bool" where
  "desk_move c pid st s s' \<longleftrightarrow> ln_governor s' = ln_governor s \<and>
     (ln_proposals s' = ln_proposals s
      \<or> (\<exists>now p p'. tbl_get pid (ln_proposals s) = Some p \<and> ent_id p' = pid \<and> lp_status p' = st
           \<and> proposal_move c (ln_governor s) p p' \<and> ln_proposals s' = tbl_put now p' (ln_proposals s)))"

lemma desk_moveI:
  assumes "same_desk s s1" "tbl_get pid (ln_proposals s) = Some p" "ent_id p' = pid"
    "proposal_move c (ln_governor s) p p'" "lp_status p' = st"
  shows "desk_move c pid st s (put_proposal now p' s1)"
  using assms unfolding desk_move_def same_desk_def put_proposal_def by auto

lemma desk_move_same: "same_desk s s' \<Longrightarrow> desk_move c pid st s s'"
  by (simp add: desk_move_def same_desk_def)

lemma find_proposal_run:
  "find_proposal i s = (case tbl_get i (ln_proposals s) of
     None \<Rightarrow> (Inl (DomainValidationError (''unknown proposal '' @ repr_str i)), s) | Some p \<Rightarrow> (Inr p, s))"
  by (simp add: find_proposal_def split: option.split)

lemma approve_desk:
  assumes "wf_table (ln_proposals s)"
  shows "desk_move c pid PS_ADOPTED s (snd (approve_proposal c now i cid pid target off project s))"
proof (cases "tbl_get pid (ln_proposals s)")
  case None
  then show ?thesis by (simp add: approve_proposal_def eff_bind_def find_proposal_run desk_move_same)
next
  case (Some p)
  then have pid: "ent_id p = pid" using wf_table_get [OF assms] by (simp add: tbl_get_def)
  have run: "approve_proposal c now i cid pid target off project s =
    (case validate_proposal c (ln_governor s) p of
         (False, reason) \<Rightarrow> learn_refuse (''proposal invalid: '' @ reason) s
       | (True, _) \<Rightarrow>
           if (case ln_governor s of None \<Rightarrow> False | Some g \<Rightarrow> \<not> may_adopt g p False)
           then learn_refuse ''adoption blocked by learning governor'' s
           else eff_bind (adopt c now i cid target off project p) (\<lambda>(x, p').
                  eff_then (eff_modify (put_proposal now (record_adoption target x p'))) (eff_return x)) s)"
    using Some by (simp add: approve_proposal_def eff_bind_def [of "find_proposal _"] find_proposal_run)
  obtain ok reason where v: "validate_proposal c (ln_governor s) p = (ok, reason)" by fastforce
  let ?may = "\<forall>g. ln_governor s = Some g \<longrightarrow> may_adopt g p False"
  obtain z s1 where z: "adopt c now i cid target off project p s = (z, s1)" by fastforce
  show ?thesis
  proof (cases "ok \<and> ?may")
    case False
    then show ?thesis unfolding run v by (auto intro!: desk_move_same split: bool.splits option.splits)
  next
    case True
    then have may: "\<not> (case ln_governor s of None \<Rightarrow> False | Some g \<Rightarrow> \<not> may_adopt g p False)"
      by (auto split: option.splits)
    show ?thesis
    proof (cases z)
      case (Inl e)
      with True z may have "approve_proposal c now i cid pid target off project s = (Inl e, s1)"
        unfolding run v by (simp add: eff_bind_def)
      moreover have "same_desk s s1" by (rule keeps_run [OF adopt_keeps same_desk_refl z])
      ultimately show ?thesis by (simp add: desk_move_same)
    next
      case (Inr y)
      obtain x p' where y: "y = (x, p')" by fastforce
      from adopt_Inr [OF z [unfolded Inr y]] obtain md where a: "lp_status p = PS_PROPOSED" "same_desk s s1"
        "p' = p\<lparr>lp_status := PS_ADOPTED, lp_provenance := md\<rparr>"
        "map_of md ''evidence'' = map_of (lp_provenance p) ''evidence''" by blast
      have "snd (approve_proposal c now i cid pid target off project s) = put_proposal now (record_adoption target x p') s1"
        using True z may unfolding run v Inr y by (simp add: eff_bind_def eff_then_def)
      moreover have "proposal_move c (ln_governor s) p (record_adoption target x p')"
        using a True v by (auto simp: proposal_move_def record_adoption_def same_text_def has_evidence_def)
      moreover have "ent_id (record_adoption target x p') = pid" "lp_status (record_adoption target x p') = PS_ADOPTED"
        using a pid by (simp_all add: record_adoption_def)
      ultimately show ?thesis using desk_moveI [OF a(2) Some] by simp
    qed
  qed
qed

lemma reject_desk:
  assumes "wf_table (ln_proposals s)"
  shows "desk_move c pid PS_REJECTED s (snd (reject_proposal c now pid reason s))"
proof (cases "tbl_get pid (ln_proposals s)")
  case None
  then show ?thesis by (simp add: reject_proposal_def eff_bind_def find_proposal_run desk_move_same)
next
  case (Some p)
  then have pid: "ent_id p = pid" using wf_table_get [OF assms] by (simp add: tbl_get_def)
  show ?thesis
  proof (cases "lp_status p = PS_PROPOSED")
    case False
    then show ?thesis using Some by (simp add: reject_proposal_def eff_bind_def find_proposal_run engine_reject_def
          require_proposed_def eff_then_def desk_move_same)
  next
    case True
    obtain s1 where e: "learn_emit c ''ProposalRejected''
        [(''proposal_id'', JStr (ent_id p)), (''reason'', JStr reason)] s = (Inr (), s1)"
      by (simp add: learn_emit_def)
    then have "same_desk s s1" by (rule keeps_run [OF same_desk_on(3) same_desk_refl])
    moreover have "snd (reject_proposal c now pid reason s) = put_proposal now (p\<lparr>lp_status := PS_REJECTED\<rparr>) s1"
      using Some True e by (simp add: reject_proposal_def eff_bind_def find_proposal_run engine_reject_def
          require_proposed_def eff_then_def)
    moreover have "proposal_move c (ln_governor s) p (p\<lparr>lp_status := PS_REJECTED\<rparr>)"
      using True by (simp add: proposal_move_def same_text_def has_evidence_def)
    ultimately show ?thesis using desk_moveI [OF _ Some, of s1 "p\<lparr>lp_status := PS_REJECTED\<rparr>"] pid by simp
  qed
qed

lemma rollback_desk:
  assumes "wf_table (ln_proposals s)"
  shows "desk_move c pid PS_ROLLED_BACK s (snd (rollback_proposal c now i pid off s))"
proof (cases "tbl_get pid (ln_proposals s)")
  case None
  then show ?thesis by (simp add: rollback_proposal_def eff_bind_def find_proposal_run desk_move_same)
next
  case (Some p)
  then have pid: "ent_id p = pid" using wf_table_get [OF assms] by (simp add: tbl_get_def)
  let ?p' = "p\<lparr>lp_status := PS_ROLLED_BACK, lp_provenance := dict_set ''rolled_back'' (JBool True) (lp_provenance p)\<rparr>"
  obtain z s1 where z: "undo_adoption c now i off p s = (z, s1)" by fastforce
  have same: "same_desk s s1" by (rule keeps_run [OF undo_adoption_keeps same_desk_refl z])
  show ?thesis
  proof (cases "lp_status p = PS_ADOPTED \<and> (\<exists>u. z = Inr u)")
    case False
    then show ?thesis using Some z same
      by (cases z) (auto simp: rollback_proposal_def eff_bind_def find_proposal_run eff_then_def desk_move_same)
  next
    case True
    have "snd (rollback_proposal c now i pid off s) = put_proposal now ?p' s1"
      using Some True z by (auto simp: rollback_proposal_def eff_bind_def find_proposal_run eff_then_def)
    moreover have "proposal_move c (ln_governor s) p ?p'"
      using True by (simp add: proposal_move_def same_text_def has_evidence_def)
    ultimately show ?thesis using desk_moveI [OF same Some, of ?p'] pid by simp
  qed
qed

subsection \<open>What learning can reach\<close>

definition fresh_proposal :: "learn_cfg \<Rightarrow> proposal \<Rightarrow> bool" where
  "fresh_proposal c p \<longleftrightarrow> lp_status p = PS_PROPOSED \<and> lp_confidence p \<ge> lc_min c \<and> \<not> has_hint (lp_content p) forbidden_kinds"

definition only_filed :: "learn_cfg \<Rightarrow> learner \<Rightarrow> learner \<Rightarrow> bool" where
  "only_filed c s s' \<longleftrightarrow> ln_governor s' = ln_governor s
     \<and> (wf_table (ln_proposals s) \<longrightarrow> wf_table (ln_proposals s'))
     \<and> (\<forall>i. tbl_get i (ln_proposals s') = tbl_get i (ln_proposals s)
          \<or> tbl_get i (ln_proposals s) = None
            \<and> (\<exists>p. tbl_get i (ln_proposals s') = Some p \<and> fresh_proposal c p))"

lemma only_filed_same: "same_desk s s' \<Longrightarrow> only_filed c s s'"
  by (simp add: only_filed_def same_desk_def)

lemma only_filed_trans: "only_filed c s s1 \<Longrightarrow> only_filed c s1 s2 \<Longrightarrow> only_filed c s s2"
  unfolding only_filed_def by (metis option.distinct(1))

lemma propose_pattern_run:
  "propose_pattern c now i pt s = (r, s1) \<Longrightarrow>
     same_desk s s1 \<and> (\<forall>p. r = Inr p \<longrightarrow> p = drafted now i pt \<and> \<not> has_hint (lp_content p) forbidden_kinds)"
  by (auto simp: propose_pattern_def Let_def eff_then_def eff_bind_def learn_emit_def same_desk_def split: if_splits)

lemma create_proposal_filed:
  assumes "create_proposal now p s = (r, s')" "fresh_proposal c p"
  shows "only_filed c s s'"
proof (cases "tbl_create now p (ln_proposals s)")
  case (Inl e)
  with assms show ?thesis by (simp add: create_proposal_def only_filed_same)
next
  case (Inr y)
  obtain p' t where y: "y = (p', t)" by fastforce
  with Inr assms have s': "s' = s\<lparr>ln_proposals := t\<rparr>" by (simp add: create_proposal_def)
  from Inr y have t: "tbl_get (ent_id p) (ln_proposals s) = None" "p' = touch now p"
    "t = dict_set (ent_id p) p' (ln_proposals s)" by (simp_all add: store_simps)
  moreover have "fresh_proposal c p'" using assms t by (simp add: fresh_proposal_def touch_def)
  ultimately show ?thesis using s' wf_table_dict_set [of "ln_proposals s" p']
    by (auto simp: only_filed_def tbl_get_def)
qed

lemma file_patterns_filed: "file_patterns c now ids k pts s = (r, s') \<Longrightarrow> only_filed c s s'"
proof (induction pts arbitrary: k s r s')
  case Nil
  then show ?case by (simp add: only_filed_same)
next
  case (Cons pt pts)
  show ?case
  proof (cases "up_confidence pt < lc_min c")
    case True
    with Cons show ?thesis by simp
  next
    case False
    obtain z s1 where z: "propose_pattern c now (ids k) pt s = (z, s1)" by fastforce
    note pp = propose_pattern_run [OF z]
    show ?thesis
    proof (cases z)
      case (Inl e)
      with Cons.prems False z pp show ?thesis by (auto simp: eff_bind_def only_filed_same)
    next
      case (Inr p)
      with pp False have fresh: "fresh_proposal c p" by (auto simp: fresh_proposal_def drafted_def)
      obtain y s2 where y: "create_proposal now p s1 = (y, s2)" by fastforce
      have f: "only_filed c s s2"
        using only_filed_trans [OF only_filed_same create_proposal_filed [OF y fresh]] pp by blast
      obtain w s3 where w: "file_patterns c now ids (Suc k) pts s2 = (w, s3)" by fastforce
      note f3 = only_filed_trans [OF f Cons.IH [OF w]]
      show ?thesis using Cons.prems False z y w Inr f f3
        by (cases y; cases w) (auto simp: eff_bind_def)
    qed
  qed
qed

lemma may_adopt_unapproved:
  "may_adopt g p False \<longleftrightarrow> \<not> gv_killed g \<and> gv_mode g = LM_AUTO_APPROVE_LOW_RISK \<and> governor_classify p = LR_LOW"
  by (auto simp: may_adopt_def Let_def split: learning_mode.splits)

text \<open>The governor in force after a sequence of actions: only the operator's actions move it.\<close>

definition governor_at :: "learn_action list \<Rightarrow> governor option \<Rightarrow> governor option" where
  "governor_at acts = fold (\<lambda>a. case a of Operator op \<Rightarrow> map_option (governor_step op) | _ \<Rightarrow> id) acts"

text \<open>The action turns the proposal from proposed into adopted.\<close>

definition adopts :: "learn_cfg \<Rightarrow> string \<Rightarrow> learn_action \<Rightarrow> learner \<Rightarrow> bool" where
  "adopts c i a s \<longleftrightarrow> map_option lp_status (tbl_get i (ln_proposals s)) = Some PS_PROPOSED
     \<and> map_option lp_status (tbl_get i (ln_proposals (learn_act c a s))) = Some PS_ADOPTED"

fun names :: "string \<Rightarrow> learn_action \<Rightarrow> bool" where
  "names i (Approve now j cid pid target off project) = (pid = i)"
| "names i _ = False"

lemma run_learn_simps [simp]:
  "run_learn c [] s = s" "run_learn c (acts @ [a]) s = learn_act c a (run_learn c acts s)"
  "governor_at [] g = g"
  "governor_at (acts @ [a]) g = (case a of Operator op \<Rightarrow> map_option (governor_step op) | _ \<Rightarrow> id) (governor_at acts g)"
  by (simp_all add: run_learn_def governor_at_def)

text \<open>What one action does to one row: it files it, or moves it on, and only an approval that names it adopts it.\<close>

definition row_moved :: "learn_cfg \<Rightarrow> learn_action \<Rightarrow> string \<Rightarrow> learner \<Rightarrow> proposal \<Rightarrow> bool" where
  "row_moved c a i s p' \<longleftrightarrow> fresh_proposal c p'
     \<or> (\<exists>p. tbl_get i (ln_proposals s) = Some p \<and> proposal_move c (ln_governor s) p p'
          \<and> (lp_status p \<noteq> PS_ADOPTED \<and> lp_status p' = PS_ADOPTED \<longrightarrow> names i a))"

definition act_moves :: "learn_cfg \<Rightarrow> learn_action \<Rightarrow> learner \<Rightarrow> learner \<Rightarrow> bool" where
  "act_moves c a s s' \<longleftrightarrow> wf_table (ln_proposals s')
     \<and> (\<forall>i p'. tbl_get i (ln_proposals s') = Some p' \<longrightarrow> row_moved c a i s p')"

lemma row_kept: "tbl_get i (ln_proposals s) = Some p \<Longrightarrow> row_moved c a i s p"
  by (auto simp: row_moved_def proposal_move_def)

lemma desk_act_moves:
  assumes wf: "wf_table (ln_proposals s)" and m: "desk_move c pid st s s'"
    and st: "st = PS_ADOPTED \<Longrightarrow> names pid a"
  shows "act_moves c a s s'"
proof (cases "ln_proposals s' = ln_proposals s")
  case True
  with wf row_kept show ?thesis by (simp add: act_moves_def)
next
  case False
  with m obtain now p p' where p: "tbl_get pid (ln_proposals s) = Some p" "ent_id p' = pid" "lp_status p' = st"
    "proposal_move c (ln_governor s) p p'" "ln_proposals s' = tbl_put now p' (ln_proposals s)"
    by (auto simp: desk_move_def)
  have "row_moved c a pid s (touch now p')"
    using p st unfolding row_moved_def proposal_move_def by (auto simp: touch_def same_text_def has_evidence_def)
  then show ?thesis using wf p row_kept
    by (auto simp: act_moves_def snapshot_table.lookup_put snapshot_table.inv_put split: if_splits)
qed

lemma filed_act_moves:
  assumes "wf_table (ln_proposals s)" "only_filed c s s'"
  shows "act_moves c a s s'"
proof -
  have "row_moved c a i s p" if "tbl_get i (ln_proposals s') = Some p" for i p
    using assms(2) that row_kept unfolding only_filed_def row_moved_def by (metis option.inject)
  with assms show ?thesis by (simp add: act_moves_def only_filed_def)
qed

lemma learn_act_moves:
  assumes "wf_table (ln_proposals s)"
  shows "act_moves c a s (learn_act c a s)
    \<and> ln_governor (learn_act c a s) = (case a of Operator op \<Rightarrow> map_option (governor_step op) | _ \<Rightarrow> id) (ln_governor s)"
proof (cases a)
  case (Generate now ids es scope)
  have "only_filed c s (learn_act c a s)"
    using file_patterns_filed [of c now ids 0 _ s] unfolding Generate by (simp add: generate_def) (metis prod.collapse)
  then show ?thesis using filed_act_moves [OF assms] Generate by (simp add: only_filed_def)
next
  case (Approve now i cid pid target off project)
  note d = approve_desk [OF assms, of c pid now i cid target off project]
  with Approve show ?thesis using desk_act_moves [OF assms d, of a] by (simp add: desk_move_def)
next
  case (Reject now pid reason)
  note d = reject_desk [OF assms, of c pid now reason]
  with Reject show ?thesis using desk_act_moves [OF assms d, of a] by (simp add: desk_move_def)
next
  case (Rollback now i pid off)
  note d = rollback_desk [OF assms, of c pid now i off]
  with Rollback show ?thesis using desk_act_moves [OF assms d, of a] by (simp add: desk_move_def)
next
  case (Operator op)
  with assms row_kept show ?thesis by (simp add: act_moves_def row_moved_def proposal_move_def)
qed

text \<open>The adoption of a row: the approval that made it, and the governor that let it.\<close>

definition let_through :: "governor option \<Rightarrow> proposal \<Rightarrow> bool" where
  "let_through g p \<longleftrightarrow> (\<forall>gv. g = Some gv \<longrightarrow> may_adopt gv p False)"

definition lawful :: "learn_cfg \<Rightarrow> learner \<Rightarrow> learn_action list \<Rightarrow> string \<Rightarrow> proposal \<Rightarrow> bool" where
  "lawful c s acts i p \<longleftrightarrow> (\<exists>before a after. acts = before @ a # after \<and> names i a
     \<and> adopts c i a (run_learn c before s) \<and> let_through (governor_at before (ln_governor s)) p)"

definition row_safe :: "learn_cfg \<Rightarrow> learner \<Rightarrow> learn_action list \<Rightarrow> string \<Rightarrow> proposal \<Rightarrow> bool" where
  "row_safe c s acts i p \<longleftrightarrow> lp_confidence p \<ge> lc_min c \<and> \<not> has_hint (lp_content p) forbidden_kinds
     \<and> (lp_status p \<in> {PS_ADOPTED, PS_ROLLED_BACK} \<longrightarrow> has_evidence p \<and> lawful c s acts i p)"

lemma lawful_later: "lawful c s acts i p \<Longrightarrow> same_text p p' \<Longrightarrow> lawful c s (acts @ [a]) i p'"
proof -
  assume l: "lawful c s acts i p" and t: "same_text p p'"
  then obtain before b after where b: "acts = before @ b # after" "names i b"
    "adopts c i b (run_learn c before s)" "let_through (governor_at before (ln_governor s)) p"
    unfolding lawful_def by blast
  from b(4) t have "let_through (governor_at before (ln_governor s)) p'"
    by (simp add: let_through_def may_adopt_unapproved governor_classify_def same_text_def)
  with b show ?thesis unfolding lawful_def by (intro exI [of _ before] exI [of _ b] exI [of _ "after @ [a]"]) simp
qed

lemma row_moved_safe:
  assumes m: "row_moved c a i (run_learn c acts s) p'"
    and I: "\<And>p. tbl_get i (ln_proposals (run_learn c acts s)) = Some p \<Longrightarrow> row_safe c s acts i p"
    and g: "ln_governor (run_learn c acts s) = governor_at acts (ln_governor s)"
    and p': "tbl_get i (ln_proposals (learn_act c a (run_learn c acts s))) = Some p'"
  shows "row_safe c s (acts @ [a]) i p'"
proof (cases "fresh_proposal c p'")
  case True
  then show ?thesis by (simp add: row_safe_def fresh_proposal_def)
next
  case False
  with m obtain p where p: "tbl_get i (ln_proposals (run_learn c acts s)) = Some p"
    and mv: "proposal_move c (governor_at acts (ln_governor s)) p p'"
    and nm: "lp_status p \<noteq> PS_ADOPTED \<and> lp_status p' = PS_ADOPTED \<longrightarrow> names i a" by (auto simp: row_moved_def g)
  note old = I [OF p]
  from mv have t: "same_text p p'" by (simp add: proposal_move_def)
  have new: "has_evidence p' \<and> lawful c s (acts @ [a]) i p'"
    if "lp_status p = PS_PROPOSED" "lp_status p' = PS_ADOPTED"
  proof -
    from mv that have v: "fst (validate_proposal c (governor_at acts (ln_governor s)) p)"
      "let_through (governor_at acts (ln_governor s)) p" by (auto simp: proposal_move_def let_through_def)
    then have "let_through (governor_at acts (ln_governor s)) p'" "has_evidence p'"
      using t by (auto simp: let_through_def may_adopt_unapproved governor_classify_def same_text_def
          validate_proposal_def split: if_splits)
    moreover have "adopts c i a (run_learn c acts s)" using p p' that by (simp add: adopts_def)
    ultimately show ?thesis using nm that unfolding lawful_def
      by (intro conjI exI [of _ acts] exI [of _ a] exI [of _ "[]"]) auto
  qed
  have "lp_status p' \<in> {PS_ADOPTED, PS_ROLLED_BACK} \<longrightarrow> has_evidence p' \<and> lawful c s (acts @ [a]) i p'"
    using mv old new lawful_later [OF _ t] t
    by (auto simp: proposal_move_def row_safe_def same_text_def)
  with old t show ?thesis by (simp add: row_safe_def same_text_def)
qed

lemma run_learn_safe:
  assumes "ln_proposals s = []"
  shows "wf_table (ln_proposals (run_learn c acts s))
    \<and> ln_governor (run_learn c acts s) = governor_at acts (ln_governor s)
    \<and> (\<forall>i p. tbl_get i (ln_proposals (run_learn c acts s)) = Some p \<longrightarrow> row_safe c s acts i p)"
proof (induction acts rule: rev_induct)
  case Nil
  with assms show ?case by (simp add: wf_table_def tbl_get_def)
next
  case (snoc a acts)
  then have wf: "wf_table (ln_proposals (run_learn c acts s))" by blast
  from learn_act_moves [OF wf, of c a] snoc show ?case
    by (auto simp: act_moves_def intro!: row_moved_safe)
qed

definition new_learner :: "governor option \<Rightarrow> mem_store \<Rightarrow> profiles \<Rightarrow> learner" where
  "new_learner g m pr = \<lparr>ln_proposals = [], ln_governor = g, ln_memory = m, ln_profiles = pr, ln_events = []\<rparr>"

lemma governor_at_None [simp]: "governor_at acts g = None \<longleftrightarrow> g = None"
  by (induction acts rule: rev_induct) (auto split: learn_action.splits)

lemma names_Approve: "names i a \<longleftrightarrow> (\<exists>now j cid target off project. a = Approve now j cid i target off project)"
  by (cases a) auto


text \<open>
  A proposal's life. One operation, whatever it is and however it ends, keeps every stored
  proposal with its text, kind, confidence and evidence, and moves its status at most one step:
  from proposed to rejected, from adopted to rolled back, or from proposed to adopted, and the
  last only when the proposal is valid and the governor in force lets it.
\<close>

theorem proposal_life:
  assumes "wf_table (ln_proposals s)" "tbl_get i (ln_proposals s) = Some p"
  shows "\<exists>p'. tbl_get i (ln_proposals (learn_act c a s)) = Some p' \<and> proposal_move c (ln_governor s) p p'"
proof -
  have same: "proposal_move c (ln_governor s) p p" by (simp add: proposal_move_def)
  have moved: "\<exists>p'. tbl_get i (ln_proposals s') = Some p' \<and> proposal_move c (ln_governor s) p p'"
    if m: "desk_move c pid st s s'" for pid st s'
  proof (cases "ln_proposals s' = ln_proposals s")
    case True
    with assms same show ?thesis by simp
  next
    case False
    with m obtain now q q' where q: "tbl_get pid (ln_proposals s) = Some q" "ent_id q' = pid"
      "proposal_move c (ln_governor s) q q'" "ln_proposals s' = tbl_put now q' (ln_proposals s)"
      by (auto simp: desk_move_def)
    have "proposal_move c (ln_governor s) q (touch now q')"
      using q(3) by (simp add: proposal_move_def touch_def same_text_def has_evidence_def)
    with q assms same show ?thesis by (auto simp: snapshot_table.lookup_put)
  qed
  show ?thesis
  proof (cases a)
    case (Generate now ids es scope)
    have "only_filed c s (learn_act c a s)"
      using file_patterns_filed [of c now ids 0 _ s] unfolding Generate by (simp add: generate_def) (metis prod.collapse)
    then show ?thesis using assms same unfolding only_filed_def by (metis option.distinct(1))
  qed (use assms same in \<open>auto intro!: moved [OF approve_desk] moved [OF reject_desk] moved [OF rollback_desk]\<close>)
qed

lemma adopt_memory_Inr:
  assumes "adopt c now i cid ''memory'' off project p s = (Inr (x, p'), s1)"
  shows "p' = p\<lparr>lp_status := PS_ADOPTED\<rparr> \<and> adopted_id x = i \<and> ln_profiles s1 = ln_profiles s
    \<and> tbl_get i (mm_table (ln_memory s)) = None
    \<and> (\<exists>m. mm_table (ln_memory s1) = dict_set i m (mm_table (ln_memory s)))"
proof -
  from assms obtain m s2 where m: "on_memory (store (lc_mem c) now i (adopted_candidate now cid p)) s = (Inr m, s2)"
    "learn_emit c ''ProposalAdopted'' [(''proposal_id'', JStr (ent_id p)), (''memory_id'', JStr (ent_id m))] s2 = (Inr (), s1)"
    "x = Adopted_Memory m" "p' = p\<lparr>lp_status := PS_ADOPTED\<rparr>"
    by (auto simp: adopt_def adopt_to_memory_def require_proposed_def eff_then_def eff_bind_Inr split: if_splits)
  then have st: "store_with (lc_mem c) now i (adopted_candidate now cid p) None (ln_memory s) = (Inr m, ln_memory s2)"
    "ln_profiles s2 = ln_profiles s" by (auto simp: on_memory_def store_def split: prod.splits)
  moreover have "ln_memory s1 = ln_memory s2" "ln_profiles s1 = ln_profiles s2"
    using m(2) by (auto simp: learn_emit_def)
  ultimately show ?thesis using m store_with_Inr [OF st(1)] by auto
qed

lemma approve_Inr:
  assumes "approve_proposal c now i cid pid target off project s = (Inr x, s')"
  shows "\<exists>p p' s1. tbl_get pid (ln_proposals s) = Some p \<and> fst (validate_proposal c (ln_governor s) p)
    \<and> (\<forall>g. ln_governor s = Some g \<longrightarrow> may_adopt g p False)
    \<and> adopt c now i cid target off project p s = (Inr (x, p'), s1)
    \<and> s' = put_proposal now (record_adoption target x p') s1"
  using assms by (auto simp: approve_proposal_def eff_bind_Inr find_proposal_run eff_then_def learn_refuse_def
      split: option.splits prod.splits bool.splits if_splits)

lemma del_set_new: "tbl_get i t = None \<Longrightarrow> dict_del i (dict_set i x t) = t"
  by (induction t) (auto simp: tbl_get_def split: if_splits)

lemma delete_memory_run:
  "\<exists>b s'. delete_memory f i s = (Inr b, s') \<and> mm_table s' = dict_del i (mm_table s)"
  by (cases "i \<in> set (keys (mm_table s))")
    (auto simp: delete_memory_def tbl_delete_def Let_def eff_then_def eff_bind_def mem_emit_def)

text \<open>
  C32: An adoption into memory can be taken back. When an approval for the memory store has
  returned, rolling the same proposal back, at any later time, succeeds: the memory table is the
  one from before the approval, row for row, the preferences are untouched, and the proposal is
  rolled back; rolling it back a second time is refused.
\<close>

theorem adoption_rolls_back:
  assumes wf: "wf_table (ln_proposals s)" and off: "of_memories off'"
    and ok: "approve_proposal c now i cid pid ''memory'' off project s = (Inr x, s1)"
  shows "\<exists>s2 p. rollback_proposal c later j pid off' s1 = (Inr True, s2)
    \<and> mm_table (ln_memory s2) = mm_table (ln_memory s) \<and> ln_profiles s2 = ln_profiles s
    \<and> tbl_get pid (ln_proposals s2) = Some p \<and> lp_status p = PS_ROLLED_BACK
    \<and> isl (fst (rollback_proposal c later2 j2 pid off2 s2))"
proof -
  from approve_Inr [OF ok] obtain p p' s0 where p: "tbl_get pid (ln_proposals s) = Some p"
    and a: "adopt c now i cid ''memory'' off project p s = (Inr (x, p'), s0)"
    and s1: "s1 = put_proposal now (record_adoption ''memory'' x p') s0" by blast
  note am = adopt_memory_Inr [OF a]
  from adopt_Inr [OF a] have desk: "ln_proposals s0 = ln_proposals s" by (simp add: same_desk_def)
  have pid: "ent_id p = pid" using wf_table_get [OF wf] p by (simp add: tbl_get_def)
  let ?q = "touch now (record_adoption ''memory'' x p')"
  have ids: "ent_id (record_adoption ''memory'' x p') = pid" "ent_id ?q = pid"
    using am pid by (simp_all add: record_adoption_def)
  have q: "tbl_get pid (ln_proposals s1) = Some ?q" using wf ids desk s1
    by (simp add: put_proposal_def snapshot_table.lookup_put)
  have prov: "prov_text ''adopted_target'' ?q = ''memory''" "prov_text ''adopted_object'' ?q = i" "lp_status ?q = PS_ADOPTED"
    using am by (simp_all add: prov_text_def record_adoption_def touch_def)
  obtain b t where b: "delete_memory (lc_mem c) i (ln_memory s1) = (Inr b, t)"
    "mm_table t = dict_del i (mm_table (ln_memory s1))"
    using delete_memory_run by blast
  let ?u = "s1\<lparr>ln_memory := t\<rparr>"
  have undo: "undo_adoption c later j off' ?q s1 = (Inr (), ?u)"
    using prov off b(1) by (simp add: undo_adoption_def on_memory_def eff_then_def eff_bind_def)
  let ?r = "?q\<lparr>lp_status := PS_ROLLED_BACK, lp_provenance := dict_set ''rolled_back'' (JBool True) (lp_provenance ?q)\<rparr>"
  have run: "rollback_proposal c later j pid off' s1 = (Inr True, put_proposal later ?r ?u)"
    using q prov undo by (simp add: rollback_proposal_def eff_bind_def find_proposal_run eff_then_def)
  have "mm_table (ln_memory s1) = mm_table (ln_memory s0)" "ln_profiles s1 = ln_profiles s0"
    using s1 by (simp_all add: put_proposal_def)
  then have "mm_table (ln_memory (put_proposal later ?r ?u)) = mm_table (ln_memory s)"
    "ln_profiles (put_proposal later ?r ?u) = ln_profiles s"
    using am b(2) del_set_new by (auto simp: put_proposal_def)
  moreover have wf1: "wf_table (ln_proposals s1)" using wf desk s1
    by (simp add: put_proposal_def snapshot_table.inv_put)
  moreover have g: "tbl_get pid (ln_proposals (put_proposal later ?r ?u)) = Some (touch later ?r)"
    using wf1 ids by (simp add: put_proposal_def snapshot_table.lookup_put)
  moreover have "isl (fst (rollback_proposal c later2 j2 pid off2 (put_proposal later ?r ?u)))"
    using g by (simp add: rollback_proposal_def eff_bind_def find_proposal_run touch_def)
  ultimately show ?thesis using run by (auto simp: touch_def)
qed

text \<open>
  An approval is refused unless the governor is alive and in its automatic mode: under every
  other posture, the default one included, it raises, and neither the memory store nor the
  preferences nor any proposal is touched.
\<close>

theorem approval_is_refused:
  assumes g: "ln_governor s = Some g" and "gv_killed g \<or> gv_mode g \<noteq> LM_AUTO_APPROVE_LOW_RISK"
  shows "\<exists>e. approve_proposal c now i cid pid target off project s = (Inl e, s)"
proof -
  have "\<not> may_adopt g p False" for p using assms by (auto simp: may_adopt_unapproved)
  then show ?thesis using g
    by (auto simp: approve_proposal_def eff_bind_def find_proposal_run learn_refuse_def split: option.splits prod.splits bool.splits)
qed

lemma load_persist_governor:
  "wf_table t \<Longrightarrow> \<exists>row t'. persist_governor now g t = Inr (row, t') \<and> wf_table t' \<and> load_governor t' = g"
proof (cases "tbl_get ''global'' t")
  case None
  let ?row = "\<lparr>ent_id = ''global'', ent_created = now, ent_updated = now, gr_mode = gv_mode g, gr_killed = gv_killed g\<rparr>"
  assume wf: "wf_table t"
  have "tbl_create now ?row t = Inr (touch now ?row, dict_set ''global'' (touch now ?row) t)"
    using None by (simp add: store_simps)
  with None wf_table_dict_set [OF wf, of "touch now ?row"] show ?thesis
    by (simp add: persist_governor_def load_governor_def tbl_get_def touch_def)
next
  case (Some row)
  assume wf: "wf_table t"
  then have "ent_id row = ''global''" using Some wf_table_get by (simp add: tbl_get_def)
  with Some wf_table_dict_set [OF wf, of "touch now (row\<lparr>gr_mode := gv_mode g, gr_killed := gv_killed g\<rparr>)"] show ?thesis
    by (simp add: persist_governor_def load_governor_def tbl_get_def touch_def store_simps)
qed

subsection \<open>Examples\<close>

definition demo_detector :: detector where
  "demo_detector = \<lparr>dt_min_evidence = 2, dt_smoothing = 3, dt_round3 = (\<lambda>x. x), dt_percent = (\<lambda>_. ''0%''), dt_new_id = (\<lambda>_. ''pt'')\<rparr>"

definition demo_learn :: learn_cfg where
  "demo_learn = \<lparr>lc_bus = True, lc_min = 3 / 10, lc_detector = demo_detector, lc_mem = demo_mem, lc_profiles = demo_profiles_cfg\<rparr>"

definition model_events :: "usage_event list" where
  "model_events = map (\<lambda>i. usage 0 i ''model'' ''qwen'' True 1 [] [] []) [''a'', ''b'', ''c'']"

definition auto_governor :: governor where
  "auto_governor = \<lparr>gv_mode = LM_AUTO_APPROVE_LOW_RISK, gv_killed = False\<rparr>"

definition both_stores :: offered where
  "both_stores = \<lparr>of_memories = True, of_preferences = True\<rparr>"

definition proposed :: learner where
  "proposed = run_learn demo_learn [Generate 1 (\<lambda>_. ''p1'') model_events []]
     (new_learner (Some auto_governor) new_mem_store demo_profiles)"

definition approve_p1 :: learn_action where
  "approve_p1 = Approve 2 ''m1'' ''c1'' ''p1'' ''memory'' both_stores []"


lemma proposed_wf: "wf_table (ln_proposals proposed)"
  by code_simp

lemma proposal_life_witness:
  "\<exists>p p'. tbl_get ''p1'' (ln_proposals proposed) = Some p
     \<and> tbl_get ''p1'' (ln_proposals (learn_act demo_learn approve_p1 proposed)) = Some p' \<and> same_text p p'"
proof -
  have "tbl_get ''p1'' (ln_proposals proposed) \<noteq> None" by code_simp
  then obtain p where p: "tbl_get ''p1'' (ln_proposals proposed) = Some p" by auto
  from proposal_life [OF proposed_wf p, of demo_learn approve_p1] p show ?thesis by (auto simp: proposal_move_def)
qed

lemma adoption_rolls_back_witness:
  "\<exists>x s1 s2. approve_proposal demo_learn 2 ''m1'' ''c1'' ''p1'' ''memory'' both_stores [] proposed = (Inr x, s1)
     \<and> rollback_proposal demo_learn 3 ''j'' ''p1'' both_stores s1 = (Inr True, s2)"
proof -
  let ?a = "approve_proposal demo_learn 2 ''m1'' ''c1'' ''p1'' ''memory'' both_stores [] proposed"
  have "\<not> isl (fst ?a)" by code_simp
  then obtain x s1 where a: "?a = (Inr x, s1)" by (metis isl_def prod.collapse sum.collapse(2))
  have "of_memories both_stores" by (simp add: both_stores_def)
  from adoption_rolls_back [OF proposed_wf this a] a show ?thesis by blast
qed

lemma approval_is_refused_witness:
  "isl (fst (approve_proposal demo_learn 2 ''m1'' ''c1'' ''p1'' ''memory'' both_stores []
     (new_learner (Some new_governor) new_mem_store demo_profiles)))"
proof -
  have "gv_killed new_governor \<or> gv_mode new_governor \<noteq> LM_AUTO_APPROVE_LOW_RISK"
    by (simp add: new_governor_def)
  from approval_is_refused [OF _ this, of "new_learner (Some new_governor) new_mem_store demo_profiles" demo_learn 2 "''m1''"
    "''c1''" "''p1''" "''memory''" both_stores "[]"] show ?thesis by (auto simp: new_learner_def)
qed

text \<open>A project that prefers JSON gets the default format back once a hint is adopted for it.\<close>

lemma adoption_drops_preferences:
  "(let c = demo_profiles_cfg; s = snd (save_preference c json_preference demo_profiles);
        p = adopted_profile 9 ''z'' ''p'' (drafted 1 ''p1'' (hd (detect demo_detector model_events [])));
        s' = snd (save_preference c p s)
    in pf_format (get_effective c ''p'' s) = ''json'' \<and> pf_format (get_effective c ''p'' s') = ''markdown'')"
  by code_simp

end
