(* ===== verification/Int_Text.thy ===== *)
theory Int_Text
  imports Json
begin

text \<open>
  Python's \<open>int\<close> of a text, as the versions of skills (\<^verbatim>\<open>skills/registry.py\<close>) and the sizes of data
  sets (\<^verbatim>\<open>cloud/external.py\<close>) use it.
\<close>

text \<open>\<open>int(s)\<close>: white space around, a sign, digits with single underscores between.\<close>

definition unsigned_text :: "string \<Rightarrow> bool" where
  "unsigned_text s \<longleftrightarrow> list_all (\<lambda>w. w \<noteq> [] \<and> list_all is_digit w) (split_char CHR ''_'' s)"

definition unsigned_value :: "string \<Rightarrow> int" where
  "unsigned_value s = int (digits_value (filter (\<lambda>ch. ch \<noteq> CHR ''_'') s))"

definition int_of_text :: "string \<Rightarrow> int option" where
  "int_of_text s =
     (case strip_str s of
        [] \<Rightarrow> None
      | ch # rest \<Rightarrow>
          if ch = CHR ''-'' then (if unsigned_text rest then Some (- unsigned_value rest) else None)
          else if ch = CHR ''+'' then (if unsigned_text rest then Some (unsigned_value rest) else None)
          else if unsigned_text (ch # rest) then Some (unsigned_value (ch # rest)) else None)"

lemma split_char_ne [simp]: "split_char sep s \<noteq> []"
  by (induction s) (auto split: list.split)

lemma split_char_word: "sep \<notin> set w \<Longrightarrow> split_char sep w = [w]"
  by (induction w) auto

lemma digit_not_space: "is_digit ch \<Longrightarrow> \<not> is_space_char ch"
  by (auto simp: is_digit_def is_space_char_def Let_def)

lemma strip_digits: "list_all is_digit s \<Longrightarrow> strip_str s = s"
proof -
  have d: "list_all is_digit t \<Longrightarrow> dropWhile is_space_char t = t" for t
    by (cases t) (auto simp: digit_not_space)
  assume "list_all is_digit s"
  then show ?thesis by (simp add: strip_str_def d list_all_rev)
qed

lemma digit_plain: "is_digit ch \<Longrightarrow> ch \<notin> {CHR ''_'', CHR ''-'', CHR ''+'', CHR ''.''}"
  by (auto simp: is_digit_def)

lemma int_of_digits:
  assumes "s \<noteq> []" "list_all is_digit s"
  shows "int_of_text s = Some (int (digits_value s))"
proof -
  obtain ch rest where s: "s = ch # rest" using assms(1) by (cases s) auto
  have "CHR ''_'' \<notin> set s" "ch \<noteq> CHR ''-''" "ch \<noteq> CHR ''+''"
    using assms s digit_plain by (auto simp: list_all_iff)
  moreover from this have "unsigned_text s" using assms
    by (simp add: unsigned_text_def split_char_word)
  moreover have "filter (\<lambda>ch. ch \<noteq> CHR ''_'') s = s"
    using \<open>CHR ''_'' \<notin> set s\<close> by (auto intro!: filter_True)
  ultimately show ?thesis using s strip_digits [OF assms(2)] by (simp add: int_of_text_def unsigned_value_def)
qed

end
