(* ===== verification/Skills.thy ===== *)
theory Skills
  imports Memory Policy Int_Text "HOL-Library.Product_Lexorder"
begin

text \<open>
  Skills (\<^verbatim>\<open>skills/registry.py\<close>): versioned workflow templates over the snapshot table of
  \<^verbatim>\<open>SqliteSkillRepository\<close>, the builder that turns a template and inputs into a validated plan, and
  the inbox of candidates. Templates are JSON objects. The keyword changes of \<open>new_version\<close>, the
  rounding of a score, new identifiers and the time of a call are arguments.
\<close>

subsection \<open>Data\<close>

datatype skill_type = ST_BUILTIN | ST_USER_DEFINED | ST_LEARNED_PROPOSAL | ST_IMPORTED

datatype skill_status = SS_ACTIVE | SS_DISABLED | SS_ARCHIVED

fun skill_status_value :: "skill_status \<Rightarrow> string" where
  "skill_status_value SS_ACTIVE = ''ACTIVE''"
| "skill_status_value SS_DISABLED = ''DISABLED''"
| "skill_status_value SS_ARCHIVED = ''ARCHIVED''"

record skill = entity +
  sk_name :: string
  sk_version :: string
  sk_description :: string
  sk_input_schema :: arguments
  sk_output_schema :: arguments
  sk_code_ref :: string
  sk_type :: skill_type
  sk_status :: skill_status
  sk_allowed :: "string list"
  sk_capabilities :: "string list"
  sk_risk :: risk_level
  sk_workflow :: "arguments list"
  sk_checks :: "arguments list"
  sk_author :: string
  sk_scope :: memory_scope
  sk_scope_id :: string

record skill_candidate = entity +
  sc_name :: string
  sc_description :: string
  sc_type :: skill_type
  sc_allowed :: "string list"
  sc_capabilities :: "string list"
  sc_risk :: risk_level
  sc_input_schema :: arguments
  sc_output_schema :: arguments
  sc_workflow :: "arguments list"
  sc_checks :: "arguments list"
  sc_author :: string
  sc_scope :: memory_scope
  sc_scope_id :: string
  sc_reason :: string

subsection \<open>Versions\<close>

text \<open>\<open>isdigit\<close> also holds of the superscripts one, two and three, which \<open>int\<close> refuses.\<close>

definition digit_like :: "char \<Rightarrow> bool" where
  "digit_like ch \<longleftrightarrow> is_digit ch \<or> (of_char ch :: nat) \<in> {178, 179, 185}"

definition alnum_char :: "char \<Rightarrow> bool" where
  "alnum_char ch =
     (let n = (of_char ch :: nat) in
      (48 \<le> n \<and> n \<le> 57) \<or> (65 \<le> n \<and> n \<le> 90) \<or> (97 \<le> n \<and> n \<le> 122)
      \<or> n \<in> {170, 178, 179, 181, 185, 186, 188, 189, 190} \<or> (192 \<le> n \<and> n \<noteq> 215 \<and> n \<noteq> 247))"

definition is_digits :: "string \<Rightarrow> bool" where
  "is_digits s \<longleftrightarrow> s \<noteq> [] \<and> list_all digit_like s"

type_synonym version_keys = "(nat \<times> int \<times> string) list"

definition chunk_key :: "string \<Rightarrow> (nat \<times> int \<times> string) result" where
  "chunk_key chunk =
     (if is_digits chunk
      then case int_of_text chunk of
             None \<Rightarrow> Inl (OtherException ''ValueError'') | Some n \<Rightarrow> Inr (0, n, [])
      else Inr (1, 0, chunk))"

fun chunk_keys :: "string list \<Rightarrow> version_keys result" where
  "chunk_keys [] = Inr []"
| "chunk_keys (w # ws) = bind_result (chunk_key w) (\<lambda>k. bind_result (chunk_keys ws) (\<lambda>ks. Inr (k # ks)))"

definition version_key :: "string \<Rightarrow> version_keys result" where
  "version_key v = chunk_keys (split_char CHR ''.'' v)"

definition valid_chunk :: "string \<Rightarrow> bool" where
  "valid_chunk w \<longleftrightarrow> is_digits w
     \<or> (let u = filter (\<lambda>ch. ch \<noteq> CHR ''-'' \<and> ch \<noteq> CHR ''_'') w in u \<noteq> [] \<and> list_all alnum_char u)"

definition valid_version :: "string \<Rightarrow> bool" where
  "valid_version v \<longleftrightarrow> v \<noteq> [] \<and> list_all valid_chunk (split_char CHR ''.'' v)"

definition three_parts :: "string list \<Rightarrow> string list" where
  "three_parts ps = ps @ replicate (3 - length ps) ''0''"

definition bump_version :: "string \<Rightarrow> string" where
  "bump_version v =
     (let ps = three_parts (split_char CHR ''.'' v) in
      join_str ''.'' (case int_of_text (last ps) of
          None \<Rightarrow> ps @ [''1''] | Some n \<Rightarrow> butlast ps @ [int_text (n + 1)]))"

subsection \<open>SkillRegistry\<close>

record skill_store =
  sr_table :: "skill table"
  sr_events :: "event list"

type_synonym 'a skill_op = "(skill_store, 'a) eff"

definition skill_emit :: "bool \<Rightarrow> string \<Rightarrow> string \<Rightarrow> arguments \<Rightarrow> unit skill_op" where
  "skill_emit bus ty tid pl = eff_modify (\<lambda>s.
     if bus then s\<lparr>sr_events := sr_events s @ [mk_event ty tid (JObj pl)]\<rparr> else s)"

definition skill_create :: "real \<Rightarrow> skill \<Rightarrow> skill skill_op" where
  "skill_create now k s =
     (case tbl_create now k (sr_table s) of
        Inl e \<Rightarrow> eff_raise e s | Inr (k', t) \<Rightarrow> eff_return k' (s\<lparr>sr_table := t\<rparr>))"

definition skill_row :: "skill \<Rightarrow> arguments" where
  "skill_row k = [(''skill_id'', JStr (ent_id k)), (''name'', JStr (sk_name k)), (''version'', JStr (sk_version k))]"

definition register_skill :: "bool \<Rightarrow> real \<Rightarrow> skill \<Rightarrow> skill skill_op" where
  "register_skill bus now k s =
     (if sk_name k = [] then eff_raise (DomainValidationError ''skill name must not be empty'') s
      else if \<not> valid_version (sk_version k)
      then eff_raise (DomainValidationError (''invalid skill version '' @ repr_str (sk_version k))) s
      else if tbl_get (ent_id k) (sr_table s) \<noteq> None
      then eff_raise (DomainValidationError (''duplicate skill id '' @ repr_str (ent_id k))) s
      else eff_bind (skill_create now k) (\<lambda>created.
             eff_then (skill_emit bus ''SkillCreated'' [] (skill_row created)) (eff_return created)) s)"

text \<open>\<open>sorted(ks, key=...)\<close> where the key may raise.\<close>

fun keyed :: "skill list \<Rightarrow> (version_keys \<times> skill) list result" where
  "keyed [] = Inr []"
| "keyed (k # ks) = bind_result (version_key (sk_version k)) (\<lambda>v. bind_result (keyed ks) (\<lambda>r. Inr ((v, k) # r)))"

definition sort_versions :: "skill list \<Rightarrow> skill list result" where
  "sort_versions ks = bind_result (keyed ks) (\<lambda>r. Inr (map snd (sort_key fst r)))"

definition named :: "string \<Rightarrow> skill_store \<Rightarrow> skill list" where
  "named name s = filter (\<lambda>k. sk_name k = name) (tbl_list (sr_table s))"

definition lookup_skill :: "string \<Rightarrow> string option \<Rightarrow> skill_store \<Rightarrow> skill option result" where
  "lookup_skill name version s =
     (if named name s = [] then Inr None
      else case version of
        Some v \<Rightarrow> Inr (find (\<lambda>k. sk_version k = v) (named name s))
      | None \<Rightarrow>
          let active = filter (\<lambda>k. sk_status k = SS_ACTIVE) (named name s) in
          if active = [] then Inr None
          else bind_result (sort_versions active) (\<lambda>ks. Inr (Some (last ks))))"

definition skill_versions :: "string \<Rightarrow> skill_store \<Rightarrow> skill list result" where
  "skill_versions name s = sort_versions (named name s)"

definition new_version ::
  "bool \<Rightarrow> real \<Rightarrow> string \<Rightarrow> (skill \<Rightarrow> skill result) \<Rightarrow> string \<Rightarrow> skill skill_op" where
  "new_version bus now i changes name s =
     (case lookup_skill name None s of
        Inl e \<Rightarrow> eff_raise e s
      | Inr None \<Rightarrow> eff_raise (DomainValidationError (''unknown skill '' @ repr_str name)) s
      | Inr (Some current) \<Rightarrow>
          (case changes (current\<lparr>ent_id := i, ent_created := now\<rparr>) of
             Inl e \<Rightarrow> eff_raise e s
           | Inr k \<Rightarrow>
               eff_bind (skill_create now (k\<lparr>sk_version := bump_version (sk_version current)\<rparr>)) (\<lambda>created.
                 eff_then (skill_emit bus ''SkillUpdated'' []
                     [(''skill_id'', JStr (ent_id created)), (''name'', JStr name), (''version'', JStr (sk_version created))])
                   (eff_return created)) s))"

definition set_skill_status :: "bool \<Rightarrow> real \<Rightarrow> string \<Rightarrow> skill_status \<Rightarrow> skill skill_op" where
  "set_skill_status bus now i st s =
     (case tbl_get i (sr_table s) of
        None \<Rightarrow> eff_raise (ResourceNotFoundError ''Skill'' i) s
      | Some k \<Rightarrow>
          let k' = k\<lparr>sk_status := st\<rparr>; s1 = s\<lparr>sr_table := tbl_put now k' (sr_table s)\<rparr> in
          eff_then (if st = SS_DISABLED then skill_emit bus ''SkillDisabled'' [] [(''skill_id'', JStr i)]
                    else eff_return ()) (eff_return (touch now k')) s1)"

definition delete_skill :: "string \<Rightarrow> bool skill_op" where
  "delete_skill i s = (let (found, t) = tbl_delete i (sr_table s) in eff_return found (s\<lparr>sr_table := t\<rparr>))"

definition skill_keywords :: "string \<Rightarrow> string list" where
  "skill_keywords = word_set (\<lambda>w. length w > 2)"

definition skill_overlap :: "string list \<Rightarrow> skill \<Rightarrow> real" where
  "skill_overlap wants k =
     (if wants = [] then 1 / 2
      else real (common_words wants (skill_keywords (sk_name k @ '' '' @ sk_description k)))
             / real (max 1 (length wants)))"

definition discoverable :: "string list \<Rightarrow> string list \<Rightarrow> string \<Rightarrow> skill \<Rightarrow> bool" where
  "discoverable wants required scope_id k \<longleftrightarrow>
     sk_status k = SS_ACTIVE
     \<and> \<not> (sk_scope k \<noteq> SC_GLOBAL \<and> (scope_id = [] \<or> sk_scope_id k \<noteq> scope_id))
     \<and> \<not> (required \<noteq> [] \<and> \<not> set required \<subseteq> set (sk_capabilities k))
     \<and> \<not> (wants \<noteq> [] \<and> skill_overlap wants k \<le> 0)"

definition select_skills ::
  "bool \<Rightarrow> (real \<Rightarrow> real) \<Rightarrow> string \<Rightarrow> string list \<Rightarrow> string \<Rightarrow> int \<Rightarrow> skill_store \<Rightarrow> skill list \<times> skill_store" where
  "select_skills bus round3 query required scope_id limit s =
     (let wants = skill_keywords query;
          hits = filter (discoverable wants required scope_id) (tbl_list (sr_table s));
          found = take (nat limit)
            (sort_key (\<lambda>k. - round3 (skill_overlap wants k)) (sort_key sk_name hits))
      in (found, snd (skill_emit bus ''SkillSelected'' []
            [(''query'', JStr query), (''selected'', JList (map (JStr \<circ> sk_name) found))] s)))"

definition announce_outcome :: "bool \<Rightarrow> skill \<Rightarrow> string \<Rightarrow> bool \<Rightarrow> string \<Rightarrow> unit skill_op" where
  "announce_outcome bus k tid ok detail =
     skill_emit bus (if ok then ''SkillCompleted'' else ''SkillFailed'') tid
       (skill_row k @ [(''detail'', JStr detail)])"

subsection \<open>SkillPlanBuilder\<close>

text \<open>\<open>$inputs.name\<close>, with a name of letters, digits and underscores that starts with no digit.\<close>

definition ident_start :: "char \<Rightarrow> bool" where
  "ident_start ch \<longleftrightarrow>
     (let n = (of_char ch :: nat) in (65 \<le> n \<and> n \<le> 90) \<or> (97 \<le> n \<and> n \<le> 122) \<or> n = 95)"

definition ident_char :: "char \<Rightarrow> bool" where
  "ident_char ch \<longleftrightarrow> ident_start ch \<or> is_digit ch"

definition placeholder_mark :: string where
  "placeholder_mark = ''$inputs.''"

text \<open>The name of the placeholder a text starts with.\<close>

definition placeholder :: "string \<Rightarrow> string option" where
  "placeholder s =
     (let rest = drop (length placeholder_mark) s in
      if starts_with placeholder_mark s \<and> rest \<noteq> [] \<and> ident_start (hd rest)
      then Some (takeWhile ident_char rest) else None)"

function fill_inputs :: "arguments \<Rightarrow> string \<Rightarrow> string" where
  "fill_inputs inputs [] = []"
| "fill_inputs inputs (ch # s) =
     (case placeholder (ch # s) of
        None \<Rightarrow> ch # fill_inputs inputs s
      | Some x \<Rightarrow>
          (case map_of inputs x of None \<Rightarrow> placeholder_mark @ x | Some v \<Rightarrow> str_json v)
          @ fill_inputs inputs (drop (length placeholder_mark + length x - 1) s))"
  by pat_completeness auto
termination by (relation "measure (length \<circ> snd)") (auto simp: less_Suc_eq_le)

definition fill_argument :: "arguments \<Rightarrow> json \<Rightarrow> json" where
  "fill_argument inputs v = (case v of JStr t \<Rightarrow> JStr (fill_inputs inputs t) | _ \<Rightarrow> v)"

text \<open>\<open>str(template.get(k, other))\<close>, and the values pydantic takes for an id and a list of ids.\<close>

definition template_text :: "string \<Rightarrow> string \<Rightarrow> arguments \<Rightarrow> string" where
  "template_text k other t = (case map_of t k of None \<Rightarrow> other | Some v \<Rightarrow> str_json v)"

definition template_id :: "nat \<Rightarrow> arguments \<Rightarrow> string result" where
  "template_id n t =
     (case map_of t ''id'' of
        None \<Rightarrow> Inr (''step-'' @ nat_digits (n + 1))
      | Some (JStr i) \<Rightarrow> Inr i
      | Some _ \<Rightarrow> Inl (OtherException ''ValidationError''))"

fun all_text :: "json list \<Rightarrow> string list result" where
  "all_text [] = Inr []"
| "all_text (JStr t # vs) = bind_result (all_text vs) (\<lambda>ts. Inr (t # ts))"
| "all_text (_ # vs) = Inl (OtherException ''ValidationError'')"

definition template_deps :: "arguments \<Rightarrow> string list result" where
  "template_deps t =
     (case map_of t ''dependencies'' of
        None \<Rightarrow> Inr []
      | Some (JList vs) \<Rightarrow> all_text vs
      | Some (JStr s) \<Rightarrow> Inr (map (\<lambda>ch. [ch]) s)
      | Some (JObj ms) \<Rightarrow> Inr (keys ms)
      | Some _ \<Rightarrow> Inl (OtherException ''TypeError''))"

definition template_tool :: "skill \<Rightarrow> 'h registry \<Rightarrow> arguments \<Rightarrow> (string \<times> tool) result" where
  "template_tool k rg t =
     (let v = (case map_of t ''tool'' of None \<Rightarrow> JStr [] | Some v \<Rightarrow> v);
          outside = Inl (DomainValidationError (''skill step uses tool '' @ repr_json v @ '' outside allowed_tools''))
      in case v of
           JStr name \<Rightarrow>
             if name \<notin> set (sk_allowed k) then outside
             else (case reg_get name rg of
                     None \<Rightarrow> Inl (DomainValidationError (''unknown tool '' @ repr_str name)) | Some known \<Rightarrow> Inr (name, known))
         | _ \<Rightarrow> outside)"

definition template_arguments :: "arguments \<Rightarrow> string \<Rightarrow> arguments \<Rightarrow> arguments result" where
  "template_arguments inputs sid t =
     (case map_of t ''arguments'' of
        None \<Rightarrow> Inr []
      | Some (JObj ms) \<Rightarrow> Inr (map (\<lambda>(a, v). (a, fill_argument inputs v)) ms)
      | Some _ \<Rightarrow> Inl (DomainValidationError (''step '' @ repr_str sid @ '' arguments must be a mapping'')))"

definition build_step ::
  "skill \<Rightarrow> 'h registry \<Rightarrow> arguments \<Rightarrow> nat \<Rightarrow> arguments \<Rightarrow> (plan_step \<times> arguments) result" where
  "build_step k rg inputs n t =
     bind_result (template_tool k rg t) (\<lambda>(name, known).
     bind_result (template_id n t) (\<lambda>sid.
     bind_result (template_arguments inputs sid t) (\<lambda>args.
     bind_result (template_deps t) (\<lambda>deps.
       Inr (\<lparr>ps_id = sid, ps_description = fill_inputs inputs (template_text ''description'' name t),
             ps_dependencies = deps, ps_tools = [name], ps_risk = tool_risk_level known,
             ps_verification = template_text ''verification'' [] t, ps_arguments = [],
             ps_completion_criteria = template_text ''completion_criteria'' [] t\<rparr>, args)))))"

fun build_steps ::
  "skill \<Rightarrow> 'h registry \<Rightarrow> arguments \<Rightarrow> nat \<Rightarrow> arguments list \<Rightarrow> (plan_step \<times> arguments) list result" where
  "build_steps k rg inputs n [] = Inr []"
| "build_steps k rg inputs n (t # ts) =
     bind_result (build_step k rg inputs n t) (\<lambda>x. bind_result (build_steps k rg inputs (Suc n) ts) (\<lambda>xs. Inr (x # xs)))"

definition collected :: "(plan_step \<times> arguments) list \<Rightarrow> (string \<times> arguments) list" where
  "collected xs = fold (\<lambda>(st, args) d. dict_set (ps_id st) args d) xs []"

definition skill_validator :: "'h registry \<Rightarrow> plan_validator" where
  "skill_validator rg = new_plan_validator (map tool_name (list_tools rg)) [] [] 50 65536"

definition skill_goal :: "skill \<Rightarrow> string \<Rightarrow> string" where
  "skill_goal k goal = (if goal \<noteq> [] then goal else ''skill:'' @ sk_name k @ '' v'' @ sk_version k)"

definition final_check :: "skill \<Rightarrow> string" where
  "final_check k = (case sk_checks k of [] \<Rightarrow> [] | t # _ \<Rightarrow> template_text ''check'' [] t)"

definition build_plan ::
  "bool \<Rightarrow> 'h registry \<Rightarrow> skill \<Rightarrow> arguments \<Rightarrow> string \<Rightarrow> (plan \<times> (string \<times> arguments) list) skill_op" where
  "build_plan bus rg k inputs goal s =
     (if sk_status k \<noteq> SS_ACTIVE
      then eff_raise (DomainValidationError (''skill '' @ repr_str (sk_name k) @ '' v'' @ sk_version k @ '' is ''
             @ skill_status_value (sk_status k))) s
      else if sk_workflow k = []
      then eff_raise (DomainValidationError (''skill '' @ repr_str (sk_name k) @ '' has no workflow'')) s
      else case build_steps k rg inputs 0 (sk_workflow k) of
          Inl e \<Rightarrow> eff_raise e s
        | Inr xs \<Rightarrow>
            (case validate_plan (skill_validator rg)
                 \<lparr>plan_goal = skill_goal k goal, plan_steps = map fst xs, plan_final_verification = final_check k\<rparr> of
               Inl e \<Rightarrow> eff_raise e s
             | Inr p \<Rightarrow> eff_then (skill_emit bus ''SkillInvoked'' [] (skill_row k)) (eff_return (p, collected xs)) s))"

text \<open>The probing call of \<open>check_policy\<close> has no task, no arguments and a fresh id.\<close>

definition probe_call :: "string \<Rightarrow> string \<Rightarrow> tool_call" where
  "probe_call i name = \<lparr>tc_id = i, tc_task_id = [], tc_tool = name, tc_arguments = [], tc_status = TC_REQUESTED\<rparr>"

fun check_skill_tools ::
  "resolver \<Rightarrow> bool \<Rightarrow> policy \<Rightarrow> 'h registry \<Rightarrow> string \<Rightarrow> risk_context \<Rightarrow> string list \<Rightarrow> bool \<times> string" where
  "check_skill_tools rp shells po rg i ctx [] = (True, ''all skill tools permitted'')"
| "check_skill_tools rp shells po rg i ctx (name # names) =
     (case reg_get name rg of
        None \<Rightarrow> (False, ''unknown tool '' @ repr_str name)
      | Some known \<Rightarrow>
          (case evaluate po (assess rp shells [] known (probe_call i name) ctx) name (rc_agent_id ctx) of
             (False, reason) \<Rightarrow> (False, reason)
           | (True, _) \<Rightarrow> check_skill_tools rp shells po rg i ctx names))"

definition check_policy ::
  "resolver \<Rightarrow> bool \<Rightarrow> policy \<Rightarrow> 'h registry \<Rightarrow> string \<Rightarrow> risk_context \<Rightarrow> skill \<Rightarrow> bool \<times> string" where
  "check_policy rp shells po rg i ctx k = check_skill_tools rp shells po rg i ctx (sk_allowed k)"

subsection \<open>Candidates\<close>

record inbox =
  ib_candidates :: "(string \<times> skill_candidate) list"
  ib_store :: skill_store

definition propose_skill :: "bool \<Rightarrow> skill_candidate \<Rightarrow> (inbox, skill_candidate) eff" where
  "propose_skill bus q s =
     (if sc_name q = [] then eff_raise (DomainValidationError ''skill proposal needs a name'') s
      else if sc_type q \<noteq> ST_LEARNED_PROPOSAL
      then eff_raise (DomainValidationError ''candidates must be LEARNED_PROPOSAL'') s
      else eff_return q (s\<lparr>ib_candidates := dict_set (ent_id q) q (ib_candidates s),
             ib_store := snd (skill_emit bus ''SkillProposalCreated'' []
               [(''proposal_id'', JStr (ent_id q)), (''name'', JStr (sc_name q))] (ib_store s))\<rparr>))"

definition get_candidate :: "string \<Rightarrow> inbox \<Rightarrow> skill_candidate option" where
  "get_candidate i s = map_of (ib_candidates s) i"

definition adopted_skill :: "real \<Rightarrow> string \<Rightarrow> string \<Rightarrow> skill_candidate \<Rightarrow> skill" where
  "adopted_skill now i version q =
     \<lparr>ent_id = i, ent_created = now, ent_updated = now, sk_name = sc_name q, sk_version = version,
      sk_description = sc_description q, sk_input_schema = sc_input_schema q, sk_output_schema = sc_output_schema q,
      sk_code_ref = [], sk_type = sc_type q, sk_status = SS_ACTIVE, sk_allowed = sc_allowed q,
      sk_capabilities = sc_capabilities q, sk_risk = sc_risk q, sk_workflow = sc_workflow q, sk_checks = sc_checks q,
      sk_author = (if sc_author q \<noteq> [] then sc_author q else ''candidate-approval''),
      sk_scope = sc_scope q, sk_scope_id = sc_scope_id q\<rparr>"

definition approve_candidate :: "bool \<Rightarrow> real \<Rightarrow> string \<Rightarrow> string \<Rightarrow> string \<Rightarrow> (inbox, skill) eff" where
  "approve_candidate bus now i pid version s =
     (case map_of (ib_candidates s) pid of
        None \<Rightarrow> eff_raise (DomainValidationError (''unknown proposal '' @ repr_str pid)) s
      | Some q \<Rightarrow>
          (case register_skill bus now (adopted_skill now i version q) (ib_store s) of
             (r, st) \<Rightarrow> (r, s\<lparr>ib_candidates := dict_del pid (ib_candidates s), ib_store := st\<rparr>)))"

definition reject_candidate :: "string \<Rightarrow> (inbox, bool) eff" where
  "reject_candidate pid s =
     eff_return (map_of (ib_candidates s) pid \<noteq> None) (s\<lparr>ib_candidates := dict_del pid (ib_candidates s)\<rparr>)"

definition step_template :: "plan_step \<Rightarrow> arguments" where
  "step_template st =
     [(''id'', JStr (ps_id st)), (''description'', JStr (ps_description st)),
      (''tool'', JStr (case ps_tools st of [] \<Rightarrow> [] | name # _ \<Rightarrow> name)),
      (''dependencies'', JList (map JStr (ps_dependencies st))), (''verification'', JStr (ps_verification st)),
      (''completion_criteria'', JStr (ps_completion_criteria st))]"

definition propose_from_workflow :: "real \<Rightarrow> string \<Rightarrow> plan \<Rightarrow> string \<Rightarrow> string \<Rightarrow> string \<Rightarrow> skill_candidate" where
  "propose_from_workflow now i p name author scope_id =
     \<lparr>ent_id = i, ent_created = now, ent_updated = now, sc_name = name,
      sc_description = ''Learned from plan: '' @ plan_goal p, sc_type = ST_LEARNED_PROPOSAL,
      sc_allowed = sort (remdups (concat (map ps_tools (plan_steps p)))), sc_capabilities = [],
      sc_risk = MEDIUM, sc_input_schema = [], sc_output_schema = [],
      sc_workflow = map step_template (plan_steps p),
      sc_checks = [[(''check'', JStr (plan_final_verification p))]], sc_author = author,
      sc_scope = (if scope_id \<noteq> [] then SC_PROJECT else SC_GLOBAL), sc_scope_id = scope_id,
      sc_reason = ''successful workflow observed''\<rparr>"

subsection \<open>The order of versions\<close>

lemma split_char_cons: "sep \<notin> set w \<Longrightarrow> split_char sep (w @ sep # s) = w # split_char sep s"
  by (induction w) (auto split: list.split)

lemma split_char_sep: "w \<in> set (split_char sep s) \<Longrightarrow> sep \<notin> set w"
proof (induction s arbitrary: w)
  case (Cons a s)
  then show ?case by (cases "split_char sep s") (auto split: if_splits)
qed simp

lemma split_join: "ps \<noteq> [] \<Longrightarrow> (\<And>w. w \<in> set ps \<Longrightarrow> sep \<notin> set w) \<Longrightarrow> split_char sep (join_str [sep] ps) = ps"
proof (induction ps)
  case (Cons w ps)
  show ?case
  proof (cases ps)
    case Nil
    with Cons.prems show ?thesis by (simp add: join_str_def split_char_word)
  next
    case (Cons u us)
    with Cons.prems have "split_char sep (join_str [sep] (w # ps)) = w # split_char sep (join_str [sep] ps)"
      by (simp add: join_str_def split_char_cons)
    with Cons.IH Cons.prems Cons show ?thesis by simp
  qed
qed simp

lemma nat_digits_all: "list_all is_digit (nat_digits n)" "nat_digits n \<noteq> []"
  by (simp add: list_all_iff nat_digits_chars) (subst nat_digits.simps, simp)

lemma digits_like: "list_all is_digit s \<Longrightarrow> s \<noteq> [] \<Longrightarrow> is_digits s"
  by (auto simp: is_digits_def digit_like_def list_all_iff)

lemma chunk_key_nat: "chunk_key (nat_digits n) = Inr (0, int n, [])"
  using nat_digits_all [of n] by (simp add: chunk_key_def digits_like int_of_digits digits_value_nat_digits)

lemma chunk_keys_append:
  "chunk_keys (a @ b) = bind_result (chunk_keys a) (\<lambda>x. bind_result (chunk_keys b) (\<lambda>y. Inr (x @ y)))"
proof (induction a)
  case Nil
  show ?case by (cases "chunk_keys b") simp_all
next
  case (Cons w a)
  then show ?case by (cases "chunk_key w"; cases "chunk_keys a"; cases "chunk_keys b") simp_all
qed

lemma less_append: "b \<noteq> [] \<Longrightarrow> a < a @ b" for a b :: "'a :: linorder list"
  unfolding list_less_def by (rule lexord_append_rightI) (cases b, auto)

lemma less_last: "x < y \<Longrightarrow> a @ [x] < a @ [y]" for a :: "'a :: linorder list"
  unfolding list_less_def by (rule lexord_append_left_rightI) simp

lemma zero_one_digits: "''0'' = nat_digits 0" "''1'' = nat_digits 1" "int_text 1 = ''1''" "int_of_text ''0'' = Some 0"
  by code_simp+

text \<open>Versions whose last part is a number only where it is read as one.\<close>

definition plain_tail :: "string \<Rightarrow> bool" where
  "plain_tail v \<longleftrightarrow> (let w = last (split_char CHR ''.'' v) in int_of_text w = None \<or> is_digits w)"

lemma version_key_join:
  assumes "ps \<noteq> []" "\<And>w. w \<in> set ps \<Longrightarrow> CHR ''.'' \<notin> set w"
  shows "version_key (join_str ''.'' ps) = chunk_keys ps"
  using split_join [of ps "CHR ''.''"] assms by (simp add: version_key_def)

lemma int_text_no_dot: "0 \<le> n \<Longrightarrow> CHR ''.'' \<notin> set (int_text n)"
  using nat_digits_chars digit_plain by (fastforce simp: int_text_def)

lemma bump_greater:
  assumes k: "version_key v = Inr ks" and t: "plain_tail v"
  shows "\<exists>ks'. version_key (bump_version v) = Inr ks' \<and> ks < ks'"
proof -
  let ?ps = "split_char CHR ''.'' v" and ?qs = "three_parts (split_char CHR ''.'' v)"
  have ks: "chunk_keys ?ps = Inr ks" using k by (simp add: version_key_def)
  have no_dot: "w \<in> set ?qs \<Longrightarrow> CHR ''.'' \<notin> set w" for w
    using split_char_sep [of w "CHR ''.''" v] by (auto simp: three_parts_def split: if_splits)
  show ?thesis
  proof (cases "length ?ps < 3")
    case True
    define r where "r = replicate (2 - length ?ps) ''0''"
    have "3 - length ?ps = Suc (2 - length ?ps)" using True by simp
    then have qs: "?qs = ?ps @ r @ [''0'']" by (simp add: three_parts_def r_def replicate_append_same)
    have "chunk_keys r = Inr (replicate (2 - length ?ps) (0, 0, []))"
    proof -
      have "chunk_keys (replicate m ''0'') = Inr (replicate m (0, 0, []))" for m
        using chunk_key_nat [of 0] by (induction m) (simp_all add: zero_one_digits(1))
      then show ?thesis by (simp add: r_def)
    qed
    then have "chunk_keys (?ps @ r @ [''1'']) = Inr (ks @ replicate (2 - length ?ps) (0, 0, []) @ [(0, 1, [])])"
      using ks chunk_key_nat [of 1] by (simp add: chunk_keys_append zero_one_digits(2))
    moreover have "bump_version v = join_str ''.'' (?ps @ r @ [''1''])"
      using qs by (simp add: bump_version_def Let_def zero_one_digits(3,4) butlast_append)
    moreover have "w \<in> set (?ps @ r @ [''1'']) \<Longrightarrow> CHR ''.'' \<notin> set w" for w
      using no_dot [of w] qs by auto
    ultimately show ?thesis using version_key_join [of "?ps @ r @ [''1'']"] by (auto intro: less_append)
  next
    case False
    then have qs: "?qs = ?ps" by (simp add: three_parts_def)
    show ?thesis
    proof (cases "int_of_text (last ?ps)")
      case None
      then have b: "bump_version v = join_str ''.'' (?ps @ [''1''])" using qs by (simp add: bump_version_def Let_def)
      have "chunk_keys (?ps @ [''1'']) = Inr (ks @ [(0, 1, [])])"
        using ks chunk_key_nat [of 1] by (simp add: chunk_keys_append zero_one_digits(2))
      moreover have "w \<in> set (?ps @ [''1'']) \<Longrightarrow> CHR ''.'' \<notin> set w" for w
        using no_dot [of w] qs by auto
      ultimately show ?thesis using version_key_join [of "?ps @ [''1'']"] b by (auto intro: less_append)
    next
      case (Some n)
      let ?w = "last ?ps"
      have dig: "is_digits ?w" using t Some by (simp add: plain_tail_def Let_def)
      have split: "?ps = butlast ?ps @ [?w]" by simp
      from ks obtain kb where kb: "chunk_keys (butlast ?ps) = Inr kb" and kw: "ks = kb @ [(0, n, [])]"
        using chunk_keys_append [of "butlast ?ps" "[?w]"] dig Some
        by (cases "chunk_keys (butlast ?ps)") (auto simp: chunk_key_def)
      have "0 \<le> n"
      proof -
        from dig have "?w \<noteq> []" "CHR ''-'' \<notin> set ?w" by (auto simp: is_digits_def list_all_iff digit_like_def is_digit_def)
        moreover have "set (strip_str ?w) \<subseteq> set ?w"
          unfolding strip_str_def by (metis (no_types, lifting) set_dropWhileD set_rev subsetI)
        ultimately have "strip_str ?w = [] \<or> hd (strip_str ?w) \<noteq> CHR ''-''" by (metis hd_in_set subsetD)
        then show ?thesis using Some
          by (auto simp: int_of_text_def unsigned_value_def split: list.splits if_splits)
      qed
      then have next_key: "chunk_key (int_text (n + 1)) = Inr (0, n + 1, [])"
        using chunk_key_nat [of "nat (n + 1)"] by (simp add: int_text_def)
      then have "chunk_keys (butlast ?ps @ [int_text (n + 1)]) = Inr (kb @ [(0, n + 1, [])])"
        using kb by (simp add: chunk_keys_append)
      moreover have "w \<in> set (butlast ?ps @ [int_text (n + 1)]) \<Longrightarrow> CHR ''.'' \<notin> set w" for w
        using no_dot [of w] qs int_text_no_dot [of "n + 1"] \<open>0 \<le> n\<close> by (auto dest: in_set_butlastD)
      moreover have "bump_version v = join_str ''.'' (butlast ?ps @ [int_text (n + 1)])"
        using qs Some by (simp add: bump_version_def Let_def)
      moreover have "ks < kb @ [(0, n + 1, [])]" unfolding kw by (rule less_last) simp
      ultimately show ?thesis using version_key_join [of "butlast ?ps @ [int_text (n + 1)]"] by auto
    qed
  qed
qed

lemma keyed_Inr: "keyed ks = Inr r \<Longrightarrow> map snd r = ks \<and> (\<forall>(v, k) \<in> set r. version_key (sk_version k) = Inr v)"
  by (induction ks arbitrary: r) (auto simp: bind_result_Inr_iff)

lemma keyed_mem:
  assumes "keyed ks = Inr r" "k \<in> set ks"
  shows "\<exists>v. (v, k) \<in> set r"
proof -
  have "set ks = snd ` set r" using keyed_Inr [OF assms(1)] by (metis set_map)
  with assms(2) show ?thesis by auto
qed

lemma keyed_total: "(\<And>k. k \<in> set ks \<Longrightarrow> \<exists>v. version_key (sk_version k) = Inr v) \<Longrightarrow> \<exists>r. keyed ks = Inr r"
proof (induction ks)
  case (Cons k ks)
  then obtain v where "version_key (sk_version k) = Inr v" by fastforce
  moreover from Cons obtain r where "keyed ks = Inr r" by fastforce
  ultimately show ?case by simp
qed simp

lemma sort_versions_last:
  assumes "sort_versions ks = Inr ks'" "ks \<noteq> []"
  shows "last ks' \<in> set ks \<and> (\<exists>m. version_key (sk_version (last ks')) = Inr m
    \<and> (\<forall>k \<in> set ks. \<exists>v. version_key (sk_version k) = Inr v \<and> v \<le> m))"
proof -
  from assms(1) obtain r where r: "keyed ks = Inr r" "ks' = map snd (sort_key fst r)"
    by (auto simp: sort_versions_def bind_result_Inr_iff)
  note kr = keyed_Inr [OF r(1)]
  have ne: "sort_key fst r \<noteq> []" using assms(2) kr by (metis list.map_disc_iff set_empty set_sort)
  let ?l = "last (sort_key fst r)"
  have l: "?l \<in> set r" using last_in_set [OF ne] by simp
  have "last ks' = snd ?l" using r(2) ne by (simp add: last_map)
  moreover have "snd ?l \<in> set ks" using l kr by (metis imageI set_map)
  moreover have "version_key (sk_version (snd ?l)) = Inr (fst ?l)" using l kr by (auto simp: case_prod_beta)
  moreover have "\<exists>v. version_key (sk_version k) = Inr v \<and> v \<le> fst ?l" if "k \<in> set ks" for k
  proof -
    from keyed_mem [OF r(1) that] obtain v where v: "(v, k) \<in> set r" ..
    have "fst (v, k) \<le> fst ?l" by (rule sorted_le_last [of fst]) (simp_all add: v)
    with v kr show ?thesis by auto
  qed
  ultimately show ?thesis by auto
qed

lemma sort_versions_max:
  assumes m: "version_key (sk_version k) = Inr m" and k: "k \<in> set ks"
    and less: "\<And>k'. k' \<in> set ks \<Longrightarrow> k' \<noteq> k \<Longrightarrow> \<exists>v. version_key (sk_version k') = Inr v \<and> v < m"
  shows "\<exists>ks'. sort_versions ks = Inr ks' \<and> last ks' = k"
proof -
  have "\<exists>v. version_key (sk_version k') = Inr v" if "k' \<in> set ks" for k'
    using less [OF that] m by (cases "k' = k") auto
  then obtain r where r: "keyed ks = Inr r" using keyed_total by blast
  note kr = keyed_Inr [OF r]
  from keyed_mem [OF r k] obtain v where v: "(v, k) \<in> set r" ..
  then have "v = m" using kr m by auto
  have "fst y < fst (m, k)" if "y \<in> set r" "y \<noteq> (m, k)" for y
  proof -
    obtain w k' where y: "y = (w, k')" by fastforce
    with that kr have w: "version_key (sk_version k') = Inr w" "k' \<in> set ks" by (auto simp: image_iff intro!: bexI [of _ y])
    show ?thesis
    proof (cases "k' = k")
      case True
      with w m y that show ?thesis by simp
    next
      case False
      with less w y show ?thesis by fastforce
    qed
  qed
  from last_sort_key_max [of "(m, k)" r fst, OF _ this] v \<open>v = m\<close>
  have "sort_key fst r \<noteq> []" "last (sort_key fst r) = (m, k)" by auto
  then show ?thesis using r by (simp add: sort_versions_def last_map)
qed

lemma tbl_list_dict_set:
  assumes "wf_table t" "tbl_get (ent_id x) t = None"
  shows "set (tbl_list (dict_set (ent_id x) x t)) = insert x (set (tbl_list t))"
proof -
  have wf': "wf_table (dict_set (ent_id x) x t)" by (rule wf_table_dict_set [OF assms(1)])
  have "y \<in> set (tbl_list (dict_set (ent_id x) x t)) \<longleftrightarrow> y \<in> insert x (set (tbl_list t))" for y
    unfolding set_tbl_list [OF wf'] insert_iff set_tbl_list [OF assms(1)] using assms(2)
    by (auto simp: tbl_get_def)
  then show ?thesis by blast
qed

lemma lookup_active:
  assumes "lookup_skill name None s = Inr (Some cur)"
  shows "\<exists>m. cur \<in> set (tbl_list (sr_table s)) \<and> sk_name cur = name \<and> sk_status cur = SS_ACTIVE
    \<and> version_key (sk_version cur) = Inr m
    \<and> (\<forall>k \<in> set (tbl_list (sr_table s)). sk_name k = name \<and> sk_status k = SS_ACTIVE \<longrightarrow>
         (\<exists>v. version_key (sk_version k) = Inr v \<and> v \<le> m))"
proof -
  let ?a = "filter (\<lambda>k. sk_status k = SS_ACTIVE) (named name s)"
  from assms obtain ks where ks: "?a \<noteq> []" "sort_versions ?a = Inr ks" "cur = last ks"
    by (auto simp: lookup_skill_def Let_def bind_result_Inr_iff split: if_splits)
  from sort_versions_last [OF ks(2,1)] ks(3) show ?thesis by (auto simp: named_def)
qed

lemma new_version_Inr:
  assumes "new_version bus now i changes name s = (Inr k', s')"
  shows "\<exists>cur k. lookup_skill name None s = Inr (Some cur) \<and> changes (cur\<lparr>ent_id := i, ent_created := now\<rparr>) = Inr k
    \<and> tbl_get (ent_id k) (sr_table s) = None \<and> k' = touch now (k\<lparr>sk_version := bump_version (sk_version cur)\<rparr>)
    \<and> sr_table s' = dict_set (ent_id k') k' (sr_table s)"
  using assms
  by (auto simp: new_version_def eff_bind_Inr eff_then_def skill_create_def skill_emit_def store_simps touch_def
      split: sum.splits option.splits if_splits)

text \<open>
  A new version becomes the current one. When the version in use ends in a plain number, or in
  no number at all, and the changes keep the name and leave the skill active, the version that
  \<open>new_version\<close> stores is greater, \<open>lookup\<close> answers it from then on, and every record that was in
  the table is still there, unchanged.
\<close>

theorem new_version_is_current:
  assumes wf: "wf_table (sr_table s)" and new: "new_version bus now i changes name s = (Inr k', s')"
    and cur: "lookup_skill name None s = Inr (Some cur)" and plain: "plain_tail (sk_version cur)"
    and kept: "\<And>k. changes (cur\<lparr>ent_id := i, ent_created := now\<rparr>) = Inr k \<Longrightarrow> sk_name k = name \<and> sk_status k = SS_ACTIVE"
  shows "lookup_skill name None s' = Inr (Some k')
    \<and> (\<exists>v v'. version_key (sk_version cur) = Inr v \<and> version_key (sk_version k') = Inr v' \<and> v < v')
    \<and> set (tbl_list (sr_table s')) = insert k' (set (tbl_list (sr_table s)))"
proof -
  from new_version_Inr [OF new] cur obtain k where k: "changes (cur\<lparr>ent_id := i, ent_created := now\<rparr>) = Inr k"
    "tbl_get (ent_id k) (sr_table s) = None" "k' = touch now (k\<lparr>sk_version := bump_version (sk_version cur)\<rparr>)"
    "sr_table s' = dict_set (ent_id k') k' (sr_table s)" by auto
  have rows: "set (tbl_list (sr_table s')) = insert k' (set (tbl_list (sr_table s)))"
    unfolding k(4) by (rule tbl_list_dict_set [OF wf]) (use k in simp)
  have k'_props: "sk_name k' = name" "sk_status k' = SS_ACTIVE" "sk_version k' = bump_version (sk_version cur)"
    using kept [OF k(1)] k(3) by (simp_all add: touch_def)
  from lookup_active [OF cur] obtain m where m: "version_key (sk_version cur) = Inr m"
    "\<forall>k \<in> set (tbl_list (sr_table s)). sk_name k = name \<and> sk_status k = SS_ACTIVE \<longrightarrow>
         (\<exists>v. version_key (sk_version k) = Inr v \<and> v \<le> m)" by blast
  from bump_greater [OF m(1) plain] obtain m' where m': "version_key (sk_version k') = Inr m'" "m < m'"
    using k'_props by auto
  let ?a = "filter (\<lambda>k. sk_status k = SS_ACTIVE) (named name s')"
  have a: "set ?a = insert k' {k \<in> set (tbl_list (sr_table s)). sk_name k = name \<and> sk_status k = SS_ACTIVE}"
    using rows k'_props by (auto simp: named_def)
  have "\<exists>ks'. sort_versions ?a = Inr ks' \<and> last ks' = k'"
  proof (rule sort_versions_max [OF m'(1)])
    show "k' \<in> set ?a" using a by blast
    show "\<exists>v. version_key (sk_version q) = Inr v \<and> v < m'" if "q \<in> set ?a" "q \<noteq> k'" for q
      using that m(2) m'(2) unfolding a by (auto intro: le_less_trans)
  qed
  moreover have "?a \<noteq> []" "named name s' \<noteq> []" using a by (auto simp: filter_empty_conv)
  ultimately have "lookup_skill name None s' = Inr (Some k')" by (auto simp: lookup_skill_def Let_def)
  with m m' rows show ?thesis by auto
qed

text \<open>
  Discovery is scoped. Every skill that \<open>select\<close> returns is in the table and active, is global
  or belongs to the scope that was named, has every required capability and shares a word with the
  query if that has words; no skill is returned twice, there are at most \<open>limit\<close> of them, in the order
  of their scores and then of their names.
\<close>

theorem selection_is_scoped:
  assumes wf: "wf_table (sr_table s)" and sel: "select_skills bus round3 query required scope_id limit s = (found, s')"
  shows "(\<forall>k \<in> set found. tbl_get (ent_id k) (sr_table s) = Some k \<and> sk_status k = SS_ACTIVE
        \<and> (sk_scope k = SC_GLOBAL \<or> scope_id \<noteq> [] \<and> sk_scope_id k = scope_id) \<and> set required \<subseteq> set (sk_capabilities k)
        \<and> (skill_keywords query \<noteq> [] \<longrightarrow>
             set (skill_keywords query) \<inter> set (skill_keywords (sk_name k @ '' '' @ sk_description k)) \<noteq> {}))
    \<and> distinct (map ent_id found) \<and> int (length found) \<le> max 0 limit
    \<and> sorted (map (\<lambda>k. - round3 (skill_overlap (skill_keywords query) k)) found) \<and> sr_table s' = sr_table s"
proof -
  let ?w = "skill_keywords query"
  let ?hits = "filter (discoverable ?w required scope_id) (tbl_list (sr_table s))"
  let ?sorted = "sort_key (\<lambda>k. - round3 (skill_overlap ?w k)) (sort_key sk_name ?hits)"
  have f: "found = take (nat limit) ?sorted" and s': "sr_table s' = sr_table s"
    using sel by (auto simp: select_skills_def Let_def skill_emit_def)
  have "distinct (map ent_id ?hits)" using distinct_tbl_list [OF wf] by (rule distinct_map_filter)
  then have d: "distinct (map ent_id ?sorted)" by (simp add: distinct_map)
  have hit: "k \<in> set ?hits" if "k \<in> set found" for k using that unfolding f by (auto dest: in_set_takeD)
  have share: "set ?w \<inter> set (skill_keywords (sk_name k @ '' '' @ sk_description k)) \<noteq> {}"
    if "skill_overlap ?w k > 0" "?w \<noteq> []" for k
    using that by (auto simp: skill_overlap_def common_words_def filter_empty_conv zero_less_divide_iff
        split: if_splits)
  have "sorted (map (\<lambda>k. - round3 (skill_overlap ?w k)) found)" unfolding f take_map [symmetric]
    by (rule sorted_wrt_take) simp
  moreover have "distinct (map ent_id found)" unfolding f take_map [symmetric] by (rule distinct_take [OF d])
  moreover have "int (length found) \<le> max 0 limit" unfolding f by auto
  moreover have "tbl_get (ent_id k) (sr_table s) = Some k \<and> sk_status k = SS_ACTIVE
      \<and> (sk_scope k = SC_GLOBAL \<or> scope_id \<noteq> [] \<and> sk_scope_id k = scope_id) \<and> set required \<subseteq> set (sk_capabilities k)
      \<and> (?w \<noteq> [] \<longrightarrow> set ?w \<inter> set (skill_keywords (sk_name k @ '' '' @ sk_description k)) \<noteq> {})"
    if "k \<in> set found" for k
  proof -
    from hit [OF that] have "tbl_get (ent_id k) (sr_table s) = Some k" and dk: "discoverable ?w required scope_id k"
      by (simp_all add: set_tbl_list [OF wf])
    moreover have "?w \<noteq> [] \<Longrightarrow> set ?w \<inter> set (skill_keywords (sk_name k @ '' '' @ sk_description k)) \<noteq> {}"
      using dk share [of k] by (simp add: discoverable_def not_le)
    ultimately show ?thesis by (auto simp: discoverable_def)
  qed
  ultimately show ?thesis using s' by blast
qed

subsection \<open>What a built plan is\<close>

lemma build_step_Inr:
  assumes "build_step k rg inputs n t = Inr (st, args)"
  shows "\<exists>name known. ps_tools st = [name] \<and> name \<in> set (sk_allowed k) \<and> reg_get name rg = Some known
    \<and> ps_risk st = tool_risk_level known \<and> ps_arguments st = []"
  using assms by (auto simp: build_step_def bind_result_Inr_iff template_tool_def Let_def split: json.splits if_splits option.splits)

lemma build_steps_Inr:
  "build_steps k rg inputs n ts = Inr xs \<Longrightarrow> length xs = length ts
     \<and> (\<forall>(st, args) \<in> set xs. \<exists>m t. t \<in> set ts \<and> build_step k rg inputs m t = Inr (st, args))"
  by (induction ts arbitrary: n xs) (fastforce simp: bind_result_Inr_iff)+

lemma keys_collected:
  "distinct (map (ps_id \<circ> fst) xs) \<Longrightarrow> keys (collected xs) = map (ps_id \<circ> fst) xs"
proof -
  have "distinct (keys d @ map (ps_id \<circ> fst) xs) \<Longrightarrow>
      keys (fold (\<lambda>(st, args) d. dict_set (ps_id st) args d) xs d) = keys d @ map (ps_id \<circ> fst) xs" for d
    by (induction xs arbitrary: d) (auto simp: keys_dict_set_new)
  from this [of "[]"] show "distinct (map (ps_id \<circ> fst) xs) \<Longrightarrow> ?thesis" by (simp add: collected_def)
qed

lemma build_plan_Inr:
  assumes "build_plan bus rg k inputs goal s = (Inr (p, args), s')"
  shows "\<exists>xs. build_steps k rg inputs 0 (sk_workflow k) = Inr xs \<and> args = collected xs \<and> plan_steps p = map fst xs
    \<and> validate_plan (skill_validator rg) p = Inr p \<and> sk_status k = SS_ACTIVE \<and> sr_table s' = sr_table s"
  using assms
  by (auto simp: build_plan_def skill_emit_def eff_then_def eff_bind_def validate_plan_Inr split: if_splits sum.splits)

text \<open>
  C20: A plan built from a skill is well formed and stays within the skill. It passes the plan
  validator for the tools now in the registry, with closed and acyclic dependencies; it has a step for
  every template, and each step uses exactly one tool, which the skill allows and the registry holds,
  with the registered risk of that tool, below critical, whatever class the skill was given; arguments
  are collected under exactly the ids of the steps, and no skill is changed.
\<close>

theorem built_plan_is_typed:
  assumes "build_plan bus rg k inputs goal s = (Inr (p, args), s')"
  shows "validate_plan (skill_validator rg) p = Inr p \<and> closed_steps (plan_steps p) \<and> acyclic (dep_rel (plan_steps p))
    \<and> length (plan_steps p) = length (sk_workflow k) \<and> keys args = map ps_id (plan_steps p) \<and> sr_table s' = sr_table s
    \<and> (\<forall>st \<in> set (plan_steps p). \<exists>name known. ps_tools st = [name] \<and> name \<in> set (sk_allowed k)
         \<and> reg_get name rg = Some known \<and> ps_risk st = tool_risk_level known \<and> tool_risk_level known \<noteq> CRITICAL)"
proof -
  from build_plan_Inr [OF assms] obtain xs where xs: "build_steps k rg inputs 0 (sk_workflow k) = Inr xs"
    "args = collected xs" "plan_steps p = map fst xs" "validate_plan (skill_validator rg) p = Inr p" "sr_table s' = sr_table s"
    by blast
  from xs(4) have v: "closed_steps (plan_steps p)" "acyclic (dep_rel (plan_steps p))"
    "\<forall>st \<in> set (plan_steps p). step_accepted (skill_validator rg) st" by (auto simp: validate_plan_Inr)
  have "keys args = map ps_id (plan_steps p)"
    using v(1) keys_collected [of xs] unfolding xs(2,3) closed_steps_def by simp
  moreover have "\<exists>name known. ps_tools st = [name] \<and> name \<in> set (sk_allowed k)
         \<and> reg_get name rg = Some known \<and> ps_risk st = tool_risk_level known \<and> tool_risk_level known \<noteq> CRITICAL"
    if st: "st \<in> set (plan_steps p)" for st
  proof -
    from st obtain a where "(st, a) \<in> set xs" unfolding xs(3) by auto
    with build_steps_Inr [OF xs(1)] obtain m t where "build_step k rg inputs m t = Inr (st, a)" by blast
    from build_step_Inr [OF this] v(3) st show ?thesis unfolding step_accepted_def by metis
  qed
  ultimately show ?thesis using xs v build_steps_Inr [OF xs(1)] by auto
qed

lemma check_skill_tools_iff:
  "fst (check_skill_tools rp shells po rg i ctx names) \<longleftrightarrow>
     (\<forall>name \<in> set names. \<exists>known. reg_get name rg = Some known
        \<and> fst (evaluate po (assess rp shells [] known (probe_call i name) ctx) name (rc_agent_id ctx)))"
  by (induction names) (auto split: option.splits prod.splits bool.splits)

subsection \<open>Candidates\<close>

text \<open>
  Approval adopts what was reviewed. When a candidate is approved, the skill that is registered
  and in the table carries every field of the candidate under its id - name, tools, capabilities, risk
  class, schemas, workflow, checks and scope - is active at the version that was named, and the
  candidate has left the inbox, so that no second approval finds it.
\<close>

theorem approval_adopts_reviewed:
  assumes wf: "wf_table (sr_table (ib_store s))" and ok: "approve_candidate bus now i pid version s = (Inr k, s')"
  shows "\<exists>q. map_of (ib_candidates s) pid = Some q \<and> tbl_get i (sr_table (ib_store s)) = None
    \<and> tbl_get i (sr_table (ib_store s')) = Some k \<and> sk_status k = SS_ACTIVE \<and> sk_version k = version
    \<and> sk_name k = sc_name q \<and> sk_allowed k = sc_allowed q \<and> sk_capabilities k = sc_capabilities q
    \<and> sk_risk k = sc_risk q \<and> sk_workflow k = sc_workflow q \<and> sk_checks k = sc_checks q
    \<and> sk_input_schema k = sc_input_schema q \<and> sk_output_schema k = sc_output_schema q
    \<and> sk_scope k = sc_scope q \<and> sk_scope_id k = sc_scope_id q \<and> valid_version version
    \<and> isl (fst (approve_candidate bus' now' i' pid version' s'))"
proof -
  from ok obtain q st where q: "map_of (ib_candidates s) pid = Some q"
    "register_skill bus now (adopted_skill now i version q) (ib_store s) = (Inr k, st)"
    "s' = s\<lparr>ib_candidates := dict_del pid (ib_candidates s), ib_store := st\<rparr>"
    by (auto simp: approve_candidate_def split: option.splits prod.splits)
  then have "k = touch now (adopted_skill now i version q)" "sr_table st = dict_set i k (sr_table (ib_store s))"
    "tbl_get i (sr_table (ib_store s)) = None" "valid_version version"
    by (auto simp: register_skill_def skill_create_def eff_bind_Inr eff_then_def skill_emit_def store_simps
        adopted_skill_def touch_def split: if_splits sum.splits)
  with q show ?thesis by (simp add: approve_candidate_def tbl_get_def adopted_skill_def touch_def)
qed

subsection \<open>From a plan to a skill and back\<close>

lemma fill_plain: "\<not> str_in placeholder_mark s \<Longrightarrow> fill_inputs inputs s = s"
proof (induction s)
  case (Cons ch s)
  then have "\<not> prefix placeholder_mark (ch # s)" "\<not> str_in placeholder_mark s" by simp_all
  then have "placeholder (ch # s) = None"
    by (auto simp: placeholder_def starts_with_def Let_def prefix_def) (metis append_take_drop_id)
  with Cons show ?case by simp
qed simp

lemma all_text_JStr: "all_text (map JStr ts) = Inr ts"
  by (induction ts) simp_all

definition relearned :: "'h registry \<Rightarrow> plan_step \<Rightarrow> plan_step" where
  "relearned rg st = st\<lparr>ps_risk := (case reg_get (hd (ps_tools st)) rg of None \<Rightarrow> LOW | Some known \<Rightarrow> tool_risk_level known),
     ps_arguments := []\<rparr>"

text \<open>A step a learned skill can repeat: one registered tool, not critical, and no placeholder in its text.\<close>

definition repeatable :: "'h registry \<Rightarrow> plan_step \<Rightarrow> bool" where
  "repeatable rg st \<longleftrightarrow> (\<exists>name known. ps_tools st = [name] \<and> reg_get name rg = Some known
     \<and> tool_risk_level known \<noteq> CRITICAL) \<and> \<not> str_in placeholder_mark (ps_description st)"

lemma build_step_template:
  assumes "repeatable rg st" "set (ps_tools st) \<subseteq> set (sk_allowed k)"
  shows "build_step k rg inputs n (step_template st) = Inr (relearned rg st, [])"
proof -
  from assms obtain name known where t: "ps_tools st = [name]" "reg_get name rg = Some known" "name \<in> set (sk_allowed k)"
    by (auto simp: repeatable_def)
  then have "template_tool k rg (step_template st) = Inr (name, known)"
    by (simp add: template_tool_def step_template_def)
  moreover have "fill_inputs inputs (ps_description st) = ps_description st"
    using assms(1) by (simp add: repeatable_def fill_plain)
  ultimately show ?thesis using t
    by (simp add: build_step_def template_id_def template_arguments_def template_deps_def template_text_def
        step_template_def str_json_def all_text_JStr relearned_def)
qed

lemma build_steps_templates:
  "(\<And>st. st \<in> set sts \<Longrightarrow> repeatable rg st \<and> set (ps_tools st) \<subseteq> set (sk_allowed k)) \<Longrightarrow>
     build_steps k rg inputs n (map step_template sts) = Inr (map (\<lambda>st. (relearned rg st, [])) sts)"
  by (induction sts arbitrary: n) (simp_all add: build_step_template)

lemma relearned_accepted:
  assumes wf: "wf_registry rg" and acc: "step_accepted pv st" and rep: "repeatable rg st"
  shows "step_accepted (skill_validator rg) (relearned rg st)"
proof -
  from rep obtain name known where t: "ps_tools st = [name]" "reg_get name rg = Some known" "tool_risk_level known \<noteq> CRITICAL"
    by (auto simp: repeatable_def)
  then have "name \<in> set (map tool_name (list_tools rg))"
    using reg_get_name [OF wf t(2)] by (force simp: list_tools_def reg_get_def dest: map_of_SomeD)
  moreover have "int (length (pydump (JObj []))) \<le> 65536" by code_simp
  ultimately show ?thesis using t acc
    by (simp add: step_accepted_def relearned_def skill_validator_def new_plan_validator_def tool_arguments_ok_def
        lookup_list_def tool_properties_def)
qed

lemma values_dict_set: "snd ` set (dict_set k v d) \<subseteq> insert v (snd ` set d)"
  by (induction d) auto

lemma fold_no_arguments:
  "\<forall>a \<in> snd ` set d. a = [] \<Longrightarrow>
     \<forall>a \<in> snd ` set (fold (\<lambda>(st, args) d. dict_set (ps_id st) args d) (map (\<lambda>st. (g st, [])) sts) d). a = []"
proof (induction sts arbitrary: d)
  case (Cons st sts)
  have "\<forall>a \<in> snd ` set (dict_set (ps_id (g st)) [] d). a = []"
    using Cons.prems values_dict_set [of "ps_id (g st)" "[]" d] by blast
  from Cons.IH [OF this] show ?case by simp
qed simp


subsection \<open>Examples\<close>

definition echo_contract :: tool where
  "echo_contract = \<lparr>tool_name = ''echo'', tool_description = [], tool_input_schema = [], tool_output_schema = [],
     tool_risk_level = MEDIUM, tool_timeout_s = 1, tool_capabilities = [], tool_execution_policy = [],
     tool_action_identity = [], tool_requires_sandbox = False, tool_sandbox_profile = [], tool_requires_approval = False,
     tool_network_access = False, tool_secrets_access = False\<rparr>"

definition echo_registry :: "unit registry" where
  "echo_registry = \<lparr>rg_tools = [(''echo'', echo_contract)], rg_handlers = [(''echo'', ())], rg_guards = []\<rparr>"

definition learned_candidate :: skill_candidate where
  "learned_candidate = propose_from_workflow 1 ''q1'' demo_plan ''greet'' [] []"

definition no_skills :: skill_store where
  "no_skills = \<lparr>sr_table = [], sr_events = []\<rparr>"

definition filed :: inbox where
  "filed = snd (propose_skill True learned_candidate \<lparr>ib_candidates = [], ib_store = no_skills\<rparr>)"

definition greet_skill :: "string \<Rightarrow> string \<Rightarrow> skill" where
  "greet_skill i v = adopted_skill 2 i v learned_candidate"

definition greet_store :: "string \<Rightarrow> skill_store" where
  "greet_store v = snd (register_skill True 2 (greet_skill ''s1'' v) no_skills)"

definition next_greet :: "string \<Rightarrow> skill result \<times> skill_store" where
  "next_greet v = new_version True 3 ''s2'' Inr ''greet'' (greet_store v)"

lemma new_version_is_current_witness:
  "\<exists>k'. fst (next_greet ''1.0.9'') = Inr k' \<and> sk_version k' = ''1.0.10''
     \<and> lookup_skill ''greet'' None (snd (next_greet ''1.0.9'')) = Inr (Some k')"
proof -
  have wf: "wf_table (sr_table (greet_store ''1.0.9''))" by code_simp
  have "map_sum id sk_version (fst (next_greet ''1.0.9'')) = Inr ''1.0.10''" by code_simp
  then obtain k' where k': "fst (next_greet ''1.0.9'') = Inr k'" "sk_version k' = ''1.0.10''"
    by (cases "fst (next_greet ''1.0.9'')") auto
  then have new: "new_version True 3 ''s2'' Inr ''greet'' (greet_store ''1.0.9'') = (Inr k', snd (next_greet ''1.0.9''))"
    by (metis next_greet_def prod.collapse)
  let ?cur = "touch 2 (greet_skill ''s1'' ''1.0.9'')"
  have cur: "lookup_skill ''greet'' None (greet_store ''1.0.9'') = Inr (Some ?cur)" by code_simp
  have plain: "plain_tail (sk_version ?cur)" by code_simp
  have "sk_name k = ''greet'' \<and> sk_status k = SS_ACTIVE" if "Inr (?cur\<lparr>ent_id := ''s2'', ent_created := 3\<rparr>) = (Inr k :: skill result)" for k
    using that by (auto simp: greet_skill_def adopted_skill_def learned_candidate_def propose_from_workflow_def touch_def)
  from new_version_is_current [OF wf new cur plain this] k' show ?thesis by blast
qed

lemma selection_is_scoped_witness:
  "length (fst (select_skills True id ''greet plan'' [] [] 1 (greet_store ''1.0.0''))) = 1
   \<and> (\<forall>k \<in> set (fst (select_skills True id ''greet plan'' [] [] 1 (greet_store ''1.0.0''))). sk_status k = SS_ACTIVE)"
proof -
  have wf: "wf_table (sr_table (greet_store ''1.0.0''))" by code_simp
  have "length (fst (select_skills True id ''greet plan'' [] [] 1 (greet_store ''1.0.0''))) = 1" by code_simp
  with selection_is_scoped [OF wf prod.collapse [symmetric], of True id "''greet plan''" "[]" "[]" 1] show ?thesis by blast
qed

lemma built_plan_is_typed_witness:
  "\<exists>p args s'. build_plan True echo_registry (greet_skill ''s1'' ''1.0.0'') [] [] no_skills = (Inr (p, args), s')
     \<and> keys args = [''b'', ''a'']"
proof -
  let ?b = "build_plan True echo_registry (greet_skill ''s1'' ''1.0.0'') [] [] no_skills"
  have "map_sum id (map ps_id \<circ> plan_steps \<circ> fst) (fst ?b) = Inr [''b'', ''a'']" by code_simp
  then obtain p args where b: "fst ?b = Inr (p, args)" "map ps_id (plan_steps p) = [''b'', ''a'']"
    by (cases "fst ?b") auto
  then have "?b = (Inr (p, args), snd ?b)" by (metis prod.collapse)
  with built_plan_is_typed [OF this] b(2) show ?thesis by metis
qed

lemma approval_adopts_reviewed_witness:
  "\<exists>k s'. approve_candidate True 2 ''s1'' ''q1'' ''1.0.0'' filed = (Inr k, s') \<and> sk_status k = SS_ACTIVE"
proof -
  let ?a = "approve_candidate True 2 ''s1'' ''q1'' ''1.0.0'' filed"
  have wf: "wf_table (sr_table (ib_store filed))" by code_simp
  have "\<not> isl (fst ?a)" by code_simp
  then obtain k s' where a: "?a = (Inr k, s')" by (metis isl_def prod.collapse sum.collapse(2))
  from approval_adopts_reviewed [OF wf a] a show ?thesis by blast
qed


text \<open>
  Where the versions go wrong: an underscored number is bumped to a smaller version, a version with
  a superscript digit is accepted and then breaks every lookup of the name, and an approval with an
  invalid version loses the candidate.
\<close>

lemma bump_goes_down:
  "valid_version ''1.0.1_0'' \<and> bump_version ''1.0.1_0'' = ''1.0.11''
   \<and> map_sum id (map_option ent_id) (lookup_skill ''greet'' None (snd (next_greet ''1.0.1_0''))) = Inr (Some ''s1'')"
  by code_simp

lemma superscript_breaks_lookup:
  "valid_version [CHR ''1'', CHR ''.'', CHR 0xB2]
   \<and> lookup_skill ''greet'' None (greet_store [CHR ''1'', CHR ''.'', CHR 0xB2]) = Inl (OtherException ''ValueError'')"
  by code_simp

lemma invalid_version_loses_candidate:
  "isl (fst (approve_candidate True 2 ''s1'' ''q1'' ''v 1'' filed))
   \<and> get_candidate ''q1'' (snd (approve_candidate True 2 ''s1'' ''q1'' ''v 1'' filed)) = None"
  by code_simp

end
