(* ===== verification/Cloud_Jobs.thy ===== *)
theory Cloud_Jobs
  imports Effects Store Domain
begin

text \<open>
  Compute jobs (\<^verbatim>\<open>cloud/jobs.py\<close>): the typed job, the table of allowed moves and the repository
  over the snapshot table. One reading of the clock serves a call.
\<close>

subsection \<open>Data\<close>

datatype job_status = J_QUEUED | J_RUNNING | J_SUCCEEDED | J_FAILED | J_CANCELLED | J_TIMED_OUT

fun job_status_value :: "job_status \<Rightarrow> string" where
  "job_status_value J_QUEUED = ''QUEUED''"
| "job_status_value J_RUNNING = ''RUNNING''"
| "job_status_value J_SUCCEEDED = ''SUCCEEDED''"
| "job_status_value J_FAILED = ''FAILED''"
| "job_status_value J_CANCELLED = ''CANCELLED''"
| "job_status_value J_TIMED_OUT = ''TIMED_OUT''"

record compute_job = entity +
  cj_provider :: string
  cj_task :: string
  cj_capabilities :: "string list"
  cj_status :: job_status
  cj_started :: "real option"
  cj_completed :: "real option"
  cj_result :: string
  cj_error :: string
  cj_metadata :: arguments

type_synonym 'a job_op = "(compute_job table, 'a) eff"

fun allowed_moves :: "job_status \<Rightarrow> job_status set" where
  "allowed_moves J_QUEUED = {J_RUNNING, J_FAILED, J_CANCELLED}"
| "allowed_moves J_RUNNING = {J_SUCCEEDED, J_FAILED, J_CANCELLED, J_TIMED_OUT}"
| "allowed_moves _ = {}"

definition terminal_jobs :: "job_status set" where
  "terminal_jobs = {J_SUCCEEDED, J_FAILED, J_CANCELLED, J_TIMED_OUT}"

subsection \<open>SqliteComputeJobRepository\<close>

definition submit_job :: "real \<Rightarrow> compute_job \<Rightarrow> compute_job job_op" where
  "submit_job now j t =
     (if cj_status j \<noteq> J_QUEUED then eff_raise (DomainValidationError ''only QUEUED jobs can be submitted'') t
      else case tbl_create now j t of Inl e \<Rightarrow> eff_raise e t | Inr (j', t') \<Rightarrow> eff_return j' t')"

definition get_job :: "string \<Rightarrow> compute_job table \<Rightarrow> compute_job option" where
  "get_job i t = tbl_get i t"

definition require_job :: "string \<Rightarrow> compute_job job_op" where
  "require_job i t =
     (case tbl_get i t of None \<Rightarrow> eff_raise (ResourceNotFoundError ''ComputeJob'' i) t | Some j \<Rightarrow> eff_return j t)"

definition moved_job :: "real \<Rightarrow> job_status \<Rightarrow> string \<Rightarrow> string \<Rightarrow> compute_job \<Rightarrow> compute_job" where
  "moved_job now st err ref j =
     (let j1 = j\<lparr>cj_status := st, cj_error := err\<rparr>;
          j2 = (if ref \<noteq> [] then j1\<lparr>cj_result := ref\<rparr> else j1);
          j3 = (if st = J_RUNNING \<and> cj_started j2 = None then j2\<lparr>cj_started := Some now\<rparr> else j2)
      in if st \<in> terminal_jobs then j3\<lparr>cj_completed := Some now\<rparr> else j3)"

definition mark_job :: "real \<Rightarrow> string \<Rightarrow> job_status \<Rightarrow> string \<Rightarrow> string \<Rightarrow> compute_job job_op" where
  "mark_job now i st err ref =
     eff_bind (require_job i) (\<lambda>j t.
       if st \<notin> allowed_moves (cj_status j)
       then eff_raise (DomainValidationError (''illegal job transition: '' @ job_status_value (cj_status j)
              @ '' -> '' @ job_status_value st)) t
       else let j' = moved_job now st err ref j in eff_return (touch now j') (tbl_put now j' t))"

definition job_cancel :: "real \<Rightarrow> string \<Rightarrow> compute_job job_op" where
  "job_cancel now i =
     eff_bind (require_job i) (\<lambda>j.
       if cj_status j \<in> terminal_jobs
       then eff_raise (DomainValidationError (''job '' @ repr_str i @ '' already terminal''))
       else mark_job now i J_CANCELLED [] [])"

definition list_jobs :: "string \<Rightarrow> compute_job table \<Rightarrow> compute_job list" where
  "list_jobs task t = sort_key ent_created (filter (\<lambda>j. task = [] \<or> cj_task j = task) (tbl_list t))"

subsection \<open>What happens to a job\<close>

datatype job_action =
    Submit real compute_job
  | Mark real string job_status string string
  | Cancel real string

fun job_act :: "job_action \<Rightarrow> compute_job table \<Rightarrow> compute_job table" where
  "job_act (Submit now j) t = snd (submit_job now j t)"
| "job_act (Mark now i st err ref) t = snd (mark_job now i st err ref t)"
| "job_act (Cancel now i) t = snd (job_cancel now i t)"

definition run_jobs :: "job_action list \<Rightarrow> compute_job table \<Rightarrow> compute_job table" where
  "run_jobs acts t = fold job_act acts t"

text \<open>The times of a job agree with its status.\<close>

definition timed :: "compute_job \<Rightarrow> bool" where
  "timed j \<longleftrightarrow> (cj_completed j \<noteq> None \<longleftrightarrow> cj_status j \<in> terminal_jobs)
     \<and> (cj_status j = J_QUEUED \<longrightarrow> cj_started j = None)
     \<and> (cj_status j \<in> {J_RUNNING, J_SUCCEEDED, J_TIMED_OUT} \<longrightarrow> cj_started j \<noteq> None)"

definition job_move :: "compute_job \<Rightarrow> compute_job \<Rightarrow> bool" where
  "job_move j j' \<longleftrightarrow> cj_status j' \<in> allowed_moves (cj_status j) \<and> cj_task j' = cj_task j
     \<and> cj_capabilities j' = cj_capabilities j \<and> ent_created j' = ent_created j
     \<and> (\<forall>s. cj_started j = Some s \<longrightarrow> cj_started j' = Some s)"

lemma require_job_None: "tbl_get i t = None \<Longrightarrow> require_job i t = (Inl (ResourceNotFoundError ''ComputeJob'' i), t)"
  by (simp add: require_job_def)

lemma require_job_Some: "tbl_get i t = Some j \<Longrightarrow> require_job i t = (Inr j, t)"
  by (simp add: require_job_def)

lemma mark_job_cases:
  "snd (mark_job now i st err ref t) = t
    \<or> (\<exists>j. tbl_get i t = Some j \<and> st \<in> allowed_moves (cj_status j)
         \<and> snd (mark_job now i st err ref t) = tbl_put now (moved_job now st err ref j) t)"
proof (cases "tbl_get i t")
  case None
  then show ?thesis by (simp add: mark_job_def require_job_def eff_bind_def)
next
  case (Some j)
  then have run: "mark_job now i st err ref t =
     (if st \<notin> allowed_moves (cj_status j)
      then (Inl (DomainValidationError (''illegal job transition: '' @ job_status_value (cj_status j)
              @ '' -> '' @ job_status_value st)), t)
      else (Inr (touch now (moved_job now st err ref j)), tbl_put now (moved_job now st err ref j) t))"
    by (simp only: mark_job_def require_job_def eff_bind_def Let_def option.case eff_run prod.case sum.case)
  show ?thesis
  proof (cases "st \<in> allowed_moves (cj_status j)")
    case True
    with Some run show ?thesis by (intro disjI2 exI [of _ j]) simp
  next
    case False
    with run show ?thesis by simp
  qed
qed

lemma moved_job_simps [simp]:
  "ent_id (moved_job now st err ref j) = ent_id j" "ent_created (moved_job now st err ref j) = ent_created j"
  "cj_status (moved_job now st err ref j) = st" "cj_task (moved_job now st err ref j) = cj_task j"
  "cj_capabilities (moved_job now st err ref j) = cj_capabilities j"
  "cj_started (moved_job now st err ref j) =
     (if st = J_RUNNING \<and> cj_started j = None then Some now else cj_started j)"
  "cj_completed (moved_job now st err ref j) = (if st \<in> terminal_jobs then Some now else cj_completed j)"
  by (simp_all add: moved_job_def Let_def)

lemma moved_job_facts:
  assumes "st \<in> allowed_moves (cj_status j)"
  shows "job_move j (moved_job now st err ref j) \<and> (timed j \<longrightarrow> timed (moved_job now st err ref j))"
proof
  show "job_move j (moved_job now st err ref j)" using assms by (auto simp: job_move_def)
  show "timed j \<longrightarrow> timed (moved_job now st err ref j)"
    using assms by (cases "cj_status j") (auto simp: timed_def terminal_jobs_def)
qed

lemma job_cancel_snd: "snd (job_cancel now i t) = t \<or> snd (job_cancel now i t) = snd (mark_job now i J_CANCELLED [] [] t)"
proof (cases "tbl_get i t")
  case None
  then show ?thesis by (simp add: job_cancel_def eff_bind_def require_job_None)
next
  case (Some j)
  from require_job_Some [OF this] have "job_cancel now i t = (if cj_status j \<in> terminal_jobs
       then eff_raise (DomainValidationError (''job '' @ repr_str i @ '' already terminal''))
       else mark_job now i J_CANCELLED [] []) t" by (simp add: job_cancel_def eff_bind_def)
  then show ?thesis by (simp only: eff_raise_def split: if_split) simp
qed

text \<open>One operation on the row \<open>i\<close>: the job as it was, or one allowed move further.\<close>

lemma job_act_row:
  assumes wf: "wf_table t" and j: "tbl_get i t = Some j"
  shows "\<exists>j'. tbl_get i (job_act a t) = Some j' \<and> (j' = j \<or> job_move j j') \<and> (timed j \<longrightarrow> timed j')"
proof -
  have mark: "\<exists>j'. tbl_get i (snd (mark_job now k st err ref t)) = Some j' \<and> (j' = j \<or> job_move j j') \<and> (timed j \<longrightarrow> timed j')"
    for now k st err ref
  proof (cases "snd (mark_job now k st err ref t) = t")
    case True
    with j show ?thesis by simp
  next
    case False
    with mark_job_cases [of now k st err ref t] obtain q where q: "tbl_get k t = Some q" "st \<in> allowed_moves (cj_status q)"
      "snd (mark_job now k st err ref t) = tbl_put now (moved_job now st err ref q) t" by blast
    note m = moved_job_facts [OF q(2), of now err ref]
    have "ent_id q = k" using wf_table_get [OF wf] q(1) by (simp add: tbl_get_def)
    then have row: "tbl_get i (snd (mark_job now k st err ref t))
        = (if i = k then Some (touch now (moved_job now st err ref q)) else tbl_get i t)"
      by (simp add: q(3) snapshot_table.lookup_put [OF wf])
    have touch: "job_move j (touch now z) = job_move j z" "timed (touch now z) = timed z" for z
      by (simp_all add: job_move_def timed_def touch_def)
    show ?thesis
    proof (cases "i = k")
      case True
      with j q(1) have "q = j" by simp
      with row True m touch show ?thesis by simp
    next
      case False
      with row j show ?thesis by simp
    qed
  qed
  show ?thesis
  proof (cases a)
    case (Submit now q)
    then show ?thesis using j wf
      by (auto simp: submit_job_def store_simps tbl_get_def split: sum.splits)
  next
    case (Mark now k st err ref)
    with mark show ?thesis by simp
  next
    case (Cancel now k)
    with mark job_cancel_snd [of now k t] j show ?thesis by auto
  qed
qed

lemma job_act_wf: "wf_table t \<Longrightarrow> wf_table (job_act a t)"
proof -
  assume wf: "wf_table t"
  have mark: "wf_table (snd (mark_job now i st err ref t))" for now i st err ref
    using mark_job_cases [of now i st err ref t] wf snapshot_table.inv_put by metis
  show ?thesis
  proof (cases a)
    case (Submit now q)
    then show ?thesis using wf wf_table_dict_set [OF wf, of "touch now q"]
      by (auto simp: submit_job_def store_simps split: sum.splits)
  next
    case (Mark now k st err ref)
    with mark show ?thesis by simp
  next
    case (Cancel now k)
    with mark job_cancel_snd [of now k t] wf show ?thesis by auto
  qed
qed

lemma job_act_new:
  assumes wf: "wf_table t" and "tbl_get i t = None" "tbl_get i (job_act a t) = Some j"
  shows "\<exists>now q. a = Submit now q \<and> cj_status q = J_QUEUED \<and> j = touch now q"
proof -
  have mark: "tbl_get i (snd (mark_job now k st err ref t)) = None" for now k st err ref
  proof (cases "snd (mark_job now k st err ref t) = t")
    case False
    with mark_job_cases [of now k st err ref t] obtain q where q: "tbl_get k t = Some q" "st \<in> allowed_moves (cj_status q)"
      "snd (mark_job now k st err ref t) = tbl_put now (moved_job now st err ref q) t" by blast
    moreover have "ent_id q = k" using wf_table_get [OF wf] q(1) by (simp add: tbl_get_def)
    ultimately show ?thesis using assms(2) wf moved_job_facts [OF q(2), of now err ref]
      by (auto simp: snapshot_table.lookup_put)
  qed (use assms(2) in simp)
  show ?thesis
  proof (cases a)
    case (Submit now q)
    then show ?thesis using assms
      by (auto simp: submit_job_def store_simps tbl_get_def split: sum.splits if_splits)
  next
    case (Mark now k st err ref)
    with mark assms show ?thesis by simp
  next
    case (Cancel now k)
    with mark job_cancel_snd [of now k t] assms show ?thesis by auto
  qed
qed

text \<open>Moves never lead back.\<close>

fun job_rank :: "job_status \<Rightarrow> nat" where
  "job_rank J_QUEUED = 0"
| "job_rank J_RUNNING = 1"
| "job_rank _ = 2"

lemma allowed_rank: "st' \<in> allowed_moves st \<Longrightarrow> job_rank st < job_rank st'"
  by (cases st) auto

text \<open>
  A finished job stays as it is. Whatever operations follow, a job that has succeeded, failed, been
  cancelled or timed out keeps its row, unchanged to the last field; and any job keeps its task,
  its capabilities and its start time, and never returns to an earlier stage.
\<close>

theorem finished_jobs_stay:
  assumes "wf_table t" "tbl_get i t = Some j"
  shows "\<exists>j'. tbl_get i (run_jobs acts t) = Some j' \<and> (cj_status j \<in> terminal_jobs \<longrightarrow> j' = j)
    \<and> job_rank (cj_status j) \<le> job_rank (cj_status j') \<and> cj_task j' = cj_task j \<and> cj_capabilities j' = cj_capabilities j
    \<and> (\<forall>s. cj_started j = Some s \<longrightarrow> cj_started j' = Some s)"
  using assms
proof (induction acts arbitrary: t j)
  case Nil
  then show ?case by (simp add: run_jobs_def)
next
  case (Cons a acts)
  from job_act_row [OF Cons.prems] obtain j1 where j1: "tbl_get i (job_act a t) = Some j1" "j1 = j \<or> job_move j j1" by blast
  have "cj_status j \<in> terminal_jobs \<longrightarrow> j1 = j" using j1(2) by (auto simp: job_move_def terminal_jobs_def)
  moreover have "job_rank (cj_status j) \<le> job_rank (cj_status j1) \<and> cj_task j1 = cj_task j \<and> cj_capabilities j1 = cj_capabilities j
      \<and> (\<forall>s. cj_started j = Some s \<longrightarrow> cj_started j1 = Some s)"
    using j1(2) allowed_rank by (fastforce simp: job_move_def)
  moreover from Cons.IH [OF job_act_wf [OF Cons.prems(1)] j1(1)] obtain j' where
    "tbl_get i (run_jobs acts (job_act a t)) = Some j'" "cj_status j1 \<in> terminal_jobs \<longrightarrow> j' = j1"
    "job_rank (cj_status j1) \<le> job_rank (cj_status j')" "cj_task j' = cj_task j1" "cj_capabilities j' = cj_capabilities j1"
    "\<forall>s. cj_started j1 = Some s \<longrightarrow> cj_started j' = Some s" by blast
  ultimately show ?case by (auto simp: run_jobs_def)
qed

text \<open>
  The times of a job agree with its status. When only fresh jobs are submitted, after any sequence
  of submissions, moves and cancellations every stored job has a completion time exactly when it is
  finished, no start time while it waits, and one once it has run.
\<close>

theorem job_times_agree:
  assumes "\<And>now q. Submit now q \<in> set acts \<Longrightarrow> cj_started q = None \<and> cj_completed q = None"
    and "tbl_get i (run_jobs acts []) = Some j"
  shows "timed j"
proof -
  have "\<forall>i j. tbl_get i (run_jobs acts t) = Some j \<longrightarrow> timed j"
    if "wf_table t" "\<forall>i j. tbl_get i t = Some j \<longrightarrow> timed j"
      "\<And>now q. Submit now q \<in> set acts \<Longrightarrow> cj_started q = None \<and> cj_completed q = None" for t
    using that
  proof (induction acts arbitrary: t)
    case (Cons a acts)
    have "timed j" if "tbl_get i (job_act a t) = Some j" for i j
    proof (cases "tbl_get i t")
      case None
      from job_act_new [OF Cons.prems(1) None that] obtain now q where
        "a = Submit now q" "cj_status q = J_QUEUED" "j = touch now q" by blast
      with Cons.prems(3) show ?thesis by (auto simp: timed_def terminal_jobs_def touch_def)
    next
      case (Some k)
      from job_act_row [OF Cons.prems(1) Some, of a] that Cons.prems(2) Some show ?thesis by auto
    qed
    with Cons.IH [OF job_act_wf [OF Cons.prems(1)]] Cons.prems(3) show ?case by (auto simp: run_jobs_def)
  qed (simp add: run_jobs_def)
  from this [of "[]"] assms show ?thesis by (auto simp: wf_table_def tbl_get_def)
qed

subsection \<open>Examples\<close>

definition queued_job :: compute_job where
  "queued_job = \<lparr>ent_id = ''j1'', ent_created = 0, ent_updated = 0, cj_provider = [], cj_task = ''t'', cj_capabilities = [],
     cj_status = J_QUEUED, cj_started = None, cj_completed = None, cj_result = [], cj_error = [], cj_metadata = []\<rparr>"

definition one_success :: "job_action list" where
  "one_success = [Submit 1 queued_job, Mark 2 ''j1'' J_RUNNING [] [], Mark 3 ''j1'' J_SUCCEEDED [] ''ref'']"

lemma finished_jobs_stay_witness:
  "\<exists>j. tbl_get ''j1'' (run_jobs one_success []) = Some j \<and> cj_status j = J_SUCCEEDED
     \<and> tbl_get ''j1'' (run_jobs [Cancel 4 ''j1'', Mark 5 ''j1'' J_RUNNING [] []] (run_jobs one_success [])) = Some j"
proof -
  have "map_option cj_status (tbl_get ''j1'' (run_jobs one_success [])) = Some J_SUCCEEDED" by code_simp
  then obtain j where j: "tbl_get ''j1'' (run_jobs one_success []) = Some j" "cj_status j = J_SUCCEEDED" by auto
  have "wf_table (run_jobs one_success [])" by code_simp
  from finished_jobs_stay [OF this j(1), of "[Cancel 4 ''j1'', Mark 5 ''j1'' J_RUNNING [] []]"] j show ?thesis
    by (auto simp: terminal_jobs_def)
qed

lemma job_times_agree_witness:
  "\<exists>j. tbl_get ''j1'' (run_jobs one_success []) = Some j \<and> cj_completed j \<noteq> None"
proof -
  have "map_option cj_status (tbl_get ''j1'' (run_jobs one_success [])) = Some J_SUCCEEDED" by code_simp
  then obtain j where j: "tbl_get ''j1'' (run_jobs one_success []) = Some j" "cj_status j = J_SUCCEEDED" by auto
  have "timed j" by (rule job_times_agree [OF _ j(1)]) (auto simp: one_success_def queued_job_def)
  with j show ?thesis by (auto simp: timed_def terminal_jobs_def)
qed

end
