(* ===== verification/Sync.thy ===== *)
theory Sync
  imports Effects Secrets Events
begin

text \<open>
  Synchronisation of metadata with the remote side (\<^verbatim>\<open>cloud/sync.py\<close>). The transport is
  an abstract class of the source: here a record of its three methods over a state of its
  own, of which \<^verbatim>\<open>MockSyncTransport\<close> is one. \<^verbatim>\<open>ConnectionError\<close> and
  \<^verbatim>\<open>OSError\<close>, which the source catches together, are the one network exception of the
  model. The lock is a flag of the state; times are carried and never compared.
\<close>

subsection \<open>Data\<close>

datatype sync_class = LOCAL_ONLY | SYNC_ALLOWED | SYNC_RESTRICTED | SYNC_FORBIDDEN

fun sync_class_text :: "sync_class \<Rightarrow> string" where
  "sync_class_text LOCAL_ONLY = ''LOCAL_ONLY''"
| "sync_class_text SYNC_ALLOWED = ''SYNC_ALLOWED''"
| "sync_class_text SYNC_RESTRICTED = ''SYNC_RESTRICTED''"
| "sync_class_text SYNC_FORBIDDEN = ''SYNC_FORBIDDEN''"

datatype sync_state =
    S_IN_SYNC | S_UPLOADED | S_DOWNLOADED | S_SKIPPED | S_CONFLICT | S_FAILED | S_BUSY | S_COMPLETED

fun sync_state_text :: "sync_state \<Rightarrow> string" where
  "sync_state_text S_IN_SYNC = ''IN_SYNC''"
| "sync_state_text S_UPLOADED = ''UPLOADED''"
| "sync_state_text S_DOWNLOADED = ''DOWNLOADED''"
| "sync_state_text S_SKIPPED = ''SKIPPED''"
| "sync_state_text S_CONFLICT = ''CONFLICT''"
| "sync_state_text S_FAILED = ''FAILED''"
| "sync_state_text S_BUSY = ''BUSY''"
| "sync_state_text S_COMPLETED = ''COMPLETED''"

record sync_object =
  so_id :: string
  so_type :: string
  so_version :: string
  so_hash :: string
  so_scope :: string
  so_payload :: arguments
  so_updated :: real

record manifest_entry =
  me_id :: string
  me_type :: string
  me_version :: string
  me_hash :: string
  me_scope :: string
  me_class :: sync_class
  me_timestamp :: real

record sync_result =
  sr_id :: string
  sr_type :: string
  sr_state :: sync_state
  sr_detail :: string

record sync_report =
  rp_state :: sync_state
  rp_results :: "sync_result list"
  rp_attempts :: nat
  rp_error :: string

definition sync_hash :: "(string \<Rightarrow> string) \<Rightarrow> arguments \<Rightarrow> string" where
  "sync_hash sha payload = sha (canonical (JObj payload))"

definition make_sync_object ::
  "(string \<Rightarrow> string) \<Rightarrow> real \<Rightarrow> string \<Rightarrow> string \<Rightarrow> arguments \<Rightarrow> string \<Rightarrow> string \<Rightarrow> sync_object" where
  "make_sync_object sha now ty oid payload scope version =
     (let h = sync_hash sha payload
      in \<lparr>so_id = oid, so_type = ty, so_version = (if version \<noteq> [] then version else take 12 h),
          so_hash = h, so_scope = scope, so_payload = payload, so_updated = now\<rparr>)"

fun contains_secrets :: "json \<Rightarrow> bool" where
  "contains_secrets (JObj ms) = list_ex (\<lambda>(k, x). looks_secret k \<or> contains_secrets x) ms"
| "contains_secrets (JList xs) = list_ex contains_secrets xs"
| "contains_secrets v = looks_like_secret_value v"

subsection \<open>SyncPolicy\<close>

definition default_classes :: "(string \<times> sync_class) list" where
  "default_classes =
     [(''task'', SYNC_ALLOWED), (''agent'', SYNC_ALLOWED), (''workspace'', SYNC_ALLOWED),
      (''skill'', SYNC_ALLOWED), (''model'', SYNC_ALLOWED), (''job'', SYNC_ALLOWED),
      (''memory'', SYNC_RESTRICTED), (''event'', SYNC_ALLOWED)]"

record sync_policy =
  sp_defaults :: "(string \<times> sync_class) list"
  sp_overrides :: "(string \<times> sync_class) list"
  sp_restricted_download :: bool

text \<open>An empty dictionary of defaults is falsy and is replaced as well.\<close>

definition mk_policy ::
  "(string \<times> sync_class) list \<Rightarrow> (string \<times> sync_class) list \<Rightarrow> bool \<Rightarrow> sync_policy" where
  "mk_policy defaults overrides restricted =
     \<lparr>sp_defaults = (if defaults = [] then default_classes else defaults), sp_overrides = overrides,
      sp_restricted_download = restricted\<rparr>"

definition sync_classify :: "sync_policy \<Rightarrow> sync_object \<Rightarrow> sync_class" where
  "sync_classify p obj =
     (if contains_secrets (JObj (so_payload obj)) then SYNC_FORBIDDEN
      else case map_of (sp_overrides p) (so_id obj) of
             Some c \<Rightarrow> c
           | None \<Rightarrow> (case map_of (sp_defaults p) (so_type obj) of Some c \<Rightarrow> c | None \<Rightarrow> LOCAL_ONLY))"

definition can_upload :: "sync_policy \<Rightarrow> sync_object \<Rightarrow> bool" where
  "can_upload p obj \<longleftrightarrow> sync_classify p obj \<in> {SYNC_ALLOWED, SYNC_RESTRICTED}"

definition can_download :: "sync_policy \<Rightarrow> sync_class \<Rightarrow> bool" where
  "can_download p c \<longleftrightarrow> c = SYNC_ALLOWED \<or> (c = SYNC_RESTRICTED \<and> sp_restricted_download p)"

subsection \<open>SyncTransport and its mock\<close>

record 'r transport =
  tr_list :: "('r, (string \<times> string \<times> string) list) eff"
  tr_push :: "sync_object \<Rightarrow> ('r, string) eff"
  tr_pull :: "string \<Rightarrow> ('r, sync_object option) eff"

record mock_remote =
  mr_down :: bool
  mr_fail_after :: int
  mr_remote :: "(string \<times> sync_object) list"
  mr_pushes :: nat
  mr_pulls :: nat

definition mock_check :: "(mock_remote, unit) eff" where
  "mock_check m =
     (if mr_down m then eff_raise (ConnectionError ''mock network is down'') m else eff_return () m)"

definition mock_list :: "(mock_remote, (string \<times> string \<times> string) list) eff" where
  "mock_list = eff_then mock_check
     (eff_gets (\<lambda>m. map (\<lambda>(oid, obj). (oid, so_version obj, so_hash obj)) (mr_remote m)))"

definition mock_push :: "sync_object \<Rightarrow> (mock_remote, string) eff" where
  "mock_push obj = eff_then mock_check (\<lambda>m.
     if 0 \<le> mr_fail_after m \<and> mr_fail_after m \<le> int (mr_pushes m)
     then eff_raise (ConnectionError ''mock network died mid-sync'') m
     else (Inr (so_version obj),
           m\<lparr>mr_pushes := mr_pushes m + 1, mr_remote := dict_set (so_id obj) obj (mr_remote m)\<rparr>))"

definition mock_pull :: "string \<Rightarrow> (mock_remote, sync_object option) eff" where
  "mock_pull oid = eff_then mock_check (\<lambda>m.
     (Inr (map_of (mr_remote m) oid), m\<lparr>mr_pulls := mr_pulls m + 1\<rparr>))"

definition mock_transport :: "mock_remote transport" where
  "mock_transport = \<lparr>tr_list = mock_list, tr_push = mock_push, tr_pull = mock_pull\<rparr>"

subsection \<open>SyncManager\<close>

record 'r sync_cfg =
  sc_policy :: sync_policy
  sc_transport :: "'r transport"
  sc_bus :: bool
  sc_retries :: nat

record 'r sync_mgr =
  sm_locked :: bool
  sm_running :: bool
  sm_acks :: "(string \<times> string) list"
  sm_remote :: 'r
  sm_events :: "event list"

definition new_cfg :: "sync_policy \<Rightarrow> 'r transport \<Rightarrow> bool \<Rightarrow> int \<Rightarrow> 'r sync_cfg" where
  "new_cfg p tr bus retries =
     \<lparr>sc_policy = p, sc_transport = tr, sc_bus = bus, sc_retries = nat retries\<rparr>"

definition new_mgr :: "'r \<Rightarrow> 'r sync_mgr" where
  "new_mgr r = \<lparr>sm_locked = False, sm_running = False, sm_acks = [], sm_remote = r, sm_events = []\<rparr>"

text \<open>A call of the transport runs on its part of the state.\<close>

definition on_remote :: "('r, 'a) eff \<Rightarrow> ('r sync_mgr, 'a) eff" where
  "on_remote m s = (case m (sm_remote s) of (r, t) \<Rightarrow> (r, s\<lparr>sm_remote := t\<rparr>))"

definition acknowledge :: "string \<Rightarrow> string \<Rightarrow> ('r sync_mgr, unit) eff" where
  "acknowledge oid v = eff_modify (\<lambda>s. s\<lparr>sm_acks := dict_set oid v (sm_acks s)\<rparr>)"

definition sync_emit :: "'r sync_cfg \<Rightarrow> string \<Rightarrow> json \<Rightarrow> ('r sync_mgr, unit) eff" where
  "sync_emit c ty payload = eff_modify (\<lambda>s.
     if sc_bus c then s\<lparr>sm_events := sm_events s @ [mk_event ty [] payload]\<rparr> else s)"

fun sync_event_type :: "sync_state \<Rightarrow> string" where
  "sync_event_type S_UPLOADED = ''SyncObjectUploaded''"
| "sync_event_type S_DOWNLOADED = ''SyncObjectDownloaded''"
| "sync_event_type S_CONFLICT = ''SyncConflict''"
| "sync_event_type S_FAILED = ''SyncFailed''"
| "sync_event_type _ = ''SyncSkipped''"

definition emit_for :: "'r sync_cfg \<Rightarrow> sync_result \<Rightarrow> ('r sync_mgr, unit) eff" where
  "emit_for c r = sync_emit c (sync_event_type (sr_state r))
     (JObj [(''object_id'', JStr (sr_id r)), (''object_type'', JStr (sr_type r)),
            (''detail'', JStr (sr_detail r))])"

definition mk_result :: "sync_object \<Rightarrow> sync_state \<Rightarrow> string \<Rightarrow> sync_result" where
  "mk_result obj st detail = \<lparr>sr_id = so_id obj, sr_type = so_type obj, sr_state = st, sr_detail = detail\<rparr>"

definition sync_record :: "'r sync_cfg \<Rightarrow> sync_object \<Rightarrow> sync_state \<Rightarrow> string \<Rightarrow> ('r sync_mgr, sync_result) eff" where
  "sync_record c obj st detail =
     eff_then (emit_for c (mk_result obj st detail)) (eff_return (mk_result obj st detail))"

text \<open>\<open>except (ConnectionError, OSError) as exc\<close>, with the text of the exception.\<close>

definition on_network :: "(string \<Rightarrow> ('s, 'a) eff) \<Rightarrow> exn \<Rightarrow> ('s, 'a) eff option" where
  "on_network h e = (case e of ConnectionError t \<Rightarrow> Some (h t) | _ \<Rightarrow> None)"

text \<open>A call of the transport in a \<open>try\<close> that turns a network failure into its text.\<close>

definition caught :: "('r, 'a) eff \<Rightarrow> ('r sync_mgr, string + 'a) eff" where
  "caught m = eff_try (eff_bind (on_remote m) (\<lambda>v. eff_return (Inr v))) (on_network (\<lambda>t. eff_return (Inl t)))"

definition sync_push :: "'r sync_cfg \<Rightarrow> sync_object \<Rightarrow> string \<Rightarrow> ('r sync_mgr, sync_result) eff" where
  "sync_push c obj detail =
     eff_bind
       (caught (tr_push (sc_transport c) obj))
       (\<lambda>r. case r of
          Inl t \<Rightarrow> sync_record c obj S_FAILED (''upload failed: '' @ t)
        | Inr v \<Rightarrow> eff_then (acknowledge (so_id obj) v) (sync_record c obj S_UPLOADED detail))"

definition sync_one ::
  "'r sync_cfg \<Rightarrow> (string \<times> string \<times> string) list \<Rightarrow> sync_object \<Rightarrow> ('r sync_mgr, sync_result) eff" where
  "sync_one c remote_versions obj =
     (let cl = sync_classify (sc_policy c) obj in
      if cl \<in> {LOCAL_ONLY, SYNC_FORBIDDEN}
        then sync_record c obj S_SKIPPED (''policy '' @ sync_class_text cl)
      else if \<not> can_upload (sc_policy c) obj then sync_record c obj S_SKIPPED ''upload not permitted''
      else case map_of remote_versions (so_id obj) of
          None \<Rightarrow> sync_push c obj ''new remote object''
        | Some (rv, rh) \<Rightarrow>
            if rv = so_version obj \<and> rh = so_hash obj
              then eff_then (acknowledge (so_id obj) (so_version obj))
                     (sync_record c obj S_IN_SYNC ''versions match'')
            else eff_bind (eff_gets (\<lambda>s. map_of (sm_acks s) (so_id obj))) (\<lambda>ack.
              if ack = Some rv then sync_push c obj ''local newer''
              else sync_record c obj S_CONFLICT
                     (''local v'' @ so_version obj @ '' vs remote v'' @ rv)))"

definition pull_one ::
  "'r sync_cfg \<Rightarrow> string set \<Rightarrow> string \<times> string \<times> string \<Rightarrow> ('r sync_mgr, sync_result option) eff" where
  "pull_one c local_ids e =
     (case e of (oid, v, h) \<Rightarrow>
        eff_bind (eff_gets (\<lambda>s. map_of (sm_acks s) oid)) (\<lambda>ack.
        if oid \<in> local_ids \<or> ack = Some v then eff_return None
        else eff_bind (on_remote (tr_pull (sc_transport c) oid)) (\<lambda>found.
          case found of
            None \<Rightarrow> eff_return None
          | Some remote \<Rightarrow>
              if \<not> can_download (sc_policy c) (sync_classify (sc_policy c) remote)
              then eff_return (Some \<lparr>sr_id = oid, sr_type = so_type remote, sr_state = S_SKIPPED,
                                     sr_detail = ''download not permitted''\<rparr>)
              else eff_then (acknowledge oid v)
                     (eff_return (Some \<lparr>sr_id = oid, sr_type = so_type remote,
                        sr_state = S_DOWNLOADED, sr_detail = ''new remote object''\<rparr>)))))"

definition pull_new ::
  "'r sync_cfg \<Rightarrow> sync_object list \<Rightarrow> (string \<times> string \<times> string) list \<Rightarrow>
   ('r sync_mgr, sync_result list) eff" where
  "pull_new c objects remote_versions =
     eff_bind (eff_each (pull_one c (so_id ` set objects)) (sort_key fst remote_versions)) (\<lambda>found.
       let results = List.map_filter id found
       in eff_bind (eff_each (emit_for c) results) (\<lambda>_. eff_return results))"

definition sync_failed :: "'r sync_cfg \<Rightarrow> sync_object list \<Rightarrow> string \<Rightarrow> ('r sync_mgr, sync_report) eff" where
  "sync_failed c objects err =
     (let results = map (\<lambda>obj. mk_result obj S_FAILED err) objects
      in eff_bind (eff_each (emit_for c) results) (\<lambda>_.
         eff_then (sync_emit c ''SyncFailed'' (JObj [(''error'', JStr err)]))
           (eff_return \<lparr>rp_state = S_FAILED, rp_results = results, rp_attempts = 1, rp_error = err\<rparr>)))"

definition run_state :: "sync_result list \<Rightarrow> sync_state" where
  "run_state results =
     (if list_ex (\<lambda>r. sr_state r = S_FAILED) results
         \<and> \<not> list_ex (\<lambda>r. sr_state r \<in> {S_UPLOADED, S_DOWNLOADED, S_IN_SYNC}) results
      then S_FAILED else S_COMPLETED)"

definition count_state :: "sync_state \<Rightarrow> sync_result list \<Rightarrow> int" where
  "count_state st results = int (length (filter (\<lambda>r. sr_state r = st) results))"

definition sync_finish :: "'r sync_cfg \<Rightarrow> sync_result list \<Rightarrow> ('r sync_mgr, sync_report) eff" where
  "sync_finish c results =
     eff_then (sync_emit c ''SyncCompleted''
         (JObj [(''state'', JStr (sync_state_text (run_state results))),
                (''up'', JInt (count_state S_UPLOADED results)),
                (''down'', JInt (count_state S_DOWNLOADED results)),
                (''conflicts'', JInt (count_state S_CONFLICT results))]))
       (eff_return \<lparr>rp_state = run_state results, rp_results = results, rp_attempts = 1, rp_error = []\<rparr>)"

text \<open>The rest of a run, from the index of the remote side or the text of why there is none.\<close>

definition with_listing ::
  "'r sync_cfg \<Rightarrow> sync_object list \<Rightarrow> string + (string \<times> string \<times> string) list \<Rightarrow>
   ('r sync_mgr, sync_report) eff" where
  "with_listing c objects listing =
     (case listing of
        Inl t \<Rightarrow> sync_failed c objects (''remote unreachable: '' @ t)
      | Inr vs \<Rightarrow>
          eff_bind (eff_each (sync_one c vs) objects) (\<lambda>results.
          eff_bind (pull_new c objects vs) (\<lambda>pulled. sync_finish c (results @ pulled))))"

definition sync_run :: "'r sync_cfg \<Rightarrow> sync_object list \<Rightarrow> ('r sync_mgr, sync_report) eff" where
  "sync_run c objects =
     eff_then (sync_emit c ''SyncStarted'' (JObj [(''objects'', JInt (int (length objects)))]))
      (eff_bind (caught (tr_list (sc_transport c))) (with_listing c objects))"

definition busy_text :: string where
  "busy_text = ''a sync run is already in progress''"

definition sync :: "'r sync_cfg \<Rightarrow> sync_object list \<Rightarrow> ('r sync_mgr, sync_report) eff" where
  "sync c objects s =
     (if sm_locked s then eff_raise (OtherException busy_text) s
      else eff_finally (sync_run c objects) (\<lambda>s. s\<lparr>sm_running := False, sm_locked := False\<rparr>)
             (s\<lparr>sm_locked := True, sm_running := True\<rparr>))"

function retry_loop :: "'r sync_cfg \<Rightarrow> sync_object list \<Rightarrow> nat \<Rightarrow> ('r sync_mgr, sync_report) eff" where
  "retry_loop c objects attempts s =
     (let n = attempts + 1 in
      case sync c objects s of
        (Inl (ConnectionError t), s') \<Rightarrow>
          if n > sc_retries c
          then eff_return \<lparr>rp_state = S_FAILED, rp_results = [], rp_attempts = n,
                           rp_error = ''retry budget exhausted: '' @ t\<rparr> s'
          else retry_loop c objects n s'
      | (Inl e, s') \<Rightarrow> eff_raise e s'
      | (Inr report, s') \<Rightarrow>
          if rp_state report = S_FAILED \<and> n \<le> sc_retries c then retry_loop c objects n s'
          else eff_return (report\<lparr>rp_attempts := n\<rparr>) s')"
  by pat_completeness auto

termination
  by (relation "measure (\<lambda>(c, objects, attempts, s). Suc (sc_retries c) - attempts)") auto

declare retry_loop.simps [simp del]

definition retry_sync :: "'r sync_cfg \<Rightarrow> sync_object list \<Rightarrow> ('r sync_mgr, sync_report) eff" where
  "retry_sync c objects = retry_loop c objects 0"

definition resolve_local ::
  "'r sync_cfg \<Rightarrow> sync_object \<Rightarrow> ('r sync_mgr, sync_result) eff" where
  "resolve_local c obj =
     (if \<not> can_upload (sc_policy c) obj
      then eff_return (mk_result obj S_SKIPPED
             (''policy '' @ sync_class_text (sync_classify (sc_policy c) obj) @ '': upload not permitted''))
      else eff_bind
        (caught (tr_push (sc_transport c) obj))
        (\<lambda>r. case r of
           Inl t \<Rightarrow> eff_return (mk_result obj S_FAILED t)
         | Inr v \<Rightarrow> eff_then (acknowledge (so_id obj) v)
                     (eff_return (mk_result obj S_UPLOADED ''conflict kept local''))))"

definition resolve_remote ::
  "'r sync_cfg \<Rightarrow> sync_object \<Rightarrow> ('r sync_mgr, sync_result) eff" where
  "resolve_remote c obj =
     eff_bind (on_remote (tr_pull (sc_transport c) (so_id obj))) (\<lambda>found.
       case found of
         None \<Rightarrow> eff_return (mk_result obj S_FAILED ''remote object vanished'')
       | Some remote \<Rightarrow>
           if \<not> can_download (sc_policy c) (sync_classify (sc_policy c) remote)
           then eff_return (mk_result obj S_SKIPPED ''download not permitted by policy'')
           else eff_then (acknowledge (so_id obj) (so_version remote))
                  (eff_return (mk_result obj S_DOWNLOADED ''conflict kept remote'')))"

definition resolve ::
  "'r sync_cfg \<Rightarrow> string \<Rightarrow> string \<Rightarrow> sync_object list \<Rightarrow> ('r sync_mgr, sync_result) eff" where
  "resolve c oid choice objects =
     (if choice \<notin> {''local'', ''remote''}
        then eff_raise (DomainValidationError (''keep must be 'local' or 'remote'' @ [CHR 0x27]))
      else case find (\<lambda>obj. so_id obj = oid) objects of
          None \<Rightarrow> eff_raise (DomainValidationError (''unknown object '' @ repr_str oid))
        | Some obj \<Rightarrow>
            eff_bind
              (caught (tr_list (sc_transport c)))
              (\<lambda>r. case r of
                 Inl t \<Rightarrow> eff_return (mk_result obj S_FAILED t)
               | Inr _ \<Rightarrow> if choice = ''local'' then resolve_local c obj else resolve_remote c obj))"

definition manifest :: "'r sync_cfg \<Rightarrow> sync_object list \<Rightarrow> manifest_entry list" where
  "manifest c objects =
     map (\<lambda>obj. \<lparr>me_id = so_id obj, me_type = so_type obj, me_version = so_version obj,
                 me_hash = so_hash obj, me_scope = so_scope obj,
                 me_class = sync_classify (sc_policy c) obj, me_timestamp = so_updated obj\<rparr>) objects"

subsection \<open>What is sent\<close>

text \<open>A transport that also writes down the calls it gets.\<close>

datatype remote_call = Listed | Pushed sync_object | Pulled string

definition spied :: "remote_call \<Rightarrow> ('r, 'a) eff \<Rightarrow> ('r \<times> remote_call list, 'a) eff" where
  "spied call m s = (case m (fst s) of (x, r) \<Rightarrow> (x, (r, snd s @ [call])))"

definition spy :: "'r transport \<Rightarrow> ('r \<times> remote_call list) transport" where
  "spy tr = \<lparr>tr_list = spied Listed (tr_list tr), tr_push = (\<lambda>obj. spied (Pushed obj) (tr_push tr obj)),
             tr_pull = (\<lambda>oid. spied (Pulled oid) (tr_pull tr oid))\<rparr>"

definition spied_cfg :: "'r sync_cfg \<Rightarrow> ('r \<times> remote_call list) sync_cfg" where
  "spied_cfg c = \<lparr>sc_policy = sc_policy c, sc_transport = spy (sc_transport c), sc_bus = sc_bus c,
                 sc_retries = sc_retries c\<rparr>"

lemma spied_cfg_simps [simp]:
  "sc_policy (spied_cfg c) = sc_policy c" "sc_transport (spied_cfg c) = spy (sc_transport c)"
  "sc_retries (spied_cfg c) = sc_retries c"
  by (simp_all add: spied_cfg_def)

datatype sync_op =
    Do_sync "sync_object list"
  | Do_retry "sync_object list"
  | Do_resolve string string "sync_object list"

fun sync_op_run :: "'r sync_cfg \<Rightarrow> sync_op \<Rightarrow> 'r sync_mgr \<Rightarrow> 'r sync_mgr" where
  "sync_op_run c (Do_sync objects) s = snd (sync c objects s)"
| "sync_op_run c (Do_retry objects) s = snd (retry_sync c objects s)"
| "sync_op_run c (Do_resolve oid choice objects) s = snd (resolve c oid choice objects s)"

fun op_objects :: "sync_op \<Rightarrow> sync_object list" where
  "op_objects (Do_sync objects) = objects"
| "op_objects (Do_retry objects) = objects"
| "op_objects (Do_resolve _ _ objects) = objects"

definition remote_inv :: "('r \<Rightarrow> bool) \<Rightarrow> 'r sync_mgr \<Rightarrow> bool" where
  "remote_inv I s = I (sm_remote s)"

named_theorems sync_keeps "what the operations keep of the remote side"

lemma keeps_on_remote [sync_keeps]: "keeps I m \<Longrightarrow> keeps (remote_inv I) (on_remote m)"
  by (auto simp: keeps_def on_remote_def remote_inv_def split: prod.splits)

lemma keeps_acknowledge [sync_keeps]: "keeps (remote_inv I) (acknowledge oid v)"
  by (simp add: keeps_def acknowledge_def remote_inv_def)

lemma keeps_emit [sync_keeps]: "keeps (remote_inv I) (sync_emit c ty p)"
  by (simp add: keeps_def sync_emit_def remote_inv_def)

lemma keeps_emit_for [sync_keeps]: "keeps (remote_inv I) (emit_for c r)"
  by (simp add: emit_for_def keeps_emit)

lemma keeps_record [sync_keeps]: "keeps (remote_inv I) (sync_record c obj st d)"
  unfolding sync_record_def by (intro keeps_intros sync_keeps)

lemma on_network_Some: "on_network h e = Some k \<longleftrightarrow> (\<exists>t. e = ConnectionError t \<and> k = h t)"
  by (auto simp: on_network_def split: exn.splits)

text \<open>A call of the transport with a network failure caught.\<close>

lemma keeps_caught: "keeps I m \<Longrightarrow> keeps (remote_inv I) (caught m)"
  unfolding caught_def by (intro keeps_intros sync_keeps) (auto simp: on_network_Some intro!: keeps_intros)

text \<open>The condition on a transport under which the remote side keeps \<open>I\<close>.\<close>

definition remote_keeps :: "('r \<Rightarrow> bool) \<Rightarrow> 'r sync_cfg \<Rightarrow> sync_object list \<Rightarrow> bool" where
  "remote_keeps I c objects \<longleftrightarrow>
     (\<forall>oid. keeps I (tr_pull (sc_transport c) oid))
     \<and> (\<forall>obj \<in> set objects. can_upload (sc_policy c) obj \<longrightarrow> keeps I (tr_push (sc_transport c) obj))"

lemma keeps_sync_push:
  "keeps I (tr_push (sc_transport c) obj) \<Longrightarrow> keeps (remote_inv I) (sync_push c obj d)"
  unfolding sync_push_def
  by (rule keeps_bind [OF keeps_caught]) (auto split: sum.split intro!: keeps_intros sync_keeps)

lemma keeps_sync_one:
  assumes "remote_keeps I c objects" and "obj \<in> set objects"
  shows "keeps (remote_inv I) (sync_one c vs obj)"
  using assms unfolding sync_one_def Let_def remote_keeps_def
  by (auto split: option.split intro!: keeps_intros sync_keeps keeps_sync_push)

lemma keeps_pull_one:
  assumes "remote_keeps I c objects"
  shows "keeps (remote_inv I) (pull_one c ids e)"
  using assms unfolding pull_one_def remote_keeps_def
  by (auto split: prod.split option.split intro!: keeps_intros sync_keeps)

lemma keeps_pull_new:
  assumes "remote_keeps I c objects"
  shows "keeps (remote_inv I) (pull_new c objects vs)"
  unfolding pull_new_def Let_def
  by (intro keeps_intros keeps_each sync_keeps keeps_pull_one [OF assms])

lemma keeps_failed [sync_keeps]: "keeps (remote_inv I) (sync_failed c objects t)"
  unfolding sync_failed_def Let_def by (intro keeps_intros keeps_each sync_keeps)

lemma keeps_with_listing:
  assumes "remote_keeps I c objects"
  shows "keeps (remote_inv I) (with_listing c objects listing)"
proof -
  have e: "keeps (remote_inv I) (sync_finish c rs)" for rs
    unfolding sync_finish_def by (intro keeps_intros sync_keeps)
  show ?thesis
    unfolding with_listing_def
    by (auto split: sum.split intro!: keeps_failed e keeps_bind keeps_each keeps_sync_one [OF assms]
          keeps_pull_new [OF assms])
qed

lemma keeps_sync_run:
  assumes "remote_keeps I c objects" and "keeps I (tr_list (sc_transport c))"
  shows "keeps (remote_inv I) (sync_run c objects)"
  unfolding sync_run_def
  by (intro keeps_then keeps_emit keeps_bind keeps_caught assms keeps_with_listing [OF assms(1)])

lemma keeps_sync:
  assumes "remote_keeps I c objects" and "keeps I (tr_list (sc_transport c))"
  shows "keeps (remote_inv I) (sync c objects)"
proof -
  have "remote_inv I (snd (sync_run c objects (s\<lparr>sm_locked := True, sm_running := True\<rparr>)))"
    if "remote_inv I s" for s
    using that by (intro keepsD [OF keeps_sync_run [OF assms]]) (simp add: remote_inv_def)
  then show ?thesis
    by (auto simp: keeps_def sync_def eff_finally_def remote_inv_def split: prod.split)
      (metis snd_conv)
qed

lemma keeps_retry_loop:
  "remote_keeps I c objects \<Longrightarrow> keeps I (tr_list (sc_transport c)) \<Longrightarrow> remote_inv I s \<Longrightarrow>
   remote_inv I (snd (retry_loop c objects n s))"
proof (induction c objects n s rule: retry_loop.induct)
  case (1 c objects n s)
  show ?case
    using 1 keepsD [OF keeps_sync [OF "1.prems"(1,2)], of s]
    by (subst retry_loop.simps) (auto simp: Let_def split: prod.split sum.split exn.split)
qed

lemma keeps_resolve:
  assumes "remote_keeps I c objects" and l: "keeps I (tr_list (sc_transport c))"
  shows "keeps (remote_inv I) (resolve c oid choice objects)"
proof -
  have a: "keeps (remote_inv I) (resolve_local c obj)" if "obj \<in> set objects" for obj
    unfolding resolve_local_def
    using assms that unfolding remote_keeps_def
    by (intro keeps_if keeps_return keeps_bind [OF keeps_caught])
      (auto split: sum.split intro!: keeps_intros sync_keeps)
  have b: "keeps (remote_inv I) (resolve_remote c obj)" for obj
    using assms unfolding resolve_remote_def remote_keeps_def
    by (auto split: option.split intro!: keeps_intros sync_keeps)
  show ?thesis
    unfolding resolve_def
    by (intro keeps_if keeps_raise keeps_option keeps_bind [OF keeps_caught [OF l]])
      (auto split: sum.split intro!: keeps_return a b dest!: find_Some_in_set)
qed

lemma keeps_sync_op:
  assumes "remote_keeps I c (op_objects a)" and "keeps I (tr_list (sc_transport c))"
    and "remote_inv I s"
  shows "remote_inv I (sync_op_run c a s)"
  using assms keepsD [OF keeps_sync] keepsD [OF keeps_resolve] keeps_retry_loop
  by (cases a) (auto simp: retry_sync_def)

definition pushed :: "remote_call list \<Rightarrow> sync_object set" where
  "pushed calls = {obj. Pushed obj \<in> set calls}"

definition eligible :: "sync_policy \<Rightarrow> sync_object \<Rightarrow> bool" where
  "eligible p obj \<longleftrightarrow> can_upload p obj \<and> \<not> contains_secrets (JObj (so_payload obj))"

lemma can_upload_eligible: "can_upload p obj \<Longrightarrow> eligible p obj"
  by (auto simp: eligible_def can_upload_def sync_classify_def)

lemma spy_keeps:
  assumes "sc_transport c = spy tr" and "set objects \<subseteq> E"
  shows "remote_keeps (\<lambda>s. pushed (snd s) \<subseteq> {obj \<in> E. eligible (sc_policy c) obj}) c objects"
    and "keeps (\<lambda>s. pushed (snd s) \<subseteq> {obj \<in> E. eligible (sc_policy c) obj}) (tr_list (sc_transport c))"
  using assms can_upload_eligible
  by (auto simp: remote_keeps_def keeps_def spy_def spied_def pushed_def split: prod.split)

text \<open>
  C9: Whatever the transport does, whatever fails, is retried or is resolved by hand, every
  object the manager ever hands to the remote side was offered by its caller, is of a class
  the policy lets go up, and shows no secret in its payload.
\<close>

theorem only_eligible_objects_leave:
  "pushed (snd (sm_remote (fold (sync_op_run (spied_cfg c)) ops (new_mgr (r, [])))))
   \<subseteq> {obj \<in> \<Union> (set ` op_objects ` set ops).
        sync_classify (sc_policy c) obj \<in> {SYNC_ALLOWED, SYNC_RESTRICTED}
        \<and> \<not> contains_secrets (JObj (so_payload obj))}"
proof -
  let ?c = "spied_cfg c" and ?E = "\<Union> (set ` op_objects ` set ops)"
  let ?I = "\<lambda>s :: 'a \<times> remote_call list. pushed (snd s) \<subseteq> {obj \<in> ?E. eligible (sc_policy c) obj}"
  have "remote_inv ?I (fold (sync_op_run ?c) as s)"
    if "set as \<subseteq> set ops" "remote_inv ?I s" for as and s :: "('a \<times> remote_call list) sync_mgr"
    using that
  proof (induction as arbitrary: s)
    case Nil
    then show ?case by simp
  next
    case (Cons a as)
    have "remote_keeps ?I ?c (op_objects a)" "keeps ?I (tr_list (sc_transport ?c))"
      using spy_keeps [of ?c "sc_transport c" "op_objects a" ?E] Cons.prems by auto
    then show ?case using Cons keeps_sync_op by fastforce
  qed
  from this [of ops "new_mgr (r, [])"]
  have "remote_inv ?I (fold (sync_op_run ?c) ops (new_mgr (r, [])))"
    by (simp add: remote_inv_def new_mgr_def pushed_def)
  then show ?thesis unfolding remote_inv_def eligible_def can_upload_def .
qed

text \<open>\<open>retry_sync\<close> lists the remote side once per attempt.\<close>

definition listings :: "remote_call list \<Rightarrow> nat" where
  "listings calls = length (filter (\<lambda>call. call = Listed) calls)"

lemma spy_keeps_listings:
  "remote_keeps (\<lambda>s. listings (snd s) = k) (spied_cfg c) objects"
  by (auto simp: remote_keeps_def keeps_def spy_def spied_def listings_def split: prod.split)

lemma listings_sync:
  fixes s :: "('r \<times> remote_call list) sync_mgr"
  assumes "c = spied_cfg c'" and "\<not> sm_locked s" and "sync c objects s = (x, s')"
  shows "listings (snd (sm_remote s')) = Suc (listings (snd (sm_remote s)))" and "\<not> sm_locked s'"
proof -
  let ?k = "Suc (listings (snd (sm_remote s)))"
  let ?s = "s\<lparr>sm_locked := True, sm_running := True\<rparr>"
  let ?J = "remote_inv (\<lambda>r :: 'r \<times> remote_call list. listings (snd r) = ?k)"
  obtain y s1 where e: "sync_emit c ''SyncStarted'' (JObj [(''objects'', JInt (int (length objects)))]) ?s = (Inr y, s1)"
    and r1: "sm_remote s1 = sm_remote s"
    by (simp add: sync_emit_def)
  obtain z s2 where l: "caught (tr_list (sc_transport c)) s1 = (z, s2)" by fastforce
  have "?J s2"
    using l r1
    by (auto simp: assms(1) caught_def eff_try_def eff_bind_def on_remote_def spy_def spied_def
          remote_inv_def listings_def on_network_def split: prod.splits sum.splits option.splits exn.splits)
  then have "?J (snd (with_listing c objects v s2))" for v
    by (intro keepsD [OF keeps_with_listing]) (simp_all add: assms(1) spy_keeps_listings)
  moreover have "snd (sync_run c objects ?s) = (case z of Inl _ \<Rightarrow> s2 | Inr v \<Rightarrow> snd (with_listing c objects v s2))"
    using e l by (simp add: sync_run_def eff_then_def eff_bind_def split: sum.splits)
  ultimately have "?J (snd (sync_run c objects ?s))"
    using \<open>?J s2\<close> by (simp split: sum.splits)
  then show "listings (snd (sm_remote s')) = ?k" "\<not> sm_locked s'"
    using assms(2,3) by (auto simp: sync_def eff_finally_def remote_inv_def split: prod.splits)
qed

lemma retry_loop_listings:
  fixes s :: "('r \<times> remote_call list) sync_mgr"
  assumes "\<not> sm_locked s" and "n \<le> sc_retries c" and "listings (snd (sm_remote s)) = k + n"
    and "retry_loop (spied_cfg c) objects n s = (Inr rp, s')"
  shows "k + rp_attempts rp = listings (snd (sm_remote s')) \<and> rp_attempts rp \<le> Suc (sc_retries c)
         \<and> (rp_state rp \<noteq> S_FAILED \<or> rp_attempts rp = Suc (sc_retries c))"
  using assms
proof (induction "Suc (sc_retries c) - n" arbitrary: n s rule: less_induct)
  case less
  let ?c = "spied_cfg c"
  obtain x s1 where r: "sync ?c objects s = (x, s1)" by fastforce
  note l = listings_sync [OF refl less.prems(1) r]
  have step: "k + rp_attempts rp = listings (snd (sm_remote s')) \<and> rp_attempts rp \<le> Suc (sc_retries c)
         \<and> (rp_state rp \<noteq> S_FAILED \<or> rp_attempts rp = Suc (sc_retries c))"
    if "retry_loop ?c objects (n + 1) s1 = (Inr rp, s')" "n + 1 \<le> sc_retries c"
    using less.hyps [of "n + 1" s1] that l less.prems(3) by simp
  show ?case
    using less.prems(2-4) r l step
    by (subst (asm) retry_loop.simps) (auto simp: Let_def split: sum.splits exn.splits if_splits)
qed

text \<open>
  A retried synchronisation of a free manager asks the remote side at most
  \<^verbatim>\<open>max_retries + 1\<close> times, reports exactly how often it asked, and reports a
  failure only after the whole budget is spent.
\<close>

theorem retry_is_bounded:
  assumes "\<not> sm_locked s" and "sm_remote s = (r, [])"
    and "retry_sync (spied_cfg c) objects s = (Inr rp, s')"
  shows "rp_attempts rp = listings (snd (sm_remote s')) \<and> rp_attempts rp \<le> Suc (sc_retries c)
         \<and> (rp_state rp = S_FAILED \<longrightarrow> rp_attempts rp = Suc (sc_retries c))"
  using retry_loop_listings [of s 0 c 0 objects rp s'] assms
  by (auto simp: retry_sync_def listings_def)

subsection \<open>The contract of a transport\<close>

text \<open>
  What the manager may expect of the remote side: listing and pulling read it, the index is
  the index of what is stored, a push that returns has stored exactly its object, and a push
  that raises has stored nothing.
\<close>

definition index_of :: "sync_object \<Rightarrow> string \<times> string" where
  "index_of obj = (so_version obj, so_hash obj)"

locale sync_transport =
  fixes tr :: "'r transport" and view :: "'r \<Rightarrow> string \<Rightarrow> sync_object option" and good :: "'r \<Rightarrow> bool"
  assumes list_reads: "view (snd (tr_list tr r)) = view r"
    and list_index: "fst (tr_list tr r) = Inr vs \<Longrightarrow> map_of vs oid = map_option index_of (view r oid)"
    and list_distinct: "good r \<Longrightarrow> fst (tr_list tr r) = Inr vs \<Longrightarrow> distinct (keys vs)"
    and list_good: "keeps good (tr_list tr)"
    and pull_reads: "view (snd (tr_pull tr oid r)) = view r"
    and pull_finds: "fst (tr_pull tr oid r) = Inr found \<Longrightarrow> found = view r oid"
    and pull_good: "keeps good (tr_pull tr oid)"
    and push_raises: "fst (tr_push tr obj r) = Inl e \<Longrightarrow> view (snd (tr_push tr obj r)) = view r"
    and push_stores: "fst (tr_push tr obj r) = Inr v \<Longrightarrow>
           v = so_version obj \<and> view (snd (tr_push tr obj r)) = (view r)(so_id obj \<mapsto> obj)"
    and push_good: "keeps good (tr_push tr obj)"

text \<open>A transport none of whose calls fails while \<open>up\<close> holds.\<close>

locale reliable_transport = sync_transport tr view good
  for tr :: "'r transport" and view :: "'r \<Rightarrow> string \<Rightarrow> sync_object option" and good :: "'r \<Rightarrow> bool" +
  fixes up :: "'r \<Rightarrow> bool"
  assumes list_returns: "up r \<Longrightarrow> is_inr (fst (tr_list tr r))"
    and pull_returns: "up r \<Longrightarrow> is_inr (fst (tr_pull tr oid r))"
    and push_returns: "up r \<Longrightarrow> is_inr (fst (tr_push tr obj r))"
    and list_up: "keeps up (tr_list tr)"
    and pull_up: "keeps up (tr_pull tr oid)"
    and push_up: "keeps up (tr_push tr obj)"

text \<open>The mock keeps the contract while the keys of its dictionary are distinct.\<close>

definition mock_view :: "mock_remote \<Rightarrow> string \<Rightarrow> sync_object option" where
  "mock_view m = map_of (mr_remote m)"

definition mock_good :: "mock_remote \<Rightarrow> bool" where
  "mock_good m = distinct (keys (mr_remote m))"

definition mock_up :: "mock_remote \<Rightarrow> bool" where
  "mock_up m \<longleftrightarrow> \<not> mr_down m \<and> mr_fail_after m < 0"

lemma mock_index:
  "map_of (map (\<lambda>(oid, obj). (oid, so_version obj, so_hash obj)) xs) oid = map_option index_of (map_of xs oid)"
  by (induction xs) (auto simp: index_of_def)

lemma mock_keys [simp]: "map (fst \<circ> (\<lambda>(oid, obj). (oid, so_version obj, so_hash obj))) xs = keys xs"
  by (induction xs) auto

lemmas mock_defs =
  mock_transport_def mock_list_def mock_push_def mock_pull_def mock_check_def eff_then_def eff_bind_def
  mock_view_def mock_good_def mock_up_def

interpretation mock: reliable_transport mock_transport mock_view mock_good mock_up
proof unfold_locales
  show "fst (tr_list mock_transport r) = Inr vs \<Longrightarrow> map_of vs oid = map_option index_of (mock_view r oid)"
    for r vs oid
    using mock_index [of "mr_remote r" oid] by (auto simp: mock_defs split: if_splits)
  show "mock_good r \<Longrightarrow> fst (tr_list mock_transport r) = Inr vs \<Longrightarrow> distinct (keys vs)" for r vs
    by (auto simp: mock_defs split: if_splits)
qed (auto simp: mock_defs keeps_def fun_eq_iff distinct_keys_dict_set split: if_splits)

subsection \<open>The three-way rule\<close>

text \<open>
  The abstract synchronisation: from the local objects, the remote side and the versions both
  sides last agreed on, a new remote side and new agreements, each identifier on its own. An
  object goes up when the remote side does not have it, or has the agreed version while the
  local one differs; where they differ without such an agreement nothing moves.
\<close>

type_synonym sync_view = "(string \<Rightarrow> sync_object option) \<times> (string \<Rightarrow> string option)"

definition goes_up :: "sync_policy \<Rightarrow> sync_object \<Rightarrow> sync_view \<Rightarrow> bool" where
  "goes_up p obj va \<longleftrightarrow> can_upload p obj
     \<and> (case fst va (so_id obj) of None \<Rightarrow> True
        | Some r \<Rightarrow> index_of r \<noteq> index_of obj \<and> snd va (so_id obj) = Some (so_version r))"

definition agrees :: "sync_policy \<Rightarrow> sync_object \<Rightarrow> sync_view \<Rightarrow> bool" where
  "agrees p obj va \<longleftrightarrow> can_upload p obj
     \<and> (case fst va (so_id obj) of None \<Rightarrow> False | Some r \<Rightarrow> index_of r = index_of obj)"

definition new_view :: "sync_policy \<Rightarrow> sync_object list \<Rightarrow> sync_view \<Rightarrow> string \<Rightarrow> sync_object option" where
  "new_view p objects va oid =
     (case find (\<lambda>obj. so_id obj = oid) objects of
        None \<Rightarrow> fst va oid
      | Some obj \<Rightarrow> if goes_up p obj va then Some obj else fst va oid)"

definition local_acks :: "sync_policy \<Rightarrow> sync_object list \<Rightarrow> sync_view \<Rightarrow> string \<Rightarrow> string option" where
  "local_acks p objects va oid =
     (case find (\<lambda>obj. so_id obj = oid) objects of
        None \<Rightarrow> snd va oid
      | Some obj \<Rightarrow> if goes_up p obj va \<or> agrees p obj va then Some (so_version obj) else snd va oid)"

definition remote_acks :: "sync_policy \<Rightarrow> sync_object list \<Rightarrow> sync_view \<Rightarrow> string \<Rightarrow> string option" where
  "remote_acks p objects va oid =
     (if oid \<in> so_id ` set objects then snd va oid
      else case fst va oid of
          Some r \<Rightarrow> if can_download p (sync_classify p r) then Some (so_version r) else snd va oid
        | None \<Rightarrow> snd va oid)"

definition three_way :: "sync_policy \<Rightarrow> sync_object list \<Rightarrow> sync_view \<Rightarrow> sync_view" where
  "three_way p objects va =
     (new_view p objects va, remote_acks p objects (fst va, local_acks p objects va))"

lemma three_way_local:
  assumes "find (\<lambda>obj. so_id obj = oid) objects = Some obj"
  shows "so_id obj = oid" and "oid \<in> so_id ` set objects"
    and "fst (three_way p objects va) oid = (if goes_up p obj va then Some obj else fst va oid)"
    and "snd (three_way p objects va) oid =
           (if goes_up p obj va \<or> agrees p obj va then Some (so_version obj) else snd va oid)"
  using find_Some_in_set [OF assms]
  by (auto simp: three_way_def new_view_def local_acks_def remote_acks_def assms)

lemma three_way_other:
  assumes "find (\<lambda>obj. so_id obj = oid) objects = None"
  shows "fst (three_way p objects va) oid = fst va oid"
    and "snd (three_way p objects va) oid =
      (case fst va oid of
         Some r \<Rightarrow> if can_download p (sync_classify p r) then Some (so_version r) else snd va oid
       | None \<Rightarrow> snd va oid)"
  using assms [unfolded find_None_iff]
  by (auto simp: three_way_def new_view_def local_acks_def remote_acks_def assms split: option.split)

lemma three_way_settled:
  assumes "find (\<lambda>obj. so_id obj = oid) objects = Some obj"
  shows "\<not> goes_up p obj (three_way p objects va)"
    and "agrees p obj (three_way p objects va) \<longleftrightarrow> goes_up p obj va \<or> agrees p obj va"
  using three_way_local(1) [OF assms] three_way_local(3,4) [OF assms, of p va]
  by (auto simp: goes_up_def agrees_def split: option.splits if_splits)

lemma three_way_idem: "three_way p objects (three_way p objects va) = three_way p objects va"
proof (rule prod_eqI; rule ext)
  fix oid
  show "fst (three_way p objects (three_way p objects va)) oid = fst (three_way p objects va) oid"
  proof (cases "find (\<lambda>obj. so_id obj = oid) objects")
    case None
    then show ?thesis by (simp add: three_way_other)
  next
    case (Some obj)
    then show ?thesis by (simp add: three_way_local(3) [OF Some] three_way_settled [OF Some])
  qed
  show "snd (three_way p objects (three_way p objects va)) oid = snd (three_way p objects va) oid"
  proof (cases "find (\<lambda>obj. so_id obj = oid) objects")
    case None
    then show ?thesis by (simp add: three_way_other split: option.split)
  next
    case (Some obj)
    then show ?thesis by (simp add: three_way_local(4) [OF Some] three_way_settled [OF Some])
  qed
qed

subsection \<open>The manager follows the three-way rule\<close>

definition sync_abs :: "('r \<Rightarrow> string \<Rightarrow> sync_object option) \<Rightarrow> 'r sync_mgr \<Rightarrow> sync_view" where
  "sync_abs view s = (view (sm_remote s), map_of (sm_acks s))"

text \<open>One object, and what a listing says of the remote side.\<close>

definition step_one :: "sync_policy \<Rightarrow> sync_object \<Rightarrow> sync_view \<Rightarrow> sync_view" where
  "step_one p obj va =
     (if goes_up p obj va then (fst va)(so_id obj \<mapsto> obj) else fst va,
      if goes_up p obj va \<or> agrees p obj va then (snd va)(so_id obj \<mapsto> so_version obj) else snd va)"

lemma three_way_cong:
  assumes "fst va (so_id obj) = fst va' (so_id obj)" and "snd va (so_id obj) = snd va' (so_id obj)"
  shows "goes_up p obj va = goes_up p obj va'" and "agrees p obj va = agrees p obj va'"
  using assms by (simp_all add: goes_up_def agrees_def split: option.split)

lemma step_one_other:
  assumes "oid \<noteq> so_id obj"
  shows "fst (step_one p obj va) oid = fst va oid" and "snd (step_one p obj va) oid = snd va oid"
  using assms by (simp_all add: step_one_def)

lemma step_one_same:
  "fst (step_one p obj va) (so_id obj) = (if goes_up p obj va then Some obj else fst va (so_id obj))"
  "snd (step_one p obj va) (so_id obj) =
     (if goes_up p obj va \<or> agrees p obj va then Some (so_version obj) else snd va (so_id obj))"
  by (simp_all add: step_one_def)

lemma fold_step_one:
  "distinct (map so_id objects) \<Longrightarrow>
   fold (step_one p) objects va = (new_view p objects va, local_acks p objects va)"
proof (induction objects arbitrary: va)
  case Nil
  then show ?case by (simp add: new_view_def local_acks_def)
next
  case (Cons obj objects)
  let ?va = "step_one p obj va"
  have other: "so_id x \<noteq> so_id obj" if "x \<in> set objects" for x
    using distinct_map_Cons [OF Cons.prems that] .
  have n: "find (\<lambda>x. so_id x = so_id obj) objects = None"
    using other by (auto simp: find_None_iff)
  have "new_view p objects ?va oid = new_view p (obj # objects) va oid
        \<and> local_acks p objects ?va oid = local_acks p (obj # objects) va oid" for oid
  proof (cases "oid = so_id obj")
    case True
    then show ?thesis using n by (simp add: new_view_def local_acks_def step_one_same)
  next
    case False
    have "goes_up p x ?va = goes_up p x va" "agrees p x ?va = agrees p x va" if "so_id x = oid" for x
      using False that by (simp_all add: step_one_other three_way_cong [of ?va x va])
    then show ?thesis
      using False
      by (auto simp: new_view_def local_acks_def step_one_other split: option.split
            dest!: find_Some_in_set)
  qed
  then show ?case using Cons by (simp add: fun_eq_iff)
qed

text \<open>The remote side answers, and stands with the agreements as the view says.\<close>

definition at_view ::
  "('r \<Rightarrow> string \<Rightarrow> sync_object option) \<Rightarrow> ('r \<Rightarrow> bool) \<Rightarrow> sync_view \<Rightarrow> 'r sync_mgr \<Rightarrow> bool" where
  "at_view view ok va s \<longleftrightarrow> ok (sm_remote s) \<and> sync_abs view s = va"

lemma at_view_ack:
  "runs (acknowledge oid v) s Q = Q () (s\<lparr>sm_acks := dict_set oid v (sm_acks s)\<rparr>)"
  by (simp add: acknowledge_def runs_simps)

lemma emit_runs: "at_view view ok va s \<Longrightarrow> runs (sync_emit c ty pl) s (\<lambda>_. at_view view ok va)"
  by (simp add: sync_emit_def runs_simps at_view_def sync_abs_def)

lemma emit_for_runs: "at_view view ok va s \<Longrightarrow> runs (emit_for c r) s (\<lambda>_. at_view view ok va)"
  by (simp add: emit_for_def emit_runs)

lemma record_runs:
  "at_view view ok va s \<Longrightarrow> runs (sync_record c obj st d) s (\<lambda>_. at_view view ok va)"
  by (auto simp: sync_record_def runs_simps intro: runs_mono [OF emit_for_runs])

lemma caught_runs: "runs (on_remote m) s (\<lambda>x. Q (Inr x)) \<Longrightarrow> runs (caught m) s Q"
  unfolding caught_def by (rule runs_try) (simp add: runs_simps)

lemma on_remote_runs: "runs (on_remote m) s Q = runs m (sm_remote s) (\<lambda>x r. Q x (s\<lparr>sm_remote := r\<rparr>))"
  by (simp add: runs_def on_remote_def split: prod.split sum.split)

text \<open>The agreements after the entries of a listing with these keys are pulled.\<close>

definition pulled_acks ::
  "sync_policy \<Rightarrow> string set \<Rightarrow> (string \<Rightarrow> sync_object option) \<Rightarrow> string set \<Rightarrow>
   (string \<Rightarrow> string option) \<Rightarrow> string \<Rightarrow> string option" where
  "pulled_acks p ids V seen A oid =
     (if oid \<in> ids \<or> oid \<notin> seen then A oid
      else case V oid of
          Some r \<Rightarrow> if can_download p (sync_classify p r) then Some (so_version r) else A oid
        | None \<Rightarrow> A oid)"

lemma pulled_acks_insert:
  "pulled_acks p ids V seen (\<lambda>x. pulled_acks p ids V {oid} A x) = pulled_acks p ids V (insert oid seen) A"
  by (auto simp: pulled_acks_def fun_eq_iff split: option.split)

lemma pulled_acks_all:
  assumes "\<And>oid. V oid \<noteq> None \<Longrightarrow> oid \<notin> so_id ` set objects \<Longrightarrow> oid \<in> seen"
  shows "pulled_acks p (so_id ` set objects) V seen A = remote_acks p objects (V, A)"
  using assms by (fastforce simp: pulled_acks_def remote_acks_def fun_eq_iff split: option.split)

lemma emits_run:
  "at_view view ok va s \<Longrightarrow> runs (eff_each (emit_for c) rs) s (\<lambda>_. at_view view ok va)"
  by (rule runs_each_inv) (auto intro: emit_for_runs)

context reliable_transport begin

abbreviation ready :: "sync_view \<Rightarrow> 'r sync_mgr \<Rightarrow> bool" where
  "ready \<equiv> at_view view (\<lambda>r. up r \<and> good r)"

lemma list_runs:
  assumes "up r" and "good r"
  shows "runs (tr_list tr) r (\<lambda>vs r'. up r' \<and> good r' \<and> view r' = view r \<and> distinct (keys vs)
           \<and> (\<forall>oid. map_of vs oid = map_option index_of (view r oid)))"
proof -
  obtain vs where vs: "fst (tr_list tr r) = Inr vs" using list_returns [OF assms(1)] by (auto simp: is_inr_iff)
  show ?thesis
    by (rule runsI [of _ _ vs "snd (tr_list tr r)"])
      (use vs assms list_distinct list_index list_reads keepsD [OF list_up] keepsD [OF list_good]
       in \<open>auto simp: prod_eq_iff\<close>)
qed

lemma pull_runs:
  assumes "up r" and "good r"
  shows "runs (tr_pull tr oid) r (\<lambda>x r'. up r' \<and> good r' \<and> view r' = view r \<and> x = view r oid)"
proof -
  obtain x where x: "fst (tr_pull tr oid r) = Inr x" using pull_returns [OF assms(1)] by (auto simp: is_inr_iff)
  show ?thesis
    by (rule runsI [of _ _ x "snd (tr_pull tr oid r)"])
      (use x assms pull_finds pull_reads keepsD [OF pull_up] keepsD [OF pull_good]
       in \<open>auto simp: prod_eq_iff\<close>)
qed

lemma push_runs:
  assumes "up r" and "good r"
  shows "runs (tr_push tr obj) r (\<lambda>v r'. up r' \<and> good r' \<and> view r' = (view r)(so_id obj \<mapsto> obj)
           \<and> v = so_version obj)"
proof -
  obtain v where v: "fst (tr_push tr obj r) = Inr v" using push_returns [OF assms(1)] by (auto simp: is_inr_iff)
  show ?thesis
    by (rule runsI [of _ _ v "snd (tr_push tr obj r)"])
      (use v assms push_stores [OF v] keepsD [OF push_up] keepsD [OF push_good]
       in \<open>auto simp: prod_eq_iff\<close>)
qed

lemma sync_push_runs:
  assumes "sc_transport c = tr" and "ready va s"
  shows "runs (sync_push c obj d) s
           (\<lambda>_. ready ((fst va)(so_id obj \<mapsto> obj), (snd va)(so_id obj \<mapsto> so_version obj)))"
  unfolding sync_push_def runs_bind
  by (rule caught_runs, unfold on_remote_runs, rule runs_mono, unfold assms(1), rule push_runs)
    (use assms(2) in \<open>auto simp: at_view_def sync_abs_def runs_simps at_view_ack fun_eq_iff intro!: record_runs\<close>)

lemma sync_one_runs:
  assumes "sc_transport c = tr" and "ready va s"
    and "map_of vs (so_id obj) = map_option index_of (fst va (so_id obj))"
  shows "runs (sync_one c vs obj) s (\<lambda>_. ready (step_one (sc_policy c) obj va))"
proof (cases "can_upload (sc_policy c) obj")
  case False
  then have "step_one (sc_policy c) obj va = va" by (simp add: step_one_def goes_up_def agrees_def)
  then show ?thesis
    using False assms(2) by (simp add: sync_one_def Let_def record_runs)
next
  case True
  then have cl: "sync_classify (sc_policy c) obj \<notin> {LOCAL_ONLY, SYNC_FORBIDDEN}"
    by (auto simp: can_upload_def)
  show ?thesis
  proof (cases "fst va (so_id obj)")
    case None
    then show ?thesis
      using sync_push_runs [OF assms(1,2), of obj] True cl assms(3)
      by (simp add: sync_one_def step_one_def goes_up_def)
  next
    case (Some r)
    have acks: "map_of (sm_acks s) = snd va" "view (sm_remote s) = fst va"
      using assms(2) by (auto simp: at_view_def sync_abs_def)
    have same: "index_of r = index_of obj \<longleftrightarrow> so_version r = so_version obj \<and> so_hash r = so_hash obj"
      by (simp add: index_of_def)
    have m: "map_of vs (so_id obj) = Some (so_version r, so_hash r)"
      using Some assms(3) by (simp add: index_of_def)
    show ?thesis
      using sync_push_runs [OF assms(1,2), of obj] True cl assms(2) Some acks
      by (auto simp: sync_one_def m step_one_def goes_up_def agrees_def runs_simps same at_view_ack acks
            intro!: record_runs) (auto simp: at_view_def sync_abs_def fun_eq_iff acks)
  qed
qed

lemma each_sync_one_runs:
  assumes "sc_transport c = tr"
  shows "distinct (map so_id objects) \<Longrightarrow> ready va s \<Longrightarrow>
    (\<forall>obj \<in> set objects. map_of vs (so_id obj) = map_option index_of (fst va (so_id obj))) \<Longrightarrow>
    runs (eff_each (sync_one c vs) objects) s (\<lambda>_. ready (fold (step_one (sc_policy c)) objects va))"
proof (induction objects arbitrary: va s)
  case Nil
  then show ?case by (simp add: runs_simps)
next
  case (Cons obj objects)
  let ?va = "step_one (sc_policy c) obj va"
  have rest: "\<forall>x \<in> set objects. map_of vs (so_id x) = map_option index_of (fst ?va (so_id x))"
  proof
    fix x assume x: "x \<in> set objects"
    then have "so_id x \<noteq> so_id obj" by (rule distinct_map_Cons [OF Cons.prems(1)])
    then show "map_of vs (so_id x) = map_option index_of (fst ?va (so_id x))"
      using Cons.prems(3) x by (simp add: step_one_other)
  qed
  have "runs (sync_one c vs obj) s (\<lambda>_. ready ?va)"
    using Cons.prems by (intro sync_one_runs assms) auto
  then show ?case
    using Cons.IH [of ?va] Cons.prems(1) rest
    by (auto simp: runs_simps elim!: runs_mono intro: runs_mono)
qed

text \<open>What a pull of one identifier that is not local adds to the agreements.\<close>

lemma pull_one_runs:
  assumes "sc_transport c = tr" and "ready (V, A) s"
    and "oid \<notin> ids \<Longrightarrow> map_option so_version (V oid) = Some v"
  shows "runs (pull_one c ids (oid, v, h)) s
           (\<lambda>_. ready (V, pulled_acks (sc_policy c) ids V {oid} A))"
proof (cases "oid \<in> ids")
  case True
  then have "pulled_acks (sc_policy c) ids V {oid} A = A" by (auto simp: pulled_acks_def)
  then show ?thesis using True assms(2) by (simp add: pull_one_def runs_simps)
next
  case False
  then obtain r where r: "V oid = Some r" "v = so_version r" using assms(3) by auto
  have parts: "up (sm_remote s)" "good (sm_remote s)" "map_of (sm_acks s) = A" "view (sm_remote s) = V"
    using assms(2) by (auto simp: at_view_def sync_abs_def)
  show ?thesis
  proof (cases "A oid = Some v")
    case True
    then have "pulled_acks (sc_policy c) ids V {oid} A = A"
      using r by (auto simp: pulled_acks_def)
    then show ?thesis using True False assms(2) parts r by (simp add: pull_one_def runs_simps)
  next
    case n: False
    have "runs (tr_pull tr oid) (sm_remote s) (\<lambda>x r'. up r' \<and> good r' \<and> view r' = V \<and> x = Some r)"
      using pull_runs [OF parts(1,2), of oid] parts r by simp
    then show ?thesis
      using False n r
      by (auto simp: pull_one_def runs_simps on_remote_runs assms(1) at_view_ack parts elim!: runs_mono)
        (auto simp: at_view_def sync_abs_def parts pulled_acks_def fun_eq_iff)
  qed
qed

lemma each_pull_one_runs:
  assumes "sc_transport c = tr"
  shows "ready (V, A) s \<Longrightarrow>
    (\<forall>(oid, v, h) \<in> set es. oid \<notin> ids \<longrightarrow> map_option so_version (V oid) = Some v) \<Longrightarrow>
    runs (eff_each (pull_one c ids) es) s
      (\<lambda>_. ready (V, pulled_acks (sc_policy c) ids V (fst ` set es) A))"
proof (induction es arbitrary: A s)
  case Nil
  then show ?case by (simp add: runs_simps pulled_acks_def)
next
  case (Cons e es)
  obtain oid v h where e: "e = (oid, v, h)" by (cases e)
  have "runs (pull_one c ids e) s (\<lambda>_. ready (V, pulled_acks (sc_policy c) ids V {oid} A))"
    unfolding e using Cons.prems e by (intro pull_one_runs assms) auto
  moreover have "runs (eff_each (pull_one c ids) es) s1
      (\<lambda>_. ready (V, pulled_acks (sc_policy c) ids V (fst ` set (e # es)) A))"
    if "ready (V, pulled_acks (sc_policy c) ids V {oid} A) s1" for s1
    using Cons.IH [OF that] Cons.prems(2) by (simp add: e pulled_acks_insert)
  ultimately show ?case
    by (simp add: runs_simps) (elim runs_mono, fastforce elim: runs_mono)
qed

lemma pull_new_runs:
  assumes "sc_transport c = tr" and "ready (V, A) s"
    and "\<forall>(oid, v, h) \<in> set vs. oid \<notin> so_id ` set objects \<longrightarrow> map_option so_version (V oid) = Some v"
    and "\<And>oid. V oid \<noteq> None \<Longrightarrow> oid \<notin> so_id ` set objects \<Longrightarrow> oid \<in> fst ` set vs"
  shows "runs (pull_new c objects vs) s (\<lambda>_. ready (V, remote_acks (sc_policy c) objects (V, A)))"
proof -
  have "runs (eff_each (pull_one c (so_id ` set objects)) (sort_key fst vs)) s
          (\<lambda>_. ready (V, remote_acks (sc_policy c) objects (V, A)))"
    using each_pull_one_runs [OF assms(1,2), of "sort_key fst vs" "so_id ` set objects"] assms(3)
      pulled_acks_all [of V objects "fst ` set vs"] assms(4) by simp
  then show ?thesis
    unfolding pull_new_def Let_def runs_simps
    by (elim runs_mono) (auto simp: runs_simps intro: runs_mono [OF emits_run])
qed

lemma sync_finish_runs: "ready va s \<Longrightarrow> runs (sync_finish c rs) s (\<lambda>_. ready va)"
  by (auto simp: sync_finish_def runs_simps intro: runs_mono [OF emit_runs])

lemma with_listing_runs:
  assumes "sc_transport c = tr" and "ready va s" and "distinct (map so_id objects)"
    and "distinct (keys vs)" and vs: "\<And>oid. map_of vs oid = map_option index_of (fst va oid)"
  shows "runs (with_listing c objects (Inr vs)) s (\<lambda>_. ready (three_way (sc_policy c) objects va))"
proof -
  let ?p = "sc_policy c"
  let ?V = "new_view ?p objects va" and ?A = "local_acks ?p objects va"
  have same: "?V oid = fst va oid" if "oid \<notin> so_id ` set objects" for oid
    using that by (auto simp: new_view_def dest!: find_Some_in_set split: option.split)
  have rem: "remote_acks ?p objects (?V, ?A) = remote_acks ?p objects (fst va, ?A)"
    using same by (auto simp: remote_acks_def fun_eq_iff split: option.split)
  have entries: "\<forall>(oid, v, h) \<in> set vs. oid \<notin> so_id ` set objects \<longrightarrow> map_option so_version (?V oid) = Some v"
  proof -
    have "map_option so_version (?V oid) = Some v"
      if "(oid, v, h) \<in> set vs" "oid \<notin> so_id ` set objects" for oid v h
    proof -
      have "map_of vs oid = Some (v, h)" using that(1) assms(4) by simp
      then show ?thesis using vs [of oid] same [OF that(2)] by (auto simp: index_of_def)
    qed
    then show ?thesis by blast
  qed
  have known: "oid \<in> fst ` set vs" if "?V oid \<noteq> None" "oid \<notin> so_id ` set objects" for oid
    using that vs [of oid] same by (metis (no_types, lifting) map_of_eq_None_iff option.map_disc_iff set_map)
  have "runs (eff_each (sync_one c vs) objects) s (\<lambda>_. ready (?V, ?A))"
    using each_sync_one_runs [OF assms(1,3,2), of vs] vs fold_step_one [OF assms(3)] by simp
  moreover have "runs (pull_new c objects vs) s1
      (\<lambda>found s2. runs (sync_finish c (rs @ found)) s2 (\<lambda>_. ready (three_way ?p objects va)))"
    if "ready (?V, ?A) s1" for s1 rs
    by (rule runs_mono [OF pull_new_runs [OF assms(1) that entries known]], assumption)
      (auto simp: rem three_way_def intro: sync_finish_runs)
  ultimately show ?thesis
    by (auto simp: with_listing_def runs_simps elim!: runs_mono)
qed

lemma sync_runs:
  assumes "sc_transport c = tr" and "ready va s" and "\<not> sm_locked s" and "distinct (map so_id objects)"
  shows "runs (sync c objects) s
           (\<lambda>_ s'. ready (three_way (sc_policy c) objects va) s' \<and> \<not> sm_locked s')"
proof -
  let ?s = "s\<lparr>sm_locked := True, sm_running := True\<rparr>"
  let ?R = "ready (three_way (sc_policy c) objects va)"
  have list: "runs (caught (tr_list (sc_transport c))) s1
      (\<lambda>x s2. runs (with_listing c objects x) s2 (\<lambda>_. ?R))" if r: "ready va s1" for s1
  proof (rule caught_runs, unfold on_remote_runs assms(1), rule runs_mono)
    have p: "up (sm_remote s1)" "good (sm_remote s1)" "view (sm_remote s1) = fst va"
      using r by (auto simp: at_view_def sync_abs_def)
    show "runs (tr_list tr) (sm_remote s1) (\<lambda>vs r'. up r' \<and> good r' \<and> view r' = fst va
       \<and> distinct (keys vs) \<and> (\<forall>oid. map_of vs oid = map_option index_of (fst va oid)))"
      using list_runs [OF p(1,2)] p(3) by simp
    fix vs r'
    assume "up r' \<and> good r' \<and> view r' = fst va \<and> distinct (keys vs)
       \<and> (\<forall>oid. map_of vs oid = map_option index_of (fst va oid))"
    then show "runs (with_listing c objects (Inr vs)) (s1\<lparr>sm_remote := r'\<rparr>) (\<lambda>_. ?R)"
      using r by (intro with_listing_runs assms(1,4)) (auto simp: at_view_def sync_abs_def)
  qed
  have "runs (sync_run c objects) ?s (\<lambda>_. ?R)"
    unfolding sync_run_def runs_simps
    by (rule runs_mono, rule emit_runs [of view "\<lambda>r. up r \<and> good r" va])
      (use assms(2) list in \<open>auto simp: at_view_def sync_abs_def\<close>)
  then show ?thesis
    using assms(3) by (auto simp: runs_iff sync_def eff_finally_def at_view_def sync_abs_def)
qed

lemma resolve_remote_runs:
  assumes "sc_transport c = tr" and "ready (V, A) s" and "find (\<lambda>x. so_id x = oid) objects = Some obj"
    and "V oid = Some r" and "can_download (sc_policy c) (sync_classify (sc_policy c) r)"
  shows "runs (resolve c oid ''remote'' objects) s
           (\<lambda>_ s'. ready (V, A(oid \<mapsto> so_version r)) s' \<and> sm_locked s' = sm_locked s)"
proof -
  have oid: "so_id obj = oid" using find_Some_in_set [OF assms(3)] by simp
  have p: "up (sm_remote s)" "good (sm_remote s)" "view (sm_remote s) = V" "map_of (sm_acks s) = A"
    using assms(2) by (auto simp: at_view_def sync_abs_def)
  have pull: "runs (tr_pull tr oid) r0 (\<lambda>x r'. up r' \<and> good r' \<and> view r' = V \<and> x = Some r)"
    if "up r0" "good r0" "view r0 = V" for r0
    using pull_runs [OF that(1,2), of oid] that(3) assms(4) by simp
  have rem: "runs (resolve_remote c obj) s1
      (\<lambda>_ s'. ready (V, A(oid \<mapsto> so_version r)) s' \<and> sm_locked s' = sm_locked s)"
    if "up (sm_remote s1)" "good (sm_remote s1)" "view (sm_remote s1) = V"
      "sm_acks s1 = sm_acks s" "sm_locked s1 = sm_locked s" for s1
    unfolding resolve_remote_def runs_bind on_remote_runs assms(1) oid
    by (rule runs_mono [OF pull [OF that(1-3)]])
      (use assms(5) that p in \<open>auto simp: runs_simps at_view_ack at_view_def sync_abs_def\<close>)
  have list: "runs (tr_list tr) (sm_remote s) (\<lambda>vs r'. up r' \<and> good r' \<and> view r' = V)"
    using list_runs [OF p(1,2)] p(3) by (auto elim: runs_mono)
  have "runs (caught (tr_list tr)) s (\<lambda>x s1. (\<exists>u. x = Inr u) \<and> up (sm_remote s1) \<and> good (sm_remote s1)
      \<and> view (sm_remote s1) = V \<and> sm_acks s1 = sm_acks s \<and> sm_locked s1 = sm_locked s)"
    by (rule caught_runs, unfold on_remote_runs, rule runs_mono [OF list]) auto
  then show ?thesis
    using assms(3) rem by (auto simp: resolve_def runs_simps assms(1) elim!: runs_mono)
qed

end

text \<open>
  C11: On a remote side that answers, a synchronisation of objects with distinct identifiers
  is the three-way rule: each identifier moves up, is agreed on or stays by itself, whatever
  the order of the objects and of the index.
\<close>

theorem sync_refines_three_way:
  assumes "sc_transport c = mock_transport" and "mock_up (sm_remote s)" and "mock_good (sm_remote s)"
    and "\<not> sm_locked s" and "distinct (map so_id objects)"
  shows "sync_abs mock_view (snd (sync c objects s))
         = three_way (sc_policy c) objects (sync_abs mock_view s)"
  using mock.sync_runs [OF assms(1) _ assms(4,5), of "sync_abs mock_view s"] assms(2,3)
  by (auto simp: at_view_def runs_iff)

text \<open>
  A second synchronisation of the same objects changes nothing: neither the remote side
  nor the agreed versions.
\<close>

theorem sync_is_idempotent:
  assumes "sc_transport c = mock_transport" and "mock_up (sm_remote s)" and "mock_good (sm_remote s)"
    and "\<not> sm_locked s" and "distinct (map so_id objects)"
  shows "sync_abs mock_view (snd (sync c objects (snd (sync c objects s))))
         = sync_abs mock_view (snd (sync c objects s))"
proof -
  let ?va = "three_way (sc_policy c) objects (sync_abs mock_view s)"
  have "runs (sync c objects) s (\<lambda>_ s'. mock.ready ?va s' \<and> \<not> sm_locked s')"
    using assms by (intro mock.sync_runs) (auto simp: at_view_def)
  then have 1: "mock.ready ?va (snd (sync c objects s))" "\<not> sm_locked (snd (sync c objects s))"
    by (auto simp: runs_iff)
  show ?thesis
    using mock.sync_runs [OF assms(1) 1 assms(5)] 1 by (auto simp: runs_iff at_view_def three_way_idem)
qed

text \<open>
  A conflict resolved in favour of the remote side is not: the local object stays as it
  was while the remote version becomes the agreed one, so that the next synchronisation takes
  the local object for the newer one and overwrites what was chosen.
\<close>

theorem kept_remote_is_overwritten:
  assumes "sc_transport c = mock_transport" and "mock_up (sm_remote s)" and "mock_good (sm_remote s)"
    and "\<not> sm_locked s" and "can_upload (sc_policy c) obj"
    and "mock_view (sm_remote s) (so_id obj) = Some r" and "index_of r \<noteq> index_of obj"
    and "can_download (sc_policy c) (sync_classify (sc_policy c) r)"
  shows "mock_view (sm_remote (snd (sync c [obj] (snd (resolve c (so_id obj) ''remote'' [obj] s)))))
           (so_id obj) = Some obj"
proof -
  let ?V = "mock_view (sm_remote s)" and ?A = "map_of (sm_acks s)"
  let ?va = "(?V, ?A(so_id obj \<mapsto> so_version r))" and ?s1 = "snd (resolve c (so_id obj) ''remote'' [obj] s)"
  have "runs (resolve c (so_id obj) ''remote'' [obj]) s (\<lambda>_ s'. mock.ready ?va s' \<and> sm_locked s' = sm_locked s)"
    using assms by (intro mock.resolve_remote_runs) (auto simp: at_view_def sync_abs_def)
  then have 1: "mock.ready ?va ?s1" "\<not> sm_locked ?s1" using assms(4) by (auto simp: runs_iff)
  have up: "goes_up (sc_policy c) obj ?va" using assms(5-7) by (simp add: goes_up_def)
  have "mock.ready (three_way (sc_policy c) [obj] ?va) (snd (sync c [obj] ?s1))"
    using mock.sync_runs [OF assms(1) 1, of "[obj]"] by (auto simp: runs_iff)
  then have "mock_view (sm_remote (snd (sync c [obj] ?s1))) = fst (three_way (sc_policy c) [obj] ?va)"
    by (simp add: at_view_def sync_abs_def prod_eq_iff)
  then show ?thesis using up by (simp add: three_way_def new_view_def)
qed

subsection \<open>Nothing is overwritten silently\<close>

text \<open>
  What one object does to the remote side when calls may fail: \<open>allowed\<close> says that the
  listing and the agreements let it go up.
\<close>

definition allowed ::
  "sync_policy \<Rightarrow> (string \<times> string \<times> string) list \<Rightarrow> (string \<times> string) list \<Rightarrow> sync_object \<Rightarrow> bool" where
  "allowed p vs acks obj \<longleftrightarrow> can_upload p obj
     \<and> (case map_of vs (so_id obj) of None \<Rightarrow> True
        | Some e \<Rightarrow> e \<noteq> index_of obj \<and> map_of acks (so_id obj) = Some (fst e))"

definition same_remote :: "('r \<Rightarrow> 'v) \<Rightarrow> 'v \<Rightarrow> 'r sync_mgr \<Rightarrow> bool" where
  "same_remote view V = remote_inv (\<lambda>r. view r = V)"

definition one_push ::
  "('r \<Rightarrow> string \<Rightarrow> sync_object option) \<Rightarrow> bool \<Rightarrow> sync_object \<Rightarrow> 'r sync_mgr \<Rightarrow> 'r sync_mgr \<Rightarrow> bool" where
  "one_push view may obj s s' \<longleftrightarrow>
     (view (sm_remote s') = view (sm_remote s)
       \<or> may \<and> view (sm_remote s') = (view (sm_remote s))(so_id obj \<mapsto> obj))
     \<and> (\<forall>oid. oid \<noteq> so_id obj \<longrightarrow> map_of (sm_acks s') oid = map_of (sm_acks s) oid)"

lemma emit_snd: "sm_remote (snd (sync_emit c ty pl s)) = sm_remote s" "sm_acks (snd (sync_emit c ty pl s)) = sm_acks s"
  by (simp_all add: sync_emit_def)

lemma record_eq:
  "\<exists>s'. sync_record c obj st d s = (Inr (mk_result obj st d), s') \<and> sm_remote s' = sm_remote s
        \<and> sm_acks s' = sm_acks s"
  by (simp add: sync_record_def emit_for_def sync_emit_def eff_then_def eff_bind_def)

lemma record_one_push [simp]: "one_push view may obj s (snd (sync_record c obj st d s))"
  using record_eq [of c obj st d s] by (auto simp: one_push_def)

lemma ack_record_one_push:
  "one_push view may obj s (snd (eff_then (acknowledge (so_id obj) v) (sync_record c obj st d) s))"
  using record_eq [of c obj st d "s\<lparr>sm_acks := dict_set (so_id obj) v (sm_acks s)\<rparr>"]
  by (auto simp: one_push_def eff_then_def eff_bind_def acknowledge_def)

context sync_transport begin

lemma push_one:
  assumes "sc_transport c = tr"
  shows "one_push view True obj s (snd (sync_push c obj d s))"
proof -
  obtain x r where p: "tr_push tr obj (sm_remote s) = (x, r)" by fastforce
  let ?s = "s\<lparr>sm_remote := r\<rparr>"
  show ?thesis
  proof (cases x)
    case (Inl e)
    then have v: "view r = view (sm_remote s)" using push_raises [of obj "sm_remote s" e] p by simp
    show ?thesis
    proof (cases "\<exists>t. e = ConnectionError t")
      case True
      then obtain t where t: "e = ConnectionError t" by blast
      show ?thesis
        using record_eq [of c obj S_FAILED "''upload failed: '' @ t" ?s] p Inl v
        by (auto simp: sync_push_def caught_def eff_bind_def eff_try_def on_remote_def assms
              on_network_def one_push_def t)
    next
      case False
      then have "on_network h e = None" for h :: "string \<Rightarrow> ('r sync_mgr, string + string) eff"
        by (auto simp: on_network_def split: exn.split)
      then show ?thesis
        using p Inl v
        by (simp add: sync_push_def caught_def eff_bind_def eff_try_def on_remote_def assms one_push_def)
    qed
  next
    case (Inr v)
    then have "view r = (view (sm_remote s))(so_id obj \<mapsto> obj)"
      using push_stores [of obj "sm_remote s" v] p by simp
    then show ?thesis
      using ack_record_one_push [of view False obj ?s v c S_UPLOADED d] p Inr
      by (auto simp: sync_push_def caught_def eff_bind_def eff_try_def on_remote_def assms one_push_def)
  qed
qed

lemma sync_one_push:
  assumes "sc_transport c = tr"
  shows "one_push view (allowed (sc_policy c) vs (sm_acks s) obj) obj s (snd (sync_one c vs obj s))"
proof (cases "allowed (sc_policy c) vs (sm_acks s) obj")
  case True
  have "sync_classify (sc_policy c) obj \<notin> {LOCAL_ONLY, SYNC_FORBIDDEN}"
    using True by (auto simp: allowed_def can_upload_def)
  then show ?thesis
    using True push_one [OF assms, of obj s]
    by (auto simp: sync_one_def allowed_def index_of_def eff_bind_def split: option.split)
next
  case False
  then show ?thesis
    using ack_record_one_push [of view False obj s "so_version obj" c]
    by (auto simp: sync_one_def allowed_def index_of_def eff_bind_def Let_def split: option.split)
qed

lemma each_one_push:
  assumes "sc_transport c = tr"
  shows "distinct (map so_id objects) \<Longrightarrow>
    (\<forall>x \<in> set objects. map_of (sm_acks s) (so_id x) = map_of A (so_id x)) \<Longrightarrow>
    eff_each (sync_one c vs) objects s = (res, s') \<Longrightarrow>
    view (sm_remote s') oid = view (sm_remote s) oid
    \<or> (\<exists>obj \<in> set objects. so_id obj = oid \<and> view (sm_remote s') oid = Some obj
         \<and> allowed (sc_policy c) vs A obj)"
proof (induction objects arbitrary: s res)
  case Nil
  then show ?case by simp
next
  case (Cons obj objects)
  obtain x s1 where one: "sync_one c vs obj s = (x, s1)" by fastforce
  have "allowed (sc_policy c) vs (sm_acks s) obj = allowed (sc_policy c) vs A obj"
    using Cons.prems(2) by (simp add: allowed_def split: option.split)
  then have step: "one_push view (allowed (sc_policy c) vs A obj) obj s s1"
    using sync_one_push [OF assms, of vs s obj] one by simp
  then have first: "view (sm_remote s1) oid = view (sm_remote s) oid
      \<or> oid = so_id obj \<and> view (sm_remote s1) oid = Some obj \<and> allowed (sc_policy c) vs A obj"
    by (auto simp: one_push_def split: if_splits)
  show ?case
  proof (cases x)
    case (Inl e)
    then have "s' = s1" using Cons.prems(3) one by (simp add: eff_bind_def)
    then show ?thesis using first by auto
  next
    case (Inr y)
    obtain res' where rest: "eff_each (sync_one c vs) objects s1 = (res', s')"
      using Cons.prems(3) one Inr by (auto simp: eff_bind_def split: prod.splits sum.splits)
    have fresh: "\<forall>z \<in> set objects. so_id z \<noteq> so_id obj"
      using distinct_map_Cons [OF Cons.prems(1)] by blast
    then have "\<forall>z \<in> set objects. map_of (sm_acks s1) (so_id z) = map_of A (so_id z)"
      using step Cons.prems(2) by (auto simp: one_push_def)
    then have "view (sm_remote s') oid = view (sm_remote s1) oid
        \<or> (\<exists>z \<in> set objects. so_id z = oid \<and> view (sm_remote s') oid = Some z
             \<and> allowed (sc_policy c) vs A z)"
      using Cons.IH [OF _ _ rest] Cons.prems(1) by simp
    then show ?thesis using first by auto
  qed
qed

lemma rest_keeps_view:
  assumes "sc_transport c = tr"
  shows "sm_remote s1 = r1 \<Longrightarrow>
    view (sm_remote (snd (eff_bind (pull_new c objects vs) (\<lambda>pulled. sync_finish c (rs @ pulled)) s1))) = view r1"
proof -
  assume r: "sm_remote s1 = r1"
  have pull: "keeps (remote_inv (\<lambda>r. view r = view r1)) (pull_one c ids e)" for ids e
    by (rule keeps_pull_one [of _ _ "[]"]) (simp add: remote_keeps_def keeps_def pull_reads assms)
  have "keeps (remote_inv (\<lambda>r. view r = view r1))
      (eff_bind (pull_new c objects vs) (\<lambda>pulled. sync_finish c (rs @ pulled)))"
    unfolding pull_new_def sync_finish_def Let_def
    by (intro keeps_intros keeps_each sync_keeps pull)
  then show ?thesis using keepsD r by (fastforce simp: remote_inv_def)
qed

lemma sync_changes:
  assumes "sc_transport c = tr" and "distinct (map so_id objects)" and "sync c objects s = (res, s')"
    and "view (sm_remote s') oid \<noteq> view (sm_remote s) oid"
  shows "\<exists>obj \<in> set objects. so_id obj = oid \<and> can_upload (sc_policy c) obj
           \<and> view (sm_remote s') oid = Some obj
           \<and> (case view (sm_remote s) oid of None \<Rightarrow> True
              | Some r \<Rightarrow> map_of (sm_acks s) oid = Some (so_version r))"
proof -
  let ?s0 = "s\<lparr>sm_locked := True, sm_running := True\<rparr>"
  let ?emit = "sync_emit c ''SyncStarted'' (JObj [(''objects'', JInt (int (length objects)))])"
  have free: "\<not> sm_locked s" using assms(3,4) by (auto simp: sync_def)
  obtain x s1 where run: "sync_run c objects ?s0 = (x, s1)" by fastforce
  then have s1: "sm_remote s' = sm_remote s1"
    using assms(3) free by (auto simp: sync_def eff_finally_def)
  obtain s2 where e: "?emit ?s0 = (Inr (), s2)" and s2: "sm_remote s2 = sm_remote s" "sm_acks s2 = sm_acks s"
    by (simp add: sync_emit_def)
  obtain l r where l: "tr_list tr (sm_remote s) = (l, r)" by fastforce
  have v: "view r = view (sm_remote s)" using list_reads [of "sm_remote s"] l by simp
  have caught: "caught (tr_list (sc_transport c)) s2 =
      (case l of Inr vs \<Rightarrow> (Inr (Inr vs), s2\<lparr>sm_remote := r\<rparr>)
       | Inl (ConnectionError t) \<Rightarrow> (Inr (Inl t), s2\<lparr>sm_remote := r\<rparr>)
       | Inl ex \<Rightarrow> (Inl ex, s2\<lparr>sm_remote := r\<rparr>))"
    using l s2 by (simp add: caught_def eff_try_def eff_bind_def on_remote_def assms(1) on_network_def
        split: sum.split exn.split)
  have failed: "view (sm_remote (snd (sync_failed c objects t (s2\<lparr>sm_remote := r\<rparr>)))) = view r" for t
    using keepsD [OF keeps_failed [of "\<lambda>r'. view r' = view r" c objects t], of "s2\<lparr>sm_remote := r\<rparr>"]
    by (simp add: remote_inv_def)
  have changed: "view (sm_remote s1) oid \<noteq> view r oid" using assms(4) s1 v by simp
  have "\<exists>vs. l = Inr vs"
  proof (rule ccontr)
    assume "\<nexists>vs. l = Inr vs"
    then obtain ex where "l = Inl ex" by (cases l) auto
    then have "s1 = s2\<lparr>sm_remote := r\<rparr> \<or> (\<exists>t. s1 = snd (sync_failed c objects t (s2\<lparr>sm_remote := r\<rparr>)))"
      using run e caught
      by (auto simp: sync_run_def eff_then_def eff_bind_def with_listing_def split: exn.splits)
        (metis snd_conv)
    then show False using changed failed by auto
  qed
  then obtain vs where vs: "l = Inr vs" by blast
  obtain y s4 where each: "eff_each (sync_one c vs) objects (s2\<lparr>sm_remote := r\<rparr>) = (y, s4)" by fastforce
  have "view (sm_remote s1) = view (sm_remote s4)"
    using run e caught vs each rest_keeps_view [OF assms(1), of s4 "sm_remote s4" objects vs]
    by (cases y; auto simp: sync_run_def eff_then_def eff_bind_def with_listing_def split: prod.splits sum.splits)
      (metis snd_conv)
  then obtain obj where obj: "obj \<in> set objects" "so_id obj = oid" "view (sm_remote s1) oid = Some obj"
      "allowed (sc_policy c) vs (sm_acks s) obj"
    using each_one_push [OF assms(1,2) _ each, of "sm_acks s" oid] changed s2 by auto
  have "map_of vs oid = map_option index_of (view (sm_remote s) oid)"
    using list_index [of "sm_remote s" vs oid] l vs by simp
  then show ?thesis
    using obj s1 by (auto simp: allowed_def index_of_def split: option.splits)
qed

end

text \<open>
  C10: However a synchronisation ends, also when the connection fails in between, an entry of
  the remote side that changed is now one of the objects given, of a class that may go up,
  and what it replaced was nothing or the version both sides had agreed on.
\<close>

theorem no_silent_overwrite:
  assumes "sc_transport c = mock_transport" and "distinct (map so_id objects)"
    and "mock_view (sm_remote (snd (sync c objects s))) oid \<noteq> mock_view (sm_remote s) oid"
  shows "\<exists>obj \<in> set objects. so_id obj = oid \<and> can_upload (sc_policy c) obj
           \<and> mock_view (sm_remote (snd (sync c objects s))) oid = Some obj
           \<and> (case mock_view (sm_remote s) oid of None \<Rightarrow> True
              | Some r \<Rightarrow> map_of (sm_acks s) oid = Some (so_version r))"
  using mock.sync_changes [OF assms(1,2) _ assms(3)] by (metis prod.collapse)

subsection \<open>A concrete manager\<close>

definition example_object :: "string \<Rightarrow> sync_object" where
  "example_object v = \<lparr>so_id = ''t1'', so_type = ''task'', so_version = v, so_hash = v, so_scope = [],
     so_payload = [(''title'', JStr ''plan'')], so_updated = 0\<rparr>"

definition example_remote :: "int \<Rightarrow> mock_remote" where
  "example_remote n = \<lparr>mr_down = False, mr_fail_after = n, mr_remote = [(''t1'', example_object ''v1'')],
     mr_pushes = 0, mr_pulls = 0\<rparr>"

definition example_cfg :: "mock_remote sync_cfg" where
  "example_cfg = new_cfg (mk_policy [] [] False) mock_transport True 3"

lemmas example_defs = example_object_def example_remote_def example_cfg_def new_cfg_def new_mgr_def

lemma example_facts [simp]:
  "sc_transport example_cfg = mock_transport" "mock_up (sm_remote (new_mgr (example_remote (- 1))))"
  "mock_good (sm_remote (new_mgr (example_remote n)))" "\<not> sm_locked (new_mgr r)"
  "mock_view (sm_remote (new_mgr (example_remote n))) ''t1'' = Some (example_object ''v1'')"
  "so_id (example_object v) = ''t1''"
  by (simp_all add: example_defs mock_up_def mock_good_def mock_view_def)

lemma example_class: "sync_classify (sc_policy example_cfg) (example_object v) = SYNC_ALLOWED"
proof -
  have "\<not> contains_secrets (JObj [(''title'', JStr ''plan'')])" by code_simp
  then show ?thesis by (simp add: sync_classify_def example_defs mk_policy_def default_classes_def)
qed

theorem sync_refines_three_way_witness:
  "sync_abs mock_view (snd (sync example_cfg [example_object ''v2''] (new_mgr (example_remote (- 1)))))
   = three_way (sc_policy example_cfg) [example_object ''v2'']
       (sync_abs mock_view (new_mgr (example_remote (- 1))))"
  by (rule sync_refines_three_way) simp_all

theorem sync_is_idempotent_witness:
  "sync_abs mock_view (snd (sync example_cfg [example_object ''v2'']
      (snd (sync example_cfg [example_object ''v2''] (new_mgr (example_remote (- 1)))))))
   = sync_abs mock_view (snd (sync example_cfg [example_object ''v2''] (new_mgr (example_remote (- 1)))))"
  by (rule sync_is_idempotent) simp_all

theorem kept_remote_is_overwritten_witness:
  "mock_view (sm_remote (snd (sync example_cfg [example_object ''v2'']
     (snd (resolve example_cfg ''t1'' ''remote'' [example_object ''v2''] (new_mgr (example_remote (- 1))))))))
     ''t1'' = Some (example_object ''v2'')"
  using kept_remote_is_overwritten [of example_cfg "new_mgr (example_remote (- 1))" "example_object ''v2''"
      "example_object ''v1''"]
  by (simp add: example_class can_upload_def can_download_def) (simp add: index_of_def example_object_def)

text \<open>An agreed version is replaced, and then the connection dies before the next push.\<close>

definition example_agreed :: "mock_remote sync_mgr" where
  "example_agreed = (new_mgr (example_remote 1))\<lparr>sm_acks := [(''t1'', ''v1'')]\<rparr>"

definition example_two :: "sync_object list" where
  "example_two = [example_object ''v2'', (example_object ''v1'')\<lparr>so_id := ''t2''\<rparr>]"

theorem no_silent_overwrite_witness:
  "\<exists>obj \<in> set example_two. so_id obj = ''t1'' \<and> can_upload (sc_policy example_cfg) obj
     \<and> mock_view (sm_remote (snd (sync example_cfg example_two example_agreed))) ''t1'' = Some obj
     \<and> (case mock_view (sm_remote example_agreed) ''t1'' of None \<Rightarrow> True
        | Some r \<Rightarrow> map_of (sm_acks example_agreed) ''t1'' = Some (so_version r))"
proof (rule no_silent_overwrite)
  have "map_option so_version (mock_view (sm_remote (snd (sync example_cfg example_two example_agreed))) ''t1'')
        = Some ''v2''"
    by code_simp
  moreover have "map_option so_version (mock_view (sm_remote example_agreed) ''t1'') = Some ''v1''"
    by code_simp
  ultimately show "mock_view (sm_remote (snd (sync example_cfg example_two example_agreed))) ''t1''
      \<noteq> mock_view (sm_remote example_agreed) ''t1''"
    by auto
qed (simp_all add: example_two_def)

theorem retry_is_bounded_witness:
  "\<exists>rp s'. retry_sync (spied_cfg example_cfg) [example_object ''v2'']
       (new_mgr (example_remote 0, [])) = (Inr rp, s')
     \<and> rp_attempts rp = listings (snd (sm_remote s')) \<and> rp_attempts rp \<le> Suc (sc_retries example_cfg)"
proof -
  let ?m = "retry_sync (spied_cfg example_cfg) [example_object ''v2'']
       (new_mgr (example_remote 0, []))"
  have "is_inr (fst ?m)" by code_simp
  then obtain rp where "?m = (Inr rp, snd ?m)" by (auto simp: is_inr_iff prod_eq_iff)
  then show ?thesis
    using retry_is_bounded [of "new_mgr (example_remote 0, [])" "example_remote 0" example_cfg
        "[example_object ''v2'']" rp "snd ?m"]
    by (auto simp: new_mgr_def)
qed

end
