(* ===== verification/Cloud_Providers.thy ===== *)
theory Cloud_Providers
  imports Cloud_Jobs Int_Text Sync Verifier
begin

text \<open>
  Notebook providers (\<^verbatim>\<open>cloud/external.py\<close>, with the statuses and errors of \<^verbatim>\<open>cloud/providers.py\<close>): the
  upload policy, the provider over a transport, and the mock transport of the source. A transport is
  a record of its methods over a state of its own. A job belongs to the caller and is changed in
  place, so the operations return it with whatever was written before an exception. The text and
  the truncation of floats, what the credential store answers and the elapsed time are parameters.
\<close>

subsection \<open>Errors\<close>

text \<open>The classes the handlers tell apart; \<open>Foreign\<close> is any other exception, with its text.\<close>

datatype cloud_exn =
    Unavailable string
  | Auth_Failed string
  | Cloud_Failure string
  | Dataset_Refused string
  | Credential_Missing string
  | Refused string
  | Foreign string

fun cloud_text :: "cloud_exn \<Rightarrow> string" where
  "cloud_text (Unavailable t) = t"
| "cloud_text (Auth_Failed t) = t"
| "cloud_text (Cloud_Failure t) = t"
| "cloud_text (Dataset_Refused t) = t"
| "cloud_text (Credential_Missing t) = t"
| "cloud_text (Refused t) = t"
| "cloud_text (Foreign t) = t"

text \<open>\<open>isinstance(exc, CloudError)\<close>.\<close>

fun is_cloud_error :: "cloud_exn \<Rightarrow> bool" where
  "is_cloud_error (Unavailable _) = True"
| "is_cloud_error (Auth_Failed _) = True"
| "is_cloud_error (Cloud_Failure _) = True"
| "is_cloud_error (Dataset_Refused _) = True"
| "is_cloud_error _ = False"

type_synonym ('s, 'a) cloud = "'s \<Rightarrow> (cloud_exn + 'a) \<times> 's"

subsection \<open>DatasetPolicy\<close>

record dataset_policy =
  dq_kinds :: "string list"
  dq_max_bytes :: int

definition new_dataset_policy :: "string list \<Rightarrow> int \<Rightarrow> dataset_policy" where
  "new_dataset_policy kinds max_bytes =
     \<lparr>dq_kinds = (if kinds = [] then [''dataset'', ''notebook'', ''model''] else kinds), dq_max_bytes = max_bytes\<rparr>"

text \<open>\<open>int(v)\<close>.\<close>

definition int_of_json :: "(string \<Rightarrow> int option) \<Rightarrow> json \<Rightarrow> int option" where
  "int_of_json trunc v =
     (case v of
        JInt n \<Rightarrow> Some n
      | JBool b \<Rightarrow> Some (if b then 1 else 0)
      | JFloat t \<Rightarrow> trunc t
      | JStr s \<Rightarrow> int_of_text s
      | _ \<Rightarrow> None)"

definition check_dataset ::
  "(string \<Rightarrow> int option) \<Rightarrow> dataset_policy \<Rightarrow> string \<Rightarrow> string \<Rightarrow> json \<Rightarrow> json \<Rightarrow> cloud_exn + unit" where
  "check_dataset trunc dq name kind sz payload =
     (if kind \<notin> set (dq_kinds dq) then Inl (Dataset_Refused (''dataset kind '' @ repr_str kind @ '' is not uploadable''))
      else case int_of_json trunc sz of
        None \<Rightarrow> Inl (Dataset_Refused (''dataset '' @ repr_str name @ '' has an invalid size''))
      | Some n \<Rightarrow>
          if n < 0 then Inl (Dataset_Refused (''dataset '' @ repr_str name @ '' has a negative size''))
          else if n > dq_max_bytes dq
          then Inl (Dataset_Refused (''dataset '' @ repr_str name @ '' ('' @ int_text n @ '' bytes) exceeds ''
                 @ int_text (dq_max_bytes dq) @ '' limit''))
          else if payload \<noteq> JNull \<and> contains_secrets payload
          then Inl (Dataset_Refused (''dataset '' @ repr_str name @ '' appears to contain credentials''))
          else Inr ())"

subsection \<open>Providers\<close>

datatype cloud_status = C_DISCONNECTED | C_CONNECTING | C_CONNECTED | C_DEGRADED | C_ERROR

fun cloud_status_value :: "cloud_status \<Rightarrow> string" where
  "cloud_status_value C_DISCONNECTED = ''DISCONNECTED''"
| "cloud_status_value C_CONNECTING = ''CONNECTING''"
| "cloud_status_value C_CONNECTED = ''CONNECTED''"
| "cloud_status_value C_DEGRADED = ''DEGRADED''"
| "cloud_status_value C_ERROR = ''ERROR''"

record 'r notebook =
  nt_handshake :: "string \<Rightarrow> ('r, unit) cloud"
  nt_submit :: "string \<Rightarrow> string \<Rightarrow> ('r, unit) cloud"
  nt_status :: "string \<Rightarrow> ('r, string) cloud"
  nt_cancel :: "string \<Rightarrow> ('r, unit) cloud"
  nt_logs :: "string \<Rightarrow> ('r, string) cloud"
  nt_result :: "string \<Rightarrow> ('r, string) cloud"
  nt_close :: "('r, unit) cloud"

record 'r provider_cfg =
  xp_name :: string
  xp_credential :: "cloud_exn + string"
  xp_transport :: "'r notebook"
  xp_datasets :: dataset_policy
  xp_trunc :: "string \<Rightarrow> int option"

record 'r provider =
  xp_status :: cloud_status
  xp_latency :: "real option"
  xp_remote :: 'r

text \<open>A call of the transport runs on its part of the state.\<close>

definition on_transport :: "('r, 'a) cloud \<Rightarrow> ('r provider, 'a) cloud" where
  "on_transport m s = (case m (xp_remote s) of (x, r) \<Rightarrow> (x, s\<lparr>xp_remote := r\<rparr>))"

definition connect_failed :: "'r provider_cfg \<Rightarrow> cloud_exn \<Rightarrow> cloud_exn" where
  "connect_failed c e =
     (case e of
        Unavailable t \<Rightarrow> Unavailable t
      | Credential_Missing t \<Rightarrow> Auth_Failed t
      | _ \<Rightarrow> Auth_Failed (xp_name c @ '' authentication failed''))"

definition provider_connect :: "'r provider_cfg \<Rightarrow> real \<Rightarrow> ('r provider, unit) cloud" where
  "provider_connect c elapsed s0 =
     (let s = s0\<lparr>xp_status := C_CONNECTING\<rparr> in
      case xp_credential c of
        Inl e \<Rightarrow> (Inl (connect_failed c e), s\<lparr>xp_status := C_ERROR\<rparr>)
      | Inr credential \<Rightarrow>
          (case on_transport (nt_handshake (xp_transport c) credential) s of
             (Inl e, s') \<Rightarrow> (Inl (connect_failed c e), s'\<lparr>xp_status := C_ERROR\<rparr>)
           | (Inr _, s') \<Rightarrow> (Inr (), s'\<lparr>xp_latency := Some elapsed, xp_status := C_CONNECTED\<rparr>)))"

definition provider_disconnect :: "'r provider_cfg \<Rightarrow> ('r provider, unit) cloud" where
  "provider_disconnect c s =
     (case on_transport (nt_close (xp_transport c)) s of (x, s') \<Rightarrow> (x, s'\<lparr>xp_status := C_DISCONNECTED\<rparr>))"

record health_report =
  hr_reachable :: bool
  hr_available :: bool
  hr_status :: string

definition provider_health :: "'r provider_cfg \<Rightarrow> ('r provider, health_report) cloud" where
  "provider_health c s =
     (case on_transport (nt_handshake (xp_transport c) ''health-check'') s of
        (x, s') \<Rightarrow>
          let reachable = (case x of Inl _ \<Rightarrow> False | Inr _ \<Rightarrow> True);
              available = (reachable \<and> xp_status s' = C_CONNECTED)
          in (Inr \<lparr>hr_reachable = reachable, hr_available = available,
                   hr_status = (if available then cloud_status_value (xp_status s')
                     else if reachable then cloud_status_value C_DEGRADED else cloud_status_value C_ERROR)\<rparr>, s'))"

definition member :: "string \<Rightarrow> json \<Rightarrow> arguments \<Rightarrow> json" where
  "member k other ms = (case map_of ms k of None \<Rightarrow> other | Some v \<Rightarrow> v)"

fun check_datasets :: "'r provider_cfg \<Rightarrow> arguments list \<Rightarrow> cloud_exn + unit" where
  "check_datasets c [] = Inr ()"
| "check_datasets c (d # ds) =
     (case int_of_json (xp_trunc c) (member ''size_bytes'' (JInt 0) d) of
        None \<Rightarrow> Inl (Foreign ''invalid size'')
      | Some n \<Rightarrow>
          (case check_dataset (xp_trunc c) (xp_datasets c) (str_json (member ''name'' (JStr []) d))
               (str_json (member ''kind'' (JStr []) d)) (JInt n) (member ''payload'' JNull d) of
             Inl e \<Rightarrow> Inl e | Inr _ \<Rightarrow> check_datasets c ds))"

definition provider_submit ::
  "'r provider_cfg \<Rightarrow> arguments list \<Rightarrow> compute_job \<Rightarrow> 'r provider \<Rightarrow> (cloud_exn + unit) \<times> compute_job \<times> 'r provider" where
  "provider_submit c datasets j s =
     (if xp_status s \<noteq> C_CONNECTED then (Inl (Unavailable (xp_name c @ '' is not connected'')), j, s)
      else case check_datasets c datasets of
        Inl e \<Rightarrow> (Inl e, j, s)
      | Inr _ \<Rightarrow>
          let j1 = j\<lparr>cj_provider := xp_name c\<rparr> in
          (case on_transport (nt_submit (xp_transport c) (ent_id j) (cj_task j)) s of
             (Inl e, s') \<Rightarrow> (Inl e, j1, s') | (Inr _, s') \<Rightarrow> (Inr (), j1\<lparr>cj_status := J_QUEUED\<rparr>, s')))"

definition remote_states :: "(string \<times> job_status) list" where
  "remote_states = [(''CREATED'', J_QUEUED), (''QUEUED'', J_QUEUED), (''RUNNING'', J_RUNNING), (''COMPLETED'', J_SUCCEEDED),
     (''FAILED'', J_FAILED), (''CANCELLED'', J_CANCELLED), (''TIMED_OUT'', J_TIMED_OUT)]"

definition seen_status :: "real \<Rightarrow> string \<Rightarrow> compute_job \<Rightarrow> compute_job" where
  "seen_status now state j =
     (let st = (case map_of remote_states state of None \<Rightarrow> J_FAILED | Some st \<Rightarrow> st);
          j1 = j\<lparr>cj_status := st\<rparr>;
          j2 = (if st = J_RUNNING \<and> cj_started j1 = None then j1\<lparr>cj_started := Some now\<rparr> else j1)
      in if st \<in> terminal_jobs then j2\<lparr>cj_completed := Some now\<rparr> else j2)"

definition provider_poll ::
  "'r provider_cfg \<Rightarrow> real \<Rightarrow> compute_job \<Rightarrow> 'r provider \<Rightarrow> (cloud_exn + unit) \<times> compute_job \<times> 'r provider" where
  "provider_poll c now j s =
     (case on_transport (nt_status (xp_transport c) (ent_id j)) s of
        (Inl e, s') \<Rightarrow> (Inl (if is_cloud_error e then e else Unavailable (xp_name c @ '' poll failed'')), j, s')
      | (Inr state, s') \<Rightarrow>
          let j' = seen_status now state j in
          if cj_status j' = J_SUCCEEDED
          then (case on_transport (nt_result (xp_transport c) (ent_id j)) s' of
                  (Inl e, s2) \<Rightarrow> (Inl e, j', s2)
                | (Inr ref, s2) \<Rightarrow> (Inr (), touch now (j'\<lparr>cj_result := ref\<rparr>), s2))
          else if cj_status j' \<in> terminal_jobs
          then (Inr (), touch now (j'\<lparr>cj_error := ''remote state '' @ state\<rparr>), s')
          else (Inr (), touch now j', s'))"

definition provider_cancel ::
  "'r provider_cfg \<Rightarrow> real \<Rightarrow> compute_job \<Rightarrow> 'r provider \<Rightarrow> (cloud_exn + unit) \<times> compute_job \<times> 'r provider" where
  "provider_cancel c now j s =
     (if cj_status j \<in> terminal_jobs then (Inl (Refused (''job '' @ repr_str (ent_id j) @ '' already terminal'')), j, s)
      else case on_transport (nt_cancel (xp_transport c) (ent_id j)) s of
        (Inl e, s') \<Rightarrow>
          (Inl (if is_cloud_error e then e else Unavailable (xp_name c @ '' cancel failed: '' @ cloud_text e)), j, s')
      | (Inr _, s') \<Rightarrow> (Inr (), touch now (j\<lparr>cj_status := J_CANCELLED, cj_completed := Some now\<rparr>), s'))"

definition provider_logs :: "'r provider_cfg \<Rightarrow> compute_job \<Rightarrow> ('r provider, string) cloud" where
  "provider_logs c j = on_transport (nt_logs (xp_transport c) (ent_id j))"

definition provider_result :: "'r provider_cfg \<Rightarrow> compute_job \<Rightarrow> ('r provider, string) cloud" where
  "provider_result c j = on_transport (nt_result (xp_transport c) (ent_id j))"

subsection \<open>MockNotebookTransport\<close>

record mock_job =
  mj_state :: string
  mj_ticks :: nat
  mj_task :: string

record mock_script =
  mk_fail_handshake :: bool
  mk_fail_submit :: bool
  mk_outcome :: string
  mk_finish :: nat
  mk_timeout :: nat
  mk_logs :: string
  mk_ref :: string

type_synonym mock_backend = "(string \<times> mock_job) list"

definition unknown_job :: "string \<Rightarrow> cloud_exn" where
  "unknown_job i = Cloud_Failure (''unknown job '' @ repr_str i)"

definition mock_handshake :: "mock_script \<Rightarrow> string \<Rightarrow> (mock_backend, unit) cloud" where
  "mock_handshake k credential m =
     (if mk_fail_handshake k then (Inl (Unavailable ''mock backend unavailable''), m) else (Inr (), m))"

definition mock_submit :: "mock_script \<Rightarrow> string \<Rightarrow> string \<Rightarrow> (mock_backend, unit) cloud" where
  "mock_submit k i task m =
     (if mk_fail_submit k then (Inl (Unavailable ''mock backend cannot accept jobs''), m)
      else (Inr (), dict_set i \<lparr>mj_state = ''CREATED'', mj_ticks = 0, mj_task = task\<rparr> m))"

fun next_state :: "string \<Rightarrow> string option" where
  "next_state st = (if st = ''CREATED'' then Some ''QUEUED''
     else if st \<in> {''QUEUED'', ''RUNNING''} then Some ''RUNNING'' else None)"

definition tick :: "mock_script \<Rightarrow> mock_job \<Rightarrow> mock_job" where
  "tick k j =
     (let n = mj_ticks j + 1; j1 = j\<lparr>mj_ticks := n\<rparr> in
      if n > mk_timeout k then j1\<lparr>mj_state := ''TIMED_OUT''\<rparr>
      else case next_state (mj_state j) of
        None \<Rightarrow> j1
      | Some st \<Rightarrow> j1\<lparr>mj_state := (if st = ''RUNNING'' \<and> n > mk_finish k then mk_outcome k else st)\<rparr>)"

definition mock_status :: "mock_script \<Rightarrow> string \<Rightarrow> (mock_backend, string) cloud" where
  "mock_status k i m =
     (case map_of m i of
        None \<Rightarrow> (Inl (unknown_job i), m) | Some j \<Rightarrow> (Inr (mj_state (tick k j)), dict_set i (tick k j) m))"

definition mock_cancel :: "string \<Rightarrow> (mock_backend, unit) cloud" where
  "mock_cancel i m =
     (case map_of m i of
        None \<Rightarrow> (Inl (unknown_job i), m)
      | Some j \<Rightarrow> (Inr (), if mj_state j \<in> {''COMPLETED'', ''FAILED'', ''CANCELLED'', ''TIMED_OUT''} then m
                         else dict_set i (j\<lparr>mj_state := ''CANCELLED''\<rparr>) m))"

definition mock_logs :: "mock_script \<Rightarrow> string \<Rightarrow> (mock_backend, string) cloud" where
  "mock_logs k i m = (if i \<notin> set (keys m) then Inl (unknown_job i) else Inr (mk_logs k), m)"

definition mock_result :: "mock_script \<Rightarrow> string \<Rightarrow> (mock_backend, string) cloud" where
  "mock_result k i m =
     (case map_of m i of
        None \<Rightarrow> (Inl (unknown_job i), m)
      | Some j \<Rightarrow>
          if mj_state j \<noteq> ''COMPLETED''
          then (Inl (Cloud_Failure (''job '' @ repr_str i @ '' has no result ('' @ mj_state j @ '')'')), m)
          else (Inr (mk_ref k), m))"

definition mock_notebook :: "mock_script \<Rightarrow> mock_backend notebook" where
  "mock_notebook k = \<lparr>nt_handshake = mock_handshake k, nt_submit = mock_submit k, nt_status = mock_status k,
     nt_cancel = mock_cancel, nt_logs = mock_logs k, nt_result = mock_result k, nt_close = (\<lambda>m. (Inr (), m))\<rparr>"

subsection \<open>What is uploaded\<close>

definition uploadable :: "'r provider_cfg \<Rightarrow> arguments \<Rightarrow> bool" where
  "uploadable c d \<longleftrightarrow> str_json (member ''kind'' (JStr []) d) \<in> set (dq_kinds (xp_datasets c))
     \<and> (\<exists>n. int_of_json (xp_trunc c) (member ''size_bytes'' (JInt 0) d) = Some n \<and> 0 \<le> n \<and> n \<le> dq_max_bytes (xp_datasets c))
     \<and> (member ''payload'' JNull d = JNull \<or> \<not> contains_secrets (member ''payload'' JNull d))"

lemma check_datasets_iff: "check_datasets c ds = Inr () \<longleftrightarrow> (\<forall>d \<in> set ds. uploadable c d)"
proof (induction ds)
  case (Cons d ds)
  have "check_datasets c (d # ds) = Inr () \<longleftrightarrow> uploadable c d \<and> check_datasets c ds = Inr ()"
  proof (cases "int_of_json (xp_trunc c) (member ''size_bytes'' (JInt 0) d)")
    case None
    then show ?thesis by (simp add: uploadable_def)
  next
    case (Some n)
    moreover have "int_of_json (xp_trunc c) (JInt n) = Some n" by (simp add: int_of_json_def)
    ultimately show ?thesis by (simp add: uploadable_def check_dataset_def)
  qed
  with Cons.IH show ?case by simp
qed simp

text \<open>
  C25: Only checked data leaves for a provider. A submission reaches the transport only when the
  provider is connected and every data set is of an allowed kind, of a size between zero and the
  limit, and shows no secret; otherwise it raises, and neither the job nor the remote side nor the
  provider has changed.
\<close>

theorem uploads_pass_policy:
  assumes "provider_submit c datasets j s = (r, j', s')"
  shows "(xp_status s = C_CONNECTED \<and> (\<forall>d \<in> set datasets. uploadable c d)
        \<and> xp_remote s' = snd (nt_submit (xp_transport c) (ent_id j) (cj_task j) (xp_remote s)))
    \<or> (isl r \<and> j' = j \<and> s' = s)"
proof (cases "xp_status s = C_CONNECTED \<and> check_datasets c datasets = Inr ()")
  case True
  obtain x q where q: "nt_submit (xp_transport c) (ent_id j) (cj_task j) (xp_remote s) = (x, q)" by fastforce
  then have "on_transport (nt_submit (xp_transport c) (ent_id j) (cj_task j)) s = (x, s\<lparr>xp_remote := q\<rparr>)"
    by (simp add: on_transport_def)
  with True assms have "s' = s\<lparr>xp_remote := q\<rparr>" by (cases x) (auto simp: provider_submit_def Let_def)
  with True q show ?thesis by (simp add: check_datasets_iff)
next
  case False
  show ?thesis
  proof (cases "check_datasets c datasets")
    case (Inl e)
    then have "isl r \<and> j' = j \<and> s' = s"
      using assms unfolding provider_submit_def Inl by (cases "xp_status s = C_CONNECTED") auto
    then show ?thesis by blast
  next
    case (Inr u)
    with False assms show ?thesis by (auto simp: provider_submit_def)
  qed
qed

subsection \<open>Examples\<close>

definition quick_script :: mock_script where
  "quick_script = \<lparr>mk_fail_handshake = False, mk_fail_submit = False, mk_outcome = ''COMPLETED'', mk_finish = 1, mk_timeout = 3,
     mk_logs = ''logs'', mk_ref = ''ref''\<rparr>"

definition kaggle :: "mock_backend provider_cfg" where
  "kaggle = \<lparr>xp_name = ''kaggle'', xp_credential = Inr ''key'', xp_transport = mock_notebook quick_script,
     xp_datasets = new_dataset_policy [] 1000, xp_trunc = (\<lambda>_. None)\<rparr>"

definition connected :: "mock_backend provider" where
  "connected = snd (provider_connect kaggle 1 \<lparr>xp_status = C_DISCONNECTED, xp_latency = None, xp_remote = []\<rparr>)"

definition small_dataset :: "json \<Rightarrow> arguments" where
  "small_dataset sz = [(''name'', JStr ''d''), (''kind'', JStr ''dataset''), (''size_bytes'', sz)]"

lemma uploads_pass_policy_witness:
  "fst (provider_submit kaggle [small_dataset (JInt 10)] queued_job connected) = Inr ()
   \<and> uploadable kaggle (small_dataset (JInt 10))"
proof -
  let ?r = "provider_submit kaggle [small_dataset (JInt 10)] queued_job connected"
  have f: "fst ?r = Inr ()" by code_simp
  moreover obtain r j' s' where r: "?r = (r, j', s')" by (rule prod_cases3)
  ultimately have "\<not> isl r" by simp
  with uploads_pass_policy [OF r] f show ?thesis by auto
qed

text \<open>
  A job that has succeeded is moved on by further polls: nothing in \<open>poll_job\<close> stops at a terminal
  status. And a size that is no number leaves \<open>submit_job\<close> as a foreign exception, not as the
  policy's own.
\<close>

fun polls :: "nat \<Rightarrow> compute_job \<times> mock_backend provider \<Rightarrow> compute_job \<times> mock_backend provider" where
  "polls 0 x = x"
| "polls (Suc n) (j, s) = polls n (snd (provider_poll kaggle 5 j s))"

lemma succeeded_job_times_out:
  "cj_status (fst (polls 2 (snd (provider_submit kaggle [] queued_job connected)))) = J_SUCCEEDED
   \<and> cj_status (fst (polls 4 (snd (provider_submit kaggle [] queued_job connected)))) = J_TIMED_OUT"
  by code_simp

lemma invalid_size_escapes_policy:
  "fst (provider_submit kaggle [small_dataset (JStr ''ten'')] queued_job connected) = Inl (Foreign ''invalid size'')
   \<and> check_dataset (\<lambda>_. None) (xp_datasets kaggle) ''d'' ''dataset'' (JStr ''ten'') JNull
       = Inl (Dataset_Refused (''dataset '' @ repr_str ''d'' @ '' has an invalid size''))"
  by code_simp

end
