(* ===== verification/Cloud_Agent.thy ===== *)
theory Cloud_Agent
  imports Sync Executor
begin

text \<open>
  The cloud agent (\<^verbatim>\<open>cloud/offline.py\<close>): what it admits, runs and publishes, over the synchronisation
  manager. The executor that the factory builds is a parameter; \<open>CloudUnsafeError\<close> is a
  \<open>DomainValidationError\<close>.
\<close>

record 'r cloud_cfg =
  cl_sync :: "'r sync_cfg option"
  cl_allowed :: "string list"
  cl_bus :: bool

record 'r cloud_state =
  cl_mgr :: "'r sync_mgr"
  cl_events :: "event list"

definition cloud_emit :: "'r cloud_cfg \<Rightarrow> string \<Rightarrow> string \<Rightarrow> arguments \<Rightarrow> ('r cloud_state, unit) eff" where
  "cloud_emit c ty tid pl = eff_modify (\<lambda>s.
     if cl_bus c then s\<lparr>cl_events := cl_events s @ [mk_event ty tid (JObj pl)]\<rparr> else s)"

definition plan_tools :: "plan \<Rightarrow> string list" where
  "plan_tools p = concat (map ps_tools (plan_steps p))"

definition cloud_safe_plan :: "plan \<Rightarrow> string list \<Rightarrow> bool \<times> string" where
  "cloud_safe_plan p tools =
     (case find (\<lambda>name. name \<notin> set tools) (plan_tools p) of
        Some name \<Rightarrow> (False, ''tool '' @ repr_str name @ '' is not cloud-runnable'')
      | None \<Rightarrow> (True, ''cloud-safe''))"

definition input_class :: "'r cloud_cfg \<Rightarrow> sync_object \<Rightarrow> sync_class" where
  "input_class c obj = (case cl_sync c of None \<Rightarrow> LOCAL_ONLY | Some sc \<Rightarrow> sync_classify (sc_policy sc) obj)"

definition is_cloud_safe :: "'r cloud_cfg \<Rightarrow> plan \<Rightarrow> sync_object list \<Rightarrow> bool \<times> string" where
  "is_cloud_safe c p inputs =
     (case cloud_safe_plan p (cl_allowed c) of
        (False, reason) \<Rightarrow> (False, reason)
      | (True, _) \<Rightarrow>
          (case find (\<lambda>obj. input_class c obj \<noteq> SYNC_ALLOWED) inputs of
             Some obj \<Rightarrow> (False, ''object '' @ repr_str (so_id obj) @ '' is '' @ sync_class_text (input_class c obj))
           | None \<Rightarrow> (True, ''cloud-safe'')))"

definition cloud_accept :: "'r cloud_cfg \<Rightarrow> string \<Rightarrow> plan \<Rightarrow> sync_object list \<Rightarrow> ('r cloud_state, unit) eff" where
  "cloud_accept c tid p inputs =
     (case is_cloud_safe c p inputs of
        (False, reason) \<Rightarrow> eff_raise (DomainValidationError (''task '' @ repr_str tid @ '' refused: '' @ reason))
      | (True, _) \<Rightarrow> cloud_emit c ''AgentStarted'' tid [(''agent'', JStr ''cloud'')])"

type_synonym cloud_executor = "string \<Rightarrow> plan \<Rightarrow> arguments \<Rightarrow> exec_result result"

definition run_cloud_task :: "'r cloud_cfg \<Rightarrow> cloud_executor \<Rightarrow> string \<Rightarrow> plan \<Rightarrow> arguments \<Rightarrow> ('r cloud_state, exec_result) eff" where
  "run_cloud_task c execute tid p args =
     (case execute tid p args of
        Inl e \<Rightarrow> eff_raise e
      | Inr res \<Rightarrow> eff_then (cloud_emit c ''AgentCompleted'' tid
            [(''agent'', JStr ''cloud''), (''success'', JBool (xr_status res = O_COMPLETED))]) (eff_return res))"

definition publish_results :: "'r cloud_cfg \<Rightarrow> sync_object list \<Rightarrow> ('r cloud_state, sync_report) eff" where
  "publish_results c objects s =
     (case cl_sync c of
        None \<Rightarrow> eff_raise (DomainValidationError ''cloud agent has no sync manager'') s
      | Some sc \<Rightarrow>
          (case find (\<lambda>obj. sync_classify (sc_policy sc) obj = SYNC_FORBIDDEN) objects of
             Some obj \<Rightarrow> eff_raise (DomainValidationError (''object '' @ repr_str (so_id obj) @ '' is forbidden to sync'')) s
           | None \<Rightarrow> (case sync sc objects (cl_mgr s) of (r, m) \<Rightarrow> (r, s\<lparr>cl_mgr := m\<rparr>))))"

definition resume_handoff :: "string \<Rightarrow> string \<Rightarrow> string \<Rightarrow> string \<Rightarrow> string" where
  "resume_handoff local_version remote_version local_hash remote_hash =
     (if local_version \<noteq> remote_version then ''conflict''
      else if local_hash \<noteq> [] \<and> remote_hash \<noteq> [] \<and> local_hash \<noteq> remote_hash then ''conflict''
      else ''resume'')"

subsection \<open>Properties\<close>

lemma cloud_safe_plan_iff: "fst (cloud_safe_plan p tools) \<longleftrightarrow> set (plan_tools p) \<subseteq> set tools"
  by (auto simp: cloud_safe_plan_def find_None_iff subset_iff split: option.split dest!: find_Some_in_set)

lemma is_cloud_safe_iff:
  "fst (is_cloud_safe c p inputs) \<longleftrightarrow>
     set (plan_tools p) \<subseteq> set (cl_allowed c) \<and> (\<forall>obj \<in> set inputs. input_class c obj = SYNC_ALLOWED)"
  using cloud_safe_plan_iff [of p "cl_allowed c"]
  by (auto simp: is_cloud_safe_def find_None_iff split: prod.split bool.split option.split dest!: find_Some_in_set)

lemma input_class_allowed:
  "input_class c obj = SYNC_ALLOWED \<Longrightarrow> \<exists>sc. cl_sync c = Some sc \<and> \<not> contains_secrets (JObj (so_payload obj))"
  by (auto simp: input_class_def sync_classify_def split: option.splits if_splits)

text \<open>
  The gate of the cloud agent is exact. A task is accepted exactly when every tool of its plan is
  on the agent's list and every input is classified as free to synchronise - which needs a
  synchronisation manager and a payload without secrets; otherwise it is refused and nothing changes.
\<close>

theorem cloud_gate_is_exact:
  "(is_inr (fst (cloud_accept c tid p inputs s)) \<longleftrightarrow>
      (\<forall>st \<in> set (plan_steps p). set (ps_tools st) \<subseteq> set (cl_allowed c))
      \<and> (\<forall>obj \<in> set inputs. \<exists>sc. cl_sync c = Some sc \<and> sync_classify (sc_policy sc) obj = SYNC_ALLOWED
           \<and> \<not> contains_secrets (JObj (so_payload obj))))
   \<and> (\<not> is_inr (fst (cloud_accept c tid p inputs s)) \<longrightarrow> snd (cloud_accept c tid p inputs s) = s)
   \<and> cl_mgr (snd (cloud_accept c tid p inputs s)) = cl_mgr s"
proof -
  have tools: "set (plan_tools p) \<subseteq> set (cl_allowed c) \<longleftrightarrow> (\<forall>st \<in> set (plan_steps p). set (ps_tools st) \<subseteq> set (cl_allowed c))"
    by (auto simp: plan_tools_def)
  have "input_class c obj = SYNC_ALLOWED \<longleftrightarrow> (\<exists>sc. cl_sync c = Some sc \<and> sync_classify (sc_policy sc) obj = SYNC_ALLOWED
           \<and> \<not> contains_secrets (JObj (so_payload obj)))" for obj
    using input_class_allowed [of c obj] by (auto simp: input_class_def split: option.splits)
  then have safe: "fst (is_cloud_safe c p inputs) \<longleftrightarrow>
      (\<forall>st \<in> set (plan_steps p). set (ps_tools st) \<subseteq> set (cl_allowed c))
      \<and> (\<forall>obj \<in> set inputs. \<exists>sc. cl_sync c = Some sc \<and> sync_classify (sc_policy sc) obj = SYNC_ALLOWED
           \<and> \<not> contains_secrets (JObj (so_payload obj)))"
    unfolding is_cloud_safe_iff tools by simp
  obtain ok reason where "is_cloud_safe c p inputs = (ok, reason)" by fastforce
  with safe show ?thesis by (cases ok) (simp_all add: cloud_accept_def cloud_emit_def)
qed

text \<open>
  Publishing leaks nothing. What \<open>publish_results\<close> adds to the objects ever sent to the remote side
  is among the objects it was given, of a class that may be uploaded and without a secret in its
  payload; and when one of them is forbidden nothing is sent at all and the call raises.
\<close>

theorem publish_leaks_nothing:
  assumes sync: "cl_sync c = Some (spied_cfg sc)" and run: "publish_results c objects s = (r, s')"
  shows "pushed (snd (sm_remote (cl_mgr s'))) \<subseteq> pushed (snd (sm_remote (cl_mgr s)))
      \<union> {obj \<in> set objects. sync_classify (sc_policy sc) obj \<in> {SYNC_ALLOWED, SYNC_RESTRICTED}
           \<and> \<not> contains_secrets (JObj (so_payload obj))}
    \<and> ((\<exists>obj \<in> set objects. sync_classify (sc_policy sc) obj = SYNC_FORBIDDEN) \<longrightarrow> isl r \<and> s' = s)"
proof -
  let ?E = "{obj \<in> set objects. sync_classify (sc_policy sc) obj \<in> {SYNC_ALLOWED, SYNC_RESTRICTED}
           \<and> \<not> contains_secrets (JObj (so_payload obj))}"
  let ?P = "pushed (snd (sm_remote (cl_mgr s)))"
  let ?I = "\<lambda>q :: 'a \<times> remote_call list. pushed (snd q) \<subseteq> ?P \<union> ?E"
  have up: "can_upload (sc_policy sc) obj \<Longrightarrow> sync_classify (sc_policy sc) obj \<in> {SYNC_ALLOWED, SYNC_RESTRICTED}
      \<and> \<not> contains_secrets (JObj (so_payload obj))" for obj
    using can_upload_eligible [of "sc_policy sc" obj] by (simp add: eligible_def can_upload_def)
  have k: "remote_keeps ?I (spied_cfg sc) objects" "keeps ?I (tr_list (sc_transport (spied_cfg sc)))"
    using up by (auto simp: remote_keeps_def keeps_def spy_def spied_def pushed_def split: prod.split)
  have after: "?I (sm_remote (snd (sync (spied_cfg sc) objects (cl_mgr s))))"
    using keepsD [OF keeps_sync [OF k], of "cl_mgr s"] by (simp add: remote_inv_def)
  show ?thesis
  proof (cases "find (\<lambda>obj. sync_classify (sc_policy sc) obj = SYNC_FORBIDDEN) objects")
    case None
    then have none: "\<not> (\<exists>obj \<in> set objects. sync_classify (sc_policy sc) obj = SYNC_FORBIDDEN)" by (simp add: find_None_iff)
    have "cl_mgr s' = snd (sync (spied_cfg sc) objects (cl_mgr s))"
      using run sync None by (auto simp: publish_results_def split: prod.splits)
    with after none show ?thesis by simp
  next
    case (Some obj)
    with run sync have "isl r \<and> s' = s" by (auto simp: publish_results_def)
    then show ?thesis by blast
  qed
qed

subsection \<open>Examples\<close>

definition cloud_policy :: sync_policy where
  "cloud_policy = mk_policy [] [] False"

definition cloud_demo :: "(mock_remote \<times> remote_call list) cloud_cfg" where
  "cloud_demo = \<lparr>cl_sync = Some (spied_cfg (new_cfg cloud_policy mock_transport True 0)), cl_allowed = [''echo''], cl_bus = True\<rparr>"

definition cloud_start :: "(mock_remote \<times> remote_call list) cloud_state" where
  "cloud_start = \<lparr>cl_mgr = new_mgr (\<lparr>mr_down = False, mr_fail_after = -1, mr_remote = [], mr_pushes = 0, mr_pulls = 0\<rparr>, []),
     cl_events = []\<rparr>"

definition task_object :: "arguments \<Rightarrow> sync_object" where
  "task_object pl = \<lparr>so_id = ''o'', so_type = ''task'', so_version = ''1'', so_hash = ''h'', so_scope = [], so_payload = pl, so_updated = 0\<rparr>"

lemma publish_leaks_nothing_witness:
  "pushed (snd (sm_remote (cl_mgr (snd (publish_results cloud_demo [task_object []] cloud_start))))) \<noteq> {}
   \<and> pushed (snd (sm_remote (cl_mgr (snd (publish_results cloud_demo [task_object []] cloud_start))))) \<subseteq> {task_object []}"
proof
  let ?r = "publish_results cloud_demo [task_object []] cloud_start"
  have "snd (sm_remote (cl_mgr (snd ?r))) = [Listed, Pushed (task_object [])]" by code_simp
  then show "pushed (snd (sm_remote (cl_mgr (snd ?r)))) \<noteq> {}" by (simp add: pushed_def)
  have c: "cl_sync cloud_demo = Some (spied_cfg (new_cfg cloud_policy mock_transport True 0))" by (simp add: cloud_demo_def)
  have "pushed (snd (sm_remote (cl_mgr cloud_start))) = {}" by (simp add: cloud_start_def new_mgr_def pushed_def)
  with publish_leaks_nothing [OF c prod.collapse [symmetric], of "[task_object []]" cloud_start]
  show "pushed (snd (sm_remote (cl_mgr (snd ?r)))) \<subseteq> {task_object []}" by auto
qed

text \<open>A plan that \<open>accept\<close> refuses is run all the same when it is handed to \<open>run_cloud_task\<close>.\<close>

lemma refused_plan_still_runs:
  "\<not> is_inr (fst (cloud_accept (cloud_demo\<lparr>cl_allowed := []\<rparr>) ''t'' p [] s)) \<or> plan_tools p = []"
  "fst (run_cloud_task (cloud_demo\<lparr>cl_allowed := []\<rparr>) execute ''t'' p args s) = execute ''t'' p args"
proof -
  show "\<not> is_inr (fst (cloud_accept (cloud_demo\<lparr>cl_allowed := []\<rparr>) ''t'' p [] s)) \<or> plan_tools p = []"
    using is_cloud_safe_iff [of "cloud_demo\<lparr>cl_allowed := []\<rparr>" p "[]"]
    by (auto simp: cloud_accept_def split: prod.splits bool.splits)
  show "fst (run_cloud_task (cloud_demo\<lparr>cl_allowed := []\<rparr>) execute ''t'' p args s) = execute ''t'' p args"
    by (auto simp: run_cloud_task_def eff_then_def eff_bind_def cloud_emit_def split: sum.split)
qed

end
