(* ===== verification/Presence.thy ===== *)
theory Presence
  imports Effects Events Store
begin

text \<open>
  Device presence (\<^verbatim>\<open>cloud/availability.py\<close>): heartbeats renew a lease on a row of the snapshot
  table, a poll puts rows whose lease has run out offline. Capabilities are strings, so the type
  test of \<open>_check_heartbeat\<close> always holds. \<open>moment\<close> is the instant a call is about, \<open>now\<close> the
  reading of the clock for \<open>updated_at\<close>.
\<close>

datatype pc_status = P_ONLINE | P_OFFLINE | P_SLEEPING | P_UNREACHABLE | P_BUSY | P_AVAILABLE

record presence = entity +
  dp_device :: string
  dp_last_seen :: real
  dp_status :: pc_status
  dp_capabilities :: "string list"
  dp_pressure :: string
  dp_reachable :: bool
  dp_runtime :: string

record presence_cfg =
  av_bus :: bool
  av_lease :: real

record presence_state =
  av_table :: "presence table"
  av_events :: "event list"

type_synonym 'a presence_op = "(presence_state, 'a) eff"

definition known_pressures :: "string list" where
  "known_pressures = [''LOW'', ''MODERATE'', ''HIGH'', ''CRITICAL'', ''UNKNOWN'']"

definition check_heartbeat :: "string \<Rightarrow> string list option \<Rightarrow> string \<Rightarrow> string \<Rightarrow> string list result" where
  "check_heartbeat device capabilities pressure runtime =
     (let caps = (case capabilities of None \<Rightarrow> [] | Some cs \<Rightarrow> cs) in
      if device = [] then Inl (DomainValidationError ''device_id must not be empty'')
      else if length device > 256 then Inl (DomainValidationError ''device_id too long'')
      else if length caps > 100 then Inl (DomainValidationError ''too many capabilities'')
      else if list_ex (\<lambda>ca. length ca > 256) caps
        then Inl (DomainValidationError ''capability entries must be short strings'')
      else if pressure \<notin> set known_pressures
        then Inl (DomainValidationError (''unknown pressure '' @ repr_str pressure))
      else if length runtime > 256 then Inl (DomainValidationError ''runtime identifier too long'')
      else Inr caps)"

text \<open>The constructor refuses a lease that is not positive.\<close>

definition new_presence_cfg :: "bool \<Rightarrow> real \<Rightarrow> presence_cfg result" where
  "new_presence_cfg bus lease =
     (if lease \<le> 0 then Inl (DomainValidationError ''lease_timeout_s must be positive'')
      else Inr \<lparr>av_bus = bus, av_lease = lease\<rparr>)"

definition presence_emit :: "presence_cfg \<Rightarrow> string \<Rightarrow> string \<Rightarrow> unit presence_op" where
  "presence_emit c ty device = eff_modify (\<lambda>s.
     if av_bus c then s\<lparr>av_events := av_events s @ [mk_event ty [] (JObj [(''device_id'', JStr device)])]\<rparr> else s)"

definition find_device :: "string \<Rightarrow> presence_state \<Rightarrow> presence option" where
  "find_device device s = find (\<lambda>p. dp_device p = device) (tbl_list (av_table s))"

definition require_device :: "string \<Rightarrow> presence presence_op" where
  "require_device device s =
     (case find_device device s of
        None \<Rightarrow> eff_raise (ResourceNotFoundError ''DevicePresence'' device) s | Some p \<Rightarrow> eff_return p s)"

definition put_presence :: "real \<Rightarrow> presence \<Rightarrow> presence_state \<Rightarrow> presence_state" where
  "put_presence now p s = s\<lparr>av_table := tbl_put now p (av_table s)\<rparr>"

definition lease_expired :: "presence_cfg \<Rightarrow> real \<Rightarrow> presence \<Rightarrow> bool" where
  "lease_expired c moment p \<longleftrightarrow> moment - dp_last_seen p > av_lease c"

definition beat ::
  "real \<Rightarrow> pc_status \<Rightarrow> string list \<Rightarrow> string \<Rightarrow> bool \<Rightarrow> string \<Rightarrow> presence \<Rightarrow> presence" where
  "beat moment st caps pressure reachable runtime p =
     p\<lparr>dp_last_seen := moment, dp_status := st, dp_capabilities := caps, dp_pressure := pressure,
       dp_reachable := reachable, dp_runtime := runtime\<rparr>"

definition heartbeat ::
  "presence_cfg \<Rightarrow> real \<Rightarrow> string \<Rightarrow> real \<Rightarrow> string \<Rightarrow> pc_status \<Rightarrow> string list option \<Rightarrow> string \<Rightarrow> bool \<Rightarrow> string
   \<Rightarrow> presence presence_op" where
  "heartbeat c now i moment device st capabilities pressure reachable runtime s =
     (case check_heartbeat device capabilities pressure runtime of
        Inl e \<Rightarrow> eff_raise e s
      | Inr caps \<Rightarrow>
          (case find_device device s of
             None \<Rightarrow>
               (case tbl_create now (beat moment st caps pressure reachable runtime
                   \<lparr>ent_id = i, ent_created = now, ent_updated = now, dp_device = device, dp_last_seen = moment,
                    dp_status = st, dp_capabilities = [], dp_pressure = [], dp_reachable = False, dp_runtime = []\<rparr>)
                   (av_table s) of
                  Inl e \<Rightarrow> eff_raise e s
                | Inr (p, t) \<Rightarrow> eff_then (presence_emit c ''PCOnline'' device) (eff_return p) (s\<lparr>av_table := t\<rparr>))
           | Some old \<Rightarrow>
               let p = beat moment st (case capabilities of None \<Rightarrow> dp_capabilities old | Some _ \<Rightarrow> caps)
                         pressure reachable runtime old
               in eff_then
                    (if dp_status old \<in> {P_OFFLINE, P_UNREACHABLE} \<and> st \<in> {P_ONLINE, P_AVAILABLE}
                     then presence_emit c ''PCOnline'' device else eff_return ())
                    (eff_return (touch now p)) (put_presence now p s)))"

definition set_device_status :: "real \<Rightarrow> string \<Rightarrow> pc_status \<Rightarrow> presence presence_op" where
  "set_device_status now device st =
     eff_bind (require_device device) (\<lambda>p. let p' = p\<lparr>dp_status := st\<rparr> in
       eff_then (eff_modify (put_presence now p')) (eff_return (touch now p')))"

definition device_available :: "presence_cfg \<Rightarrow> string \<Rightarrow> real \<Rightarrow> presence_state \<Rightarrow> bool" where
  "device_available c device moment s =
     (case find_device device s of
        None \<Rightarrow> False
      | Some p \<Rightarrow> dp_status p \<in> {P_ONLINE, P_AVAILABLE} \<and> \<not> lease_expired c moment p)"

definition due_offline :: "presence_cfg \<Rightarrow> real \<Rightarrow> presence \<Rightarrow> bool" where
  "due_offline c moment p \<longleftrightarrow> dp_status p \<noteq> P_OFFLINE \<and> lease_expired c moment p"

fun poll_rows :: "presence_cfg \<Rightarrow> real \<Rightarrow> real \<Rightarrow> presence list \<Rightarrow> presence list presence_op" where
  "poll_rows c now moment [] = eff_return []"
| "poll_rows c now moment (p # ps) =
     (if due_offline c moment p
      then let p' = p\<lparr>dp_status := P_OFFLINE\<rparr> in
           eff_then (eff_modify (put_presence now p'))
             (eff_then (presence_emit c ''PCExpired'' (dp_device p))
               (eff_bind (poll_rows c now moment ps) (\<lambda>rest. eff_return (touch now p' # rest))))
      else poll_rows c now moment ps)"

definition presence_poll :: "presence_cfg \<Rightarrow> real \<Rightarrow> real \<Rightarrow> presence list presence_op" where
  "presence_poll c now moment s = poll_rows c now moment (tbl_list (av_table s)) s"

definition mark_offline :: "presence_cfg \<Rightarrow> real \<Rightarrow> string \<Rightarrow> presence presence_op" where
  "mark_offline c now device =
     eff_bind (require_device device) (\<lambda>p. let p' = p\<lparr>dp_status := P_OFFLINE, dp_reachable := False\<rparr> in
       eff_then (eff_modify (put_presence now p'))
         (eff_then (presence_emit c ''PCOffline'' device) (eff_return (touch now p'))))"

definition presence_age :: "real \<Rightarrow> presence \<Rightarrow> real" where
  "presence_age moment p = max 0 (moment - dp_last_seen p)"

subsection \<open>The poll\<close>

lemma poll_rows_table:
  "av_table (snd (poll_rows c now moment ps s))
     = snapshot_table.sweep now (due_offline c moment) (\<lambda>p. p\<lparr>dp_status := P_OFFLINE\<rparr>) ps (av_table s)
   \<and> fst (poll_rows c now moment ps s) = Inr (map (\<lambda>p. touch now (p\<lparr>dp_status := P_OFFLINE\<rparr>)) (filter (due_offline c moment) ps))"
proof (induction ps arbitrary: s)
  case Nil
  then show ?case by (simp add: snapshot_table.sweep_def)
next
  case (Cons p ps)
  show ?case
  proof (cases "due_offline c moment p")
    case True
    let ?s = "snd (presence_emit c ''PCExpired'' (dp_device p) (put_presence now (p\<lparr>dp_status := P_OFFLINE\<rparr>) s))"
    have t: "av_table ?s = tbl_put now (p\<lparr>dp_status := P_OFFLINE\<rparr>) (av_table s)"
      by (simp add: presence_emit_def put_presence_def)
    obtain r s' where r: "poll_rows c now moment ps ?s = (r, s')" by fastforce
    have "poll_rows c now moment (p # ps) s =
        (case r of Inl e \<Rightarrow> (Inl e, s') | Inr rest \<Rightarrow> (Inr (touch now (p\<lparr>dp_status := P_OFFLINE\<rparr>) # rest), s'))"
      using True r by (cases r) (simp_all add: Let_def eff_then_def eff_bind_def presence_emit_def)
    with Cons.IH [of ?s] r t True show ?thesis by (simp add: snapshot_table.sweep_def)
  next
    case False
    with Cons.IH show ?thesis by (simp add: snapshot_table.sweep_def)
  qed
qed

text \<open>
  The poll expires exactly the stale leases. A row that is not offline and whose last heartbeat is
  further back than the lease becomes offline and nothing else about it changes; every other row
  keeps its value; the answer lists exactly the devices that were put offline; and after the poll
  the same instant finds no row due.
\<close>

theorem poll_is_exact:
  assumes "wf_table (av_table s)" and "presence_poll c now moment s = (r, s')"
  shows "tbl_get i (av_table s') = (case tbl_get i (av_table s) of None \<Rightarrow> None
      | Some p \<Rightarrow> Some (if due_offline c moment p then touch now (p\<lparr>dp_status := P_OFFLINE\<rparr>) else p))
    \<and> (\<exists>ps. r = Inr ps \<and> set ps = (\<lambda>p. touch now (p\<lparr>dp_status := P_OFFLINE\<rparr>)) ` {p \<in> set (tbl_list (av_table s)). due_offline c moment p})
    \<and> (\<forall>p. tbl_get i (av_table s') = Some p \<longrightarrow> \<not> due_offline c moment p)"
proof -
  have t: "av_table s' = snapshot_table.sweep now (due_offline c moment) (\<lambda>p. p\<lparr>dp_status := P_OFFLINE\<rparr>)
      (tbl_list (av_table s)) (av_table s)"
    and r: "r = Inr (map (\<lambda>p. touch now (p\<lparr>dp_status := P_OFFLINE\<rparr>)) (filter (due_offline c moment) (tbl_list (av_table s))))"
    using poll_rows_table [of c now moment "tbl_list (av_table s)" s] assms(2) by (simp_all add: presence_poll_def)
  have row: "tbl_get i (av_table s') = (case tbl_get i (av_table s) of None \<Rightarrow> None
      | Some p \<Rightarrow> Some (if due_offline c moment p then touch now (p\<lparr>dp_status := P_OFFLINE\<rparr>) else p))"
    unfolding t by (rule snapshot_table.lookup_sweep [OF assms(1)]) simp
  moreover have "\<not> due_offline c moment (touch now (p\<lparr>dp_status := P_OFFLINE\<rparr>))" for p
    by (simp add: due_offline_def touch_def)
  ultimately show ?thesis using r by (auto split: option.splits if_splits)
qed

subsection \<open>A lease is a heartbeat\<close>

datatype presence_action =
    Heartbeat real string real string pc_status "string list option" string bool string
  | Set_Status real string pc_status
  | Poll real real
  | Offline real string

fun presence_act :: "presence_cfg \<Rightarrow> presence_action \<Rightarrow> presence_state \<Rightarrow> presence_state" where
  "presence_act c (Heartbeat now i moment d st caps pr re ru) s = snd (heartbeat c now i moment d st caps pr re ru s)"
| "presence_act c (Set_Status now d st) s = snd (set_device_status now d st s)"
| "presence_act c (Poll now moment) s = snd (presence_poll c now moment s)"
| "presence_act c (Offline now d) s = snd (mark_offline c now d s)"

definition run_presence :: "presence_cfg \<Rightarrow> presence_action list \<Rightarrow> presence_state" where
  "run_presence c acts = fold (presence_act c) acts \<lparr>av_table = [], av_events = []\<rparr>"

text \<open>The devices and instants of the heartbeats in a sequence.\<close>

fun beat_of :: "presence_action \<Rightarrow> (string \<times> real) set" where
  "beat_of (Heartbeat now i moment d st caps pr re ru) = {(d, moment)}"
| "beat_of _ = {}"

definition beats :: "presence_action list \<Rightarrow> (string \<times> real) set" where
  "beats acts = (\<Union>a \<in> set acts. beat_of a)"

lemma beat_of_Heartbeat: "(d, m) \<in> beat_of a \<Longrightarrow> \<exists>now i st caps pr re ru. a = Heartbeat now i m d st caps pr re ru"
  by (cases a) auto

text \<open>A table whose rows are of different devices, each with an instant of \<open>B\<close>.\<close>

definition leased :: "(string \<times> real) set \<Rightarrow> presence_state \<Rightarrow> bool" where
  "leased B s \<longleftrightarrow> wf_table (av_table s)
     \<and> (\<forall>i p. tbl_get i (av_table s) = Some p \<longrightarrow> (dp_device p, dp_last_seen p) \<in> B)
     \<and> (\<forall>i j p q. tbl_get i (av_table s) = Some p \<longrightarrow> tbl_get j (av_table s) = Some q \<longrightarrow> dp_device p = dp_device q \<longrightarrow> i = j)"

lemma find_device_Some:
  assumes "wf_table (av_table s)" "find_device d s = Some p"
  shows "tbl_get (ent_id p) (av_table s) = Some p \<and> dp_device p = d"
  using assms find_Some_in_set by (fastforce simp: find_device_def set_tbl_list)

lemma find_device_None:
  "wf_table (av_table s) \<Longrightarrow> find_device d s = None \<Longrightarrow> tbl_get i (av_table s) = Some p \<Longrightarrow> dp_device p \<noteq> d"
  using set_tbl_list [of "av_table s" p] wf_table_get [of "av_table s" i p]
  by (auto simp: find_device_def find_None_iff tbl_get_def)

lemma leased_put:
  assumes I: "leased B s" and old: "tbl_get (ent_id p) (av_table s) = Some old" and same: "dp_device p = dp_device old"
    and seen: "(dp_device p, dp_last_seen p) \<in> B"
  shows "leased B (put_presence now p s)"
proof -
  have row: "tbl_get i (av_table (put_presence now p s)) = (if i = ent_id p then Some (touch now p) else tbl_get i (av_table s))" for i
    using I by (simp add: put_presence_def leased_def snapshot_table.lookup_put)
  have "wf_table (av_table (put_presence now p s))"
    using I by (simp add: put_presence_def leased_def snapshot_table.inv_put)
  moreover have "(dp_device q, dp_last_seen q) \<in> B" if "tbl_get i (av_table (put_presence now p s)) = Some q" for i q
    using that I seen by (auto simp: row leased_def touch_def split: if_splits)
  moreover have "i = j" if "tbl_get i (av_table (put_presence now p s)) = Some q"
      "tbl_get j (av_table (put_presence now p s)) = Some r" "dp_device q = dp_device r" for i j q r
  proof -
    have inj: "\<And>i j p q. tbl_get i (av_table s) = Some p \<Longrightarrow> tbl_get j (av_table s) = Some q \<Longrightarrow> dp_device p = dp_device q \<Longrightarrow> i = j"
      using I by (simp add: leased_def)
    have dev: "dp_device (touch now p) = dp_device p" by (simp add: touch_def)
    show ?thesis using that old same inj dev unfolding row by (metis option.inject)
  qed
  ultimately show ?thesis unfolding leased_def by blast
qed

lemma leased_events [simp]: "leased B (s\<lparr>av_events := ev\<rparr>) = leased B s"
  by (simp add: leased_def)

lemma leased_emit [simp]: "leased B (snd (presence_emit c ty d s)) = leased B s"
  by (simp add: presence_emit_def)

lemma leased_require:
  assumes "leased B s"
  shows "(\<exists>e. require_device d s = (Inl e, s))
    \<or> (\<exists>p. require_device d s = (Inr p, s) \<and> tbl_get (ent_id p) (av_table s) = Some p \<and> (dp_device p, dp_last_seen p) \<in> B)"
proof (cases "find_device d s")
  case None
  then show ?thesis by (simp add: require_device_def)
next
  case (Some p)
  moreover have "wf_table (av_table s)" using assms by (simp add: leased_def)
  ultimately have "tbl_get (ent_id p) (av_table s) = Some p" using find_device_Some by blast
  with Some assms show ?thesis by (simp add: require_device_def leased_def)
qed

lemma leased_heartbeat:
  assumes I: "leased B s" and b: "(d, moment) \<in> B"
  shows "leased B (snd (heartbeat c now i moment d st caps pr re ru s))"
proof (cases "check_heartbeat d caps pr ru")
  case (Inl e)
  with I show ?thesis by (simp add: heartbeat_def)
next
  case (Inr cs)
  show ?thesis
  proof (cases "find_device d s")
    case None
    let ?p = "beat moment st cs pr re ru \<lparr>ent_id = i, ent_created = now, ent_updated = now, dp_device = d, dp_last_seen = moment,
                    dp_status = st, dp_capabilities = [], dp_pressure = [], dp_reachable = False, dp_runtime = []\<rparr>"
    show ?thesis
    proof (cases "tbl_create now ?p (av_table s)")
      case (Inl e)
      with I None \<open>check_heartbeat d caps pr ru = Inr cs\<close> show ?thesis by (simp add: heartbeat_def)
    next
      case (Inr y)
      obtain q t where y: "y = (q, t)" by fastforce
      with Inr have t: "tbl_get i (av_table s) = None" "q = touch now ?p" "t = dict_set i q (av_table s)"
        by (simp_all add: store_simps beat_def)
      have wf: "wf_table (av_table s)" using I by (simp add: leased_def)
      have q: "ent_id q = i" "dp_device q = d" "dp_last_seen q = moment" using t by (simp_all add: beat_def touch_def)
      have wf': "wf_table t" using wf_table_dict_set [OF wf, of q] t q by simp
      have row: "tbl_get j t = (if j = i then Some q else tbl_get j (av_table s))" for j
        using t by (simp add: tbl_get_def)
      have other: "dp_device r \<noteq> d" if "tbl_get j (av_table s) = Some r" for j r
        by (rule find_device_None [OF wf None that])
      have "j = k" if "tbl_get j t = Some r" "tbl_get k t = Some r'" "dp_device r = dp_device r'" for j k r r'
      proof -
        have inj: "\<And>i j p q. tbl_get i (av_table s) = Some p \<Longrightarrow> tbl_get j (av_table s) = Some q \<Longrightarrow> dp_device p = dp_device q \<Longrightarrow> i = j"
          using I by (simp add: leased_def)
        show ?thesis using that inj other q(2) unfolding row by (metis option.inject)
      qed
      moreover have "(dp_device r, dp_last_seen r) \<in> B" if "tbl_get j t = Some r" for j r
        using that I b q unfolding row by (auto simp: leased_def split: if_splits)
      ultimately have "leased B (s\<lparr>av_table := t\<rparr>)" unfolding leased_def using wf' by simp
      moreover have "snd (heartbeat c now i moment d st caps pr re ru s) = snd (presence_emit c ''PCOnline'' d (s\<lparr>av_table := t\<rparr>))"
        using None \<open>check_heartbeat d caps pr ru = Inr cs\<close> Inr y
        by (simp add: heartbeat_def eff_then_def eff_bind_def presence_emit_def)
      ultimately show ?thesis by simp
    qed
  next
    case (Some old)
    let ?p = "beat moment st (case caps of None \<Rightarrow> dp_capabilities old | Some _ \<Rightarrow> cs) pr re ru old"
    have o: "tbl_get (ent_id old) (av_table s) = Some old" "dp_device old = d"
      using find_device_Some [OF _ Some] I by (simp_all add: leased_def)
    have "leased B (put_presence now ?p s)"
      by (rule leased_put [OF I, where old = old]) (use o b in \<open>simp_all add: beat_def\<close>)
    moreover have "snd (heartbeat c now i moment d st caps pr re ru s)
        = (if dp_status old \<in> {P_OFFLINE, P_UNREACHABLE} \<and> st \<in> {P_ONLINE, P_AVAILABLE}
           then snd (presence_emit c ''PCOnline'' d (put_presence now ?p s)) else put_presence now ?p s)"
      using Some Inr by (simp add: heartbeat_def Let_def eff_then_def eff_bind_def presence_emit_def)
    ultimately show ?thesis by simp
  qed
qed

lemma leased_poll: "leased B s \<Longrightarrow> (\<And>p. p \<in> set ps \<Longrightarrow> \<exists>old. tbl_get (ent_id p) (av_table s) = Some old
      \<and> dp_device p = dp_device old \<and> (dp_device p, dp_last_seen p) \<in> B) \<Longrightarrow> leased B (snd (poll_rows c now moment ps s))"
proof (induction ps arbitrary: s)
  case (Cons p ps)
  show ?case
  proof (cases "due_offline c moment p")
    case True
    let ?p = "p\<lparr>dp_status := P_OFFLINE\<rparr>"
    let ?s = "snd (presence_emit c ''PCExpired'' (dp_device p) (put_presence now ?p s))"
    from Cons.prems(2) [of p] obtain old where old: "tbl_get (ent_id p) (av_table s) = Some old" "dp_device p = dp_device old"
      "(dp_device p, dp_last_seen p) \<in> B" by auto
    have I: "leased B ?s" using leased_put [OF Cons.prems(1), of ?p old now] old by simp
    have row: "tbl_get i (av_table ?s) = (if i = ent_id p then Some (touch now ?p) else tbl_get i (av_table s))" for i
      using Cons.prems(1) by (simp add: put_presence_def presence_emit_def leased_def snapshot_table.lookup_put)
    have dev: "dp_device (touch now ?p) = dp_device p" by (simp add: touch_def)
    have "\<exists>old. tbl_get (ent_id q) (av_table ?s) = Some old \<and> dp_device q = dp_device old \<and> (dp_device q, dp_last_seen q) \<in> B"
      if "q \<in> set ps" for q
      using Cons.prems(2) [of q] that old dev unfolding row by (auto split: if_splits)
    with Cons.IH [OF I] have "leased B (snd (poll_rows c now moment ps ?s))" by blast
    then show ?thesis using True
      by (cases "poll_rows c now moment ps ?s"; cases "fst (poll_rows c now moment ps ?s)")
        (auto simp: Let_def eff_then_def eff_bind_def presence_emit_def)
  next
    case False
    with Cons show ?thesis by simp
  qed
qed simp

lemma leased_act:
  assumes I: "leased B s" and B: "beats [a] \<subseteq> B"
  shows "leased B (presence_act c a s)"
proof (cases a)
  case (Heartbeat now i moment d st caps pr re ru)
  then have "(d, moment) \<in> B" using B by (auto simp: beats_def)
  with leased_heartbeat [OF I] Heartbeat show ?thesis by simp
next
  case (Set_Status now d st)
  from leased_require [OF I, of d] show ?thesis
  proof
    assume "\<exists>e. require_device d s = (Inl e, s)"
    with I Set_Status show ?thesis by (auto simp: set_device_status_def eff_bind_def)
  next
    assume "\<exists>p. require_device d s = (Inr p, s) \<and> tbl_get (ent_id p) (av_table s) = Some p \<and> (dp_device p, dp_last_seen p) \<in> B"
    then obtain p where p: "require_device d s = (Inr p, s)" "tbl_get (ent_id p) (av_table s) = Some p"
      "(dp_device p, dp_last_seen p) \<in> B" by blast
    have "leased B (put_presence now (p\<lparr>dp_status := st\<rparr>) s)" by (rule leased_put [OF I, where old = p]) (use p in simp_all)
    with p Set_Status show ?thesis by (simp add: set_device_status_def eff_bind_def eff_then_def Let_def)
  qed
next
  case (Poll now moment)
  have "leased B (snd (poll_rows c now moment (tbl_list (av_table s)) s))"
    using I by (intro leased_poll) (auto simp: leased_def set_tbl_list)
  with Poll show ?thesis by (simp add: presence_poll_def)
next
  case (Offline now d)
  from leased_require [OF I, of d] show ?thesis
  proof
    assume "\<exists>e. require_device d s = (Inl e, s)"
    with I Offline show ?thesis by (auto simp: mark_offline_def eff_bind_def)
  next
    assume "\<exists>p. require_device d s = (Inr p, s) \<and> tbl_get (ent_id p) (av_table s) = Some p \<and> (dp_device p, dp_last_seen p) \<in> B"
    then obtain p where p: "require_device d s = (Inr p, s)" "tbl_get (ent_id p) (av_table s) = Some p"
      "(dp_device p, dp_last_seen p) \<in> B" by blast
    have "leased B (put_presence now (p\<lparr>dp_status := P_OFFLINE, dp_reachable := False\<rparr>) s)"
      by (rule leased_put [OF I, where old = p]) (use p in simp_all)
    with p Offline leased_emit [of B c "''PCOffline''" d] show ?thesis
      by (simp add: mark_offline_def eff_bind_def eff_then_def Let_def presence_emit_def)
  qed
qed

text \<open>
  C21: Availability is a fresh heartbeat. After any sequence of heartbeats, operator changes, polls and
  disconnections, a device has one row, and it is available at an instant only when a heartbeat for
  this very device was sent at most one lease before; no operator status makes up for it.
\<close>

theorem available_means_fresh_heartbeat:
  assumes "device_available c d moment (run_presence c acts)"
  shows "(\<exists>now i m st caps pr re ru. Heartbeat now i m d st caps pr re ru \<in> set acts \<and> moment - m \<le> av_lease c)
    \<and> (\<forall>p q. p \<in> set (tbl_list (av_table (run_presence c acts))) \<longrightarrow> q \<in> set (tbl_list (av_table (run_presence c acts)))
         \<longrightarrow> dp_device p = dp_device q \<longrightarrow> p = q)"
proof -
  have "leased (beats acts) (fold (presence_act c) as s)" if "leased (beats acts) s" "set as \<subseteq> set acts" for as s
    using that
  proof (induction as arbitrary: s)
    case (Cons a as)
    then have "beats [a] \<subseteq> beats acts" by (auto simp: beats_def)
    then have "leased (beats acts) (presence_act c a s)" by (rule leased_act [OF Cons.prems(1)])
    from Cons.IH [OF this] Cons.prems(2) show ?case by simp
  qed simp
  from this [of "\<lparr>av_table = [], av_events = []\<rparr>" acts] have I: "leased (beats acts) (run_presence c acts)"
    by (simp add: run_presence_def leased_def wf_table_def tbl_get_def)
  then have wf: "wf_table (av_table (run_presence c acts))" by (simp add: leased_def)
  from assms obtain p where p: "find_device d (run_presence c acts) = Some p" "\<not> lease_expired c moment p"
    by (auto simp: device_available_def split: option.splits)
  note fd = find_device_Some [OF wf p(1)]
  with I have "(dp_device p, dp_last_seen p) \<in> beats acts" unfolding leased_def by blast
  with fd obtain a where a: "a \<in> set acts" "(d, dp_last_seen p) \<in> beat_of a" by (auto simp: beats_def)
  from beat_of_Heartbeat [OF a(2)] obtain now i st caps pr re ru where
    "a = Heartbeat now i (dp_last_seen p) d st caps pr re ru" by blast
  with a(1) have hb: "Heartbeat now i (dp_last_seen p) d st caps pr re ru \<in> set acts" by simp
  have "moment - dp_last_seen p \<le> av_lease c" using p(2) by (simp add: lease_expired_def not_less)
  with hb have "\<exists>now i m st caps pr re ru. Heartbeat now i m d st caps pr re ru \<in> set acts \<and> moment - m \<le> av_lease c"
    by (intro exI conjI)
  moreover have "p = q" if "p \<in> set (tbl_list (av_table (run_presence c acts)))"
      "q \<in> set (tbl_list (av_table (run_presence c acts)))" "dp_device p = dp_device q" for p q
  proof -
    have inj: "\<And>i j p q. tbl_get i (av_table (run_presence c acts)) = Some p \<Longrightarrow>
        tbl_get j (av_table (run_presence c acts)) = Some q \<Longrightarrow> dp_device p = dp_device q \<Longrightarrow> i = j"
      using I by (simp add: leased_def)
    note rows = that(1,2) [unfolded set_tbl_list [OF wf]]
    have "Some p = Some q" using rows unfolding inj [OF rows that(3)] by (rule trans [OF sym])
    then show ?thesis by (simp only: option.inject)
  qed
  ultimately show ?thesis by (intro conjI allI impI)
qed

subsection \<open>Examples\<close>

definition demo_presence :: presence_cfg where
  "demo_presence = \<lparr>av_bus = True, av_lease = 60\<rparr>"

definition one_beat :: "presence_action list" where
  "one_beat = [Heartbeat 1 ''r1'' 1 ''pc'' P_ONLINE None ''LOW'' True ''py'']"

lemma poll_is_exact_witness:
  "map_option dp_status (tbl_get ''r1'' (av_table (snd (presence_poll demo_presence 90 90 (run_presence demo_presence one_beat)))))
     = Some P_OFFLINE"
proof -
  let ?s = "run_presence demo_presence one_beat"
  have wf: "wf_table (av_table ?s)" by code_simp
  have "map_option (due_offline demo_presence 90) (tbl_get ''r1'' (av_table ?s)) = Some True" by code_simp
  with poll_is_exact [OF wf prod.collapse [symmetric], of "''r1''" demo_presence 90 90] show ?thesis
    by (auto simp: touch_def)
qed

lemma available_means_fresh_heartbeat_witness:
  "\<exists>now i m st caps pr re ru. Heartbeat now i m ''pc'' st caps pr re ru \<in> set one_beat \<and> 50 - m \<le> av_lease demo_presence"
proof -
  have "device_available demo_presence ''pc'' 50 (run_presence demo_presence one_beat)" by code_simp
  from available_means_fresh_heartbeat [OF this] show ?thesis by (rule conjunct1)
qed

end
