(* ===== verification/Trust.thy ===== *)
theory Trust
  imports Prelude
begin

text \<open>
  Trust levels (\<^verbatim>\<open>security/envelope.py\<close>): the tiers, the registry that only a system actor may write,
  and the danger of a capability name.
\<close>

datatype trust_level = UNTRUSTED | LIMITED | TRUSTED | SYSTEM

fun trust_value :: "trust_level \<Rightarrow> string" where
  "trust_value UNTRUSTED = ''UNTRUSTED''"
| "trust_value LIMITED = ''LIMITED''"
| "trust_value TRUSTED = ''TRUSTED''"
| "trust_value SYSTEM = ''SYSTEM''"

fun trust_index :: "trust_level \<Rightarrow> nat" where
  "trust_index UNTRUSTED = 0"
| "trust_index LIMITED = 1"
| "trust_index TRUSTED = 2"
| "trust_index SYSTEM = 3"

instantiation trust_level :: linorder
begin

definition less_eq_trust_level :: "trust_level \<Rightarrow> trust_level \<Rightarrow> bool" where
  "less_eq_trust_level a b \<longleftrightarrow> trust_index a \<le> trust_index b"

definition less_trust_level :: "trust_level \<Rightarrow> trust_level \<Rightarrow> bool" where
  "less_trust_level a b \<longleftrightarrow> trust_index a < trust_index b"

instance
proof
  show "a \<le> b \<Longrightarrow> b \<le> a \<Longrightarrow> a = b" for a b :: trust_level
    unfolding less_eq_trust_level_def by (cases a; cases b) simp_all
qed (auto simp: less_eq_trust_level_def less_trust_level_def)

end

definition meets :: "trust_level \<Rightarrow> trust_level \<Rightarrow> bool" where
  "meets actual required \<longleftrightarrow> required \<le> actual"

definition capability_risks :: "(string \<times> string) list" where
  "capability_risks = [(''filesystem.read'', ''LOW''), (''filesystem.write'', ''MEDIUM''), (''terminal.execute'', ''HIGH''),
     (''network.request'', ''HIGH''), (''cloud.submit'', ''HIGH''), (''memory.write'', ''MEDIUM''),
     (''policy.modify'', ''CRITICAL'')]"

definition dangerous_capabilities :: "string list" where
  "dangerous_capabilities = map fst (filter (\<lambda>(name, risk). risk \<in> {''HIGH'', ''CRITICAL''}) capability_risks)"

type_synonym trust_levels = "(string \<times> trust_level) list"

definition level_of :: "string \<Rightarrow> trust_levels \<Rightarrow> trust_level" where
  "level_of component d = (case map_of d component of None \<Rightarrow> UNTRUSTED | Some l \<Rightarrow> l)"

definition assign_trust ::
  "string \<Rightarrow> trust_level \<Rightarrow> string \<Rightarrow> trust_level \<Rightarrow> trust_levels \<Rightarrow> trust_level result \<times> trust_levels" where
  "assign_trust component level actor actor_trust d =
     (if actor_trust \<noteq> SYSTEM
      then (Inl (DomainValidationError (''actor '' @ repr_str actor @ '' cannot assign trust (SYSTEM required)'')), d)
      else (Inr level, dict_set component level d))"

definition require_trust :: "string \<Rightarrow> trust_level \<Rightarrow> trust_levels \<Rightarrow> unit result" where
  "require_trust component minimum d =
     (if \<not> meets (level_of component d) minimum
      then Inl (DomainValidationError (''component '' @ repr_str component @ '' is '' @ trust_value (level_of component d)
             @ '', requires '' @ trust_value minimum))
      else Inr ())"

definition capability_risk :: "string \<Rightarrow> string" where
  "capability_risk ca = (case map_of capability_risks ca of None \<Rightarrow> ''UNKNOWN'' | Some r \<Rightarrow> r)"

definition is_dangerous :: "string \<Rightarrow> bool" where
  "is_dangerous ca \<longleftrightarrow> ca \<in> set dangerous_capabilities"

subsection \<open>Who can raise a level\<close>

record assignment =
  as_component :: string
  as_level :: trust_level
  as_actor :: string
  as_trust :: trust_level

definition assign_all :: "assignment list \<Rightarrow> trust_levels \<Rightarrow> trust_levels" where
  "assign_all as d = fold (\<lambda>a d. snd (assign_trust (as_component a) (as_level a) (as_actor a) (as_trust a) d)) as d"

lemma assign_all_other:
  "\<forall>a \<in> set as. as_component a = x \<longrightarrow> as_trust a \<noteq> SYSTEM \<Longrightarrow> map_of (assign_all as d) x = map_of d x"
  unfolding assign_all_def by (induction as arbitrary: d) (auto simp: assign_trust_def)

lemma assign_all_Some:
  "map_of (assign_all as d) x = Some l \<Longrightarrow> map_of d x = Some l \<or> (\<exists>a \<in> set as. as_component a = x \<and> as_level a = l \<and> as_trust a = SYSTEM)"
proof (induction as arbitrary: d)
  case (Cons a as)
  let ?d = "snd (assign_trust (as_component a) (as_level a) (as_actor a) (as_trust a) d)"
  have "map_of (assign_all as ?d) x = Some l" using Cons.prems by (simp add: assign_all_def)
  from Cons.IH [OF this] show ?case by (auto simp: assign_trust_def split: if_splits)
qed (simp add: assign_all_def)

text \<open>
  No component raises itself. Starting from no assignments, a component passes a check for more
  than the lowest tier only when an actor of the system tier gave it a tier at least as high as the
  one required; assignments by any other actor change nothing.
\<close>

theorem trust_is_assigned:
  assumes "require_trust x minimum (assign_all as []) = Inr ()" and "minimum \<noteq> UNTRUSTED"
  shows "(\<exists>a \<in> set as. as_component a = x \<and> minimum \<le> as_level a \<and> as_trust a = SYSTEM)
    \<and> assign_all (filter (\<lambda>a. as_trust a = SYSTEM) as) d = assign_all as d"
proof
  have "UNTRUSTED \<le> l" "l \<le> UNTRUSTED \<longleftrightarrow> l = UNTRUSTED" for l by (cases l; simp add: less_eq_trust_level_def)+
  with assms obtain l where "map_of (assign_all as []) x = Some l" "minimum \<le> l"
    by (auto simp: require_trust_def meets_def level_of_def split: if_splits option.splits)
  with assign_all_Some [of as "[]" x l] show "\<exists>a \<in> set as. as_component a = x \<and> minimum \<le> as_level a \<and> as_trust a = SYSTEM"
    by auto
  show "assign_all (filter (\<lambda>a. as_trust a = SYSTEM) as) d = assign_all as d"
    unfolding assign_all_def by (induction as arbitrary: d) (auto simp: assign_trust_def)
qed

lemma trust_is_assigned_witness:
  "\<exists>a \<in> set [\<lparr>as_component = ''c'', as_level = SYSTEM, as_actor = ''c'', as_trust = LIMITED\<rparr>,
      \<lparr>as_component = ''c'', as_level = TRUSTED, as_actor = ''root'', as_trust = SYSTEM\<rparr>].
     as_component a = ''c'' \<and> LIMITED \<le> as_level a \<and> as_trust a = SYSTEM"
proof -
  have "require_trust ''c'' LIMITED (assign_all [\<lparr>as_component = ''c'', as_level = SYSTEM, as_actor = ''c'', as_trust = LIMITED\<rparr>,
      \<lparr>as_component = ''c'', as_level = TRUSTED, as_actor = ''root'', as_trust = SYSTEM\<rparr>] []) = Inr ()"
    by code_simp
  from trust_is_assigned [OF this] show ?thesis by simp
qed

lemma dangerous_iff: "is_dangerous ca \<longleftrightarrow> capability_risk ca \<in> {''HIGH'', ''CRITICAL''}"
  by (auto simp: is_dangerous_def dangerous_capabilities_def capability_risk_def capability_risks_def)

end
