(* ===== verification/Models.thy ===== *)
theory Models
  imports DataPolicy Effects "HOL-Library.Product_Lexorder"
begin

text \<open>
  Model providers and the router over them (\<^verbatim>\<open>intelligence/models/providers.py\<close>,
  \<^verbatim>\<open>intelligence/router/router.py\<close>): which provider may see a request, in which order providers are
  tried, and how an object is read from a model's answer. What a provider answers, what
  \<open>json.loads\<close> accepts and how a model class validates are parameters; so are the truth of
  attributes of a capability object other than its fields, and the text of the requirements.
\<close>

subsection \<open>Requests and answers\<close>

record model_caps =
  mc_tool_calling :: bool
  mc_structured :: bool
  mc_reasoning :: bool
  mc_vision :: bool
  mc_streaming :: bool
  mc_parallel :: bool
  mc_context :: int

record model_tool =
  mt_name :: string
  mt_description :: string
  mt_parameters :: "(string \<times> json) list"

record model_tool_call =
  tc_call_id :: string
  tc_call_name :: string
  tc_call_arguments :: "(string \<times> json) list"

record model_request =
  mq_prompt :: string
  mq_system :: string
  mq_timeout :: real
  mq_max_tokens :: int
  mq_tools :: "model_tool list"
  mq_tool_choice :: json

record model_response =
  ma_text :: string
  ma_structured :: "(string \<times> json) list"
  ma_tool_calls :: "model_tool_call list"
  ma_input_tokens :: int
  ma_output_tokens :: int
  ma_model :: string
  ma_latency :: real
  ma_finish :: string

record 's model_provider =
  mp_id :: string
  mp_caps :: model_caps
  mp_complete :: "model_request \<Rightarrow> ('s, model_response) eff"

fun is_model_error :: "exn \<Rightarrow> bool" where
  "is_model_error (ModelError _) = True"
| "is_model_error _ = False"

text \<open>\<open>ModelProvider.stream\<close> and \<open>MockModelProvider.stream\<close>, as the list of what they yield.\<close>

definition no_streaming :: "string \<Rightarrow> exn" where
  "no_streaming i = ModelError (''provider '' @ repr_str i @ '' does not support streaming'')"

definition model_stream :: "'s model_provider \<Rightarrow> model_request \<Rightarrow> ('s, string list) eff" where
  "model_stream p q =
     (if \<not> mc_streaming (mp_caps p) then eff_raise (no_streaming (mp_id p))
      else eff_bind (mp_complete p q) (\<lambda>a. eff_return [ma_text a]))"

function chunks_of :: "nat \<Rightarrow> string \<Rightarrow> string list" where
  "chunks_of n s = (if s = [] \<or> n = 0 then [] else take n s # chunks_of n (drop n s))"
  by pat_completeness auto
termination by (relation "measure (length \<circ> snd)") auto

declare chunks_of.simps [simp del]

text \<open>The mock: its state is the list of the requests it got; the handler answers or raises.\<close>

definition mock_complete ::
  "string \<Rightarrow> (model_request \<Rightarrow> model_response result) \<Rightarrow> real \<Rightarrow> model_request
     \<Rightarrow> (model_request list, model_response) eff" where
  "mock_complete i handler elapsed q calls =
     (case handler q of
        Inl e \<Rightarrow> (Inl e, calls @ [q])
      | Inr a \<Rightarrow> (Inr (a\<lparr>ma_latency := elapsed, ma_model := (if ma_model a = [] then i else ma_model a)\<rparr>), calls @ [q]))"

definition mock_stream :: "model_request list model_provider \<Rightarrow> model_request \<Rightarrow> (model_request list, string list) eff" where
  "mock_stream p q =
     (if \<not> mc_streaming (mp_caps p) then eff_raise (no_streaming (mp_id p))
      else eff_bind (mp_complete p q) (\<lambda>a. eff_return (chunks_of 8 (ma_text a))))"

lemma concat_chunks_of: "0 < n \<Longrightarrow> concat (chunks_of n s) = s"
proof (induction n s rule: chunks_of.induct)
  case (1 n s)
  then show ?case by (subst chunks_of.simps) auto
qed

lemma mock_stream_text:
  "mock_stream p q s = (Inr ys, s') \<Longrightarrow> \<exists>a. mp_complete p q s = (Inr a, s') \<and> concat ys = ma_text a"
  by (auto simp: mock_stream_def eff_bind_Inr concat_chunks_of split: if_splits)

subsection \<open>An object in a model's answer\<close>

text \<open>
  \<open>re.search(r"```(?:json)?\s*(\{.*?\})\s*```", s, re.S)\<close>: at the first position where a fence
  opens before an object, the shortest text up to a brace before a closing fence.
\<close>

definition fence :: string where
  "fence = ''```''"

fun fence_body :: "string \<Rightarrow> string option" where
  "fence_body [] = None"
| "fence_body (c # cs) =
     (if c = CHR 0x7D \<and> prefix fence (dropWhile is_space_char cs) then Some [c]
      else map_option (Cons c) (fence_body cs))"

definition fence_at :: "string \<Rightarrow> string option" where
  "fence_at s =
     (if \<not> prefix fence s then None
      else let r = drop 3 s;
               r' = dropWhile is_space_char (if prefix ''json'' r then drop 4 r else r)
           in case r' of
                [] \<Rightarrow> None
              | c # cs \<Rightarrow> if c = CHR 0x7B then map_option (Cons c) (fence_body cs) else None)"

fun find_fence :: "string \<Rightarrow> string option" where
  "find_fence [] = None"
| "find_fence (c # cs) = (case fence_at (c # cs) of Some b \<Rightarrow> Some b | None \<Rightarrow> find_fence cs)"

text \<open>The scan for the brace that closes the first one; braces inside strings do not count.\<close>

fun brace_block :: "int \<Rightarrow> bool \<Rightarrow> bool \<Rightarrow> string \<Rightarrow> string option" where
  "brace_block depth in_string escaped [] = None"
| "brace_block depth in_string escaped (c # cs) =
     (if in_string then
        (if escaped then map_option (Cons c) (brace_block depth True False cs)
         else if c = CHR 0x5C then map_option (Cons c) (brace_block depth True True cs)
         else if c = CHR 0x22 then map_option (Cons c) (brace_block depth False escaped cs)
         else map_option (Cons c) (brace_block depth True escaped cs))
      else if c = CHR 0x22 then map_option (Cons c) (brace_block depth True escaped cs)
      else if c = CHR 0x7B then map_option (Cons c) (brace_block (depth + 1) False escaped cs)
      else if c = CHR 0x7D then
        (if depth - 1 = 0 then Some [c] else map_option (Cons c) (brace_block (depth - 1) False escaped cs))
      else map_option (Cons c) (brace_block depth False escaped cs))"

definition extract_json_block :: "(string \<Rightarrow> bool) \<Rightarrow> string \<Rightarrow> string" where
  "extract_json_block loads s =
     (let t = strip_str s in
      if loads t then t
      else case find_fence t of
        Some b \<Rightarrow> b
      | None \<Rightarrow>
          (case dropWhile (\<lambda>c. c \<noteq> CHR 0x7B) t of
             [] \<Rightarrow> t
           | u \<Rightarrow> (case brace_block 0 False False u of Some b \<Rightarrow> b | None \<Rightarrow> t)))"

subsection \<open>What the scan finds\<close>

text \<open>\<open>float.__repr__\<close> holds neither quotes nor braces.\<close>

definition plain_char :: "char \<Rightarrow> bool" where
  "plain_char c \<longleftrightarrow> c \<notin> {CHR 0x22, CHR 0x7B, CHR 0x7D}"

fun plain_floats :: "json \<Rightarrow> bool" where
  "plain_floats (JFloat t) = list_all plain_char t"
| "plain_floats (JList xs) = (\<forall>x \<in> set xs. plain_floats x)"
| "plain_floats (JObj ms) = (\<forall>m \<in> set ms. plain_floats (snd m))"
| "plain_floats v = True"

lemma append_fun: "append [] = (\<lambda>x. x)" "append (c # s) = (\<lambda>x. c # s @ x)" "append (s @ t) = (\<lambda>x. s @ t @ x)"
  by (simp_all add: fun_eq_iff)

lemmas block_simps = append_fun option.map_comp comp_def option.map_ident

lemma brace_plain:
  "list_all plain_char t \<Longrightarrow> brace_block d False False (t @ r) = map_option (append t) (brace_block d False False r)"
  by (induction t) (auto simp: plain_char_def block_simps)

lemma hex_digit_char: "n < 16 \<Longrightarrow> hex_digit n \<noteq> CHR 0x22 \<and> hex_digit n \<noteq> CHR 0x5C"
proof -
  assume "n < 16"
  then have "(of_char (hex_digit n) :: nat) \<in> {48..57} \<union> {97..102}"
    by (auto simp: hex_digit_def of_char_of)
  then show ?thesis by auto
qed

lemma brace_escape:
  "brace_block d True False (escape_char c @ r) = map_option (append (escape_char c)) (brace_block d True False r)"
proof -
  let ?n = "of_char c :: nat"
  have h: "hex_digit (?n div 16) \<noteq> CHR 0x22 \<and> hex_digit (?n div 16) \<noteq> CHR 0x5C"
    "hex_digit (?n mod 16) \<noteq> CHR 0x22 \<and> hex_digit (?n mod 16) \<noteq> CHR 0x5C"
    by (rule hex_digit_char; simp add: less_mult_imp_div_less)+
  have q: "c \<noteq> CHR 0x22" "c \<noteq> CHR 0x5C" if "?n \<noteq> 34" "?n \<noteq> 92" using that by auto
  show ?thesis
    using h q by (auto simp: escape_char_def hex2_def Let_def block_simps)
qed

lemma brace_string:
  "brace_block d False False (dump_str s @ r) = map_option (append (dump_str s)) (brace_block d False False r)"
proof -
  have "brace_block d True False (concat (map escape_char s) @ CHR 0x22 # r)
    = map_option (append (concat (map escape_char s) @ [CHR 0x22])) (brace_block d False False r)" for s
    by (induction s) (simp_all add: brace_escape block_simps)
  then show ?thesis by (simp add: dump_str_def block_simps)
qed

lemma int_text_plain: "list_all plain_char (int_text i)"
  using int_text_chars [of _ i] number_char_not by (fastforce simp: list_all_iff plain_char_def delimiter_def)

lemma brace_dump:
  "0 < d \<Longrightarrow> plain_floats v
     \<Longrightarrow> brace_block d False False (dump v @ r) = map_option (append (dump v)) (brace_block d False False r)"
  "0 < d \<Longrightarrow> (\<forall>x \<in> set xs. plain_floats x)
     \<Longrightarrow> brace_block d False False (dump_items xs @ r) = map_option (append (dump_items xs)) (brace_block d False False r)"
  "0 < d \<Longrightarrow> (\<forall>m \<in> set ms. plain_floats (snd m))
     \<Longrightarrow> brace_block d False False (dump_members ms @ r) =
        (if d = 1 then Some (dump_members ms)
         else map_option (append (dump_members ms)) (brace_block (d - 1) False False r))"
proof (induction v and xs and ms arbitrary: d r and d r and d r rule: dump_dump_items_dump_members.induct)
  case (3 i)
  show ?case using brace_plain [OF int_text_plain] by simp
next
  case (4 t)
  then show ?case by (simp add: brace_plain)
next
  case (7 ms)
  then show ?case by (cases "d + 1 = 1") (auto simp: block_simps)
next
  case (9 x xs)
  then show ?case by (auto simp: block_simps)
next
  case (11 k x ms)
  then show ?case by (cases "ms = []") (auto simp: brace_string block_simps)
qed (auto simp: brace_string block_simps)

lemma find_fence_None: "\<not> str_in fence s \<Longrightarrow> find_fence s = None"
  by (induction s) (auto simp: fence_at_def fence_def)

lemma strip_str_split: "\<exists>a b. s = a @ strip_str s @ b"
proof -
  obtain a where a: "s = a @ dropWhile is_space_char s" by (metis takeWhile_dropWhile_id)
  let ?u = "dropWhile is_space_char s"
  obtain b where "rev ?u = b @ dropWhile is_space_char (rev ?u)" by (metis takeWhile_dropWhile_id)
  then have "?u = strip_str s @ rev b" unfolding strip_str_def by (metis rev_append rev_rev_ident)
  with a show ?thesis by metis
qed

lemma strip_str_around:
  assumes "x \<noteq> []" "\<not> is_space_char (hd x)" "\<not> is_space_char (last x)"
  shows "strip_str (a @ x @ b) = dropWhile is_space_char a @ x @ rev (dropWhile is_space_char (rev b))"
proof -
  have l: "dropWhile is_space_char (a @ x @ b) = dropWhile is_space_char a @ x @ b"
    using assms(1,2) by (cases x) (auto simp: dropWhile_append dropWhile_append3)
  have r: "dropWhile is_space_char (rev b @ rev x @ c) = dropWhile is_space_char (rev b) @ rev x @ c" for c
    using assms(1,3) by (cases x rule: rev_cases) (auto simp: dropWhile_append dropWhile_append3)
  show ?thesis by (simp add: strip_str_def l r)
qed

lemma dump_object_ends: "dump (JObj ms) \<noteq> []" "hd (dump (JObj ms)) = CHR 0x7B" "last (dump (JObj ms)) = CHR 0x7D"
proof -
  have "dump_members ms \<noteq> [] \<and> last (dump_members ms) = CHR 0x7D" by (induction ms) auto
  then show "last (dump (JObj ms)) = CHR 0x7D" by simp
qed simp_all

text \<open>
  C31: an object inside prose is read back exactly. Whatever text without an opening brace comes
  before an object written by \<open>json.dumps\<close>, and whatever comes after it, the block that is taken
  from the answer is the text of that object, whatever strings with braces, quotes and backslashes
  it holds, as long as the answer has no fence and is not JSON as a whole.
\<close>

theorem embedded_object_is_found:
  assumes "CHR 0x7B \<notin> set before" "\<not> str_in fence (before @ dump (JObj ms) @ after)" "plain_floats (JObj ms)"
    and "\<not> loads (strip_str (before @ dump (JObj ms) @ after))"
  shows "extract_json_block loads (before @ dump (JObj ms) @ after) = dump (JObj ms)"
proof -
  let ?x = "dump (JObj ms)" and ?s = "before @ dump (JObj ms) @ after"
  define a where "a = dropWhile is_space_char before"
  define b where "b = rev (dropWhile is_space_char (rev after))"
  have t: "strip_str ?s = a @ ?x @ b"
    unfolding a_def b_def by (rule strip_str_around) (use dump_object_ends [of ms] in \<open>auto simp: is_space_char_def\<close>)
  have "\<not> str_in fence (strip_str ?s)"
    using assms(2) strip_str_split [of ?s] str_in_append by metis
  then have f: "find_fence (strip_str ?s) = None" by (rule find_fence_None)
  have "CHR 0x7B \<notin> set a" using assms(1) by (auto simp: a_def dest: set_dropWhileD)
  then have d: "dropWhile (\<lambda>c. c \<noteq> CHR 0x7B) (a @ ?x @ b) = CHR 0x7B # dump_members ms @ b"
    by (subst dropWhile_append2) auto
  have "brace_block 1 False False (dump_members ms @ b) = Some (dump_members ms)"
    using brace_dump(3) [of 1 ms b] assms(3) by simp
  then have "brace_block 0 False False (CHR 0x7B # dump_members ms @ b) = Some ?x" by simp
  with f d t assms(4) show ?thesis by (simp add: extract_json_block_def Let_def)
qed

subsection \<open>Structured requests\<close>

record 'm model_class =
  cls_name :: string
  cls_validate :: "(string \<times> json) list \<Rightarrow> 'm result"
  cls_validate_text :: "string \<Rightarrow> 'm result"

definition marker :: string where
  "marker = ''UNDERSTAND:''"

text \<open>\<open>prompt.split(marker, 1)[1]\<close>, where the marker occurs.\<close>

fun after_marker :: "string \<Rightarrow> string" where
  "after_marker [] = []"
| "after_marker (c # cs) = (if prefix marker (c # cs) then drop (length marker) (c # cs) else after_marker cs)"

definition task_spec_fallback :: "model_request \<Rightarrow> 'm model_class \<Rightarrow> 'm option result" where
  "task_spec_fallback q m =
     (if cls_name m \<noteq> ''TaskSpec'' then Inr None
      else let goal = (if str_in marker (mq_prompt q) then strip_str (after_marker (mq_prompt q)) else strip_str (mq_prompt q))
           in if goal = [] then Inr None
              else map_sum id Some (cls_validate m
                [(''title'', JStr (take 120 goal)), (''constraints'', JList []), (''desired_outcome'', JStr goal),
                 (''needs_research'', JBool False)]))"

text \<open>\<open>except Exception as exc\<close>: \<open>err_text\<close> is the text of the exception.\<close>

definition read_answer ::
  "(string \<Rightarrow> bool) \<Rightarrow> (exn \<Rightarrow> string) \<Rightarrow> string \<Rightarrow> model_request \<Rightarrow> 'm model_class \<Rightarrow> model_response \<Rightarrow> 'm result" where
  "read_answer loads err_text i q m a =
     (case (if ma_structured a \<noteq> [] then cls_validate m (ma_structured a)
            else cls_validate_text m (extract_json_block loads (ma_text a))) of
        Inr x \<Rightarrow> Inr x
      | Inl e \<Rightarrow>
          bind_result (task_spec_fallback q m) (\<lambda>fb. case fb of
            Some x \<Rightarrow> Inr x
          | None \<Rightarrow> Inl (ModelError (''provider '' @ repr_str i @ '' returned invalid output: '' @ err_text e))))"

definition request_structured ::
  "(string \<Rightarrow> bool) \<Rightarrow> (exn \<Rightarrow> string) \<Rightarrow> 'm model_class \<Rightarrow> 's model_provider \<Rightarrow> model_request \<Rightarrow> ('s, 'm) eff" where
  "request_structured loads err_text m p q =
     eff_bind (mp_complete p q) (\<lambda>a s. (read_answer loads err_text (mp_id p) q m a, s))"

subsection \<open>The router\<close>

record provider_profile =
  pf_id :: string
  pf_local :: bool
  pf_trusted :: bool
  pf_cost :: real
  pf_latency :: string
  pf_classes :: "data_class list"
  pf_retains :: bool
  pf_trains :: bool
  pf_region :: string

definition new_profile :: "string \<Rightarrow> provider_profile" where
  "new_profile i = \<lparr>pf_id = i, pf_local = False, pf_trusted = False, pf_cost = 0, pf_latency = ''standard'',
     pf_classes = [], pf_retains = True, pf_trains = True, pf_region = []\<rparr>"

record model_needs =
  mn_privacy :: string
  mn_class :: data_class
  mn_context :: int
  mn_capabilities :: "string list"
  mn_streaming :: bool

record 's model_router =
  mr_providers :: "(string \<times> 's model_provider) list"
  mr_profiles :: "(string \<times> provider_profile) list"

definition clear_models :: "'s model_router \<Rightarrow> 's model_router" where
  "clear_models r = \<lparr>mr_providers = [], mr_profiles = []\<rparr>"

definition register_model :: "'s model_provider \<Rightarrow> provider_profile \<Rightarrow> 's model_router \<Rightarrow> 's model_router" where
  "register_model p pf r =
     \<lparr>mr_providers = dict_set (mp_id p) p (mr_providers r),
      mr_profiles = dict_set (mp_id p) (pf\<lparr>pf_id := mp_id p\<rparr>) (mr_profiles r)\<rparr>"

definition privacy_allowed :: "provider_profile \<Rightarrow> model_needs \<Rightarrow> bool" where
  "privacy_allowed pf n =
     (let c = mn_class n in
      if c = SECRET then pf_local pf \<and> \<not> pf_trains pf
      else if mn_privacy n = ''local-only'' then pf_local pf
      else if c = SENSITIVE then pf_local pf \<or> (pf_trusted pf \<and> c \<in> set (pf_classes pf) \<and> \<not> pf_trains pf)
      else if c = PERSONAL then pf_local pf \<or> (pf_trusted pf \<and> c \<in> set (pf_classes pf))
      else \<not> (c \<notin> set (pf_classes pf) \<and> \<not> pf_local pf))"

text \<open>\<open>getattr(caps, name, False)\<close> as a truth value; \<open>other\<close> is that of any other attribute.\<close>

definition cap_attr :: "(string \<Rightarrow> bool) \<Rightarrow> model_caps \<Rightarrow> string \<Rightarrow> bool" where
  "cap_attr other cs name =
     (if name = ''tool_calling'' then mc_tool_calling cs
      else if name = ''structured_output'' then mc_structured cs
      else if name = ''reasoning'' then mc_reasoning cs
      else if name = ''vision'' then mc_vision cs
      else if name = ''streaming'' then mc_streaming cs
      else if name = ''parallel_tool_calls'' then mc_parallel cs
      else if name = ''context_length'' then mc_context cs \<noteq> 0
      else other name)"

definition profile_of :: "'s model_router \<Rightarrow> string \<Rightarrow> provider_profile" where
  "profile_of r i = (case map_of (mr_profiles r) i of None \<Rightarrow> new_profile i | Some pf \<Rightarrow> pf)"

definition model_fits :: "(string \<Rightarrow> bool) \<Rightarrow> model_needs \<Rightarrow> provider_profile \<Rightarrow> model_caps \<Rightarrow> bool" where
  "model_fits other n pf cs \<longleftrightarrow>
     privacy_allowed pf n \<and> \<not> mc_context cs < mn_context n \<and> \<not> (mn_streaming n \<and> \<not> mc_streaming cs)
     \<and> \<not> list_ex (\<lambda>name. \<not> cap_attr other cs name) (mn_capabilities n)"

definition model_speed :: "string \<Rightarrow> nat" where
  "model_speed l = (if l = ''fast'' then 0 else if l = ''standard'' then 1 else if l = ''slow'' then 2 else 1)"

definition model_rank :: "'s model_router \<Rightarrow> string \<times> 's model_provider \<Rightarrow> real \<times> nat \<times> string" where
  "model_rank r x = (pf_cost (profile_of r (fst x)), model_speed (pf_latency (profile_of r (fst x))), fst x)"

definition model_candidates :: "(string \<Rightarrow> bool) \<Rightarrow> model_needs \<Rightarrow> 's model_router \<Rightarrow> 's model_provider list" where
  "model_candidates other n r =
     map snd (sort_key (model_rank r)
       (filter (\<lambda>x. model_fits other n (profile_of r (fst x)) (mp_caps (snd x))) (mr_providers r)))"

definition no_model :: "(model_needs \<Rightarrow> string) \<Rightarrow> model_needs \<Rightarrow> exn" where
  "no_model describe n = ModelError (''no provider satisfies '' @ describe n)"

definition select_model :: "(string \<Rightarrow> bool) \<Rightarrow> (model_needs \<Rightarrow> string) \<Rightarrow> model_needs \<Rightarrow> 's model_router \<Rightarrow> 's model_provider result" where
  "select_model other describe n r =
     (case model_candidates other n r of [] \<Rightarrow> Inl (no_model describe n) | p # ps \<Rightarrow> Inr p)"

text \<open>The failover loop of \<open>complete\<close> and \<open>request_structured\<close>; \<open>last_error\<close> is \<open>None\<close> at the start.\<close>

fun try_models :: "('p \<Rightarrow> ('s, 'a) eff) \<Rightarrow> 'p list \<Rightarrow> exn option \<Rightarrow> ('s, 'a) eff" where
  "try_models f [] last_error = eff_raise (case last_error of None \<Rightarrow> OtherException ''AssertionError'' | Some e \<Rightarrow> e)"
| "try_models f (p # ps) last_error =
     eff_try (f p) (\<lambda>e. if is_model_error e then Some (try_models f ps (Some e)) else None)"

definition route_models ::
  "(string \<Rightarrow> bool) \<Rightarrow> (model_needs \<Rightarrow> string) \<Rightarrow> model_needs \<Rightarrow> ('s model_provider \<Rightarrow> ('s, 'a) eff) \<Rightarrow> 's model_router \<Rightarrow> ('s, 'a) eff" where
  "route_models other describe n f r =
     (let options = model_candidates other n r in
      if options = [] then eff_raise (no_model describe n) else try_models f options None)"

definition router_complete ::
  "(string \<Rightarrow> bool) \<Rightarrow> (model_needs \<Rightarrow> string) \<Rightarrow> model_needs \<Rightarrow> model_request \<Rightarrow> 's model_router \<Rightarrow> ('s, model_response) eff" where
  "router_complete other describe n q = route_models other describe n (\<lambda>p. mp_complete p q)"

definition router_structured ::
  "(string \<Rightarrow> bool) \<Rightarrow> (model_needs \<Rightarrow> string) \<Rightarrow> (string \<Rightarrow> bool) \<Rightarrow> (exn \<Rightarrow> string) \<Rightarrow> model_needs \<Rightarrow> model_request
     \<Rightarrow> 'm model_class \<Rightarrow> 's model_router \<Rightarrow> ('s, 'm) eff" where
  "router_structured other describe loads err_text n q m =
     route_models other describe n (\<lambda>p. request_structured loads err_text m p q)"

subsection \<open>Who sees a request\<close>

lemma model_candidates_set:
  "p \<in> set (model_candidates other n r) \<longleftrightarrow>
     (\<exists>i. (i, p) \<in> set (mr_providers r) \<and> model_fits other n (profile_of r i) (mp_caps p))"
  by (auto simp: model_candidates_def image_iff)

text \<open>Replacing what providers answer, by their place in the table.\<close>

definition with_answers :: "(string \<Rightarrow> model_request \<Rightarrow> ('s, model_response) eff) \<Rightarrow> 's model_router \<Rightarrow> 's model_router" where
  "with_answers g r = r\<lparr>mr_providers := map (\<lambda>(i, p). (i, p\<lparr>mp_complete := g i\<rparr>)) (mr_providers r)\<rparr>"

lemma profile_of_with_answers [simp]: "profile_of (with_answers g r) i = profile_of r i"
  by (simp add: profile_of_def with_answers_def)

lemma sort_key_map: "sort_key k (map h xs) = map h (sort_key (k \<circ> h) xs)"
proof -
  have "insort_key k (h x) (map h ys) = map h (insort_key (k \<circ> h) x ys)" for x ys
    by (induction ys) auto
  then show ?thesis by (induction xs) auto
qed

lemma model_candidates_with_answers:
  fixes r :: "'s model_router"
  shows "\<exists>xs. model_candidates other n (with_answers g r) = map (\<lambda>x. (snd x)\<lparr>mp_complete := g (fst x)\<rparr>) xs
     \<and> model_candidates other n r = map snd xs
     \<and> (\<forall>x \<in> set xs. x \<in> set (mr_providers r) \<and> model_fits other n (profile_of r (fst x)) (mp_caps (snd x)))"
proof (intro exI conjI)
  let ?h = "\<lambda>(i, p). (i, p\<lparr>mp_complete := g i\<rparr>)"
  let ?xs = "sort_key (model_rank r)
    (filter (\<lambda>x. model_fits other n (profile_of r (fst x)) (mp_caps (snd x))) (mr_providers r))"
  have rank: "model_rank (with_answers g r) \<circ> ?h = model_rank r"
    by (auto simp: model_rank_def fun_eq_iff)
  have "filter (\<lambda>x. model_fits other n (profile_of r (fst x)) (mp_caps (snd x))) (map ?h ys)
    = map ?h (filter (\<lambda>x. model_fits other n (profile_of r (fst x)) (mp_caps (snd x))) ys)"
    for ys :: "(string \<times> 's model_provider) list" by (induction ys) auto
  moreover have "mr_providers (with_answers g r) = map ?h (mr_providers r)" by (simp add: with_answers_def)
  ultimately have "model_candidates other n (with_answers g r) = map snd (map ?h ?xs)"
    by (simp only: model_candidates_def profile_of_with_answers sort_key_map rank)
  then show "model_candidates other n (with_answers g r) = map (\<lambda>x. (snd x)\<lparr>mp_complete := g (fst x)\<rparr>) ?xs"
    by (simp add: case_prod_unfold comp_def)
  show "model_candidates other n r = map snd ?xs" by (simp add: model_candidates_def)
  show "\<forall>x \<in> set ?xs. x \<in> set (mr_providers r) \<and> model_fits other n (profile_of r (fst x)) (mp_caps (snd x))"
    by simp
qed

text \<open>
  C18: a provider that the privacy rules exclude sees nothing of a request, also when others fail.
  Whatever such a provider would answer, raise or do to its state, both entry points of the router
  return the same result and leave the same state. For secret data the providers that may be asked
  are local and do not train on what they get; for a request marked local-only they are local; for
  sensitive data they are local or both trusted for the class and not training.
\<close>

theorem excluded_models_see_nothing:
  assumes same: "\<And>i p. (i, p) \<in> set (mr_providers r) \<Longrightarrow> privacy_allowed (profile_of r i) n \<Longrightarrow> g i = mp_complete p"
  shows "router_complete other describe n q (with_answers g r) s = router_complete other describe n q r s
    \<and> router_structured other describe loads err_text n q m (with_answers g r) s
        = router_structured other describe loads err_text n q m r s
    \<and> (mn_class n = SECRET \<longrightarrow> (privacy_allowed pf n \<longleftrightarrow> pf_local pf \<and> \<not> pf_trains pf))
    \<and> (mn_privacy n = ''local-only'' \<longrightarrow> privacy_allowed pf n \<longrightarrow> pf_local pf)
    \<and> (mn_class n = SENSITIVE \<longrightarrow> privacy_allowed pf n
        \<longrightarrow> pf_local pf \<or> (pf_trusted pf \<and> SENSITIVE \<in> set (pf_classes pf) \<and> \<not> pf_trains pf))"
proof -
  obtain xs where xs: "model_candidates other n (with_answers g r) = map (\<lambda>x. (snd x)\<lparr>mp_complete := g (fst x)\<rparr>) xs"
      "model_candidates other n r = map snd xs"
    and fits: "\<forall>x \<in> set xs. x \<in> set (mr_providers r) \<and> model_fits other n (profile_of r (fst x)) (mp_caps (snd x))"
    using model_candidates_with_answers [of other n g r] by blast
  have "(snd x)\<lparr>mp_complete := g (fst x)\<rparr> = snd x" if "x \<in> set xs" for x
  proof -
    from fits that have "x \<in> set (mr_providers r)" "model_fits other n (profile_of r (fst x)) (mp_caps (snd x))" by auto
    then have "g (fst x) = mp_complete (snd x)" using same [of "fst x" "snd x"] by (simp add: model_fits_def)
    then show ?thesis by simp
  qed
  then have "model_candidates other n (with_answers g r) = model_candidates other n r"
    unfolding xs by simp
  then show ?thesis
    by (auto simp: router_complete_def router_structured_def route_models_def privacy_allowed_def Let_def split: if_splits)
qed

subsection \<open>Failover\<close>

text \<open>The state after every provider of a list has failed with a model error.\<close>

fun passed_over :: "('p \<Rightarrow> ('s, 'a) eff) \<Rightarrow> 'p list \<Rightarrow> 's \<Rightarrow> 's option" where
  "passed_over f [] s = Some s"
| "passed_over f (p # ps) s =
     (case f p s of (Inl e, s') \<Rightarrow> if is_model_error e then passed_over f ps s' else None | _ \<Rightarrow> None)"

text \<open>The provider that settles a request: the first that is not passed over, or the last of all.\<close>

definition settled_by :: "('p \<Rightarrow> ('s, 'a) eff) \<Rightarrow> 'p list \<Rightarrow> 's \<Rightarrow> 'a result \<Rightarrow> 's \<Rightarrow> bool" where
  "settled_by f ps s x s' \<longleftrightarrow> (\<exists>before p after s1. ps = before @ p # after \<and> passed_over f before s = Some s1
     \<and> f p s1 = (x, s') \<and> (case x of Inr _ \<Rightarrow> True | Inl e \<Rightarrow> after = [] \<or> \<not> is_model_error e))"

lemma settled_by_Cons:
  "settled_by f (p # ps) s x s' \<longleftrightarrow>
     (f p s = (x, s') \<and> (case x of Inr _ \<Rightarrow> True | Inl e \<Rightarrow> ps = [] \<or> \<not> is_model_error e))
     \<or> (\<exists>e s1. f p s = (Inl e, s1) \<and> is_model_error e \<and> settled_by f ps s1 x s')"
  (is "?l \<longleftrightarrow> ?now \<or> ?later")
proof
  assume ?l
  then obtain before q after s1 where b: "p # ps = before @ q # after" "passed_over f before s = Some s1"
    "f q s1 = (x, s')" "case x of Inr _ \<Rightarrow> True | Inl e \<Rightarrow> after = [] \<or> \<not> is_model_error e"
    unfolding settled_by_def by blast
  show "?now \<or> ?later"
  proof (cases before)
    case Nil
    with b have ?now by auto
    then show ?thesis ..
  next
    case (Cons c cs)
    with b obtain e s2 where "f p s = (Inl e, s2)" "is_model_error e" "passed_over f cs s2 = Some s1"
      by (auto split: prod.splits sum.splits if_splits)
    with b Cons show ?thesis unfolding settled_by_def by auto
  qed
next
  assume "?now \<or> ?later"
  then show ?l
  proof
    assume ?now
    then show ?l unfolding settled_by_def
      by (intro exI [of _ "[]"] exI [of _ p] exI [of _ ps] exI [of _ s]) simp
  next
    assume ?later
    then obtain e s2 before q after s1 where "f p s = (Inl e, s2)" "is_model_error e" "ps = before @ q # after"
      "passed_over f before s2 = Some s1" "f q s1 = (x, s')"
      "case x of Inr _ \<Rightarrow> True | Inl e \<Rightarrow> after = [] \<or> \<not> is_model_error e"
      unfolding settled_by_def by blast
    then show ?l unfolding settled_by_def
      by (intro exI [of _ "p # before"] exI [of _ q] exI [of _ after] exI [of _ s1]) simp
  qed
qed

lemma settled_by_Nil [simp]: "\<not> settled_by f [] s x s'"
  by (simp add: settled_by_def)

lemma try_models_settled: "ps \<noteq> [] \<Longrightarrow> try_models f ps e s = (x, s') \<longleftrightarrow> settled_by f ps s x s'"
proof (induction ps arbitrary: e s)
  case (Cons p ps)
  show ?case
  proof (cases "f p s")
    case (Pair y s1)
    show ?thesis
    proof (cases y)
      case (Inr a)
      with Pair show ?thesis by (auto simp: eff_try_def settled_by_Cons)
    next
      case (Inl d)
      show ?thesis
      proof (cases "is_model_error d \<and> ps \<noteq> []")
        case True
        with Cons.IH [of "Some d" s1] Pair Inl show ?thesis by (auto simp: eff_try_def settled_by_Cons split: sum.splits)
      next
        case False
        with Pair Inl show ?thesis by (auto simp: eff_try_def settled_by_Cons split: sum.splits)
      qed
    qed
  qed
qed simp

text \<open>
  failover is exact. The providers that fit are tried in the order of cost, speed class and
  identifier; a provider that fails with a model error is passed over, and the request ends with
  the first answer, the first other exception, or the model error of the last provider. Without a
  fitting provider it is refused and nobody is asked.
\<close>

theorem failover_is_exact:
  "\<exists>xs. sorted (map (model_rank r) xs)
    \<and> set xs = {(i, p). (i, p) \<in> set (mr_providers r) \<and> model_fits other n (profile_of r i) (mp_caps p)}
    \<and> (router_complete other describe n q r s = (x, s') \<longleftrightarrow>
         (if xs = [] then x = Inl (no_model describe n) \<and> s' = s
          else settled_by (\<lambda>p. mp_complete p q) (map snd xs) s x s'))"
proof (intro exI conjI)
  let ?xs = "sort_key (model_rank r)
    (filter (\<lambda>x. model_fits other n (profile_of r (fst x)) (mp_caps (snd x))) (mr_providers r))"
  show "sorted (map (model_rank r) ?xs)" by simp
  show "set ?xs = {(i, p). (i, p) \<in> set (mr_providers r) \<and> model_fits other n (profile_of r i) (mp_caps p)}" by auto
  have c: "model_candidates other n r = map snd ?xs" by (simp add: model_candidates_def)
  show "router_complete other describe n q r s = (x, s') \<longleftrightarrow>
         (if ?xs = [] then x = Inl (no_model describe n) \<and> s' = s
          else settled_by (\<lambda>p. mp_complete p q) (map snd ?xs) s x s')"
  proof (cases "?xs = []")
    case True
    then show ?thesis unfolding router_complete_def route_models_def c by auto
  next
    case False
    then show ?thesis using try_models_settled [of "map snd ?xs" "\<lambda>p. mp_complete p q" None s x s']
      unfolding router_complete_def route_models_def c by simp
  qed
qed

subsection \<open>Examples\<close>

definition demo_caps :: model_caps where
  "demo_caps = \<lparr>mc_tool_calling = False, mc_structured = True, mc_reasoning = False, mc_vision = False,
     mc_streaming = False, mc_parallel = False, mc_context = 4096\<rparr>"

definition demo_answer :: model_response where
  "demo_answer = \<lparr>ma_text = ''hi'', ma_structured = [], ma_tool_calls = [], ma_input_tokens = 0, ma_output_tokens = 0,
     ma_model = [], ma_latency = 0, ma_finish = ''stop''\<rparr>"

definition demo_model :: "string \<Rightarrow> model_response result \<Rightarrow> model_request list model_provider" where
  "demo_model i a = \<lparr>mp_id = i, mp_caps = demo_caps, mp_complete = mock_complete i (\<lambda>_. a) 1\<rparr>"

text \<open>A remote provider that is cheaper than the local one, and that fails.\<close>

definition demo_models :: "model_request list model_router" where
  "demo_models =
     register_model (demo_model ''home'' (Inr demo_answer)) ((new_profile ''home'')\<lparr>pf_local := True, pf_trains := False, pf_cost := 2\<rparr>)
       (register_model (demo_model ''remote'' (Inl (ModelError ''down''))) ((new_profile ''remote'')\<lparr>pf_classes := [PUBLIC]\<rparr>)
         \<lparr>mr_providers = [], mr_profiles = []\<rparr>)"

definition demo_needs :: "data_class \<Rightarrow> model_needs" where
  "demo_needs c = \<lparr>mn_privacy = ''any'', mn_class = c, mn_context = 0, mn_capabilities = [''structured_output''], mn_streaming = False\<rparr>"

definition demo_query :: model_request where
  "demo_query = \<lparr>mq_prompt = ''hello'', mq_system = [], mq_timeout = 30, mq_max_tokens = 10, mq_tools = [], mq_tool_choice = JStr ''auto''\<rparr>"

text \<open>Public data goes to the cheap provider first and fails over; secret data goes to the local one only.\<close>

lemma demo_failover:
  "snd (router_complete (\<lambda>_. False) (\<lambda>_. []) (demo_needs PUBLIC) demo_query demo_models []) = [demo_query, demo_query]"
  "snd (router_complete (\<lambda>_. False) (\<lambda>_. []) (demo_needs SECRET) demo_query demo_models []) = [demo_query]"
  by code_simp+

definition prying :: "string \<Rightarrow> model_request \<Rightarrow> (model_request list, model_response) eff" where
  "prying i q = (if i = ''home'' then mock_complete i (\<lambda>_. Inr demo_answer) 1 q
     else eff_then (eff_modify (\<lambda>s. q # q # s)) (eff_return demo_answer))"

lemma excluded_models_see_nothing_witness:
  "router_complete (\<lambda>_. False) (\<lambda>_. []) (demo_needs SECRET) demo_query (with_answers prying demo_models) []
     = router_complete (\<lambda>_. False) (\<lambda>_. []) (demo_needs SECRET) demo_query demo_models []"
proof -
  have "prying i = mp_complete p"
    if "(i, p) \<in> set (mr_providers demo_models)" "privacy_allowed (profile_of demo_models i) (demo_needs SECRET)" for i p
    using that by (auto simp: demo_models_def register_model_def demo_model_def prying_def fun_eq_iff profile_of_def
        new_profile_def privacy_allowed_def demo_needs_def)
  from conjunct1 [OF excluded_models_see_nothing [OF this]] show ?thesis .
qed

definition tricky :: "(string \<times> json) list" where
  "tricky = [(''a}'', JStr ''say {'' ), (''b'', JList [JInt 1, JObj [(''c'', JStr [CHR 0x22, CHR ''}''])]])]"

lemma embedded_object_is_found_witness:
  "extract_json_block (\<lambda>_. False) (''Sure: '' @ dump (JObj tricky) @ '' as } asked'') = dump (JObj tricky)"
proof (rule embedded_object_is_found)
  show "\<not> str_in fence (''Sure: '' @ dump (JObj tricky) @ '' as } asked'')" by code_simp
  show "plain_floats (JObj tricky)" by (simp add: tricky_def)
qed simp_all

end
