(* ===== verification/Proactive.thy ===== *)
theory Proactive
  imports Learning
begin

text \<open>
  Proactive suggestions (\<^verbatim>\<open>agent/proactive.py\<close>): triggers become proposals behind quiet hours, a
  cooldown per trigger and subject and a cap per hour; approved proposals run through callables
  that are given with the call. The readings of the clock, new identifiers and what the callables
  do to the world are arguments. A returned proposal is the stored one; nobody else writes to it.
\<close>

subsection \<open>Data\<close>

datatype trigger_kind = TK_SCHEDULED | TK_SYSTEM_CONDITION | TK_TASK_COMPLETED | TK_RESOURCE_CONDITION
  | TK_REPEATED_PATTERN | TK_USER_EVENT

fun trigger_value :: "trigger_kind \<Rightarrow> string" where
  "trigger_value TK_SCHEDULED = ''SCHEDULED''"
| "trigger_value TK_SYSTEM_CONDITION = ''SYSTEM_CONDITION''"
| "trigger_value TK_TASK_COMPLETED = ''TASK_COMPLETED''"
| "trigger_value TK_RESOURCE_CONDITION = ''RESOURCE_CONDITION''"
| "trigger_value TK_REPEATED_PATTERN = ''REPEATED_PATTERN''"
| "trigger_value TK_USER_EVENT = ''USER_EVENT''"

definition trigger_kinds :: "trigger_kind list" where
  "trigger_kinds = [TK_SCHEDULED, TK_SYSTEM_CONDITION, TK_TASK_COMPLETED, TK_RESOURCE_CONDITION,
     TK_REPEATED_PATTERN, TK_USER_EVENT]"

datatype suggestion_state = SG_PROPOSED | SG_APPROVED | SG_REJECTED | SG_EXECUTED | SG_FAILED

record trigger = entity +
  tr_kind :: trigger_kind
  tr_subject :: string
  tr_summary :: string
  tr_cooldown :: real
  tr_enabled :: bool

record suggestion = entity +
  sg_trigger :: string
  sg_subject :: string
  sg_summary :: string
  sg_risk :: learning_risk
  sg_state :: suggestion_state

record proactive_cfg =
  pc_enabled :: bool
  pc_quiet_start :: int
  pc_quiet_end :: int
  pc_scope :: string
  pc_categories :: "string list"
  pc_max_per_hour :: int
  pc_require_approval :: bool
  pc_bus :: bool

record proactive =
  pv_triggers :: "(string \<times> trigger) list"
  pv_suggestions :: "(string \<times> suggestion) list"
  pv_last_fired :: "((string \<times> string) \<times> real) list"
  pv_times :: "real list"
  pv_events :: "event list"

definition new_proactive :: proactive where
  "new_proactive = \<lparr>pv_triggers = [], pv_suggestions = [], pv_last_fired = [], pv_times = [], pv_events = []\<rparr>"

definition proactive_emit :: "proactive_cfg \<Rightarrow> string \<Rightarrow> (string \<times> json) list \<Rightarrow> proactive \<Rightarrow> proactive" where
  "proactive_emit c ty pl s = (if pc_bus c then s\<lparr>pv_events := pv_events s @ [mk_event ty [] (JObj pl)]\<rparr> else s)"

subsection \<open>Triggers\<close>

definition add_trigger :: "trigger \<Rightarrow> proactive \<Rightarrow> proactive" where
  "add_trigger t s = s\<lparr>pv_triggers := dict_set (ent_id t) t (pv_triggers s)\<rparr>"

definition remove_trigger :: "string \<Rightarrow> proactive \<Rightarrow> bool \<times> proactive" where
  "remove_trigger i s = (map_of (pv_triggers s) i \<noteq> None, s\<lparr>pv_triggers := dict_del i (pv_triggers s)\<rparr>)"

text \<open>\<open>time.gmtime(t).tm_hour\<close>.\<close>

definition utc_hour :: "real \<Rightarrow> int" where
  "utc_hour t = \<lfloor>t / 3600\<rfloor> mod 24"

definition quiet_at :: "proactive_cfg \<Rightarrow> real \<Rightarrow> bool" where
  "quiet_at c t =
     (let hour = utc_hour t; start = pc_quiet_start c; stop = pc_quiet_end c in
      if start = stop then False
      else if start < stop then start \<le> hour \<and> hour < stop
      else hour \<ge> start \<or> hour < stop)"

definition last_fired :: "string \<times> string \<Rightarrow> proactive \<Rightarrow> real" where
  "last_fired k s = (case map_of (pv_last_fired s) k of None \<Rightarrow> 0 | Some t \<Rightarrow> t)"

text \<open>\<open>made\<close> is the stamp of the new entity, \<open>quiet\<close> and \<open>now\<close> the two readings of the clock.\<close>

definition evaluate_trigger ::
  "proactive_cfg \<Rightarrow> string \<Rightarrow> real \<Rightarrow> real \<Rightarrow> real \<Rightarrow> string \<Rightarrow> string \<Rightarrow> learning_risk \<Rightarrow> string \<Rightarrow> proactive
     \<Rightarrow> suggestion option \<times> proactive" where
  "evaluate_trigger c i made quiet now tid subject risk summary s =
     (case map_of (pv_triggers s) tid of
        None \<Rightarrow> (None, s)
      | Some t \<Rightarrow>
          if \<not> pc_enabled c \<or> \<not> tr_enabled t then (None, s)
          else if trigger_value (tr_kind t)
              \<notin> set (if pc_categories c \<noteq> [] then pc_categories c else map trigger_value trigger_kinds) then (None, s)
          else if quiet_at c quiet then (None, s)
          else if now - last_fired (tid, subject) s < tr_cooldown t then (None, s)
          else
            let recent = filter (\<lambda>u. now - u < 3600) (pv_times s);
                s1 = s\<lparr>pv_times := recent\<rparr>
            in if int (length recent) \<ge> pc_max_per_hour c then (None, s1)
               else
                 let p = \<lparr>ent_id = i, ent_created = made, ent_updated = made, sg_trigger = tid, sg_subject = subject,
                            sg_summary = (if summary \<noteq> [] then summary else tr_summary t), sg_risk = risk,
                            sg_state = SG_PROPOSED\<rparr>;
                     s2 = s1\<lparr>pv_times := recent @ [now], pv_last_fired := dict_set (tid, subject) now (pv_last_fired s)\<rparr>;
                     s3 = proactive_emit c ''ProactiveTriggered'' [(''trigger_id'', JStr tid), (''proposal_id'', JStr i)] s2;
                     p' = (if \<not> pc_require_approval c \<and> risk = LR_LOW then p\<lparr>sg_state := SG_APPROVED\<rparr> else p)
                 in (Some p', s3\<lparr>pv_suggestions := dict_set i p' (pv_suggestions s)\<rparr>))"

subsection \<open>Decisions and execution\<close>

definition put_suggestion :: "suggestion \<Rightarrow> proactive \<Rightarrow> proactive" where
  "put_suggestion p s = s\<lparr>pv_suggestions := dict_set (ent_id p) p (pv_suggestions s)\<rparr>"

definition require_suggestion :: "string \<Rightarrow> proactive \<Rightarrow> suggestion result" where
  "require_suggestion i s =
     (case map_of (pv_suggestions s) i of
        None \<Rightarrow> Inl (DomainValidationError (''unknown proposal '' @ repr_str i)) | Some p \<Rightarrow> Inr p)"

definition decide_suggestion :: "suggestion_state \<Rightarrow> string \<Rightarrow> (proactive, suggestion) eff" where
  "decide_suggestion st i s =
     (case require_suggestion i s of
        Inl e \<Rightarrow> (Inl e, s)
      | Inr p \<Rightarrow>
          if sg_state p \<noteq> SG_PROPOSED then (Inl (DomainValidationError ''proposal already decided''), s)
          else (Inr (p\<lparr>sg_state := st\<rparr>), put_suggestion (p\<lparr>sg_state := st\<rparr>) s))"

definition approve_suggestion :: "string \<Rightarrow> (proactive, suggestion) eff" where
  "approve_suggestion = decide_suggestion SG_APPROVED"

definition reject_suggestion :: "string \<Rightarrow> (proactive, suggestion) eff" where
  "reject_suggestion = decide_suggestion SG_REJECTED"

text \<open>
  \<open>execute_fn\<close> raises with a text or returns an outcome and may change the world; \<open>verify_fn\<close> judges
  the outcome or raises.
\<close>

definition execute_suggestion ::
  "proactive_cfg \<Rightarrow> string \<Rightarrow> ('w \<Rightarrow> (string + 'o) \<times> 'w) \<Rightarrow> ('o \<Rightarrow> bool result) option
     \<Rightarrow> (proactive \<times> 'w, suggestion) eff" where
  "execute_suggestion c i execute_fn verify_fn sw =
     (case sw of (s, w) \<Rightarrow>
      case require_suggestion i s of
        Inl e \<Rightarrow> (Inl e, sw)
      | Inr p \<Rightarrow>
          if sg_state p \<noteq> SG_APPROVED then (Inl (DomainValidationError ''only approved proposals execute''), sw)
          else case execute_fn w of
            (Inl err, w') \<Rightarrow>
              let p' = p\<lparr>sg_state := SG_FAILED\<rparr> in
              (Inr p', (proactive_emit c ''ProactiveExecuted''
                 [(''proposal_id'', JStr (ent_id p)), (''success'', JBool False), (''error'', JStr err)] (put_suggestion p' s), w'))
          | (Inr x, w') \<Rightarrow>
              (case (case verify_fn of None \<Rightarrow> Inr True | Some v \<Rightarrow> v x) of
                 Inl e \<Rightarrow> (Inl e, (s, w'))
               | Inr ok \<Rightarrow>
                   let p' = p\<lparr>sg_state := (if ok then SG_EXECUTED else SG_FAILED)\<rparr> in
                   (Inr p', (proactive_emit c ''ProactiveExecuted''
                      [(''proposal_id'', JStr (ent_id p)), (''success'', JBool ok)] (put_suggestion p' s), w'))))"

definition pending_suggestions :: "proactive \<Rightarrow> suggestion list" where
  "pending_suggestions s = filter (\<lambda>p. sg_state p = SG_PROPOSED) (map snd (pv_suggestions s))"

subsection \<open>Sequences of operations\<close>

datatype ('w, 'o) proactive_op =
    Add_Trigger trigger
  | Remove_Trigger string
  | Evaluate string real real real string string learning_risk string
  | Approve_Suggestion string
  | Reject_Suggestion string
  | Execute_Suggestion string "'w \<Rightarrow> (string + 'o) \<times> 'w" "('o \<Rightarrow> bool result) option"

fun proactive_act :: "proactive_cfg \<Rightarrow> ('w, 'o) proactive_op \<Rightarrow> proactive \<times> 'w \<Rightarrow> proactive \<times> 'w" where
  "proactive_act c (Add_Trigger t) (s, w) = (add_trigger t s, w)"
| "proactive_act c (Remove_Trigger i) (s, w) = (snd (remove_trigger i s), w)"
| "proactive_act c (Evaluate i made quiet now tid subject risk summary) (s, w) =
     (snd (evaluate_trigger c i made quiet now tid subject risk summary s), w)"
| "proactive_act c (Approve_Suggestion i) (s, w) = (snd (approve_suggestion i s), w)"
| "proactive_act c (Reject_Suggestion i) (s, w) = (snd (reject_suggestion i s), w)"
| "proactive_act c (Execute_Suggestion i f v) sw = snd (execute_suggestion c i f v sw)"

text \<open>What an operation proposed: the two readings of its clock, the key, the cooldown that held.\<close>

record firing =
  fi_now :: real
  fi_quiet :: real
  fi_key :: "string \<times> string"
  fi_cooldown :: real

definition cooldown_of :: "string \<Rightarrow> proactive \<Rightarrow> real" where
  "cooldown_of tid s = (case map_of (pv_triggers s) tid of None \<Rightarrow> 0 | Some t \<Rightarrow> tr_cooldown t)"

fun proposed_by :: "proactive_cfg \<Rightarrow> ('w, 'o) proactive_op \<Rightarrow> proactive \<Rightarrow> firing list" where
  "proposed_by c (Evaluate i made quiet now tid subject risk summary) s =
     (case fst (evaluate_trigger c i made quiet now tid subject risk summary s) of
        None \<Rightarrow> []
      | Some p \<Rightarrow> [\<lparr>fi_now = now, fi_quiet = quiet, fi_key = (tid, subject), fi_cooldown = cooldown_of tid s\<rparr>])"
| "proposed_by c _ s = []"

text \<open>What an operation ran: the stored suggestion an execution found approved.\<close>

fun ran_by :: "('w, 'o) proactive_op \<Rightarrow> proactive \<Rightarrow> suggestion list" where
  "ran_by (Execute_Suggestion i f v) s =
     (case map_of (pv_suggestions s) i of
        None \<Rightarrow> [] | Some p \<Rightarrow> if sg_state p = SG_APPROVED then [p] else [])"
| "ran_by _ s = []"

fun run_proactive ::
  "proactive_cfg \<Rightarrow> ('w, 'o) proactive_op list \<Rightarrow> proactive \<times> 'w \<Rightarrow> firing list \<times> suggestion list \<times> proactive \<times> 'w" where
  "run_proactive c [] sw = ([], [], sw)"
| "run_proactive c (op # ops) sw =
     (case run_proactive c ops (proactive_act c op sw) of
        (ps, rs, sw') \<Rightarrow> (proposed_by c op (fst sw) @ ps, ran_by op (fst sw) @ rs, sw'))"

fun readings :: "('w, 'o) proactive_op list \<Rightarrow> real list" where
  "readings [] = []"
| "readings (Evaluate i made quiet now tid subject risk summary # ops) = now # readings ops"
| "readings (_ # ops) = readings ops"

subsection \<open>What one operation does\<close>

lemma emit_proactive_simps [simp]:
  "pv_triggers (proactive_emit c ty pl s) = pv_triggers s"
  "pv_suggestions (proactive_emit c ty pl s) = pv_suggestions s"
  "pv_last_fired (proactive_emit c ty pl s) = pv_last_fired s"
  "pv_times (proactive_emit c ty pl s) = pv_times s"
  by (simp_all add: proactive_emit_def)

lemma evaluate_None:
  assumes "evaluate_trigger c i made quiet now tid subject risk summary s = (None, s')"
  shows "pv_last_fired s' = pv_last_fired s \<and> pv_suggestions s' = pv_suggestions s
    \<and> (pv_times s' = pv_times s \<or> pv_times s' = filter (\<lambda>u. now - u < 3600) (pv_times s))"
proof (cases "map_of (pv_triggers s) tid")
  case (Some t)
  with assms show ?thesis unfolding evaluate_trigger_def Let_def by (auto split: if_split_asm)
qed (use assms in \<open>simp add: evaluate_trigger_def\<close>)

lemma evaluate_Some:
  assumes "evaluate_trigger c i made quiet now tid subject risk summary s = (Some p, s')"
  shows "\<not> quiet_at c quiet \<and> cooldown_of tid s \<le> now - last_fired (tid, subject) s
    \<and> int (length (filter (\<lambda>u. now - u < 3600) (pv_times s))) < pc_max_per_hour c
    \<and> pv_times s' = filter (\<lambda>u. now - u < 3600) (pv_times s) @ [now]
    \<and> pv_last_fired s' = dict_set (tid, subject) now (pv_last_fired s)
    \<and> pv_suggestions s' = dict_set i p (pv_suggestions s)
    \<and> ent_id p = i \<and> sg_risk p = risk
    \<and> sg_state p = (if \<not> pc_require_approval c \<and> risk = LR_LOW then SG_APPROVED else SG_PROPOSED)"
proof -
  let ?recent = "filter (\<lambda>u. now - u < 3600) (pv_times s)"
  let ?auto = "\<not> pc_require_approval c \<and> risk = LR_LOW"
  obtain t where tr: "map_of (pv_triggers s) tid = Some t"
    using assms by (cases "map_of (pv_triggers s) tid") (simp_all add: evaluate_trigger_def)
  define cats where "cats = (if pc_categories c \<noteq> [] then pc_categories c else map trigger_value trigger_kinds)"
  note def = evaluate_trigger_def [of c i made quiet now tid subject risk summary s, folded cats_def, unfolded tr option.case Let_def]
  have on: "\<not> (\<not> pc_enabled c \<or> \<not> tr_enabled t)" by (rule notI) (use assms in \<open>simp add: def\<close>)
  have cat: "\<not> trigger_value (tr_kind t) \<notin> set cats" by (rule notI) (use assms on in \<open>simp add: def\<close>)
  have awake: "\<not> quiet_at c quiet" by (rule notI) (use assms on cat in \<open>simp add: def\<close>)
  have cool: "\<not> now - last_fired (tid, subject) s < tr_cooldown t" by (rule notI) (use assms on cat awake in \<open>simp add: def\<close>)
  have cap: "\<not> pc_max_per_hour c \<le> int (length ?recent)" by (rule notI) (use assms on cat awake cool in \<open>simp add: def\<close>)
  define q where "q = \<lparr>ent_id = i, ent_created = made, ent_updated = made, sg_trigger = tid, sg_subject = subject,
    sg_summary = (if summary \<noteq> [] then summary else tr_summary t), sg_risk = risk, sg_state = SG_PROPOSED\<rparr>"
  have "p = (if ?auto then q\<lparr>sg_state := SG_APPROVED\<rparr> else q)
    \<and> s' = (proactive_emit c ''ProactiveTriggered'' [(''trigger_id'', JStr tid), (''proposal_id'', JStr i)]
        (s\<lparr>pv_times := ?recent @ [now], pv_last_fired := dict_set (tid, subject) now (pv_last_fired s)\<rparr>))
          \<lparr>pv_suggestions := dict_set i p (pv_suggestions s)\<rparr>"
    using assms unfolding def if_not_P [OF on] if_not_P [OF cat] if_not_P [OF awake] if_not_P [OF cool] if_not_P [OF cap]
      prod.inject option.inject q_def [symmetric]
    by (elim conjE) (hypsubst, rule conjI, rule HOL.refl, simp)
  then show ?thesis using awake cool cap by (simp add: cooldown_of_def tr q_def)
qed

lemma decide_keeps:
  "pv_times (snd (decide_suggestion st i s)) = pv_times s"
  "pv_last_fired (snd (decide_suggestion st i s)) = pv_last_fired s"
  by (simp_all add: decide_suggestion_def put_suggestion_def split: sum.split)

lemma execute_keeps:
  "pv_times (fst (snd (execute_suggestion c i f v (s, w)))) = pv_times s"
  "pv_last_fired (fst (snd (execute_suggestion c i f v (s, w)))) = pv_last_fired s"
  by (simp_all add: execute_suggestion_def put_suggestion_def Let_def split: sum.split prod.split)

lemma act_keeps:
  assumes "\<nexists>i made quiet now tid subject risk summary. op = Evaluate i made quiet now tid subject risk summary"
  shows "pv_times (fst (proactive_act c op (s, w))) = pv_times s
    \<and> pv_last_fired (fst (proactive_act c op (s, w))) = pv_last_fired s
    \<and> proposed_by c op s = [] \<and> readings (op # ops) = readings ops"
  using assms by (cases op) (auto simp: add_trigger_def remove_trigger_def approve_suggestion_def
      reject_suggestion_def decide_keeps execute_keeps)

subsection \<open>Throttling\<close>

definition in_hour :: "real \<Rightarrow> firing \<Rightarrow> bool" where
  "in_hour t f \<longleftrightarrow> t - 3600 < fi_now f \<and> fi_now f \<le> t"

definition apart :: "firing \<Rightarrow> firing \<Rightarrow> bool" where
  "apart f g \<longleftrightarrow> (fi_key f = fi_key g \<longrightarrow> fi_cooldown g \<le> fi_now g - fi_now f)"

definition throttled :: "proactive_cfg \<Rightarrow> real set \<Rightarrow> firing list \<Rightarrow> proactive \<Rightarrow> bool" where
  "throttled c R ps s \<longleftrightarrow>
     (\<forall>r \<in> R. \<forall>f \<in> set ps. fi_now f \<le> r)
     \<and> (\<forall>r \<in> R. filter (\<lambda>u. r - u < 3600) (pv_times s) = filter (\<lambda>u. r - u < 3600) (map fi_now ps))
     \<and> (\<forall>f \<in> set ps. fi_now f \<le> last_fired (fi_key f) s)
     \<and> (\<forall>t. int (length (filter (in_hour t) ps)) \<le> max 0 (pc_max_per_hour c))
     \<and> (\<forall>f \<in> set ps. \<not> quiet_at c (fi_quiet f))
     \<and> sorted_wrt apart ps"

lemma throttled_subset: "throttled c R ps s \<Longrightarrow> R' \<subseteq> R \<Longrightarrow> throttled c R' ps s"
  unfolding throttled_def by blast

lemma throttled_cong:
  "throttled c R ps s \<Longrightarrow> pv_times s' = pv_times s \<Longrightarrow> pv_last_fired s' = pv_last_fired s \<Longrightarrow> throttled c R ps s'"
  by (simp add: throttled_def last_fired_def)

lemma refilter:
  fixes xs :: "real list"
  shows "now \<le> r \<Longrightarrow> filter (\<lambda>u. r - u < 3600) (filter (\<lambda>u. now - u < 3600) xs) = filter (\<lambda>u. r - u < 3600) xs"
  by (induction xs) auto

lemma throttled_None:
  assumes "throttled c (insert now R) ps s" "\<forall>r \<in> R. now \<le> r"
    and "evaluate_trigger c i made quiet now tid subject risk summary s = (None, s')"
  shows "throttled c R ps s'"
proof -
  have "\<forall>r \<in> R. filter (\<lambda>u. r - u < 3600) (pv_times s') = filter (\<lambda>u. r - u < 3600) (pv_times s)"
    using evaluate_None [OF assms(3)] assms(2) refilter by auto
  with evaluate_None [OF assms(3)] assms(1) show ?thesis
    by (simp add: throttled_def last_fired_def)
qed

lemma throttled_Some:
  assumes t: "throttled c (insert now R) ps s" and R: "\<forall>r \<in> R. now \<le> r"
    and ev: "evaluate_trigger c i made quiet now tid subject risk summary s = (Some p, s')"
  shows "throttled c R (ps @ [\<lparr>fi_now = now, fi_quiet = quiet, fi_key = (tid, subject), fi_cooldown = cooldown_of tid s\<rparr>]) s'"
    (is "throttled c R (ps @ [?f]) s'")
proof -
  note e = evaluate_Some [OF ev]
  have early: "\<forall>f \<in> set ps. fi_now f \<le> now"
    and kept: "filter (\<lambda>u. now - u < 3600) (pv_times s) = filter (\<lambda>u. now - u < 3600) (map fi_now ps)"
    and last: "\<forall>f \<in> set ps. fi_now f \<le> last_fired (fi_key f) s"
    and window: "\<And>t. int (length (filter (in_hour t) ps)) \<le> max 0 (pc_max_per_hour c)"
    using t by (auto simp: throttled_def)
  have "int (length (filter (in_hour t) (ps @ [?f]))) \<le> max 0 (pc_max_per_hour c)" for t
  proof (cases "in_hour t ?f")
    case False
    with window [of t] show ?thesis by simp
  next
    case True
    then have "length (filter (in_hour t) ps) \<le> length (filter (\<lambda>f. now - fi_now f < 3600) ps)"
      by (intro filter_length_mono) (auto simp: in_hour_def)
    also have "\<dots> = length (filter (\<lambda>u. now - u < 3600) (map fi_now ps))" by (simp add: filter_map comp_def)
    finally have "int (length (filter (in_hour t) ps)) < pc_max_per_hour c" using e kept by simp
    with True show ?thesis by simp
  qed
  moreover have "\<forall>r \<in> R. filter (\<lambda>u. r - u < 3600) (pv_times s') = filter (\<lambda>u. r - u < 3600) (map fi_now (ps @ [?f]))"
    using R refilter kept e by (metis (no_types, lifting) filter_append firing.select_convs(1) list.simps(8,9) map_append)
  moreover have "sorted_wrt apart (ps @ [?f])"
    using t last e by (fastforce simp: throttled_def sorted_wrt_append apart_def)
  moreover have "\<forall>f \<in> set (ps @ [?f]). fi_now f \<le> last_fired (fi_key f) s'"
    using last early e by (auto simp: last_fired_def)
  moreover have "\<forall>r \<in> R. \<forall>f \<in> set (ps @ [?f]). fi_now f \<le> r" using early R by fastforce
  moreover have "\<forall>f \<in> set (ps @ [?f]). \<not> quiet_at c (fi_quiet f)" using t e by (simp add: throttled_def)
  ultimately show ?thesis unfolding throttled_def by blast
qed

lemma throttled_run:
  assumes "throttled c (set (readings ops)) qs s" "sorted (readings ops)" "run_proactive c ops (s, w) = (ps, rs, s', w')"
  shows "throttled c {} (qs @ ps) s'"
  using assms
proof (induction ops arbitrary: qs s w ps rs)
  case (Cons op ops)
  obtain s1 w1 where act: "proactive_act c op (s, w) = (s1, w1)" by fastforce
  obtain ps1 rs1 where run: "run_proactive c ops (s1, w1) = (ps1, rs1, s', w')" "ps = proposed_by c op s @ ps1"
    using Cons.prems(3) act by (auto split: prod.splits)
  show ?case
  proof (cases "\<exists>i made quiet now tid subject risk summary. op = Evaluate i made quiet now tid subject risk summary")
    case False
    with act_keeps [of op c s w ops] act
    have k: "pv_times s1 = pv_times s" "pv_last_fired s1 = pv_last_fired s" "proposed_by c op s = []"
      "readings (op # ops) = readings ops" by auto
    with Cons.prems(1) have "throttled c (set (readings ops)) qs s1" using throttled_cong by metis
    from Cons.IH [OF this _ run(1)] Cons.prems(2) k run(2) show ?thesis by simp
  next
    case True
    then obtain i made quiet now tid subject risk summary
      where op: "op = Evaluate i made quiet now tid subject risk summary" by blast
    obtain o1 where ev: "evaluate_trigger c i made quiet now tid subject risk summary s = (o1, s1)"
      using act op by (cases "evaluate_trigger c i made quiet now tid subject risk summary s") auto
    have R: "\<forall>r \<in> set (readings ops). now \<le> r" and srt: "sorted (readings ops)"
      and th: "throttled c (insert now (set (readings ops))) qs s"
      using Cons.prems(1,2) op by auto
    have "throttled c (set (readings ops)) (qs @ proposed_by c op s) s1"
    proof (cases o1)
      case None
      with throttled_None [OF th R] ev op show ?thesis by simp
    next
      case (Some p)
      with throttled_Some [OF th R] ev op show ?thesis by simp
    qed
    from Cons.IH [OF this srt run(1)] run(2) show ?thesis by simp
  qed
qed (auto intro: throttled_subset)

text \<open>
  C23: suggestions are throttled. In every sequence of operations with a clock that does not go
  back, no hour holds more new proposals than the cap, none is made in quiet hours, and a trigger
  proposes again about the same subject only after its cooldown.
\<close>

theorem proposals_are_throttled:
  assumes "sorted (readings ops)" "run_proactive c ops (new_proactive, w) = (ps, rs, s', w')"
  shows "(\<forall>t. int (length (filter (\<lambda>f. t - 3600 < fi_now f \<and> fi_now f \<le> t) ps)) \<le> max 0 (pc_max_per_hour c))
    \<and> (\<forall>f \<in> set ps. \<not> quiet_at c (fi_quiet f))
    \<and> sorted_wrt (\<lambda>f g. fi_key f = fi_key g \<longrightarrow> fi_cooldown g \<le> fi_now g - fi_now f) ps"
proof -
  have "throttled c (set (readings ops)) [] new_proactive"
    by (simp add: throttled_def new_proactive_def)
  from throttled_run [OF this assms] show ?thesis
    by (simp add: throttled_def in_hour_def [abs_def] apart_def [abs_def])
qed

subsection \<open>Execution\<close>

fun approvals_in :: "('w, 'o) proactive_op list \<Rightarrow> string set" where
  "approvals_in [] = {}"
| "approvals_in (Approve_Suggestion i # ops) = insert i (approvals_in ops)"
| "approvals_in (_ # ops) = approvals_in ops"

lemma approvals_in_iff: "i \<in> approvals_in ops \<longleftrightarrow> Approve_Suggestion i \<in> set ops"
  by (induction ops rule: approvals_in.induct) auto

definition justified :: "proactive_cfg \<Rightarrow> string set \<Rightarrow> proactive \<Rightarrow> bool" where
  "justified c A s \<longleftrightarrow> (\<forall>i p. map_of (pv_suggestions s) i = Some p \<longrightarrow> ent_id p = i
     \<and> (sg_state p = SG_APPROVED \<longrightarrow> i \<in> A \<or> (\<not> pc_require_approval c \<and> sg_risk p = LR_LOW)))"

lemma justified_put:
  assumes "justified c A s" "A \<subseteq> A'"
    and "ent_id p = i" "sg_state p = SG_APPROVED \<Longrightarrow> i \<in> A' \<or> (\<not> pc_require_approval c \<and> sg_risk p = LR_LOW)"
    and "pv_suggestions s' = dict_set i p (pv_suggestions s)"
  shows "justified c A' s'"
  using assms unfolding justified_def by auto

lemma justified_same: "justified c A s \<Longrightarrow> A \<subseteq> A' \<Longrightarrow> pv_suggestions s' = pv_suggestions s \<Longrightarrow> justified c A' s'"
  unfolding justified_def by auto

text \<open>What an operation does to the table of suggestions.\<close>

lemma evaluate_table:
  "pv_suggestions (snd (evaluate_trigger c i made quiet now tid subject risk summary s)) = pv_suggestions s
   \<or> (\<exists>p. pv_suggestions (snd (evaluate_trigger c i made quiet now tid subject risk summary s)) = dict_set i p (pv_suggestions s)
        \<and> ent_id p = i \<and> (sg_state p = SG_APPROVED \<longrightarrow> \<not> pc_require_approval c \<and> sg_risk p = LR_LOW))"
proof (cases "evaluate_trigger c i made quiet now tid subject risk summary s")
  case (Pair x s')
  then show ?thesis
  proof (cases x)
    case None
    with Pair evaluate_None show ?thesis by fastforce
  next
    case (Some p)
    with Pair have e: "evaluate_trigger c i made quiet now tid subject risk summary s = (Some p, s')" by simp
    from evaluate_Some [OF e] Pair show ?thesis by (auto split: if_splits)
  qed
qed

lemma decide_table:
  "pv_suggestions (snd (decide_suggestion st i s)) = pv_suggestions s
   \<or> (\<exists>p. map_of (pv_suggestions s) i = Some p \<and> sg_state p = SG_PROPOSED
        \<and> pv_suggestions (snd (decide_suggestion st i s)) = dict_set (ent_id p) (p\<lparr>sg_state := st\<rparr>) (pv_suggestions s))"
  by (auto simp: decide_suggestion_def require_suggestion_def put_suggestion_def split: option.split)

lemma execute_table:
  "(snd (execute_suggestion c i f v (s, w)) = (s, w) \<and> ran_by (Execute_Suggestion i f v) s = [])
   \<or> (\<exists>p. map_of (pv_suggestions s) i = Some p \<and> sg_state p = SG_APPROVED \<and> ran_by (Execute_Suggestion i f v) s = [p]
        \<and> (pv_suggestions (fst (snd (execute_suggestion c i f v (s, w)))) = pv_suggestions s \<and> (\<exists>g x. v = Some g \<and> isl (g x))
           \<or> (\<exists>st \<in> {SG_EXECUTED, SG_FAILED}. pv_suggestions (fst (snd (execute_suggestion c i f v (s, w))))
                = dict_set (ent_id p) (p\<lparr>sg_state := st\<rparr>) (pv_suggestions s))))"
proof (cases "map_of (pv_suggestions s) i")
  case (Some p)
  show ?thesis
  proof (cases "sg_state p = SG_APPROVED")
    case True
    obtain x w' where f: "f w = (x, w')" by fastforce
    show ?thesis
    proof (cases x)
      case (Inl e)
      with True Some f show ?thesis by (auto simp: execute_suggestion_def require_suggestion_def put_suggestion_def Let_def)
    next
      case (Inr y)
      show ?thesis
      proof (cases "\<exists>g e. v = Some g \<and> g y = Inl e")
        case raised: True
        then have "\<exists>g x. v = Some g \<and> isl (g x)" by (metis sum.disc(1))
        with raised Inr True Some f show ?thesis by (auto simp: execute_suggestion_def require_suggestion_def)
      next
        case False
        then obtain ok where "(case v of None \<Rightarrow> Inr True | Some g \<Rightarrow> g y) = Inr ok"
          by (metis option.exhaust option.simps(4,5) sum.exhaust)
        with Inr True Some f show ?thesis
          by (auto simp: execute_suggestion_def require_suggestion_def put_suggestion_def Let_def)
      qed
    qed
  next
    case False
    with Some show ?thesis by (simp add: execute_suggestion_def require_suggestion_def)
  qed
qed (simp add: execute_suggestion_def require_suggestion_def)

lemma justified_settled:
  assumes j: "justified c A s"
    and s1: "pv_suggestions s1 = pv_suggestions s
     \<or> (\<exists>p st. pv_suggestions s1 = dict_set (ent_id p) (p\<lparr>sg_state := st\<rparr>) (pv_suggestions s) \<and> st \<noteq> SG_APPROVED)"
  shows "justified c (A \<union> B) s1"
  using s1
proof
  assume "pv_suggestions s1 = pv_suggestions s"
  then show ?thesis by (intro justified_same [OF j]) auto
next
  assume "\<exists>p st. pv_suggestions s1 = dict_set (ent_id p) (p\<lparr>sg_state := st\<rparr>) (pv_suggestions s) \<and> st \<noteq> SG_APPROVED"
  then obtain p st where "pv_suggestions s1 = dict_set (ent_id p) (p\<lparr>sg_state := st\<rparr>) (pv_suggestions s)" "st \<noteq> SG_APPROVED"
    by blast
  then show ?thesis by (intro justified_put [OF j, where p = "p\<lparr>sg_state := st\<rparr>"]) auto
qed

lemma justified_act:
  assumes j: "justified c A s" and act: "proactive_act c op (s, w) = (s1, w1)"
  shows "justified c (A \<union> approvals_in [op]) s1"
proof (cases op)
  case (Evaluate i made quiet now tid subject risk summary)
  then have s1: "s1 = snd (evaluate_trigger c i made quiet now tid subject risk summary s)" using act by simp
  from evaluate_table [of c i made quiet now tid subject risk summary s] show ?thesis
  proof
    assume "pv_suggestions (snd (evaluate_trigger c i made quiet now tid subject risk summary s)) = pv_suggestions s"
    with s1 show ?thesis by (intro justified_same [OF j]) auto
  next
    assume "\<exists>p. pv_suggestions (snd (evaluate_trigger c i made quiet now tid subject risk summary s)) = dict_set i p (pv_suggestions s)
        \<and> ent_id p = i \<and> (sg_state p = SG_APPROVED \<longrightarrow> \<not> pc_require_approval c \<and> sg_risk p = LR_LOW)"
    then obtain p where "pv_suggestions s1 = dict_set i p (pv_suggestions s)" "ent_id p = i"
      "sg_state p = SG_APPROVED \<longrightarrow> \<not> pc_require_approval c \<and> sg_risk p = LR_LOW" using s1 by blast
    then show ?thesis by (intro justified_put [OF j]) auto
  qed
next
  case (Approve_Suggestion i)
  then have s1: "s1 = snd (decide_suggestion SG_APPROVED i s)" using act by (simp add: approve_suggestion_def)
  from decide_table [of SG_APPROVED i s] show ?thesis
  proof
    assume "pv_suggestions (snd (decide_suggestion SG_APPROVED i s)) = pv_suggestions s"
    with s1 show ?thesis by (intro justified_same [OF j]) auto
  next
    assume "\<exists>p. map_of (pv_suggestions s) i = Some p \<and> sg_state p = SG_PROPOSED
        \<and> pv_suggestions (snd (decide_suggestion SG_APPROVED i s)) = dict_set (ent_id p) (p\<lparr>sg_state := SG_APPROVED\<rparr>) (pv_suggestions s)"
    then obtain p where "map_of (pv_suggestions s) i = Some p"
      "pv_suggestions s1 = dict_set (ent_id p) (p\<lparr>sg_state := SG_APPROVED\<rparr>) (pv_suggestions s)" using s1 by blast
    moreover from this(1) have "ent_id p = i" using j by (simp add: justified_def)
    ultimately show ?thesis using Approve_Suggestion by (intro justified_put [OF j]) auto
  qed
next
  case (Reject_Suggestion i)
  then have s1: "s1 = snd (decide_suggestion SG_REJECTED i s)" using act by (simp add: reject_suggestion_def)
  from decide_table [of SG_REJECTED i s]
  have "pv_suggestions s1 = pv_suggestions s
     \<or> (\<exists>p st. pv_suggestions s1 = dict_set (ent_id p) (p\<lparr>sg_state := st\<rparr>) (pv_suggestions s) \<and> st \<noteq> SG_APPROVED)"
    unfolding s1 by fastforce
  then show ?thesis by (rule justified_settled [OF j])
next
  case (Execute_Suggestion i f v)
  then have s1: "s1 = fst (snd (execute_suggestion c i f v (s, w)))" using act by simp
  from execute_table [of c i f v s w] have
    "pv_suggestions s1 = pv_suggestions s
     \<or> (\<exists>p st. pv_suggestions s1 = dict_set (ent_id p) (p\<lparr>sg_state := st\<rparr>) (pv_suggestions s) \<and> st \<noteq> SG_APPROVED)"
    unfolding s1 by fastforce
  then show ?thesis by (rule justified_settled [OF j])
qed (use act justified_same [OF j] in \<open>auto simp: add_trigger_def remove_trigger_def\<close>)

lemma ran_by_cases:
  "p \<in> set (ran_by op s) \<Longrightarrow> \<exists>i f v. op = Execute_Suggestion i f v \<and> map_of (pv_suggestions s) i = Some p \<and> sg_state p = SG_APPROVED"
  by (cases op) (auto split: option.splits if_splits)

lemma not_ran_world:
  "ran_by op s = [] \<Longrightarrow> snd (proactive_act c op (s, w)) = w"
proof (cases op)
  case (Execute_Suggestion i f v)
  assume "ran_by op s = []"
  with Execute_Suggestion execute_table [of c i f v s w] show ?thesis by (auto split: if_splits)
qed simp_all

lemma justified_run:
  assumes "justified c A s" "run_proactive c ops (s, w) = (ps, rs, s', w')"
  shows "(\<forall>p \<in> set rs. ent_id p \<in> A \<union> approvals_in ops \<or> (\<not> pc_require_approval c \<and> sg_risk p = LR_LOW))
    \<and> (rs = [] \<longrightarrow> w' = w)"
  using assms
proof (induction ops arbitrary: A s w ps rs)
  case (Cons op ops)
  obtain s1 w1 where act: "proactive_act c op (s, w) = (s1, w1)" by fastforce
  obtain ps1 rs1 where run: "run_proactive c ops (s1, w1) = (ps1, rs1, s', w')" "rs = ran_by op s @ rs1"
    using Cons.prems(2) act by (auto split: prod.splits)
  have a: "approvals_in [op] \<union> approvals_in ops = approvals_in (op # ops)" by (cases op) auto
  from Cons.IH [OF justified_act [OF Cons.prems(1) act] run(1)]
  have IH: "\<forall>p \<in> set rs1. ent_id p \<in> A \<union> approvals_in (op # ops) \<or> (\<not> pc_require_approval c \<and> sg_risk p = LR_LOW)"
    "rs1 = [] \<longrightarrow> w' = w1" using a by auto
  have "ent_id p \<in> A \<or> (\<not> pc_require_approval c \<and> sg_risk p = LR_LOW)" if "p \<in> set (ran_by op s)" for p
    using ran_by_cases [OF that] Cons.prems(1) by (auto simp: justified_def)
  moreover have "w1 = w" if "ran_by op s = []" using not_ran_world [OF that, of c w] act by simp
  ultimately show ?case using IH run(2) by auto
qed simp

text \<open>
  C22: the engine acts only with approval. Whatever sequence of operations runs from the start,
  every suggestion that was carried out was approved by name, unless the configuration waives
  approval and the risk is low; and if nothing was carried out, the world is as it was: proposing
  never acts.
\<close>

theorem only_approved_suggestions_run:
  assumes "run_proactive c ops (new_proactive, w) = (ps, rs, s', w')"
  shows "(\<forall>p \<in> set rs. Approve_Suggestion (ent_id p) \<in> set ops \<or> (\<not> pc_require_approval c \<and> sg_risk p = LR_LOW))
    \<and> (rs = [] \<longrightarrow> w' = w)"
proof -
  have "justified c {} new_proactive" by (simp add: justified_def new_proactive_def)
  from justified_run [OF this assms] show ?thesis by (simp add: approvals_in_iff)
qed

fun made_ids :: "('w, 'o) proactive_op list \<Rightarrow> string list" where
  "made_ids [] = []"
| "made_ids (Evaluate i made quiet now tid subject risk summary # ops) = i # made_ids ops"
| "made_ids (_ # ops) = made_ids ops"

definition carried_out :: "string set \<Rightarrow> proactive \<Rightarrow> bool" where
  "carried_out E s \<longleftrightarrow> (\<forall>i \<in> E. \<exists>p. map_of (pv_suggestions s) i = Some p \<and> sg_state p \<in> {SG_EXECUTED, SG_FAILED})"

definition verifier_returns :: "('w, 'o) proactive_op \<Rightarrow> bool" where
  "verifier_returns op \<longleftrightarrow> (\<forall>i f g x. op = Execute_Suggestion i f (Some g) \<longrightarrow> \<not> isl (g x))"

lemma carried_out_put:
  "carried_out E s \<Longrightarrow> i \<notin> E \<or> sg_state p \<in> {SG_EXECUTED, SG_FAILED} \<Longrightarrow> pv_suggestions s' = dict_set i p (pv_suggestions s)
     \<Longrightarrow> carried_out E s'"
  by (auto simp: carried_out_def)

lemma carried_out_same: "carried_out E s \<Longrightarrow> pv_suggestions s' = pv_suggestions s \<Longrightarrow> carried_out E s'"
  by (simp add: carried_out_def)

lemma carried_out_decide:
  assumes fin: "carried_out E s" and j: "justified c UNIV s"
  shows "carried_out E (snd (decide_suggestion st i s))"
  using decide_table [of st i s]
proof
  assume "pv_suggestions (snd (decide_suggestion st i s)) = pv_suggestions s"
  then show ?thesis by (rule carried_out_same [OF fin])
next
  assume "\<exists>p. map_of (pv_suggestions s) i = Some p \<and> sg_state p = SG_PROPOSED
        \<and> pv_suggestions (snd (decide_suggestion st i s)) = dict_set (ent_id p) (p\<lparr>sg_state := st\<rparr>) (pv_suggestions s)"
  then obtain p where p: "map_of (pv_suggestions s) i = Some p" "sg_state p = SG_PROPOSED"
    "pv_suggestions (snd (decide_suggestion st i s)) = dict_set (ent_id p) (p\<lparr>sg_state := st\<rparr>) (pv_suggestions s)" by blast
  then have "ent_id p = i" using j by (simp add: justified_def)
  moreover have "i \<notin> E" using fin p by (auto simp: carried_out_def)
  ultimately show ?thesis using p(3) by (intro carried_out_put [OF fin]) auto
qed

lemma carried_out_act:
  assumes fin: "carried_out E s" and j: "justified c UNIV s" and v: "verifier_returns op"
    and new: "set (made_ids [op]) \<inter> E = {}" and act: "proactive_act c op (s, w) = (s1, w1)"
  shows "carried_out (E \<union> ent_id ` set (ran_by op s)) s1 \<and> length (ran_by op s) \<le> 1 \<and> ent_id ` set (ran_by op s) \<inter> E = {}"
proof (cases op)
  case (Evaluate i made quiet now tid subject risk summary)
  then have s1: "s1 = snd (evaluate_trigger c i made quiet now tid subject risk summary s)" and i: "i \<notin> E"
    using act new by auto
  have "carried_out E s1"
    using evaluate_table [of c i made quiet now tid subject risk summary s]
  proof
    assume "pv_suggestions (snd (evaluate_trigger c i made quiet now tid subject risk summary s)) = pv_suggestions s"
    with s1 show ?thesis by (intro carried_out_same [OF fin]) simp
  qed (use s1 i carried_out_put [OF fin] in blast)
  with Evaluate show ?thesis by simp
next
  case (Approve_Suggestion i)
  with act carried_out_decide [OF fin j, of SG_APPROVED i] show ?thesis by (simp add: approve_suggestion_def)
next
  case (Reject_Suggestion i)
  with act carried_out_decide [OF fin j, of SG_REJECTED i] show ?thesis by (simp add: reject_suggestion_def)
next
  case (Execute_Suggestion i f g)
  then have s1: "s1 = fst (snd (execute_suggestion c i f g (s, w)))" using act by simp
  from execute_table [of c i f g s w] show ?thesis
  proof
    assume "snd (execute_suggestion c i f g (s, w)) = (s, w) \<and> ran_by (Execute_Suggestion i f g) s = []"
    with s1 fin Execute_Suggestion show ?thesis by simp
  next
    assume "\<exists>p. map_of (pv_suggestions s) i = Some p \<and> sg_state p = SG_APPROVED \<and> ran_by (Execute_Suggestion i f g) s = [p]
        \<and> (pv_suggestions (fst (snd (execute_suggestion c i f g (s, w)))) = pv_suggestions s \<and> (\<exists>h x. g = Some h \<and> isl (h x))
           \<or> (\<exists>st \<in> {SG_EXECUTED, SG_FAILED}. pv_suggestions (fst (snd (execute_suggestion c i f g (s, w))))
                = dict_set (ent_id p) (p\<lparr>sg_state := st\<rparr>) (pv_suggestions s)))"
    then obtain p st where p: "map_of (pv_suggestions s) i = Some p" "sg_state p = SG_APPROVED" "ran_by op s = [p]"
      and st: "st \<in> {SG_EXECUTED, SG_FAILED}" "pv_suggestions s1 = dict_set (ent_id p) (p\<lparr>sg_state := st\<rparr>) (pv_suggestions s)"
      using v Execute_Suggestion s1 unfolding verifier_returns_def by metis
    have "ent_id p = i" using j p by (simp add: justified_def)
    moreover have "i \<notin> E" using fin p by (auto simp: carried_out_def)
    moreover have "carried_out E s1" by (rule carried_out_put [OF fin _ st(2)]) (use st in simp)
    ultimately show ?thesis using p st by (auto simp: carried_out_def)
  qed
qed (use act fin carried_out_same [OF fin] in \<open>auto simp: add_trigger_def remove_trigger_def\<close>)

lemma keys_act:
  assumes j: "justified c UNIV s" and act: "proactive_act c op (s, w) = (s1, w1)"
  shows "set (keys (pv_suggestions s1)) \<subseteq> set (keys (pv_suggestions s)) \<union> set (made_ids [op])"
proof -
  have known: "ent_id p \<in> set (keys (pv_suggestions s))" if "map_of (pv_suggestions s) i = Some p" for i p
    using that j map_of_Some_keys [OF that] by (simp add: justified_def)
  have decided: "set (keys (pv_suggestions (snd (decide_suggestion st i s)))) \<subseteq> set (keys (pv_suggestions s))" for st i
    using decide_table [of st i s] known by (metis keys_dict_set_mem order_refl)
  show ?thesis
  proof (cases op)
    case (Evaluate i made quiet now tid subject risk summary)
    then have s1: "s1 = snd (evaluate_trigger c i made quiet now tid subject risk summary s)" using act by simp
    have put: "set (keys (dict_set i p d)) = insert i (set (keys d))" for p :: suggestion and d by simp
    from evaluate_table [of c i made quiet now tid subject risk summary s]
    have "set (keys (pv_suggestions s1)) \<subseteq> insert i (set (keys (pv_suggestions s)))"
      unfolding s1 by (metis put subset_insertI order_refl)
    with Evaluate show ?thesis by simp
  next
    case (Approve_Suggestion i)
    with act decided [of SG_APPROVED i] show ?thesis by (simp add: approve_suggestion_def)
  next
    case (Reject_Suggestion i)
    with act decided [of SG_REJECTED i] show ?thesis by (simp add: reject_suggestion_def)
  next
    case (Execute_Suggestion i f v)
    then have s1: "s1 = fst (snd (execute_suggestion c i f v (s, w)))" using act by simp
    from execute_table [of c i f v s w] have "keys (pv_suggestions s1) = keys (pv_suggestions s)"
      unfolding s1 using known by (metis fst_conv keys_dict_set_mem)
    then show ?thesis by simp
  qed (use act in \<open>auto simp: add_trigger_def remove_trigger_def\<close>)
qed

lemma carried_out_run:
  assumes "carried_out E s" "justified c UNIV s" "\<forall>op \<in> set ops. verifier_returns op"
    and "distinct (made_ids ops)" "set (made_ids ops) \<inter> E = {}" "set (made_ids ops) \<inter> set (keys (pv_suggestions s)) = {}"
    and "run_proactive c ops (s, w) = (ps, rs, s', w')"
  shows "distinct (map ent_id rs) \<and> ent_id ` set rs \<inter> E = {}"
  using assms
proof (induction ops arbitrary: E s w ps rs)
  case (Cons op ops)
  obtain s1 w1 where act: "proactive_act c op (s, w) = (s1, w1)" by fastforce
  obtain ps1 rs1 where run: "run_proactive c ops (s1, w1) = (ps1, rs1, s', w')" "rs = ran_by op s @ rs1"
    using Cons.prems(7) act by (auto split: prod.splits)
  have ids: "made_ids (op # ops) = made_ids [op] @ made_ids ops" by (cases op) auto
  let ?E = "E \<union> ent_id ` set (ran_by op s)"
  have step: "carried_out ?E s1 \<and> length (ran_by op s) \<le> 1 \<and> ent_id ` set (ran_by op s) \<inter> E = {}"
    by (rule carried_out_act [OF Cons.prems(1,2) _ _ act]) (use Cons.prems(3,5) ids in auto)
  have j: "justified c UNIV s1" using justified_act [OF Cons.prems(2) act] by simp
  have known: "set (keys (pv_suggestions s1)) \<subseteq> set (keys (pv_suggestions s)) \<union> set (made_ids [op])"
    by (rule keys_act [OF Cons.prems(2) act])
  have "ent_id ` set (ran_by op s) \<subseteq> set (keys (pv_suggestions s))"
    using ran_by_cases Cons.prems(2) by (fastforce simp: justified_def dest: map_of_Some_keys)
  moreover have "set (made_ids ops) \<subseteq> set (made_ids (op # ops))" using ids by simp
  ultimately have new: "set (made_ids ops) \<inter> ?E = {}" using Cons.prems(5,6) by blast
  have fresh: "set (made_ids ops) \<inter> set (keys (pv_suggestions s1)) = {}"
    using known Cons.prems(4,6) ids by auto
  from Cons.IH [OF conjunct1 [OF step] j _ _ new fresh run(1)] Cons.prems(3,4) ids
  have IH: "distinct (map ent_id rs1) \<and> ent_id ` set rs1 \<inter> ?E = {}" by simp
  have "distinct (map ent_id (ran_by op s))" using step by (cases "ran_by op s") auto
  with IH step show ?case using run(2) by auto
qed simp

text \<open>
  an approved suggestion runs once. With fresh identifiers and verification callables that
  return, no suggestion is carried out twice in any sequence of operations.
\<close>

theorem suggestions_run_once:
  assumes "run_proactive c ops (new_proactive, w) = (ps, rs, s', w')"
    and "distinct (made_ids ops)" "\<forall>op \<in> set ops. verifier_returns op"
  shows "distinct (map ent_id rs)"
proof -
  have "carried_out {} new_proactive" "justified c UNIV new_proactive"
    by (simp_all add: carried_out_def justified_def new_proactive_def)
  from carried_out_run [OF this assms(3,2) _ _ assms(1)] show ?thesis by (simp add: new_proactive_def)
qed

subsection \<open>Examples\<close>

definition demo_proactive :: proactive_cfg where
  "demo_proactive = \<lparr>pc_enabled = True, pc_quiet_start = 22, pc_quiet_end = 7, pc_scope = [], pc_categories = [],
     pc_max_per_hour = 1, pc_require_approval = True, pc_bus = True\<rparr>"

definition demo_trigger :: trigger where
  "demo_trigger = \<lparr>ent_id = ''t1'', ent_created = 0, ent_updated = 0, tr_kind = TK_SCHEDULED, tr_subject = [], tr_summary = ''tidy up'',
     tr_cooldown = 60, tr_enabled = True\<rparr>"

text \<open>Eight in the morning, a second attempt within the hour, and a third after it.\<close>

definition demo_morning :: "(nat, unit) proactive_op list" where
  "demo_morning = [Add_Trigger demo_trigger,
     Evaluate ''p1'' 0 28800 28800 ''t1'' ''disk'' LR_LOW [], Evaluate ''p2'' 0 28900 28900 ''t1'' ''disk'' LR_LOW [],
     Evaluate ''p3'' 0 33000 33000 ''t1'' ''disk'' LR_LOW [], Approve_Suggestion ''p1'']"

definition count_run :: "nat \<Rightarrow> (string + unit) \<times> nat" where
  "count_run w = (Inr (), w + 1)"

definition demo_execution :: "(unit \<Rightarrow> bool result) option \<Rightarrow> (nat, unit) proactive_op list" where
  "demo_execution v = demo_morning @ [Execute_Suggestion ''p1'' count_run v, Execute_Suggestion ''p1'' count_run v]"

lemma proposals_are_throttled_witness:
  "int (length (filter (\<lambda>f. 28900 - 3600 < fi_now f \<and> fi_now f \<le> 28900)
      (fst (run_proactive demo_proactive demo_morning (new_proactive, 0))))) \<le> 1
   \<and> length (fst (run_proactive demo_proactive demo_morning (new_proactive, 0))) = 2"
proof -
  let ?r = "run_proactive demo_proactive demo_morning (new_proactive, 0)"
  have r: "?r = (fst ?r, fst (snd ?r), fst (snd (snd ?r)), snd (snd (snd ?r)))" by simp
  have "sorted (readings demo_morning)" by (simp add: demo_morning_def)
  from conjunct1 [OF proposals_are_throttled [OF this r], rule_format, of 28900]
  have "int (length (filter (\<lambda>f. 28900 - 3600 < fi_now f \<and> fi_now f \<le> 28900) (fst ?r))) \<le> 1"
    by (simp add: demo_proactive_def)
  moreover have "length (fst ?r) = 2" by code_simp
  ultimately show ?thesis by blast
qed

lemma only_approved_suggestions_run_witness:
  "snd (snd (snd (run_proactive demo_proactive demo_morning (new_proactive, 0)))) = 0
   \<and> snd (snd (snd (run_proactive demo_proactive (demo_execution None) (new_proactive, 0)))) = 1"
proof
  let ?r = "run_proactive demo_proactive demo_morning (new_proactive, 0)"
  have r: "?r = (fst ?r, fst (snd ?r), fst (snd (snd ?r)), snd (snd (snd ?r)))" by simp
  have "length (fst (snd ?r)) = 0" by code_simp
  with only_approved_suggestions_run [OF r] show "snd (snd (snd ?r)) = 0" by simp
  show "snd (snd (snd (run_proactive demo_proactive (demo_execution None) (new_proactive, 0)))) = 1" by code_simp
qed

lemma suggestions_run_once_witness:
  "distinct (map ent_id (fst (snd (run_proactive demo_proactive (demo_execution None) (new_proactive, 0)))))
   \<and> length (fst (snd (run_proactive demo_proactive (demo_execution None) (new_proactive, 0)))) = 1"
proof
  let ?r = "run_proactive demo_proactive (demo_execution None) (new_proactive, 0)"
  have r: "?r = (fst ?r, fst (snd ?r), fst (snd (snd ?r)), snd (snd (snd ?r)))" by simp
  show "distinct (map ent_id (fst (snd ?r)))"
    by (rule suggestions_run_once [OF r]) (auto simp: demo_execution_def demo_morning_def verifier_returns_def)
  show "length (fst (snd ?r)) = 1" by code_simp
qed

text \<open>
  An exception of the verification callable leaves the suggestion approved, and the next call
  carries it out again.
\<close>

lemma raising_verifier_runs_twice:
  "snd (snd (snd (run_proactive demo_proactive (demo_execution (Some (\<lambda>_. Inl (OtherException ''no network''))))
     (new_proactive, 0)))) = 2"
  by code_simp

end
