(* ===== verification/Envelope.thy ===== *)
theory Envelope
  imports Effects Json Store
begin

text \<open>
  The message envelope of peers (\<^verbatim>\<open>interface/protocol.py\<close>): the checks of one envelope and the
  cache that rejects replays. The parser of the bytes and the authorizer are parameters; a
  \<open>ProtocolError\<close> is an \<open>OtherException\<close> with its text.
\<close>

record auth_ref =
  au_scheme :: string
  au_key :: string

record envelope = entity +
  ev_version :: string
  ev_sender :: string
  ev_sender_type :: string
  ev_message_type :: string
  ev_payload :: "(string \<times> json) list"
  ev_correlation :: string
  ev_auth :: auth_ref

definition protocol_version :: string where
  "protocol_version = ''1.0''"

definition supported_major :: string where
  "supported_major = ''1''"

definition max_envelope_bytes :: nat where
  "max_envelope_bytes = 262144"

definition skew_tolerance :: real where
  "skew_tolerance = 300"

definition seen_cache_size :: nat where
  "seen_cache_size = 10000"

text \<open>\<open>min(seen.items(), key=...)\<close> is the first entry of the least time.\<close>

fun oldest :: "(string \<times> real) list \<Rightarrow> string" where
  "oldest [] = []"
| "oldest [(k, t)] = k"
| "oldest ((k, t) # (k', t') # xs) = (if t' < t then oldest ((k', t') # xs) else oldest ((k, t) # xs))"

lemma oldest_mem: "xs \<noteq> [] \<Longrightarrow> oldest xs \<in> set (keys xs)"
  by (induction xs rule: oldest.induct) auto

lemma length_dict_del: "k \<in> set (keys d) \<Longrightarrow> length (dict_del k d) < length d"
proof (induction d)
  case (Cons x d)
  then show ?case by (cases "fst x = k") (auto simp: less_Suc_eq_le length_delete_le)
qed simp

function trim_seen :: "(string \<times> real) list \<Rightarrow> (string \<times> real) list" where
  "trim_seen seen = (if length seen > seen_cache_size then trim_seen (dict_del (oldest seen) seen) else seen)"
  by pat_completeness auto
termination
  by (relation "measure length") (auto intro!: length_dict_del oldest_mem simp del: set_map)

declare trim_seen.simps [simp del]

definition deny_all :: "envelope \<Rightarrow> bool result" where
  "deny_all e = Inr False"

definition protocol_error :: "string \<Rightarrow> exn" where
  "protocol_error t = OtherException t"

definition validate_envelope ::
  "(envelope \<Rightarrow> bool result) \<Rightarrow> real \<Rightarrow> envelope \<Rightarrow> ((string \<times> real) list, envelope) eff" where
  "validate_envelope authorize now e seen =
     (if ev_sender e = [] then eff_raise (protocol_error ''envelope has no sender'') seen
      else if ev_message_type e = [] then eff_raise (protocol_error ''envelope has no message type'') seen
      else if hd (split_char CHR ''.'' (ev_version e)) \<noteq> supported_major
        then eff_raise (protocol_error (''protocol version '' @ repr_str (ev_version e) @ '' incompatible'')) seen
      else if \<bar>now - ent_created e\<bar> > skew_tolerance then eff_raise (protocol_error ''envelope outside freshness window'') seen
      else if ent_id e \<in> set (keys seen) then eff_raise (protocol_error ''replayed envelope rejected'') seen
      else if au_scheme (ev_auth e) = [] \<or> au_key (ev_auth e) = []
        then eff_raise (protocol_error ''envelope carries no authorization context'') seen
      else case authorize e of
        Inl err \<Rightarrow> eff_raise err seen
      | Inr ok \<Rightarrow>
          if \<not> ok then eff_raise (protocol_error ''sender not authorized for this message'') seen
          else (Inr e, trim_seen (dict_set (ent_id e) now seen)))"

text \<open>\<open>parse\<close> decodes the bytes and validates the model, or fails with the text of its exception.\<close>

definition decode_envelope ::
  "(string \<Rightarrow> string + envelope) \<Rightarrow> (envelope \<Rightarrow> bool result) \<Rightarrow> real \<Rightarrow> string \<Rightarrow> ((string \<times> real) list, envelope) eff" where
  "decode_envelope parse authorize now raw seen =
     (if length raw > max_envelope_bytes then eff_raise (protocol_error ''envelope exceeds size limit'') seen
      else case parse raw of
        Inl err \<Rightarrow> eff_raise (protocol_error (''malformed envelope: '' @ err)) seen
      | Inr e \<Rightarrow> eff_then (validate_envelope authorize now e) (eff_return e) seen)"

definition check_not_expired :: "real \<Rightarrow> envelope \<Rightarrow> unit result" where
  "check_not_expired now e =
     (if \<bar>now - ent_created e\<bar> > skew_tolerance then Inl (protocol_error ''envelope expired'') else Inr ())"

definition envelope_for ::
  "string \<Rightarrow> real \<Rightarrow> string \<Rightarrow> string \<Rightarrow> string \<Rightarrow> (string \<times> json) list \<Rightarrow> string \<Rightarrow> auth_ref option \<Rightarrow> envelope" where
  "envelope_for i now sender sender_type message_type payload correlation auth =
     \<lparr>ent_id = i, ent_created = now, ent_updated = now, ev_version = protocol_version, ev_sender = sender,
      ev_sender_type = sender_type, ev_message_type = message_type, ev_payload = payload, ev_correlation = correlation,
      ev_auth = (case auth of None \<Rightarrow> \<lparr>au_scheme = [], au_key = []\<rparr> | Some a \<Rightarrow> a)\<rparr>"

subsection \<open>Streams of envelopes\<close>

text \<open>The envelopes accepted from a stream of bytes, each with the clock at its arrival.\<close>

fun accepted ::
  "(string \<Rightarrow> string + envelope) \<Rightarrow> (envelope \<Rightarrow> bool result) \<Rightarrow> (real \<times> string) list \<Rightarrow> (string \<times> real) list
     \<Rightarrow> (real \<times> envelope) list" where
  "accepted parse authorize [] seen = []"
| "accepted parse authorize ((now, raw) # msgs) seen =
     (case decode_envelope parse authorize now raw seen of
        (Inl _, seen') \<Rightarrow> accepted parse authorize msgs seen'
      | (Inr e, seen') \<Rightarrow> (now, e) # accepted parse authorize msgs seen')"

definition good_envelope :: "(envelope \<Rightarrow> bool result) \<Rightarrow> real \<Rightarrow> envelope \<Rightarrow> bool" where
  "good_envelope authorize now e \<longleftrightarrow>
     ev_sender e \<noteq> [] \<and> ev_message_type e \<noteq> [] \<and> hd (split_char CHR ''.'' (ev_version e)) = supported_major
     \<and> \<bar>now - ent_created e\<bar> \<le> skew_tolerance \<and> au_scheme (ev_auth e) \<noteq> [] \<and> au_key (ev_auth e) \<noteq> []
     \<and> authorize e = Inr True"

lemma envelope_Inr:
  "validate_envelope authorize now e seen = (Inr x, seen') \<longleftrightarrow>
     good_envelope authorize now e \<and> ent_id e \<notin> set (keys seen) \<and> x = e \<and> seen' = trim_seen (dict_set (ent_id e) now seen)"
  by (auto simp: validate_envelope_def good_envelope_def simp del: set_map split: sum.split if_splits)

lemma envelope_Inl: "validate_envelope authorize now e seen = (Inl x, seen') \<Longrightarrow> seen' = seen"
  by (auto simp: validate_envelope_def simp del: set_map split: sum.splits if_splits)

lemma decode_Inr:
  "decode_envelope parse authorize now raw seen = (Inr x, seen') \<longleftrightarrow>
     length raw \<le> max_envelope_bytes \<and> parse raw = Inr x \<and> good_envelope authorize now x
     \<and> ent_id x \<notin> set (keys seen) \<and> seen' = trim_seen (dict_set (ent_id x) now seen)"
  by (auto simp: decode_envelope_def eff_then_def eff_bind_Inr envelope_Inr simp del: set_map split: sum.split)

lemma decode_Inl: "decode_envelope parse authorize now raw seen = (Inl x, seen') \<Longrightarrow> seen' = seen"
  by (auto simp: decode_envelope_def eff_then_def eff_bind_def split: sum.splits if_splits prod.splits dest: envelope_Inl)

subsection \<open>The cache holds the latest envelopes\<close>

lemma oldest_sorted: "sorted (map snd xs) \<Longrightarrow> xs \<noteq> [] \<Longrightarrow> oldest xs = fst (hd xs)"
  by (induction xs rule: oldest.induct) auto

lemma dict_del_hd: "distinct (keys ((k, t) # xs)) \<Longrightarrow> dict_del k ((k, t) # xs) = xs"
  by (simp add: AList.delete_eq) (metis (mono_tags, lifting) filter_True fst_conv image_eqI split_beta)

definition latest_of :: "nat \<Rightarrow> 'a list \<Rightarrow> 'a list" where
  "latest_of n xs = drop (length xs - n) xs"

lemma trim_seen_latest:
  "sorted (map snd xs) \<Longrightarrow> distinct (keys xs) \<Longrightarrow> trim_seen xs = latest_of seen_cache_size xs"
proof (induction xs)
  case Nil
  then show ?case by (simp add: trim_seen.simps latest_of_def)
next
  case (Cons x xs)
  obtain k t where x: "x = (k, t)" by fastforce
  show ?case
  proof (cases "length (x # xs) > seen_cache_size")
    case True
    have "dict_del (oldest (x # xs)) (x # xs) = xs"
      using Cons.prems oldest_sorted [of "x # xs"] dict_del_hd [of k t xs] x by simp
    then have "trim_seen (x # xs) = trim_seen xs" using True by (simp add: trim_seen.simps [of "x # xs"])
    with Cons True show ?thesis by (simp add: latest_of_def Suc_diff_le)
  next
    case False
    then show ?thesis by (simp add: trim_seen.simps [of "x # xs"] latest_of_def)
  qed
qed

lemma latest_of_snoc: "0 < n \<Longrightarrow> latest_of n (latest_of n xs @ [x]) = latest_of n (xs @ [x])"
  by (cases "n \<le> length xs") (auto simp: latest_of_def Suc_diff_le)

definition cached :: "(real \<times> envelope) list \<Rightarrow> (string \<times> real) list" where
  "cached acc = latest_of seen_cache_size (map (\<lambda>(now, e). (ent_id e, now)) acc)"

lemma cache_positive: "0 < seen_cache_size"
  by (simp add: seen_cache_size_def)

lemma cached_Nil [simp]: "cached [] = []"
  by (simp add: cached_def latest_of_def)

lemma set_latest_of: "x \<in> set (latest_of n xs) \<longleftrightarrow> (\<exists>i. length xs - n \<le> i \<and> i < length xs \<and> x = xs ! i)"
proof -
  have "x \<in> set (drop m xs) \<longleftrightarrow> (\<exists>i. m \<le> i \<and> i < length xs \<and> x = xs ! i)" for m
  proof
    assume "x \<in> set (drop m xs)"
    then obtain k where "k < length xs - m" "drop m xs ! k = x" by (auto simp: in_set_conv_nth)
    then show "\<exists>i. m \<le> i \<and> i < length xs \<and> x = xs ! i" by (intro exI [of _ "m + k"]) auto
  next
    assume "\<exists>i. m \<le> i \<and> i < length xs \<and> x = xs ! i"
    then obtain i where "m \<le> i" "i < length xs" "x = xs ! i" by blast
    then have "drop m xs ! (i - m) = x" "i - m < length (drop m xs)" by auto
    then show "x \<in> set (drop m xs)" by (metis nth_mem)
  qed
  then show ?thesis by (simp add: latest_of_def)
qed

lemma keys_cached: "keys (cached acc) = latest_of seen_cache_size (map (\<lambda>x. ent_id (snd x)) acc)"
  by (simp add: cached_def latest_of_def drop_map case_prod_unfold comp_def)

lemma times_cached: "map snd (cached acc) = latest_of seen_cache_size (map fst acc)"
  by (simp add: cached_def latest_of_def drop_map case_prod_unfold comp_def)

lemma sorted_latest_of: "sorted xs \<Longrightarrow> sorted (latest_of n xs)"
  by (simp add: latest_of_def sorted_wrt_drop)

lemma cached_step:
  assumes "sorted (map fst acc)" "\<forall>x \<in> set acc. fst x \<le> now" "distinct (keys (cached acc))" "ent_id e \<notin> set (keys (cached acc))"
  shows "trim_seen (dict_set (ent_id e) now (cached acc)) = cached (acc @ [(now, e)])
    \<and> distinct (keys (cached (acc @ [(now, e)]))) \<and> sorted (map fst (acc @ [(now, e)]))"
proof -
  let ?d = "cached acc @ [(ent_id e, now)]"
  have d: "dict_set (ent_id e) now (cached acc) = ?d" by (rule dict_set_new [OF assms(4)])
  have s: "sorted (map fst (acc @ [(now, e)]))" using assms(1,2) by (simp add: sorted_append)
  have "sorted (map snd (cached acc))" unfolding times_cached by (rule sorted_latest_of [OF assms(1)])
  moreover have "\<forall>t \<in> set (map snd (cached acc)). t \<le> now"
    unfolding times_cached using assms(2) by (auto simp: latest_of_def dest!: in_set_dropD)
  ultimately have "sorted (map snd ?d)" by (simp add: sorted_append)
  moreover have dist: "distinct (keys ?d)" using assms(3,4) by simp
  ultimately have "trim_seen ?d = latest_of seen_cache_size ?d" by (rule trim_seen_latest)
  also have "\<dots> = cached (acc @ [(now, e)])"
    by (simp add: cached_def latest_of_snoc [OF cache_positive])
  finally have t: "trim_seen ?d = cached (acc @ [(now, e)])" .
  have "distinct (keys (latest_of seen_cache_size ?d))"
    using dist unfolding latest_of_def drop_map [symmetric] by (rule distinct_drop)
  with t d s \<open>trim_seen ?d = latest_of seen_cache_size ?d\<close> show ?thesis by simp
qed

definition spaced :: "string list \<Rightarrow> bool" where
  "spaced ids \<longleftrightarrow> (\<forall>i j. i < j \<longrightarrow> j < length ids \<longrightarrow> ids ! i = ids ! j \<longrightarrow> seen_cache_size < j - i)"

lemma spaced_snoc: "spaced (ids @ [x]) \<longleftrightarrow> spaced ids \<and> x \<notin> set (latest_of seen_cache_size ids)"
proof
  assume s: "spaced (ids @ [x])"
  have "spaced ids" unfolding spaced_def
  proof (intro allI impI)
    fix i j assume "i < j" "j < length ids" "ids ! i = ids ! j"
    then show "seen_cache_size < j - i" using s [unfolded spaced_def, rule_format, of i j] by (simp add: nth_append)
  qed
  moreover have "x \<notin> set (latest_of seen_cache_size ids)"
  proof
    assume "x \<in> set (latest_of seen_cache_size ids)"
    then obtain i where "length ids - seen_cache_size \<le> i" "i < length ids" "x = ids ! i" by (auto simp: set_latest_of)
    with s [unfolded spaced_def, rule_format, of i "length ids"] show False by (simp add: nth_append)
  qed
  ultimately show "spaced ids \<and> x \<notin> set (latest_of seen_cache_size ids)" ..
next
  assume a: "spaced ids \<and> x \<notin> set (latest_of seen_cache_size ids)"
  show "spaced (ids @ [x])" unfolding spaced_def
  proof (intro allI impI)
    fix i j assume ij: "i < j" "j < length (ids @ [x])" "(ids @ [x]) ! i = (ids @ [x]) ! j"
    show "seen_cache_size < j - i"
    proof (cases "j < length ids")
      case True
      with ij a show ?thesis by (simp add: spaced_def nth_append)
    next
      case False
      with ij have j: "j = length ids" "ids ! i = x" "i < length ids" by (simp_all add: nth_append)
      with a have "\<not> length ids - seen_cache_size \<le> i" by (auto simp: set_latest_of)
      with j show ?thesis by linarith
    qed
  qed
qed

lemma accepted_spaced:
  assumes "spaced (map (\<lambda>x. ent_id (snd x)) acc)" "distinct (keys (cached acc))" "sorted (map fst acc @ map fst msgs)"
    and "\<forall>x \<in> set acc. good_envelope authorize (fst x) (snd x)"
  shows "spaced (map (\<lambda>x. ent_id (snd x)) (acc @ accepted parse authorize msgs (cached acc)))
    \<and> (\<forall>x \<in> set (acc @ accepted parse authorize msgs (cached acc)). good_envelope authorize (fst x) (snd x))"
  using assms
proof (induction msgs arbitrary: acc)
  case (Cons m msgs)
  obtain now raw where m: "m = (now, raw)" by fastforce
  show ?case
  proof (cases "decode_envelope parse authorize now raw (cached acc)")
    case (Pair r seen')
    show ?thesis
    proof (cases r)
      case (Inl err)
      with Pair have "seen' = cached acc" using decode_Inl by blast
      with Pair Inl m Cons.IH [OF Cons.prems(1,2) _ Cons.prems(4)] Cons.prems(3) show ?thesis
        by (simp add: sorted_append)
    next
      case (Inr e)
      with Pair have e: "good_envelope authorize now e" "ent_id e \<notin> set (keys (cached acc))"
        "seen' = trim_seen (dict_set (ent_id e) now (cached acc))" by (simp_all add: decode_Inr del: set_map)
      have "sorted (map fst acc)" "\<forall>x \<in> set acc. fst x \<le> now"
        using Cons.prems(3) m by (auto simp: sorted_append)
      note step = cached_step [OF this Cons.prems(2) e(2)]
      have "spaced (map (\<lambda>x. ent_id (snd x)) (acc @ [(now, e)]))"
        using Cons.prems(1) e(2) by (simp add: spaced_snoc keys_cached comp_def del: set_map)
      moreover have "sorted (map fst (acc @ [(now, e)]) @ map fst msgs)" using Cons.prems(3) m by simp
      moreover have "\<forall>x \<in> set (acc @ [(now, e)]). good_envelope authorize (fst x) (snd x)" using Cons.prems(4) e(1) by simp
      ultimately have "spaced (map (\<lambda>x. ent_id (snd x)) ((acc @ [(now, e)]) @ accepted parse authorize msgs (cached (acc @ [(now, e)]))))
        \<and> (\<forall>x \<in> set ((acc @ [(now, e)]) @ accepted parse authorize msgs (cached (acc @ [(now, e)]))).
             good_envelope authorize (fst x) (snd x))"
        using Cons.IH [of "acc @ [(now, e)]"] step by blast
      with Pair Inr m e(3) step show ?thesis by simp
    qed
  qed
qed simp

text \<open>
  C24: what the envelope check lets through. Every accepted envelope names sender and type, speaks
  the supported version, is fresh at its arrival and authorized; and as long as the clock does not
  go back, an identifier is accepted again only after ten thousand other envelopes have been, so
  among any ten thousand and one accepted envelopes no two are the same.
\<close>

theorem replays_are_rejected:
  assumes "sorted (map fst msgs)" "accepted parse authorize msgs [] = acc"
  shows "(\<forall>x \<in> set acc. good_envelope authorize (fst x) (snd x))
    \<and> (\<forall>i j. i < j \<and> j < length acc \<and> ent_id (snd (acc ! i)) = ent_id (snd (acc ! j)) \<longrightarrow> 10000 < j - i)
    \<and> (length acc \<le> 10001 \<longrightarrow> distinct (map (\<lambda>x. ent_id (snd x)) acc))"
proof -
  have "spaced (map (\<lambda>x. ent_id (snd x)) acc) \<and> (\<forall>x \<in> set acc. good_envelope authorize (fst x) (snd x))"
    using accepted_spaced [of "[]" msgs authorize parse] assms by (simp add: spaced_def)
  moreover from this have sp: "10000 < j - i"
    if "i < j" "j < length acc" "ent_id (snd (acc ! i)) = ent_id (snd (acc ! j))" for i j
    using that by (simp add: spaced_def seen_cache_size_def)
  moreover have "distinct (map (\<lambda>x. ent_id (snd x)) acc)" if "length acc \<le> 10001"
    unfolding distinct_conv_nth
  proof (intro allI impI)
    fix i j assume ij: "i < length (map (\<lambda>x. ent_id (snd x)) acc)" "j < length (map (\<lambda>x. ent_id (snd x)) acc)" "i \<noteq> j"
    show "map (\<lambda>x. ent_id (snd x)) acc ! i \<noteq> map (\<lambda>x. ent_id (snd x)) acc ! j"
    proof (cases "i < j")
      case True
      with ij that sp [of i j] show ?thesis by fastforce
    next
      case False
      with ij that sp [of j i] show ?thesis by fastforce
    qed
  qed
  ultimately show ?thesis by blast
qed

subsection \<open>Examples\<close>

definition peer :: "string \<Rightarrow> envelope" where
  "peer i = envelope_for i 0 ''pc'' ''PC'' ''STATUS'' [] [] (Some \<lparr>au_scheme = ''hmac'', au_key = ''k1''\<rparr>)"

definition parse_peer :: "string \<Rightarrow> string + envelope" where
  "parse_peer i = Inr (peer i)"

lemma replays_are_rejected_witness:
  "map (\<lambda>x. ent_id (snd x)) (accepted parse_peer (\<lambda>_. Inr True) [(0, ''a''), (1, ''a''), (2, ''b''), (301, ''c'')] []) = [''a'', ''b'']
   \<and> distinct (map (\<lambda>x. ent_id (snd x)) (accepted parse_peer (\<lambda>_. Inr True) [(0, ''a''), (1, ''a''), (2, ''b''), (301, ''c'')] []))"
proof -
  let ?acc = "accepted parse_peer (\<lambda>_. Inr True) [(0, ''a''), (1, ''a''), (2, ''b''), (301, ''c'')] []"
  have ids: "map (\<lambda>x. ent_id (snd x)) ?acc = [''a'', ''b'']"
    by (simp add: decode_envelope_def max_envelope_bytes_def parse_peer_def validate_envelope_def eff_then_def eff_bind_def
        peer_def envelope_for_def protocol_version_def supported_major_def skew_tolerance_def trim_seen.simps seen_cache_size_def)
  then have "length ?acc = 2" by (metis length_map One_nat_def Suc_1 length_Cons list.size(3))
  then have short: "length ?acc \<le> 10001" by linarith
  have "sorted (map fst [(0 :: real, ''a''), (1, ''a''), (2, ''b''), (301, ''c'')])" by simp
  note r = replays_are_rejected [OF this HOL.refl, of parse_peer "\<lambda>_. Inr True"]
  have "distinct (map (\<lambda>x. ent_id (snd x)) ?acc)" by (rule mp [OF conjunct2 [OF conjunct2 [OF r]] short])
  with ids show ?thesis by blast
qed

text \<open>
  The window outlives the cache: ten thousand envelopes push an identifier out while its envelope is
  still fresh, and the first envelope is accepted again.
\<close>

lemma accepted_all:
  assumes "\<forall>r \<in> set raws. length r \<le> max_envelope_bytes"
    and "spaced (map (\<lambda>x. ent_id (snd x)) acc @ raws)" "\<forall>x \<in> set acc. fst x = 0" "distinct (keys (cached acc))"
  shows "accepted parse_peer (\<lambda>_. Inr True) (map (Pair 0) raws) (cached acc) = map (\<lambda>r. (0, peer r)) raws"
  using assms
proof (induction raws arbitrary: acc)
  case (Cons r raws)
  have id: "ent_id (peer r) = r" by (simp add: peer_def envelope_for_def)
  have good: "good_envelope (\<lambda>_. Inr True) 0 (peer r)"
    by (simp add: good_envelope_def peer_def envelope_for_def protocol_version_def supported_major_def skew_tolerance_def)
  have "spaced (map (\<lambda>x. ent_id (snd x)) acc @ [r])"
    unfolding spaced_def
  proof (intro allI impI)
    fix i j assume "i < j" "j < length (map (\<lambda>x. ent_id (snd x)) acc @ [r])"
      "(map (\<lambda>x. ent_id (snd x)) acc @ [r]) ! i = (map (\<lambda>x. ent_id (snd x)) acc @ [r]) ! j"
    then show "seen_cache_size < j - i"
      using Cons.prems(2) [unfolded spaced_def, rule_format, of i j] by (simp add: nth_append nth_Cons')
  qed
  then have new: "ent_id (peer r) \<notin> set (keys (cached acc))" by (simp add: spaced_snoc keys_cached id comp_def del: set_map)
  have srt: "sorted (map fst acc)" "\<forall>x \<in> set acc. fst x \<le> 0"
    using Cons.prems(3) by (auto simp: sorted_iff_nth_mono)
  note step = cached_step [OF srt Cons.prems(4) new]
  have "accepted parse_peer (\<lambda>_. Inr True) (map (Pair 0) raws) (cached (acc @ [(0, peer r)])) = map (\<lambda>r. (0, peer r)) raws"
    by (rule Cons.IH) (use Cons.prems step id in auto)
  moreover have "decode_envelope parse_peer (\<lambda>_. Inr True) 0 r (cached acc) = (Inr (peer r), cached (acc @ [(0, peer r)]))"
    using Cons.prems(1) good new step by (simp add: decode_Inr parse_peer_def del: set_map)
  ultimately show ?case by simp
qed simp

lemma length_nat_digits: "length (nat_digits n) \<le> n + 1"
proof (induction n rule: nat_digits.induct)
  case (1 n)
  show ?case
  proof (cases "n < 10")
    case True
    then show ?thesis by (simp add: nat_digits.simps [of n])
  next
    case False
    with 1 have "length (nat_digits (n div 10)) \<le> n div 10 + 1" by simp
    moreover have "length (nat_digits n) = length (nat_digits (n div 10)) + 1"
      using False by (simp add: nat_digits.simps [of n])
    moreover have "n div 10 + 2 \<le> n + 1" using False by linarith
    ultimately show ?thesis by linarith
  qed
qed

definition flood :: "string list" where
  "flood = map nat_digits ([0..<10001] @ [0])"

lemma fresh_replay_after_flood:
  "accepted parse_peer (\<lambda>_. Inr True) (map (Pair 0) flood) [] = map (\<lambda>r. (0, peer r)) flood
   \<and> flood ! 0 = flood ! 10001 \<and> length flood = 10002"
proof -
  have "spaced flood" unfolding spaced_def
  proof (intro allI impI)
    fix i j assume ij: "i < j" "j < length flood" "flood ! i = flood ! j"
    have at: "flood ! k = nat_digits (if k < 10001 then k else 0)" if "k < 10002" for k
      using that unfolding flood_def by (simp add: nth_append del: upt_Suc)
    have "length flood = 10002" by (simp add: flood_def)
    with ij at [of i] at [of j] have "(if i < 10001 then i else 0) = (if j < 10001 then j else 0)"
      by (simp add: nat_digits_inj)
    with ij \<open>length flood = 10002\<close> show "seen_cache_size < j - i"
      by (auto simp: seen_cache_size_def split: if_splits)
  qed
  moreover have "\<forall>r \<in> set flood. length r \<le> max_envelope_bytes"
    using length_nat_digits by (fastforce simp: flood_def max_envelope_bytes_def intro: order_trans)
  ultimately have "accepted parse_peer (\<lambda>_. Inr True) (map (Pair 0) flood) [] = map (\<lambda>r. (0, peer r)) flood"
    using accepted_all [of flood "[]"] by simp
  then show ?thesis by (simp add: flood_def nth_append del: upt_Suc)
qed

end
