(* ===== verification/Startup.thy ===== *)
theory Startup
  imports Agents Scheduler Audit_Log
begin

text \<open>
  Startup and shutdown (\<^verbatim>\<open>core/lifecycle.py\<close>) over the agent manager, the scheduled jobs and the
  audit log: what a crash left running goes back to its queue, and the chain is verified. The audit
  log is given as it can be read, or as the text of the exception that reading it raises.
\<close>

record startup_report =
  sr_agent_tasks :: int
  sr_jobs :: int
  sr_audit_ok :: bool
  sr_audit_detail :: string

text \<open>The loop over the listed jobs.\<close>

definition reset_jobs :: "'v sched_cfg \<Rightarrow> 'v sched \<Rightarrow> nat \<times> 'v sched" where
  "reset_jobs c s =
     fold (\<lambda>j (n, s'). if sj_status j = J_RUNNING then (n + 1, job_save c (j\<lparr>sj_status := J_QUEUED\<rparr>) s') else (n, s'))
       (job_list s) (0, s)"

definition startup_recovery ::
  "(string \<Rightarrow> string) \<Rightarrow> (real \<Rightarrow> string) \<Rightarrow> ('w agents_cfg \<times> 'w agents) option \<Rightarrow> ('v sched_cfg \<times> 'v sched) option
     \<Rightarrow> string + audit_log \<Rightarrow> (startup_report \<times> 'w agents option \<times> 'v sched option) option" where
  "startup_recovery sha ts runtime repo trail =
     (let (tasks, agents') = (case runtime of None \<Rightarrow> (0, None)
            | Some (c, a) \<Rightarrow> (let (reset, a') = resume_agent_tasks c a in (int (length reset), Some a')));
          (jobs, sched') = (case repo of None \<Rightarrow> (0, None)
            | Some (c, s) \<Rightarrow> (let (n, s') = reset_jobs c s in (int n, Some s')))
      in case (case trail of Inl err \<Rightarrow> Some (False, ''audit unreadable: '' @ err) | Inr al \<Rightarrow> audit_verify sha ts al) of
           None \<Rightarrow> None
         | Some (ok, detail) \<Rightarrow>
             Some (\<lparr>sr_agent_tasks = tasks, sr_jobs = jobs, sr_audit_ok = ok, sr_audit_detail = detail\<rparr>, agents', sched'))"

text \<open>A resource with the methods it has; a call gives the text of its exception, if any.\<close>

record 'w closable =
  cb_class :: string
  cb_shutdown :: "('w \<Rightarrow> string option \<times> 'w) option"
  cb_stop :: "('w \<Rightarrow> string option \<times> 'w) option"
  cb_close :: "('w \<Rightarrow> string option \<times> 'w) option"
  cb_call :: "('w \<Rightarrow> string option \<times> 'w) option"

definition close_one :: "'w closable \<Rightarrow> 'w \<Rightarrow> string option \<times> 'w" where
  "close_one x w =
     (case cb_shutdown x of Some f \<Rightarrow> f w
      | None \<Rightarrow> (case cb_stop x of Some f \<Rightarrow> f w
      | None \<Rightarrow> (case cb_close x of Some f \<Rightarrow> f w
      | None \<Rightarrow> (case cb_call x of Some f \<Rightarrow> f w | None \<Rightarrow> (None, w)))))"

definition shutdown_all :: "'w closable list \<Rightarrow> 'w \<Rightarrow> string list \<times> 'w" where
  "shutdown_all xs w =
     fold (\<lambda>x (errors, w'). case close_one x w' of
         (None, w2) \<Rightarrow> (errors, w2)
       | (Some err, w2) \<Rightarrow> (errors @ [cb_class x @ '': '' @ err], w2)) (rev xs) ([], w)"

text \<open>An exception stops nothing: every resource is closed, in reverse order.\<close>

lemma shutdown_all_closes_all: "snd (shutdown_all xs w) = fold (\<lambda>x. snd \<circ> close_one x) (rev xs) w"
proof -
  have "snd (fold (\<lambda>x (errors, w'). case close_one x w' of
         (None, w2) \<Rightarrow> (errors, w2)
       | (Some err, w2) \<Rightarrow> (errors @ [cb_class x @ '': '' @ err], w2)) ys (es, w))
     = fold (\<lambda>x. snd \<circ> close_one x) ys w" for ys es
    by (induction ys arbitrary: es w) (auto split: prod.split option.split)
  then show ?thesis by (simp add: shutdown_all_def)
qed

subsection \<open>What was running\<close>

lemma fold_put_rows:
  assumes "\<And>x s. \<exists>now. tab (save x s) = tbl_put now x (tab s)" "distinct (map ent_id xs)"
  shows "if i \<in> ent_id ` set xs then \<exists>x now. x \<in> set xs \<and> ent_id x = i \<and> tbl_get i (tab (fold save xs s)) = Some (touch now x)
    else tbl_get i (tab (fold save xs s)) = tbl_get i (tab s)"
  using assms(2)
proof (induction xs arbitrary: s)
  case (Cons x xs)
  obtain now where now: "tab (save x s) = tbl_put now x (tab s)" using assms(1) by blast
  then have row: "tbl_get i (tab (save x s)) = (if i = ent_id x then Some (touch now x) else tbl_get i (tab s))"
    by (auto simp: tbl_put_def store_simps tbl_get_def)
  have IH: "if i \<in> ent_id ` set xs
    then \<exists>y now. y \<in> set xs \<and> ent_id y = i \<and> tbl_get i (tab (fold save xs (save x s))) = Some (touch now y)
    else tbl_get i (tab (fold save xs (save x s))) = tbl_get i (tab (save x s))"
    by (rule Cons.IH) (use Cons.prems in simp)
  show ?case
  proof (cases "i \<in> ent_id ` set xs")
    case True
    with IH show ?thesis by auto
  next
    case False
    with IH row show ?thesis by (auto split: if_splits)
  qed
qed simp

text \<open>\<open>reset_rows P f t t'\<close>: the rows that satisfy \<open>P\<close> are changed by \<open>f\<close>, the others are as they were.\<close>

definition reset_rows ::
  "('a entity_scheme \<Rightarrow> bool) \<Rightarrow> ('a entity_scheme \<Rightarrow> 'a entity_scheme) \<Rightarrow> 'a entity_scheme table \<Rightarrow> 'a entity_scheme table \<Rightarrow> bool" where
  "reset_rows P f t t' \<longleftrightarrow> (\<forall>i. case tbl_get i t of
       None \<Rightarrow> tbl_get i t' = None
     | Some x \<Rightarrow> if P x then \<exists>now. tbl_get i t' = Some (touch now (f x)) else tbl_get i t' = Some x)"

lemma fold_reset_rows:
  assumes wf: "wf_table (tab s)" and xs: "mset xs = mset (tbl_list (tab s))"
    and save: "\<And>x s. \<exists>now. tab (save x s) = tbl_put now x (tab s)"
    and id: "\<And>x. ent_id (f x) = ent_id x"
  shows "reset_rows P f (tab s) (tab (fold save (map f (filter P xs)) s))"
  unfolding reset_rows_def
proof
  fix i
  let ?xs = "filter P xs"
  have "distinct (map ent_id (map f ?xs))"
    using distinct_tbl_list [OF wf] mset_eq_imp_distinct_iff [of "map ent_id xs" "map ent_id (tbl_list (tab s))"] xs
    by (simp add: comp_def id distinct_map_filter)
  note rows = fold_put_rows [of tab save, OF save this, of i s]
  have mem: "x \<in> set ?xs \<longleftrightarrow> tbl_get (ent_id x) (tab s) = Some x \<and> P x" for x
    using set_tbl_list [OF wf] mset_eq_setD [OF xs] by auto
  have ids: "i \<in> ent_id ` set (map f ?xs) \<longleftrightarrow> (\<exists>x. tbl_get i (tab s) = Some x \<and> P x)"
  proof
    assume "i \<in> ent_id ` set (map f ?xs)"
    then obtain x where "x \<in> set ?xs" "ent_id x = i" using id by auto
    then show "\<exists>x. tbl_get i (tab s) = Some x \<and> P x" using mem by auto
  next
    assume "\<exists>x. tbl_get i (tab s) = Some x \<and> P x"
    then obtain x where x: "tbl_get i (tab s) = Some x" "P x" by blast
    then have "ent_id x = i" using wf_table_get [OF wf] by (simp add: tbl_get_def)
    with x mem have "x \<in> set ?xs" by simp
    with \<open>ent_id x = i\<close> show "i \<in> ent_id ` set (map f ?xs)" using id by (metis image_eqI image_image list.set_map)
  qed
  show "case tbl_get i (tab s) of
       None \<Rightarrow> tbl_get i (tab (fold save (map f ?xs) s)) = None
     | Some x \<Rightarrow> if P x then \<exists>now. tbl_get i (tab (fold save (map f ?xs) s)) = Some (touch now (f x))
         else tbl_get i (tab (fold save (map f ?xs) s)) = Some x"
  proof (cases "tbl_get i (tab s)")
    case None
    with rows ids show ?thesis by simp
  next
    case (Some x)
    show ?thesis
    proof (cases "P x")
      case True
      with Some ids rows obtain y now where y: "y \<in> set (map f ?xs)" "ent_id y = i"
        "tbl_get i (tab (fold save (map f ?xs) s)) = Some (touch now y)" by auto
      then obtain z where "z \<in> set ?xs" "y = f z" by auto
      moreover from this y have "ent_id z = i" using id by simp
      ultimately have "y = f x" using mem Some by auto
      with y True Some show ?thesis by auto
    next
      case False
      with Some ids rows show ?thesis by simp
    qed
  qed
qed

lemma reset_jobs_eq:
  "reset_jobs c s = (length (filter (\<lambda>j. sj_status j = J_RUNNING) (job_list s)),
     fold (job_save c) (map (\<lambda>j. j\<lparr>sj_status := J_QUEUED\<rparr>) (filter (\<lambda>j. sj_status j = J_RUNNING) (job_list s))) s)"
proof -
  have "fold (\<lambda>j (n, s'). if sj_status j = J_RUNNING then (n + 1, job_save c (j\<lparr>sj_status := J_QUEUED\<rparr>) s') else (n, s')) js (n, s)
    = (n + length (filter (\<lambda>j. sj_status j = J_RUNNING) js),
       fold (job_save c) (map (\<lambda>j. j\<lparr>sj_status := J_QUEUED\<rparr>) (filter (\<lambda>j. sj_status j = J_RUNNING) js)) s)" for js n
    by (induction js arbitrary: n s) auto
  then show ?thesis by (simp add: reset_jobs_def)
qed

text \<open>
  C29: a restart puts the world back in order. After the startup recovery the agent tasks that were
  running are ready and marked as interrupted, the scheduled jobs that were running are queued with
  their attempts as they were, every other row is untouched, the report counts both exactly, and it
  says of the audit log what its verification says.
\<close>

theorem startup_resets_interrupted:
  assumes "startup_recovery sha ts (Some (ca, a)) (Some (cs, s)) trail = Some (rep, Some a', Some s')"
    and "wf_table (ga_tasks a)" "wf_table (sd_jobs s)"
  shows "reset_rows (\<lambda>t. gt_status t = M_RUNNING) (\<lambda>t. t\<lparr>gt_status := M_READY, gt_interrupted := True\<rparr>) (ga_tasks a) (ga_tasks a')
    \<and> reset_rows (\<lambda>j. sj_status j = J_RUNNING) (\<lambda>j. j\<lparr>sj_status := J_QUEUED\<rparr>) (sd_jobs s) (sd_jobs s')
    \<and> sr_agent_tasks rep = int (length (filter (\<lambda>t. gt_status t = M_RUNNING) (tbl_list (ga_tasks a))))
    \<and> sr_jobs rep = int (length (filter (\<lambda>j. sj_status j = J_RUNNING) (tbl_list (sd_jobs s))))
    \<and> (case trail of Inl err \<Rightarrow> \<not> sr_audit_ok rep
        | Inr al \<Rightarrow> audit_verify sha ts al = Some (sr_audit_ok rep, sr_audit_detail rep))"
proof -
  have a': "a' = snd (resume_agent_tasks ca a)" "sr_agent_tasks rep = int (length (fst (resume_agent_tasks ca a)))"
    and s': "s' = snd (reset_jobs cs s)" "sr_jobs rep = int (fst (reset_jobs cs s))"
    and trail: "(case trail of Inl err \<Rightarrow> Some (False, ''audit unreadable: '' @ err) | Inr al \<Rightarrow> audit_verify sha ts al)
      = Some (sr_audit_ok rep, sr_audit_detail rep)"
    using assms(1) by (auto simp: startup_recovery_def split: option.splits prod.splits)
  have tab_task: "\<exists>now. ga_tasks (task_save ca x q) = tbl_put now x (ga_tasks q)" for x and q :: "'a agents"
    by (auto simp: task_save_def)
  have tab_job: "\<exists>now. sd_jobs (job_save cs x q) = tbl_put now x (sd_jobs q)" for x and q :: "'b sched"
    by (auto simp: job_save_def)
  have same: "mset (list_agent_tasks a) = mset (tbl_list (ga_tasks a))" by (simp add: list_agent_tasks_def)
  have len: "length (filter P (list_agent_tasks a)) = length (filter P (tbl_list (ga_tasks a)))" for P
    using same by (metis mset_filter size_mset)
  have tasks: "reset_rows (\<lambda>t. gt_status t = M_RUNNING) (\<lambda>t. t\<lparr>gt_status := M_READY, gt_interrupted := True\<rparr>) (ga_tasks a) (ga_tasks a')"
    using fold_reset_rows [OF assms(2) same tab_task, of "\<lambda>t. t\<lparr>gt_status := M_READY, gt_interrupted := True\<rparr>" "\<lambda>t. gt_status t = M_RUNNING"]
    by (simp add: a' resume_agent_tasks_def Let_def)
  have jobs: "reset_rows (\<lambda>j. sj_status j = J_RUNNING) (\<lambda>j. j\<lparr>sj_status := J_QUEUED\<rparr>) (sd_jobs s) (sd_jobs s')"
    using fold_reset_rows [OF assms(3) HOL.refl tab_job, of "\<lambda>j. j\<lparr>sj_status := J_QUEUED\<rparr>" "\<lambda>j. sj_status j = J_RUNNING"]
    by (simp add: s' reset_jobs_eq job_list_def)
  have "case trail of Inl err \<Rightarrow> \<not> sr_audit_ok rep
      | Inr al \<Rightarrow> audit_verify sha ts al = Some (sr_audit_ok rep, sr_audit_detail rep)"
    using trail by (simp split: sum.splits)
  with tasks jobs show ?thesis
    by (simp add: a'(2) s'(2) resume_agent_tasks_def reset_jobs_eq job_list_def Let_def len)
qed

subsection \<open>Example\<close>

definition crashed_agents :: "string list agents" where
  "crashed_agents = scribe_state\<lparr>ga_tasks := [(''t'', (scribe_task ''t'')\<lparr>gt_status := M_RUNNING\<rparr>)]\<rparr>"

definition crashed_jobs :: "(unit \<times> (sched_job \<times> compute_target) list) sched" where
  "crashed_jobs = (new_sched ((), []))\<lparr>sd_jobs := [(''j'', (example_job ''j'' [] 2)\<lparr>sj_status := J_RUNNING, sj_attempts := 1\<rparr>)]\<rparr>"

lemma startup_resets_interrupted_witness:
  "\<exists>rep a' s' t j. startup_recovery id (\<lambda>_. []) (Some (logged_cfg, crashed_agents)) (Some (example_sched, crashed_jobs)) (Inl ''locked'')
       = Some (rep, Some a', Some s')
     \<and> sr_agent_tasks rep = 1 \<and> sr_jobs rep = 1 \<and> \<not> sr_audit_ok rep
     \<and> tbl_get ''t'' (ga_tasks a') = Some t \<and> gt_status t = M_READY \<and> gt_interrupted t
     \<and> tbl_get ''j'' (sd_jobs s') = Some j \<and> sj_status j = J_QUEUED \<and> sj_attempts j = 1"
proof -
  obtain ts1 a1 where "resume_agent_tasks logged_cfg crashed_agents = (ts1, a1)" by fastforce
  moreover obtain n1 s1 where "reset_jobs example_sched crashed_jobs = (n1, s1)" by fastforce
  ultimately obtain rep a' s' where r: "startup_recovery id (\<lambda>_. []) (Some (logged_cfg, crashed_agents)) (Some (example_sched, crashed_jobs))
      (Inl ''locked'') = Some (rep, Some a', Some s')"
    by (simp add: startup_recovery_def split: prod.split)
  have wf: "wf_table (ga_tasks crashed_agents)" "wf_table (sd_jobs crashed_jobs)"
    by (simp_all add: wf_table_def crashed_agents_def crashed_jobs_def scribe_task_def example_job_def)
  note f = startup_resets_interrupted [OF r wf]
  have tasks: "tbl_get ''t'' (ga_tasks crashed_agents) = Some ((scribe_task ''t'')\<lparr>gt_status := M_RUNNING\<rparr>)"
    and jobs: "tbl_get ''j'' (sd_jobs crashed_jobs) = Some ((example_job ''j'' [] 2)\<lparr>sj_status := J_RUNNING, sj_attempts := 1\<rparr>)"
    by (simp_all add: crashed_agents_def crashed_jobs_def tbl_get_def)
  obtain t where "tbl_get ''t'' (ga_tasks a') = Some t" "gt_status t = M_READY" "gt_interrupted t"
    using conjunct1 [OF f, unfolded reset_rows_def, rule_format, of "''t''"] by (auto simp: tasks touch_def)
  moreover obtain j where "tbl_get ''j'' (sd_jobs s') = Some j" "sj_status j = J_QUEUED" "sj_attempts j = 1"
    using conjunct1 [OF conjunct2 [OF f], unfolded reset_rows_def, rule_format, of "''j''"] by (auto simp: jobs touch_def)
  moreover have "sr_agent_tasks rep = 1" "sr_jobs rep = 1" "\<not> sr_audit_ok rep"
    using f by (simp_all add: crashed_agents_def crashed_jobs_def tbl_list_def)
  ultimately show ?thesis using r by blast
qed

end
