(* ===== verification/Research.thy ===== *)
theory Research
  imports Recovery Keywords Policy Events
begin

text \<open>
  Research (\<^verbatim>\<open>intelligence/research/\<close>): sources gathered through a search tool, evidence extracted
  from them, ranked, and conflicts between them kept. The runner of the tool is a parameter that
  returns a result or raises with a text; so are pydantic's reading of an entry, SHA-256, rounding,
  new identifiers and the readings of the clock. Times are seconds.
\<close>

subsection \<open>Data\<close>

record research_query = entity +
  rq_query :: string
  rq_max_sources :: int
  rq_max_age :: real
  rq_min_confidence :: real

record research_source = entity +
  so_title :: string
  so_origin :: string
  so_url :: string
  so_retrieved :: real
  so_content :: string
  so_claims :: "string list"
  so_quality :: real
  so_metadata :: "(string \<times> json) list"

record evidence = entity +
  ed_source :: string
  ed_claim :: string
  ed_reference :: string
  ed_topic :: string
  ed_confidence :: real
  ed_relevance :: real

record conflict = entity +
  cf_topic :: string
  cf_evidence :: "string list"
  cf_claims :: "string list"
  cf_sources :: "string list"
  cf_reason :: string

record duplicate_ref =
  du_source :: string
  du_of :: string
  du_reason :: string

record research_outcome = entity +
  rr_query :: string
  rr_sources :: "research_source list"
  rr_evidence :: "evidence list"
  rr_conflicts :: "conflict list"
  rr_duplicates :: "duplicate_ref list"
  rr_confidence :: real
  rr_notes :: "string list"

definition research_stopwords :: "string list" where
  "research_stopwords = split_char CHR '' '' (
     ''a an the and or but of to in on for with is are was were be been '' @
     ''it its this that these those as at by from into over after such no '' @
     ''not only also than then there their what when where which who will '' @
     ''can has have had do does did how why vs via per'')"

subsection \<open>Collecting sources\<close>

definition normalize_url :: "string \<Rightarrow> string" where
  "normalize_url url =
     rev (dropWhile (\<lambda>ch. ch = CHR ''/'') (rev (hd (split_char CHR ''#'' (lower_str (strip_str url))))))"

definition source_key :: "(string \<Rightarrow> string) \<Rightarrow> research_source \<Rightarrow> string" where
  "source_key sha s =
     (let n = normalize_url (so_url s) in
      if n \<noteq> [] then ''url:'' @ n else ''content:'' @ sha (so_content s))"

record collection =
  co_sources :: "research_source list"
  co_rejected :: "string list"
  co_duplicates :: "duplicate_ref list"
  co_attempts :: int
  co_error :: string

definition nothing_collected :: "int \<Rightarrow> string \<Rightarrow> collection" where
  "nothing_collected n err = \<lparr>co_sources = [], co_rejected = [], co_duplicates = [], co_attempts = n, co_error = err\<rparr>"

definition reject_entry :: "nat \<Rightarrow> string \<Rightarrow> collection \<Rightarrow> collection" where
  "reject_entry index why c = c\<lparr>co_rejected := co_rejected c @ [''entry '' @ nat_digits index @ '': '' @ why]\<rparr>"

text \<open>One turn of the loop over the entries; \<open>read\<close> validates an entry, by its place.\<close>

definition parse_entry ::
  "(string \<Rightarrow> string) \<Rightarrow> (nat \<Rightarrow> (string \<times> json) list \<Rightarrow> string + research_source) \<Rightarrow> nat \<Rightarrow> json
     \<Rightarrow> (string \<times> string) list \<times> collection \<Rightarrow> (string \<times> string) list \<times> collection" where
  "parse_entry sha read index entry st =
     (case st of (seen, c) \<Rightarrow>
      case entry of
        JObj ms \<Rightarrow>
          (case read index ms of
             Inl err \<Rightarrow> (seen, reject_entry index (''invalid ('' @ err @ '')'') c)
           | Inr s \<Rightarrow>
               if so_origin s = [] then (seen, reject_entry index ''missing origin'' c)
               else if so_content s = [] \<and> so_claims s = [] then (seen, reject_entry index ''empty content'' c)
               else case map_of seen (source_key sha s) of
                 Some first \<Rightarrow> (seen, c\<lparr>co_duplicates := co_duplicates c @
                    [\<lparr>du_source = ent_id s, du_of = first, du_reason = ''identical source reference already collected''\<rparr>]\<rparr>)
               | None \<Rightarrow> (dict_set (source_key sha s) (ent_id s) seen, c\<lparr>co_sources := co_sources c @ [s]\<rparr>))
      | _ \<Rightarrow> (seen, reject_entry index ''not a mapping'' c))"

fun parse_entries ::
  "(string \<Rightarrow> string) \<Rightarrow> (nat \<Rightarrow> (string \<times> json) list \<Rightarrow> string + research_source) \<Rightarrow> nat \<Rightarrow> json list
     \<Rightarrow> (string \<times> string) list \<times> collection \<Rightarrow> (string \<times> string) list \<times> collection" where
  "parse_entries sha read index [] st = st"
| "parse_entries sha read index (x # xs) st = parse_entries sha read (Suc index) xs (parse_entry sha read index x st)"

text \<open>\<open>enumerate(entries)\<close> over what \<open>output.get("sources", [])\<close> gave.\<close>

definition entries_of :: "json \<Rightarrow> json list result" where
  "entries_of output =
     (case output of
        JObj ms \<Rightarrow>
          (case map_of ms ''sources'' of
             None \<Rightarrow> Inr []
           | Some (JList xs) \<Rightarrow> Inr xs
           | Some (JObj d) \<Rightarrow> Inr (map (JStr \<circ> fst) d)
           | Some (JStr s) \<Rightarrow> Inr (map (\<lambda>ch. JStr [ch]) s)
           | Some _ \<Rightarrow> Inl (OtherException ''object is not iterable''))
      | _ \<Rightarrow> Inr [])"

definition parse_output ::
  "(string \<Rightarrow> string) \<Rightarrow> (nat \<Rightarrow> (string \<times> json) list \<Rightarrow> string + research_source) \<Rightarrow> json \<Rightarrow> int \<Rightarrow> collection result" where
  "parse_output sha read output attempts =
     bind_result (entries_of output) (\<lambda>xs. Inr (snd (parse_entries sha read 0 xs ([], nothing_collected attempts []))))"

text \<open>
  The configuration of a collector: \<open>cs_run\<close> runs a call against the world, \<open>cs_new_id\<close> names the
  call of an attempt.
\<close>

record ('w, 'h) collector =
  cs_registry :: "'h registry"
  cs_run :: "tool_call \<Rightarrow> 'w \<Rightarrow> (string + tool_result) \<times> 'w"
  cs_tool :: string
  cs_retry :: retry_policy
  cs_max_attempts :: int
  cs_sha :: "string \<Rightarrow> string"
  cs_read :: "nat \<Rightarrow> (string \<times> json) list \<Rightarrow> string + research_source"
  cs_new_id :: "nat \<Rightarrow> string"

text \<open>The attempts from \<open>attempt\<close> on, \<open>left\<close> of them.\<close>

fun search_attempts ::
  "('w, 'h) collector \<Rightarrow> research_query \<Rightarrow> string \<Rightarrow> nat \<Rightarrow> nat \<Rightarrow> int \<times> string \<Rightarrow> 'w \<Rightarrow> collection result \<times> 'w" where
  "search_attempts k q task attempt 0 (attempts, last_error) w = (Inr (nothing_collected attempts last_error), w)"
| "search_attempts k q task attempt (Suc left) (attempts, last_error) w =
     (case build_call (cs_new_id k attempt) task (cs_tool k)
          (JObj [(''query'', JStr (rq_query q)), (''max_results'', JInt (rq_max_sources q))]) (cs_registry k) of
        Inl e \<Rightarrow> (Inl e, w)
      | Inr call \<Rightarrow>
          (case cs_run k call w of
             (Inl err, w') \<Rightarrow> (Inr (nothing_collected (int attempt) (''runner raised: '' @ err)), w')
           | (Inr r, w') \<Rightarrow>
               if tr_success r then (parse_output (cs_sha k) (cs_read k) (tr_output r) (int attempt), w')
               else let err = error_or ''search tool failed'' (tr_error r) in
                 if \<not> should_retry (cs_retry k) (classify_tool_result r) (int attempt - 1)
                 then (Inr (nothing_collected (int attempt) err), w')
                 else search_attempts k q task (Suc attempt) left (int attempt, err) w'))"

definition collect_sources :: "('w, 'h) collector \<Rightarrow> research_query \<Rightarrow> string \<Rightarrow> 'w \<Rightarrow> collection result \<times> 'w" where
  "collect_sources k q task w = search_attempts k q task 1 (nat (max 1 (cs_max_attempts k))) (0, []) w"

subsection \<open>Evidence\<close>

definition significant_words :: "string \<Rightarrow> string list" where
  "significant_words s = filter (\<lambda>w. w \<notin> set research_stopwords \<and> length w > 2) (words_of s)"

definition evidence_relevance :: "string \<Rightarrow> string \<Rightarrow> real" where
  "evidence_relevance query claim =
     (let qs = remdups (significant_words query) in
      if qs = [] then 0 else real (common_words qs (significant_words claim)) / real (length qs))"

definition topic_of :: "string \<Rightarrow> string" where
  "topic_of claim = (let ws = take 3 (significant_words claim) in if ws \<noteq> [] then join_str '' '' ws else ''general'')"

text \<open>
  \<open>re.split(r"(?<=[.!?])\s+|\n+", s)\<close>: \<open>stop\<close> says that a sentence mark stands before, \<open>acc\<close> is the part
  being read, reversed.
\<close>

definition sentence_mark :: "char \<Rightarrow> bool" where
  "sentence_mark ch \<longleftrightarrow> ch \<in> {CHR ''.'', CHR ''!'', CHR ''?''}"

function sentence_parts :: "bool \<Rightarrow> string \<Rightarrow> string \<Rightarrow> string list" where
  "sentence_parts stop acc [] = [rev acc]"
| "sentence_parts stop acc (ch # cs) =
     (if stop \<and> is_space_char ch then rev acc # sentence_parts False [] (dropWhile is_space_char cs)
      else if ch = CHR 0x0A then rev acc # sentence_parts False [] (dropWhile (\<lambda>x. x = CHR 0x0A) cs)
      else sentence_parts (sentence_mark ch) (ch # acc) cs)"
  by pat_completeness auto
termination
  by (relation "measure (\<lambda>(stop, acc, s). length s)") (auto simp: less_Suc_eq_le length_dropWhile_le)

definition split_sentences :: "string \<Rightarrow> string list" where
  "split_sentences content = filter (\<lambda>p. length p \<ge> 20) (map strip_str (sentence_parts False [] content))"

text \<open>The claims of a source; explicit ones win.\<close>

definition claims_of :: "research_source \<Rightarrow> string list" where
  "claims_of s =
     (let cs = filter (\<lambda>c. c \<noteq> []) (map strip_str (so_claims s)) in if cs = [] then split_sentences (so_content s) else cs)"

definition evidence_for ::
  "(real \<Rightarrow> real) \<Rightarrow> real \<Rightarrow> string \<Rightarrow> research_source \<Rightarrow> string \<Rightarrow> string \<Rightarrow> evidence" where
  "evidence_for round3 now i s query claim =
     (let rel = round3 (evidence_relevance query claim) in
      \<lparr>ent_id = i, ent_created = now, ent_updated = now, ed_source = ent_id s, ed_claim = claim, ed_reference = take 160 claim,
       ed_topic = topic_of claim, ed_confidence = round3 (min (95 / 100) (4 / 10 + 6 / 10 * rel)), ed_relevance = rel\<rparr>)"

definition extract_evidence ::
  "(real \<Rightarrow> real) \<Rightarrow> real \<Rightarrow> (string \<Rightarrow> nat \<Rightarrow> string) \<Rightarrow> research_source \<Rightarrow> string \<Rightarrow> evidence list" where
  "extract_evidence round3 now new_id s query =
     map (\<lambda>(n, claim). evidence_for round3 now (new_id (ent_id s) n) s query claim) (enumerate 0 (claims_of s))"

subsection \<open>Ranking\<close>

definition source_freshness :: "(real \<Rightarrow> real) \<Rightarrow> real \<Rightarrow> real \<Rightarrow> real" where
  "source_freshness round3 retrieved now =
     (let age = max 0 ((now - retrieved) / 86400) in round3 (1 / (1 + age / 30)))"

definition evidence_score :: "(real \<Rightarrow> real) \<Rightarrow> real \<Rightarrow> evidence \<Rightarrow> research_source \<Rightarrow> real" where
  "evidence_score round3 now e s =
     round3 (5 / 10 * ed_relevance e + 3 / 10 * source_freshness round3 (so_retrieved s) now
       + 2 / 10 * min 1 (max 0 (so_quality s)))"

definition source_lookup :: "research_source list \<Rightarrow> (string \<times> research_source) list" where
  "source_lookup ss = fold (\<lambda>s d. dict_set (ent_id s) s d) ss []"

definition rank_evidence :: "(real \<Rightarrow> real) \<Rightarrow> real \<Rightarrow> (string \<times> research_source) list \<Rightarrow> evidence list \<Rightarrow> evidence list" where
  "rank_evidence round3 now sources es =
     map snd (sort_key (\<lambda>x. - fst x)
       (concat (map (\<lambda>e. case map_of sources (ed_source e) of
            None \<Rightarrow> [] | Some s \<Rightarrow> [(evidence_score round3 now e s, e)]) es)))"

definition source_scores :: "(real \<Rightarrow> real) \<Rightarrow> real \<Rightarrow> research_source list \<Rightarrow> evidence list \<Rightarrow> string \<Rightarrow> real list" where
  "source_scores round3 now ss es i =
     concat (map (\<lambda>e. if ed_source e = i then (case map_of (source_lookup ss) i of
          None \<Rightarrow> [] | Some s \<Rightarrow> [evidence_score round3 now e s]) else []) es)"

definition mean_score :: "real list \<Rightarrow> real" where
  "mean_score xs = (if xs = [] then 0 else sum_list xs / real (length xs))"

definition rank_sources :: "(real \<Rightarrow> real) \<Rightarrow> real \<Rightarrow> research_source list \<Rightarrow> evidence list \<Rightarrow> research_source list" where
  "rank_sources round3 now ss es = sort_key (\<lambda>s. - mean_score (source_scores round3 now ss es (ent_id s))) ss"

subsection \<open>Conflicts\<close>

definition by_topic :: "evidence list \<Rightarrow> (string \<times> evidence list) list" where
  "by_topic es = fold (\<lambda>e d. dict_set (ed_topic e) (case map_of d (ed_topic e) of None \<Rightarrow> [e] | Some xs \<Rightarrow> xs @ [e]) d) es []"

definition claim_key :: "evidence \<Rightarrow> string" where
  "claim_key e = lower_str (strip_str (ed_claim e))"

definition claim_variants :: "evidence list \<Rightarrow> (string \<times> evidence) list" where
  "claim_variants es = fold (\<lambda>e d. if map_of d (claim_key e) = None then dict_set (claim_key e) e d else d) es []"

definition topic_conflict :: "(string \<Rightarrow> string) \<Rightarrow> real \<Rightarrow> string \<times> evidence list \<Rightarrow> conflict list" where
  "topic_conflict new_id now x =
     (let variants = claim_variants (snd x);
          sources = sort (remdups (map (ed_source \<circ> snd) variants));
          ordered = map snd (sort_key fst variants)
      in if length variants < 2 \<or> length sources < 2 then []
         else [\<lparr>ent_id = new_id (fst x), ent_created = now, ent_updated = now, cf_topic = fst x,
                cf_evidence = map ent_id ordered, cf_claims = map ed_claim ordered, cf_sources = sources,
                cf_reason = nat_digits (length ordered) @ '' differing claims on one topic from ''
                  @ nat_digits (length sources) @ '' sources; preserved, not merged''\<rparr>])"

definition detect_evidence_conflicts :: "(string \<Rightarrow> string) \<Rightarrow> real \<Rightarrow> evidence list \<Rightarrow> conflict list" where
  "detect_evidence_conflicts new_id now es = concat (map (topic_conflict new_id now) (sort_key fst (by_topic es)))"

subsection \<open>The pipeline\<close>

text \<open>
  \<open>rm_now\<close> is the clock of the ranking, \<open>rm_evidence_id\<close> names the evidence of a source by its place,
  \<open>rm_conflict_id\<close> the conflict of a topic, \<open>rm_result_id\<close> the result.
\<close>

record ('w, 'h) researcher =
  rm_collector :: "('w, 'h) collector"
  rm_bus :: bool
  rm_round3 :: "real \<Rightarrow> real"
  rm_now :: real
  rm_evidence_id :: "string \<Rightarrow> nat \<Rightarrow> string"
  rm_conflict_id :: "string \<Rightarrow> string"
  rm_result_id :: string

definition research_event :: "('w, 'h) researcher \<Rightarrow> string \<Rightarrow> (string \<times> json) list \<Rightarrow> event list" where
  "research_event m ty pl = (if rm_bus m then [mk_event ty [] (JObj pl)] else [])"

definition mean_confidence :: "(real \<Rightarrow> real) \<Rightarrow> evidence list \<Rightarrow> real" where
  "mean_confidence round3 es = (if es \<noteq> [] then round3 (sum_list (map ed_confidence es) / real (length es)) else 0)"

definition research_report ::
  "('w, 'h) researcher \<Rightarrow> research_query \<Rightarrow> research_source list \<Rightarrow> evidence list \<Rightarrow> conflict list \<Rightarrow> collection \<Rightarrow> real \<Rightarrow> string list
     \<Rightarrow> research_outcome" where
  "research_report m q ss es cs c confidence notes =
     \<lparr>ent_id = rm_result_id m, ent_created = rm_now m, ent_updated = rm_now m, rr_query = rq_query q, rr_sources = ss,
      rr_evidence = es, rr_conflicts = cs, rr_duplicates = co_duplicates c, rr_confidence = confidence, rr_notes = notes\<rparr>"

definition extract_all :: "('w, 'h) researcher \<Rightarrow> research_query \<Rightarrow> research_source list \<Rightarrow> evidence list" where
  "extract_all m q ss = concat (map (\<lambda>s. extract_evidence (rm_round3 m) (rm_now m) (rm_evidence_id m) s (rq_query q)) ss)"

definition research_events :: "('w, 'h) researcher \<Rightarrow> research_query \<Rightarrow> collection \<Rightarrow> research_source list \<Rightarrow> event list" where
  "research_events m q c ss =
     concat (map (\<lambda>why. research_event m ''SourceRejected'' [(''reason'', JStr why)]) (co_rejected c))
     @ concat (map (\<lambda>s. research_event m ''SourceCollected'' [(''source_id'', JStr (ent_id s)), (''origin'', JStr (so_origin s))]) ss)
     @ concat (map (\<lambda>s. research_event m ''EvidenceExtracted'' [(''source_id'', JStr (ent_id s)),
          (''evidence'', JInt (int (length (claims_of s))))]) ss)"

definition report_of :: "('w, 'h) researcher \<Rightarrow> research_query \<Rightarrow> collection \<Rightarrow> research_outcome \<times> event list" where
  "report_of m q c =
     (let ss = take (nat (max 0 (rq_max_sources q))) (co_sources c);
          found = filter (\<lambda>e. ed_confidence e \<ge> rq_min_confidence q) (extract_all m q ss);
          es = rank_evidence (rm_round3 m) (rm_now m) (source_lookup ss) found;
          ranked = rank_sources (rm_round3 m) (rm_now m) ss es;
          cs = detect_evidence_conflicts (rm_conflict_id m) (rm_now m) es;
          confidence = mean_confidence (rm_round3 m) es;
          notes = [nat_digits (length (co_duplicates c)) @ '' duplicate(s) merged.'']
      in if co_error c \<noteq> [] \<and> ss = []
         then (research_report m q [] [] [] c confidence (notes @ [''collection failed: '' @ co_error c]),
               research_event m ''ResearchFailed'' [(''error'', JStr (co_error c))])
         else (research_report m q ranked es cs c confidence
                 (notes @ (if co_error c \<noteq> [] \<and> ss \<noteq> [] then [''partial results after collection error: '' @ co_error c] else [])
                    @ (if ss = [] then [''no results for query''] else [])),
               research_event m ''ResearchCompleted'' [(''sources'', JInt (int (length ss))), (''evidence'', JInt (int (length es))),
                 (''conflicts'', JInt (int (length cs)))]))"

definition research :: "('w, 'h) researcher \<Rightarrow> research_query \<Rightarrow> string \<Rightarrow> 'w \<times> event list \<Rightarrow> research_outcome result \<times> 'w \<times> event list" where
  "research m q task we =
     (case we of (w, evs) \<Rightarrow>
      let evs1 = evs @ research_event m ''ResearchStarted'' [(''query'', JStr (rq_query q))] in
      case collect_sources (rm_collector m) q task w of
        (Inl e, w') \<Rightarrow> (Inl e, w', evs1)
      | (Inr c, w') \<Rightarrow>
          let (report, last_events) = report_of m q c;
              ss = take (nat (max 0 (rq_max_sources q))) (co_sources c)
          in (Inr report, w', evs1 @ research_events m q c ss @ last_events))"

text \<open>\<open>verify_research\<close>; \<open>days\<close> is the text of an age with one decimal.\<close>

definition source_problems :: "(real \<Rightarrow> string) \<Rightarrow> real \<Rightarrow> real \<Rightarrow> research_source \<Rightarrow> string list" where
  "source_problems days max_age now s =
     (let age = (now - so_retrieved s) / 86400 in
      (if so_origin s = [] then [''missing origin''] else [])
      @ (if so_url s = [] \<and> so_content s = [] \<and> so_claims s = [] then [''no retrievable content''] else [])
      @ (if age > max_age then [''stale ('' @ days age @ '' days old)''] else []))"

definition verify_research :: "(real \<Rightarrow> string) \<Rightarrow> real \<Rightarrow> real \<Rightarrow> research_outcome \<Rightarrow> verification_result" where
  "verify_research days max_age now r =
     (let n = length (rr_sources r);
          problems = source_problems days max_age now;
          failures = (if n = 0 then [''no sources collected''] else [])
            @ map (\<lambda>s. take 8 (ent_id s) @ '': '' @ join_str '', '' (problems s)) (filter (\<lambda>s. problems s \<noteq> []) (rr_sources r));
          good = map (\<lambda>s. take 8 (ent_id s) @ '': '' @ so_origin s @ '' ok'') (filter (\<lambda>s. problems s = []) (rr_sources r));
          checks = (if n = 0 then [] else [nat_digits n @ '' source(s) collected''])
            @ (if n = 1 then [''single source: claims are unsupported by corroboration'']
               else if n > 1 then [''multi-source support: '' @ nat_digits n @ '' sources''] else [])
      in \<lparr>vr_task_id = [], vr_step_id = ''research'', vr_status = (if failures \<noteq> [] then VS_FAILED else VS_PASSED),
          vr_strategy = ''source_verification'', vr_checks = checks, vr_evidence = good,
          vr_reason = (if failures \<noteq> [] then join_str ''; '' failures else ''sources exist with valid metadata'')\<rparr>)"

subsection \<open>Every entry is accounted for\<close>

definition parse_ok :: "(string \<Rightarrow> string) \<Rightarrow> (string \<times> string) list \<times> collection \<Rightarrow> bool" where
  "parse_ok sha st \<longleftrightarrow> (case st of (seen, c) \<Rightarrow>
     seen = map (\<lambda>s. (source_key sha s, ent_id s)) (co_sources c)
     \<and> distinct (map (source_key sha) (co_sources c))
     \<and> (\<forall>s \<in> set (co_sources c). so_origin s \<noteq> [] \<and> (so_content s \<noteq> [] \<or> so_claims s \<noteq> []))
     \<and> (\<forall>d \<in> set (co_duplicates c). \<exists>s \<in> set (co_sources c). du_of d = ent_id s))"

definition accounted :: "collection \<Rightarrow> nat" where
  "accounted c = length (co_sources c) + length (co_rejected c) + length (co_duplicates c)"

lemma parse_entry_ok:
  assumes "parse_ok sha (seen, c)" "parse_entry sha read index x (seen, c) = (seen', c')"
  shows "parse_ok sha (seen', c') \<and> accounted c' = accounted c + 1
    \<and> co_attempts c' = co_attempts c \<and> co_error c' = co_error c"
proof (cases x)
  case (JObj ms)
  show ?thesis
  proof (cases "read index ms")
    case (Inl err)
    with JObj assms show ?thesis by (auto simp: parse_entry_def reject_entry_def parse_ok_def accounted_def)
  next
    case (Inr s)
    consider "so_origin s = []" | "so_origin s \<noteq> []" "so_content s = []" "so_claims s = []"
      | "so_origin s \<noteq> []" "so_content s \<noteq> [] \<or> so_claims s \<noteq> []" by blast
    then show ?thesis
    proof cases
      case 3
      show ?thesis
      proof (cases "map_of seen (source_key sha s)")
        case None
        with assms(1) have new: "source_key sha s \<notin> set (keys seen)" by (simp add: map_of_None_keys del: set_map)
        have "seen' = seen @ [(source_key sha s, ent_id s)]" "c' = c\<lparr>co_sources := co_sources c @ [s]\<rparr>"
          using assms(2) JObj Inr 3 None dict_set_new [OF new] by (auto simp: parse_entry_def)
        with assms(1) new 3 show ?thesis by (auto simp: parse_ok_def accounted_def)
      next
        case (Some i)
        then have "\<exists>t \<in> set (co_sources c). i = ent_id t"
          using assms(1) by (auto simp: parse_ok_def dest!: map_of_SomeD)
        moreover have "seen' = seen" "c' = c\<lparr>co_duplicates := co_duplicates c @
            [\<lparr>du_source = ent_id s, du_of = i, du_reason = ''identical source reference already collected''\<rparr>]\<rparr>"
          using assms(2) JObj Inr 3 Some by (auto simp: parse_entry_def)
        ultimately show ?thesis using assms(1) by (simp add: parse_ok_def accounted_def)
      qed
    qed (use assms JObj Inr in \<open>auto simp: parse_entry_def reject_entry_def parse_ok_def accounted_def\<close>)
  qed
qed (use assms in \<open>auto simp: parse_entry_def reject_entry_def parse_ok_def accounted_def\<close>)

lemma parse_entries_ok:
  "parse_ok sha (seen, c) \<Longrightarrow> parse_entries sha read index xs (seen, c) = (seen', c')
     \<Longrightarrow> parse_ok sha (seen', c') \<and> accounted c' = accounted c + length xs
        \<and> co_attempts c' = co_attempts c \<and> co_error c' = co_error c"
proof (induction xs arbitrary: index seen c)
  case (Cons x xs)
  obtain seen1 c1 where s: "parse_entry sha read index x (seen, c) = (seen1, c1)" by fastforce
  note step = parse_entry_ok [OF Cons.prems(1) s]
  with Cons.IH [of seen1 c1 "Suc index"] Cons.prems(2) s show ?case by simp
qed simp

lemma parsed_ok:
  assumes "parse_output sha read output attempts = Inr c"
  shows "parse_ok sha (map (\<lambda>s. (source_key sha s, ent_id s)) (co_sources c), c)
    \<and> (\<exists>xs. entries_of output = Inr xs \<and> accounted c = length xs)"
proof -
  obtain xs where xs: "entries_of output = Inr xs" "c = snd (parse_entries sha read 0 xs ([], nothing_collected attempts []))"
    using assms by (auto simp: parse_output_def bind_result_Inr_iff)
  obtain seen' c' where r: "parse_entries sha read 0 xs ([], nothing_collected attempts []) = (seen', c')" by fastforce
  have "parse_ok sha ([], nothing_collected attempts [])" and a: "accounted (nothing_collected attempts []) = 0"
    by (simp_all add: parse_ok_def nothing_collected_def accounted_def)
  note p = parse_entries_ok [OF this(1) r]
  have c: "c' = c" using xs(2) r by simp
  have "seen' = map (\<lambda>s. (source_key sha s, ent_id s)) (co_sources c)" using p by (simp add: parse_ok_def c)
  with p xs(1) a c show ?thesis by simp
qed

text \<open>
  Reading the output of the search tool loses nothing: every entry becomes a source, a rejection
  with its reason or a duplicate, the sources have pairwise different references, each with an
  origin and content, and every duplicate names the collected source it repeats.
\<close>

theorem entries_are_accounted:
  assumes "parse_output sha read output attempts = Inr c"
  shows "(\<exists>xs. entries_of output = Inr xs \<and> length (co_sources c) + length (co_rejected c) + length (co_duplicates c) = length xs)
    \<and> distinct (map (source_key sha) (co_sources c))
    \<and> (\<forall>s \<in> set (co_sources c). so_origin s \<noteq> [] \<and> (so_content s \<noteq> [] \<or> so_claims s \<noteq> []))
    \<and> (\<forall>d \<in> set (co_duplicates c). \<exists>s \<in> set (co_sources c). du_of d = ent_id s)"
  using parsed_ok [OF assms] by (simp add: parse_ok_def accounted_def)

lemma search_attempts_ok:
  assumes "search_attempts k q task attempt left (n, err) w = (Inr c, w')" "n \<le> int attempt + int left - 1"
  shows "parse_ok (cs_sha k) (map (\<lambda>s. (source_key (cs_sha k) s, ent_id s)) (co_sources c), c)
    \<and> co_attempts c \<le> int attempt + int left - 1"
  using assms
proof (induction left arbitrary: attempt n err w)
  case 0
  then show ?case by (auto simp: nothing_collected_def parse_ok_def)
next
  case (Suc left)
  have none: "parse_ok (cs_sha k) (map (\<lambda>s. (source_key (cs_sha k) s, ent_id s)) (co_sources (nothing_collected a e)), nothing_collected a e)"
    for a e by (simp add: nothing_collected_def parse_ok_def)
  obtain call where call: "build_call (cs_new_id k attempt) task (cs_tool k)
      (JObj [(''query'', JStr (rq_query q)), (''max_results'', JInt (rq_max_sources q))]) (cs_registry k) = Inr call"
    using Suc.prems(1) by (auto split: sum.splits)
  obtain x w1 where run: "cs_run k call w = (x, w1)" by fastforce
  show ?case
  proof (cases x)
    case (Inl e)
    with Suc.prems call run have "c = nothing_collected (int attempt) (''runner raised: '' @ e)" by simp
    with none show ?thesis by (simp add: nothing_collected_def)
  next
    case (Inr r)
    show ?thesis
    proof (cases "tr_success r")
      case True
      with Suc.prems call run Inr have p: "parse_output (cs_sha k) (cs_read k) (tr_output r) (int attempt) = Inr c" by simp
      then obtain xs where "c = snd (parse_entries (cs_sha k) (cs_read k) 0 xs ([], nothing_collected (int attempt) []))"
        by (auto simp: parse_output_def bind_result_Inr_iff)
      moreover obtain seen' c' where "parse_entries (cs_sha k) (cs_read k) 0 xs ([], nothing_collected (int attempt) []) = (seen', c')"
        by fastforce
      moreover have "parse_ok (cs_sha k) ([], nothing_collected (int attempt) [])" by (simp add: parse_ok_def nothing_collected_def)
      ultimately have "co_attempts c = int attempt" using parse_entries_ok by (fastforce simp: nothing_collected_def)
      with parsed_ok [OF p] show ?thesis by simp
    next
      case False
      let ?err = "error_or ''search tool failed'' (tr_error r)"
      show ?thesis
      proof (cases "should_retry (cs_retry k) (classify_tool_result r) (int attempt - 1)")
        case True
        with False Suc.prems call run Inr
        have "search_attempts k q task (Suc attempt) left (int attempt, ?err) w1 = (Inr c, w')" by (simp add: Let_def)
        from Suc.IH [OF this] show ?thesis by simp
      next
        case stop: False
        with False Suc.prems call run Inr have "c = nothing_collected (int attempt) ?err" by (simp add: Let_def)
        with none show ?thesis by (simp add: nothing_collected_def)
      qed
    qed
  qed
qed

lemma collect_sources_ok:
  assumes "collect_sources k q task w = (Inr c, w')"
  shows "parse_ok (cs_sha k) (map (\<lambda>s. (source_key (cs_sha k) s, ent_id s)) (co_sources c), c)
    \<and> co_attempts c \<le> max 1 (cs_max_attempts k)"
proof -
  have n: "int 1 + int (nat (max 1 (cs_max_attempts k))) - 1 = max 1 (cs_max_attempts k)" by simp
  have "0 \<le> max 1 (cs_max_attempts k)" by simp
  with search_attempts_ok [OF assms [unfolded collect_sources_def], unfolded n] show ?thesis by blast
qed

subsection \<open>Provenance\<close>

lemma lookup_mem:
  assumes "map_of (fold (\<lambda>s d. dict_set (ent_id s) s d) ss d0) i = Some s"
  shows "(s \<in> set ss \<and> ent_id s = i) \<or> map_of d0 i = Some s"
  using assms
proof (induction ss arbitrary: d0)
  case (Cons x ss)
  from Cons.IH [of "dict_set (ent_id x) x d0"] Cons.prems show ?case by (auto split: if_splits)
qed simp

lemma source_lookup_mem: "map_of (source_lookup ss) i = Some s \<Longrightarrow> s \<in> set ss \<and> ent_id s = i"
  using lookup_mem [of ss "[]" i s] by (simp add: source_lookup_def)

lemma lookup_known:
  "s \<in> set ss \<or> ent_id s \<in> set (keys d0) \<Longrightarrow> ent_id s \<in> set (keys (fold (\<lambda>s d. dict_set (ent_id s) s d) ss d0))"
proof (induction ss arbitrary: d0)
  case (Cons x ss)
  have "set (keys (dict_set (ent_id x) x d0)) = insert (ent_id x) (set (keys d0))" by simp
  then have "s \<in> set ss \<or> ent_id s \<in> set (keys (dict_set (ent_id x) x d0))" using Cons.prems by auto
  from Cons.IH [OF this] show ?case by simp
qed simp

lemma set_rank_evidence:
  "set (rank_evidence round3 now sources es) = {e \<in> set es. ed_source e \<in> set (keys sources)}"
proof -
  have "x \<in> set (keys sources) \<longleftrightarrow> (\<exists>s. map_of sources x = Some s)" for x
    by (metis map_of_None_keys not_None_eq)
  then show ?thesis by (force simp: rank_evidence_def split: option.splits)
qed

lemma evidence_for_simps [simp]:
  "ed_source (evidence_for r now i s q claim) = ent_id s"
  "ed_claim (evidence_for r now i s q claim) = claim"
  "ed_topic (evidence_for r now i s q claim) = topic_of claim"
  by (simp_all add: evidence_for_def Let_def)

lemma extract_all_mem:
  "e \<in> set (extract_all m q ss) \<Longrightarrow> \<exists>s \<in> set ss. ed_source e = ent_id s \<and> ed_claim e \<in> set (claims_of s)
     \<and> ed_topic e = topic_of (ed_claim e)"
  by (auto simp: extract_all_def extract_evidence_def in_set_enumerate_eq)

text \<open>Nothing extracted from the kept sources is dropped by the ranking.\<close>

lemma ranked_extracted:
  "set (rank_evidence r now (source_lookup ss) (filter P (extract_all m q ss))) = {e \<in> set (extract_all m q ss). P e}"
proof -
  have "ed_source e \<in> set (keys (source_lookup ss))" if ex: "e \<in> set (extract_all m q ss)" for e
  proof -
    obtain s where "s \<in> set ss" "ed_source e = ent_id s" using extract_all_mem [OF ex] by blast
    then show ?thesis using lookup_known [of s ss "[]"] by (simp add: source_lookup_def del: set_map)
  qed
  then show ?thesis unfolding set_rank_evidence set_filter by blast
qed

lemma dict_set_mem: "x \<in> set (dict_set k v d) \<Longrightarrow> x = (k, v) \<or> x \<in> set d"
  by (induction d) (auto split: if_splits)

lemma by_topic_mem:
  assumes "(tp, xs) \<in> set (fold (\<lambda>e d. dict_set (ed_topic e) (case map_of d (ed_topic e) of None \<Rightarrow> [e] | Some xs \<Rightarrow> xs @ [e]) d) es d0)"
    and "\<And>tp xs. (tp, xs) \<in> set d0 \<Longrightarrow> \<forall>e \<in> set xs. e \<in> S \<and> ed_topic e = tp" "set es \<subseteq> S"
  shows "\<forall>e \<in> set xs. e \<in> S \<and> ed_topic e = tp"
  using assms
proof (induction es arbitrary: d0)
  case (Cons e es)
  let ?v = "case map_of d0 (ed_topic e) of None \<Rightarrow> [e] | Some xs \<Rightarrow> xs @ [e]"
  show ?case
  proof (rule Cons.IH [of "dict_set (ed_topic e) ?v d0"])
    fix tp xs assume "(tp, xs) \<in> set (dict_set (ed_topic e) ?v d0)"
    then have "(tp, xs) \<in> set d0 \<or> (tp = ed_topic e \<and> xs = ?v)" using dict_set_mem by fastforce
    then show "\<forall>e \<in> set xs. e \<in> S \<and> ed_topic e = tp"
    proof
      assume "tp = ed_topic e \<and> xs = ?v"
      with Cons.prems(2) [of "ed_topic e"] Cons.prems(3) show ?thesis by (cases "map_of d0 (ed_topic e)") (auto dest: map_of_SomeD)
    qed (use Cons.prems(2) in blast)
  qed (use Cons.prems in auto)
qed auto

lemma variants_ok:
  assumes "\<forall>(k, e) \<in> set d0. claim_key e = k \<and> e \<in> S" "set es \<subseteq> S" "distinct (keys d0)"
  shows "(\<forall>(k, e) \<in> set (fold (\<lambda>e d. if map_of d (claim_key e) = None then dict_set (claim_key e) e d else d) es d0).
      claim_key e = k \<and> e \<in> S)
    \<and> distinct (keys (fold (\<lambda>e d. if map_of d (claim_key e) = None then dict_set (claim_key e) e d else d) es d0))"
  using assms
proof (induction es arbitrary: d0)
  case (Cons e es)
  let ?d = "if map_of d0 (claim_key e) = None then dict_set (claim_key e) e d0 else d0"
  have "\<forall>(k, e) \<in> set ?d. claim_key e = k \<and> e \<in> S"
  proof (intro ballI, clarify)
    fix k x assume "(k, x) \<in> set ?d"
    then have "(k, x) = (claim_key e, e) \<or> (k, x) \<in> set d0" using dict_set_mem by (metis (full_types))
    then show "claim_key x = k \<and> x \<in> S" using Cons.prems(1,2) by auto
  qed
  moreover have "set es \<subseteq> S" using Cons.prems(2) by simp
  moreover have "distinct (keys ?d)" using Cons.prems(3) by (simp add: distinct_keys_dict_set)
  ultimately have "(\<forall>(k, e) \<in> set (fold (\<lambda>e d. if map_of d (claim_key e) = None then dict_set (claim_key e) e d else d) es ?d).
      claim_key e = k \<and> e \<in> S)
    \<and> distinct (keys (fold (\<lambda>e d. if map_of d (claim_key e) = None then dict_set (claim_key e) e d else d) es ?d))"
    by (rule Cons.IH)
  then show ?case unfolding fold_simps .
qed simp

definition real_conflict :: "evidence list \<Rightarrow> conflict \<Rightarrow> bool" where
  "real_conflict all k \<longleftrightarrow> (\<exists>es. set es \<subseteq> set all \<and> cf_evidence k = map ent_id es \<and> cf_claims k = map ed_claim es
     \<and> (\<forall>e \<in> set es. ed_topic e = cf_topic k) \<and> distinct (map claim_key es) \<and> 2 \<le> length es
     \<and> set (cf_sources k) = ed_source ` set es \<and> 2 \<le> card (ed_source ` set es))"

lemma topic_conflict_ok:
  assumes "k \<in> set (topic_conflict new_id now (tp, es))" "\<forall>e \<in> set es. e \<in> set all \<and> ed_topic e = tp"
  shows "real_conflict all k"
proof -
  let ?v = "claim_variants es"
  let ?o = "map snd (sort_key fst ?v)"
  let ?src = "sort (remdups (map (ed_source \<circ> snd) ?v))"
  have v: "\<forall>(c, e) \<in> set ?v. claim_key e = c \<and> e \<in> set es" "distinct (keys ?v)"
    using variants_ok [of "[]" "set es" es] by (simp_all add: claim_variants_def)
  have k: "k = \<lparr>ent_id = new_id tp, ent_created = now, ent_updated = now, cf_topic = tp,
      cf_evidence = map ent_id ?o, cf_claims = map ed_claim ?o, cf_sources = ?src,
      cf_reason = nat_digits (length ?o) @ '' differing claims on one topic from ''
        @ nat_digits (length ?src) @ '' sources; preserved, not merged''\<rparr>"
    and len: "2 \<le> length ?v" "2 \<le> length ?src"
    using assms(1) by (auto simp: topic_conflict_def Let_def split: if_splits)
  have o: "set ?o = snd ` set ?v" by simp
  have dist: "distinct (map fst (sort_key fst ?v))"
    using v(2) mset_eq_imp_distinct_iff [of "map fst (sort_key fst ?v)" "map fst ?v"] by simp
  have "map claim_key ?o = map fst (sort_key fst ?v)" using v(1) by (auto simp: comp_def)
  with dist have "distinct (map claim_key ?o)" by (simp only:)
  moreover have "set ?o \<subseteq> set all" "\<forall>e \<in> set ?o. ed_topic e = tp" using v(1) assms(2) by auto
  moreover have src: "set ?src = ed_source ` set ?o" by (auto simp: image_iff)
  moreover have "2 \<le> card (ed_source ` set ?o)"
  proof -
    have "card (set ?src) = length ?src" by (rule distinct_card) simp
    with len(2) src show ?thesis by simp
  qed
  ultimately show ?thesis unfolding real_conflict_def using k len(1)
    by (intro exI [of _ ?o]) simp
qed

lemma conflicts_ok: "\<forall>k \<in> set (detect_evidence_conflicts new_id now es). real_conflict es k"
proof
  fix k assume "k \<in> set (detect_evidence_conflicts new_id now es)"
  then obtain tp xs where x: "(tp, xs) \<in> set (by_topic es)" "k \<in> set (topic_conflict new_id now (tp, xs))"
    by (auto simp: detect_evidence_conflicts_def)
  have "\<forall>e \<in> set xs. e \<in> set es \<and> ed_topic e = tp"
    by (rule by_topic_mem [OF x(1) [unfolded by_topic_def]]) simp_all
  with x(2) show "real_conflict es k" by (rule topic_conflict_ok)
qed

text \<open>
  C26: provenance is kept. Whatever the search tool returned, every claim of a research result
  reaches the required confidence and is a claim of a source of the result; the sources are at most
  as many as asked for, have pairwise different references and each an origin; and every conflict
  lists evidence of the result on its topic, with pairwise different claims from at least two
  sources, nothing merged.
\<close>

theorem provenance_is_kept:
  assumes "research m q task we = (Inr r, we')"
  shows "(\<forall>e \<in> set (rr_evidence r). rq_min_confidence q \<le> ed_confidence e
      \<and> (\<exists>s \<in> set (rr_sources r). ed_source e = ent_id s \<and> ed_claim e \<in> set (claims_of s)))
    \<and> length (rr_sources r) \<le> nat (rq_max_sources q)
    \<and> distinct (map (source_key (cs_sha (rm_collector m))) (rr_sources r)) \<and> (\<forall>s \<in> set (rr_sources r). so_origin s \<noteq> [])
    \<and> (\<forall>k \<in> set (rr_conflicts r). real_conflict (rr_evidence r) k)"
proof -
  obtain w evs where we: "we = (w, evs)" by fastforce
  obtain c w' where c: "collect_sources (rm_collector m) q task w = (Inr c, w')" "r = fst (report_of m q c)"
    using assms we by (auto simp: research_def Let_def split: sum.splits prod.splits)
  let ?sha = "cs_sha (rm_collector m)"
  let ?ss = "take (nat (max 0 (rq_max_sources q))) (co_sources c)"
  let ?es = "rank_evidence (rm_round3 m) (rm_now m) (source_lookup ?ss)
    (filter (\<lambda>e. ed_confidence e \<ge> rq_min_confidence q) (extract_all m q ?ss))"
  have p: "parse_ok ?sha (map (\<lambda>s. (source_key ?sha s, ent_id s)) (co_sources c), c)"
    using collect_sources_ok [OF c(1)] by blast
  then have d: "distinct (map (source_key ?sha) ?ss)" and o: "\<forall>s \<in> set ?ss. so_origin s \<noteq> []"
    by (auto simp: parse_ok_def take_map [symmetric] dest: in_set_takeD)
  show ?thesis
  proof (cases "co_error c \<noteq> [] \<and> ?ss = []")
    case True
    then have "rr_sources r = []" "rr_evidence r = []" "rr_conflicts r = []"
      unfolding c(2) report_of_def Let_def if_P [OF True] by (simp_all add: research_report_def)
    then show ?thesis by simp
  next
    case False
    have r: "rr_evidence r = ?es" "rr_conflicts r = detect_evidence_conflicts (rm_conflict_id m) (rm_now m) ?es"
      "rr_sources r = rank_sources (rm_round3 m) (rm_now m) ?ss ?es"
      unfolding c(2) report_of_def Let_def if_not_P [OF False] by (simp_all add: research_report_def)
    have ms: "mset (rr_sources r) = mset ?ss" unfolding r rank_sources_def by simp
    then have st: "set (rr_sources r) = set ?ss" by (metis set_mset_mset)
    have "\<forall>e \<in> set (rr_evidence r). rq_min_confidence q \<le> ed_confidence e
      \<and> (\<exists>s \<in> set (rr_sources r). ed_source e = ent_id s \<and> ed_claim e \<in> set (claims_of s))"
      unfolding st r(1) ranked_extracted using extract_all_mem by blast
    moreover have "length (rr_sources r) \<le> nat (rq_max_sources q)"
      using ms [THEN mset_eq_length] by simp
    moreover have "distinct (map (source_key ?sha) (rr_sources r))"
      using d mset_eq_imp_distinct_iff [of "map (source_key ?sha) (rr_sources r)" "map (source_key ?sha) ?ss"] ms by simp
    ultimately show ?thesis using o conflicts_ok unfolding st r(1,2) by blast
  qed
qed

subsection \<open>Examples\<close>

definition web_source :: "string \<Rightarrow> string \<Rightarrow> string \<Rightarrow> research_source" where
  "web_source i url claim = \<lparr>ent_id = i, ent_created = 0, ent_updated = 0, so_title = [], so_origin = ''web'', so_url = url,
     so_retrieved = 0, so_content = [], so_claims = [claim], so_quality = 1, so_metadata = []\<rparr>"

text \<open>Three entries, the second repeating the reference of the first.\<close>

definition read_demo :: "nat \<Rightarrow> (string \<times> json) list \<Rightarrow> string + research_source" where
  "read_demo n ms = Inr (if n = 0 then web_source ''s1'' ''http://a/'' ''solar power prices fell''
     else if n = 1 then web_source ''s2'' ''HTTP://A#x'' ''other''
     else web_source ''s3'' ''http://b'' ''Solar power prices rose'')"

definition demo_collector :: "(nat, unit) collector" where
  "demo_collector = \<lparr>cs_registry = \<lparr>rg_tools = [(''web.search'', shell_tool\<lparr>tool_name := ''web.search''\<rparr>)], rg_handlers = [], rg_guards = []\<rparr>,
     cs_run = (\<lambda>call n. (Inr \<lparr>tr_task_id = [], tr_tool_call_id = [], tr_success = (n > 0),
       tr_output = JObj [(''sources'', JList [JObj [], JObj [], JObj []])], tr_error = Some ''search timed out''\<rparr>, Suc n)),
     cs_tool = ''web.search'', cs_retry = \<lparr>rp_max_attempts = 1, rp_base_delay = 0, rp_max_delay = 0\<rparr>, cs_max_attempts = 2,
     cs_sha = id, cs_read = read_demo, cs_new_id = (\<lambda>_. ''c'')\<rparr>"

definition demo_researcher :: "(nat, unit) researcher" where
  "demo_researcher = \<lparr>rm_collector = demo_collector, rm_bus = False, rm_round3 = id, rm_now = 0,
     rm_evidence_id = (\<lambda>s n. s @ nat_digits n), rm_conflict_id = id, rm_result_id = ''r''\<rparr>"

definition demo_research :: research_query where
  "demo_research = \<lparr>ent_id = ''q'', ent_created = 0, ent_updated = 0, rq_query = ''solar prices'', rq_max_sources = 5,
     rq_max_age = 30, rq_min_confidence = 0\<rparr>"

lemma demo_report:
  "map_sum id (\<lambda>r. (map ed_claim (rr_evidence r), map so_url (rr_sources r), map cf_topic (rr_conflicts r), length (rr_duplicates r)))
     (fst (research demo_researcher demo_research ''t'' (0, [])))
   = Inr ([''solar power prices fell'', ''Solar power prices rose''], [''http://a/'', ''http://b''], [''solar power prices''], 1)"
  by code_simp

lemma provenance_is_kept_witness:
  "\<exists>r we. research demo_researcher demo_research ''t'' (0, []) = (Inr r, we) \<and> length (rr_evidence r) = 2
     \<and> distinct (map (source_key id) (rr_sources r)) \<and> length (rr_conflicts r) = 1"
proof -
  obtain r where f: "fst (research demo_researcher demo_research ''t'' (0, [])) = Inr r"
    using demo_report by (cases "fst (research demo_researcher demo_research ''t'' (0, []))") auto
  then have r: "research demo_researcher demo_research ''t'' (0, []) = (Inr r, snd (research demo_researcher demo_research ''t'' (0, [])))"
    by (metis prod.collapse)
  have "length (map ed_claim (rr_evidence r)) = 2" "length (map cf_topic (rr_conflicts r)) = 1"
    using demo_report f by simp_all
  then have "length (rr_evidence r) = 2" "length (rr_conflicts r) = 1" by simp_all
  moreover have "distinct (map (source_key id) (rr_sources r))"
    using conjunct1 [OF conjunct2 [OF conjunct2 [OF provenance_is_kept [OF r]]]] by (simp add: demo_researcher_def demo_collector_def)
  ultimately show ?thesis using r by blast
qed

text \<open>
  A conflict can be lost: only the first evidence of each claim counts, so the same three pieces of
  evidence are a conflict or none, by their order.
\<close>

definition fell_or_rose :: "string \<Rightarrow> string \<Rightarrow> evidence" where
  "fell_or_rose s claim = \<lparr>ent_id = s @ claim, ent_created = 0, ent_updated = 0, ed_source = s, ed_claim = claim, ed_reference = claim,
     ed_topic = ''prices'', ed_confidence = 1, ed_relevance = 1\<rparr>"

lemma conflict_depends_on_order:
  "detect_evidence_conflicts id 0 [fell_or_rose ''a'' ''fell'', fell_or_rose ''b'' ''fell'', fell_or_rose ''a'' ''rose''] = []
   \<and> length (detect_evidence_conflicts id 0 [fell_or_rose ''b'' ''fell'', fell_or_rose ''a'' ''fell'', fell_or_rose ''a'' ''rose'']) = 1"
  by code_simp

end
